(* ===== verification/Prelude.thy ===== *)
theory Prelude
  imports Main "HOL-Library.Word"
begin

text \<open>
  Shared vocabulary of the development: the machine integer types of the Rust sources, errors
  as values, the early-return combinators that stand for \<^verbatim>\<open>require(..)?\<close> and \<^verbatim>\<open>?\<close>, checked
  and saturating arithmetic on 64-bit values, and byte ranges of a buffer
  (\<^verbatim>\<open>&bytes[a..b]\<close> is \<open>subrange\<close>, \<^verbatim>\<open>bytes[a..b].copy_from_slice(..)\<close> is \<open>overwrite\<close>).
\<close>

section \<open>Machine integers and errors\<close>

type_synonym byte = "8 word"
type_synonym u16 = "16 word"
type_synonym u32 = "32 word"
type_synonym u64 = "64 word"
type_synonym bytes = "byte list"

text \<open>\<^verbatim>\<open>io::ErrorKind\<close> with its message; \<open>Panic\<close> is a failed \<^verbatim>\<open>assert!\<close>, \<^verbatim>\<open>expect\<close> or index.\<close>

datatype error =
    InvalidData string
  | InvalidInput string
  | OutOfMemory string
  | WouldBlock string
  | AlreadyExists string
  | NotFound string
  | UnexpectedEof string
  | Interrupted string
  | Other string
  | Panic string

type_synonym 'a result = "error + 'a"

section \<open>Early returns\<close>

definition ensure :: "bool \<Rightarrow> 'e \<Rightarrow> 'e + 'a \<Rightarrow> 'e + 'a" where
  "ensure c e k = (if c then k else Inl e)"

definition attempt :: "'e + 'a \<Rightarrow> ('a \<Rightarrow> 'e + 'b) \<Rightarrow> 'e + 'b" where
  "attempt r k = (case r of Inl e \<Rightarrow> Inl e | Inr x \<Rightarrow> k x)"

definition ok_or :: "'a option \<Rightarrow> 'e \<Rightarrow> 'e + 'a" where
  "ok_or x e = (case x of None \<Rightarrow> Inl e | Some v \<Rightarrow> Inr v)"

text \<open>\<^verbatim>\<open>map_err\<close>, and the \<^verbatim>\<open>From\<close> conversion of \<^verbatim>\<open>?\<close> into another error type.\<close>

definition map_err :: "('e \<Rightarrow> 'f) \<Rightarrow> 'e + 'a \<Rightarrow> 'f + 'a" where
  "map_err f r = (case r of Inl e \<Rightarrow> Inl (f e) | Inr x \<Rightarrow> Inr x)"

lemma ensure_simps [simp]:
  "ensure True e k = k"
  "ensure False e k = Inl e"
  by (simp_all add: ensure_def)

lemma ensure_eq_Inr [simp]: "ensure c e k = Inr x \<longleftrightarrow> c \<and> k = Inr x"
  by (simp add: ensure_def)

lemma ensure_holds: "c \<Longrightarrow> ensure c e k = k"
  by simp

lemma ensure_cong [cong]: "c = c' \<Longrightarrow> e = e' \<Longrightarrow> (c' \<Longrightarrow> k = k') \<Longrightarrow> ensure c e k = ensure c' e' k'"
  by (simp add: ensure_def)

lemma attempt_simps [simp]:
  "attempt (Inl e) k = Inl e"
  "attempt (Inr x) k = k x"
  by (simp_all add: attempt_def)

lemma attempt_eq_Inr [simp]: "attempt r k = Inr y \<longleftrightarrow> (\<exists>x. r = Inr x \<and> k x = Inr y)"
  by (cases r) auto

lemma ok_or_simps [simp]:
  "ok_or None e = Inl e"
  "ok_or (Some v) e = Inr v"
  by (simp_all add: ok_or_def)

lemma ok_or_eq_Inr [simp]: "ok_or x e = Inr v \<longleftrightarrow> x = Some v"
  by (cases x) auto

lemma map_err_simps [simp]:
  "map_err f (Inl e) = Inl (f e)"
  "map_err f (Inr x) = Inr x"
  by (simp_all add: map_err_def)

lemma map_err_eq_Inr [simp]: "map_err f r = Inr x \<longleftrightarrow> r = Inr x"
  by (cases r) auto

section \<open>Checked and saturating arithmetic\<close>

definition checked_add :: "u64 \<Rightarrow> u64 \<Rightarrow> u64 option" where
  "checked_add a b = (if unat a + unat b < 2 ^ 64 then Some (a + b) else None)"

lemma checked_add_Some:
  "checked_add a b = Some c \<longleftrightarrow> unat a + unat b < 2 ^ 64 \<and> c = a + b"
  by (auto simp: checked_add_def)

lemma unat_add_u64: "unat (a :: u64) + unat b < 2 ^ 64 \<Longrightarrow> unat (a + b) = unat a + unat b"
  by (simp add: unat_word_ariths)

lemma checked_add_unat: "checked_add a b = Some c \<Longrightarrow> unat c = unat a + unat b"
  by (auto simp: checked_add_Some unat_add_u64)

text \<open>The same operations where the model keeps a counter as a \<open>nat\<close> below \<open>2 ^ 64\<close>.\<close>

definition u64_max :: nat where
  "u64_max = 2 ^ 64 - 1"

definition nchecked_add :: "nat \<Rightarrow> nat \<Rightarrow> nat option" where
  "nchecked_add a b = (if a + b \<le> u64_max then Some (a + b) else None)"

definition nchecked_sub :: "nat \<Rightarrow> nat \<Rightarrow> nat option" where
  "nchecked_sub a b = (if b \<le> a then Some (a - b) else None)"

definition nchecked_mul :: "nat \<Rightarrow> nat \<Rightarrow> nat option" where
  "nchecked_mul a b = (if a * b \<le> u64_max then Some (a * b) else None)"

definition saturating_add :: "nat \<Rightarrow> nat \<Rightarrow> nat" where
  "saturating_add a b = min (a + b) u64_max"

text \<open>Unchecked arithmetic of a release build: both operators wrap at 64 bits.\<close>

definition wrapping_add :: "nat \<Rightarrow> nat \<Rightarrow> nat" where
  "wrapping_add a b = (a + b) mod 2 ^ 64"

definition wrapping_sub :: "nat \<Rightarrow> nat \<Rightarrow> nat" where
  "wrapping_sub a b = (a + (2 ^ 64 - b mod 2 ^ 64)) mod 2 ^ 64"

lemma nchecked_Some [simp]:
  "nchecked_add a b = Some c \<longleftrightarrow> a + b \<le> u64_max \<and> c = a + b"
  "nchecked_sub a b = Some c \<longleftrightarrow> b \<le> a \<and> c = a - b"
  "nchecked_mul a b = Some c \<longleftrightarrow> a * b \<le> u64_max \<and> c = a * b"
  by (auto simp: nchecked_add_def nchecked_sub_def nchecked_mul_def)

lemma wrapping_add_exact: "a + b \<le> u64_max \<Longrightarrow> wrapping_add a b = a + b"
  by (simp add: wrapping_add_def u64_max_def)

lemma wrapping_sub_exact: "b \<le> a \<Longrightarrow> a \<le> u64_max \<Longrightarrow> wrapping_sub a b = a - b"
  by (simp add: wrapping_sub_def u64_max_def mod_if)

section \<open>Geometry\<close>

definition BLOCK_SIZE :: nat where
  "BLOCK_SIZE = 4096"

definition MAX_REQUEST_BYTES :: nat where
  "MAX_REQUEST_BYTES = 1024 * 1024"

abbreviation BLOCK :: u64 where
  "BLOCK \<equiv> 4096"

definition is_multiple_of :: "u64 \<Rightarrow> u64 \<Rightarrow> bool" where
  "is_multiple_of a b \<longleftrightarrow> a mod b = 0"

lemma is_multiple_of_BLOCK: "is_multiple_of a BLOCK \<longleftrightarrow> 4096 dvd unat a"
proof -
  have "unat (a mod BLOCK) = unat a mod 4096"
    by (simp add: unat_mod)
  then show ?thesis
    by (auto simp: is_multiple_of_def dvd_eq_mod_eq_0 simp flip: unat_eq_0)
qed

definition next_multiple_of :: "nat \<Rightarrow> nat \<Rightarrow> nat" where
  "next_multiple_of a b = (if a mod b = 0 then a else a + (b - a mod b))"

lemma next_multiple_of_props:
  assumes "0 < b"
  shows "a \<le> next_multiple_of a b" and "b dvd next_multiple_of a b" and "next_multiple_of a b < a + b"
proof -
  show "a \<le> next_multiple_of a b" by (simp add: next_multiple_of_def)
  have "a + (b - a mod b) = b * (a div b + 1)"
    unfolding distrib_left mult_1_right
    using mult_div_mod_eq [of b a] mod_less_divisor [OF assms, of a] by linarith
  then show "b dvd next_multiple_of a b" by (auto simp: next_multiple_of_def)
  show "next_multiple_of a b < a + b" using assms by (simp add: next_multiple_of_def)
qed

section \<open>Byte ranges\<close>

definition subrange :: "'a list \<Rightarrow> nat \<Rightarrow> nat \<Rightarrow> 'a list" where
  "subrange bs off n = take n (drop off bs)"

definition overwrite :: "'a list \<Rightarrow> nat \<Rightarrow> 'a list \<Rightarrow> 'a list" where
  "overwrite bs off vs = take off bs @ vs @ drop (off + length vs) bs"

definition all_zero :: "bytes \<Rightarrow> bool" where
  "all_zero bs \<longleftrightarrow> (\<forall>b \<in> set bs. b = 0)"

named_theorems codec "rewriting of field reads after field writes"

lemma length_subrange [simp]: "off + n \<le> length bs \<Longrightarrow> length (subrange bs off n) = n"
  by (simp add: subrange_def)

lemma length_overwrite [simp]:
  "off + length vs \<le> length bs \<Longrightarrow> length (overwrite bs off vs) = length bs"
  by (simp add: overwrite_def)

lemma subrange_overwrite_same [codec]:
  "off + length vs \<le> length bs \<Longrightarrow> n = length vs \<Longrightarrow> subrange (overwrite bs off vs) off n = vs"
  by (simp add: subrange_def overwrite_def)

lemma subrange_overwrite_before [codec]:
  "off + n \<le> p \<Longrightarrow> p + length vs \<le> length bs \<Longrightarrow> subrange (overwrite bs p vs) off n = subrange bs off n"
  by (simp add: subrange_def overwrite_def drop_take)

lemma subrange_overwrite_after [codec]:
  "p + length vs \<le> off \<Longrightarrow> p + length vs \<le> length bs \<Longrightarrow>
   subrange (overwrite bs p vs) off n = subrange bs off n"
  by (simp add: subrange_def overwrite_def)

lemma subrange_replicate [codec]:
  "off + n \<le> m \<Longrightarrow> subrange (replicate m x) off n = replicate n x"
  by (simp add: subrange_def)

lemma subrange_overwrite_inside:
  assumes "a \<le> p" and "p + length v \<le> a + n" and "a + n \<le> length bs"
  shows "subrange (overwrite bs p v) a n = overwrite (subrange bs a n) (p - a) v"
proof (rule nth_equalityI)
  show "length (subrange (overwrite bs p v) a n) = length (overwrite (subrange bs a n) (p - a) v)"
    using assms by (simp add: subrange_def overwrite_def)
  fix i assume "i < length (subrange (overwrite bs p v) a n)"
  then have i: "i < n" by (simp add: subrange_def)
  consider "i < p - a" | "p - a \<le> i" "i < p - a + length v" | "p - a + length v \<le> i" by linarith
  then show "subrange (overwrite bs p v) a n ! i = overwrite (subrange bs a n) (p - a) v ! i"
    using assms i by cases (auto simp: subrange_def overwrite_def nth_append add.commute)
qed

lemma subrange_overwrite_around:
  assumes "p \<le> a" and "a + n \<le> p + length v" and "p + length v \<le> length bs"
  shows "subrange (overwrite bs p v) a n = subrange v (a - p) n"
  using assms by (simp add: subrange_def overwrite_def)

lemma subrange_take [simp]: "off + n \<le> m \<Longrightarrow> subrange (take m bs) off n = subrange bs off n"
  by (simp add: subrange_def drop_take)

lemma subrange_prefix: "subrange bs 0 n = take n bs"
  by (simp add: subrange_def)

lemma subrange_subrange: "b + m \<le> n \<Longrightarrow> subrange (subrange bs a n) b m = subrange bs (a + b) m"
  by (simp add: subrange_def drop_take take_take min_def add.commute)

lemma subrange_all: "subrange bs 0 (length bs) = bs"
  by (simp add: subrange_def)

lemma subrange_append_split: "subrange bs off (m + n) = subrange bs off m @ subrange bs (off + m) n"
  by (simp add: subrange_def take_add add.commute)

lemma all_zero_replicate [simp]: "all_zero (replicate n 0)"
  by (simp add: all_zero_def)

lemma all_zero_append: "all_zero (xs @ ys) \<longleftrightarrow> all_zero xs \<and> all_zero ys"
  by (auto simp: all_zero_def)

lemma all_zero_iff: "all_zero bs \<longleftrightarrow> bs = replicate (length bs) 0"
proof
  assume "bs = replicate (length bs) 0"
  then have "set bs \<subseteq> {0}" by (metis set_replicate_conv_if empty_subsetI order_refl)
  then show "all_zero bs" by (auto simp: all_zero_def)
qed (simp add: all_zero_def replicate_eqI)

section \<open>Records as sequences of fields\<close>

text \<open>\<^verbatim>\<open>as_chunks::<n>().0\<close>: the whole chunks of a byte range, in order.\<close>

definition chunks :: "nat \<Rightarrow> 'a list \<Rightarrow> 'a list list" where
  "chunks n bs = map (\<lambda>i. subrange bs (n * i) n) [0..<length bs div n]"

lemma length_chunks [simp]: "length (chunks n bs) = length bs div n"
  by (simp add: chunks_def)

lemma nth_chunks [simp]: "i < length bs div n \<Longrightarrow> chunks n bs ! i = subrange bs (n * i) n"
  by (simp add: chunks_def)

lemma chunks_subrange:
  assumes "a + n * k \<le> length bs" and "0 < n"
  shows "chunks n (subrange bs a (n * k)) = map (\<lambda>i. subrange bs (a + n * i) n) [0..<k]"
proof -
  have "subrange (subrange bs a (n * k)) (n * i) n = subrange bs (a + n * i) n" if "i < k" for i
  proof (rule subrange_subrange)
    have "Suc i \<le> k" using that by simp
    then have "n * Suc i \<le> n * k" by (rule mult_le_mono2)
    then show "n * i + n \<le> n * k" by simp
  qed
  then show ?thesis using assms by (simp add: chunks_def)
qed

text \<open>Two buffers that agree on consecutive fields of the given widths agree as a whole.\<close>

fun agree :: "nat \<Rightarrow> nat list \<Rightarrow> 'a list \<Rightarrow> 'a list \<Rightarrow> bool" where
  "agree off [] bs cs \<longleftrightarrow> True"
| "agree off (w # ws) bs cs \<longleftrightarrow> subrange bs off w = subrange cs off w \<and> agree (off + w) ws bs cs"

lemma agree_subrange:
  "agree off ws bs cs \<Longrightarrow> subrange bs off (sum_list ws) = subrange cs off (sum_list ws)"
proof (induction ws arbitrary: off)
  case Nil
  then show ?case by (simp add: subrange_def)
next
  case (Cons w ws)
  then show ?case by (simp add: subrange_append_split)
qed

lemma agree_eq:
  assumes "agree 0 ws bs cs" and "length bs = sum_list ws" and "length cs = sum_list ws"
  shows "bs = cs"
  using agree_subrange [OF assms(1)] assms(2,3) by (metis subrange_all)

section \<open>Writing several fields\<close>

text \<open>
  The encoders write disjoint fields at increasing offsets. A sequence of writes is one
  \<open>write_fields\<close>; its layout is checked once, and every read is then a membership test.
\<close>

definition write_fields :: "'a list \<Rightarrow> (nat \<times> 'a list) list \<Rightarrow> 'a list" where
  "write_fields bs fs = fold (\<lambda>(off, v) bs. overwrite bs off v) fs bs"

fun fields_ok :: "nat \<Rightarrow> nat \<Rightarrow> (nat \<times> 'a list) list \<Rightarrow> bool" where
  "fields_ok lo hi [] \<longleftrightarrow> lo \<le> hi"
| "fields_ok lo hi ((off, v) # fs) \<longleftrightarrow> lo \<le> off \<and> fields_ok (off + length v) hi fs"

lemma fields_ok_le: "fields_ok lo hi fs \<Longrightarrow> lo \<le> hi"
  by (induction fs arbitrary: lo) fastforce+

lemma fields_ok_bounds: "fields_ok lo hi fs \<Longrightarrow> (off, v) \<in> set fs \<Longrightarrow> lo \<le> off \<and> off + length v \<le> hi"
  by (induction fs arbitrary: lo) (auto dest: fields_ok_le, fastforce)

lemma write_fields_Nil [simp]: "write_fields bs [] = bs"
  by (simp add: write_fields_def)

lemma write_fields_Cons: "write_fields bs ((off, v) # fs) = write_fields (overwrite bs off v) fs"
  by (simp add: write_fields_def)

lemma length_write_fields [simp]:
  "fields_ok lo (length bs) fs \<Longrightarrow> length (write_fields bs fs) = length bs"
proof (induction fs arbitrary: lo bs)
  case (Cons f fs)
  obtain off v where f: "f = (off, v)" by (cases f)
  with Cons.prems have "off + length v \<le> length bs" by (auto dest: fields_ok_le)
  with Cons f show ?case by (auto simp: write_fields_Cons)
qed simp

lemma read_gap:
  assumes "fields_ok lo (length bs) fs"
    and "\<forall>(off, v) \<in> set fs. off + length v \<le> p \<or> p + n \<le> off"
  shows "subrange (write_fields bs fs) p n = subrange bs p n"
  using assms
proof (induction fs arbitrary: lo bs)
  case (Cons f fs)
  obtain off v where f: "f = (off, v)" by (cases f)
  with Cons.prems have le: "off + length v \<le> length bs" by (auto dest: fields_ok_le)
  have "subrange (write_fields (overwrite bs off v) fs) p n = subrange (overwrite bs off v) p n"
    using Cons.prems f le by (intro Cons.IH [of "off + length v"]) auto
  then show ?case
    using Cons.prems(2) f le
    by (auto simp: write_fields_Cons subrange_overwrite_before subrange_overwrite_after)
qed simp

lemma read_field:
  assumes "fields_ok lo (length bs) fs" and "(off, v) \<in> set fs" and "n = length v"
  shows "subrange (write_fields bs fs) off n = v"
  using assms
proof (induction fs arbitrary: lo bs)
  case (Cons f fs)
  obtain p w where f: "f = (p, w)" by (cases f)
  with Cons.prems have le: "p + length w \<le> length bs" by (auto dest: fields_ok_le)
  have ok: "fields_ok (p + length w) (length (overwrite bs p w)) fs"
    using Cons.prems(1) f le by simp
  show ?case
  proof (cases "(off, v) \<in> set fs")
    case True
    then show ?thesis using Cons.IH [OF ok] Cons.prems(3) f by (simp add: write_fields_Cons)
  next
    case False
    with Cons.prems(2) f have eq: "p = off" "w = v" by auto
    have "subrange (write_fields (overwrite bs off v) fs) off n = subrange (overwrite bs off v) off n"
      using ok eq Cons.prems(3) by (intro read_gap) (auto dest: fields_ok_bounds)
    then show ?thesis
      using eq f le Cons.prems(3) by (simp add: write_fields_Cons subrange_overwrite_same)
  qed
qed simp

lemma read_map:
  assumes "fields_ok lo (length bs) fs" and "map_of fs off \<noteq> None"
    and "n = length (the (map_of fs off))"
  shows "subrange (write_fields bs fs) off n = the (map_of fs off)"
proof -
  from assms(2) obtain v where v: "map_of fs off = Some v" by auto
  then have "(off, v) \<in> set fs" by (rule map_of_SomeD)
  with assms(1,3) v show ?thesis by (simp add: read_field)
qed

end
