(* ===== verification/Encoding.thy ===== *)
theory Encoding
  imports Prelude
begin

text \<open>
  Little-endian fields of fixed-size records (\<^verbatim>\<open>crates/cas/core/src/encoding.rs\<close>) and the record
  checksum. CRC32 itself (\<^verbatim>\<open>crc32fast\<close>) is outside the repository: it is the argument \<open>crc\<close>
  of every definition that uses it. The locale \<open>le_field\<close> states what the record codecs rely
  on, once for all widths; it is interpreted on the three readers and writers of the source.
\<close>

section \<open>Byte order\<close>

fun le_of_nat :: "nat \<Rightarrow> nat \<Rightarrow> bytes" where
  "le_of_nat 0 v = []"
| "le_of_nat (Suc n) v = word_of_nat v # le_of_nat n (v div 256)"

fun nat_of_le :: "bytes \<Rightarrow> nat" where
  "nat_of_le [] = 0"
| "nat_of_le (b # bs) = unat b + 256 * nat_of_le bs"

definition u16_at :: "bytes \<Rightarrow> nat \<Rightarrow> u16" where
  "u16_at bs off = word_of_nat (nat_of_le (subrange bs off 2))"

definition u32_at :: "bytes \<Rightarrow> nat \<Rightarrow> u32" where
  "u32_at bs off = word_of_nat (nat_of_le (subrange bs off 4))"

definition u64_at :: "bytes \<Rightarrow> nat \<Rightarrow> u64" where
  "u64_at bs off = word_of_nat (nat_of_le (subrange bs off 8))"

definition put16 :: "bytes \<Rightarrow> nat \<Rightarrow> u16 \<Rightarrow> bytes" where
  "put16 bs off v = overwrite bs off (le_of_nat 2 (unat v))"

definition put32 :: "bytes \<Rightarrow> nat \<Rightarrow> u32 \<Rightarrow> bytes" where
  "put32 bs off v = overwrite bs off (le_of_nat 4 (unat v))"

definition put64 :: "bytes \<Rightarrow> nat \<Rightarrow> u64 \<Rightarrow> bytes" where
  "put64 bs off v = overwrite bs off (le_of_nat 8 (unat v))"

text \<open>The checksum reads the record with its own four bytes as zero.\<close>

definition checksum :: "(bytes \<Rightarrow> u32) \<Rightarrow> bytes \<Rightarrow> nat \<Rightarrow> u32" where
  "checksum crc bs fld = crc (take fld bs @ replicate 4 0 @ drop (fld + 4) bs)"

definition require_healthy :: "bool \<Rightarrow> string \<Rightarrow> unit result" where
  "require_healthy failed message = (if failed then Inl (Other message) else Inr ())"

lemma length_le_of_nat [simp]: "length (le_of_nat n v) = n"
  by (induction n arbitrary: v) auto

lemma nat_of_le_le_of_nat: "nat_of_le (le_of_nat n v) = v mod 256 ^ n"
  by (induction n arbitrary: v) (simp_all add: unat_of_nat mod_mult2_eq)

lemma unat_byte: "unat (b :: byte) < 256"
  using unsigned_less [of b] by simp

lemma byte_256: "(256 :: byte) = 0"
  by simp

lemma nat_of_le_bound: "nat_of_le bs < 256 ^ length bs"
proof (induction bs)
  case (Cons b bs)
  have "unat b < 256" by (rule unat_byte)
  with Cons show ?case by simp
qed simp

lemma le_of_nat_nat_of_le: "le_of_nat (length bs) (nat_of_le bs) = bs"
proof (induction bs)
  case (Cons b bs)
  have b: "unat b < 256" by (rule unat_byte)
  have "(word_of_nat (unat b + 256 * nat_of_le bs) :: byte) = b"
    by (simp add: byte_256)
  with Cons b show ?case by simp
qed simp

lemma le_of_nat_zero: "le_of_nat n 0 = replicate n 0"
  by (induction n) auto

section \<open>The contract of one fixed-width field\<close>

locale le_field =
  fixes get :: "bytes \<Rightarrow> nat \<Rightarrow> 'w::len word"
    and put :: "bytes \<Rightarrow> nat \<Rightarrow> 'w word \<Rightarrow> bytes"
    and enc :: "'w word \<Rightarrow> bytes"
    and width :: nat
  assumes put_enc: "put bs off v = overwrite bs off (enc v)"
    and length_enc: "length (enc v) = width"
    and enc_zero: "enc 0 = replicate width 0"
    and get_local: "subrange bs off width = subrange cs p width \<Longrightarrow> get bs off = get cs p"
    and get_of_enc: "subrange bs off width = enc v \<Longrightarrow> get bs off = v"
    and enc_get: "off + width \<le> length bs \<Longrightarrow> enc (get bs off) = subrange bs off width"
begin

lemma length_put [simp]: "off + width \<le> length bs \<Longrightarrow> length (put bs off v) = length bs"
  by (simp add: put_enc length_enc)

lemma get_enc_same [codec]: "off + width \<le> length bs \<Longrightarrow> get (overwrite bs off (enc v)) off = v"
  by (rule get_of_enc) (simp add: subrange_overwrite_same length_enc)

lemma get_put_same: "off + width \<le> length bs \<Longrightarrow> get (put bs off v) off = v"
  by (simp add: put_enc get_enc_same)

lemma get_before [codec]:
  "off + width \<le> p \<Longrightarrow> p + length vs \<le> length bs \<Longrightarrow> get (overwrite bs p vs) off = get bs off"
  by (rule get_local) (simp add: subrange_overwrite_before)

lemma get_after [codec]:
  "p + length vs \<le> off \<Longrightarrow> p + length vs \<le> length bs \<Longrightarrow> get (overwrite bs p vs) off = get bs off"
  by (rule get_local) (simp add: subrange_overwrite_after)

lemma get_zeros [codec]: "off + width \<le> n \<Longrightarrow> get (replicate n 0) off = 0"
  by (rule get_of_enc) (simp add: subrange_replicate enc_zero)

lemma get_subrange: "off + width \<le> n \<Longrightarrow> get (subrange bs a n) off = get bs (a + off)"
  by (rule get_local) (simp add: subrange_subrange)

lemma get_map:
  assumes "fields_ok lo (length bs) fs" and "map_of fs off \<noteq> None"
    and "width = length (the (map_of fs off))"
  shows "get (write_fields bs fs) off = get (the (map_of fs off)) 0"
proof (rule get_local)
  show "subrange (write_fields bs fs) off width = subrange (the (map_of fs off)) 0 width"
    using read_map [OF assms] by (simp add: subrange_def [of "the _"] assms(3))
qed

lemma get_gap:
  "fields_ok lo (length bs) fs \<Longrightarrow> \<forall>(p, v) \<in> set fs. p + length v \<le> off \<or> off + width \<le> p \<Longrightarrow>
   get (write_fields bs fs) off = get bs off"
  by (rule get_local) (rule read_gap)

lemma get_injective:
  assumes "off + width \<le> length bs" and "p + width \<le> length cs" and "get bs off = get cs p"
  shows "subrange bs off width = subrange cs p width"
  using assms by (metis enc_get)

end

lemma le_get_of_enc:
  assumes "256 ^ n = (2 :: nat) ^ LENGTH('w)"
  shows "word_of_nat (nat_of_le (le_of_nat n (unat v))) = (v :: 'w::len word)"
proof -
  have "unat v < 256 ^ n" using unsigned_less [of v] assms by simp
  then show ?thesis by (simp add: nat_of_le_le_of_nat)
qed

lemma le_enc_get:
  assumes "off + n \<le> length bs" and "256 ^ n = (2 :: nat) ^ LENGTH('w)"
  shows "le_of_nat n (unat (word_of_nat (nat_of_le (subrange bs off n)) :: 'w::len word)) =
         subrange bs off n"
proof -
  have len: "length (subrange bs off n) = n" using assms(1) by simp
  have "nat_of_le (subrange bs off n) < 256 ^ n"
    using nat_of_le_bound [of "subrange bs off n"] len by simp
  then have "unat (word_of_nat (nat_of_le (subrange bs off n)) :: 'w word) =
             nat_of_le (subrange bs off n)"
    using assms(2) by (simp add: unat_of_nat)
  then show ?thesis using le_of_nat_nat_of_le [of "subrange bs off n"] len by simp
qed

lemmas le_field_laws =
  le_of_nat_zero le_get_of_enc le_enc_get u16_at_def u32_at_def u64_at_def put16_def put32_def
  put64_def

interpretation f16: le_field u16_at put16 "\<lambda>v. le_of_nat 2 (unat v)" 2
  by unfold_locales (simp_all add: le_field_laws)

interpretation f32: le_field u32_at put32 "\<lambda>v. le_of_nat 4 (unat v)" 4
  by unfold_locales (simp_all add: le_field_laws)

interpretation f64: le_field u64_at put64 "\<lambda>v. le_of_nat 8 (unat v)" 8
  by unfold_locales (simp_all add: le_field_laws)

section \<open>Checksums and constant tags\<close>

lemma checksum_overwrite_field [codec]:
  assumes "length vs = 4" and "fld + 4 \<le> length bs"
  shows "checksum crc (overwrite bs fld vs) fld = checksum crc bs fld"
  using assms by (simp add: checksum_def overwrite_def)

text \<open>\<^verbatim>\<open>put32(bytes, field, checksum(bytes, field))\<close>, the last write of every encoder.\<close>

definition put_checksum :: "(bytes \<Rightarrow> u32) \<Rightarrow> bytes \<Rightarrow> nat \<Rightarrow> bytes" where
  "put_checksum crc bs fld = put32 bs fld (checksum crc bs fld)"

lemma length_put_checksum [simp]:
  "fld + 4 \<le> length bs \<Longrightarrow> length (put_checksum crc bs fld) = length bs"
  by (simp add: put_checksum_def)

lemma put_checksum_verifies [codec]:
  "fld + 4 \<le> length bs \<Longrightarrow>
   u32_at (put_checksum crc bs fld) fld = checksum crc (put_checksum crc bs fld) fld"
  by (simp add: put_checksum_def put32_def f32.get_enc_same checksum_overwrite_field)

lemma subrange_put_checksum [codec]:
  "off + n \<le> fld \<or> fld + 4 \<le> off \<Longrightarrow> fld + 4 \<le> length bs \<Longrightarrow>
   subrange (put_checksum crc bs fld) off n = subrange bs off n"
  by (auto simp: put_checksum_def put32_def subrange_overwrite_before subrange_overwrite_after)

lemma put_checksum_frame [codec]:
  "off + 2 \<le> fld \<or> fld + 4 \<le> off \<Longrightarrow> fld + 4 \<le> length bs \<Longrightarrow>
     u16_at (put_checksum crc bs fld) off = u16_at bs off"
  "off + 4 \<le> fld \<or> fld + 4 \<le> off \<Longrightarrow> fld + 4 \<le> length bs \<Longrightarrow>
     u32_at (put_checksum crc bs fld) off = u32_at bs off"
  "off + 8 \<le> fld \<or> fld + 4 \<le> off \<Longrightarrow> fld + 4 \<le> length bs \<Longrightarrow>
     u64_at (put_checksum crc bs fld) off = u64_at bs off"
  by (rule f16.get_local f32.get_local f64.get_local; simp add: subrange_put_checksum)+

lemma put_checksum_fixed:
  assumes "fld + 4 \<le> length bs" and "u32_at bs fld = checksum crc bs fld"
  shows "put_checksum crc bs fld = bs"
proof -
  have "subrange bs fld 4 = le_of_nat 4 (unat (checksum crc bs fld))"
    using f32.enc_get [OF assms(1)] assms(2) by simp
  then show ?thesis
    using assms(1)
    by (simp add: put_checksum_def put32_def overwrite_def subrange_def)
       (metis append_assoc append_take_drop_id drop_drop add.commute)
qed

declare put16_def [codec] put32_def [codec] put64_def [codec]

lemmas fields_simps = write_fields_def put16_def put32_def put64_def put_checksum_def
lemmas field_reads = read_map f16.get_map f32.get_map f64.get_map
lemmas field_gaps = read_gap f16.get_gap f32.get_gap f64.get_gap

lemma get_le_of_nat [simp]:
  "u16_at (le_of_nat 2 v) 0 = word_of_nat v"
  "u32_at (le_of_nat 4 v) 0 = word_of_nat v"
  "u64_at (le_of_nat 8 v) 0 = word_of_nat v"
  by (simp_all add: u16_at_def u32_at_def u64_at_def subrange_def nat_of_le_le_of_nat
        word_unat_eq_iff unat_of_nat)

lemma checksum_cong:
  "take fld bs = take fld cs \<Longrightarrow> drop (fld + 4) bs = drop (fld + 4) cs \<Longrightarrow>
   checksum crc bs fld = checksum crc cs fld"
  by (simp add: checksum_def)

text \<open>Two records with valid checksums that agree outside the checksum are the same record.\<close>

lemma sealed_eq:
  assumes len: "length bs = length cs" "fld + 4 \<le> length bs"
    and body: "take fld bs = take fld cs" "drop (fld + 4) bs = drop (fld + 4) cs"
    and crcs: "u32_at bs fld = checksum crc bs fld" "u32_at cs fld = checksum crc cs fld"
  shows "bs = cs"
proof -
  have "u32_at bs fld = u32_at cs fld" using crcs checksum_cong [OF body] by simp
  then have mid: "subrange bs fld 4 = subrange cs fld 4" using len by (intro f32.get_injective) auto
  have split: "xs = take fld xs @ subrange xs fld 4 @ drop (fld + 4) xs" for xs :: bytes
    by (simp add: subrange_def) (metis append_take_drop_id drop_drop add.commute)
  show ?thesis by (subst split [of bs], subst split [of cs]) (simp add: mid body)
qed

definition ascii :: "string \<Rightarrow> bytes" where
  "ascii s = map (\<lambda>c. word_of_nat (of_char c)) s"

lemma length_ascii [simp]: "length (ascii s) = length s"
  by (simp add: ascii_def)

end
