(* ===== verification/Wal_Format.thy ===== *)
theory Wal_Format
  imports Encoding
begin

text \<open>
  The write-ahead log records of \<^verbatim>\<open>crates/cas/core/src/append/format.rs\<close>: the segment header,
  the batch envelope with its mutation descriptors, the batch parser, and the builder that
  gathers payload and seals a batch. \<open>crc\<close> is \<^verbatim>\<open>crc32fast::hash\<close>.
\<close>

section \<open>Constants and ranges\<close>

definition MAX_DESCRIPTORS :: nat where "MAX_DESCRIPTORS = 63"
definition ENVELOPE_BYTES :: nat where "ENVELOPE_BYTES = 64"
definition DESCRIPTOR_BYTES :: nat where "DESCRIPTOR_BYTES = 64"
definition MAX_BATCH_BYTES :: nat where "MAX_BATCH_BYTES = BLOCK_SIZE + MAX_REQUEST_BYTES"

lemmas wal_constants =
  MAX_DESCRIPTORS_def ENVELOPE_BYTES_def DESCRIPTOR_BYTES_def BLOCK_SIZE_def MAX_REQUEST_BYTES_def

definition valid_range :: "u64 \<Rightarrow> u64 \<Rightarrow> u64 \<Rightarrow> bool" where
  "valid_range offset len image_bytes \<longleftrightarrow>
     len \<noteq> 0 \<and> is_multiple_of offset BLOCK \<and> is_multiple_of len BLOCK \<and>
     (case checked_add offset len of None \<Rightarrow> False | Some end \<Rightarrow> end \<le> image_bytes)"

section \<open>Segment header\<close>

record SegmentHeader =
  sh_store :: bytes
  sh_image :: bytes
  sh_epoch :: u64
  sh_number :: u64
  sh_capacity :: u64
  sh_image_bytes :: u64
  sh_preceding_sequence :: u64

definition SegmentHeader_validate :: "SegmentHeader \<Rightarrow> unit result" where
  "SegmentHeader_validate h =
     ensure (sh_store h \<noteq> replicate 16 0 \<and> sh_image h \<noteq> replicate 16 0)
       (InvalidData ''empty identity'')
    (ensure (sh_epoch h \<noteq> 0 \<and> sh_number h \<noteq> 0)
       (InvalidData ''empty epoch or segment number'')
    (ensure (sh_capacity h \<ge> 3 * BLOCK \<and> is_multiple_of (sh_capacity h) BLOCK)
       (InvalidData ''segment capacity'')
    (ensure (sh_image_bytes h \<noteq> 0 \<and> is_multiple_of (sh_image_bytes h) BLOCK)
       (InvalidData ''image capacity'')
    (Inr ()))))"

definition SegmentHeader_fill :: "(bytes \<Rightarrow> u32) \<Rightarrow> SegmentHeader \<Rightarrow> bytes" where
  "SegmentHeader_fill crc h =
    (let bs = replicate BLOCK_SIZE 0;
         bs = overwrite bs 0 (ascii ''CASSEG02'');
         bs = put32 bs 8 2;
         bs = put32 bs 12 (word_of_nat BLOCK_SIZE);
         bs = overwrite bs 16 (sh_store h);
         bs = overwrite bs 32 (sh_image h);
         bs = put64 bs 48 (sh_epoch h);
         bs = put64 bs 56 (sh_number h);
         bs = put64 bs 64 (sh_capacity h);
         bs = put64 bs 72 (sh_image_bytes h);
         bs = put64 bs 80 (sh_preceding_sequence h)
     in put_checksum crc bs 4092)"

definition SegmentHeader_encode :: "(bytes \<Rightarrow> u32) \<Rightarrow> SegmentHeader \<Rightarrow> bytes result" where
  "SegmentHeader_encode crc h =
     attempt (SegmentHeader_validate h) (\<lambda>_. Inr (SegmentHeader_fill crc h))"

definition SegmentHeader_read :: "bytes \<Rightarrow> SegmentHeader" where
  "SegmentHeader_read bs =
     \<lparr>sh_store = subrange bs 16 16, sh_image = subrange bs 32 16, sh_epoch = u64_at bs 48,
      sh_number = u64_at bs 56, sh_capacity = u64_at bs 64, sh_image_bytes = u64_at bs 72,
      sh_preceding_sequence = u64_at bs 80\<rparr>"

definition SegmentHeader_decode :: "(bytes \<Rightarrow> u32) \<Rightarrow> bytes \<Rightarrow> SegmentHeader result" where
  "SegmentHeader_decode crc bs =
     ensure (length bs = BLOCK_SIZE) (InvalidData ''segment header length'')
    (ensure (subrange bs 0 8 = ascii ''CASSEG02'' \<and> u32_at bs 8 = 2)
       (InvalidData ''segment version'')
    (ensure (u32_at bs 12 = word_of_nat BLOCK_SIZE) (InvalidData ''segment header size'')
    (ensure (all_zero (subrange bs 88 (4092 - 88))) (InvalidData ''segment reserved bytes'')
    (ensure (u32_at bs 4092 = checksum crc bs 4092) (InvalidData ''segment checksum'')
    (attempt (SegmentHeader_validate (SegmentHeader_read bs))
       (\<lambda>_. Inr (SegmentHeader_read bs)))))))"

section \<open>Descriptors and envelope\<close>

record RequestId =
  rid_serial :: u64
  rid_attachment :: u64
  rid_queue :: u16
  rid_head :: u16

datatype Kind = Write | Zero

fun kind_u16 :: "Kind \<Rightarrow> u16" where
  "kind_u16 Write = 1"
| "kind_u16 Zero = 2"

record Descriptor =
  d_id :: RequestId
  d_sequence :: u64
  d_offset :: u64
  d_length :: u64
  d_payload_offset :: u32
  d_payload_length :: u32
  d_payload_crc :: u32
  d_kind :: Kind

definition Descriptor_encode :: "Descriptor \<Rightarrow> bytes \<Rightarrow> bytes" where
  "Descriptor_encode d bs =
    (let bs = put64 bs 0 (rid_serial (d_id d));
         bs = put64 bs 8 (d_sequence d);
         bs = put64 bs 16 (rid_attachment (d_id d));
         bs = put64 bs 24 (d_offset d);
         bs = put64 bs 32 (d_length d);
         bs = put32 bs 40 (d_payload_offset d);
         bs = put32 bs 44 (d_payload_length d);
         bs = put32 bs 48 (d_payload_crc d);
         bs = put16 bs 52 (kind_u16 (d_kind d));
         bs = put16 bs 54 (rid_queue (d_id d))
     in put16 bs 56 (rid_head (d_id d)))"

definition Descriptor_decode :: "bytes \<Rightarrow> Descriptor" where
  "Descriptor_decode bs =
     \<lparr>d_id = \<lparr>rid_serial = u64_at bs 0, rid_attachment = u64_at bs 16, rid_queue = u16_at bs 54,
              rid_head = u16_at bs 56\<rparr>,
      d_sequence = u64_at bs 8, d_offset = u64_at bs 24, d_length = u64_at bs 32,
      d_payload_offset = u32_at bs 40, d_payload_length = u32_at bs 44,
      d_payload_crc = u32_at bs 48, d_kind = (if u16_at bs 52 = 1 then Write else Zero)\<rparr>"

record Envelope =
  e_segment :: u64
  e_batch :: u64
  e_descriptors :: nat
  e_payload_bytes :: nat
  e_first :: u64
  e_last :: u64
  e_fence :: bool

definition Envelope_encode :: "(bytes \<Rightarrow> u32) \<Rightarrow> Envelope \<Rightarrow> bytes \<Rightarrow> bytes" where
  "Envelope_encode crc e bs =
    (let bs = overwrite bs 0 (ascii ''CASBAT02'');
         bs = put16 bs 8 2;
         bs = put16 bs 10 (if e_fence e then 2 else 1);
         bs = put16 bs 12 (word_of_nat (e_descriptors e));
         bs = put64 bs 16 (e_segment e);
         bs = put64 bs 24 (e_batch e);
         bs = put32 bs 32 (word_of_nat (BLOCK_SIZE + e_payload_bytes e));
         bs = put32 bs 36 (word_of_nat (e_payload_bytes e));
         bs = put64 bs 40 (e_first e);
         bs = put64 bs 48 (e_last e)
     in put_checksum crc bs 56)"

definition Envelope_read :: "bytes \<Rightarrow> Envelope" where
  "Envelope_read bs =
     \<lparr>e_segment = u64_at bs 16, e_batch = u64_at bs 24, e_descriptors = unat (u16_at bs 12),
      e_payload_bytes = unat (u32_at bs 36), e_first = u64_at bs 40, e_last = u64_at bs 48,
      e_fence = (u16_at bs 10 = 2)\<rparr>"

section \<open>Batch header parser\<close>

record Header =
  h_envelope :: Envelope
  h_bytes :: bytes

text \<open>
  The loop of \<^verbatim>\<open>Header::decode\<close> over the descriptor slots. Its result is the final
  \<^verbatim>\<open>payload_end\<close>, a sum of 32-bit lengths that stays below \<open>2 ^ 33\<close>, kept as a \<open>nat\<close>.
\<close>

fun check_descriptors ::
  "u64 \<Rightarrow> Envelope \<Rightarrow> nat \<Rightarrow> bytes list \<Rightarrow> nat \<Rightarrow> u64 \<Rightarrow> nat result" where
  "check_descriptors image_bytes e index [] payload_end previous_serial = Inr payload_end"
| "check_descriptors image_bytes e index (slot # slots) payload_end previous_serial =
     ensure (u16_at slot 52 = 1 \<or> u16_at slot 52 = 2) (InvalidData ''mutation kind'')
    (ensure (all_zero (drop 58 slot)) (InvalidData ''descriptor reserved bytes'')
    (let d = Descriptor_decode slot in
     ensure (d_sequence d = e_first e + word_of_nat index) (InvalidData ''mutation sequence'')
    (ensure (rid_serial (d_id d) > previous_serial \<and> rid_attachment (d_id d) \<noteq> 0)
       (InvalidData ''request identity'')
    (ensure (valid_range (d_offset d) (d_length d) image_bytes) (InvalidData ''logical range'')
    (case d_kind d of
       Write \<Rightarrow>
         ensure (unat (d_length d) = unat (d_payload_length d) \<and>
                 unat (d_payload_offset d) = payload_end) (InvalidData ''WRITE payload range'')
        (ensure (payload_end + unat (d_payload_length d) \<le> e_payload_bytes e)
           (InvalidData ''payload exceeds batch'')
        (check_descriptors image_bytes e (Suc index) slots
           (payload_end + unat (d_payload_length d)) (rid_serial (d_id d))))
     | Zero \<Rightarrow>
         ensure (d_payload_offset d = 0 \<and> d_payload_length d = 0 \<and> d_payload_crc d = 0)
           (InvalidData ''ZERO payload'')
        (check_descriptors image_bytes e (Suc index) slots payload_end
           (rid_serial (d_id d))))))))"

definition descriptor_slots :: "bytes \<Rightarrow> nat \<Rightarrow> bytes list" where
  "descriptor_slots bs count =
     chunks DESCRIPTOR_BYTES (subrange bs ENVELOPE_BYTES (DESCRIPTOR_BYTES * count))"

definition Header_decode :: "(bytes \<Rightarrow> u32) \<Rightarrow> bytes \<Rightarrow> u64 \<Rightarrow> Header result" where
  "Header_decode crc bs image_bytes =
     ensure (length bs = BLOCK_SIZE) (InvalidData ''batch header length'')
    (ensure (subrange bs 0 8 = ascii ''CASBAT02'' \<and> u16_at bs 8 = 2) (InvalidData ''batch version'')
    (ensure (u16_at bs 10 = 1 \<or> u16_at bs 10 = 2) (InvalidData ''batch kind'')
    (ensure (u32_at bs 56 = checksum crc bs 56) (InvalidData ''batch checksum'')
    (let e = Envelope_read bs in
     ensure (e_segment e \<noteq> 0 \<and> e_batch e \<noteq> 0) (InvalidData ''batch identity'')
    (ensure (e_descriptors e \<le> MAX_DESCRIPTORS) (InvalidData ''descriptor count'')
    (ensure (e_payload_bytes e \<le> MAX_REQUEST_BYTES \<and> BLOCK_SIZE dvd e_payload_bytes e)
       (InvalidData ''payload length'')
    (ensure (unat (u32_at bs 32) = BLOCK_SIZE + e_payload_bytes e) (InvalidData ''batch length'')
    (ensure (u16_at bs 14 = 0 \<and> u32_at bs 60 = 0) (InvalidData ''envelope reserved bytes'')
    (let used = ENVELOPE_BYTES + DESCRIPTOR_BYTES * e_descriptors e in
     ensure (all_zero (drop used bs)) (InvalidData ''unused descriptor bytes'')
    (ensure (if e_fence e
             then e_descriptors e = 0 \<and> e_payload_bytes e = 0 \<and> e_first e = e_last e
             else e_descriptors e \<noteq> 0 \<and> e_first e \<noteq> 0 \<and>
                  checked_add (e_first e) (word_of_nat (e_descriptors e) - 1) = Some (e_last e))
       (InvalidData (if e_fence e then ''fence contents'' else ''mutation bounds''))
    (attempt
       (check_descriptors image_bytes e 0 (descriptor_slots bs (e_descriptors e)) 0 0)
       (\<lambda>payload_end.
          ensure (payload_end = e_payload_bytes e) (InvalidData ''payload coverage'')
         (Inr \<lparr>h_envelope = e, h_bytes = bs\<rparr>)))))))))))))"

definition Header_descriptors :: "Header \<Rightarrow> Descriptor list" where
  "Header_descriptors h =
     map Descriptor_decode (descriptor_slots (h_bytes h) (e_descriptors (h_envelope h)))"

definition Header_follows ::
  "Header \<Rightarrow> SegmentHeader \<Rightarrow> u64 \<Rightarrow> u64 \<Rightarrow> u64 \<Rightarrow> u64 \<Rightarrow> bool" where
  "Header_follows h segment batch preceding offset end =
    (let e = h_envelope h; len = word_of_nat (BLOCK_SIZE + e_payload_bytes e) in
     e_segment e = sh_number segment \<and> e_batch e = batch \<and>
     (case checked_add offset len of
        None \<Rightarrow> False
      | Some after \<Rightarrow>
          after \<le> end \<and> after \<le> sh_capacity segment \<and>
          (e_fence e \<or>
           (case checked_add after BLOCK of
              None \<Rightarrow> False
            | Some fenced \<Rightarrow> fenced \<le> sh_capacity segment))) \<and>
     (if e_fence e then e_last e = preceding else checked_add preceding 1 = Some (e_first e)))"

fun verify_descriptors :: "(bytes \<Rightarrow> u32) \<Rightarrow> bytes \<Rightarrow> Descriptor list \<Rightarrow> unit result" where
  "verify_descriptors crc payload [] = Inr ()"
| "verify_descriptors crc payload (d # ds) =
     (if d_kind d = Write
      then ensure (crc (subrange payload (unat (d_payload_offset d)) (unat (d_payload_length d))) =
                   d_payload_crc d) (InvalidData ''payload checksum'')
             (verify_descriptors crc payload ds)
      else verify_descriptors crc payload ds)"

definition Header_verify_payload :: "(bytes \<Rightarrow> u32) \<Rightarrow> Header \<Rightarrow> bytes \<Rightarrow> unit result" where
  "Header_verify_payload crc h payload =
     ensure (length payload = e_payload_bytes (h_envelope h)) (InvalidData ''short batch payload'')
       (verify_descriptors crc payload (Header_descriptors h))"

section \<open>Builder\<close>

record Builder =
  b_buffer :: bytes
  b_image_bytes :: u64
  b_descriptors :: nat
  b_payload_bytes :: nat
  b_last_serial :: u64

record Batch =
  bt_buffer :: bytes
  bt_envelope :: Envelope

definition Builder_new :: "u64 \<Rightarrow> nat \<Rightarrow> Builder result" where
  "Builder_new image_bytes payload_capacity =
     ensure (image_bytes \<noteq> 0 \<and> is_multiple_of image_bytes BLOCK) (InvalidData ''image capacity'')
    (ensure (payload_capacity \<le> MAX_REQUEST_BYTES \<and> BLOCK_SIZE dvd payload_capacity)
       (InvalidData ''packing capacity'')
    (Inr \<lparr>b_buffer = replicate (BLOCK_SIZE + payload_capacity) 0, b_image_bytes = image_bytes,
          b_descriptors = 0, b_payload_bytes = 0, b_last_serial = 0\<rparr>))"

definition Builder_admit ::
  "Builder \<Rightarrow> RequestId \<Rightarrow> u64 \<Rightarrow> u64 \<Rightarrow> nat \<Rightarrow> unit result" where
  "Builder_admit b rid offset len payload =
     ensure (b_descriptors b < MAX_DESCRIPTORS) (InvalidData ''full descriptor batch'')
    (ensure (rid_serial rid > b_last_serial b \<and> rid_attachment rid \<noteq> 0)
       (InvalidData ''request identity'')
    (ensure (valid_range offset len (b_image_bytes b)) (InvalidData ''logical range'')
    (ensure (payload \<le> length (b_buffer b) - BLOCK_SIZE - b_payload_bytes b)
       (InvalidData ''full payload batch'')
    (Inr ()))))"

definition Builder_push :: "Builder \<Rightarrow> Descriptor \<Rightarrow> Builder" where
  "Builder_push b d =
    (let start = ENVELOPE_BYTES + b_descriptors b * DESCRIPTOR_BYTES;
         slot = Descriptor_encode d (subrange (b_buffer b) start DESCRIPTOR_BYTES)
     in b\<lparr>b_buffer := overwrite (b_buffer b) start slot,
          b_descriptors := b_descriptors b + 1,
          b_last_serial := rid_serial (d_id d)\<rparr>)"

text \<open>
  \<open>gather\<close> is the caller's closure on the destination slice: the bytes it leaves there and its
  \<^verbatim>\<open>io::Result\<close>. A failed gather leaves the builder's counters as they were.
\<close>

definition Builder_write ::
  "(bytes \<Rightarrow> u32) \<Rightarrow> Builder \<Rightarrow> RequestId \<Rightarrow> u64 \<Rightarrow> nat \<Rightarrow> (bytes \<Rightarrow> bytes \<times> unit result) \<Rightarrow>
   Builder \<times> unit result" where
  "Builder_write crc b rid offset len gather =
    (case Builder_admit b rid offset (word_of_nat len) len of
       Inl e \<Rightarrow> (b, Inl e)
     | Inr _ \<Rightarrow>
         (let start = BLOCK_SIZE + b_payload_bytes b;
              (destination, r) = gather (subrange (b_buffer b) start len);
              b = b\<lparr>b_buffer := overwrite (b_buffer b) start destination\<rparr>
          in case r of
               Inl e \<Rightarrow> (b, Inl e)
             | Inr _ \<Rightarrow>
                 (let d = \<lparr>d_id = rid, d_sequence = 0, d_offset = offset,
                           d_length = word_of_nat len,
                           d_payload_offset = word_of_nat (b_payload_bytes b),
                           d_payload_length = word_of_nat len,
                           d_payload_crc = crc destination, d_kind = Write\<rparr>;
                      b = Builder_push b d
                  in (b\<lparr>b_payload_bytes := b_payload_bytes b + len\<rparr>, Inr ()))))"

definition Builder_zero :: "Builder \<Rightarrow> RequestId \<Rightarrow> u64 \<Rightarrow> u64 \<Rightarrow> Builder \<times> unit result" where
  "Builder_zero b rid offset len =
    (case Builder_admit b rid offset len 0 of
       Inl e \<Rightarrow> (b, Inl e)
     | Inr _ \<Rightarrow>
         (Builder_push b
            \<lparr>d_id = rid, d_sequence = 0, d_offset = offset, d_length = len,
             d_payload_offset = 0, d_payload_length = 0, d_payload_crc = 0, d_kind = Zero\<rparr>,
          Inr ()))"

fun put_sequences :: "u64 \<Rightarrow> nat \<Rightarrow> bytes \<Rightarrow> bytes" where
  "put_sequences first 0 bs = bs"
| "put_sequences first (Suc n) bs =
     put64 (put_sequences first n bs) (ENVELOPE_BYTES + n * DESCRIPTOR_BYTES + 8)
       (first + word_of_nat n)"

definition Builder_seal ::
  "(bytes \<Rightarrow> u32) \<Rightarrow> Builder \<Rightarrow> u64 \<Rightarrow> u64 \<Rightarrow> u64 \<Rightarrow> Batch result" where
  "Builder_seal crc b segment batch first =
     ensure (b_descriptors b \<noteq> 0 \<and> first \<noteq> 0 \<and> segment \<noteq> 0 \<and> batch \<noteq> 0)
       (InvalidData ''empty batch identity'')
    (attempt (ok_or (checked_add first (word_of_nat (b_descriptors b) - 1))
                    (InvalidData ''sequence exhausted''))
      (\<lambda>last.
        let buffer = put_sequences first (b_descriptors b) (b_buffer b);
            e = \<lparr>e_segment = segment, e_batch = batch, e_descriptors = b_descriptors b,
                 e_payload_bytes = b_payload_bytes b, e_first = first, e_last = last,
                 e_fence = False\<rparr>
        in Inr \<lparr>bt_buffer = overwrite buffer 0 (Envelope_encode crc e (subrange buffer 0 BLOCK_SIZE)),
                bt_envelope = e\<rparr>))"

definition Batch_fence :: "(bytes \<Rightarrow> u32) \<Rightarrow> u64 \<Rightarrow> u64 \<Rightarrow> u64 \<Rightarrow> Batch result" where
  "Batch_fence crc segment batch boundary =
     ensure (segment \<noteq> 0 \<and> batch \<noteq> 0) (InvalidData ''fence identity'')
      (let e = \<lparr>e_segment = segment, e_batch = batch, e_descriptors = 0, e_payload_bytes = 0,
                e_first = boundary, e_last = boundary, e_fence = True\<rparr>
       in Inr \<lparr>bt_buffer = Envelope_encode crc e (replicate BLOCK_SIZE 0), bt_envelope = e\<rparr>)"

definition Batch_bytes :: "Batch \<Rightarrow> bytes" where
  "Batch_bytes b = take (BLOCK_SIZE + e_payload_bytes (bt_envelope b)) (bt_buffer b)"

section \<open>Segment headers round-trip, and the encoding is canonical\<close>

definition SegmentHeader_typed :: "SegmentHeader \<Rightarrow> bool" where
  "SegmentHeader_typed h \<longleftrightarrow> length (sh_store h) = 16 \<and> length (sh_image h) = 16"

abbreviation SegmentHeader_fields :: "SegmentHeader \<Rightarrow> (nat \<times> bytes) list" where
  "SegmentHeader_fields h \<equiv>
     [(0, ascii ''CASSEG02''), (8, le_of_nat 4 2), (12, le_of_nat 4 4096), (16, sh_store h), (32, sh_image h),
      (48, le_of_nat 8 (unat (sh_epoch h))), (56, le_of_nat 8 (unat (sh_number h))),
      (64, le_of_nat 8 (unat (sh_capacity h))), (72, le_of_nat 8 (unat (sh_image_bytes h))),
      (80, le_of_nat 8 (unat (sh_preceding_sequence h)))]"

lemma SegmentHeader_fill_fields:
  "SegmentHeader_fill crc h =
   put_checksum crc (write_fields (replicate 4096 0) (SegmentHeader_fields h)) 4092"
  by (simp add: SegmentHeader_fill_def BLOCK_SIZE_def Let_def
        write_fields_def put32_def put64_def)

lemma SegmentHeader_fill_layout:
  assumes "SegmentHeader_typed h"
  shows "length (SegmentHeader_fill crc h) = 4096"
    and "subrange (SegmentHeader_fill crc h) 0 8 = ascii ''CASSEG02''"
    and "u32_at (SegmentHeader_fill crc h) 8 = 2"
    and "u32_at (SegmentHeader_fill crc h) 12 = 4096"
    and "SegmentHeader_read (SegmentHeader_fill crc h) = h"
    and "subrange (SegmentHeader_fill crc h) 88 4004 = replicate 4004 0"
    and "u32_at (SegmentHeader_fill crc h) 4092 = checksum crc (SegmentHeader_fill crc h) 4092"
proof -
  let ?fs = "SegmentHeader_fields h" and ?z = "replicate 4096 (0 :: byte)"
  have ok: "fields_ok 0 (length ?z) ?fs"
    using assms by (simp add: SegmentHeader_typed_def)
  note len = length_write_fields [OF ok]
  note reads = field_reads [OF ok]
  note facts = SegmentHeader_fill_fields codec reads field_gaps [OF ok]
  show "length (SegmentHeader_fill crc h) = 4096"
    using len by (simp add: SegmentHeader_fill_fields)
  show "subrange (SegmentHeader_fill crc h) 0 8 = ascii ''CASSEG02''"
    using len by (simp add: facts)
  show "u32_at (SegmentHeader_fill crc h) 8 = 2"
    using len by (simp add: facts)
  show "u32_at (SegmentHeader_fill crc h) 12 = 4096"
    using len by (simp add: facts)
  show "SegmentHeader_read (SegmentHeader_fill crc h) = h"
    using assms len by (simp add: facts SegmentHeader_read_def SegmentHeader_typed_def)
  show "subrange (SegmentHeader_fill crc h) 88 4004 = replicate 4004 0"
    using assms len by (simp add: facts SegmentHeader_typed_def)
  show "u32_at (SegmentHeader_fill crc h) 4092 = checksum crc (SegmentHeader_fill crc h) 4092"
    using len by (simp add: facts)
qed

lemma SegmentHeader_decode_fill:
  assumes "SegmentHeader_typed h" and "SegmentHeader_validate h = Inr ()"
  shows "SegmentHeader_decode crc (SegmentHeader_fill crc h) = Inr h"
  using assms SegmentHeader_fill_layout [OF assms(1), of crc]
  by (simp add: SegmentHeader_decode_def BLOCK_SIZE_def)

lemma SegmentHeader_read_typed: "length bs = 4096 \<Longrightarrow> SegmentHeader_typed (SegmentHeader_read bs)"
  by (simp add: SegmentHeader_typed_def SegmentHeader_read_def)

lemma SegmentHeader_decode_canonical:
  assumes "SegmentHeader_decode crc bs = Inr h"
  shows "SegmentHeader_typed h" and "SegmentHeader_encode crc h = Inr bs"
proof -
  let ?cs = "SegmentHeader_fill crc h"
  from assms have len: "length bs = 4096" and magic: "subrange bs 0 8 = ascii ''CASSEG02''"
    and ver: "u32_at bs 8 = 2" "u32_at bs 12 = 4096"
    and zeros: "subrange bs 88 4004 = replicate 4004 0"
    and crc: "u32_at bs 4092 = checksum crc bs 4092"
    and h: "h = SegmentHeader_read bs" and valid: "SegmentHeader_validate h = Inr ()"
    by (auto simp: SegmentHeader_decode_def BLOCK_SIZE_def all_zero_iff)
  show typed: "SegmentHeader_typed h" using len h SegmentHeader_read_typed by simp
  note lay = SegmentHeader_fill_layout [OF typed, of crc]
  have "SegmentHeader_read bs = SegmentHeader_read ?cs" using lay(5) h by simp
  then have ids: "subrange bs 16 16 = subrange ?cs 16 16" "subrange bs 32 16 = subrange ?cs 32 16"
    and nums: "u64_at bs 48 = u64_at ?cs 48" "u64_at bs 56 = u64_at ?cs 56"
      "u64_at bs 64 = u64_at ?cs 64" "u64_at bs 72 = u64_at ?cs 72" "u64_at bs 80 = u64_at ?cs 80"
    by (simp_all add: SegmentHeader_read_def)
  have words: "subrange bs off 8 = subrange ?cs off 8" if "off \<in> {48, 56, 64, 72, 80}" for off
    by (rule f64.get_injective) (use that nums len lay(1) in auto)
  have vers: "subrange bs off 4 = subrange ?cs off 4" if "off \<in> {8, 12}" for off
    by (rule f32.get_injective) (use that ver len lay(1,3,4) in auto)
  have "agree 0 [8, 4, 4, 16, 16, 8, 8, 8, 8, 8, 4004] bs ?cs"
    using magic lay(2,6) zeros ids by (simp add: words vers)
  then have "take 4092 bs = take 4092 ?cs"
    using agree_subrange [of 0 "[8, 4, 4, 16, 16, 8, 8, 8, 8, 8, 4004]" bs ?cs]
    by (simp add: subrange_prefix)
  then have "bs = ?cs" using len lay crc by (intro sealed_eq [of bs ?cs 4092 crc]) auto
  then show "SegmentHeader_encode crc h = Inr bs" using valid by (simp add: SegmentHeader_encode_def)
qed

section \<open>Descriptor slots\<close>

definition slot_of :: "Descriptor \<Rightarrow> bytes" where
  "slot_of d = Descriptor_encode d (replicate 64 0)"

abbreviation Descriptor_fields :: "Descriptor \<Rightarrow> (nat \<times> bytes) list" where
  "Descriptor_fields d \<equiv>
     [(0, le_of_nat 8 (unat (rid_serial (d_id d)))), (8, le_of_nat 8 (unat (d_sequence d))),
      (16, le_of_nat 8 (unat (rid_attachment (d_id d)))), (24, le_of_nat 8 (unat (d_offset d))),
      (32, le_of_nat 8 (unat (d_length d))), (40, le_of_nat 4 (unat (d_payload_offset d))),
      (44, le_of_nat 4 (unat (d_payload_length d))), (48, le_of_nat 4 (unat (d_payload_crc d))),
      (52, le_of_nat 2 (unat (kind_u16 (d_kind d)))), (54, le_of_nat 2 (unat (rid_queue (d_id d)))),
      (56, le_of_nat 2 (unat (rid_head (d_id d))))]"

lemma kind_u16_eq [simp]: "kind_u16 k = 1 \<longleftrightarrow> k = Write" "kind_u16 k = 2 \<longleftrightarrow> k = Zero"
  by (cases k; simp)+

lemma kind_u16_decode: "(if k = Write then Write else Zero) = k"
  by (cases k) auto

lemma kind_u16_cases: "kind_u16 k = 1 \<or> kind_u16 k = 2"
  by (cases k) auto

lemma slot_of_fields: "slot_of d = write_fields (replicate 64 0) (Descriptor_fields d)"
  by (simp add: slot_of_def Descriptor_encode_def Let_def write_fields_def put16_def put32_def
        put64_def)

lemma slot_of_layout [simp]:
  "length (slot_of d) = 64"
  "Descriptor_decode (slot_of d) = d"
  "u16_at (slot_of d) 52 = kind_u16 (d_kind d)"
  "all_zero (drop 58 (slot_of d))"
proof -
  let ?z = "replicate 64 (0 :: byte)"
  have ok: "fields_ok 0 (length ?z) (Descriptor_fields d)" by simp
  note reads = field_reads [OF ok]
  show len: "length (slot_of d) = 64" using length_write_fields [OF ok] by (simp add: slot_of_fields)
  show "u16_at (slot_of d) 52 = kind_u16 (d_kind d)" by (simp add: slot_of_fields reads)
  show "Descriptor_decode (slot_of d) = d"
    by (simp add: slot_of_fields reads Descriptor_decode_def kind_u16_decode)
  have "subrange (slot_of d) 58 6 = replicate 6 0"
    by (simp add: slot_of_fields read_gap [OF ok] subrange_replicate)
  then show "all_zero (drop 58 (slot_of d))"
    using len by (simp add: subrange_def all_zero_iff)
qed

lemma slot_of_renumber: "put64 (slot_of d) 8 s = slot_of (d\<lparr>d_sequence := s\<rparr>)"
proof (rule agree_eq)
  let ?d = "d\<lparr>d_sequence := s\<rparr>" and ?z = "replicate 64 (0 :: byte)"
  have ok: "fields_ok 0 (length ?z) (Descriptor_fields d)" by simp
  have ok': "fields_ok 0 (length ?z) (Descriptor_fields ?d)" by simp
  have len: "length (write_fields ?z (Descriptor_fields d)) = 64"
    using length_write_fields [OF ok] by simp
  show "agree 0 [8, 8, 8, 8, 8, 4, 4, 4, 2, 2, 2, 6] (put64 (slot_of d) 8 s) (slot_of ?d)"
    using len
    by (simp add: put64_def slot_of_fields codec read_map [OF ok] read_map [OF ok', simplified]
          read_gap [OF ok] read_gap [OF ok', simplified])
qed (simp_all add: slot_of_layout)

text \<open>What one descriptor adds to a batch: the payload end and the last serial after it.\<close>

definition pack_step ::
  "(bytes \<Rightarrow> u32) \<Rightarrow> u64 \<Rightarrow> bytes \<Rightarrow> Descriptor \<Rightarrow> nat \<times> u64 \<Rightarrow> (nat \<times> u64) option" where
  "pack_step crc image_bytes payload d s =
    (if rid_serial (d_id d) > snd s \<and> rid_attachment (d_id d) \<noteq> 0 \<and>
        valid_range (d_offset d) (d_length d) image_bytes \<and>
        (case d_kind d of
           Write \<Rightarrow> unat (d_length d) = unat (d_payload_length d) \<and>
                    unat (d_payload_offset d) = fst s \<and>
                    fst s + unat (d_payload_length d) \<le> length payload \<and>
                    crc (subrange payload (fst s) (unat (d_payload_length d))) = d_payload_crc d
         | Zero \<Rightarrow> d_payload_offset d = 0 \<and> d_payload_length d = 0 \<and> d_payload_crc d = 0)
     then Some (fst s + unat (d_payload_length d), rid_serial (d_id d)) else None)"

definition packed ::
  "(bytes \<Rightarrow> u32) \<Rightarrow> u64 \<Rightarrow> bytes \<Rightarrow> Descriptor list \<Rightarrow> nat \<times> u64 \<Rightarrow> (nat \<times> u64) option" where
  "packed crc image_bytes payload ds s =
     foldl (\<lambda>t d. Option.bind t (pack_step crc image_bytes payload d)) (Some s) ds"

lemma packed_Nil [simp]: "packed crc img p [] s = Some s"
  by (simp add: packed_def)

lemma packed_None: "foldl (\<lambda>t d. Option.bind t (pack_step crc img p d)) None ds = None"
  by (induction ds) auto

lemma packed_Cons: "packed crc img p (d # ds) s = Option.bind (pack_step crc img p d s) (packed crc img p ds)"
  by (cases "pack_step crc img p d s") (simp_all add: packed_def packed_None)

lemma packed_snoc [simp]:
  "packed crc img p (ds @ [d]) s = Option.bind (packed crc img p ds s) (pack_step crc img p d)"
  by (simp add: packed_def)

lemma pack_step_mono: "pack_step crc img p d s = Some t \<Longrightarrow> fst s \<le> fst t"
  by (auto simp: pack_step_def split: if_splits)

lemma pack_step_extend:
  assumes "pack_step crc img p d s = Some t" and "take (fst t) p = take (fst t) q"
    and "length p \<le> length q"
  shows "pack_step crc img q d s = Some t"
proof -
  have "subrange p (fst s) (unat (d_payload_length d)) = subrange q (fst s) (unat (d_payload_length d))"
    using assms(1,2) by (auto simp: pack_step_def subrange_def split: if_splits)
      (metis drop_take add_diff_cancel_left')
  with assms show ?thesis by (auto simp: pack_step_def split: if_splits Kind.splits)
qed

lemma packed_mono: "packed crc img p ds s = Some t \<Longrightarrow> fst s \<le> fst t"
proof (induction ds arbitrary: t rule: rev_induct)
  case (snoc d ds)
  then show ?case by (fastforce simp: bind_eq_Some_conv dest: pack_step_mono)
qed simp

lemma packed_extend:
  assumes "packed crc img p ds s = Some t" and "take (fst t) p = take (fst t) q"
    and "length p \<le> length q"
  shows "packed crc img q ds s = Some t"
  using assms
proof (induction ds arbitrary: t rule: rev_induct)
  case (snoc d ds)
  then obtain u where u: "packed crc img p ds s = Some u" "pack_step crc img p d u = Some t"
    by (auto simp: bind_eq_Some_conv)
  have "fst u \<le> fst t" by (rule pack_step_mono) (rule u(2))
  then have "take (fst u) p = take (fst u) q" using snoc.prems(2) by (metis min.absorb1 take_take)
  then have "packed crc img q ds s = Some u" using snoc.IH u(1) snoc.prems(3) by simp
  then show ?case using pack_step_extend [OF u(2)] snoc.prems by simp
qed simp

section \<open>The header page of a batch\<close>

definition page_inv :: "bytes \<Rightarrow> Descriptor list \<Rightarrow> bool" where
  "page_inv buf ds \<longleftrightarrow>
     length ds \<le> 63 \<and> 4096 \<le> length buf \<and> subrange buf 0 64 = replicate 64 0 \<and>
     (\<forall>i < length ds. subrange buf (64 + 64 * i) 64 = slot_of (ds ! i)) \<and>
     subrange buf (64 + 64 * length ds) (4032 - 64 * length ds) =
       replicate (4032 - 64 * length ds) 0"

fun number :: "u64 \<Rightarrow> Descriptor list \<Rightarrow> Descriptor list" where
  "number first [] = []"
| "number first (d # ds) = d\<lparr>d_sequence := first\<rparr> # number (first + 1) ds"

lemma length_number [simp]: "length (number first ds) = length ds"
  by (induction ds arbitrary: first) auto

lemma number_eq_Nil [simp]: "number first ds = [] \<longleftrightarrow> ds = []"
  by (cases ds) auto

lemma nth_number: "i < length ds \<Longrightarrow> number first ds ! i = (ds ! i)\<lparr>d_sequence := first + word_of_nat i\<rparr>"
proof (induction ds arbitrary: first i)
  case (Cons d ds)
  then show ?case by (cases i) (simp_all add: add.assoc add.commute)
qed simp

lemma pack_step_sequence: "pack_step crc img p (d\<lparr>d_sequence := q\<rparr>) = pack_step crc img p d"
  by (rule ext) (cases "d_kind d"; simp add: pack_step_def)

lemma packed_number [simp]: "packed crc img p (number first ds) = packed crc img p ds"
proof (induction ds arbitrary: first)
  case (Cons d ds)
  then show ?case by (intro ext) (simp add: packed_Cons pack_step_sequence)
qed simp

lemma page_push:
  assumes inv: "page_inv buf ds" and room: "length ds < 63"
  shows "page_inv (overwrite buf (64 + 64 * length ds) (slot_of d)) (ds @ [d])"
proof -
  let ?n = "length ds" and ?buf = "overwrite buf (64 + 64 * length ds) (slot_of d)"
  from inv have len: "4096 \<le> length buf" and head: "subrange buf 0 64 = replicate 64 0"
    and slots: "\<And>i. i < ?n \<Longrightarrow> subrange buf (64 + 64 * i) 64 = slot_of (ds ! i)"
    and tail: "subrange buf (64 + 64 * ?n) (4032 - 64 * ?n) = replicate (4032 - 64 * ?n) 0"
    by (auto simp: page_inv_def)
  have fits: "64 + 64 * ?n + 64 \<le> length buf" using len room by simp
  have slots': "subrange ?buf (64 + 64 * i) 64 = slot_of ((ds @ [d]) ! i)" if "i < Suc ?n" for i
  proof (cases "i = ?n")
    case True
    then show ?thesis using fits by (simp add: subrange_overwrite_same)
  next
    case False
    then have "i < ?n" using that by simp
    then show ?thesis using fits by (simp add: subrange_overwrite_before slots nth_append)
  qed
  have "subrange ?buf (64 + 64 * Suc ?n) (4032 - 64 * Suc ?n) =
        subrange (subrange buf (64 + 64 * ?n) (4032 - 64 * ?n)) 64 (4032 - 64 * Suc ?n)"
    using fits room by (simp add: subrange_overwrite_after subrange_subrange ac_simps)
  also have "\<dots> = replicate (4032 - 64 * Suc ?n) 0"
    using room by (simp add: tail subrange_replicate)
  finally show ?thesis
    using len head fits room slots' by (simp add: page_inv_def subrange_overwrite_before)
qed

lemma page_payload:
  assumes "page_inv buf ds" and "4096 \<le> p" and "p + length v \<le> length buf"
  shows "page_inv (overwrite buf p v) ds"
  using assms by (auto simp: page_inv_def subrange_overwrite_before)

lemma put_sequences_frame:
  assumes "64 + 64 * k \<le> length buf"
  shows "length (put_sequences first k buf) = length buf"
    and "off + n \<le> 64 \<or> 64 + 64 * k \<le> off \<Longrightarrow>
         subrange (put_sequences first k buf) off n = subrange buf off n"
  using assms
proof (induction k)
  case (Suc k)
  {
    case 1
    with Suc show ?case by (simp add: wal_constants)
  next
    case 2
    with Suc show ?case
      by (auto simp: wal_constants put64_def subrange_overwrite_before subrange_overwrite_after)
  }
qed auto

lemma put_sequences_slot:
  assumes "64 + 64 * k \<le> length buf" and "i < k"
  shows "subrange (put_sequences first k buf) (64 + 64 * i) 64 =
         put64 (subrange buf (64 + 64 * i) 64) 8 (first + word_of_nat i)"
  using assms
proof (induction k)
  case (Suc k)
  have len: "length (put_sequences first k buf) = length buf"
    using Suc.prems by (intro put_sequences_frame) simp
  show ?case
  proof (cases "i = k")
    case True
    have "subrange (put_sequences first k buf) (64 + 64 * k) 64 = subrange buf (64 + 64 * k) 64"
      using Suc.prems by (intro put_sequences_frame) auto
    then show ?thesis
      using Suc.prems len True
      by (simp add: wal_constants put64_def subrange_overwrite_inside mult.commute)
  next
    case False
    with Suc show ?thesis
      by (simp add: wal_constants put64_def subrange_overwrite_before len mult.commute)
  qed
qed simp

lemma page_sequences:
  assumes "page_inv buf ds"
  shows "page_inv (put_sequences first (length ds) buf) (number first ds)"
  using assms
  by (auto simp: page_inv_def put_sequences_frame put_sequences_slot nth_number slot_of_renumber)

section \<open>Every sealed batch parses back to what was written\<close>

text \<open>What the callers of a builder asked for, in order: the payload of a write or a zeroed range.\<close>

datatype request = WriteReq RequestId u64 bytes | ZeroReq RequestId u64 u64

fun request_data :: "request \<Rightarrow> bytes" where
  "request_data (WriteReq rid off data) = data"
| "request_data (ZeroReq rid off len) = []"

fun request_descriptor :: "(bytes \<Rightarrow> u32) \<Rightarrow> nat \<Rightarrow> request \<Rightarrow> Descriptor" where
  "request_descriptor crc payload_offset (WriteReq rid off data) =
     \<lparr>d_id = rid, d_sequence = 0, d_offset = off, d_length = word_of_nat (length data),
      d_payload_offset = word_of_nat payload_offset, d_payload_length = word_of_nat (length data),
      d_payload_crc = crc data, d_kind = Write\<rparr>"
| "request_descriptor crc payload_offset (ZeroReq rid off len) =
     \<lparr>d_id = rid, d_sequence = 0, d_offset = off, d_length = len, d_payload_offset = 0,
      d_payload_length = 0, d_payload_crc = 0, d_kind = Zero\<rparr>"

definition payload_of :: "request list \<Rightarrow> bytes" where
  "payload_of rs = concat (map request_data rs)"

fun descriptors_of :: "(bytes \<Rightarrow> u32) \<Rightarrow> nat \<Rightarrow> request list \<Rightarrow> Descriptor list" where
  "descriptors_of crc payload_offset [] = []"
| "descriptors_of crc payload_offset (r # rs) =
     request_descriptor crc payload_offset r #
     descriptors_of crc (payload_offset + length (request_data r)) rs"

text \<open>The builders a caller can reach, with the requests each has accepted.\<close>

inductive built :: "(bytes \<Rightarrow> u32) \<Rightarrow> Builder \<Rightarrow> request list \<Rightarrow> bool" for crc where
  built_new: "Builder_new image_bytes cap = Inr b \<Longrightarrow> built crc b []"
| built_write: "built crc b rs \<Longrightarrow> \<forall>xs. length (fst (gather xs)) = length xs \<Longrightarrow>
     Builder_write crc b rid off len gather = (b', Inr ()) \<Longrightarrow>
     data = fst (gather (subrange (b_buffer b) (BLOCK_SIZE + b_payload_bytes b) len)) \<Longrightarrow>
     built crc b' (rs @ [WriteReq rid off data])"
| built_write_failed: "built crc b rs \<Longrightarrow> \<forall>xs. length (fst (gather xs)) = length xs \<Longrightarrow>
     Builder_write crc b rid off len gather = (b', Inl e) \<Longrightarrow> built crc b' rs"
| built_zero: "built crc b rs \<Longrightarrow> Builder_zero b rid off len = (b', Inr ()) \<Longrightarrow>
     built crc b' (rs @ [ZeroReq rid off len])"
| built_zero_failed: "built crc b rs \<Longrightarrow> Builder_zero b rid off len = (b', Inl e) \<Longrightarrow> built crc b' rs"

definition Builder_inv :: "(bytes \<Rightarrow> u32) \<Rightarrow> Builder \<Rightarrow> request list \<Rightarrow> bool" where
  "Builder_inv crc b rs \<longleftrightarrow>
     (let ds = descriptors_of crc 0 rs; n = b_payload_bytes b in
      page_inv (b_buffer b) ds \<and> b_descriptors b = length rs \<and>
      length (b_buffer b) \<le> 4096 + 1048576 \<and> 4096 + n \<le> length (b_buffer b) \<and> 4096 dvd n \<and>
      subrange (b_buffer b) 4096 n = payload_of rs \<and> length (payload_of rs) = n \<and>
      packed crc (b_image_bytes b) (payload_of rs) ds (0, 0) = Some (n, b_last_serial b))"

lemma length_descriptors_of [simp]: "length (descriptors_of crc off rs) = length rs"
  by (induction rs arbitrary: off) auto

lemma descriptors_of_eq_Nil [simp]: "descriptors_of crc off rs = [] \<longleftrightarrow> rs = []"
  by (cases rs) auto

lemma payload_of_simps [simp]:
  "payload_of [] = []"
  "payload_of (rs @ [r]) = payload_of rs @ request_data r"
  by (simp_all add: payload_of_def)

lemma descriptors_of_snoc [simp]:
  "descriptors_of crc off (rs @ [r]) =
   descriptors_of crc off rs @ [request_descriptor crc (off + length (payload_of rs)) r]"
  by (induction rs arbitrary: off) (simp_all add: payload_of_def add.assoc)

lemma Builder_inv_new:
  assumes "Builder_new image_bytes cap = Inr b"
  shows "Builder_inv crc b []"
  using assms
  by (auto simp: Builder_new_def Builder_inv_def page_inv_def wal_constants subrange_replicate
        subrange_def)

lemma Builder_admit_ok:
  "Builder_admit b rid off len n = Inr () \<longleftrightarrow>
     b_descriptors b < 63 \<and> rid_serial rid > b_last_serial b \<and> rid_attachment rid \<noteq> 0 \<and>
     valid_range off len (b_image_bytes b) \<and>
     n \<le> length (b_buffer b) - 4096 - b_payload_bytes b"
  by (simp add: Builder_admit_def wal_constants)

lemma Builder_push_slot:
  assumes "page_inv (b_buffer b) ds" and "b_descriptors b = length ds" and "length ds < 63"
  shows "b_buffer (Builder_push b d) = overwrite (b_buffer b) (64 + 64 * length ds) (slot_of d)"
proof -
  have "subrange (b_buffer b) (64 + 64 * length ds) 64 =
        subrange (subrange (b_buffer b) (64 + 64 * length ds) (4032 - 64 * length ds)) 0 64"
    using assms(3) by (simp add: subrange_subrange)
  also have "\<dots> = replicate 64 0"
    using assms(1,3) by (simp add: page_inv_def subrange_replicate)
  finally show ?thesis
    using assms(2) by (simp add: Builder_push_def wal_constants slot_of_def Let_def mult.commute)
qed

lemma unat_small:
  "n \<le> 1052672 \<Longrightarrow> unat (word_of_nat n :: u32) = n"
  "n \<le> 1052672 \<Longrightarrow> unat (word_of_nat n :: u64) = n"
  by (simp_all add: unat_of_nat)

lemma packed_append:
  "packed crc img p ds s = Some (length p, t) \<Longrightarrow> packed crc img (p @ q) ds s = Some (length p, t)"
  by (rule packed_extend) auto

lemma Builder_inv_accept:
  assumes inv: "Builder_inv crc b rs" and room: "b_descriptors b < 63"
    and buf: "buf = overwrite (b_buffer b) (4096 + b_payload_bytes b) data"
    and fits: "4096 + b_payload_bytes b + length data \<le> length (b_buffer b)"
    and aligned: "4096 dvd length data" and data: "request_data r = data"
    and d: "d = request_descriptor crc (b_payload_bytes b) r"
    and step: "pack_step crc (b_image_bytes b) (payload_of rs @ data) d
                 (b_payload_bytes b, b_last_serial b) =
               Some (b_payload_bytes b + length data, rid_serial (d_id d))"
  shows "Builder_inv crc
           ((Builder_push (b\<lparr>b_buffer := buf\<rparr>) d)
              \<lparr>b_payload_bytes := b_payload_bytes b + length data\<rparr>) (rs @ [r])"
proof -
  let ?ds = "descriptors_of crc 0 rs" and ?n = "b_payload_bytes b"
  let ?final = "overwrite buf (64 + 64 * length rs) (slot_of d)"
  from inv have page: "page_inv (b_buffer b) ?ds" and n: "b_descriptors b = length rs"
    and len: "length (b_buffer b) \<le> 4096 + 1048576" "4096 dvd ?n"
    and pay: "subrange (b_buffer b) 4096 ?n = payload_of rs" "length (payload_of rs) = ?n"
    and pk: "packed crc (b_image_bytes b) (payload_of rs) ?ds (0, 0) = Some (?n, b_last_serial b)"
    by (auto simp: Builder_inv_def Let_def)
  have page': "page_inv buf ?ds" unfolding buf by (rule page_payload [OF page]) (use fits in auto)
  have blen: "length buf = length (b_buffer b)" using fits by (simp add: buf)
  have final: "b_buffer (Builder_push (b\<lparr>b_buffer := buf\<rparr>) d) = ?final"
    using Builder_push_slot [of "b\<lparr>b_buffer := buf\<rparr>" ?ds d] page' n room by simp
  have lens: "64 + 64 * length rs + 64 \<le> 4096" "4096 \<le> length buf"
    using room n page' by (auto simp: page_inv_def)
  have "subrange ?final 4096 (?n + length data) = subrange buf 4096 (?n + length data)"
    using lens by (intro subrange_overwrite_after) auto
  also have "\<dots> = payload_of rs @ data"
    unfolding buf subrange_append_split
    using fits pay by (simp add: subrange_overwrite_before subrange_overwrite_same)
  finally have pay': "subrange ?final 4096 (?n + length data) = payload_of rs @ data" .
  have "packed crc (b_image_bytes b) (payload_of rs @ data) ?ds (0, 0) = Some (?n, b_last_serial b)"
    using packed_append pk pay(2) by metis
  then have pk': "packed crc (b_image_bytes b) (payload_of (rs @ [r])) (?ds @ [d]) (0, 0) =
                  Some (?n + length data, rid_serial (d_id d))"
    using step data by simp
  have page'': "page_inv ?final (?ds @ [d])"
    using page_push [OF page'] room n by simp
  show ?thesis
    using final page'' pay' pk' blen fits aligned len pay(2) n lens d data
    by (simp add: Builder_inv_def Let_def) (simp add: Builder_push_def Let_def)
qed

lemma Builder_write_inv:
  assumes inv: "Builder_inv crc b rs" and g: "\<forall>xs. length (fst (gather xs)) = length xs"
    and w: "Builder_write crc b rid off len gather = (b', r)"
    and data: "data = fst (gather (subrange (b_buffer b) (BLOCK_SIZE + b_payload_bytes b) len))"
  shows "case r of Inr _ \<Rightarrow> Builder_inv crc b' (rs @ [WriteReq rid off data]) | Inl _ \<Rightarrow> Builder_inv crc b' rs"
proof (cases "Builder_admit b rid off (word_of_nat len) len")
  case (Inl e)
  then have "b' = b" "r = Inl e" using w by (simp_all add: Builder_write_def)
  then show ?thesis using inv by simp
next
  case (Inr u)
  from inv have len: "length (b_buffer b) \<le> 4096 + 1048576"
    "4096 + b_payload_bytes b \<le> length (b_buffer b)" "length (payload_of rs) = b_payload_bytes b"
    by (auto simp: Builder_inv_def Let_def)
  from Inr have ok: "b_descriptors b < 63" "rid_serial rid > b_last_serial b"
    "rid_attachment rid \<noteq> 0" "valid_range off (word_of_nat len) (b_image_bytes b)"
    "len \<le> length (b_buffer b) - 4096 - b_payload_bytes b"
    by (auto simp: Builder_admit_ok)
  have fits: "4096 + b_payload_bytes b + len \<le> length (b_buffer b)" using ok(5) len by simp
  have dlen: "length data = len" using g fits by (simp add: data BLOCK_SIZE_def)
  have small: "len \<le> 1052672" "b_payload_bytes b \<le> 1052672" using fits len by auto
  have aligned: "4096 dvd len"
    using ok(4) unat_small(2) [OF small(1)] by (simp add: valid_range_def is_multiple_of_BLOCK)
  let ?buf = "overwrite (b_buffer b) (4096 + b_payload_bytes b) data"
  let ?d = "request_descriptor crc (b_payload_bytes b) (WriteReq rid off data)"
  show ?thesis
  proof (cases "snd (gather (subrange (b_buffer b) (4096 + b_payload_bytes b) len))")
    case e: (Inl e)
    then have b': "b' = b\<lparr>b_buffer := ?buf\<rparr>" "r = Inl e"
      using w Inr by (auto simp: Builder_write_def Let_def data BLOCK_SIZE_def split: prod.splits)
    have "page_inv ?buf (descriptors_of crc 0 rs)"
      using inv fits dlen by (intro page_payload) (auto simp: Builder_inv_def Let_def)
    then show ?thesis
      using inv b' fits dlen by (simp add: Builder_inv_def Let_def subrange_overwrite_before)
  next
    case (Inr u')
    then have b': "b' = (Builder_push (b\<lparr>b_buffer := ?buf\<rparr>) ?d)
                         \<lparr>b_payload_bytes := b_payload_bytes b + len\<rparr>" "r = Inr ()"
      using w \<open>Builder_admit b rid off (word_of_nat len) len = Inr u\<close> dlen
      by (auto simp: Builder_write_def Let_def data BLOCK_SIZE_def Builder_push_def split: prod.splits)
    have "pack_step crc (b_image_bytes b) (payload_of rs @ data) ?d
            (b_payload_bytes b, b_last_serial b) =
          Some (b_payload_bytes b + length data, rid_serial (d_id ?d))"
      using ok dlen len(3) unat_small [OF small(1)] unat_small [OF small(2)]
      by (simp add: pack_step_def subrange_def)
    then show ?thesis
      using Builder_inv_accept [OF inv ok(1) refl _ _ _ refl, of data "WriteReq rid off data"]
        fits dlen aligned b' by simp
  qed
qed

lemma Builder_zero_inv:
  assumes inv: "Builder_inv crc b rs" and z: "Builder_zero b rid off len = (b', r)"
  shows "case r of Inr _ \<Rightarrow> Builder_inv crc b' (rs @ [ZeroReq rid off len]) | Inl _ \<Rightarrow> Builder_inv crc b' rs"
proof (cases "Builder_admit b rid off len 0")
  case (Inl e)
  then have "b' = b" "r = Inl e" using z by (simp_all add: Builder_zero_def)
  then show ?thesis using inv by simp
next
  case (Inr u)
  from inv have len: "4096 + b_payload_bytes b \<le> length (b_buffer b)"
    by (auto simp: Builder_inv_def Let_def)
  from Inr have ok: "b_descriptors b < 63" "rid_serial rid > b_last_serial b"
    "rid_attachment rid \<noteq> 0" "valid_range off len (b_image_bytes b)"
    by (auto simp: Builder_admit_ok)
  let ?d = "request_descriptor crc (b_payload_bytes b) (ZeroReq rid off len)"
  have same: "overwrite (b_buffer b) (4096 + b_payload_bytes b) [] = b_buffer b"
    by (simp add: overwrite_def)
  have "b' = (Builder_push (b\<lparr>b_buffer := b_buffer b\<rparr>) ?d)\<lparr>b_payload_bytes := b_payload_bytes b + length []\<rparr>"
    and r: "r = Inr ()"
    using z Inr by (auto simp: Builder_zero_def Builder_push_def Let_def)
  moreover have "pack_step crc (b_image_bytes b) (payload_of rs @ []) ?d
            (b_payload_bytes b, b_last_serial b) =
          Some (b_payload_bytes b + length [], rid_serial (d_id ?d))"
    using ok by (simp add: pack_step_def)
  ultimately show ?thesis
    using Builder_inv_accept [OF inv ok(1) refl _ _ _ refl, of "[]" "ZeroReq rid off len"] len same
    by simp
qed

lemma built_inv: "built crc b rs \<Longrightarrow> Builder_inv crc b rs"
proof (induction rule: built.induct)
  case (built_new image_bytes cap b)
  then show ?case by (rule Builder_inv_new)
next
  case (built_write b rs gather rid off len b' data)
  then show ?case using Builder_write_inv [of crc b rs gather rid off len b' "Inr ()"] by simp
next
  case (built_write_failed b rs gather rid off len b' e)
  then show ?case using Builder_write_inv [of crc b rs gather rid off len b' "Inl e"] by simp
next
  case (built_zero b rs rid off len b')
  then show ?case using Builder_zero_inv [of crc b rs rid off len b' "Inr ()"] by simp
next
  case (built_zero_failed b rs rid off len b' e)
  then show ?case using Builder_zero_inv [of crc b rs rid off len b' "Inl e"] by simp
qed

section \<open>Sealing\<close>

lemma check_descriptors_packed:
  assumes "packed crc img p ds (pe, prev) = Some (pe', prev')" and "pe' \<le> e_payload_bytes e"
    and "\<forall>i < length ds. d_sequence (ds ! i) = e_first e + word_of_nat (index + i)"
  shows "check_descriptors img e index (map slot_of ds) pe prev = Inr pe'"
  using assms
proof (induction ds arbitrary: pe prev index)
  case (Cons d ds)
  then obtain t where step: "pack_step crc img p d (pe, prev) = Some t"
    and rest: "packed crc img p ds t = Some (pe', prev')"
    by (auto simp: packed_Cons bind_eq_Some_conv)
  then have t: "t = (pe + unat (d_payload_length d), rid_serial (d_id d))"
    by (auto simp: pack_step_def split: if_splits)
  have mono: "fst t \<le> pe'" using packed_mono [OF rest] by simp
  have rec: "check_descriptors img e (Suc index) (map slot_of ds) (fst t) (snd t) = Inr pe'"
    using Cons.prems(2,3) rest by (intro Cons.IH) (auto simp: t dest: spec [of _ "Suc _"])
  have seq: "d_sequence d = e_first e + word_of_nat index" using Cons.prems(3) by force
  show ?case
    using step rec seq mono Cons.prems(2) kind_u16_cases [of "d_kind d"]
    by (cases "d_kind d") (auto simp: pack_step_def t Let_def split: if_splits)
qed simp

lemma descriptor_slots_page:
  assumes "page_inv buf ds"
  shows "descriptor_slots buf (length ds) = map slot_of ds"
proof -
  have "64 + 64 * length ds \<le> length buf" using assms by (simp add: page_inv_def)
  then have "descriptor_slots buf (length ds) =
             map (\<lambda>i. subrange buf (64 + 64 * i) 64) [0..<length ds]"
    by (simp add: descriptor_slots_def wal_constants chunks_subrange)
  also have "\<dots> = map slot_of (map ((!) ds) [0..<length ds])"
    using assms by (auto simp: page_inv_def)
  finally show ?thesis by (simp add: map_nth)
qed

definition fence_u16 :: "bool \<Rightarrow> u16" where
  "fence_u16 f = (if f then 2 else 1)"

abbreviation Envelope_fields :: "Envelope \<Rightarrow> (nat \<times> bytes) list" where
  "Envelope_fields e \<equiv>
     [(0, ascii ''CASBAT02''), (8, le_of_nat 2 2),
      (10, le_of_nat 2 (unat (fence_u16 (e_fence e)))),
      (12, le_of_nat 2 (unat (word_of_nat (e_descriptors e) :: u16))),
      (16, le_of_nat 8 (unat (e_segment e))), (24, le_of_nat 8 (unat (e_batch e))),
      (32, le_of_nat 4 (unat (4096 + word_of_nat (e_payload_bytes e) :: u32))),
      (36, le_of_nat 4 (unat (word_of_nat (e_payload_bytes e) :: u32))),
      (40, le_of_nat 8 (unat (e_first e))), (48, le_of_nat 8 (unat (e_last e)))]"

lemma Envelope_encode_fields:
  "Envelope_encode crc e bs = put_checksum crc (write_fields bs (Envelope_fields e)) 56"
  by (simp add: Envelope_encode_def Let_def write_fields_def BLOCK_SIZE_def put16_def put32_def
        put64_def fence_u16_def)

lemma fence_u16_eq [simp]: "fence_u16 f = 2 \<longleftrightarrow> f"
  by (simp add: fence_u16_def)

lemma Envelope_encode_layout:
  assumes page: "page_inv bs ds" and small: "e_descriptors e \<le> 63" "e_payload_bytes e \<le> 1048576"
  shows "length (Envelope_encode crc e bs) = length bs"
    and "subrange (Envelope_encode crc e bs) 0 8 = ascii ''CASBAT02''"
    and "u16_at (Envelope_encode crc e bs) 8 = 2"
    and "u16_at (Envelope_encode crc e bs) 10 = fence_u16 (e_fence e)"
    and "Envelope_read (Envelope_encode crc e bs) = e"
    and "unat (u32_at (Envelope_encode crc e bs) 32) = 4096 + e_payload_bytes e"
    and "u32_at (Envelope_encode crc e bs) 56 = checksum crc (Envelope_encode crc e bs) 56"
    and "u16_at (Envelope_encode crc e bs) 14 = 0" and "u32_at (Envelope_encode crc e bs) 60 = 0"
    and "64 \<le> off \<Longrightarrow> subrange (Envelope_encode crc e bs) off n = subrange bs off n"
proof -
  let ?fs = "Envelope_fields e"
  have long: "4096 \<le> length bs" and head: "subrange bs 0 64 = replicate 64 0"
    using page by (auto simp: page_inv_def)
  have ok: "fields_ok 0 (length bs) ?fs" using long by simp
  note len = length_write_fields [OF ok]
  note facts = Envelope_encode_fields codec field_reads [OF ok] field_gaps [OF ok]
  have unats: "unat (word_of_nat (e_descriptors e) :: u16) = e_descriptors e"
    "unat (word_of_nat (e_payload_bytes e) :: u32) = e_payload_bytes e"
    "unat (4096 + word_of_nat (e_payload_bytes e) :: u32) = 4096 + e_payload_bytes e"
    using small unat_small(1) [of "4096 + e_payload_bytes e"] by (simp_all add: unat_of_nat)
  have zero16: "u16_at bs 14 = 0"
    using f16.get_subrange [of 14 64 bs 0] head by (simp add: f16.get_zeros)
  have zero32: "u32_at bs 60 = 0"
    using f32.get_subrange [of 60 64 bs 0] head by (simp add: f32.get_zeros)
  show "length (Envelope_encode crc e bs) = length bs" using len long by (simp add: Envelope_encode_fields)
  show "subrange (Envelope_encode crc e bs) 0 8 = ascii ''CASBAT02''" using len long by (simp add: facts)
  show "u16_at (Envelope_encode crc e bs) 8 = 2" using len long by (simp add: facts)
  show "u16_at (Envelope_encode crc e bs) 10 = fence_u16 (e_fence e)" using len long by (simp add: facts)
  show "Envelope_read (Envelope_encode crc e bs) = e"
    using len long by (simp add: facts Envelope_read_def) (simp add: unats)
  show "unat (u32_at (Envelope_encode crc e bs) 32) = 4096 + e_payload_bytes e"
    using len long by (simp add: facts) (simp add: unats)
  show "u32_at (Envelope_encode crc e bs) 56 = checksum crc (Envelope_encode crc e bs) 56"
    using len long by (simp add: Envelope_encode_fields put_checksum_verifies)
  show "u16_at (Envelope_encode crc e bs) 14 = 0" using len long zero16 by (simp add: facts)
  show "u32_at (Envelope_encode crc e bs) 60 = 0" using len long zero32 by (simp add: facts)
  show "64 \<le> off \<Longrightarrow> subrange (Envelope_encode crc e bs) off n = subrange bs off n"
    using len long by (simp add: facts)
qed

lemma page_inv_prefix: "page_inv buf ds \<Longrightarrow> page_inv (subrange buf 0 4096) ds"
  by (auto simp: page_inv_def subrange_prefix)

lemma Header_decode_page:
  assumes page: "page_inv bs ds" and len: "length bs = 4096" and e: "e_descriptors e = length ds"
    and ids: "e_segment e \<noteq> 0" "e_batch e \<noteq> 0"
    and pay: "e_payload_bytes e \<le> 1048576" "4096 dvd e_payload_bytes e"
    and shape: "if e_fence e then ds = [] \<and> e_payload_bytes e = 0 \<and> e_first e = e_last e
       else ds \<noteq> [] \<and> e_first e \<noteq> 0 \<and>
            checked_add (e_first e) (word_of_nat (length ds) - 1) = Some (e_last e)"
    and check: "check_descriptors img e 0 (map slot_of ds) 0 0 = Inr (e_payload_bytes e)"
  shows "Header_decode crc (Envelope_encode crc e bs) img =
         Inr \<lparr>h_envelope = e, h_bytes = Envelope_encode crc e bs\<rparr>"
    and "descriptor_slots (Envelope_encode crc e bs) (length ds) = map slot_of ds"
proof -
  let ?E = "Envelope_encode crc e bs"
  have n: "length ds \<le> 63" using page by (simp add: page_inv_def)
  note lay = Envelope_encode_layout [OF page, where e = e and crc = crc, unfolded e, OF n pay(1)]
  have slots: "descriptor_slots ?E (length ds) = descriptor_slots bs (length ds)"
    using lay(10) by (simp add: descriptor_slots_def wal_constants)
  then show s: "descriptor_slots ?E (length ds) = map slot_of ds"
    using descriptor_slots_page [OF page] by simp
  have "drop (64 + 64 * length ds) ?E = subrange ?E (64 + 64 * length ds) (4032 - 64 * length ds)"
    using lay(1) len by (simp add: subrange_def)
  also have "\<dots> = replicate (4032 - 64 * length ds) 0"
    using lay(10) page by (simp add: page_inv_def)
  finally have zeros: "all_zero (drop (64 + 64 * length ds) ?E)" by simp
  show "Header_decode crc ?E img = Inr \<lparr>h_envelope = e, h_bytes = ?E\<rparr>"
    using lay(1-9) len n e ids pay shape check s zeros
    by (simp add: Header_decode_def wal_constants Let_def fence_u16_def split: if_splits)
qed

lemma packed_verify:
  "packed crc img p ds s = Some t \<Longrightarrow> verify_descriptors crc p ds = Inr ()"
proof (induction ds arbitrary: s)
  case (Cons d ds)
  then show ?case
    by (auto simp: packed_Cons bind_eq_Some_conv pack_step_def split: if_splits Kind.splits)
qed simp

lemma seal_roundtrip:
  assumes built: "built crc b rs" and seal: "Builder_seal crc b segment batch first = Inr bt"
  shows "Header_decode crc (take 4096 (Batch_bytes bt)) (b_image_bytes b) =
         Inr \<lparr>h_envelope = bt_envelope bt, h_bytes = take 4096 (Batch_bytes bt)\<rparr>"
    and "Header_descriptors \<lparr>h_envelope = bt_envelope bt, h_bytes = take 4096 (Batch_bytes bt)\<rparr> =
         number first (descriptors_of crc 0 rs)"
    and "drop 4096 (Batch_bytes bt) = payload_of rs"
    and "Header_verify_payload crc
           \<lparr>h_envelope = bt_envelope bt, h_bytes = take 4096 (Batch_bytes bt)\<rparr> (payload_of rs) = Inr ()"
    and "bt_envelope bt = \<lparr>e_segment = segment, e_batch = batch, e_descriptors = length rs,
           e_payload_bytes = length (payload_of rs), e_first = first,
           e_last = first + (word_of_nat (length rs) - 1), e_fence = False\<rparr>"
proof -
  let ?ds = "descriptors_of crc 0 rs" and ?n = "b_payload_bytes b"
  let ?B = "put_sequences first (length rs) (b_buffer b)"
  let ?P = "subrange ?B 0 4096" and ?e = "bt_envelope bt"
  let ?E = "Envelope_encode crc ?e ?P"
  from built_inv [OF built] have page: "page_inv (b_buffer b) ?ds" and n: "b_descriptors b = length rs"
    and lens: "length (b_buffer b) \<le> 4096 + 1048576" "4096 + ?n \<le> length (b_buffer b)" "4096 dvd ?n"
    and pay: "subrange (b_buffer b) 4096 ?n = payload_of rs" "length (payload_of rs) = ?n"
    and pk: "packed crc (b_image_bytes b) (payload_of rs) ?ds (0, 0) = Some (?n, b_last_serial b)"
    by (auto simp: Builder_inv_def Let_def)
  from seal n pay(2) have bt: "bt_buffer bt = overwrite ?B 0 ?E"
    and e: "?e = \<lparr>e_segment = segment, e_batch = batch, e_descriptors = length rs,
           e_payload_bytes = length (payload_of rs), e_first = first,
           e_last = first + (word_of_nat (length rs) - 1), e_fence = False\<rparr>"
    and ids: "rs \<noteq> []" "first \<noteq> 0" "segment \<noteq> 0" "batch \<noteq> 0"
    and last: "checked_add first (word_of_nat (length rs) - 1) = Some (e_last ?e)"
    by (auto simp: Builder_seal_def Let_def wal_constants checked_add_Some)
  have few: "64 + 64 * length rs \<le> 4096" using page by (simp add: page_inv_def)
  have Blen: "length ?B = length (b_buffer b)" using few lens by (intro put_sequences_frame) simp
  have pageB: "page_inv ?P (number first ?ds)"
    using page_inv_prefix [OF page_sequences [OF page, of first]] by simp
  have Plen: "length ?P = 4096" using Blen lens by simp
  have Elen: "length ?E = 4096"
    using Envelope_encode_layout(1) [OF pageB] e few lens pay(2) Plen by simp
  have check: "check_descriptors (b_image_bytes b) ?e 0 (map slot_of (number first ?ds)) 0 0 =
               Inr (e_payload_bytes ?e)"
    using pk by (intro check_descriptors_packed) (auto simp: e pay(2) nth_number)
  have prem: "e_descriptors ?e = length (number first ?ds)" "e_segment ?e \<noteq> 0" "e_batch ?e \<noteq> 0"
    "e_payload_bytes ?e \<le> 1048576" "4096 dvd e_payload_bytes ?e"
    using ids lens pay(2) by (simp_all add: e)
  have shape: "if e_fence ?e
     then number first ?ds = [] \<and> e_payload_bytes ?e = 0 \<and> e_first ?e = e_last ?e
     else number first ?ds \<noteq> [] \<and> e_first ?e \<noteq> 0 \<and>
       checked_add (e_first ?e) (word_of_nat (length (number first ?ds)) - 1) = Some (e_last ?e)"
    using ids last by (simp add: e)
  note dec = Header_decode_page(1) [OF pageB Plen prem shape check, of crc]
  note slots = Header_decode_page(2) [OF pageB Plen prem shape check, of crc]
  have bytes: "Batch_bytes bt = ?E @ take ?n (drop 4096 ?B)"
    using Elen Blen lens by (simp add: Batch_bytes_def bt e pay(2) overwrite_def BLOCK_SIZE_def)
  then have tk: "take 4096 (Batch_bytes bt) = ?E" using Elen by simp
  have "drop 4096 (Batch_bytes bt) = subrange ?B 4096 ?n" using bytes Elen by (simp add: subrange_def)
  also have "\<dots> = payload_of rs" using few lens pay(1) by (simp add: put_sequences_frame)
  finally show dp: "drop 4096 (Batch_bytes bt) = payload_of rs" .
  show "Header_decode crc (take 4096 (Batch_bytes bt)) (b_image_bytes b) =
         Inr \<lparr>h_envelope = ?e, h_bytes = take 4096 (Batch_bytes bt)\<rparr>"
    using dec tk by simp
  show ds: "Header_descriptors \<lparr>h_envelope = ?e, h_bytes = take 4096 (Batch_bytes bt)\<rparr> =
            number first ?ds"
    using slots by (simp add: Header_descriptors_def tk e comp_def)
  show "Header_verify_payload crc \<lparr>h_envelope = ?e, h_bytes = take 4096 (Batch_bytes bt)\<rparr> (payload_of rs) = Inr ()"
    using packed_verify [of crc "b_image_bytes b" "payload_of rs" "number first ?ds"] pk pay(2)
    by (simp add: Header_verify_payload_def ds) (simp add: e)
  show "?e = \<lparr>e_segment = segment, e_batch = batch, e_descriptors = length rs,
           e_payload_bytes = length (payload_of rs), e_first = first,
           e_last = first + (word_of_nat (length rs) - 1), e_fence = False\<rparr>"
    by (rule e)
qed

lemma fence_roundtrip:
  assumes "Batch_fence crc segment batch boundary = Inr bt"
  shows "Header_decode crc (Batch_bytes bt) img =
         Inr \<lparr>h_envelope = \<lparr>e_segment = segment, e_batch = batch, e_descriptors = 0,
                e_payload_bytes = 0, e_first = boundary, e_last = boundary, e_fence = True\<rparr>,
              h_bytes = Batch_bytes bt\<rparr>"
proof -
  let ?e = "\<lparr>e_segment = segment, e_batch = batch, e_descriptors = 0, e_payload_bytes = 0,
             e_first = boundary, e_last = boundary, e_fence = True\<rparr>"
  from assms have ids: "segment \<noteq> 0" "batch \<noteq> 0"
    and bt: "bt = \<lparr>bt_buffer = Envelope_encode crc ?e (replicate 4096 0), bt_envelope = ?e\<rparr>"
    by (auto simp: Batch_fence_def Let_def BLOCK_SIZE_def)
  have page: "page_inv (replicate 4096 0) []" by (simp add: page_inv_def subrange_replicate)
  have "length (Envelope_encode crc ?e (replicate 4096 0)) = 4096"
    using Envelope_encode_layout(1) [OF page, of ?e crc] by simp
  then have "Batch_bytes bt = Envelope_encode crc ?e (replicate 4096 0)"
    by (simp add: Batch_bytes_def bt BLOCK_SIZE_def)
  then show ?thesis
    using Header_decode_page(1) [OF page, of ?e img crc] ids by simp
qed

section \<open>What the parser accepts\<close>

text \<open>
  Declarative reading of a batch: dense sequences that do not wrap, increasing serials, ranges
  inside the image, and WRITE payloads that tile the payload area without gap or overlap.
\<close>

definition payload_before :: "Descriptor list \<Rightarrow> nat \<Rightarrow> nat" where
  "payload_before ds i = sum_list (map (\<lambda>d. unat (d_payload_length d)) (take i ds))"

definition tile_ok :: "nat \<Rightarrow> nat \<Rightarrow> Descriptor \<Rightarrow> bool" where
  "tile_ok off limit d \<longleftrightarrow>
     (case d_kind d of
        Write \<Rightarrow> unat (d_payload_offset d) = off \<and> unat (d_payload_length d) = unat (d_length d) \<and>
                 off + unat (d_payload_length d) \<le> limit
      | Zero \<Rightarrow> d_payload_length d = 0)"

definition batch_well_formed :: "u64 \<Rightarrow> Envelope \<Rightarrow> Descriptor list \<Rightarrow> bool" where
  "batch_well_formed image_bytes e ds \<longleftrightarrow>
     length ds = e_descriptors e \<and> length ds \<le> 63 \<and>
     (\<forall>i < length ds. unat (d_sequence (ds ! i)) = unat (e_first e) + i) \<and>
     sorted_wrt (<) (map (\<lambda>d. rid_serial (d_id d)) ds) \<and>
     (\<forall>d \<in> set ds. rid_attachment (d_id d) \<noteq> 0 \<and>
        valid_range (d_offset d) (d_length d) image_bytes) \<and>
     (\<forall>i < length ds. tile_ok (payload_before ds i) (e_payload_bytes e) (ds ! i)) \<and>
     payload_before ds (length ds) = e_payload_bytes e"

lemma check_descriptors_sound:
  assumes "check_descriptors img e index slots pe prev = Inr pe'"
  defines "ds \<equiv> map Descriptor_decode slots"
  shows "(\<forall>i < length ds. d_sequence (ds ! i) = e_first e + word_of_nat (index + i)) \<and>
     sorted_wrt (<) (prev # map (\<lambda>d. rid_serial (d_id d)) ds) \<and>
     (\<forall>d \<in> set ds. rid_attachment (d_id d) \<noteq> 0 \<and> valid_range (d_offset d) (d_length d) img) \<and>
     (\<forall>i < length ds. tile_ok (pe + payload_before ds i) (e_payload_bytes e) (ds ! i)) \<and>
     pe + payload_before ds (length ds) = pe'"
  using assms(1) unfolding ds_def
proof (induction slots arbitrary: index pe prev)
  case Nil
  then show ?case by (simp add: payload_before_def)
next
  case (Cons slot slots)
  let ?d = "Descriptor_decode slot" and ?ds = "map Descriptor_decode slots"
  let ?pe = "pe + unat (d_payload_length ?d)"
  have rec: "check_descriptors img e (Suc index) slots ?pe (rid_serial (d_id ?d)) = Inr pe'"
    using Cons.prems by (auto simp: Let_def split: Kind.splits)
  have pb: "payload_before (?d # ?ds) (Suc i) = unat (d_payload_length ?d) + payload_before ?ds i"
    and pb0: "payload_before (?d # ?ds) 0 = 0" for i
    by (simp_all add: payload_before_def)
  note IH = Cons.IH [OF rec]
  have head: "d_sequence ?d = e_first e + word_of_nat index" "prev < rid_serial (d_id ?d)"
    "rid_attachment (d_id ?d) \<noteq> 0" "valid_range (d_offset ?d) (d_length ?d) img"
    using Cons.prems by (auto simp: Let_def)
  have kind: "tile_ok pe (e_payload_bytes e) ?d"
    using Cons.prems by (auto simp: Let_def tile_ok_def split: Kind.splits)
  have serials: "sorted_wrt (<) (prev # map (\<lambda>d. rid_serial (d_id d)) (?d # ?ds))"
    using IH head(2) by (auto intro: less_trans)
  have seqs: "\<forall>i < length (?d # ?ds). d_sequence ((?d # ?ds) ! i) = e_first e + word_of_nat (index + i)"
    using IH head(1) by (auto simp: less_Suc_eq_0_disj)
  have kinds: "\<forall>i < length (?d # ?ds).
      tile_ok (pe + payload_before (?d # ?ds) i) (e_payload_bytes e) ((?d # ?ds) ! i)"
    using IH kind by (auto simp: less_Suc_eq_0_disj pb pb0 add.assoc)
  show ?case using IH head serials seqs kinds pb by (auto simp: add.assoc)
qed

lemma length_descriptor_slots:
  "length bs = 4096 \<Longrightarrow> n \<le> 63 \<Longrightarrow> length (descriptor_slots bs n) = n"
  by (simp add: descriptor_slots_def wal_constants)

lemma Header_decode_well_formed:
  assumes "Header_decode crc bs img = Inr h"
  shows "batch_well_formed img (h_envelope h) (Header_descriptors h)"
    and "h_bytes h = bs" and "length bs = 4096"
proof -
  let ?e = "Envelope_read bs" and ?n = "e_descriptors (Envelope_read bs)"
  from assms have len: "length bs = 4096" and n: "?n \<le> 63"
    and h: "h = \<lparr>h_envelope = ?e, h_bytes = bs\<rparr>"
    and seq: "if e_fence ?e then ?n = 0
              else ?n \<noteq> 0 \<and> checked_add (e_first ?e) (word_of_nat ?n - 1) = Some (e_last ?e)"
    and chk: "check_descriptors img ?e 0 (descriptor_slots bs ?n) 0 0 = Inr (e_payload_bytes ?e)"
    by (auto simp: Header_decode_def wal_constants Let_def split: if_splits)
  show "h_bytes h = bs" "length bs = 4096" using h len by simp_all
  let ?ds = "map Descriptor_decode (descriptor_slots bs ?n)"
  have ds: "Header_descriptors h = ?ds" by (simp add: h Header_descriptors_def)
  have lds: "length ?ds = ?n" using length_descriptor_slots [OF len n] by simp
  have nowrap: "unat (e_first ?e + word_of_nat i) = unat (e_first ?e) + i" if "i < ?n" for i
  proof -
    have "unat (word_of_nat ?n - 1 :: u64) = ?n - 1"
      using n that by (simp add: unat_sub_if' unat_of_nat)
    then have "unat (e_first ?e) + (?n - 1) < 2 ^ 64"
      using seq that by (auto simp: checked_add_Some split: if_splits)
    then show ?thesis using that n by (simp add: unat_word_ariths unat_of_nat)
  qed
  show "batch_well_formed img (h_envelope h) (Header_descriptors h)"
    using check_descriptors_sound [OF chk] lds n nowrap
    unfolding batch_well_formed_def ds by (simp add: h)
qed

section \<open>Properties\<close>

text \<open>
  The segment header parser accepts exactly the blocks the encoder produces, and gives back
  the header that was encoded: encoding is a bijection between valid headers and accepted blocks.
\<close>

theorem segment_header_bijection:
  "SegmentHeader_decode crc bs = Inr h \<longleftrightarrow>
   SegmentHeader_typed h \<and> SegmentHeader_encode crc h = Inr bs"
proof
  assume "SegmentHeader_decode crc bs = Inr h"
  then show "SegmentHeader_typed h \<and> SegmentHeader_encode crc h = Inr bs"
    using SegmentHeader_decode_canonical by blast
next
  assume "SegmentHeader_typed h \<and> SegmentHeader_encode crc h = Inr bs"
  then show "SegmentHeader_decode crc bs = Inr h"
    using SegmentHeader_decode_fill by (auto simp: SegmentHeader_encode_def)
qed

text \<open>
  C10. Whatever sequence of writes and zeroes a builder accepted (failed ones included), the sealed
  batch parses: the parser returns the sealed envelope, the descriptors are the accepted requests in
  order with dense sequences from \<open>first\<close>, the rest of the batch is the concatenated payload,
  and the payload checksums verify.
\<close>

theorem sealed_batch_roundtrip:
  assumes "built crc b rs" and "Builder_seal crc b segment batch first = Inr bt"
  shows "\<exists>h. Header_decode crc (take 4096 (Batch_bytes bt)) (b_image_bytes b) = Inr h \<and>
     h_envelope h = bt_envelope bt \<and> e_descriptors (bt_envelope bt) = length rs \<and>
     Header_descriptors h = number first (descriptors_of crc 0 rs) \<and>
     drop 4096 (Batch_bytes bt) = payload_of rs \<and>
     Header_verify_payload crc h (drop 4096 (Batch_bytes bt)) = Inr ()"
  using seal_roundtrip [OF assms] by simp

definition demo_id :: RequestId where
  "demo_id = \<lparr>rid_serial = 1, rid_attachment = 1, rid_queue = 0, rid_head = 0\<rparr>"

definition demo_builder :: Builder where
  "demo_builder = fst (Builder_zero (projr (Builder_new 8192 0)) demo_id 4096 4096)"

lemma demo_zero:
  "Builder_zero (projr (Builder_new 8192 0)) demo_id 4096 4096 = (demo_builder, Inr ())"
  "Builder_new 8192 0 = Inr (projr (Builder_new 8192 0))"
  by (simp_all add: demo_builder_def Builder_zero_def Builder_new_def Builder_admit_def demo_id_def
        wal_constants valid_range_def checked_add_def is_multiple_of_def)

lemma demo_built: "built (\<lambda>_. 0) demo_builder [ZeroReq demo_id 4096 4096]"
  using built_zero [OF built_new [OF demo_zero(2)] demo_zero(1)] by simp

lemma demo_builder_facts: "b_descriptors demo_builder = 1" "b_image_bytes demo_builder = 8192"
  by (simp_all add: demo_builder_def Builder_zero_def Builder_new_def Builder_admit_def demo_id_def
        wal_constants valid_range_def checked_add_def is_multiple_of_def Builder_push_def Let_def)

lemma demo_seal: "\<exists>bt. Builder_seal (\<lambda>_. 0) demo_builder 7 1 5 = Inr bt"
  by (simp add: Builder_seal_def demo_builder_facts checked_add_def Let_def)

theorem sealed_batch_roundtrip_witness:
  "\<exists>bt h. Builder_seal (\<lambda>_. 0) demo_builder 7 1 5 = Inr bt \<and>
     Header_decode (\<lambda>_. 0) (take 4096 (Batch_bytes bt)) 8192 = Inr h \<and>
     map d_sequence (Header_descriptors h) = [5] \<and> map d_offset (Header_descriptors h) = [4096]"
proof -
  obtain bt where bt: "Builder_seal (\<lambda>_. 0) demo_builder 7 1 5 = Inr bt" using demo_seal by blast
  from sealed_batch_roundtrip [OF demo_built bt] bt show ?thesis
    by (auto simp: demo_builder_facts)
qed

text \<open>
  Every batch header the parser accepts, on any input bytes, is well formed: at most 63
  descriptors with dense, non-wrapping sequences, strictly increasing serials, ranges inside the
  image, and WRITE payloads that tile the payload exactly, so no payload access is out of range.
\<close>

theorem accepted_batch_well_formed:
  assumes "Header_decode crc bs image_bytes = Inr h"
  shows "batch_well_formed image_bytes (h_envelope h) (Header_descriptors h)"
  using assms by (rule Header_decode_well_formed)

theorem accepted_batch_well_formed_witness:
  "\<exists>bt h. Builder_seal (\<lambda>_. 0) demo_builder 7 1 5 = Inr bt \<and>
     Header_decode (\<lambda>_. 0) (take 4096 (Batch_bytes bt)) 8192 = Inr h \<and>
     batch_well_formed 8192 (h_envelope h) (Header_descriptors h)"
proof -
  obtain bt where bt: "Builder_seal (\<lambda>_. 0) demo_builder 7 1 5 = Inr bt" using demo_seal by blast
  then obtain h where h: "Header_decode (\<lambda>_. 0) (take 4096 (Batch_bytes bt)) 8192 = Inr h"
    using seal_roundtrip(1) [OF demo_built bt] by (auto simp: demo_builder_facts)
  with accepted_batch_well_formed [OF h] bt show ?thesis by blast
qed

end
