(* ===== verification/Slot_Page.thy ===== *)
theory Slot_Page
  imports Encoding
begin

text \<open>
  Pages that carry an array of equally sized slots behind a 64-byte head, the shape shared by
  chunk batches, manifest pages and the catalog: what pushing a slot, rewriting the head and
  splitting the array back into slots do, for every slot width and page size.
\<close>

text \<open>
  \<^verbatim>\<open>AlignedBuffer::try_new_in\<close> (\<^verbatim>\<open>crates/cas/core/src/aligned.rs\<close>): a zero-filled buffer of whole
  blocks; \<open>granted\<close> is the allocator's answer.
\<close>

definition AlignedBuffer_try_new_in :: "bool \<Rightarrow> nat \<Rightarrow> bytes result" where
  "AlignedBuffer_try_new_in granted len =
     ensure (len \<noteq> 0 \<and> len mod BLOCK_SIZE = 0) (InvalidInput ''unaligned buffer length'')
    (ensure granted (OutOfMemory ''aligned buffer allocation denied'')
    (Inr (concat (replicate (len div BLOCK_SIZE) (replicate BLOCK_SIZE 0)))))"

lemma concat_replicate_blocks: "concat (replicate n (replicate k x)) = replicate (n * k) x"
  by (induction n) (simp_all add: replicate_add)

lemma AlignedBuffer_zeroed:
  "AlignedBuffer_try_new_in granted len = Inr bs \<longleftrightarrow>
     granted \<and> len \<noteq> 0 \<and> 4096 dvd len \<and> bs = replicate len 0"
  by (auto simp: AlignedBuffer_try_new_in_def BLOCK_SIZE_def concat_replicate_blocks)

definition slots_at :: "nat \<Rightarrow> nat \<Rightarrow> bytes \<Rightarrow> bytes list \<Rightarrow> bool" where
  "slots_at w sz buf ss \<longleftrightarrow>
     (\<forall>s \<in> set ss. length s = w) \<and> 64 + w * length ss \<le> sz \<and> sz \<le> length buf \<and>
     subrange buf 64 (sz - 64) = concat ss @ replicate (sz - 64 - w * length ss) 0"

text \<open>The encoders' loop \<^verbatim>\<open>items.iter().zip(bytes[64..].as_chunks_mut::<w>().0)\<close>.\<close>

fun write_slots :: "nat \<Rightarrow> ('a \<Rightarrow> bytes \<Rightarrow> bytes) \<Rightarrow> nat \<Rightarrow> 'a list \<Rightarrow> bytes \<Rightarrow> bytes" where
  "write_slots w enc i [] bs = bs"
| "write_slots w enc i (x # xs) bs =
     write_slots w enc (Suc i) xs
       (overwrite bs (64 + i * w) (enc x (subrange bs (64 + i * w) w)))"

lemma length_concat_uniform: "\<forall>s \<in> set ss. length s = w \<Longrightarrow> length (concat ss) = w * length ss"
  by (induction ss) auto

lemma chunks_concat:
  assumes "\<forall>s \<in> set ss. length s = w" and "0 < w"
  shows "chunks w (concat ss) = ss"
proof (rule nth_equalityI)
  show "length (chunks w (concat ss)) = length ss"
    using assms length_concat_uniform [OF assms(1)] by simp
  fix i assume "i < length (chunks w (concat ss))"
  then have i: "i < length ss" using assms length_concat_uniform [OF assms(1)] by simp
  have "take w (drop (w * i) (concat ss)) = ss ! i"
    using assms(1) i
  proof (induction ss arbitrary: i)
    case (Cons s ss)
    then show ?case by (cases i) auto
  qed simp
  then show "chunks w (concat ss) ! i = ss ! i"
    using assms i length_concat_uniform [OF assms(1)] by (simp add: subrange_def)
qed

lemma concat_chunks:
  assumes "length bs = w * n" and "0 < w"
  shows "concat (chunks w bs) = bs"
  using assms(1)
proof (induction n arbitrary: bs)
  case (Suc n)
  have "concat (map (\<lambda>i. subrange bs (w * Suc i) w) [0..<n]) = concat (chunks w (drop w bs))"
    using Suc.prems assms(2) by (simp add: chunks_def subrange_def add.commute)
  also have "\<dots> = drop w bs" by (rule Suc.IH) (use Suc.prems in simp)
  finally have "concat (map (\<lambda>i. subrange bs (w * i) w) (0 # map Suc [0..<n])) = bs"
    by (simp add: subrange_def comp_def)
  moreover have "chunks w bs = map (\<lambda>i. subrange bs (w * i) w) (0 # map Suc [0..<n])"
    using Suc.prems assms(2) by (simp add: chunks_def map_Suc_upt upt_conv_Cons del: upt_Suc)
  ultimately show ?case by simp
qed (simp add: chunks_def)

lemma slots_at_bounds:
  "slots_at w sz buf ss \<Longrightarrow> 64 + w * length ss \<le> sz \<and> sz \<le> length buf"
  by (simp add: slots_at_def)

lemma slots_at_array:
  assumes "slots_at w sz buf ss"
  shows "subrange buf 64 (w * length ss) = concat ss"
proof -
  have "subrange buf 64 (w * length ss) = take (w * length ss) (subrange buf 64 (sz - 64))"
    using slots_at_bounds [OF assms] by (auto simp: subrange_def min_def)
  then show ?thesis
    using assms length_concat_uniform [of ss w] by (simp add: slots_at_def)
qed

lemma slots_at_chunks:
  "slots_at w sz buf ss \<Longrightarrow> 0 < w \<Longrightarrow> chunks w (subrange buf 64 (w * length ss)) = ss"
  by (simp add: slots_at_array) (simp add: slots_at_def chunks_concat)

lemma slots_at_tail:
  assumes "slots_at w sz buf ss"
  shows "subrange buf (64 + w * length ss) (sz - (64 + w * length ss)) =
         replicate (sz - (64 + w * length ss)) 0"
proof -
  have "subrange buf (64 + w * length ss) (sz - (64 + w * length ss)) =
        drop (w * length ss) (subrange buf 64 (sz - 64))"
    using slots_at_bounds [OF assms] by (simp add: subrange_def drop_take add.commute)
  then show ?thesis
    using assms length_concat_uniform [of ss w] by (simp add: slots_at_def)
qed

lemma slots_at_tail_drop:
  "slots_at w (length buf) buf ss \<Longrightarrow> all_zero (drop (64 + w * length ss) buf)"
  using slots_at_tail [of w "length buf" buf ss] by (simp add: subrange_def all_zero_iff)

lemma slots_at_zeros: "64 \<le> sz \<Longrightarrow> sz \<le> n \<Longrightarrow> slots_at w sz (replicate n 0) []"
  by (simp add: slots_at_def subrange_replicate)

lemma slots_at_cong:
  "slots_at w sz buf ss \<Longrightarrow> sz \<le> length cuf \<Longrightarrow>
   subrange cuf 64 (sz - 64) = subrange buf 64 (sz - 64) \<Longrightarrow> slots_at w sz cuf ss"
  by (simp add: slots_at_def)

text \<open>Writes to the head, or beyond the page, leave the slots alone.\<close>

lemma slots_at_outside:
  assumes "slots_at w sz buf ss" and "p + length v \<le> 64 \<or> sz \<le> p" and "p + length v \<le> length buf"
  shows "slots_at w sz (overwrite buf p v) ss"
  using assms
  by (intro slots_at_cong [OF assms(1)])
     (auto simp: slots_at_def subrange_overwrite_before subrange_overwrite_after)

lemma slots_at_checksum:
  assumes "slots_at w sz buf ss" and "fld + 4 \<le> 64"
  shows "slots_at w sz (put_checksum crc buf fld) ss"
  using assms slots_at_bounds [OF assms(1)]
  by (simp add: put_checksum_def put32_def slots_at_outside)

lemma slots_at_fields:
  assumes "slots_at w sz buf ss" and "fields_ok lo 64 fs"
  shows "slots_at w sz (write_fields buf fs) ss"
  using assms
proof (induction fs arbitrary: lo buf)
  case (Cons f fs)
  obtain off v where f: "f = (off, v)" by (cases f)
  with Cons.prems have "off + length v \<le> 64" by (auto dest: fields_ok_le)
  with Cons.prems f show ?case
    by (auto simp: write_fields_Cons intro!: Cons.IH slots_at_outside)
       (auto simp: slots_at_def)
qed simp

lemma slots_at_fresh:
  assumes "slots_at w sz buf ss" and "64 + w * Suc (length ss) \<le> sz"
  shows "subrange buf (64 + w * length ss) w = replicate w 0"
proof -
  have "subrange (subrange buf (64 + w * length ss) (sz - (64 + w * length ss))) 0 w =
        subrange buf (64 + w * length ss + 0) w"
    using assms(2) by (intro subrange_subrange) simp
  then show ?thesis
    using slots_at_tail [OF assms(1)] assms(2) by (simp add: subrange_replicate)
qed

lemma slots_at_push:
  assumes inv: "slots_at w sz buf ss" and room: "64 + w * Suc (length ss) \<le> sz"
    and s: "length s = w"
  shows "slots_at w sz (overwrite buf (64 + w * length ss) s) (ss @ [s])"
proof -
  let ?n = "w * length ss"
  have "subrange (overwrite buf (64 + ?n) s) 64 (sz - 64) =
        overwrite (subrange buf 64 (sz - 64)) ?n s"
    using inv room s subrange_overwrite_inside [of 64 "64 + ?n" s "sz - 64" buf]
    by (simp add: slots_at_def)
  also have "\<dots> = concat ss @ s @ replicate (sz - 64 - w * Suc (length ss)) 0"
    using inv room s length_concat_uniform [of ss w]
    by (simp add: slots_at_def overwrite_def)
  finally show ?thesis using inv room s by (auto simp: slots_at_def)
qed

lemma slots_at_write_slots:
  assumes "slots_at w sz buf ss" and "i = length ss" and "64 + w * (i + length xs) \<le> sz"
    and "\<forall>x \<in> set xs. length (enc x (replicate w 0)) = w"
  shows "slots_at w sz (write_slots w enc i xs buf) (ss @ map (\<lambda>x. enc x (replicate w 0)) xs)"
  using assms
proof (induction xs arbitrary: ss i buf)
  case (Cons x xs)
  have room: "64 + w * Suc (length ss) \<le> sz"
    using Cons.prems(2,3) by (simp add: algebra_simps)
  let ?s = "enc x (replicate w 0)"
  have "slots_at w sz (overwrite buf (64 + w * length ss) ?s) (ss @ [?s])"
    using Cons.prems room by (intro slots_at_push) auto
  moreover have "enc x (subrange buf (64 + i * w) w) = ?s"
    using slots_at_fresh [OF Cons.prems(1) room] Cons.prems(2) by (simp add: mult.commute)
  ultimately show ?case
    using Cons.IH [of _ "ss @ [?s]" "Suc i"] Cons.prems(2,3,4) by (simp add: mult.commute)
qed simp

lemma write_slots_frame:
  assumes "64 + w * (i + length xs) \<le> length buf"
    and "\<And>x s. x \<in> set xs \<Longrightarrow> length s = w \<Longrightarrow> length (enc x s) = w"
  shows "length (write_slots w enc i xs buf) = length buf"
    and "off + n \<le> 64 \<or> 64 + w * (i + length xs) \<le> off \<Longrightarrow>
         subrange (write_slots w enc i xs buf) off n = subrange buf off n"
  using assms
proof (induction xs arbitrary: i buf)
  case (Cons x xs)
  have fit: "64 + i * w + w \<le> length buf"
    if "64 + w * (i + length (x # xs)) \<le> length buf" for i and buf :: bytes
    using that by (simp add: algebra_simps)
  {
    case (1 i buf)
    have "length (enc x (subrange buf (64 + i * w) w)) = w"
      using fit [OF 1(1)] by (intro 1(2)) auto
    then show ?case
      using 1 fit [OF 1(1)] by (subst write_slots.simps, subst Cons.IH(1)) auto
  next
    case (2 i buf)
    let ?b = "overwrite buf (64 + i * w) (enc x (subrange buf (64 + i * w) w))"
    have v: "length (enc x (subrange buf (64 + i * w) w)) = w"
      using fit [OF 2(2)] by (intro 2(3)) auto
    have "subrange ?b off n = subrange buf off n"
      using 2(1) fit [OF 2(2)] v
      by (auto simp: subrange_overwrite_before subrange_overwrite_after algebra_simps)
    then show ?case
      using 2 fit [OF 2(2)] v by (subst write_slots.simps, subst Cons.IH(2)) auto
  }
qed auto

end
