(* ===== verification/Chunk_Index.thy ===== *)
theory Chunk_Index
  imports Encoding
begin

unbundle bit_operations_syntax

text \<open>
  Chunk identities, packed store addresses and the rebuildable hash index
  (\<^verbatim>\<open>crates/cas/core/src/chunk.rs\<close> and \<^verbatim>\<open>chunk_index.rs\<close>). BLAKE3 is the argument
  \<open>blake\<close>. The index table is kept by its contents, a list of entries; growing it asks the
  metadata budget, whose answer is the argument \<open>alloc\<close> (the granted capacity, or none).
\<close>

section \<open>Chunks\<close>

type_synonym hash = bytes

definition nonzero_hash :: "(bytes \<Rightarrow> hash) \<Rightarrow> bytes \<Rightarrow> hash option" where
  "nonzero_hash blake bs = (if \<exists>b \<in> set bs. b \<noteq> 0 then Some (blake bs) else None)"

record Chunk =
  c_bytes :: bytes
  c_hash :: hash

definition Chunk_new :: "(bytes \<Rightarrow> hash) \<Rightarrow> bytes \<Rightarrow> Chunk option" where
  "Chunk_new blake bs =
     map_option (\<lambda>h. \<lparr>c_bytes = bs, c_hash = h\<rparr>) (nonzero_hash blake bs)"

lemma Chunk_new_None: "Chunk_new blake bs = None \<longleftrightarrow> all_zero bs"
  by (auto simp: Chunk_new_def nonzero_hash_def all_zero_def)

section \<open>Store addresses\<close>

definition MAX_SEGMENT :: u64 where "MAX_SEGMENT = push_bit 48 1 - 1"
definition MAX_SEGMENT_BYTES :: u64 where "MAX_SEGMENT_BYTES = push_bit 16 1 * BLOCK"

lemma MAX_SEGMENT_value: "MAX_SEGMENT = 281474976710655"
  by (simp add: MAX_SEGMENT_def)

lemma MAX_SEGMENT_BYTES_value: "MAX_SEGMENT_BYTES = 268435456"
  by (simp add: MAX_SEGMENT_BYTES_def)

type_synonym Address = u64

definition Address_new :: "u64 \<Rightarrow> u64 \<Rightarrow> Address result" where
  "Address_new segment offset =
     (if segment = 0 \<or> segment > MAX_SEGMENT \<or> offset = 0 \<or> offset \<ge> MAX_SEGMENT_BYTES \<or>
         \<not> is_multiple_of offset BLOCK
      then Inl (InvalidInput ''chunk address out of range'')
      else Inr (push_bit 16 segment OR (offset div BLOCK)))"

definition Address_segment :: "Address \<Rightarrow> u64" where
  "Address_segment a = drop_bit 16 a"

definition Address_offset :: "Address \<Rightarrow> u64" where
  "Address_offset a = (a AND 0xffff) * BLOCK"

text \<open>The two fields do not overlap, so the packing is the sum \<open>segment * 2 ^ 16 + block\<close>.\<close>

lemma pack_value:
  assumes s: "unat s < 2 ^ 48" and b: "unat b < 2 ^ 16"
  shows "unat (push_bit 16 s OR b :: u64) = unat s * 2 ^ 16 + unat b"
proof -
  have "take_bit 16 b = b"
    using b by (simp add: take_bit_eq_mod word_unat_eq_iff unat_word_ariths)
  then have "push_bit 16 s AND b = 0"
    by (metis (no_types, lifting) bit_eqI bit_0_eq bit_and_iff bit_push_bit_iff bit_take_bit_iff
        bot_apply bot_bool_def linorder_not_le)
  then have "push_bit 16 s OR b = push_bit 16 s + b"
    by (simp add: disjunctive_add_eq_or)
  moreover have "unat (push_bit 16 s) = unat s * 2 ^ 16"
    using s by (simp add: push_bit_eq_mult unat_word_ariths mult.commute)
  ultimately show ?thesis
    using s b by (simp add: unat_word_ariths)
qed

lemma Address_new_ok:
  "Address_new segment offset = Inr a \<longleftrightarrow>
     1 \<le> unat segment \<and> unat segment < 2 ^ 48 \<and> 1 \<le> unat offset \<and> unat offset < 2 ^ 28 \<and>
     4096 dvd unat offset \<and> a = push_bit 16 segment OR (offset div BLOCK)"
  by (auto simp: Address_new_def MAX_SEGMENT_value MAX_SEGMENT_BYTES_value is_multiple_of_BLOCK
        word_less_nat_alt word_le_nat_alt not_less not_le unat_gt_0 Suc_le_eq)

lemma Address_value:
  assumes "Address_new segment offset = Inr a"
  shows "unat a = unat segment * 2 ^ 16 + unat offset div 4096" and "unat offset div 4096 < 2 ^ 16"
    and "0 < unat offset div 4096"
proof -
  from assms have r: "unat segment < 2 ^ 48" "unat offset < 2 ^ 28" "1 \<le> unat offset"
    "4096 dvd unat offset" "a = push_bit 16 segment OR (offset div BLOCK)"
    by (auto simp: Address_new_ok)
  have b: "unat (offset div BLOCK) = unat offset div 4096" by (simp add: unat_div)
  show lt: "unat offset div 4096 < 2 ^ 16" using r(2) by (simp add: div_less_iff_less_mult)
  show "0 < unat offset div 4096" using r(3,4) by (metis Suc_le_eq dvd_div_eq_0_iff gr0I not_less0 One_nat_def)
  show "unat a = unat segment * 2 ^ 16 + unat offset div 4096"
    using pack_value [OF r(1), of "offset div BLOCK"] b lt r(5) by simp
qed

lemma Address_parts:
  assumes "Address_new segment offset = Inr a"
  shows "Address_segment a = segment" and "Address_offset a = offset" and "a \<noteq> 0"
proof -
  note v = Address_value [OF assms]
  have "unat (drop_bit 16 a) = unat segment"
    using v(1,2) by (simp add: drop_bit_eq_div unat_div)
  then show "Address_segment a = segment" by (simp add: Address_segment_def word_unat_eq_iff)
  have "unat (a AND 0xffff) = unat a mod 2 ^ 16"
  proof -
    have "a AND 0xffff = take_bit 16 a" by (simp add: take_bit_eq_mask mask_eq_exp_minus_1)
    then show ?thesis by (simp add: take_bit_eq_mod unat_mod)
  qed
  then have "unat (a AND 0xffff) = unat offset div 4096" using v(1,2) by simp
  moreover have "4096 dvd unat offset" using assms by (simp add: Address_new_ok)
  ultimately have "unat ((a AND 0xffff) * BLOCK) = unat offset"
    using v(2) unsigned_less [of offset] by (simp add: unat_word_ariths)
  then show "Address_offset a = offset" by (simp add: Address_offset_def word_unat_eq_iff)
  show "a \<noteq> 0" using v by (auto simp: word_unat_eq_iff)
qed

lemma Address_of_parts:
  assumes "Address_segment a \<noteq> 0" and "Address_offset a \<noteq> 0"
  shows "Address_new (Address_segment a) (Address_offset a) = Inr a"
proof -
  have s: "unat (Address_segment a) = unat a div 2 ^ 16"
    by (simp add: Address_segment_def drop_bit_eq_div unat_div)
  have m: "a AND 0xffff = a mod 2 ^ 16"
    using take_bit_eq_mask [of 16 a] by (simp add: take_bit_eq_mod mask_eq_exp_minus_1)
  have o': "unat (Address_offset a) = unat a mod 2 ^ 16 * 4096"
    by (simp add: Address_offset_def m unat_word_ariths unat_mod)
  have b: "Address_offset a div BLOCK = a mod 2 ^ 16"
    using o' by (simp add: word_unat_eq_iff unat_div unat_mod)
  have lt: "unat a div 2 ^ 16 < 2 ^ 48" using unsigned_less [of a] by (simp add: div_less_iff_less_mult)
  have "unat (push_bit 16 (Address_segment a) OR a mod 2 ^ 16) = unat a"
    using pack_value [of "Address_segment a" "a mod 2 ^ 16"] s lt by (simp add: unat_mod)
  then have "push_bit 16 (Address_segment a) OR (Address_offset a div BLOCK) = a"
    by (simp add: b word_unat_eq_iff)
  moreover have "unat (Address_segment a) \<noteq> 0" "unat (Address_offset a) \<noteq> 0"
    using assms by (simp_all add: word_unat_eq_iff)
  ultimately show ?thesis using s o' lt by (simp add: Address_new_ok)
qed

section \<open>The hash index\<close>

record Entry =
  en_hash :: hash
  en_address :: Address
  en_marked :: bool

record Index =
  ix_table :: "Entry list"
  ix_capacity :: nat

definition Index_new :: Index where
  "Index_new = \<lparr>ix_table = [], ix_capacity = 0\<rparr>"

definition table_find :: "Entry list \<Rightarrow> hash \<Rightarrow> Entry option" where
  "table_find es h = List.find (\<lambda>e. en_hash e = h) es"

definition Index_get :: "Index \<Rightarrow> hash \<Rightarrow> Address option" where
  "Index_get ix h = map_option en_address (table_find (ix_table ix) h)"

definition Index_reserve :: "(nat \<Rightarrow> nat option) \<Rightarrow> Index \<Rightarrow> nat \<Rightarrow> Index result" where
  "Index_reserve alloc ix additional =
    (if length (ix_table ix) + additional \<le> ix_capacity ix then Inr ix
     else case alloc (length (ix_table ix) + additional) of
            None \<Rightarrow> Inl (OutOfMemory ''chunk index metadata budget exhausted'')
          | Some cap \<Rightarrow> Inr (ix\<lparr>ix_capacity := cap\<rparr>))"

definition Index_insert_reserved :: "Index \<Rightarrow> hash \<Rightarrow> Address \<Rightarrow> (Index \<times> Address) result" where
  "Index_insert_reserved ix h a =
    (case Index_get ix h of
       Some existing \<Rightarrow> Inr (ix, existing)
     | None \<Rightarrow>
         ensure (length (ix_table ix) < ix_capacity ix) (Panic ''unreserved chunk publication'')
          (Inr (ix\<lparr>ix_table := \<lparr>en_hash = h, en_address = a, en_marked = False\<rparr> # ix_table ix\<rparr>, a)))"

definition Index_insert ::
  "(nat \<Rightarrow> nat option) \<Rightarrow> Index \<Rightarrow> hash \<Rightarrow> Address \<Rightarrow> (Index \<times> Address) result" where
  "Index_insert alloc ix h a =
    (case Index_get ix h of
       Some existing \<Rightarrow> Inr (ix, existing)
     | None \<Rightarrow> attempt (Index_reserve alloc ix 1) (\<lambda>ix. Index_insert_reserved ix h a))"

text \<open>\<^verbatim>\<open>find_mut\<close> followed by an assignment: the first entry with this hash is replaced.\<close>

fun table_update :: "Entry list \<Rightarrow> hash \<Rightarrow> (Entry \<Rightarrow> Entry) \<Rightarrow> Entry list" where
  "table_update [] h f = []"
| "table_update (e # es) h f = (if en_hash e = h then f e # es else e # table_update es h f)"

definition Index_relocate :: "Index \<Rightarrow> hash \<Rightarrow> Address \<Rightarrow> Address \<Rightarrow> Index result" where
  "Index_relocate ix h old new =
    (case table_find (ix_table ix) h of
       Some e \<Rightarrow>
         if en_address e = old
         then Inr (ix\<lparr>ix_table := table_update (ix_table ix) h (\<lambda>e. e\<lparr>en_address := new\<rparr>)\<rparr>)
         else Inl (Other ''chunk location changed during relocation'')
     | None \<Rightarrow> Inl (Other ''chunk location changed during relocation''))"

definition Index_clear_marks :: "Index \<Rightarrow> Index" where
  "Index_clear_marks ix = ix\<lparr>ix_table := map (\<lambda>e. e\<lparr>en_marked := False\<rparr>) (ix_table ix)\<rparr>"

definition Index_mark :: "Index \<Rightarrow> hash \<Rightarrow> Index result" where
  "Index_mark ix h =
    (case table_find (ix_table ix) h of
       None \<Rightarrow> Inl (Other ''manifest references a missing chunk'')
     | Some _ \<Rightarrow> Inr (ix\<lparr>ix_table := table_update (ix_table ix) h (\<lambda>e. e\<lparr>en_marked := True\<rparr>)\<rparr>))"

definition Index_marked_at :: "Index \<Rightarrow> hash \<Rightarrow> Address \<Rightarrow> bool" where
  "Index_marked_at ix h a =
    (case table_find (ix_table ix) h of None \<Rightarrow> False | Some e \<Rightarrow> en_marked e \<and> en_address e = a)"

text \<open>
  How many further entries the table takes after a removal depends on the slots it can reuse:
  the argument \<open>free\<close>.
\<close>

definition Index_remove_unmarked :: "nat \<Rightarrow> Index \<Rightarrow> Index" where
  "Index_remove_unmarked free ix =
     (let kept = filter en_marked (ix_table ix)
      in ix\<lparr>ix_table := kept, ix_capacity := length kept + free\<rparr>)"

definition Index_entries :: "Index \<Rightarrow> (hash \<times> Address \<times> bool) list" where
  "Index_entries ix = map (\<lambda>e. (en_hash e, en_address e, en_marked e)) (ix_table ix)"

text \<open>Collection marks every hash a manifest reaches, then drops the rest.\<close>

fun Index_mark_all :: "Index \<Rightarrow> hash list \<Rightarrow> Index result" where
  "Index_mark_all ix [] = Inr ix"
| "Index_mark_all ix (h # hs) = attempt (Index_mark ix h) (\<lambda>ix. Index_mark_all ix hs)"

section \<open>The index as a map\<close>

definition Index_inv :: "Index \<Rightarrow> bool" where
  "Index_inv ix \<longleftrightarrow> distinct (map en_hash (ix_table ix)) \<and> length (ix_table ix) \<le> ix_capacity ix"

definition Index_marks :: "Index \<Rightarrow> hash set" where
  "Index_marks ix = en_hash ` {e \<in> set (ix_table ix). en_marked e}"

lemma table_find_Some: "table_find es h = Some e \<Longrightarrow> e \<in> set es \<and> en_hash e = h"
  by (auto simp: table_find_def find_Some_iff)

lemma table_find_None: "table_find es h = None \<longleftrightarrow> h \<notin> en_hash ` set es"
  by (auto simp: table_find_def find_None_iff)

lemma table_find_Cons: "table_find (e # es) h = (if en_hash e = h then Some e else table_find es h)"
  by (simp add: table_find_def)

lemma table_find_unique:
  "distinct (map en_hash es) \<Longrightarrow> e \<in> set es \<Longrightarrow> table_find es (en_hash e) = Some e"
  by (induction es) (auto simp: table_find_Cons)

lemma table_update_find:
  assumes "\<And>e. en_hash (f e) = en_hash e"
  shows "table_find (table_update es h f) k =
         (if k = h then map_option f (table_find es h) else table_find es k)"
  using assms by (induction es) (auto simp: table_find_Cons table_find_def)

lemma table_update_hashes:
  assumes "\<And>e. en_hash (f e) = en_hash e"
  shows "map en_hash (table_update es h f) = map en_hash es"
  using assms by (induction es) auto

lemma table_update_length [simp]: "length (table_update es h f) = length es"
  by (induction es) auto

lemma table_find_map:
  "(\<And>e. en_hash (f e) = en_hash e) \<Longrightarrow> table_find (map f es) k = map_option f (table_find es k)"
  by (induction es) (auto simp: table_find_Cons table_find_def)

lemma table_find_filter:
  "distinct (map en_hash es) \<Longrightarrow>
   table_find (filter P es) k = (case table_find es k of Some e \<Rightarrow> if P e then Some e else None | None \<Rightarrow> None)"
  by (induction es)
     (auto simp: table_find_Cons table_find_None split: option.splits dest!: table_find_Some)

text \<open>The contract of the index towards the store: a finite map, first publication wins.\<close>

locale chunk_map =
  fixes get :: "'i \<Rightarrow> hash \<Rightarrow> Address option"
    and publish :: "'i \<Rightarrow> hash \<Rightarrow> Address \<Rightarrow> ('i \<times> Address) result"
    and invar :: "'i \<Rightarrow> bool"
  assumes publish_inv: "invar i \<Longrightarrow> publish i h a = Inr (j, r) \<Longrightarrow> invar j"
    and publish_new: "invar i \<Longrightarrow> publish i h a = Inr (j, r) \<Longrightarrow> get i h = None \<Longrightarrow>
           r = a \<and> get j = (get i)(h \<mapsto> a)"
    and publish_old: "invar i \<Longrightarrow> publish i h a = Inr (j, r) \<Longrightarrow> get i h = Some b \<Longrightarrow>
           r = b \<and> get j = get i"
begin

text \<open>No publication changes an address that readers may already hold.\<close>

lemma publish_stable:
  assumes "invar i" and "publish i h a = Inr (j, r)" and "get i k = Some b"
  shows "get j k = Some b"
  using publish_new [OF assms(1,2)] publish_old [OF assms(1,2)] assms(3)
  by (cases "get i h") auto

lemma publish_returns:
  assumes "invar i" and "publish i h a = Inr (j, r)"
  shows "get j h = Some r"
  using publish_new [OF assms] publish_old [OF assms] by (cases "get i h") auto

fun publish_all :: "'i \<Rightarrow> (hash \<times> Address) list \<Rightarrow> 'i result" where
  "publish_all i [] = Inr i"
| "publish_all i ((h, a) # xs) = attempt (publish i h a) (\<lambda>(j, r). publish_all j xs)"

lemma publish_all_stable:
  "invar i \<Longrightarrow> publish_all i xs = Inr j \<Longrightarrow> get i k = Some b \<Longrightarrow> get j k = Some b"
proof (induction xs arbitrary: i)
  case (Cons x xs)
  obtain h a where x: "x = (h, a)" by (cases x)
  with Cons.prems(2) obtain i' r where p: "publish i h a = Inr (i', r)"
    and rest: "publish_all i' xs = Inr j" by auto
  show ?case
    using Cons.IH [OF publish_inv [OF Cons.prems(1) p] rest]
      publish_stable [OF Cons.prems(1) p Cons.prems(3)] .
qed simp

end

lemma Index_insert_reserved_get:
  assumes "Index_insert_reserved ix h a = Inr (jx, r)"
  shows "Index_get ix h = None \<Longrightarrow> r = a \<and> Index_get jx = (Index_get ix)(h \<mapsto> a)"
    and "Index_get ix h = Some b \<Longrightarrow> r = b \<and> jx = ix"
  using assms
  by (auto simp: Index_insert_reserved_def Index_get_def table_find_Cons fun_eq_iff
      split: option.splits)

lemma Index_insert_reserved_inv:
  assumes "Index_inv ix" and "Index_insert_reserved ix h a = Inr (jx, r)"
  shows "Index_inv jx"
  using assms
  by (auto simp: Index_insert_reserved_def Index_inv_def Index_get_def table_find_None
      split: option.splits)

interpretation reserved: chunk_map Index_get Index_insert_reserved Index_inv
proof unfold_locales
  fix i h a j r b
  assume inv: "Index_inv i" and ins: "Index_insert_reserved i h a = Inr (j, r)"
  show "Index_inv j" by (rule Index_insert_reserved_inv [OF inv ins])
  show "Index_get i h = None \<Longrightarrow> r = a \<and> Index_get j = (Index_get i)(h \<mapsto> a)"
    by (rule Index_insert_reserved_get(1) [OF ins])
  show "Index_get i h = Some b \<Longrightarrow> r = b \<and> Index_get j = Index_get i"
    using Index_insert_reserved_get(2) [OF ins] by simp
qed

lemma Index_reserve_table:
  assumes "Index_reserve alloc ix n = Inr jx" and "\<And>m c. alloc m = Some c \<Longrightarrow> m \<le> c"
  shows "ix_table jx = ix_table ix" and "length (ix_table jx) + n \<le> ix_capacity jx"
  using assms by (auto simp: Index_reserve_def split: if_splits option.splits)

lemma Index_reserve_get:
  assumes "Index_reserve alloc ix n = Inr jx" and "\<And>m c. alloc m = Some c \<Longrightarrow> m \<le> c"
  shows "Index_get jx = Index_get ix" and "Index_inv ix \<Longrightarrow> Index_inv jx"
  using Index_reserve_table [OF assms] by (auto simp: Index_get_def Index_inv_def fun_eq_iff)

text \<open>A table grown on demand keeps the same contract, given an allocator that grants enough.\<close>

locale granting_allocator =
  fixes alloc :: "nat \<Rightarrow> nat option"
  assumes grants: "alloc m = Some c \<Longrightarrow> m \<le> c"

sublocale granting_allocator \<subseteq> growing: chunk_map Index_get "Index_insert alloc" Index_inv
proof unfold_locales
  fix i h a j r b
  assume inv: "Index_inv i" and ins: "Index_insert alloc i h a = Inr (j, r)"
  have new: "\<exists>k. Index_inv k \<and> Index_get k = Index_get i \<and> Index_insert_reserved k h a = Inr (j, r)"
    if "Index_get i h = None"
    using ins inv that Index_reserve_get [OF _ grants] by (fastforce simp: Index_insert_def)
  have old: "j = i \<and> r = b" if "Index_get i h = Some b" for b
    using ins that by (simp add: Index_insert_def)
  show "Index_inv j" using new old inv reserved.publish_inv by (cases "Index_get i h") blast+
  show "Index_get i h = None \<Longrightarrow> r = a \<and> Index_get j = (Index_get i)(h \<mapsto> a)"
    using new Index_insert_reserved_get(1) by fastforce
  show "Index_get i h = Some b \<Longrightarrow> r = b \<and> Index_get j = Index_get i" using old by simp
qed

context granting_allocator
begin

lemma Index_insert_laws:
  assumes "Index_inv i" and "Index_insert alloc i h a = Inr (j, r)"
  shows "Index_inv j \<and> Index_get j h = Some r \<and>
         (Index_get i h = None \<longrightarrow> Index_get j = (Index_get i)(h \<mapsto> a)) \<and>
         (Index_get i h \<noteq> None \<longrightarrow> Index_get j = Index_get i)"
  using growing.publish_inv [OF assms] growing.publish_returns [OF assms]
    growing.publish_new [OF assms] growing.publish_old [OF assms] by auto

end

interpretation unlimited: granting_allocator Some
  by unfold_locales simp

text \<open>Publication reserved before the device write cannot fail after it.\<close>

lemma reserved_publication_succeeds:
  assumes "length (ix_table ix) < ix_capacity ix"
  shows "\<exists>jx r. Index_insert_reserved ix h a = Inr (jx, r)"
  using assms by (auto simp: Index_insert_reserved_def split: option.splits)

section \<open>Relocation\<close>

lemma Index_relocate_get:
  assumes "Index_relocate ix h old new = Inr jx"
  shows "Index_get ix h = Some old" and "Index_get jx = (Index_get ix)(h \<mapsto> new)"
    and "Index_inv ix \<Longrightarrow> Index_inv jx"
  using assms
  by (auto simp: Index_relocate_def Index_get_def fun_eq_iff Index_inv_def
      table_update_find table_update_hashes split: option.splits if_splits)

lemma Index_relocate_accepts:
  "(\<exists>jx. Index_relocate ix h old new = Inr jx) \<longleftrightarrow> Index_get ix h = Some old"
  by (auto simp: Index_relocate_def Index_get_def split: option.splits)

section \<open>Mark and sweep\<close>

lemma Index_mark_find:
  assumes "Index_mark ix h = Inr jx"
  shows "table_find (ix_table jx) k =
     map_option (\<lambda>e. e\<lparr>en_marked := en_marked e \<or> k = h\<rparr>) (table_find (ix_table ix) k)"
  using assms
  by (auto simp: Index_mark_def table_update_find split: option.splits
      intro!: option.map_cong option.map_ident [symmetric] split: if_splits)

lemma Index_mark_accepts: "(\<exists>jx. Index_mark ix h = Inr jx) \<longleftrightarrow> Index_get ix h \<noteq> None"
  by (auto simp: Index_mark_def Index_get_def split: option.splits)

lemma Index_mark_inv: "Index_mark ix h = Inr jx \<Longrightarrow> Index_inv ix \<Longrightarrow> Index_inv jx"
  by (auto simp: Index_mark_def Index_inv_def table_update_hashes split: option.splits)

lemma Index_mark_get: "Index_mark ix h = Inr jx \<Longrightarrow> Index_get jx = Index_get ix"
  by (auto simp: Index_get_def Index_mark_find option.map_comp fun_eq_iff comp_def)

lemma Index_mark_all_find:
  assumes "Index_mark_all ix hs = Inr jx"
  shows "table_find (ix_table jx) k =
     map_option (\<lambda>e. e\<lparr>en_marked := en_marked e \<or> k \<in> set hs\<rparr>) (table_find (ix_table ix) k)"
  using assms
proof (induction hs arbitrary: ix)
  case (Cons h hs)
  then obtain mx where m: "Index_mark ix h = Inr mx" and r: "Index_mark_all mx hs = Inr jx" by auto
  show ?case
    by (simp add: Cons.IH [OF r] Index_mark_find [OF m] option.map_comp comp_def disj_assoc)
qed (simp add: option.map_ident)

lemma Index_mark_all_inv: "Index_mark_all ix hs = Inr jx \<Longrightarrow> Index_inv ix \<Longrightarrow> Index_inv jx"
  by (induction hs arbitrary: ix) (auto intro: Index_mark_inv)

lemma Index_mark_all_accepts:
  "(\<exists>jx. Index_mark_all ix hs = Inr jx) \<longleftrightarrow> (\<forall>h \<in> set hs. Index_get ix h \<noteq> None)"
proof (induction hs arbitrary: ix)
  case (Cons h hs)
  show ?case
  proof (cases "Index_mark ix h")
    case (Inl e)
    then have "Index_get ix h = None" using Index_mark_accepts [of ix h] by auto
    with Inl show ?thesis by simp
  next
    case (Inr mx)
    then have "Index_get ix h \<noteq> None" using Index_mark_accepts [of ix h] by blast
    with Inr Cons.IH [of mx] Index_mark_get [OF Inr] show ?thesis by simp
  qed
qed simp

lemma Index_clear_marks_find:
  "table_find (ix_table (Index_clear_marks ix)) k =
   map_option (\<lambda>e. e\<lparr>en_marked := False\<rparr>) (table_find (ix_table ix) k)"
  by (simp add: Index_clear_marks_def table_find_map)

lemma Index_clear_marks_inv: "Index_inv ix \<Longrightarrow> Index_inv (Index_clear_marks ix)"
  by (simp add: Index_inv_def Index_clear_marks_def comp_def)

lemma Index_clear_marks_get [simp]: "Index_get (Index_clear_marks ix) = Index_get ix"
  by (auto simp: Index_get_def Index_clear_marks_find option.map_comp comp_def fun_eq_iff)

lemma Index_remove_unmarked_get:
  assumes "Index_inv ix"
  shows "Index_get (Index_remove_unmarked free ix) k =
     (case table_find (ix_table ix) k of
        Some e \<Rightarrow> if en_marked e then Some (en_address e) else None | None \<Rightarrow> None)"
  using assms
  by (auto simp: Index_get_def Index_remove_unmarked_def Let_def table_find_filter Index_inv_def
      split: option.splits)

lemma Index_remove_unmarked_inv: "Index_inv ix \<Longrightarrow> Index_inv (Index_remove_unmarked free ix)"
  by (auto simp: Index_inv_def Index_remove_unmarked_def Let_def distinct_map_filter)

lemma Index_sweep:
  assumes "Index_inv ix" and m: "Index_mark_all (Index_clear_marks ix) hs = Inr jx"
  shows "Index_inv (Index_remove_unmarked free jx)"
    and "Index_get (Index_remove_unmarked free jx) = Index_get ix |` set hs"
proof -
  have inv: "Index_inv jx" by (rule Index_mark_all_inv [OF m Index_clear_marks_inv [OF assms(1)]])
  then show "Index_inv (Index_remove_unmarked free jx)" by (rule Index_remove_unmarked_inv)
  show "Index_get (Index_remove_unmarked free jx) = Index_get ix |` set hs"
  proof
    fix k
    show "Index_get (Index_remove_unmarked free jx) k = (Index_get ix |` set hs) k"
      unfolding Index_remove_unmarked_get [OF inv] Index_mark_all_find [OF m] Index_clear_marks_find
      by (auto simp: Index_get_def restrict_map_def split: option.splits)
  qed
qed

section \<open>Properties\<close>

text \<open>
  A packed chunk address is exactly a segment ticket and a payload offset: construction
  succeeds and yields \<open>a\<close> precisely when the accessors of \<open>a\<close> return the two arguments and neither
  is zero, so packing loses nothing, no two locations share an address and every other
  combination is refused.
\<close>
lemma address_packing:
  "Address_new segment offset = Inr a \<longleftrightarrow>
   Address_segment a = segment \<and> Address_offset a = offset \<and> segment \<noteq> 0 \<and> offset \<noteq> 0"
  using Address_parts Address_of_parts by (auto simp: Address_new_ok)

text \<open>
  C15. Garbage collection of the index: after clearing the marks and marking every hash a manifest
  reaches, removing the unmarked entries leaves exactly the reached hashes, each at the address
  it had, and marking succeeds precisely when no reached hash is missing from the index.
\<close>
theorem collection_keeps_reachable:
  assumes "Index_inv ix"
  shows "((\<exists>jx. Index_mark_all (Index_clear_marks ix) hs = Inr jx) \<longleftrightarrow>
            (\<forall>h \<in> set hs. Index_get ix h \<noteq> None)) \<and>
         (\<forall>jx free. Index_mark_all (Index_clear_marks ix) hs = Inr jx \<longrightarrow>
            Index_inv (Index_remove_unmarked free jx) \<and>
            Index_get (Index_remove_unmarked free jx) = Index_get ix |` set hs)"
  using Index_sweep [OF assms] by (simp add: Index_mark_all_accepts)

theorem collection_keeps_reachable_witness:
  "Index_get (Index_remove_unmarked 0
      \<lparr>ix_table = [\<lparr>en_hash = [1], en_address = 65537, en_marked = False\<rparr>,
                   \<lparr>en_hash = [2], en_address = 65538, en_marked = True\<rparr>], ix_capacity = 4\<rparr>) =
   [[2] \<mapsto> 65538]"
proof -
  let ?ix = "\<lparr>ix_table = [\<lparr>en_hash = [1], en_address = 65537, en_marked = True\<rparr>,
                   \<lparr>en_hash = [2], en_address = 65538, en_marked = False\<rparr>], ix_capacity = 4\<rparr>"
  let ?jx = "\<lparr>ix_table = [\<lparr>en_hash = [1], en_address = 65537, en_marked = False\<rparr>,
                   \<lparr>en_hash = [2], en_address = 65538, en_marked = True\<rparr>], ix_capacity = 4\<rparr>"
  have "Index_inv ?ix" by (simp add: Index_inv_def)
  moreover have "Index_mark_all (Index_clear_marks ?ix) [[2]] = Inr ?jx"
    by (simp add: Index_mark_def Index_clear_marks_def table_find_def)
  ultimately have "Index_get (Index_remove_unmarked 0 ?jx) = Index_get ?ix |` set [[2]]"
    using collection_keeps_reachable [of ?ix "[[2]]"] by blast
  then show ?thesis
    by (auto simp: fun_eq_iff restrict_map_def Index_get_def table_find_def)
qed

text \<open>
  Publication never moves a chunk: with any allocator that grants at least what it is asked
  for, a successful insertion returns the address now indexed, keeps every earlier hash at its
  earlier address, adds no other hash, and keeps the index well formed.
\<close>
theorem publication_is_stable:
  assumes "\<And>m c. alloc m = Some c \<Longrightarrow> m \<le> c" and "Index_inv ix"
    and "Index_insert alloc ix h a = Inr (jx, r)"
  shows "Index_inv jx \<and> Index_get jx h = Some r \<and>
         Index_get jx = (case Index_get ix h of None \<Rightarrow> (Index_get ix)(h \<mapsto> a) | Some _ \<Rightarrow> Index_get ix)"
proof -
  have al: "granting_allocator alloc" using assms(1) by (rule granting_allocator.intro)
  show ?thesis
    using granting_allocator.Index_insert_laws [OF al assms(2,3)] by (auto split: option.splits)
qed

theorem publication_is_stable_witness:
  "Index_get \<lparr>ix_table = [\<lparr>en_hash = [1], en_address = 65537, en_marked = False\<rparr>], ix_capacity = 1\<rparr> [1] =
   Some 65537"
  using publication_is_stable [of Some Index_new "[1]" 65537]
  by (simp add: Index_insert_def Index_reserve_def Index_insert_reserved_def Index_new_def
      Index_inv_def Index_get_def table_find_def)

end
