(* ===== verification/Chunk_Format.thy ===== *)
theory Chunk_Format
  imports Slot_Page Chunk_Index
begin

text \<open>
  Chunk store records (\<^verbatim>\<open>crates/cas/core/src/store/format.rs\<close>): the segment header, the batch
  header with one descriptor per fixed block, and the builder that packs at most 63 blocks,
  seals them and is reused for the next batch.
\<close>

section \<open>Segment header\<close>

definition MAX_CHUNKS :: nat where "MAX_CHUNKS = 63"
definition MAX_CHUNK_BATCH_BYTES :: nat where "MAX_CHUNK_BATCH_BYTES = (MAX_CHUNKS + 1) * BLOCK_SIZE"

record StoreHeader =
  st_store :: bytes
  st_number :: u64
  st_capacity :: u64

definition StoreHeader_validate :: "StoreHeader \<Rightarrow> unit result" where
  "StoreHeader_validate h =
     ensure (st_store h \<noteq> replicate 16 0) (InvalidData ''empty chunk store identity'')
    (ensure (1 \<le> st_number h \<and> st_number h \<le> MAX_SEGMENT) (InvalidData ''chunk segment number'')
    (ensure (st_capacity h \<ge> 3 * BLOCK \<and> st_capacity h \<le> MAX_SEGMENT_BYTES \<and>
             is_multiple_of (st_capacity h) BLOCK) (InvalidData ''chunk segment capacity'')
    (Inr ())))"

definition StoreHeader_fill :: "(bytes \<Rightarrow> u32) \<Rightarrow> StoreHeader \<Rightarrow> bytes" where
  "StoreHeader_fill crc h =
    (let bs = replicate BLOCK_SIZE 0;
         bs = overwrite bs 0 (ascii ''CASCHS02'');
         bs = put32 bs 8 2;
         bs = put32 bs 12 (word_of_nat BLOCK_SIZE);
         bs = overwrite bs 16 (st_store h);
         bs = put64 bs 56 (st_number h);
         bs = put64 bs 64 (st_capacity h)
     in put_checksum crc bs 4092)"

definition StoreHeader_encode_into :: "(bytes \<Rightarrow> u32) \<Rightarrow> StoreHeader \<Rightarrow> bytes \<Rightarrow> bytes result" where
  "StoreHeader_encode_into crc h out =
     attempt (StoreHeader_validate h) (\<lambda>_.
       ensure (length out = BLOCK_SIZE) (InvalidData ''chunk segment output size'')
         (Inr (StoreHeader_fill crc h)))"

definition StoreHeader_read :: "bytes \<Rightarrow> StoreHeader" where
  "StoreHeader_read bs =
     \<lparr>st_store = subrange bs 16 16, st_number = u64_at bs 56, st_capacity = u64_at bs 64\<rparr>"

definition StoreHeader_decode :: "(bytes \<Rightarrow> u32) \<Rightarrow> bytes \<Rightarrow> StoreHeader result" where
  "StoreHeader_decode crc bs =
     ensure (length bs = BLOCK_SIZE) (InvalidData ''chunk segment header size'')
    (ensure (subrange bs 0 8 = ascii ''CASCHS02'' \<and> u32_at bs 8 = 2 \<and>
             u32_at bs 12 = word_of_nat BLOCK_SIZE) (InvalidData ''chunk segment version'')
    (ensure (u32_at bs 4092 = checksum crc bs 4092) (InvalidData ''chunk segment CRC'')
    (ensure (all_zero (subrange bs 32 (56 - 32) @ subrange bs 72 (4092 - 72)))
       (InvalidData ''chunk segment reserved bytes'')
    (attempt (StoreHeader_validate (StoreHeader_read bs))
       (\<lambda>_. Inr (StoreHeader_read bs))))))"

section \<open>Batch header\<close>

record ChunkDescriptor =
  cd_hash :: hash
  cd_payload_offset :: u32
  cd_crc :: u32

definition ChunkDescriptor_decode :: "bytes \<Rightarrow> ChunkDescriptor" where
  "ChunkDescriptor_decode bs =
     \<lparr>cd_hash = subrange bs 0 32, cd_payload_offset = u32_at bs 32, cd_crc = u32_at bs 40\<rparr>"

record ChunkHeader =
  ch_bytes :: bytes
  ch_count :: nat

fun check_chunk_slots :: "nat \<Rightarrow> bytes list \<Rightarrow> unit result" where
  "check_chunk_slots i [] = Inr ()"
| "check_chunk_slots i (slot # slots) =
     ensure (unat (u32_at slot 32) = i * BLOCK_SIZE \<and> unat (u32_at slot 36) = BLOCK_SIZE)
       (InvalidData ''chunk payload coverage'')
    (ensure (all_zero (drop 44 slot)) (InvalidData ''chunk descriptor reserved bytes'')
    (check_chunk_slots (Suc i) slots))"

definition ChunkHeader_decode :: "(bytes \<Rightarrow> u32) \<Rightarrow> bytes \<Rightarrow> ChunkHeader result" where
  "ChunkHeader_decode crc bs =
     ensure (length bs = BLOCK_SIZE) (InvalidData ''chunk batch header size'')
    (ensure (subrange bs 0 8 = ascii ''CASCHB02'' \<and> u16_at bs 8 = 2 \<and> u16_at bs 10 = 1)
       (InvalidData ''chunk batch version/kind'')
    (ensure (u32_at bs 56 = checksum crc bs 56) (InvalidData ''chunk batch CRC'')
    (let count = unat (u16_at bs 12) in
     ensure (1 \<le> count \<and> count \<le> MAX_CHUNKS) (InvalidData ''chunk descriptor count'')
    (ensure (u16_at bs 14 = 0 \<and> u32_at bs 60 = 0) (InvalidData ''chunk envelope reserved bytes'')
    (ensure (1 \<le> u64_at bs 16 \<and> u64_at bs 16 \<le> MAX_SEGMENT \<and> u64_at bs 24 \<noteq> 0)
       (InvalidData ''chunk batch identity'')
    (ensure (unat (u32_at bs 36) = count * BLOCK_SIZE \<and>
             unat (u32_at bs 32) = (count + 1) * BLOCK_SIZE) (InvalidData ''chunk batch length'')
    (let first = u64_at bs 40 in
     ensure (first \<noteq> 0 \<and> checked_add first (word_of_nat count - 1) = Some (u64_at bs 48))
       (InvalidData ''chunk ordinal bounds'')
    (let used = 64 + 64 * count in
     ensure (all_zero (drop used bs)) (InvalidData ''unused chunk descriptors'')
    (attempt (check_chunk_slots 0 (chunks 64 (subrange bs 64 (used - 64))))
       (\<lambda>_. Inr \<lparr>ch_bytes = bs, ch_count = count\<rparr>))))))))))"

definition ChunkHeader_segment :: "ChunkHeader \<Rightarrow> u64" where
  "ChunkHeader_segment h = u64_at (ch_bytes h) 16"
definition ChunkHeader_batch :: "ChunkHeader \<Rightarrow> u64" where
  "ChunkHeader_batch h = u64_at (ch_bytes h) 24"
definition ChunkHeader_first :: "ChunkHeader \<Rightarrow> u64" where
  "ChunkHeader_first h = u64_at (ch_bytes h) 40"
definition ChunkHeader_last :: "ChunkHeader \<Rightarrow> u64" where
  "ChunkHeader_last h = u64_at (ch_bytes h) 48"

definition ChunkHeader_payload_bytes :: "ChunkHeader \<Rightarrow> nat" where
  "ChunkHeader_payload_bytes h = ch_count h * BLOCK_SIZE"

definition ChunkHeader_descriptors :: "ChunkHeader \<Rightarrow> ChunkDescriptor list" where
  "ChunkHeader_descriptors h =
     map ChunkDescriptor_decode (chunks 64 (subrange (ch_bytes h) 64 (64 * ch_count h)))"

fun verify_chunks :: "(bytes \<Rightarrow> u32) \<Rightarrow> bytes \<Rightarrow> ChunkDescriptor list \<Rightarrow> unit result" where
  "verify_chunks crc payload [] = Inr ()"
| "verify_chunks crc payload (d # ds) =
     ensure (crc (subrange payload (unat (cd_payload_offset d)) BLOCK_SIZE) = cd_crc d)
       (InvalidData ''chunk payload CRC'')
       (verify_chunks crc payload ds)"

definition ChunkHeader_verify_payload ::
  "(bytes \<Rightarrow> u32) \<Rightarrow> ChunkHeader \<Rightarrow> bytes \<Rightarrow> unit result" where
  "ChunkHeader_verify_payload crc h payload =
     ensure (length payload = ChunkHeader_payload_bytes h) (InvalidData ''chunk payload length'')
       (verify_chunks crc payload (ChunkHeader_descriptors h))"

section \<open>Builder\<close>

record ChunkBuilder =
  cb_buffer :: bytes
  cb_count :: nat

type_synonym ChunkBatch = ChunkBuilder

definition ChunkBuilder_try_new_in :: "bool \<Rightarrow> nat \<Rightarrow> ChunkBuilder result" where
  "ChunkBuilder_try_new_in granted cap =
     ensure (1 \<le> cap \<and> cap \<le> MAX_CHUNKS) (InvalidData ''chunk packing capacity'')
    (attempt (AlignedBuffer_try_new_in granted ((cap + 1) * BLOCK_SIZE))
      (\<lambda>buffer. Inr \<lparr>cb_buffer = buffer, cb_count = 0\<rparr>))"

definition chunk_slot :: "(bytes \<Rightarrow> u32) \<Rightarrow> nat \<Rightarrow> Chunk \<Rightarrow> bytes \<Rightarrow> bytes" where
  "chunk_slot crc offset c slot =
    (let slot = overwrite slot 0 (c_hash c);
         slot = put32 slot 32 (word_of_nat offset);
         slot = put32 slot 36 (word_of_nat BLOCK_SIZE)
     in put32 slot 40 (crc (c_bytes c)))"

definition ChunkBuilder_push :: "(bytes \<Rightarrow> u32) \<Rightarrow> ChunkBuilder \<Rightarrow> Chunk \<Rightarrow> ChunkBuilder result" where
  "ChunkBuilder_push crc b c =
     ensure ((cb_count b + 2) * BLOCK_SIZE \<le> length (cb_buffer b)) (InvalidData ''chunk batch full'')
    (let offset = cb_count b * BLOCK_SIZE;
         bs = overwrite (cb_buffer b) (BLOCK_SIZE + offset) (c_bytes c);
         start = 64 + cb_count b * 64
     in Inr \<lparr>cb_buffer = overwrite bs start (chunk_slot crc offset c (subrange bs start 64)),
             cb_count = cb_count b + 1\<rparr>)"

definition chunk_envelope ::
  "(bytes \<Rightarrow> u32) \<Rightarrow> nat \<Rightarrow> u64 \<Rightarrow> u64 \<Rightarrow> u64 \<Rightarrow> u64 \<Rightarrow> bytes \<Rightarrow> bytes" where
  "chunk_envelope crc count segment batch first lst bs =
    (let bs = overwrite bs 0 (ascii ''CASCHB02'');
         bs = put16 bs 8 2;
         bs = put16 bs 10 1;
         bs = put16 bs 12 (word_of_nat count);
         bs = put64 bs 16 segment;
         bs = put64 bs 24 batch;
         bs = put32 bs 32 (word_of_nat ((count + 1) * BLOCK_SIZE));
         bs = put32 bs 36 (word_of_nat (count * BLOCK_SIZE));
         bs = put64 bs 40 first;
         bs = put64 bs 48 lst
     in put_checksum crc bs 56)"

definition ChunkBuilder_seal ::
  "(bytes \<Rightarrow> u32) \<Rightarrow> ChunkBuilder \<Rightarrow> u64 \<Rightarrow> u64 \<Rightarrow> u64 \<Rightarrow> ChunkBatch result" where
  "ChunkBuilder_seal crc b segment batch first =
     ensure (cb_count b \<noteq> 0 \<and> first \<noteq> 0 \<and> batch \<noteq> 0 \<and> 1 \<le> segment \<and> segment \<le> MAX_SEGMENT)
       (InvalidData ''empty chunk batch identity'')
    (attempt (ok_or (checked_add first (word_of_nat (cb_count b) - 1))
                    (Other ''chunk ordinals exhausted''))
      (\<lambda>last.
         let header = chunk_envelope crc (cb_count b) segment batch first last
                        (subrange (cb_buffer b) 0 BLOCK_SIZE)
         in Inr \<lparr>cb_buffer = overwrite (cb_buffer b) 0 header, cb_count = cb_count b\<rparr>))"

definition ChunkBatch_into_builder :: "ChunkBatch \<Rightarrow> ChunkBuilder" where
  "ChunkBatch_into_builder b =
     \<lparr>cb_buffer = overwrite (cb_buffer b) 0 (replicate BLOCK_SIZE 0), cb_count = 0\<rparr>"

definition ChunkBatch_bytes :: "ChunkBatch \<Rightarrow> bytes" where
  "ChunkBatch_bytes b = take ((cb_count b + 1) * BLOCK_SIZE) (cb_buffer b)"

section \<open>Segment headers\<close>

definition StoreHeader_typed :: "StoreHeader \<Rightarrow> bool" where
  "StoreHeader_typed h \<longleftrightarrow> length (st_store h) = 16"

abbreviation StoreHeader_fields :: "StoreHeader \<Rightarrow> (nat \<times> bytes) list" where
  "StoreHeader_fields h \<equiv>
     [(0, ascii ''CASCHS02''), (8, le_of_nat 4 2), (12, le_of_nat 4 4096), (16, st_store h),
      (56, le_of_nat 8 (unat (st_number h))), (64, le_of_nat 8 (unat (st_capacity h)))]"

lemma StoreHeader_fill_fields:
  "StoreHeader_fill crc h =
   put_checksum crc (write_fields (replicate 4096 0) (StoreHeader_fields h)) 4092"
  by (simp add: StoreHeader_fill_def BLOCK_SIZE_def Let_def write_fields_def put32_def put64_def)

lemma StoreHeader_fill_layout:
  assumes "StoreHeader_typed h"
  shows "length (StoreHeader_fill crc h) = 4096"
    and "subrange (StoreHeader_fill crc h) 0 8 = ascii ''CASCHS02''"
    and "u32_at (StoreHeader_fill crc h) 8 = 2"
    and "u32_at (StoreHeader_fill crc h) 12 = 4096"
    and "StoreHeader_read (StoreHeader_fill crc h) = h"
    and "subrange (StoreHeader_fill crc h) 32 24 = replicate 24 0"
    and "subrange (StoreHeader_fill crc h) 72 4020 = replicate 4020 0"
    and "u32_at (StoreHeader_fill crc h) 4092 = checksum crc (StoreHeader_fill crc h) 4092"
proof -
  let ?z = "replicate 4096 (0 :: byte)"
  have ok: "fields_ok 0 (length ?z) (StoreHeader_fields h)"
    using assms by (simp add: StoreHeader_typed_def)
  have st: "length (st_store h) = 16" using assms by (simp add: StoreHeader_typed_def)
  note len = length_write_fields [OF ok]
  note facts = StoreHeader_fill_fields codec field_reads [OF ok] field_gaps [OF ok]
  show "length (StoreHeader_fill crc h) = 4096"
    using len by (simp add: StoreHeader_fill_fields)
  show "subrange (StoreHeader_fill crc h) 0 8 = ascii ''CASCHS02''" using len by (simp add: facts)
  show "u32_at (StoreHeader_fill crc h) 8 = 2" using len by (simp add: facts)
  show "u32_at (StoreHeader_fill crc h) 12 = 4096" using len by (simp add: facts)
  show "StoreHeader_read (StoreHeader_fill crc h) = h"
    using st len by (simp add: facts StoreHeader_read_def)
  show "subrange (StoreHeader_fill crc h) 32 24 = replicate 24 0" using st len by (simp add: facts)
  show "subrange (StoreHeader_fill crc h) 72 4020 = replicate 4020 0" using st len by (simp add: facts)
  show "u32_at (StoreHeader_fill crc h) 4092 = checksum crc (StoreHeader_fill crc h) 4092"
    using len by (simp add: facts)
qed

lemma StoreHeader_decode_fill:
  assumes "StoreHeader_typed h" and "StoreHeader_validate h = Inr ()"
  shows "StoreHeader_decode crc (StoreHeader_fill crc h) = Inr h"
  using assms StoreHeader_fill_layout [OF assms(1), of crc]
  by (simp add: StoreHeader_decode_def BLOCK_SIZE_def all_zero_append)

lemma StoreHeader_decode_canonical:
  assumes "StoreHeader_decode crc bs = Inr h"
  shows "StoreHeader_typed h" and "StoreHeader_validate h = Inr ()" and "bs = StoreHeader_fill crc h"
proof -
  let ?cs = "StoreHeader_fill crc h"
  from assms have len: "length bs = 4096" and magic: "subrange bs 0 8 = ascii ''CASCHS02''"
    and ver: "u32_at bs 8 = 2" "u32_at bs 12 = 4096"
    and "all_zero (subrange bs 32 24)" "all_zero (subrange bs 72 4020)"
    and crc: "u32_at bs 4092 = checksum crc bs 4092"
    and h: "h = StoreHeader_read bs" and valid: "StoreHeader_validate h = Inr ()"
    by (auto simp: StoreHeader_decode_def BLOCK_SIZE_def all_zero_append)
  then have zeros: "subrange bs 32 24 = replicate 24 0" "subrange bs 72 4020 = replicate 4020 0"
    by (simp_all add: all_zero_iff)
  show "StoreHeader_validate h = Inr ()" by (rule valid)
  show typed: "StoreHeader_typed h" using len h by (simp add: StoreHeader_typed_def StoreHeader_read_def)
  note lay = StoreHeader_fill_layout [OF typed, of crc]
  have "StoreHeader_read bs = StoreHeader_read ?cs" using lay(5) h by simp
  then have ids: "subrange bs 16 16 = subrange ?cs 16 16"
    and nums: "u64_at bs 56 = u64_at ?cs 56" "u64_at bs 64 = u64_at ?cs 64"
    by (simp_all add: StoreHeader_read_def)
  have words: "subrange bs off 8 = subrange ?cs off 8" if "off \<in> {56, 64}" for off
    by (rule f64.get_injective) (use that nums len lay(1) in auto)
  have vers: "subrange bs off 4 = subrange ?cs off 4" if "off \<in> {8, 12}" for off
    by (rule f32.get_injective) (use that ver len lay(1,3,4) in auto)
  have "agree 0 [8, 4, 4, 16, 24, 8, 8, 4020] bs ?cs"
    using magic lay(2,6,7) zeros ids by (simp add: words vers)
  then have "take 4092 bs = take 4092 ?cs"
    using agree_subrange [of 0 "[8, 4, 4, 16, 24, 8, 8, 4020]" bs ?cs] by (simp add: subrange_prefix)
  then show "bs = ?cs" using len lay crc by (intro sealed_eq [of bs ?cs 4092 crc]) auto
qed

section \<open>Batches\<close>

text \<open>The builders a packing owner can reach, with the chunks packed since the last seal.\<close>

inductive packed_chunks :: "(bytes \<Rightarrow> u32) \<Rightarrow> (bytes \<Rightarrow> hash) \<Rightarrow> ChunkBuilder \<Rightarrow> Chunk list \<Rightarrow> bool"
  for crc blake where
  packed_new: "ChunkBuilder_try_new_in granted cap = Inr b \<Longrightarrow> packed_chunks crc blake b []"
| packed_push: "packed_chunks crc blake b cs \<Longrightarrow> length bs = BLOCK_SIZE \<Longrightarrow>
    Chunk_new blake bs = Some c \<Longrightarrow> ChunkBuilder_push crc b c = Inr b' \<Longrightarrow>
    packed_chunks crc blake b' (cs @ [c])"
| packed_reuse: "packed_chunks crc blake b cs \<Longrightarrow>
    ChunkBuilder_seal crc b segment batch first = Inr bt \<Longrightarrow>
    packed_chunks crc blake (ChunkBatch_into_builder bt) []"

definition slot_of_chunk :: "(bytes \<Rightarrow> u32) \<Rightarrow> nat \<Rightarrow> Chunk \<Rightarrow> bytes" where
  "slot_of_chunk crc i c = chunk_slot crc (i * 4096) c (replicate 64 0)"

abbreviation chunk_slot_fields :: "(bytes \<Rightarrow> u32) \<Rightarrow> nat \<Rightarrow> Chunk \<Rightarrow> (nat \<times> bytes) list" where
  "chunk_slot_fields crc off c \<equiv>
     [(0, c_hash c), (32, le_of_nat 4 (unat (word_of_nat off :: u32))), (36, le_of_nat 4 4096),
      (40, le_of_nat 4 (unat (crc (c_bytes c))))]"

lemma chunk_slot_layout:
  fixes crc
  assumes hash: "length (c_hash c) = 32" and i: "i < 63"
  defines "s \<equiv> slot_of_chunk crc i c"
  shows "length s = 64" and "ChunkDescriptor_decode s =
           \<lparr>cd_hash = c_hash c, cd_payload_offset = word_of_nat (i * 4096), cd_crc = crc (c_bytes c)\<rparr>"
    and "unat (u32_at s 32) = i * 4096" and "u32_at s 36 = 4096" and "all_zero (drop 44 s)"
proof -
  let ?z = "replicate 64 (0 :: byte)" and ?fs = "chunk_slot_fields crc (i * 4096) c"
  have ok: "fields_ok 0 (length ?z) ?fs" using hash by simp
  have s: "s = write_fields ?z ?fs"
    unfolding s_def slot_of_chunk_def chunk_slot_def
    by (simp only: Let_def put32_def write_fields_def) (simp add: BLOCK_SIZE_def)
  note reads = field_reads [OF ok]
  show len: "length s = 64" using length_write_fields [OF ok] by (simp add: s)
  have off: "u32_at s 32 = word_of_nat (i * 4096)" unfolding s by (simp add: reads del: of_nat_mult)
  then show "unat (u32_at s 32) = i * 4096" using i by (simp only: unat_of_nat) simp
  show "u32_at s 36 = 4096" unfolding s by (simp add: reads del: of_nat_mult)
  have "subrange s 0 32 = c_hash c" "u32_at s 40 = crc (c_bytes c)"
    unfolding s using hash by (simp_all add: reads del: of_nat_mult)
  with off show "ChunkDescriptor_decode s =
      \<lparr>cd_hash = c_hash c, cd_payload_offset = word_of_nat (i * 4096), cd_crc = crc (c_bytes c)\<rparr>"
    by (simp add: ChunkDescriptor_decode_def del: of_nat_mult)
  have "subrange s 44 20 = replicate 20 0"
    unfolding s using hash by (simp add: read_gap [OF ok] subrange_replicate del: of_nat_mult)
  then show "all_zero (drop 44 s)" using len by (simp add: subrange_def all_zero_iff)
qed

definition chunk_slots :: "(bytes \<Rightarrow> u32) \<Rightarrow> Chunk list \<Rightarrow> bytes list" where
  "chunk_slots crc cs = map (\<lambda>i. slot_of_chunk crc i (cs ! i)) [0..<length cs]"

definition chunk_payload :: "Chunk list \<Rightarrow> bytes" where
  "chunk_payload cs = concat (map c_bytes cs)"

definition ChunkBuilder_inv :: "(bytes \<Rightarrow> u32) \<Rightarrow> (bytes \<Rightarrow> hash) \<Rightarrow> ChunkBuilder \<Rightarrow> Chunk list \<Rightarrow> bool" where
  "ChunkBuilder_inv crc blake b cs \<longleftrightarrow>
     cb_count b = length cs \<and> length cs \<le> 63 \<and>
     (\<exists>cap \<ge> length cs. cap \<le> 63 \<and> length (cb_buffer b) = (cap + 1) * 4096) \<and>
     (\<forall>c \<in> set cs. length (c_bytes c) = 4096 \<and> c_hash c = blake (c_bytes c)) \<and>
     subrange (cb_buffer b) 0 64 = replicate 64 0 \<and>
     slots_at 64 4096 (cb_buffer b) (chunk_slots crc cs) \<and>
     subrange (cb_buffer b) 4096 (4096 * length cs) = chunk_payload cs"

lemma length_chunk_slots [simp]: "length (chunk_slots crc cs) = length cs"
  by (simp add: chunk_slots_def)

lemma chunk_slots_snoc: "chunk_slots crc (cs @ [c]) = chunk_slots crc cs @ [slot_of_chunk crc (length cs) c]"
  by (simp add: chunk_slots_def nth_append)

lemma length_chunk_payload:
  "\<forall>c \<in> set cs. length (c_bytes c) = 4096 \<Longrightarrow> length (chunk_payload cs) = 4096 * length cs"
  by (induction cs) (auto simp: chunk_payload_def)

lemma ChunkBuilder_inv_new:
  assumes "ChunkBuilder_try_new_in granted cap = Inr b"
  shows "ChunkBuilder_inv crc blake b []"
proof -
  from assms have "1 \<le> cap" "cap \<le> 63" "b = \<lparr>cb_buffer = replicate ((cap + 1) * 4096) 0, cb_count = 0\<rparr>"
    by (auto simp: ChunkBuilder_try_new_in_def AlignedBuffer_zeroed MAX_CHUNKS_def BLOCK_SIZE_def)
  moreover have "slots_at 64 4096 (replicate ((cap + 1) * 4096) 0) []" by (rule slots_at_zeros) auto
  ultimately show ?thesis
    by (auto simp: ChunkBuilder_inv_def chunk_slots_def chunk_payload_def subrange_replicate subrange_def
        intro!: exI [of _ cap])
qed

lemma ChunkBuilder_inv_push:
  assumes inv: "ChunkBuilder_inv crc blake b cs" and push: "ChunkBuilder_push crc b c = Inr b'"
    and c: "length (c_bytes c) = 4096" "c_hash c = blake (c_bytes c)" "length (c_hash c) = 32"
  shows "ChunkBuilder_inv crc blake b' (cs @ [c])"
proof -
  let ?n = "length cs"
  let ?buf = "overwrite (cb_buffer b) (4096 + ?n * 4096) (c_bytes c)"
  let ?s = "slot_of_chunk crc ?n c"
  from inv obtain cap where cap: "?n \<le> cap" "cap \<le> 63" "length (cb_buffer b) = (cap + 1) * 4096"
    and n: "cb_count b = ?n" and cs: "\<forall>c \<in> set cs. length (c_bytes c) = 4096 \<and> c_hash c = blake (c_bytes c)"
    and head: "subrange (cb_buffer b) 0 64 = replicate 64 0"
    and slots: "slots_at 64 4096 (cb_buffer b) (chunk_slots crc cs)"
    and pay: "subrange (cb_buffer b) 4096 (4096 * ?n) = chunk_payload cs"
    by (auto simp: ChunkBuilder_inv_def)
  from push n have room: "(?n + 2) * 4096 \<le> length (cb_buffer b)"
    by (simp add: ChunkBuilder_push_def BLOCK_SIZE_def)
  with cap have cap': "Suc ?n \<le> cap" by simp
  then have n63: "?n < 63" using cap by simp
  have fits: "4096 + ?n * 4096 + length (c_bytes c) \<le> length (cb_buffer b)" using room c by simp
  have slots1: "slots_at 64 4096 ?buf (chunk_slots crc cs)"
    using slots fits by (intro slots_at_outside) auto
  have fresh: "subrange ?buf (64 + ?n * 64) 64 = replicate 64 0"
    using slots_at_fresh [OF slots1] n63 by (simp add: mult.commute)
  have s: "length ?s = 64" using chunk_slot_layout(1) [OF c(3) n63] by simp
  have b': "b' = \<lparr>cb_buffer = overwrite ?buf (64 + 64 * ?n) ?s, cb_count = Suc ?n\<rparr>"
    using push n fresh
    by (simp add: ChunkBuilder_push_def BLOCK_SIZE_def Let_def slot_of_chunk_def mult.commute)
  have len: "length ?buf = length (cb_buffer b)" using fits by simp
  have slots2: "slots_at 64 4096 (cb_buffer b') (chunk_slots crc (cs @ [c]))"
    using slots_at_push [OF slots1 _ s] n63 by (simp add: b' chunk_slots_snoc)
  have head2: "subrange (cb_buffer b') 0 64 = replicate 64 0"
    using head fits len s n63 by (simp add: b' subrange_overwrite_before)
  have "subrange (cb_buffer b') 4096 (4096 * ?n + 4096) = subrange ?buf 4096 (4096 * ?n + 4096)"
    using s n63 len room by (simp add: b' subrange_overwrite_after)
  also have "\<dots> = subrange (cb_buffer b) 4096 (4096 * ?n) @ c_bytes c"
    using fits c(1) by (simp add: subrange_append_split subrange_overwrite_before
        subrange_overwrite_same mult.commute)
  finally have "subrange (cb_buffer b') 4096 (4096 * length (cs @ [c])) = chunk_payload (cs @ [c])"
    using pay by (simp add: chunk_payload_def add.commute)
  moreover have "length (cb_buffer b') = (cap + 1) * 4096" using len s cap n63 by (simp add: b')
  ultimately show ?thesis
    using cs c cap cap' head2 slots2 by (auto simp: ChunkBuilder_inv_def b')
qed

text \<open>The envelope is written into the zeroed head of the page, over the packed slots.\<close>

abbreviation chunk_envelope_fields ::
  "u16 \<Rightarrow> u32 \<Rightarrow> u32 \<Rightarrow> u64 \<Rightarrow> u64 \<Rightarrow> u64 \<Rightarrow> u64 \<Rightarrow> (nat \<times> bytes) list" where
  "chunk_envelope_fields count whole payload segment batch first lst \<equiv>
     [(0, ascii ''CASCHB02''), (8, le_of_nat 2 2), (10, le_of_nat 2 (Suc 0)),
      (12, le_of_nat 2 (unat count)), (16, le_of_nat 8 (unat segment)),
      (24, le_of_nat 8 (unat batch)), (32, le_of_nat 4 (unat whole)),
      (36, le_of_nat 4 (unat payload)), (40, le_of_nat 8 (unat first)),
      (48, le_of_nat 8 (unat lst))]"

lemma chunk_envelope_layout:
  fixes crc and segment batch first lst :: u64
  assumes len: "length page = 4096" and head: "subrange page 0 64 = replicate 64 0" and n: "n \<le> 63"
  defines "p \<equiv> chunk_envelope crc n segment batch first lst page"
  shows "length p = 4096" and "subrange p 0 8 = ascii ''CASCHB02''" and "u16_at p 8 = 2"
    and "u16_at p 10 = 1" and "unat (u16_at p 12) = n" and "u16_at p 14 = 0" and "u64_at p 16 = segment"
    and "u64_at p 24 = batch" and "unat (u32_at p 32) = (n + 1) * 4096"
    and "unat (u32_at p 36) = n * 4096" and "u64_at p 40 = first" and "u64_at p 48 = lst"
    and "u32_at p 56 = checksum crc p 56" and "u32_at p 60 = 0"
    and "slots_at 64 4096 page ss \<Longrightarrow> slots_at 64 4096 p ss"
proof -
  define count :: u16 where "count = word_of_nat n"
  define whole :: u32 where "whole = word_of_nat ((n + 1) * 4096)"
  define payload :: u32 where "payload = word_of_nat (n * 4096)"
  let ?fs = "chunk_envelope_fields count whole payload segment batch first lst"
  have ok: "fields_ok 0 (length page) ?fs" using len by simp
  have p: "p = put_checksum crc (write_fields page ?fs) 56"
    unfolding p_def chunk_envelope_def count_def whole_def payload_def
    by (simp only: Let_def put16_def put32_def put64_def write_fields_def) (simp add: BLOCK_SIZE_def)
  note wlen = length_write_fields [OF ok]
  note facts = p codec field_reads [OF ok] field_gaps [OF ok]
  show "length p = 4096" using wlen len by (simp add: p)
  show "subrange p 0 8 = ascii ''CASCHB02''" using wlen len by (simp add: facts)
  show "u16_at p 8 = 2" "u16_at p 10 = 1" using wlen len by (simp_all add: facts)
  have "u16_at p 12 = count" using wlen len by (simp add: facts)
  then show "unat (u16_at p 12) = n" using n by (simp only: count_def unat_of_nat) simp
  have "u16_at page 14 = 0" "u32_at page 60 = 0"
    using f16.get_subrange [of 14 64 page 0] f32.get_subrange [of 60 64 page 0]
    by (simp_all add: head f16.get_zeros f32.get_zeros)
  then show "u16_at p 14 = 0" "u32_at p 60 = 0" using wlen len by (simp_all add: facts)
  show "u64_at p 16 = segment" "u64_at p 24 = batch" "u64_at p 40 = first" "u64_at p 48 = lst"
    using wlen len by (simp_all add: facts)
  have "u32_at p 32 = whole" "u32_at p 36 = payload" using wlen len by (simp_all add: facts)
  then show "unat (u32_at p 32) = (n + 1) * 4096" "unat (u32_at p 36) = n * 4096"
    using n by (simp_all only: whole_def payload_def unat_of_nat) simp_all
  show "u32_at p 56 = checksum crc p 56" using wlen len by (simp add: p put_checksum_verifies)
  show "slots_at 64 4096 p ss" if "slots_at 64 4096 page ss"
    unfolding p using that by (intro slots_at_checksum slots_at_fields [where lo = 0]) simp_all
qed

lemma check_chunk_slots_ok:
  assumes "\<forall>j < length ss. unat (u32_at (ss ! j) 32) = (i + j) * 4096 \<and> u32_at (ss ! j) 36 = 4096 \<and>
             all_zero (drop 44 (ss ! j))"
  shows "check_chunk_slots i ss = Inr ()"
  using assms
proof (induction ss arbitrary: i)
  case (Cons s ss)
  have "check_chunk_slots (Suc i) ss = Inr ()"
    by (rule Cons.IH) (use Cons.prems in \<open>force dest: spec [of _ "Suc _"]\<close>)
  then show ?case using Cons.prems [rule_format, of 0] by (simp add: BLOCK_SIZE_def)
qed simp

lemma verify_chunks_ok:
  "\<forall>d \<in> set ds. crc (subrange payload (unat (cd_payload_offset d)) 4096) = cd_crc d \<Longrightarrow>
   verify_chunks crc payload ds = Inr ()"
  by (induction ds) (auto simp: BLOCK_SIZE_def)

definition chunk_descriptors :: "(bytes \<Rightarrow> u32) \<Rightarrow> Chunk list \<Rightarrow> ChunkDescriptor list" where
  "chunk_descriptors crc cs =
     map (\<lambda>i. \<lparr>cd_hash = c_hash (cs ! i), cd_payload_offset = word_of_nat (i * 4096),
               cd_crc = crc (c_bytes (cs ! i))\<rparr>) [0..<length cs]"

lemma chunk_payload_block:
  assumes "\<forall>c \<in> set cs. length (c_bytes c) = 4096" and "i < length cs"
  shows "subrange (chunk_payload cs) (i * 4096) 4096 = c_bytes (cs ! i)"
  using assms
proof (induction cs arbitrary: i)
  case (Cons c cs)
  then show ?case by (cases i) (auto simp: chunk_payload_def subrange_def)
qed simp

lemma sealed_page:
  assumes inv: "ChunkBuilder_inv crc blake b cs" and blake: "\<And>bs. length (blake bs) = 32"
    and seal: "ChunkBuilder_seal crc b segment batch first = Inr bt"
  defines "p \<equiv> take 4096 (cb_buffer bt)"
  shows "ChunkHeader_decode crc p = Inr \<lparr>ch_bytes = p, ch_count = length cs\<rparr>"
    and "u64_at p 16 = segment" and "u64_at p 24 = batch" and "u64_at p 40 = first"
    and "unat (u64_at p 48) = unat first + length cs - 1"
    and "map ChunkDescriptor_decode (chunks 64 (subrange p 64 (64 * length cs))) = chunk_descriptors crc cs"
    and "drop 4096 (cb_buffer bt) = drop 4096 (cb_buffer b)" and "cb_count bt = length cs"
    and "length (cb_buffer bt) = length (cb_buffer b)"
proof -
  let ?page = "subrange (cb_buffer b) 0 4096"
  from inv obtain cap where cap: "length cs \<le> cap" "cap \<le> 63" "length (cb_buffer b) = (cap + 1) * 4096"
    and n: "cb_count b = length cs" and cs: "\<forall>c \<in> set cs. length (c_bytes c) = 4096 \<and> c_hash c = blake (c_bytes c)"
    and head: "subrange (cb_buffer b) 0 64 = replicate 64 0"
    and slots: "slots_at 64 4096 (cb_buffer b) (chunk_slots crc cs)"
    by (auto simp: ChunkBuilder_inv_def)
  then have n63: "length cs \<le> 63" by simp
  from seal n obtain lst where ids: "length cs \<noteq> 0" "first \<noteq> 0" "batch \<noteq> 0" "1 \<le> segment" "segment \<le> MAX_SEGMENT"
    and lst: "checked_add first (word_of_nat (length cs) - 1) = Some lst"
    and bt: "bt = \<lparr>cb_buffer = overwrite (cb_buffer b) 0 (chunk_envelope crc (length cs) segment batch first lst ?page),
                  cb_count = length cs\<rparr>"
    by (auto simp: ChunkBuilder_seal_def BLOCK_SIZE_def Let_def)
  have page: "length ?page = 4096" "subrange ?page 0 64 = replicate 64 0"
    using cap head by (simp_all add: subrange_subrange)
  note lay = chunk_envelope_layout [OF page n63, where crc = crc and segment = segment and batch = batch
      and first = first and lst = lst]
  have p: "p = chunk_envelope crc (length cs) segment batch first lst ?page"
    using lay(1) cap by (simp add: p_def bt overwrite_def)
  have "slots_at 64 4096 ?page (chunk_slots crc cs)"
    using slots page by (intro slots_at_cong [OF slots]) (simp_all add: subrange_subrange)
  then have sl: "slots_at 64 4096 p (chunk_slots crc cs)" unfolding p by (rule lay(15))
  have ch: "chunks 64 (subrange p 64 (64 * length cs)) = chunk_slots crc cs"
    using slots_at_chunks [OF sl] by simp
  have tail: "all_zero (drop (64 + 64 * length cs) p)"
    using slots_at_tail_drop [of 64 p "chunk_slots crc cs"] sl lay(1) by (simp add: p)
  have slot: "chunk_slots crc cs ! i = slot_of_chunk crc i (cs ! i)" "length (c_hash (cs ! i)) = 32" "i < 63"
    if "i < length cs" for i
    using that cs blake n63 by (auto simp: chunk_slots_def)
  have "check_chunk_slots 0 (chunk_slots crc cs) = Inr ()"
    by (rule check_chunk_slots_ok) (use slot chunk_slot_layout in simp)
  then show "ChunkHeader_decode crc p = Inr \<lparr>ch_bytes = p, ch_count = length cs\<rparr>"
    using lay ids lst n63 tail ch
    by (simp add: ChunkHeader_decode_def p [symmetric] BLOCK_SIZE_def MAX_CHUNKS_def Let_def Suc_le_eq)
  show "u64_at p 16 = segment" "u64_at p 24 = batch" "u64_at p 40 = first"
    using lay by (simp_all add: p)
  have "unat (word_of_nat (length cs) - 1 :: u64) = length cs - 1"
    using ids(1) n63 by (simp add: unat_sub_if' unat_of_nat Suc_le_eq)
  then show "unat (u64_at p 48) = unat first + length cs - 1"
    using lay(12) checked_add_unat [OF lst] ids(1) by (simp add: p)
  show "map ChunkDescriptor_decode (chunks 64 (subrange p 64 (64 * length cs))) = chunk_descriptors crc cs"
    unfolding ch chunk_descriptors_def
    by (rule nth_equalityI) (use slot chunk_slot_layout(2) in simp_all)
  show "drop 4096 (cb_buffer bt) = drop 4096 (cb_buffer b)" "cb_count bt = length cs"
    "length (cb_buffer bt) = length (cb_buffer b)"
    using lay(1) cap by (simp_all add: bt overwrite_def)
qed

lemma ChunkBuilder_inv_reuse:
  assumes inv: "ChunkBuilder_inv crc blake b cs" and blake: "\<And>bs. length (blake bs) = 32"
    and seal: "ChunkBuilder_seal crc b segment batch first = Inr bt"
  shows "ChunkBuilder_inv crc blake (ChunkBatch_into_builder bt) []"
proof -
  from inv obtain cap where cap: "cap \<le> 63" "length (cb_buffer b) = (cap + 1) * 4096"
    by (auto simp: ChunkBuilder_inv_def)
  then have len: "length (cb_buffer bt) = (cap + 1) * 4096" using sealed_page(9) [OF inv blake seal] by simp
  let ?buf = "overwrite (cb_buffer bt) 0 (replicate 4096 0)"
  have "subrange ?buf a n = replicate n 0" if "a + n \<le> 4096" for a n
    using len that by (simp add: subrange_overwrite_around subrange_replicate)
  then have "subrange ?buf 0 64 = replicate 64 0" "subrange ?buf 64 4032 = replicate 4032 0" by simp_all
  moreover have "length ?buf = (cap + 1) * 4096" using len by simp
  ultimately show ?thesis
    using cap
    by (auto simp: ChunkBuilder_inv_def ChunkBatch_into_builder_def BLOCK_SIZE_def slots_at_def
        chunk_slots_def chunk_payload_def subrange_def [of _ _ 0])
qed

lemma packed_chunks_inv:
  assumes "packed_chunks crc blake b cs" and blake: "\<And>bs. length (blake bs) = 32"
  shows "ChunkBuilder_inv crc blake b cs"
  using assms(1)
proof (induction rule: packed_chunks.induct)
  case (packed_new granted cap b)
  then show ?case by (rule ChunkBuilder_inv_new)
next
  case (packed_push b cs bs c b')
  then show ?case
    using blake
    by (intro ChunkBuilder_inv_push [of crc blake b cs c b'])
       (auto simp: Chunk_new_def nonzero_hash_def BLOCK_SIZE_def split: if_splits)
next
  case (packed_reuse b cs segment batch first bt)
  then show ?case using ChunkBuilder_inv_reuse blake by blast
qed

lemma chunk_verify:
  assumes "\<forall>c \<in> set cs. length (c_bytes c) = 4096" and "length cs \<le> 63"
  shows "verify_chunks crc (chunk_payload cs) (chunk_descriptors crc cs) = Inr ()"
proof (rule verify_chunks_ok, rule ballI)
  fix d assume "d \<in> set (chunk_descriptors crc cs)"
  then obtain i where i: "i < length cs" and d: "d = \<lparr>cd_hash = c_hash (cs ! i),
      cd_payload_offset = word_of_nat (i * 4096), cd_crc = crc (c_bytes (cs ! i))\<rparr>"
    by (auto simp: chunk_descriptors_def)
  have "unat (word_of_nat (i * 4096) :: u32) = i * 4096"
    using i assms(2) by (simp only: unat_of_nat) simp
  then show "crc (subrange (chunk_payload cs) (unat (cd_payload_offset d)) 4096) = cd_crc d"
    using chunk_payload_block [OF assms(1) i] d by simp
qed

lemma sealed_bytes:
  assumes inv: "ChunkBuilder_inv crc blake b cs" and blake: "\<And>bs. length (blake bs) = 32"
    and seal: "ChunkBuilder_seal crc b segment batch first = Inr bt"
  shows "take 4096 (ChunkBatch_bytes bt) = take 4096 (cb_buffer bt)"
    and "drop 4096 (ChunkBatch_bytes bt) = chunk_payload cs"
    and "length (chunk_payload cs) = length cs * 4096"
proof -
  note page = sealed_page [OF inv blake seal]
  show "take 4096 (ChunkBatch_bytes bt) = take 4096 (cb_buffer bt)"
    by (simp add: ChunkBatch_bytes_def BLOCK_SIZE_def min_def)
  have "drop 4096 (ChunkBatch_bytes bt) = take (length cs * 4096) (drop 4096 (cb_buffer b))"
    using page(7,8) by (simp add: ChunkBatch_bytes_def BLOCK_SIZE_def drop_take)
  then show "drop 4096 (ChunkBatch_bytes bt) = chunk_payload cs"
    using inv by (simp add: ChunkBuilder_inv_def subrange_def mult.commute)
  show "length (chunk_payload cs) = length cs * 4096"
    using inv length_chunk_payload [of cs] by (simp add: ChunkBuilder_inv_def)
qed

section \<open>Properties\<close>

text \<open>
  C27. A sealed chunk batch is self-describing. Whatever blocks the builder packed, in a fresh or a
  reused buffer, the sealed bytes parse to the segment, batch and ordinal range they were sealed
  with; the descriptors list the BLAKE3 identities of the packed blocks in order, the payload is the
  blocks themselves, and every block checksum verifies.
\<close>
theorem sealed_chunk_batch_roundtrip:
  assumes "\<And>bs. length (blake bs) = 32" and "packed_chunks crc blake b cs"
    and "ChunkBuilder_seal crc b segment batch first = Inr bt"
  shows "\<exists>h. ChunkHeader_decode crc (take 4096 (ChunkBatch_bytes bt)) = Inr h \<and>
     ChunkHeader_segment h = segment \<and> ChunkHeader_batch h = batch \<and> ChunkHeader_first h = first \<and>
     unat (ChunkHeader_last h) = unat first + length cs - 1 \<and>
     map cd_hash (ChunkHeader_descriptors h) = map (\<lambda>c. blake (c_bytes c)) cs \<and>
     drop 4096 (ChunkBatch_bytes bt) = concat (map c_bytes cs) \<and>
     ChunkHeader_verify_payload crc h (drop 4096 (ChunkBatch_bytes bt)) = Inr ()"
proof -
  have inv: "ChunkBuilder_inv crc blake b cs" using packed_chunks_inv assms(1,2) by blast
  then have cs: "\<forall>c \<in> set cs. length (c_bytes c) = 4096 \<and> c_hash c = blake (c_bytes c)" "length cs \<le> 63"
    by (simp_all add: ChunkBuilder_inv_def)
  note page = sealed_page [OF inv assms(1,3)] and bytes = sealed_bytes [OF inv assms(1,3)]
  have hashes: "map cd_hash (chunk_descriptors crc cs) = map (\<lambda>c. blake (c_bytes c)) cs"
    by (rule nth_equalityI) (use cs in \<open>auto simp: chunk_descriptors_def\<close>)
  show ?thesis
    using page bytes hashes chunk_verify [of cs crc] cs
    by (simp add: ChunkHeader_segment_def ChunkHeader_batch_def ChunkHeader_first_def
        ChunkHeader_last_def ChunkHeader_descriptors_def ChunkHeader_verify_payload_def
        ChunkHeader_payload_bytes_def BLOCK_SIZE_def chunk_payload_def del: map_map)
qed

definition demo_chunk :: Chunk where
  "demo_chunk = \<lparr>c_bytes = replicate 4096 1, c_hash = replicate 32 7\<rparr>"

lemma demo_packing:
  "\<exists>b. packed_chunks (\<lambda>_. 0) (\<lambda>_. replicate 32 7) b [demo_chunk] \<and> cb_count b = 1"
proof -
  obtain b0 where b0: "ChunkBuilder_try_new_in True 1 = Inr b0" "length (cb_buffer b0) = 8192" "cb_count b0 = 0"
    by (simp add: ChunkBuilder_try_new_in_def MAX_CHUNKS_def BLOCK_SIZE_def AlignedBuffer_try_new_in_def
        concat_replicate_blocks)
  obtain b1 where b1: "ChunkBuilder_push (\<lambda>_. 0) b0 demo_chunk = Inr b1" "cb_count b1 = 1"
    using b0 by (simp add: ChunkBuilder_push_def BLOCK_SIZE_def Let_def)
  have "Chunk_new (\<lambda>_. replicate 32 7) (replicate 4096 1) = Some demo_chunk"
    by (simp add: Chunk_new_def nonzero_hash_def demo_chunk_def)
  from packed_push [OF packed_new [OF b0(1)] _ this b1(1)] b1(2) show ?thesis
    by (auto simp: BLOCK_SIZE_def)
qed

theorem sealed_chunk_batch_roundtrip_witness:
  "\<exists>b bt h. ChunkBuilder_seal (\<lambda>_. 0) b 5 1 9 = Inr bt \<and>
     ChunkHeader_decode (\<lambda>_. 0) (take 4096 (ChunkBatch_bytes bt)) = Inr h \<and>
     ChunkHeader_first h = 9 \<and> map cd_hash (ChunkHeader_descriptors h) = [replicate 32 7]"
proof -
  obtain b where b: "packed_chunks (\<lambda>_. 0) (\<lambda>_. replicate 32 7) b [demo_chunk]" "cb_count b = 1"
    using demo_packing by blast
  obtain bt where bt: "ChunkBuilder_seal (\<lambda>_. 0) b 5 1 9 = Inr bt"
    using b(2) by (simp add: ChunkBuilder_seal_def checked_add_def MAX_SEGMENT_value Let_def)
  have "length (replicate 32 (7 :: byte)) = 32" by simp
  from sealed_chunk_batch_roundtrip [OF this b(1) bt]
  obtain h where h: "ChunkHeader_decode (\<lambda>_. 0) (take 4096 (ChunkBatch_bytes bt)) = Inr h"
    "ChunkHeader_first h = 9"
    "map cd_hash (ChunkHeader_descriptors h) = map (\<lambda>c. replicate 32 7) [demo_chunk]" by blast
  show ?thesis by (intro exI conjI) (rule bt, rule h(1), rule h(2), rule h(3) [unfolded list.map])
qed

text \<open>
  The chunk segment header parser accepts exactly the encoder's blocks and returns the encoded
  header: decoding and encoding are inverse on valid headers.
\<close>
lemma store_header_bijection:
  "StoreHeader_decode crc bs = Inr h \<longleftrightarrow>
   StoreHeader_typed h \<and> StoreHeader_encode_into crc h (replicate BLOCK_SIZE 0) = Inr bs"
  using StoreHeader_decode_canonical [of crc bs h] StoreHeader_decode_fill [of h crc]
  by (auto simp: StoreHeader_encode_into_def)

end
