(* ===== verification/Manifest_Format.thy ===== *)
theory Manifest_Format
  imports Slot_Page Chunk_Index
begin

text \<open>
  Manifest pages (\<^verbatim>\<open>crates/cas/core/src/manifest/format.rs\<close>): leaves of extents, branches of
  children, COMMIT and FILE pages, each one checksummed block. Every encoder ends by decoding its
  own output, so encoding succeeds exactly on the contents the parser accepts.
\<close>

section \<open>Records\<close>

definition LEAF_CAPACITY :: nat where "LEAF_CAPACITY = 63"
definition BRANCH_CAPACITY :: nat where "BRANCH_CAPACITY = 252"
definition MAX_HEIGHT :: u16 where "MAX_HEIGHT = 8"

datatype PageKind = Leaf | Branch | Commit | File

fun page_kind_u16 :: "PageKind \<Rightarrow> u16" where
  "page_kind_u16 Leaf = 1"
| "page_kind_u16 Branch = 2"
| "page_kind_u16 Commit = 3"
| "page_kind_u16 File = 4"

record Extent =
  ex_start :: u64
  ex_end :: u64
  ex_hash :: "hash option"

definition Extent_decode :: "bytes \<Rightarrow> Extent" where
  "Extent_decode bs =
     \<lparr>ex_start = u64_at bs 0, ex_end = u64_at bs 8,
      ex_hash = (if u16_at bs 52 = 1 then Some (subrange bs 16 32) else None)\<rparr>"

record Child =
  ci_start :: u64
  ci_offset :: u64

record Root =
  rt_offset :: u64
  rt_height :: u16

record Commit =
  cm_store :: bytes
  cm_image :: bytes
  cm_generation :: u64
  cm_root :: Root
  cm_durable :: u64
  cm_image_bytes :: u64

record FileHeader =
  fh_store :: bytes
  fh_image_bytes :: u64

definition page_offset :: "u64 \<Rightarrow> bool" where
  "page_offset offset \<longleftrightarrow> offset \<noteq> 0 \<and> is_multiple_of offset BLOCK"

record Page =
  pg_bytes :: bytes
  pg_kind :: PageKind
  pg_count :: nat

definition Page_offset :: "Page \<Rightarrow> u64" where
  "Page_offset p = u64_at (pg_bytes p) 16"

definition Page_level :: "Page \<Rightarrow> u16" where
  "Page_level p = u16_at (pg_bytes p) 12"

section \<open>Decoding\<close>

fun check_extents :: "u64 \<Rightarrow> u64 \<Rightarrow> bytes list \<Rightarrow> unit result" where
  "check_extents blocks end [] = Inr ()"
| "check_extents blocks end (slot # slots) =
    (let extent = Extent_decode slot in
     ensure (ex_start extent \<ge> end \<and> ex_start extent < ex_end extent \<and> ex_end extent \<le> blocks)
       (InvalidData ''manifest extent bounds/order'')
    (ensure (u32_at slot 48 = 0 \<and> all_zero (drop 54 slot))
       (InvalidData ''manifest extent offset/reserved'')
    (if u16_at slot 52 = 1
     then ensure (ex_end extent - ex_start extent = 1) (InvalidData ''fixed chunk extent length'')
            (check_extents blocks (ex_end extent) slots)
     else if u16_at slot 52 = 2
     then ensure (subrange slot 16 32 = replicate 32 0) (InvalidData ''ZERO extent hash'')
            (check_extents blocks (ex_end extent) slots)
     else Inl (InvalidData ''manifest extent kind''))))"

definition Page_validate_leaf :: "Page \<Rightarrow> u64 \<Rightarrow> unit result" where
  "Page_validate_leaf p blocks =
     ensure (Page_level p = 0 \<and> 1 \<le> pg_count p \<and> pg_count p \<le> LEAF_CAPACITY)
       (InvalidData ''manifest leaf shape'')
    (let used = 64 + pg_count p * 64 in
     ensure (all_zero (drop used (pg_bytes p))) (InvalidData ''unused manifest leaf entries'')
    (check_extents blocks 0 (chunks 64 (subrange (pg_bytes p) 64 (used - 64)))))"

fun check_children :: "u64 \<Rightarrow> u64 \<Rightarrow> u64 option \<Rightarrow> bytes list \<Rightarrow> unit result" where
  "check_children blocks offset previous [] = Inr ()"
| "check_children blocks offset previous (slot # slots) =
    (let start = u64_at slot 0; child = u64_at slot 8 in
     ensure (start < blocks \<and> (case previous of None \<Rightarrow> True | Some v \<Rightarrow> start > v))
       (InvalidData ''manifest child order'')
    (ensure (page_offset child \<and> child < offset) (InvalidData ''manifest child address'')
    (check_children blocks offset (Some start) slots)))"

definition Page_validate_branch :: "Page \<Rightarrow> u64 \<Rightarrow> unit result" where
  "Page_validate_branch p blocks =
     ensure (1 \<le> Page_level p \<and> Page_level p < MAX_HEIGHT \<and> 1 \<le> pg_count p \<and>
             pg_count p \<le> BRANCH_CAPACITY) (InvalidData ''manifest branch shape'')
    (let used = 64 + pg_count p * 16 in
     ensure (all_zero (drop used (pg_bytes p))) (InvalidData ''unused manifest children'')
    (check_children blocks (Page_offset p) None (chunks 16 (subrange (pg_bytes p) 64 (used - 64)))))"

definition Page_extents :: "Page \<Rightarrow> Extent list result" where
  "Page_extents p =
     ensure (pg_kind p = Leaf) (InvalidData ''expected manifest leaf'')
       (Inr (map Extent_decode (chunks 64 (subrange (pg_bytes p) 64 (64 * pg_count p)))))"

definition Page_children :: "Page \<Rightarrow> Child list result" where
  "Page_children p =
     ensure (pg_kind p = Branch) (InvalidData ''expected manifest branch'')
       (Inr (map (\<lambda>slot. \<lparr>ci_start = u64_at slot 0, ci_offset = u64_at slot 8\<rparr>)
          (chunks 16 (subrange (pg_bytes p) 64 (16 * pg_count p)))))"

definition Page_commit :: "Page \<Rightarrow> Commit result" where
  "Page_commit p =
     ensure (pg_kind p = Commit) (InvalidData ''expected manifest COMMIT'')
       (Inr \<lparr>cm_store = subrange (pg_bytes p) 64 16, cm_image = subrange (pg_bytes p) 80 16,
             cm_generation = u64_at (pg_bytes p) 96,
             cm_root = \<lparr>rt_offset = u64_at (pg_bytes p) 104, rt_height = Page_level p\<rparr>,
             cm_durable = u64_at (pg_bytes p) 112, cm_image_bytes = u64_at (pg_bytes p) 120\<rparr>)"

definition Commit_validate :: "Commit \<Rightarrow> u64 \<Rightarrow> unit result" where
  "Commit_validate c offset =
     ensure (page_offset offset \<and> cm_store c \<noteq> replicate 16 0 \<and> cm_image c \<noteq> replicate 16 0 \<and>
             cm_generation c \<noteq> 0 \<and> cm_image_bytes c \<noteq> 0 \<and> is_multiple_of (cm_image_bytes c) BLOCK)
       (InvalidData ''manifest COMMIT identity/capacity'')
    (ensure (if rt_offset (cm_root c) = 0 then rt_height (cm_root c) = 0
             else page_offset (rt_offset (cm_root c)) \<and> rt_offset (cm_root c) < offset \<and>
                  1 \<le> rt_height (cm_root c) \<and> rt_height (cm_root c) \<le> MAX_HEIGHT)
       (InvalidData ''manifest COMMIT root'')
    (Inr ()))"

definition page_kind_at :: "bytes \<Rightarrow> PageKind result" where
  "page_kind_at bs =
    (if u16_at bs 10 = 1 then Inr Leaf else if u16_at bs 10 = 2 then Inr Branch
     else if u16_at bs 10 = 3 then Inr Commit else if u16_at bs 10 = 4 then Inr File
     else Inl (InvalidData ''manifest page kind''))"

definition Page_validate :: "Page \<Rightarrow> u64 \<Rightarrow> u64 \<Rightarrow> unit result" where
  "Page_validate p offset image_bytes =
    (case pg_kind p of
       Leaf \<Rightarrow> Page_validate_leaf p (image_bytes div BLOCK)
     | Branch \<Rightarrow> Page_validate_branch p (image_bytes div BLOCK)
     | File \<Rightarrow>
         ensure (Page_level p = 0 \<and> pg_count p = 0) (InvalidData ''manifest FILE shape'')
        (ensure (subrange (pg_bytes p) 64 16 \<noteq> replicate 16 0 \<and> u64_at (pg_bytes p) 80 = image_bytes)
           (InvalidData ''manifest FILE identity/capacity'')
        (ensure (all_zero (drop 88 (pg_bytes p))) (InvalidData ''manifest FILE reserved bytes'')
        (Inr ())))
     | Commit \<Rightarrow>
         attempt (Page_commit p) (\<lambda>c.
           ensure (pg_count p = 0 \<and> cm_image_bytes c = image_bytes)
             (InvalidData ''manifest COMMIT shape/capacity'')
          (attempt (Commit_validate c offset) (\<lambda>_.
             ensure (all_zero (drop 128 (pg_bytes p))) (InvalidData ''manifest COMMIT reserved bytes'')
            (Inr ())))))"

definition Page_decode :: "(bytes \<Rightarrow> u32) \<Rightarrow> bytes \<Rightarrow> u64 \<Rightarrow> u64 \<Rightarrow> Page result" where
  "Page_decode crc bs offset image_bytes =
     ensure (length bs = BLOCK_SIZE) (InvalidData ''manifest page size'')
    (ensure (subrange bs 0 8 = ascii ''CASMAN02'' \<and> u16_at bs 8 = 2) (InvalidData ''manifest page version'')
    (ensure (u32_at bs 56 = checksum crc bs 56) (InvalidData ''manifest page CRC'')
    (ensure (u64_at bs 16 = offset \<and> is_multiple_of offset BLOCK) (InvalidData ''manifest page address'')
    (ensure (image_bytes \<noteq> 0 \<and> is_multiple_of image_bytes BLOCK) (InvalidData ''manifest image capacity'')
    (ensure (all_zero (subrange bs 24 (56 - 24)) \<and> u32_at bs 60 = 0) (InvalidData ''manifest reserved header'')
    (attempt (page_kind_at bs) (\<lambda>kind.
       ensure ((kind = File) = (offset = 0)) (InvalidData ''manifest file/page address'')
      (let p = \<lparr>pg_bytes = bs, pg_kind = kind, pg_count = unat (u16_at bs 14)\<rparr>
       in attempt (Page_validate p offset image_bytes) (\<lambda>_. Inr p)))))))))"

definition FileHeader_decode :: "(bytes \<Rightarrow> u32) \<Rightarrow> bytes \<Rightarrow> FileHeader result" where
  "FileHeader_decode crc bs =
     ensure (length bs = BLOCK_SIZE) (InvalidData ''manifest FILE length'')
    (let image_bytes = u64_at bs 80 in
     attempt (Page_decode crc bs 0 image_bytes) (\<lambda>p.
       ensure (pg_kind p = File) (InvalidData ''expected manifest FILE'')
         (Inr \<lparr>fh_store = subrange bs 64 16, fh_image_bytes = image_bytes\<rparr>)))"

section \<open>Encoding\<close>

definition page_start :: "bytes \<Rightarrow> PageKind \<Rightarrow> u64 \<Rightarrow> u16 \<Rightarrow> nat \<Rightarrow> bytes result" where
  "page_start out kind offset level count =
     ensure (length out = BLOCK_SIZE) (InvalidData ''manifest output page size'')
    (let bs = replicate (length out) 0;
         bs = overwrite bs 0 (ascii ''CASMAN02'');
         bs = put16 bs 8 2;
         bs = put16 bs 10 (page_kind_u16 kind);
         bs = put16 bs 12 level;
         bs = put16 bs 14 (word_of_nat count)
     in Inr (put64 bs 16 offset))"

definition page_finish :: "(bytes \<Rightarrow> u32) \<Rightarrow> bytes \<Rightarrow> u64 \<Rightarrow> u64 \<Rightarrow> bytes result" where
  "page_finish crc bs offset image_bytes =
    (let bs = put_checksum crc bs 56
     in attempt (Page_decode crc bs offset image_bytes) (\<lambda>_. Inr bs))"

definition extent_slot :: "Extent \<Rightarrow> bytes \<Rightarrow> bytes" where
  "extent_slot e slot =
    (let slot = put64 slot 0 (ex_start e);
         slot = put64 slot 8 (ex_end e);
         slot = (case ex_hash e of None \<Rightarrow> slot | Some hash \<Rightarrow> overwrite slot 16 hash)
     in put16 slot 52 (if ex_hash e \<noteq> None then 1 else 2))"

definition leaf_into :: "(bytes \<Rightarrow> u32) \<Rightarrow> bytes \<Rightarrow> u64 \<Rightarrow> u64 \<Rightarrow> Extent list \<Rightarrow> bytes result" where
  "leaf_into crc out offset image_bytes extents =
     ensure (length extents \<le> LEAF_CAPACITY) (InvalidData ''manifest leaf capacity'')
    (attempt (page_start out Leaf offset 0 (length extents)) (\<lambda>bs.
       page_finish crc (write_slots 64 extent_slot 0 extents bs) offset image_bytes))"

definition child_slot :: "Child \<Rightarrow> bytes \<Rightarrow> bytes" where
  "child_slot c slot = put64 (put64 slot 0 (ci_start c)) 8 (ci_offset c)"

definition branch_into :: "(bytes \<Rightarrow> u32) \<Rightarrow> bytes \<Rightarrow> u64 \<Rightarrow> u64 \<Rightarrow> u16 \<Rightarrow> Child list \<Rightarrow> bytes result" where
  "branch_into crc out offset image_bytes level children =
     ensure (length children \<le> BRANCH_CAPACITY) (InvalidData ''manifest branch capacity'')
    (attempt (page_start out Branch offset level (length children)) (\<lambda>bs.
       page_finish crc (write_slots 16 child_slot 0 children bs) offset image_bytes))"

definition FileHeader_encode_into :: "(bytes \<Rightarrow> u32) \<Rightarrow> FileHeader \<Rightarrow> bytes \<Rightarrow> bytes result" where
  "FileHeader_encode_into crc h out =
     attempt (page_start out File 0 0 0) (\<lambda>bs.
       let bs = overwrite bs 64 (fh_store h);
           bs = put64 bs 80 (fh_image_bytes h)
       in page_finish crc bs 0 (fh_image_bytes h))"

definition Commit_encode_into :: "(bytes \<Rightarrow> u32) \<Rightarrow> Commit \<Rightarrow> bytes \<Rightarrow> u64 \<Rightarrow> bytes result" where
  "Commit_encode_into crc c out offset =
     attempt (page_start out Commit offset (rt_height (cm_root c)) 0) (\<lambda>bs.
       let bs = overwrite bs 64 (cm_store c);
           bs = overwrite bs 80 (cm_image c);
           bs = put64 bs 96 (cm_generation c);
           bs = put64 bs 104 (rt_offset (cm_root c));
           bs = put64 bs 112 (cm_durable c);
           bs = put64 bs 120 (cm_image_bytes c)
       in page_finish crc bs offset (cm_image_bytes c))"

section \<open>The page head\<close>

abbreviation page_head_fields :: "u16 \<Rightarrow> u16 \<Rightarrow> u16 \<Rightarrow> u64 \<Rightarrow> (nat \<times> bytes) list" where
  "page_head_fields kind level count offset \<equiv>
     [(0, ascii ''CASMAN02''), (8, le_of_nat 2 2), (10, le_of_nat 2 (unat kind)),
      (12, le_of_nat 2 (unat level)), (14, le_of_nat 2 (unat count)), (16, le_of_nat 8 (unat offset))]"

definition page_head :: "PageKind \<Rightarrow> u16 \<Rightarrow> nat \<Rightarrow> u64 \<Rightarrow> bytes" where
  "page_head kind level n offset =
     write_fields (replicate 4096 0) (page_head_fields (page_kind_u16 kind) level (word_of_nat n) offset)"

lemma page_start_head:
  "page_start out kind offset level n = Inr bs \<longleftrightarrow>
   length out = 4096 \<and> bs = page_head kind level n offset"
  by (auto simp: page_start_def page_head_def BLOCK_SIZE_def Let_def write_fields_def put16_def put64_def)

lemma length_page_head [simp]: "length (page_head kind level n offset) = 4096"
proof -
  let ?z = "replicate 4096 (0 :: byte)"
  let ?fs = "page_head_fields (page_kind_u16 kind) level (word_of_nat n) offset"
  have ok: "fields_ok 0 (length ?z) ?fs" by simp
  show ?thesis using length_write_fields [OF ok] by (simp only: page_head_def) simp
qed

lemma page_head_body:
  assumes "64 \<le> off" and "off + m \<le> 4096"
  shows "subrange (page_head kind level n offset) off m = replicate m 0"
proof -
  let ?z = "replicate 4096 (0 :: byte)"
  let ?fs = "page_head_fields (page_kind_u16 kind) level (word_of_nat n) offset"
  have ok: "fields_ok 0 (length ?z) ?fs" by simp
  show ?thesis unfolding page_head_def using assms
    by (subst read_gap [OF ok]) (auto simp: subrange_replicate)
qed

lemma page_head_slots: "slots_at w 4096 (page_head kind level n offset) []"
  by (simp add: slots_at_def page_head_body)

lemma get_prefix:
  assumes "subrange bs 0 64 = subrange cs 0 64"
  shows "off + 2 \<le> 64 \<Longrightarrow> u16_at bs off = u16_at cs off"
    and "off + 4 \<le> 64 \<Longrightarrow> u32_at bs off = u32_at cs off"
    and "off + 8 \<le> 64 \<Longrightarrow> u64_at bs off = u64_at cs off"
    and "off + m \<le> 64 \<Longrightarrow> subrange bs off m = subrange cs off m"
  using f16.get_subrange [of off 64 bs 0] f16.get_subrange [of off 64 cs 0]
    f32.get_subrange [of off 64 bs 0] f32.get_subrange [of off 64 cs 0]
    f64.get_subrange [of off 64 bs 0] f64.get_subrange [of off 64 cs 0]
    subrange_subrange [of off m 64 bs 0] subrange_subrange [of off m 64 cs 0] assms
  by auto

lemma page_head_layout:
  fixes crc
  assumes len: "length bs = 4096"
    and head: "subrange bs 0 64 = subrange (page_head kind level n offset) 0 64"
    and n: "n < 2 ^ 16"
  defines "p \<equiv> put_checksum crc bs 56"
  shows "length p = 4096" and "subrange p 0 8 = ascii ''CASMAN02''" and "u16_at p 8 = 2"
    and "u16_at p 10 = page_kind_u16 kind" and "u16_at p 12 = level" and "unat (u16_at p 14) = n"
    and "u64_at p 16 = offset" and "u32_at p 56 = checksum crc p 56"
    and "subrange p 24 32 = replicate 32 0" and "u32_at p 60 = 0"
    and "64 \<le> off \<Longrightarrow> subrange p off m = subrange bs off m"
proof -
  define k where "k = page_kind_u16 kind"
  define c :: u16 where "c = word_of_nat n"
  let ?z = "replicate 4096 (0 :: byte)" and ?fs = "page_head_fields k level c offset"
  have ok: "fields_ok 0 (length ?z) ?fs" by simp
  have hd: "page_head kind level n offset = write_fields ?z ?fs" by (simp add: page_head_def k_def c_def)
  note pre = get_prefix [OF head [unfolded hd]]
  note facts = p_def codec pre field_reads [OF ok] field_gaps [OF ok]
  show "length p = 4096" using len by (simp add: p_def)
  show "subrange p 0 8 = ascii ''CASMAN02''" "u16_at p 8 = 2" "u16_at p 12 = level" "u64_at p 16 = offset"
    "subrange p 24 32 = replicate 32 0" "u32_at p 60 = 0"
    using len by (simp_all add: facts)
  have "u16_at p 10 = k" "u16_at p 14 = c" using len by (simp_all add: facts)
  then show "u16_at p 10 = page_kind_u16 kind" "unat (u16_at p 14) = n"
    using n by (simp_all add: k_def c_def unat_of_nat)
  show "u32_at p 56 = checksum crc p 56" using len by (simp add: p_def put_checksum_verifies)
  show "subrange p off m = subrange bs off m" if "64 \<le> off"
    using len that by (simp add: p_def subrange_put_checksum)
qed

lemma page_kind_at_ok: "u16_at bs 10 = page_kind_u16 kind \<Longrightarrow> page_kind_at bs = Inr kind"
  by (cases kind) (simp_all add: page_kind_at_def)

text \<open>Decoding a page the encoders started reduces to validating its contents.\<close>

lemma page_finish_iff:
  fixes crc
  assumes "length bs = 4096" and "subrange bs 0 64 = subrange (page_head kind level n offset) 0 64"
    and "n < 2 ^ 16"
  defines "p \<equiv> put_checksum crc bs 56"
  defines "pg \<equiv> \<lparr>pg_bytes = p, pg_kind = kind, pg_count = n\<rparr>"
  shows "Page_decode crc p offset image_bytes = Inr q \<longleftrightarrow>
           q = pg \<and> is_multiple_of offset BLOCK \<and> image_bytes \<noteq> 0 \<and> is_multiple_of image_bytes BLOCK \<and>
           (kind = File) = (offset = 0) \<and> Page_validate pg offset image_bytes = Inr ()"
    and "page_finish crc bs offset image_bytes = Inr cs \<longleftrightarrow>
           cs = p \<and> is_multiple_of offset BLOCK \<and> image_bytes \<noteq> 0 \<and> is_multiple_of image_bytes BLOCK \<and>
           (kind = File) = (offset = 0) \<and> Page_validate pg offset image_bytes = Inr ()"
proof -
  note lay = page_head_layout [OF assms(1,2,3), where crc = crc, folded p_def]
  show dec: "Page_decode crc p offset image_bytes = Inr q \<longleftrightarrow>
           q = pg \<and> is_multiple_of offset BLOCK \<and> image_bytes \<noteq> 0 \<and> is_multiple_of image_bytes BLOCK \<and>
           (kind = File) = (offset = 0) \<and> Page_validate pg offset image_bytes = Inr ()" for q
    using lay
    by (auto simp: Page_decode_def page_kind_at_ok pg_def BLOCK_SIZE_def Let_def)
  show "page_finish crc bs offset image_bytes = Inr cs \<longleftrightarrow>
           cs = p \<and> is_multiple_of offset BLOCK \<and> image_bytes \<noteq> 0 \<and> is_multiple_of image_bytes BLOCK \<and>
           (kind = File) = (offset = 0) \<and> Page_validate pg offset image_bytes = Inr ()"
    using dec by (auto simp: page_finish_def p_def Let_def)
qed

section \<open>Page contents\<close>

definition Extent_typed :: "Extent \<Rightarrow> bool" where
  "Extent_typed e \<longleftrightarrow> (case ex_hash e of None \<Rightarrow> True | Some h \<Rightarrow> length h = 32)"

text \<open>Extents in range, nonempty, disjoint and ascending; a stored chunk covers one block.\<close>

definition extent_ok :: "u64 \<Rightarrow> Extent \<Rightarrow> bool" where
  "extent_ok blocks e \<longleftrightarrow> ex_start e < ex_end e \<and> ex_end e \<le> blocks \<and>
     (ex_hash e \<noteq> None \<longrightarrow> ex_end e - ex_start e = 1)"

definition extents_ok :: "u64 \<Rightarrow> Extent list \<Rightarrow> bool" where
  "extents_ok blocks es \<longleftrightarrow>
     (\<forall>e \<in> set es. extent_ok blocks e) \<and> sorted_wrt (\<lambda>a b. ex_end a \<le> ex_start b) es"

definition leaf_valid :: "u64 \<Rightarrow> u64 \<Rightarrow> Extent list \<Rightarrow> bool" where
  "leaf_valid offset image_bytes es \<longleftrightarrow>
     page_offset offset \<and> image_bytes \<noteq> 0 \<and> is_multiple_of image_bytes BLOCK \<and>
     1 \<le> length es \<and> length es \<le> 63 \<and> extents_ok (image_bytes div BLOCK) es"

text \<open>Children start at ascending blocks and lie strictly below their parent in the file.\<close>

definition children_ok :: "u64 \<Rightarrow> u64 \<Rightarrow> Child list \<Rightarrow> bool" where
  "children_ok blocks offset cs \<longleftrightarrow>
     (\<forall>c \<in> set cs. ci_start c < blocks \<and> page_offset (ci_offset c) \<and> ci_offset c < offset) \<and>
     sorted_wrt (<) (map ci_start cs)"

definition branch_valid :: "u64 \<Rightarrow> u64 \<Rightarrow> u16 \<Rightarrow> Child list \<Rightarrow> bool" where
  "branch_valid offset image_bytes level cs \<longleftrightarrow>
     page_offset offset \<and> image_bytes \<noteq> 0 \<and> is_multiple_of image_bytes BLOCK \<and>
     1 \<le> level \<and> level < 8 \<and> 1 \<le> length cs \<and> length cs \<le> 252 \<and>
     children_ok (image_bytes div BLOCK) offset cs"

text \<open>The extent loop on arbitrary slots: what it checks beyond the decoded extents.\<close>

definition slot_ok :: "bytes \<Rightarrow> bool" where
  "slot_ok s \<longleftrightarrow> u32_at s 48 = 0 \<and> all_zero (drop 54 s) \<and>
     (u16_at s 52 = 1 \<or> u16_at s 52 = 2 \<and> subrange s 16 32 = replicate 32 0)"

lemma check_extents_iff:
  "check_extents blocks lo slots = Inr () \<longleftrightarrow>
   (\<forall>s \<in> set slots. slot_ok s) \<and> extents_ok blocks (map Extent_decode slots) \<and>
   (\<forall>s \<in> set slots. lo \<le> ex_start (Extent_decode s))"
proof (induction slots arbitrary: lo)
  case (Cons s slots)
  let ?e = "Extent_decode s"
  have hash: "ex_hash ?e \<noteq> None \<longleftrightarrow> u16_at s 52 = 1" by (simp add: Extent_decode_def)
  have step: "check_extents blocks lo (s # slots) = Inr () \<longleftrightarrow>
      slot_ok s \<and> extent_ok blocks ?e \<and> lo \<le> ex_start ?e \<and>
      check_extents blocks (ex_end ?e) slots = Inr ()"
    using hash by (auto simp: slot_ok_def extent_ok_def Let_def)
  show ?case
    unfolding step Cons.IH by (force simp: extents_ok_def extent_ok_def)
qed (simp add: extents_ok_def)

lemma check_children_iff:
  fixes slots :: "bytes list"
  defines "dec \<equiv> \<lambda>slot. \<lparr>ci_start = u64_at slot 0, ci_offset = u64_at slot 8\<rparr>"
  shows "check_children blocks offset previous slots = Inr () \<longleftrightarrow>
   children_ok blocks offset (map dec slots) \<and>
   (\<forall>s \<in> set slots. case previous of None \<Rightarrow> True | Some v \<Rightarrow> v < u64_at s 0)"
proof (induction slots arbitrary: previous)
  case (Cons s slots)
  show ?case
    using Cons.IH [of "Some (u64_at s 0)"]
    by (cases previous) (force simp: children_ok_def dec_def Let_def)+
qed (simp add: children_ok_def)

lemma extent_slot_layout:
  assumes "Extent_typed e"
  defines "s \<equiv> extent_slot e (replicate 64 0)"
  shows "length s = 64" and "Extent_decode s = e" and "slot_ok s"
proof -
  define h where "h = (case ex_hash e of None \<Rightarrow> replicate 32 0 | Some h \<Rightarrow> h)"
  define k :: u16 where "k = (if ex_hash e \<noteq> None then 1 else 2)"
  let ?z = "replicate 64 (0 :: byte)"
  let ?fs = "[(0, le_of_nat 8 (unat (ex_start e))), (8, le_of_nat 8 (unat (ex_end e))), (16, h),
              (52, le_of_nat 2 (unat k))]"
  have hl: "length h = 32" using assms(1) by (auto simp: Extent_typed_def h_def split: option.splits)
  have ok: "fields_ok 0 (length ?z) ?fs" using hl by simp
  have "overwrite (overwrite (overwrite ?z 0 (le_of_nat 8 a)) 8 (le_of_nat 8 b)) 16 (replicate 32 0) =
        overwrite (overwrite ?z 0 (le_of_nat 8 a)) 8 (le_of_nat 8 b)" for a b
    by (simp add: overwrite_def flip: replicate_add)
  then have s: "s = write_fields ?z ?fs"
    by (auto simp: s_def extent_slot_def write_fields_def put64_def put16_def Let_def h_def k_def
        split: option.splits)
  note reads = field_reads [OF ok]
  show len: "length s = 64" using length_write_fields [OF ok] by (simp add: s)
  have r: "u64_at s 0 = ex_start e" "u64_at s 8 = ex_end e" "subrange s 16 32 = h" "u16_at s 52 = k"
    using hl by (simp_all add: s reads)
  show "Extent_decode s = e"
    using r by (cases "ex_hash e") (simp_all add: Extent_decode_def k_def h_def)
  have "subrange s 54 10 = replicate 10 0" "u32_at s 48 = 0"
    using hl by (simp_all add: s field_gaps [OF ok] subrange_replicate f32.get_zeros)
  then show "slot_ok s"
    using r len by (cases "ex_hash e") (simp_all add: slot_ok_def k_def h_def subrange_def all_zero_iff)
qed

lemma child_slot_layout:
  defines "s c \<equiv> child_slot c (replicate 16 0)"
  shows "length (s c) = 16" and "u64_at (s c) 0 = ci_start c" and "u64_at (s c) 8 = ci_offset c"
  by (simp_all add: s_def child_slot_def codec)

lemma length_extent_slot:
  "Extent_typed e \<Longrightarrow> length s = 64 \<Longrightarrow> length (extent_slot e s) = 64"
  by (auto simp: extent_slot_def Extent_typed_def Let_def codec split: option.splits)

lemma leaf_body:
  fixes offset
  assumes "\<forall>e \<in> set es. Extent_typed e" and "length es \<le> 63"
  defines "bs \<equiv> write_slots 64 extent_slot 0 es (page_head Leaf 0 (length es) offset)"
  shows "length bs = 4096" and "subrange bs 0 64 = subrange (page_head Leaf 0 (length es) offset) 0 64"
    and "slots_at 64 4096 bs (map (\<lambda>e. extent_slot e (replicate 64 0)) es)"
proof -
  let ?h = "page_head Leaf 0 (length es) offset"
  have fit: "64 + 64 * (0 + length es) \<le> length ?h" using assms(2) by simp
  show "length bs = 4096" "subrange bs 0 64 = subrange ?h 0 64"
    using write_slots_frame [OF fit, of extent_slot] length_extent_slot assms(1) by (simp_all add: bs_def)
  show "slots_at 64 4096 bs (map (\<lambda>e. extent_slot e (replicate 64 0)) es)"
    unfolding bs_def
    using slots_at_write_slots [OF page_head_slots, of 0 64 es extent_slot] assms(1,2) extent_slot_layout(1)
    by auto
qed

lemma leaf_validates:
  fixes crc and offset
  assumes es: "\<forall>e \<in> set es. Extent_typed e" and n: "length es \<le> 63"
  defines "p \<equiv> put_checksum crc (write_slots 64 extent_slot 0 es (page_head Leaf 0 (length es) offset)) 56"
  defines "pg \<equiv> \<lparr>pg_bytes = p, pg_kind = Leaf, pg_count = length es\<rparr>"
  shows "Page_validate pg offset image_bytes = Inr () \<longleftrightarrow>
           1 \<le> length es \<and> extents_ok (image_bytes div BLOCK) es"
    and "Page_extents pg = Inr es"
proof -
  let ?ss = "map (\<lambda>e. extent_slot e (replicate 64 0)) es"
  note body = leaf_body [OF es n, of offset]
  have n': "length es < 2 ^ 16" using n by simp
  note lay = page_head_layout [OF body(1,2) n', where crc = crc, folded p_def]
  have sl: "slots_at 64 4096 p ?ss" unfolding p_def by (rule slots_at_checksum [OF body(3)]) simp
  have ch: "chunks 64 (subrange p 64 (64 * length es)) = ?ss" using slots_at_chunks [OF sl] by simp
  have tail: "all_zero (drop (64 + 64 * length es) p)"
    using slots_at_tail_drop [of 64 p ?ss] sl lay(1) by simp
  have dec: "map Extent_decode ?ss = es" and ok: "\<forall>s \<in> set ?ss. slot_ok s"
    using es extent_slot_layout by (auto simp: map_idI)
  have chk: "check_extents (image_bytes div BLOCK) 0 ?ss = Inr () \<longleftrightarrow> extents_ok (image_bytes div BLOCK) es"
    unfolding check_extents_iff dec using ok by simp
  show "Page_validate pg offset image_bytes = Inr () \<longleftrightarrow>
           1 \<le> length es \<and> extents_ok (image_bytes div BLOCK) es"
    using lay(5) ch tail chk n
    by (simp add: pg_def Page_validate_def Page_validate_leaf_def Page_level_def LEAF_CAPACITY_def
        Let_def mult.commute)
  show "Page_extents pg = Inr es" using ch dec by (simp add: pg_def Page_extents_def del: map_map)
qed

lemma leaf_into_iff:
  assumes es: "\<forall>e \<in> set es. Extent_typed e" and out: "length out = 4096"
  shows "(\<exists>bs. leaf_into crc out offset image_bytes es = Inr bs) \<longleftrightarrow> leaf_valid offset image_bytes es"
    and "leaf_into crc out offset image_bytes es = Inr bs \<Longrightarrow>
         \<exists>pg. Page_decode crc bs offset image_bytes = Inr pg \<and> pg_kind pg = Leaf \<and>
              Page_level pg = 0 \<and> Page_extents pg = Inr es"
proof -
  let ?bs = "write_slots 64 extent_slot 0 es (page_head Leaf 0 (length es) offset)"
  let ?p = "put_checksum crc ?bs 56"
  let ?pg = "\<lparr>pg_bytes = ?p, pg_kind = Leaf, pg_count = length es\<rparr>"
  have into: "leaf_into crc out offset image_bytes es = Inr bs \<longleftrightarrow>
      length es \<le> 63 \<and> page_finish crc ?bs offset image_bytes = Inr bs" for bs
    using out by (auto simp: leaf_into_def page_start_head LEAF_CAPACITY_def)
  have n': "length es \<le> 63 \<Longrightarrow> length es < 2 ^ 16" by simp
  note fin = page_finish_iff [OF leaf_body(1,2) [OF es] n', where crc = crc]
  have eq: "page_finish crc ?bs offset image_bytes = Inr bs \<longleftrightarrow> bs = ?p \<and> leaf_valid offset image_bytes es"
    if "length es \<le> 63" for bs
    using that by (auto simp: fin leaf_validates [OF es] leaf_valid_def page_offset_def)
  have all: "leaf_into crc out offset image_bytes es = Inr bs \<longleftrightarrow> bs = ?p \<and> leaf_valid offset image_bytes es" for bs
    using into eq by (cases "length es \<le> 63") (auto simp: leaf_valid_def)
  then show "(\<exists>bs. leaf_into crc out offset image_bytes es = Inr bs) \<longleftrightarrow> leaf_valid offset image_bytes es"
    by simp
  assume "leaf_into crc out offset image_bytes es = Inr bs"
  then have bs: "bs = ?p" and v: "leaf_valid offset image_bytes es" by (auto simp: all)
  then have n: "length es \<le> 63" by (simp add: leaf_valid_def)
  have "Page_decode crc bs offset image_bytes = Inr ?pg"
    using v by (auto simp: bs fin [OF n n n] leaf_validates [OF es n] leaf_valid_def page_offset_def)
  moreover have "Page_level ?pg = 0"
    using page_head_layout(5) [OF leaf_body(1,2) [OF es n] n' [OF n], where crc = crc]
    by (simp add: Page_level_def)
  ultimately show "\<exists>pg. Page_decode crc bs offset image_bytes = Inr pg \<and> pg_kind pg = Leaf \<and>
              Page_level pg = 0 \<and> Page_extents pg = Inr es"
    using leaf_validates(2) [OF es n] by auto
qed

lemma branch_body:
  fixes offset and level
  assumes "length cs \<le> 252"
  defines "bs \<equiv> write_slots 16 child_slot 0 cs (page_head Branch level (length cs) offset)"
  shows "length bs = 4096" and "subrange bs 0 64 = subrange (page_head Branch level (length cs) offset) 0 64"
    and "slots_at 16 4096 bs (map (\<lambda>c. child_slot c (replicate 16 0)) cs)"
proof -
  let ?h = "page_head Branch level (length cs) offset"
  have fit: "64 + 16 * (0 + length cs) \<le> length ?h" using assms(1) by simp
  have "length (child_slot c s) = 16" if "length s = 16" for c s
    using that by (simp add: child_slot_def)
  then show "length bs = 4096" "subrange bs 0 64 = subrange ?h 0 64"
    using write_slots_frame [OF fit, of child_slot] by (simp_all add: bs_def)
  show "slots_at 16 4096 bs (map (\<lambda>c. child_slot c (replicate 16 0)) cs)"
    unfolding bs_def
    using slots_at_write_slots [OF page_head_slots, of 0 16 cs child_slot] assms(1) child_slot_layout(1)
    by auto
qed

lemma branch_validates:
  fixes crc and offset and level
  assumes n: "length cs \<le> 252"
  defines "p \<equiv> put_checksum crc (write_slots 16 child_slot 0 cs (page_head Branch level (length cs) offset)) 56"
  defines "pg \<equiv> \<lparr>pg_bytes = p, pg_kind = Branch, pg_count = length cs\<rparr>"
  shows "Page_validate pg offset image_bytes = Inr () \<longleftrightarrow>
           1 \<le> level \<and> level < 8 \<and> 1 \<le> length cs \<and> children_ok (image_bytes div BLOCK) offset cs"
    and "Page_children pg = Inr cs" and "Page_level pg = level"
proof -
  let ?ss = "map (\<lambda>c. child_slot c (replicate 16 0)) cs"
  note body = branch_body [OF n, of level offset]
  have n': "length cs < 2 ^ 16" using n by simp
  note lay = page_head_layout [OF body(1,2) n', where crc = crc, folded p_def]
  have sl: "slots_at 16 4096 p ?ss" unfolding p_def by (rule slots_at_checksum [OF body(3)]) simp
  have ch: "chunks 16 (subrange p 64 (16 * length cs)) = ?ss" using slots_at_chunks [OF sl] by simp
  have tail: "all_zero (drop (64 + 16 * length cs) p)"
    using slots_at_tail_drop [of 16 p ?ss] sl lay(1) by simp
  have dec: "map (\<lambda>slot. \<lparr>ci_start = u64_at slot 0, ci_offset = u64_at slot 8\<rparr>) ?ss = cs"
    by (simp add: comp_def child_slot_layout map_idI)
  have chk: "check_children (image_bytes div BLOCK) offset None ?ss = Inr () \<longleftrightarrow>
      children_ok (image_bytes div BLOCK) offset cs"
    unfolding check_children_iff dec by simp
  show lvl: "Page_level pg = level" using lay(5) by (simp add: pg_def Page_level_def)
  show "Page_validate pg offset image_bytes = Inr () \<longleftrightarrow>
           1 \<le> level \<and> level < 8 \<and> 1 \<le> length cs \<and> children_ok (image_bytes div BLOCK) offset cs"
    using lvl lay(7) ch tail chk n
    by (auto simp: pg_def Page_validate_def Page_validate_branch_def Page_offset_def BRANCH_CAPACITY_def
        MAX_HEIGHT_def Let_def mult.commute)
  show "Page_children pg = Inr cs" using ch dec by (simp add: pg_def Page_children_def del: map_map)
qed

lemma branch_into_iff:
  assumes out: "length out = 4096"
  shows "(\<exists>bs. branch_into crc out offset image_bytes level cs = Inr bs) \<longleftrightarrow>
         branch_valid offset image_bytes level cs"
    and "branch_into crc out offset image_bytes level cs = Inr bs \<Longrightarrow>
         \<exists>pg. Page_decode crc bs offset image_bytes = Inr pg \<and> pg_kind pg = Branch \<and>
              Page_level pg = level \<and> Page_children pg = Inr cs"
proof -
  let ?bs = "write_slots 16 child_slot 0 cs (page_head Branch level (length cs) offset)"
  let ?p = "put_checksum crc ?bs 56"
  let ?pg = "\<lparr>pg_bytes = ?p, pg_kind = Branch, pg_count = length cs\<rparr>"
  have into: "branch_into crc out offset image_bytes level cs = Inr bs \<longleftrightarrow>
      length cs \<le> 252 \<and> page_finish crc ?bs offset image_bytes = Inr bs" for bs
    using out by (auto simp: branch_into_def page_start_head BRANCH_CAPACITY_def)
  have n': "length cs \<le> 252 \<Longrightarrow> length cs < 2 ^ 16" by simp
  note fin = page_finish_iff [OF branch_body(1,2) n', where crc = crc]
  have eq: "page_finish crc ?bs offset image_bytes = Inr bs \<longleftrightarrow>
      bs = ?p \<and> branch_valid offset image_bytes level cs" if "length cs \<le> 252" for bs
    using that by (auto simp: fin branch_validates branch_valid_def page_offset_def)
  have all: "branch_into crc out offset image_bytes level cs = Inr bs \<longleftrightarrow>
      bs = ?p \<and> branch_valid offset image_bytes level cs" for bs
    using into eq by (cases "length cs \<le> 252") (auto simp: branch_valid_def)
  then show "(\<exists>bs. branch_into crc out offset image_bytes level cs = Inr bs) \<longleftrightarrow>
      branch_valid offset image_bytes level cs" by simp
  assume "branch_into crc out offset image_bytes level cs = Inr bs"
  then have bs: "bs = ?p" and v: "branch_valid offset image_bytes level cs" by (auto simp: all)
  then have n: "length cs \<le> 252" by (simp add: branch_valid_def)
  have "Page_decode crc bs offset image_bytes = Inr ?pg"
    using v by (auto simp: bs fin [OF n n n] branch_validates [OF n] branch_valid_def page_offset_def)
  then show "\<exists>pg. Page_decode crc bs offset image_bytes = Inr pg \<and> pg_kind pg = Branch \<and>
              Page_level pg = level \<and> Page_children pg = Inr cs"
    using branch_validates(2,3) [OF n] by auto
qed

section \<open>COMMIT and FILE pages\<close>

definition Commit_typed :: "Commit \<Rightarrow> bool" where
  "Commit_typed c \<longleftrightarrow> length (cm_store c) = 16 \<and> length (cm_image c) = 16"

definition FileHeader_typed :: "FileHeader \<Rightarrow> bool" where
  "FileHeader_typed h \<longleftrightarrow> length (fh_store h) = 16"

lemma commit_body:
  fixes offset
  assumes "Commit_typed c"
  defines "h \<equiv> page_head Commit (rt_height (cm_root c)) 0 offset"
  defines "fs \<equiv> [(64, cm_store c), (80, cm_image c), (96, le_of_nat 8 (unat (cm_generation c))),
     (104, le_of_nat 8 (unat (rt_offset (cm_root c)))), (112, le_of_nat 8 (unat (cm_durable c))),
     (120, le_of_nat 8 (unat (cm_image_bytes c)))]"
  shows "length (write_fields h fs) = 4096" and "subrange (write_fields h fs) 0 64 = subrange h 0 64"
    and "subrange (write_fields h fs) 64 16 = cm_store c" and "subrange (write_fields h fs) 80 16 = cm_image c"
    and "u64_at (write_fields h fs) 96 = cm_generation c"
    and "u64_at (write_fields h fs) 104 = rt_offset (cm_root c)"
    and "u64_at (write_fields h fs) 112 = cm_durable c"
    and "u64_at (write_fields h fs) 120 = cm_image_bytes c"
    and "subrange (write_fields h fs) 128 3968 = replicate 3968 0"
proof -
  have ids: "length (cm_store c) = 16" "length (cm_image c) = 16" using assms by (simp_all add: Commit_typed_def)
  have ok: "fields_ok 0 (length h) fs" using ids by (simp add: h_def fs_def)
  note r = field_reads [OF ok, unfolded fs_def] field_gaps [OF ok, unfolded fs_def]
  show "length (write_fields h fs) = 4096" using length_write_fields [OF ok] by (simp add: h_def)
  show "subrange (write_fields h fs) 0 64 = subrange h 0 64"
    "subrange (write_fields h fs) 64 16 = cm_store c" "subrange (write_fields h fs) 80 16 = cm_image c"
    "u64_at (write_fields h fs) 96 = cm_generation c" "u64_at (write_fields h fs) 104 = rt_offset (cm_root c)"
    "u64_at (write_fields h fs) 112 = cm_durable c" "u64_at (write_fields h fs) 120 = cm_image_bytes c"
    unfolding fs_def using ids by (simp_all add: r)
  show "subrange (write_fields h fs) 128 3968 = replicate 3968 0"
    unfolding fs_def using ids by (simp add: r) (simp add: h_def page_head_body)
qed

lemma commit_into_iff:
  assumes typed: "Commit_typed c" and out: "length out = 4096"
  shows "(\<exists>bs. Commit_encode_into crc c out offset = Inr bs) \<longleftrightarrow> Commit_validate c offset = Inr ()"
    and "Commit_encode_into crc c out offset = Inr bs \<Longrightarrow>
         \<exists>pg. Page_decode crc bs offset (cm_image_bytes c) = Inr pg \<and> Page_commit pg = Inr c"
proof -
  let ?h = "page_head Commit (rt_height (cm_root c)) 0 offset"
  let ?bs = "write_fields ?h [(64, cm_store c), (80, cm_image c), (96, le_of_nat 8 (unat (cm_generation c))),
     (104, le_of_nat 8 (unat (rt_offset (cm_root c)))), (112, le_of_nat 8 (unat (cm_durable c))),
     (120, le_of_nat 8 (unat (cm_image_bytes c)))]"
  let ?p = "put_checksum crc ?bs 56"
  let ?pg = "\<lparr>pg_bytes = ?p, pg_kind = Commit, pg_count = 0\<rparr>"
  note body = commit_body [OF typed, of offset]
  have n: "(0 :: nat) < 2 ^ 16" by simp
  note lay = page_head_layout [OF body(1,2) n, where crc = crc]
  have lvl: "u16_at ?p 12 = rt_height (cm_root c)" by (rule lay(5))
  have far: "subrange ?p off m = subrange ?bs off m" "64 \<le> off \<Longrightarrow> u64_at ?p off = u64_at ?bs off"
    if "64 \<le> off" for off m
    using lay(11) [OF that] by (auto intro: f64.get_local)
  have commit: "Page_commit ?pg = Inr c"
    using body lvl by (simp add: Page_commit_def Page_level_def far)
  have "subrange ?p 128 3968 = replicate 3968 0" using body(9) by (simp add: far)
  then have tail: "all_zero (drop 128 ?p)" using lay(1) by (simp add: subrange_def all_zero_iff)
  have valid: "Page_validate ?pg offset (cm_image_bytes c) = Inr () \<longleftrightarrow> Commit_validate c offset = Inr ()"
    using commit tail by (simp add: Page_validate_def)
  have v: "Commit_validate c offset = Inr () \<Longrightarrow> is_multiple_of offset BLOCK \<and> offset \<noteq> 0 \<and>
      cm_image_bytes c \<noteq> 0 \<and> is_multiple_of (cm_image_bytes c) BLOCK"
    by (simp add: Commit_validate_def page_offset_def)
  have into: "Commit_encode_into crc c out offset = page_finish crc ?bs offset (cm_image_bytes c)"
  proof -
    have "page_start out Commit offset (rt_height (cm_root c)) 0 = Inr ?h" using out by (simp add: page_start_head)
    then show ?thesis
      by (simp add: Commit_encode_into_def write_fields_def put64_def Let_def)
  qed
  note fin = page_finish_iff [OF body(1,2) n, where crc = crc]
  have all: "Commit_encode_into crc c out offset = Inr bs \<longleftrightarrow> bs = ?p \<and> Commit_validate c offset = Inr ()" for bs
    using v by (auto simp: into fin valid)
  then show "(\<exists>bs. Commit_encode_into crc c out offset = Inr bs) \<longleftrightarrow> Commit_validate c offset = Inr ()"
    by simp
  assume "Commit_encode_into crc c out offset = Inr bs"
  then have bs: "bs = ?p" and ok: "Commit_validate c offset = Inr ()" by (auto simp: all)
  then have "Page_decode crc bs offset (cm_image_bytes c) = Inr ?pg"
    using v [OF ok] by (auto simp: bs fin valid)
  then show "\<exists>pg. Page_decode crc bs offset (cm_image_bytes c) = Inr pg \<and> Page_commit pg = Inr c"
    using commit by blast
qed

lemma file_into_iff:
  assumes typed: "FileHeader_typed h" and out: "length out = 4096"
  shows "FileHeader_encode_into crc h out = Inr bs \<Longrightarrow> FileHeader_decode crc bs = Inr h"
    and "(\<exists>bs. FileHeader_encode_into crc h out = Inr bs) \<longleftrightarrow>
         fh_store h \<noteq> replicate 16 0 \<and> fh_image_bytes h \<noteq> 0 \<and> is_multiple_of (fh_image_bytes h) BLOCK"
proof -
  let ?h = "page_head File 0 0 0"
  let ?fs = "[(64, fh_store h), (80, le_of_nat 8 (unat (fh_image_bytes h)))]"
  let ?bs = "write_fields ?h ?fs" and ?p = "put_checksum crc (write_fields ?h ?fs) 56"
  let ?pg = "\<lparr>pg_bytes = ?p, pg_kind = File, pg_count = 0\<rparr>"
  have st: "length (fh_store h) = 16" using typed by (simp add: FileHeader_typed_def)
  have ok: "fields_ok 0 (length ?h) ?fs" using st by simp
  have len: "length ?bs = 4096" using length_write_fields [OF ok] by simp
  note r = field_reads [OF ok] field_gaps [OF ok]
  have body: "subrange ?bs 0 64 = subrange ?h 0 64" "subrange ?bs 64 16 = fh_store h"
    "u64_at ?bs 80 = fh_image_bytes h" "subrange ?bs 88 4008 = replicate 4008 0"
    using st by (simp_all add: r page_head_body)
  have n: "(0 :: nat) < 2 ^ 16" by simp
  note lay = page_head_layout [OF len body(1) n, where crc = crc]
  have p: "subrange ?p 64 16 = fh_store h" "u64_at ?p 80 = fh_image_bytes h" "subrange ?p 88 4008 = replicate 4008 0"
    using lay(11) body by (auto intro: trans [OF f64.get_local])
  then have tail: "all_zero (drop 88 ?p)" using lay(1) by (simp add: subrange_def all_zero_iff)
  have valid: "Page_validate ?pg 0 (fh_image_bytes h) = Inr () \<longleftrightarrow> fh_store h \<noteq> replicate 16 0"
    using tail p lay(5) by (simp add: Page_validate_def Page_level_def)
  have into: "FileHeader_encode_into crc h out = page_finish crc ?bs 0 (fh_image_bytes h)"
  proof -
    have "page_start out File 0 0 0 = Inr ?h" using out by (simp add: page_start_head)
    then show ?thesis by (simp add: FileHeader_encode_into_def write_fields_def put64_def Let_def)
  qed
  note fin = page_finish_iff [OF len body(1) n, where crc = crc]
  have mult: "is_multiple_of 0 BLOCK" by (simp add: is_multiple_of_def)
  show "(\<exists>bs. FileHeader_encode_into crc h out = Inr bs) \<longleftrightarrow>
         fh_store h \<noteq> replicate 16 0 \<and> fh_image_bytes h \<noteq> 0 \<and> is_multiple_of (fh_image_bytes h) BLOCK"
    using mult by (auto simp: into fin valid)
  assume "FileHeader_encode_into crc h out = Inr bs"
  then have bs: "bs = ?p" and dec: "Page_decode crc ?p 0 (fh_image_bytes h) = Inr ?pg"
    using mult by (auto simp: into fin valid)
  then show "FileHeader_decode crc bs = Inr h"
    using p lay(1) dec by (simp add: FileHeader_decode_def BLOCK_SIZE_def Let_def)
qed

section \<open>Everything the parser accepts\<close>

text \<open>What a parsed page promises its readers, by kind.\<close>

definition page_well_formed :: "u64 \<Rightarrow> u64 \<Rightarrow> Page \<Rightarrow> bool" where
  "page_well_formed offset image_bytes p \<longleftrightarrow>
     (case pg_kind p of
        Leaf \<Rightarrow> \<exists>es. Page_extents p = Inr es \<and> leaf_valid offset image_bytes es
      | Branch \<Rightarrow> \<exists>cs. Page_children p = Inr cs \<and> branch_valid offset image_bytes (Page_level p) cs
      | Commit \<Rightarrow> \<exists>c. Page_commit p = Inr c \<and> Commit_validate c offset = Inr () \<and>
                       cm_image_bytes c = image_bytes
      | File \<Rightarrow> offset = 0)"

lemma length_page_array:
  assumes "length bs = 4096" and "64 + w * n \<le> 4096" and "0 < w"
  shows "length (chunks w (subrange bs 64 (w * n))) = n"
  using assms by simp

lemma Page_decode_parts:
  assumes "Page_decode crc bs offset image_bytes = Inr p"
  shows "pg_bytes p = bs" and "length bs = 4096" and "Page_offset p = offset"
    and "is_multiple_of offset BLOCK" and "image_bytes \<noteq> 0" and "is_multiple_of image_bytes BLOCK"
    and "(pg_kind p = File) = (offset = 0)" and "Page_validate p offset image_bytes = Inr ()"
  using assms by (auto simp: Page_decode_def BLOCK_SIZE_def Page_offset_def Let_def)

lemma Page_decode_well_formed:
  assumes "Page_decode crc bs offset image_bytes = Inr p"
  shows "page_well_formed offset image_bytes p"
proof (cases "pg_kind p")
  case Leaf
  note d = Page_decode_parts [OF assms]
  from d(8) Leaf have n: "1 \<le> pg_count p" "pg_count p \<le> 63"
    and chk: "check_extents (image_bytes div BLOCK) 0 (chunks 64 (subrange bs 64 (64 * pg_count p))) = Inr ()"
    by (auto simp: Page_validate_def Page_validate_leaf_def LEAF_CAPACITY_def Let_def d(1) mult.commute)
  then have "extents_ok (image_bytes div BLOCK) (map Extent_decode (chunks 64 (subrange bs 64 (64 * pg_count p))))"
    by (simp add: check_extents_iff)
  then show ?thesis
    using Leaf n d length_page_array [OF d(2), of 64 "pg_count p"]
    by (auto simp: page_well_formed_def Page_extents_def leaf_valid_def page_offset_def)
next
  case Branch
  note d = Page_decode_parts [OF assms]
  from d(3,8) Branch have n: "1 \<le> pg_count p" "pg_count p \<le> 252" "1 \<le> Page_level p" "Page_level p < 8"
    and chk: "check_children (image_bytes div BLOCK) offset None (chunks 16 (subrange bs 64 (16 * pg_count p))) = Inr ()"
    by (auto simp: Page_validate_def Page_validate_branch_def BRANCH_CAPACITY_def MAX_HEIGHT_def Let_def d(1)
        mult.commute)
  then show ?thesis
    using Branch n d length_page_array [OF d(2), of 16 "pg_count p"]
    by (auto simp: page_well_formed_def Page_children_def branch_valid_def page_offset_def check_children_iff)
next
  case Commit
  note d = Page_decode_parts [OF assms]
  from d(8) Commit show ?thesis
    by (auto simp: page_well_formed_def Page_validate_def Page_commit_def)
next
  case File
  with Page_decode_parts(7) [OF assms] show ?thesis by (simp add: page_well_formed_def)
qed

section \<open>Properties\<close>

text \<open>
  A leaf is encoded exactly when its extents are nonempty, at most 63, in range, ascending and
  disjoint, with one block per stored chunk; the page then decodes to a leaf holding those extents.
\<close>
theorem leaf_page_roundtrip:
  assumes "\<forall>e \<in> set es. Extent_typed e" and "length out = BLOCK_SIZE"
  shows "((\<exists>bs. leaf_into crc out offset image_bytes es = Inr bs) \<longleftrightarrow> leaf_valid offset image_bytes es) \<and>
    (\<forall>bs. leaf_into crc out offset image_bytes es = Inr bs \<longrightarrow>
       (\<exists>pg. Page_decode crc bs offset image_bytes = Inr pg \<and> pg_kind pg = Leaf \<and>
             Page_level pg = 0 \<and> Page_extents pg = Inr es))"
  using leaf_into_iff [OF assms(1) assms(2) [unfolded BLOCK_SIZE_def]] by simp

theorem leaf_page_roundtrip_witness:
  "\<exists>bs pg. leaf_into (\<lambda>_. 0) (replicate BLOCK_SIZE 0) 8192 8192
       [\<lparr>ex_start = 0, ex_end = 1, ex_hash = Some (replicate 32 9)\<rparr>, \<lparr>ex_start = 1, ex_end = 2, ex_hash = None\<rparr>] = Inr bs \<and>
     Page_decode (\<lambda>_. 0) bs 8192 8192 = Inr pg \<and>
     Page_extents pg = Inr
       [\<lparr>ex_start = 0, ex_end = 1, ex_hash = Some (replicate 32 9)\<rparr>, \<lparr>ex_start = 1, ex_end = 2, ex_hash = None\<rparr>]"
proof -
  let ?es = "[\<lparr>ex_start = 0, ex_end = 1, ex_hash = Some (replicate 32 9)\<rparr>, \<lparr>ex_start = 1, ex_end = 2, ex_hash = None\<rparr>]"
  have typed: "\<forall>e \<in> set ?es. Extent_typed e" and out: "length (replicate BLOCK_SIZE (0 :: byte)) = BLOCK_SIZE"
    by (simp_all add: Extent_typed_def)
  have valid: "leaf_valid 8192 8192 ?es"
    by (simp add: leaf_valid_def page_offset_def is_multiple_of_def extents_ok_def extent_ok_def)
  show ?thesis
    using leaf_page_roundtrip [OF typed out, of "\<lambda>_. 0" 8192 8192] valid by blast
qed

text \<open>
  A branch is encoded exactly when its level is 1 to 7 and its children (at most 252) start at
  ascending blocks of the image and point at whole pages below it; it then decodes to those children.
\<close>
theorem branch_page_roundtrip:
  assumes "length out = BLOCK_SIZE"
  shows "((\<exists>bs. branch_into crc out offset image_bytes level cs = Inr bs) \<longleftrightarrow>
            branch_valid offset image_bytes level cs) \<and>
    (\<forall>bs. branch_into crc out offset image_bytes level cs = Inr bs \<longrightarrow>
       (\<exists>pg. Page_decode crc bs offset image_bytes = Inr pg \<and> pg_kind pg = Branch \<and>
             Page_level pg = level \<and> Page_children pg = Inr cs))"
  using branch_into_iff [OF assms [unfolded BLOCK_SIZE_def]] by simp

theorem branch_page_roundtrip_witness:
  "\<exists>bs pg. branch_into (\<lambda>_. 0) (replicate BLOCK_SIZE 0) 12288 8192 1
       [\<lparr>ci_start = 0, ci_offset = 4096\<rparr>, \<lparr>ci_start = 1, ci_offset = 8192\<rparr>] = Inr bs \<and>
     Page_decode (\<lambda>_. 0) bs 12288 8192 = Inr pg \<and>
     Page_children pg = Inr [\<lparr>ci_start = 0, ci_offset = 4096\<rparr>, \<lparr>ci_start = 1, ci_offset = 8192\<rparr>]"
proof -
  have out: "length (replicate BLOCK_SIZE (0 :: byte)) = BLOCK_SIZE" by simp
  have "branch_valid 12288 8192 1 [\<lparr>ci_start = 0, ci_offset = 4096\<rparr>, \<lparr>ci_start = 1, ci_offset = 8192\<rparr>]"
    by (simp add: branch_valid_def page_offset_def is_multiple_of_def children_ok_def)
  with branch_page_roundtrip [OF out, of "\<lambda>_. 0" 12288 8192 1] show ?thesis by blast
qed

text \<open>
  A COMMIT page is encoded exactly for valid commits (identities present, a root below the page
  or no root, height at most 8) and decodes to the same commit.
\<close>
theorem commit_page_roundtrip:
  assumes "Commit_typed c" and "length out = BLOCK_SIZE"
  shows "((\<exists>bs. Commit_encode_into crc c out offset = Inr bs) \<longleftrightarrow> Commit_validate c offset = Inr ()) \<and>
    (\<forall>bs. Commit_encode_into crc c out offset = Inr bs \<longrightarrow>
       (\<exists>pg. Page_decode crc bs offset (cm_image_bytes c) = Inr pg \<and> Page_commit pg = Inr c))"
  using commit_into_iff [OF assms(1) assms(2) [unfolded BLOCK_SIZE_def]] by simp

theorem commit_page_roundtrip_witness:
  "\<exists>bs pg. Commit_encode_into (\<lambda>_. 0) \<lparr>cm_store = replicate 16 1, cm_image = replicate 16 2, cm_generation = 3,
       cm_root = \<lparr>rt_offset = 4096, rt_height = 1\<rparr>, cm_durable = 5, cm_image_bytes = 8192\<rparr>
       (replicate BLOCK_SIZE 0) 8192 = Inr bs \<and> Page_decode (\<lambda>_. 0) bs 8192 8192 = Inr pg"
proof -
  let ?c = "\<lparr>cm_store = replicate 16 1, cm_image = replicate 16 2, cm_generation = 3,
       cm_root = \<lparr>rt_offset = 4096, rt_height = 1\<rparr>, cm_durable = 5, cm_image_bytes = 8192\<rparr>"
  have typed: "Commit_typed ?c" and out: "length (replicate BLOCK_SIZE (0 :: byte)) = BLOCK_SIZE"
    by (simp_all add: Commit_typed_def)
  have ne: "replicate 16 (1 :: byte) \<noteq> replicate 16 0" "replicate 16 (2 :: byte) \<noteq> replicate 16 0"
    by (simp_all add: replicate_eq_replicate)
  have "Commit_validate ?c 8192 = Inr ()"
    using ne by (simp add: Commit_validate_def page_offset_def is_multiple_of_def MAX_HEIGHT_def)
  with commit_page_roundtrip [OF typed out, of "\<lambda>_. 0" 8192] show ?thesis by fastforce
qed

text \<open>
  Any page the parser accepts is well formed, whatever bytes it came from: leaves hold ascending
  disjoint extents of the image, branches ascending children strictly below themselves in the file
  (so following children always terminates), commits a root below themselves.
\<close>
theorem accepted_page_well_formed:
  assumes "Page_decode crc bs offset image_bytes = Inr p"
  shows "page_well_formed offset image_bytes p"
  using assms by (rule Page_decode_well_formed)

theorem accepted_page_well_formed_witness:
  "\<exists>bs pg. Page_decode (\<lambda>_. 0) bs 12288 8192 = Inr pg \<and> pg_kind pg = Branch \<and> page_well_formed 12288 8192 pg"
proof -
  have "length (replicate 4096 (0 :: byte)) = 4096" by simp
  note rt = branch_into_iff [OF this, of "\<lambda>_. 0" 12288 8192 1 "[\<lparr>ci_start = 0, ci_offset = 4096\<rparr>]"]
  have "branch_valid 12288 8192 1 [\<lparr>ci_start = 0, ci_offset = 4096\<rparr>]"
    by (simp add: branch_valid_def page_offset_def is_multiple_of_def children_ok_def)
  then obtain bs pg where "Page_decode (\<lambda>_. 0) bs 12288 8192 = Inr pg" "pg_kind pg = Branch"
    using rt by blast
  with accepted_page_well_formed show ?thesis by blast
qed

end
