(* ===== verification/Catalog_Format.thy ===== *)
theory Catalog_Format
  imports Manifest_Format "HOL-Library.List_Lexorder"
begin

text \<open>
  The catalog of images and snapshots (\<^verbatim>\<open>crates/cas/core/src/catalog/format.rs\<close> and the
  membership state of \<^verbatim>\<open>catalog.rs\<close>): one encoded buffer of sorted fixed-size records. Identifiers
  compare as byte arrays, lexicographically. \<open>granted\<close> is the answer of the metadata budget to a
  buffer allocation.
\<close>

section \<open>Entries\<close>

definition HEADER :: nat where "HEADER = 64"
definition ENTRY :: nat where "ENTRY = 128"
definition CRC :: nat where "CRC = 12"

lemmas catalog_constants = HEADER_def ENTRY_def CRC_def BLOCK_SIZE_def

type_synonym Id = bytes

record SnapshotKey =
  sk_commit :: Commit
  sk_end :: u64

datatype CatalogKind = Image u64 | Snapshot SnapshotKey

record CatalogEntry =
  ce_id :: Id
  ce_kind :: CatalogKind

datatype Change = Insert CatalogEntry | Remove Id

definition SnapshotKey_validate :: "SnapshotKey \<Rightarrow> unit result" where
  "SnapshotKey_validate k =
     ensure (sk_end k \<ge> 2 * BLOCK \<and> sk_end k \<le> 2 ^ 63 - 1 \<and> is_multiple_of (sk_end k) BLOCK)
       (InvalidData ''snapshot end is invalid'')
       (Commit_validate (sk_commit k) (sk_end k - BLOCK))"

definition Entry_validate :: "CatalogEntry \<Rightarrow> Id \<Rightarrow> unit result" where
  "Entry_validate e store =
     ensure (ce_id e \<noteq> replicate 16 0) (InvalidData ''catalog entry ID is zero'')
    (case ce_kind e of
       Image image_bytes \<Rightarrow>
         Commit_validate
           \<lparr>cm_store = store, cm_image = ce_id e, cm_generation = 1,
            cm_root = \<lparr>rt_offset = 0, rt_height = 0\<rparr>, cm_durable = 0, cm_image_bytes = image_bytes\<rparr>
           BLOCK
     | Snapshot key \<Rightarrow>
         ensure (cm_store (sk_commit key) = store) (InvalidData ''snapshot belongs to another store'')
           (SnapshotKey_validate key))"

definition id_at :: "bytes \<Rightarrow> nat \<Rightarrow> Id" where
  "id_at bs off = subrange bs off 16"

definition entry_decode :: "bytes \<Rightarrow> Id \<Rightarrow> CatalogEntry" where
  "entry_decode bs store =
    (let image_bytes = u64_at bs 24 in
     \<lparr>ce_id = id_at bs 0,
      ce_kind =
        (if u16_at bs 16 = 1 then Image image_bytes
         else Snapshot
           \<lparr>sk_commit =
              \<lparr>cm_store = store, cm_image = id_at bs 32, cm_generation = u64_at bs 48,
               cm_root = \<lparr>rt_offset = u64_at bs 56, rt_height = u16_at bs 80\<rparr>,
               cm_durable = u64_at bs 64, cm_image_bytes = image_bytes\<rparr>,
            sk_end = u64_at bs 72\<rparr>)\<rparr>)"

definition entry_encode :: "CatalogEntry \<Rightarrow> bytes \<Rightarrow> bytes" where
  "entry_encode e bs =
    (let bs = overwrite bs 0 (ce_id e) in
     case ce_kind e of
       Image image_bytes \<Rightarrow> put64 (put16 bs 16 1) 24 image_bytes
     | Snapshot key \<Rightarrow>
        (let bs = put16 bs 16 2;
             bs = put64 bs 24 (cm_image_bytes (sk_commit key));
             bs = overwrite bs 32 (cm_image (sk_commit key));
             bs = put64 bs 48 (cm_generation (sk_commit key));
             bs = put64 bs 56 (rt_offset (cm_root (sk_commit key)));
             bs = put64 bs 64 (cm_durable (sk_commit key));
             bs = put64 bs 72 (sk_end key)
         in put16 bs 80 (rt_height (cm_root (sk_commit key)))))"

section \<open>Sizes and header\<close>

definition checked_next_multiple_of :: "nat \<Rightarrow> nat \<Rightarrow> nat option" where
  "checked_next_multiple_of a b =
     (if next_multiple_of a b \<le> u64_max then Some (next_multiple_of a b) else None)"

definition encoded_size :: "nat \<Rightarrow> nat result" where
  "encoded_size count =
     ok_or (Option.bind (nchecked_mul count ENTRY) (\<lambda>sz.
            Option.bind (nchecked_add sz HEADER) (\<lambda>sz.
            Option.bind (checked_next_multiple_of sz BLOCK_SIZE) (\<lambda>sz.
              if sz \<le> 2 ^ 63 - 1 then Some sz else None))))
       (InvalidData ''catalog length overflow'')"

definition catalog_header :: "bytes \<Rightarrow> Id \<Rightarrow> nat result" where
  "catalog_header bs store =
     ensure (length bs \<ge> HEADER) (InvalidData ''short catalog header'')
    (ensure (subrange bs 0 8 = ascii ''CASCAT02'' \<and> u16_at bs 8 = 2 \<and> unat (u16_at bs 10) = ENTRY)
       (InvalidData ''catalog version'')
    (ensure (store \<noteq> replicate 16 0 \<and> id_at bs 16 = store \<and> u64_at bs 32 \<noteq> 0)
       (InvalidData ''catalog identity/generation'')
    (ensure (all_zero (subrange bs 56 (64 - 56))) (InvalidData ''catalog header reserved bytes'')
    (attempt (encoded_size (unat (u64_at bs 40))) (\<lambda>sz.
       ensure (unat (u64_at bs 48) = sz) (InvalidData ''catalog encoded length'')
         (Inr sz))))))"

section \<open>Binary search\<close>

text \<open>\<^verbatim>\<open>slice::binary_search_by_key\<close>: the loop halves a window and never leaves it.\<close>

function bsearch_base :: "'k::linorder list \<Rightarrow> 'k \<Rightarrow> nat \<Rightarrow> nat \<Rightarrow> nat" where
  "bsearch_base ks k base window =
    (if window \<le> 1 then base
     else let half = window div 2; mid = base + half
          in bsearch_base ks k (if ks ! mid > k then base else mid) (window - half))"
  by pat_completeness auto
termination by (relation "measure (\<lambda>(ks, k, base, window). window)") auto

declare bsearch_base.simps [simp del]

text \<open>\<open>Inr\<close> is \<^verbatim>\<open>Ok\<close> with the position found, \<open>Inl\<close> is \<^verbatim>\<open>Err\<close> with the insertion position.\<close>

definition binary_search :: "'k::linorder list \<Rightarrow> 'k \<Rightarrow> nat + nat" where
  "binary_search ks k =
    (if ks = [] then Inl 0
     else let base = bsearch_base ks k 0 (length ks)
          in if ks ! base = k then Inr base else Inl (base + (if ks ! base < k then 1 else 0)))"

section \<open>Contents\<close>

record Contents =
  ct_bytes :: bytes

definition Contents_store :: "Contents \<Rightarrow> Id" where
  "Contents_store c = id_at (ct_bytes c) 16"

definition Contents_generation :: "Contents \<Rightarrow> u64" where
  "Contents_generation c = u64_at (ct_bytes c) 32"

definition Contents_len :: "Contents \<Rightarrow> nat" where
  "Contents_len c = unat (u64_at (ct_bytes c) 40)"

definition Contents_records :: "Contents \<Rightarrow> bytes list" where
  "Contents_records c = chunks ENTRY (subrange (ct_bytes c) HEADER (Contents_len c * ENTRY))"

definition Contents_entries :: "Contents \<Rightarrow> CatalogEntry list" where
  "Contents_entries c = map (\<lambda>r. entry_decode r (Contents_store c)) (Contents_records c)"

definition Contents_position :: "Contents \<Rightarrow> Id \<Rightarrow> nat + nat" where
  "Contents_position c i = binary_search (map (\<lambda>r. id_at r 0) (Contents_records c)) i"

definition Contents_get :: "Contents \<Rightarrow> Id \<Rightarrow> CatalogEntry option" where
  "Contents_get c i =
    (case Contents_position c i of
       Inl _ \<Rightarrow> None
     | Inr index \<Rightarrow> Some (entry_decode (Contents_records c ! index) (Contents_store c)))"

definition Contents_allocate :: "bool \<Rightarrow> Id \<Rightarrow> u64 \<Rightarrow> nat \<Rightarrow> Contents result" where
  "Contents_allocate granted store generation count =
     ensure (store \<noteq> replicate 16 0 \<and> generation \<noteq> 0) (InvalidData ''catalog identity/generation'')
    (attempt (encoded_size count) (\<lambda>sz.
     attempt (AlignedBuffer_try_new_in granted sz) (\<lambda>bs.
       let bs = overwrite bs 0 (ascii ''CASCAT02'');
           bs = put16 bs 8 2;
           bs = put16 bs 10 (word_of_nat ENTRY);
           bs = overwrite bs 16 store;
           bs = put64 bs 32 generation;
           bs = put64 bs 40 (word_of_nat count);
           bs = put64 bs 48 (word_of_nat sz)
       in Inr \<lparr>ct_bytes = bs\<rparr>)))"

definition Contents_seal :: "(bytes \<Rightarrow> u32) \<Rightarrow> Contents \<Rightarrow> Contents" where
  "Contents_seal crc c = c\<lparr>ct_bytes := put_checksum crc (ct_bytes c) CRC\<rparr>"

fun initial_entries :: "Id \<Rightarrow> nat \<Rightarrow> Id \<Rightarrow> CatalogEntry list \<Rightarrow> bytes \<Rightarrow> bytes result" where
  "initial_entries store index previous [] bs = Inr bs"
| "initial_entries store index previous (e # es) bs =
     attempt (Entry_validate e store) (\<lambda>_.
       ensure (ce_id e > previous) (InvalidData ''catalog IDs are not sorted and unique'')
      (let offset = HEADER + index * ENTRY
       in initial_entries store (Suc index) (ce_id e) es
            (overwrite bs offset (entry_encode e (subrange bs offset ENTRY)))))"

definition Contents_initial ::
  "(bytes \<Rightarrow> u32) \<Rightarrow> bool \<Rightarrow> Id \<Rightarrow> CatalogEntry list \<Rightarrow> Contents result" where
  "Contents_initial crc granted store es =
     attempt (Contents_allocate granted store 1 (length es)) (\<lambda>c.
     attempt (initial_entries store 0 (replicate 16 0) es (ct_bytes c)) (\<lambda>bs.
       Inr (Contents_seal crc \<lparr>ct_bytes = bs\<rparr>)))"

definition change_position :: "Contents \<Rightarrow> Change \<Rightarrow> (nat \<times> nat \<times> CatalogEntry option) result" where
  "change_position c change =
    (case change of
       Insert e \<Rightarrow>
         attempt (Entry_validate e (Contents_store c)) (\<lambda>_.
           case Contents_position c (ce_id e) of
             Inr _ \<Rightarrow> Inl (AlreadyExists ''catalog ID already exists'')
           | Inl position \<Rightarrow> Inr (position, 0, Some e))
     | Remove i \<Rightarrow>
         (case Contents_position c i of
            Inl _ \<Rightarrow> Inl (NotFound ''catalog ID does not exist'')
          | Inr position \<Rightarrow> Inr (position, 1, None)))"

text \<open>\<^verbatim>\<open>usize::from(inserted.is_some())\<close>.\<close>

definition inserted_count :: "CatalogEntry option \<Rightarrow> nat" where
  "inserted_count inserted = (case inserted of None \<Rightarrow> 0 | Some _ \<Rightarrow> 1)"

definition splice_records ::
  "Contents \<Rightarrow> nat \<Rightarrow> nat \<Rightarrow> CatalogEntry option \<Rightarrow> bytes \<Rightarrow> bytes" where
  "splice_records c position removed inserted bs =
    (let offset = HEADER + position * ENTRY;
         bs = overwrite bs HEADER (subrange (ct_bytes c) HEADER (offset - HEADER));
         target = offset + inserted_count inserted * ENTRY;
         source = offset + removed * ENTRY;
         bs = overwrite bs target
                (subrange (ct_bytes c) source (HEADER + Contents_len c * ENTRY - source))
     in case inserted of
          None \<Rightarrow> bs
        | Some e \<Rightarrow> overwrite bs offset (entry_encode e (subrange bs offset ENTRY)))"

definition Contents_changed ::
  "(bytes \<Rightarrow> u32) \<Rightarrow> bool \<Rightarrow> Contents \<Rightarrow> Change \<Rightarrow> Contents result" where
  "Contents_changed crc granted c change =
     attempt (change_position c change) (\<lambda>(position, removed, inserted).
     attempt (ok_or (nchecked_add (Contents_len c - removed) (inserted_count inserted))
                (Other ''catalog entry count exhausted'')) (\<lambda>count.
     attempt (ok_or (checked_add (Contents_generation c) 1)
                (Other ''catalog generations exhausted'')) (\<lambda>generation.
     attempt (Contents_allocate granted (Contents_store c) generation count) (\<lambda>fresh.
       Inr (Contents_seal crc
              \<lparr>ct_bytes = splice_records c position removed inserted (ct_bytes fresh)\<rparr>)))))"

fun check_records :: "Id \<Rightarrow> Id \<Rightarrow> bytes list \<Rightarrow> unit result" where
  "check_records store previous [] = Inr ()"
| "check_records store previous (r # rs) =
     ensure (u16_at r 16 = 1 \<or> u16_at r 16 = 2) (InvalidData ''catalog entry kind'')
    (ensure (all_zero (subrange r 18 (24 - 18)) \<and> all_zero (drop 82 r) \<and>
             (u16_at r 16 = 2 \<or> all_zero (subrange r 32 (82 - 32))))
       (InvalidData ''catalog entry reserved bytes'')
    (let e = entry_decode r store in
     attempt (Entry_validate e store) (\<lambda>_.
       ensure (ce_id e > previous) (InvalidData ''catalog IDs are not sorted and unique'')
         (check_records store (ce_id e) rs))))"

definition Contents_validate :: "(bytes \<Rightarrow> u32) \<Rightarrow> Contents \<Rightarrow> Id \<Rightarrow> unit result" where
  "Contents_validate crc c store =
     attempt (catalog_header (ct_bytes c) store) (\<lambda>sz.
       ensure (sz = length (ct_bytes c)) (InvalidData ''catalog buffer size'')
      (ensure (u32_at (ct_bytes c) CRC = checksum crc (ct_bytes c) CRC) (InvalidData ''catalog CRC'')
      (attempt (check_records store (replicate 16 0) (Contents_records c)) (\<lambda>_.
         ensure (all_zero (drop (HEADER + Contents_len c * ENTRY) (ct_bytes c)))
           (InvalidData ''catalog padding'') (Inr ())))))"

text \<open>
  \<^verbatim>\<open>Contents::read\<close>: \<open>file\<close> is the file's bytes; \<open>granted\<close> answers the two buffer allocations.
\<close>

definition Contents_read ::
  "(bytes \<Rightarrow> u32) \<Rightarrow> (nat \<Rightarrow> bool) \<Rightarrow> bytes \<Rightarrow> Id \<Rightarrow> Contents result" where
  "Contents_read crc granted file store =
     ensure (length file \<ge> BLOCK_SIZE) (InvalidData ''short catalog file'')
    (attempt (AlignedBuffer_try_new_in (granted 0) BLOCK_SIZE) (\<lambda>buffer.
     let buffer = overwrite buffer 0 (subrange file 0 BLOCK_SIZE) in
     attempt (catalog_header buffer store) (\<lambda>sz.
       ensure (length file = sz) (InvalidData ''catalog EOF differs from header'')
      (attempt
        (if sz > BLOCK_SIZE
         then attempt (AlignedBuffer_try_new_in (granted 1) sz) (\<lambda>full.
                Inr (overwrite (overwrite full 0 buffer) BLOCK_SIZE
                       (subrange file BLOCK_SIZE (sz - BLOCK_SIZE))))
         else Inr buffer) (\<lambda>buffer.
       let c = \<lparr>ct_bytes = buffer\<rparr> in
       attempt (Contents_validate crc c store) (\<lambda>_. Inr c))))))"

section \<open>The catalog owner\<close>

text \<open>
  The membership state of \<^verbatim>\<open>Catalog\<close>. \<open>owner\<close> is the identity of the shared owner (\<^verbatim>\<open>Arc::ptr_eq\<close>),
  \<open>written\<close> the outcome of writing, renaming and syncing the encoded file.
\<close>

record Catalog =
  cat_owner :: nat
  cat_contents :: Contents
  cat_failed :: bool

record Prepared =
  pr_owner :: nat
  pr_generation :: u64
  pr_contents :: Contents

definition Catalog_healthy :: "Catalog \<Rightarrow> unit result" where
  "Catalog_healthy cat = require_healthy (cat_failed cat) ''catalog failed; explicit recovery required''"

definition Catalog_create_contents :: "nat \<Rightarrow> unit result \<Rightarrow> Contents \<Rightarrow> Catalog result" where
  "Catalog_create_contents owner written c =
     attempt written (\<lambda>_. Inr \<lparr>cat_owner = owner, cat_contents = c, cat_failed = False\<rparr>)"

definition Catalog_prepare ::
  "(bytes \<Rightarrow> u32) \<Rightarrow> bool \<Rightarrow> Catalog \<Rightarrow> Change \<Rightarrow> Prepared result" where
  "Catalog_prepare crc granted cat change =
     attempt (Catalog_healthy cat) (\<lambda>_.
     attempt (Contents_changed crc granted (cat_contents cat) change) (\<lambda>c.
       Inr \<lparr>pr_owner = cat_owner cat, pr_generation = Contents_generation (cat_contents cat), pr_contents = c\<rparr>))"

definition Catalog_publish :: "unit result \<Rightarrow> Catalog \<Rightarrow> Prepared \<Rightarrow> Catalog \<times> unit result" where
  "Catalog_publish written cat p =
    (case Catalog_healthy cat of
       Inl e \<Rightarrow> (cat, Inl e)
     | Inr _ \<Rightarrow>
         if cat_owner cat = pr_owner p \<and> Contents_generation (cat_contents cat) = pr_generation p
         then (let cat = cat\<lparr>cat_failed := True\<rparr> in
               case written of
                 Inl e \<Rightarrow> (cat, Inl e)
               | Inr _ \<Rightarrow> (cat\<lparr>cat_contents := pr_contents p, cat_failed := False\<rparr>, Inr ()))
         else (cat, Inl (InvalidData ''stale or foreign catalog preparation'')))"

section \<open>The search finds the place\<close>

definition search_window :: "'k::linorder list \<Rightarrow> 'k \<Rightarrow> nat \<Rightarrow> nat \<Rightarrow> bool" where
  "search_window ks k base window \<longleftrightarrow>
     1 \<le> window \<and> base + window \<le> length ks \<and> (base = 0 \<or> ks ! base \<le> k) \<and>
     (\<forall>j. base + window \<le> j \<and> j < length ks \<longrightarrow> k < ks ! j)"

lemma bsearch_base_window:
  assumes "sorted_wrt (<) ks" and "search_window ks k base window"
  shows "search_window ks k (bsearch_base ks k base window) 1"
  using assms
proof (induction ks k base window rule: bsearch_base.induct)
  case (1 ks k base window)
  show ?case
  proof (cases "window \<le> 1")
    case True
    then have "window = 1" using 1(3) by (simp add: search_window_def)
    then show ?thesis using 1(3) by (simp add: bsearch_base.simps [of ks k base "Suc 0"])
  next
    case False
    let ?half = "window div 2" and ?mid = "base + window div 2"
    let ?base = "if ks ! ?mid > k then base else ?mid"
    have mid: "?mid < length ks" "1 \<le> ?half" "?half < window"
      using False 1(3) by (auto simp: search_window_def)
    have "search_window ks k ?base (window - ?half)"
    proof (cases "k < ks ! ?mid")
      case True
      have "k < ks ! j" if "?mid \<le> j" "j < length ks" for j
        using sorted_wrt_nth_less [OF 1(2), of ?mid j] that True by (cases "j = ?mid") auto
      then have "k < ks ! j" if "base + (window - ?half) \<le> j" "j < length ks" for j
        using that mid by (simp add: algebra_simps)
      moreover have "1 \<le> window - ?half" "base + (window - ?half) \<le> length ks"
        using mid 1(3) unfolding search_window_def by linarith+
      ultimately show ?thesis using True 1(3) by (simp add: search_window_def)
    next
      case False
      with 1(3) mid show ?thesis by (auto simp: search_window_def)
    qed
    then show ?thesis
      using 1(1) [OF False refl refl 1(2)] False
      by (simp add: bsearch_base.simps [of ks k base window] Let_def)
  qed
qed

lemma binary_search_found:
  assumes "sorted_wrt (<) ks"
  shows "binary_search ks k = Inr i \<longleftrightarrow> i < length ks \<and> ks ! i = k"
proof (cases "ks = []")
  case False
  let ?b = "bsearch_base ks k 0 (length ks)"
  have w: "search_window ks k ?b 1"
    using False by (intro bsearch_base_window [OF assms]) (auto simp: search_window_def Suc_le_eq)
  have "i = ?b \<and> ks ! ?b = k" if "i < length ks" "ks ! i = k"
  proof -
    consider "i < ?b" | "i = ?b" | "?b < i" by linarith
    then show ?thesis
    proof cases
      case 1
      then show ?thesis using sorted_wrt_nth_less [OF assms 1] w that by (force simp: search_window_def)
    next
      case 3
      then have "?b + 1 \<le> i \<and> i < length ks" using that by simp
      then have "k < ks ! i" using w unfolding search_window_def by blast
      then show ?thesis using that by simp
    qed (use that in simp)
  qed
  moreover have "?b < length ks" using w by (simp add: search_window_def)
  moreover have "binary_search ks k = Inr i \<longleftrightarrow> ks ! ?b = k \<and> i = ?b"
    using False by (auto simp: binary_search_def Let_def)
  ultimately show ?thesis by blast
qed (simp add: binary_search_def)

lemma binary_search_missing:
  assumes "sorted_wrt (<) ks" and "binary_search ks k = Inl i"
  shows "i \<le> length ks" and "\<forall>j < i. ks ! j < k" and "\<forall>j. i \<le> j \<and> j < length ks \<longrightarrow> k < ks ! j"
proof -
  let ?b = "bsearch_base ks k 0 (length ks)"
  show "i \<le> length ks" "\<forall>j < i. ks ! j < k" "\<forall>j. i \<le> j \<and> j < length ks \<longrightarrow> k < ks ! j"
  proof (atomize (full), cases "ks = []")
    case False
    have w: "search_window ks k ?b 1"
      using False by (intro bsearch_base_window [OF assms(1)]) (auto simp: search_window_def Suc_le_eq)
    from False assms(2) have ne: "ks ! ?b \<noteq> k" and i: "i = ?b + (if ks ! ?b < k then 1 else 0)"
      by (auto simp: binary_search_def Let_def split: if_splits)
    have below: "ks ! j < ks ! ?b" if "j < ?b" for j
      using sorted_wrt_nth_less [OF assms(1) that] w by (simp add: search_window_def)
    show "i \<le> length ks \<and> (\<forall>j < i. ks ! j < k) \<and> (\<forall>j. i \<le> j \<and> j < length ks \<longrightarrow> k < ks ! j)"
    proof (cases "ks ! ?b < k")
      case True
      then show ?thesis using w i below by (force simp: search_window_def less_Suc_eq)
    next
      case False
      then have z: "?b = 0" using w ne by (auto simp: search_window_def)
      have "k < ks ! j" if "j < length ks" for j
        using w z False ne that by (cases "j = 0") (auto simp: search_window_def)
      with False i z show ?thesis by auto
    qed
  qed (use assms(2) in \<open>simp add: binary_search_def\<close>)
qed

section \<open>Records\<close>

definition Entry_typed :: "CatalogEntry \<Rightarrow> bool" where
  "Entry_typed e \<longleftrightarrow> length (ce_id e) = 16 \<and>
     (case ce_kind e of Image _ \<Rightarrow> True | Snapshot k \<Rightarrow> length (cm_image (sk_commit k)) = 16)"

definition entry_of_store :: "Id \<Rightarrow> CatalogEntry \<Rightarrow> bool" where
  "entry_of_store store e \<longleftrightarrow>
     (case ce_kind e of Image _ \<Rightarrow> True | Snapshot k \<Rightarrow> cm_store (sk_commit k) = store)"

definition entry_slot :: "CatalogEntry \<Rightarrow> bytes" where
  "entry_slot e = entry_encode e (replicate 128 0)"

definition record_ok :: "bytes \<Rightarrow> bool" where
  "record_ok r \<longleftrightarrow> (u16_at r 16 = 1 \<or> u16_at r 16 = 2) \<and> all_zero (subrange r 18 6) \<and>
     all_zero (drop 82 r) \<and> (u16_at r 16 = 2 \<or> all_zero (subrange r 32 50))"

abbreviation image_fields :: "Id \<Rightarrow> u64 \<Rightarrow> (nat \<times> bytes) list" where
  "image_fields i image_bytes \<equiv> [(0, i), (16, le_of_nat 2 (Suc 0)), (24, le_of_nat 8 (unat image_bytes))]"

abbreviation snapshot_fields :: "Id \<Rightarrow> SnapshotKey \<Rightarrow> (nat \<times> bytes) list" where
  "snapshot_fields i k \<equiv>
     [(0, i), (16, le_of_nat 2 2), (24, le_of_nat 8 (unat (cm_image_bytes (sk_commit k)))),
      (32, cm_image (sk_commit k)), (48, le_of_nat 8 (unat (cm_generation (sk_commit k)))),
      (56, le_of_nat 8 (unat (rt_offset (cm_root (sk_commit k))))),
      (64, le_of_nat 8 (unat (cm_durable (sk_commit k)))), (72, le_of_nat 8 (unat (sk_end k))),
      (80, le_of_nat 2 (unat (rt_height (cm_root (sk_commit k)))))]"

lemma entry_slot_fields:
  "ce_kind e = Image n \<Longrightarrow> entry_slot e = write_fields (replicate 128 0) (image_fields (ce_id e) n)"
  "ce_kind e = Snapshot k \<Longrightarrow> entry_slot e = write_fields (replicate 128 0) (snapshot_fields (ce_id e) k)"
  by (simp_all add: entry_slot_def entry_encode_def write_fields_def put16_def put64_def Let_def)

lemma all_zero_drop_subrange: "length bs = n \<Longrightarrow> all_zero (drop a bs) \<longleftrightarrow> all_zero (subrange bs a (n - a))"
  by (simp add: subrange_def)

lemma image_slot_layout:
  assumes typed: "Entry_typed e" and kind: "ce_kind e = Image n"
  shows "length (entry_slot e) = 128" and "id_at (entry_slot e) 0 = ce_id e" and "u16_at (entry_slot e) 16 = 1"
    and "u64_at (entry_slot e) 24 = n" and "subrange (entry_slot e) 18 6 = replicate 6 0"
    and "subrange (entry_slot e) 32 50 = replicate 50 0" and "subrange (entry_slot e) 82 46 = replicate 46 0"
proof -
  let ?z = "replicate 128 (0 :: byte)"
  have i: "length (ce_id e) = 16" using typed by (simp add: Entry_typed_def)
  have ok: "fields_ok 0 (length ?z) (image_fields (ce_id e) n)" using i by simp
  note facts = entry_slot_fields(1) [OF kind] id_at_def field_reads [OF ok] field_gaps [OF ok] subrange_replicate
  show "length (entry_slot e) = 128" using length_write_fields [OF ok] by (simp add: entry_slot_fields(1) [OF kind])
  show "id_at (entry_slot e) 0 = ce_id e" "u16_at (entry_slot e) 16 = 1" "u64_at (entry_slot e) 24 = n"
    "subrange (entry_slot e) 18 6 = replicate 6 0" "subrange (entry_slot e) 32 50 = replicate 50 0"
    "subrange (entry_slot e) 82 46 = replicate 46 0"
    using i by (simp_all add: facts)
qed

lemma snapshot_slot_layout:
  assumes typed: "Entry_typed e" and kind: "ce_kind e = Snapshot k"
  shows "length (entry_slot e) = 128" and "id_at (entry_slot e) 0 = ce_id e" and "u16_at (entry_slot e) 16 = 2"
    and "u64_at (entry_slot e) 24 = cm_image_bytes (sk_commit k)" and "subrange (entry_slot e) 18 6 = replicate 6 0"
    and "id_at (entry_slot e) 32 = cm_image (sk_commit k)" and "u64_at (entry_slot e) 48 = cm_generation (sk_commit k)"
    and "u64_at (entry_slot e) 56 = rt_offset (cm_root (sk_commit k))"
    and "u64_at (entry_slot e) 64 = cm_durable (sk_commit k)" and "u64_at (entry_slot e) 72 = sk_end k"
    and "u16_at (entry_slot e) 80 = rt_height (cm_root (sk_commit k))"
    and "subrange (entry_slot e) 82 46 = replicate 46 0"
proof -
  let ?z = "replicate 128 (0 :: byte)"
  have i: "length (ce_id e) = 16" "length (cm_image (sk_commit k)) = 16"
    using typed kind by (simp_all add: Entry_typed_def)
  have ok: "fields_ok 0 (length ?z) (snapshot_fields (ce_id e) k)" using i by simp
  note facts = entry_slot_fields(2) [OF kind] id_at_def field_reads [OF ok] field_gaps [OF ok] subrange_replicate
  show "length (entry_slot e) = 128" using length_write_fields [OF ok] by (simp add: entry_slot_fields(2) [OF kind])
  show "id_at (entry_slot e) 0 = ce_id e" "u16_at (entry_slot e) 16 = 2"
    "u64_at (entry_slot e) 24 = cm_image_bytes (sk_commit k)" "subrange (entry_slot e) 18 6 = replicate 6 0"
    "id_at (entry_slot e) 32 = cm_image (sk_commit k)" "u64_at (entry_slot e) 48 = cm_generation (sk_commit k)"
    using i by (simp_all add: facts)
  show "u64_at (entry_slot e) 56 = rt_offset (cm_root (sk_commit k))"
    "u64_at (entry_slot e) 64 = cm_durable (sk_commit k)" "u64_at (entry_slot e) 72 = sk_end k"
    "u16_at (entry_slot e) 80 = rt_height (cm_root (sk_commit k))"
    "subrange (entry_slot e) 82 46 = replicate 46 0"
    using i by (simp_all add: facts)
qed

lemma entry_slot_layout:
  assumes typed: "Entry_typed e"
  shows "length (entry_slot e) = 128" and "id_at (entry_slot e) 0 = ce_id e" and "record_ok (entry_slot e)"
    and "entry_of_store store e \<Longrightarrow> entry_decode (entry_slot e) store = e"
proof -
  show "length (entry_slot e) = 128" "id_at (entry_slot e) 0 = ce_id e"
    using image_slot_layout(1,2) [OF typed] snapshot_slot_layout(1,2) [OF typed] by (cases "ce_kind e"; simp)+
  show "record_ok (entry_slot e)"
  proof (cases "ce_kind e")
    case (Image n)
    show ?thesis using image_slot_layout [OF typed Image]
      by (simp add: record_ok_def all_zero_drop_subrange)
  next
    case (Snapshot k)
    show ?thesis using snapshot_slot_layout [OF typed Snapshot]
      by (simp add: record_ok_def all_zero_drop_subrange)
  qed
  show "entry_decode (entry_slot e) store = e" if "entry_of_store store e"
  proof (cases "ce_kind e")
    case (Image n)
    then show ?thesis using image_slot_layout [OF typed Image]
      by (simp add: entry_decode_def Let_def)
  next
    case (Snapshot k)
    then show ?thesis using snapshot_slot_layout [OF typed Snapshot] that
      by (simp add: entry_decode_def Let_def entry_of_store_def)
  qed
qed

lemma entry_decode_typed: "length r = 128 \<Longrightarrow> Entry_typed (entry_decode r store)"
  by (simp add: Entry_typed_def entry_decode_def id_at_def Let_def)

lemma entry_decode_store: "entry_of_store store (entry_decode r store)"
  by (simp add: entry_of_store_def entry_decode_def Let_def)

lemma entry_decode_id: "ce_id (entry_decode r store) = id_at r 0"
  by (simp add: entry_decode_def Let_def)

text \<open>A record the parser accepts is the encoding of the entry it decodes to.\<close>

lemma record_canonical:
  assumes len: "length r = 128" and ok: "record_ok r"
  shows "entry_slot (entry_decode r store) = r"
proof -
  let ?e = "entry_decode r store" and ?s = "entry_slot (entry_decode r store)"
  have typed: "Entry_typed ?e" by (rule entry_decode_typed [OF len])
  have slen: "length ?s = 128" by (rule entry_slot_layout(1) [OF typed])
  have "all_zero (subrange r 18 6)" "all_zero (subrange r 82 46)"
    using ok by (simp_all add: record_ok_def all_zero_drop_subrange [OF len])
  then have z: "subrange r 18 6 = replicate 6 0" "subrange r 82 46 = replicate 46 0"
    using len by (simp_all add: all_zero_iff)
  have i: "subrange ?s 0 16 = subrange r 0 16"
    using entry_slot_layout(2) [OF typed] by (simp add: id_at_def entry_decode_id)
  have w16: "subrange ?s off 2 = subrange r off 2" if "off + 2 \<le> 128" "u16_at ?s off = u16_at r off" for off
    using that slen len by (intro f16.get_injective) auto
  have w64: "subrange ?s off 8 = subrange r off 8" if "off + 8 \<le> 128" "u64_at ?s off = u64_at r off" for off
    using that slen len by (intro f64.get_injective) auto
  show ?thesis
  proof (cases "u16_at r 16 = 1")
    case True
    then have k: "ce_kind ?e = Image (u64_at r 24)" by (simp add: entry_decode_def Let_def)
    have "all_zero (subrange r 32 50)" using ok True by (simp add: record_ok_def)
    then have z2: "subrange r 32 50 = replicate 50 0" using len by (simp add: all_zero_iff)
    note lay = image_slot_layout [OF typed k]
    have "agree 0 [16, 2, 6, 8, 50, 46] ?s r"
      using lay i z z2 w16 [of 16] w64 [of 24] True by simp
    then show ?thesis by (rule agree_eq) (simp_all add: len slen)
  next
    case False
    then have two: "u16_at r 16 = 2" using ok by (simp add: record_ok_def)
    obtain k where k: "ce_kind ?e = Snapshot k" and
      f: "cm_image (sk_commit k) = id_at r 32" "cm_generation (sk_commit k) = u64_at r 48"
        "rt_offset (cm_root (sk_commit k)) = u64_at r 56" "rt_height (cm_root (sk_commit k)) = u16_at r 80"
        "cm_durable (sk_commit k) = u64_at r 64" "cm_image_bytes (sk_commit k) = u64_at r 24"
        "sk_end k = u64_at r 72"
      using False by (simp add: entry_decode_def Let_def)
    note lay = snapshot_slot_layout [OF typed k]
    have img: "subrange ?s 32 16 = subrange r 32 16" using lay(6) f(1) by (simp add: id_at_def)
    have "agree 0 [16, 2, 6, 8, 16, 8, 8, 8, 8, 2, 46] ?s r"
      using lay i z two f img w16 [of 16] w16 [of 80] w64 [of 24] w64 [of 48] w64 [of 56] w64 [of 64] w64 [of 72]
      by simp
    then show ?thesis by (rule agree_eq) (simp_all add: len slen)
  qed
qed

lemma check_records_iff:
  "check_records store previous rs = Inr () \<longleftrightarrow>
   (\<forall>r \<in> set rs. record_ok r \<and> Entry_validate (entry_decode r store) store = Inr () \<and> previous < id_at r 0) \<and>
   sorted_wrt (<) (map (\<lambda>r. id_at r 0) rs)"
proof (induction rs arbitrary: previous)
  case (Cons r rs)
  show ?case
    using Cons.IH [of "id_at r 0"]
    by (auto simp: record_ok_def entry_decode_id Let_def intro: order.strict_trans)
qed simp

section \<open>The encoded state as a sorted list of entries\<close>

definition catalog_size :: "nat \<Rightarrow> nat" where
  "catalog_size n = next_multiple_of (n * 128 + 64) 4096"

lemma catalog_size_props: "n * 128 + 64 \<le> catalog_size n" "4096 dvd catalog_size n" "catalog_size n \<noteq> 0"
  using next_multiple_of_props [of 4096 "n * 128 + 64"] by (simp_all add: catalog_size_def)

lemma encoded_size_iff:
  "encoded_size n = Inr sz \<longleftrightarrow> sz = catalog_size n \<and> sz \<le> 2 ^ 63 - 1"
  using catalog_size_props(1) [of n]
  by (auto simp: encoded_size_def bind_eq_Some_conv checked_next_multiple_of_def catalog_constants
      u64_max_def catalog_size_def split: if_splits)

definition catalog_head :: "Id \<Rightarrow> u64 \<Rightarrow> nat \<Rightarrow> bytes \<Rightarrow> bool" where
  "catalog_head store generation n bs \<longleftrightarrow>
     length bs = catalog_size n \<and> length bs \<le> 2 ^ 63 - 1 \<and> length store = 16 \<and> store \<noteq> replicate 16 0 \<and>
     generation \<noteq> 0 \<and> subrange bs 0 8 = ascii ''CASCAT02'' \<and> u16_at bs 8 = 2 \<and> u16_at bs 10 = 128 \<and>
     id_at bs 16 = store \<and> u64_at bs 32 = generation \<and> unat (u64_at bs 40) = n \<and>
     unat (u64_at bs 48) = length bs \<and> subrange bs 56 8 = replicate 8 0"

lemma catalog_head_cong:
  assumes "catalog_head store generation n bs" and "length cs = length bs"
    and "subrange cs 0 12 = subrange bs 0 12" and "subrange cs 16 48 = subrange bs 16 48"
  shows "catalog_head store generation n cs"
proof -
  have lo: "subrange cs off m = subrange bs off m" if "off + m \<le> 12" for off m
    using subrange_subrange [OF that, of cs 0] subrange_subrange [OF that, of bs 0] assms(3) by simp
  have hi: "subrange cs (16 + off) m = subrange bs (16 + off) m" if "off + m \<le> 48" for off m
    using subrange_subrange [OF that, of cs 16] subrange_subrange [OF that, of bs 16] assms(4) by simp
  have "u16_at cs 8 = u16_at bs 8" "u16_at cs 10 = u16_at bs 10" using lo by (auto intro: f16.get_local)
  moreover have "u64_at cs 32 = u64_at bs 32" "u64_at cs 40 = u64_at bs 40" "u64_at cs 48 = u64_at bs 48"
    using hi [of 16 8] hi [of 24 8] hi [of 32 8] by (auto intro: f64.get_local)
  ultimately show ?thesis
    using assms(1,2) lo [of 0 8] hi [of 0 16] hi [of 40 8] by (simp add: catalog_head_def id_at_def)
qed

lemma catalog_head_bound: "catalog_head store generation n bs \<Longrightarrow> 64 \<le> length bs"
  using catalog_size_props(1) [of n] by (simp add: catalog_head_def)

lemma catalog_head_body:
  assumes "catalog_head store generation n bs" and "64 \<le> p" and "p + length v \<le> length bs"
  shows "catalog_head store generation n (overwrite bs p v)"
  using assms by (intro catalog_head_cong [OF assms(1)]) (simp_all add: subrange_overwrite_before)

lemma catalog_head_checksum:
  assumes "catalog_head store generation n bs"
  shows "catalog_head store generation n (put_checksum crc bs 12)"
  using catalog_head_bound [OF assms]
  by (intro catalog_head_cong [OF assms]) (simp_all add: subrange_put_checksum)

lemma Contents_allocate_iff:
  assumes store: "length store = 16"
  shows "(\<exists>c. Contents_allocate granted store generation n = Inr c) \<longleftrightarrow>
           granted \<and> store \<noteq> replicate 16 0 \<and> generation \<noteq> 0 \<and> catalog_size n \<le> 2 ^ 63 - 1"
    and "Contents_allocate granted store generation n = Inr c \<Longrightarrow>
           catalog_head store generation n (ct_bytes c) \<and> slots_at 128 (length (ct_bytes c)) (ct_bytes c) []"
proof -
  let ?sz = "catalog_size n"
  define s :: u64 where "s = word_of_nat ?sz"
  define m :: u64 where "m = word_of_nat n"
  let ?fs = "[(0, ascii ''CASCAT02''), (8, le_of_nat 2 2), (10, le_of_nat 2 128), (16, store),
     (32, le_of_nat 8 (unat generation)), (40, le_of_nat 8 (unat m)), (48, le_of_nat 8 (unat s))]"
  let ?bs = "write_fields (replicate ?sz 0) ?fs"
  have sz: "64 \<le> ?sz" using catalog_size_props(1) [of n] by simp
  have alloc: "Contents_allocate granted store generation n = Inr c \<longleftrightarrow>
      granted \<and> store \<noteq> replicate 16 0 \<and> generation \<noteq> 0 \<and> ?sz \<le> 2 ^ 63 - 1 \<and> c = \<lparr>ct_bytes = ?bs\<rparr>" for c
    using catalog_size_props [of n]
    by (auto simp: Contents_allocate_def encoded_size_iff AlignedBuffer_zeroed write_fields_def put16_def
        put64_def Let_def ENTRY_def s_def m_def)
  show "(\<exists>c. Contents_allocate granted store generation n = Inr c) \<longleftrightarrow>
           granted \<and> store \<noteq> replicate 16 0 \<and> generation \<noteq> 0 \<and> catalog_size n \<le> 2 ^ 63 - 1"
    by (auto simp: alloc)
  assume "Contents_allocate granted store generation n = Inr c"
  then have c: "c = \<lparr>ct_bytes = ?bs\<rparr>" and lim: "?sz \<le> 2 ^ 63 - 1" and ids: "store \<noteq> replicate 16 0" "generation \<noteq> 0"
    by (auto simp: alloc)
  have ok: "fields_ok 0 (length (replicate ?sz (0 :: byte))) ?fs" using store sz by simp
  have len: "length ?bs = ?sz" using length_write_fields [OF ok] by simp
  have "unat s = ?sz" "unat m = n"
    using lim catalog_size_props(1) [of n] by (simp_all add: s_def m_def unat_of_nat)
  moreover have "subrange ?bs 0 8 = ascii ''CASCAT02''" "u16_at ?bs 8 = 2" "u16_at ?bs 10 = 128"
    "id_at ?bs 16 = store" "u64_at ?bs 32 = generation" "u64_at ?bs 40 = m" "u64_at ?bs 48 = s"
    "subrange ?bs 56 8 = replicate 8 0"
    using store sz by (simp_all add: id_at_def field_reads [OF ok] field_gaps [OF ok] subrange_replicate)
  ultimately have "catalog_head store generation n ?bs" using len lim ids store by (simp add: catalog_head_def)
  moreover have "slots_at 128 ?sz ?bs []"
    by (rule slots_at_fields [OF slots_at_zeros]) (use sz store in simp_all)
  ultimately show "catalog_head store generation n (ct_bytes c) \<and> slots_at 128 (length (ct_bytes c)) (ct_bytes c) []"
    by (simp add: c len)
qed

definition entries_valid :: "Id \<Rightarrow> CatalogEntry list \<Rightarrow> bool" where
  "entries_valid store es \<longleftrightarrow>
     (\<forall>e \<in> set es. Entry_typed e \<and> Entry_validate e store = Inr ()) \<and> sorted_wrt (<) (map ce_id es)"

definition represents :: "(bytes \<Rightarrow> u32) \<Rightarrow> Id \<Rightarrow> u64 \<Rightarrow> CatalogEntry list \<Rightarrow> Contents \<Rightarrow> bool" where
  "represents crc store generation es c \<longleftrightarrow>
     catalog_head store generation (length es) (ct_bytes c) \<and>
     u32_at (ct_bytes c) 12 = checksum crc (ct_bytes c) 12 \<and>
     slots_at 128 (length (ct_bytes c)) (ct_bytes c) (map entry_slot es) \<and> entries_valid store es"

lemma Entry_validate_store: "Entry_validate e store = Inr () \<Longrightarrow> entry_of_store store e"
  by (auto simp: Entry_validate_def entry_of_store_def split: CatalogKind.splits)

lemma zeros_least: "bs \<noteq> replicate (length bs) 0 \<Longrightarrow> replicate (length bs) 0 < (bs :: bytes)"
proof (induction bs)
  case (Cons b bs)
  then show ?case by (cases "b = 0") (auto simp: word_gt_0)
qed simp

lemma valid_id_positive:
  "Entry_typed e \<Longrightarrow> Entry_validate e store = Inr () \<Longrightarrow> replicate 16 0 < ce_id e"
  using zeros_least [of "ce_id e"] by (simp add: Entry_typed_def Entry_validate_def)

lemma represents_reads:
  assumes "represents crc store generation es c"
  shows "Contents_store c = store" and "Contents_generation c = generation" and "Contents_len c = length es"
    and "Contents_records c = map entry_slot es" and "Contents_entries c = es"
    and "map (\<lambda>r. id_at r 0) (Contents_records c) = map ce_id es"
proof -
  from assms have head: "catalog_head store generation (length es) (ct_bytes c)"
    and sl: "slots_at 128 (length (ct_bytes c)) (ct_bytes c) (map entry_slot es)"
    and ok: "\<forall>e \<in> set es. Entry_typed e \<and> Entry_validate e store = Inr ()"
    by (auto simp: represents_def entries_valid_def)
  show st: "Contents_store c = store" "Contents_generation c = generation" and len: "Contents_len c = length es"
    using head by (simp_all add: catalog_head_def Contents_store_def Contents_generation_def Contents_len_def)
  show rs: "Contents_records c = map entry_slot es"
    using slots_at_chunks [OF sl] len by (simp add: Contents_records_def catalog_constants mult.commute)
  show "Contents_entries c = es"
    using ok by (auto simp: Contents_entries_def rs st comp_def entry_slot_layout(4) Entry_validate_store
        intro!: map_idI)
  show "map (\<lambda>r. id_at r 0) (Contents_records c) = map ce_id es"
    using ok by (auto simp: rs entry_slot_layout(2))
qed

text \<open>The parser accepts exactly the buffers that represent a valid sorted list of entries.\<close>

lemma represents_validates:
  assumes "represents crc store generation es c"
  shows "Contents_validate crc c store = Inr ()"
proof -
  from assms have head: "catalog_head store generation (length es) (ct_bytes c)"
    and crc: "u32_at (ct_bytes c) 12 = checksum crc (ct_bytes c) 12"
    and sl: "slots_at 128 (length (ct_bytes c)) (ct_bytes c) (map entry_slot es)"
    and ok: "\<forall>e \<in> set es. Entry_typed e \<and> Entry_validate e store = Inr ()" and so: "sorted_wrt (<) (map ce_id es)"
    by (auto simp: represents_def entries_valid_def)
  note r = represents_reads [OF assms]
  have hd: "catalog_header (ct_bytes c) store = Inr (length (ct_bytes c))"
    using head catalog_head_bound [OF head] by (simp add: catalog_header_def catalog_head_def encoded_size_iff catalog_constants)
  have "check_records store (replicate 16 0) (map entry_slot es) = Inr ()"
  proof -
    have "record_ok (entry_slot e) \<and> Entry_validate (entry_decode (entry_slot e) store) store = Inr () \<and>
        replicate 16 0 < id_at (entry_slot e) 0" if "e \<in> set es" for e
      using that ok entry_slot_layout [of e] Entry_validate_store valid_id_positive [of e store] by simp
    then show ?thesis using so by (simp add: check_records_iff r(6) [unfolded r(4)] del: map_map)
  qed
  moreover have "all_zero (drop (64 + length es * 128) (ct_bytes c))"
    using slots_at_tail_drop [OF sl] by (simp add: mult.commute)
  ultimately show ?thesis using hd crc r by (simp add: Contents_validate_def catalog_constants)
qed

lemma validate_represents:
  assumes v: "Contents_validate crc c store = Inr ()"
  shows "represents crc store (Contents_generation c) (Contents_entries c) c"
proof -
  let ?bs = "ct_bytes c" and ?n = "Contents_len c"
  let ?rs = "Contents_records c" and ?es = "Contents_entries c"
  from v have len: "64 \<le> length ?bs" and tag: "subrange ?bs 0 8 = ascii ''CASCAT02''" "u16_at ?bs 8 = 2"
      "unat (u16_at ?bs 10) = 128"
    and st: "store \<noteq> replicate 16 0" "id_at ?bs 16 = store" "u64_at ?bs 32 \<noteq> 0" and z: "all_zero (subrange ?bs 56 8)"
    and sz: "length ?bs = catalog_size ?n" "length ?bs \<le> 2 ^ 63 - 1" "unat (u64_at ?bs 48) = length ?bs"
    and crc: "u32_at ?bs 12 = checksum crc ?bs 12"
    and chk: "check_records store (replicate 16 0) ?rs = Inr ()"
    and tail: "all_zero (drop (64 + ?n * 128) ?bs)"
    by (auto simp: Contents_validate_def catalog_header_def encoded_size_iff catalog_constants Contents_len_def)
  have fit: "64 + 128 * ?n \<le> length ?bs" using catalog_size_props(1) [of ?n] sz(1) by simp
  have rs: "?rs = chunks 128 (subrange ?bs 64 (128 * ?n))"
    by (simp add: Contents_records_def catalog_constants mult.commute)
  have lens: "\<forall>r \<in> set ?rs. length r = 128" and n: "length ?rs = ?n"
    unfolding rs using fit by (auto simp: chunks_subrange)
  have store: "Contents_store c = store" using st(2) by (simp add: Contents_store_def)
  have slots: "map entry_slot ?es = ?rs"
    using lens chk unfolding Contents_entries_def store map_map
    by (intro map_idI) (simp add: check_records_iff record_canonical)
  have "concat ?rs = subrange ?bs 64 (128 * ?n)"
    unfolding rs by (rule concat_chunks) (use fit in simp_all)
  moreover have "subrange ?bs 64 (length ?bs - 64) =
      subrange ?bs 64 (128 * ?n) @ drop (64 + 128 * ?n) ?bs"
    using fit by (simp add: subrange_def) (metis append_take_drop_id drop_drop add.commute)
  ultimately have "slots_at 128 (length ?bs) ?bs ?rs"
    using lens n fit tail by (simp add: slots_at_def all_zero_iff mult.commute add.commute)
  moreover have "u16_at ?bs 10 = 128" using tag(3) by (simp add: word_unat_eq_iff)
  then have "catalog_head store (Contents_generation c) ?n ?bs"
    using len tag st z sz by (auto simp: catalog_head_def Contents_generation_def Contents_len_def id_at_def all_zero_iff)
  moreover have "entries_valid store ?es"
    using chk lens entry_decode_typed
    by (auto simp: entries_valid_def check_records_iff Contents_entries_def store entry_decode_id comp_def)
  ultimately show ?thesis using crc n slots by (simp add: represents_def) (simp add: Contents_entries_def)
qed

section \<open>Lookups and changes\<close>

lemma represents_sorted: "represents crc store generation es c \<Longrightarrow> sorted_wrt (<) (map ce_id es)"
  by (simp add: represents_def entries_valid_def)

lemma Contents_get_iff:
  assumes rep: "represents crc store generation es c"
  shows "Contents_get c i = Some e \<longleftrightarrow> e \<in> set es \<and> ce_id e = i"
proof -
  note r = represents_reads [OF rep]
  have pos: "Contents_position c i = Inr j \<longleftrightarrow> j < length es \<and> ce_id (es ! j) = i" for j
    using binary_search_found [OF represents_sorted [OF rep], of i j]
    by (auto simp: Contents_position_def r(6))
  have dec: "entry_decode (Contents_records c ! j) (Contents_store c) = es ! j" if "j < length es" for j
    using r(5) that by (metis Contents_entries_def length_map nth_map)
  have "distinct (map ce_id es)" using represents_sorted [OF rep] by (simp add: strict_sorted_iff)
  then have uniq: "es ! j = e" if "j < length es" "e \<in> set es" "ce_id (es ! j) = ce_id e" for j
    using that nth_mem [OF that(1)] by (auto simp: distinct_map inj_on_def)
  show ?thesis
  proof (cases "Contents_position c i")
    case (Inl p)
    then have "\<not> (j < length es \<and> ce_id (es ! j) = i)" for j using pos [of j] by simp
    then show ?thesis using Inl by (auto simp: Contents_get_def in_set_conv_nth)
  next
    case (Inr j)
    with pos [of j] have j: "j < length es" "ce_id (es ! j) = i" by auto
    have "Contents_get c i = Some (es ! j)" using Inr dec [OF j(1)] by (simp add: Contents_get_def)
    then show ?thesis using j uniq [OF j(1)] nth_mem [OF j(1)] by (metis option.inject)
  qed
qed

text \<open>The catalog as a set of entries, independent of the encoding.\<close>

fun apply_change :: "Change \<Rightarrow> CatalogEntry list \<Rightarrow> CatalogEntry list" where
  "apply_change (Insert e) es =
     takeWhile (\<lambda>x. ce_id x < ce_id e) es @ e # dropWhile (\<lambda>x. ce_id x < ce_id e) es"
| "apply_change (Remove i) es = filter (\<lambda>x. ce_id x \<noteq> i) es"

fun change_admissible :: "Id \<Rightarrow> Change \<Rightarrow> CatalogEntry list \<Rightarrow> bool" where
  "change_admissible store (Insert e) es \<longleftrightarrow>
     Entry_validate e store = Inr () \<and> ce_id e \<notin> ce_id ` set es"
| "change_admissible store (Remove i) es \<longleftrightarrow> i \<in> ce_id ` set es"

lemma takeWhile_position:
  assumes "n \<le> length xs" and "\<forall>j < n. P (xs ! j)" and "n < length xs \<Longrightarrow> \<not> P (xs ! n)"
  shows "takeWhile P xs = take n xs" and "dropWhile P xs = drop n xs"
proof -
  have "takeWhile P xs = take n xs"
    using assms by (intro takeWhile_eq_take_P_nth) auto
  then show "takeWhile P xs = take n xs" .
  then show "dropWhile P xs = drop n xs" by (metis append_take_drop_id same_append_eq takeWhile_dropWhile_id)
qed

lemma filter_position:
  assumes "distinct (map f xs)" and "n < length xs" and "f (xs ! n) = k"
  shows "filter (\<lambda>x. f x \<noteq> k) xs = take n xs @ drop (Suc n) xs"
proof -
  have split: "xs = take n xs @ xs ! n # drop (Suc n) xs" using assms(2) by (rule id_take_nth_drop)
  have "distinct (map f (take n xs @ xs ! n # drop (Suc n) xs))" using assms(1) split by simp
  then have "f (xs ! n) \<notin> f ` set (take n xs) \<union> f ` set (drop (Suc n) xs)" by auto
  then have "\<forall>x \<in> set (take n xs) \<union> set (drop (Suc n) xs). f x \<noteq> k"
    using assms(3) by (metis UnE UnI1 UnI2 imageI)
  then have "filter (\<lambda>x. f x \<noteq> k) (take n xs @ xs ! n # drop (Suc n) xs) = take n xs @ drop (Suc n) xs"
    using assms(3) by (simp add: filter_id_conv)
  then show ?thesis using split by simp
qed

lemma change_position_spec:
  assumes rep: "represents crc store generation es c"
  shows "(\<exists>p. change_position c change = Inr p) \<longleftrightarrow> change_admissible store change es"
    and "change_position c change = Inr (position, removed, inserted) \<Longrightarrow>
      position + removed \<le> length es \<and> removed \<le> 1 \<and>
      apply_change change es = take position es @ (case inserted of None \<Rightarrow> [] | Some e \<Rightarrow> [e]) @
        drop (position + removed) es \<and>
      (case change of Insert e \<Rightarrow> inserted = Some e \<and> removed = 0 | Remove i \<Rightarrow> inserted = None \<and> removed = 1)"
proof -
  note r = represents_reads [OF rep] and so = represents_sorted [OF rep]
  have found: "Contents_position c i = Inr j \<longleftrightarrow> j < length es \<and> ce_id (es ! j) = i" for i j
    using binary_search_found [OF so, of i j] by (auto simp: Contents_position_def r(6))
  have in_set: "(\<exists>j. Contents_position c i = Inr j) \<longleftrightarrow> i \<in> ce_id ` set es" for i
    by (force simp: found in_set_conv_nth)
  show "(\<exists>p. change_position c change = Inr p) \<longleftrightarrow> change_admissible store change es"
  proof (cases change)
    case (Insert e)
    then show ?thesis
      using in_set [of "ce_id e"] r(1) by (cases "Contents_position c (ce_id e)") (auto simp: change_position_def)
  next
    case (Remove i)
    then show ?thesis
      using in_set [of i] by (cases "Contents_position c i") (auto simp: change_position_def)
  qed
  assume cp: "change_position c change = Inr (position, removed, inserted)"
  show "position + removed \<le> length es \<and> removed \<le> 1 \<and>
      apply_change change es = take position es @ (case inserted of None \<Rightarrow> [] | Some e \<Rightarrow> [e]) @
        drop (position + removed) es \<and>
      (case change of Insert e \<Rightarrow> inserted = Some e \<and> removed = 0 | Remove i \<Rightarrow> inserted = None \<and> removed = 1)"
  proof (cases change)
    case (Insert e)
    with cp have p: "Contents_position c (ce_id e) = Inl position" "removed = 0" "inserted = Some e"
      by (auto simp: change_position_def split: sum.splits)
    have "binary_search (map ce_id es) (ce_id e) = Inl position"
      using p(1) by (simp add: Contents_position_def r(6))
    note m = binary_search_missing [OF so this]
    have tw: "takeWhile (\<lambda>x. ce_id x < ce_id e) es = take position es"
      "dropWhile (\<lambda>x. ce_id x < ce_id e) es = drop position es"
    proof (rule takeWhile_position, goal_cases)
      case 1 then show ?case using m by simp
    next
      case 2 then show ?case using m by simp
    next
      case 3 then show ?case using m(3) by (simp add: not_less less_imp_le)
    next
      case 4 then show ?case using m by (intro takeWhile_position) (auto simp: not_less less_imp_le)
    qed
    then show ?thesis using Insert p m(1) by simp
  next
    case (Remove i)
    with cp have p: "Contents_position c i = Inr position" "removed = 1" "inserted = None"
      by (auto simp: change_position_def split: sum.splits)
    then have j: "position < length es" "ce_id (es ! position) = i" using found by auto
    have "distinct (map ce_id es)" using so by (simp add: strict_sorted_iff)
    from filter_position [OF this j] show ?thesis using Remove p j by simp
  qed
qed

text \<open>Splicing the record array: prefix, new slot, suffix, all over a zeroed buffer.\<close>

lemma splice_zeros:
  fixes P S T :: bytes
  assumes "length P + length S + length T \<le> m"
  shows "overwrite (overwrite (overwrite (replicate m 0) 0 P) (length P + length S) T) (length P) S =
         P @ S @ T @ replicate (m - (length P + length S + length T)) 0"
    and "overwrite (overwrite (replicate m 0) 0 P) (length P + length S) T =
         P @ replicate (length S) 0 @ T @ replicate (m - (length P + length S + length T)) 0"
proof -
  show two: "overwrite (overwrite (replicate m 0) 0 P) (length P + length S) T =
         P @ replicate (length S) 0 @ T @ replicate (m - (length P + length S + length T)) 0"
    using assms by (auto simp: overwrite_def min_def)
  show "overwrite (overwrite (overwrite (replicate m 0) 0 P) (length P + length S) T) (length P) S =
         P @ S @ T @ replicate (m - (length P + length S + length T)) 0"
    unfolding two by (simp add: overwrite_def)
qed

lemma body_overwrite:
  assumes "64 \<le> p" and "p + length v \<le> length bs"
  shows "subrange (overwrite bs p v) 64 (length bs - 64) = overwrite (subrange bs 64 (length bs - 64)) (p - 64) v"
  using assms by (intro subrange_overwrite_inside) auto

lemma array_parts:
  assumes "slots_at 128 (length bs) bs ss" and "a + k \<le> length ss"
  shows "subrange bs (64 + a * 128) (k * 128) = concat (take k (drop a ss))"
proof -
  have u: "\<forall>s \<in> set ss. length s = 128" using assms(1) by (simp add: slots_at_def)
  have "a * 128 + k * 128 \<le> 128 * length ss" using assms(2) by simp
  then have "subrange bs (64 + a * 128) (k * 128) = subrange (concat ss) (a * 128) (k * 128)"
    using subrange_subrange [of "a * 128" "k * 128" "128 * length ss" bs 64] slots_at_array [OF assms(1)] by simp
  also have "concat ss = concat (take a ss) @ concat (take k (drop a ss)) @ concat (drop k (drop a ss))"
    by (metis append_take_drop_id concat_append)
  finally have split: "subrange bs (64 + a * 128) (k * 128) = subrange
      (concat (take a ss) @ concat (take k (drop a ss)) @ concat (drop k (drop a ss))) (a * 128) (k * 128)" .
  have uni: "\<forall>s \<in> set (take a ss). length s = 128" "\<forall>s \<in> set (take k (drop a ss)). length s = 128"
    using u by (auto dest: in_set_takeD in_set_dropD)
  have "length (concat (take a ss)) = a * 128" "length (concat (take k (drop a ss))) = k * 128"
    using assms(2) length_concat_uniform [OF uni(1)] length_concat_uniform [OF uni(2)] by simp_all
  then show ?thesis unfolding split by (simp add: subrange_def)
qed

lemma splice_body:
  fixes es :: "CatalogEntry list" and e :: "CatalogEntry option" and q d :: nat
  defines "es' \<equiv> take q es @ (case e of None \<Rightarrow> [] | Some e \<Rightarrow> [e]) @ drop (q + d) es"
  assumes old: "slots_at 128 (length (ct_bytes c)) (ct_bytes c) (map entry_slot es)" and q: "q + d \<le> length es"
    and n: "Contents_len c = length es"
    and fresh: "slots_at 128 (length bs) bs []" and fit: "64 + 128 * length es' \<le> length bs"
    and typed: "\<forall>x \<in> set es'. Entry_typed x"
  defines "b3 \<equiv> splice_records c q d e bs"
  shows "length b3 = length bs" and "slots_at 128 (length bs) b3 (map entry_slot es')"
    and "subrange b3 0 64 = subrange bs 0 64"
proof -
  let ?P = "concat (take q (map entry_slot es))" and ?T = "concat (drop (q + d) (map entry_slot es))"
  let ?S = "concat (case e of None \<Rightarrow> [] | Some e \<Rightarrow> [entry_slot e])"
  let ?m = "length bs - 64" and ?cs = "ct_bytes c"
  define k where "k = inserted_count e"
  define b1 where "b1 = overwrite bs 64 (subrange ?cs 64 (q * 128))"
  define b2 where "b2 = overwrite b1 (64 + q * 128 + k * 128)
     (subrange ?cs (64 + q * 128 + d * 128) (length es * 128 - (q * 128 + d * 128)))"
  have b3_eq: "b3 = (case e of None \<Rightarrow> b2
     | Some e \<Rightarrow> overwrite b2 (64 + q * 128) (entry_encode e (subrange b2 (64 + q * 128) 128)))"
    by (cases e) (simp_all add: b3_def splice_records_def b2_def b1_def k_def n catalog_constants Let_def)
  have u: "\<forall>s \<in> set (map entry_slot es). length s = 128" using old by (simp add: slots_at_def)
  have P: "subrange ?cs 64 (q * 128) = ?P" using array_parts [OF old, of 0 q] q by simp
  have "length es * 128 - (q * 128 + d * 128) = (length es - (q + d)) * 128" by (simp add: algebra_simps)
  moreover have "64 + q * 128 + d * 128 = 64 + (q + d) * 128" by simp
  ultimately have T: "subrange ?cs (64 + q * 128 + d * 128) (length es * 128 - (q * 128 + d * 128)) = ?T"
    using array_parts [OF old, of "q + d" "length es - (q + d)"] q by (simp only: length_map) simp
  have uni: "\<forall>s \<in> set (take q (map entry_slot es)). length s = 128" "\<forall>s \<in> set (drop (q + d) (map entry_slot es)). length s = 128"
    using u by (blast dest: in_set_takeD in_set_dropD)+
  have lP: "length ?P = q * 128" "length ?T = (length es - (q + d)) * 128"
    using q length_concat_uniform [OF uni(1)] length_concat_uniform [OF uni(2)] by simp_all
  have lS: "length ?S = k * 128"
    using typed entry_slot_layout(1) by (auto simp: k_def inserted_count_def es'_def split: option.splits)
  have total: "length ?P + length ?S + length ?T \<le> ?m"
    using fit q lP lS by (auto simp: es'_def k_def inserted_count_def split: option.splits)
  have zero: "subrange bs 64 ?m = replicate ?m 0" "64 \<le> length bs"
    using fresh by (auto simp: slots_at_def)
  have l1: "length b1 = length bs" "length b2 = length bs"
    using total lP lS zero(2) by (simp_all add: b1_def b2_def P T)
  have b2: "subrange b2 64 ?m = ?P @ replicate (length ?S) 0 @ ?T @ replicate (?m - (length ?P + length ?S + length ?T)) 0"
    using body_overwrite [of "64 + q * 128 + k * 128" ?T b1] body_overwrite [of 64 ?P bs] zero total lP lS l1
      splice_zeros(2) [OF total]
    by (simp add: b1_def b2_def P T)
  have gap: "subrange b2 (64 + q * 128) (length ?S) = replicate (length ?S) 0"
    using subrange_subrange [of "q * 128" "length ?S" ?m b2 64] b2 total lP by (simp add: subrange_def)
  have b3: "b3 = overwrite b2 (64 + q * 128) ?S"
  proof (cases e)
    case None
    then show ?thesis by (simp add: b3_eq overwrite_def)
  next
    case (Some x)
    then show ?thesis using gap lS by (simp add: b3_eq entry_slot_def k_def inserted_count_def)
  qed
  show "length b3 = length bs" using l1 total lP zero(2) by (simp add: b3)
  have "subrange b3 64 ?m = overwrite (subrange b2 64 ?m) (q * 128) ?S"
    using body_overwrite [of "64 + q * 128" ?S b2] l1 total lP zero(2) by (simp add: b3)
  also have "\<dots> = ?P @ ?S @ ?T @ replicate (?m - (length ?P + length ?S + length ?T)) 0"
    unfolding b2 using lP by (simp add: overwrite_def)
  finally have body: "subrange b3 64 ?m = concat (map entry_slot es') @ replicate (?m - (length ?P + length ?S + length ?T)) 0"
    by (simp add: es'_def take_map drop_map split: option.splits)
  have "length ?P + length ?S + length ?T = 128 * length es'"
    using q lP lS by (auto simp: es'_def k_def inserted_count_def split: option.splits)
  then show "slots_at 128 (length bs) b3 (map entry_slot es')"
    using body fit typed entry_slot_layout(1) \<open>length b3 = length bs\<close> by (auto simp: slots_at_def)
  show "subrange b3 0 64 = subrange bs 0 64"
    using l1 total lP lS zero(2) by (simp add: b3 b2_def b1_def P T subrange_overwrite_before)
qed

lemma apply_change_sorted:
  assumes "sorted_wrt (<) (map ce_id es)" and "change_admissible store change es"
  shows "sorted_wrt (<) (map ce_id (apply_change change es))"
proof (cases change)
  case (Insert e)
  then have "ce_id e \<notin> ce_id ` set es" using assms(2) by simp
  with assms(1) have "sorted_wrt (<) (map ce_id (apply_change (Insert e) es))"
  proof (induction es)
    case (Cons x es)
    then show ?case
      by (cases "ce_id x < ce_id e") (auto simp: not_less dest: set_takeWhileD set_dropWhileD intro: order.strict_trans)
  qed simp
  then show ?thesis using Insert by simp
next
  case (Remove i)
  then show ?thesis using assms(1) by (simp add: sorted_wrt_map sorted_wrt_filter)
qed

lemma apply_change_set:
  "set (apply_change change es) =
   (case change of Insert e \<Rightarrow> insert e (set es) | Remove i \<Rightarrow> {x \<in> set es. ce_id x \<noteq> i})"
proof (cases change)
  case (Insert e)
  have "set (takeWhile P es) \<union> set (dropWhile P es) = set es" for P
    by (metis set_append takeWhile_dropWhile_id)
  then show ?thesis using Insert by auto
qed auto

fun change_typed :: "Change \<Rightarrow> bool" where
  "change_typed (Insert e) \<longleftrightarrow> Entry_typed e"
| "change_typed (Remove i) \<longleftrightarrow> length i = 16"

lemma apply_change_valid:
  assumes "entries_valid store es" and "change_admissible store change es" and "change_typed change"
  shows "entries_valid store (apply_change change es)"
  unfolding entries_valid_def apply_change_set
  using assms apply_change_sorted [OF _ assms(2)]
  by (cases change) (auto simp: entries_valid_def)

lemma Contents_seal_represents:
  assumes "catalog_head store generation (length es) bs" and "slots_at 128 (length bs) bs (map entry_slot es)"
    and "entries_valid store es"
  shows "represents crc store generation es (Contents_seal crc \<lparr>ct_bytes = bs\<rparr>)"
  using assms catalog_head_bound [OF assms(1)] slots_at_checksum [OF assms(2), of 12 crc]
  by (simp add: represents_def Contents_seal_def CRC_def catalog_head_checksum put_checksum_verifies)

lemma changed_steps:
  assumes rep: "represents crc store generation es c"
  shows "Contents_changed crc granted c change = Inr c' \<longleftrightarrow>
    (\<exists>p d e fresh. change_position c change = Inr (p, d, e) \<and> unat generation + 1 < 2 ^ 64 \<and>
       Contents_allocate granted store (generation + 1) (length es - d + inserted_count e) = Inr fresh \<and>
       c' = Contents_seal crc \<lparr>ct_bytes = splice_records c p d e (ct_bytes fresh)\<rparr>)"
proof -
  note r = represents_reads [OF rep]
  have "length es * 128 + 64 \<le> 2 ^ 63 - 1"
    using rep catalog_size_props(1) [of "length es"] by (simp add: represents_def catalog_head_def)
  then have "length es - d + inserted_count e \<le> u64_max" for d e
    by (auto simp: u64_max_def inserted_count_def split: option.splits)
  then show ?thesis
    by (fastforce simp: Contents_changed_def r checked_add_Some)
qed

lemma change_length:
  assumes "represents crc store generation es c" and "change_position c change = Inr (p, d, e)"
  shows "length (apply_change change es) = length es - d + inserted_count e"
  using change_position_spec(2) [OF assms] by (auto simp: inserted_count_def split: option.splits)

lemma Contents_changed_represents:
  assumes rep: "represents crc store generation es c" and typed: "change_typed change"
    and ch: "Contents_changed crc granted c change = Inr c'"
  shows "represents crc store (generation + 1) (apply_change change es) c'"
proof -
  from rep have head: "catalog_head store generation (length es) (ct_bytes c)"
    and old: "slots_at 128 (length (ct_bytes c)) (ct_bytes c) (map entry_slot es)"
    and valid: "entries_valid store es" by (auto simp: represents_def)
  from head have store: "length store = 16" by (simp add: catalog_head_def)
  from ch obtain p d e fresh where cp: "change_position c change = Inr (p, d, e)"
    and fresh: "Contents_allocate granted store (generation + 1) (length es - d + inserted_count e) = Inr fresh"
    and c': "c' = Contents_seal crc \<lparr>ct_bytes = splice_records c p d e (ct_bytes fresh)\<rparr>"
    by (auto simp: changed_steps [OF rep])
  have adm: "change_admissible store change es" using change_position_spec(1) [OF rep, of change] cp by blast
  let ?es = "take p es @ (case e of None \<Rightarrow> [] | Some e \<Rightarrow> [e]) @ drop (p + d) es"
  have es': "apply_change change es = ?es" and pd: "p + d \<le> length es"
    using change_position_spec(2) [OF rep cp] by auto
  have v': "entries_valid store ?es" using apply_change_valid [OF valid adm typed] es' by simp
  have al: "catalog_head store (generation + 1) (length ?es) (ct_bytes fresh)"
    "slots_at 128 (length (ct_bytes fresh)) (ct_bytes fresh) []"
    using Contents_allocate_iff(2) [OF store fresh] change_length [OF rep cp] es' by simp_all
  have fit: "64 + 128 * length ?es \<le> length (ct_bytes fresh)"
    using al(1) catalog_size_props(1) [of "length ?es"] unfolding catalog_head_def by linarith
  have ty: "\<forall>x \<in> set ?es. Entry_typed x" using v' unfolding entries_valid_def by blast
  note body = splice_body [OF old pd represents_reads(3) [OF rep] al(2) fit ty]
  have "catalog_head store (generation + 1) (length ?es) (splice_records c p d e (ct_bytes fresh))"
    by (rule catalog_head_cong [OF al(1) body(1)]) (auto intro: get_prefix(4) [OF body(3)])
  then show ?thesis
    unfolding c' es' using body(1,2) v' by (intro Contents_seal_represents) simp_all
qed

lemma Contents_changed_accepts:
  assumes rep: "represents crc store generation es c"
  shows "(\<exists>c'. Contents_changed crc granted c change = Inr c') \<longleftrightarrow>
      change_admissible store change es \<and> unat generation + 1 < 2 ^ 64 \<and> granted \<and>
      catalog_size (length (apply_change change es)) \<le> 2 ^ 63 - 1"
proof -
  from rep have store: "length store = 16" "store \<noteq> replicate 16 0"
    by (auto simp: represents_def catalog_head_def)
  have gen: "generation + 1 \<noteq> 0" if "unat generation + 1 < 2 ^ 64"
    using that unat_add_u64 [of generation 1] by (auto simp: unat_eq_zero [symmetric])
  note alloc = Contents_allocate_iff(1) [OF store(1), of granted "generation + 1"]
  show ?thesis
  proof (cases "change_position c change")
    case (Inl err)
    then show ?thesis
      using change_position_spec(1) [OF rep, of change] by (auto simp: changed_steps [OF rep])
  next
    case (Inr p)
    obtain q d e where p: "p = (q, d, e)" by (cases p)
    show ?thesis
      using Inr p change_position_spec(1) [OF rep, of change] change_length [OF rep, of change q d e]
        alloc [of "length es - d + inserted_count e"] store(2) gen
      by (auto simp: changed_steps [OF rep])
  qed
qed

section \<open>Initial membership and reading\<close>

lemma initial_entries_step:
  fixes bs :: bytes and e :: CatalogEntry and i :: nat
  assumes sl: "slots_at 128 (length bs) bs (map entry_slot ds)" and i: "i = length ds"
    and fit: "64 + 128 * (i + length (e # es)) \<le> length bs" and typed: "Entry_typed e"
  defines "b \<equiv> overwrite bs (64 + 128 * i) (entry_slot e)"
  shows "initial_entries store i previous (e # es) bs = Inr cs \<longleftrightarrow>
      Entry_validate e store = Inr () \<and> previous < ce_id e \<and> initial_entries store (Suc i) (ce_id e) es b = Inr cs"
    and "slots_at 128 (length b) b (map entry_slot (ds @ [e]))" and "length b = length bs"
    and "subrange b 0 64 = subrange bs 0 64"
proof -
  have e: "length (entry_slot e) = 128" using typed entry_slot_layout(1) by simp
  have room: "64 + 128 * Suc (length (map entry_slot ds)) \<le> length bs" using i fit by simp
  show len: "length b = length bs" using fit e by (simp add: b_def)
  show "slots_at 128 (length b) b (map entry_slot (ds @ [e]))"
    unfolding len using slots_at_push [OF sl room e] i by (simp add: b_def)
  show "subrange b 0 64 = subrange bs 0 64" using fit e by (simp add: b_def subrange_overwrite_before)
  show "initial_entries store i previous (e # es) bs = Inr cs \<longleftrightarrow>
      Entry_validate e store = Inr () \<and> previous < ce_id e \<and> initial_entries store (Suc i) (ce_id e) es b = Inr cs"
    using slots_at_fresh [OF sl room] i
    by (auto simp: b_def catalog_constants entry_slot_def mult.commute Let_def)
qed

lemma initial_entries_spec:
  assumes "slots_at 128 (length bs) bs (map entry_slot ds)" and "i = length ds"
    and "64 + 128 * (i + length es) \<le> length bs" and "\<forall>e \<in> set es. Entry_typed e"
  shows "initial_entries store i previous es bs = Inr cs \<Longrightarrow>
      length cs = length bs \<and> subrange cs 0 64 = subrange bs 0 64 \<and>
      slots_at 128 (length cs) cs (map entry_slot (ds @ es)) \<and>
      (\<forall>e \<in> set es. Entry_validate e store = Inr () \<and> previous < ce_id e) \<and> sorted_wrt (<) (map ce_id es)"
    and "(\<forall>e \<in> set es. Entry_validate e store = Inr () \<and> previous < ce_id e) \<Longrightarrow>
      sorted_wrt (<) (map ce_id es) \<Longrightarrow> \<exists>cs. initial_entries store i previous es bs = Inr cs"
  using assms
proof (induction es arbitrary: ds i previous bs)
  case (Cons e es)
  {
    case (1 ds i previous bs)
    have ty: "Entry_typed e" using 1(5) by simp
    note st = initial_entries_step [OF 1(2-4) ty]
    from 1(1) have v: "Entry_validate e store = Inr ()" "previous < ce_id e"
      and rest: "initial_entries store (Suc i) (ce_id e) es (overwrite bs (64 + 128 * i) (entry_slot e)) = Inr cs"
      unfolding st(1) by auto
    show ?case
      using Cons.IH(1) [OF rest st(2)] 1 st(3,4) v by (auto intro: order.strict_trans)
  next
    case (2 ds i previous bs)
    have ty: "Entry_typed e" using 2(6) by simp
    note st = initial_entries_step [OF 2(3-5) ty]
    have "\<exists>cs. initial_entries store (Suc i) (ce_id e) es (overwrite bs (64 + 128 * i) (entry_slot e)) = Inr cs"
      by (rule Cons.IH(2) [OF _ _ st(2)]) (use 2 st(3) in auto)
    then show ?case using 2(1) st(1) by auto
  }
qed auto

lemma Contents_initial_spec:
  assumes typed: "\<forall>e \<in> set es. Entry_typed e" and store: "length store = 16"
  shows "Contents_initial crc granted store es = Inr c \<Longrightarrow> represents crc store 1 es c"
    and "(\<exists>c. Contents_initial crc granted store es = Inr c) \<longleftrightarrow>
      granted \<and> store \<noteq> replicate 16 0 \<and> catalog_size (length es) \<le> 2 ^ 63 - 1 \<and> entries_valid store es"
proof -
  have fit: "64 + 128 * (0 + length es) \<le> length (ct_bytes f)" and f: "slots_at 128 (length (ct_bytes f)) (ct_bytes f) (map entry_slot [])"
    and hd: "catalog_head store 1 (length es) (ct_bytes f)"
    if "Contents_allocate granted store 1 (length es) = Inr f" for f
    using Contents_allocate_iff(2) [OF store that] catalog_size_props(1) [of "length es"]
    unfolding catalog_head_def by auto
  have steps: "Contents_initial crc granted store es = Inr c \<longleftrightarrow>
      (\<exists>f bs. Contents_allocate granted store 1 (length es) = Inr f \<and>
         initial_entries store 0 (replicate 16 0) es (ct_bytes f) = Inr bs \<and> c = Contents_seal crc \<lparr>ct_bytes = bs\<rparr>)" for c
    by (auto simp: Contents_initial_def)
  have rep: "represents crc store 1 es c" if "Contents_initial crc granted store es = Inr c" for c
  proof -
    from that obtain fr bs where al: "Contents_allocate granted store 1 (length es) = Inr fr"
      and ini: "initial_entries store 0 (replicate 16 0) es (ct_bytes fr) = Inr bs"
      and c: "c = Contents_seal crc \<lparr>ct_bytes = bs\<rparr>" by (auto simp: steps)
    from initial_entries_spec(1) [OF f [OF al] _ fit [OF al] typed ini]
    have b: "length bs = length (ct_bytes fr)" "subrange bs 0 64 = subrange (ct_bytes fr) 0 64"
      "slots_at 128 (length bs) bs (map entry_slot es)" and v: "entries_valid store es"
      using typed by (auto simp: entries_valid_def)
    have "catalog_head store 1 (length es) bs"
      by (rule catalog_head_cong [OF hd [OF al] b(1)]) (auto intro: get_prefix(4) [OF b(2)])
    then show ?thesis unfolding c by (rule Contents_seal_represents [OF _ b(3) v])
  qed
  then show "Contents_initial crc granted store es = Inr c \<Longrightarrow> represents crc store 1 es c" .
  from rep have "Contents_initial crc granted store es = Inr c \<Longrightarrow> entries_valid store es" for c
    unfolding represents_def by blast
  moreover have "\<exists>c. Contents_initial crc granted store es = Inr c"
    if al: "Contents_allocate granted store 1 (length es) = Inr fr" and v: "entries_valid store es" for fr
  proof -
    have "\<forall>e \<in> set es. Entry_validate e store = Inr () \<and> replicate 16 0 < ce_id e"
      using v valid_id_positive by (auto simp: entries_valid_def)
    then have "\<exists>bs. initial_entries store 0 (replicate 16 0) es (ct_bytes fr) = Inr bs"
      using v by (intro initial_entries_spec(2) [OF f [OF al] _ fit [OF al] typed]) (auto simp: entries_valid_def)
    then show ?thesis using al by (auto simp: steps)
  qed
  ultimately show "(\<exists>c. Contents_initial crc granted store es = Inr c) \<longleftrightarrow>
      granted \<and> store \<noteq> replicate 16 0 \<and> catalog_size (length es) \<le> 2 ^ 63 - 1 \<and> entries_valid store es"
    using Contents_allocate_iff(1) [OF store, of granted 1 "length es"] by (auto simp: steps)
qed

text \<open>Reading a file keeps its bytes; nothing that fails validation is returned.\<close>

lemma Contents_read_valid:
  assumes "Contents_read crc granted file store = Inr c"
  shows "ct_bytes c = file" and "Contents_validate crc c store = Inr ()"
proof -
  have zero: "overwrite (replicate n x) 0 v = v" if "length v = n" for n and x :: byte and v
    using that by (simp add: overwrite_def)
  have full: "overwrite (overwrite (replicate (length file) 0) 0 (subrange file 0 4096)) 4096
      (subrange file 4096 (length file - 4096)) = file" if "4096 \<le> length file"
    using that by (simp add: overwrite_def subrange_def)
  have "ct_bytes c = file \<and> Contents_validate crc c store = Inr ()"
    using assms full
    by (auto simp: Contents_read_def catalog_constants AlignedBuffer_zeroed Let_def zero subrange_prefix
        split: if_splits)
  then show "ct_bytes c = file" "Contents_validate crc c store = Inr ()" by simp_all
qed

section \<open>Properties\<close>

text \<open>
  C28. The catalog parser accepts exactly the canonical encodings: a buffer validates for a store if
  and only if it represents its own decoded entries, i.e. head, record array, padding and checksum
  are the encoding of a list of valid entries with strictly ascending identifiers.
\<close>
theorem catalog_parser_exact:
  "Contents_validate crc c store = Inr () \<longleftrightarrow>
   represents crc store (Contents_generation c) (Contents_entries c) c"
  using represents_validates validate_represents by blast

text \<open>
  C23. A catalog change refines the change of the entry list. On any validated catalog a change
  succeeds exactly when the identifier is absent (insertion of a valid entry) or present (removal),
  the generation does not overflow, the buffer is granted and the encoded length fits; the result
  validates, keeps the store, has the next generation and holds exactly the changed entry list.
\<close>
theorem catalog_change_refines:
  assumes "Contents_validate crc c store = Inr ()" and "change_typed change"
  shows "((\<exists>c'. Contents_changed crc granted c change = Inr c') \<longleftrightarrow>
            change_admissible store change (Contents_entries c) \<and>
            unat (Contents_generation c) + 1 < 2 ^ 64 \<and> granted \<and>
            catalog_size (length (apply_change change (Contents_entries c))) \<le> 2 ^ 63 - 1) \<and>
         (\<forall>c'. Contents_changed crc granted c change = Inr c' \<longrightarrow>
            Contents_validate crc c' store = Inr () \<and> Contents_store c' = store \<and>
            Contents_generation c' = Contents_generation c + 1 \<and>
            Contents_entries c' = apply_change change (Contents_entries c))"
proof -
  have rep: "represents crc store (Contents_generation c) (Contents_entries c) c"
    by (rule validate_represents [OF assms(1)])
  have "Contents_validate crc c' store = Inr () \<and> Contents_store c' = store \<and>
        Contents_generation c' = Contents_generation c + 1 \<and>
        Contents_entries c' = apply_change change (Contents_entries c)"
    if "Contents_changed crc granted c change = Inr c'" for c'
  proof -
    note r = Contents_changed_represents [OF rep assms(2) that]
    show ?thesis using represents_validates [OF r] represents_reads [OF r] by simp
  qed
  with Contents_changed_accepts [OF rep, of granted change] show ?thesis by simp
qed

definition demo_entry :: CatalogEntry where
  "demo_entry = \<lparr>ce_id = replicate 16 1, ce_kind = Image 8192\<rparr>"

lemma demo_catalog:
  "\<exists>c. Contents_initial (\<lambda>_. 0) True (replicate 16 9) [] = Inr c \<and>
       represents (\<lambda>_. 0) (replicate 16 9) 1 [] c"
proof -
  have "catalog_size (length []) \<le> 2 ^ 63 - 1" by (simp add: catalog_size_def next_multiple_of_def)
  moreover have "replicate 16 (9 :: byte) \<noteq> replicate 16 0" by (simp add: replicate_eq_replicate)
  ultimately obtain c where c: "Contents_initial (\<lambda>_. 0) True (replicate 16 9) [] = Inr c"
    using Contents_initial_spec(2) [of "[]" "replicate 16 9" "\<lambda>_. 0" True] by (auto simp: entries_valid_def)
  with Contents_initial_spec(1) [of "[]" "replicate 16 9" "\<lambda>_. 0" True c] show ?thesis by simp
qed

lemma demo_entry_valid: "Entry_validate demo_entry (replicate 16 9) = Inr ()"
  by (simp add: Entry_validate_def demo_entry_def Commit_validate_def page_offset_def is_multiple_of_def
      replicate_eq_replicate)

theorem catalog_change_refines_witness:
  "\<exists>c c'. Contents_initial (\<lambda>_. 0) True (replicate 16 9) [] = Inr c \<and>
     Contents_changed (\<lambda>_. 0) True c (Insert demo_entry) = Inr c' \<and> Contents_entries c' = [demo_entry]"
proof -
  obtain c where c: "Contents_initial (\<lambda>_. 0) True (replicate 16 9) [] = Inr c"
    and rep: "represents (\<lambda>_. 0) (replicate 16 9) 1 [] c" using demo_catalog by blast
  note r = represents_reads [OF rep]
  have v: "Contents_validate (\<lambda>_. 0) c (replicate 16 9) = Inr ()" by (rule represents_validates [OF rep])
  have t: "change_typed (Insert demo_entry)" by (simp add: Entry_typed_def demo_entry_def)
  have "catalog_size (Suc 0) \<le> 2 ^ 63 - 1" by (simp add: catalog_size_def next_multiple_of_def)
  then show ?thesis
    using catalog_change_refines [OF v t, of True] c r demo_entry_valid by auto
qed

text \<open>
  Lookup by binary search over the encoded records is exact: on a validated catalog it returns
  an entry if and only if that entry is stored under the requested identifier.
\<close>
theorem catalog_lookup_exact:
  assumes "Contents_validate crc c store = Inr ()"
  shows "Contents_get c i = Some e \<longleftrightarrow> e \<in> set (Contents_entries c) \<and> ce_id e = i"
  by (rule Contents_get_iff [OF validate_represents [OF assms]])

theorem catalog_lookup_exact_witness:
  "\<exists>c. Contents_initial (\<lambda>_. 0) True (replicate 16 9) [] = Inr c \<and> Contents_get c (replicate 16 1) = None"
proof -
  obtain c where c: "Contents_initial (\<lambda>_. 0) True (replicate 16 9) [] = Inr c"
    and rep: "represents (\<lambda>_. 0) (replicate 16 9) 1 [] c" using demo_catalog by blast
  have "Contents_get c (replicate 16 1) \<noteq> Some e" for e
    using catalog_lookup_exact [OF represents_validates [OF rep], of "replicate 16 1" e]
      represents_reads(5) [OF rep] by simp
  then show ?thesis using c by (cases "Contents_get c (replicate 16 1)") auto
qed

text \<open>
  Publication is all or nothing. From a healthy owner with valid contents, publishing what it
  prepared either installs the changed entries at the next generation (the file was written) or
  keeps the old contents and refuses every later preparation and publication until recovery; a
  second publication of the same preparation is always refused.
\<close>
theorem catalog_publication_atomic:
  assumes "Contents_validate crc (cat_contents cat) store = Inr ()" and "change_typed change"
    and "Catalog_prepare crc granted cat change = Inr p" and "Catalog_publish written cat p = (cat', r)"
  shows "(case written of
       Inr _ \<Rightarrow> r = Inr () \<and> \<not> cat_failed cat' \<and>
         Contents_validate crc (cat_contents cat') store = Inr () \<and>
         Contents_entries (cat_contents cat') = apply_change change (Contents_entries (cat_contents cat)) \<and>
         (\<forall>w. Catalog_publish w cat' p = (cat', Inl (InvalidData ''stale or foreign catalog preparation'')))
     | Inl e \<Rightarrow> r = Inl e \<and> cat_contents cat' = cat_contents cat \<and>
         (\<forall>w q. fst (Catalog_publish w cat' q) = cat' \<and> snd (Catalog_publish w cat' q) \<noteq> Inr ()) \<and>
         (\<forall>g ch. Catalog_prepare crc g cat' ch =
            Inl (Other ''catalog failed; explicit recovery required'')))"
proof -
  note rep = validate_represents [OF assms(1)]
  from assms(3) obtain c where ok: "\<not> cat_failed cat" and ch: "Contents_changed crc granted (cat_contents cat) change = Inr c"
    and p: "p = \<lparr>pr_owner = cat_owner cat, pr_generation = Contents_generation (cat_contents cat), pr_contents = c\<rparr>"
    by (auto simp: Catalog_prepare_def Catalog_healthy_def require_healthy_def split: if_splits)
  note rep' = Contents_changed_represents [OF rep assms(2) ch]
  have "Contents_generation c \<noteq> Contents_generation (cat_contents cat)"
    using represents_reads(2) [OF rep'] by simp
  note facts = Catalog_publish_def Catalog_prepare_def Catalog_healthy_def require_healthy_def Let_def
    \<open>Contents_generation c \<noteq> _\<close> represents_validates [OF rep'] represents_reads(5) [OF rep'] ok p
  show ?thesis
  proof (cases written)
    case (Inl e)
    then have "cat' = cat\<lparr>cat_failed := True\<rparr>" "r = Inl e" using assms(4) by (auto simp: facts)
    then show ?thesis using Inl by (simp add: facts)
  next
    case (Inr u)
    then have "cat' = cat\<lparr>cat_contents := c, cat_failed := False\<rparr>" "r = Inr ()" using assms(4) by (auto simp: facts)
    then show ?thesis using Inr by (simp add: facts)
  qed
qed

theorem catalog_publication_atomic_witness:
  "\<exists>c p cat'. Contents_initial (\<lambda>_. 0) True (replicate 16 9) [] = Inr c \<and>
     Catalog_prepare (\<lambda>_. 0) True \<lparr>cat_owner = 0, cat_contents = c, cat_failed = False\<rparr> (Insert demo_entry) = Inr p \<and>
     Catalog_publish (Inr ()) \<lparr>cat_owner = 0, cat_contents = c, cat_failed = False\<rparr> p = (cat', Inr ()) \<and>
     Contents_entries (cat_contents cat') = [demo_entry]"
proof -
  obtain c where c: "Contents_initial (\<lambda>_. 0) True (replicate 16 9) [] = Inr c"
    and rep: "represents (\<lambda>_. 0) (replicate 16 9) 1 [] c" using demo_catalog by blast
  let ?cat = "\<lparr>cat_owner = 0, cat_contents = c, cat_failed = False\<rparr>"
  have v: "Contents_validate (\<lambda>_. 0) (cat_contents ?cat) (replicate 16 9) = Inr ()"
    using represents_validates [OF rep] by simp
  have t: "change_typed (Insert demo_entry)" by (simp add: Entry_typed_def demo_entry_def)
  have "catalog_size (length (apply_change (Insert demo_entry) [])) \<le> 2 ^ 63 - 1"
    by (simp add: catalog_size_def next_multiple_of_def)
  then obtain c' where "Contents_changed (\<lambda>_. 0) True c (Insert demo_entry) = Inr c'"
    using Contents_changed_accepts [OF rep, of True "Insert demo_entry"] demo_entry_valid by auto
  then obtain p where p: "Catalog_prepare (\<lambda>_. 0) True ?cat (Insert demo_entry) = Inr p"
    by (simp add: Catalog_prepare_def Catalog_healthy_def require_healthy_def)
  obtain cat' r where pub: "Catalog_publish (Inr ()) ?cat p = (cat', r)" by (cases "Catalog_publish (Inr ()) ?cat p")
  from catalog_publication_atomic [OF v t p pub] represents_reads(5) [OF rep] c p pub show ?thesis by auto
qed

end
