(* ===== verification/Interval_Index.thy ===== *)
theory Interval_Index
  imports Prelude
begin

text \<open>
  The interval index of unmerged log writes (\<^verbatim>\<open>crates/cas/core/src/append/index.rs\<close>): a map from
  interval start to a mapping, kept disjoint by splitting and trimming. The B-tree is kept by its
  contents, an association list in key order. Positions are natural numbers: the additions of the
  code stay within the image and the payload, which the invariant \<open>intervals_ok\<close> records.
\<close>

section \<open>Ordered map\<close>

type_synonym 'v omap = "(nat \<times> 'v) list"

fun om_insert :: "nat \<Rightarrow> 'v \<Rightarrow> 'v omap \<Rightarrow> 'v omap" where
  "om_insert k v [] = [(k, v)]"
| "om_insert k v ((a, b) # xs) =
    (if k < a then (k, v) # (a, b) # xs else if k = a then (k, v) # xs
     else (a, b) # om_insert k v xs)"

definition om_remove :: "nat \<Rightarrow> 'v omap \<Rightarrow> 'v omap" where
  "om_remove k xs = filter (\<lambda>(a, b). a \<noteq> k) xs"

text \<open>\<^verbatim>\<open>range(..k).next_back()\<close> and \<^verbatim>\<open>range(lo..hi).next()\<close>.\<close>

fun om_before :: "nat \<Rightarrow> 'v omap \<Rightarrow> (nat \<times> 'v) option" where
  "om_before k [] = None"
| "om_before k ((a, b) # xs) =
    (if a < k then (case om_before k xs of None \<Rightarrow> Some (a, b) | Some e \<Rightarrow> Some e) else None)"

definition om_first :: "nat \<Rightarrow> nat \<Rightarrow> 'v omap \<Rightarrow> (nat \<times> 'v) option" where
  "om_first lo hi xs = List.find (\<lambda>(a, b). lo \<le> a \<and> a < hi) xs"

definition om_range :: "nat \<Rightarrow> nat \<Rightarrow> 'v omap \<Rightarrow> 'v omap" where
  "om_range lo hi xs = filter (\<lambda>(a, b). lo \<le> a \<and> a < hi) xs"

abbreviation keys_sorted :: "'v omap \<Rightarrow> bool" where
  "keys_sorted xs \<equiv> sorted_wrt (<) (map fst xs)"

section \<open>Mappings and the index\<close>

record Payload =
  pl_segment :: nat
  pl_offset :: nat
  pl_bytes :: nat
  pl_sequence :: nat
  pl_crc :: u32
  pl_batch_block :: u32

record Mapping =
  mp_end :: nat
  mp_sequence :: nat
  mp_source :: "(Payload \<times> nat) option"

definition Mapping_suffix :: "Mapping \<Rightarrow> nat \<Rightarrow> Mapping" where
  "Mapping_suffix m skip = m\<lparr>mp_source := map_option (\<lambda>(p, offset). (p, offset + skip)) (mp_source m)\<rparr>"

record IntervalIndex =
  ii_map :: "Mapping omap"
  ii_limit :: nat

definition trim_predecessor :: "nat \<Rightarrow> nat \<Rightarrow> Mapping omap \<Rightarrow> Mapping omap" where
  "trim_predecessor start end xs =
    (case om_before start xs of
       None \<Rightarrow> xs
     | Some (old_start, old) \<Rightarrow>
         if mp_end old > start
         then let xs = (if mp_end old > end
                        then om_insert end (Mapping_suffix old (end - old_start)) xs else xs)
              in om_insert old_start (old\<lparr>mp_end := start\<rparr>) xs
         else xs)"

text \<open>The \<^verbatim>\<open>while let\<close> loop: every round removes one key of the range.\<close>

lemma om_first_in_range:
  "om_first lo hi xs = Some (a, b) \<Longrightarrow> lo \<le> a \<and> a < hi \<and> (a, b) \<in> set xs"
  by (auto simp: om_first_def find_Some_iff in_set_conv_nth)

lemma om_range_insert_outside:
  "hi \<le> k \<Longrightarrow> length (om_range lo hi (om_insert k v xs)) \<le> length (om_range lo hi xs)"
  by (induction k v xs rule: om_insert.induct) (auto simp: om_range_def)

lemma om_range_remove_inside:
  assumes "(a, b) \<in> set xs" and "lo \<le> a" and "a < hi"
  shows "length (om_range lo hi (om_remove a xs)) < length (om_range lo hi xs)"
proof -
  have "om_range lo hi (om_remove a xs) = filter (\<lambda>(k, v). k \<noteq> a) (om_range lo hi xs)"
    by (simp add: om_range_def om_remove_def conj_commute cong: filter_cong)
  moreover have "(a, b) \<in> set (om_range lo hi xs)" using assms by (simp add: om_range_def)
  then have "length (filter (\<lambda>(k, v). k \<noteq> a) (om_range lo hi xs)) < length (om_range lo hi xs)"
    by (rule length_filter_less) simp
  ultimately show ?thesis by simp
qed

function clear_range :: "nat \<Rightarrow> nat \<Rightarrow> Mapping omap \<Rightarrow> Mapping omap" where
  "clear_range start end xs =
    (case om_first start end xs of
       None \<Rightarrow> xs
     | Some (old_start, old) \<Rightarrow>
         let xs = om_remove old_start xs;
             xs = (if mp_end old > end
                   then om_insert end (Mapping_suffix old (end - old_start)) xs else xs)
         in clear_range start end xs)"
  by pat_completeness auto
termination
proof (relation "measure (\<lambda>(start, end, xs). length (om_range start end xs))")
  fix start "end" :: nat and xs ys zs :: "Mapping omap" and e old_start old
  assume "om_first start end xs = Some e" and "(old_start, old) = e" and ys: "ys = om_remove old_start xs"
    and zs: "zs = (if mp_end old > end then om_insert end (Mapping_suffix old (end - old_start)) ys else ys)"
  then have f: "om_first start end xs = Some (old_start, old)" by simp
  have "length (om_range start end ys) < length (om_range start end xs)"
    unfolding ys using om_first_in_range [OF f] by (intro om_range_remove_inside) auto
  moreover have "length (om_range start end zs) \<le> length (om_range start end ys)"
    by (simp add: zs om_range_insert_outside)
  ultimately show "((start, end, zs), (start, end, xs)) \<in> measure (\<lambda>(start, end, xs). length (om_range start end xs))"
    by simp
qed simp

declare clear_range.simps [simp del]

definition Intervals_replace :: "IntervalIndex \<Rightarrow> nat \<Rightarrow> Mapping \<Rightarrow> IntervalIndex result" where
  "Intervals_replace ix start m =
     ensure (length (ii_map ix) + 2 \<le> ii_limit ix) (Panic ''interval admission must precede publication'')
    (ensure (start \<le> mp_end m) (Panic ''range start is greater than range end in BTreeMap'')
    (let xs = trim_predecessor start (mp_end m) (ii_map ix);
         xs = clear_range start (mp_end m) xs
     in Inr (ix\<lparr>ii_map := om_insert start m xs\<rparr>)))"

definition Intervals_retain_after :: "IntervalIndex \<Rightarrow> nat \<Rightarrow> IntervalIndex" where
  "Intervals_retain_after ix durable = ix\<lparr>ii_map := filter (\<lambda>(k, m). mp_sequence m > durable) (ii_map ix)\<rparr>"

definition Intervals_overlapping :: "IntervalIndex \<Rightarrow> nat \<Rightarrow> nat \<Rightarrow> (nat \<times> Mapping) list" where
  "Intervals_overlapping ix start end =
    (let begin = (case om_before (start + 1) (ii_map ix) of None \<Rightarrow> start | Some (k, m) \<Rightarrow> k)
     in filter (\<lambda>(k, m). mp_end m > start) (om_range begin end (ii_map ix)))"

section \<open>The list as a map\<close>

lemma om_keys_insert: "fst ` set (om_insert k v xs) = insert k (fst ` set xs)"
  by (induction k v xs rule: om_insert.induct) auto

lemma om_insert_sorted: "keys_sorted xs \<Longrightarrow> keys_sorted (om_insert k v xs)"
proof (induction k v xs rule: om_insert.induct)
  case (2 k v a b xs)
  then show ?case using om_keys_insert [of k v xs] by (auto simp: image_iff Ball_def)
qed simp

lemma om_insert_map: "keys_sorted xs \<Longrightarrow> map_of (om_insert k v xs) = (map_of xs)(k \<mapsto> v)"
  by (induction k v xs rule: om_insert.induct) (auto simp: fun_eq_iff)

lemma om_insert_length:
  "keys_sorted xs \<Longrightarrow>
   length (om_insert k v xs) = (if k \<in> dom (map_of xs) then length xs else Suc (length xs))"
  by (induction k v xs rule: om_insert.induct) (auto simp: dom_map_of_conv_image_fst)

lemma om_remove_sorted: "keys_sorted xs \<Longrightarrow> keys_sorted (om_remove k xs)"
  by (simp add: om_remove_def sorted_wrt_map sorted_wrt_filter)

lemma om_remove_map: "map_of (om_remove k xs) = (map_of xs)(k := None)"
  by (induction xs) (auto simp: om_remove_def fun_eq_iff)

lemma om_remove_length: "(k, v) \<in> set xs \<Longrightarrow> Suc (length (om_remove k xs)) \<le> length xs"
  unfolding om_remove_def Suc_le_eq by (rule length_filter_less) auto

lemma om_mem: "keys_sorted xs \<Longrightarrow> (k, v) \<in> set xs \<longleftrightarrow> map_of xs k = Some v"
  by (simp add: map_of_eq_Some_iff strict_sorted_iff)

lemma om_before_None: "keys_sorted xs \<Longrightarrow> om_before k xs = None \<Longrightarrow> map_of xs a = Some b \<Longrightarrow> k \<le> a"
proof (induction xs)
  case (Cons x xs)
  then show ?case
    by (cases x) (fastforce simp: not_less split: if_splits option.splits dest: map_of_SomeD)
qed simp

lemma om_before_Some:
  assumes "keys_sorted xs" and "om_before k xs = Some (a, b)"
  shows "a < k" and "map_of xs a = Some b" and "map_of xs c = Some d \<Longrightarrow> c < k \<Longrightarrow> c \<le> a"
proof -
  have "a < k \<and> map_of xs a = Some b \<and> (\<forall>c d. map_of xs c = Some d \<longrightarrow> c < k \<longrightarrow> c \<le> a)"
    using assms
  proof (induction xs)
    case (Cons x xs)
    obtain p q where x: "x = (p, q)" by (cases x)
    show ?case
    proof (cases "om_before k xs")
      case None
      then show ?thesis
        using Cons.prems x om_before_None [of xs k] by (auto split: if_splits) fastforce
    next
      case (Some e)
      obtain a' b' where e: "e = (a', b')" by (cases e)
      with Cons.prems x Some have eq: "a' = a" "b' = b" and pk: "p < k" by (auto split: if_splits)
      have ih: "a < k \<and> map_of xs a = Some b \<and> (\<forall>c d. map_of xs c = Some d \<longrightarrow> c < k \<longrightarrow> c \<le> a)"
        using Cons.IH Cons.prems(1) Some e eq by simp
      have "p < a" using Cons.prems(1) x ih by (auto dest!: map_of_SomeD)
      with ih x show ?thesis by auto
    qed
  qed simp
  then show "a < k" "map_of xs a = Some b" "map_of xs c = Some d \<Longrightarrow> c < k \<Longrightarrow> c \<le> a" by blast+
qed

lemma om_first_None: "om_first lo hi xs = None \<Longrightarrow> map_of xs a = Some b \<Longrightarrow> a < lo \<or> hi \<le> a"
  by (auto simp: om_first_def find_None_iff not_le not_less dest!: map_of_SomeD)

section \<open>What an interval map means\<close>

text \<open>The data at one position: its sequence and, for written data, the payload byte it comes from.\<close>

definition value_at :: "nat \<Rightarrow> Mapping \<Rightarrow> nat \<Rightarrow> nat \<times> (Payload \<times> nat) option" where
  "value_at k m x = (mp_sequence m, map_option (\<lambda>(p, offset). (p, offset + (x - k))) (mp_source m))"

definition covers :: "nat \<Rightarrow> Mapping \<Rightarrow> nat \<Rightarrow> bool" where
  "covers k m x \<longleftrightarrow> k \<le> x \<and> x < mp_end m"

definition maps_to :: "(nat \<Rightarrow> Mapping option) \<Rightarrow> nat \<Rightarrow> nat \<times> (Payload \<times> nat) option \<Rightarrow> bool" where
  "maps_to f x r \<longleftrightarrow> (\<exists>k m. f k = Some m \<and> covers k m x \<and> r = value_at k m x)"

definition intervals_ok :: "(nat \<Rightarrow> Mapping option) \<Rightarrow> bool" where
  "intervals_ok f \<longleftrightarrow>
     (\<forall>k m. f k = Some m \<longrightarrow> k < mp_end m \<and>
        (\<forall>p offset. mp_source m = Some (p, offset) \<longrightarrow> offset + (mp_end m - k) \<le> pl_bytes p)) \<and>
     (\<forall>k m k' m'. f k = Some m \<longrightarrow> f k' = Some m' \<longrightarrow> k < k' \<longrightarrow> mp_end m \<le> k')"

lemma intervals_okD:
  assumes "intervals_ok f"
  shows "f k = Some m \<Longrightarrow> k < mp_end m"
    and "f k = Some m \<Longrightarrow> mp_source m = Some (p, offset) \<Longrightarrow> offset + (mp_end m - k) \<le> pl_bytes p"
    and "f k = Some m \<Longrightarrow> f k' = Some m' \<Longrightarrow> k < k' \<Longrightarrow> mp_end m \<le> k'"
  using assms unfolding intervals_ok_def by blast+

lemma maps_to_unique:
  assumes "intervals_ok f" and "maps_to f x r" and "maps_to f x s"
  shows "r = s"
proof -
  from assms(2,3) obtain k m k' m' where 1: "f k = Some m" "covers k m x" "r = value_at k m x"
    and 2: "f k' = Some m'" "covers k' m' x" "s = value_at k' m' x"
    by (auto simp: maps_to_def)
  have "k = k'"
    using intervals_okD(3) [OF assms(1) 1(1) 2(1)] intervals_okD(3) [OF assms(1) 2(1) 1(1)] 1(2) 2(2)
    by (cases k k' rule: linorder_cases) (auto simp: covers_def)
  with 1 2 show ?thesis by simp
qed

lemma suffix_value:
  "k \<le> e \<Longrightarrow> e \<le> x \<Longrightarrow> value_at e (Mapping_suffix m (e - k)) x = value_at k m x"
  by (cases "mp_source m") (auto simp: value_at_def Mapping_suffix_def split: prod.splits)

lemma Mapping_suffix_fields [simp]:
  "mp_end (Mapping_suffix m d) = mp_end m"
  "mp_sequence (Mapping_suffix m d) = mp_sequence m"
  by (simp_all add: Mapping_suffix_def)

lemma ok_remove: "intervals_ok f \<Longrightarrow> intervals_ok (f(k := None))"
  unfolding intervals_ok_def by (simp split: if_splits)

lemma ok_insert:
  assumes ok: "intervals_ok f" and ne: "k < mp_end m"
    and src: "\<And>p offset. mp_source m = Some (p, offset) \<Longrightarrow> offset + (mp_end m - k) \<le> pl_bytes p"
    and apart: "\<And>k' m'. f k' = Some m' \<Longrightarrow> k' \<noteq> k \<Longrightarrow> mp_end m' \<le> k \<or> mp_end m \<le> k'"
  shows "intervals_ok (f(k \<mapsto> m))"
  unfolding intervals_ok_def
proof (intro conjI allI impI)
  note d = intervals_okD [OF ok]
  fix k1 m1 assume g: "(f(k \<mapsto> m)) k1 = Some m1"
  then show "k1 < mp_end m1" using ne d(1) by (auto split: if_splits)
  show "offset + (mp_end m1 - k1) \<le> pl_bytes p" if "mp_source m1 = Some (p, offset)" for p offset
    using g that src d(2) by (auto split: if_splits)
  show "mp_end m1 \<le> k2" if g2: "(f(k \<mapsto> m)) k2 = Some m2" and lt: "k1 < k2" for k2 m2
  proof (cases "k1 = k \<or> k2 = k")
    case True
    then show ?thesis
    proof
      assume "k1 = k"
      then have m1: "m1 = m" and f2: "f k2 = Some m2" using g g2 lt by auto
      show ?thesis using apart [OF f2] \<open>k1 = k\<close> lt d(1) [OF f2] m1 by auto
    next
      assume "k2 = k"
      then have m2: "m2 = m" and f1: "f k1 = Some m1" using g g2 lt by auto
      show ?thesis using apart [OF f1] \<open>k2 = k\<close> lt ne by auto
    qed
  next
    case False
    then show ?thesis using g g2 lt d(3) [of k1 m1 k2 m2] by auto
  qed
qed

lemma maps_to_upd:
  "maps_to (f(k \<mapsto> m)) x r \<longleftrightarrow> covers k m x \<and> r = value_at k m x \<or> maps_to (f(k := None)) x r"
  unfolding maps_to_def by (auto split: if_splits)

lemma apart:
  assumes "intervals_ok f" and "f k = Some m" and "f k' = Some m'" and "k' \<noteq> k"
  shows "mp_end m' \<le> k \<or> mp_end m \<le> k'"
  using intervals_okD(3) [OF assms(1,2,3)] intervals_okD(3) [OF assms(1,3,2)] assms(4)
  by (cases k k' rule: linorder_cases) auto

lemma suffix_source:
  assumes "intervals_ok f" and "f k = Some m" and "k \<le> e" and "e < mp_end m"
    and "mp_source (Mapping_suffix m (e - k)) = Some (p, offset)"
  shows "offset + (mp_end m - e) \<le> pl_bytes p"
  using intervals_okD(2) [OF assms(1,2)] assms(3-5)
  by (cases "mp_source m") (auto simp: Mapping_suffix_def split: prod.splits)

text \<open>
  Outside the written range nothing changes: an interval starting inside it keeps what lies beyond
  \<open>e\<close>, one starting before it keeps what lies before \<open>s\<close> and beyond \<open>e\<close>.
\<close>

lemma cut_inside:
  assumes ok: "intervals_ok f" and f: "f k = Some m" and k: "s \<le> k" "k < e"
  defines "g \<equiv> (if mp_end m > e then (f(k := None))(e \<mapsto> Mapping_suffix m (e - k)) else f(k := None))"
  shows "intervals_ok g" and "x < s \<or> e \<le> x \<Longrightarrow> maps_to g x r \<longleftrightarrow> maps_to f x r"
    and "j < s \<Longrightarrow> g j = f j" and "mp_end m > e \<Longrightarrow> f e = None"
proof -
  show free: "f e = None" if "mp_end m > e"
    using intervals_okD(3) [OF ok f, of e] k that by (cases "f e") auto
  show "g j = f j" if "j < s" using that k by (simp add: g_def)
  show "intervals_ok g"
  proof (cases "mp_end m > e")
    case True
    have "intervals_ok ((f(k := None))(e \<mapsto> Mapping_suffix m (e - k)))"
    proof (rule ok_insert [OF ok_remove [OF ok]])
      show "e < mp_end (Mapping_suffix m (e - k))" using True by simp
      show "offset + (mp_end (Mapping_suffix m (e - k)) - e) \<le> pl_bytes p"
        if "mp_source (Mapping_suffix m (e - k)) = Some (p, offset)" for p offset
        using suffix_source [OF ok f _ True that] k by simp
      show "mp_end m' \<le> e \<or> mp_end (Mapping_suffix m (e - k)) \<le> k'"
        if "(f(k := None)) k' = Some m'" for k' m'
        using apart [OF ok f, of k' m'] that k by (auto split: if_splits)
    qed
    then show ?thesis using True by (simp add: g_def)
  qed (simp add: g_def ok_remove [OF ok])
  show "maps_to g x r \<longleftrightarrow> maps_to f x r" if x: "x < s \<or> e \<le> x"
  proof -
    have split: "maps_to f x r \<longleftrightarrow> covers k m x \<and> r = value_at k m x \<or> maps_to (f(k := None)) x r"
      using maps_to_upd [of "f(k := None)" k m] f by (simp add: fun_upd_idem)
    have cov: "covers k m x \<longleftrightarrow> mp_end m > e \<and> covers e (Mapping_suffix m (e - k)) x"
      using x k by (auto simp: covers_def)
    show ?thesis
    proof (cases "mp_end m > e")
      case True
      have "(f(k := None, e := None)) = f(k := None)" using free [OF True] by (auto simp: fun_eq_iff)
      moreover have "value_at e (Mapping_suffix m (e - k)) x = value_at k m x" if "e \<le> x"
        using suffix_value [of k e x m] k that by simp
      moreover have "covers e (Mapping_suffix m (e - k)) x \<Longrightarrow> e \<le> x" by (simp add: covers_def)
      ultimately show ?thesis using True split cov by (auto simp: g_def maps_to_upd)
    qed (use split cov in \<open>simp add: g_def\<close>)
  qed
qed

lemma cut_before:
  assumes ok: "intervals_ok f" and f: "f k = Some m" and k: "k < s" "s < mp_end m" and se: "s \<le> e"
  defines "h \<equiv> (if mp_end m > e then f(e \<mapsto> Mapping_suffix m (e - k)) else f)"
  defines "g \<equiv> h(k \<mapsto> m\<lparr>mp_end := s\<rparr>)"
  shows "intervals_ok g" and "x < s \<or> e \<le> x \<Longrightarrow> maps_to g x r \<longleftrightarrow> maps_to f x r"
    and "mp_end m > e \<Longrightarrow> f e = None"
    and "(\<And>k' m'. f k' = Some m' \<Longrightarrow> k' < s \<Longrightarrow> k' \<le> k) \<Longrightarrow> g j = Some n \<Longrightarrow> j < s \<Longrightarrow> mp_end n \<le> s"
proof -
  let ?m = "m\<lparr>mp_end := s\<rparr>" and ?t = "Mapping_suffix m (e - k)"
  show free: "f e = None" if "mp_end m > e"
    using intervals_okD(3) [OF ok f, of e] k se that by (cases "f e") auto
  have trim: "intervals_ok (f(k \<mapsto> ?m))"
  proof (rule ok_insert [OF ok])
    show "k < mp_end ?m" using k by simp
    show "offset + (mp_end ?m - k) \<le> pl_bytes p" if "mp_source ?m = Some (p, offset)" for p offset
      using intervals_okD(2) [OF ok f, of p offset] that k by simp
    show "mp_end m' \<le> k \<or> mp_end ?m \<le> k'" if "f k' = Some m'" "k' \<noteq> k" for k' m'
      using apart [OF ok f that] k by auto
  qed
  have geq: "g = (if mp_end m > e then (f(k \<mapsto> ?m))(e \<mapsto> ?t) else f(k \<mapsto> ?m))"
    using k se by (auto simp: g_def h_def fun_eq_iff)
  show "intervals_ok g"
  proof (cases "mp_end m > e")
    case True
    have "intervals_ok ((f(k \<mapsto> ?m))(e \<mapsto> ?t))"
    proof (rule ok_insert [OF trim])
      show "e < mp_end ?t" using True by simp
      show "offset + (mp_end ?t - e) \<le> pl_bytes p" if "mp_source ?t = Some (p, offset)" for p offset
        using suffix_source [OF ok f _ True that] k se by simp
      show "mp_end m' \<le> e \<or> mp_end ?t \<le> k'" if "(f(k \<mapsto> ?m)) k' = Some m'" for k' m'
        using apart [OF ok f, of k' m'] that k se by (auto split: if_splits)
    qed
    then show ?thesis using True by (simp add: geq)
  qed (use trim in \<open>simp add: geq\<close>)
  have split: "maps_to f x r \<longleftrightarrow> covers k m x \<and> r = value_at k m x \<or> maps_to (f(k := None)) x r" for x r
    using maps_to_upd [of "f(k := None)" k m] f by (simp add: fun_upd_idem)
  have val: "value_at k ?m x = value_at k m x" by (simp add: value_at_def)
  show "maps_to g x r \<longleftrightarrow> maps_to f x r" if x: "x < s \<or> e \<le> x"
  proof (cases "mp_end m > e")
    case True
    have cov: "covers k m x \<longleftrightarrow> covers k ?m x \<or> covers e ?t x"
      using x k se True by (auto simp: covers_def)
    have "f(k := None, e := None) = f(k := None)" "k \<noteq> e" using free [OF True] k se by (auto simp: fun_eq_iff)
    moreover have "covers e ?t x \<Longrightarrow> value_at e ?t x = value_at k m x"
      using suffix_value [of k e x m] k se by (simp add: covers_def)
    ultimately show ?thesis
      using True split [of x r] cov val by (auto simp: geq maps_to_upd fun_upd_twist)
  next
    case False
    then have "covers k m x \<longleftrightarrow> covers k ?m x" using x k se by (auto simp: covers_def)
    then show ?thesis using False split [of x r] val by (auto simp: geq maps_to_upd)
  qed
  show "mp_end n \<le> s" if last: "\<And>k' m'. f k' = Some m' \<Longrightarrow> k' < s \<Longrightarrow> k' \<le> k" and j: "g j = Some n" "j < s"
  proof (cases "j = k")
    case True
    then show ?thesis using j k se by (auto simp: geq split: if_splits)
  next
    case False
    then have fj: "f j = Some n" using j se by (auto simp: geq split: if_splits)
    then have "j < k" using last [OF fj] j(2) False by simp
    then show ?thesis using intervals_okD(3) [OF ok fj f] k by simp
  qed
qed

section \<open>Replacing a range\<close>

lemma trim_predecessor_spec:
  assumes so: "keys_sorted xs" and ok: "intervals_ok (map_of xs)" and se: "s \<le> e"
  defines "ys \<equiv> trim_predecessor s e xs"
  shows "keys_sorted ys" and "intervals_ok (map_of ys)" and "length ys \<le> length xs + 1"
    and "x < s \<or> e \<le> x \<Longrightarrow> maps_to (map_of ys) x r \<longleftrightarrow> maps_to (map_of xs) x r"
    and "map_of ys j = Some n \<Longrightarrow> j < s \<Longrightarrow> mp_end n \<le> s"
proof -
  have "keys_sorted ys \<and> intervals_ok (map_of ys) \<and> length ys \<le> length xs + 1 \<and>
    (\<forall>x r. x < s \<or> e \<le> x \<longrightarrow> maps_to (map_of ys) x r \<longleftrightarrow> maps_to (map_of xs) x r) \<and>
    (\<forall>j n. map_of ys j = Some n \<longrightarrow> j < s \<longrightarrow> mp_end n \<le> s)"
  proof (cases "om_before s xs")
    case None
    have "s \<le> j" if "map_of xs j = Some n" for j n by (rule om_before_None [OF so None that])
    then show ?thesis using None so ok by (fastforce simp: ys_def trim_predecessor_def)
  next
    case (Some p)
    obtain k m where p: "p = (k, m)" by (cases p)
    note b = om_before_Some [OF so Some [unfolded p]]
    show ?thesis
    proof (cases "mp_end m > s")
      case False
      have "mp_end n \<le> s" if j: "map_of xs j = Some n" "j < s" for j n
        using b(3) [OF j] intervals_okD(3) [OF ok j(1) b(2)] False b(1,2) j(1)
        by (cases "j = k") auto
      then show ?thesis using Some p False so ok by (simp add: ys_def trim_predecessor_def)
    next
      case True
      let ?zs = "if mp_end m > e then om_insert e (Mapping_suffix m (e - k)) xs else xs"
      have ys: "ys = om_insert k (m\<lparr>mp_end := s\<rparr>) ?zs"
        using Some p True by (simp add: ys_def trim_predecessor_def Let_def)
      note c = cut_before [OF ok b(2) b(1) True se]
      have zs: "keys_sorted ?zs" using so by (simp add: om_insert_sorted)
      have zmap: "map_of ?zs = (if mp_end m > e then (map_of xs)(e \<mapsto> Mapping_suffix m (e - k)) else map_of xs)"
        using so by (simp add: om_insert_map)
      have map: "map_of ys = (map_of ?zs)(k \<mapsto> m\<lparr>mp_end := s\<rparr>)" unfolding ys by (rule om_insert_map [OF zs])
      have "k \<in> dom (map_of ?zs)" unfolding zmap using b(2) by auto
      then have "length ys = length ?zs" unfolding ys by (simp only: om_insert_length [OF zs] if_True)
      also have "\<dots> \<le> length xs + 1" using om_insert_length [OF so] by auto
      finally show ?thesis
        using c b(3) om_insert_sorted [OF zs] unfolding map zmap by (auto simp: ys)
    qed
  qed
  then show "keys_sorted ys" "intervals_ok (map_of ys)" "length ys \<le> length xs + 1"
    "x < s \<or> e \<le> x \<Longrightarrow> maps_to (map_of ys) x r \<longleftrightarrow> maps_to (map_of xs) x r"
    "map_of ys j = Some n \<Longrightarrow> j < s \<Longrightarrow> mp_end n \<le> s" by blast+
qed

definition range_cleared :: "nat \<Rightarrow> nat \<Rightarrow> Mapping omap \<Rightarrow> Mapping omap \<Rightarrow> bool" where
  "range_cleared s e xs ys \<longleftrightarrow>
     keys_sorted ys \<and> intervals_ok (map_of ys) \<and> length ys \<le> length xs \<and>
     (\<forall>x r. x < s \<or> e \<le> x \<longrightarrow> maps_to (map_of ys) x r \<longleftrightarrow> maps_to (map_of xs) x r) \<and>
     (\<forall>j. j < s \<longrightarrow> map_of ys j = map_of xs j)"

lemma range_cleared_outside:
  "range_cleared s e xs ys \<Longrightarrow> x < s \<or> e \<le> x \<Longrightarrow> maps_to (map_of ys) x r \<longleftrightarrow> maps_to (map_of xs) x r"
  unfolding range_cleared_def by blast

lemma clear_step:
  assumes so: "keys_sorted xs" and ok: "intervals_ok (map_of xs)" and f: "om_first s e xs = Some (k, m)"
  shows "range_cleared s e xs
     (if mp_end m > e then om_insert e (Mapping_suffix m (e - k)) (om_remove k xs) else om_remove k xs)"
proof -
  from om_first_in_range [OF f] have k: "s \<le> k" "k < e" and mem: "(k, m) \<in> set xs" by auto
  have fk: "map_of xs k = Some m" using mem so by (simp add: om_mem)
  note c = cut_inside [OF ok fk k]
  let ?zs = "om_remove k xs"
  have zs: "keys_sorted ?zs" "map_of ?zs = (map_of xs)(k := None)"
    using so by (simp_all add: om_remove_sorted om_remove_map)
  have ins: "map_of (om_insert e (Mapping_suffix m (e - k)) ?zs) = (map_of xs)(k := None, e \<mapsto> Mapping_suffix m (e - k))"
    by (simp add: om_insert_map [OF zs(1)] zs(2))
  have len: "Suc (length ?zs) \<le> length xs" by (rule om_remove_length [OF mem])
  have "length (om_insert e v ?zs) \<le> Suc (length ?zs)" for v using om_insert_length [OF zs(1)] by simp
  then have "length (om_insert e v ?zs) \<le> length xs" for v using len le_trans by blast
  note le = this
  let ?ys = "if mp_end m > e then om_insert e (Mapping_suffix m (e - k)) ?zs else ?zs"
  have eq: "map_of ?ys = (if mp_end m > e then (map_of xs)(k := None, e \<mapsto> Mapping_suffix m (e - k)) else (map_of xs)(k := None))"
    using ins zs(2) by simp
  have "intervals_ok (map_of ?ys)" "x < s \<or> e \<le> x \<Longrightarrow> maps_to (map_of ?ys) x r \<longleftrightarrow> maps_to (map_of xs) x r"
    "j < s \<Longrightarrow> map_of ?ys j = map_of xs j" for x r j
    unfolding eq by (rule c(1), rule c(2), assumption, rule c(3))
  moreover have "keys_sorted ?ys" "length ?ys \<le> length xs"
    using om_insert_sorted [OF zs(1)] zs(1) le len by auto
  ultimately show ?thesis unfolding range_cleared_def by blast
qed

lemma clear_range_spec:
  assumes "keys_sorted xs" and "intervals_ok (map_of xs)"
  shows "range_cleared s e xs (clear_range s e xs)" and "map_of (clear_range s e xs) j \<noteq> None \<Longrightarrow> j < s \<or> e \<le> j"
proof -
  have "range_cleared s e xs (clear_range s e xs) \<and>
        (\<forall>j. map_of (clear_range s e xs) j \<noteq> None \<longrightarrow> j < s \<or> e \<le> j)"
    using assms
  proof (induction s e xs rule: clear_range.induct)
    case (1 s e xs)
    show ?case
    proof (cases "om_first s e xs")
      case None
      then have eq: "clear_range s e xs = xs" by (simp add: clear_range.simps [of s e xs])
      show ?thesis
        unfolding eq using 1(2,3) om_first_None [OF None] by (auto simp: range_cleared_def)
    next
      case (Some p)
      obtain k m where p: "p = (k, m)" by (cases p)
      let ?ys = "if mp_end m > e then om_insert e (Mapping_suffix m (e - k)) (om_remove k xs) else om_remove k xs"
      have step: "range_cleared s e xs ?ys" using clear_step [OF 1(2,3)] Some p by simp
      have eq: "clear_range s e xs = clear_range s e ?ys"
        using Some p by (simp add: clear_range.simps [of s e xs] Let_def)
      have "range_cleared s e ?ys (clear_range s e ?ys) \<and>
          (\<forall>j. map_of (clear_range s e ?ys) j \<noteq> None \<longrightarrow> j < s \<or> e \<le> j)"
        by (rule 1(1) [OF Some [unfolded p] refl refl refl]) (use step in \<open>simp_all add: range_cleared_def\<close>)
      then show ?thesis
        unfolding eq using step by (auto simp: range_cleared_def)
    qed
  qed
  then show "range_cleared s e xs (clear_range s e xs)"
    "map_of (clear_range s e xs) j \<noteq> None \<Longrightarrow> j < s \<or> e \<le> j" by blast+
qed

definition Intervals_inv :: "IntervalIndex \<Rightarrow> bool" where
  "Intervals_inv ix \<longleftrightarrow> keys_sorted (ii_map ix) \<and> intervals_ok (map_of (ii_map ix)) \<and>
     length (ii_map ix) \<le> ii_limit ix"

definition Intervals_at :: "IntervalIndex \<Rightarrow> nat \<Rightarrow> nat \<times> (Payload \<times> nat) option \<Rightarrow> bool" where
  "Intervals_at ix x r \<longleftrightarrow> maps_to (map_of (ii_map ix)) x r"

lemma Intervals_replace_spec:
  assumes inv: "Intervals_inv ix" and ne: "start < mp_end m"
    and src: "\<And>p offset. mp_source m = Some (p, offset) \<Longrightarrow> offset + (mp_end m - start) \<le> pl_bytes p"
    and rep: "Intervals_replace ix start m = Inr jx"
  shows "Intervals_inv jx" and "length (ii_map jx) \<le> length (ii_map ix) + 2"
    and "Intervals_at jx x r \<longleftrightarrow>
      (if start \<le> x \<and> x < mp_end m then r = value_at start m x else Intervals_at ix x r)"
proof -
  let ?e = "mp_end m" and ?xs = "ii_map ix"
  let ?ys = "trim_predecessor start ?e ?xs" and ?zs = "clear_range start ?e (trim_predecessor start ?e ?xs)"
  from inv have so: "keys_sorted ?xs" and ok: "intervals_ok (map_of ?xs)" by (simp_all add: Intervals_inv_def)
  have se: "start \<le> ?e" using ne by simp
  note t = trim_predecessor_spec [OF so ok se]
  note c = clear_range_spec [OF t(1,2), of start ?e]
  have z: "keys_sorted ?zs" "intervals_ok (map_of ?zs)" "length ?zs \<le> length ?ys"
    using c(1) by (simp_all add: range_cleared_def)
  from rep have lim: "length ?xs + 2 \<le> ii_limit ix" and jx: "jx = ix\<lparr>ii_map := om_insert start m ?zs\<rparr>"
    by (auto simp: Intervals_replace_def Let_def)
  have map: "map_of (ii_map jx) = (map_of ?zs)(start \<mapsto> m)" by (simp add: jx om_insert_map [OF z(1)])
  have before: "mp_end m' \<le> start" if "map_of ?zs k' = Some m'" "k' < start" for k' m'
    using t(5) [of k' m'] that c(1) by (simp add: range_cleared_def)
  have gone: "map_of ?zs k' = Some m' \<Longrightarrow> k' < start \<or> ?e \<le> k'" for k' m' using c(2) by blast
  show len: "length (ii_map jx) \<le> length ?xs + 2"
    using om_insert_length [OF z(1), of start m] z(3) t(3) by (simp add: jx)
  have "intervals_ok (map_of (ii_map jx))"
    unfolding map using before gone by (intro ok_insert [OF z(2) ne src]) blast+
  then show "Intervals_inv jx"
    using len lim om_insert_sorted [OF z(1)] by (simp add: Intervals_inv_def jx)
  have free: "(map_of ?zs)(start := None) = map_of ?zs"
    using gone [of start] ne by (cases "map_of ?zs start") (auto simp: fun_eq_iff)
  have none: "\<not> maps_to (map_of ?zs) x r" if "start \<le> x" "x < ?e"
  proof
    assume "maps_to (map_of ?zs) x r"
    then obtain k' m' where "map_of ?zs k' = Some m'" "covers k' m' x" by (auto simp: maps_to_def)
    with gone [of k' m'] before [of k' m'] that show False by (auto simp: covers_def)
  qed
  have out: "maps_to (map_of ?zs) x r \<longleftrightarrow> maps_to (map_of ?xs) x r" if "x < start \<or> ?e \<le> x"
    using t(4) [OF that] range_cleared_outside [OF c(1) that] by simp
  show "Intervals_at jx x r \<longleftrightarrow>
      (if start \<le> x \<and> x < mp_end m then r = value_at start m x else Intervals_at ix x r)"
    using none out by (auto simp: Intervals_at_def map maps_to_upd free covers_def not_le not_less)
qed

lemma Intervals_replace_accepts:
  "start \<le> mp_end m \<Longrightarrow>
   (\<exists>jx. Intervals_replace ix start m = Inr jx) \<longleftrightarrow> length (ii_map ix) + 2 \<le> ii_limit ix"
  by (simp add: Intervals_replace_def Let_def)

section \<open>Retention and overlap queries\<close>

lemma map_of_filter_keys:
  "keys_sorted xs \<Longrightarrow>
   map_of (filter (\<lambda>(k, m). P m) xs) k = (case map_of xs k of Some m \<Rightarrow> if P m then Some m else None | None \<Rightarrow> None)"
proof (induction xs)
  case (Cons x xs)
  have "map_of xs (fst x) = None" using Cons.prems by (auto simp: map_of_eq_None_iff)
  then show ?case using Cons by (cases x) (auto split: option.splits)
qed simp

lemma Intervals_retain_after_spec:
  assumes "Intervals_inv ix"
  shows "Intervals_inv (Intervals_retain_after ix durable)"
    and "Intervals_at (Intervals_retain_after ix durable) x r \<longleftrightarrow> Intervals_at ix x r \<and> durable < fst r"
proof -
  let ?xs = "ii_map ix" and ?ys = "filter (\<lambda>(k, m). mp_sequence m > durable) (ii_map ix)"
  from assms have so: "keys_sorted ?xs" and ok: "intervals_ok (map_of ?xs)" and lim: "length ?xs \<le> ii_limit ix"
    by (simp_all add: Intervals_inv_def)
  have map: "map_of ?ys k = Some m \<longleftrightarrow> map_of ?xs k = Some m \<and> durable < mp_sequence m" for k m
    by (auto simp: map_of_filter_keys [OF so] split: option.splits if_splits)
  have "intervals_ok (map_of ?ys)" using ok unfolding intervals_ok_def map by blast
  moreover have "keys_sorted ?ys" using so by (simp add: sorted_wrt_map sorted_wrt_filter)
  moreover have "length ?ys \<le> ii_limit ix" using lim length_filter_le le_trans by blast
  ultimately show "Intervals_inv (Intervals_retain_after ix durable)"
    by (simp add: Intervals_inv_def Intervals_retain_after_def)
  show "Intervals_at (Intervals_retain_after ix durable) x r \<longleftrightarrow> Intervals_at ix x r \<and> durable < fst r"
  proof -
    have "fst (value_at k m x) = mp_sequence m" for k m by (simp add: value_at_def)
    then show ?thesis
      unfolding Intervals_at_def Intervals_retain_after_def maps_to_def by (simp add: map) metis
  qed
qed

lemma Intervals_overlapping_spec:
  assumes "Intervals_inv ix"
  shows "(k, m) \<in> set (Intervals_overlapping ix start end) \<longleftrightarrow>
         map_of (ii_map ix) k = Some m \<and> k < end \<and> start < mp_end m"
    and "keys_sorted (Intervals_overlapping ix start end)"
proof -
  let ?xs = "ii_map ix"
  from assms have so: "keys_sorted ?xs" and ok: "intervals_ok (map_of ?xs)" by (simp_all add: Intervals_inv_def)
  let ?b = "case om_before (start + 1) ?xs of None \<Rightarrow> start | Some (k, m) \<Rightarrow> k"
  have reach: "?b \<le> k" if k: "map_of ?xs k = Some m" and "start < mp_end m" for k m
  proof (cases "om_before (start + 1) ?xs")
    case None
    then show ?thesis using om_before_None [OF so None k] by simp
  next
    case (Some p)
    obtain a b where p: "p = (a, b)" by (cases p)
    note bf = om_before_Some [OF so Some [unfolded p]]
    have "a \<le> k"
    proof (rule ccontr)
      assume "\<not> a \<le> k"
      then have "mp_end m \<le> a" using intervals_okD(3) [OF ok k bf(2)] by simp
      then show False using that(2) bf(1) by simp
    qed
    then show ?thesis using Some p by simp
  qed
  show "(k, m) \<in> set (Intervals_overlapping ix start end) \<longleftrightarrow>
         map_of ?xs k = Some m \<and> k < end \<and> start < mp_end m"
    using reach [of k m] by (auto simp: Intervals_overlapping_def Let_def om_range_def om_mem [OF so])
  show "keys_sorted (Intervals_overlapping ix start end)"
    using so by (simp add: Intervals_overlapping_def Let_def om_range_def sorted_wrt_map sorted_wrt_filter)
qed

section \<open>Properties\<close>

text \<open>
  C14. Replacing a range refines a byte-addressed store: after publishing a mapping, every position
  of its range reads that mapping (at the right payload offset) and every other position reads what
  it read before, however the old intervals were split, trimmed or removed. Intervals stay sorted,
  disjoint, nonempty and within their payloads, and at most two intervals are added.
\<close>
theorem interval_replace_refines:
  assumes "Intervals_inv ix" and "start < mp_end m"
    and "\<And>p offset. mp_source m = Some (p, offset) \<Longrightarrow> offset + (mp_end m - start) \<le> pl_bytes p"
    and "Intervals_replace ix start m = Inr jx"
  shows "Intervals_inv jx \<and> length (ii_map jx) \<le> length (ii_map ix) + 2 \<and>
    (\<forall>x r. Intervals_at jx x r \<longleftrightarrow>
       (if start \<le> x \<and> x < mp_end m then r = value_at start m x else Intervals_at ix x r))"
  using Intervals_replace_spec [OF assms] by blast

definition demo_intervals :: IntervalIndex where
  "demo_intervals = \<lparr>ii_map = [(0, \<lparr>mp_end = 8, mp_sequence = 1, mp_source = None\<rparr>)], ii_limit = 8\<rparr>"

theorem interval_replace_refines_witness:
  "\<exists>jx. Intervals_replace demo_intervals 3 \<lparr>mp_end = 5, mp_sequence = 2, mp_source = None\<rparr> = Inr jx \<and>
     Intervals_at jx 4 (2, None) \<and> Intervals_at jx 6 (1, None) \<and> length (ii_map jx) \<le> 3"
proof -
  let ?m = "\<lparr>mp_end = 5, mp_sequence = 2, mp_source = None\<rparr>"
  have inv: "Intervals_inv demo_intervals"
    by (simp add: Intervals_inv_def demo_intervals_def intervals_ok_def)
  obtain jx where jx: "Intervals_replace demo_intervals 3 ?m = Inr jx"
    by (simp add: Intervals_replace_def demo_intervals_def Let_def)
  have old: "Intervals_at demo_intervals 6 (1, None)"
    by (simp add: Intervals_at_def demo_intervals_def maps_to_def covers_def value_at_def)
  from interval_replace_refines [OF inv _ _ jx] have
    "Intervals_at jx 4 (2, None)" "Intervals_at jx 6 (1, None)" "length (ii_map jx) \<le> length (ii_map demo_intervals) + 2"
    using old by (auto simp: value_at_def)
  then show ?thesis using jx by (auto simp: demo_intervals_def)
qed

text \<open>
  Overlap queries are complete and exact: the intervals returned for a range are, in order,
  exactly those that meet it, so a reader sees every position of the range through one of them.
\<close>
theorem overlap_query_exact:
  assumes "Intervals_inv ix"
  shows "keys_sorted (Intervals_overlapping ix start end) \<and>
    (\<forall>k m. (k, m) \<in> set (Intervals_overlapping ix start end) \<longleftrightarrow>
       (k, m) \<in> set (ii_map ix) \<and> k < end \<and> start < mp_end m) \<and>
    (\<forall>x r. start \<le> x \<longrightarrow> x < end \<longrightarrow> Intervals_at ix x r \<longrightarrow>
       (\<exists>(k, m) \<in> set (Intervals_overlapping ix start end). covers k m x \<and> r = value_at k m x))"
proof (intro conjI allI impI)
  have so: "keys_sorted (ii_map ix)" using assms by (simp add: Intervals_inv_def)
  show "keys_sorted (Intervals_overlapping ix start end)" by (rule Intervals_overlapping_spec(2) [OF assms])
  show "(k, m) \<in> set (Intervals_overlapping ix start end) \<longleftrightarrow>
       (k, m) \<in> set (ii_map ix) \<and> k < end \<and> start < mp_end m" for k m
    by (simp add: Intervals_overlapping_spec(1) [OF assms] om_mem [OF so])
  fix x r assume "start \<le> x" "x < end" "Intervals_at ix x r"
  then show "\<exists>(k, m) \<in> set (Intervals_overlapping ix start end). covers k m x \<and> r = value_at k m x"
    by (force simp: Intervals_at_def maps_to_def covers_def Intervals_overlapping_spec(1) [OF assms])
qed

theorem overlap_query_exact_witness:
  "(0, \<lparr>mp_end = 8, mp_sequence = 1, mp_source = None\<rparr>) \<in> set (Intervals_overlapping demo_intervals 3 5)"
proof -
  have "Intervals_inv demo_intervals" by (simp add: Intervals_inv_def demo_intervals_def intervals_ok_def)
  from overlap_query_exact [OF this, of 3 5] show ?thesis by (simp add: demo_intervals_def)
qed

end
