(* ===== verification/Lru.thy ===== *)
theory Lru
  imports Prelude
begin

text \<open>
  The fixed-capacity LRU membership of the chunk and manifest-page caches
  (\<^verbatim>\<open>crates/cas/core/src/cache/lru.rs\<close>): a hash table whose entries are doubly linked by key. The
  table is kept by its contents, an association list; every link that names a missing entry is the
  panic of the source. The links are shown to refine a recency list, oldest first.
\<close>

section \<open>State and operations\<close>

record Counters =
  ct_hits :: nat
  ct_misses :: nat
  ct_fills :: nat
  ct_evictions :: nat
  ct_refused :: nat

record ('k, 'v) LruEntry =
  le_buffer :: 'v
  le_older :: "'k option"
  le_newer :: "'k option"

record ('k, 'v) Lru =
  lr_entries :: "('k \<times> ('k, 'v) LruEntry) list"
  lr_capacity :: nat
  lr_oldest :: "'k option"
  lr_newest :: "'k option"
  lr_counters :: Counters

definition Lru_new :: "nat \<Rightarrow> ('k, 'v) Lru" where
  "Lru_new cap =
     \<lparr>lr_entries = [], lr_capacity = cap, lr_oldest = None, lr_newest = None,
      lr_counters = \<lparr>ct_hits = 0, ct_misses = 0, ct_fills = 0, ct_evictions = 0, ct_refused = 0\<rparr>\<rparr>"

text \<open>The constructor reserves twice the capacity in the table; \<open>reserved\<close> is the answer.\<close>

definition Lru_try_new :: "bool \<Rightarrow> nat \<Rightarrow> ('k, 'v) Lru result" where
  "Lru_try_new reserved cap =
     attempt (ok_or (nchecked_mul cap 2) (OutOfMemory ''cache table'')) (\<lambda>slots.
     ensure reserved (OutOfMemory ''cache table'') (Inr (Lru_new cap)))"

definition Lru_len :: "('k, 'v) Lru \<Rightarrow> nat" where
  "Lru_len l = length (lr_entries l)"

definition Lru_buffer :: "('k, 'v) Lru \<Rightarrow> 'k \<Rightarrow> 'v option" where
  "Lru_buffer l k = map_option le_buffer (map_of (lr_entries l) k)"

text \<open>\<^verbatim>\<open>entry(key)\<close> and the assignment through it.\<close>

definition Lru_entry :: "('k, 'v) Lru \<Rightarrow> 'k \<Rightarrow> ('k, 'v) LruEntry result" where
  "Lru_entry l k = ok_or (map_of (lr_entries l) k) (Panic ''LRU link names a resident entry'')"

definition Lru_update ::
  "'k \<Rightarrow> (('k, 'v) LruEntry \<Rightarrow> ('k, 'v) LruEntry) \<Rightarrow> ('k, 'v) Lru \<Rightarrow> ('k, 'v) Lru result" where
  "Lru_update k f l =
     attempt (Lru_entry l k) (\<lambda>_.
       Inr (l\<lparr>lr_entries := map (\<lambda>(a, e). if a = k then (a, f e) else (a, e)) (lr_entries l)\<rparr>))"

definition Lru_unlink :: "('k, 'v) Lru \<Rightarrow> 'k \<Rightarrow> ('k, 'v) Lru result" where
  "Lru_unlink l k =
     attempt (Lru_entry l k) (\<lambda>e.
       let older = le_older e; newer = le_newer e in
       attempt (case older of
                  Some o' \<Rightarrow> Lru_update o' (\<lambda>e. e\<lparr>le_newer := newer\<rparr>) l
                | None \<Rightarrow> Inr (l\<lparr>lr_oldest := newer\<rparr>)) (\<lambda>l.
       case newer of
         Some n' \<Rightarrow> Lru_update n' (\<lambda>e. e\<lparr>le_older := older\<rparr>) l
       | None \<Rightarrow> Inr (l\<lparr>lr_newest := older\<rparr>)))"

definition Lru_link_newest :: "('k, 'v) Lru \<Rightarrow> 'k \<Rightarrow> ('k, 'v) Lru result" where
  "Lru_link_newest l k =
    (let newest = lr_newest l in
     attempt (Lru_update k (\<lambda>e. e\<lparr>le_older := newest, le_newer := None\<rparr>) l) (\<lambda>l.
     attempt (case newest of
                Some n' \<Rightarrow> Lru_update n' (\<lambda>e. e\<lparr>le_newer := Some k\<rparr>) l
              | None \<Rightarrow> Inr (l\<lparr>lr_oldest := Some k\<rparr>)) (\<lambda>l.
       Inr (l\<lparr>lr_newest := Some k\<rparr>))))"

definition Lru_promote :: "('k, 'v) Lru \<Rightarrow> 'k \<Rightarrow> ('k, 'v) Lru result" where
  "Lru_promote l k =
    (if lr_newest l = Some k then Inr l
     else attempt (Lru_unlink l k) (\<lambda>l. Lru_link_newest l k))"

definition count :: "(Counters \<Rightarrow> Counters) \<Rightarrow> ('k, 'v) Lru \<Rightarrow> ('k, 'v) Lru" where
  "count f l = l\<lparr>lr_counters := f (lr_counters l)\<rparr>"

definition Lru_get :: "('k, 'v) Lru \<Rightarrow> 'k \<Rightarrow> (('k, 'v) Lru \<times> 'v option) result" where
  "Lru_get l k =
    (case Lru_buffer l k of
       None \<Rightarrow> Inr (count (\<lambda>c. c\<lparr>ct_misses := ct_misses c + 1\<rparr>) l, None)
     | Some b \<Rightarrow>
         attempt (Lru_promote l k) (\<lambda>l.
           Inr (count (\<lambda>c. c\<lparr>ct_hits := ct_hits c + 1\<rparr>) l, Some b)))"

definition Lru_insert :: "('k, 'v) Lru \<Rightarrow> 'k \<Rightarrow> 'v \<Rightarrow> ('k, 'v) Lru result" where
  "Lru_insert l k b =
     ensure (Lru_len l < lr_capacity l) (Panic ''assertion failed: self.entries.len() < self.capacity'')
    (attempt (Lru_link_newest
        (l\<lparr>lr_entries := (k, \<lparr>le_buffer = b, le_older = None, le_newer = None\<rparr>) # lr_entries l\<rparr>) k) (\<lambda>l.
       Inr (count (\<lambda>c. c\<lparr>ct_fills := ct_fills c + 1\<rparr>) l)))"

definition Lru_evict :: "('k, 'v) Lru \<Rightarrow> (('k, 'v) Lru \<times> bool) result" where
  "Lru_evict l =
    (case lr_oldest l of
       None \<Rightarrow> Inr (l, False)
     | Some k \<Rightarrow>
         attempt (Lru_unlink l k) (\<lambda>l.
           ensure (map_of (lr_entries l) k \<noteq> None) (Panic ''oldest cache entry exists'')
             (Inr (count (\<lambda>c. c\<lparr>ct_evictions := ct_evictions c + 1\<rparr>)
                (l\<lparr>lr_entries := filter (\<lambda>(a, e). a \<noteq> k) (lr_entries l)\<rparr>), True))))"

section \<open>Recency lists\<close>

definition hd_opt :: "'a list \<Rightarrow> 'a option" where
  "hd_opt xs = (if xs = [] then None else Some (hd xs))"

definition last_opt :: "'a list \<Rightarrow> 'a option" where
  "last_opt xs = (if xs = [] then None else Some (last xs))"

lemma ends_simps [simp]:
  "hd_opt [] = None" "last_opt [] = None"
  "hd_opt (x # xs) = Some x" "last_opt (xs @ [x]) = Some x"
  by (simp_all add: hd_opt_def last_opt_def)

lemma hd_opt_append: "hd_opt (xs @ ys) = (if xs = [] then hd_opt ys else hd_opt xs)"
  by (simp add: hd_opt_def)

lemma last_opt_append: "last_opt (xs @ ys) = (if ys = [] then last_opt xs else last_opt ys)"
  by (simp add: last_opt_def)

lemma last_opt_Cons: "last_opt (x # xs) = (if xs = [] then Some x else last_opt xs)"
  by (simp add: last_opt_def)

lemma last_opt_mem: "last_opt xs = Some x \<Longrightarrow> x \<in> set xs"
  by (auto simp: last_opt_def split: if_splits)

lemma hd_opt_mem: "hd_opt xs = Some x \<Longrightarrow> x \<in> set xs"
  by (auto simp: hd_opt_def split: if_splits)

text \<open>Every entry of the list points at its neighbours.\<close>

definition linked :: "('k \<Rightarrow> ('k, 'v) LruEntry option) \<Rightarrow> 'k list \<Rightarrow> bool" where
  "linked m ks \<longleftrightarrow>
     (\<forall>xs k ys. ks = xs @ k # ys \<longrightarrow>
        (\<exists>e. m k = Some e \<and> le_older e = last_opt xs \<and> le_newer e = hd_opt ys))"

definition Lru_links :: "('k, 'v) Lru \<Rightarrow> 'k list \<Rightarrow> bool" where
  "Lru_links l ks \<longleftrightarrow>
     distinct (map fst (lr_entries l)) \<and> distinct ks \<and> linked (map_of (lr_entries l)) ks \<and>
     lr_oldest l = hd_opt ks \<and> lr_newest l = last_opt ks"

definition Lru_inv :: "('k, 'v) Lru \<Rightarrow> 'k list \<Rightarrow> bool" where
  "Lru_inv l ks \<longleftrightarrow>
     Lru_links l ks \<and> fst ` set (lr_entries l) = set ks \<and> length ks \<le> lr_capacity l"

lemma map_of_update_at:
  "map_of (map (\<lambda>(a, e). if a = k then (a, f e) else (a, e)) es) j =
   map_option (\<lambda>e. if j = k then f e else e) (map_of es j)"
  by (induction es) auto

lemma map_of_remove_key: "map_of (filter (\<lambda>(a, e). a \<noteq> k) es) = (map_of es)(k := None)"
  by (induction es) (auto simp: fun_eq_iff)

lemma Lru_update_spec:
  assumes "map_of (lr_entries l) k = Some e"
  shows "\<exists>l'. Lru_update k f l = Inr l' \<and> map_of (lr_entries l') = (map_of (lr_entries l))(k \<mapsto> f e) \<and>
     map fst (lr_entries l') = map fst (lr_entries l) \<and> lr_capacity l' = lr_capacity l \<and>
     lr_oldest l' = lr_oldest l \<and> lr_newest l' = lr_newest l \<and> lr_counters l' = lr_counters l"
proof -
  let ?es = "map (\<lambda>(a, e). if a = k then (a, f e) else (a, e)) (lr_entries l)"
  have "map_of ?es = (map_of (lr_entries l))(k \<mapsto> f e)"
    using assms by (auto simp: fun_eq_iff option.map_ident map_of_update_at)
  moreover have "map fst ?es = map fst (lr_entries l)" by auto
  ultimately show ?thesis using assms by (simp add: Lru_update_def Lru_entry_def)
qed

lemma linkedD:
  assumes "linked m (xs @ k # ys)"
  obtains e where "m k = Some e" and "le_older e = last_opt xs" and "le_newer e = hd_opt ys"
  using assms unfolding linked_def by blast

lemma linked_Nil [simp]: "linked m []"
  by (simp add: linked_def)

lemma linked_cong:
  assumes "linked m ks" and "\<And>k. k \<in> set ks \<Longrightarrow> m' k = m k"
  shows "linked m' ks"
  using assms unfolding linked_def by simp

text \<open>Taking an entry out of the chain, and putting one at its newest end.\<close>

definition relink_newer :: "'k option \<Rightarrow> 'k option \<Rightarrow> ('k \<Rightarrow> ('k, 'v) LruEntry option) \<Rightarrow> 'k \<Rightarrow> ('k, 'v) LruEntry option" where
  "relink_newer o' n m =
    (case o' of None \<Rightarrow> m | Some a \<Rightarrow> m(a := map_option (\<lambda>e. e\<lparr>le_newer := n\<rparr>) (m a)))"

definition relink_older :: "'k option \<Rightarrow> 'k option \<Rightarrow> ('k \<Rightarrow> ('k, 'v) LruEntry option) \<Rightarrow> 'k \<Rightarrow> ('k, 'v) LruEntry option" where
  "relink_older n o' m =
    (case n of None \<Rightarrow> m | Some a \<Rightarrow> m(a := map_option (\<lambda>e. e\<lparr>le_older := o'\<rparr>) (m a)))"

lemma linked_remove:
  assumes li: "linked m (xs @ k # ys)" and di: "distinct (xs @ k # ys)"
  shows "linked (relink_older (hd_opt ys) (last_opt xs) (relink_newer (last_opt xs) (hd_opt ys) m)) (xs @ ys)"
    (is "linked ?m _")
  unfolding linked_def
proof (intro allI impI)
  fix as a bs assume eq: "xs @ ys = as @ a # bs"
  then consider cs where "xs = as @ a # cs" "bs = cs @ ys" | cs where "ys = cs @ a # bs" "as = xs @ cs"
    by (auto simp: append_eq_append_conv2 append_eq_Cons_conv)
  then show "\<exists>e. ?m a = Some e \<and> le_older e = last_opt as \<and> le_newer e = hd_opt bs"
  proof cases
    case 1
    then have "linked m (as @ a # (cs @ k # ys))" using li by simp
    then obtain e where e: "m a = Some e" "le_older e = last_opt as" "le_newer e = hd_opt (cs @ k # ys)"
      by (rule linkedD)
    have not_hd: "hd_opt ys \<noteq> Some a" using di 1 by (auto dest: hd_opt_mem)
    show ?thesis
    proof (cases "cs = []")
      case True
      then show ?thesis using 1 e not_hd
        by (auto simp: relink_newer_def relink_older_def split: option.splits)
    next
      case False
      then have "last_opt xs \<noteq> Some a" using di 1 by (auto simp: last_opt_def)
      then show ?thesis using 1 e not_hd False
        by (auto simp: relink_newer_def relink_older_def hd_opt_append split: option.splits)
    qed
  next
    case 2
    then have "linked m ((xs @ k # cs) @ a # bs)" using li by simp
    then obtain e where e: "m a = Some e" "le_older e = last_opt (xs @ k # cs)" "le_newer e = hd_opt bs"
      by (rule linkedD)
    have not_last: "last_opt xs \<noteq> Some a" using di 2 by (auto dest: last_opt_mem)
    show ?thesis
    proof (cases "cs = []")
      case True
      then show ?thesis using 2 e not_last
        by (auto simp: relink_newer_def relink_older_def split: option.splits)
    next
      case False
      then have "hd_opt ys \<noteq> Some a" using di 2 by (auto simp: hd_opt_def hd_append)
      then show ?thesis using 2 e not_last False
        by (auto simp: relink_newer_def relink_older_def last_opt_append last_opt_Cons split: option.splits)
    qed
  qed
qed

lemma linked_snoc:
  assumes li: "linked m ks" and di: "distinct (ks @ [k])" and k: "m k = Some e"
  shows "linked (relink_newer (last_opt ks) (Some k) (m(k \<mapsto> e\<lparr>le_older := last_opt ks, le_newer := None\<rparr>))) (ks @ [k])"
    (is "linked ?m _")
  unfolding linked_def
proof (intro allI impI)
  fix as a bs assume eq: "ks @ [k] = as @ a # bs"
  then consider "bs = []" "a = k" "as = ks" | cs where "ks = as @ a # cs" "bs = cs @ [k]"
    by (cases bs rule: rev_cases) auto
  then show "\<exists>e. ?m a = Some e \<and> le_older e = last_opt as \<and> le_newer e = hd_opt bs"
  proof cases
    case 1
    have "last_opt ks \<noteq> Some k" using di by (auto dest: last_opt_mem)
    then show ?thesis using 1 by (auto simp: relink_newer_def split: option.splits)
  next
    case 2
    obtain e' where e: "m a = Some e'" "le_older e' = last_opt as" "le_newer e' = hd_opt cs"
      using li unfolding 2(1) by (rule linkedD)
    have "a \<noteq> k" using di 2 by auto
    show ?thesis
    proof (cases "cs = []")
      case True
      then show ?thesis using 2 e \<open>a \<noteq> k\<close> by (auto simp: relink_newer_def)
    next
      case False
      then have "last_opt ks \<noteq> Some a" using di 2 by (auto simp: last_opt_def)
      then show ?thesis using 2 e \<open>a \<noteq> k\<close> False
        by (auto simp: relink_newer_def hd_opt_append split: option.splits)
    qed
  qed
qed

section \<open>Operations on recency lists\<close>

text \<open>What no relinking touches.\<close>

definition same_content :: "('k, 'v) Lru \<Rightarrow> ('k, 'v) Lru \<Rightarrow> bool" where
  "same_content l l' \<longleftrightarrow>
     map fst (lr_entries l') = map fst (lr_entries l) \<and> Lru_buffer l' = Lru_buffer l \<and>
     lr_capacity l' = lr_capacity l \<and> lr_counters l' = lr_counters l"

lemma Lru_buffer_ends [simp]:
  "Lru_buffer (l\<lparr>lr_oldest := a\<rparr>) = Lru_buffer l"
  "Lru_buffer (l\<lparr>lr_newest := a\<rparr>) = Lru_buffer l"
  "Lru_buffer (l\<lparr>lr_counters := c\<rparr>) = Lru_buffer l"
  by (simp_all add: Lru_buffer_def fun_eq_iff)

lemma same_content_refl [simp]: "same_content l l"
  by (simp add: same_content_def)

lemma same_content_trans: "same_content a b \<Longrightarrow> same_content b c \<Longrightarrow> same_content a c"
  by (simp add: same_content_def)

lemma Lru_update_link:
  assumes "map_of (lr_entries l) a = Some e" and "\<And>e. le_buffer (f e) = le_buffer e"
  shows "\<exists>l'. Lru_update a f l = Inr l' \<and> map_of (lr_entries l') = (map_of (lr_entries l))(a \<mapsto> f e) \<and>
     same_content l l' \<and> lr_oldest l' = lr_oldest l \<and> lr_newest l' = lr_newest l"
  using Lru_update_spec [OF assms(1), of f] assms
  by (auto simp: same_content_def Lru_buffer_def fun_eq_iff)

lemma linked_dom: "linked m ks \<Longrightarrow> k \<in> set ks \<Longrightarrow> \<exists>e. m k = Some e"
  unfolding linked_def by (metis split_list)

lemma set_newer_step:
  assumes "linked (map_of (lr_entries l)) ks" and "\<And>a. o' = Some a \<Longrightarrow> a \<in> set ks"
  shows "\<exists>l'. (case o' of Some a \<Rightarrow> Lru_update a (\<lambda>e. e\<lparr>le_newer := n\<rparr>) l
                | None \<Rightarrow> Inr (l\<lparr>lr_oldest := n\<rparr>)) = Inr l' \<and>
     map_of (lr_entries l') = relink_newer o' n (map_of (lr_entries l)) \<and> same_content l l' \<and>
     lr_oldest l' = (if o' = None then n else lr_oldest l) \<and> lr_newest l' = lr_newest l"
proof (cases o')
  case None
  then show ?thesis by (simp add: relink_newer_def same_content_def)
next
  case (Some a)
  then obtain e where e: "map_of (lr_entries l) a = Some e" using assms linked_dom by fast
  then show ?thesis using Lru_update_link [OF e, of "\<lambda>e. e\<lparr>le_newer := n\<rparr>"] Some by (auto simp: relink_newer_def)
qed

lemma set_older_step:
  assumes "\<And>a. n = Some a \<Longrightarrow> \<exists>e. map_of (lr_entries l) a = Some e"
  shows "\<exists>l'. (case n of Some a \<Rightarrow> Lru_update a (\<lambda>e. e\<lparr>le_older := o'\<rparr>) l
                | None \<Rightarrow> Inr (l\<lparr>lr_newest := o'\<rparr>)) = Inr l' \<and>
     map_of (lr_entries l') = relink_older n o' (map_of (lr_entries l)) \<and> same_content l l' \<and>
     lr_newest l' = (if n = None then o' else lr_newest l) \<and> lr_oldest l' = lr_oldest l"
proof (cases n)
  case None
  then show ?thesis by (simp add: relink_older_def same_content_def)
next
  case (Some a)
  then obtain e where e: "map_of (lr_entries l) a = Some e" using assms by blast
  then show ?thesis using Lru_update_link [OF e, of "\<lambda>e. e\<lparr>le_older := o'\<rparr>"] Some by (auto simp: relink_older_def)
qed

lemma Lru_unlink_spec:
  assumes "Lru_links l (xs @ k # ys)"
  shows "\<exists>l'. Lru_unlink l k = Inr l' \<and> Lru_links l' (xs @ ys) \<and> same_content l l'"
proof -
  let ?m = "map_of (lr_entries l)"
  from assms have li: "linked ?m (xs @ k # ys)" and di: "distinct (xs @ k # ys)"
    and ends: "lr_oldest l = hd_opt (xs @ k # ys)" "lr_newest l = last_opt (xs @ k # ys)"
    and keys: "distinct (map fst (lr_entries l))" by (auto simp: Lru_links_def)
  obtain e where e: "?m k = Some e" "le_older e = last_opt xs" "le_newer e = hd_opt ys"
    using li by (rule linkedD)
  obtain l1 where l1: "(case last_opt xs of Some a \<Rightarrow> Lru_update a (\<lambda>e. e\<lparr>le_newer := hd_opt ys\<rparr>) l
                | None \<Rightarrow> Inr (l\<lparr>lr_oldest := hd_opt ys\<rparr>)) = Inr l1"
    "map_of (lr_entries l1) = relink_newer (last_opt xs) (hd_opt ys) ?m" "same_content l l1"
    "lr_oldest l1 = (if last_opt xs = None then hd_opt ys else lr_oldest l)" "lr_newest l1 = lr_newest l"
    using set_newer_step [OF li, of "last_opt xs" "hd_opt ys"] by (auto dest: last_opt_mem)
  have "\<exists>e. map_of (lr_entries l1) a = Some e" if "hd_opt ys = Some a" for a
  proof -
    have "a \<in> set ys" using that by (rule hd_opt_mem)
    then obtain e' where "?m a = Some e'" using linked_dom [OF li, of a] by auto
    then show ?thesis by (auto simp: l1(2) relink_newer_def split: option.splits)
  qed
  then obtain l2 where l2: "(case hd_opt ys of Some a \<Rightarrow> Lru_update a (\<lambda>e. e\<lparr>le_older := last_opt xs\<rparr>) l1
                | None \<Rightarrow> Inr (l1\<lparr>lr_newest := last_opt xs\<rparr>)) = Inr l2"
    "map_of (lr_entries l2) = relink_older (hd_opt ys) (last_opt xs) (map_of (lr_entries l1))" "same_content l1 l2"
    "lr_newest l2 = (if hd_opt ys = None then last_opt xs else lr_newest l1)" "lr_oldest l2 = lr_oldest l1"
    using set_older_step [of "hd_opt ys" l1 "last_opt xs"] by blast
  have "Lru_unlink l k = Inr l2"
    unfolding Lru_unlink_def Lru_entry_def Let_def e(1) ok_or_simps attempt_simps e(2,3) l1(1) by (rule l2(1))
  moreover have "lr_oldest l2 = hd_opt (xs @ ys)" "lr_newest l2 = last_opt (xs @ ys)"
    using ends l1(4,5) l2(4,5)
    by (auto simp: hd_opt_append last_opt_append last_opt_Cons hd_opt_def last_opt_def split: if_splits)
  moreover have "linked (map_of (lr_entries l2)) (xs @ ys)" using linked_remove [OF li di] l1(2) l2(2) by simp
  moreover have "same_content l l2" using same_content_trans [OF l1(3) l2(3)] .
  ultimately show ?thesis using di keys by (auto simp: Lru_links_def same_content_def)
qed

lemma Lru_link_newest_spec:
  assumes "Lru_links l ks" and "k \<notin> set ks" and "k \<in> fst ` set (lr_entries l)"
  shows "\<exists>l'. Lru_link_newest l k = Inr l' \<and> Lru_links l' (ks @ [k]) \<and> same_content l l'"
proof -
  let ?m = "map_of (lr_entries l)" and ?f = "\<lambda>e. e\<lparr>le_older := last_opt ks, le_newer := None\<rparr>"
  from assms have li: "linked ?m ks" and di: "distinct (ks @ [k])" and keys: "distinct (map fst (lr_entries l))"
    and ends: "lr_oldest l = hd_opt ks" "lr_newest l = last_opt ks" by (auto simp: Lru_links_def)
  obtain e where e: "?m k = Some e" using assms(3) by (metis map_of_eq_None_iff not_Some_eq)
  obtain l1 where l1: "Lru_update k ?f l = Inr l1" "map_of (lr_entries l1) = ?m(k \<mapsto> ?f e)" "same_content l l1"
    "lr_oldest l1 = lr_oldest l" "lr_newest l1 = lr_newest l"
    using Lru_update_link [OF e, of ?f] by auto
  have "linked (map_of (lr_entries l1)) ks" unfolding l1(2) by (rule linked_cong [OF li]) (use assms(2) in auto)
  then obtain l2 where l2: "(case last_opt ks of Some a \<Rightarrow> Lru_update a (\<lambda>e. e\<lparr>le_newer := Some k\<rparr>) l1
                | None \<Rightarrow> Inr (l1\<lparr>lr_oldest := Some k\<rparr>)) = Inr l2"
    "map_of (lr_entries l2) = relink_newer (last_opt ks) (Some k) (map_of (lr_entries l1))" "same_content l1 l2"
    "lr_oldest l2 = (if last_opt ks = None then Some k else lr_oldest l1)" "lr_newest l2 = lr_newest l1"
    using set_newer_step [of l1 ks "last_opt ks" "Some k"] by (auto dest: last_opt_mem)
  let ?l = "l2\<lparr>lr_newest := Some k\<rparr>"
  have "Lru_link_newest l k = Inr ?l"
    using l1(1) l2(1) ends(2) by (simp add: Lru_link_newest_def Let_def)
  moreover have "linked (map_of (lr_entries ?l)) (ks @ [k])" using linked_snoc [OF li di e] l1(2) l2(2) by simp
  moreover have "lr_oldest ?l = hd_opt (ks @ [k])"
    using l2(4) l1(4) ends(1) by (auto simp: hd_opt_append last_opt_def hd_opt_def)
  moreover have "same_content l ?l"
    using same_content_trans [OF l1(3) l2(3)] by (simp add: same_content_def)
  ultimately show ?thesis using di keys by (auto simp: Lru_links_def same_content_def)
qed

lemma Lru_promote_spec:
  assumes inv: "Lru_inv l ks" and k: "k \<in> set ks"
  shows "\<exists>l'. Lru_promote l k = Inr l' \<and> Lru_inv l' (remove1 k ks @ [k]) \<and> same_content l l'"
proof -
  obtain xs ys where ks: "ks = xs @ k # ys" and "k \<notin> set xs" using split_list_first [OF k] by blast
  then have rm: "remove1 k ks = xs @ ys" by (simp add: remove1_append)
  from inv have li: "Lru_links l ks" and keys: "fst ` set (lr_entries l) = set ks" and cap: "length ks \<le> lr_capacity l"
    by (simp_all add: Lru_inv_def)
  have keep: "fst ` set (lr_entries l') = fst ` set (lr_entries l)" if "same_content l l'" for l'
    using that by (metis same_content_def list.set_map)
  show ?thesis
  proof (cases "lr_newest l = Some k")
    case True
    then have "last ks = k" "ks \<noteq> []" using li by (auto simp: Lru_links_def last_opt_def split: if_splits)
    moreover have "distinct (xs @ k # ys)" using li ks by (simp add: Lru_links_def)
    ultimately have "ys = []" using ks last_in_set [of ys] by (cases "ys = []") auto
    then have "remove1 k ks @ [k] = ks" using ks rm by simp
    then show ?thesis using True inv by (simp only: Lru_promote_def) simp
  next
    case False
    obtain l1 where l1: "Lru_unlink l k = Inr l1" "Lru_links l1 (xs @ ys)" "same_content l l1"
      using Lru_unlink_spec [OF li [unfolded ks]] by blast
    have "k \<notin> set (xs @ ys)" using li ks by (auto simp: Lru_links_def)
    moreover have "k \<in> fst ` set (lr_entries l1)" using keep [OF l1(3)] keys ks by simp
    ultimately obtain l2 where l2: "Lru_link_newest l1 k = Inr l2" "Lru_links l2 ((xs @ ys) @ [k])" "same_content l1 l2"
      using Lru_link_newest_spec [OF l1(2)] by blast
    have sc: "same_content l l2" using same_content_trans [OF l1(3) l2(3)] .
    have "Lru_inv l2 (remove1 k ks @ [k])"
      unfolding Lru_inv_def rm using l2(2) keep [OF sc] keys ks cap sc by (auto simp: same_content_def)
    then show ?thesis using False l1(1) l2(1) sc by (auto simp: Lru_promote_def)
  qed
qed

lemma Lru_insert_spec:
  assumes inv: "Lru_inv l ks" and k: "k \<notin> set ks"
  shows "Lru_len l < lr_capacity l \<Longrightarrow> \<exists>l'. Lru_insert l k b = Inr l' \<and> Lru_inv l' (ks @ [k]) \<and>
           Lru_buffer l' = (Lru_buffer l)(k \<mapsto> b) \<and> lr_capacity l' = lr_capacity l"
    and "Lru_len l = length ks"
proof -
  from inv have li: "Lru_links l ks" and keys: "fst ` set (lr_entries l) = set ks" and cap: "length ks \<le> lr_capacity l"
    by (simp_all add: Lru_inv_def)
  have "length (map fst (lr_entries l)) = length ks"
    using li keys distinct_card [of "map fst (lr_entries l)"] distinct_card [of ks] by (simp add: Lru_links_def)
  then show len: "Lru_len l = length ks" by (simp add: Lru_len_def)
  let ?l = "l\<lparr>lr_entries := (k, \<lparr>le_buffer = b, le_older = None, le_newer = None\<rparr>) # lr_entries l\<rparr>"
  have "linked (map_of (lr_entries ?l)) ks"
    by (rule linked_cong [of "map_of (lr_entries l)"]) (use li k in \<open>auto simp: Lru_links_def\<close>)
  then have "Lru_links ?l ks" using li keys k by (simp add: Lru_links_def)
  then obtain l1 where l1: "Lru_link_newest ?l k = Inr l1" "Lru_links l1 (ks @ [k])" "same_content ?l l1"
    using Lru_link_newest_spec [of ?l ks k] k by auto
  have buf: "Lru_buffer ?l = (Lru_buffer l)(k \<mapsto> b)" by (simp add: Lru_buffer_def fun_eq_iff)
  have "map fst (lr_entries l1) = k # map fst (lr_entries l)" using l1(3) by (simp add: same_content_def)
  then have "set (map fst (lr_entries l1)) = set (k # map fst (lr_entries l))" by (rule arg_cong)
  then have keys1: "fst ` set (lr_entries l1) = insert k (set ks)" using keys by simp
  assume "Lru_len l < lr_capacity l"
  then show "\<exists>l'. Lru_insert l k b = Inr l' \<and> Lru_inv l' (ks @ [k]) \<and>
           Lru_buffer l' = (Lru_buffer l)(k \<mapsto> b) \<and> lr_capacity l' = lr_capacity l"
    using l1 keys1 buf len by (auto simp: Lru_insert_def Lru_inv_def Lru_links_def count_def same_content_def)
qed

lemma Lru_evict_spec:
  assumes inv: "Lru_inv l ks"
  shows "\<exists>l'. Lru_evict l = Inr (l', ks \<noteq> []) \<and> Lru_inv l' (tl ks) \<and> lr_capacity l' = lr_capacity l \<and>
     Lru_buffer l' = (case ks of [] \<Rightarrow> Lru_buffer l | k # _ \<Rightarrow> (Lru_buffer l)(k := None))"
proof (cases ks)
  case Nil
  then show ?thesis using inv by (simp add: Lru_evict_def Lru_inv_def Lru_links_def)
next
  case (Cons k ys)
  from inv have li: "Lru_links l ([] @ k # ys)" and keys: "fst ` set (lr_entries l) = insert k (set ys)"
    and old: "lr_oldest l = Some k" and cap: "length ks \<le> lr_capacity l"
    using Cons by (auto simp: Lru_inv_def Lru_links_def)
  obtain l1 where l1: "Lru_unlink l k = Inr l1" "Lru_links l1 ys" "same_content l l1"
    using Lru_unlink_spec [OF li] by auto
  have keys1: "fst ` set (lr_entries l1) = insert k (set ys)"
    using l1(3) keys by (metis same_content_def list.set_map)
  let ?es = "filter (\<lambda>(a, e). a \<noteq> k) (lr_entries l1)"
  let ?l = "count (\<lambda>c. c\<lparr>ct_evictions := ct_evictions c + 1\<rparr>) (l1\<lparr>lr_entries := ?es\<rparr>)"
  have map: "map_of ?es = (map_of (lr_entries l1))(k := None)" by (rule map_of_remove_key)
  have k: "k \<notin> set ys" using li by (simp add: Lru_links_def)
  have "map_of (lr_entries l1) k \<noteq> None" using keys1 by (simp add: map_of_eq_None_iff)
  then have ev: "Lru_evict l = Inr (?l, True)" using old l1(1) by (simp add: Lru_evict_def)
  have "linked (map_of ?es) ys"
    by (rule linked_cong [of "map_of (lr_entries l1)"]) (use l1(2) k in \<open>auto simp: Lru_links_def map\<close>)
  then have "Lru_links ?l ys"
    using l1(2) by (auto simp: Lru_links_def count_def distinct_map_filter)
  moreover have "fst ` set ?es = set ys" using keys1 k by force
  moreover have "lr_capacity ?l = lr_capacity l" using l1(3) by (simp add: count_def same_content_def)
  moreover have "Lru_buffer ?l = (Lru_buffer l1)(k := None)"
    by (auto simp: Lru_buffer_def count_def map fun_eq_iff)
  then have "Lru_buffer ?l = (Lru_buffer l)(k := None)" using l1(3) by (simp add: same_content_def)
  ultimately show ?thesis using ev Cons cap by (auto simp: Lru_inv_def count_def)
qed

lemma Lru_get_spec:
  assumes inv: "Lru_inv l ks"
  shows "\<exists>l'. Lru_get l k = Inr (l', Lru_buffer l k) \<and> Lru_buffer l' = Lru_buffer l \<and>
     lr_capacity l' = lr_capacity l \<and> Lru_inv l' (if k \<in> set ks then remove1 k ks @ [k] else ks)"
proof (cases "k \<in> set ks")
  case True
  then have "map_of (lr_entries l) k \<noteq> None" using inv by (auto simp: Lru_inv_def map_of_eq_None_iff)
  then obtain b where b: "Lru_buffer l k = Some b" by (auto simp: Lru_buffer_def)
  obtain l1 where "Lru_promote l k = Inr l1" "Lru_inv l1 (remove1 k ks @ [k])" "same_content l l1"
    using Lru_promote_spec [OF inv True] by blast
  then show ?thesis using b True
    by (auto simp: Lru_get_def count_def Lru_inv_def Lru_links_def same_content_def)
next
  case False
  then have "map_of (lr_entries l) k = None" using inv by (auto simp: Lru_inv_def map_of_eq_None_iff)
  then show ?thesis using False inv
    by (auto simp: Lru_get_def Lru_buffer_def count_def Lru_inv_def Lru_links_def fun_eq_iff)
qed

lemma Lru_new_inv: "Lru_inv (Lru_new cap) []"
  by (simp add: Lru_inv_def Lru_links_def Lru_new_def)

lemma Lru_inv_buffer: "Lru_inv l ks \<Longrightarrow> Lru_buffer l k \<noteq> None \<longleftrightarrow> k \<in> set ks"
  by (auto simp: Lru_inv_def Lru_buffer_def map_of_eq_None_iff)

text \<open>Every successful eviction shrinks the table, whatever its links.\<close>

lemma Lru_update_len: "Lru_update k f l = Inr l' \<Longrightarrow> Lru_len l' = Lru_len l"
  by (auto simp: Lru_update_def Lru_len_def)

lemma Lru_unlink_len: "Lru_unlink l k = Inr l' \<Longrightarrow> Lru_len l' = Lru_len l"
proof -
  have ends: "Lru_len (l\<lparr>lr_oldest := a\<rparr>) = Lru_len l" "Lru_len (l\<lparr>lr_newest := a\<rparr>) = Lru_len l" for l :: "('a, 'b) Lru" and a
    by (simp_all add: Lru_len_def)
  assume "Lru_unlink l k = Inr l'"
  then show ?thesis
    by (auto simp: Lru_unlink_def Let_def ends dest!: Lru_update_len split: option.splits)
qed

lemma Lru_evict_len: "Lru_evict l = Inr (l', True) \<Longrightarrow> Lru_len l' < Lru_len l"
proof -
  assume "Lru_evict l = Inr (l', True)"
  then obtain k l1 e where u: "Lru_unlink l k = Inr l1" and e: "map_of (lr_entries l1) k = Some e"
    and l': "lr_entries l' = filter (\<lambda>(a, e). a \<noteq> k) (lr_entries l1)"
    by (auto simp: Lru_evict_def count_def split: option.splits)
  have "length (filter (\<lambda>(a, e). a \<noteq> k) (lr_entries l1)) < length (lr_entries l1)"
    by (rule length_filter_less [OF map_of_SomeD [OF e]]) simp
  then show ?thesis using Lru_unlink_len [OF u] l' by (simp add: Lru_len_def)
qed

section \<open>The contract of a bounded recency cache\<close>

text \<open>
  What the chunk cache and the manifest page cache rely on: a finite map with an eviction order.
  The order is the recency list \<open>ks\<close>, oldest first.
\<close>

locale recency_cache =
  fixes inv :: "'s \<Rightarrow> 'k list \<Rightarrow> bool"
    and look :: "'s \<Rightarrow> 'k \<Rightarrow> 'v option"
    and bound :: "'s \<Rightarrow> nat"
    and touch :: "'s \<Rightarrow> 'k \<Rightarrow> ('s \<times> 'v option) result"
    and add :: "'s \<Rightarrow> 'k \<Rightarrow> 'v \<Rightarrow> 's result"
    and drop_oldest :: "'s \<Rightarrow> ('s \<times> bool) result"
  assumes inv_distinct: "inv s ks \<Longrightarrow> distinct ks \<and> length ks \<le> bound s"
    and look_dom: "inv s ks \<Longrightarrow> look s k \<noteq> None \<longleftrightarrow> k \<in> set ks"
    and touch_spec: "inv s ks \<Longrightarrow> \<exists>s'. touch s k = Inr (s', look s k) \<and> look s' = look s \<and>
          bound s' = bound s \<and> inv s' (if k \<in> set ks then remove1 k ks @ [k] else ks)"
    and add_spec: "inv s ks \<Longrightarrow> k \<notin> set ks \<Longrightarrow> length ks < bound s \<Longrightarrow>
          \<exists>s'. add s k v = Inr s' \<and> look s' = (look s)(k \<mapsto> v) \<and> bound s' = bound s \<and> inv s' (ks @ [k])"
    and drop_spec: "inv s ks \<Longrightarrow> \<exists>s'. drop_oldest s = Inr (s', ks \<noteq> []) \<and> bound s' = bound s \<and>
          inv s' (tl ks) \<and> look s' = (case ks of [] \<Rightarrow> look s | k # _ \<Rightarrow> (look s)(k := None))"
begin

text \<open>Evicting \<open>n\<close> times drops the \<open>n\<close> oldest keys and nothing else.\<close>

primrec drop_many :: "nat \<Rightarrow> 's \<Rightarrow> 's result" where
  "drop_many 0 s = Inr s"
| "drop_many (Suc n) s = attempt (drop_oldest s) (\<lambda>(s, b). drop_many n s)"

lemma drop_many_spec:
  assumes "inv s ks"
  shows "\<exists>s'. drop_many n s = Inr s' \<and> inv s' (drop n ks) \<and> bound s' = bound s \<and>
     (\<forall>k. look s' k = (if k \<in> set (take n ks) then None else look s k))"
  using assms
proof (induction n arbitrary: s ks)
  case (Suc n)
  obtain s1 where s1: "drop_oldest s = Inr (s1, ks \<noteq> [])" "bound s1 = bound s" "inv s1 (tl ks)"
    "look s1 = (case ks of [] \<Rightarrow> look s | k # _ \<Rightarrow> (look s)(k := None))"
    using drop_spec [OF Suc.prems] by blast
  obtain s2 where s2: "drop_many n s1 = Inr s2" "inv s2 (drop n (tl ks))" "bound s2 = bound s1"
    "\<forall>k. look s2 k = (if k \<in> set (take n (tl ks)) then None else look s1 k)"
    using Suc.IH [OF s1(3)] by blast
  show ?case using s1 s2 by (cases ks) (auto simp: drop_Suc)
qed simp

text \<open>A key just touched is evicted last: it survives until every other key is gone.\<close>

lemma touched_survives:
  assumes "inv s ks" and "k \<in> set ks" and "touch s k = Inr (s', v)" and "n < length ks"
    and "drop_many n s' = Inr t"
  shows "look t k = look s k" and "look t k \<noteq> None"
proof -
  obtain s1 where s1: "touch s k = Inr (s1, look s k)" "look s1 = look s" "inv s1 (remove1 k ks @ [k])"
    using touch_spec [OF assms(1), of k] assms(2) by auto
  then have s': "s1 = s'" using assms(3) by simp
  obtain t1 where t1: "drop_many n s' = Inr t1"
    "\<forall>j. look t1 j = (if j \<in> set (take n (remove1 k ks @ [k])) then None else look s' j)"
    using drop_many_spec [OF s1(3), of n] s' by blast
  have n: "n \<le> length (remove1 k ks)" using assms(2,4) by (simp add: length_remove1)
  have "k \<notin> set (remove1 k ks)" using inv_distinct [OF assms(1)] by simp
  then have "k \<notin> set (take n (remove1 k ks @ [k]))" using n by (auto dest: in_set_takeD)
  then show "look t k = look s k" using t1 assms(5) s' s1(2) by simp
  then show "look t k \<noteq> None" using look_dom [OF assms(1)] assms(2) by simp
qed

end

interpretation lru: recency_cache Lru_inv Lru_buffer lr_capacity Lru_get Lru_insert Lru_evict
proof unfold_locales
  fix s :: "('k, 'v) Lru" and ks k v
  assume inv: "Lru_inv s ks"
  show "distinct ks \<and> length ks \<le> lr_capacity s" using inv by (simp add: Lru_inv_def Lru_links_def)
  show "Lru_buffer s k \<noteq> None \<longleftrightarrow> k \<in> set ks" by (rule Lru_inv_buffer [OF inv])
  show "\<exists>s'. Lru_get s k = Inr (s', Lru_buffer s k) \<and> Lru_buffer s' = Lru_buffer s \<and>
      lr_capacity s' = lr_capacity s \<and> Lru_inv s' (if k \<in> set ks then remove1 k ks @ [k] else ks)"
    by (rule Lru_get_spec [OF inv])
  show "\<exists>s'. Lru_insert s k v = Inr s' \<and> Lru_buffer s' = (Lru_buffer s)(k \<mapsto> v) \<and>
      lr_capacity s' = lr_capacity s \<and> Lru_inv s' (ks @ [k])" if "k \<notin> set ks" "length ks < lr_capacity s"
    using Lru_insert_spec(1) [OF inv that(1), of v] Lru_insert_spec(2) [OF inv that(1)] that(2) by auto
  show "\<exists>s'. Lru_evict s = Inr (s', ks \<noteq> []) \<and> lr_capacity s' = lr_capacity s \<and> Lru_inv s' (tl ks) \<and>
      Lru_buffer s' = (case ks of [] \<Rightarrow> Lru_buffer s | k # _ \<Rightarrow> (Lru_buffer s)(k := None))"
    using Lru_evict_spec [OF inv] by blast
qed

text \<open>A run of evictions, as the cache's \<^verbatim>\<open>while state.evict() {}\<close> and its fill loop perform.\<close>

primrec Lru_evict_many :: "nat \<Rightarrow> ('k, 'v) Lru \<Rightarrow> ('k, 'v) Lru result" where
  "Lru_evict_many 0 l = Inr l"
| "Lru_evict_many (Suc n) l = attempt (Lru_evict l) (\<lambda>(l, b). Lru_evict_many n l)"

lemma Lru_evict_many_drop: "Lru_evict_many n l = lru.drop_many n l"
  by (induction n arbitrary: l) (auto simp: attempt_def split: sum.splits)

section \<open>Properties\<close>

text \<open>
  C24. The linked table refines a recency list. From any table whose links describe a list of keys
  (oldest first), no operation panics, and each does to the list what its name says: a hit moves
  its key to the newest end and returns the stored buffer, a miss changes nothing, an insertion
  below capacity appends the new key, an eviction removes exactly the oldest key.
\<close>
theorem lru_refines_recency_list:
  assumes "Lru_inv l ks"
  shows "(\<exists>l'. Lru_get l k = Inr (l', Lru_buffer l k) \<and> Lru_buffer l' = Lru_buffer l \<and>
            Lru_inv l' (if k \<in> set ks then remove1 k ks @ [k] else ks)) \<and>
         (k \<notin> set ks \<longrightarrow> length ks < lr_capacity l \<longrightarrow>
            (\<exists>l'. Lru_insert l k v = Inr l' \<and> Lru_inv l' (ks @ [k]) \<and> Lru_buffer l' = (Lru_buffer l)(k \<mapsto> v))) \<and>
         (\<exists>l'. Lru_evict l = Inr (l', ks \<noteq> []) \<and> Lru_inv l' (tl ks) \<and>
            Lru_buffer l' = (case ks of [] \<Rightarrow> Lru_buffer l | o' # _ \<Rightarrow> (Lru_buffer l)(o' := None)))"
  using lru.touch_spec [OF assms, of k] lru.add_spec [OF assms, of k v] lru.drop_spec [OF assms] by blast

theorem lru_refines_recency_list_witness:
  "\<exists>l. Lru_insert (Lru_new 2 :: (nat, nat) Lru) 7 70 = Inr l \<and> Lru_inv l [7] \<and> Lru_buffer l 7 = Some 70"
proof -
  have inv: "Lru_inv (Lru_new 2 :: (nat, nat) Lru) []" by (rule Lru_new_inv)
  from lru_refines_recency_list [OF inv, of 7 70] show ?thesis by (auto simp: Lru_new_def)
qed

text \<open>
  A block just read is the last to go: after a hit, evicting fewer entries than the cache holds
  never removes the block, and it still reads the same buffer.
\<close>
theorem recently_used_survives:
  assumes "Lru_inv l ks" and "k \<in> set ks" and "Lru_get l k = Inr (l', v)" and "n < length ks"
    and "Lru_evict_many n l' = Inr t"
  shows "Lru_buffer t k = Lru_buffer l k \<and> Lru_buffer t k \<noteq> None"
  using lru.touched_survives [OF assms(1-4) assms(5) [unfolded Lru_evict_many_drop]] by simp

theorem recently_used_survives_witness:
  "\<exists>l t. Lru_insert (Lru_new 2 :: (nat, nat) Lru) 7 70 = Inr l \<and>
      Lru_evict_many 0 (fst (projr (Lru_get l 7))) = Inr t \<and> Lru_buffer t 7 = Some 70"
proof -
  have inv: "Lru_inv (Lru_new 2 :: (nat, nat) Lru) []" by (rule Lru_new_inv)
  have "lr_capacity (Lru_new 2 :: (nat, nat) Lru) = 2" by (simp add: Lru_new_def)
  then obtain l where l: "Lru_insert (Lru_new 2 :: (nat, nat) Lru) 7 70 = Inr l" "Lru_inv l [7]" "Lru_buffer l 7 = Some 70"
    using lru.add_spec [OF inv, of 7 70] by auto
  obtain l' where g: "Lru_get l 7 = Inr (l', Some 70)" using Lru_get_spec [OF l(2), of 7] l(3) by auto
  have "Lru_evict_many 0 l' = Inr l'" by simp
  from recently_used_survives [OF l(2) _ g _ this] l g show ?thesis by auto
qed

end
