(* ===== verification/Chunk_Cache.thy ===== *)
theory Chunk_Cache
  imports Lru Slot_Page Chunk_Index
begin

text \<open>
  The cache of verified clean blocks (\<^verbatim>\<open>crates/cas/core/src/cache.rs\<close>). A buffer is shared by the
  table and by readers: \<open>cc_readers\<close> lists the outstanding reader references by buffer identity, and
  a buffer's bytes stay charged to the payload budget until neither the table nor a reader holds
  it. \<open>meta\<close> is the metadata budget's answer for the shared pointer, and \<open>global n\<close> the process allocator's answer to
  an attempt made while \<open>n\<close> entries are resident (each attempt of a fill is made at a different number).
\<close>

record CacheBuffer =
  bf_id :: nat
  bf_bytes :: bytes

record Cache =
  cc_capacity_bytes :: nat
  cc_lru :: "(hash, CacheBuffer) Lru"
  cc_readers :: "nat list"
  cc_next :: nat

definition resident_ids :: "(hash, CacheBuffer) Lru \<Rightarrow> nat list" where
  "resident_ids l = map (\<lambda>(k, e). bf_id (le_buffer e)) (lr_entries l)"

text \<open>The payload budget's current charge: one block per live buffer.\<close>

definition payload_used :: "(hash, CacheBuffer) Lru \<Rightarrow> nat list \<Rightarrow> nat" where
  "payload_used l readers = BLOCK_SIZE * length (remdups (resident_ids l @ readers))"

definition Cache_new :: "bool \<Rightarrow> bool \<Rightarrow> nat \<Rightarrow> Cache result" where
  "Cache_new reserved granted n =
     ensure (n \<noteq> 0 \<and> n mod BLOCK_SIZE = 0) (InvalidInput ''invalid cache byte limit'')
    (attempt (Lru_try_new reserved (n div BLOCK_SIZE)) (\<lambda>l.
     ensure granted (OutOfMemory ''cache metadata'')
    (Inr \<lparr>cc_capacity_bytes = n, cc_lru = l, cc_readers = [], cc_next = 0\<rparr>)))"

definition hold :: "CacheBuffer option \<Rightarrow> Cache \<Rightarrow> Cache" where
  "hold b c = (case b of None \<Rightarrow> c | Some b \<Rightarrow> c\<lparr>cc_readers := bf_id b # cc_readers c\<rparr>)"

definition Cache_get :: "Cache \<Rightarrow> hash \<Rightarrow> (Cache \<times> CacheBuffer option) result" where
  "Cache_get c h = attempt (Lru_get (cc_lru c) h) (\<lambda>(l, b). Inr (hold b (c\<lparr>cc_lru := l\<rparr>), b))"

definition Cache_peek :: "Cache \<Rightarrow> hash \<Rightarrow> Cache \<times> CacheBuffer option" where
  "Cache_peek c h = (let b = Lru_buffer (cc_lru c) h in (hold b c, b))"

text \<open>A reader drops its reference.\<close>

definition Cache_release :: "Cache \<Rightarrow> nat \<Rightarrow> Cache" where
  "Cache_release c i = c\<lparr>cc_readers := remove1 i (cc_readers c)\<rparr>"

text \<open>
  The allocation loop: evict until a block is granted, or nothing is left to evict. An attempt fails when the budget has
  no room, and also when the process allocator refuses: the charge is taken back and the error is the same.
\<close>

function alloc_loop ::
  "(nat \<Rightarrow> bool) \<Rightarrow> nat \<Rightarrow> nat list \<Rightarrow> (hash, CacheBuffer) Lru \<Rightarrow> ((hash, CacheBuffer) Lru \<times> bool) result" where
  "alloc_loop global cap readers l =
    (if payload_used l readers + BLOCK_SIZE \<le> cap \<and> global (Lru_len l) then Inr (l, True)
     else case Lru_evict l of
            Inl e \<Rightarrow> Inl e
          | Inr (l', evicted) \<Rightarrow> if evicted then alloc_loop global cap readers l' else Inr (l', False))"
  by pat_completeness auto
termination by (relation "measure (\<lambda>(global, cap, readers, l). Lru_len l)") (auto dest: Lru_evict_len)

declare alloc_loop.simps [simp del]

definition Cache_fill ::
  "(bytes \<Rightarrow> hash) \<Rightarrow> (nat \<Rightarrow> bool) \<Rightarrow> bool \<Rightarrow> Cache \<Rightarrow> hash \<Rightarrow> bytes \<Rightarrow> Cache \<times> CacheBuffer option result" where
  "Cache_fill blake global meta c h bs =
    (if length bs \<noteq> BLOCK_SIZE \<or> blake bs \<noteq> h then (c, Inl (InvalidData ''invalid cache fill''))
     else case Lru_buffer (cc_lru c) h of
       Some b \<Rightarrow>
         (case Lru_promote (cc_lru c) h of
            Inl e \<Rightarrow> (c, Inl e)
          | Inr l \<Rightarrow> (hold (Some b) (c\<lparr>cc_lru := l\<rparr>), Inr (Some b)))
     | None \<Rightarrow>
         (case alloc_loop global (cc_capacity_bytes c) (cc_readers c) (cc_lru c) of
            Inl e \<Rightarrow> (c, Inl e)
          | Inr (l, False) \<Rightarrow>
              (c\<lparr>cc_lru := count (\<lambda>n. n\<lparr>ct_refused := ct_refused n + 1\<rparr>) l\<rparr>, Inr None)
          | Inr (l, True) \<Rightarrow>
              if \<not> meta
              then (c\<lparr>cc_lru := count (\<lambda>n. n\<lparr>ct_refused := ct_refused n + 1\<rparr>) l\<rparr>,
                    Inl (OutOfMemory ''cache buffer metadata''))
              else let b = \<lparr>bf_id = cc_next c, bf_bytes = bs\<rparr> in
                   (case Lru_insert l h b of
                      Inl e \<Rightarrow> (c\<lparr>cc_lru := l\<rparr>, Inl e)
                    | Inr l \<Rightarrow>
                        (hold (Some b) (c\<lparr>cc_lru := l, cc_next := cc_next c + 1\<rparr>), Inr (Some b)))))"

function clear_loop :: "(hash, CacheBuffer) Lru \<Rightarrow> (hash, CacheBuffer) Lru result" where
  "clear_loop l =
    (case Lru_evict l of
       Inl e \<Rightarrow> Inl e
     | Inr (l', evicted) \<Rightarrow> if evicted then clear_loop l' else Inr l')"
  by pat_completeness auto
termination by (relation "measure Lru_len") (auto dest: Lru_evict_len)

declare clear_loop.simps [simp del]

definition Cache_clear :: "Cache \<Rightarrow> Cache result" where
  "Cache_clear c = attempt (clear_loop (cc_lru c)) (\<lambda>l. Inr (c\<lparr>cc_lru := l\<rparr>))"

text \<open>The byte figures of \<^verbatim>\<open>status()\<close>: capacity, resident bytes, bytes only readers hold.\<close>

definition Cache_status :: "Cache \<Rightarrow> nat \<times> nat \<times> nat" where
  "Cache_status c =
    (let resident = Lru_len (cc_lru c) * BLOCK_SIZE
     in (cc_capacity_bytes c, resident, wrapping_sub (payload_used (cc_lru c) (cc_readers c)) resident))"

section \<open>Invariant\<close>

definition buffer_ids :: "(hash, CacheBuffer) Lru \<Rightarrow> nat set" where
  "buffer_ids l = bf_id ` ran (Lru_buffer l)"

definition ids_unique :: "(hash, CacheBuffer) Lru \<Rightarrow> bool" where
  "ids_unique l \<longleftrightarrow> (\<forall>h h' b b'. Lru_buffer l h = Some b \<longrightarrow> Lru_buffer l h' = Some b' \<longrightarrow> bf_id b = bf_id b' \<longrightarrow> h = h')"

definition blocks_verified :: "(bytes \<Rightarrow> hash) \<Rightarrow> (hash, CacheBuffer) Lru \<Rightarrow> bool" where
  "blocks_verified blake l \<longleftrightarrow>
     (\<forall>h b. Lru_buffer l h = Some b \<longrightarrow> length (bf_bytes b) = BLOCK_SIZE \<and> blake (bf_bytes b) = h)"

definition Cache_inv :: "(bytes \<Rightarrow> hash) \<Rightarrow> Cache \<Rightarrow> bool" where
  "Cache_inv blake c \<longleftrightarrow>
     (\<exists>ks. Lru_inv (cc_lru c) ks) \<and> lr_capacity (cc_lru c) = cc_capacity_bytes c div BLOCK_SIZE \<and>
     ids_unique (cc_lru c) \<and> (\<forall>i \<in> buffer_ids (cc_lru c) \<union> set (cc_readers c). i < cc_next c) \<and>
     payload_used (cc_lru c) (cc_readers c) \<le> cc_capacity_bytes c \<and> blocks_verified blake (cc_lru c)"

lemma resident_ids_set:
  assumes "Lru_inv l ks"
  shows "set (resident_ids l) = buffer_ids l"
proof -
  have di: "distinct (map fst (lr_entries l))" using assms by (simp add: Lru_inv_def Lru_links_def)
  have "b \<in> ran (Lru_buffer l) \<longleftrightarrow> (\<exists>k e. (k, e) \<in> set (lr_entries l) \<and> b = le_buffer e)" for b
    by (auto simp: ran_def Lru_buffer_def map_of_eq_Some_iff [OF di])
  then show ?thesis by (force simp: buffer_ids_def resident_ids_def)
qed

lemma payload_used_card:
  assumes "Lru_inv l ks"
  shows "payload_used l readers = 4096 * card (buffer_ids l \<union> set readers)"
  by (simp add: payload_used_def BLOCK_SIZE_def length_remdups_card_conv resident_ids_set [OF assms])

lemma finite_buffer_ids: "Lru_inv l ks \<Longrightarrow> finite (buffer_ids l)"
  using resident_ids_set [of l ks] by (metis List.finite_set)

lemma card_buffer_ids:
  assumes inv: "Lru_inv l ks" and uni: "ids_unique l"
  shows "card (buffer_ids l) = length ks"
proof -
  let ?f = "\<lambda>k. bf_id (the (Lru_buffer l k))"
  have dom: "Lru_buffer l k \<noteq> None \<longleftrightarrow> k \<in> set ks" for k by (rule Lru_inv_buffer [OF inv])
  have "buffer_ids l = ?f ` set ks"
    using dom by (force simp: buffer_ids_def ran_def image_iff)
  moreover have "inj_on ?f (set ks)"
  proof (rule inj_onI)
    fix x y assume "x \<in> set ks" "y \<in> set ks" and eq: "?f x = ?f y"
    then obtain b b' where "Lru_buffer l x = Some b" "Lru_buffer l y = Some b'" using dom by blast
    then show "x = y" using uni eq unfolding ids_unique_def by (metis option.sel)
  qed
  ultimately show ?thesis using inv by (simp add: card_image distinct_card Lru_inv_def Lru_links_def)
qed

lemma shrink_ids:
  assumes "Lru_buffer l' \<subseteq>\<^sub>m Lru_buffer l"
  shows "buffer_ids l' \<subseteq> buffer_ids l" and "ids_unique l \<Longrightarrow> ids_unique l'"
    and "blocks_verified blake l \<Longrightarrow> blocks_verified blake l'"
proof -
  have s: "Lru_buffer l h = Some b" if "Lru_buffer l' h = Some b" for h b
    using assms that by (metis domI map_le_def)
  show "buffer_ids l' \<subseteq> buffer_ids l" using s by (auto simp: buffer_ids_def ran_def)
  show "ids_unique l \<Longrightarrow> ids_unique l'" using s unfolding ids_unique_def by blast
  show "blocks_verified blake l \<Longrightarrow> blocks_verified blake l'" using s unfolding blocks_verified_def by blast
qed

lemma evict_shrinks:
  assumes "Lru_inv l ks"
  obtains l' where "Lru_evict l = Inr (l', ks \<noteq> [])" and "Lru_inv l' (tl ks)"
    and "lr_capacity l' = lr_capacity l" and "Lru_buffer l' \<subseteq>\<^sub>m Lru_buffer l"
proof -
  obtain l' where l': "Lru_evict l = Inr (l', ks \<noteq> [])" "lr_capacity l' = lr_capacity l" "Lru_inv l' (tl ks)"
    "Lru_buffer l' = (case ks of [] \<Rightarrow> Lru_buffer l | k # _ \<Rightarrow> (Lru_buffer l)(k := None))"
    using lru.drop_spec [OF assms] by blast
  have "Lru_buffer l' \<subseteq>\<^sub>m Lru_buffer l" unfolding l'(4) by (cases ks) (auto simp: map_le_def)
  then show ?thesis using that l' by blast
qed

lemma alloc_loop_spec:
  assumes "Lru_inv l ks"
  shows "\<exists>l' ok. alloc_loop global cap readers l = Inr (l', ok) \<and> (\<exists>ks'. Lru_inv l' ks') \<and>
     lr_capacity l' = lr_capacity l \<and> Lru_buffer l' \<subseteq>\<^sub>m Lru_buffer l \<and>
     (ok \<longrightarrow> payload_used l' readers + BLOCK_SIZE \<le> cap) \<and>
     (\<not> ok \<longrightarrow> Lru_inv l' [] \<and> (payload_used l' readers + BLOCK_SIZE > cap \<or> \<not> global 0))"
  using assms
proof (induction ks arbitrary: l)
  case Nil
  obtain l' where l': "Lru_evict l = Inr (l', False)" "Lru_inv l' []" "lr_capacity l' = lr_capacity l"
    "Lru_buffer l' \<subseteq>\<^sub>m Lru_buffer l" using evict_shrinks [OF Nil] by auto
  have "Lru_evict l = Inr (l, False)" using Nil by (simp add: Lru_evict_def Lru_inv_def Lru_links_def)
  then have "l' = l" using l'(1) by simp
  moreover have "Lru_len l = 0" using Nil by (simp add: Lru_inv_def Lru_len_def)
  ultimately show ?case using l' Nil by (auto simp: alloc_loop.simps [of global cap readers l] not_le)
next
  case (Cons k ks)
  obtain l1 where l1: "Lru_evict l = Inr (l1, True)" "Lru_inv l1 ks" "lr_capacity l1 = lr_capacity l"
    "Lru_buffer l1 \<subseteq>\<^sub>m Lru_buffer l" using evict_shrinks [OF Cons.prems] by auto
  show ?case
  proof (cases "payload_used l readers + BLOCK_SIZE \<le> cap \<and> global (Lru_len l)")
    case True
    then show ?thesis using Cons.prems by (auto simp: alloc_loop.simps [of global cap readers l])
  next
    case False
    then have eq: "alloc_loop global cap readers l = alloc_loop global cap readers l1"
      using l1(1) by (auto simp: alloc_loop.simps [of global cap readers l])
    show ?thesis
      unfolding eq l1(3) [symmetric] using Cons.IH [OF l1(2)] map_le_trans [OF _ l1(4)] by blast
  qed
qed

lemma clear_loop_spec:
  assumes "Lru_inv l ks"
  shows "\<exists>l'. clear_loop l = Inr l' \<and> Lru_inv l' [] \<and> lr_capacity l' = lr_capacity l \<and> Lru_buffer l' \<subseteq>\<^sub>m Lru_buffer l"
  using assms
proof (induction ks arbitrary: l)
  case Nil
  then show ?case by (auto simp: clear_loop.simps [of l] elim: evict_shrinks)
next
  case (Cons k ks)
  obtain l1 where l1: "Lru_evict l = Inr (l1, True)" "Lru_inv l1 ks" "lr_capacity l1 = lr_capacity l"
    "Lru_buffer l1 \<subseteq>\<^sub>m Lru_buffer l" using evict_shrinks [OF Cons.prems] by auto
  then have eq: "clear_loop l = clear_loop l1" by (simp add: clear_loop.simps [of l])
  show ?case
    unfolding eq l1(3) [symmetric] using Cons.IH [OF l1(2)] map_le_trans [OF _ l1(4)] by blast
qed

lemma used_mono:
  assumes "Lru_inv l ks" and "Lru_inv l' ks'" and "buffer_ids l' \<subseteq> buffer_ids l" and "set readers' \<subseteq> buffer_ids l \<union> set readers"
  shows "payload_used l' readers' \<le> payload_used l readers"
  unfolding payload_used_card [OF assms(1)] payload_used_card [OF assms(2)]
  using finite_buffer_ids [OF assms(1)] assms(3,4) by (intro mult_le_mono2 card_mono) auto

lemma same_content_buffers:
  assumes "Lru_buffer l' = Lru_buffer l"
  shows "buffer_ids l' = buffer_ids l" and "ids_unique l' = ids_unique l" and "blocks_verified blake l' = blocks_verified blake l"
  using assms by (simp_all add: buffer_ids_def ids_unique_def blocks_verified_def)

lemma Cache_invE:
  assumes "Cache_inv blake c"
  obtains ks where "Lru_inv (cc_lru c) ks" and "lr_capacity (cc_lru c) = cc_capacity_bytes c div 4096"
    and "ids_unique (cc_lru c)" and "\<forall>i \<in> buffer_ids (cc_lru c) \<union> set (cc_readers c). i < cc_next c"
    and "payload_used (cc_lru c) (cc_readers c) \<le> cc_capacity_bytes c" and "blocks_verified blake (cc_lru c)"
  using assms by (auto simp: Cache_inv_def BLOCK_SIZE_def)

text \<open>Holding a resident buffer charges nothing; shrinking the table keeps the invariant.\<close>

lemma Cache_inv_shrink:
  assumes inv: "Cache_inv blake c" and l: "Lru_inv l ks'" "lr_capacity l = lr_capacity (cc_lru c)"
    and sub: "Lru_buffer l \<subseteq>\<^sub>m Lru_buffer (cc_lru c)" and b: "\<And>x. b = Some x \<Longrightarrow> bf_id x \<in> buffer_ids l"
  shows "Cache_inv blake (hold b (c\<lparr>cc_lru := l\<rparr>))"
proof -
  from inv obtain ks where c: "Lru_inv (cc_lru c) ks" "lr_capacity (cc_lru c) = cc_capacity_bytes c div 4096"
    "ids_unique (cc_lru c)" "\<forall>i \<in> buffer_ids (cc_lru c) \<union> set (cc_readers c). i < cc_next c"
    "payload_used (cc_lru c) (cc_readers c) \<le> cc_capacity_bytes c" "blocks_verified blake (cc_lru c)"
    by (rule Cache_invE)
  note s = shrink_ids [OF sub]
  let ?r = "case b of None \<Rightarrow> cc_readers c | Some x \<Rightarrow> bf_id x # cc_readers c"
  have r: "set ?r \<subseteq> buffer_ids (cc_lru c) \<union> set (cc_readers c)" using b s(1) by (auto split: option.splits)
  have "payload_used l ?r \<le> payload_used (cc_lru c) (cc_readers c)"
    by (rule used_mono [OF c(1) l(1) s(1) r])
  then show ?thesis
    using c l s r by (auto simp: Cache_inv_def hold_def BLOCK_SIZE_def split: option.splits)
qed

lemma Lru_buffer_id: "Lru_buffer l h = Some b \<Longrightarrow> bf_id b \<in> buffer_ids l"
  by (auto simp: buffer_ids_def ran_def)

lemma Lru_inv_count [simp]: "Lru_inv (count f l) ks = Lru_inv l ks"
  by (simp add: Lru_inv_def Lru_links_def count_def)

lemma Lru_count_parts [simp]:
  "Lru_buffer (count f l) = Lru_buffer l" "lr_capacity (count f l) = lr_capacity l"
  by (simp_all add: count_def)

lemma Cache_get_inv:
  assumes inv: "Cache_inv blake c"
  shows "\<exists>c'. Cache_get c h = Inr (c', Lru_buffer (cc_lru c) h) \<and> Cache_inv blake c' \<and>
     Lru_buffer (cc_lru c') = Lru_buffer (cc_lru c)"
proof -
  from inv obtain ks where l: "Lru_inv (cc_lru c) ks" by (rule Cache_invE)
  obtain l' where l': "Lru_get (cc_lru c) h = Inr (l', Lru_buffer (cc_lru c) h)" "Lru_buffer l' = Lru_buffer (cc_lru c)"
    "lr_capacity l' = lr_capacity (cc_lru c)" "Lru_inv l' (if h \<in> set ks then remove1 h ks @ [h] else ks)"
    using lru.touch_spec [OF l] by blast
  have "Cache_inv blake (hold (Lru_buffer (cc_lru c) h) (c\<lparr>cc_lru := l'\<rparr>))"
    by (rule Cache_inv_shrink [OF inv l'(4,3)]) (use l'(2) in \<open>auto simp: intro: Lru_buffer_id\<close>)
  moreover have "cc_lru (hold b (c\<lparr>cc_lru := l'\<rparr>)) = l'" for b by (simp add: hold_def split: option.splits)
  ultimately show ?thesis using l'(1,2) by (simp add: Cache_get_def)
qed

lemma Cache_insert_inv:
  assumes inv: "Cache_inv blake c" and l: "Lru_inv l ks" "lr_capacity l = lr_capacity (cc_lru c)"
    and sub: "Lru_buffer l \<subseteq>\<^sub>m Lru_buffer (cc_lru c)" and room: "payload_used l (cc_readers c) + 4096 \<le> cc_capacity_bytes c"
    and h: "h \<notin> set ks" "length bs = 4096" "blake bs = h"
  shows "\<exists>l'. Lru_insert l h \<lparr>bf_id = cc_next c, bf_bytes = bs\<rparr> = Inr l' \<and>
     Lru_buffer l' = (Lru_buffer l)(h \<mapsto> \<lparr>bf_id = cc_next c, bf_bytes = bs\<rparr>) \<and>
     Cache_inv blake (hold (Some \<lparr>bf_id = cc_next c, bf_bytes = bs\<rparr>) (c\<lparr>cc_lru := l', cc_next := cc_next c + 1\<rparr>))"
proof -
  let ?b = "\<lparr>bf_id = cc_next c, bf_bytes = bs\<rparr>"
  from inv obtain ks0 where c: "Lru_inv (cc_lru c) ks0" "lr_capacity (cc_lru c) = cc_capacity_bytes c div 4096"
    "ids_unique (cc_lru c)" "\<forall>i \<in> buffer_ids (cc_lru c) \<union> set (cc_readers c). i < cc_next c"
    "payload_used (cc_lru c) (cc_readers c) \<le> cc_capacity_bytes c" "blocks_verified blake (cc_lru c)"
    by (rule Cache_invE)
  note s = shrink_ids [OF sub]
  have uni: "ids_unique l" and ver: "blocks_verified blake l" using s c by auto
  have fin: "finite (buffer_ids l \<union> set (cc_readers c))" using finite_buffer_ids [OF l(1)] by simp
  have "length ks \<le> card (buffer_ids l \<union> set (cc_readers c))"
    unfolding card_buffer_ids [OF l(1) uni, symmetric] by (rule card_mono [OF fin]) simp
  then have "4096 * length ks + 4096 \<le> cc_capacity_bytes c" using room payload_used_card [OF l(1)] by simp
  then have "length ks < lr_capacity l" using l(2) c(2) by simp
  then obtain l' where l': "Lru_insert l h ?b = Inr l'" "Lru_buffer l' = (Lru_buffer l)(h \<mapsto> ?b)"
    "lr_capacity l' = lr_capacity l" "Lru_inv l' (ks @ [h])" using lru.add_spec [OF l(1) h(1)] by blast
  have fresh: "Lru_buffer l h = None" using Lru_inv_buffer [OF l(1), of h] h(1) by blast
  have ran: "ran (Lru_buffer l') = insert ?b (ran (Lru_buffer l))" using fresh by (simp add: l'(2))
  then have ids: "buffer_ids l' = insert (cc_next c) (buffer_ids l)" by (simp add: buffer_ids_def)
  have below: "\<forall>i \<in> buffer_ids l. i < cc_next c" using c(4) s(1) by blast
  have "ids_unique l'"
    unfolding ids_unique_def l'(2)
  proof (intro allI impI)
    fix g g' b b'
    assume "((Lru_buffer l)(h \<mapsto> ?b)) g = Some b" "((Lru_buffer l)(h \<mapsto> ?b)) g' = Some b'" "bf_id b = bf_id b'"
    then show "g = g'"
      using uni below Lru_buffer_id [of l g b] Lru_buffer_id [of l g' b']
      by (auto simp: ids_unique_def split: if_splits)
  qed
  moreover have "blocks_verified blake l'" using ver h by (auto simp: blocks_verified_def l'(2) BLOCK_SIZE_def)
  moreover have "payload_used l' (cc_next c # cc_readers c) \<le> cc_capacity_bytes c"
  proof -
    have "buffer_ids l' \<union> set (cc_next c # cc_readers c) = insert (cc_next c) (buffer_ids l \<union> set (cc_readers c))"
      using ids by auto
    then have "card (buffer_ids l' \<union> set (cc_next c # cc_readers c)) \<le> Suc (card (buffer_ids l \<union> set (cc_readers c)))"
      using card_insert_le_m1 [of _ "buffer_ids l \<union> set (cc_readers c)"] by (simp add: card_insert_if fin)
    then show ?thesis using room unfolding payload_used_card [OF l(1)] payload_used_card [OF l'(4)] by simp
  qed
  ultimately show ?thesis
    using l' c ids below l(2) by (auto simp: Cache_inv_def hold_def BLOCK_SIZE_def less_Suc_eq)
qed

definition fill_outcome ::
  "(bytes \<Rightarrow> hash) \<Rightarrow> (nat \<Rightarrow> bool) \<Rightarrow> bool \<Rightarrow> Cache \<Rightarrow> hash \<Rightarrow> bytes \<Rightarrow> Cache \<Rightarrow> CacheBuffer option result \<Rightarrow> bool" where
  "fill_outcome blake global meta c h bs c' r \<longleftrightarrow>
    (case r of
       Inr (Some b) \<Rightarrow> length bs = BLOCK_SIZE \<and> blake bs = h \<and> blake (bf_bytes b) = h \<and>
         length (bf_bytes b) = BLOCK_SIZE \<and> Lru_buffer (cc_lru c') h = Some b \<and> bf_id b \<in> set (cc_readers c')
     | Inr None \<Rightarrow> length bs = BLOCK_SIZE \<and> blake bs = h \<and> Lru_len (cc_lru c') = 0 \<and>
         (BLOCK_SIZE * card (set (cc_readers c')) + BLOCK_SIZE > cc_capacity_bytes c' \<or> \<not> global 0)
     | Inl e \<Rightarrow> e = InvalidData ''invalid cache fill'' \<and> c' = c \<and> (length bs \<noteq> BLOCK_SIZE \<or> blake bs \<noteq> h) \<or>
         e = OutOfMemory ''cache buffer metadata'' \<and> \<not> meta)"

lemma empty_cache_ids: "Lru_inv l [] \<Longrightarrow> buffer_ids l = {} \<and> Lru_len l = 0"
proof -
  assume inv: "Lru_inv l []"
  then have "Lru_buffer l k = None" for k using Lru_inv_buffer [OF inv, of k] by simp
  then have "buffer_ids l = {}" by (simp add: buffer_ids_def ran_def)
  with inv show ?thesis by (simp add: Lru_inv_def Lru_len_def)
qed

lemma Cache_fill_spec:
  assumes inv: "Cache_inv blake c" and f: "Cache_fill blake global meta c h bs = (c', r)"
  shows "Cache_inv blake c' \<and> fill_outcome blake global meta c h bs c' r"
proof (cases "length bs \<noteq> BLOCK_SIZE \<or> blake bs \<noteq> h")
  case True
  then show ?thesis using f inv by (auto simp: Cache_fill_def fill_outcome_def)
next
  case False
  then have bs: "length bs = 4096" "blake bs = h" by (auto simp: BLOCK_SIZE_def)
  from inv obtain ks where l: "Lru_inv (cc_lru c) ks" and ver: "blocks_verified blake (cc_lru c)" by (rule Cache_invE)
  show ?thesis
  proof (cases "Lru_buffer (cc_lru c) h")
    case (Some b)
    then have "h \<in> set ks" using Lru_inv_buffer [OF l, of h] by simp
    then obtain l' where l': "Lru_promote (cc_lru c) h = Inr l'" "Lru_inv l' (remove1 h ks @ [h])" "same_content (cc_lru c) l'"
      using Lru_promote_spec [OF l] by blast
    then have same: "Lru_buffer l' = Lru_buffer (cc_lru c)" "lr_capacity l' = lr_capacity (cc_lru c)"
      by (simp_all add: same_content_def)
    have "Cache_inv blake (hold (Some b) (c\<lparr>cc_lru := l'\<rparr>))"
      by (rule Cache_inv_shrink [OF inv l'(2) same(2)]) (use same Some in \<open>auto intro: Lru_buffer_id\<close>)
    moreover have "c' = hold (Some b) (c\<lparr>cc_lru := l'\<rparr>)" "r = Inr (Some b)"
      using f False Some l'(1) by (auto simp: Cache_fill_def)
    ultimately show ?thesis
      using Some same ver bs by (auto simp: fill_outcome_def hold_def blocks_verified_def BLOCK_SIZE_def)
  next
    case None
    obtain l' ok ks' where l': "alloc_loop global (cc_capacity_bytes c) (cc_readers c) (cc_lru c) = Inr (l', ok)"
      "Lru_inv l' ks'" "lr_capacity l' = lr_capacity (cc_lru c)" "Lru_buffer l' \<subseteq>\<^sub>m Lru_buffer (cc_lru c)"
      "ok \<Longrightarrow> payload_used l' (cc_readers c) + BLOCK_SIZE \<le> cc_capacity_bytes c"
      "\<not> ok \<Longrightarrow> Lru_inv l' [] \<and> (payload_used l' (cc_readers c) + BLOCK_SIZE > cc_capacity_bytes c \<or> \<not> global 0)"
      using alloc_loop_spec [OF l] by blast
    have shrunk: "Cache_inv blake (c\<lparr>cc_lru := count g l'\<rparr>)" for g
      using Cache_inv_shrink [OF inv, of "count g l'" ks' None] l'(2,3,4) by (simp add: hold_def)
    consider "\<not> ok" | "ok" "\<not> meta" | "ok" "meta" by blast
    then show ?thesis
    proof cases
      case 1
      then have "c' = c\<lparr>cc_lru := count (\<lambda>n. n\<lparr>ct_refused := ct_refused n + 1\<rparr>) l'\<rparr>" "r = Inr None"
        using f False None l'(1) by (auto simp: Cache_fill_def)
      moreover have "payload_used l' (cc_readers c) = 4096 * card (set (cc_readers c))" "Lru_len l' = 0"
        using l'(6) [OF 1] empty_cache_ids [of l'] payload_used_card [of l' "[]" "cc_readers c"] by auto
      ultimately show ?thesis
        using shrunk l'(6) [OF 1] bs
        by (auto simp: fill_outcome_def BLOCK_SIZE_def Lru_len_def count_def)
    next
      case 2
      then have "c' = c\<lparr>cc_lru := count (\<lambda>n. n\<lparr>ct_refused := ct_refused n + 1\<rparr>) l'\<rparr>"
        "r = Inl (OutOfMemory ''cache buffer metadata'')"
        using f False None l'(1) by (auto simp: Cache_fill_def)
      then show ?thesis using shrunk 2 by (simp add: fill_outcome_def)
    next
      case 3
      have "h \<notin> set ks'"
        using Lru_inv_buffer [OF l'(2), of h] l'(4) None by (metis domI map_le_def option.exhaust_sel option.distinct(1))
      then obtain l2 where l2: "Lru_insert l' h \<lparr>bf_id = cc_next c, bf_bytes = bs\<rparr> = Inr l2"
        "Lru_buffer l2 = (Lru_buffer l')(h \<mapsto> \<lparr>bf_id = cc_next c, bf_bytes = bs\<rparr>)"
        "Cache_inv blake (hold (Some \<lparr>bf_id = cc_next c, bf_bytes = bs\<rparr>) (c\<lparr>cc_lru := l2, cc_next := cc_next c + 1\<rparr>))"
        using Cache_insert_inv [OF inv l'(2,3,4) _ _ bs] l'(5) [OF 3(1)] by (auto simp: BLOCK_SIZE_def)
      then show ?thesis
        using f False None l'(1) 3 l2 bs
        by (auto simp: Cache_fill_def Let_def fill_outcome_def hold_def BLOCK_SIZE_def)
    qed
  qed
qed

lemma Cache_new_inv: "Cache_new reserved granted n = Inr c \<Longrightarrow> Cache_inv blake c"
proof -
  assume "Cache_new reserved granted n = Inr c"
  then have c: "c = \<lparr>cc_capacity_bytes = n, cc_lru = Lru_new (n div BLOCK_SIZE), cc_readers = [], cc_next = 0\<rparr>"
    by (auto simp: Cache_new_def Lru_try_new_def)
  have "Lru_buffer (Lru_new k :: (hash, CacheBuffer) Lru) = Map.empty" for k
    by (simp add: Lru_new_def Lru_buffer_def fun_eq_iff)
  moreover have "lr_capacity (Lru_new k :: (hash, CacheBuffer) Lru) = k" for k by (simp add: Lru_new_def)
  moreover have "payload_used (Lru_new k) [] = 0" for k by (simp add: payload_used_def resident_ids_def Lru_new_def)
  moreover have "\<exists>ks. Lru_inv (Lru_new k :: (hash, CacheBuffer) Lru) ks" for k
    by (rule exI) (rule Lru_new_inv)
  ultimately show ?thesis
    by (auto simp: c Cache_inv_def ids_unique_def buffer_ids_def blocks_verified_def)
qed

section \<open>Properties\<close>

text \<open>
  C25. Filling the cache is safe and bounded. From any reachable cache state, a fill keeps every
  resident block verified and the charged payload within the byte capacity, never panics, and
  either returns a block whose content hashes to the requested identity and is now resident, or is
  refused: because the input does not match its hash (nothing changes), because readers alone hold
  so many buffers that no block fits, or the process allocator refuses, after evicting everything, or for lack of metadata.
\<close>
theorem cache_fill_sound:
  assumes "Cache_inv blake c" and "Cache_fill blake global meta c h bs = (c', r)"
  shows "Cache_inv blake c' \<and> fill_outcome blake global meta c h bs c' r"
  by (rule Cache_fill_spec [OF assms])

theorem cache_fill_sound_witness:
  "\<exists>c c' b. Cache_new True True 8192 = Inr c \<and>
     Cache_fill (\<lambda>_. [7]) (\<lambda>_. True) True c [7] (replicate 4096 1) = (c', Inr (Some b)) \<and> Lru_buffer (cc_lru c') [7] = Some b"
proof -
  let ?blake = "\<lambda>_ :: bytes. [7] :: hash"
  obtain c where c: "Cache_new True True 8192 = Inr c" "cc_readers c = []" "cc_capacity_bytes c = 8192"
    "cc_lru c = Lru_new 2" by (simp add: Cache_new_def Lru_try_new_def nchecked_mul_def u64_max_def BLOCK_SIZE_def)
  have inv: "Cache_inv ?blake c" by (rule Cache_new_inv [OF c(1)])
  obtain c' r where f: "Cache_fill ?blake (\<lambda>_. True) True c [7] (replicate 4096 1) = (c', r)"
    by (cases "Cache_fill ?blake (\<lambda>_. True) True c [7] (replicate 4096 1)")
  have used: "payload_used (Lru_new 2) [] = 0" by (simp add: payload_used_def resident_ids_def Lru_new_def)
  note out = cache_fill_sound [OF inv f]
  have "fill_outcome ?blake (\<lambda>_. True) True c [7] (replicate 4096 1) c' r" using out by simp
  moreover have "alloc_loop (\<lambda>_. True) 8192 [] (Lru_new 2) = Inr (Lru_new 2, True)"
    by (simp add: alloc_loop.simps [of _ _ _ "Lru_new 2"] used BLOCK_SIZE_def)
  moreover have "Lru_buffer (Lru_new 2 :: (hash, CacheBuffer) Lru) [7] = None" by (simp add: Lru_buffer_def Lru_new_def)
  ultimately have "r \<noteq> Inr None" "fill_outcome ?blake (\<lambda>_. True) True c [7] (replicate 4096 1) c' r"
    using f c by (auto simp: Cache_fill_def BLOCK_SIZE_def Let_def split: sum.splits)
  then obtain b where "r = Inr (Some b)" "Lru_buffer (cc_lru c') [7] = Some b"
    by (cases r) (auto simp: fill_outcome_def BLOCK_SIZE_def split: option.splits)
  then show ?thesis using c(1) f by blast
qed

text \<open>
  A cache hit returns verified content: from any reachable state a lookup never panics, keeps
  the cache's invariant and its contents, and any buffer it returns is one whole block whose BLAKE3
  identity is the requested hash.
\<close>
theorem cache_hit_verified:
  assumes "Cache_inv blake c"
  shows "\<exists>c' b. Cache_get c h = Inr (c', b) \<and> Cache_inv blake c' \<and>
     Lru_buffer (cc_lru c') = Lru_buffer (cc_lru c) \<and> b = Lru_buffer (cc_lru c) h \<and>
     (\<forall>x. b = Some x \<longrightarrow> length (bf_bytes x) = BLOCK_SIZE \<and> blake (bf_bytes x) = h)"
  using Cache_get_inv [OF assms, of h] assms by (auto simp: Cache_inv_def blocks_verified_def)

theorem cache_hit_verified_witness:
  "\<exists>c c'. Cache_new True True 8192 = Inr c \<and> Cache_get c [7] = Inr (c', None) \<and> Cache_inv (\<lambda>_. [7]) c'"
proof -
  obtain c where c: "Cache_new True True 8192 = Inr c" "cc_lru c = Lru_new 2" by (simp add: Cache_new_def Lru_try_new_def nchecked_mul_def u64_max_def BLOCK_SIZE_def)
  have "Lru_buffer (cc_lru c) [7] = None" by (simp add: c(2) Lru_buffer_def Lru_new_def)
  then show ?thesis using cache_hit_verified [OF Cache_new_inv [OF c(1), of "\<lambda>_. [7]"], of "[7]"] c(1) by auto
qed

end
