(* ===== verification/Ring_Queue.thy ===== *)
theory Ring_Queue
  imports Prelude
begin

text \<open>
  The fixed ring queue of \<^verbatim>\<open>core/src/budget/queue.rs\<close>: a slot vector allocated once, a head
  position and a length. Every index and every \<^verbatim>\<open>%\<close> that could panic is a branch of the model.
  \<open>Ring_is\<close> relates a ring to the list of its messages; the locale \<open>bounded_fifo\<close> is the contract
  the users of the ring rely on, and the ring is an instance of it.
\<close>

section \<open>The ring\<close>

record 'a Ring =
  rq_slots :: "'a option list"
  rq_head :: nat
  rq_len :: nat

text \<open>The flag \<open>granted\<close> says whether the budget allowed the allocation of the slots.\<close>

definition Ring_with_capacity :: "bool \<Rightarrow> nat \<Rightarrow> 'a Ring result" where
  "Ring_with_capacity granted n =
     ensure (n \<noteq> 0) (InvalidInput '''')
       (ensure granted (OutOfMemory '''') (Inr \<lparr>rq_slots = replicate n None, rq_head = 0, rq_len = 0\<rparr>))"

definition Ring_capacity :: "'a Ring \<Rightarrow> nat" where
  "Ring_capacity q = length (rq_slots q)"

definition Ring_is_empty :: "'a Ring \<Rightarrow> bool" where
  "Ring_is_empty q \<longleftrightarrow> rq_len q = 0"

definition Ring_is_full :: "'a Ring \<Rightarrow> bool" where
  "Ring_is_full q \<longleftrightarrow> rq_len q = Ring_capacity q"

definition rem_panic :: "nat \<Rightarrow> nat \<Rightarrow> nat result" where
  "rem_panic a b = ensure (b \<noteq> 0) (Panic ''remainder by zero'') (Inr (a mod b))"

definition Ring_set :: "'a Ring \<Rightarrow> nat \<Rightarrow> 'a option \<Rightarrow> 'a Ring result" where
  "Ring_set q i v = ensure (i < Ring_capacity q) (Panic ''index out of bounds'') (Inr (q\<lparr>rq_slots := (rq_slots q)[i := v]\<rparr>))"

text \<open>\<^verbatim>\<open>Err(value)\<close> hands the value back and is \<open>Some value\<close>; \<^verbatim>\<open>Ok(())\<close> is \<open>None\<close>.\<close>

definition Ring_try_push_back :: "'a Ring \<Rightarrow> 'a \<Rightarrow> ('a Ring \<times> 'a option) result" where
  "Ring_try_push_back q v =
     (if Ring_is_full q then Inr (q, Some v)
      else attempt (rem_panic (rq_head q + rq_len q) (Ring_capacity q)) (\<lambda>tail.
           attempt (Ring_set q tail (Some v)) (\<lambda>q.
           Inr (q\<lparr>rq_len := rq_len q + 1\<rparr>, None))))"

definition Ring_try_push_front :: "'a Ring \<Rightarrow> 'a \<Rightarrow> ('a Ring \<times> 'a option) result" where
  "Ring_try_push_front q v =
     (if Ring_is_full q then Inr (q, Some v)
      else attempt (rem_panic (rq_head q + Ring_capacity q - 1) (Ring_capacity q)) (\<lambda>head.
           attempt (Ring_set (q\<lparr>rq_head := head\<rparr>) head (Some v)) (\<lambda>q.
           Inr (q\<lparr>rq_len := rq_len q + 1\<rparr>, None))))"

definition expect_accepted :: "('a Ring \<times> 'a option) result \<Rightarrow> 'a Ring result" where
  "expect_accepted r = attempt r (\<lambda>(q, rejected).
     ensure (rejected = None) (Panic ''fixed queue capacity exceeded'') (Inr q))"

definition Ring_push_back :: "'a Ring \<Rightarrow> 'a \<Rightarrow> 'a Ring result" where
  "Ring_push_back q v = expect_accepted (Ring_try_push_back q v)"

definition Ring_push_front :: "'a Ring \<Rightarrow> 'a \<Rightarrow> 'a Ring result" where
  "Ring_push_front q v = expect_accepted (Ring_try_push_front q v)"

definition Ring_slot :: "'a Ring \<Rightarrow> nat \<Rightarrow> 'a option result" where
  "Ring_slot q i = ensure (i < Ring_capacity q) (Panic ''index out of bounds'') (Inr (rq_slots q ! i))"

definition Ring_pop_front :: "'a Ring \<Rightarrow> ('a Ring \<times> 'a option) result" where
  "Ring_pop_front q =
     (if Ring_is_empty q then Inr (q, None)
      else attempt (Ring_slot q (rq_head q)) (\<lambda>v.
           attempt (Ring_set q (rq_head q) None) (\<lambda>q.
           attempt (rem_panic (rq_head q + 1) (Ring_capacity q)) (\<lambda>head.
           Inr (q\<lparr>rq_head := head, rq_len := rq_len q - 1\<rparr>, v)))))"

definition Ring_front :: "'a Ring \<Rightarrow> 'a option result" where
  "Ring_front q = (if Ring_is_empty q then Inr None else Ring_slot q (rq_head q))"

text \<open>\<^verbatim>\<open>front_mut\<close> followed by an update of the referenced message with \<open>f\<close>.\<close>

definition Ring_front_mut :: "('a \<Rightarrow> 'a) \<Rightarrow> 'a Ring \<Rightarrow> 'a Ring result" where
  "Ring_front_mut f q =
     (if Ring_is_empty q then Inr q
      else attempt (Ring_slot q (rq_head q)) (\<lambda>v. Ring_set q (rq_head q) (map_option f v)))"

lemma Ring_pop_front_decreases:
  "Ring_pop_front q = Inr (q', Some v) \<Longrightarrow> rq_len q' < rq_len q"
  by (auto simp: Ring_pop_front_def Ring_is_empty_def Ring_slot_def Ring_set_def rem_panic_def split: if_splits)

function Ring_clear :: "'a Ring \<Rightarrow> 'a Ring result" where
  "Ring_clear q = (case Ring_pop_front q of
      Inl e \<Rightarrow> Inl e
    | Inr (q', None) \<Rightarrow> Inr q'
    | Inr (q', Some v) \<Rightarrow> Ring_clear q')"
  by pat_completeness auto
termination
  by (relation "measure rq_len") (auto intro: Ring_pop_front_decreases)

declare Ring_clear.simps [simp del]

text \<open>The messages in order, with the \<^verbatim>\<open>expect\<close> on every visited slot.\<close>

definition occupied_slots :: "'a option list \<Rightarrow> 'a list result" where
  "occupied_slots ss = ensure (None \<notin> set ss) (Panic ''occupied queue slot'') (Inr (map the ss))"

definition Ring_iter :: "'a Ring \<Rightarrow> 'a list result" where
  "Ring_iter q =
     ensure (rq_len q = 0 \<or> Ring_capacity q \<noteq> 0) (Panic ''remainder by zero'')
       (occupied_slots (map (\<lambda>i. rq_slots q ! ((rq_head q + i) mod Ring_capacity q)) [0..<rq_len q]))"

text \<open>Visits the slots after the head and then those before it, and updates each message with \<open>f\<close>.\<close>

definition Ring_iter_mut :: "('a \<Rightarrow> 'a) \<Rightarrow> 'a Ring \<Rightarrow> 'a Ring result" where
  "Ring_iter_mut f q =
     ensure (rq_head q \<le> Ring_capacity q) (Panic ''split out of bounds'')
       (let before = take (rq_head q) (rq_slots q); after = drop (rq_head q) (rq_slots q); chain = after @ before in
        attempt (occupied_slots (take (rq_len q) chain)) (\<lambda>vs.
        let chain' = map (Some \<circ> f) vs @ drop (rq_len q) chain in
        Inr (q\<lparr>rq_slots := drop (length after) chain' @ take (length after) chain'\<rparr>)))"

section \<open>The messages of a ring\<close>

definition Ring_is :: "'a Ring \<Rightarrow> 'a list \<Rightarrow> bool" where
  "Ring_is q xs \<longleftrightarrow> rq_head q < Ring_capacity q \<and> rq_len q = length xs \<and> length xs \<le> Ring_capacity q \<and>
     rotate (rq_head q) (rq_slots q) = map Some xs @ replicate (Ring_capacity q - length xs) None"

lemma mod_add_inject:
  assumes "i < n" and "j < n"
  shows "(m + i) mod n = (m + j) mod n \<longleftrightarrow> i = (j :: nat)"
proof -
  have "i = j" if "(m + i) mod n = (m + j) mod n" "j \<le> i" "i < n" for i j
  proof -
    have "n dvd (m + i) - (m + j)" using that mod_eq_dvd_iff_nat [of "m + j" "m + i" n] by simp
    then have "n dvd i - j" by simp
    then show ?thesis using that dvd_imp_le [of n "i - j"] by (cases "i - j = 0") auto
  qed
  then show ?thesis using assms by (metis nat_le_linear)
qed

lemma mod_lt: "i < n \<Longrightarrow> k mod n < (n :: nat)"
  by (rule mod_less_divisor) simp

lemma replicate_pred: "m < n \<Longrightarrow> replicate (n - m) x = x # replicate (n - Suc m) x"
  by (metis Suc_diff_Suc replicate_Suc)

lemma rotate_update:
  "i < length xs \<Longrightarrow> rotate m (xs[(m + i) mod length xs := v]) = (rotate m xs)[i := v]"
proof (rule nth_equalityI)
  fix j assume i: "i < length xs" and "j < length (rotate m (xs[(m + i) mod length xs := v]))"
  then have j: "j < length xs" by simp
  then have "xs[(m + i) mod length xs := v] ! ((m + j) mod length xs) = (if i = j then v else xs ! ((m + j) mod length xs))"
    using mod_add_inject [OF i j, of m] by (auto simp: nth_list_update mod_lt [OF j])
  then show "rotate m (xs[(m + i) mod length xs := v]) ! j = (rotate m xs)[i := v] ! j"
    using i j by (simp add: nth_rotate nth_list_update)
qed simp

lemma rotate_mod_length: "rotate (m mod length xs) xs = rotate m xs"
  by (metis rotate_conv_mod)

lemma Ring_is_nth:
  assumes "Ring_is q xs" and "i < Ring_capacity q"
  shows "rq_slots q ! ((rq_head q + i) mod Ring_capacity q) = (if i < length xs then Some (xs ! i) else None)"
proof -
  have "rotate (rq_head q) (rq_slots q) ! i = (if i < length xs then Some (xs ! i) else None)"
    using assms by (auto simp: Ring_is_def nth_append)
  then show ?thesis using assms by (simp add: nth_rotate Ring_capacity_def)
qed

lemma Ring_is_head: "Ring_is q (x # xs) \<Longrightarrow> rq_slots q ! rq_head q = Some x"
  using Ring_is_nth [of q "x # xs" 0] by (auto simp: Ring_is_def)

lemma Ring_new_is: "0 < n \<Longrightarrow> Ring_with_capacity True n = Inr q \<Longrightarrow> Ring_is q [] \<and> Ring_capacity q = n"
  by (auto simp: Ring_with_capacity_def Ring_is_def Ring_capacity_def)

lemma Ring_try_push_back_spec:
  assumes q: "Ring_is q xs"
  shows "length xs = Ring_capacity q \<Longrightarrow> Ring_try_push_back q v = Inr (q, Some v)"
    and "length xs < Ring_capacity q \<Longrightarrow>
      \<exists>q'. Ring_try_push_back q v = Inr (q', None) \<and> Ring_is q' (xs @ [v]) \<and> Ring_capacity q' = Ring_capacity q"
proof -
  show "length xs = Ring_capacity q \<Longrightarrow> Ring_try_push_back q v = Inr (q, Some v)"
    using q by (simp add: Ring_try_push_back_def Ring_is_full_def Ring_is_def)
next
  assume room: "length xs < Ring_capacity q"
  let ?q = "q\<lparr>rq_slots := (rq_slots q)[(rq_head q + length xs) mod Ring_capacity q := Some v], rq_len := length xs + 1\<rparr>"
  have "rotate (rq_head q) (rq_slots ?q) = (rotate (rq_head q) (rq_slots q))[length xs := Some v]"
    using rotate_update [of "length xs" "rq_slots q" "rq_head q"] room by (simp add: Ring_capacity_def)
  also have "\<dots> = map Some (xs @ [v]) @ replicate (Ring_capacity q - length (xs @ [v])) None"
    using q by (simp add: Ring_is_def list_update_append replicate_pred [OF room])
  finally have "Ring_is ?q (xs @ [v])" using q room by (simp add: Ring_is_def Ring_capacity_def)
  moreover have "Ring_try_push_back q v = Inr (?q, None)"
    using q room by (auto simp: Ring_try_push_back_def Ring_is_full_def Ring_is_def rem_panic_def Ring_set_def Ring_capacity_def mod_lt)
  ultimately show "\<exists>q'. Ring_try_push_back q v = Inr (q', None) \<and> Ring_is q' (xs @ [v]) \<and> Ring_capacity q' = Ring_capacity q"
    by (auto simp: Ring_capacity_def)
qed

lemma Ring_step_back:
  assumes q: "Ring_is q xs" and room: "length xs < Ring_capacity q"
  shows "rotate ((rq_head q + Ring_capacity q - 1) mod Ring_capacity q) (rq_slots q)
    = None # map Some xs @ replicate (Ring_capacity q - length xs - 1) None"
proof -
  let ?h = "(rq_head q + Ring_capacity q - 1) mod Ring_capacity q"
  let ?r = "rotate ?h (rq_slots q)"
  have "rotate1 ?r = rotate (Suc ?h) (rq_slots q)" by simp
  also have "\<dots> = rotate (rq_head q) (rq_slots q)"
  proof -
    have "Suc ?h mod Ring_capacity q = rq_head q mod Ring_capacity q" using q by (simp add: Ring_is_def mod_Suc_eq)
    then show ?thesis by (metis Ring_capacity_def rotate_conv_mod)
  qed
  also have "\<dots> = (map Some xs @ replicate (Ring_capacity q - length xs - 1) None) @ [None]"
    using q by (simp add: Ring_is_def replicate_append_same replicate_pred [OF room])
  finally have "rotate1 ?r = (map Some xs @ replicate (Ring_capacity q - length xs - 1) None) @ [None]" .
  then show ?thesis by (cases ?r) auto
qed

lemma Ring_try_push_front_spec:
  assumes q: "Ring_is q xs"
  shows "length xs = Ring_capacity q \<Longrightarrow> Ring_try_push_front q v = Inr (q, Some v)"
    and "length xs < Ring_capacity q \<Longrightarrow>
      \<exists>q'. Ring_try_push_front q v = Inr (q', None) \<and> Ring_is q' (v # xs) \<and> Ring_capacity q' = Ring_capacity q"
proof -
  show "length xs = Ring_capacity q \<Longrightarrow> Ring_try_push_front q v = Inr (q, Some v)"
    using q by (simp add: Ring_try_push_front_def Ring_is_full_def Ring_is_def)
next
  assume room: "length xs < Ring_capacity q"
  define h where "h = (rq_head q + Ring_capacity q - 1) mod Ring_capacity q"
  have h: "h < Ring_capacity q" using room by (simp add: h_def)
  let ?q = "q\<lparr>rq_head := h, rq_slots := (rq_slots q)[h := Some v], rq_len := length xs + 1\<rparr>"
  have "rotate h ((rq_slots q)[h := Some v]) = (rotate h (rq_slots q))[0 := Some v]"
    using rotate_update [of 0 "rq_slots q" h "Some v"] h by (cases "rq_slots q") (simp_all add: Ring_capacity_def)
  also have "\<dots> = map Some (v # xs) @ replicate (Ring_capacity q - length (v # xs)) None"
    using Ring_step_back [OF q room] by (simp add: h_def)
  finally have "Ring_is ?q (v # xs)" using q room h by (simp add: Ring_is_def Ring_capacity_def)
  moreover have "Ring_try_push_front q v = Inr (?q, None)"
    using q room h mod_lt [OF h]
    by (auto simp: Ring_try_push_front_def Ring_is_full_def Ring_is_def rem_panic_def Ring_set_def Ring_capacity_def h_def)
  ultimately show "\<exists>q'. Ring_try_push_front q v = Inr (q', None) \<and> Ring_is q' (v # xs) \<and> Ring_capacity q' = Ring_capacity q"
    by (auto simp: Ring_capacity_def)
qed

lemma Ring_pop_front_spec:
  shows "Ring_is q [] \<Longrightarrow> Ring_pop_front q = Inr (q, None)"
    and "Ring_is q (x # xs) \<Longrightarrow>
      \<exists>q'. Ring_pop_front q = Inr (q', Some x) \<and> Ring_is q' xs \<and> Ring_capacity q' = Ring_capacity q"
proof -
  show "Ring_is q [] \<Longrightarrow> Ring_pop_front q = Inr (q, None)"
    by (simp add: Ring_pop_front_def Ring_is_empty_def Ring_is_def)
next
  assume q: "Ring_is q (x # xs)"
  let ?h = "(rq_head q + 1) mod Ring_capacity q"
  let ?s = "(rq_slots q)[rq_head q := None]"
  let ?q = "q\<lparr>rq_slots := ?s, rq_head := ?h, rq_len := length xs\<rparr>"
  have h: "rq_head q < Ring_capacity q" and more: "length xs < Ring_capacity q" using q by (simp_all add: Ring_is_def)
  have "rotate ?h ?s = rotate1 (rotate (rq_head q) ?s)"
    using rotate_mod_length [of "Suc (rq_head q)" ?s] by (simp add: Ring_capacity_def)
  also have "rotate (rq_head q) ?s = (rotate (rq_head q) (rq_slots q))[0 := None]"
    using rotate_update [of 0 "rq_slots q" "rq_head q" None] h by (cases "rq_slots q") (simp_all add: Ring_capacity_def)
  also have "rotate1 \<dots> = map Some xs @ replicate (Ring_capacity q - length xs) None"
    using q by (simp add: Ring_is_def replicate_append_same replicate_pred [OF more])
  finally have "Ring_is ?q xs" using q by (auto simp: Ring_is_def Ring_capacity_def mod_lt)
  moreover have "Ring_pop_front q = Inr (?q, Some x)"
    using q h Ring_is_head [OF q]
    by (auto simp: Ring_pop_front_def Ring_is_empty_def Ring_is_def Ring_slot_def Ring_set_def rem_panic_def Ring_capacity_def)
  ultimately show "\<exists>q'. Ring_pop_front q = Inr (q', Some x) \<and> Ring_is q' xs \<and> Ring_capacity q' = Ring_capacity q"
    by (auto simp: Ring_capacity_def)
qed

lemma Ring_clear_spec: "Ring_is q xs \<Longrightarrow> \<exists>q'. Ring_clear q = Inr q' \<and> Ring_is q' [] \<and> Ring_capacity q' = Ring_capacity q"
proof (induction xs arbitrary: q)
  case Nil
  then show ?case by (subst Ring_clear.simps) (simp add: Ring_pop_front_spec(1))
next
  case (Cons x xs)
  obtain q1 where q1: "Ring_pop_front q = Inr (q1, Some x)" "Ring_is q1 xs" "Ring_capacity q1 = Ring_capacity q"
    using Ring_pop_front_spec(2) [OF Cons.prems] by blast
  show ?case using Cons.IH [OF q1(2)] q1 by (subst Ring_clear.simps) simp
qed

lemma Ring_front_spec: "Ring_is q xs \<Longrightarrow> Ring_front q = Inr (case xs of [] \<Rightarrow> None | x # _ \<Rightarrow> Some x)"
  using Ring_is_head [of q]
  by (cases xs) (auto simp: Ring_front_def Ring_is_empty_def Ring_slot_def Ring_is_def)

lemma Ring_iter_spec: "Ring_is q xs \<Longrightarrow> Ring_iter q = Inr xs"
proof -
  assume q: "Ring_is q xs"
  have "map (\<lambda>i. rq_slots q ! ((rq_head q + i) mod Ring_capacity q)) [0..<rq_len q] = map Some xs"
    using q Ring_is_nth [OF q] by (intro nth_equalityI) (auto simp: Ring_is_def)
  then show ?thesis using q by (auto simp: Ring_iter_def occupied_slots_def Ring_is_def comp_def)
qed

lemma rotate_join: "m \<le> length xs \<Longrightarrow> drop m xs @ take m xs = rotate m xs"
  by (cases "m = length xs") (auto simp: rotate_drop_take)

lemma Ring_iter_mut_spec:
  assumes q: "Ring_is q xs"
  shows "\<exists>q'. Ring_iter_mut f q = Inr q' \<and> Ring_is q' (map f xs) \<and> Ring_capacity q' = Ring_capacity q"
proof -
  let ?h = "rq_head q" and ?s = "rq_slots q"
  have h: "?h < length ?s" "rq_len q = length xs" "length xs \<le> length ?s"
    and rot: "drop ?h ?s @ take ?h ?s = map Some xs @ replicate (length ?s - length xs) None"
    using q rotate_join [of ?h ?s] by (auto simp: Ring_is_def Ring_capacity_def)
  let ?c = "map (Some \<circ> f) xs @ replicate (length ?s - length xs) None"
  let ?k = "length ?s - ?h"
  let ?q = "q\<lparr>rq_slots := drop ?k ?c @ take ?k ?c\<rparr>"
  have "occupied_slots (take (rq_len q) (drop ?h ?s @ take ?h ?s)) = Inr xs"
    unfolding rot h(2) by (auto simp: occupied_slots_def comp_def)
  moreover have "drop (rq_len q) (drop ?h ?s @ take ?h ?s) = replicate (length ?s - length xs) None"
    unfolding rot h(2) by simp
  moreover have "length (drop ?h ?s) = ?k" by simp
  ultimately have run: "Ring_iter_mut f q = Inr ?q"
    using h(1) unfolding Ring_iter_mut_def Let_def Ring_capacity_def by simp
  have "length (drop ?k ?c) = ?h" using h by simp
  then have rot': "rotate ?h (drop ?k ?c @ take ?k ?c) = ?c"
    by (metis rotate_append append_take_drop_id)
  have len: "length (drop ?k ?c @ take ?k ?c) = length ?s"
    using h(3) by (simp only: length_append length_drop length_take length_map length_replicate)
  have "Ring_is ?q (map f xs)"
    using rot' len h unfolding Ring_is_def Ring_capacity_def by (simp del: append_assoc take_append drop_append length_append)
  moreover have "Ring_capacity ?q = Ring_capacity q" using len
    unfolding Ring_capacity_def by (simp del: append_assoc take_append drop_append length_append)
  ultimately show ?thesis using run by (intro exI [of _ ?q] conjI)
qed

lemma Ring_front_mut_spec:
  assumes q: "Ring_is q xs"
  shows "\<exists>q'. Ring_front_mut f q = Inr q' \<and> Ring_is q' (case xs of [] \<Rightarrow> [] | x # xs \<Rightarrow> f x # xs) \<and> Ring_capacity q' = Ring_capacity q"
proof (cases xs)
  case Nil
  then show ?thesis using q by (auto simp: Ring_front_mut_def Ring_is_empty_def Ring_is_def)
next
  case (Cons x ys)
  let ?h = "rq_head q"
  let ?q = "q\<lparr>rq_slots := (rq_slots q)[?h := Some (f x)]\<rparr>"
  have h: "?h < Ring_capacity q" using q by (simp add: Ring_is_def)
  have "rotate ?h (rq_slots ?q) = (rotate ?h (rq_slots q))[0 := Some (f x)]"
    using rotate_update [of 0 "rq_slots q" ?h "Some (f x)"] h by (cases "rq_slots q") (simp_all add: Ring_capacity_def)
  then have "Ring_is ?q (f x # ys)" using q Cons by (simp add: Ring_is_def Ring_capacity_def)
  moreover have "Ring_front_mut f q = Inr ?q"
    using q Cons h Ring_is_head [of q x ys]
    by (auto simp: Ring_front_mut_def Ring_is_empty_def Ring_is_def Ring_slot_def Ring_set_def)
  ultimately show ?thesis using Cons by (auto simp: Ring_capacity_def)
qed

section \<open>The contract of a bounded queue\<close>

text \<open>
  What the users of a bounded queue rely on. Inside the locale: a run of pushes is accepted in
  order until the queue is full, and popping a queue as often as it has messages returns them in
  order.
\<close>

locale bounded_fifo =
  fixes holds :: "'s \<Rightarrow> 'a list \<Rightarrow> bool"
    and capacity :: "'s \<Rightarrow> nat"
    and push :: "'s \<Rightarrow> 'a \<Rightarrow> ('s \<times> 'a option) result"
    and pop :: "'s \<Rightarrow> ('s \<times> 'a option) result"
  assumes bounded: "holds q xs \<Longrightarrow> length xs \<le> capacity q"
    and push_room: "holds q xs \<Longrightarrow> length xs < capacity q \<Longrightarrow>
      \<exists>q'. push q v = Inr (q', None) \<and> holds q' (xs @ [v]) \<and> capacity q' = capacity q"
    and push_full: "holds q xs \<Longrightarrow> length xs = capacity q \<Longrightarrow> push q v = Inr (q, Some v)"
    and pop_empty: "holds q [] \<Longrightarrow> pop q = Inr (q, None)"
    and pop_head: "holds q (x # xs) \<Longrightarrow> \<exists>q'. pop q = Inr (q', Some x) \<and> holds q' xs \<and> capacity q' = capacity q"
begin

lemma push_cases:
  assumes "holds q xs"
  obtains (full) "length xs = capacity q" "push q v = Inr (q, Some v)"
    | (room) q' where "length xs < capacity q" "push q v = Inr (q', None)" "holds q' (xs @ [v])" "capacity q' = capacity q"
  using bounded [OF assms] push_full [OF assms, of v] push_room [OF assms, of v] by (meson le_neq_implies_less)

lemma pop_cases:
  assumes "holds q xs"
  obtains (empty) "xs = []" "pop q = Inr (q, None)"
    | (head) x ys q' where "xs = x # ys" "pop q = Inr (q', Some x)" "holds q' ys" "capacity q' = capacity q"
  using assms pop_empty [of q] pop_head [of q] by (cases xs) blast+

primrec push_all :: "'s \<Rightarrow> 'a list \<Rightarrow> ('s \<times> 'a list) result" where
  "push_all q [] = Inr (q, [])"
| "push_all q (v # vs) = attempt (push q v) (\<lambda>(q, r). attempt (push_all q vs) (\<lambda>(q, rs).
     Inr (q, (case r of None \<Rightarrow> rs | Some x \<Rightarrow> x # rs))))"

primrec pop_many :: "nat \<Rightarrow> 's \<Rightarrow> ('s \<times> 'a option list) result" where
  "pop_many 0 q = Inr (q, [])"
| "pop_many (Suc n) q = attempt (pop q) (\<lambda>(q, v). attempt (pop_many n q) (\<lambda>(q, vs). Inr (q, v # vs)))"

lemma push_all_full: "holds q xs \<Longrightarrow> length xs = capacity q \<Longrightarrow> push_all q vs = Inr (q, vs)"
  by (induction vs) (simp_all add: push_full)

lemma push_all_spec:
  "holds q xs \<Longrightarrow> \<exists>q'. push_all q vs = Inr (q', drop (capacity q - length xs) vs) \<and>
     holds q' (xs @ take (capacity q - length xs) vs) \<and> capacity q' = capacity q"
proof (induction vs arbitrary: q xs)
  case (Cons v vs)
  from Cons.prems show ?case
  proof (cases rule: push_cases [of q xs v])
    case full
    then show ?thesis using push_all_full [OF Cons.prems full(1)] Cons.prems by auto
  next
    case (room q')
    then have "capacity q - length xs = Suc (capacity q - Suc (length xs))" by simp
    then show ?thesis using Cons.IH [OF room(3)] room by auto
  qed
qed auto

lemma pop_many_spec:
  "holds q xs \<Longrightarrow> \<exists>q'. pop_many (length xs) q = Inr (q', map Some xs) \<and> holds q' [] \<and> capacity q' = capacity q"
proof (induction xs arbitrary: q)
  case (Cons x xs)
  obtain q1 where q1: "pop q = Inr (q1, Some x)" "holds q1 xs" "capacity q1 = capacity q"
    using pop_head [OF Cons.prems] by blast
  then show ?case using Cons.IH [OF q1(2)] by auto
qed auto

end

interpretation ring: bounded_fifo Ring_is Ring_capacity Ring_try_push_back Ring_pop_front
  by unfold_locales
    (simp add: Ring_is_def, auto intro: Ring_try_push_back_spec Ring_pop_front_spec)

section \<open>Any sequence of operations\<close>

datatype 'a ring_op =
    Push_back 'a | Push_front 'a | Pop_front | Front | Front_mut "'a \<Rightarrow> 'a" | Clear | Iter | Iter_mut "'a \<Rightarrow> 'a"

text \<open>What an operation answers: the rejected value of a push, or the messages it reports.\<close>

type_synonym 'a ring_answer = "'a list"

definition answer :: "'a option \<Rightarrow> 'a ring_answer" where
  "answer v = (case v of None \<Rightarrow> [] | Some x \<Rightarrow> [x])"

fun ring_step :: "'a ring_op \<Rightarrow> 'a Ring \<Rightarrow> ('a Ring \<times> 'a ring_answer) result" where
  "ring_step (Push_back v) q = attempt (Ring_try_push_back q v) (\<lambda>(q, r). Inr (q, answer r))"
| "ring_step (Push_front v) q = attempt (Ring_try_push_front q v) (\<lambda>(q, r). Inr (q, answer r))"
| "ring_step Pop_front q = attempt (Ring_pop_front q) (\<lambda>(q, r). Inr (q, answer r))"
| "ring_step Front q = attempt (Ring_front q) (\<lambda>r. Inr (q, answer r))"
| "ring_step (Front_mut f) q = attempt (Ring_front_mut f q) (\<lambda>q. Inr (q, []))"
| "ring_step Clear q = attempt (Ring_clear q) (\<lambda>q. Inr (q, []))"
| "ring_step Iter q = attempt (Ring_iter q) (\<lambda>vs. Inr (q, vs))"
| "ring_step (Iter_mut f) q = attempt (Ring_iter_mut f q) (\<lambda>q. Inr (q, []))"

text \<open>The specification: a list of at most \<open>n\<close> messages.\<close>

fun deque_step :: "nat \<Rightarrow> 'a ring_op \<Rightarrow> 'a list \<Rightarrow> 'a list \<times> 'a ring_answer" where
  "deque_step n (Push_back v) xs = (if length xs = n then (xs, [v]) else (xs @ [v], []))"
| "deque_step n (Push_front v) xs = (if length xs = n then (xs, [v]) else (v # xs, []))"
| "deque_step n Pop_front xs = (tl xs, take 1 xs)"
| "deque_step n Front xs = (xs, take 1 xs)"
| "deque_step n (Front_mut f) xs = (map f (take 1 xs) @ tl xs, [])"
| "deque_step n Clear xs = ([], [])"
| "deque_step n Iter xs = (xs, xs)"
| "deque_step n (Iter_mut f) xs = (map f xs, [])"

primrec ring_run :: "'a ring_op list \<Rightarrow> 'a Ring \<Rightarrow> ('a Ring \<times> 'a ring_answer list) result" where
  "ring_run [] q = Inr (q, [])"
| "ring_run (p # ps) q = attempt (ring_step p q) (\<lambda>(q, a). attempt (ring_run ps q) (\<lambda>(q, as). Inr (q, a # as)))"

primrec deque_run :: "nat \<Rightarrow> 'a ring_op list \<Rightarrow> 'a list \<Rightarrow> 'a list \<times> 'a ring_answer list" where
  "deque_run n [] xs = (xs, [])"
| "deque_run n (p # ps) xs = (let (xs, a) = deque_step n p xs; (xs, as) = deque_run n ps xs in (xs, a # as))"

lemma ring_step_refines:
  assumes q: "Ring_is q xs"
  shows "\<exists>q'. ring_step p q = Inr (q', snd (deque_step (Ring_capacity q) p xs)) \<and>
    Ring_is q' (fst (deque_step (Ring_capacity q) p xs)) \<and> Ring_capacity q' = Ring_capacity q"
proof (cases p)
  case (Push_back v)
  then show ?thesis using q by (cases rule: ring.push_cases [OF q, of v]) (auto simp: answer_def)
next
  case (Push_front v)
  then show ?thesis
    using q Ring_try_push_front_spec [OF q, of v] ring.bounded [OF q]
    by (cases "length xs = Ring_capacity q") (auto simp: answer_def)
next
  case Pop_front
  then show ?thesis using q by (cases rule: ring.pop_cases [OF q]) (auto simp: answer_def)
next
  case Front
  then show ?thesis using q Ring_front_spec [OF q] by (cases xs) (auto simp: answer_def)
next
  case (Front_mut f)
  then show ?thesis using Ring_front_mut_spec [OF q, of f] by (cases xs) auto
next
  case Clear
  then show ?thesis using Ring_clear_spec [OF q] by auto
next
  case Iter
  then show ?thesis using q Ring_iter_spec [OF q] by auto
next
  case (Iter_mut f)
  then show ?thesis using Ring_iter_mut_spec [OF q, of f] by auto
qed

lemma ring_run_refines:
  "Ring_is q xs \<Longrightarrow> \<exists>q'. ring_run ps q = Inr (q', snd (deque_run (Ring_capacity q) ps xs)) \<and>
     Ring_is q' (fst (deque_run (Ring_capacity q) ps xs)) \<and> Ring_capacity q' = Ring_capacity q"
proof (induction ps arbitrary: q xs)
  case (Cons p ps)
  obtain xs1 a where step: "deque_step (Ring_capacity q) p xs = (xs1, a)" by (rule prod.exhaust)
  obtain q1 where q1: "ring_step p q = Inr (q1, a)" "Ring_is q1 xs1" "Ring_capacity q1 = Ring_capacity q"
    using ring_step_refines [OF Cons.prems, of p] step by auto
  then show ?case using Cons.IH [OF q1(2)] step by (auto simp: case_prod_beta)
qed auto

section \<open>Properties\<close>

text \<open>
  The ring refines a bounded deque. After any sequence of operations on a ring of \<open>n\<close> slots,
  whatever the wrap-around of its head, every answer is the one a list of at most \<open>n\<close> messages
  gives, no operation panics, and iteration lists exactly the messages in order.
\<close>
theorem ring_refines_deque:
  assumes "Ring_with_capacity True n = Inr q" and "deque_run n ps [] = (xs, as)"
  shows "\<exists>q'. ring_run ps q = Inr (q', as) \<and> Ring_iter q' = Inr xs \<and> Ring_capacity q' = n"
proof -
  have q: "Ring_is q []" "Ring_capacity q = n"
    using assms(1) Ring_new_is [of n q] by (auto simp: Ring_with_capacity_def)
  then show ?thesis using ring_run_refines [OF q(1), of ps] assms(2) Ring_iter_spec by auto
qed

theorem ring_refines_deque_witness:
  "\<exists>q'. ring_run [Push_back 1, Push_front 2, Push_back 3, Pop_front, Push_back 4, Iter_mut (\<lambda>x. x + 10), Iter]
       \<lparr>rq_slots = [None, None], rq_head = 0, rq_len = 0\<rparr> = Inr (q', [[], [], [3], [2], [], [], [11, 14 :: nat]]) \<and>
     Ring_iter q' = Inr [11, 14] \<and> Ring_capacity q' = 2"
proof (rule ring_refines_deque)
  show "Ring_with_capacity True 2 = Inr \<lparr>rq_slots = [None, None], rq_head = 0, rq_len = 0\<rparr>"
    by (simp add: Ring_with_capacity_def numeral_2_eq_2)
qed simp

end
