(* ===== verification/Channel.thy ===== *)
theory Channel
  imports Ring_Queue
begin

text \<open>
  The bounded channel of \<^verbatim>\<open>core/src/budget/channel.rs\<close>: a ring of messages, the number of live
  senders, and the flags that close or fail it. Every operation takes the mutex first; a poisoned
  mutex fails the channel. The blocking receive is modelled with the list of its wake-ups, each
  with the operations other threads ran while the receiver waited. \<open>channel_reach\<close> is the state
  machine of all interleavings, with the history of accepted and delivered messages.
\<close>

section \<open>State\<close>

record 'a ChannelQueue =
  cq_messages :: "'a Ring"
  cq_senders :: nat
  cq_closed :: bool
  cq_failed :: bool

record 'a Channel =
  ch_queue :: "'a ChannelQueue"
  ch_poisoned :: bool

definition Channel_bounded :: "bool \<Rightarrow> bool \<Rightarrow> nat \<Rightarrow> 'a Channel result" where
  "Channel_bounded granted_slots granted_state n =
     attempt (Ring_with_capacity granted_slots n) (\<lambda>messages.
     ensure granted_state (OutOfMemory '''')
       (Inr \<lparr>ch_queue = \<lparr>cq_messages = messages, cq_senders = 1, cq_closed = False, cq_failed = False\<rparr>, ch_poisoned = False\<rparr>))"

section \<open>Operations under the lock\<close>

definition Channel_fail :: "'a ChannelQueue \<Rightarrow> 'a ChannelQueue" where
  "Channel_fail q = q\<lparr>cq_failed := True, cq_closed := True\<rparr>"

definition Channel_lock :: "'a Channel \<Rightarrow> 'a ChannelQueue" where
  "Channel_lock c = (if ch_poisoned c then Channel_fail (ch_queue c) else ch_queue c)"

abbreviation unlock :: "'a Channel \<Rightarrow> 'a ChannelQueue \<Rightarrow> 'a Channel" where
  "unlock c q \<equiv> c\<lparr>ch_queue := q\<rparr>"

datatype 'a recv = Received 'a | Empty | Disconnected | Timeout

definition Queue_receive :: "'a ChannelQueue \<Rightarrow> ('a ChannelQueue \<times> 'a recv) result" where
  "Queue_receive q =
     (if cq_failed q then Inr (q, Disconnected)
      else attempt (Ring_pop_front (cq_messages q)) (\<lambda>(messages, value).
        let q = q\<lparr>cq_messages := messages\<rparr> in
        Inr (q, case value of
            Some v \<Rightarrow> Received v
          | None \<Rightarrow> if cq_closed q \<or> cq_senders q = 0 then Disconnected else Empty)))"

datatype 'a send = Sent | Send_disconnected 'a | Send_full 'a

definition Sender_try_send :: "'a Channel \<Rightarrow> 'a \<Rightarrow> ('a Channel \<times> 'a send) result" where
  "Sender_try_send c v =
     (let q = Channel_lock c in
      if cq_closed q then Inr (unlock c q, Send_disconnected v)
      else attempt (Ring_try_push_back (cq_messages q) v) (\<lambda>(messages, rejected).
        Inr (unlock c (q\<lparr>cq_messages := messages\<rparr>),
             case rejected of None \<Rightarrow> Sent | Some v \<Rightarrow> Send_full v)))"

definition Sender_clone :: "'a Channel \<Rightarrow> 'a Channel result" where
  "Sender_clone c =
     (let q = Channel_lock c in
      attempt (ok_or (nchecked_add (cq_senders q) 1) (Panic ''sender count overflow'')) (\<lambda>n.
      Inr (unlock c (q\<lparr>cq_senders := n\<rparr>))))"

definition Sender_drop :: "'a Channel \<Rightarrow> 'a Channel" where
  "Sender_drop c = (let q = Channel_lock c in unlock c (q\<lparr>cq_senders := wrapping_sub (cq_senders q) 1\<rparr>))"

definition Receiver_close :: "'a Channel \<Rightarrow> 'a Channel" where
  "Receiver_close c = unlock c (Channel_lock c\<lparr>cq_closed := True\<rparr>)"

definition Receiver_try_recv :: "'a Channel \<Rightarrow> ('a Channel \<times> 'a recv) result" where
  "Receiver_try_recv c = attempt (Queue_receive (Channel_lock c)) (\<lambda>(q, r). Inr (unlock c q, r))"

definition Receiver_drop :: "'a Channel \<Rightarrow> 'a Channel result" where
  "Receiver_drop c =
     (let c = Receiver_close c; q = Channel_lock c in
      attempt (Ring_clear (cq_messages q)) (\<lambda>messages. Inr (unlock c (q\<lparr>cq_messages := messages\<rparr>))))"

section \<open>The blocking receive\<close>

text \<open>
  While the receiver waits on the condition variable the lock is free: other threads run
  operations, and a panic under the lock poisons it. A wake-up is the clock reading before the wait
  and those operations; waking takes the lock again.
\<close>

datatype 'a channel_op = Op_send 'a | Op_clone | Op_drop_sender | Op_close | Op_poison

fun run_op :: "'a channel_op \<Rightarrow> 'a Channel \<Rightarrow> 'a Channel result" where
  "run_op (Op_send v) c = attempt (Sender_try_send c v) (\<lambda>(c, _). Inr c)"
| "run_op Op_clone c = Sender_clone c"
| "run_op Op_drop_sender c = Inr (Sender_drop c)"
| "run_op Op_close c = Inr (Receiver_close c)"
| "run_op Op_poison c = Inr (c\<lparr>ch_poisoned := True\<rparr>)"

primrec channel_ops :: "'a channel_op list \<Rightarrow> 'a Channel \<Rightarrow> 'a Channel result" where
  "channel_ops [] c = Inr c"
| "channel_ops (p # ps) c = attempt (run_op p c) (channel_ops ps)"

type_synonym 'a wake_up = "bool \<times> 'a channel_op list"

text \<open>The result \<open>None\<close> is a receiver that still waits after the given wake-ups.\<close>

fun receive_loop :: "bool \<Rightarrow> 'a wake_up list \<Rightarrow> 'a Channel \<Rightarrow> ('a Channel \<times> 'a recv option) result" where
  "receive_loop deadline ws c = attempt (Queue_receive (ch_queue c)) (\<lambda>(q, r).
     if r \<noteq> Empty then Inr (unlock c q, Some r)
     else (case ws of
         [] \<Rightarrow> Inr (unlock c q, None)
       | (expired, others) # ws \<Rightarrow>
           if deadline \<and> expired then Inr (unlock c q, Some Timeout)
           else attempt (channel_ops others (unlock c q)) (\<lambda>c. receive_loop deadline ws (unlock c (Channel_lock c)))))"

declare receive_loop.simps [simp del]

definition Receiver_receive :: "bool \<Rightarrow> 'a wake_up list \<Rightarrow> 'a Channel \<Rightarrow> ('a Channel \<times> 'a recv option) result" where
  "Receiver_receive deadline ws c = receive_loop deadline ws (unlock c (Channel_lock c))"

text \<open>\<^verbatim>\<open>recv\<close> waits without a deadline; \<^verbatim>\<open>recv_timeout\<close> with one, unless the clock cannot represent it.\<close>

definition Receiver_recv :: "'a wake_up list \<Rightarrow> 'a Channel \<Rightarrow> ('a Channel \<times> 'a recv option) result" where
  "Receiver_recv ws c = Receiver_receive False ws c"

definition Receiver_recv_timeout :: "bool \<Rightarrow> 'a wake_up list \<Rightarrow> 'a Channel \<Rightarrow> ('a Channel \<times> 'a recv option) result" where
  "Receiver_recv_timeout representable ws c = Receiver_receive representable ws c"

section \<open>All interleavings\<close>

text \<open>
  Only live senders can send, be cloned or be dropped. The second component is the history of
  accepted messages, the third that of delivered ones.
\<close>

inductive channel_reach :: "nat \<Rightarrow> 'a Channel \<Rightarrow> 'a list \<Rightarrow> 'a list \<Rightarrow> bool" for n where
  start: "Channel_bounded True True n = Inr c \<Longrightarrow> channel_reach n c [] []"
| send: "channel_reach n c sent got \<Longrightarrow> 0 < cq_senders (ch_queue c) \<Longrightarrow> Sender_try_send c v = Inr (c', r) \<Longrightarrow>
    channel_reach n c' (if r = Sent then sent @ [v] else sent) got"
| clone: "channel_reach n c sent got \<Longrightarrow> 0 < cq_senders (ch_queue c) \<Longrightarrow> Sender_clone c = Inr c' \<Longrightarrow>
    channel_reach n c' sent got"
| drop_sender: "channel_reach n c sent got \<Longrightarrow> 0 < cq_senders (ch_queue c) \<Longrightarrow> channel_reach n (Sender_drop c) sent got"
| close: "channel_reach n c sent got \<Longrightarrow> channel_reach n (Receiver_close c) sent got"
| recv: "channel_reach n c sent got \<Longrightarrow> Receiver_try_recv c = Inr (c', r) \<Longrightarrow>
    channel_reach n c' sent (case r of Received v \<Rightarrow> got @ [v] | _ \<Rightarrow> got)"
| poison: "channel_reach n c sent got \<Longrightarrow> channel_reach n (c\<lparr>ch_poisoned := True\<rparr>) sent got"

definition messages_are :: "'a ChannelQueue \<Rightarrow> 'a list \<Rightarrow> bool" where
  "messages_are q xs \<longleftrightarrow> Ring_is (cq_messages q) xs"

lemma lock_simps [simp]:
  "cq_messages (Channel_lock c) = cq_messages (ch_queue c)"
  "cq_senders (Channel_lock c) = cq_senders (ch_queue c)"
  "cq_closed (Channel_lock c) \<longleftrightarrow> cq_closed (ch_queue c) \<or> ch_poisoned c"
  "cq_failed (Channel_lock c) \<longleftrightarrow> cq_failed (ch_queue c) \<or> ch_poisoned c"
  by (auto simp: Channel_lock_def Channel_fail_def)

lemma Queue_receive_spec:
  assumes q: "Ring_is (cq_messages q) xs"
  shows "\<exists>q'. Queue_receive q = Inr (q', if cq_failed q then Disconnected else case xs of
        [] \<Rightarrow> if cq_closed q \<or> cq_senders q = 0 then Disconnected else Empty
      | x # _ \<Rightarrow> Received x) \<and>
    Ring_is (cq_messages q') (if cq_failed q then xs else tl xs) \<and>
    Ring_capacity (cq_messages q') = Ring_capacity (cq_messages q) \<and>
    cq_senders q' = cq_senders q \<and> cq_closed q' = cq_closed q \<and> cq_failed q' = cq_failed q"
  using q by (cases rule: ring.pop_cases [OF q]) (auto simp: Queue_receive_def Let_def)

lemma Sender_try_send_spec:
  assumes q: "Ring_is (cq_messages (ch_queue c)) xs"
  shows "\<exists>c'. Sender_try_send c v = Inr (c', if cq_closed (Channel_lock c) then Send_disconnected v
        else if length xs = Ring_capacity (cq_messages (ch_queue c)) then Send_full v else Sent) \<and>
    Ring_is (cq_messages (ch_queue c')) (if cq_closed (Channel_lock c) \<or> length xs = Ring_capacity (cq_messages (ch_queue c)) then xs else xs @ [v]) \<and>
    Ring_capacity (cq_messages (ch_queue c')) = Ring_capacity (cq_messages (ch_queue c)) \<and>
    cq_senders (ch_queue c') = cq_senders (ch_queue c) \<and> ch_poisoned c' = ch_poisoned c"
  using q by (cases rule: ring.push_cases [OF q, of v]) (auto simp: Sender_try_send_def Let_def)

definition channel_holds :: "nat \<Rightarrow> 'a Channel \<Rightarrow> 'a list \<Rightarrow> bool" where
  "channel_holds n c xs \<longleftrightarrow> Ring_is (cq_messages (ch_queue c)) xs \<and> Ring_capacity (cq_messages (ch_queue c)) = n"

lemma channel_reach_holds: "channel_reach n c sent got \<Longrightarrow> \<exists>xs. channel_holds n c xs \<and> sent = got @ xs"
proof (induction rule: channel_reach.induct)
  case (start c)
  then show ?case
    by (auto simp: Channel_bounded_def channel_holds_def Ring_with_capacity_def Ring_is_def Ring_capacity_def)
next
  case (send c sent got v c' r)
  then obtain xs where xs: "channel_holds n c xs" "sent = got @ xs" by blast
  then show ?case using Sender_try_send_spec [of c xs v] send.hyps(3)
    by (auto simp: channel_holds_def split: if_splits)
next
  case (recv c sent got c' r)
  then obtain xs where xs: "channel_holds n c xs" "sent = got @ xs" by blast
  then show ?case using Queue_receive_spec [of "Channel_lock c" xs] recv.hyps(2)
    by (cases xs) (auto simp: channel_holds_def Receiver_try_recv_def split: if_splits)
qed (auto simp: channel_holds_def Sender_clone_def Sender_drop_def Receiver_close_def Let_def)


lemma run_op_holds:
  assumes c: "channel_holds n c xs" and p: "run_op p c = Inr c'"
  shows "\<exists>ys. channel_holds n c' ys"
proof (cases p)
  case (Op_send v)
  then show ?thesis using c p Sender_try_send_spec [of c xs v] by (auto simp: channel_holds_def split: if_splits)
qed (use c p in \<open>auto simp: channel_holds_def Sender_clone_def Sender_drop_def Receiver_close_def Let_def\<close>)

lemma channel_ops_holds: "channel_holds n c xs \<Longrightarrow> channel_ops ps c = Inr c' \<Longrightarrow> \<exists>ys. channel_holds n c' ys"
  by (induction ps arbitrary: c xs) (auto, metis run_op_holds)

lemma Queue_receive_Empty:
  assumes "channel_holds n c xs" and "Queue_receive (ch_queue c) = Inr (q, Empty)"
  shows "q = ch_queue c \<and> xs = [] \<and> \<not> cq_failed q \<and> \<not> cq_closed q \<and> cq_senders q \<noteq> 0"
proof -
  have r: "Ring_is (cq_messages (ch_queue c)) xs" using assms(1) by (simp add: channel_holds_def)
  show ?thesis
    using r assms(2) by (cases rule: ring.pop_cases [OF r]) (auto simp: Queue_receive_def Let_def split: if_splits)
qed

lemma receive_loop_blocked:
  "receive_loop deadline ws c = Inr (c', None) \<Longrightarrow> channel_holds n c xs \<Longrightarrow>
   channel_holds n c' [] \<and> (\<exists>q. Queue_receive (ch_queue c') = Inr (q, Empty))"
proof (induction deadline ws c arbitrary: xs rule: receive_loop.induct)
  case (1 deadline ws c)
  obtain q where q: "Queue_receive (ch_queue c) = Inr (q, Empty)"
    using "1.prems"(1) by (subst (asm) receive_loop.simps) (auto split: if_splits)
  note idle = Queue_receive_Empty [OF "1.prems"(2) q]
  have here: "unlock c q = c" using idle by simp
  show ?case
  proof (cases ws)
    case Nil
    then have "c' = c" using "1.prems"(1) q here by (subst (asm) receive_loop.simps) auto
    then show ?thesis using q "1.prems"(2) idle by auto
  next
    case (Cons w ws')
    obtain expired others where w: "w = (expired, others)" by (cases w)
    obtain c1 where c1: "\<not> (deadline \<and> expired)" "channel_ops others c = Inr c1"
      "receive_loop deadline ws' (unlock c1 (Channel_lock c1)) = Inr (c', None)"
      using "1.prems"(1) q here Cons w by (subst (asm) receive_loop.simps) (auto split: if_splits)
    obtain ys where "channel_holds n c1 ys" using channel_ops_holds [OF "1.prems"(2) c1(2)] by blast
    then have "channel_holds n (unlock c1 (Channel_lock c1)) ys" by (simp add: channel_holds_def)
    then show ?thesis using "1.IH" Cons w c1 by blast
  qed
qed

primrec recv_many :: "nat \<Rightarrow> 'a Channel \<Rightarrow> ('a Channel \<times> 'a recv list) result" where
  "recv_many 0 c = Inr (c, [])"
| "recv_many (Suc k) c = attempt (Receiver_try_recv c) (\<lambda>(c, r). attempt (recv_many k c) (\<lambda>(c, rs). Inr (c, r # rs)))"

lemma closed_drains:
  assumes "channel_holds n c xs" and "cq_closed (ch_queue c)" and "\<not> cq_failed (ch_queue c)" and "\<not> ch_poisoned c"
  shows "\<exists>c'. recv_many (Suc (length xs)) c = Inr (c', map Received xs @ [Disconnected])"
  using assms
proof (induction xs arbitrary: c)
  case Nil
  then show ?case
    using Queue_receive_spec [of "Channel_lock c" "[]"] by (auto simp: channel_holds_def Receiver_try_recv_def)
next
  case (Cons x xs)
  obtain q where q: "Queue_receive (Channel_lock c) = Inr (q, Received x)" "Ring_is (cq_messages q) xs"
    "Ring_capacity (cq_messages q) = n" "cq_closed q" "\<not> cq_failed q"
    using Queue_receive_spec [of "Channel_lock c" "x # xs"] Cons.prems by (auto simp: channel_holds_def)
  have "channel_holds n (unlock c q) xs" using q by (simp add: channel_holds_def)
  from Cons.IH [OF this] obtain c' where "recv_many (Suc (length xs)) (unlock c q) = Inr (c', map Received xs @ [Disconnected])"
    using q Cons.prems by auto
  moreover have "Receiver_try_recv c = Inr (unlock c q, Received x)" using q by (simp add: Receiver_try_recv_def)
  ultimately show ?case by (simp only: recv_many.simps(2) [of "length (x # xs)"] list.size) auto
qed

section \<open>Properties\<close>

text \<open>
  C16. The channel delivers every accepted message once and in order. In every reachable state of
  any interleaving of senders, clones, drops, closing, receiving and poisoning, the accepted messages
  are the delivered ones followed by those still queued, at most the capacity are queued, and
  neither sending nor receiving panics.
\<close>
theorem channel_fifo:
  assumes "channel_reach n c sent got"
  shows "\<exists>xs. Ring_iter (cq_messages (ch_queue c)) = Inr xs \<and> sent = got @ xs \<and> length xs \<le> n \<and>
    (\<forall>v. \<exists>r. Sender_try_send c v = Inr r) \<and> (\<exists>r. Receiver_try_recv c = Inr r)"
proof -
  obtain xs where xs: "channel_holds n c xs" "sent = got @ xs" using channel_reach_holds [OF assms] by blast
  then have r: "Ring_is (cq_messages (ch_queue c)) xs" "Ring_capacity (cq_messages (ch_queue c)) = n"
    by (simp_all add: channel_holds_def)
  have "\<exists>r. Sender_try_send c v = Inr r" for v using Sender_try_send_spec [OF r(1), of v] by blast
  moreover have "\<exists>r. Receiver_try_recv c = Inr r"
    using Queue_receive_spec [of "Channel_lock c" xs] r(1) by (auto simp: Receiver_try_recv_def)
  ultimately show ?thesis using xs(2) Ring_iter_spec [OF r(1)] ring.bounded [OF r(1)] r(2) by blast
qed

abbreviation demo_channel :: "nat \<Rightarrow> nat Channel" where
  "demo_channel k \<equiv> \<lparr>ch_queue = \<lparr>cq_messages = \<lparr>rq_slots = [Some 7, None], rq_head = 0, rq_len = 1\<rparr>,
     cq_senders = k, cq_closed = False, cq_failed = False\<rparr>, ch_poisoned = False\<rparr>"

lemma demo_channel_reachable: "channel_reach 2 (demo_channel 1) [7] []"
proof -
  let ?c = "\<lparr>ch_queue = \<lparr>cq_messages = \<lparr>rq_slots = [None, None], rq_head = 0, rq_len = 0\<rparr>,
     cq_senders = 1, cq_closed = False, cq_failed = False\<rparr>, ch_poisoned = False\<rparr> :: nat Channel"
  have "channel_reach 2 ?c [] []"
    by (rule start) (simp add: Channel_bounded_def Ring_with_capacity_def numeral_2_eq_2)
  then have "channel_reach 2 (demo_channel 1) (if Sent = (Sent :: nat send) then [] @ [7] else []) []"
    by (rule channel_reach.send)
      (simp_all add: Sender_try_send_def Channel_lock_def Let_def Ring_try_push_back_def Ring_is_full_def
        Ring_capacity_def rem_panic_def Ring_set_def)
  then show ?thesis by simp
qed

theorem channel_fifo_witness:
  "\<exists>xs. Ring_iter (cq_messages (ch_queue (demo_channel 1))) = Inr xs \<and> [7] = [] @ xs \<and> length xs \<le> 2"
  using channel_fifo [OF demo_channel_reachable] by blast

text \<open>
  Closing rejects new messages and drains the accepted ones: on a healthy reachable channel,
  after the receiver closes it every send is refused as disconnected, and receiving returns exactly
  the undelivered accepted messages in order and then reports disconnection.
\<close>
theorem channel_close_drains:
  assumes "channel_reach n c sent got" and "\<not> ch_poisoned c" and "\<not> cq_failed (ch_queue c)"
  shows "\<exists>c1. Sender_try_send (Receiver_close c) v = Inr (c1, Send_disconnected v) \<and>
    (\<exists>xs c2. sent = got @ xs \<and> recv_many (Suc (length xs)) c1 = Inr (c2, map Received xs @ [Disconnected]))"
proof -
  obtain xs where xs: "channel_holds n c xs" "sent = got @ xs" using channel_reach_holds [OF assms(1)] by blast
  have send: "Sender_try_send (Receiver_close c) v = Inr (Receiver_close c, Send_disconnected v)"
    using assms(2) by (simp add: Sender_try_send_def Receiver_close_def Channel_lock_def)
  have "channel_holds n (Receiver_close c) xs" "cq_closed (ch_queue (Receiver_close c))"
    "\<not> cq_failed (ch_queue (Receiver_close c))" "\<not> ch_poisoned (Receiver_close c)"
    using xs assms by (simp_all add: channel_holds_def Receiver_close_def)
  from closed_drains [OF this] send xs(2) show ?thesis by blast
qed

theorem channel_close_drains_witness:
  "\<exists>c1. Sender_try_send (Receiver_close (demo_channel 1)) 9 = Inr (c1, Send_disconnected 9) \<and>
    (\<exists>xs c2. [7] = [] @ xs \<and> recv_many (Suc (length xs)) c1 = Inr (c2, map Received xs @ [Disconnected]))"
  by (rule channel_close_drains [OF demo_channel_reachable]) simp_all

text \<open>
  A receiver waits only when there is nothing to return. Whatever other threads do between its
  wake-ups, a blocking receive that still waits has found its channel not failed, not closed, with a
  live sender and with no message queued.
\<close>
theorem blocked_receiver_idle:
  assumes "channel_reach n c sent got" and "Receiver_receive deadline ws c = Inr (c', None)"
  shows "\<not> cq_failed (ch_queue c') \<and> \<not> cq_closed (ch_queue c') \<and> cq_senders (ch_queue c') \<noteq> 0 \<and>
    Ring_iter (cq_messages (ch_queue c')) = Inr []"
proof -
  obtain xs where "channel_holds n c xs" using channel_reach_holds [OF assms(1)] by blast
  then have "channel_holds n (unlock c (Channel_lock c)) xs" by (simp add: channel_holds_def)
  then obtain q where q: "Queue_receive (ch_queue c') = Inr (q, Empty)" "channel_holds n c' []"
    using receive_loop_blocked assms(2) unfolding Receiver_receive_def by blast
  show ?thesis
    using Queue_receive_Empty [OF q(2,1)] Ring_iter_spec [of "cq_messages (ch_queue c')"] q(2) by (auto simp: channel_holds_def)
qed

abbreviation idle_channel :: "nat \<Rightarrow> nat Channel" where
  "idle_channel k \<equiv> \<lparr>ch_queue = \<lparr>cq_messages = \<lparr>rq_slots = [None], rq_head = 0, rq_len = 0\<rparr>,
     cq_senders = k, cq_closed = False, cq_failed = False\<rparr>, ch_poisoned = False\<rparr>"

theorem blocked_receiver_idle_witness:
  "Receiver_receive False [(False, [Op_clone])] (idle_channel 1) = Inr (idle_channel 2, None) \<and>
   Ring_iter (cq_messages (ch_queue (idle_channel 2))) = Inr []"
proof -
  have start: "channel_reach 1 (idle_channel 1) [] []"
    by (rule start) (simp add: Channel_bounded_def Ring_with_capacity_def)
  have run: "Receiver_receive False [(False, [Op_clone])] (idle_channel 1) = Inr (idle_channel 2, None)"
    by (simp add: Receiver_receive_def receive_loop.simps Queue_receive_def Channel_lock_def Ring_pop_front_def
        Ring_is_empty_def Let_def Sender_clone_def nchecked_add_def u64_max_def)
  show ?thesis using run blocked_receiver_idle [OF start run] by blast
qed

end
