(* ===== verification/Budget.thy ===== *)
theory Budget
  imports Prelude
begin

text \<open>
  The credit pools of \<^verbatim>\<open>core/src/budget.rs\<close>, the charging allocator of \<^verbatim>\<open>budget/allocator.rs\<close> and
  the charged shared owner of \<^verbatim>\<open>budget/shared.rs\<close>. The pools of a process are a store from addresses
  (the \<^verbatim>\<open>Arc\<close>) to budgets, so that leases of several shares can name the same host pool. The
  arithmetic of claim and release is unchecked in the source and wraps at 64 bits here.
\<close>

section \<open>Amounts and usage\<close>

record Amount =
  am_bytes :: nat
  am_requests :: nat

record Usage =
  us_current :: Amount
  us_peak :: Amount
  us_admitted :: nat
  us_released :: nat
  us_rejected :: nat

record Budget =
  bu_limit :: Amount
  bu_usage :: Usage

definition Amount_default :: Amount where
  "Amount_default = \<lparr>am_bytes = 0, am_requests = 0\<rparr>"

definition Budget_new :: "Amount \<Rightarrow> Budget" where
  "Budget_new limit = \<lparr>bu_limit = limit, bu_usage =
     \<lparr>us_current = Amount_default, us_peak = Amount_default, us_admitted = 0, us_released = 0, us_rejected = 0\<rparr>\<rparr>"

definition Budget_claim :: "Budget \<Rightarrow> Amount \<Rightarrow> Budget \<times> bool" where
  "Budget_claim b a =
     (let u = bu_usage b; cur = us_current u in
      if am_bytes a > wrapping_sub (am_bytes (bu_limit b)) (am_bytes cur)
         \<or> am_requests a > wrapping_sub (am_requests (bu_limit b)) (am_requests cur)
      then (b\<lparr>bu_usage := u\<lparr>us_rejected := saturating_add (us_rejected u) 1\<rparr>\<rparr>, False)
      else (let cur = \<lparr>am_bytes = wrapping_add (am_bytes cur) (am_bytes a),
                       am_requests = wrapping_add (am_requests cur) (am_requests a)\<rparr> in
            (b\<lparr>bu_usage := u\<lparr>us_current := cur,
               us_peak := \<lparr>am_bytes = max (am_bytes (us_peak u)) (am_bytes cur),
                           am_requests = max (am_requests (us_peak u)) (am_requests cur)\<rparr>,
               us_admitted := saturating_add (us_admitted u) 1\<rparr>\<rparr>, True)))"

definition Budget_release :: "Budget \<Rightarrow> Amount \<Rightarrow> Budget" where
  "Budget_release b a =
     (let u = bu_usage b; cur = us_current u in
      b\<lparr>bu_usage := u\<lparr>us_current := \<lparr>am_bytes = wrapping_sub (am_bytes cur) (am_bytes a),
                                        am_requests = wrapping_sub (am_requests cur) (am_requests a)\<rparr>,
                      us_released := saturating_add (us_released u) 1\<rparr>\<rparr>)"

section \<open>Leases and shares over a store of pools\<close>

type_synonym pools = "nat \<Rightarrow> Budget"

record Lease =
  le_budget :: nat
  le_amount :: Amount

definition Budget_reserve :: "pools \<Rightarrow> nat \<Rightarrow> Amount \<Rightarrow> pools \<times> Lease option" where
  "Budget_reserve w i a =
     (let (b, ok) = Budget_claim (w i) a in
      (w(i := b), if ok then Some \<lparr>le_budget = i, le_amount = a\<rparr> else None))"

definition Lease_drop :: "pools \<Rightarrow> Lease \<Rightarrow> pools" where
  "Lease_drop w l = w(le_budget l := Budget_release (w (le_budget l)) (le_amount l))"

record Share =
  sh_host :: nat
  sh_image :: nat

record Credits =
  cr_host :: Lease
  cr_image :: Lease

text \<open>When the image refuses, the early return drops the host lease already taken.\<close>

definition Share_reserve :: "pools \<Rightarrow> Share \<Rightarrow> Amount \<Rightarrow> pools \<times> Credits option" where
  "Share_reserve w s a = (case Budget_reserve w (sh_host s) a of
      (w, None) \<Rightarrow> (w, None)
    | (w, Some host) \<Rightarrow> (case Budget_reserve w (sh_image s) a of
        (w, None) \<Rightarrow> (Lease_drop w host, None)
      | (w, Some img) \<Rightarrow> (w, Some \<lparr>cr_host = host, cr_image = img\<rparr>)))"

definition Credits_drop :: "pools \<Rightarrow> Credits \<Rightarrow> pools" where
  "Credits_drop w c = Lease_drop (Lease_drop w (cr_host c)) (cr_image c)"

section \<open>The charging allocator\<close>

text \<open>\<open>global\<close> says whether the process allocator granted the layout.\<close>

definition Allocator_allocate :: "bool \<Rightarrow> Budget \<Rightarrow> nat \<Rightarrow> Budget \<times> bool" where
  "Allocator_allocate global b n =
     (let a = \<lparr>am_bytes = n, am_requests = 0\<rparr>; (b, ok) = Budget_claim b a in
      if \<not> ok then (b, False)
      else if global then (b, True) else (Budget_release b a, False))"

definition Allocator_deallocate :: "Budget \<Rightarrow> nat \<Rightarrow> Budget" where
  "Allocator_deallocate b n = Budget_release b \<lparr>am_bytes = n, am_requests = 0\<rparr>"

section \<open>The charged shared owner\<close>

definition round_up :: "nat \<Rightarrow> nat \<Rightarrow> nat" where
  "round_up n a = (n + a - 1) div a * a"

text \<open>
  \<^verbatim>\<open>Layout::extend\<close> then \<^verbatim>\<open>pad_to_align\<close> of the two reference counts followed by the charged value,
  whose size and alignment are given; \<open>None\<close> is a layout that exceeds the address space.
\<close>

definition arc_layout :: "nat \<Rightarrow> nat \<Rightarrow> nat option" where
  "arc_layout sz align =
     (let align' = max 8 align; total = round_up 16 align + sz in
      if total \<le> (2 ^ 63 - 1) - (align' - 1) then Some (round_up total align') else None)"

record 'a Charged =
  cg_value :: 'a
  cg_lease :: Lease
  cg_strong :: nat

definition BudgetArc_try_new :: "nat \<Rightarrow> nat \<Rightarrow> pools \<Rightarrow> nat \<Rightarrow> 'a \<Rightarrow> pools \<times> 'a Charged result" where
  "BudgetArc_try_new sz align w i v = (case arc_layout sz align of
      None \<Rightarrow> (w, Inl (InvalidInput ''''))
    | Some n \<Rightarrow> (case Budget_reserve w i \<lparr>am_bytes = n, am_requests = 0\<rparr> of
        (w, None) \<Rightarrow> (w, Inl (OutOfMemory ''''))
      | (w, Some l) \<Rightarrow> (w, Inr \<lparr>cg_value = v, cg_lease = l, cg_strong = 1\<rparr>)))"

definition BudgetArc_get_mut :: "('a \<Rightarrow> 'a) \<Rightarrow> 'a Charged \<Rightarrow> 'a Charged" where
  "BudgetArc_get_mut f c = (if cg_strong c = 1 then c\<lparr>cg_value := f (cg_value c)\<rparr> else c)"

definition BudgetArc_clone :: "'a Charged \<Rightarrow> 'a Charged" where
  "BudgetArc_clone c = c\<lparr>cg_strong := cg_strong c + 1\<rparr>"

text \<open>Exactly the last owner obtains the charged value and drops its lease.\<close>

definition BudgetArc_drop :: "pools \<Rightarrow> 'a Charged \<Rightarrow> pools \<times> 'a Charged option" where
  "BudgetArc_drop w c =
     (if cg_strong c = 1 then (Lease_drop w (cg_lease c), None) else (w, Some (c\<lparr>cg_strong := cg_strong c - 1\<rparr>)))"

section \<open>Exactness of claim and release\<close>

abbreviation current :: "Budget \<Rightarrow> Amount" where
  "current b \<equiv> us_current (bu_usage b)"

definition within :: "Amount \<Rightarrow> Amount \<Rightarrow> bool" where
  "within a b \<longleftrightarrow> am_bytes a \<le> am_bytes b \<and> am_requests a \<le> am_requests b"

definition plus_amount :: "Amount \<Rightarrow> Amount \<Rightarrow> Amount" where
  "plus_amount a b = \<lparr>am_bytes = am_bytes a + am_bytes b, am_requests = am_requests a + am_requests b\<rparr>"

definition Budget_ok :: "Budget \<Rightarrow> bool" where
  "Budget_ok b \<longleftrightarrow> within (current b) (us_peak (bu_usage b)) \<and> within (us_peak (bu_usage b)) (bu_limit b) \<and>
     within (bu_limit b) \<lparr>am_bytes = u64_max, am_requests = u64_max\<rparr>"

lemma Budget_new_ok: "within limit \<lparr>am_bytes = u64_max, am_requests = u64_max\<rparr> \<Longrightarrow> Budget_ok (Budget_new limit)"
  by (simp add: Budget_ok_def Budget_new_def within_def Amount_default_def)

lemma Budget_claim_spec:
  assumes ok: "Budget_ok b" and c: "Budget_claim b a = (b', granted)"
  shows "granted \<longleftrightarrow> within (plus_amount (current b) a) (bu_limit b)"
    and "current b' = (if granted then plus_amount (current b) a else current b)"
    and "Budget_ok b'" and "bu_limit b' = bu_limit b"
proof -
  have le: "am_bytes (current b) \<le> am_bytes (bu_limit b)" "am_requests (current b) \<le> am_requests (bu_limit b)"
    "am_bytes (bu_limit b) \<le> u64_max" "am_requests (bu_limit b) \<le> u64_max"
    using ok by (auto simp: Budget_ok_def within_def)
  note exact = wrapping_sub_exact [OF le(1,3)] wrapping_sub_exact [OF le(2,4)]
  show g: "granted \<longleftrightarrow> within (plus_amount (current b) a) (bu_limit b)"
    using c le by (auto simp: Budget_claim_def Let_def exact within_def plus_amount_def split: if_splits)
  have cur: "current b' = plus_amount (current b) a" if granted
  proof -
    have "am_bytes (current b) + am_bytes a \<le> u64_max" "am_requests (current b) + am_requests a \<le> u64_max"
      using g that le by (auto simp: within_def plus_amount_def)
    then show ?thesis
      using c that by (auto simp: Budget_claim_def Let_def plus_amount_def wrapping_add_exact split: if_splits)
  qed
  then show "current b' = (if granted then plus_amount (current b) a else current b)"
    using c by (auto simp: Budget_claim_def Let_def split: if_splits)
  show "bu_limit b' = bu_limit b" using c by (auto simp: Budget_claim_def Let_def split: if_splits)
  show "Budget_ok b'"
  proof (cases granted)
    case True
    have "us_peak (bu_usage b') = \<lparr>am_bytes = max (am_bytes (us_peak (bu_usage b))) (am_bytes (current b')),
        am_requests = max (am_requests (us_peak (bu_usage b))) (am_requests (current b'))\<rparr>" "bu_limit b' = bu_limit b"
      using c True by (auto simp: Budget_claim_def Let_def split: if_splits)
    then show ?thesis using g True ok cur by (auto simp: Budget_ok_def within_def)
  next
    case False
    then show ?thesis using c ok by (auto simp: Budget_claim_def Let_def Budget_ok_def split: if_splits)
  qed
qed

lemma Budget_release_spec:
  assumes ok: "Budget_ok b" and le: "within a (current b)"
  shows "plus_amount (current (Budget_release b a)) a = current b"
    and "Budget_ok (Budget_release b a)" and "bu_limit (Budget_release b a) = bu_limit b"
proof -
  have "am_bytes a \<le> am_bytes (current b)" "am_requests a \<le> am_requests (current b)"
    "am_bytes (current b) \<le> u64_max" "am_requests (current b) \<le> u64_max"
    using ok le by (auto simp: Budget_ok_def within_def)
  note exact = wrapping_sub_exact [OF this(1,3)] wrapping_sub_exact [OF this(2,4)]
  show "plus_amount (current (Budget_release b a)) a = current b"
    using le by (simp add: Budget_release_def Let_def exact plus_amount_def within_def)
  show "Budget_ok (Budget_release b a)"
    using ok by (auto simp: Budget_release_def Let_def exact Budget_ok_def within_def)
  show "bu_limit (Budget_release b a) = bu_limit b" by (simp add: Budget_release_def Let_def)
qed

lemma plus_amount_inject: "plus_amount x a = plus_amount y a \<Longrightarrow> x = (y :: Amount)"
  by (simp add: plus_amount_def)

lemma claim_release:
  assumes "Budget_ok b" and "Budget_claim b a = (b', True)"
  shows "current (Budget_release b' a) = current b \<and> Budget_ok (Budget_release b' a) \<and> bu_limit (Budget_release b' a) = bu_limit b"
proof -
  note s = Budget_claim_spec [OF assms]
  have "within a (current b')" using s(2) by (simp add: within_def plus_amount_def)
  note r = Budget_release_spec [OF s(3) this]
  show ?thesis using r s plus_amount_inject by metis
qed

section \<open>All interleavings of leases\<close>

text \<open>
  Each claim and each release is one critical section, so every interleaving of the threads that
  use shares, allocators and shared owners is a sequence of these steps; the third component is the
  collection of outstanding leases.
\<close>

inductive budget_reach :: "(nat \<Rightarrow> Amount) \<Rightarrow> pools \<Rightarrow> Lease list \<Rightarrow> bool" for limits where
  start: "budget_reach limits (\<lambda>i. Budget_new (limits i)) []"
| granted: "budget_reach limits w ls \<Longrightarrow> Budget_reserve w i a = (w', Some l) \<Longrightarrow> budget_reach limits w' (l # ls)"
| refused: "budget_reach limits w ls \<Longrightarrow> Budget_reserve w i a = (w', None) \<Longrightarrow> budget_reach limits w' ls"
| dropped: "budget_reach limits w ls \<Longrightarrow> l \<in> set ls \<Longrightarrow> budget_reach limits (Lease_drop w l) (remove1 l ls)"

definition held :: "nat \<Rightarrow> Lease list \<Rightarrow> Amount" where
  "held i ls = foldr (\<lambda>l acc. if le_budget l = i then plus_amount acc (le_amount l) else acc) ls Amount_default"

lemma held_Nil [simp]: "held i [] = Amount_default"
  by (simp add: held_def)

lemma held_Cons [simp]: "held i (l # ls) = (if le_budget l = i then plus_amount (held i ls) (le_amount l) else held i ls)"
  by (simp add: held_def)

lemma plus_amount_swap: "plus_amount (plus_amount x a) b = plus_amount (plus_amount x b) a"
  by (simp add: plus_amount_def)

lemma held_remove1: "l \<in> set ls \<Longrightarrow>
  held i ls = (if le_budget l = i then plus_amount (held i (remove1 l ls)) (le_amount l) else held i (remove1 l ls))"
  by (induction ls) (auto simp: plus_amount_swap)

lemma within_plus: "within a (plus_amount x a)"
  by (simp add: within_def plus_amount_def)

definition pools_ok :: "(nat \<Rightarrow> Amount) \<Rightarrow> pools \<Rightarrow> Lease list \<Rightarrow> bool" where
  "pools_ok limits w ls \<longleftrightarrow> (\<forall>i. Budget_ok (w i) \<and> bu_limit (w i) = limits i \<and> current (w i) = held i ls)"

lemma Budget_reserve_spec:
  assumes "pools_ok limits w ls" and "Budget_reserve w i a = (w', r)"
  shows "r = (if within (plus_amount (current (w i)) a) (limits i) then Some \<lparr>le_budget = i, le_amount = a\<rparr> else None)"
    and "pools_ok limits w' (case r of None \<Rightarrow> ls | Some l \<Rightarrow> l # ls)"
proof -
  obtain b ok where b: "Budget_claim (w i) a = (b, ok)" by (rule prod.exhaust)
  have w: "Budget_ok (w i)" "bu_limit (w i) = limits i" using assms(1) by (auto simp: pools_ok_def)
  note s = Budget_claim_spec [OF w(1) b]
  have res: "w' = w(i := b)" "r = (if ok then Some \<lparr>le_budget = i, le_amount = a\<rparr> else None)"
    using assms(2) b by (auto simp: Budget_reserve_def)
  show "r = (if within (plus_amount (current (w i)) a) (limits i) then Some \<lparr>le_budget = i, le_amount = a\<rparr> else None)"
    using res s(1) w(2) by simp
  show "pools_ok limits w' (case r of None \<Rightarrow> ls | Some l \<Rightarrow> l # ls)"
    using assms(1) res s w(2) by (auto simp: pools_ok_def)
qed

lemma Lease_drop_spec:
  assumes "pools_ok limits w ls" and "l \<in> set ls"
  shows "pools_ok limits (Lease_drop w l) (remove1 l ls)"
proof -
  let ?i = "le_budget l"
  have w: "Budget_ok (w ?i)" "current (w ?i) = plus_amount (held ?i (remove1 l ls)) (le_amount l)"
    using assms held_remove1 [OF assms(2), of ?i] by (auto simp: pools_ok_def)
  have "within (le_amount l) (current (w ?i))" unfolding w(2) by (rule within_plus)
  note r = Budget_release_spec [OF w(1) this]
  have "current (Budget_release (w ?i) (le_amount l)) = held ?i (remove1 l ls)"
    using r(1) w(2) plus_amount_inject by metis
  then show ?thesis
    using assms r held_remove1 [OF assms(2)] by (auto simp: pools_ok_def Lease_drop_def)
qed

lemma budget_reach_ok:
  assumes "budget_reach limits w ls" and "\<And>i. within (limits i) \<lparr>am_bytes = u64_max, am_requests = u64_max\<rparr>"
  shows "pools_ok limits w ls"
  using assms(1)
proof (induction rule: budget_reach.induct)
  case start
  then show ?case
    using Budget_new_ok [OF assms(2)] by (simp add: pools_ok_def) (simp add: Budget_new_def)
next
  case (granted w ls i a w' l)
  then show ?case using Budget_reserve_spec(2) [OF granted.IH granted.hyps(2)] by simp
next
  case (refused w ls i a w')
  then show ?case using Budget_reserve_spec(2) [OF refused.IH refused.hyps(2)] by simp
next
  case (dropped w ls l)
  then show ?case by (simp add: Lease_drop_spec)
qed

section \<open>Properties\<close>

text \<open>
  C17. Credits are never manufactured and never lost. In every state reachable by any interleaving
  of reservations and drops, each pool's current usage is exactly the sum of its outstanding leases
  (the unchecked subtractions never wrap) and stays within its peak and its limit.
\<close>
theorem budget_accounts_leases:
  assumes "budget_reach limits w ls" and "\<And>i. within (limits i) \<lparr>am_bytes = u64_max, am_requests = u64_max\<rparr>"
  shows "current (w i) = held i ls \<and> within (current (w i)) (us_peak (bu_usage (w i))) \<and>
    within (us_peak (bu_usage (w i))) (limits i)"
  using budget_reach_ok [OF assms] unfolding pools_ok_def Budget_ok_def by metis

abbreviation demo_limits :: "nat \<Rightarrow> Amount" where
  "demo_limits i \<equiv> (if i = 0 then \<lparr>am_bytes = 128, am_requests = 8\<rparr> else \<lparr>am_bytes = 64, am_requests = 2\<rparr>)"

lemma demo_limits_ok: "within (demo_limits i) \<lparr>am_bytes = u64_max, am_requests = u64_max\<rparr>"
  by (simp add: within_def u64_max_def)

theorem budget_accounts_leases_witness:
  "\<exists>w. current (w 0) = held 0 [\<lparr>le_budget = 0, le_amount = \<lparr>am_bytes = 40, am_requests = 1\<rparr>\<rparr>] \<and> within (current (w 0)) (us_peak (bu_usage (w 0))) \<and>
    within (us_peak (bu_usage (w 0))) (demo_limits 0)"
proof -
  let ?w = "\<lambda>i. Budget_new (demo_limits i)" and ?a = "\<lparr>am_bytes = 40, am_requests = 1\<rparr>"
  obtain w' r where r: "Budget_reserve ?w 0 ?a = (w', r)" by (rule prod.exhaust)
  have "r = Some \<lparr>le_budget = 0, le_amount = ?a\<rparr>"
    using Budget_reserve_spec(1) [OF budget_reach_ok [OF start demo_limits_ok] r]
    by (simp add: Budget_new_def Amount_default_def within_def plus_amount_def)
  then have "budget_reach demo_limits w' [\<lparr>le_budget = 0, le_amount = ?a\<rparr>]"
    using granted [OF start, of demo_limits 0 ?a w'] r by simp
  from budget_accounts_leases [OF this demo_limits_ok, of 0] show ?thesis by (intro exI)
qed

text \<open>
  An image reservation is all or nothing. In any reachable state, a share's reservation
  succeeds exactly when the amount fits both the host's and the image's remaining credit and then
  charges both; otherwise every pool's usage is what it was, the host credit being given back.
\<close>
theorem share_reserve_atomic:
  assumes "budget_reach limits w ls" and "\<And>i. within (limits i) \<lparr>am_bytes = u64_max, am_requests = u64_max\<rparr>"
    and "sh_host s \<noteq> sh_image s" and "Share_reserve w s a = (w', r)"
  shows "(r \<noteq> None \<longleftrightarrow> within (plus_amount (current (w (sh_host s))) a) (limits (sh_host s)) \<and>
      within (plus_amount (current (w (sh_image s))) a) (limits (sh_image s))) \<and>
    (\<forall>i. current (w' i) = (if r \<noteq> None \<and> i \<in> {sh_host s, sh_image s} then plus_amount (current (w i)) a else current (w i)))"
proof -
  note ok = budget_reach_ok [OF assms(1,2)]
  obtain w1 r1 where h: "Budget_reserve w (sh_host s) a = (w1, r1)" by (rule prod.exhaust)
  note hs = Budget_reserve_spec [OF ok h]
  have cur: "pools_ok limits v ks \<Longrightarrow> current (v i) = held i ks" for v ks i by (simp add: pools_ok_def)
  show ?thesis
  proof (cases r1)
    case None
    then have "w' = w1" "r = None" using h assms(4) by (auto simp: Share_reserve_def)
    then show ?thesis using hs None cur [OF ok] cur [of w1 ls] by (auto split: if_splits)
  next
    case (Some l)
    have l: "l = \<lparr>le_budget = sh_host s, le_amount = a\<rparr>" "within (plus_amount (current (w (sh_host s))) a) (limits (sh_host s))"
      using hs(1) Some by (auto split: if_splits)
    have ok1: "pools_ok limits w1 (l # ls)" using hs(2) Some by simp
    obtain w2 r2 where m: "Budget_reserve w1 (sh_image s) a = (w2, r2)" by (rule prod.exhaust)
    note ms = Budget_reserve_spec [OF ok1 m]
    have same: "current (w1 (sh_image s)) = current (w (sh_image s))"
      using cur [OF ok1] cur [OF ok] l(1) assms(3) by simp
    show ?thesis
    proof (cases r2)
      case None
      have "pools_ok limits (Lease_drop w2 l) ls" using Lease_drop_spec [of limits w2 "l # ls" l] ms(2) None by simp
      moreover have "w' = Lease_drop w2 l" "r = None" using h m Some None assms(4) by (auto simp: Share_reserve_def)
      ultimately show ?thesis using cur [OF ok] cur [of "Lease_drop w2 l" ls] ms(1) None same by (auto split: if_splits)
    next
      case (Some k)
      have k: "k = \<lparr>le_budget = sh_image s, le_amount = a\<rparr>" "pools_ok limits w2 (k # l # ls)"
        using ms Some by (auto split: if_splits)
      have "w' = w2" "r \<noteq> None" using h m \<open>r1 = Some l\<close> Some assms(4) by (auto simp: Share_reserve_def)
      then show ?thesis
        using l k cur [OF ok] cur [OF k(2)] ms(1) Some same assms(3) by (auto split: if_splits)
    qed
  qed
qed

theorem share_reserve_atomic_witness:
  "\<exists>w' r. Share_reserve (\<lambda>i. Budget_new (demo_limits i)) \<lparr>sh_host = 0, sh_image = 1\<rparr> \<lparr>am_bytes = 100, am_requests = 1\<rparr> = (w', r) \<and>
     r = None \<and> current (w' 0) = Amount_default"
proof -
  let ?w = "\<lambda>i. Budget_new (demo_limits i)" and ?a = "\<lparr>am_bytes = 100, am_requests = 1\<rparr>"
  obtain w' r where r: "Share_reserve ?w \<lparr>sh_host = 0, sh_image = 1\<rparr> ?a = (w', r)" by (rule prod.exhaust)
  have none: "r = None"
    using share_reserve_atomic [OF start demo_limits_ok _ r]
    by (auto simp: Budget_new_def Amount_default_def within_def plus_amount_def)
  then have "current (w' 0) = current (?w 0)" using share_reserve_atomic [OF start demo_limits_ok _ r] by simp
  then show ?thesis using r none by (simp add: Budget_new_def)
qed

section \<open>Owners of a shared allocation\<close>

datatype arc_op = Arc_clone | Arc_drop

text \<open>Operations of the remaining owners; there are none once the allocation is freed.\<close>

fun arc_run :: "arc_op list \<Rightarrow> pools \<Rightarrow> 'a Charged option \<Rightarrow> pools \<times> 'a Charged option" where
  "arc_run [] w c = (w, c)"
| "arc_run (p # ps) w None = (w, None)"
| "arc_run (Arc_clone # ps) w (Some c) = arc_run ps w (Some (BudgetArc_clone c))"
| "arc_run (Arc_drop # ps) w (Some c) = (let (w, c) = BudgetArc_drop w c in arc_run ps w c)"

text \<open>The number of owners left, or \<open>None\<close> once it has reached zero.\<close>

fun owners :: "arc_op list \<Rightarrow> nat \<Rightarrow> nat option" where
  "owners [] n = Some n"
| "owners (Arc_clone # ps) n = owners ps (n + 1)"
| "owners (Arc_drop # ps) n = (if n = 1 then None else owners ps (n - 1))"

lemma arc_run_freed [simp]: "arc_run ps w None = (w, None)"
  by (cases ps) auto

lemma arc_run_owners:
  "0 < cg_strong c \<Longrightarrow> arc_run ps w (Some c) = (case owners ps (cg_strong c) of
      None \<Rightarrow> (Lease_drop w (cg_lease c), None)
    | Some n \<Rightarrow> (w, Some (c\<lparr>cg_strong := n\<rparr>)))"
  by (induction ps "cg_strong c" arbitrary: c rule: owners.induct)
    (auto simp: BudgetArc_clone_def BudgetArc_drop_def split: option.splits)

text \<open>
  A shared allocation stays charged until its last owner is gone, and is released once. After
  any sequence of clones and drops the pool is charged the allocation's layout exactly while an
  owner is left, and the credit is back where it was when none is.
\<close>
theorem shared_allocation_charged_while_owned:
  assumes "budget_reach limits w ls" and "\<And>i. within (limits i) \<lparr>am_bytes = u64_max, am_requests = u64_max\<rparr>"
    and "BudgetArc_try_new sz align w i v = (w1, Inr c)" and "arc_run ps w1 (Some c) = (w2, c')"
  shows "\<exists>n. arc_layout sz align = Some n \<and> map_option cg_strong c' = owners ps 1 \<and>
    current (w2 i) = (if c' = None then current (w i) else plus_amount (current (w i)) \<lparr>am_bytes = n, am_requests = 0\<rparr>)"
proof -
  note ok = budget_reach_ok [OF assms(1,2)]
  obtain n where n: "arc_layout sz align = Some n" using assms(3) by (auto simp: BudgetArc_try_new_def split: option.splits)
  obtain r where r: "Budget_reserve w i \<lparr>am_bytes = n, am_requests = 0\<rparr> = (w1, Some r)" "c = \<lparr>cg_value = v, cg_lease = r, cg_strong = 1\<rparr>"
    using assms(3) n by (auto simp: BudgetArc_try_new_def split: option.splits prod.splits)
  note s = Budget_reserve_spec [OF ok r(1)]
  have lease: "r = \<lparr>le_budget = i, le_amount = \<lparr>am_bytes = n, am_requests = 0\<rparr>\<rparr>" using s(1) by (auto split: if_splits)
  have w1: "pools_ok limits w1 (r # ls)" and w2: "pools_ok limits (Lease_drop w1 r) ls"
    using s(2) Lease_drop_spec [of limits w1 "r # ls" r] by auto
  have cur: "pools_ok limits u ks \<Longrightarrow> current (u i) = held i ks" for u ks by (simp add: pools_ok_def)
  have run: "arc_run ps w1 (Some c) = (case owners ps 1 of None \<Rightarrow> (Lease_drop w1 r, None) | Some n \<Rightarrow> (w1, Some (c\<lparr>cg_strong := n\<rparr>)))"
    using arc_run_owners [of c ps w1] r(2) by (simp split: option.splits)
  show ?thesis
    using run assms(4) n cur [OF ok] cur [OF w1] cur [OF w2] lease by (auto split: option.splits)
qed

theorem shared_allocation_charged_while_owned_witness:
  "\<exists>w1 c w2. BudgetArc_try_new 24 8 (\<lambda>i. Budget_new (demo_limits i)) 0 True = (w1, Inr c) \<and>
     arc_run [Arc_clone, Arc_drop, Arc_drop] w1 (Some c) = (w2, None) \<and> current (w2 0) = Amount_default"
proof -
  let ?w = "\<lambda>i. Budget_new (demo_limits i)"
  have new: "\<exists>w1 c. BudgetArc_try_new 24 8 ?w 0 True = (w1, Inr c) \<and> cg_strong c = 1"
    by (simp add: BudgetArc_try_new_def arc_layout_def round_up_def Budget_reserve_def Budget_claim_def Budget_new_def
        Amount_default_def wrapping_sub_def Let_def)
  then obtain w1 c where c: "BudgetArc_try_new 24 8 ?w 0 True = (w1, Inr c)" "cg_strong c = 1" by blast
  obtain w2 c' where run: "arc_run [Arc_clone, Arc_drop, Arc_drop] w1 (Some c) = (w2, c')" by (rule prod.exhaust)
  from shared_allocation_charged_while_owned [OF start demo_limits_ok c(1) run]
  have "c' = None" "current (w2 0) = current (?w 0)" by auto
  then show ?thesis using c(1) run by (auto simp: Budget_new_def)
qed

end
