(* ===== verification/Scheduler.thy ===== *)
theory Scheduler
  imports Prelude
begin

text \<open>
  The bulk submission scheduler of \<^verbatim>\<open>core/src/scheduler.rs\<close>: images compete in round-robin order
  for demand opportunities, and every fourth opportunity belongs to background compaction; an unused
  opportunity is lent to the other side. The blocking background wait is modelled with its wake-ups
  and the port operations that ran meanwhile; the eventfd write of \<^verbatim>\<open>notify\<close> is an outcome flag.
\<close>

section \<open>State\<close>

datatype Selected = Demand nat | Background

record Image =
  im_ready :: bool
  im_wake :: bool

record SchedCounters =
  sc_demand :: nat
  sc_background :: nat
  sc_borrowed_demand :: nat
  sc_borrowed_background :: nat
  sc_demand_bytes :: nat
  sc_background_bytes :: nat

record Sched =
  sd_images :: "Image list"
  sd_next_image :: nat
  sd_opportunity :: nat
  sd_background_ready :: bool
  sd_counters :: SchedCounters

definition Scheduler_new :: "bool \<Rightarrow> nat \<Rightarrow> Sched result" where
  "Scheduler_new granted n =
     ensure (n \<noteq> 0) (InvalidInput '''') (ensure granted (OutOfMemory '''')
       (Inr \<lparr>sd_images = replicate n \<lparr>im_ready = False, im_wake = False\<rparr>, sd_next_image = 0, sd_opportunity = 0,
             sd_background_ready = False,
             sd_counters = \<lparr>sc_demand = 0, sc_background = 0, sc_borrowed_demand = 0, sc_borrowed_background = 0,
                            sc_demand_bytes = 0, sc_background_bytes = 0\<rparr>\<rparr>))"

section \<open>Selection and grant\<close>

definition State_selected :: "Sched \<Rightarrow> Selected option" where
  "State_selected s =
     (let n = length (sd_images s);
          demand = map_option Demand (find (\<lambda>i. im_ready (sd_images s ! i))
            (map (\<lambda>offset. (sd_next_image s + offset) mod n) [0..<n])) in
      if sd_background_ready s \<and> (sd_opportunity s = 0 \<or> demand = None) then Some Background else demand)"

definition set_ready :: "nat \<Rightarrow> bool \<Rightarrow> Sched \<Rightarrow> Sched" where
  "set_ready i r s = s\<lparr>sd_images := (sd_images s)[i := (sd_images s ! i)\<lparr>im_ready := r\<rparr>]\<rparr>"

definition State_grant :: "Sched \<Rightarrow> Selected \<Rightarrow> nat \<Rightarrow> Sched result" where
  "State_grant s sel bytes =
     attempt (case sel of
         Demand i \<Rightarrow> ensure (i < length (sd_images s)) (Panic ''index out of bounds'')
           (Inr ((set_ready i False s)\<lparr>sd_next_image := (i + 1) mod length (sd_images s),
              sd_counters := (sd_counters s)\<lparr>sc_demand := wrapping_add (sc_demand (sd_counters s)) 1,
                sc_demand_bytes := wrapping_add (sc_demand_bytes (sd_counters s)) bytes,
                sc_borrowed_demand := wrapping_add (sc_borrowed_demand (sd_counters s)) (if sd_opportunity s = 0 then 1 else 0)\<rparr>\<rparr>))
       | Background \<Rightarrow>
           Inr (s\<lparr>sd_background_ready := False,
              sd_counters := (sd_counters s)\<lparr>sc_background := wrapping_add (sc_background (sd_counters s)) 1,
                sc_background_bytes := wrapping_add (sc_background_bytes (sd_counters s)) bytes,
                sc_borrowed_background := wrapping_add (sc_borrowed_background (sd_counters s)) (if sd_opportunity s \<noteq> 0 then 1 else 0)\<rparr>\<rparr>))
       (\<lambda>s'. Inr (s'\<lparr>sd_opportunity := (sd_opportunity s + 1) mod 4\<rparr>))"

section \<open>Ports and the background owner\<close>

definition Scheduler_bind :: "Sched \<Rightarrow> nat \<Rightarrow> Sched result" where
  "Scheduler_bind s i =
     ensure (i < length (sd_images s)) (InvalidInput '''')
       (ensure (\<not> im_wake (sd_images s ! i)) (Other ''duplicate IO scheduler binding'')
         (Inr (s\<lparr>sd_images := (sd_images s)[i := (sd_images s ! i)\<lparr>im_wake := True\<rparr>]\<rparr>)))"

definition Scheduler_port :: "Sched \<Rightarrow> nat \<Rightarrow> nat result" where
  "Scheduler_port s i = (if i \<ge> length (sd_images s) then Inl (InvalidInput '''') else Inr i)"

definition Scheduler_status :: "Sched \<Rightarrow> SchedCounters \<times> nat \<times> bool" where
  "Scheduler_status s = (sd_counters s, length (filter im_ready (sd_images s)), sd_background_ready s)"

text \<open>\<open>ok\<close> is the outcome of the eventfd write, needed when a bound image is selected.\<close>

definition Scheduler_notify :: "bool \<Rightarrow> Sched \<Rightarrow> unit result" where
  "Scheduler_notify ok s = (case State_selected s of
      Some Background \<Rightarrow> Inr ()
    | Some (Demand i) \<Rightarrow> if im_wake (sd_images s ! i) \<and> \<not> ok then Inl (Other ''eventfd'') else Inr ()
    | None \<Rightarrow> Inr ())"

definition Port_ready :: "bool \<Rightarrow> Sched \<Rightarrow> nat \<Rightarrow> bool \<Rightarrow> (Sched \<times> unit result) result" where
  "Port_ready ok s i r =
     ensure (i < length (sd_images s)) (Panic ''index out of bounds'')
       (let s = set_ready i r s in Inr (s, Scheduler_notify ok s))"

definition Port_take :: "bool \<Rightarrow> Sched \<Rightarrow> nat \<Rightarrow> nat \<Rightarrow> bool \<Rightarrow> (Sched \<times> bool result) result" where
  "Port_take ok s i bytes more_ready =
     (if State_selected s \<noteq> Some (Demand i) then Inr (s, Inr False)
      else attempt (State_grant s (Demand i) bytes) (\<lambda>s.
           let s = set_ready i more_ready s in
           Inr (s, attempt (Scheduler_notify ok s) (\<lambda>_. Inr True))))"

text \<open>
  The background wait: registration, then a loop that takes the grant when background is selected,
  gives up at the deadline, and otherwise wakes the selected image and waits. Each element of the
  list drives one iteration: the clock reading, the outcome of the eventfd write, and the port
  operations that ran if it waited; the result \<open>None\<close> is an owner that still waits.
\<close>

datatype port_op = Op_ready nat bool | Op_take nat nat bool

definition run_port :: "port_op \<Rightarrow> Sched \<Rightarrow> Sched result" where
  "run_port p s = (case p of
      Op_ready i r \<Rightarrow> attempt (Port_ready True s i r) (\<lambda>(s, _). Inr s)
    | Op_take i n m \<Rightarrow> attempt (Port_take True s i n m) (\<lambda>(s, _). Inr s))"

primrec run_ports :: "port_op list \<Rightarrow> Sched \<Rightarrow> Sched result" where
  "run_ports [] s = Inr s"
| "run_ports (p # ps) s = attempt (run_port p s) (run_ports ps)"

fun background_loop :: "(bool \<times> bool \<times> port_op list) list \<Rightarrow> nat \<Rightarrow> Sched \<Rightarrow> (Sched \<times> unit result option) result" where
  "background_loop [] bytes s = Inr (s, None)"
| "background_loop ((expired, ok, others) # ws) bytes s =
     (if State_selected s = Some Background then attempt (State_grant s Background bytes) (\<lambda>s. Inr (s, Some (Scheduler_notify ok s)))
      else if expired then
        (let s = s\<lparr>sd_background_ready := False\<rparr> in
         Inr (s, Some (attempt (Scheduler_notify ok s) (\<lambda>_. Inl (Other ''background IO submission deadline expired'')))))
      else (case Scheduler_notify ok s of
          Inl e \<Rightarrow> Inr (s\<lparr>sd_background_ready := False\<rparr>, Some (Inl e))
        | Inr _ \<Rightarrow> attempt (run_ports others s) (background_loop ws bytes)))"

definition wait_background :: "(bool \<times> bool \<times> port_op list) list \<Rightarrow> nat \<Rightarrow> Sched \<Rightarrow> (Sched \<times> unit result option) result" where
  "wait_background ws bytes s =
     (if sd_background_ready s then Inr (s, Some (Inl (Other ''more than one compaction IO owner'')))
      else background_loop ws bytes (s\<lparr>sd_background_ready := True\<rparr>))"

section \<open>The selected owner\<close>

definition Sched_inv :: "Sched \<Rightarrow> bool" where
  "Sched_inv s \<longleftrightarrow> sd_images s \<noteq> [] \<and> sd_next_image s < length (sd_images s) \<and> sd_opportunity s < 4"

text \<open>Image \<open>i\<close> is \<open>d\<close> positions after the next image in round-robin order.\<close>

definition at_distance :: "Sched \<Rightarrow> nat \<Rightarrow> nat \<Rightarrow> bool" where
  "at_distance s i d \<longleftrightarrow> d < length (sd_images s) \<and> i = (sd_next_image s + d) mod length (sd_images s)"

lemma Scheduler_new_inv: "Scheduler_new granted n = Inr s \<Longrightarrow> Sched_inv s \<and> length (sd_images s) = n"
  by (auto simp: Scheduler_new_def Sched_inv_def)

lemma at_distance_exists: "Sched_inv s \<Longrightarrow> i < length (sd_images s) \<Longrightarrow> \<exists>d. at_distance s i d"
proof -
  assume s: "Sched_inv s" and i: "i < length (sd_images s)"
  let ?n = "length (sd_images s)" and ?d = "(i + length (sd_images s) - sd_next_image s) mod length (sd_images s)"
  have "(sd_next_image s + ?d) mod ?n = (sd_next_image s + (i + ?n - sd_next_image s)) mod ?n"
    by (rule mod_add_right_eq)
  also have "\<dots> = i" using s i by (simp add: Sched_inv_def)
  finally have "at_distance s i ?d" using i by (simp add: at_distance_def mod_less_divisor [OF order_le_less_trans [OF le0 i]])
  then show ?thesis by blast
qed

text \<open>A selected image is the first ready one, so it is no farther than any ready image.\<close>

lemma selected_demand:
  assumes "State_selected s = Some (Demand j)"
  obtains d where "at_distance s j d" "j < length (sd_images s)" "im_ready (sd_images s ! j)"
    "\<And>i e. im_ready (sd_images s ! i) \<Longrightarrow> at_distance s i e \<Longrightarrow> d \<le> e"
    "sd_background_ready s \<Longrightarrow> sd_opportunity s \<noteq> 0"
proof -
  let ?n = "length (sd_images s)"
  let ?f = "map (\<lambda>offset. (sd_next_image s + offset) mod ?n) [0..<?n]"
  have "find (\<lambda>i. im_ready (sd_images s ! i)) ?f = Some j" and bg: "sd_background_ready s \<Longrightarrow> sd_opportunity s \<noteq> 0"
    using assms by (auto simp: State_selected_def Let_def split: if_splits)
  then obtain d where d: "d < ?n" "j = (sd_next_image s + d) mod ?n" "im_ready (sd_images s ! j)"
    "\<And>e. e < d \<Longrightarrow> \<not> im_ready (sd_images s ! ((sd_next_image s + e) mod ?n))"
    by (auto simp: find_Some_iff)
  have "d \<le> e" if "im_ready (sd_images s ! i)" "at_distance s i e" for i e
    using that d(4) [of e] by (auto simp: at_distance_def not_le [symmetric])
  moreover have "j < ?n" using d by (metis less_nat_zero_code mod_less_divisor neq0_conv)
  ultimately show ?thesis using that d bg by (auto simp: at_distance_def)
qed

lemma selected_background:
  assumes "State_selected s = Some Background" and "Sched_inv s"
  shows "sd_background_ready s"
    and "i < length (sd_images s) \<Longrightarrow> im_ready (sd_images s ! i) \<Longrightarrow> sd_opportunity s = 0"
proof -
  let ?n = "length (sd_images s)"
  show "sd_background_ready s" using assms(1) by (auto simp: State_selected_def Let_def split: if_splits)
  assume i: "i < ?n" "im_ready (sd_images s ! i)"
  obtain d where d: "d < ?n" "i = (sd_next_image s + d) mod ?n"
    using at_distance_exists [OF assms(2) i(1)] by (auto simp: at_distance_def)
  have "find (\<lambda>i. im_ready (sd_images s ! i)) (map (\<lambda>offset. (sd_next_image s + offset) mod ?n) [0..<?n]) \<noteq> None"
    using d i(2) by (auto simp: find_None_iff)
  then show "sd_opportunity s = 0" using assms(1) by (auto simp: State_selected_def Let_def split: if_splits)
qed

section \<open>Any interleaving of grants\<close>

text \<open>
  The atomic sections of the scheduler: a port changes its readiness or takes a grant, the
  background owner registers, takes a grant or gives up. An event that is not enabled is \<open>None\<close>.
\<close>

datatype sched_event = Set_ready nat bool | Take nat nat bool | Enter_background | Take_background nat | Leave_background

definition sched_apply :: "sched_event \<Rightarrow> Sched \<Rightarrow> Sched option" where
  "sched_apply ev s = (case ev of
      Set_ready i r \<Rightarrow> (case Port_ready True s i r of Inr (s', _) \<Rightarrow> Some s' | Inl _ \<Rightarrow> None)
    | Take i bytes more_ready \<Rightarrow> (case Port_take True s i bytes more_ready of Inr (s', Inr True) \<Rightarrow> Some s' | _ \<Rightarrow> None)
    | Enter_background \<Rightarrow> if sd_background_ready s then None else Some (s\<lparr>sd_background_ready := True\<rparr>)
    | Take_background bytes \<Rightarrow>
        if State_selected s = Some Background then (case State_grant s Background bytes of Inr s' \<Rightarrow> Some s' | Inl _ \<Rightarrow> None) else None
    | Leave_background \<Rightarrow> if sd_background_ready s then Some (s\<lparr>sd_background_ready := False\<rparr>) else None)"

primrec sched_run :: "sched_event list \<Rightarrow> Sched \<Rightarrow> Sched option" where
  "sched_run [] s = Some s"
| "sched_run (ev # evs) s = (case sched_apply ev s of None \<Rightarrow> None | Some s' \<Rightarrow> sched_run evs s')"

fun is_demand :: "sched_event \<Rightarrow> bool" where
  "is_demand (Take i n m) = True"
| "is_demand _ = False"

fun is_background :: "sched_event \<Rightarrow> bool" where
  "is_background (Take_background n) = True"
| "is_background _ = False"

definition demand_grants :: "sched_event list \<Rightarrow> nat" where
  "demand_grants evs = length (filter is_demand evs)"

definition background_grants :: "sched_event list \<Rightarrow> nat" where
  "background_grants evs = length (filter is_background evs)"

lemma grants_simps [simp]:
  "demand_grants [] = 0" "background_grants [] = 0"
  "demand_grants (e # evs) = (if is_demand e then 1 else 0) + demand_grants evs"
  "background_grants (e # evs) = (if is_background e then 1 else 0) + background_grants evs"
  by (simp_all add: demand_grants_def background_grants_def)

text \<open>The effect of an enabled take.\<close>

lemma Take_effect:
  assumes "sched_apply (Take j n m) s = Some s'" and "Sched_inv s"
  obtains d where "at_distance s j d" "im_ready (sd_images s ! j)" "sd_background_ready s \<Longrightarrow> sd_opportunity s \<noteq> 0"
    "\<And>i e. im_ready (sd_images s ! i) \<Longrightarrow> at_distance s i e \<Longrightarrow> d \<le> e"
    "sd_next_image s' = (j + 1) mod length (sd_images s)" "sd_opportunity s' = (sd_opportunity s + 1) mod 4"
    "sd_images s' = (sd_images s)[j := (sd_images s ! j)\<lparr>im_ready := m\<rparr>]" "sd_background_ready s' = sd_background_ready s"
proof -
  have sel: "State_selected s = Some (Demand j)"
    using assms(1) by (auto simp: sched_apply_def Port_take_def split: if_splits)
  from selected_demand [OF sel] obtain d where d: "at_distance s j d" "j < length (sd_images s)" "im_ready (sd_images s ! j)"
    "\<And>i e. im_ready (sd_images s ! i) \<Longrightarrow> at_distance s i e \<Longrightarrow> d \<le> e" "sd_background_ready s \<Longrightarrow> sd_opportunity s \<noteq> 0"
    by blast
  obtain s1 where s1: "State_grant s (Demand j) n = Inr s1"
    using d(2) by (auto simp: State_grant_def)
  have "s' = set_ready j m s1"
    using assms(1) sel s1 by (auto simp: sched_apply_def Port_take_def Let_def split: sum.splits bool.splits)
  then show ?thesis
    using that d s1 by (auto simp: State_grant_def set_ready_def)
qed

lemma Take_background_effect:
  assumes "sched_apply (Take_background n) s = Some s'"
  shows "State_selected s = Some Background" and "sd_next_image s' = sd_next_image s" and "sd_images s' = sd_images s"
    and "sd_opportunity s' = (sd_opportunity s + 1) mod 4" and "\<not> sd_background_ready s'"
  using assms by (auto simp: sched_apply_def State_grant_def split: if_splits)

lemma Set_ready_effect [simp]:
  "sched_apply (Set_ready i r) s = Some s' \<longleftrightarrow> i < length (sd_images s) \<and> s' = set_ready i r s"
  by (auto simp: sched_apply_def Port_ready_def Let_def ensure_def)

lemma sched_apply_other:
  assumes "sched_apply ev s = Some s'" and "\<not> is_demand ev" and "\<not> is_background ev"
  shows "sd_next_image s' = sd_next_image s \<and> sd_opportunity s' = sd_opportunity s \<and> length (sd_images s') = length (sd_images s)"
  using assms by (cases ev) (auto simp: set_ready_def, auto simp: sched_apply_def split: if_splits)

lemma sched_apply_inv:
  assumes "sched_apply ev s = Some s'" and "Sched_inv s"
  shows "Sched_inv s' \<and> length (sd_images s') = length (sd_images s)"
proof (cases ev)
  case (Take i n m)
  from Take_effect [OF assms(1) [unfolded Take] assms(2)] show ?thesis
    using assms(2) by (metis Sched_inv_def length_0_conv length_list_update mod_less_divisor neq0_conv zero_less_numeral)
next
  case (Take_background n)
  then show ?thesis using Take_background_effect [of n s s'] assms by (auto simp: Sched_inv_def)
qed (use assms sched_apply_other [OF assms(1)] in \<open>force simp: Sched_inv_def\<close>)+

lemma next_distance:
  assumes "at_distance s i e" and "at_distance s j d" and "d < e"
    and "sd_next_image s' = (j + 1) mod length (sd_images s)" and "length (sd_images s') = length (sd_images s)"
  shows "at_distance s' i (e - d - 1)"
proof -
  let ?n = "length (sd_images s)"
  have "((j + 1) mod ?n + (e - d - 1)) mod ?n = (j + (e - d)) mod ?n"
  proof -
    have "j + 1 + (e - d - 1) = j + (e - d)" using assms(3) by arith
    then show ?thesis using mod_add_left_eq [of "j + 1" ?n "e - d - 1"] by metis
  qed
  also have "\<dots> = (sd_next_image s + d + (e - d)) mod ?n"
    using assms(2) by (simp add: at_distance_def mod_add_left_eq)
  also have "\<dots> = i" using assms(1,3) by (simp add: at_distance_def)
  finally show ?thesis using assms by (auto simp: at_distance_def)
qed

lemma distance_inject:
  assumes "at_distance s i d" and "at_distance s j d"
  shows "i = j"
  using assms by (simp add: at_distance_def)

definition waits :: "nat \<Rightarrow> sched_event list \<Rightarrow> bool" where
  "waits i evs \<longleftrightarrow> (\<forall>ev \<in> set evs. ev \<noteq> Set_ready i False \<and> (\<forall>n m. ev \<noteq> Take i n m))"

text \<open>While image \<open>i\<close> waits, every demand grant brings it nearer.\<close>

lemma waiting_step:
  assumes "sched_apply ev s = Some s'" and "Sched_inv s" and "i < length (sd_images s)" and "im_ready (sd_images s ! i)"
    and "at_distance s i e" and "waits i [ev]"
  shows "im_ready (sd_images s' ! i) \<and> (\<exists>e'. at_distance s' i e' \<and> (if is_demand ev then e' < e else e' = e))"
proof (cases ev)
  case (Take j n m)
  obtain d where d: "at_distance s j d" "im_ready (sd_images s ! j)"
    "\<And>i e. im_ready (sd_images s ! i) \<Longrightarrow> at_distance s i e \<Longrightarrow> d \<le> e"
    "sd_next_image s' = (j + 1) mod length (sd_images s)"
    "sd_images s' = (sd_images s)[j := (sd_images s ! j)\<lparr>im_ready := m\<rparr>]"
    using Take_effect [OF assms(1) [unfolded Take] assms(2)] by blast
  have "j \<noteq> i" using assms(6) Take by (auto simp: waits_def)
  then have "d < e" using d(3) [OF assms(4,5)] distance_inject [OF assms(5)] d(1) by (metis le_neq_implies_less)
  from next_distance [OF assms(5) d(1) this d(4)] show ?thesis
    using d(5) \<open>j \<noteq> i\<close> assms(4) Take \<open>d < e\<close> by (auto intro!: exI [of _ "e - d - 1"])
next
  case (Take_background n)
  note b = Take_background_effect [OF assms(1) [unfolded Take_background]]
  then show ?thesis using assms Take_background by (auto simp: at_distance_def)
next
  case (Set_ready j r)
  then show ?thesis using assms by (auto simp: set_ready_def waits_def at_distance_def nth_list_update)
qed (use assms in \<open>auto simp: sched_apply_def at_distance_def split: if_splits\<close>)

lemma waiting_demand_bound:
  "sched_run evs s = Some s' \<Longrightarrow> Sched_inv s \<Longrightarrow> i < length (sd_images s) \<Longrightarrow> im_ready (sd_images s ! i) \<Longrightarrow>
   at_distance s i e \<Longrightarrow> waits i evs \<Longrightarrow> demand_grants evs \<le> e"
proof (induction evs arbitrary: s e)
  case (Cons ev evs)
  obtain s1 where s1: "sched_apply ev s = Some s1" "sched_run evs s1 = Some s'"
    using Cons.prems(1) by (auto split: option.splits)
  have w: "waits i [ev]" "waits i evs" using Cons.prems(6) by (auto simp: waits_def)
  note inv = sched_apply_inv [OF s1(1) Cons.prems(2)]
  obtain e' where e': "im_ready (sd_images s1 ! i)" "at_distance s1 i e'" "if is_demand ev then e' < e else e' = e"
    using waiting_step [OF s1(1) Cons.prems(2-5) w(1)] by blast
  have "demand_grants evs \<le> e'" using Cons.IH [OF s1(2) _ _ e'(1,2) w(2)] inv Cons.prems(3) by simp
  then show ?case using e'(3) by (auto split: if_splits)
qed simp

text \<open>The demand grants left before the background's next turn.\<close>

definition turn :: "Sched \<Rightarrow> nat" where
  "turn s = (4 - sd_opportunity s) mod 4"

lemma turn_step:
  assumes "Sched_inv s" and "sd_opportunity s' = (sd_opportunity s + 1) mod 4"
  shows "turn s \<le> 1 + turn s'" and "sd_opportunity s = 0 \<Longrightarrow> turn s = 0 \<and> turn s' = 3"
proof -
  have "sd_opportunity s \<in> {0, 1, 2, 3}" using assms(1) by (auto simp: Sched_inv_def)
  then show "turn s \<le> 1 + turn s'" and "sd_opportunity s = 0 \<Longrightarrow> turn s = 0 \<and> turn s' = 3"
    using assms(2) by (auto simp: turn_def)
qed

lemma waiting_background_bound:
  "sched_run evs s = Some s' \<Longrightarrow> Sched_inv s \<Longrightarrow> i < length (sd_images s) \<Longrightarrow> im_ready (sd_images s ! i) \<Longrightarrow>
   waits i evs \<Longrightarrow> 3 * background_grants evs + turn s \<le> demand_grants evs + turn s'"
proof (induction evs arbitrary: s)
  case (Cons ev evs)
  obtain s1 where s1: "sched_apply ev s = Some s1" "sched_run evs s1 = Some s'"
    using Cons.prems(1) by (auto split: option.splits)
  have w: "waits i [ev]" "waits i evs" using Cons.prems(5) by (auto simp: waits_def)
  note inv = sched_apply_inv [OF s1(1) Cons.prems(2)]
  obtain e where "at_distance s i e" using at_distance_exists [OF Cons.prems(2,3)] by blast
  then have ready: "im_ready (sd_images s1 ! i)" using waiting_step [OF s1(1) Cons.prems(2-4) _ w(1)] by blast
  then have ih: "3 * background_grants evs + turn s1 \<le> demand_grants evs + turn s'"
    using Cons.IH [OF s1(2) _ _ _ w(2)] inv Cons.prems(3) by simp
  show ?case
  proof (cases ev)
    case (Take j n m)
    then have "sd_opportunity s1 = (sd_opportunity s + 1) mod 4" using Take_effect [OF s1(1) [unfolded Take] Cons.prems(2)] by blast
    then show ?thesis using turn_step(1) [OF Cons.prems(2), of s1] ih Take by simp
  next
    case (Take_background n)
    note b = Take_background_effect [OF s1(1) [unfolded Take_background]]
    have "sd_opportunity s = 0" by (rule selected_background(2) [OF b(1) Cons.prems(2-4)])
    then show ?thesis using turn_step(2) [OF Cons.prems(2) b(4)] ih Take_background by simp
  qed (use sched_apply_other [OF s1(1)] ih in \<open>auto simp: turn_def\<close>)
qed simp

lemma background_waiting_bound:
  "sched_run evs s = Some s' \<Longrightarrow> Sched_inv s \<Longrightarrow> sd_background_ready s \<Longrightarrow> background_grants evs = 0 \<Longrightarrow>
   Leave_background \<notin> set evs \<Longrightarrow> demand_grants evs \<le> turn s"
proof (induction evs arbitrary: s)
  case (Cons ev evs)
  obtain s1 where s1: "sched_apply ev s = Some s1" "sched_run evs s1 = Some s'"
    using Cons.prems(1) by (auto split: option.splits)
  have bg: "sd_background_ready s1 = sd_background_ready s"
  proof (cases ev)
    case (Take i n m)
    then show ?thesis using Take_effect [OF s1(1) [unfolded Take] Cons.prems(2)] by metis
  qed (use s1(1) Cons.prems in \<open>auto simp: set_ready_def, auto simp: sched_apply_def split: if_splits\<close>)
  have ih: "demand_grants evs \<le> turn s1"
    using Cons.IH [OF s1(2)] sched_apply_inv [OF s1(1) Cons.prems(2)] bg Cons.prems by auto
  show ?case
  proof (cases ev)
    case (Take j n m)
    obtain "sd_opportunity s1 = (sd_opportunity s + 1) mod 4" "sd_opportunity s \<noteq> 0"
      using Take_effect [OF s1(1) [unfolded Take] Cons.prems(2)] Cons.prems(3) by metis
    moreover have "sd_opportunity s \<in> {0, 1, 2, 3}" using Cons.prems(2) by (auto simp: Sched_inv_def)
    ultimately show ?thesis using ih Take by (auto simp: turn_def)
  qed (use Cons.prems sched_apply_other [OF s1(1)] ih in \<open>auto simp: turn_def\<close>)
qed simp

lemma sched_run_inv: "sched_run evs s = Some s' \<Longrightarrow> Sched_inv s \<Longrightarrow> Sched_inv s' \<and> length (sd_images s') = length (sd_images s)"
  by (induction evs arbitrary: s) (auto split: option.splits dest: sched_apply_inv)

section \<open>Properties\<close>

text \<open>
  C18. No ready image starves. In any interleaving of readiness changes and grants from a reachable
  scheduler state, while image \<open>i\<close> is ready and not granted, fewer demand opportunities than there
  are images go to others, and the background takes at most one opportunity in four: three times
  its grants is at most the demand grants plus three.
\<close>
theorem demand_round_robin_bound:
  assumes "Scheduler_new True n = Inr s0" and "sched_run before s0 = Some s" and "sched_run evs s = Some s'"
    and "i < n" and "im_ready (sd_images s ! i)"
    and "\<forall>ev \<in> set evs. ev \<noteq> Set_ready i False \<and> (\<forall>bytes more_ready. ev \<noteq> Take i bytes more_ready)"
  shows "demand_grants evs < n \<and> 3 * background_grants evs \<le> demand_grants evs + 3"
proof -
  have inv: "Sched_inv s" "length (sd_images s) = n"
    using sched_run_inv [OF assms(2)] Scheduler_new_inv [OF assms(1)] by auto
  have w: "waits i evs" using assms(6) by (simp add: waits_def)
  obtain e where e: "at_distance s i e" using at_distance_exists [OF inv(1), of i] inv(2) assms(4) by blast
  have "demand_grants evs \<le> e" using waiting_demand_bound [OF assms(3) inv(1) _ assms(5) e w] inv(2) assms(4) by simp
  moreover have "e < n" using e inv(2) by (simp add: at_distance_def)
  moreover have "turn s' \<le> 3" by (simp add: turn_def)
  ultimately show ?thesis
    using waiting_background_bound [OF assms(3) inv(1) _ assms(5) w] inv(2) assms(4) by simp
qed

text \<open>
  The background owner does not starve either: from any reachable state in which it is
  registered, at most three demand grants happen before it is granted or gives up.
\<close>
theorem background_every_fourth:
  assumes "Scheduler_new True n = Inr s0" and "sched_run before s0 = Some s" and "sched_run evs s = Some s'"
    and "sd_background_ready s" and "\<forall>ev \<in> set evs. ev \<noteq> Leave_background \<and> (\<forall>bytes. ev \<noteq> Take_background bytes)"
  shows "demand_grants evs \<le> 3"
proof -
  have inv: "Sched_inv s" using sched_run_inv [OF assms(2)] Scheduler_new_inv [OF assms(1)] by auto
  have "background_grants evs = 0"
    unfolding background_grants_def using assms(5) by (auto simp: filter_empty_conv elim: is_background.elims)
  then have "demand_grants evs \<le> turn s" using background_waiting_bound [OF assms(3) inv assms(4)] assms(5) by blast
  moreover have "turn s \<le> 3" by (simp add: turn_def)
  ultimately show ?thesis by simp
qed


abbreviation demo_images :: "Image list" where
  "demo_images \<equiv> [\<lparr>im_ready = True, im_wake = False\<rparr>, \<lparr>im_ready = True, im_wake = False\<rparr>]"

abbreviation no_grants :: SchedCounters where
  "no_grants \<equiv> \<lparr>sc_demand = 0, sc_background = 0, sc_borrowed_demand = 0, sc_borrowed_background = 0,
     sc_demand_bytes = 0, sc_background_bytes = 0\<rparr>"

lemma demo_scheduler:
  "Scheduler_new True 2 = Inr \<lparr>sd_images = replicate 2 \<lparr>im_ready = False, im_wake = False\<rparr>, sd_next_image = 0,
     sd_opportunity = 0, sd_background_ready = False, sd_counters = no_grants\<rparr>"
  "sched_run [Set_ready 0 True, Set_ready 1 True, Enter_background] \<lparr>sd_images = replicate 2 \<lparr>im_ready = False, im_wake = False\<rparr>,
     sd_next_image = 0, sd_opportunity = 0, sd_background_ready = False, sd_counters = no_grants\<rparr>
   = Some \<lparr>sd_images = demo_images, sd_next_image = 0, sd_opportunity = 0, sd_background_ready = True, sd_counters = no_grants\<rparr>"
  by code_simp+

lemma demo_grants:
  "sched_run [Take_background 4096, Take 0 4096 True]
     \<lparr>sd_images = demo_images, sd_next_image = 0, sd_opportunity = 0, sd_background_ready = True, sd_counters = no_grants\<rparr> \<noteq> None"
  by (simp add: sched_apply_def Port_take_def Port_ready_def State_selected_def State_grant_def set_ready_def
      Scheduler_notify_def Let_def upt_rec)

theorem demand_round_robin_bound_witness:
  "demand_grants [Take_background 4096, Take 0 4096 True] < 2 \<and>
   3 * background_grants [Take_background 4096, Take 0 4096 True] \<le> demand_grants [Take_background 4096, Take 0 4096 True] + 3"
proof -
  obtain s' where "sched_run [Take_background 4096, Take 0 4096 True]
     \<lparr>sd_images = demo_images, sd_next_image = 0, sd_opportunity = 0, sd_background_ready = True, sd_counters = no_grants\<rparr> = Some s'"
    using demo_grants(1) by (metis option.exhaust)
  from demand_round_robin_bound [OF demo_scheduler this, of 1] show ?thesis by simp
qed

lemma demo_background:
  "\<exists>s s'. sched_run [Set_ready 0 True, Take 0 4096 True, Enter_background]
     \<lparr>sd_images = [\<lparr>im_ready = False, im_wake = False\<rparr>], sd_next_image = 0, sd_opportunity = 0, sd_background_ready = False,
      sd_counters = no_grants\<rparr> = Some s \<and> sd_background_ready s \<and>
     sched_run [Take 0 4096 True, Take 0 4096 True, Take 0 4096 True] s = Some s'"
  by (simp add: sched_apply_def Port_take_def Port_ready_def State_selected_def State_grant_def set_ready_def
      Scheduler_notify_def Let_def upt_rec)

theorem background_every_fourth_witness:
  "demand_grants [Take 0 4096 True, Take 0 4096 True, Take 0 4096 True] \<le> 3"
proof -
  obtain s s' where s: "sched_run [Set_ready 0 True, Take 0 4096 True, Enter_background]
     \<lparr>sd_images = [\<lparr>im_ready = False, im_wake = False\<rparr>], sd_next_image = 0, sd_opportunity = 0, sd_background_ready = False,
      sd_counters = no_grants\<rparr> = Some s" "sd_background_ready s"
     "sched_run [Take 0 4096 True, Take 0 4096 True, Take 0 4096 True] s = Some s'"
    using demo_background by blast
  have new: "Scheduler_new True 1 = Inr \<lparr>sd_images = [\<lparr>im_ready = False, im_wake = False\<rparr>], sd_next_image = 0,
     sd_opportunity = 0, sd_background_ready = False, sd_counters = no_grants\<rparr>"
    by (simp add: Scheduler_new_def)
  show ?thesis by (rule background_every_fourth [OF new s(1,3,2)]) simp
qed

end
