(* ===== verification/Wal_Pins.thy ===== *)
theory Wal_Pins
  imports Prelude "HOL-Library.Multiset"
begin

text \<open>
  The pin counters of \<^verbatim>\<open>core/src/append/segment/pins.rs\<close>: one 32-bit counter per block of a staging
  segment and one for the whole segment. A read holds the batch its payload lies in; a background
  scan holds block 0. Each method is atomic, so its callers interleave as a sequence of steps.
\<close>

record Pins =
  pn_batches :: "u32 list"
  pn_readers :: u32

definition Pins_new :: "bool \<Rightarrow> nat \<Rightarrow> Pins result" where
  "Pins_new granted capacity =
     (let blocks = capacity div BLOCK_SIZE in
      ensure (blocks < 2 ^ 32) (Other ''staging pin table exceeds address bound'')
        (ensure granted (OutOfMemory ''staging pin metadata exhausted'')
          (Inr \<lparr>pn_batches = replicate blocks 0, pn_readers = 0\<rparr>)))"

definition Pins_readers :: "Pins \<Rightarrow> u32" where
  "Pins_readers p = pn_readers p"

definition Pins_at :: "Pins \<Rightarrow> nat \<Rightarrow> u32 result" where
  "Pins_at p block = (if block < length (pn_batches p) then Inr (pn_batches p ! block) else Inl (Panic ''index out of bounds''))"

definition Pins_acquire :: "Pins \<Rightarrow> nat \<Rightarrow> Pins result" where
  "Pins_acquire p block =
     attempt (Pins_at p block) (\<lambda>old.
     let p = p\<lparr>pn_batches := (pn_batches p)[block := old + 1]\<rparr> in
     ensure (old < - 1) (Panic ''bounded read ownership overflow'')
    (let old = pn_readers p; p = p\<lparr>pn_readers := old + 1\<rparr> in
     ensure (old < - 1) (Panic ''bounded segment ownership overflow'') (Inr p)))"

definition Pins_release :: "Pins \<Rightarrow> nat \<Rightarrow> Pins result" where
  "Pins_release p block =
     attempt (Pins_at p block) (\<lambda>old.
     let p = p\<lparr>pn_batches := (pn_batches p)[block := old - 1]\<rparr> in
     ensure (old \<noteq> 0) (Panic ''assertion failed'')
    (let old = pn_readers p; p = p\<lparr>pn_readers := old - 1\<rparr> in
     ensure (old \<noteq> 0) (Panic ''assertion failed'') (Inr p)))"

definition Pins_hold_scan :: "Pins \<Rightarrow> Pins result" where
  "Pins_hold_scan p = Pins_acquire p 0"

definition Pins_release_scan :: "Pins \<Rightarrow> Pins result" where
  "Pins_release_scan p = Pins_release p 0"

definition Pins_scan_held :: "Pins \<Rightarrow> bool result" where
  "Pins_scan_held p = attempt (Pins_at p 0) (\<lambda>n. Inr (n \<noteq> 0))"

section \<open>Outstanding holds\<close>

text \<open>The states of a segment's counters with the blocks that are held, a scan holding block 0.\<close>

inductive pins_reach :: "nat \<Rightarrow> Pins \<Rightarrow> nat multiset \<Rightarrow> bool" for capacity where
  pins_new: "Pins_new g capacity = Inr p \<Longrightarrow> pins_reach capacity p {#}"
| pins_acquire: "pins_reach capacity p held \<Longrightarrow> Pins_acquire p b = Inr p' \<Longrightarrow> pins_reach capacity p' (add_mset b held)"
| pins_release: "pins_reach capacity p held \<Longrightarrow> b \<in># held \<Longrightarrow> Pins_release p b = Inr p' \<Longrightarrow>
    pins_reach capacity p' (held - {#b#})"
| pins_hold_scan: "pins_reach capacity p held \<Longrightarrow> Pins_hold_scan p = Inr p' \<Longrightarrow> pins_reach capacity p' (add_mset 0 held)"
| pins_release_scan: "pins_reach capacity p held \<Longrightarrow> 0 \<in># held \<Longrightarrow> Pins_release_scan p = Inr p' \<Longrightarrow>
    pins_reach capacity p' (held - {#0#})"

definition Pins_exact :: "Pins \<Rightarrow> nat multiset \<Rightarrow> bool" where
  "Pins_exact p held \<longleftrightarrow>
     (\<forall>b < length (pn_batches p). unat (pn_batches p ! b) = count held b) \<and>
     (\<forall>b \<in># held. b < length (pn_batches p)) \<and> unat (pn_readers p) = size held"

lemma u32_room: "(x :: u32) < - 1 \<longleftrightarrow> unat x < 2 ^ 32 - 1"
  by (simp add: word_less_nat_alt unsigned_minus_1_eq_mask mask_eq_exp_minus_1)

lemma u32_full: "\<not> (x :: u32) < - 1 \<longleftrightarrow> unat x = 2 ^ 32 - 1"
proof -
  have "unat x < 2 ^ 32" using unsigned_less [of x] by simp
  then show ?thesis by (simp add: u32_room) linarith
qed

lemma unat_suc_u32: "(x :: u32) < - 1 \<Longrightarrow> unat (x + 1) = unat x + 1"
  by (simp add: u32_room unat_word_ariths)

lemma unat_pred_u32: "(x :: u32) \<noteq> 0 \<Longrightarrow> unat (x - 1) = unat x - 1"
  by (simp add: unat_sub_if' Suc_leI unat_gt_0)

lemma Pins_acquire_eq:
  "Pins_acquire p b = Inr p' \<longleftrightarrow> b < length (pn_batches p) \<and> pn_batches p ! b < - 1 \<and> pn_readers p < - 1 \<and>
     p' = p\<lparr>pn_batches := (pn_batches p)[b := pn_batches p ! b + 1], pn_readers := pn_readers p + 1\<rparr>"
  by (auto simp: Pins_acquire_def Pins_at_def Let_def)

lemma Pins_release_eq:
  "Pins_release p b = Inr p' \<longleftrightarrow> b < length (pn_batches p) \<and> pn_batches p ! b \<noteq> 0 \<and> pn_readers p \<noteq> 0 \<and>
     p' = p\<lparr>pn_batches := (pn_batches p)[b := pn_batches p ! b - 1], pn_readers := pn_readers p - 1\<rparr>"
  by (auto simp: Pins_release_def Pins_at_def Let_def)

lemma Pins_acquire_exact:
  assumes "Pins_exact p held" and "Pins_acquire p b = Inr p'"
  shows "Pins_exact p' (add_mset b held)"
  using assms by (auto simp: Pins_exact_def Pins_acquire_eq nth_list_update unat_suc_u32)

lemma Pins_release_exact:
  assumes "Pins_exact p held" and "b \<in># held" and "Pins_release p b = Inr p'"
  shows "Pins_exact p' (held - {#b#})"
proof -
  have "size (held - {#b#}) = size held - 1" using assms(2) by (simp add: size_Diff_singleton)
  then show ?thesis
    using assms by (auto simp: Pins_exact_def Pins_release_eq nth_list_update unat_pred_u32 dest: in_diffD)
qed

lemma Pins_acquire_total:
  assumes "Pins_exact p held" and "b < length (pn_batches p)" and "size held < 2 ^ 32 - 1"
  shows "\<exists>p'. Pins_acquire p b = Inr p' \<and> length (pn_batches p') = length (pn_batches p)"
proof -
  have "unat (pn_batches p ! b) = count held b" "unat (pn_readers p) = size held"
    using assms(1,2) by (simp_all add: Pins_exact_def)
  moreover have "count held b \<le> size held" by (rule count_le_size)
  ultimately show ?thesis using assms(2,3) by (simp add: Pins_acquire_eq u32_room)
qed

lemma pins_reach_exact: "pins_reach capacity p held \<Longrightarrow> Pins_exact p held \<and> length (pn_batches p) = capacity div BLOCK_SIZE"
proof (induction rule: pins_reach.induct)
  case (pins_new g p)
  then show ?case by (auto simp: Pins_new_def Pins_exact_def Let_def)
next
  case (pins_acquire p held b p')
  then show ?case using Pins_acquire_exact by (auto simp: Pins_acquire_eq)
next
  case (pins_release p held b p')
  then show ?case using Pins_release_exact by (auto simp: Pins_release_eq)
next
  case (pins_hold_scan p held p')
  then show ?case using Pins_acquire_exact by (auto simp: Pins_hold_scan_def Pins_acquire_eq)
next
  case (pins_release_scan p held p')
  then show ?case using Pins_release_exact by (auto simp: Pins_release_scan_def Pins_release_eq)
qed

section \<open>Properties\<close>

text \<open>
  The counters are exact. However reads and scans acquire and release a segment, a block's
  counter reads zero exactly when nobody holds the block, the segment's reader count is zero exactly
  when nothing is held, a holder can always release without panicking, and acquiring a block of the
  segment fails only when all \<open>2 ^ 32 - 1\<close> holds are taken.
\<close>
theorem pins_exact:
  assumes "pins_reach capacity p held" and "b < capacity div BLOCK_SIZE"
  shows "(Pins_at p b = Inr 0 \<longleftrightarrow> b \<notin># held) \<and> (Pins_readers p = 0 \<longleftrightarrow> held = {#}) \<and>
    (b \<in># held \<longrightarrow> (\<exists>p'. Pins_release p b = Inr p')) \<and>
    ((\<exists>p'. Pins_acquire p b = Inr p') \<longleftrightarrow> size held < 2 ^ 32 - 1)"
proof -
  have ex: "Pins_exact p held" and len: "b < length (pn_batches p)"
    using pins_reach_exact [OF assms(1)] assms(2) by simp_all
  then have c: "unat (pn_batches p ! b) = count held b" and r: "unat (pn_readers p) = size held"
    by (simp_all add: Pins_exact_def)
  have le: "count held b \<le> size held" by (rule count_le_size)
  have zero: "pn_batches p ! b = 0 \<longleftrightarrow> b \<notin># held" "pn_readers p = 0 \<longleftrightarrow> held = {#}"
    using c r by (simp_all add: not_in_iff flip: unat_eq_0)
  have "b \<in># held \<longrightarrow> pn_readers p \<noteq> 0" by (auto simp: zero)
  moreover have "pn_batches p ! b < - 1 \<and> pn_readers p < - 1 \<longleftrightarrow> size held < 2 ^ 32 - 1"
    using c r le by (auto simp: u32_room)
  ultimately show ?thesis
    using len zero by (auto simp: Pins_at_def Pins_readers_def Pins_release_eq Pins_acquire_eq)
qed

theorem pins_exact_witness:
  "\<exists>p. pins_reach 8192 p {#1#} \<and> (Pins_at p 1 = Inr 0 \<longleftrightarrow> 1 \<notin># {#1#}) \<and> (\<exists>p'. Pins_release p 1 = Inr p')"
proof -
  have "replicate 2 (0 :: u32) = [0, 0]" by (simp add: numeral_2_eq_2)
  then have n: "Pins_new True 8192 = Inr \<lparr>pn_batches = [0, 0], pn_readers = 0\<rparr>"
    by (simp add: Pins_new_def BLOCK_SIZE_def)
  have "Pins_acquire \<lparr>pn_batches = [0, 0], pn_readers = 0\<rparr> 1 = Inr \<lparr>pn_batches = [0, 1], pn_readers = 1\<rparr>"
    by (simp add: Pins_acquire_eq u32_room)
  from pins_acquire [OF pins_new [OF n] this] have "pins_reach 8192 \<lparr>pn_batches = [0, 1], pn_readers = 1\<rparr> {#1#}" .
  with pins_exact [OF this, of 1] show ?thesis by (auto simp: BLOCK_SIZE_def)
qed

end
