(* ===== verification/Wal_Log.thy ===== *)
theory Wal_Log
  imports Wal_Format Wal_Pins Interval_Index
begin

text \<open>
  The sequenced write-ahead log of \<^verbatim>\<open>core/src/append.rs\<close>, \<^verbatim>\<open>append/submission.rs\<close>,
  \<^verbatim>\<open>append/rotation.rs\<close> and \<^verbatim>\<open>append/segment.rs\<close>: admission of a sealed batch at the physical end of
  the current segment, ordered publication into the interval index, fences and their sync cohorts,
  and rotation to a fresh segment. Counters and offsets are natural numbers with the checked and
  wrapping operations of the source written out; file handles are left out and the result of every
  file operation is an argument. Segments carry an identifier that stands for the \<^verbatim>\<open>Arc\<close> compared by
  \<^verbatim>\<open>ptr_eq\<close>.
\<close>

section \<open>Errors, configuration and state\<close>

datatype log_error =
    Io error | Format error | Failed | Exhausted | Capacity | Pending | Rollover | Prefix nat nat | Panicked string

type_synonym 'a log_result = "log_error + 'a"

record LogConfig =
  cf_store :: bytes
  cf_image :: bytes
  cf_image_bytes :: u64
  cf_segment_bytes :: u64

record Limits =
  lm_staging_bytes :: nat
  lm_intervals :: nat

definition Config_header :: "LogConfig \<Rightarrow> u64 \<Rightarrow> u64 \<Rightarrow> u64 \<Rightarrow> SegmentHeader" where
  "Config_header c epoch num preceding =
     \<lparr>sh_store = cf_store c, sh_image = cf_image c, sh_epoch = epoch, sh_number = num, sh_capacity = cf_segment_bytes c,
      sh_image_bytes = cf_image_bytes c, sh_preceding_sequence = preceding\<rparr>"

definition Config_validate :: "LogConfig \<Rightarrow> Limits \<Rightarrow> unit log_result" where
  "Config_validate c lim =
     attempt (map_err Format (SegmentHeader_validate (Config_header c 1 1 0))) (\<lambda>_.
     if unat (cf_segment_bytes c) < MAX_BATCH_BYTES + 2 * BLOCK_SIZE
        \<or> unat (cf_segment_bytes c) > lm_staging_bytes lim
        \<or> lm_intervals lim < 2 * MAX_DESCRIPTORS
     then Inl Capacity else Inr ())"

definition Config_matches :: "LogConfig \<Rightarrow> SegmentHeader \<Rightarrow> bool" where
  "Config_matches c h \<longleftrightarrow> cf_store c = sh_store h \<and> cf_image c = sh_image h \<and>
     cf_image_bytes c = sh_image_bytes h \<and> cf_segment_bytes c = sh_capacity h"

record LogSegment =
  sg_id :: nat
  sg_header :: SegmentHeader
  sg_end :: nat

record Cohort =
  co_segment :: u64
  co_batch :: u64
  co_boundary :: u64

record Submission =
  sm_batch :: Batch
  sm_segment :: nat
  sm_offset :: nat

text \<open>Where a background scan may resume: a batch boundary and the sequence before it.\<close>

record ScanPosition =
  sp_segment :: u64
  sp_offset :: nat
  sp_batch :: nat
  sp_sequence :: nat

record Log =
  lg_config :: LogConfig
  lg_limits :: Limits
  lg_segments :: "LogSegment list"
  lg_index :: IntervalIndex
  lg_offset :: nat
  lg_next_batch :: nat
  lg_highest_segment :: u64
  lg_compaction_cursor :: "ScanPosition option"
  lg_published :: nat
  lg_issued :: nat
  lg_pending_descriptors :: nat
  lg_cohort :: "Cohort option"
  lg_durable :: nat
  lg_encoded_bytes :: nat
  lg_allocated_bytes :: nat
  lg_rejected_bytes :: nat
  lg_failed :: bool
  lg_fenced :: bool
  lg_rotating :: bool

section \<open>Creation\<close>

text \<open>The file operations of \<^verbatim>\<open>Segment::create\<close> are one outcome \<open>io\<close>.\<close>

definition Segment_create :: "nat \<Rightarrow> unit result \<Rightarrow> SegmentHeader \<Rightarrow> LogSegment result" where
  "Segment_create i io h =
     attempt (map_err (\<lambda>_. Other ''segment header'') (SegmentHeader_validate h)) (\<lambda>_. attempt io (\<lambda>_. Inr \<lparr>sg_id = i, sg_header = h, sg_end = BLOCK_SIZE\<rparr>))"

text \<open>The number comes from the shared ticket allocator when there is one, else it follows the highest.\<close>

definition segment_create ::
  "nat \<Rightarrow> unit result \<Rightarrow> LogConfig \<Rightarrow> u64 result option \<Rightarrow> u64 \<Rightarrow> u64 option \<Rightarrow> u64 \<Rightarrow> LogSegment result" where
  "segment_create i io c ticket highest epoch preceding =
     attempt (case ticket of
         Some num \<Rightarrow> num
       | None \<Rightarrow> ok_or (checked_add highest 1) (Other ''segment tickets exhausted''))
     (\<lambda>num. Segment_create i io (Config_header c (case epoch of None \<Rightarrow> num | Some e \<Rightarrow> e) num preceding))"

definition Log_empty :: "LogConfig \<Rightarrow> Limits \<Rightarrow> IntervalIndex \<Rightarrow> u64 \<Rightarrow> nat \<Rightarrow> Log" where
  "Log_empty c lim ix highest published =
     \<lparr>lg_config = c, lg_limits = lim, lg_segments = [], lg_index = ix, lg_offset = BLOCK_SIZE, lg_next_batch = 1,
      lg_highest_segment = highest, lg_compaction_cursor = None, lg_published = published, lg_issued = 0, lg_pending_descriptors = 0, lg_cohort = None,
      lg_durable = 0, lg_encoded_bytes = 0, lg_allocated_bytes = 0, lg_rejected_bytes = 0, lg_failed = False, lg_fenced = False,
      lg_rotating = False\<rparr>"

definition Log_create_in ::
  "nat \<Rightarrow> unit result \<Rightarrow> bool \<Rightarrow> unit result \<Rightarrow> unit result \<Rightarrow> nat result \<Rightarrow> LogConfig \<Rightarrow> Limits \<Rightarrow> u64 result option \<Rightarrow> Log log_result" where
  "Log_create_in i nodes pins_granted resources io allocated c lim ticket =
     attempt (Config_validate c lim) (\<lambda>_.
     attempt (map_err Io nodes) (\<lambda>_.
     attempt (map_err Io (Pins_new pins_granted (unat (cf_segment_bytes c)))) (\<lambda>_.
     attempt (map_err Io resources) (\<lambda>_.
     attempt (map_err Io (segment_create i io c ticket 0 None 0)) (\<lambda>segment.
     attempt (map_err Io allocated) (\<lambda>allocated.
     ensure (allocated \<le> lm_staging_bytes lim) Capacity
       (Inr ((Log_empty c lim \<lparr>ii_map = [], ii_limit = lm_intervals lim\<rparr> (sh_number (sg_header segment)) 0)
          \<lparr>lg_segments := [segment], lg_encoded_bytes := BLOCK_SIZE, lg_allocated_bytes := allocated\<rparr>))))))))"

section \<open>Submission\<close>

definition Log_current :: "Log \<Rightarrow> LogSegment log_result" where
  "Log_current l = (if lg_segments l = [] then Inl (Panicked ''a log owns its current segment'') else Inr (List.last (lg_segments l)))"

definition Log_healthy :: "Log \<Rightarrow> unit log_result" where
  "Log_healthy l = (if lg_failed l then Inl Failed else Inr ())"

definition Log_fail :: "Log \<Rightarrow> Log" where
  "Log_fail l = l\<lparr>lg_failed := True\<rparr>"

record Position =
  ps_segment :: u64
  ps_capacity :: nat
  ps_end :: nat
  ps_issued :: nat
  ps_fenced :: nat
  ps_initial_fence :: bool

definition Log_position :: "Log \<Rightarrow> Position log_result" where
  "Log_position l = attempt (Log_current l) (\<lambda>segment. Inr
     \<lparr>ps_segment = sh_number (sg_header segment), ps_capacity = unat (cf_segment_bytes (lg_config l)), ps_end = lg_offset l,
      ps_issued = lg_issued l,
      ps_fenced = (case lg_cohort l of None \<Rightarrow> lg_durable l | Some c \<Rightarrow> unat (co_boundary c)),
      ps_initial_fence = (\<not> lg_fenced l \<and> lg_cohort l = None)\<rparr>)"

definition Log_covers_flush :: "Log \<Rightarrow> nat \<Rightarrow> bool" where
  "Log_covers_flush l boundary \<longleftrightarrow> lg_fenced l \<and> lg_durable l \<ge> boundary"

definition Log_append_capacity :: "Log \<Rightarrow> nat" where
  "Log_append_capacity l = (lm_intervals (lg_limits l) - length (ii_map (lg_index l))) div 2 - lg_pending_descriptors l"

definition Log_check_append :: "Log \<Rightarrow> Builder \<Rightarrow> unit log_result" where
  "Log_check_append l b =
     attempt (Log_healthy l) (\<lambda>_.
     ensure (\<not> (lg_cohort l \<noteq> None \<or> lg_rotating l)) Pending
    (ensure (\<not> (b_descriptors b = 0 \<or> b_image_bytes b \<noteq> cf_image_bytes (lg_config l)))
       (Format (InvalidData ''empty append or builder image mismatch''))
    (ensure (\<not> b_descriptors b > Log_append_capacity l) Capacity
    (attempt (ok_or (nchecked_add (lg_issued l) (b_descriptors b)) Exhausted) (\<lambda>_.
     attempt (ok_or (nchecked_add (lg_next_batch l) 1) Exhausted) (\<lambda>_.
     let bytes = BLOCK_SIZE + b_payload_bytes b in
     ensure (\<not> wrapping_add (wrapping_add (lg_offset l) bytes) BLOCK_SIZE > unat (cf_segment_bytes (lg_config l))) Rollover
       (Inr ())))))))"

definition Log_reserve :: "Log \<Rightarrow> Batch \<Rightarrow> (Log \<times> Submission) log_result" where
  "Log_reserve l batch =
     attempt (Log_current l) (\<lambda>segment.
     let bytes = length (Batch_bytes batch); end = wrapping_add (lg_offset l) bytes in
     Inr (l\<lparr>lg_offset := end,
            lg_segments := butlast (lg_segments l) @ [segment\<lparr>sg_end := end\<rparr>],
            lg_encoded_bytes := wrapping_add (lg_encoded_bytes l) bytes,
            lg_next_batch := wrapping_add (lg_next_batch l) 1\<rparr>,
          \<lparr>sm_batch = batch, sm_segment = sg_id segment, sm_offset = lg_offset l\<rparr>))"

definition Log_prepare_append :: "(bytes \<Rightarrow> u32) \<Rightarrow> Log \<Rightarrow> Builder \<Rightarrow> (Log \<times> Submission) log_result" where
  "Log_prepare_append crc l b =
     attempt (Log_check_append l b) (\<lambda>_.
     attempt (Log_current l) (\<lambda>segment.
     attempt (map_err Format (Builder_seal crc b (sh_number (sg_header segment)) (word_of_nat (lg_next_batch l))
                (word_of_nat (wrapping_add (lg_issued l) 1)))) (\<lambda>batch.
     attempt (Log_reserve l batch) (\<lambda>(l, s).
     Inr (l\<lparr>lg_issued := unat (e_last (bt_envelope (sm_batch s))),
            lg_pending_descriptors := lg_pending_descriptors l + b_descriptors b\<rparr>, s)))))"

section \<open>Ordered publication\<close>

definition publish_mapping :: "nat \<Rightarrow> nat \<Rightarrow> Descriptor \<Rightarrow> Mapping" where
  "publish_mapping segment offset d =
     \<lparr>mp_end = unat (d_offset d + d_length d), mp_sequence = unat (d_sequence d),
      mp_source = (if d_kind d = Write
        then Some (\<lparr>pl_segment = segment, pl_offset = wrapping_add (wrapping_add offset BLOCK_SIZE) (unat (d_payload_offset d)),
                     pl_bytes = unat (d_payload_length d), pl_sequence = unat (d_sequence d), pl_crc = d_payload_crc d,
                     pl_batch_block = word_of_nat (offset div BLOCK_SIZE)\<rparr>, 0)
        else None)\<rparr>"

primrec publish_descriptors :: "nat \<Rightarrow> nat \<Rightarrow> Descriptor list \<Rightarrow> IntervalIndex \<Rightarrow> IntervalIndex result" where
  "publish_descriptors segment offset [] ix = Inr ix"
| "publish_descriptors segment offset (d # ds) ix =
     attempt (Intervals_replace ix (unat (d_offset d)) (publish_mapping segment offset d)) (publish_descriptors segment offset ds)"

definition Log_publish :: "Log \<Rightarrow> Header \<Rightarrow> nat \<Rightarrow> nat \<Rightarrow> Log log_result" where
  "Log_publish l h segment offset =
     attempt (map_err Io (publish_descriptors segment offset (Header_descriptors h) (lg_index l))) (\<lambda>ix.
     Inr (l\<lparr>lg_index := ix, lg_published := unat (e_last (h_envelope h))\<rparr>))"

definition Log_owns :: "Log \<Rightarrow> Submission \<Rightarrow> unit log_result" where
  "Log_owns l s = attempt (Log_current l) (\<lambda>segment.
     ensure (sg_id segment = sm_segment s) (Format (InvalidData ''submission belongs to another writer or segment'')) (Inr ()))"

definition Log_publish_append :: "(bytes \<Rightarrow> u32) \<Rightarrow> Log \<Rightarrow> Submission \<Rightarrow> Log log_result" where
  "Log_publish_append crc l s =
     attempt (Log_healthy l) (\<lambda>_.
     attempt (Log_owns l s) (\<lambda>_.
     attempt (map_err Format (Header_decode crc (take BLOCK_SIZE (Batch_bytes (sm_batch s))) (cf_image_bytes (lg_config l)))) (\<lambda>h.
     let e = h_envelope h in
     ensure (\<not> (e_fence e \<or> unat (e_first e) \<le> lg_published l)) (Format (InvalidData ''not an unpublished append''))
    (ensure (nchecked_add (lg_published l) 1 = Some (unat (e_first e))) Pending
    (attempt (Log_publish l h (sm_segment s) (sm_offset s)) (\<lambda>l.
     Inr (l\<lparr>lg_pending_descriptors := wrapping_sub (lg_pending_descriptors l) (e_descriptors e)\<rparr>)))))))"

section \<open>Fences\<close>

definition Cohort_from :: "Submission \<Rightarrow> Cohort" where
  "Cohort_from s = (let e = bt_envelope (sm_batch s) in
     \<lparr>co_segment = e_segment e, co_batch = e_batch e, co_boundary = e_last e\<rparr>)"

definition Log_prepare_fence :: "(bytes \<Rightarrow> u32) \<Rightarrow> Log \<Rightarrow> (Log \<times> Submission) log_result" where
  "Log_prepare_fence crc l =
     attempt (Log_healthy l) (\<lambda>_.
     ensure (\<not> (lg_cohort l \<noteq> None \<or> lg_rotating l)) Pending
    (ensure (\<not> wrapping_add (lg_offset l) BLOCK_SIZE > unat (cf_segment_bytes (lg_config l))) Rollover
    (attempt (ok_or (nchecked_add (lg_next_batch l) 1) Exhausted) (\<lambda>_.
     attempt (Log_current l) (\<lambda>segment.
     attempt (map_err Format (Batch_fence crc (sh_number (sg_header segment)) (word_of_nat (lg_next_batch l))
                (word_of_nat (lg_issued l)))) (\<lambda>fence.
     attempt (Log_reserve l fence) (\<lambda>(l, s).
     Inr (l\<lparr>lg_cohort := Some (Cohort_from s)\<rparr>, s))))))))"

definition Log_ready_to_sync :: "Log \<Rightarrow> Submission \<Rightarrow> bool log_result" where
  "Log_ready_to_sync l s =
     attempt (Log_healthy l) (\<lambda>_.
     attempt (Log_owns l s) (\<lambda>_.
     let e = bt_envelope (sm_batch s) in
     ensure (\<not> (\<not> e_fence e \<or> lg_cohort l \<noteq> Some (Cohort_from s)))
       (Format (InvalidData ''fence does not identify the active cohort''))
       (Inr (lg_pending_descriptors l = 0 \<and> lg_published l = unat (e_last e)))))"

definition Log_complete_sync :: "Log \<Rightarrow> Submission \<Rightarrow> (Log \<times> nat) log_result" where
  "Log_complete_sync l s =
     attempt (Log_ready_to_sync l s) (\<lambda>ready.
     ensure ready Pending
       (let durable = unat (e_last (bt_envelope (sm_batch s))) in
        Inr (l\<lparr>lg_durable := durable, lg_fenced := True, lg_cohort := None\<rparr>, durable)))"

definition Log_drained :: "Log \<Rightarrow> unit log_result" where
  "Log_drained l =
     attempt (Log_healthy l) (\<lambda>_.
     if lg_rotating l \<or> lg_cohort l \<noteq> None \<or> lg_pending_descriptors l \<noteq> 0 \<or> lg_issued l \<noteq> lg_published l
        \<or> lg_durable l \<noteq> lg_published l
     then Inl Pending else Inr ())"

section \<open>Rotation\<close>

record Boundary =
  bd_segment :: nat
  bd_offset :: nat
  bd_next_batch :: nat
  bd_issued :: nat
  bd_published :: nat
  bd_durable :: nat

definition Boundary_matches :: "Boundary \<Rightarrow> Log \<Rightarrow> unit log_result" where
  "Boundary_matches b l = attempt (Log_current l) (\<lambda>segment.
     ensure (lg_rotating l \<and> bd_segment b = sg_id segment \<and> bd_offset b = lg_offset l \<and> bd_next_batch b = lg_next_batch l \<and>
             bd_issued b = lg_issued l \<and> bd_published b = lg_published l \<and> bd_durable b = lg_durable l)
       (Io (InvalidData ''rotation no longer owns its sequenced boundary'')) (Inr ()))"

record Rotation =
  ro_boundary :: Boundary
  ro_config :: LogConfig
  ro_highest :: u64
  ro_epoch :: "u64 option"

record Rotated =
  rd_boundary :: Boundary
  rd_segment :: LogSegment
  rd_allocated :: nat

definition Log_rotation :: "bool \<Rightarrow> unit result \<Rightarrow> Log \<Rightarrow> u64 option \<Rightarrow> (Log \<times> Rotation) log_result" where
  "Log_rotation pins_granted resources l epoch =
     attempt (Log_healthy l) (\<lambda>_.
     ensure (\<not> (lg_rotating l \<or> lg_cohort l \<noteq> None \<or> lg_issued l \<noteq> lg_published l)) Pending
    (ensure (case nchecked_add (lg_allocated_bytes l) (unat (cf_segment_bytes (lg_config l))) of
               None \<Rightarrow> False | Some bytes \<Rightarrow> bytes \<le> lm_staging_bytes (lg_limits l)) Capacity
    (attempt (ok_or (nchecked_add (lg_encoded_bytes l) BLOCK_SIZE) Exhausted) (\<lambda>_.
     attempt (map_err Io (Pins_new pins_granted (unat (cf_segment_bytes (lg_config l))))) (\<lambda>_.
     attempt (map_err Io resources) (\<lambda>_.
     attempt (Log_current l) (\<lambda>segment.
     Inr (l\<lparr>lg_rotating := True\<rparr>,
          \<lparr>ro_boundary = \<lparr>bd_segment = sg_id segment, bd_offset = lg_offset l, bd_next_batch = lg_next_batch l,
             bd_issued = lg_issued l, bd_published = lg_published l, bd_durable = lg_durable l\<rparr>,
           ro_config = lg_config l, ro_highest = lg_highest_segment l, ro_epoch = epoch\<rparr>))))))))"

datatype RotationKind = Kind_rollover | Kind_fresh_attachment

definition Log_prepare_rotation :: "bool \<Rightarrow> unit result \<Rightarrow> Log \<Rightarrow> RotationKind \<Rightarrow> (Log \<times> Rotation) log_result" where
  "Log_prepare_rotation pins_granted resources l kind =
     attempt (Log_drained l) (\<lambda>_.
     attempt (Log_current l) (\<lambda>segment.
     Log_rotation pins_granted resources l (case kind of
         Kind_rollover \<Rightarrow> Some (sh_epoch (sg_header segment)) | Kind_fresh_attachment \<Rightarrow> None)))"

definition Log_cancel_rotation :: "Log \<Rightarrow> Rotation \<Rightarrow> Log log_result" where
  "Log_cancel_rotation l r =
     attempt (Log_healthy l) (\<lambda>_. attempt (Boundary_matches (ro_boundary r) l) (\<lambda>_. Inr (l\<lparr>lg_rotating := False\<rparr>)))"

definition Rotation_create :: "nat \<Rightarrow> unit result \<Rightarrow> nat result \<Rightarrow> u64 result option \<Rightarrow> Rotation \<Rightarrow> Rotated result" where
  "Rotation_create i io allocated ticket r =
     attempt (segment_create i io (ro_config r) ticket (ro_highest r) (ro_epoch r) (word_of_nat (bd_published (ro_boundary r)))) (\<lambda>segment.
     attempt allocated (\<lambda>allocated.
     Inr \<lparr>rd_boundary = ro_boundary r, rd_segment = segment, rd_allocated = allocated\<rparr>))"

text \<open>Exceeding the staging limit here is terminal: the log fails before the error is returned.\<close>

definition Log_install_rotation :: "Log \<Rightarrow> Rotated \<Rightarrow> Log \<times> unit log_result" where
  "Log_install_rotation l c =
     (case attempt (Log_healthy l) (\<lambda>_. Boundary_matches (rd_boundary c) l) of
        Inl e \<Rightarrow> (l, Inl e)
      | Inr _ \<Rightarrow>
         (case nchecked_add (lg_allocated_bytes l) (rd_allocated c) of
            None \<Rightarrow> (Log_fail l, Inl Capacity)
          | Some allocated \<Rightarrow>
              if allocated \<le> lm_staging_bytes (lg_limits l)
              then (l\<lparr>lg_highest_segment := sh_number (sg_header (rd_segment c)), lg_allocated_bytes := allocated,
                      lg_segments := lg_segments l @ [rd_segment c], lg_offset := BLOCK_SIZE, lg_next_batch := 1,
                      lg_fenced := False, lg_rotating := False,
                      lg_encoded_bytes := wrapping_add (lg_encoded_bytes l) BLOCK_SIZE\<rparr>, Inr ())
              else (Log_fail l, Inl Capacity)))"

section \<open>The synchronous paths\<close>

text \<open>The outcomes of the file operations one synchronous call may perform.\<close>

record LogIo =
  li_pins :: bool
  li_resources :: "unit result"
  li_segment :: nat
  li_create :: "unit result"
  li_allocated :: "nat result"
  li_ticket :: "u64 result option"
  li_write :: "unit result"
  li_sync :: "unit result"

definition Log_fail_on_io :: "Log \<Rightarrow> 'a result \<Rightarrow> Log \<times> 'a log_result" where
  "Log_fail_on_io l r = (case r of Inr v \<Rightarrow> (l, Inr v) | Inl e \<Rightarrow> (Log_fail l, Inl (Io e)))"

definition Log_rotate :: "LogIo \<Rightarrow> Log \<Rightarrow> u64 option \<Rightarrow> Log \<times> unit log_result" where
  "Log_rotate io l epoch = (case Log_rotation (li_pins io) (li_resources io) l epoch of
      Inl e \<Rightarrow> (l, Inl e)
    | Inr (l, prepared) \<Rightarrow>
        (case Log_fail_on_io l (Rotation_create (li_segment io) (li_create io) (li_allocated io) (li_ticket io) prepared) of
           (l, Inl e) \<Rightarrow> (l, Inl e)
         | (l, Inr created) \<Rightarrow> Log_install_rotation l created))"

definition Log_rollover :: "LogIo \<Rightarrow> Log \<Rightarrow> Log \<times> unit log_result" where
  "Log_rollover io l = (case Log_drained l of
      Inl e \<Rightarrow> (l, Inl e)
    | Inr _ \<Rightarrow> (case Log_current l of
         Inl e \<Rightarrow> (l, Inl e)
       | Inr segment \<Rightarrow> Log_rotate io l (Some (sh_epoch (sg_header segment)))))"

definition Log_new_attachment :: "LogIo \<Rightarrow> Log \<Rightarrow> Log \<times> unit log_result" where
  "Log_new_attachment io l = (case Log_drained l of Inl e \<Rightarrow> (l, Inl e) | Inr _ \<Rightarrow> Log_rotate io l None)"

text \<open>A fence that finds no room rolls over to a fresh segment and is prepared there.\<close>

definition flush_fence :: "(bytes \<Rightarrow> u32) \<Rightarrow> LogIo \<Rightarrow> Log \<Rightarrow> Log \<times> Submission log_result" where
  "flush_fence crc io l = (case Log_prepare_fence crc l of
      Inr (l', s) \<Rightarrow> (l', Inr s)
    | Inl e \<Rightarrow> if e \<noteq> Rollover then (l, Inl e)
        else (case Log_rollover io l of
           (l, Inl e) \<Rightarrow> (l, Inl e)
         | (l, Inr _) \<Rightarrow> (case Log_prepare_fence crc l of Inl e \<Rightarrow> (l, Inl e) | Inr (l', s) \<Rightarrow> (l', Inr s))))"

definition Log_flush :: "(bytes \<Rightarrow> u32) \<Rightarrow> LogIo \<Rightarrow> Log \<Rightarrow> Log \<times> nat log_result" where
  "Log_flush crc io l =
     (if lg_failed l then (l, Inl Failed)
      else if lg_cohort l \<noteq> None \<or> lg_issued l \<noteq> lg_published l then (l, Inl Pending)
      else if Log_covers_flush l (lg_published l) then (l, Inr (lg_durable l))
      else (case flush_fence crc io l of
         (l, Inl e) \<Rightarrow> (l, Inl e)
       | (l, Inr fence) \<Rightarrow> (case Log_fail_on_io l (attempt (li_write io) (\<lambda>_. li_sync io)) of
           (l, Inl e) \<Rightarrow> (l, Inl e)
         | (l, Inr _) \<Rightarrow> (case Log_complete_sync l fence of Inl e \<Rightarrow> (l, Inl e) | Inr (l, d) \<Rightarrow> (l, Inr d)))))"

definition append_rollover :: "(bytes \<Rightarrow> u32) \<Rightarrow> LogIo \<Rightarrow> Log \<Rightarrow> Builder \<Rightarrow> Log \<times> unit log_result" where
  "append_rollover crc io l b = (case Log_check_append l b of
      Inr _ \<Rightarrow> (l, Inr ())
    | Inl e \<Rightarrow> if e \<noteq> Rollover then (l, Inl e)
        else (case Log_flush crc io l of (l, Inl e) \<Rightarrow> (l, Inl e) | (l, Inr _) \<Rightarrow> Log_rollover io l))"

definition Log_append :: "(bytes \<Rightarrow> u32) \<Rightarrow> LogIo \<Rightarrow> Log \<Rightarrow> Builder \<Rightarrow> Log \<times> Batch log_result" where
  "Log_append crc io l b = (case append_rollover crc io l b of
      (l, Inl e) \<Rightarrow> (l, Inl e)
    | (l, Inr _) \<Rightarrow> (case Log_prepare_append crc l b of
        Inl e \<Rightarrow> (l, Inl e)
      | Inr (l, submission) \<Rightarrow> (case Log_fail_on_io l (li_write io) of
          (l, Inl e) \<Rightarrow> (l, Inl e)
        | (l, Inr _) \<Rightarrow> (case Log_publish_append crc l submission of
            Inl e \<Rightarrow> (l, Inl e)
          | Inr l \<Rightarrow> (l, Inr (sm_batch submission))))))"

section \<open>The sequencing invariant\<close>

definition Log_inv :: "Log \<Rightarrow> bool" where
  "Log_inv l \<longleftrightarrow>
     unat (cf_segment_bytes (lg_config l)) < 2 ^ 44 \<and>
     lg_segments l \<noteq> [] \<and> sh_number (sg_header (List.last (lg_segments l))) \<noteq> 0 \<and>
     Intervals_inv (lg_index l) \<and> ii_limit (lg_index l) = lm_intervals (lg_limits l) \<and>
     length (ii_map (lg_index l)) + 2 * lg_pending_descriptors l \<le> lm_intervals (lg_limits l) \<and>
     lg_issued l = lg_published l + lg_pending_descriptors l \<and> lg_issued l \<le> u64_max \<and>
     lg_durable l \<le> lg_published l \<and>
     (\<forall>c. lg_cohort l = Some c \<longrightarrow> unat (co_boundary c) = lg_issued l) \<and>
     4096 \<le> lg_offset l \<and> lg_offset l \<le> unat (cf_segment_bytes (lg_config l)) \<and>
     (lg_cohort l = None \<longrightarrow> lg_issued l \<noteq> lg_durable l \<longrightarrow> lg_offset l + 4096 \<le> unat (cf_segment_bytes (lg_config l))) \<and>
     1 \<le> lg_next_batch l \<and> lg_next_batch l \<le> u64_max \<and>
     (\<forall>x r. Intervals_at (lg_index l) x r \<longrightarrow> fst r \<le> lg_published l) \<and>
     1060864 \<le> unat (cf_segment_bytes (lg_config l))"

text \<open>What the sequencer knows of an append submission it handed out.\<close>

definition Submission_ok :: "(bytes \<Rightarrow> u32) \<Rightarrow> Log \<Rightarrow> Submission \<Rightarrow> bool" where
  "Submission_ok crc l s \<longleftrightarrow>
     (\<forall>h. Header_decode crc (take 4096 (Batch_bytes (sm_batch s))) (cf_image_bytes (lg_config l)) = Inr h \<longrightarrow>
        unat (e_last (h_envelope h)) \<le> lg_issued l)"

lemma Log_invD:
  assumes "Log_inv l"
  shows "unat (cf_segment_bytes (lg_config l)) < 2 ^ 44"
    and "lg_segments l \<noteq> []" and "sh_number (sg_header (List.last (lg_segments l))) \<noteq> 0"
    and "Intervals_inv (lg_index l)" and "ii_limit (lg_index l) = lm_intervals (lg_limits l)"
    and "length (ii_map (lg_index l)) + 2 * lg_pending_descriptors l \<le> lm_intervals (lg_limits l)"
    and "lg_issued l = lg_published l + lg_pending_descriptors l" and "lg_issued l \<le> u64_max"
    and "lg_durable l \<le> lg_published l"
    and "lg_cohort l = Some c \<Longrightarrow> unat (co_boundary c) = lg_issued l"
    and "4096 \<le> lg_offset l" and "lg_offset l \<le> unat (cf_segment_bytes (lg_config l))"
    and "lg_cohort l = None \<Longrightarrow> lg_issued l \<noteq> lg_durable l \<Longrightarrow> lg_offset l + 4096 \<le> unat (cf_segment_bytes (lg_config l))"
    and "1 \<le> lg_next_batch l" and "lg_next_batch l \<le> u64_max"
    and "Intervals_at (lg_index l) x r \<Longrightarrow> fst r \<le> lg_published l"
    and "1060864 \<le> unat (cf_segment_bytes (lg_config l))"
  using assms unfolding Log_inv_def by blast+

lemma u64_nat [simp]: "unat (w :: u64) \<le> u64_max"
proof -
  have "unat w < 2 ^ 64" using unsigned_less [of w] by simp
  then show ?thesis by (simp add: u64_max_def)
qed

lemma unat_of_nat_u64: "n \<le> u64_max \<Longrightarrow> unat (word_of_nat n :: u64) = n"
  by (simp add: unat_of_nat u64_max_def)

lemma Log_create_in_inv:
  assumes "Log_create_in i nodes g res io al c lim ticket = Inr l"
  shows "Log_inv l"
  using assms
  by (auto simp: Pins_new_def Let_def less_mult_imp_div_less div_less_iff_less_mult Log_create_in_def Log_inv_def Log_empty_def Intervals_inv_def intervals_ok_def Intervals_at_def maps_to_def
      segment_create_def Segment_create_def SegmentHeader_validate_def Config_validate_def MAX_BATCH_BYTES_def BLOCK_SIZE_def
      u64_max_def Config_header_def MAX_REQUEST_BYTES_def split: if_splits)

text \<open>What a decoded append says of its sequences.\<close>

lemma decoded_append:
  assumes "Header_decode crc bs img = Inr h" and "\<not> e_fence (h_envelope h)"
  shows "1 \<le> e_descriptors (h_envelope h)"
    and "unat (e_last (h_envelope h)) + 1 = unat (e_first (h_envelope h)) + e_descriptors (h_envelope h)"
proof -
  let ?e = "h_envelope h"
  from assms have n: "e_descriptors ?e \<le> 63" "e_descriptors ?e \<noteq> 0"
    and add: "checked_add (e_first ?e) (word_of_nat (e_descriptors ?e) - 1) = Some (e_last ?e)"
    by (auto simp: Header_decode_def wal_constants Let_def split: if_splits)
  have "unat (word_of_nat (e_descriptors ?e) - 1 :: u64) = e_descriptors ?e - 1"
    using n by (simp add: unat_sub_if' unat_of_nat)
  then show "unat (e_last ?e) + 1 = unat (e_first ?e) + e_descriptors ?e"
    using checked_add_unat [OF add] n by simp
  show "1 \<le> e_descriptors ?e" using n by simp
qed

lemma decoded_descriptor:
  assumes "Header_decode crc bs img = Inr h" and "d \<in> set (Header_descriptors h)"
  shows "unat (d_offset d) < mp_end (publish_mapping i off d)"
    and "mp_source (publish_mapping i off d) = Some (p, k) \<Longrightarrow>
         k + (mp_end (publish_mapping i off d) - unat (d_offset d)) \<le> pl_bytes p"
    and "unat (d_sequence d) + 1 \<le> unat (e_first (h_envelope h)) + e_descriptors (h_envelope h)"
proof -
  note wf = Header_decode_well_formed(1) [OF assms(1), unfolded batch_well_formed_def]
  have v: "valid_range (d_offset d) (d_length d) img" using wf assms(2) by blast
  then obtain e where e: "checked_add (d_offset d) (d_length d) = Some e" "d_length d \<noteq> 0"
    by (auto simp: valid_range_def split: option.splits)
  have sum: "unat (d_offset d + d_length d) = unat (d_offset d) + unat (d_length d)"
    using e(1) by (auto simp: checked_add_Some unat_add_u64)
  have "unat (d_length d) \<noteq> 0" using e(2) by (simp add: unat_eq_0)
  then show "unat (d_offset d) < mp_end (publish_mapping i off d)" by (simp add: publish_mapping_def sum)
  obtain j where j: "j < length (Header_descriptors h)" "d = Header_descriptors h ! j"
    using assms(2) by (auto simp: in_set_conv_nth)
  have t: "tile_ok (payload_before (Header_descriptors h) j) (e_payload_bytes (h_envelope h)) d" using wf j by blast
  show "mp_source (publish_mapping i off d) = Some (p, k) \<Longrightarrow>
        k + (mp_end (publish_mapping i off d) - unat (d_offset d)) \<le> pl_bytes p"
    using t by (auto simp: publish_mapping_def sum tile_ok_def split: if_splits)
  show "unat (d_sequence d) + 1 \<le> unat (e_first (h_envelope h)) + e_descriptors (h_envelope h)"
    using wf j by auto
qed

text \<open>The content after publishing descriptors in order: the last covering one wins.\<close>

definition covering :: "Descriptor \<Rightarrow> nat \<Rightarrow> bool" where
  "covering d x \<longleftrightarrow> unat (d_offset d) \<le> x \<and> x < unat (d_offset d + d_length d)"

fun published_value :: "nat \<Rightarrow> nat \<Rightarrow> Descriptor list \<Rightarrow> nat \<Rightarrow> (nat \<times> (Payload \<times> nat) option) option" where
  "published_value i off [] x = None"
| "published_value i off (d # ds) x = (case published_value i off ds x of
      Some r \<Rightarrow> Some r
    | None \<Rightarrow> if covering d x then Some (value_at (unat (d_offset d)) (publish_mapping i off d) x) else None)"

lemma publish_descriptors_spec:
  assumes "Intervals_inv ix" and "length (ii_map ix) + 2 * length ds \<le> ii_limit ix"
    and "\<forall>d \<in> set ds. unat (d_offset d) < mp_end (publish_mapping i off d) \<and>
      (\<forall>p k. mp_source (publish_mapping i off d) = Some (p, k) \<longrightarrow> k + (mp_end (publish_mapping i off d) - unat (d_offset d)) \<le> pl_bytes p)"
  shows "\<exists>jx. publish_descriptors i off ds ix = Inr jx \<and> Intervals_inv jx \<and> ii_limit jx = ii_limit ix \<and>
    length (ii_map jx) \<le> length (ii_map ix) + 2 * length ds \<and>
    (\<forall>x r. Intervals_at jx x r \<longleftrightarrow> (case published_value i off ds x of Some v \<Rightarrow> r = v | None \<Rightarrow> Intervals_at ix x r))"
  using assms
proof (induction ds arbitrary: ix)
  case (Cons d ds)
  let ?m = "publish_mapping i off d" and ?o = "unat (d_offset d)"
  have d: "?o < mp_end ?m" "\<And>p k. mp_source ?m = Some (p, k) \<Longrightarrow> k + (mp_end ?m - ?o) \<le> pl_bytes p" using Cons.prems(3) by auto
  obtain kx where kx: "Intervals_replace ix ?o ?m = Inr kx"
    using Intervals_replace_accepts [of ?o ?m ix] d(1) Cons.prems(2) by auto
  note r = Intervals_replace_spec [OF Cons.prems(1) d kx]
  have lim: "ii_limit kx = ii_limit ix" using kx by (auto simp: Intervals_replace_def Let_def)
  obtain jx where jx: "publish_descriptors i off ds kx = Inr jx" "Intervals_inv jx" "ii_limit jx = ii_limit kx"
    "length (ii_map jx) \<le> length (ii_map kx) + 2 * length ds"
    "\<And>x r. Intervals_at jx x r \<longleftrightarrow> (case published_value i off ds x of Some v \<Rightarrow> r = v | None \<Rightarrow> Intervals_at kx x r)"
    using Cons.IH [OF r(1)] r(2) Cons.prems lim by auto
  have cov: "covering d x \<longleftrightarrow> ?o \<le> x \<and> x < mp_end ?m" for x by (simp add: covering_def publish_mapping_def)
  have "Intervals_at jx x v \<longleftrightarrow> (case published_value i off (d # ds) x of Some w \<Rightarrow> v = w | None \<Rightarrow> Intervals_at ix x v)" for x v
    by (cases "published_value i off ds x") (simp_all add: jx(5) r(3) cov)
  then show ?case using jx(1-4) kx lim r(2) by (intro exI [of _ jx]) simp
qed simp

section \<open>Every operation keeps the invariant\<close>

lemma Log_current_inv: "Log_inv l \<Longrightarrow> Log_current l = Inr (List.last (lg_segments l))"
  by (simp add: Log_inv_def Log_current_def)

lemma Log_publish_append_effect:
  assumes inv: "Log_inv l" and ok: "Submission_ok crc l s" and healthy: "\<not> lg_failed l" and owns: "Log_owns l s = Inr ()"
    and dec: "Header_decode crc (take BLOCK_SIZE (Batch_bytes (sm_batch s))) (cf_image_bytes (lg_config l)) = Inr h"
    and app: "\<not> e_fence (h_envelope h)" "unat (e_first (h_envelope h)) = lg_published l + 1"
  shows "\<exists>ix. Log_publish_append crc l s = Inr (l\<lparr>lg_index := ix, lg_published := unat (e_last (h_envelope h)),
      lg_pending_descriptors := lg_pending_descriptors l - e_descriptors (h_envelope h)\<rparr>) \<and>
    Log_inv (l\<lparr>lg_index := ix, lg_published := unat (e_last (h_envelope h)),
      lg_pending_descriptors := lg_pending_descriptors l - e_descriptors (h_envelope h)\<rparr>) \<and>
    (\<forall>x r. Intervals_at ix x r \<longleftrightarrow>
      (case published_value (sm_segment s) (sm_offset s) (Header_descriptors h) x of Some v \<Rightarrow> r = v | None \<Rightarrow> Intervals_at (lg_index l) x r))"
proof -
  let ?e = "h_envelope h" and ?ds = "Header_descriptors h" and ?i = "sm_segment s" and ?o = "sm_offset s"
  note I = Log_invD [OF inv]
  note last = decoded_append [OF dec app(1)]
  have len: "length ?ds = e_descriptors ?e"
    using Header_decode_well_formed(1) [OF dec] by (simp add: batch_well_formed_def)
  have "unat (e_last ?e) \<le> lg_issued l" using ok dec by (simp add: Submission_ok_def BLOCK_SIZE_def)
  then have n: "e_descriptors ?e \<le> lg_pending_descriptors l" using last(2) app(2) I(7) by simp
  have room: "length (ii_map (lg_index l)) + 2 * length ?ds \<le> ii_limit (lg_index l)" using I(5,6) n len by simp
  have ds: "\<forall>d \<in> set ?ds. unat (d_offset d) < mp_end (publish_mapping ?i ?o d) \<and>
      (\<forall>p k. mp_source (publish_mapping ?i ?o d) = Some (p, k) \<longrightarrow> k + (mp_end (publish_mapping ?i ?o d) - unat (d_offset d)) \<le> pl_bytes p)"
    using decoded_descriptor [OF dec] by blast
  obtain jx where jx: "publish_descriptors ?i ?o ?ds (lg_index l) = Inr jx" "Intervals_inv jx" "ii_limit jx = ii_limit (lg_index l)"
    "length (ii_map jx) \<le> length (ii_map (lg_index l)) + 2 * length ?ds"
    "\<forall>x r. Intervals_at jx x r \<longleftrightarrow> (case published_value ?i ?o ?ds x of Some v \<Rightarrow> r = v | None \<Rightarrow> Intervals_at (lg_index l) x r)"
    using publish_descriptors_spec [OF I(4) room ds] by blast
  have pend: "lg_pending_descriptors l \<le> u64_max" using I(7,8) by simp
  have run: "Log_publish_append crc l s = Inr (l\<lparr>lg_index := jx, lg_published := unat (e_last ?e),
      lg_pending_descriptors := lg_pending_descriptors l - e_descriptors ?e\<rparr>)"
    using healthy owns dec app jx(1) n wrapping_sub_exact [OF n pend] u64_nat [of "e_first ?e"]
    by (simp add: Log_publish_append_def Log_healthy_def Let_def Log_publish_def nchecked_add_def)
  have seq: "fst v \<le> unat (e_last ?e)" if "published_value ?i ?o ds x = Some v" "set ds \<subseteq> set ?ds" for ds x v
    using that
  proof (induction ds)
    case (Cons d ds)
    have "unat (d_sequence d) \<le> unat (e_last ?e)"
      using decoded_descriptor(3) [OF dec, of d] Cons.prems(2) last(2) by simp
    then show ?case using Cons by (auto simp: value_at_def publish_mapping_def split: option.splits if_splits)
  qed simp
  have seqs: "fst r \<le> unat (e_last ?e)" if "Intervals_at jx x r" for x r
  proof (cases "published_value ?i ?o ?ds x")
    case None
    then have "Intervals_at (lg_index l) x r" using that jx(5) by simp
    then show ?thesis using I(16) last app(2) by fastforce
  next
    case (Some v)
    then show ?thesis using that jx(5) seq [OF Some] by simp
  qed
  have eqs: "unat (e_last ?e) = lg_published l + e_descriptors ?e" using last app(2) by simp
  have "Log_inv (l\<lparr>lg_index := jx, lg_published := unat (e_last ?e),
      lg_pending_descriptors := lg_pending_descriptors l - e_descriptors ?e\<rparr>)"
    unfolding Log_inv_def using I(1-3) I(5-15) I(17) jx(2-4) n len eqs seqs by simp
  then show ?thesis using run jx(5) by blast
qed

lemma Log_publish_append_cases:
  assumes "Log_publish_append crc l s = Inr l'"
  obtains h where "\<not> lg_failed l" "Log_owns l s = Inr ()"
    "Header_decode crc (take BLOCK_SIZE (Batch_bytes (sm_batch s))) (cf_image_bytes (lg_config l)) = Inr h"
    "\<not> e_fence (h_envelope h)" "unat (e_first (h_envelope h)) = lg_published l + 1"
  using assms by (auto simp: Log_publish_append_def Log_healthy_def Let_def split: if_splits)

lemma half_room:
  assumes "b \<le> (limit - m) div 2 - p" and "m + 2 * p \<le> limit"
  shows "m + 2 * (p + b) \<le> (limit :: nat)"
proof -
  have "2 * ((limit - m) div 2) \<le> limit - m" by simp
  moreover have "p \<le> (limit - m) div 2" using assms(2) by (simp add: less_eq_div_iff_mult_less_eq)
  then have "p + b \<le> (limit - m) div 2" using assms(1) by simp
  ultimately have "2 * (p + b) \<le> limit - m" by (meson le_trans mult_le_mono2)
  then show ?thesis using assms(2) by simp
qed

lemma Log_check_append_facts:
  assumes inv: "Log_inv l" and chk: "Log_check_append l b = Inr ()" and pay: "b_payload_bytes b \<le> 1048576"
  shows "\<not> lg_failed l" and "lg_cohort l = None" and "\<not> lg_rotating l" and "1 \<le> b_descriptors b" and "b_image_bytes b = cf_image_bytes (lg_config l)"
    and "length (ii_map (lg_index l)) + 2 * (lg_pending_descriptors l + b_descriptors b) \<le> lm_intervals (lg_limits l)"
    and "lg_issued l + b_descriptors b \<le> u64_max" and "lg_next_batch l + 1 \<le> u64_max"
    and "lg_offset l + 4096 + b_payload_bytes b + 4096 \<le> unat (cf_segment_bytes (lg_config l))"
proof -
  note I = Log_invD [OF inv]
  show "\<not> lg_failed l" and "lg_cohort l = None" and "\<not> lg_rotating l" and "1 \<le> b_descriptors b" and "b_image_bytes b = cf_image_bytes (lg_config l)"
    and "lg_issued l + b_descriptors b \<le> u64_max" and "lg_next_batch l + 1 \<le> u64_max"
    using chk by (auto simp: Log_check_append_def Log_healthy_def split: if_splits)
  have "b_descriptors b \<le> Log_append_capacity l"
    using chk by (auto simp: Log_check_append_def)
  then show "length (ii_map (lg_index l)) + 2 * (lg_pending_descriptors l + b_descriptors b) \<le> lm_intervals (lg_limits l)"
    using half_room [OF _ I(6)] unfolding Log_append_capacity_def by blast
  have "wrapping_add (wrapping_add (lg_offset l) (4096 + b_payload_bytes b)) 4096 \<le> unat (cf_segment_bytes (lg_config l))"
    using chk by (auto simp: Log_check_append_def Let_def BLOCK_SIZE_def)
  moreover have "lg_offset l + (4096 + b_payload_bytes b) + 4096 \<le> u64_max"
    using I(1,12) pay by (simp add: u64_max_def)
  ultimately show "lg_offset l + 4096 + b_payload_bytes b + 4096 \<le> unat (cf_segment_bytes (lg_config l))"
    by (simp add: wrapping_add_exact)
qed

text \<open>A reservation moves the end of the log by the batch's bytes.\<close>

lemma Log_reserve_eq:
  assumes inv: "Log_inv l" and nb: "lg_next_batch l + 1 \<le> u64_max"
    and room: "lg_offset l + length (Batch_bytes batch) \<le> unat (cf_segment_bytes (lg_config l))"
  shows "\<exists>segs enc. Log_reserve l batch = Inr (l\<lparr>lg_offset := lg_offset l + length (Batch_bytes batch), lg_segments := segs,
      lg_encoded_bytes := enc, lg_next_batch := lg_next_batch l + 1\<rparr>,
      \<lparr>sm_batch = batch, sm_segment = sg_id (List.last (lg_segments l)), sm_offset = lg_offset l\<rparr>) \<and>
    segs \<noteq> [] \<and> sh_number (sg_header (List.last segs)) = sh_number (sg_header (List.last (lg_segments l))) \<and>
    sg_id (List.last segs) = sg_id (List.last (lg_segments l))"
proof -
  note I = Log_invD [OF inv]
  have "lg_offset l + length (Batch_bytes batch) \<le> u64_max" using room I(1) by (simp add: u64_max_def)
  then have "Log_reserve l batch = Inr (l\<lparr>lg_offset := lg_offset l + length (Batch_bytes batch),
      lg_segments := butlast (lg_segments l) @ [(List.last (lg_segments l))\<lparr>sg_end := lg_offset l + length (Batch_bytes batch)\<rparr>],
      lg_encoded_bytes := wrapping_add (lg_encoded_bytes l) (length (Batch_bytes batch)), lg_next_batch := lg_next_batch l + 1\<rparr>,
      \<lparr>sm_batch = batch, sm_segment = sg_id (List.last (lg_segments l)), sm_offset = lg_offset l\<rparr>)"
    using nb by (simp add: Log_reserve_def Log_current_inv [OF inv] Let_def wrapping_add_exact)
  then show ?thesis by (intro exI conjI, assumption) simp_all
qed

lemma sealed_facts:
  assumes "built crc b rs" and "Builder_seal crc b segment batch first = Inr bt"
  shows "b_descriptors b = length rs" and "b_payload_bytes b \<le> 1048576"
    and "length (Batch_bytes bt) = 4096 + b_payload_bytes b"
    and "unat (e_last (bt_envelope bt)) + 1 = unat first + length rs" and "\<not> e_fence (bt_envelope bt)"
proof -
  note r = seal_roundtrip [OF assms]
  from built_inv [OF assms(1)] show n: "b_descriptors b = length rs" and "b_payload_bytes b \<le> 1048576"
    by (auto simp: Builder_inv_def Let_def)
  have pay: "length (payload_of rs) = b_payload_bytes b" using built_inv [OF assms(1)] by (auto simp: Builder_inv_def Let_def)
  have "length (take 4096 (Batch_bytes bt)) = 4096" using Header_decode_well_formed(3) [OF r(1)] .
  moreover have "length (drop 4096 (Batch_bytes bt)) = b_payload_bytes b" using r(3) pay by simp
  ultimately show "length (Batch_bytes bt) = 4096 + b_payload_bytes b" by simp
  show "\<not> e_fence (bt_envelope bt)" using r(5) by simp
  with decoded_append(2) [OF r(1)] show "unat (e_last (bt_envelope bt)) + 1 = unat first + length rs" using r(5) by simp
qed

lemma built_payload: "built crc b rs \<Longrightarrow> b_payload_bytes b \<le> 1048576 \<and> b_descriptors b = length rs"
  using built_inv [of crc b rs] by (auto simp: Builder_inv_def Let_def)

lemma Log_prepare_append_spec:
  assumes inv: "Log_inv l" and built: "built crc b rs" and prep: "Log_prepare_append crc l b = Inr (l', s)"
  shows "Log_inv l'" and "Submission_ok crc l' s" and "lg_config l' = lg_config l" and "lg_issued l' = lg_issued l + length rs"
    and "lg_published l' = lg_published l" and "lg_durable l' = lg_durable l" and "lg_index l' = lg_index l"
    and "\<exists>segs enc. l' = l\<lparr>lg_offset := lg_offset l + 4096 + b_payload_bytes b, lg_segments := segs, lg_encoded_bytes := enc,
      lg_next_batch := lg_next_batch l + 1, lg_issued := lg_issued l + length rs,
      lg_pending_descriptors := lg_pending_descriptors l + length rs\<rparr> \<and> segs \<noteq> [] \<and>
      sh_number (sg_header (List.last segs)) = sh_number (sg_header (List.last (lg_segments l)))"
proof -
  note I = Log_invD [OF inv]
  have pay: "b_payload_bytes b \<le> 1048576" and nd: "b_descriptors b = length rs" using built_payload [OF built] by auto
  have chk: "Log_check_append l b = Inr ()" using prep by (auto simp: Log_prepare_append_def)
  note c = Log_check_append_facts [OF inv chk pay]
  have first: "unat (word_of_nat (wrapping_add (lg_issued l) 1) :: u64) = lg_issued l + 1"
  proof -
    have "lg_issued l + 1 \<le> u64_max" using c(4,7) by simp
    then show ?thesis using unat_of_nat_u64 [of "lg_issued l + 1"] by (simp only: wrapping_add_exact)
  qed
  obtain bt where bt: "Builder_seal crc b (sh_number (sg_header (List.last (lg_segments l)))) (word_of_nat (lg_next_batch l))
      (word_of_nat (wrapping_add (lg_issued l) 1)) = Inr bt"
    using prep by (auto simp: Log_prepare_append_def Log_current_inv [OF inv])
  note sf = sealed_facts [OF built bt] and rt = seal_roundtrip [OF built bt]
  have room: "lg_offset l + length (Batch_bytes bt) \<le> unat (cf_segment_bytes (lg_config l))" using c(9) sf(3) by simp
  obtain segs enc where res: "Log_reserve l bt = Inr (l\<lparr>lg_offset := lg_offset l + length (Batch_bytes bt), lg_segments := segs,
      lg_encoded_bytes := enc, lg_next_batch := lg_next_batch l + 1\<rparr>,
      \<lparr>sm_batch = bt, sm_segment = sg_id (List.last (lg_segments l)), sm_offset = lg_offset l\<rparr>)"
    "segs \<noteq> []" "sh_number (sg_header (List.last segs)) = sh_number (sg_header (List.last (lg_segments l)))"
    using Log_reserve_eq [OF inv c(8) room] by blast
  have last: "unat (e_last (bt_envelope bt)) = lg_issued l + length rs" using sf(4) first by simp
  have l': "l' = l\<lparr>lg_offset := lg_offset l + length (Batch_bytes bt), lg_segments := segs, lg_encoded_bytes := enc,
      lg_next_batch := lg_next_batch l + 1, lg_issued := lg_issued l + length rs,
      lg_pending_descriptors := lg_pending_descriptors l + length rs\<rparr>"
    and s: "sm_batch s = bt"
    using prep chk bt res(1) last nd by (auto simp: Log_prepare_append_def Log_current_inv [OF inv])
  show "\<exists>segs enc. l' = l\<lparr>lg_offset := lg_offset l + 4096 + b_payload_bytes b, lg_segments := segs, lg_encoded_bytes := enc,
      lg_next_batch := lg_next_batch l + 1, lg_issued := lg_issued l + length rs,
      lg_pending_descriptors := lg_pending_descriptors l + length rs\<rparr> \<and> segs \<noteq> [] \<and>
      sh_number (sg_header (List.last segs)) = sh_number (sg_header (List.last (lg_segments l)))"
    using l' res(2,3) sf(3) by (intro exI [of _ segs] exI [of _ enc]) (simp add: add.assoc)
  show "Log_inv l'"
    unfolding Log_inv_def l' using I(1,3-17) c(2,4,6-9) nd sf(3) res(2,3) by auto
  show "lg_config l' = lg_config l" "lg_issued l' = lg_issued l + length rs" "lg_published l' = lg_published l"
    "lg_durable l' = lg_durable l" "lg_index l' = lg_index l" by (simp_all add: l')
  show "Submission_ok crc l' s"
    using rt(1) c(5) last by (auto simp: Submission_ok_def s l')
qed

lemma length_fence: "Batch_fence crc segment batch boundary = Inr bt \<Longrightarrow> length (Batch_bytes bt) = 4096"
  using Header_decode_well_formed(3) [OF fence_roundtrip] by blast

lemma Log_prepare_fence_eq:
  assumes inv: "Log_inv l" and "\<not> lg_failed l" "lg_cohort l = None" "\<not> lg_rotating l" "lg_next_batch l + 1 \<le> u64_max"
    "lg_offset l + 4096 \<le> unat (cf_segment_bytes (lg_config l))"
  shows "\<exists>segs enc c s. Log_prepare_fence crc l = Inr (l\<lparr>lg_offset := lg_offset l + 4096, lg_segments := segs,
      lg_encoded_bytes := enc, lg_next_batch := lg_next_batch l + 1, lg_cohort := Some c\<rparr>, s) \<and>
    segs \<noteq> [] \<and> sh_number (sg_header (List.last segs)) = sh_number (sg_header (List.last (lg_segments l))) \<and>
    c = Cohort_from s \<and> unat (co_boundary c) = lg_issued l \<and> e_fence (bt_envelope (sm_batch s)) \<and>
    Log_owns (l\<lparr>lg_offset := lg_offset l + 4096, lg_segments := segs, lg_encoded_bytes := enc,
       lg_next_batch := lg_next_batch l + 1, lg_cohort := Some c\<rparr>) s = Inr ()"
proof -
  note I = Log_invD [OF inv]
  let ?n = "sh_number (sg_header (List.last (lg_segments l)))"
  have "unat (word_of_nat (lg_next_batch l) :: u64) = lg_next_batch l" by (rule unat_of_nat_u64) (rule I(15))
  then have nb: "(word_of_nat (lg_next_batch l) :: u64) \<noteq> 0" using I(14) by (metis not_one_le_zero unat_0)
  obtain bt where bt: "Batch_fence crc ?n (word_of_nat (lg_next_batch l)) (word_of_nat (lg_issued l)) = Inr bt"
    "bt_envelope bt = \<lparr>e_segment = ?n, e_batch = word_of_nat (lg_next_batch l), e_descriptors = 0, e_payload_bytes = 0,
       e_first = word_of_nat (lg_issued l), e_last = word_of_nat (lg_issued l), e_fence = True\<rparr>"
    using nb I(3) by (auto simp: Batch_fence_def Let_def)
  have len: "length (Batch_bytes bt) = 4096" by (rule length_fence) (rule bt(1))
  obtain segs enc where res: "Log_reserve l bt = Inr (l\<lparr>lg_offset := lg_offset l + 4096, lg_segments := segs,
      lg_encoded_bytes := enc, lg_next_batch := lg_next_batch l + 1\<rparr>,
      \<lparr>sm_batch = bt, sm_segment = sg_id (List.last (lg_segments l)), sm_offset = lg_offset l\<rparr>)"
    "segs \<noteq> []" "sh_number (sg_header (List.last segs)) = ?n" "sg_id (List.last segs) = sg_id (List.last (lg_segments l))"
    using Log_reserve_eq [OF inv assms(5), of bt] assms(6) len by auto
  let ?s = "\<lparr>sm_batch = bt, sm_segment = sg_id (List.last (lg_segments l)), sm_offset = lg_offset l\<rparr>"
  have "lg_offset l + 4096 \<le> u64_max" using assms(6) I(1) by (simp add: u64_max_def)
  then have run: "Log_prepare_fence crc l = Inr (l\<lparr>lg_offset := lg_offset l + 4096, lg_segments := segs,
      lg_encoded_bytes := enc, lg_next_batch := lg_next_batch l + 1, lg_cohort := Some (Cohort_from ?s)\<rparr>, ?s)"
    using assms res(1) bt(1)
    by (simp add: Log_prepare_fence_def Log_healthy_def nchecked_add_def BLOCK_SIZE_def wrapping_add_exact Log_current_inv [OF inv])
  have "unat (co_boundary (Cohort_from ?s)) = lg_issued l"
    using bt(2) unat_of_nat_u64 [OF I(8)] by (simp add: Cohort_from_def)
  then show ?thesis using run res(2-4) bt(2)
    by (intro exI [of _ segs] exI [of _ enc] exI [of _ "Cohort_from ?s"] exI [of _ ?s]) (simp add: Log_owns_def Log_current_def)
qed

lemma Log_prepare_fence_spec:
  assumes inv: "Log_inv l" and f: "Log_prepare_fence crc l = Inr (l', s)"
  shows "Log_inv l' \<and> lg_config l' = lg_config l \<and> lg_issued l' = lg_issued l \<and> lg_durable l' = lg_durable l \<and> lg_published l' = lg_published l"
proof -
  note I = Log_invD [OF inv]
  have "lg_offset l + 4096 \<le> u64_max" using I(1,12) by (simp add: u64_max_def)
  then have c: "\<not> lg_failed l" "lg_cohort l = None" "\<not> lg_rotating l" "lg_next_batch l + 1 \<le> u64_max"
    "lg_offset l + 4096 \<le> unat (cf_segment_bytes (lg_config l))"
    using f by (auto simp: Log_prepare_fence_def Log_healthy_def BLOCK_SIZE_def wrapping_add_exact split: if_splits)
  from Log_prepare_fence_eq [OF inv c, of crc] f show ?thesis
    using I c by (auto simp: Log_inv_def)
qed

lemma Log_complete_sync_spec:
  assumes inv: "Log_inv l" and f: "Log_complete_sync l s = Inr (l', d)"
  shows "l' = l\<lparr>lg_durable := d, lg_fenced := True, lg_cohort := None\<rparr>" and "d = lg_issued l" and "d = lg_published l"
    and "Log_inv l'"
proof -
  note I = Log_invD [OF inv]
  from f have r: "Log_ready_to_sync l s = Inr True" and l': "l' = l\<lparr>lg_durable := d, lg_fenced := True, lg_cohort := None\<rparr>"
    and d: "d = unat (e_last (bt_envelope (sm_batch s)))"
    by (auto simp: Log_complete_sync_def Let_def)
  from r have c: "lg_cohort l = Some (Cohort_from s)" "lg_published l = d"
    by (auto simp: Log_ready_to_sync_def Let_def d)
  have "unat (co_boundary (Cohort_from s)) = d" by (simp add: Cohort_from_def Let_def d)
  then show "d = lg_issued l" "d = lg_published l" using I(10) [OF c(1)] c(2) by simp_all
  then show "Log_inv l'" unfolding Log_inv_def l' using I by simp
  show "l' = l\<lparr>lg_durable := d, lg_fenced := True, lg_cohort := None\<rparr>" by (rule l')
qed

lemma Log_rotation_spec:
  assumes inv: "Log_inv l" and f: "Log_rotation g res l ep = Inr (l', r)"
  shows "l' = l\<lparr>lg_rotating := True\<rparr>" and "lg_cohort l = None" and "lg_issued l = lg_published l" and "Log_inv l'"
proof -
  from f show l': "l' = l\<lparr>lg_rotating := True\<rparr>" and "lg_cohort l = None" "lg_issued l = lg_published l"
    by (auto simp: Log_rotation_def)
  then show "Log_inv l'" using inv by (simp add: Log_inv_def)
qed

lemma Rotation_create_number: "Rotation_create i io al ticket r = Inr c \<Longrightarrow> sh_number (sg_header (rd_segment c)) \<noteq> 0"
  by (auto simp: Rotation_create_def segment_create_def Segment_create_def SegmentHeader_validate_def)

lemma Log_install_rotation_spec:
  assumes inv: "Log_inv l" and num: "sh_number (sg_header (rd_segment c)) \<noteq> 0" and f: "Log_install_rotation l c = (l', r)"
  shows "Log_inv l' \<and> lg_config l' = lg_config l \<and> lg_issued l' = lg_issued l \<and> lg_durable l' = lg_durable l \<and> lg_published l' = lg_published l"
proof -
  note I = Log_invD [OF inv]
  consider "l' = l" | "l' = Log_fail l"
    | "r = Inr ()" "\<exists>a h e. l' = l\<lparr>lg_highest_segment := h, lg_allocated_bytes := a, lg_segments := lg_segments l @ [rd_segment c],
        lg_offset := BLOCK_SIZE, lg_next_batch := 1, lg_fenced := False, lg_rotating := False, lg_encoded_bytes := e\<rparr>"
    using f by (auto simp: Log_install_rotation_def split: sum.splits option.splits if_splits)
  then show ?thesis
  proof cases
    case 3
    then show ?thesis using I num unfolding Log_inv_def by (auto simp: BLOCK_SIZE_def u64_max_def)
  qed (use inv in \<open>auto simp: Log_fail_def Log_inv_def\<close>)
qed

lemma Submission_ok_mono:
  "Submission_ok crc l s \<Longrightarrow> lg_config l' = lg_config l \<Longrightarrow> lg_issued l \<le> lg_issued l' \<Longrightarrow> Submission_ok crc l' s"
  by (fastforce simp: Submission_ok_def)

section \<open>Every history of the log\<close>

text \<open>
  All sequences of operations of the sequencer. The list holds every append submission handed out;
  their writes may complete, and be offered for publication, in any order. Builders are those the
  builder's operations can produce. Fences and rotation receipts are unconstrained arguments: the
  log itself checks them.
\<close>

inductive log_reach :: "(bytes \<Rightarrow> u32) \<Rightarrow> Log \<Rightarrow> Submission list \<Rightarrow> bool" for crc where
  log_created: "Log_create_in i nodes g res io al c lim ticket = Inr l \<Longrightarrow> log_reach crc l []"
| log_appended: "log_reach crc l ss \<Longrightarrow> built crc b rs \<Longrightarrow> Log_prepare_append crc l b = Inr (l', s) \<Longrightarrow> log_reach crc l' (s # ss)"
| log_published: "log_reach crc l ss \<Longrightarrow> s \<in> set ss \<Longrightarrow> Log_publish_append crc l s = Inr l' \<Longrightarrow> log_reach crc l' ss"
| log_fenced: "log_reach crc l ss \<Longrightarrow> Log_prepare_fence crc l = Inr (l', s) \<Longrightarrow> log_reach crc l' ss"
| log_synced: "log_reach crc l ss \<Longrightarrow> Log_complete_sync l s = Inr (l', d) \<Longrightarrow> log_reach crc l' ss"
| log_rotating: "log_reach crc l ss \<Longrightarrow> Log_rotation g res l ep = Inr (l', r) \<Longrightarrow> log_reach crc l' ss"
| log_cancelled: "log_reach crc l ss \<Longrightarrow> Log_cancel_rotation l r = Inr l' \<Longrightarrow> log_reach crc l' ss"
| log_installed: "log_reach crc l ss \<Longrightarrow> Rotation_create i io al ticket r = Inr c \<Longrightarrow>
    Log_install_rotation l c = (l', res) \<Longrightarrow> log_reach crc l' ss"
| log_failed: "log_reach crc l ss \<Longrightarrow> log_reach crc (Log_fail l) ss"

lemma log_reach_inv: "log_reach crc l ss \<Longrightarrow> Log_inv l \<and> (\<forall>s \<in> set ss. Submission_ok crc l s)"
proof (induction rule: log_reach.induct)
  case (log_created i nodes g res io al c lim ticket l)
  then show ?case by (simp add: Log_create_in_inv)
next
  case (log_appended l ss b rs l' s)
  then have inv: "Log_inv l" by blast
  note p = Log_prepare_append_spec [OF inv log_appended.hyps(2,3)]
  show ?case using p log_appended.IH Submission_ok_mono [of crc l _ l'] by simp
next
  case (log_published l ss s l')
  then have inv: "Log_inv l" and ok: "Submission_ok crc l s" by blast+
  obtain h where h: "\<not> lg_failed l" "Log_owns l s = Inr ()"
    "Header_decode crc (take BLOCK_SIZE (Batch_bytes (sm_batch s))) (cf_image_bytes (lg_config l)) = Inr h"
    "\<not> e_fence (h_envelope h)" "unat (e_first (h_envelope h)) = lg_published l + 1"
    by (rule Log_publish_append_cases [OF log_published.hyps(3)])
  from Log_publish_append_effect [OF inv ok h] log_published.hyps(3)
  have "Log_inv l'" "lg_config l' = lg_config l" "lg_issued l' = lg_issued l" by auto
  then show ?case using log_published.IH Submission_ok_mono [of crc l _ l'] by simp
next
  case (log_fenced l ss l' s)
  then show ?case using Log_prepare_fence_spec [OF _ log_fenced.hyps(2)] Submission_ok_mono [of crc l _ l'] by auto
next
  case (log_synced l ss s l' d)
  then show ?case using Log_complete_sync_spec [OF _ log_synced.hyps(2)] Submission_ok_mono [of crc l _ l'] by auto
next
  case (log_rotating l ss g res ep l' r)
  then show ?case using Log_rotation_spec [OF _ log_rotating.hyps(2)] Submission_ok_mono [of crc l _ l'] by auto
next
  case (log_cancelled l ss r l')
  then have "l' = l\<lparr>lg_rotating := False\<rparr>" by (auto simp: Log_cancel_rotation_def)
  then show ?case using log_cancelled.IH Submission_ok_mono [of crc l _ l'] by (auto simp: Log_inv_def)
next
  case (log_installed l ss i io al ticket r c l' res)
  then show ?case
    using Log_install_rotation_spec [OF _ Rotation_create_number [OF log_installed.hyps(2)] log_installed.hyps(3)]
      Submission_ok_mono [of crc l _ l'] by auto
next
  case (log_failed l ss)
  then show ?case using Submission_ok_mono [of crc l _ "Log_fail l"] by (auto simp: Log_fail_def Log_inv_def)
qed

text \<open>The synchronous paths are sequences of these steps.\<close>

lemma Log_fail_on_io_reach:
  "log_reach crc l ss \<Longrightarrow> Log_fail_on_io l r = (l', q) \<Longrightarrow> log_reach crc l' ss \<and> (\<forall>v. q = Inr v \<longrightarrow> l' = l \<and> r = Inr v)"
  by (auto simp: Log_fail_on_io_def intro: log_failed split: sum.splits)

lemma Log_rotate_reach:
  assumes "log_reach crc l ss" and "Log_rotate io l ep = (l', q)"
  shows "log_reach crc l' ss"
proof (cases "Log_rotation (li_pins io) (li_resources io) l ep")
  case (Inr lr)
  obtain l1 r where lr: "lr = (l1, r)" by (cases lr)
  have r1: "log_reach crc l1 ss" by (rule log_rotating [OF assms(1)]) (use Inr lr in simp)
  obtain l2 c where c: "Log_fail_on_io l1 (Rotation_create (li_segment io) (li_create io) (li_allocated io) (li_ticket io) r) = (l2, c)"
    by (rule prod.exhaust)
  note f = Log_fail_on_io_reach [OF r1 c]
  show ?thesis using assms(2) Inr lr c f by (cases c) (auto simp: Log_rotate_def intro: log_installed)
qed (use assms in \<open>auto simp: Log_rotate_def\<close>)

lemma Log_rollover_reach: "log_reach crc l ss \<Longrightarrow> Log_rollover io l = (l', q) \<Longrightarrow> log_reach crc l' ss"
  by (auto simp: Log_rollover_def intro: Log_rotate_reach split: sum.splits)

lemma flush_fence_reach:
  assumes "log_reach crc l ss" and "flush_fence crc io l = (l', q)"
  shows "log_reach crc l' ss"
proof (cases "Log_prepare_fence crc l")
  case (Inl e)
  obtain l1 r where r: "Log_rollover io l = (l1, r)" by (rule prod.exhaust)
  note l1 = Log_rollover_reach [OF assms(1) r]
  show ?thesis
    using assms Inl r l1 by (auto simp: flush_fence_def intro: log_fenced split: if_splits sum.splits)
next
  case (Inr ls)
  then show ?thesis using assms log_fenced [OF assms(1), of "fst ls" "snd ls"] by (auto simp: flush_fence_def split: prod.splits)
qed

lemma Log_flush_cases:
  assumes l: "log_reach crc l ss" and f: "Log_flush crc io l = (l', q)"
  shows "log_reach crc l' ss"
    and "q = Inr d \<Longrightarrow> d = lg_durable l' \<and> lg_durable l' = lg_issued l' \<and> lg_published l' = lg_issued l' \<and>
      (lg_fenced l \<and> l' = l \<or> li_write io = Inr () \<and> li_sync io = Inr ())"
proof -
  note inv = conjunct1 [OF log_reach_inv [OF l]]
  show "log_reach crc l' ss"
    and "q = Inr d \<Longrightarrow> d = lg_durable l' \<and> lg_durable l' = lg_issued l' \<and> lg_published l' = lg_issued l' \<and>
      (lg_fenced l \<and> l' = l \<or> li_write io = Inr () \<and> li_sync io = Inr ())"
  proof -
    consider (refused) e where "l' = l" "q = Inl e"
      | (covered) "l' = l" "q = Inr (lg_durable l)" "Log_covers_flush l (lg_published l)" "lg_issued l = lg_published l"
      | (fenced) l1 r where "flush_fence crc io l = (l1, r)"
          "(l', q) = (case r of Inl e \<Rightarrow> (l1, Inl e) | Inr fence \<Rightarrow> (case Log_fail_on_io l1 (attempt (li_write io) (\<lambda>_. li_sync io)) of
             (l, Inl e) \<Rightarrow> (l, Inl e)
           | (l, Inr _) \<Rightarrow> (case Log_complete_sync l fence of Inl e \<Rightarrow> (l, Inl e) | Inr (l, d) \<Rightarrow> (l, Inr d))))"
      using f by (auto simp: Log_flush_def split: if_splits prod.splits)
    then have "log_reach crc l' ss \<and> (q = Inr d \<longrightarrow> d = lg_durable l' \<and> lg_durable l' = lg_issued l' \<and> lg_published l' = lg_issued l' \<and>
      (lg_fenced l \<and> l' = l \<or> li_write io = Inr () \<and> li_sync io = Inr ()))"
    proof cases
      case covered
      then show ?thesis using l Log_invD(9) [OF inv] by (auto simp: Log_covers_flush_def)
    next
      case (fenced l1 r)
      have r1: "log_reach crc l1 ss" by (rule flush_fence_reach [OF l fenced(1)])
      obtain l2 w where w: "Log_fail_on_io l1 (attempt (li_write io) (\<lambda>_. li_sync io)) = (l2, w)" by (rule prod.exhaust)
      note r2 = Log_fail_on_io_reach [OF r1 w]
      have synced: "log_reach crc l3 ss \<and> d3 = lg_durable l3 \<and> lg_durable l3 = lg_issued l3 \<and> lg_published l3 = lg_issued l3"
        if "Log_complete_sync l2 fence = Inr (l3, d3)" for fence l3 d3
        using Log_complete_sync_spec [OF conjunct1 [OF log_reach_inv] that] r2 log_synced [OF _ that] by auto
      show ?thesis
        using fenced(2) r1 r2 w synced by (cases r; cases w) (auto split: sum.splits)
    qed (use l in auto)
    then show "log_reach crc l' ss"
      and "q = Inr d \<Longrightarrow> d = lg_durable l' \<and> lg_durable l' = lg_issued l' \<and> lg_published l' = lg_issued l' \<and>
      (lg_fenced l \<and> l' = l \<or> li_write io = Inr () \<and> li_sync io = Inr ())" by blast+
  qed
qed

lemma append_rollover_reach:
  assumes "log_reach crc l ss" and "append_rollover crc io l b = (l', q)"
  shows "log_reach crc l' ss"
proof -
  obtain l1 r where r: "Log_flush crc io l = (l1, r)" by (rule prod.exhaust)
  note l1 = Log_flush_cases(1) [OF assms(1) r]
  show ?thesis
    using assms r l1 by (auto simp: append_rollover_def intro: Log_rollover_reach split: if_splits sum.splits)
qed

section \<open>Properties\<close>

text \<open>
  C7. The sequencing of the write-ahead log. In every state reachable by any sequence of appends,
  publications in any order of completion, fences, syncs, rotations and failures: durable never
  exceeds published nor published issued; the pending descriptors are exactly the issued ones not
  yet published; the interval index has room for all of them even if each splits an interval; no
  mapping is newer than the published prefix; and the physical end stays within the segment.
\<close>
theorem log_sequencing:
  assumes "log_reach crc l ss"
  shows "lg_durable l \<le> lg_published l \<and> lg_published l + lg_pending_descriptors l = lg_issued l \<and>
    length (ii_map (lg_index l)) + 2 * lg_pending_descriptors l \<le> lm_intervals (lg_limits l) \<and>
    (\<forall>x r. Intervals_at (lg_index l) x r \<longrightarrow> fst r \<le> lg_published l) \<and>
    lg_offset l \<le> unat (cf_segment_bytes (lg_config l))"
  using log_reach_inv [OF assms] Log_invD [of l] by auto

text \<open>
  C8. Publication is ordered and exact. In any reachable state of a healthy log, a submission of
  the current segment whose first sequence follows the published prefix is published, never
  panicking for lack of index room; the published prefix moves to its last sequence, every position
  covered by its descriptors then reads the last covering one with the payload location of its
  batch, and every other position reads what it did. A submission further ahead is told to wait.
\<close>
theorem publication_ordered:
  assumes "log_reach crc l ss" and "s \<in> set ss" and "\<not> lg_failed l" and "Log_owns l s = Inr ()"
    and "Header_decode crc (take BLOCK_SIZE (Batch_bytes (sm_batch s))) (cf_image_bytes (lg_config l)) = Inr h"
    and "\<not> e_fence (h_envelope h)" and "lg_published l < unat (e_first (h_envelope h))"
  shows "if unat (e_first (h_envelope h)) = lg_published l + 1
    then \<exists>l'. Log_publish_append crc l s = Inr l' \<and> lg_published l' = unat (e_last (h_envelope h)) \<and>
      (\<forall>x r. Intervals_at (lg_index l') x r \<longleftrightarrow>
        (case published_value (sm_segment s) (sm_offset s) (Header_descriptors h) x of
           Some v \<Rightarrow> r = v | None \<Rightarrow> Intervals_at (lg_index l) x r))
    else Log_publish_append crc l s = Inl Pending"
proof (cases "unat (e_first (h_envelope h)) = lg_published l + 1")
  case True
  have "Log_inv l" "Submission_ok crc l s" using log_reach_inv [OF assms(1)] assms(2) by auto
  from Log_publish_append_effect [OF this assms(3-6) True] True show ?thesis by auto
next
  case False
  then show ?thesis
    using assms(3-7) by (auto simp: Log_publish_append_def Log_healthy_def Let_def ensure_def nchecked_add_def)
qed

text \<open>
  Durability follows publication. When a sync completes in a reachable state, the durable
  prefix becomes everything issued so far, all of which is published, and it never moves backwards;
  with pending appends, or for a fence that is not the active cohort, the sync is refused.
\<close>
theorem sync_covers_issued:
  assumes "log_reach crc l ss" and "Log_complete_sync l s = Inr (l', d)"
  shows "lg_durable l' = lg_issued l \<and> lg_published l = lg_issued l \<and> lg_pending_descriptors l = 0 \<and>
    lg_durable l \<le> lg_durable l' \<and> lg_cohort l' = None \<and> lg_index l' = lg_index l"
proof -
  have inv: "Log_inv l" using log_reach_inv [OF assms(1)] by blast
  note s = Log_complete_sync_spec [OF inv assms(2)]
  show ?thesis using s Log_invD(7,9) [OF inv] by simp
qed

text \<open>
  An append can always be fenced. In any reachable state with an issued append beyond the
  durable prefix and no sync cohort or rotation in progress, preparing a fence succeeds without a
  rollover: the space of the fence was kept when the append was admitted. The cohort it freezes is
  the issued prefix.
\<close>
theorem append_leaves_fence_room:
  assumes "log_reach crc l ss" and "\<not> lg_failed l" and "lg_cohort l = None" and "\<not> lg_rotating l"
    and "lg_issued l \<noteq> lg_durable l" and "lg_next_batch l + 1 \<le> u64_max"
  shows "\<exists>l' s. Log_prepare_fence crc l = Inr (l', s) \<and> lg_cohort l' = Some (Cohort_from s) \<and>
    unat (co_boundary (Cohort_from s)) = lg_issued l"
proof -
  have inv: "Log_inv l" using log_reach_inv [OF assms(1)] by blast
  from Log_prepare_fence_eq [OF inv assms(2-4,6) Log_invD(13) [OF inv assms(3,5)], of crc]
  show ?thesis by auto
qed

text \<open>
  A successful flush makes everything durable. From any reachable state, when the synchronous
  flush returns, rolling over to a fresh segment on the way if it must, the returned boundary is the
  durable prefix, equal to the issued and to the published one; and either the log was already
  covered and is unchanged, or the fence was written and synced. The log stays reachable, so every
  invariant above holds after it, whether it succeeds or fails.
\<close>
theorem flush_makes_durable:
  assumes "log_reach crc l ss" and "Log_flush crc io l = (l', q)"
  shows "log_reach crc l' ss \<and> (\<forall>d. q = Inr d \<longrightarrow>
     d = lg_durable l' \<and> lg_durable l' = lg_issued l' \<and> lg_published l' = lg_issued l' \<and>
     (lg_fenced l \<and> l' = l \<or> li_write io = Inr () \<and> li_sync io = Inr ()))"
  using Log_flush_cases [OF assms] by blast

section \<open>A concrete history\<close>

text \<open>An accepted check is all an append needs: sealing and reserving then succeed.\<close>

lemma Log_prepare_append_accepts:
  assumes inv: "Log_inv l" and built: "built crc b rs" and chk: "Log_check_append l b = Inr ()"
  shows "\<exists>l' s. Log_prepare_append crc l b = Inr (l', s) \<and> Log_owns l' s = Inr () \<and> lg_failed l' = lg_failed l \<and>
    lg_cohort l' = lg_cohort l \<and> lg_rotating l' = lg_rotating l \<and> lg_next_batch l' = lg_next_batch l + 1 \<and>
    (\<exists>h. Header_decode crc (take BLOCK_SIZE (Batch_bytes (sm_batch s))) (cf_image_bytes (lg_config l')) = Inr h \<and>
       \<not> e_fence (h_envelope h) \<and> unat (e_first (h_envelope h)) = lg_issued l + 1)"
proof -
  note I = Log_invD [OF inv]
  have pay: "b_payload_bytes b \<le> 1048576" and nd: "b_descriptors b = length rs" using built_payload [OF built] by auto
  note c = Log_check_append_facts [OF inv chk pay]
  let ?n = "sh_number (sg_header (List.last (lg_segments l)))"
  let ?first = "word_of_nat (wrapping_add (lg_issued l) 1) :: u64"
  have "lg_issued l + 1 \<le> u64_max" using c(4,7) by simp
  then have first: "unat ?first = lg_issued l + 1" using unat_of_nat_u64 [of "lg_issued l + 1"] by (simp only: wrapping_add_exact)
  have nb: "unat (word_of_nat (lg_next_batch l) :: u64) = lg_next_batch l" by (rule unat_of_nat_u64) (rule I(15))
  have small: "b_descriptors b \<le> u64_max" using c(7) by simp
  have "unat (word_of_nat (b_descriptors b) - 1 :: u64) = b_descriptors b - 1"
    using c(4) unat_of_nat_u64 [OF small] by (simp add: unat_sub_if')
  then have "checked_add ?first (word_of_nat (b_descriptors b) - 1) \<noteq> None"
    using first c(4,7) by (simp add: checked_add_def u64_max_def)
  moreover have "?first \<noteq> 0" "(word_of_nat (lg_next_batch l) :: u64) \<noteq> 0" 
    using first nb I(14) by (metis not_one_le_zero unat_0 add_is_0 one_neq_zero, metis not_one_le_zero unat_0)
  ultimately obtain bt where bt: "Builder_seal crc b ?n (word_of_nat (lg_next_batch l)) ?first = Inr bt"
    using I(3) c(4) by (auto simp: Builder_seal_def Let_def)
  note sf = sealed_facts [OF built bt] and rt = seal_roundtrip [OF built bt]
  have room: "lg_offset l + length (Batch_bytes bt) \<le> unat (cf_segment_bytes (lg_config l))" using c(9) sf(3) by simp
  from Log_reserve_eq [OF inv c(8) room] obtain segs enc where res: "Log_reserve l bt = Inr (l\<lparr>lg_offset := lg_offset l + length (Batch_bytes bt), lg_segments := segs,
      lg_encoded_bytes := enc, lg_next_batch := lg_next_batch l + 1\<rparr>,
      \<lparr>sm_batch = bt, sm_segment = sg_id (List.last (lg_segments l)), sm_offset = lg_offset l\<rparr>)"
    "segs \<noteq> []" "sg_id (List.last segs) = sg_id (List.last (lg_segments l))" by blast
  show ?thesis
    using chk bt res rt(1,5) c(5) first sf(5) I(2)
    by (auto simp: Log_prepare_append_def Log_current_inv [OF inv] Log_owns_def Log_current_def BLOCK_SIZE_def)
qed

definition demo_config :: LogConfig where
  "demo_config = \<lparr>cf_store = replicate 16 1, cf_image = replicate 16 2, cf_image_bytes = 8192, cf_segment_bytes = 1064960\<rparr>"

definition demo_limits :: Limits where
  "demo_limits = \<lparr>lm_staging_bytes = 4243456, lm_intervals = 126\<rparr>"

definition demo_log :: Log where
  "demo_log = projr (Log_create_in 1 (Inr ()) True (Inr ()) (Inr ()) (Inr 1060864) demo_config demo_limits None)"

lemma demo_log_created:
  "Log_create_in 1 (Inr ()) True (Inr ()) (Inr ()) (Inr 1060864) demo_config demo_limits None = Inr demo_log"
  by (simp add: demo_log_def Log_create_in_def Config_validate_def SegmentHeader_validate_def Config_header_def demo_config_def
      demo_limits_def is_multiple_of_def MAX_BATCH_BYTES_def wal_constants Pins_new_def segment_create_def Segment_create_def
      checked_add_def Let_def)

lemma Log_create_in_fields:
  assumes "Log_create_in i nodes g res io al c lim ticket = Inr l"
  shows "\<not> lg_failed l \<and> lg_cohort l = None \<and> \<not> lg_rotating l \<and> lg_issued l = 0 \<and> lg_published l = 0 \<and> lg_durable l = 0 \<and>
    lg_next_batch l = 1 \<and> lg_config l = c \<and> lg_limits l = lim \<and> ii_map (lg_index l) = [] \<and> lg_pending_descriptors l = 0 \<and>
    lg_offset l = 4096"
  using assms by (auto simp: Log_create_in_def Log_empty_def BLOCK_SIZE_def)

lemma demo_log_facts:
  "\<not> lg_failed demo_log" "lg_cohort demo_log = None" "\<not> lg_rotating demo_log" "lg_issued demo_log = 0"
  "lg_published demo_log = 0" "lg_durable demo_log = 0" "lg_next_batch demo_log = 1" "lg_config demo_log = demo_config"
  "lg_limits demo_log = demo_limits" "ii_map (lg_index demo_log) = []" "lg_pending_descriptors demo_log = 0" "lg_offset demo_log = 4096"
  using Log_create_in_fields [OF demo_log_created] by auto

lemma demo_check: "Log_check_append demo_log demo_builder = Inr ()"
proof -
  have "b_payload_bytes demo_builder = 0"
    by (simp add: demo_builder_def Builder_zero_def Builder_new_def Builder_admit_def demo_id_def
        wal_constants valid_range_def checked_add_def is_multiple_of_def Builder_push_def Let_def)
  then show ?thesis
    by (simp add: Log_check_append_def Log_healthy_def demo_log_facts demo_builder_facts Log_append_capacity_def demo_config_def
        demo_limits_def nchecked_add_def u64_max_def wrapping_add_def BLOCK_SIZE_def)
qed

lemma demo_append:
  "\<exists>l s h. log_reach (\<lambda>_. 0) l [s] \<and> \<not> lg_failed l \<and> Log_owns l s = Inr () \<and> lg_cohort l = None \<and> \<not> lg_rotating l \<and>
     lg_next_batch l = 2 \<and> lg_issued l = 1 \<and> lg_published l = 0 \<and> lg_durable l = 0 \<and>
     Header_decode (\<lambda>_. 0) (take BLOCK_SIZE (Batch_bytes (sm_batch s))) (cf_image_bytes (lg_config l)) = Inr h \<and>
     \<not> e_fence (h_envelope h) \<and> unat (e_first (h_envelope h)) = 1"
proof -
  have start: "log_reach (\<lambda>_. 0) demo_log []" by (rule log_created) (rule demo_log_created)
  have inv: "Log_inv demo_log" using log_reach_inv [OF start] by blast
  obtain l s h where ls: "Log_prepare_append (\<lambda>_. 0) demo_log demo_builder = Inr (l, s)" "Log_owns l s = Inr ()"
    "lg_failed l = lg_failed demo_log" "lg_cohort l = lg_cohort demo_log" "lg_rotating l = lg_rotating demo_log"
    "lg_next_batch l = lg_next_batch demo_log + 1"
    "Header_decode (\<lambda>_. 0) (take BLOCK_SIZE (Batch_bytes (sm_batch s))) (cf_image_bytes (lg_config l)) = Inr h"
    "\<not> e_fence (h_envelope h)" "unat (e_first (h_envelope h)) = lg_issued demo_log + 1"
    using Log_prepare_append_accepts [OF inv demo_built demo_check] by blast
  have "log_reach (\<lambda>_. 0) l [s]" by (rule log_appended [OF start demo_built ls(1)])
  moreover have "lg_issued l = 1" "lg_published l = 0" "lg_durable l = 0"
    using Log_prepare_append_spec [OF inv demo_built ls(1)] demo_log_facts by simp_all
  ultimately show ?thesis
    using ls(2-9) demo_log_facts by (intro exI [of _ l] exI [of _ s] exI [of _ h]) simp
qed

theorem log_sequencing_witness:
  "\<exists>l s. log_reach (\<lambda>_. 0) l [s] \<and> lg_issued l = 1 \<and> lg_published l = 0 \<and>
     lg_published l + lg_pending_descriptors l = lg_issued l"
  using demo_append log_sequencing by metis

theorem publication_ordered_witness:
  "\<exists>l s l'. log_reach (\<lambda>_. 0) l [s] \<and> Log_publish_append (\<lambda>_. 0) l s = Inr l' \<and> lg_published l = 0"
proof -
  obtain l s h where d: "log_reach (\<lambda>_. 0) l [s]" "\<not> lg_failed l" "Log_owns l s = Inr ()" "lg_published l = 0"
    "Header_decode (\<lambda>_. 0) (take BLOCK_SIZE (Batch_bytes (sm_batch s))) (cf_image_bytes (lg_config l)) = Inr h"
    "\<not> e_fence (h_envelope h)" "unat (e_first (h_envelope h)) = 1"
    using demo_append by blast
  from publication_ordered [OF d(1) _ d(2,3,5,6)] d(4,7) d(1) show ?thesis by auto
qed

theorem append_leaves_fence_room_witness:
  "\<exists>l s l' f. log_reach (\<lambda>_. 0) l [s] \<and> Log_prepare_fence (\<lambda>_. 0) l = Inr (l', f) \<and> unat (co_boundary (Cohort_from f)) = 1"
proof -
  obtain l s where d: "log_reach (\<lambda>_. 0) l [s]" "\<not> lg_failed l" "lg_cohort l = None" "\<not> lg_rotating l"
    "lg_next_batch l = 2" "lg_issued l = 1" "lg_durable l = 0"
    using demo_append by blast
  from append_leaves_fence_room [OF d(1-4)] d show ?thesis by (auto simp: u64_max_def)
qed

text \<open>The first fence of a fresh segment syncs at the empty prefix.\<close>

lemma demo_fence:
  "\<exists>l f. Log_prepare_fence (\<lambda>_. 0) demo_log = Inr (l, f) \<and> (\<exists>l'. Log_complete_sync l f = Inr (l', 0))"
proof -
  have inv: "Log_inv demo_log" by (rule Log_create_in_inv) (rule demo_log_created)
  obtain l f where f: "Log_prepare_fence (\<lambda>_. 0) demo_log = Inr (l, f)" "lg_cohort l = Some (Cohort_from f)"
    "unat (co_boundary (Cohort_from f)) = 0" "e_fence (bt_envelope (sm_batch f))" "Log_owns l f = Inr ()"
    "\<not> lg_failed l" "lg_pending_descriptors l = 0" "lg_published l = 0"
    using Log_prepare_fence_eq [OF inv demo_log_facts(1-3), of "\<lambda>_. 0"] demo_log_facts
    by (auto simp: u64_max_def demo_config_def)
  have "unat (e_last (bt_envelope (sm_batch f))) = 0" using f(3) by (simp add: Cohort_from_def Let_def)
  then show ?thesis
    using f by (simp add: Log_complete_sync_def Log_ready_to_sync_def Log_healthy_def Let_def)
qed

lemma demo_log_reach: "log_reach (\<lambda>_. 0) demo_log []"
  by (rule log_created) (rule demo_log_created)

theorem sync_covers_issued_witness:
  "\<exists>l f l'. log_reach (\<lambda>_. 0) l [] \<and> Log_complete_sync l f = Inr (l', 0) \<and> lg_durable l' = lg_issued l"
proof -
  obtain l f l' where f: "Log_prepare_fence (\<lambda>_. 0) demo_log = Inr (l, f)" "Log_complete_sync l f = Inr (l', 0)"
    using demo_fence by blast
  have reach: "log_reach (\<lambda>_. 0) l []" by (rule log_fenced [OF demo_log_reach f(1)])
  show ?thesis using reach f(2) sync_covers_issued [OF reach f(2)] by blast
qed

definition demo_io :: LogIo where
  "demo_io = \<lparr>li_pins = True, li_resources = Inr (), li_segment = 2, li_create = Inr (), li_allocated = Inr 1060864,
     li_ticket = None, li_write = Inr (), li_sync = Inr ()\<rparr>"

theorem flush_makes_durable_witness:
  "\<exists>l'. Log_flush (\<lambda>_. 0) demo_io demo_log = (l', Inr 0) \<and> lg_durable l' = lg_issued l'"
proof -
  obtain l f l' where f: "Log_prepare_fence (\<lambda>_. 0) demo_log = Inr (l, f)" "Log_complete_sync l f = Inr (l', 0)"
    using demo_fence by blast
  have "\<not> lg_fenced demo_log" using demo_log_created by (auto simp: demo_log_def Log_create_in_def Log_empty_def)
  then have run: "Log_flush (\<lambda>_. 0) demo_io demo_log = (l', Inr 0)"
    using f by (simp add: Log_flush_def demo_log_facts Log_covers_flush_def flush_fence_def Log_fail_on_io_def demo_io_def)
  show ?thesis using run flush_makes_durable [OF demo_log_reach run] by blast
qed

end
