(* ===== verification/Wal_Window.thy ===== *)
theory Wal_Window
  imports Wal_Log "HOL-Library.Multiset"
begin

text \<open>
  The admission window of \<^verbatim>\<open>daemon/src/local/window.rs\<close>: before a guest mutation is admitted, the
  daemon reserves the framing its append and fence will need in the current log segment, and a slot
  in the interval index. The window tracks the log's position; any disagreement fails it closed. The
  last part composes the window with the log and shows what the reservations are for: an admitted
  batch is never refused for lack of space.
\<close>

section \<open>State\<close>

datatype Reason =
    HostAdmission | RequestCredits | ReadCredits | ReadOwnerAllocation | Staging | Physical | WalRotation | WalIndex | AppendCredits

datatype 'a Decision = Ready 'a | Waiting Reason

record WindowState =
  ws_point :: Position
  ws_reserved_bytes :: nat
  ws_index_capacity :: nat
  ws_unsubmitted :: nat
  ws_rotation_wanted :: bool
  ws_index_pressure :: bool
  ws_failed :: bool

record Window =
  wn_id :: nat
  wn_state :: WindowState
  wn_poisoned :: bool

record Slot =
  sl_owner :: nat
  sl_bytes :: nat

definition obind :: "'a option \<Rightarrow> ('a \<Rightarrow> 'b option) \<Rightarrow> 'b option" where
  "obind x f = (case x of None \<Rightarrow> None | Some v \<Rightarrow> f v)"

definition WindowState_used :: "WindowState \<Rightarrow> nat option" where
  "WindowState_used s = (let p = ws_point s in
     obind (nchecked_sub (ps_issued p) (ps_fenced p)) (\<lambda>f.
     obind (nchecked_add f (ws_unsubmitted s)) (\<lambda>f.
     obind (nchecked_add f (if ps_initial_fence p then 1 else 0)) (\<lambda>fences.
     obind (nchecked_add (ps_end p) (ws_reserved_bytes s)) (\<lambda>e.
     obind (nchecked_mul fences BLOCK_SIZE) (\<lambda>b. nchecked_add e b))))))"

text \<open>A failed requirement is sticky: the state is failed from then on.\<close>

definition WindowState_require :: "WindowState \<Rightarrow> bool \<Rightarrow> string \<Rightarrow> WindowState \<times> unit result" where
  "WindowState_require s valid msg =
     (if ws_failed s \<or> \<not> valid then (s\<lparr>ws_failed := True\<rparr>, Inl (Other msg)) else (s, Inr ()))"

definition WindowState_at :: "WindowState \<Rightarrow> Position \<Rightarrow> WindowState \<times> unit result" where
  "WindowState_at s p = WindowState_require s (ws_point s = p) ''WAL admission position differs''"

definition within_capacity :: "WindowState \<Rightarrow> bool" where
  "within_capacity s \<longleftrightarrow> (case WindowState_used s of None \<Rightarrow> False | Some used \<Rightarrow> used \<le> ps_capacity (ws_point s))"

definition WindowState_bounded :: "WindowState \<Rightarrow> WindowState \<times> unit result" where
  "WindowState_bounded s = WindowState_require s (within_capacity s \<and> ws_unsubmitted s \<le> ws_index_capacity s)
     ''WAL admission exceeded reserved capacity''"

section \<open>Operations\<close>

definition Window_lock :: "Window \<Rightarrow> WindowState" where
  "Window_lock w = (if wn_poisoned w then (wn_state w)\<lparr>ws_failed := True\<rparr> else wn_state w)"

definition Window_new :: "nat \<Rightarrow> bool \<Rightarrow> Position \<Rightarrow> nat \<Rightarrow> Window result" where
  "Window_new i granted point capacity =
     (if ps_capacity point < MAX_REQUEST_BYTES + 4 * BLOCK_SIZE
      then Inl (InvalidInput ''host WAL segment cannot reserve a maximum request and initial fence'')
      else (let s = \<lparr>ws_point = point, ws_reserved_bytes = 0, ws_index_capacity = capacity, ws_unsubmitted = 0,
                     ws_rotation_wanted = False, ws_index_pressure = False, ws_failed = False\<rparr> in
            case WindowState_bounded s of
              (s, Inl e) \<Rightarrow> Inl e
            | (s, Inr _) \<Rightarrow> ensure granted (OutOfMemory '''') (Inr \<lparr>wn_id = i, wn_state = s, wn_poisoned = False\<rparr>)))"

text \<open>\<open>check\<close> is the answer of the staging and physical admission, if the window has one.\<close>

definition Window_reserve :: "Window \<Rightarrow> unit Decision result option \<Rightarrow> nat \<Rightarrow> Window \<times> Slot Decision result" where
  "Window_reserve w check bytes =
     (if bytes > MAX_REQUEST_BYTES \<or> \<not> BLOCK_SIZE dvd bytes then (w, Inl (InvalidInput ''invalid WAL write length''))
      else case check of
        Some (Inl e) \<Rightarrow> (w, Inl e)
      | Some (Inr (Waiting reason)) \<Rightarrow> (w, Inr (Waiting reason))
      | _ \<Rightarrow>
        (let s = Window_lock w; w = w\<lparr>wn_state := s\<rparr> in
         if ws_failed s then (w, Inl (Other ''WAL admission failed''))
         else if ws_rotation_wanted s then (w, Inr (Waiting WalRotation))
         else if ws_unsubmitted s \<ge> ws_index_capacity s
           then (w\<lparr>wn_state := s\<lparr>ws_index_pressure := True\<rparr>\<rparr>, Inr (Waiting WalIndex))
         else (let bytes = bytes + BLOCK_SIZE;
                   candidate = s\<lparr>ws_reserved_bytes := wrapping_add (ws_reserved_bytes s) bytes,
                                  ws_unsubmitted := wrapping_add (ws_unsubmitted s) 1\<rparr> in
               if \<not> within_capacity candidate
               then (w\<lparr>wn_state := s\<lparr>ws_rotation_wanted := True\<rparr>\<rparr>, Inr (Waiting WalRotation))
               else (w\<lparr>wn_state := candidate\<rparr>, Inr (Ready \<lparr>sl_owner = wn_id w, sl_bytes = bytes\<rparr>)))))"

definition Slot_matches :: "Slot \<Rightarrow> nat \<Rightarrow> bool" where
  "Slot_matches s payload \<longleftrightarrow> nchecked_add payload BLOCK_SIZE = Some (sl_bytes s)"

definition refund :: "nat \<Rightarrow> WindowState \<Rightarrow> WindowState" where
  "refund bytes s = s\<lparr>ws_reserved_bytes := wrapping_sub (ws_reserved_bytes s) bytes,
     ws_unsubmitted := wrapping_sub (ws_unsubmitted s) 1\<rparr>"

definition Slot_drop :: "Window \<Rightarrow> Slot \<Rightarrow> Window" where
  "Slot_drop w s = (if sl_bytes s = 0 then w else w\<lparr>wn_state := refund (sl_bytes s) (Window_lock w)\<rparr>)"

text \<open>A write of the batch: its admission token and the length of its payload.\<close>

type_synonym Write = "Slot option \<times> nat"

definition token_ok :: "Window \<Rightarrow> Write \<Rightarrow> bool" where
  "token_ok w wr \<longleftrightarrow> (case fst wr of None \<Rightarrow> False | Some slot \<Rightarrow> sl_owner slot = wn_id w \<and> Slot_matches slot (snd wr))"

primrec consume :: "Write list \<Rightarrow> WindowState \<Rightarrow> WindowState result" where
  "consume [] s = Inr s"
| "consume (wr # wrs) s = (case fst wr of
      None \<Rightarrow> Inl (Panic ''checked admission token'')
    | Some slot \<Rightarrow> consume wrs (refund (sl_bytes slot) s))"

text \<open>The log's position and append capacity as the window reads them.\<close>

definition log_point :: "Log \<Rightarrow> Position result" where
  "log_point l = map_err (\<lambda>_. Panic ''a log owns its current segment'') (Log_position l)"

definition with_state :: "Window \<Rightarrow> WindowState \<times> 'a \<Rightarrow> Window \<times> 'a" where
  "with_state w r = (w\<lparr>wn_state := fst r\<rparr>, snd r)"

definition Window_append ::
  "(bytes \<Rightarrow> u32) \<Rightarrow> Window \<Rightarrow> Log \<Rightarrow> Builder \<Rightarrow> Write list \<Rightarrow> Window \<times> Log \<times> Submission result" where
  "Window_append crc w l b writes =
     (let s = Window_lock w in
      case log_point l of Inl e \<Rightarrow> (w, l, Inl e) | Inr p \<Rightarrow>
     (case WindowState_at s p of (s, Inl e) \<Rightarrow> (w\<lparr>wn_state := s\<rparr>, l, Inl e) | (s, Inr _) \<Rightarrow>
     (case WindowState_require s (length writes = b_descriptors b \<and> list_all (token_ok w) writes)
             ''WAL batch lacks matching admission tokens'' of
        (s, Inl e) \<Rightarrow> (w\<lparr>wn_state := s\<rparr>, l, Inl e) | (s, Inr _) \<Rightarrow>
     (case Log_prepare_append crc l b of Inl e \<Rightarrow> (w\<lparr>wn_state := s\<rparr>, l, Inl (Other ''prepare append'')) | Inr (l', submission) \<Rightarrow>
     (case consume writes s of Inl e \<Rightarrow> (w\<lparr>wn_state := s\<rparr>, l', Inl e) | Inr s \<Rightarrow>
     (case log_point l' of Inl e \<Rightarrow> (w\<lparr>wn_state := s\<rparr>, l', Inl e) | Inr p \<Rightarrow>
     (case WindowState_bounded (s\<lparr>ws_point := p, ws_index_capacity := Log_append_capacity l'\<rparr>) of
        (s, Inl e) \<Rightarrow> (w\<lparr>wn_state := s\<rparr>, l', Inl e) | (s, Inr _) \<Rightarrow> (w\<lparr>wn_state := s\<rparr>, l', Inr submission))))))))"

definition Window_fence :: "(bytes \<Rightarrow> u32) \<Rightarrow> Window \<Rightarrow> Log \<Rightarrow> Window \<times> Log \<times> Submission log_result" where
  "Window_fence crc w l =
     (let s = Window_lock w in
      case log_point l of Inl e \<Rightarrow> (w, l, Inl (Io e)) | Inr p \<Rightarrow>
     (case WindowState_at s p of (s, Inl e) \<Rightarrow> (w\<lparr>wn_state := s\<rparr>, l, Inl (Io e)) | (s, Inr _) \<Rightarrow>
     (case Log_prepare_fence crc l of Inl e \<Rightarrow> (w\<lparr>wn_state := s\<rparr>, l, Inl e) | Inr (l', submission) \<Rightarrow>
     (case log_point l' of Inl e \<Rightarrow> (w\<lparr>wn_state := s\<rparr>, l', Inl (Io e)) | Inr p \<Rightarrow>
     (case WindowState_bounded (s\<lparr>ws_point := p\<rparr>) of
        (s, Inl e) \<Rightarrow> (w\<lparr>wn_state := s\<rparr>, l', Inl (Io e)) | (s, Inr _) \<Rightarrow> (w\<lparr>wn_state := s\<rparr>, l', Inr submission))))))"

definition Window_close :: "Window \<Rightarrow> Window" where
  "Window_close w = w\<lparr>wn_state := (Window_lock w)\<lparr>ws_rotation_wanted := True\<rparr>\<rparr>"

definition Window_refresh :: "Window \<Rightarrow> Log \<Rightarrow> Window \<times> bool result" where
  "Window_refresh w l =
     (case log_point l of Inl e \<Rightarrow> (w, Inl e) | Inr p \<Rightarrow>
     (case WindowState_at (Window_lock w) p of (s, Inl e) \<Rightarrow> (w\<lparr>wn_state := s\<rparr>, Inl e) | (s, Inr _) \<Rightarrow>
     (case WindowState_bounded (s\<lparr>ws_index_capacity := Log_append_capacity l\<rparr>) of
        (s, Inl e) \<Rightarrow> (w\<lparr>wn_state := s\<rparr>, Inl e)
      | (s, Inr _) \<Rightarrow>
          (let reopened = (ws_index_pressure s \<and> ws_unsubmitted s < ws_index_capacity s) in
           (w\<lparr>wn_state := (if reopened then s\<lparr>ws_index_pressure := False\<rparr> else s)\<rparr>, Inr reopened)))))"

definition Window_before_rotation :: "Window \<Rightarrow> Log \<Rightarrow> Window \<times> unit result" where
  "Window_before_rotation w l =
     (case log_point l of Inl e \<Rightarrow> (w, Inl e) | Inr p \<Rightarrow>
     (case WindowState_at (Window_lock w) p of (s, Inl e) \<Rightarrow> (w\<lparr>wn_state := s\<rparr>, Inl e) | (s, Inr _) \<Rightarrow>
      with_state w (WindowState_require s (ws_rotation_wanted s \<and> ws_unsubmitted s = 0)
        ''WAL rotation has unsubmitted admission tokens'')))"

definition Window_installed :: "Window \<Rightarrow> Log \<Rightarrow> Window \<times> bool result" where
  "Window_installed w l =
     (case log_point l of Inl e \<Rightarrow> (w, Inl e) | Inr p \<Rightarrow>
     (let s = Window_lock w in
      if ps_segment p = ps_segment (ws_point s)
      then (case WindowState_at s p of (s, Inl e) \<Rightarrow> (w\<lparr>wn_state := s\<rparr>, Inl e) | (s, Inr _) \<Rightarrow> (w\<lparr>wn_state := s\<rparr>, Inr False))
      else (case WindowState_require s
               (ws_rotation_wanted s \<and> ws_unsubmitted s = 0 \<and> ps_segment p > ps_segment (ws_point s) \<and>
                ps_capacity p = ps_capacity (ws_point s) \<and> ps_end p = BLOCK_SIZE \<and> ps_issued p = ps_issued (ws_point s) \<and>
                ps_fenced p = ps_issued p \<and> ps_initial_fence p)
               ''WAL successor differs from admission boundary'' of
           (s, Inl e) \<Rightarrow> (w\<lparr>wn_state := s\<rparr>, Inl e)
         | (s, Inr _) \<Rightarrow>
             (case WindowState_bounded (s\<lparr>ws_point := p, ws_index_capacity := Log_append_capacity l, ws_rotation_wanted := False\<rparr>) of
                (s, Inl e) \<Rightarrow> (w\<lparr>wn_state := s\<rparr>, Inl e) | (s, Inr _) \<Rightarrow> (w\<lparr>wn_state := s\<rparr>, Inr True)))))"

section \<open>The reservation as arithmetic\<close>

definition need :: "WindowState \<Rightarrow> nat" where
  "need s = (let p = ws_point s in ps_end p + ws_reserved_bytes s +
     (ps_issued p - ps_fenced p + ws_unsubmitted s + (if ps_initial_fence p then 1 else 0)) * 4096)"

lemma WindowState_used_eq:
  "WindowState_used s = Some u \<longleftrightarrow> ps_fenced (ws_point s) \<le> ps_issued (ws_point s) \<and> u = need s \<and> u \<le> u64_max"
  by (auto simp: WindowState_used_def Let_def obind_def need_def BLOCK_SIZE_def nchecked_sub_def nchecked_add_def nchecked_mul_def)

lemma within_capacity_eq:
  assumes "ps_capacity (ws_point s) \<le> u64_max"
  shows "within_capacity s \<longleftrightarrow> ps_fenced (ws_point s) \<le> ps_issued (ws_point s) \<and> need s \<le> ps_capacity (ws_point s)"
proof -
  have "within_capacity s \<longleftrightarrow> (\<exists>u. WindowState_used s = Some u \<and> u \<le> ps_capacity (ws_point s))"
    by (auto simp: within_capacity_def split: option.splits)
  then show ?thesis using assms by (auto simp: WindowState_used_eq)
qed

lemma WindowState_require_eq [simp]:
  "WindowState_require s v m = (s', Inr u) \<longleftrightarrow> s' = s \<and> \<not> ws_failed s \<and> v"
  "WindowState_require s v m = (s', Inl e) \<longleftrightarrow> s' = s\<lparr>ws_failed := True\<rparr> \<and> e = Other m \<and> (ws_failed s \<or> \<not> v)"
  by (auto simp: WindowState_require_def)

lemma Log_position_inv:
  "Log_inv l \<Longrightarrow> Log_position l = Inr \<lparr>ps_segment = sh_number (sg_header (List.last (lg_segments l))),
     ps_capacity = unat (cf_segment_bytes (lg_config l)), ps_end = lg_offset l, ps_issued = lg_issued l,
     ps_fenced = (case lg_cohort l of None \<Rightarrow> lg_durable l | Some c \<Rightarrow> unat (co_boundary c)),
     ps_initial_fence = (\<not> lg_fenced l \<and> lg_cohort l = None)\<rparr>"
  by (simp add: Log_position_def Log_current_inv)

lemma log_point_eq: "log_point l = Inr p \<longleftrightarrow> Log_position l = Inr p"
  by (simp add: log_point_def)

section \<open>Window and log together\<close>

text \<open>
  What a window that has not failed promises: it knows the log's position, its reservation is the
  sum of the outstanding tokens, the reservation fits the segment with a fence for each, and the
  index can take them all.
\<close>

definition window_in_step :: "WindowState \<Rightarrow> nat multiset \<Rightarrow> Log \<Rightarrow> bool" where
  "window_in_step s tokens l \<longleftrightarrow>
     Log_position l = Inr (ws_point s) \<and> ws_reserved_bytes s = sum_mset tokens \<and> ws_unsubmitted s = size tokens \<and>
     need s \<le> unat (cf_segment_bytes (lg_config l)) \<and>
     ws_unsubmitted s \<le> ws_index_capacity s \<and> ws_index_capacity s \<le> Log_append_capacity l"

definition window_ok :: "Window \<Rightarrow> nat multiset \<Rightarrow> Log \<Rightarrow> bool" where
  "window_ok w tokens l \<longleftrightarrow> ws_failed (Window_lock w) \<or> window_in_step (Window_lock w) tokens l"

inductive window_reach :: "(bytes \<Rightarrow> u32) \<Rightarrow> Window \<Rightarrow> nat multiset \<Rightarrow> Log \<Rightarrow> Submission list \<Rightarrow> bool" for crc where
  opened: "log_reach crc l ss \<Longrightarrow> Log_position l = Inr p \<Longrightarrow> Window_new i g p (Log_append_capacity l) = Inr w \<Longrightarrow>
    window_reach crc w {#} l ss"
| reserved: "window_reach crc w tokens l ss \<Longrightarrow> Window_reserve w check n = (w', r) \<Longrightarrow>
    window_reach crc w' (case r of Inr (Ready slot) \<Rightarrow> add_mset (sl_bytes slot) tokens | _ \<Rightarrow> tokens) l ss"
| dropped: "window_reach crc w tokens l ss \<Longrightarrow> sl_bytes slot \<in># tokens \<Longrightarrow>
    window_reach crc (Slot_drop w slot) (tokens - {#sl_bytes slot#}) l ss"
| appended: "window_reach crc w tokens l ss \<Longrightarrow> built crc b rs \<Longrightarrow>
    mset (map (\<lambda>wr. sl_bytes (the (fst wr))) writes) \<subseteq># tokens \<Longrightarrow>
    sum_list (map snd writes) = b_payload_bytes b \<Longrightarrow> Window_append crc w l b writes = (w', l', Inr s) \<Longrightarrow>
    window_reach crc w' (tokens - mset (map (\<lambda>wr. sl_bytes (the (fst wr))) writes)) l' (s # ss)"
| refused: "window_reach crc w tokens l ss \<Longrightarrow> built crc b rs \<Longrightarrow> Window_append crc w l b writes = (w', l', Inl e) \<Longrightarrow>
    window_reach crc w' tokens l' ss"
| fenced: "window_reach crc w tokens l ss \<Longrightarrow> Window_fence crc w l = (w', l', r) \<Longrightarrow> window_reach crc w' tokens l' ss"
| published: "window_reach crc w tokens l ss \<Longrightarrow> s \<in> set ss \<Longrightarrow> Log_publish_append crc l s = Inr l' \<Longrightarrow>
    window_reach crc w tokens l' ss"
| synced: "window_reach crc w tokens l ss \<Longrightarrow> Log_complete_sync l s = Inr (l', d) \<Longrightarrow> window_reach crc w tokens l' ss"
| closed: "window_reach crc w tokens l ss \<Longrightarrow> window_reach crc (Window_close w) tokens l ss"
| refreshed: "window_reach crc w tokens l ss \<Longrightarrow> Window_refresh w l = (w', r) \<Longrightarrow> window_reach crc w' tokens l ss"
| rotating: "window_reach crc w tokens l ss \<Longrightarrow> Window_before_rotation w l = (w', Inr ()) \<Longrightarrow>
    Log_prepare_rotation g res l kind = Inr (l', rot) \<Longrightarrow> window_reach crc w' tokens l' ss"
| cancelled: "window_reach crc w tokens l ss \<Longrightarrow> Log_cancel_rotation l rot = Inr l' \<Longrightarrow> window_reach crc w tokens l' ss"
| installed: "window_reach crc w tokens l ss \<Longrightarrow> Rotation_create i io al ticket rot = Inr c \<Longrightarrow>
    Log_install_rotation l c = (l', q) \<Longrightarrow> Window_installed w l' = (w', r) \<Longrightarrow> window_reach crc w' tokens l' ss"
| log_stopped: "window_reach crc w tokens l ss \<Longrightarrow> window_reach crc w tokens (Log_fail l) ss"
| poisoned: "window_reach crc w tokens l ss \<Longrightarrow> window_reach crc (w\<lparr>wn_poisoned := True\<rparr>) tokens l ss"

lemma need_simps [simp]: "need (s\<lparr>ws_failed := b\<rparr>) = need s" "need (s\<lparr>ws_rotation_wanted := b\<rparr>) = need s"
  "need (s\<lparr>ws_index_pressure := b\<rparr>) = need s" "need (s\<lparr>ws_index_capacity := n\<rparr>) = need s"
  by (simp_all add: need_def)

lemma Window_lock_update [simp]:
  "Window_lock (w\<lparr>wn_state := s\<rparr>) = (if wn_poisoned w then s\<lparr>ws_failed := True\<rparr> else s)"
  by (simp add: Window_lock_def)

lemma healthy_lock: "\<not> ws_failed (Window_lock w) \<Longrightarrow> \<not> wn_poisoned w \<and> Window_lock w = wn_state w"
  by (auto simp: Window_lock_def split: if_splits)

lemma window_ok_failed: "ws_failed s \<Longrightarrow> window_ok (w\<lparr>wn_state := s\<rparr>) tokens l"
  by (simp add: window_ok_def)

lemma window_ok_step: "\<not> wn_poisoned w \<Longrightarrow> window_in_step s tokens l \<Longrightarrow> window_ok (w\<lparr>wn_state := s\<rparr>) tokens l"
  by (simp add: window_ok_def)

lemma window_in_step_capacity:
  assumes "Log_inv l" and "Log_position l = Inr p"
  shows "ps_capacity p = unat (cf_segment_bytes (lg_config l))" and "ps_capacity p \<le> u64_max"
    and "ps_issued p = lg_issued l" and "ps_end p = lg_offset l" and "ps_fenced p \<le> ps_issued p"
  using assms Log_position_inv [OF assms(1)] Log_invD(7,9,10) [OF assms(1)] by (auto split: option.splits)

lemma bounded_in_step:
  assumes "Log_inv l" and "Log_position l = Inr (ws_point s)"
  shows "within_capacity s \<longleftrightarrow> need s \<le> unat (cf_segment_bytes (lg_config l))"
  using within_capacity_eq [of s] window_in_step_capacity [OF assms] by simp

section \<open>Every operation keeps them in step\<close>

lemma in_step_bounds:
  assumes inv: "Log_inv l" and st: "window_in_step s tokens l"
  shows "ws_reserved_bytes s < 2 ^ 44" and "ws_unsubmitted s < 2 ^ 44"
proof -
  have "need s < 2 ^ 44" using st Log_invD(1) [OF inv] by (simp add: window_in_step_def)
  moreover have "ws_reserved_bytes s \<le> need s" "ws_unsubmitted s \<le> need s" by (auto simp: need_def Let_def)
  ultimately show "ws_reserved_bytes s < 2 ^ 44" "ws_unsubmitted s < 2 ^ 44" by simp_all
qed

lemma Window_reserve_ok:
  assumes inv: "Log_inv l" and ok: "window_ok w tokens l" and r: "Window_reserve w check n = (w', r)"
  shows "window_ok w' (case r of Inr (Ready slot) \<Rightarrow> add_mset (sl_bytes slot) tokens | _ \<Rightarrow> tokens) l"
proof -
  let ?s = "Window_lock w"
  let ?c = "?s\<lparr>ws_reserved_bytes := wrapping_add (ws_reserved_bytes ?s) (n + BLOCK_SIZE), ws_unsubmitted := wrapping_add (ws_unsubmitted ?s) 1\<rparr>"
  have same: "window_ok (w\<lparr>wn_state := ?s\<lparr>ws_index_pressure := a\<rparr>\<rparr>) tokens l"
    "window_ok (w\<lparr>wn_state := ?s\<lparr>ws_rotation_wanted := a\<rparr>\<rparr>) tokens l" "window_ok (w\<lparr>wn_state := ?s\<rparr>) tokens l" for a
    using ok by (auto simp: window_ok_def window_in_step_def)
  consider "w' = w" "\<And>slot. r \<noteq> Inr (Ready slot)" | "w' = w\<lparr>wn_state := ?s\<rparr>" "\<And>slot. r \<noteq> Inr (Ready slot)"
    | "w' = w\<lparr>wn_state := ?s\<lparr>ws_index_pressure := True\<rparr>\<rparr>" "\<And>slot. r \<noteq> Inr (Ready slot)"
    | "w' = w\<lparr>wn_state := ?s\<lparr>ws_rotation_wanted := True\<rparr>\<rparr>" "\<And>slot. r \<noteq> Inr (Ready slot)"
    | "\<not> ws_failed ?s" "ws_unsubmitted ?s < ws_index_capacity ?s" "within_capacity ?c" "n \<le> 1048576"
      "w' = w\<lparr>wn_state := ?c\<rparr>" "r = Inr (Ready \<lparr>sl_owner = wn_id w, sl_bytes = n + BLOCK_SIZE\<rparr>)"
  proof -
    note out = that
    show thesis
    proof (cases "n > MAX_REQUEST_BYTES \<or> \<not> BLOCK_SIZE dvd n \<or> (\<exists>e. check = Some (Inl e)) \<or> (\<exists>q. check = Some (Inr (Waiting q)))")
      case True
      then have "w' = w" "\<And>slot. r \<noteq> Inr (Ready slot)" using r by (auto simp: Window_reserve_def split: if_splits)
      then show thesis by (rule out(1))
    next
      case False
      then have "n \<le> MAX_REQUEST_BYTES" by simp
      then have n: "n \<le> 1048576" by (simp add: MAX_REQUEST_BYTES_def)
      have open': "check = None \<or> check = Some (Inr (Ready ()))"
      proof (cases check)
        case (Some q)
        then show ?thesis using False by (cases q) (metis Decision.exhaust old.unit.exhaust)+
      qed simp
      have eq: "Window_reserve w check n = (let w = w\<lparr>wn_state := ?s\<rparr> in
         if ws_failed ?s then (w, Inl (Other ''WAL admission failed''))
         else if ws_rotation_wanted ?s then (w, Inr (Waiting WalRotation))
         else if ws_unsubmitted ?s \<ge> ws_index_capacity ?s
           then (w\<lparr>wn_state := ?s\<lparr>ws_index_pressure := True\<rparr>\<rparr>, Inr (Waiting WalIndex))
         else if \<not> within_capacity ?c then (w\<lparr>wn_state := ?s\<lparr>ws_rotation_wanted := True\<rparr>\<rparr>, Inr (Waiting WalRotation))
         else (w\<lparr>wn_state := ?c\<rparr>, Inr (Ready \<lparr>sl_owner = wn_id w, sl_bytes = n + BLOCK_SIZE\<rparr>)))"
        using False open' by (auto simp: Window_reserve_def Let_def)
      consider "ws_failed ?s \<or> ws_rotation_wanted ?s" | "\<not> (ws_failed ?s \<or> ws_rotation_wanted ?s)" "ws_unsubmitted ?s \<ge> ws_index_capacity ?s"
        | "\<not> (ws_failed ?s \<or> ws_rotation_wanted ?s)" "\<not> ws_unsubmitted ?s \<ge> ws_index_capacity ?s" "\<not> within_capacity ?c"
        | "\<not> (ws_failed ?s \<or> ws_rotation_wanted ?s)" "\<not> ws_unsubmitted ?s \<ge> ws_index_capacity ?s" "within_capacity ?c" by blast
      then show thesis
      proof cases
        case 1
        then have "w' = w\<lparr>wn_state := ?s\<rparr>" "\<And>slot. r \<noteq> Inr (Ready slot)" using r [unfolded eq] by (auto simp: Let_def split: if_splits)
        then show thesis by (rule out(2))
      next
        case 2
        then have "w' = w\<lparr>wn_state := ?s\<lparr>ws_index_pressure := True\<rparr>\<rparr>" "\<And>slot. r \<noteq> Inr (Ready slot)" using r [unfolded eq] by auto
        then show thesis by (rule out(3))
      next
        case 3
        then have "w' = w\<lparr>wn_state := ?s\<lparr>ws_rotation_wanted := True\<rparr>\<rparr>" "\<And>slot. r \<noteq> Inr (Ready slot)" using r [unfolded eq] by auto
        then show thesis by (rule out(4))
      next
        case 4
        then have "w' = w\<lparr>wn_state := ?c\<rparr>" "r = Inr (Ready \<lparr>sl_owner = wn_id w, sl_bytes = n + BLOCK_SIZE\<rparr>)"
          using r [unfolded eq] by auto
        then show thesis using 4 n by (intro out(5)) auto
      qed
    qed
  qed
  then show ?thesis
  proof cases
    case 5
    have st: "window_in_step ?s tokens l" using ok 5(1) by (simp add: window_ok_def)
    note b = in_step_bounds [OF inv st]
    have c: "?c = ?s\<lparr>ws_reserved_bytes := ws_reserved_bytes ?s + (n + BLOCK_SIZE), ws_unsubmitted := ws_unsubmitted ?s + 1\<rparr>"
      using b 5(4) by (simp add: wrapping_add_exact u64_max_def BLOCK_SIZE_def)
    have "Log_position l = Inr (ws_point ?c)" using st by (simp add: window_in_step_def)
    then have "window_in_step ?c (add_mset (n + BLOCK_SIZE) tokens) l"
      using st 5(2,3) bounded_in_step [OF inv, of ?c] unfolding c by (simp add: window_in_step_def)
    then show ?thesis using window_ok_step [of w ?c] healthy_lock [OF 5(1)] 5(5,6) by simp
  qed (use ok same in \<open>auto split: sum.splits Decision.splits\<close>)
qed

lemma refund_in_step:
  assumes inv: "Log_inv l" and st: "window_in_step s tokens l" and mem: "b \<in># tokens"
  shows "window_in_step (refund b s) (tokens - {#b#}) l"
proof -
  note bd = in_step_bounds [OF inv st]
  obtain M where M: "tokens = add_mset b M" using mem by (metis insert_DiffM)
  have "ws_reserved_bytes s = b + sum_mset M" "ws_unsubmitted s = size M + 1" using st M by (auto simp: window_in_step_def)
  then have "refund b s = s\<lparr>ws_reserved_bytes := sum_mset M, ws_unsubmitted := size M\<rparr>"
    using bd by (simp add: refund_def wrapping_sub_exact u64_max_def)
  then show ?thesis using st M by (auto simp: window_in_step_def need_def Let_def)
qed

lemma Slot_drop_ok:
  assumes inv: "Log_inv l" and ok: "window_ok w tokens l" and mem: "sl_bytes slot \<in># tokens" and pos: "sl_bytes slot \<noteq> 0"
  shows "window_ok (Slot_drop w slot) (tokens - {#sl_bytes slot#}) l"
proof (cases "ws_failed (Window_lock w)")
  case True
  then show ?thesis using pos by (simp add: Slot_drop_def window_ok_def refund_def)
next
  case False
  then have "window_in_step (Window_lock w) tokens l" using ok by (simp add: window_ok_def)
  then show ?thesis
    using refund_in_step [OF inv _ mem] healthy_lock [OF False] pos by (simp add: Slot_drop_def window_ok_def)
qed

lemma consume_spec:
  assumes "list_all (\<lambda>wr. fst wr \<noteq> None) wrs" and "sum_list (map (\<lambda>wr. sl_bytes (the (fst wr))) wrs) \<le> ws_reserved_bytes s"
    and "length wrs \<le> ws_unsubmitted s" and "ws_reserved_bytes s \<le> u64_max" and "ws_unsubmitted s \<le> u64_max"
  shows "consume wrs s = Inr (s\<lparr>ws_reserved_bytes := ws_reserved_bytes s - sum_list (map (\<lambda>wr. sl_bytes (the (fst wr))) wrs),
     ws_unsubmitted := ws_unsubmitted s - length wrs\<rparr>)"
  using assms
proof (induction wrs arbitrary: s)
  case (Cons wr wrs)
  then obtain slot where slot: "fst wr = Some slot" by auto
  let ?s = "s\<lparr>ws_reserved_bytes := ws_reserved_bytes s - sl_bytes slot, ws_unsubmitted := ws_unsubmitted s - 1\<rparr>"
  have "refund (sl_bytes slot) s = ?s" using Cons.prems slot by (simp add: refund_def wrapping_sub_exact)
  moreover have "consume wrs ?s = Inr (?s\<lparr>ws_reserved_bytes := ws_reserved_bytes ?s - sum_list (map (\<lambda>wr. sl_bytes (the (fst wr))) wrs),
     ws_unsubmitted := ws_unsubmitted ?s - length wrs\<rparr>)"
    using Cons.prems slot by (intro Cons.IH) auto
  ultimately show ?case using slot by simp
qed simp

text \<open>The heart of the matter: consuming matching tokens keeps the reservation of the others.\<close>

lemma Window_append_effect:
  assumes inv: "Log_inv l" and st: "window_in_step (Window_lock w) tokens l" and h: "\<not> ws_failed (Window_lock w)"
    and built: "built crc b rs" and sub: "mset (map (\<lambda>wr. sl_bytes (the (fst wr))) writes) \<subseteq># tokens"
    and pay: "sum_list (map snd writes) = b_payload_bytes b"
    and match: "length writes = b_descriptors b" "list_all (token_ok w) writes"
    and prep: "Log_prepare_append crc l b = Inr (l', sb)"
  shows "\<exists>s. Window_append crc w l b writes = (w\<lparr>wn_state := s\<rparr>, l', Inr sb) \<and> \<not> ws_failed s \<and>
    window_in_step s (tokens - mset (map (\<lambda>wr. sl_bytes (the (fst wr))) writes)) l'"
proof -
  let ?s = "Window_lock w" and ?bs = "map (\<lambda>wr. sl_bytes (the (fst wr))) writes"
  let ?k = "length rs"
  note P = Log_prepare_append_spec [OF inv built prep]
  have chk: "Log_check_append l b = Inr ()" using prep by (auto simp: Log_prepare_append_def)
  have nd: "b_descriptors b = ?k" "b_payload_bytes b \<le> 1048576" using built_payload [OF built] by auto
  note c = Log_check_append_facts [OF inv chk nd(2)]
  have some: "list_all (\<lambda>wr. fst wr \<noteq> None) writes"
    using match(2) by (auto simp: list_all_iff token_ok_def split: option.splits)
  have bytes: "map (\<lambda>wr. sl_bytes (the (fst wr))) writes = map (\<lambda>wr. snd wr + 4096) writes"
    using match(2) by (auto simp: list_all_iff token_ok_def Slot_matches_def BLOCK_SIZE_def split: option.splits)
  have total: "sum_list ?bs = b_payload_bytes b + ?k * 4096"
    unfolding bytes pay [symmetric] nd(1) [symmetric] match(1) [symmetric] by (induction writes) auto
  obtain M where M: "tokens = mset ?bs + M" using sub by (metis subset_mset.add_diff_inverse)
  have res: "ws_reserved_bytes ?s = sum_list ?bs + sum_mset M" "ws_unsubmitted ?s = ?k + size M"
  proof -
    have "ws_reserved_bytes ?s = sum_mset tokens" "ws_unsubmitted ?s = size tokens" using st by (simp_all add: window_in_step_def)
    then show "ws_reserved_bytes ?s = sum_list ?bs + sum_mset M" "ws_unsubmitted ?s = ?k + size M"
      unfolding M sum_mset.union sum_mset_sum_list using match(1) nd(1) by simp_all
  qed
  note bd = in_step_bounds [OF inv st]
  let ?s1 = "?s\<lparr>ws_reserved_bytes := sum_mset M, ws_unsubmitted := size M\<rparr>"
  have con: "consume writes ?s = Inr ?s1"
    using consume_spec [OF some, of ?s] res bd match(1) nd(1) by (simp add: u64_max_def)
  obtain segs enc where l': "l' = l\<lparr>lg_offset := lg_offset l + 4096 + b_payload_bytes b, lg_segments := segs, lg_encoded_bytes := enc,
      lg_next_batch := lg_next_batch l + 1, lg_issued := lg_issued l + ?k,
      lg_pending_descriptors := lg_pending_descriptors l + ?k\<rparr>" "segs \<noteq> []"
      "sh_number (sg_header (List.last segs)) = sh_number (sg_header (List.last (lg_segments l)))"
    using P(8) by blast
  note pos = Log_position_inv [OF inv] and pos' = Log_position_inv [OF P(1)]
  obtain p' where p': "Log_position l' = Inr p'" using pos' by blast
  let ?s2 = "?s1\<lparr>ws_point := p', ws_index_capacity := Log_append_capacity l'\<rparr>"
  have point: "Log_position l = Inr (ws_point ?s)" and fit: "need ?s \<le> unat (cf_segment_bytes (lg_config l))"
    and cap: "ws_unsubmitted ?s \<le> Log_append_capacity l" using st by (auto simp: window_in_step_def)
  have "need ?s2 + ?k * 4096 = need ?s + 4096"
    using pos pos' p' point res total l'(1) c(2) Log_invD(7,9) [OF inv] by (auto simp: need_def Let_def algebra_simps)
  then have fit': "need ?s2 \<le> unat (cf_segment_bytes (lg_config l'))" using fit c(4) nd(1) P(3) by simp
  have "Log_append_capacity l' = Log_append_capacity l - ?k" by (simp add: Log_append_capacity_def l'(1))
  then have cap': "size M \<le> Log_append_capacity l'" using cap res(2) by simp
  have in2: "window_in_step ?s2 M l'"
    using p' fit' cap' by (simp add: window_in_step_def)
  then have bnd: "WindowState_bounded ?s2 = (?s2, Inr ())"
    using bounded_in_step [OF P(1), of ?s2] p' h fit' cap' by (simp add: WindowState_bounded_def)
  have "Window_append crc w l b writes = (w\<lparr>wn_state := ?s2\<rparr>, l', Inr sb)"
  proof -
    have "log_point l = Inr (ws_point ?s)" "log_point l' = Inr p'" using point p' by (simp_all add: log_point_eq)
    moreover have "WindowState_at ?s (ws_point ?s) = (?s, Inr ())" using h by (simp add: WindowState_at_def)
    ultimately show ?thesis using prep con bnd h match by (simp add: Window_append_def Let_def WindowState_require_def)
  qed
  moreover have "tokens - mset ?bs = M" using M by simp
  ultimately show ?thesis using in2 h by (intro exI [of _ ?s2]) simp
qed

lemma bounded_ok:
  assumes inv: "Log_inv l" and b: "WindowState_bounded s = (s', r)"
    and pt: "Log_position l = Inr (ws_point s)" "ws_reserved_bytes s = sum_mset tokens" "ws_unsubmitted s = size tokens"
      "ws_index_capacity s \<le> Log_append_capacity l"
  shows "window_ok (w\<lparr>wn_state := s'\<rparr>) tokens l"
proof (cases r)
  case (Inl e)
  then show ?thesis using b by (intro window_ok_failed) (auto simp: WindowState_bounded_def)
next
  case (Inr u)
  then have "s' = s" "within_capacity s" "ws_unsubmitted s \<le> ws_index_capacity s" using b by (auto simp: WindowState_bounded_def)
  then show ?thesis using pt bounded_in_step [OF inv pt(1)] by (simp add: window_ok_def window_in_step_def)
qed

lemma at_cases:
  assumes "WindowState_at s p = (s', r)"
  shows "(\<exists>e. r = Inl e) \<and> ws_failed s' \<or> r = Inr () \<and> s' = s \<and> \<not> ws_failed s \<and> ws_point s = p"
  using assms by (auto simp: WindowState_at_def WindowState_require_def split: if_splits)

text \<open>A log step that moves neither the position nor the end, and only frees index room, is unnoticed.\<close>

lemma window_ok_log:
  assumes "window_ok w tokens l" and "Log_position l' = Log_position l" and "lg_config l' = lg_config l"
    and "Log_append_capacity l \<le> Log_append_capacity l'"
  shows "window_ok w tokens l'"
  using assms by (auto simp: window_ok_def window_in_step_def)

lemma token_ok_consume: "list_all (token_ok w) wrs \<Longrightarrow> \<exists>s'. consume wrs s = Inr s'"
  by (induction wrs arbitrary: s) (auto simp: token_ok_def split: option.splits)

lemma Window_append_refused:
  assumes inv: "Log_inv l" and ok: "window_ok w tokens l" and built: "built crc b rs"
    and r: "Window_append crc w l b writes = (w', l', Inl e)"
  shows "Log_inv l' \<and> lg_config l' = lg_config l \<and> lg_issued l \<le> lg_issued l' \<and> window_ok w' tokens l'"
proof -
  obtain p where p: "log_point l = Inr p" "Log_position l = Inr p" using Log_position_inv [OF inv] by (auto simp: log_point_eq)
  let ?s = "Window_lock w"
  have same: "window_ok (w\<lparr>wn_state := ?s\<rparr>) tokens l" using ok by (auto simp: window_ok_def)
  consider (early) "ws_failed (wn_state w')" "l' = l"
    | (tokens) "l' = l" "w' = w\<lparr>wn_state := ?s\<rparr>"
    | (late) sb where "Log_prepare_append crc l b = Inr (l', sb)" "ws_failed (wn_state w')"
  proof (cases "WindowState_at ?s p")
    case (Pair s q)
    note out = that
    show thesis
    proof (cases "q = Inr () \<and> \<not> ws_failed ?s \<and> length writes = b_descriptors b \<and> list_all (token_ok w) writes")
      case False
      then show thesis
        using r p at_cases [OF Pair] Pair out(1) by (auto simp: Window_append_def Let_def WindowState_require_def split: if_splits)
    next
      case True
      then have s: "s = ?s" using at_cases [OF Pair] by auto
      show thesis
      proof (cases "Log_prepare_append crc l b")
        case (Inl e')
        then show thesis using r p Pair True s out(2) by (simp add: Window_append_def Let_def WindowState_require_def)
      next
        case (Inr ls)
        obtain l1 sb where ls: "ls = (l1, sb)" by (cases ls)
        have inv1: "Log_inv l1" using Log_prepare_append_spec(1) [OF inv built] Inr ls by simp
        obtain p1 where p1: "log_point l1 = Inr p1" using Log_position_inv [OF inv1] by (auto simp: log_point_eq)
        obtain s1 where s1: "consume writes ?s = Inr s1" using token_ok_consume True by blast
        obtain s2 q2 where b: "WindowState_bounded (s1\<lparr>ws_point := p1, ws_index_capacity := Log_append_capacity l1\<rparr>) = (s2, q2)"
          by (rule prod.exhaust)
        have "l' = l1" "w' = w\<lparr>wn_state := s2\<rparr>" "q2 = Inl e"
          using r p Pair True s Inr ls p1 s1 b by (auto simp: Window_append_def Let_def WindowState_require_def split: sum.splits)
        then show thesis using out(3) [of sb] Inr ls b by (simp add: WindowState_bounded_def)
      qed
    qed
  qed
  then show ?thesis
  proof cases
    case early
    then show ?thesis using inv by (simp add: window_ok_def Window_lock_def)
  next
    case tokens
    then show ?thesis using inv same by simp
  next
    case (late sb)
    then show ?thesis
      using Log_prepare_append_spec [OF inv built late(1)] by (simp add: window_ok_def Window_lock_def)
  qed
qed

lemma Window_fence_ok:
  assumes inv: "Log_inv l" and ok: "window_ok w tokens l" and f: "Window_fence crc w l = (w', l', r)"
  shows "Log_inv l' \<and> lg_config l' = lg_config l \<and> lg_issued l' = lg_issued l \<and> window_ok w' tokens l'"
proof -
  obtain p where p: "log_point l = Inr p" "Log_position l = Inr p" using Log_position_inv [OF inv] by (auto simp: log_point_eq)
  let ?s = "Window_lock w"
  obtain s q where at: "WindowState_at ?s p = (s, q)" by (rule prod.exhaust)
  show ?thesis
  proof (cases "q = Inr ()")
    case False
    then have "ws_failed s" "l' = l" "w' = w\<lparr>wn_state := s\<rparr>"
      using at_cases [OF at] f p at by (auto simp: Window_fence_def Let_def)
    then show ?thesis using inv window_ok_failed by simp
  next
    case True
    then have s: "s = ?s" "\<not> ws_failed ?s" using at_cases [OF at] by auto
    show ?thesis
    proof (cases "Log_prepare_fence crc l")
      case (Inl e)
      then have "l' = l" "w' = w\<lparr>wn_state := ?s\<rparr>" using f p at True s by (auto simp: Window_fence_def Let_def)
      then show ?thesis using inv ok by (auto simp: window_ok_def)
    next
      case (Inr ls)
      obtain l1 sb where ls: "ls = (l1, sb)" by (cases ls)
      have F: "Log_inv l1" "lg_config l1 = lg_config l" "lg_issued l1 = lg_issued l"
        using Log_prepare_fence_spec [OF inv] Inr ls by auto
      have cap: "Log_append_capacity l1 = Log_append_capacity l"
        using Inr ls by (auto simp: Log_prepare_fence_def Log_reserve_def Log_append_capacity_def Let_def)
      obtain p1 where p1: "log_point l1 = Inr p1" "Log_position l1 = Inr p1"
        using Log_position_inv [OF F(1)] by (auto simp: log_point_eq)
      obtain s2 q2 where b: "WindowState_bounded (?s\<lparr>ws_point := p1\<rparr>) = (s2, q2)" by (rule prod.exhaust)
      have "l' = l1" "w' = w\<lparr>wn_state := s2\<rparr>"
        using f p at True s Inr ls p1 b by (auto simp: Window_fence_def Let_def split: sum.splits)
      moreover have "window_ok (w\<lparr>wn_state := s2\<rparr>) tokens l1"
        using ok s(2) cap p1(2) by (intro bounded_ok [OF F(1) b]) (auto simp: window_ok_def window_in_step_def)
      ultimately show ?thesis using F by simp
    qed
  qed
qed

lemma Window_refresh_ok:
  assumes inv: "Log_inv l" and ok: "window_ok w tokens l" and f: "Window_refresh w l = (w', r)"
  shows "window_ok w' tokens l"
proof -
  obtain p where p: "log_point l = Inr p" "Log_position l = Inr p" using Log_position_inv [OF inv] by (auto simp: log_point_eq)
  let ?s = "Window_lock w"
  obtain s q where at: "WindowState_at ?s p = (s, q)" by (rule prod.exhaust)
  show ?thesis
  proof (cases "q = Inr ()")
    case False
    then show ?thesis
      using at_cases [OF at] f p at window_ok_failed [of s w tokens l] by (auto simp: Window_refresh_def)
  next
    case True
    then have s: "s = ?s" "\<not> ws_failed ?s" using at_cases [OF at] by auto
    obtain s2 q2 where b: "WindowState_bounded (?s\<lparr>ws_index_capacity := Log_append_capacity l\<rparr>) = (s2, q2)" by (rule prod.exhaust)
    have "window_ok (w\<lparr>wn_state := s2\<rparr>) tokens l"
      using ok s(2) by (intro bounded_ok [OF inv b]) (auto simp: window_ok_def window_in_step_def)
    moreover have "w' = w\<lparr>wn_state := s2\<rparr> \<or> w' = w\<lparr>wn_state := s2\<lparr>ws_index_pressure := False\<rparr>\<rparr>"
      using f p at True s b by (auto simp: Window_refresh_def Let_def split: sum.splits)
    ultimately show ?thesis by (cases "wn_poisoned w") (auto simp: window_ok_def window_in_step_def)
  qed
qed

lemma Window_before_rotation_ok:
  assumes inv: "Log_inv l" and ok: "window_ok w tokens l" and f: "Window_before_rotation w l = (w', r)"
  shows "window_ok w' tokens l"
proof -
  obtain p where p: "log_point l = Inr p" using Log_position_inv [OF inv] by (auto simp: log_point_eq)
  obtain s q where at: "WindowState_at (Window_lock w) p = (s, q)" by (rule prod.exhaust)
  have same: "window_ok (w\<lparr>wn_state := Window_lock w\<rparr>) tokens l" using ok by (auto simp: window_ok_def)
  show ?thesis
    using f p at at_cases [OF at] same window_ok_failed [of _ w tokens l]
    by (auto simp: Window_before_rotation_def with_state_def WindowState_require_def)
qed

lemma Window_installed_ok:
  assumes inv: "Log_inv l'" and ok: "window_ok w tokens l" and f: "Window_installed w l' = (w', r)"
    and cfg: "lg_config l' = lg_config l" and cap: "Log_append_capacity l' = Log_append_capacity l"
  shows "window_ok w' tokens l'"
proof -
  obtain p where p: "log_point l' = Inr p" "Log_position l' = Inr p" using Log_position_inv [OF inv] by (auto simp: log_point_eq)
  let ?s = "Window_lock w"
  show ?thesis
  proof (cases "ps_segment p = ps_segment (ws_point ?s)")
    case True
    obtain s q where at: "WindowState_at ?s p = (s, q)" by (rule prod.exhaust)
    have "w' = w\<lparr>wn_state := s\<rparr>" using f p True at by (auto simp: Window_installed_def Let_def split: sum.splits)
    moreover have "window_in_step ?s tokens l'" if "\<not> ws_failed ?s" "ws_point ?s = p"
      using ok that p cfg cap by (auto simp: window_ok_def window_in_step_def)
    ultimately show ?thesis using at_cases [OF at] by (auto simp: window_ok_def)
  next
    case False
    let ?v = "ws_rotation_wanted ?s \<and> ws_unsubmitted ?s = 0 \<and> ps_segment p > ps_segment (ws_point ?s) \<and>
      ps_capacity p = ps_capacity (ws_point ?s) \<and> ps_end p = BLOCK_SIZE \<and> ps_issued p = ps_issued (ws_point ?s) \<and>
      ps_fenced p = ps_issued p \<and> ps_initial_fence p"
    show ?thesis
    proof (cases "ws_failed ?s \<or> \<not> ?v")
      case True
      then have "w' = w\<lparr>wn_state := ?s\<lparr>ws_failed := True\<rparr>\<rparr>"
        using f p False by (auto simp: Window_installed_def Let_def WindowState_require_def)
      then show ?thesis by (simp add: window_ok_def)
    next
      case ok': False
      obtain s2 q2 where b: "WindowState_bounded (?s\<lparr>ws_point := p, ws_index_capacity := Log_append_capacity l', ws_rotation_wanted := False\<rparr>) = (s2, q2)"
        by (rule prod.exhaust)
      have "w' = w\<lparr>wn_state := s2\<rparr>"
        using f p False ok' b by (auto simp: Window_installed_def Let_def WindowState_require_def split: sum.splits)
      moreover have "window_ok (w\<lparr>wn_state := s2\<rparr>) tokens l'"
        using ok ok' p by (intro bounded_ok [OF inv b]) (auto simp: window_ok_def window_in_step_def)
      ultimately show ?thesis by simp
    qed
  qed
qed

lemma Window_new_ok:
  assumes inv: "Log_inv l" and p: "Log_position l = Inr p" and n: "Window_new i g p (Log_append_capacity l) = Inr w"
  shows "window_ok w {#} l"
proof -
  let ?s = "\<lparr>ws_point = p, ws_reserved_bytes = 0, ws_index_capacity = Log_append_capacity l, ws_unsubmitted = 0,
    ws_rotation_wanted = False, ws_index_pressure = False, ws_failed = False\<rparr>"
  obtain s q where b: "WindowState_bounded ?s = (s, q)" by (rule prod.exhaust)
  have w: "w = \<lparr>wn_id = i, wn_state = undefined, wn_poisoned = False\<rparr>\<lparr>wn_state := s\<rparr>"
    using n b by (auto simp: Window_new_def Let_def split: if_splits sum.splits)
  show ?thesis unfolding w using p by (intro bounded_ok [OF inv b]) simp_all
qed

lemma publish_position:
  assumes inv: "Log_inv l" and ok: "Submission_ok crc l s" and p: "Log_publish_append crc l s = Inr l'"
  shows "Log_inv l'" and "lg_config l' = lg_config l" and "lg_issued l' = lg_issued l" and "Log_position l' = Log_position l"
    and "Log_append_capacity l \<le> Log_append_capacity l'"
proof -
  obtain h where h: "\<not> lg_failed l" "Log_owns l s = Inr ()"
    "Header_decode crc (take BLOCK_SIZE (Batch_bytes (sm_batch s))) (cf_image_bytes (lg_config l)) = Inr h"
    "\<not> e_fence (h_envelope h)" "unat (e_first (h_envelope h)) = lg_published l + 1"
    by (rule Log_publish_append_cases [OF p])
  let ?n = "e_descriptors (h_envelope h)"
  obtain ix where l': "l' = l\<lparr>lg_index := ix, lg_published := unat (e_last (h_envelope h)),
      lg_pending_descriptors := lg_pending_descriptors l - ?n\<rparr>" "Log_inv l'"
    using Log_publish_append_effect [OF inv ok h] p by auto
  have len: "length (Header_descriptors h) = ?n"
    using Header_decode_well_formed(1) [OF h(3)] by (simp add: batch_well_formed_def)
  have "publish_descriptors (sm_segment s) (sm_offset s) (Header_descriptors h) (lg_index l) = Inr (lg_index l')"
    using p h by (auto simp: Log_publish_append_def Log_publish_def Let_def)
  then have "publish_descriptors (sm_segment s) (sm_offset s) (Header_descriptors h) (lg_index l) = Inr ix"
    by (simp add: l'(1))
  moreover have ds: "\<forall>d \<in> set (Header_descriptors h). unat (d_offset d) < mp_end (publish_mapping (sm_segment s) (sm_offset s) d) \<and>
      (\<forall>pl k. mp_source (publish_mapping (sm_segment s) (sm_offset s) d) = Some (pl, k) \<longrightarrow>
        k + (mp_end (publish_mapping (sm_segment s) (sm_offset s) d) - unat (d_offset d)) \<le> pl_bytes pl)"
    using decoded_descriptor [OF h(3)] by blast
  have "unat (e_last (h_envelope h)) \<le> lg_issued l" using ok h(3) by (simp add: Submission_ok_def BLOCK_SIZE_def)
  then have n: "?n \<le> lg_pending_descriptors l"
    using decoded_append(2) [OF h(3,4)] h(5) Log_invD(7) [OF inv] by simp
  have room: "length (ii_map (lg_index l)) + 2 * length (Header_descriptors h) \<le> ii_limit (lg_index l)"
    using Log_invD(5,6) [OF inv] n len by simp
  ultimately have grow: "length (ii_map ix) \<le> length (ii_map (lg_index l)) + 2 * ?n"
    using publish_descriptors_spec [OF Log_invD(4) [OF inv] room ds] len by auto
  have "(lm_intervals (lg_limits l) - length (ii_map (lg_index l))) div 2 - lg_pending_descriptors l \<le>
      (lm_intervals (lg_limits l) - length (ii_map ix)) div 2 - (lg_pending_descriptors l - ?n)"
  proof -
    have "lm_intervals (lg_limits l) - length (ii_map (lg_index l)) \<le> (lm_intervals (lg_limits l) - length (ii_map ix)) + ?n * 2"
      using grow by simp
    then have "(lm_intervals (lg_limits l) - length (ii_map (lg_index l))) div 2 \<le> ((lm_intervals (lg_limits l) - length (ii_map ix)) + ?n * 2) div 2"
      by (rule div_le_mono)
    also have "\<dots> = (lm_intervals (lg_limits l) - length (ii_map ix)) div 2 + ?n" by simp
    finally show ?thesis using diff_le_mono [of _ _ "lg_pending_descriptors l"] n by (simp add: diff_diff_right)
  qed
  then show "Log_append_capacity l \<le> Log_append_capacity l'" by (simp add: Log_append_capacity_def l'(1))
  show "Log_inv l'" "lg_config l' = lg_config l" "lg_issued l' = lg_issued l" using l' by simp_all
  show "Log_position l' = Log_position l" by (simp add: l'(1) Log_position_def Log_current_def split: option.splits)
qed

lemma sync_position:
  assumes inv: "Log_inv l" and f: "Log_complete_sync l s = Inr (l', d)"
  shows "Log_position l' = Log_position l" and "Log_append_capacity l' = Log_append_capacity l"
proof -
  note s = Log_complete_sync_spec [OF inv f]
  obtain c where c: "lg_cohort l = Some c"
    using f by (auto simp: Log_complete_sync_def Log_ready_to_sync_def Let_def)
  have "unat (co_boundary c) = d" using Log_invD(10) [OF inv c] s(2) by simp
  then show "Log_position l' = Log_position l"
    by (simp add: s(1) c Log_position_inv [OF inv] Log_position_def Log_current_def)
  show "Log_append_capacity l' = Log_append_capacity l" by (simp add: s(1) Log_append_capacity_def)
qed

lemma rotation_position:
  assumes "Log_prepare_rotation g res l kind = Inr (l', rot)" and "Log_inv l"
  shows "Log_inv l'" and "Log_position l' = Log_position l" and "lg_config l' = lg_config l" and "lg_issued l' = lg_issued l"
    and "Log_append_capacity l' = Log_append_capacity l"
proof -
  obtain ep where r: "Log_rotation g res l ep = Inr (l', rot)" using assms(1) by (auto simp: Log_prepare_rotation_def)
  note s = Log_rotation_spec [OF assms(2) r]
  show "Log_inv l'" by (rule s(4))
  show "Log_position l' = Log_position l" "lg_config l' = lg_config l" "lg_issued l' = lg_issued l"
    "Log_append_capacity l' = Log_append_capacity l"
    by (simp_all add: s(1) Log_position_def Log_current_def Log_append_capacity_def split: option.splits)
qed

lemma install_capacity:
  assumes "Log_install_rotation l c = (l', q)"
  shows "Log_append_capacity l' = Log_append_capacity l"
  using assms by (auto simp: Log_install_rotation_def Log_append_capacity_def Log_fail_def split: sum.splits option.splits if_splits)

lemma window_reach_inv:
  "window_reach crc w tokens l ss \<Longrightarrow>
   Log_inv l \<and> (\<forall>s \<in> set ss. Submission_ok crc l s) \<and> window_ok w tokens l \<and> 0 \<notin># tokens"
proof (induction rule: window_reach.induct)
  case (opened l ss p i g w)
  then show ?case using log_reach_inv [OF opened.hyps(1)] Window_new_ok by auto
next
  case (reserved w tokens l ss check n w' r)
  have "sl_bytes slot \<noteq> 0" if "r = Inr (Ready slot)" for slot
    using reserved.hyps(2) that
    by (auto simp: Window_reserve_def Let_def BLOCK_SIZE_def split: if_splits option.splits sum.splits Decision.splits)
  then show ?case using reserved.IH Window_reserve_ok [OF _ _ reserved.hyps(2)] by (auto split: sum.splits Decision.splits)
next
  case (dropped w tokens l ss slot)
  then have "sl_bytes slot \<noteq> 0" by metis
  then show ?case using dropped.IH Slot_drop_ok [OF _ _ dropped.hyps(2)] by (auto dest: in_diffD)
next
  case (appended w tokens l ss b rs writes w' l' s)
  then have inv: "Log_inv l" and ok: "window_ok w tokens l" by blast+
  obtain p where p: "log_point l = Inr p" using Log_position_inv [OF inv] by (auto simp: log_point_eq)
  have run: "\<not> ws_failed (Window_lock w)" "length writes = b_descriptors b" "list_all (token_ok w) writes"
    "Log_prepare_append crc l b = Inr (l', s)"
    using appended.hyps(5) p
    by (auto simp: Window_append_def Let_def WindowState_at_def WindowState_require_def split: if_splits sum.splits prod.splits)
  have st: "window_in_step (Window_lock w) tokens l" using ok run(1) by (simp add: window_ok_def)
  from Window_append_effect [OF inv st run(1) appended.hyps(2-4) run(2-4)] appended.hyps(5)
  have "window_ok w' (tokens - mset (map (\<lambda>wr. sl_bytes (the (fst wr))) writes)) l'"
    using healthy_lock [OF run(1)] by (auto simp: window_ok_def)
  then show ?case
    using Log_prepare_append_spec [OF inv appended.hyps(2) run(4)] appended.IH Submission_ok_mono [of crc l _ l']
    by (auto dest: in_diffD)
next
  case (refused w tokens l ss b rs writes w' l' e)
  then show ?case using Window_append_refused [OF _ _ refused.hyps(2,3)] Submission_ok_mono [of crc l _ l'] by blast
next
  case (fenced w tokens l ss w' l' r)
  then show ?case using Window_fence_ok [OF _ _ fenced.hyps(2)] Submission_ok_mono [of crc l _ l'] by (metis order_refl)
next
  case (published w tokens l ss s l')
  then show ?case
    using publish_position [OF _ _ published.hyps(3)] window_ok_log [of w tokens l l'] Submission_ok_mono [of crc l _ l'] by (metis order_refl)
next
  case (synced w tokens l ss s l' d)
  then have inv: "Log_inv l" by blast
  note c = Log_complete_sync_spec [OF inv synced.hyps(2)] and p = sync_position [OF inv synced.hyps(2)]
  have "lg_config l' = lg_config l" "lg_issued l' = lg_issued l" by (simp_all add: c(1))
  then show ?case using synced.IH c(4) p window_ok_log [of w tokens l l'] Submission_ok_mono [of crc l _ l'] by (metis order_refl)
next
  case (closed w tokens l ss)
  then show ?case by (auto simp: Window_close_def window_ok_def window_in_step_def)
next
  case (refreshed w tokens l ss w' r)
  then show ?case using Window_refresh_ok by blast
next
  case (rotating w tokens l ss w' g res kind l' rot)
  then have inv: "Log_inv l" by blast
  note p = rotation_position [OF rotating.hyps(3) inv]
  have "window_ok w' tokens l" using rotating Window_before_rotation_ok by blast
  then show ?case using rotating.IH p window_ok_log [of w' tokens l l'] Submission_ok_mono [of crc l _ l'] by (metis order_refl)
next
  case (cancelled w tokens l ss rot l')
  then have l': "l' = l\<lparr>lg_rotating := False\<rparr>" by (auto simp: Log_cancel_rotation_def)
  have "Log_position l' = Log_position l" "Log_append_capacity l' = Log_append_capacity l" "lg_config l' = lg_config l" "lg_issued l' = lg_issued l"
    by (simp_all add: l' Log_position_def Log_current_def Log_append_capacity_def split: option.splits)
  moreover have "Log_inv l'" using cancelled.IH by (simp add: l' Log_inv_def)
  ultimately show ?case using cancelled.IH window_ok_log [of w tokens l l'] Submission_ok_mono [of crc l _ l'] by (metis order_refl)
next
  case (installed w tokens l ss i io al ticket rot c l' q w' r)
  then have inv: "Log_inv l" and ok: "window_ok w tokens l" by blast+
  note s = Log_install_rotation_spec [OF inv Rotation_create_number [OF installed.hyps(2)] installed.hyps(3)]
  have "window_ok w' tokens l'"
    using Window_installed_ok [OF _ ok installed.hyps(4)] s install_capacity [OF installed.hyps(3)] by blast
  then show ?case using s installed.IH Submission_ok_mono [of crc l _ l'] by (metis order_refl)
next
  case (log_stopped w tokens l ss)
  have "Log_position (Log_fail l) = Log_position l" "Log_append_capacity (Log_fail l) = Log_append_capacity l"
    "lg_config (Log_fail l) = lg_config l" "lg_issued (Log_fail l) = lg_issued l"
    by (simp_all add: Log_fail_def Log_position_def Log_current_def Log_append_capacity_def split: option.splits)
  moreover have "Log_inv (Log_fail l)" using log_stopped.IH by (simp add: Log_fail_def Log_inv_def)
  ultimately show ?case
    using log_stopped.IH window_ok_log [of w tokens l "Log_fail l"] Submission_ok_mono [of crc l _ "Log_fail l"] by (metis order_refl)
next
  case (poisoned w tokens l ss)
  then show ?case by (simp add: window_ok_def Window_lock_def)
qed

section \<open>Properties\<close>

text \<open>
  Admission accounting: in every interleaving of reservations, dropped tokens, appends, fences,
  publications, syncs, closing, rotations and failures, a window that has not failed has reserved
  exactly the bytes of its outstanding tokens, tracks the log's physical position, and keeps
  everything issued and everything reserved, with a fence for each, within the segment.
\<close>
theorem window_accounts_tokens:
  assumes "window_reach crc w tokens l ss" and "\<not> ws_failed (Window_lock w)"
  shows "Log_position l = Inr (ws_point (Window_lock w)) \<and> ws_reserved_bytes (Window_lock w) = sum_mset tokens \<and>
    ws_unsubmitted (Window_lock w) = size tokens \<and>
    lg_offset l + sum_mset tokens + size tokens * 4096 \<le> unat (cf_segment_bytes (lg_config l)) \<and>
    size tokens \<le> Log_append_capacity l"
proof -
  have st: "window_in_step (Window_lock w) tokens l" and inv: "Log_inv l"
    using window_reach_inv [OF assms(1)] assms(2) by (auto simp: window_ok_def)
  have "ps_end (ws_point (Window_lock w)) = lg_offset l"
    using st window_in_step_capacity(4) [OF inv] by (auto simp: window_in_step_def)
  then have "lg_offset l + sum_mset tokens + size tokens * 4096 \<le> need (Window_lock w)"
    using st by (auto simp: window_in_step_def need_def Let_def algebra_simps)
  then show ?thesis using st by (auto simp: window_in_step_def)
qed

text \<open>
  C9. An admitted batch is never refused for space. In any reachable state of window and log, with
  the window not failed and the log healthy with no fence or rotation in progress, a batch whose
  writes carry matching admission tokens is appended: neither the segment nor the index can be
  full, and the window stays in step. Only exhausted 64-bit identifiers are excluded.
\<close>
theorem admitted_batch_fits:
  assumes "window_reach crc w tokens l ss" and "\<not> ws_failed (Window_lock w)"
    and "\<not> lg_failed l" and "lg_cohort l = None" and "\<not> lg_rotating l"
    and "built crc b rs" and "rs \<noteq> []" and "b_image_bytes b = cf_image_bytes (lg_config l)"
    and "length writes = b_descriptors b" and "list_all (token_ok w) writes"
    and "mset (map (\<lambda>wr. sl_bytes (the (fst wr))) writes) \<subseteq># tokens" and "sum_list (map snd writes) = b_payload_bytes b"
    and "lg_issued l + length rs \<le> u64_max" and "lg_next_batch l + 1 \<le> u64_max"
  shows "\<exists>w' l' s. Window_append crc w l b writes = (w', l', Inr s) \<and> \<not> ws_failed (wn_state w') \<and> lg_issued l' = lg_issued l + length rs"
proof -
  let ?s = "Window_lock w" and ?bs = "map (\<lambda>wr. sl_bytes (the (fst wr))) writes" and ?k = "length rs"
  have st: "window_in_step ?s tokens l" and inv: "Log_inv l"
    using window_reach_inv [OF assms(1)] assms(2) by (auto simp: window_ok_def)
  have nd: "b_descriptors b = ?k" "b_payload_bytes b \<le> 1048576" using built_payload [OF assms(6)] by auto
  have bytes: "?bs = map (\<lambda>wr. snd wr + 4096) writes"
    using assms(10) by (auto simp: list_all_iff token_ok_def Slot_matches_def BLOCK_SIZE_def split: option.splits)
  have total: "sum_list ?bs = b_payload_bytes b + ?k * 4096"
    unfolding bytes assms(12) [symmetric] nd(1) [symmetric] assms(9) [symmetric] by (induction writes) auto
  obtain M where M: "tokens = mset ?bs + M" using assms(11) by (metis subset_mset.add_diff_inverse)
  have sums: "sum_mset tokens = sum_list ?bs + sum_mset M" "size tokens = ?k + size M"
    unfolding M sum_mset.union sum_mset_sum_list using assms(9) nd(1) by simp_all
  have fit: "lg_offset l + sum_mset tokens + size tokens * 4096 \<le> unat (cf_segment_bytes (lg_config l))"
    and cap: "size tokens \<le> Log_append_capacity l"
  proof -
    have "ps_end (ws_point ?s) = lg_offset l" using st window_in_step_capacity(4) [OF inv] by (auto simp: window_in_step_def)
    then have "lg_offset l + sum_mset tokens + size tokens * 4096 \<le> need ?s"
      using st by (auto simp: window_in_step_def need_def Let_def algebra_simps)
    then show "lg_offset l + sum_mset tokens + size tokens * 4096 \<le> unat (cf_segment_bytes (lg_config l))"
      "size tokens \<le> Log_append_capacity l" using st by (auto simp: window_in_step_def)
  qed
  have k: "1 \<le> ?k" using assms(7) by (cases rs) auto
  have room: "lg_offset l + (4096 + b_payload_bytes b) + 4096 \<le> unat (cf_segment_bytes (lg_config l))"
    using fit sums total k by simp
  have chk: "Log_check_append l b = Inr ()"
    using assms(3-5,7,8,13,14) nd(1) k cap sums(2) room Log_invD(1) [OF inv]
    by (simp add: Log_check_append_def Log_healthy_def nchecked_add_def BLOCK_SIZE_def wrapping_add_exact u64_max_def)
  obtain l' sb where prep: "Log_prepare_append crc l b = Inr (l', sb)"
    using Log_prepare_append_accepts [OF inv assms(6) chk] by blast
  from Window_append_effect [OF inv st assms(2,6,11,12,9,10) prep] Log_prepare_append_spec(4) [OF inv assms(6) prep]
  show ?thesis by auto
qed

section \<open>A concrete admission\<close>

definition demo_point :: Position where
  "demo_point = \<lparr>ps_segment = sh_number (sg_header (List.last (lg_segments demo_log))), ps_capacity = 1064960, ps_end = 4096,
     ps_issued = 0, ps_fenced = 0, ps_initial_fence = (\<not> lg_fenced demo_log)\<rparr>"

definition demo_window :: Window where
  "demo_window = \<lparr>wn_id = 5, wn_state = \<lparr>ws_point = demo_point, ws_reserved_bytes = 4096, ws_index_capacity = 63,
     ws_unsubmitted = 1, ws_rotation_wanted = False, ws_index_pressure = False, ws_failed = False\<rparr>, wn_poisoned = False\<rparr>"

lemma demo_window_reachable: "window_reach (\<lambda>_. 0) demo_window {#4096#} demo_log []"
proof -
  let ?w = "demo_window\<lparr>wn_state := (wn_state demo_window)\<lparr>ws_reserved_bytes := 0, ws_unsubmitted := 0\<rparr>\<rparr>"
  have inv: "Log_inv demo_log" using log_reach_inv [OF demo_log_reach] by blast
  have p: "Log_position demo_log = Inr demo_point"
    using Log_position_inv [OF inv] by (simp add: demo_point_def demo_log_facts demo_config_def)
  have cap: "Log_append_capacity demo_log = 63" by (simp add: Log_append_capacity_def demo_log_facts demo_limits_def)
  have "Window_new 5 True demo_point 63 = Inr ?w"
    by (simp add: Window_new_def demo_point_def demo_window_def WindowState_bounded_def WindowState_require_def within_capacity_def
        WindowState_used_def obind_def nchecked_sub_def nchecked_add_def nchecked_mul_def u64_max_def Let_def BLOCK_SIZE_def MAX_REQUEST_BYTES_def)
  then have "window_reach (\<lambda>_. 0) ?w {#} demo_log []"
    using opened [OF demo_log_reach p, of 5 True ?w] cap by simp
  moreover have "Window_reserve ?w None 0 = (demo_window, Inr (Ready \<lparr>sl_owner = 5, sl_bytes = 4096\<rparr>))"
    by (simp add: Window_reserve_def demo_point_def demo_window_def Window_lock_def within_capacity_def wrapping_add_def
        WindowState_used_def obind_def nchecked_sub_def nchecked_add_def nchecked_mul_def u64_max_def Let_def BLOCK_SIZE_def MAX_REQUEST_BYTES_def)
  ultimately have "window_reach (\<lambda>_. 0) demo_window (add_mset (sl_bytes \<lparr>sl_owner = 5, sl_bytes = 4096\<rparr>) {#}) demo_log []"
    using reserved [of "\<lambda>_. 0" ?w "{#}" demo_log "[]" None 0 demo_window "Inr (Ready \<lparr>sl_owner = 5, sl_bytes = 4096\<rparr>)"] by simp
  then show ?thesis by simp
qed

theorem window_accounts_tokens_witness:
  "ws_reserved_bytes (Window_lock demo_window) = sum_mset {#4096#} \<and> ws_unsubmitted (Window_lock demo_window) = size {#4096 :: nat#}"
  using window_accounts_tokens [OF demo_window_reachable] by (simp add: Window_lock_def demo_window_def)

theorem admitted_batch_fits_witness:
  "\<exists>w' l' s. Window_append (\<lambda>_. 0) demo_window demo_log demo_builder [(Some \<lparr>sl_owner = 5, sl_bytes = 4096\<rparr>, 0)] = (w', l', Inr s) \<and>
     \<not> ws_failed (wn_state w') \<and> lg_issued l' = lg_issued demo_log + length [ZeroReq demo_id 4096 4096]"
proof (rule admitted_batch_fits [OF demo_window_reachable _ _ _ _ demo_built])
  show "sum_list (map snd [(Some \<lparr>sl_owner = 5, sl_bytes = 4096\<rparr>, 0 :: nat)]) = b_payload_bytes demo_builder"
    by (simp add: demo_builder_def Builder_zero_def Builder_new_def Builder_admit_def demo_id_def
        wal_constants valid_range_def checked_add_def is_multiple_of_def Builder_push_def Let_def)
  show "list_all (token_ok demo_window) [(Some \<lparr>sl_owner = 5, sl_bytes = 4096\<rparr>, 0)]"
    by (simp add: token_ok_def demo_window_def Slot_matches_def u64_max_def BLOCK_SIZE_def)
qed (simp_all add: demo_window_def Window_lock_def demo_log_facts demo_builder_facts demo_config_def u64_max_def)

end
