(* ===== verification/Wal_Read.thy ===== *)
theory Wal_Read
  imports Wal_Log
begin

text \<open>
  Read snapshots of the log: \<^verbatim>\<open>core/src/append/read.rs\<close>. Planning walks the intervals that meet the
  requested range, marks their blocks as staged and pins the batch of every payload it will read;
  execution reads and verifies each payload and asks the manifest for the blocks that were not
  staged. The pins of each segment are an explicit store, indexed by the segment's identity. Reading
  a file, the manifest tree of the captured view and the chunk loader are arguments.
\<close>

unbundle bit_operations_syntax

section \<open>Planning\<close>

record ReadRange =
  rr_payload :: Payload
  rr_source :: "nat \<times> nat"
  rr_destination :: "nat \<times> nat"

record 'v ReadPlan =
  rp_offset :: nat
  rp_bytes :: nat
  rp_ranges :: "ReadRange list"
  rp_covered :: "u64 list"
  rp_base :: "'v option"

primrec cover_blocks :: "nat list \<Rightarrow> u64 list \<Rightarrow> u64 list result" where
  "cover_blocks [] covered = Inr covered"
| "cover_blocks (block # blocks) covered =
     ensure (block div 64 < length covered) (Panic ''index out of bounds'')
       (cover_blocks blocks
         (covered[block div 64 := covered ! (block div 64) OR push_bit (block mod 64) 1]))"

text \<open>
  The loop over the overlapping intervals. An interval that ends before the range is never returned
  by the query, so the subtractions do not wrap.
\<close>

fun plan_ranges ::
  "nat \<Rightarrow> nat \<Rightarrow> (nat \<times> Mapping) list \<Rightarrow> (nat \<Rightarrow> Pins) \<Rightarrow> u64 list \<Rightarrow> ReadRange list \<Rightarrow>
   ((nat \<Rightarrow> Pins) \<times> u64 list \<times> ReadRange list) result" where
  "plan_ranges offset end [] pins covered ranges = Inr (pins, covered, ranges)"
| "plan_ranges offset end ((begin, m) # ms) pins covered ranges =
     (let first = max begin offset; last = min (mp_end m) end in
      attempt (cover_blocks [(first - offset) div BLOCK_SIZE..<(last - offset) div BLOCK_SIZE] covered) (\<lambda>covered.
      case mp_source m of
        None \<Rightarrow> plan_ranges offset end ms pins covered ranges
      | Some (payload, payload_offset) \<Rightarrow>
          let skip = payload_offset + first - begin in
          attempt (Pins_acquire (pins (pl_segment payload)) (unat (pl_batch_block payload))) (\<lambda>pinned.
          plan_ranges offset end ms (pins(pl_segment payload := pinned)) covered
            (ranges @ [\<lparr>rr_payload = payload, rr_source = (skip, skip + last - first),
                        rr_destination = (first - offset, last - offset)\<rparr>]))))"

definition Log_read_plan ::
  "Log \<Rightarrow> (nat \<Rightarrow> Pins) \<Rightarrow> bool \<Rightarrow> 'v option \<Rightarrow> nat \<Rightarrow> nat \<Rightarrow> nat \<Rightarrow> ((nat \<Rightarrow> Pins) \<times> 'v ReadPlan) log_result" where
  "Log_read_plan l pins granted base offset bytes boundary =
     attempt (Log_healthy l) (\<lambda>_.
     attempt (ok_or (nchecked_add offset bytes) Exhausted) (\<lambda>end.
     ensure (\<not> (bytes = 0 \<or> \<not> BLOCK_SIZE dvd offset \<or> \<not> BLOCK_SIZE dvd bytes \<or>
        end > unat (cf_image_bytes (lg_config l)) \<or> bytes > MAX_REQUEST_BYTES))
       (Format (InvalidData ''read range''))
    (ensure (\<not> lg_published l < boundary) Pending
    (ensure granted (Io (OutOfMemory ''read plan metadata exhausted''))
    (attempt (map_err Io (plan_ranges offset end (Intervals_overlapping (lg_index l) offset end) pins
        (replicate 4 0) [])) (\<lambda>(pins, covered, ranges).
     Inr (pins, \<lparr>rp_offset = offset, rp_bytes = bytes, rp_ranges = ranges, rp_covered = covered, rp_base = base\<rparr>)))))))"

text \<open>Dropping a range releases its pin.\<close>

definition ReadRange_drop :: "(nat \<Rightarrow> Pins) \<Rightarrow> ReadRange \<Rightarrow> (nat \<Rightarrow> Pins) result" where
  "ReadRange_drop pins r =
     (let s = pl_segment (rr_payload r) in
      attempt (Pins_release (pins s) (unat (pl_batch_block (rr_payload r)))) (\<lambda>p. Inr (pins(s := p))))"

section \<open>Execution\<close>

definition ReadPlan_staged :: "'v ReadPlan \<Rightarrow> nat \<Rightarrow> bool result" where
  "ReadPlan_staged p block =
     ensure (block < rp_bytes p div BLOCK_SIZE) (Panic ''assertion failed'')
    (ensure (block div 64 < length (rp_covered p)) (Panic ''index out of bounds'')
      (Inr (rp_covered p ! (block div 64) AND push_bit (block mod 64) 1 \<noteq> 0)))"

definition direct_to_response :: "ReadRange \<Rightarrow> bool" where
  "direct_to_response r \<longleftrightarrow> rr_source r = (0, pl_bytes (rr_payload r))"

definition verify_read_crc :: "(bytes \<Rightarrow> u32) \<Rightarrow> bytes \<Rightarrow> u32 \<Rightarrow> unit result" where
  "verify_read_crc crc input expected =
     (if crc input \<noteq> expected then Inl (Other ''corrupt staging payload'') else Inr ())"

definition ReadRange_verify :: "(bytes \<Rightarrow> u32) \<Rightarrow> ReadRange \<Rightarrow> bytes \<Rightarrow> unit result" where
  "ReadRange_verify crc r input =
     (if length input \<noteq> pl_bytes (rr_payload r) then Inl (Other ''short staging payload read'')
      else verify_read_crc crc input (pl_crc (rr_payload r)))"

text \<open>
  \<open>read s off n\<close> is the outcome of reading \<open>n\<close> bytes at \<open>off\<close> of the file of segment \<open>s\<close>.
  The scratch buffer is reused storage: only the bytes just read are looked at.
\<close>

type_synonym file_read = "nat \<Rightarrow> nat \<Rightarrow> nat \<Rightarrow> bytes result"

fun read_ranges :: "(bytes \<Rightarrow> u32) \<Rightarrow> file_read \<Rightarrow> ReadRange list \<Rightarrow> bytes \<Rightarrow> bytes result" where
  "read_ranges crc read [] buffer = Inr buffer"
| "read_ranges crc read (r # rs) buffer =
     (let (d0, d1) = rr_destination r; (s0, s1) = rr_source r; p = rr_payload r in
      ensure (d0 \<le> d1 \<and> d1 \<le> length buffer) (Panic ''slice index'')
     (if direct_to_response r
      then attempt (read (pl_segment p) (pl_offset p) (d1 - d0)) (\<lambda>input.
           attempt (ReadRange_verify crc r input) (\<lambda>_.
           read_ranges crc read rs (overwrite buffer d0 input)))
      else attempt (read (pl_segment p) (pl_offset p) (pl_bytes p)) (\<lambda>input.
           attempt (ReadRange_verify crc r input) (\<lambda>_.
           ensure (s0 \<le> s1 \<and> s1 \<le> length input) (Panic ''slice index'')
          (ensure (s1 - s0 = d1 - d0) (Panic ''source slice length does not match destination'')
            (read_ranges crc read rs (overwrite buffer d0 (subrange input s0 (s1 - s0)))))))))"

fun any_unstaged :: "'v ReadPlan \<Rightarrow> nat list \<Rightarrow> bool result" where
  "any_unstaged p [] = Inr False"
| "any_unstaged p (block # blocks) =
     attempt (ReadPlan_staged p block) (\<lambda>s. if s then any_unstaged p blocks else Inr True)"

fun fill_blocks ::
  "(nat \<Rightarrow> 'h option result) \<Rightarrow> ('h \<Rightarrow> bytes \<Rightarrow> bytes result) \<Rightarrow> 'v ReadPlan \<Rightarrow> nat list \<Rightarrow> bytes \<Rightarrow> bytes result" where
  "fill_blocks get load p [] buffer = Inr buffer"
| "fill_blocks get load p (block # blocks) buffer =
     attempt (ReadPlan_staged p block) (\<lambda>s.
     if s then fill_blocks get load p blocks buffer
     else attempt (get (rp_offset p div BLOCK_SIZE + block)) (\<lambda>found.
       case found of
         None \<Rightarrow> fill_blocks get load p blocks buffer
       | Some hash \<Rightarrow>
           attempt (load hash (subrange buffer (block * BLOCK_SIZE) BLOCK_SIZE)) (\<lambda>data.
           fill_blocks get load p blocks (overwrite buffer (block * BLOCK_SIZE) data))))"

definition ReadPlan_read_with ::
  "(bytes \<Rightarrow> u32) \<Rightarrow> file_read \<Rightarrow> ('v \<Rightarrow> (nat \<Rightarrow> 'h option result) result) \<Rightarrow> ('h \<Rightarrow> bytes \<Rightarrow> bytes result) \<Rightarrow>
   'v ReadPlan \<Rightarrow> bytes \<Rightarrow> bytes result" where
  "ReadPlan_read_with crc read tree load p buffer =
     (if length buffer \<noteq> rp_bytes p then Inl (Other ''read response length differs from plan'')
      else attempt (read_ranges crc read (rp_ranges p) (replicate (length buffer) 0)) (\<lambda>buffer.
      case rp_base p of
        None \<Rightarrow> Inr buffer
      | Some base \<Rightarrow>
          attempt (any_unstaged p [0..<rp_bytes p div BLOCK_SIZE]) (\<lambda>missing.
          if missing
          then attempt (tree base) (\<lambda>get. fill_blocks get load p [0..<rp_bytes p div BLOCK_SIZE] buffer)
          else Inr buffer)))"

definition ReadPlan_read_into ::
  "(bytes \<Rightarrow> u32) \<Rightarrow> file_read \<Rightarrow> ('v \<Rightarrow> (nat \<Rightarrow> 'h option result) result) \<Rightarrow> 'v ReadPlan \<Rightarrow> bytes \<Rightarrow> bytes result" where
  "ReadPlan_read_into crc read tree =
     ReadPlan_read_with crc read tree (\<lambda>_ _. Inl (Other ''manifest chunk requires a verified store loader''))"

section \<open>What a plan covers\<close>

definition covered_bit :: "u64 list \<Rightarrow> nat \<Rightarrow> bool" where
  "covered_bit covered b \<longleftrightarrow> bit (covered ! (b div 64)) (b mod 64)"

lemma bit_test: "(w :: u64) AND push_bit n 1 \<noteq> 0 \<longleftrightarrow> bit w n"
  by (simp add: push_bit_eq_mult and_exp_eq_0_iff_not_bit)

lemma cover_step:
  assumes "b div 64 < length c"
  shows "covered_bit (c[k div 64 := c ! (k div 64) OR 2 ^ (k mod 64)]) b \<longleftrightarrow> covered_bit c b \<or> b = k"
proof -
  have same: "b = k \<longleftrightarrow> b div 64 = k div 64 \<and> b mod 64 = k mod 64" by (metis div_mult_mod_eq)
  have "bit (w OR 2 ^ (k mod 64)) (b mod 64) \<longleftrightarrow> bit w (b mod 64) \<or> b mod 64 = k mod 64" for w :: u64
    by (auto simp: bit_simps)
  then show ?thesis using assms same by (cases "k div 64 = b div 64") (auto simp: covered_bit_def)
qed

lemma cover_blocks_spec:
  assumes "cover_blocks bs c = Inr c'"
  shows "length c' = length c"
    and "b div 64 < length c \<Longrightarrow> covered_bit c' b \<longleftrightarrow> covered_bit c b \<or> b \<in> set bs"
proof -
  have "length c' = length c \<and> (b div 64 < length c \<longrightarrow> (covered_bit c' b \<longleftrightarrow> covered_bit c b \<or> b \<in> set bs))"
    using assms
  proof (induction bs arbitrary: c)
    case (Cons k bs)
    from Cons.IH [of "c[k div 64 := c ! (k div 64) OR 2 ^ (k mod 64)]"] Cons.prems
    show ?case by (auto simp: cover_step)
  qed simp
  then show "length c' = length c"
    and "b div 64 < length c \<Longrightarrow> covered_bit c' b \<longleftrightarrow> covered_bit c b \<or> b \<in> set bs" by blast+
qed

lemma cover_blocks_total: "\<forall>b \<in> set bs. b div 64 < length c \<Longrightarrow> \<exists>c'. cover_blocks bs c = Inr c'"
  by (induction bs arbitrary: c) auto

definition range_of :: "nat \<Rightarrow> nat \<Rightarrow> nat \<times> Mapping \<Rightarrow> ReadRange option" where
  "range_of offset end km = (case km of (begin, m) \<Rightarrow> (case mp_source m of
      None \<Rightarrow> None
    | Some (payload, payload_offset) \<Rightarrow>
        let first = max begin offset; last = min (mp_end m) end; skip = payload_offset + first - begin in
        Some \<lparr>rr_payload = payload, rr_source = (skip, skip + last - first),
              rr_destination = (first - offset, last - offset)\<rparr>))"

abbreviation block_span :: "nat \<Rightarrow> nat \<Rightarrow> nat \<times> Mapping \<Rightarrow> nat list" where
  "block_span offset end km \<equiv>
     [(max (fst km) offset - offset) div BLOCK_SIZE..<(min (mp_end (snd km)) end - offset) div BLOCK_SIZE]"

lemma plan_ranges_spec:
  assumes "plan_ranges offset end ms pins c rs = Inr (pins', c', rs')"
  shows "rs' = rs @ List.map_filter (range_of offset end) ms" and "length c' = length c"
    and "b div 64 < length c \<Longrightarrow>
      covered_bit c' b \<longleftrightarrow> covered_bit c b \<or> (\<exists>km \<in> set ms. b \<in> set (block_span offset end km))"
proof -
  have "rs' = rs @ List.map_filter (range_of offset end) ms \<and> length c' = length c \<and>
    (b div 64 < length c \<longrightarrow>
      (covered_bit c' b \<longleftrightarrow> covered_bit c b \<or> (\<exists>km \<in> set ms. b \<in> set (block_span offset end km))))"
    using assms
  proof (induction ms arbitrary: pins c rs)
    case (Cons km ms)
    obtain k m where km: "km = (k, m)" by (cases km)
    from Cons.prems obtain c1 where c1: "cover_blocks (block_span offset end km) c = Inr c1" by (auto simp: km Let_def)
    note s = cover_blocks_spec [OF c1]
    show ?case
    proof (cases "mp_source m")
      case None
      then have "plan_ranges offset end ms pins c1 rs = Inr (pins', c', rs')" using Cons.prems c1 by (simp add: km Let_def)
      from Cons.IH [OF this] s show ?thesis by (auto simp: km None range_of_def List.map_filter_simps)
    next
      case (Some po)
      obtain p off where po: "po = (p, off)" by (cases po)
      from Cons.prems c1 obtain pins1 where
        "plan_ranges offset end ms pins1 c1 (rs @ [the (range_of offset end km)]) = Inr (pins', c', rs')"
        by (auto simp: km Let_def Some po range_of_def)
      from Cons.IH [OF this] s show ?thesis by (auto simp: km Some po range_of_def List.map_filter_simps Let_def)
    qed
  qed (simp add: List.map_filter_simps)
  then show "rs' = rs @ List.map_filter (range_of offset end) ms" and "length c' = length c"
    and "b div 64 < length c \<Longrightarrow>
      covered_bit c' b \<longleftrightarrow> covered_bit c b \<or> (\<exists>km \<in> set ms. b \<in> set (block_span offset end km))" by blast+
qed

section \<open>What execution writes\<close>

definition range_ok :: "nat \<Rightarrow> ReadRange \<Rightarrow> bool" where
  "range_ok n r \<longleftrightarrow> (case (rr_source r, rr_destination r) of ((s0, s1), (d0, d1)) \<Rightarrow>
     d0 \<le> d1 \<and> d1 \<le> n \<and> s0 \<le> s1 \<and> s1 \<le> pl_bytes (rr_payload r) \<and> s1 - s0 = d1 - d0)"

abbreviation in_range :: "ReadRange \<Rightarrow> nat \<Rightarrow> bool" where
  "in_range r i \<equiv> fst (rr_destination r) \<le> i \<and> i < snd (rr_destination r)"

definition range_input :: "(bytes \<Rightarrow> u32) \<Rightarrow> file_read \<Rightarrow> ReadRange \<Rightarrow> bytes \<Rightarrow> bool" where
  "range_input crc read r input \<longleftrightarrow> (let p = rr_payload r in
     read (pl_segment p) (pl_offset p) (pl_bytes p) = Inr input \<and> length input = pl_bytes p \<and> crc input = pl_crc p)"

lemma read_ranges_Cons:
  assumes "range_ok (length buf) r"
  shows "read_ranges crc read (r # rs) buf = Inr out \<longleftrightarrow>
    (\<exists>input. range_input crc read r input \<and>
       read_ranges crc read rs (overwrite buf (fst (rr_destination r))
         (subrange input (fst (rr_source r)) (snd (rr_destination r) - fst (rr_destination r)))) = Inr out)"
proof -
  obtain s0 s1 d0 d1 where r: "rr_source r = (s0, s1)" "rr_destination r = (d0, d1)" by fastforce
  let ?p = "rr_payload r"
  have b: "d0 \<le> d1" "d1 \<le> length buf" "s0 \<le> s1" "s1 \<le> pl_bytes ?p" "s1 - s0 = d1 - d0"
    using assms by (auto simp: range_ok_def r)
  show ?thesis
  proof (cases "direct_to_response r")
    case True
    then have s: "s0 = 0" "d1 - d0 = pl_bytes ?p" using b by (auto simp: direct_to_response_def r)
    have "length input = pl_bytes ?p \<Longrightarrow> subrange input 0 (pl_bytes ?p) = input" for input :: bytes
      by (simp add: subrange_def)
    then show ?thesis
      using True b by (auto simp: r s range_input_def Let_def ReadRange_verify_def verify_read_crc_def)
  next
    case False
    then show ?thesis
      using b by (auto simp: r range_input_def Let_def ReadRange_verify_def verify_read_crc_def)
  qed
qed

lemma nth_overwrite:
  assumes "off + length v \<le> length bs" and "i < length bs"
  shows "overwrite bs off v ! i = (if off \<le> i \<and> i < off + length v then v ! (i - off) else bs ! i)"
  using assms by (auto simp: overwrite_def nth_append)

lemma nth_subrange: "i < n \<Longrightarrow> a + n \<le> length bs \<Longrightarrow> subrange bs a n ! i = bs ! (a + i)"
  by (simp add: subrange_def)

lemma read_ranges_spec:
  assumes "read_ranges crc read rs buf = Inr out" and "\<forall>r \<in> set rs. range_ok (length buf) r"
    and "sorted_wrt (\<lambda>r r'. snd (rr_destination r) \<le> fst (rr_destination r')) rs"
  shows "length out = length buf"
    and "i < length buf \<Longrightarrow> \<forall>r \<in> set rs. \<not> in_range r i \<Longrightarrow> out ! i = buf ! i"
    and "i < length buf \<Longrightarrow> r \<in> set rs \<Longrightarrow> in_range r i \<Longrightarrow>
      \<exists>input. range_input crc read r input \<and> out ! i = input ! (fst (rr_source r) + (i - fst (rr_destination r)))"
proof -
  have "length out = length buf \<and>
    (\<forall>i < length buf. (\<forall>r \<in> set rs. \<not> in_range r i) \<longrightarrow> out ! i = buf ! i) \<and>
    (\<forall>r \<in> set rs. \<exists>input. range_input crc read r input \<and>
      (\<forall>i < length buf. in_range r i \<longrightarrow> out ! i = input ! (fst (rr_source r) + (i - fst (rr_destination r)))))"
    using assms
  proof (induction rs arbitrary: buf)
    case (Cons r rs)
    obtain s0 s1 d0 d1 where r: "rr_source r = (s0, s1)" "rr_destination r = (d0, d1)" by fastforce
    have ok: "range_ok (length buf) r" using Cons.prems(2) by simp
    obtain input where inp: "range_input crc read r input"
      and rest: "read_ranges crc read rs (overwrite buf d0 (subrange input s0 (d1 - d0))) = Inr out"
      using Cons.prems(1) unfolding read_ranges_Cons [OF ok] by (auto simp: r)
    let ?v = "subrange input s0 (d1 - d0)" and ?b = "overwrite buf d0 (subrange input s0 (d1 - d0))"
    have len: "length ?v = d1 - d0" "s0 + (d1 - d0) \<le> length input" "d0 + (d1 - d0) = d1" "d1 \<le> length buf"
      using ok inp by (auto simp: range_ok_def r range_input_def Let_def)
    then have lb: "length ?b = length buf" by simp
    have IH: "length out = length buf" "\<And>i. i < length buf \<Longrightarrow> \<forall>r \<in> set rs. \<not> in_range r i \<Longrightarrow> out ! i = ?b ! i"
      "\<forall>r \<in> set rs. \<exists>input. range_input crc read r input \<and>
        (\<forall>i < length buf. in_range r i \<longrightarrow> out ! i = input ! (fst (rr_source r) + (i - fst (rr_destination r))))"
      using Cons.IH [OF rest] Cons.prems(2,3) lb by auto
    have nth: "?b ! i = (if d0 \<le> i \<and> i < d1 then input ! (s0 + (i - d0)) else buf ! i)" if "i < length buf" for i
      using len that nth_subrange [of "i - d0" "d1 - d0" s0 input] by (auto simp: nth_overwrite)
    have apart: "\<not> in_range r' i" if "r' \<in> set rs" "i < d1" for r' i
      using Cons.prems(3) that by (fastforce simp: r)
    show ?case using IH nth apart inp by (auto simp: r)
  qed simp
  then show "length out = length buf"
    and "i < length buf \<Longrightarrow> \<forall>r \<in> set rs. \<not> in_range r i \<Longrightarrow> out ! i = buf ! i"
    and "i < length buf \<Longrightarrow> r \<in> set rs \<Longrightarrow> in_range r i \<Longrightarrow>
      \<exists>input. range_input crc read r input \<and> out ! i = input ! (fst (rr_source r) + (i - fst (rr_destination r)))"
    by blast+
qed

text \<open>The manifest pass works on whole blocks.\<close>

abbreviation block_at :: "bytes \<Rightarrow> nat \<Rightarrow> bytes" where
  "block_at buf b \<equiv> subrange buf (b * BLOCK_SIZE) BLOCK_SIZE"

definition plan_shape :: "'v ReadPlan \<Rightarrow> bool" where
  "plan_shape p \<longleftrightarrow> length (rp_covered p) = 4 \<and> BLOCK_SIZE dvd rp_bytes p \<and> rp_bytes p \<le> MAX_REQUEST_BYTES"

lemma ReadPlan_staged_eq:
  "plan_shape p \<Longrightarrow> b < rp_bytes p div BLOCK_SIZE \<Longrightarrow> ReadPlan_staged p b = Inr (covered_bit (rp_covered p) b)"
proof -
  assume a: "plan_shape p" "b < rp_bytes p div BLOCK_SIZE"
  have "rp_bytes p div BLOCK_SIZE \<le> 256"
    using a(1) div_le_mono [of "rp_bytes p" 1048576 4096] by (simp add: plan_shape_def BLOCK_SIZE_def MAX_REQUEST_BYTES_def)
  then have "b div 64 < 4" using a(2) by simp
  then show ?thesis using a by (simp add: ReadPlan_staged_def plan_shape_def bit_test covered_bit_def del: push_bit_of_1)
qed

lemma block_overwrite:
  assumes "(a + 1) * BLOCK_SIZE \<le> length buf" and "(b + 1) * BLOCK_SIZE \<le> length buf" and "length d = BLOCK_SIZE"
  shows "block_at (overwrite buf (a * BLOCK_SIZE) d) b = (if a = b then d else block_at buf b)"
proof -
  consider "a = b" | "(a + 1) * BLOCK_SIZE \<le> b * BLOCK_SIZE" | "(b + 1) * BLOCK_SIZE \<le> a * BLOCK_SIZE"
    by (metis Suc_eq_plus1 Suc_leI linorder_neqE_nat mult_le_mono1)
  then show ?thesis
    using assms
    by cases (auto simp: subrange_overwrite_same subrange_overwrite_before subrange_overwrite_after BLOCK_SIZE_def algebra_simps)
qed

definition block_filled ::
  "(nat \<Rightarrow> 'h option result) \<Rightarrow> ('h \<Rightarrow> bytes \<Rightarrow> bytes result) \<Rightarrow> 'v ReadPlan \<Rightarrow> bytes \<Rightarrow> bytes \<Rightarrow> nat \<Rightarrow> bool" where
  "block_filled get load p buf out b \<longleftrightarrow>
     (if covered_bit (rp_covered p) b then block_at out b = block_at buf b
      else (case get (rp_offset p div BLOCK_SIZE + b) of
         Inl e \<Rightarrow> False
       | Inr None \<Rightarrow> block_at out b = block_at buf b
       | Inr (Some h) \<Rightarrow> load h (block_at buf b) = Inr (block_at out b)))"

text \<open>The loader fills the block it is given.\<close>

definition load_exact :: "('h \<Rightarrow> bytes \<Rightarrow> bytes result) \<Rightarrow> bool" where
  "load_exact load \<longleftrightarrow> (\<forall>h x d. load h x = Inr d \<longrightarrow> length d = length x)"

lemma block_filled_cong:
  "block_at buf b = block_at buf' b \<Longrightarrow> block_filled get load p buf out b = block_filled get load p buf' out b"
  unfolding block_filled_def by (erule subst) (rule refl)

lemma fill_blocks_spec:
  assumes "fill_blocks get load p bs buf = Inr out" and "plan_shape p" and "length buf = rp_bytes p"
    and "distinct bs" and "\<forall>b \<in> set bs. b < rp_bytes p div BLOCK_SIZE"
    and exact: "load_exact load"
  shows "length out = length buf \<and> (\<forall>b \<in> set bs. block_filled get load p buf out b) \<and>
    (\<forall>b < rp_bytes p div BLOCK_SIZE. b \<notin> set bs \<longrightarrow> block_at out b = block_at buf b)"
  using assms(1,3-5)
proof (induction bs arbitrary: buf)
  case (Cons a bs)
  have a: "a < rp_bytes p div BLOCK_SIZE" using Cons.prems(4) by simp
  have room: "(b + 1) * BLOCK_SIZE \<le> length buf" if "b < rp_bytes p div BLOCK_SIZE" for b
    using that Cons.prems(2) by (metis Suc_eq_plus1 Suc_leI div_times_less_eq_dividend le_trans mult_le_mono1)
  note st = ReadPlan_staged_eq [OF assms(2) a]
  show ?case
  proof (cases "covered_bit (rp_covered p) a \<or> get (rp_offset p div BLOCK_SIZE + a) = Inr None")
    case True
    then have "fill_blocks get load p bs buf = Inr out" using Cons.prems(1) by (auto simp: st split: if_splits)
    from Cons.IH [OF this] Cons.prems(2-4) a True show ?thesis by (auto simp: block_filled_def)
  next
    case False
    then obtain h d where h: "get (rp_offset p div BLOCK_SIZE + a) = Inr (Some h)" "load h (block_at buf a) = Inr d"
      and rest: "fill_blocks get load p bs (overwrite buf (a * BLOCK_SIZE) d) = Inr out"
      using Cons.prems(1) by (auto simp: st split: option.splits)
    have d: "length d = BLOCK_SIZE" using exact h(2) room [OF a] by (auto simp: load_exact_def)
    have lb: "length (overwrite buf (a * BLOCK_SIZE) d) = length buf" using room [OF a] d by simp
    note o = block_overwrite [OF room [OF a] room d]
    have IH: "length out = length buf" "\<forall>b \<in> set bs. block_filled get load p (overwrite buf (a * BLOCK_SIZE) d) out b"
      "\<forall>b < rp_bytes p div BLOCK_SIZE. b \<notin> set bs \<longrightarrow> block_at out b = block_at (overwrite buf (a * BLOCK_SIZE) d) b"
      using Cons.IH [OF rest] Cons.prems(2-4) lb by auto
    have "block_filled get load p buf out b" if "b \<in> set bs" for b
    proof -
      have "a \<noteq> b" "b < rp_bytes p div BLOCK_SIZE" using Cons.prems(3,4) that by auto
      then have "block_at (overwrite buf (a * BLOCK_SIZE) d) b = block_at buf b" by (simp add: o)
      then show ?thesis using bspec [OF IH(2) that] block_filled_cong by blast
    qed
    moreover have "block_filled get load p buf out a"
      using IH(3) a Cons.prems(3) False h by (simp add: block_filled_def o)
    ultimately show ?thesis using IH(1,3) o by auto
  qed
qed simp

lemma any_unstaged_eq:
  assumes "plan_shape p" and "\<forall>b \<in> set bs. b < rp_bytes p div BLOCK_SIZE"
  shows "any_unstaged p bs = Inr (\<exists>b \<in> set bs. \<not> covered_bit (rp_covered p) b)"
  using assms(2) by (induction bs) (auto simp: ReadPlan_staged_eq [OF assms(1)])

text \<open>A byte the log does not stage: zero without a manifest, else what the manifest's chunk holds.\<close>

definition manifest_byte ::
  "('v \<Rightarrow> (nat \<Rightarrow> 'h option result) result) \<Rightarrow> ('h \<Rightarrow> bytes \<Rightarrow> bytes result) \<Rightarrow> 'v option \<Rightarrow> nat \<Rightarrow> byte \<Rightarrow> bool" where
  "manifest_byte tree load base x v \<longleftrightarrow> (case base of
      None \<Rightarrow> v = 0
    | Some view \<Rightarrow> (\<exists>get found. tree view = Inr get \<and> get (x div BLOCK_SIZE) = Inr found \<and>
        (case found of None \<Rightarrow> v = 0
         | Some h \<Rightarrow> \<exists>data. load h (replicate BLOCK_SIZE 0) = Inr data \<and> v = data ! (x mod BLOCK_SIZE))))"

section \<open>Staged intervals are block aligned\<close>

definition aligned_map :: "Mapping omap \<Rightarrow> bool" where
  "aligned_map xs \<longleftrightarrow> (\<forall>(k, m) \<in> set xs. BLOCK_SIZE dvd k \<and> BLOCK_SIZE dvd mp_end m)"

lemma set_om_insert: "set (om_insert k v xs) \<subseteq> insert (k, v) (set xs)"
  by (induction k v xs rule: om_insert.induct) auto

lemma om_before_in: "om_before k xs = Some e \<Longrightarrow> e \<in> set xs"
  by (induction k xs rule: om_before.induct) (auto split: option.splits if_splits)

lemma aligned_insert:
  "aligned_map xs \<Longrightarrow> BLOCK_SIZE dvd k \<Longrightarrow> BLOCK_SIZE dvd mp_end m \<Longrightarrow> aligned_map (om_insert k m xs)"
  using set_om_insert [of k m xs] unfolding aligned_map_def by auto

lemma aligned_remove: "aligned_map xs \<Longrightarrow> aligned_map (om_remove k xs)"
  by (auto simp: aligned_map_def om_remove_def)

lemma aligned_trim:
  assumes "aligned_map xs" and "BLOCK_SIZE dvd s" and "BLOCK_SIZE dvd e"
  shows "aligned_map (trim_predecessor s e xs)"
proof (cases "om_before s xs")
  case (Some old)
  then have "BLOCK_SIZE dvd fst old" "BLOCK_SIZE dvd mp_end (snd old)"
    using om_before_in [OF Some] assms(1) by (auto simp: aligned_map_def)
  then show ?thesis
    using assms Some by (auto simp: trim_predecessor_def Let_def aligned_insert split: prod.splits)
qed (use assms in \<open>simp add: trim_predecessor_def\<close>)

lemma aligned_clear: "aligned_map xs \<Longrightarrow> BLOCK_SIZE dvd e \<Longrightarrow> aligned_map (clear_range s e xs)"
proof (induction s e xs rule: clear_range.induct)
  case (1 s e xs)
  show ?case
  proof (cases "om_first s e xs")
    case (Some old)
    obtain k m where old: "old = (k, m)" by (cases old)
    have "BLOCK_SIZE dvd mp_end m" using om_first_in_range [OF Some [unfolded old]] 1(2) by (auto simp: aligned_map_def)
    then have "aligned_map (if mp_end m > e then om_insert e (Mapping_suffix m (e - k)) (om_remove k xs) else om_remove k xs)"
      using 1(2,3) by (simp add: aligned_insert aligned_remove)
    then show ?thesis
      using 1(1) [OF Some old [symmetric] refl refl] 1(3) by (subst clear_range.simps) (simp add: Some old Let_def)
  qed (use 1 in \<open>simp add: clear_range.simps\<close>)
qed

lemma aligned_replace:
  assumes "Intervals_replace ix s m = Inr jx" and "aligned_map (ii_map ix)" and "BLOCK_SIZE dvd s" and "BLOCK_SIZE dvd mp_end m"
  shows "aligned_map (ii_map jx)"
  using assms by (auto simp: Intervals_replace_def Let_def intro!: aligned_insert aligned_clear aligned_trim)

lemma aligned_publish:
  assumes "publish_descriptors i off ds ix = Inr jx" and "aligned_map (ii_map ix)"
    and "\<forall>d \<in> set ds. valid_range (d_offset d) (d_length d) img"
  shows "aligned_map (ii_map jx)"
  using assms
proof (induction ds arbitrary: ix)
  case (Cons d ds)
  from Cons.prems(1) obtain kx where k: "Intervals_replace ix (unat (d_offset d)) (publish_mapping i off d) = Inr kx"
    "publish_descriptors i off ds kx = Inr jx" by auto
  have v: "valid_range (d_offset d) (d_length d) img" using Cons.prems(3) by simp
  then have al: "4096 dvd unat (d_offset d)" "4096 dvd unat (d_length d)"
    by (auto simp: valid_range_def is_multiple_of_BLOCK split: option.splits)
  have "unat (d_offset d + d_length d) = unat (d_offset d) + unat (d_length d)"
    using v by (auto simp: valid_range_def checked_add_Some unat_add_u64 split: option.splits)
  then have "aligned_map (ii_map kx)"
    using al Cons.prems(2) by (intro aligned_replace [OF k(1)]) (simp_all add: BLOCK_SIZE_def publish_mapping_def)
  then show ?case using Cons.IH [OF k(2)] Cons.prems(3) by simp
qed simp

lemma log_reach_aligned: "log_reach crc l ss \<Longrightarrow> aligned_map (ii_map (lg_index l))"
proof (induction rule: log_reach.induct)
  case (log_created i nodes g res io al c lim ticket l)
  then show ?case by (auto simp: Log_create_in_def Log_empty_def aligned_map_def)
next
  case (log_published l ss s l')
  obtain h ix where h: "Header_decode crc (take BLOCK_SIZE (Batch_bytes (sm_batch s))) (cf_image_bytes (lg_config l)) = Inr h"
    "publish_descriptors (sm_segment s) (sm_offset s) (Header_descriptors h) (lg_index l) = Inr ix" "lg_index l' = ix"
    using log_published.hyps(3) by (auto simp: Log_publish_append_def Log_publish_def Let_def)
  have "\<forall>d \<in> set (Header_descriptors h). valid_range (d_offset d) (d_length d) (cf_image_bytes (lg_config l))"
    using Header_decode_well_formed(1) [OF h(1)] by (simp add: batch_well_formed_def)
  then show ?case using aligned_publish [OF h(2) log_published.IH] h(3) by simp
qed (auto simp: Log_prepare_append_def Log_prepare_fence_def Log_reserve_def Log_complete_sync_def Log_rotation_def
    Log_cancel_rotation_def Log_install_rotation_def Log_fail_def Let_def split: sum.splits option.splits if_splits)

section \<open>Plans and their meaning\<close>

lemma aligned_le: "n dvd a \<Longrightarrow> 0 < n \<Longrightarrow> a div n \<le> i div n \<longleftrightarrow> a \<le> (i :: nat)"
  by (simp add: less_eq_div_iff_mult_less_eq)

lemma aligned_less: "n dvd a \<Longrightarrow> 0 < n \<Longrightarrow> i div n < a div n \<longleftrightarrow> i < (a :: nat)"
  using aligned_le [of n a i] by linarith

lemma Log_read_plan_cases:
  assumes "Log_read_plan l pins g base off bytes boundary = Inr (pins', p)"
  obtains "\<not> lg_failed l" "0 < bytes" "BLOCK_SIZE dvd off" "BLOCK_SIZE dvd bytes" "bytes \<le> MAX_REQUEST_BYTES"
    "boundary \<le> lg_published l" "rp_offset p = off" "rp_bytes p = bytes" "rp_base p = base"
    "plan_ranges off (off + bytes) (Intervals_overlapping (lg_index l) off (off + bytes)) pins (replicate 4 0) [] =
       Inr (pins', rp_covered p, rp_ranges p)"
proof -
  from assms have "\<not> lg_failed l" "0 < bytes" "BLOCK_SIZE dvd off" "BLOCK_SIZE dvd bytes" "bytes \<le> MAX_REQUEST_BYTES"
    "boundary \<le> lg_published l" and run: "\<exists>c rs. plan_ranges off (off + bytes)
       (Intervals_overlapping (lg_index l) off (off + bytes)) pins (replicate 4 0) [] = Inr (pins', c, rs) \<and>
       p = \<lparr>rp_offset = off, rp_bytes = bytes, rp_ranges = rs, rp_covered = c, rp_base = base\<rparr>"
    unfolding Log_read_plan_def Log_healthy_def attempt_eq_Inr ensure_eq_Inr ok_or_eq_Inr nchecked_Some map_err_eq_Inr
    by (auto split: if_splits)
  with run show thesis by (elim exE conjE, intro that) simp_all
qed

lemma range_of_fields:
  assumes "range_of off end (k, m) = Some r"
  obtains po where "mp_source m = Some (rr_payload r, po)"
    "rr_source r = (po + max k off - k, po + max k off - k + min (mp_end m) end - max k off)"
    "rr_destination r = (max k off - off, min (mp_end m) end - off)"
  using assms by (auto simp: range_of_def Let_def split: option.splits)

lemma overlapping_ranges:
  assumes inv: "Intervals_inv ix" and "off \<le> end"
  defines "rs \<equiv> List.map_filter (range_of off end) (Intervals_overlapping ix off end)"
  shows "\<forall>r \<in> set rs. range_ok (end - off) r"
    and "sorted_wrt (\<lambda>r r'. snd (rr_destination r) \<le> fst (rr_destination r')) rs"
proof -
  let ?ms = "Intervals_overlapping ix off end"
  note ov = Intervals_overlapping_spec [OF inv]
  have ok: "intervals_ok (map_of (ii_map ix))" using inv by (simp add: Intervals_inv_def)
  have origin: "\<exists>km \<in> set ?ms. range_of off end km = Some r" if "r \<in> set rs" for r
    using that by (auto simp: rs_def List.map_filter_def)
  have "range_ok (end - off) r" if "(k, m) \<in> set ?ms" "range_of off end (k, m) = Some r" for k m r
  proof -
    have m: "map_of (ii_map ix) k = Some m" "k < end" "off < mp_end m" using that(1) by (simp_all add: ov)
    from that(2) show ?thesis
    proof (rule range_of_fields)
      fix po assume src: "mp_source m = Some (rr_payload r, po)"
        and r: "rr_source r = (po + max k off - k, po + max k off - k + min (mp_end m) end - max k off)"
          "rr_destination r = (max k off - off, min (mp_end m) end - off)"
      show ?thesis
        using intervals_okD(1,2) [OF ok m(1)] src m(2,3) \<open>off \<le> end\<close> by (fastforce simp: range_ok_def r)
    qed
  qed
  then show "\<forall>r \<in> set rs. range_ok (end - off) r" using origin by fast
  have "sorted_wrt (\<lambda>km km'. fst km < fst km') ?ms" using ov(2) by (simp add: sorted_wrt_map)
  then have "sorted_wrt (\<lambda>km km'. mp_end (snd km) \<le> fst km') ?ms"
    by (rule sorted_wrt_mono_rel [rotated]) (auto simp: ov intro: intervals_okD(3) [OF ok])
  moreover have "snd (rr_destination r) \<le> fst (rr_destination r')"
    if "mp_end (snd km) \<le> fst km'" "range_of off end km = Some r" "range_of off end km' = Some r'" for km km' r r'
    using that by (cases km; cases km') (auto elim!: range_of_fields)
  ultimately show "sorted_wrt (\<lambda>r r'. snd (rr_destination r) \<le> fst (rr_destination r')) rs"
    unfolding rs_def List.map_filter_def sorted_wrt_map comp_def
    by (auto intro!: sorted_wrt_mono_rel [rotated, OF sorted_wrt_filter])
qed

lemma covered_position:
  assumes inv: "Intervals_inv ix" and al: "aligned_map (ii_map ix)" and "BLOCK_SIZE dvd off" and "BLOCK_SIZE dvd n" and "i < n"
  shows "(\<exists>km \<in> set (Intervals_overlapping ix off (off + n)). i div BLOCK_SIZE \<in> set (block_span off (off + n) km)) \<longleftrightarrow>
    (\<exists>r. Intervals_at ix (off + i) r)"
proof -
  note ov = Intervals_overlapping_spec [OF inv]
  have pos: "0 < BLOCK_SIZE" by (simp add: BLOCK_SIZE_def)
  have span: "i div BLOCK_SIZE \<in> set (block_span off (off + n) (k, m)) \<longleftrightarrow> k \<le> off + i \<and> off + i < mp_end m"
    if "map_of (ii_map ix) k = Some m" for k m
  proof -
    have d: "BLOCK_SIZE dvd k" "BLOCK_SIZE dvd mp_end m"
      using al that by (auto simp: aligned_map_def dest: map_of_SomeD)
    have "BLOCK_SIZE dvd max k off - off" "BLOCK_SIZE dvd min (mp_end m) (off + n) - off"
      using d assms(3,4) by (auto simp: max_def min_def)
    from aligned_le [OF this(1) pos, of i] aligned_less [OF this(2) pos, of i] show ?thesis using \<open>i < n\<close> by auto
  qed
  show ?thesis
  proof
    assume "\<exists>km \<in> set (Intervals_overlapping ix off (off + n)). i div BLOCK_SIZE \<in> set (block_span off (off + n) km)"
    then obtain k m where "(k, m) \<in> set (Intervals_overlapping ix off (off + n))"
      "i div BLOCK_SIZE \<in> set (block_span off (off + n) (k, m))" by fastforce
    then have "map_of (ii_map ix) k = Some m" "covers k m (off + i)"
      using span [of k m] unfolding ov covers_def by blast+
    then show "\<exists>r. Intervals_at ix (off + i) r" unfolding Intervals_at_def maps_to_def by blast
  next
    assume "\<exists>r. Intervals_at ix (off + i) r"
    then obtain k m where k: "map_of (ii_map ix) k = Some m" "k \<le> off + i" "off + i < mp_end m"
      by (auto simp: Intervals_at_def maps_to_def covers_def)
    then have "(k, m) \<in> set (Intervals_overlapping ix off (off + n))" using \<open>i < n\<close> by (simp add: ov)
    then show "\<exists>km \<in> set (Intervals_overlapping ix off (off + n)). i div BLOCK_SIZE \<in> set (block_span off (off + n) km)"
      using span [OF k(1)] k(2,3) by blast
  qed
qed

lemma range_of_value:
  assumes "map_of (ii_map ix) k = Some m" and "range_of off end (k, m) = Some r" and "in_range r i"
  shows "Intervals_at ix (off + i) (mp_sequence m, Some (rr_payload r, fst (rr_source r) + (i - fst (rr_destination r))))"
proof -
  from assms(2) obtain po where src: "mp_source m = Some (rr_payload r, po)"
    and r: "rr_source r = (po + max k off - k, po + max k off - k + min (mp_end m) end - max k off)"
      "rr_destination r = (max k off - off, min (mp_end m) end - off)" by (rule range_of_fields)
  have "po + max k off - k + (i - (max k off - off)) = po + (off + i - k)"
    using assms(3) by (auto simp: r max_def)
  then have "value_at k m (off + i) = (mp_sequence m, Some (rr_payload r, fst (rr_source r) + (i - fst (rr_destination r))))"
    by (simp add: value_at_def src r)
  moreover have "covers k m (off + i)" using assms(3) by (auto simp: covers_def r)
  ultimately show ?thesis unfolding Intervals_at_def maps_to_def using assms(1) by metis
qed

lemma value_range_of:
  assumes inv: "Intervals_inv ix" and at: "Intervals_at ix (off + i) (q, Some (p, j))" and "i < n"
  shows "\<exists>r \<in> set (List.map_filter (range_of off (off + n)) (Intervals_overlapping ix off (off + n))).
    in_range r i \<and> rr_payload r = p \<and> fst (rr_source r) + (i - fst (rr_destination r)) = j"
proof -
  obtain k m where k: "map_of (ii_map ix) k = Some m" "k \<le> off + i" "off + i < mp_end m"
    and v: "(q, Some (p, j)) = value_at k m (off + i)"
    using at by (auto simp: Intervals_at_def maps_to_def covers_def)
  then obtain po where src: "mp_source m = Some (p, po)" "j = po + (off + i - k)"
    by (cases "mp_source m") (auto simp: value_at_def)
  have mem: "(k, m) \<in> set (Intervals_overlapping ix off (off + n))"
    using k \<open>i < n\<close> by (simp add: Intervals_overlapping_spec [OF inv])
  obtain r where r: "range_of off (off + n) (k, m) = Some r" by (simp add: range_of_def src Let_def)
  then have in_r: "in_range r i" "rr_payload r = p" using k \<open>i < n\<close> by (auto simp: range_of_def src Let_def)
  have "Intervals_at ix (off + i) (mp_sequence m, Some (rr_payload r, fst (rr_source r) + (i - fst (rr_destination r))))"
    by (rule range_of_value [OF k(1) r in_r(1)])
  with at inv have "fst (rr_source r) + (i - fst (rr_destination r)) = j"
    using maps_to_unique by (fastforce simp: Intervals_at_def Intervals_inv_def)
  moreover have "r \<in> set (List.map_filter (range_of off (off + n)) (Intervals_overlapping ix off (off + n)))"
    using mem r by (force simp: List.map_filter_def)
  ultimately show ?thesis using in_r by blast
qed

lemma nth_block: "(b + 1) * BLOCK_SIZE \<le> length buf \<Longrightarrow> b = i div BLOCK_SIZE \<Longrightarrow> block_at buf b ! (i mod BLOCK_SIZE) = buf ! i"
  by (simp add: nth_subrange BLOCK_SIZE_def)

text \<open>The buffer after the staged payloads have been read.\<close>

lemma staged_bytes:
  assumes inv: "Intervals_inv ix"
    and run: "read_ranges crc read (List.map_filter (range_of off (off + n)) (Intervals_overlapping ix off (off + n)))
      (replicate n 0) = Inr out"
  shows "length out = n"
    and "i < n \<Longrightarrow> Intervals_at ix (off + i) (q, Some (p, j)) \<Longrightarrow>
      \<exists>input. read (pl_segment p) (pl_offset p) (pl_bytes p) = Inr input \<and> length input = pl_bytes p \<and> crc input = pl_crc p \<and>
        out ! i = input ! j"
    and "i < n \<Longrightarrow> (\<And>q p j. \<not> Intervals_at ix (off + i) (q, Some (p, j))) \<Longrightarrow> out ! i = 0"
proof -
  let ?rs = "List.map_filter (range_of off (off + n)) (Intervals_overlapping ix off (off + n))"
  note ov = overlapping_ranges [OF inv le_add1 [of off n]]
  note s = read_ranges_spec [OF run _ ov(2)]
  have ok: "\<forall>r \<in> set ?rs. range_ok (length (replicate n (0 :: byte))) r" using ov(1) by simp
  show "length out = n" using s(1) [OF ok] by simp
  show "\<exists>input. read (pl_segment p) (pl_offset p) (pl_bytes p) = Inr input \<and> length input = pl_bytes p \<and> crc input = pl_crc p \<and>
        out ! i = input ! j" if "i < n" "Intervals_at ix (off + i) (q, Some (p, j))"
  proof -
    obtain r where r: "r \<in> set ?rs" "in_range r i" "rr_payload r = p"
      "fst (rr_source r) + (i - fst (rr_destination r)) = j"
      using value_range_of [OF inv \<open>Intervals_at ix (off + i) (q, Some (p, j))\<close> \<open>i < n\<close>] by blast
    with s(3) [OF ok _ r(1,2)] \<open>i < n\<close> show ?thesis by (auto simp: range_input_def Let_def)
  qed
  show "out ! i = 0" if "i < n" "\<And>q p j. \<not> Intervals_at ix (off + i) (q, Some (p, j))"
  proof -
    have "\<not> in_range r i" if "r \<in> set ?rs" for r
    proof
      assume a: "in_range r i"
      obtain k m where "(k, m) \<in> set (Intervals_overlapping ix off (off + n))" "range_of off (off + n) (k, m) = Some r"
        using \<open>r \<in> set ?rs\<close> by (fastforce simp: List.map_filter_def)
      with range_of_value [of ix k m off "off + n" r i] a \<open>\<And>q p j. \<not> Intervals_at ix (off + i) (q, Some (p, j))\<close>
      show False by (auto simp: Intervals_overlapping_spec [OF inv])
    qed
    then show ?thesis using s(2) [OF ok, of i] that(1) by simp
  qed
qed

text \<open>Execution of a plan over an index.\<close>

lemma read_with_bytes:
  assumes inv: "Intervals_inv ix" and al: "aligned_map (ii_map ix)"
    and shape: "plan_shape p" "rp_bytes p = n" "BLOCK_SIZE dvd rp_offset p" "rp_offset p = off"
    and ranges: "rp_ranges p = List.map_filter (range_of off (off + n)) (Intervals_overlapping ix off (off + n))"
    and cov: "\<And>b. b < n div BLOCK_SIZE \<Longrightarrow> covered_bit (rp_covered p) b \<longleftrightarrow>
      (\<exists>km \<in> set (Intervals_overlapping ix off (off + n)). b \<in> set (block_span off (off + n) km))"
    and run: "ReadPlan_read_with crc read tree load p buffer = Inr out"
    and exact: "load_exact load"
  shows "length out = n"
    and "i < n \<Longrightarrow> Intervals_at ix (off + i) (q, Some (pl, j)) \<Longrightarrow>
      \<exists>input. read (pl_segment pl) (pl_offset pl) (pl_bytes pl) = Inr input \<and> length input = pl_bytes pl \<and>
        crc input = pl_crc pl \<and> out ! i = input ! j"
    and "i < n \<Longrightarrow> Intervals_at ix (off + i) (q, None) \<Longrightarrow> out ! i = 0"
    and "i < n \<Longrightarrow> \<nexists>r. Intervals_at ix (off + i) r \<Longrightarrow> manifest_byte tree load (rp_base p) (off + i) (out ! i)"
proof -
  have dn: "BLOCK_SIZE dvd n" using shape by (simp add: plan_shape_def)
  obtain mid where mid: "read_ranges crc read (rp_ranges p) (replicate n 0) = Inr mid"
    using run shape(2) by (auto simp: ReadPlan_read_with_def split: if_splits)
  note st = staged_bytes [OF inv mid [unfolded ranges]]
  let ?c = "covered_bit (rp_covered p)" and ?n = "n div BLOCK_SIZE"
  have staged: "?c (i div BLOCK_SIZE) \<longleftrightarrow> (\<exists>r. Intervals_at ix (off + i) r)" if "i < n" for i
  proof -
    have "i div BLOCK_SIZE < ?n" using aligned_less [OF dn, of i] that by (simp add: BLOCK_SIZE_def)
    from cov [OF this] covered_position [OF inv al _ dn that, of off] shape(3,4) show ?thesis by simp
  qed
  have au: "any_unstaged p [0..<rp_bytes p div BLOCK_SIZE] = Inr (\<exists>b < ?n. \<not> ?c b)"
    using any_unstaged_eq [OF shape(1), of "[0..<?n]"] shape(2) by auto
  have blocks: "length out = n \<and> (\<forall>b < ?n. if ?c b \<or> rp_base p = None then block_at out b = block_at mid b
      else \<exists>get. tree (the (rp_base p)) = Inr get \<and> block_filled get load p mid out b)"
  proof (cases "rp_base p = None \<or> (\<forall>b < ?n. ?c b)")
    case True
    then have "out = mid"
      using run mid shape(2) by (auto simp: ReadPlan_read_with_def au split: if_splits option.splits)
    then show ?thesis using True st(1) by auto
  next
    case False
    then obtain view get where v: "rp_base p = Some view" "tree view = Inr get"
      and f: "fill_blocks get load p [0..<?n] mid = Inr out"
      using run mid shape(2) by (auto simp: ReadPlan_read_with_def au split: if_splits option.splits)
    have "length mid = rp_bytes p" using st(1) shape(2) by simp
    from fill_blocks_spec [OF f shape(1) this _ _ exact] shape(2) st(1) v
    have "length out = n" "\<forall>b < ?n. block_filled get load p mid out b" by auto
    then show ?thesis using v by (auto simp: block_filled_def)
  qed
  have nth: "buf ! i = block_at buf (i div BLOCK_SIZE) ! (i mod BLOCK_SIZE)" "i div BLOCK_SIZE < ?n"
    if "i < n" "length buf = n" for i and buf :: bytes
  proof -
    show b: "i div BLOCK_SIZE < ?n" using aligned_less [OF dn, of i] that by (simp add: BLOCK_SIZE_def)
    then have "(i div BLOCK_SIZE + 1) * BLOCK_SIZE \<le> n"
      by (metis Suc_eq_plus1 Suc_leI div_times_less_eq_dividend le_trans mult_le_mono1)
    from nth_block [OF this [folded that(2)] refl] show "buf ! i = block_at buf (i div BLOCK_SIZE) ! (i mod BLOCK_SIZE)" by simp
  qed
  show len: "length out = n" using blocks by blast
  have kept: "out ! i = mid ! i" if "i < n" "Intervals_at ix (off + i) r" for i r
    using blocks nth [OF that(1) len] nth [OF that(1) st(1)] staged [OF that(1)] that(2) by metis
  show "\<exists>input. read (pl_segment pl) (pl_offset pl) (pl_bytes pl) = Inr input \<and> length input = pl_bytes pl \<and>
        crc input = pl_crc pl \<and> out ! i = input ! j" if a: "i < n" "Intervals_at ix (off + i) (q, Some (pl, j))"
    using st(2) [OF a] kept [OF a] by simp
  show "out ! i = 0" if a: "i < n" "Intervals_at ix (off + i) (q, None)"
  proof -
    have "\<not> Intervals_at ix (off + i) (q', Some (p', j'))" for q' p' j'
      using maps_to_unique a(2) inv by (fastforce simp: Intervals_at_def Intervals_inv_def)
    then show ?thesis using st(3) [OF a(1)] kept [OF a] by simp
  qed
  show "manifest_byte tree load (rp_base p) (off + i) (out ! i)" if a: "i < n" "\<nexists>r. Intervals_at ix (off + i) r"
  proof -
    let ?b = "i div BLOCK_SIZE"
    have nb: "\<not> ?c ?b" using staged [OF a(1)] a(2) by simp
    have zero: "block_at mid ?b = replicate BLOCK_SIZE 0"
    proof (rule nth_equalityI)
      have room: "(?b + 1) * BLOCK_SIZE \<le> n"
        by (metis nth(2) [OF a(1) len] Suc_eq_plus1 Suc_leI div_times_less_eq_dividend le_trans mult_le_mono1)
      then show "length (block_at mid ?b) = length (replicate BLOCK_SIZE (0 :: byte))" using st(1) by simp
      fix j assume "j < length (block_at mid ?b)"
      then have j: "j < BLOCK_SIZE" using room st(1) by simp
      have jn: "?b * BLOCK_SIZE + j < n" using j room by simp
      have "(?b * BLOCK_SIZE + j) div BLOCK_SIZE = ?b" using j by simp
      then have "\<nexists>r. Intervals_at ix (off + (?b * BLOCK_SIZE + j)) r" using staged [OF jn] nb by simp
      then have "mid ! (?b * BLOCK_SIZE + j) = 0" using st(3) [OF jn] by blast
      then show "block_at mid ?b ! j = replicate BLOCK_SIZE 0 ! j" using j room st(1) by (simp add: nth_subrange)
    qed
    have x: "(off + i) div BLOCK_SIZE = rp_offset p div BLOCK_SIZE + ?b" "(off + i) mod BLOCK_SIZE = i mod BLOCK_SIZE"
      using shape(3,4) by (auto elim!: dvdE simp: BLOCK_SIZE_def)
    have m: "i mod BLOCK_SIZE < BLOCK_SIZE" by (simp add: BLOCK_SIZE_def)
    have here: "if rp_base p = None then block_at out ?b = block_at mid ?b
      else \<exists>get. tree (the (rp_base p)) = Inr get \<and> block_filled get load p mid out ?b"
      using blocks nb nth(2) [OF a(1) len] by auto
    show ?thesis
    proof (cases "rp_base p")
      case None
      then show ?thesis using here nth(1) [OF a(1) len] m by (simp add: manifest_byte_def zero)
    next
      case (Some view)
      then obtain get where g: "tree view = Inr get" "block_filled get load p mid out ?b" using here by auto
      then obtain found where f: "get (rp_offset p div BLOCK_SIZE + ?b) = Inr found"
        using nb by (auto simp: block_filled_def split: sum.splits)
      show ?thesis
        using g f nb nth(1) [OF a(1) len] m Some
        by (cases found) (auto simp: manifest_byte_def block_filled_def zero x)
    qed
  qed
qed

section \<open>Planning and execution complete\<close>

definition plan_held :: "nat \<Rightarrow> ReadRange list \<Rightarrow> nat multiset" where
  "plan_held s rs = mset (map (\<lambda>r. unat (pl_batch_block (rr_payload r))) (filter (\<lambda>r. pl_segment (rr_payload r) = s) rs))"

text \<open>Every batch the index refers to has a counter in its segment's table.\<close>

definition pins_cover :: "(nat \<Rightarrow> Pins) \<Rightarrow> (nat \<times> Mapping) list \<Rightarrow> bool" where
  "pins_cover pins ms \<longleftrightarrow> (\<forall>(k, m) \<in> set ms. \<forall>p j. mp_source m = Some (p, j) \<longrightarrow>
     unat (pl_batch_block p) < length (pn_batches (pins (pl_segment p))))"

lemma plan_ranges_total:
  assumes "\<forall>s. Pins_exact (pins s) (held s) \<and> size (held s) + length ms < 2 ^ 32" and "pins_cover pins ms"
    and "\<forall>km \<in> set ms. \<forall>b \<in> set (block_span off end km). b div 64 < length c"
  shows "\<exists>pins' c'. plan_ranges off end ms pins c rs = Inr (pins', c', rs @ List.map_filter (range_of off end) ms) \<and>
    (\<forall>s. Pins_exact (pins' s) (held s + plan_held s (List.map_filter (range_of off end) ms)))"
  using assms
proof (induction ms arbitrary: pins c rs held)
  case Nil
  then show ?case by (simp add: plan_held_def List.map_filter_simps)
next
  case (Cons km ms)
  obtain k m where km: "km = (k, m)" by (cases km)
  obtain c1 where c1: "cover_blocks (block_span off end km) c = Inr c1"
    using cover_blocks_total [of "block_span off end km" c] Cons.prems(3) by auto
  have lc: "length c1 = length c" by (rule cover_blocks_spec(1) [OF c1])
  have ex: "Pins_exact (pins s) (held s)" and room: "Suc (size (held s) + length ms) < 2 ^ 32" for s
    using Cons.prems(1) by (simp_all del: power_numeral)
  show ?case
  proof (cases "mp_source m")
    case None
    have "\<exists>pins' c'. plan_ranges off end ms pins c1 rs = Inr (pins', c', rs @ List.map_filter (range_of off end) ms) \<and>
      (\<forall>s. Pins_exact (pins' s) (held s + plan_held s (List.map_filter (range_of off end) ms)))"
    proof (rule Cons.IH)
      show "\<forall>s. Pins_exact (pins s) (held s) \<and> size (held s) + length ms < 2 ^ 32" using ex Suc_lessD [OF room] by blast
      show "pins_cover pins ms" using Cons.prems(2) by (auto simp: pins_cover_def)
    qed (use Cons.prems(3) lc in auto)
    moreover have "range_of off end km = None" by (simp add: km None range_of_def)
    moreover have "plan_ranges off end (km # ms) pins c rs = plan_ranges off end ms pins c1 rs"
      using c1 by (simp add: km None Let_def)
    ultimately show ?thesis by (simp add: List.map_filter_simps)
  next
    case (Some po)
    obtain p j where po: "po = (p, j)" by (cases po)
    let ?g = "pl_segment p" and ?b = "unat (pl_batch_block p)"
    obtain r where r: "range_of off end km = Some r" "rr_payload r = p" by (simp add: km Some po range_of_def Let_def)
    have "?b < length (pn_batches (pins ?g))" using Cons.prems(2) by (auto simp: pins_cover_def km Some po)
    moreover have "size (held ?g) < 2 ^ 32 - 1" using room [of ?g] by simp
    ultimately obtain q where q: "Pins_acquire (pins ?g) ?b = Inr q" "length (pn_batches q) = length (pn_batches (pins ?g))"
      using Pins_acquire_total ex by blast
    let ?pins = "pins(?g := q)" and ?held = "held(?g := add_mset ?b (held ?g))"
    have "\<exists>pins' c'. plan_ranges off end ms ?pins c1 (rs @ [r]) = Inr (pins', c', (rs @ [r]) @ List.map_filter (range_of off end) ms) \<and>
      (\<forall>s. Pins_exact (pins' s) (?held s + plan_held s (List.map_filter (range_of off end) ms)))"
    proof (rule Cons.IH)
      show "\<forall>s. Pins_exact (?pins s) (?held s) \<and> size (?held s) + length ms < 2 ^ 32"
        using ex room Suc_lessD [OF room] Pins_acquire_exact [OF ex q(1)] by (simp del: power_numeral)
      show "pins_cover ?pins ms" using Cons.prems(2) q(2) by (auto simp: pins_cover_def)
    qed (use Cons.prems(3) lc in auto)
    moreover have "plan_ranges off end (km # ms) pins c rs = plan_ranges off end ms ?pins c1 (rs @ [r])"
      using c1 q(1) r(1) by (simp add: km Some po Let_def range_of_def)
    moreover have "?held s + plan_held s ms' = held s + plan_held s (r # ms')" for s ms'
      by (simp add: plan_held_def r(2))
    ultimately show ?thesis by (simp add: r(1) List.map_filter_simps)
  qed
qed

lemma read_ranges_total:
  assumes "\<forall>r \<in> set rs. range_ok (length buf) r \<and> (\<exists>input. range_input crc read r input)"
  shows "\<exists>out. read_ranges crc read rs buf = Inr out"
  using assms
proof (induction rs arbitrary: buf)
  case (Cons r rs)
  obtain input where i: "range_input crc read r input" and ok: "range_ok (length buf) r" using Cons.prems by auto
  let ?b = "overwrite buf (fst (rr_destination r)) (subrange input (fst (rr_source r)) (snd (rr_destination r) - fst (rr_destination r)))"
  have "length ?b = length buf"
    using i ok by (intro length_overwrite) (auto simp: range_input_def range_ok_def Let_def split: prod.splits)
  then have "\<exists>out. read_ranges crc read rs ?b = Inr out" using Cons by auto
  then show ?case unfolding read_ranges_Cons [OF ok] using i by blast
qed simp

definition store_answers ::
  "('v \<Rightarrow> (nat \<Rightarrow> 'h option result) result) \<Rightarrow> ('h \<Rightarrow> bytes \<Rightarrow> bytes result) \<Rightarrow> 'v option \<Rightarrow> bool" where
  "store_answers tree load base \<longleftrightarrow> (\<forall>view. base = Some view \<longrightarrow> (\<exists>get. tree view = Inr get \<and>
     (\<forall>b. \<exists>found. get b = Inr found \<and> (\<forall>h. found = Some h \<longrightarrow> (\<forall>x. \<exists>d. load h x = Inr d)))))"

lemma fill_blocks_total:
  assumes "plan_shape p" and "\<forall>b. \<exists>found. get b = Inr found \<and> (\<forall>h. found = Some h \<longrightarrow> (\<forall>x. \<exists>d. load h x = Inr d))"
    and "\<forall>b \<in> set bs. b < rp_bytes p div BLOCK_SIZE"
  shows "\<exists>out. fill_blocks get load p bs buf = Inr out"
  using assms(3)
proof (induction bs arbitrary: buf)
  case (Cons b bs)
  obtain found where f: "get (rp_offset p div BLOCK_SIZE + b) = Inr found"
    "\<forall>h. found = Some h \<longrightarrow> (\<forall>x. \<exists>d. load h x = Inr d)" using assms(2) by blast
  have b: "b < rp_bytes p div BLOCK_SIZE" using Cons.prems by simp
  have IH: "\<exists>out. fill_blocks get load p bs buf' = Inr out" for buf' using Cons by simp
  show ?case
  proof (cases found)
    case None
    then show ?thesis using IH f by (simp add: ReadPlan_staged_eq [OF assms(1) b])
  next
    case (Some h)
    then obtain d where "load h (block_at buf b) = Inr d" using f(2) by blast
    then show ?thesis using IH f Some by (simp add: ReadPlan_staged_eq [OF assms(1) b])
  qed
qed simp

lemma read_with_total:
  assumes inv: "Intervals_inv ix" and sh: "plan_shape p" "rp_bytes p = n"
    and rs: "rp_ranges p = List.map_filter (range_of off (off + n)) (Intervals_overlapping ix off (off + n))"
    and intact: "\<forall>x q pl j. Intervals_at ix x (q, Some (pl, j)) \<longrightarrow>
      (\<exists>input. read (pl_segment pl) (pl_offset pl) (pl_bytes pl) = Inr input \<and> length input = pl_bytes pl \<and> crc input = pl_crc pl)"
    and answers: "store_answers tree load (rp_base p)" and len: "length buffer = n"
  shows "\<exists>out. ReadPlan_read_with crc read tree load p buffer = Inr out"
proof -
  have "\<exists>input. range_input crc read r input" if "r \<in> set (rp_ranges p)" for r
  proof -
    obtain k m where "(k, m) \<in> set (Intervals_overlapping ix off (off + n))" "range_of off (off + n) (k, m) = Some r"
      using \<open>r \<in> set (rp_ranges p)\<close> by (fastforce simp: rs List.map_filter_def)
    then have m: "map_of (ii_map ix) k = Some m" "\<exists>j. mp_source m = Some (rr_payload r, j)"
      by (auto simp: Intervals_overlapping_spec [OF inv] elim: range_of_fields)
    moreover have "k < mp_end m" using intervals_okD(1) [of "map_of (ii_map ix)" k m] m(1) inv by (simp add: Intervals_inv_def)
    ultimately have "\<exists>q j. Intervals_at ix k (q, Some (rr_payload r, j))"
      by (fastforce simp: Intervals_at_def maps_to_def value_at_def covers_def)
    then show ?thesis using intact unfolding range_input_def Let_def by blast
  qed
  moreover have "\<forall>r \<in> set (rp_ranges p). range_ok (length (replicate n (0 :: byte))) r"
    using overlapping_ranges(1) [OF inv le_add1 [of off n]] by (simp add: rs)
  ultimately obtain mid where mid: "read_ranges crc read (rp_ranges p) (replicate n 0) = Inr mid"
    using read_ranges_total [of "rp_ranges p" "replicate n 0"] by blast
  have au: "any_unstaged p [0..<n div BLOCK_SIZE] = Inr (\<exists>b \<in> set [0..<n div BLOCK_SIZE]. \<not> covered_bit (rp_covered p) b)"
    by (rule any_unstaged_eq [OF sh(1)]) (simp add: sh(2))
  show ?thesis
  proof (cases "rp_base p")
    case None
    then show ?thesis using mid len sh(2) by (simp add: ReadPlan_read_with_def)
  next
    case (Some view)
    then obtain get where g: "tree view = Inr get"
      "\<forall>b. \<exists>found. get b = Inr found \<and> (\<forall>h. found = Some h \<longrightarrow> (\<forall>x. \<exists>d. load h x = Inr d))"
      using answers by (auto simp: store_answers_def)
    have "\<exists>out. fill_blocks get load p [0..<n div BLOCK_SIZE] mid = Inr out"
      by (rule fill_blocks_total [OF sh(1) g(2)]) (simp add: sh(2))
    then show ?thesis using mid au len Some g(1) sh(2) by (simp add: ReadPlan_read_with_def)
  qed
qed

section \<open>From requests to bytes\<close>

text \<open>The content a list of requests gives a position: the last request that covers it wins.\<close>

fun request_byte :: "request list \<Rightarrow> nat \<Rightarrow> byte option" where
  "request_byte [] x = None"
| "request_byte (r # rs) x = (case request_byte rs x of
      Some v \<Rightarrow> Some v
    | None \<Rightarrow> (case r of
        WriteReq rid off data \<Rightarrow> if unat off \<le> x \<and> x < unat off + length data then Some (data ! (x - unat off)) else None
      | ZeroReq rid off len \<Rightarrow> if unat off \<le> x \<and> x < unat off + unat len then Some 0 else None))"

definition holds_value :: "nat \<Rightarrow> nat \<Rightarrow> bytes \<Rightarrow> byte \<Rightarrow> nat \<times> (Payload \<times> nat) option \<Rightarrow> bool" where
  "holds_value i base P v r \<longleftrightarrow> (case snd r of
      None \<Rightarrow> v = 0
    | Some (pl, j) \<Rightarrow> pl_segment pl = i \<and> base \<le> pl_offset pl \<and> pl_offset pl + pl_bytes pl \<le> base + length P \<and>
        j < pl_bytes pl \<and> v = P ! (pl_offset pl - base + j))"

lemma valid_range_sum: "valid_range off len img \<Longrightarrow> unat (off + len) = unat off + unat len"
  by (auto simp: valid_range_def checked_add_Some unat_add_u64 split: option.splits)

lemma published_requests:
  assumes "packed crc img P (descriptors_of crc po rs) (po, ser) = Some t" and "drop po P = payload_of rs"
    and "length P \<le> 1048576" and "off < 2 ^ 44"
  shows "case request_byte rs x of
      None \<Rightarrow> published_value i off (number first (descriptors_of crc po rs)) x = None
    | Some v \<Rightarrow> \<exists>r. published_value i off (number first (descriptors_of crc po rs)) x = Some r \<and>
        holds_value i (off + 4096) P v r"
  using assms(1,2)
proof (induction rs arbitrary: po ser first)
  case (Cons r rs)
  let ?d = "request_descriptor crc po r" and ?po = "po + length (request_data r)"
  from Cons.prems(1) obtain st where step: "pack_step crc img P ?d (po, ser) = Some st"
    and rest: "packed crc img P (descriptors_of crc ?po rs) st = Some t" by (auto simp: packed_Cons bind_eq_Some_conv)
  have data: "drop po P = request_data r @ payload_of rs" using Cons.prems(2) by (simp add: payload_of_def)
  then have "drop ?po P = payload_of rs" by (metis add.commute append_eq_conv_conj drop_drop)
  have len: "po + length (request_data r) \<le> length P \<or> request_data r = []"
    using arg_cong [OF data, of length] by (cases "request_data r") auto
  have "fst st = ?po"
    using step len assms(3) by (cases r) (auto simp: pack_step_def unat_of_nat split: if_splits)
  then obtain ser' where "st = (?po, ser')" by (cases st) simp
  with rest have rest': "packed crc img P (descriptors_of crc ?po rs) (?po, ser') = Some t" by simp
  from Cons.IH [OF rest' \<open>drop ?po P = payload_of rs\<close>, of "first + 1"]
  have IH: "case request_byte rs x of
      None \<Rightarrow> published_value i off (number (first + 1) (descriptors_of crc ?po rs)) x = None
    | Some v \<Rightarrow> \<exists>r. published_value i off (number (first + 1) (descriptors_of crc ?po rs)) x = Some r \<and>
        holds_value i (off + 4096) P v r" .
  have v: "valid_range (d_offset ?d) (d_length ?d) img" using step by (auto simp: pack_step_def split: if_splits)
  note sum = valid_range_sum [OF v]
  show ?case
  proof (cases "request_byte rs x")
    case (Some w)
    then show ?thesis using IH by auto
  next
    case None
    then have none: "published_value i off (number (first + 1) (descriptors_of crc ?po rs)) x = None" using IH by simp
    show ?thesis
    proof (cases r)
      case (ZeroReq rid o' l)
      then show ?thesis
        using None none sum
        by (auto simp: covering_def value_at_def publish_mapping_def holds_value_def)
    next
      case (WriteReq rid o' bs)
      show ?thesis
      proof (cases "unat o' \<le> x \<and> x < unat o' + length bs")
        case True
        then have small: "po + length bs \<le> length P" using len WriteReq by auto
        then have u: "unat (word_of_nat (length bs) :: u64) = length bs" "unat (word_of_nat (length bs) :: u32) = length bs"
          "unat (word_of_nat po :: u32) = po" using assms(3) by (simp_all add: unat_of_nat)
        have "wrapping_add (wrapping_add off 4096) po = off + 4096 + po"
          using small assms(3,4) by (simp add: wrapping_add_def)
        moreover have "P ! (po + (x - unat o')) = bs ! (x - unat o')"
        proof -
          have "x - unat o' < length bs" using True by linarith
          then show ?thesis
            using WriteReq small arg_cong [OF data, of "\<lambda>l. l ! (x - unat o')"] by (simp add: nth_append)
        qed
        ultimately show ?thesis
          using None none sum True small u
          by (auto simp: WriteReq covering_def value_at_def publish_mapping_def holds_value_def BLOCK_SIZE_def)
      next
        case False
        have "unat (word_of_nat (length bs) :: u64) = length bs"
          using len assms(3) WriteReq by (auto simp: unat_of_nat)
        then show ?thesis using None none sum False by (auto simp: WriteReq covering_def)
      qed
    qed
  qed
qed simp

lemma log_reach_offsets: "log_reach crc l ss \<Longrightarrow> \<forall>s \<in> set ss. sm_offset s < 2 ^ 44"
proof (induction rule: log_reach.induct)
  case (log_appended l ss b rs l' s)
  have inv: "Log_inv l" using log_reach_inv [OF log_appended.hyps(1)] by blast
  have "sm_offset s = lg_offset l" using log_appended.hyps(3) by (auto simp: Log_prepare_append_def Log_reserve_def Let_def)
  then have "sm_offset s < 2 ^ 44" using Log_invD(1,12) [OF inv] by simp
  then show ?case using log_appended.IH by simp
qed auto

text \<open>The plan of a reachable log has the shape execution relies on.\<close>

lemma Log_read_plan_shape:
  assumes "log_reach crc l ss" and plan: "Log_read_plan l pins g base off bytes boundary = Inr (pins', p)"
  shows "plan_shape p" and "rp_bytes p = bytes" and "BLOCK_SIZE dvd rp_offset p" and "rp_offset p = off"
    and "rp_ranges p = List.map_filter (range_of off (off + bytes)) (Intervals_overlapping (lg_index l) off (off + bytes))"
    and "b < bytes div BLOCK_SIZE \<Longrightarrow> covered_bit (rp_covered p) b \<longleftrightarrow>
      (\<exists>km \<in> set (Intervals_overlapping (lg_index l) off (off + bytes)). b \<in> set (block_span off (off + bytes) km))"
    and "rp_base p = base" and "boundary \<le> lg_published l"
proof -
  from plan show "plan_shape p" "rp_bytes p = bytes" "BLOCK_SIZE dvd rp_offset p" "rp_offset p = off"
    "rp_ranges p = List.map_filter (range_of off (off + bytes)) (Intervals_overlapping (lg_index l) off (off + bytes))"
    "rp_base p = base" "boundary \<le> lg_published l"
    by (rule Log_read_plan_cases; use plan_ranges_spec(1,2) in \<open>fastforce simp: plan_shape_def\<close>)+
  assume "b < bytes div BLOCK_SIZE"
  from plan show "covered_bit (rp_covered p) b \<longleftrightarrow>
      (\<exists>km \<in> set (Intervals_overlapping (lg_index l) off (off + bytes)). b \<in> set (block_span off (off + bytes) km))"
  proof (rule Log_read_plan_cases)
    assume le: "bytes \<le> MAX_REQUEST_BYTES"
      and run: "plan_ranges off (off + bytes) (Intervals_overlapping (lg_index l) off (off + bytes)) pins (replicate 4 0) [] =
       Inr (pins', rp_covered p, rp_ranges p)"
    have "bytes div BLOCK_SIZE \<le> 256"
      using div_le_mono [OF le, of BLOCK_SIZE] by (simp add: BLOCK_SIZE_def MAX_REQUEST_BYTES_def)
    with \<open>b < bytes div BLOCK_SIZE\<close> have b: "b div 64 < 4" by simp
    then have "\<not> covered_bit (replicate 4 0) b" by (simp add: covered_bit_def)
    with plan_ranges_spec(3) [OF run, of b] b show ?thesis by simp
  qed
qed

lemma log_read_bytes:
  assumes reach: "log_reach crc l ss" and plan: "Log_read_plan l pins g base off bytes boundary = Inr (pins', p)"
    and run: "ReadPlan_read_with crc read tree load p buffer = Inr out"
    and exact: "load_exact load"
  shows "length out = bytes"
    and "i < bytes \<Longrightarrow> Intervals_at (lg_index l) (off + i) (q, Some (pl, j)) \<Longrightarrow>
      \<exists>input. read (pl_segment pl) (pl_offset pl) (pl_bytes pl) = Inr input \<and> length input = pl_bytes pl \<and>
        crc input = pl_crc pl \<and> out ! i = input ! j"
    and "i < bytes \<Longrightarrow> Intervals_at (lg_index l) (off + i) (q, None) \<Longrightarrow> out ! i = 0"
    and "i < bytes \<Longrightarrow> \<nexists>r. Intervals_at (lg_index l) (off + i) r \<Longrightarrow> manifest_byte tree load base (off + i) (out ! i)"
proof -
  have inv: "Intervals_inv (lg_index l)" using log_reach_inv [OF reach] Log_invD(4) by blast
  note s = Log_read_plan_shape [OF reach plan]
  note r = read_with_bytes [OF inv log_reach_aligned [OF reach] s(1-5) s(6) run exact, unfolded s(7)]
  show "length out = bytes" by (rule r(1))
  show "i < bytes \<Longrightarrow> Intervals_at (lg_index l) (off + i) (q, Some (pl, j)) \<Longrightarrow>
      \<exists>input. read (pl_segment pl) (pl_offset pl) (pl_bytes pl) = Inr input \<and> length input = pl_bytes pl \<and>
        crc input = pl_crc pl \<and> out ! i = input ! j" by (rule r(2))
  show "i < bytes \<Longrightarrow> Intervals_at (lg_index l) (off + i) (q, None) \<Longrightarrow> out ! i = 0" by (rule r(3))
  show "i < bytes \<Longrightarrow> \<nexists>r. Intervals_at (lg_index l) (off + i) r \<Longrightarrow> manifest_byte tree load base (off + i) (out ! i)"
    by (rule r(4))
qed

section \<open>Properties\<close>

text \<open>
  A read returns the published image. When a plan captured from a reachable log executes
  successfully, every byte of the response is what the index says at that position: for written data
  the byte at its place in the payload it names, which was read whole and matched its checksum; zero
  for a zeroed range; and where the log stages nothing, what the captured manifest says: the chunk
  its tree names for the block, or zero.
\<close>
theorem read_sees_published:
  assumes "log_reach crc l ss" and "Log_read_plan l pins g base off bytes boundary = Inr (pins', p)"
    and "ReadPlan_read_with crc read tree load p buffer = Inr out"
    and "load_exact load"
  shows "length out = bytes \<and> boundary \<le> lg_published l \<and> (\<forall>i < bytes.
    (\<forall>q pl j. Intervals_at (lg_index l) (off + i) (q, Some (pl, j)) \<longrightarrow>
      (\<exists>input. read (pl_segment pl) (pl_offset pl) (pl_bytes pl) = Inr input \<and> length input = pl_bytes pl \<and>
        crc input = pl_crc pl \<and> out ! i = input ! j)) \<and>
    (\<forall>q. Intervals_at (lg_index l) (off + i) (q, None) \<longrightarrow> out ! i = 0) \<and>
    ((\<nexists>r. Intervals_at (lg_index l) (off + i) r) \<longrightarrow> manifest_byte tree load base (off + i) (out ! i)))"
  using log_read_bytes [OF assms] Log_read_plan_shape(8) [OF assms(1,2)] by auto

text \<open>
  C26. Planning and reading complete. For a healthy reachable log and an aligned range inside the
  image, with the boundary published, room in the pin counters and every staged payload intact in
  its file, a plan is made and its execution returns a response. The plan adds exactly its own
  ranges to the holds of each segment, so no batch it reads can be punched before it is dropped.
\<close>
theorem read_completes:
  assumes "log_reach crc l ss" and "\<not> lg_failed l" and "0 < bytes" and "BLOCK_SIZE dvd off" and "BLOCK_SIZE dvd bytes"
    and "off + bytes \<le> unat (cf_image_bytes (lg_config l))" and "bytes \<le> MAX_REQUEST_BYTES" and "boundary \<le> lg_published l"
    and pins: "\<forall>s. Pins_exact (pins s) (held s) \<and> size (held s) + length (ii_map (lg_index l)) < 2 ^ 32"
    and cover: "pins_cover pins (ii_map (lg_index l))"
    and intact: "\<forall>x q pl j. Intervals_at (lg_index l) x (q, Some (pl, j)) \<longrightarrow>
      (\<exists>input. read (pl_segment pl) (pl_offset pl) (pl_bytes pl) = Inr input \<and> length input = pl_bytes pl \<and> crc input = pl_crc pl)"
    and answers: "store_answers tree load base"
  shows "\<exists>pins' p. Log_read_plan l pins True base off bytes boundary = Inr (pins', p) \<and>
    (\<forall>s. Pins_exact (pins' s) (held s + plan_held s (rp_ranges p))) \<and>
    (\<forall>buffer. length buffer = bytes \<longrightarrow> (\<exists>out. ReadPlan_read_with crc read tree load p buffer = Inr out))"
proof -
  let ?ix = "lg_index l" and ?ms = "Intervals_overlapping (lg_index l) off (off + bytes)"
  have inv: "Intervals_inv ?ix" using log_reach_inv [OF assms(1)] Log_invD(4) by blast
  have sub: "set ?ms \<subseteq> set (ii_map ?ix)" "length ?ms \<le> length (ii_map ?ix)"
    by (auto simp: Intervals_overlapping_def Let_def om_range_def intro: le_trans [OF length_filter_le])
  have small: "bytes div BLOCK_SIZE \<le> 256"
    using div_le_mono [OF assms(7), of BLOCK_SIZE] by (simp add: BLOCK_SIZE_def MAX_REQUEST_BYTES_def)
  have "b div 64 < 4" if "b \<in> set (block_span off (off + bytes) km)" for b km
  proof -
    have "(min (mp_end (snd km)) (off + bytes) - off) div BLOCK_SIZE \<le> bytes div BLOCK_SIZE" by (rule div_le_mono) simp
    then show ?thesis using that small by auto
  qed
  moreover have "\<forall>s. Pins_exact (pins s) (held s) \<and> size (held s) + length ?ms < 2 ^ 32"
    using pins sub(2) by (meson add_le_cancel_left le_less_trans)
  moreover have "pins_cover pins ?ms" using cover sub(1) unfolding pins_cover_def by blast
  ultimately obtain pins' c' where plan:
    "plan_ranges off (off + bytes) ?ms pins (replicate 4 0) [] = Inr (pins', c', List.map_filter (range_of off (off + bytes)) ?ms)"
    and held: "\<forall>s. Pins_exact (pins' s) (held s + plan_held s (List.map_filter (range_of off (off + bytes)) ?ms))"
    using plan_ranges_total [of pins held ?ms off "off + bytes" "replicate 4 0" "[]"] by auto
  let ?p = "\<lparr>rp_offset = off, rp_bytes = bytes, rp_ranges = List.map_filter (range_of off (off + bytes)) ?ms,
    rp_covered = c', rp_base = base\<rparr>"
  have run: "Log_read_plan l pins True base off bytes boundary = Inr (pins', ?p)"
    using assms(2-8) plan le_trans [OF assms(6) u64_nat]
    by (simp add: Log_read_plan_def Log_healthy_def nchecked_add_def)
  have "\<exists>out. ReadPlan_read_with crc read tree load ?p buffer = Inr out" if "length buffer = bytes" for buffer
    using read_with_total [OF inv Log_read_plan_shape(1,2,5) [OF assms(1) run] intact] answers that by simp
  then show ?thesis using run held by auto
qed

text \<open>
  C2. Reads see writes. Take any submission of a reachable log whose batch was sealed from a
  builder that accepted the requests \<open>rs\<close>, and whose bytes the file returns at its offset. Once it is
  published, every successful read of any range returns, at each position some request of the batch
  covers, the byte of the last such request (its data, or zero for a zeroed range); every other
  position is mapped as it was before the publication.
\<close>
theorem read_your_writes:
  assumes "log_reach crc l ss" and "s \<in> set ss" and "built crc b rs"
    and "Builder_seal crc b segment batch first = Inr (sm_batch s)"
    and "Log_publish_append crc l s = Inr l'"
    and "\<And>a n. a + n \<le> length (Batch_bytes (sm_batch s)) \<Longrightarrow>
      read (sm_segment s) (sm_offset s + a) n = Inr (subrange (Batch_bytes (sm_batch s)) a n)"
    and "Log_read_plan l' pins g base off bytes boundary = Inr (pins', p)"
    and "ReadPlan_read_with crc read tree load p buffer = Inr out"
    and "load_exact load"
  shows "\<forall>i < bytes. case request_byte rs (off + i) of
      Some v \<Rightarrow> out ! i = v
    | None \<Rightarrow> (\<forall>r. Intervals_at (lg_index l') (off + i) r \<longleftrightarrow> Intervals_at (lg_index l) (off + i) r)"
proof (intro allI impI)
  fix i assume i: "i < bytes"
  let ?B = "Batch_bytes (sm_batch s)" and ?o = "sm_offset s"
  have inv: "Log_inv l" and ok: "Submission_ok crc l s" using log_reach_inv [OF assms(1)] assms(2) by auto
  have reach: "log_reach crc l' ss" by (rule log_published [OF assms(1,2,5)])
  have o: "?o < 2 ^ 44" using log_reach_offsets [OF assms(1)] assms(2) by blast
  note seal = seal_roundtrip [OF assms(3,4)]
  obtain h where h: "\<not> lg_failed l" "Log_owns l s = Inr ()"
    "Header_decode crc (take BLOCK_SIZE ?B) (cf_image_bytes (lg_config l)) = Inr h"
    "\<not> e_fence (h_envelope h)" "unat (e_first (h_envelope h)) = lg_published l + 1"
    by (rule Log_publish_append_cases [OF assms(5)])
  have hd: "h = \<lparr>h_envelope = bt_envelope (sm_batch s), h_bytes = take 4096 ?B\<rparr>"
    using seal(1) h(3) by (auto simp: Header_decode_def Let_def BLOCK_SIZE_def)
  have ds: "Header_descriptors h = number first (descriptors_of crc 0 rs)" using seal(2) by (simp add: hd)
  have at: "\<forall>x r. Intervals_at (lg_index l') x r \<longleftrightarrow>
      (case published_value (sm_segment s) ?o (number first (descriptors_of crc 0 rs)) x of
         Some v \<Rightarrow> r = v | None \<Rightarrow> Intervals_at (lg_index l) x r)"
  proof -
    from Log_publish_append_effect [OF inv ok h] obtain ix where
      "l' = l\<lparr>lg_index := ix, lg_published := unat (e_last (h_envelope h)),
        lg_pending_descriptors := lg_pending_descriptors l - e_descriptors (h_envelope h)\<rparr>"
      "\<forall>x r. Intervals_at ix x r \<longleftrightarrow> (case published_value (sm_segment s) ?o (Header_descriptors h) x of
         Some v \<Rightarrow> r = v | None \<Rightarrow> Intervals_at (lg_index l) x r)"
      unfolding assms(5) sum.inject by blast
    then show ?thesis unfolding ds by simp
  qed
  obtain t where pk: "packed crc (b_image_bytes b) (payload_of rs) (descriptors_of crc 0 rs) (0, 0) = Some t"
    and small: "length (payload_of rs) \<le> 1048576"
    using built_inv [OF assms(3)] by (auto simp: Builder_inv_def Let_def)
  have blen: "length ?B = 4096 + length (payload_of rs)"
  proof -
    have "length (take 4096 ?B) = 4096" using h(3) by (simp add: Header_decode_def BLOCK_SIZE_def)
    then show ?thesis using arg_cong [OF seal(3), of length] by simp
  qed
  have val: "case request_byte rs (off + i) of
      None \<Rightarrow> published_value (sm_segment s) ?o (number first (descriptors_of crc 0 rs)) (off + i) = None
    | Some v \<Rightarrow> \<exists>r. published_value (sm_segment s) ?o (number first (descriptors_of crc 0 rs)) (off + i) = Some r \<and>
        holds_value (sm_segment s) (?o + 4096) (payload_of rs) v r"
    by (rule published_requests [OF pk _ small o]) simp
  show "case request_byte rs (off + i) of
      Some v \<Rightarrow> out ! i = v
    | None \<Rightarrow> (\<forall>r. Intervals_at (lg_index l') (off + i) r \<longleftrightarrow> Intervals_at (lg_index l) (off + i) r)"
  proof (cases "request_byte rs (off + i)")
    case None
    then show ?thesis using val at by simp
  next
    case (Some v)
    obtain q src where pv: "published_value (sm_segment s) ?o (number first (descriptors_of crc 0 rs)) (off + i) = Some (q, src)"
      and hv: "holds_value (sm_segment s) (?o + 4096) (payload_of rs) v (q, src)" using val Some by auto
    then have ia: "Intervals_at (lg_index l') (off + i) (q, src)" by (simp add: at)
    note r = log_read_bytes [OF reach assms(7-9)]
    have "out ! i = v"
    proof (cases src)
      case None
      then show ?thesis using r(3) [OF i] ia hv by (simp add: holds_value_def)
    next
      case (Some pj)
      obtain pl j where pj: "pj = (pl, j)" by (cases pj)
      have b: "pl_segment pl = sm_segment s" "?o + 4096 \<le> pl_offset pl"
        "pl_offset pl + pl_bytes pl \<le> ?o + 4096 + length (payload_of rs)" "j < pl_bytes pl"
        "v = payload_of rs ! (pl_offset pl - (?o + 4096) + j)" using hv Some pj by (auto simp: holds_value_def)
      obtain input where inp: "read (pl_segment pl) (pl_offset pl) (pl_bytes pl) = Inr input" "out ! i = input ! j"
        using r(2) [OF i] ia Some pj by blast
      let ?a = "pl_offset pl - ?o"
      have a: "?a + pl_bytes pl \<le> length ?B" "pl_offset pl = ?o + ?a" "4096 \<le> ?a" using b blen by auto
      have "input = subrange ?B ?a (pl_bytes pl)" using assms(6) [OF a(1)] inp(1) b(1) a(2) by simp
      then have "input ! j = ?B ! (?a + j)" using nth_subrange [OF b(4) a(1)] by simp
      also have "\<dots> = drop 4096 ?B ! (?a + j - 4096)" using a b(4) by simp
      finally show ?thesis using inp(2) b(5) a(3) by (simp add: seal(3) add.commute)
    qed
    then show ?thesis using Some by simp
  qed
qed

section \<open>Witnesses\<close>

text \<open>A log that published one zeroed block, with nothing else staged.\<close>

lemma demo_published:
  "\<exists>l s l'. log_reach (\<lambda>_. 0) l [s] \<and> Builder_seal (\<lambda>_. 0) demo_builder 1 1 1 = Inr (sm_batch s) \<and>
     Log_publish_append (\<lambda>_. 0) l s = Inr l' \<and> log_reach (\<lambda>_. 0) l' [s] \<and> \<not> lg_failed l' \<and> lg_config l' = demo_config \<and>
     Log_prepare_append (\<lambda>_. 0) demo_log demo_builder = Inr (l, s) \<and> lg_cohort l' = None \<and> \<not> lg_rotating l' \<and>
     lg_next_batch l' = 2 \<and> lg_issued l' = 1 \<and> lg_durable l' = 0 \<and> lg_pending_descriptors l' = 0 \<and>
     length (ii_map (lg_index l')) \<le> 126 \<and> lg_published l' = 1 \<and>
     (\<forall>x r. Intervals_at (lg_index l') x r \<longleftrightarrow> 4096 \<le> x \<and> x < 8192 \<and> r = (1, None))"
proof -
  have inv0: "Log_inv demo_log" using log_reach_inv [OF demo_log_reach] by blast
  obtain l s h where ls: "Log_prepare_append (\<lambda>_. 0) demo_log demo_builder = Inr (l, s)" "Log_owns l s = Inr ()"
    "lg_failed l = lg_failed demo_log"
    "Header_decode (\<lambda>_. 0) (take BLOCK_SIZE (Batch_bytes (sm_batch s))) (cf_image_bytes (lg_config l)) = Inr h"
    "\<not> e_fence (h_envelope h)" "unat (e_first (h_envelope h)) = lg_issued demo_log + 1"
    using Log_prepare_append_accepts [OF inv0 demo_built demo_check] by blast
  have reach: "log_reach (\<lambda>_. 0) l [s]" by (rule log_appended [OF demo_log_reach demo_built ls(1)])
  have inv: "Log_inv l" and ok: "Submission_ok (\<lambda>_. 0) l s" using log_reach_inv [OF reach] by auto
  note sp = Log_prepare_append_spec [OF inv0 demo_built ls(1)]
  have "sh_number (sg_header (List.last (lg_segments l0))) = 1"
    if "Log_create_in 1 (Inr ()) True (Inr ()) (Inr ()) (Inr 1060864) demo_config demo_limits None = Inr l0" for l0
    using that by (auto simp: Log_create_in_def segment_create_def Segment_create_def Config_header_def checked_add_def)
  then have num: "sh_number (sg_header (List.last (lg_segments demo_log))) = 1" using demo_log_created by blast
  have seal: "Builder_seal (\<lambda>_. 0) demo_builder 1 1 1 = Inr (sm_batch s)"
    using ls(1) num demo_log_facts
    by (auto simp: Log_prepare_append_def Log_current_def Log_reserve_def Let_def wrapping_add_def split: if_splits)
  note rt = seal_roundtrip [OF demo_built seal]
  have hd: "h = \<lparr>h_envelope = bt_envelope (sm_batch s), h_bytes = take 4096 (Batch_bytes (sm_batch s))\<rparr>"
    using rt(1) ls(4) sp(3) by (simp add: demo_log_facts demo_config_def demo_builder_facts BLOCK_SIZE_def)
  have ds: "Header_descriptors h = [(request_descriptor (\<lambda>_. 0) 0 (ZeroReq demo_id 4096 4096))\<lparr>d_sequence := 1\<rparr>]"
    using rt(2) by (simp add: hd)
  have pub: "published_value (sm_segment s) (sm_offset s) (Header_descriptors h) x =
      (if 4096 \<le> x \<and> x < 8192 then Some (1, None) else None)" for x
    by (simp add: ds covering_def value_at_def publish_mapping_def)
  have first: "unat (e_first (h_envelope h)) = lg_published l + 1" using ls(6) sp(5) demo_log_facts by simp
  have empty: "\<not> Intervals_at (lg_index l) x r" for x r
    using sp(7) demo_log_facts by (simp add: Intervals_at_def maps_to_def)
  from Log_publish_append_effect [OF inv ok _ ls(2,4,5) first] ls(3) demo_log_facts(1) obtain ix where
    p: "Log_publish_append (\<lambda>_. 0) l s = Inr (l\<lparr>lg_index := ix, lg_published := unat (e_last (h_envelope h)),
      lg_pending_descriptors := lg_pending_descriptors l - e_descriptors (h_envelope h)\<rparr>)" (is "_ = Inr ?l")
    and at: "\<forall>x r. Intervals_at ix x r \<longleftrightarrow> (case published_value (sm_segment s) (sm_offset s) (Header_descriptors h) x of
      Some v \<Rightarrow> r = v | None \<Rightarrow> Intervals_at (lg_index l) x r)" by blast
  have reach': "log_reach (\<lambda>_. 0) ?l [s]" by (rule log_published [OF reach _ p]) simp
  have "lg_limits l = demo_limits" using sp(8) demo_log_facts by auto
  then have "length (ii_map ix) \<le> 126"
    using Log_invD(6) [OF conjunct1 [OF log_reach_inv [OF reach']]] by (simp add: demo_limits_def)
  moreover have "unat (e_last (h_envelope h)) = 1" "e_descriptors (h_envelope h) = 1" using rt(5) by (simp_all add: hd)
  moreover have "lg_cohort l = None" "\<not> lg_rotating l" "lg_next_batch l = 2" "lg_issued l = 1" "lg_durable l = 0" "lg_pending_descriptors l = 1"
    using sp(8) demo_log_facts by auto
  ultimately show ?thesis
    using reach seal p reach' at sp(3) ls(1,3) demo_log_facts
    by (intro exI [of _ l] exI [of _ s] exI [of _ ?l]) (auto simp: pub empty split: if_splits)
qed

definition demo_read :: "Submission \<Rightarrow> file_read" where
  "demo_read s = (\<lambda>i off n. Inr (subrange (Batch_bytes (sm_batch s)) (off - sm_offset s) n))"

abbreviation (input) no_tree :: "unit \<Rightarrow> (nat \<Rightarrow> unit option result) result" where
  "no_tree \<equiv> (\<lambda>_. Inl (Other []))"

abbreviation (input) no_load :: "unit \<Rightarrow> bytes \<Rightarrow> bytes result" where
  "no_load \<equiv> (\<lambda>_ _. Inl (Other []))"

abbreviation (input) no_pins :: "nat \<Rightarrow> Pins" where
  "no_pins \<equiv> (\<lambda>_. \<lparr>pn_batches = [], pn_readers = 0\<rparr>)"

lemma demo_plan:
  assumes "log_reach (\<lambda>_. 0) l [s]" and "\<not> lg_failed l" and "lg_config l = demo_config"
    and "length (ii_map (lg_index l)) \<le> 126" and "lg_published l = 1"
    and at: "\<forall>x r. Intervals_at (lg_index l) x r \<longleftrightarrow> 4096 \<le> x \<and> x < 8192 \<and> r = (1, None)"
  shows "\<forall>s. Pins_exact (no_pins s) {#} \<and> size {#} + length (ii_map (lg_index l)) < 2 ^ 32"
    and "pins_cover no_pins (ii_map (lg_index l))" and "store_answers no_tree no_load None" and "load_exact no_load"
    and "\<forall>x q pl j. Intervals_at (lg_index l) x (q, Some (pl, j)) \<longrightarrow>
      (\<exists>input. demo_read s' (pl_segment pl) (pl_offset pl) (pl_bytes pl) = Inr input \<and> length input = pl_bytes pl \<and> 0 = pl_crc pl)"
proof -
  have inv: "Intervals_inv (lg_index l)" using log_reach_inv [OF assms(1)] Log_invD(4) by blast
  have "mp_source m = None" if "(k, m) \<in> set (ii_map (lg_index l))" for k m
  proof -
    have m: "map_of (ii_map (lg_index l)) k = Some m" using that inv by (simp add: Intervals_inv_def om_mem)
    then have "k < mp_end m" using inv intervals_okD(1) by (auto simp: Intervals_inv_def)
    then have "Intervals_at (lg_index l) k (value_at k m k)"
      using m unfolding Intervals_at_def maps_to_def covers_def by blast
    then have "snd (value_at k m k) = None" using at by auto
    then show ?thesis by (simp add: value_at_def)
  qed
  then show "pins_cover no_pins (ii_map (lg_index l))" by (auto simp: pins_cover_def)
qed (use assms in \<open>auto simp: Pins_exact_def store_answers_def load_exact_def\<close>)

theorem read_completes_witness:
  "\<exists>l s pins' p out. log_reach (\<lambda>_. 0) l [s] \<and> Log_read_plan l no_pins True None 4096 4096 1 = Inr (pins', p) \<and>
     ReadPlan_read_with (\<lambda>_. 0) (demo_read s) no_tree no_load p (replicate 4096 7) = Inr out"
proof -
  obtain l s where d: "log_reach (\<lambda>_. 0) l [s]" "\<not> lg_failed l" "lg_config l = demo_config" "length (ii_map (lg_index l)) \<le> 126"
    "lg_published l = 1" "\<forall>x r. Intervals_at (lg_index l) x r \<longleftrightarrow> 4096 \<le> x \<and> x < 8192 \<and> r = (1, None)"
    using demo_published by blast
  note c = demo_plan [OF d]
  have "\<exists>pins' p. Log_read_plan l no_pins True None 4096 4096 1 = Inr (pins', p) \<and>
    (\<forall>s. Pins_exact (pins' s) ({#} + plan_held s (rp_ranges p))) \<and>
    (\<forall>buffer. length buffer = 4096 \<longrightarrow> (\<exists>out. ReadPlan_read_with (\<lambda>_. 0) (demo_read s) no_tree no_load p buffer = Inr out))"
    using d(5) by (intro read_completes [OF d(1,2) _ _ _ _ _ _ c(1,2,5,3)])
      (simp_all add: d(3) demo_config_def BLOCK_SIZE_def MAX_REQUEST_BYTES_def)
  then show ?thesis using d(1) by (metis length_replicate)
qed

text \<open>A response as the two soundness properties see it: the plan exists because planning is total.\<close>

lemma demo_response:
  assumes "log_reach (\<lambda>_. 0) l [s]" and "\<not> lg_failed l" and "lg_config l = demo_config"
    and "length (ii_map (lg_index l)) \<le> 126" and "lg_published l = 1"
    and at: "\<forall>x r. Intervals_at (lg_index l) x r \<longleftrightarrow> 4096 \<le> x \<and> x < 8192 \<and> r = (1, None)"
  shows "\<exists>pins' p out. Log_read_plan l no_pins True (None :: unit option) 4096 4096 1 = Inr (pins', p) \<and>
     ReadPlan_read_with (\<lambda>_. 0) (demo_read s) no_tree no_load p (replicate 4096 7) = Inr out"
proof -
  note c = demo_plan [OF assms]
  have inv: "Intervals_inv (lg_index l)" using log_reach_inv [OF assms(1)] Log_invD(4) by blast
  have "length (Intervals_overlapping (lg_index l) 4096 8192) \<le> length (ii_map (lg_index l))"
    by (auto simp: Intervals_overlapping_def Let_def om_range_def intro: le_trans [OF length_filter_le])
  then have "\<forall>s. Pins_exact (no_pins s) {#} \<and> size {#} + length (Intervals_overlapping (lg_index l) 4096 8192) < 2 ^ 32"
    using c(1) by (meson add_le_cancel_left le_less_trans)
  moreover have "pins_cover no_pins (Intervals_overlapping (lg_index l) 4096 8192)"
    using c(2) unfolding pins_cover_def by (auto simp: Intervals_overlapping_def Let_def om_range_def)
  moreover have "\<forall>km \<in> set (Intervals_overlapping (lg_index l) 4096 8192). \<forall>b \<in> set (block_span 4096 8192 km). b div 64 < length (replicate 4 (0 :: u64))"
    using div_le_mono [of "min e 8192 - 4096" 4096 BLOCK_SIZE for e] by (fastforce simp: BLOCK_SIZE_def)
  ultimately obtain pins' c' where plan: "plan_ranges 4096 8192 (Intervals_overlapping (lg_index l) 4096 8192) no_pins (replicate 4 0) [] =
      Inr (pins', c', List.map_filter (range_of 4096 8192) (Intervals_overlapping (lg_index l) 4096 8192))"
    using plan_ranges_total [of no_pins "\<lambda>_. {#}" _ 4096 8192 "replicate 4 0" "[]"] by (metis append_Nil)
  then obtain p where p: "Log_read_plan l no_pins True (None :: unit option) 4096 4096 1 = Inr (pins', p)"
    using assms(2,3,5) by (simp add: Log_read_plan_def Log_healthy_def nchecked_add_def u64_max_def demo_config_def
        BLOCK_SIZE_def MAX_REQUEST_BYTES_def)
  note sh = Log_read_plan_shape [OF assms(1) p]
  from read_with_total [OF inv sh(1,2,5) c(5)] c(3) sh(7) p show ?thesis by fastforce
qed

theorem read_sees_published_witness:
  "\<exists>l s pins' p out. log_reach (\<lambda>_. 0) l [s] \<and> Log_read_plan l no_pins True (None :: unit option) 4096 4096 1 = Inr (pins', p) \<and>
     ReadPlan_read_with (\<lambda>_. 0) (demo_read s) no_tree no_load p (replicate 4096 7) = Inr out \<and> length out = 4096 \<and> out ! 0 = 0"
proof -
  obtain l s where d: "log_reach (\<lambda>_. 0) l [s]" "\<not> lg_failed l" "lg_config l = demo_config" "length (ii_map (lg_index l)) \<le> 126"
    "lg_published l = 1" "\<forall>x r. Intervals_at (lg_index l) x r \<longleftrightarrow> 4096 \<le> x \<and> x < 8192 \<and> r = (1, None)"
    using demo_published by blast
  obtain pins' p out where r: "Log_read_plan l no_pins True (None :: unit option) 4096 4096 1 = Inr (pins', p)"
    "ReadPlan_read_with (\<lambda>_. 0) (demo_read s) no_tree no_load p (replicate 4096 7) = Inr out"
    using demo_response [OF d] by blast
  from read_sees_published [OF d(1) r demo_plan(4) [OF d]] d(6) d(1) r show ?thesis by fastforce
qed

theorem read_your_writes_witness:
  "\<exists>l s l' pins' p out. Log_publish_append (\<lambda>_. 0) l s = Inr l' \<and>
     Log_read_plan l' no_pins True (None :: unit option) 4096 4096 1 = Inr (pins', p) \<and>
     ReadPlan_read_with (\<lambda>_. 0) (demo_read s) no_tree no_load p (replicate 4096 7) = Inr out \<and>
     request_byte [ZeroReq demo_id 4096 4096] (4096 + 5) = Some 0 \<and> out ! 5 = 0"
proof -
  obtain l s l' where d: "log_reach (\<lambda>_. 0) l [s]" "Builder_seal (\<lambda>_. 0) demo_builder 1 1 1 = Inr (sm_batch s)"
    "Log_publish_append (\<lambda>_. 0) l s = Inr l'" "log_reach (\<lambda>_. 0) l' [s]" "\<not> lg_failed l'" "lg_config l' = demo_config"
    "length (ii_map (lg_index l')) \<le> 126" "lg_published l' = 1"
    "\<forall>x r. Intervals_at (lg_index l') x r \<longleftrightarrow> 4096 \<le> x \<and> x < 8192 \<and> r = (1, None)"
    using demo_published by blast
  obtain pins' p out where r: "Log_read_plan l' no_pins True (None :: unit option) 4096 4096 1 = Inr (pins', p)"
    "ReadPlan_read_with (\<lambda>_. 0) (demo_read s) no_tree no_load p (replicate 4096 7) = Inr out"
    using demo_response [OF d(4-9)] by blast
  have stored: "a + n \<le> length (Batch_bytes (sm_batch s)) \<Longrightarrow>
      demo_read s (sm_segment s) (sm_offset s + a) n = Inr (subrange (Batch_bytes (sm_batch s)) a n)" for a n
    by (simp add: demo_read_def)
  have "\<forall>i < 4096. case request_byte [ZeroReq demo_id 4096 4096] (4096 + i) of
      Some v \<Rightarrow> out ! i = v
    | None \<Rightarrow> (\<forall>r. Intervals_at (lg_index l') (4096 + i) r \<longleftrightarrow> Intervals_at (lg_index l) (4096 + i) r)"
    by (rule read_your_writes [OF d(1) _ demo_built d(2,3) stored r demo_plan(4) [OF d(4-9)]]) simp_all
  then have "out ! 5 = 0" by (auto dest: spec [of _ 5])
  moreover have "request_byte [ZeroReq demo_id 4096 4096] (4096 + 5) = Some 0" by simp
  ultimately show ?thesis using d(3) r by blast
qed

end
