(* ===== verification/Wal_Recovery.thy ===== *)
theory Wal_Recovery
  imports Wal_Read
begin

text \<open>
  Inspection and recovery of the log: \<^verbatim>\<open>core/src/append/recovery.rs\<close> with \<^verbatim>\<open>Segment::open\<close>. The scan
  decodes batch after batch of every candidate file, checks that each follows the one before, and
  republishes it; the first batch that does not ends the accepted prefix. The outcomes of file
  operations are functions of the candidate's position.
\<close>

section \<open>Inspection\<close>

record RecoveryIo =
  ri_query :: "nat \<Rightarrow> unit result"
  ri_buffer :: "nat \<Rightarrow> nat \<Rightarrow> unit result"
  ri_read :: file_read
  ri_length :: "nat \<Rightarrow> nat result"
  ri_allocated :: "nat \<Rightarrow> nat result"
  ri_pins :: "nat \<Rightarrow> bool"

text \<open>Decoding errors of the header are wrapped by \<^verbatim>\<open>io::Error::other\<close>.\<close>

definition Segment_open :: "(bytes \<Rightarrow> u32) \<Rightarrow> RecoveryIo \<Rightarrow> nat \<Rightarrow> u64 \<Rightarrow> LogSegment result" where
  "Segment_open crc io i num =
     attempt (ri_query io i) (\<lambda>_.
     attempt (ri_buffer io i 0) (\<lambda>_.
     attempt (ri_read io i 0 BLOCK_SIZE) (\<lambda>buffer.
     attempt (map_err (\<lambda>_. Other ''segment header'') (SegmentHeader_decode crc buffer)) (\<lambda>header.
     ensure (sh_number header = num) (Other ''segment filename/header mismatch'')
    (attempt (Pins_new (ri_pins io i) (unat (sh_capacity header))) (\<lambda>_.
     attempt (ri_length io i) (\<lambda>len.
     Inr \<lparr>sg_id = i, sg_header = header, sg_end = len\<rparr>)))))))"

text \<open>What a mutation batch above the manifest boundary does: \<open>None\<close> rejects its payload.\<close>

definition replay_batch ::
  "(bytes \<Rightarrow> u32) \<Rightarrow> RecoveryIo \<Rightarrow> Log \<Rightarrow> LogSegment \<Rightarrow> Header \<Rightarrow> nat \<Rightarrow> Log option log_result" where
  "replay_batch crc io l segment h base =
     (let e = h_envelope h; i = sg_id segment in
      if unat (e_first e) \<le> base \<and> base < unat (e_last e)
      then Inl (Io (Other ''manifest D splits a staging batch''))
      else if unat (e_last e) \<le> base then Inr (Some (l\<lparr>lg_published := unat (e_last e)\<rparr>))
      else if length (ii_map (lg_index l)) + 2 * e_descriptors e > lm_intervals (lg_limits l) then Inl Capacity
      else attempt
        (if e_payload_bytes e \<noteq> 0
         then attempt (map_err Io (ri_buffer io i (lg_offset l + BLOCK_SIZE))) (\<lambda>_.
              attempt (map_err Io (ri_read io i (lg_offset l + BLOCK_SIZE) (e_payload_bytes e))) (\<lambda>payload.
              Inr (Header_verify_payload crc h payload = Inr ())))
         else Inr True)
        (\<lambda>intact. if intact then attempt (Log_publish l h i (lg_offset l)) (\<lambda>l. Inr (Some l)) else Inr None))"

text \<open>
  Moving past an accepted batch. The offset does not wrap: \<^verbatim>\<open>follows\<close> has checked that the batch ends
  within the file.
\<close>

definition replay_advance :: "Log \<Rightarrow> LogSegment \<Rightarrow> nat \<Rightarrow> nat \<Rightarrow> Log log_result" where
  "replay_advance l segment len base =
     attempt (ok_or (nchecked_add (lg_next_batch l) 1) Exhausted) (\<lambda>next_batch.
     let l = l\<lparr>lg_offset := lg_offset l + len, lg_encoded_bytes := wrapping_add (lg_encoded_bytes l) len,
               lg_next_batch := next_batch\<rparr>
     in Inr (if lg_published l = base
             then l\<lparr>lg_compaction_cursor := Some \<lparr>sp_segment = sh_number (sg_header segment),
                    sp_offset = lg_offset l, sp_batch = lg_next_batch l, sp_sequence = base\<rparr>\<rparr>
             else l))"

definition Log_replay_one ::
  "(bytes \<Rightarrow> u32) \<Rightarrow> RecoveryIo \<Rightarrow> Log \<Rightarrow> LogSegment \<Rightarrow> nat \<Rightarrow> nat \<Rightarrow> (Log \<times> bool) log_result" where
  "Log_replay_one crc io l segment file_length base =
     (let i = sg_id segment in
      if file_length - lg_offset l < BLOCK_SIZE then Inr (l, False)
      else attempt (map_err Io (ri_buffer io i (lg_offset l))) (\<lambda>_.
      attempt (map_err Io (ri_read io i (lg_offset l) BLOCK_SIZE)) (\<lambda>buffer.
      case Header_decode crc buffer (cf_image_bytes (lg_config l)) of
        Inl _ \<Rightarrow> Inr (l, False)
      | Inr h \<Rightarrow>
          let e = h_envelope h; len = BLOCK_SIZE + e_payload_bytes e in
          if \<not> Header_follows h (sg_header segment) (word_of_nat (lg_next_batch l)) (word_of_nat (lg_published l))
               (word_of_nat (lg_offset l)) (word_of_nat file_length)
          then Inr (l, False)
          else attempt (if e_fence e then Inr (Some l) else replay_batch crc io l segment h base) (\<lambda>step.
            case step of
              None \<Rightarrow> Inr (l, False)
            | Some l \<Rightarrow> attempt (replay_advance l segment len base) (\<lambda>l. Inr (l, True))))))"

lemma Log_publish_offset: "Log_publish l h i off = Inr l' \<Longrightarrow> lg_offset l' = lg_offset l"
  by (auto simp: Log_publish_def)

lemma replay_batch_offset: "replay_batch crc io l segment h base = Inr (Some l') \<Longrightarrow> lg_offset l' = lg_offset l"
  by (auto simp: replay_batch_def Let_def dest: Log_publish_offset split: if_splits)

lemma replay_advance_offset: "replay_advance l segment len base = Inr l' \<Longrightarrow> lg_offset l' = lg_offset l + len"
  by (auto simp: replay_advance_def Let_def split: if_splits)

lemma Log_replay_one_accepted:
  assumes "Log_replay_one crc io l segment len base = Inr (l', True)"
  obtains buffer h l1 where "ri_read io (sg_id segment) (lg_offset l) BLOCK_SIZE = Inr buffer"
    "Header_decode crc buffer (cf_image_bytes (lg_config l)) = Inr h"
    "Header_follows h (sg_header segment) (word_of_nat (lg_next_batch l)) (word_of_nat (lg_published l))
       (word_of_nat (lg_offset l)) (word_of_nat len)"
    "(if e_fence (h_envelope h) then Inr (Some l) else replay_batch crc io l segment h base) = Inr (Some l1)"
    "replay_advance l1 segment (BLOCK_SIZE + e_payload_bytes (h_envelope h)) base = Inr l'"
proof -
  let ?step = "\<lambda>h. if e_fence (h_envelope h) then Inr (Some l) else replay_batch crc io l segment h base"
  from assms obtain buffer where b: "ri_read io (sg_id segment) (lg_offset l) BLOCK_SIZE = Inr buffer"
    and r: "(case Header_decode crc buffer (cf_image_bytes (lg_config l)) of
        Inl _ \<Rightarrow> Inr (l, False)
      | Inr h \<Rightarrow>
          if \<not> Header_follows h (sg_header segment) (word_of_nat (lg_next_batch l)) (word_of_nat (lg_published l))
               (word_of_nat (lg_offset l)) (word_of_nat len)
          then Inr (l, False)
          else attempt (?step h) (\<lambda>step.
            case step of
              None \<Rightarrow> Inr (l, False)
            | Some l \<Rightarrow> attempt (replay_advance l segment (BLOCK_SIZE + e_payload_bytes (h_envelope h)) base) (\<lambda>l. Inr (l, True)))) =
       (Inr (l', True) :: (Log \<times> bool) log_result)"
    unfolding Log_replay_one_def Let_def by (auto simp del: attempt_eq_Inr simp: attempt_def split: if_splits sum.splits)
  from r obtain h where h: "Header_decode crc buffer (cf_image_bytes (lg_config l)) = Inr h"
    by (cases "Header_decode crc buffer (cf_image_bytes (lg_config l))") auto
  with r obtain step where f: "Header_follows h (sg_header segment) (word_of_nat (lg_next_batch l)) (word_of_nat (lg_published l))
       (word_of_nat (lg_offset l)) (word_of_nat len)" and s: "?step h = Inr step"
    and c: "(case step of None \<Rightarrow> Inr (l, False)
      | Some l \<Rightarrow> attempt (replay_advance l segment (BLOCK_SIZE + e_payload_bytes (h_envelope h)) base) (\<lambda>l. Inr (l, True))) =
       (Inr (l', True) :: (Log \<times> bool) log_result)"
    by (auto split: if_splits)
  from c obtain l1 where "step = Some l1" "replay_advance l1 segment (BLOCK_SIZE + e_payload_bytes (h_envelope h)) base = Inr l'"
    by (cases step) auto
  with b h f s show thesis by (intro that) simp_all
qed

lemma Log_replay_one_advances:
  assumes "Log_replay_one crc io l segment len base = Inr (l', True)"
  shows "lg_offset l < lg_offset l'"
  using assms
proof (rule Log_replay_one_accepted)
  fix h l1
  assume "(if e_fence (h_envelope h) then Inr (Some l) else replay_batch crc io l segment h base) = Inr (Some l1)"
    and "replay_advance l1 segment (BLOCK_SIZE + e_payload_bytes (h_envelope h)) base = Inr l'"
  then show ?thesis
    by (auto simp: BLOCK_SIZE_def dest!: replay_advance_offset replay_batch_offset split: if_splits)
qed

text \<open>The loop over one file; the flag is set at the first batch that is not accepted.\<close>

function scan_segment ::
  "(bytes \<Rightarrow> u32) \<Rightarrow> RecoveryIo \<Rightarrow> LogSegment \<Rightarrow> nat \<Rightarrow> nat \<Rightarrow> Log \<Rightarrow> (Log \<times> bool) log_result" where
  "scan_segment crc io segment len base l =
     (if lg_offset l < len
      then (case Log_replay_one crc io l segment len base of
              Inl e \<Rightarrow> Inl e
            | Inr (l', accepted) \<Rightarrow> if accepted then scan_segment crc io segment len base l' else Inr (l', True))
      else Inr (l, False))"
  by pat_completeness auto
termination
  by (relation "measure (\<lambda>(crc, io, segment, len, base, l). len - lg_offset l)")
    (auto dest: Log_replay_one_advances)

declare scan_segment.simps [simp del]

text \<open>Positions of rejected data: the candidate and the offset in it.\<close>

definition attach_segment :: "Log \<Rightarrow> LogSegment \<Rightarrow> nat \<Rightarrow> Log" where
  "attach_segment l segment allocated =
     l\<lparr>lg_offset := BLOCK_SIZE, lg_next_batch := 1, lg_encoded_bytes := wrapping_add (lg_encoded_bytes l) BLOCK_SIZE,
       lg_allocated_bytes := wrapping_add (lg_allocated_bytes l) allocated, lg_segments := lg_segments l @ [segment]\<rparr>"

fun inspect_segments ::
  "(bytes \<Rightarrow> u32) \<Rightarrow> RecoveryIo \<Rightarrow> LogConfig \<Rightarrow> nat \<Rightarrow> LogSegment \<Rightarrow> (nat \<times> u64) list \<Rightarrow> Log \<Rightarrow>
   (Log \<times> (nat \<times> nat) option) log_result" where
  "inspect_segments crc io config base first [] l = Inr (l, None)"
| "inspect_segments crc io config base first ((i, num) # rest) l =
     (case (if i = 0 then Inr first else Segment_open crc io i num) of
        Inl (UnexpectedEof m) \<Rightarrow> Inr (l, Some (i, 0))
      | Inl e \<Rightarrow> Inl (Io e)
      | Inr segment \<Rightarrow>
          ensure (Config_matches config (sg_header segment) \<and>
                  unat (sh_preceding_sequence (sg_header segment)) = lg_published l \<and>
                  (lg_segments l = [] \<or> \<not> sh_epoch (sg_header segment) < sh_epoch (sg_header (List.last (lg_segments l)))))
            (Io (Other ''inconsistent staging segment chain''))
         (attempt (map_err Io (ri_allocated io i)) (\<lambda>allocated.
          attempt (map_err Io (ri_length io i)) (\<lambda>len.
          attempt (scan_segment crc io segment len base (attach_segment l segment allocated)) (\<lambda>(l, stopped).
          let l = l\<lparr>lg_segments := butlast (lg_segments l) @ [segment\<lparr>sg_end := lg_offset l\<rparr>]\<rparr> in
          if stopped then Inr (l, Some (i, lg_offset l))
          else inspect_segments crc io config base first rest l)))))"

record Recovery =
  rc_log :: Log
  rc_candidates :: "(nat \<times> u64) list"
  rc_rejected :: "(nat \<times> nat) option"

text \<open>
  The candidates are the canonical segment names of the directory in ascending order, numbered from
  zero; \<open>highest\<close> also counts archived names.
\<close>

definition Log_inspect_in ::
  "(bytes \<Rightarrow> u32) \<Rightarrow> RecoveryIo \<Rightarrow> unit result \<Rightarrow> (u64 \<times> u64 list) result \<Rightarrow> unit result \<Rightarrow> Limits \<Rightarrow> nat \<Rightarrow> Recovery log_result" where
  "Log_inspect_in crc io nodes listing resources lim base =
     attempt (map_err Io nodes) (\<lambda>_.
     attempt (map_err Io listing) (\<lambda>(highest, files).
     let candidates = zip [0..<length files] files in
     attempt (map_err Io (ok_or (if files = [] then None else Some (hd files)) (Other ''no valid image segment''))) (\<lambda>num.
     attempt (map_err Io (Segment_open crc io 0 num)) (\<lambda>first.
     let h = sg_header first in
     ensure (\<not> unat (sh_preceding_sequence h) > base) (Io (Other ''missing staging prefix above manifest D''))
    (let config = \<lparr>cf_store = sh_store h, cf_image = sh_image h, cf_image_bytes = sh_image_bytes h, cf_segment_bytes = sh_capacity h\<rparr> in
     ensure (\<not> unat (cf_segment_bytes config) < MAX_BATCH_BYTES + 2 * BLOCK_SIZE) Capacity
    (attempt (map_err Io resources) (\<lambda>_.
     attempt (inspect_segments crc io config base first candidates
        (Log_empty config lim \<lparr>ii_map = [], ii_limit = lm_intervals lim\<rparr> highest (unat (sh_preceding_sequence h)))) (\<lambda>(l, rejected).
     ensure (\<not> lg_published l < base) (Prefix (lg_published l) base)
       (Inr \<lparr>rc_log = l\<lparr>lg_issued := lg_published l\<rparr>, rc_candidates = candidates, rc_rejected = rejected\<rparr>)))))))))"

section \<open>What the scan accepts\<close>

text \<open>
  One batch at a boundary of a segment: it parses, follows what precedes it, and its payload
  verifies. A boundary is the next batch number, the sequence so far and the offset.
\<close>

definition batch_ok :: "(bytes \<Rightarrow> u32) \<Rightarrow> SegmentHeader \<Rightarrow> u64 \<Rightarrow> nat \<times> nat \<times> nat \<Rightarrow> Batch \<Rightarrow> Header \<Rightarrow> bool" where
  "batch_ok crc seg img c w h \<longleftrightarrow> (case c of (n, seq, off) \<Rightarrow>
     Header_decode crc (take 4096 (Batch_bytes w)) img = Inr h \<and>
     length (Batch_bytes w) = 4096 + e_payload_bytes (h_envelope h) \<and>
     Header_follows h seg (word_of_nat n) (word_of_nat seq) (word_of_nat off) (sh_capacity seg) \<and>
     Header_verify_payload crc h (drop 4096 (Batch_bytes w)) = Inr ())"

definition boundary_after :: "nat \<times> nat \<times> nat \<Rightarrow> Header \<Rightarrow> nat \<times> nat \<times> nat" where
  "boundary_after c h = (case c of (n, seq, off) \<Rightarrow>
     (n + 1, if e_fence (h_envelope h) then seq else unat (e_last (h_envelope h)),
      off + 4096 + e_payload_bytes (h_envelope h)))"

inductive chain ::
  "(bytes \<Rightarrow> u32) \<Rightarrow> SegmentHeader \<Rightarrow> u64 \<Rightarrow> nat \<times> nat \<times> nat \<Rightarrow> Batch list \<Rightarrow> nat \<times> nat \<times> nat \<Rightarrow> bool"
  for crc seg img where
  chain_nil: "chain crc seg img c [] c"
| chain_cons: "batch_ok crc seg img c w h \<Longrightarrow> fst c < u64_max \<Longrightarrow> chain crc seg img (boundary_after c h) ws d \<Longrightarrow>
    chain crc seg img c (w # ws) d"

lemma chain_append: "chain crc seg img c ws d \<Longrightarrow> chain crc seg img d vs e \<Longrightarrow> chain crc seg img c (ws @ vs) e"
  by (induction rule: chain.induct) (auto intro: chain_cons)

lemma chain_snoc:
  "chain crc seg img c ws d \<Longrightarrow> batch_ok crc seg img d w h \<Longrightarrow> fst d < u64_max \<Longrightarrow>
   chain crc seg img c (ws @ [w]) (boundary_after d h)"
  using chain_append chain_cons chain_nil by metis

text \<open>What the batches above the manifest boundary stage, the last covering descriptor winning.\<close>

definition replays :: "nat \<Rightarrow> Header \<Rightarrow> bool" where
  "replays base h \<longleftrightarrow> \<not> e_fence (h_envelope h) \<and> base < unat (e_last (h_envelope h))"

fun chain_value ::
  "(bytes \<Rightarrow> u32) \<Rightarrow> u64 \<Rightarrow> nat \<Rightarrow> nat \<Rightarrow> nat \<Rightarrow> Batch list \<Rightarrow> nat \<Rightarrow> (nat \<times> (Payload \<times> nat) option) option" where
  "chain_value crc img base i off [] x = None"
| "chain_value crc img base i off (w # ws) x =
     (case chain_value crc img base i (off + length (Batch_bytes w)) ws x of
        Some v \<Rightarrow> Some v
      | None \<Rightarrow> (case Header_decode crc (take 4096 (Batch_bytes w)) img of
          Inl _ \<Rightarrow> None
        | Inr h \<Rightarrow> if replays base h then published_value i off (Header_descriptors h) x else None))"

fun chain_load :: "(bytes \<Rightarrow> u32) \<Rightarrow> u64 \<Rightarrow> nat \<Rightarrow> Batch list \<Rightarrow> nat" where
  "chain_load crc img base [] = 0"
| "chain_load crc img base (w # ws) =
     (case Header_decode crc (take 4096 (Batch_bytes w)) img of
        Inl _ \<Rightarrow> 0 | Inr h \<Rightarrow> if replays base h then e_descriptors (h_envelope h) else 0) + chain_load crc img base ws"

text \<open>The manifest boundary lies between batches.\<close>

fun unsplit :: "(bytes \<Rightarrow> u32) \<Rightarrow> u64 \<Rightarrow> nat \<Rightarrow> Batch list \<Rightarrow> bool" where
  "unsplit crc img base [] \<longleftrightarrow> True"
| "unsplit crc img base (w # ws) \<longleftrightarrow>
     (case Header_decode crc (take 4096 (Batch_bytes w)) img of
        Inl _ \<Rightarrow> True
      | Inr h \<Rightarrow> replays base h \<longrightarrow> base < unat (e_first (h_envelope h))) \<and> unsplit crc img base ws"

text \<open>The file of candidate \<open>i\<close> holds \<open>bs\<close> at \<open>off\<close>, and buffers are available.\<close>

definition holds_at :: "RecoveryIo \<Rightarrow> nat \<Rightarrow> nat \<Rightarrow> bytes \<Rightarrow> bool" where
  "holds_at io i off bs \<longleftrightarrow> (\<forall>a n. a + n \<le> length bs \<longrightarrow> ri_read io i (off + a) n = Inr (subrange bs a n)) \<and>
     (\<forall>off. ri_buffer io i off = Inr ())"

lemma holds_at_append:
  assumes "holds_at io i off (as @ bs)"
  shows "holds_at io i off as" and "holds_at io i (off + length as) bs"
proof -
  have r: "ri_read io i (off + a) n = Inr (subrange (as @ bs) a n)" if "a + n \<le> length as + length bs" for a n
    using assms that by (simp add: holds_at_def)
  have "subrange (as @ bs) a n = subrange as a n" if "a + n \<le> length as" for a n
    using that by (simp add: subrange_def)
  then show "holds_at io i off as" using assms r by (simp add: holds_at_def)
  have "subrange (as @ bs) (length as + a) n = subrange bs a n" for a n by (simp add: subrange_def)
  then show "holds_at io i (off + length as) bs" using assms r [of "length as + _"] by (simp add: holds_at_def add.assoc)
qed

section \<open>Replay follows the chain\<close>

text \<open>The log after replaying: only the replayed fields change.\<close>

definition replayed_to ::
  "Log \<Rightarrow> nat \<times> nat \<times> nat \<Rightarrow> nat \<Rightarrow> (nat \<Rightarrow> (nat \<times> (Payload \<times> nat) option) option) \<Rightarrow> Log \<Rightarrow> bool" where
  "replayed_to l d load value l' \<longleftrightarrow> (case d of (n, seq, off) \<Rightarrow>
     (\<exists>ix enc cur. l' = l\<lparr>lg_index := ix, lg_published := seq, lg_offset := off, lg_next_batch := n,
        lg_encoded_bytes := enc, lg_compaction_cursor := cur\<rparr>) \<and>
     Intervals_inv (lg_index l') \<and> ii_limit (lg_index l') = ii_limit (lg_index l) \<and>
     length (ii_map (lg_index l')) \<le> length (ii_map (lg_index l)) + 2 * load \<and>
     (\<forall>x r. Intervals_at (lg_index l') x r \<longleftrightarrow>
        (case value x of Some v \<Rightarrow> r = v | None \<Rightarrow> Intervals_at (lg_index l) x r)))"

lemma replayed_to_trans:
  assumes "replayed_to l d load value l'" and "replayed_to l' e load' value' l''"
  shows "replayed_to l e (load + load') (\<lambda>x. case value' x of Some v \<Rightarrow> Some v | None \<Rightarrow> value x) l''"
proof -
  obtain n s o' n' s' o'' where d: "d = (n, s, o')" "e = (n', s', o'')" by (cases d, cases e) blast
  have at: "Intervals_at (lg_index l'') x r \<longleftrightarrow>
    (case (case value' x of Some v \<Rightarrow> Some v | None \<Rightarrow> value x) of Some v \<Rightarrow> r = v | None \<Rightarrow> Intervals_at (lg_index l) x r)" for x r
    using assms unfolding replayed_to_def d by (cases "value' x"; cases "value x") (simp_all del: split_paired_All)
  moreover have "\<exists>ix enc cur. l'' = l\<lparr>lg_index := ix, lg_published := s', lg_offset := o'', lg_next_batch := n',
        lg_encoded_bytes := enc, lg_compaction_cursor := cur\<rparr>"
  proof -
    from assms obtain ix enc cur ix' enc' cur' where l': "l' = l\<lparr>lg_index := ix, lg_published := s, lg_offset := o',
        lg_next_batch := n, lg_encoded_bytes := enc, lg_compaction_cursor := cur\<rparr>"
      and "l'' = l'\<lparr>lg_index := ix', lg_published := s', lg_offset := o'', lg_next_batch := n',
        lg_encoded_bytes := enc', lg_compaction_cursor := cur'\<rparr>"
      unfolding replayed_to_def d prod.case by blast
    then have "l'' = l\<lparr>lg_index := ix', lg_published := s', lg_offset := o'', lg_next_batch := n',
        lg_encoded_bytes := enc', lg_compaction_cursor := cur'\<rparr>" by simp
    then show ?thesis by blast
  qed
  ultimately show ?thesis using assms unfolding replayed_to_def d prod.case
    by (intro conjI allI) (blast, blast, simp, simp, blast)
qed

lemma unat_of_nat_le: "n \<le> u64_max \<Longrightarrow> m \<le> n \<Longrightarrow> unat (word_of_nat m :: u64) = m"
  by (rule unat_of_nat_u64) simp

lemma follows_file:
  assumes f: "Header_follows h seg n seq (word_of_nat off) cap" and "off + 4096 + e_payload_bytes (h_envelope h) \<le> len"
    and "len \<le> u64_max" and "e_payload_bytes (h_envelope h) \<le> 1048576"
  shows "Header_follows h seg n seq (word_of_nat off) (word_of_nat len)"
proof -
  let ?p = "e_payload_bytes (h_envelope h)"
  have o: "unat (word_of_nat off :: u64) = off" using assms(2,3) by (intro unat_of_nat_u64) simp
  have p: "unat (word_of_nat (BLOCK_SIZE + ?p) :: u64) = 4096 + ?p"
    using assms(4) by (intro trans [OF unat_of_nat_u64]) (simp_all add: u64_max_def BLOCK_SIZE_def)
  have sum: "off + (4096 + ?p) < 2 ^ 64" using assms(2,3) by (simp add: u64_max_def)
  then have c: "checked_add (word_of_nat off) (word_of_nat (BLOCK_SIZE + ?p)) = Some (word_of_nat off + word_of_nat (BLOCK_SIZE + ?p) :: u64)"
    by (simp add: checked_add_Some o p del: of_nat_add)
  have "unat (word_of_nat off + word_of_nat (BLOCK_SIZE + ?p) :: u64) = off + 4096 + ?p"
    using sum by (simp add: unat_add_u64 o p del: of_nat_add)
  then have "word_of_nat off + word_of_nat (BLOCK_SIZE + ?p) \<le> (word_of_nat len :: u64)"
    using assms(2,3) by (simp add: word_le_nat_alt unat_of_nat_u64 del: of_nat_add)
  then show ?thesis using f unfolding Header_follows_def Let_def c by simp
qed

lemma replay_batch_ok:
  assumes ok: "batch_ok crc (sg_header segment) (cf_image_bytes (lg_config l)) (n, seq, lg_offset l) w h"
    and app: "\<not> e_fence (h_envelope h)" and split: "replays base h \<longrightarrow> base < unat (e_first (h_envelope h))"
    and inv: "Intervals_inv (lg_index l)" "ii_limit (lg_index l) = lm_intervals (lg_limits l)"
    and room: "replays base h \<longrightarrow> length (ii_map (lg_index l)) + 2 * e_descriptors (h_envelope h) \<le> lm_intervals (lg_limits l)"
    and stored: "holds_at io (sg_id segment) (lg_offset l) (Batch_bytes w)"
  shows "\<exists>ix. replay_batch crc io l segment h base = Inr (Some (l\<lparr>lg_index := ix, lg_published := unat (e_last (h_envelope h))\<rparr>)) \<and>
    Intervals_inv ix \<and> ii_limit ix = ii_limit (lg_index l) \<and>
    length (ii_map ix) \<le> length (ii_map (lg_index l)) + 2 * (if replays base h then e_descriptors (h_envelope h) else 0) \<and>
    (\<forall>x r. Intervals_at ix x r \<longleftrightarrow>
      (case (if replays base h then published_value (sg_id segment) (lg_offset l) (Header_descriptors h) x else None) of
         Some v \<Rightarrow> r = v | None \<Rightarrow> Intervals_at (lg_index l) x r))"
proof (cases "replays base h")
  case False
  then have "replay_batch crc io l segment h base = Inr (Some (l\<lparr>lg_published := unat (e_last (h_envelope h))\<rparr>))"
    using app by (simp add: replay_batch_def replays_def Let_def)
  then show ?thesis using False inv by (intro exI [of _ "lg_index l"]) simp
next
  case True
  let ?e = "h_envelope h" and ?i = "sg_id segment" and ?o = "lg_offset l" and ?B = "Batch_bytes w"
  from ok have dec: "Header_decode crc (take 4096 ?B) (cf_image_bytes (lg_config l)) = Inr h"
    and len: "length ?B = 4096 + e_payload_bytes ?e" and ver: "Header_verify_payload crc h (drop 4096 ?B) = Inr ()"
    by (simp_all add: batch_ok_def)
  have n: "length (Header_descriptors h) = e_descriptors ?e"
    using Header_decode_well_formed(1) [OF dec] by (simp add: batch_well_formed_def)
  have r: "length (ii_map (lg_index l)) + 2 * length (Header_descriptors h) \<le> ii_limit (lg_index l)"
    using room True inv(2) n by simp
  obtain ix where ix: "publish_descriptors ?i ?o (Header_descriptors h) (lg_index l) = Inr ix" "Intervals_inv ix"
    "ii_limit ix = ii_limit (lg_index l)" "length (ii_map ix) \<le> length (ii_map (lg_index l)) + 2 * length (Header_descriptors h)"
    "\<forall>x r. Intervals_at ix x r \<longleftrightarrow> (case published_value ?i ?o (Header_descriptors h) x of Some v \<Rightarrow> r = v | None \<Rightarrow> Intervals_at (lg_index l) x r)"
    using publish_descriptors_spec [OF inv(1) r, of ?i ?o] decoded_descriptor [OF dec] by blast
  have "ri_read io ?i (?o + 4096) (e_payload_bytes ?e) = Inr (drop 4096 ?B)"
    using stored len by (simp add: holds_at_def subrange_def)
  then have "replay_batch crc io l segment h base = Inr (Some (l\<lparr>lg_index := ix, lg_published := unat (e_last ?e)\<rparr>))"
    using True split room ver stored ix(1)
    by (simp add: replay_batch_def replays_def Let_def holds_at_def BLOCK_SIZE_def Log_publish_def not_le)
      (blast intro: TrueI)
  then show ?thesis using ix(2-5) n True by (intro exI [of _ ix]) (simp del: split_paired_All)
qed

lemma replay_one_step:
  assumes ok: "batch_ok crc (sg_header segment) (cf_image_bytes (lg_config l)) (lg_next_batch l, lg_published l, lg_offset l) w h"
    and n: "lg_next_batch l < u64_max" and split: "replays base h \<longrightarrow> base < unat (e_first (h_envelope h))"
    and inv: "Intervals_inv (lg_index l)" "ii_limit (lg_index l) = lm_intervals (lg_limits l)"
    and room: "replays base h \<longrightarrow> length (ii_map (lg_index l)) + 2 * e_descriptors (h_envelope h) \<le> lm_intervals (lg_limits l)"
    and stored: "holds_at io (sg_id segment) (lg_offset l) (Batch_bytes w)"
    and len: "lg_offset l + length (Batch_bytes w) \<le> len" "len \<le> u64_max"
  shows "\<exists>l'. Log_replay_one crc io l segment len base = Inr (l', True) \<and>
    replayed_to l (boundary_after (lg_next_batch l, lg_published l, lg_offset l) h)
      (if replays base h then e_descriptors (h_envelope h) else 0)
      (\<lambda>x. if replays base h then published_value (sg_id segment) (lg_offset l) (Header_descriptors h) x else None) l'"
proof -
  let ?e = "h_envelope h" and ?i = "sg_id segment" and ?o = "lg_offset l" and ?B = "Batch_bytes w"
  let ?d = "if replays base h then e_descriptors ?e else 0"
    and ?v = "\<lambda>x. if replays base h then published_value ?i ?o (Header_descriptors h) x else None"
  from ok have dec: "Header_decode crc (take 4096 ?B) (cf_image_bytes (lg_config l)) = Inr h"
    and lenB: "length ?B = 4096 + e_payload_bytes ?e"
    and fol: "Header_follows h (sg_header segment) (word_of_nat (lg_next_batch l)) (word_of_nat (lg_published l))
       (word_of_nat ?o) (sh_capacity (sg_header segment))"
    by (simp_all add: batch_ok_def)
  have small: "e_payload_bytes ?e \<le> 1048576"
    using dec by (auto simp: Header_decode_def Let_def MAX_REQUEST_BYTES_def)
  have rd: "ri_read io ?i ?o 4096 = Inr (take 4096 ?B)"
    using stored lenB unfolding holds_at_def by (auto simp: subrange_def dest: spec [of _ 0] spec [of _ 4096])
  have fol': "Header_follows h (sg_header segment) (word_of_nat (lg_next_batch l)) (word_of_nat (lg_published l))
       (word_of_nat ?o) (word_of_nat len)"
    by (rule follows_file [OF fol _ len(2) small]) (use len(1) lenB in simp)
  have "\<exists>ix seq. (if e_fence ?e then Inr (Some l) else replay_batch crc io l segment h base) =
      Inr (Some (l\<lparr>lg_index := ix, lg_published := seq\<rparr>)) \<and> seq = (if e_fence ?e then lg_published l else unat (e_last ?e)) \<and>
      Intervals_inv ix \<and> ii_limit ix = ii_limit (lg_index l) \<and> length (ii_map ix) \<le> length (ii_map (lg_index l)) + 2 * ?d \<and>
      (\<forall>x r. Intervals_at ix x r \<longleftrightarrow> (case ?v x of Some v \<Rightarrow> r = v | None \<Rightarrow> Intervals_at (lg_index l) x r))"
  proof (cases "e_fence ?e")
    case True
    then have "\<not> replays base h" by (simp add: replays_def)
    then show ?thesis using True inv by (intro exI [of _ "lg_index l"] exI [of _ "lg_published l"]) simp
  next
    case False
    then show ?thesis using replay_batch_ok [OF ok False split inv room stored] by (simp del: split_paired_All)
  qed
  then obtain ix seq where st: "(if e_fence ?e then Inr (Some l) else replay_batch crc io l segment h base) =
      Inr (Some (l\<lparr>lg_index := ix, lg_published := seq\<rparr>))" "seq = (if e_fence ?e then lg_published l else unat (e_last ?e))"
      "Intervals_inv ix" "ii_limit ix = ii_limit (lg_index l)" "length (ii_map ix) \<le> length (ii_map (lg_index l)) + 2 * ?d"
      "\<forall>x r. Intervals_at ix x r \<longleftrightarrow> (case ?v x of Some v \<Rightarrow> r = v | None \<Rightarrow> Intervals_at (lg_index l) x r)" by blast
  let ?l1 = "l\<lparr>lg_index := ix, lg_published := seq\<rparr>" and ?n = "4096 + e_payload_bytes ?e"
  let ?enc = "wrapping_add (lg_encoded_bytes l) ?n"
    and ?cur = "if seq = base then Some \<lparr>sp_segment = sh_number (sg_header segment), sp_offset = ?o + ?n,
      sp_batch = lg_next_batch l + 1, sp_sequence = base\<rparr> else lg_compaction_cursor l"
  let ?l = "l\<lparr>lg_index := ix, lg_published := seq, lg_offset := ?o + ?n,
      lg_next_batch := lg_next_batch l + 1, lg_encoded_bytes := ?enc, lg_compaction_cursor := ?cur\<rparr>"
  have adv: "replay_advance ?l1 segment ?n base = Inr ?l"
    using n by (simp add: replay_advance_def nchecked_add_def Let_def)
  have "Log_replay_one crc io l segment len base = Inr (?l, True)"
    using rd stored dec fol' st(1) adv len(1) lenB
    unfolding Log_replay_one_def Let_def BLOCK_SIZE_def by (simp add: holds_at_def)
  moreover have "replayed_to l (boundary_after (lg_next_batch l, lg_published l, ?o) h) ?d ?v ?l"
    unfolding replayed_to_def boundary_after_def prod.case
  proof (intro conjI)
    show "\<exists>ix' enc' cur'. ?l = l\<lparr>lg_index := ix', lg_published := if e_fence ?e then lg_published l else unat (e_last ?e),
      lg_offset := ?o + 4096 + e_payload_bytes ?e, lg_next_batch := lg_next_batch l + 1, lg_encoded_bytes := enc', lg_compaction_cursor := cur'\<rparr>"
      unfolding st(2) [symmetric] by (intro exI [of _ ix] exI [of _ ?enc] exI [of _ ?cur]) (simp add: add.assoc)
  qed (use st(3-6) in \<open>simp_all del: split_paired_All\<close>)
  ultimately show ?thesis by blast
qed

lemma chain_offset: "chain crc seg img c ws d \<Longrightarrow> snd (snd d) = snd (snd c) + length (concat (map Batch_bytes ws))"
  by (induction rule: chain.induct) (auto simp: boundary_after_def batch_ok_def split: prod.splits)

text \<open>Sequences only grow along a chain.\<close>

lemma batch_ok_sequence:
  assumes "batch_ok crc seg img (n, seq, off) w h" and "seq \<le> u64_max"
  shows "seq \<le> fst (snd (boundary_after (n, seq, off) h)) \<and> fst (snd (boundary_after (n, seq, off) h)) \<le> u64_max"
proof (cases "e_fence (h_envelope h)")
  case False
  have "checked_add (word_of_nat seq) 1 = Some (e_first (h_envelope h))"
    using assms(1) False by (simp add: batch_ok_def Header_follows_def Let_def)
  then have "unat (e_first (h_envelope h)) = seq + 1"
    using unat_of_nat_u64 [OF assms(2)] by (auto dest: checked_add_unat)
  moreover have dec: "Header_decode crc (take 4096 (Batch_bytes w)) img = Inr h" using assms(1) by (simp add: batch_ok_def)
  ultimately show ?thesis using decoded_append [OF dec False] False u64_nat [of "e_last (h_envelope h)"]
    by (simp add: boundary_after_def del: u64_nat)
qed (use assms(2) in \<open>simp add: boundary_after_def\<close>)

lemma chain_sequence:
  "chain crc seg img c ws d \<Longrightarrow> fst (snd c) \<le> u64_max \<Longrightarrow> fst (snd c) \<le> fst (snd d) \<and> fst (snd d) \<le> u64_max"
proof (induction rule: chain.induct)
  case (chain_cons c w h ws d)
  obtain n seq off where c: "c = (n, seq, off)" by (cases c)
  from batch_ok_sequence [OF chain_cons.hyps(1) [unfolded c]] chain_cons.prems chain_cons.IH show ?case by (auto simp: c)
qed simp

lemma chain_number: "chain crc seg img c ws d \<Longrightarrow> fst d = fst c + length ws"
  by (induction rule: chain.induct) (auto simp: boundary_after_def split: prod.splits)

lemma replayed_to_refl:
  "Intervals_inv (lg_index l) \<Longrightarrow> replayed_to l (lg_next_batch l, lg_published l, lg_offset l) 0 (\<lambda>_. None) l"
  unfolding replayed_to_def prod.case
  by (intro conjI exI [of _ "lg_index l"] exI [of _ "lg_encoded_bytes l"] exI [of _ "lg_compaction_cursor l"]) simp_all

lemma replayed_to_fields:
  assumes "replayed_to l d load value l'"
  shows "lg_config l' = lg_config l" and "lg_limits l' = lg_limits l" and "lg_segments l' = lg_segments l"
    and "d = (lg_next_batch l', lg_published l', lg_offset l')" and "Intervals_inv (lg_index l')"
    and "ii_limit (lg_index l') = ii_limit (lg_index l)"
    and "length (ii_map (lg_index l')) \<le> length (ii_map (lg_index l)) + 2 * load"
    and "Intervals_at (lg_index l') x r \<longleftrightarrow> (case value x of Some v \<Rightarrow> r = v | None \<Rightarrow> Intervals_at (lg_index l) x r)"
  using assms by (cases d; auto simp: replayed_to_def simp del: split_paired_All)+

lemma scan_chain:
  assumes "chain crc (sg_header segment) img c ws d" and "img = cf_image_bytes (lg_config l)"
    and "c = (lg_next_batch l, lg_published l, lg_offset l)"
    and "Intervals_inv (lg_index l)" and "ii_limit (lg_index l) = lm_intervals (lg_limits l)"
    and "length (ii_map (lg_index l)) + 2 * chain_load crc img base ws \<le> lm_intervals (lg_limits l)"
    and "unsplit crc img base ws" and "holds_at io (sg_id segment) (lg_offset l) (concat (map Batch_bytes ws))"
    and "snd (snd d) \<le> len" and "len \<le> u64_max"
  shows "\<exists>l'. scan_segment crc io segment len base l = scan_segment crc io segment len base l' \<and>
    replayed_to l d (chain_load crc img base ws) (chain_value crc img base (sg_id segment) (lg_offset l) ws) l'"
  using assms(1-9)
proof (induction arbitrary: l rule: chain.induct)
  case (chain_nil c)
  have "chain_value crc img base i off [] = (\<lambda>_. None)" for i off by (simp add: fun_eq_iff)
  then show ?case using replayed_to_refl [OF chain_nil.prems(3)] chain_nil.prems(2) by auto
next
  case (chain_cons c w h ws d)
  let ?i = "sg_id segment" and ?o = "lg_offset l" and ?d = "if replays base h then e_descriptors (h_envelope h) else 0"
  let ?v = "\<lambda>x. if replays base h then published_value ?i ?o (Header_descriptors h) x else None"
  note ok = chain_cons.hyps(1) [unfolded chain_cons.prems(1,2)]
  have dec: "Header_decode crc (take 4096 (Batch_bytes w)) img = Inr h"
    and len: "length (Batch_bytes w) = 4096 + e_payload_bytes (h_envelope h)"
    using chain_cons.hyps(1) by (simp_all add: batch_ok_def split: prod.splits)
  have st: "holds_at io ?i ?o (Batch_bytes w)" "holds_at io ?i (?o + length (Batch_bytes w)) (concat (map Batch_bytes ws))"
    using holds_at_append [of io ?i ?o "Batch_bytes w"] chain_cons.prems(7) by simp_all
  have fit: "?o + length (Batch_bytes w) \<le> len"
    using chain_offset [OF chain_cons.hyps(3)] chain_cons.prems(2,8) by (simp add: boundary_after_def len)
  have n: "lg_next_batch l < u64_max" using chain_cons.hyps(2) chain_cons.prems(2) by simp
  have sp: "replays base h \<longrightarrow> base < unat (e_first (h_envelope h))" using chain_cons.prems(6) by (simp add: dec)
  have rm: "replays base h \<longrightarrow> length (ii_map (lg_index l)) + 2 * e_descriptors (h_envelope h) \<le> lm_intervals (lg_limits l)"
    using chain_cons.prems(5) by (auto simp: dec)
  obtain l1 where l1: "Log_replay_one crc io l segment len base = Inr (l1, True)"
    "replayed_to l (boundary_after c h) ?d ?v l1"
    using replay_one_step [OF ok n sp chain_cons.prems(3,4) rm st(1) fit assms(10)] chain_cons.prems(2) by blast
  note f = replayed_to_fields [OF l1(2)]
  have lo: "lg_offset l1 = ?o + length (Batch_bytes w)"
    using f(4) chain_cons.prems(2) by (simp add: boundary_after_def len)
  have "\<exists>l'. scan_segment crc io segment len base l1 = scan_segment crc io segment len base l' \<and>
    replayed_to l1 d (chain_load crc img base ws) (chain_value crc img base ?i (lg_offset l1) ws) l'"
  proof (rule chain_cons.IH)
    have "length (ii_map (lg_index l)) + 2 * (?d + chain_load crc img base ws) \<le> lm_intervals (lg_limits l)"
      using chain_cons.prems(5) by (simp add: dec)
    then show "length (ii_map (lg_index l1)) + 2 * chain_load crc img base ws \<le> lm_intervals (lg_limits l1)"
      using f(7) unfolding f(2) by (cases "replays base h") simp_all
  qed (use chain_cons.prems f(1,2,4,5,6) st(2) lo in simp_all)
  then obtain l' where l': "scan_segment crc io segment len base l1 = scan_segment crc io segment len base l'"
    "replayed_to l1 d (chain_load crc img base ws) (chain_value crc img base ?i (lg_offset l1) ws) l'" by blast
  have "lg_offset l < len" using fit len by simp
  then have "scan_segment crc io segment len base l = scan_segment crc io segment len base l1"
    by (subst scan_segment.simps) (simp add: l1(1))
  moreover have "(\<lambda>x. case chain_value crc img base ?i (lg_offset l1) ws x of Some v \<Rightarrow> Some v | None \<Rightarrow> ?v x) =
      chain_value crc img base ?i ?o (w # ws)"
    by (simp add: fun_eq_iff dec lo split: option.splits)
  moreover have "chain_load crc img base (w # ws) = ?d + chain_load crc img base ws" by (simp add: dec)
  ultimately show ?case using replayed_to_trans [OF l1(2) l'(2)] l'(1) by metis
qed

section \<open>Inspection of a whole log\<close>

text \<open>A sequence of segments with their batches, each starting where the one before ends.\<close>

inductive segs_chain :: "(bytes \<Rightarrow> u32) \<Rightarrow> LogConfig \<Rightarrow> nat \<Rightarrow> u64 \<Rightarrow> (SegmentHeader \<times> Batch list) list \<Rightarrow> nat \<Rightarrow> bool"
  for crc config where
  segs_nil: "segs_chain crc config seq ep [] seq"
| segs_cons: "Config_matches config h \<Longrightarrow> SegmentHeader_validate h = Inr () \<Longrightarrow> SegmentHeader_typed h \<Longrightarrow>
    unat (sh_preceding_sequence h) = seq \<Longrightarrow> ep \<le> sh_epoch h \<Longrightarrow>
    chain crc h (cf_image_bytes config) (1, seq, 4096) ws (n, seq', off) \<Longrightarrow>
    segs_chain crc config seq' (sh_epoch h) segs e \<Longrightarrow> segs_chain crc config seq ep ((h, ws) # segs) e"

inductive_cases segs_consE: "segs_chain crc config seq ep ((h, ws) # segs) e"
inductive_cases segs_nilE: "segs_chain crc config seq ep [] e"

fun segs_value ::
  "(bytes \<Rightarrow> u32) \<Rightarrow> u64 \<Rightarrow> nat \<Rightarrow> nat \<Rightarrow> (SegmentHeader \<times> Batch list) list \<Rightarrow> nat \<Rightarrow> (nat \<times> (Payload \<times> nat) option) option" where
  "segs_value crc img base i [] x = None"
| "segs_value crc img base i ((h, ws) # segs) x = (case segs_value crc img base (i + 1) segs x of
      Some v \<Rightarrow> Some v | None \<Rightarrow> chain_value crc img base i 4096 ws x)"

definition segs_load :: "(bytes \<Rightarrow> u32) \<Rightarrow> u64 \<Rightarrow> nat \<Rightarrow> (SegmentHeader \<times> Batch list) list \<Rightarrow> nat" where
  "segs_load crc img base segs = sum_list (map (\<lambda>(h, ws). chain_load crc img base ws) segs)"

text \<open>The file of one segment: its header, its batches and whatever follows them.\<close>

definition segment_file :: "(bytes \<Rightarrow> u32) \<Rightarrow> RecoveryIo \<Rightarrow> nat \<Rightarrow> SegmentHeader \<Rightarrow> Batch list \<Rightarrow> bytes \<Rightarrow> bool" where
  "segment_file crc io i h ws tail \<longleftrightarrow>
     ri_query io i = Inr () \<and> ri_pins io i \<and> (\<exists>a. ri_allocated io i = Inr a) \<and>
     ri_length io i = Inr (4096 + length (concat (map Batch_bytes ws)) + length tail) \<and>
     4096 + length (concat (map Batch_bytes ws)) + length tail \<le> u64_max \<and>
     holds_at io i 0 (SegmentHeader_fill crc h @ concat (map Batch_bytes ws) @ tail)"

text \<open>
  Bytes after a boundary that are no further batch of the log: too few for a header, or with a damaged header, or with
  a header that does not continue the log here (its payload is cut short, or it was left by something else), or with an
  intact header over a payload whose checksums fail. Anything may follow them.
\<close>

definition torn :: "(bytes \<Rightarrow> u32) \<Rightarrow> SegmentHeader \<Rightarrow> u64 \<Rightarrow> nat \<times> nat \<times> nat \<Rightarrow> bytes \<Rightarrow> bool" where
  "torn crc seg img c tail \<longleftrightarrow> (case c of (n, seq, off) \<Rightarrow>
     length tail < 4096 \<or>
     (case Header_decode crc (take 4096 tail) img of
        Inl _ \<Rightarrow> True
      | Inr h \<Rightarrow>
          \<not> Header_follows h seg (word_of_nat n) (word_of_nat seq) (word_of_nat off) (word_of_nat (off + length tail)) \<or>
          \<not> e_fence (h_envelope h) \<and> e_payload_bytes (h_envelope h) \<noteq> 0 \<and>
          Header_verify_payload crc h (subrange tail 4096 (e_payload_bytes (h_envelope h))) \<noteq> Inr ()))"

text \<open>The index room that the scan asks for on sight of a header, before it has seen the payload.\<close>

definition torn_load :: "(bytes \<Rightarrow> u32) \<Rightarrow> u64 \<Rightarrow> bytes \<Rightarrow> nat" where
  "torn_load crc img tail = (case Header_decode crc (take 4096 tail) img of Inl _ \<Rightarrow> 0 | Inr h \<Rightarrow> e_descriptors (h_envelope h))"

text \<open>The boundary after the last batch of the last segment, where the sequence is \<open>e\<close>.\<close>

definition segs_torn :: "(bytes \<Rightarrow> u32) \<Rightarrow> u64 \<Rightarrow> (SegmentHeader \<times> Batch list) list \<Rightarrow> nat \<Rightarrow> bytes \<Rightarrow> bool" where
  "segs_torn crc img segs e tail \<longleftrightarrow> segs \<noteq> [] \<longrightarrow> (case List.last segs of (h, ws) \<Rightarrow>
     torn crc h img (1 + length ws, e, 4096 + length (concat (map Batch_bytes ws))) tail)"

lemma torn_load_Nil: "torn_load crc img [] = 0"
  by (simp add: torn_load_def Header_decode_def BLOCK_SIZE_def ensure_def)

lemma torn_Nil [simp]: "torn crc seg img c []"
  by (simp add: torn_def split: prod.split)

fun log_files :: "(bytes \<Rightarrow> u32) \<Rightarrow> RecoveryIo \<Rightarrow> nat \<Rightarrow> (SegmentHeader \<times> Batch list) list \<Rightarrow> bytes \<Rightarrow> bool" where
  "log_files crc io i [] tail \<longleftrightarrow> True"
| "log_files crc io i ((h, ws) # segs) tail \<longleftrightarrow>
     segment_file crc io i h ws (if segs = [] then tail else []) \<and> log_files crc io (i + 1) segs tail"

lemma Segment_open_file:
  assumes f: "segment_file crc io i h ws tail" and "SegmentHeader_typed h" and "SegmentHeader_validate h = Inr ()"
    and "unat (sh_capacity h) < 2 ^ 44"
  shows "\<exists>len. Segment_open crc io i (sh_number h) = Inr \<lparr>sg_id = i, sg_header = h, sg_end = len\<rparr>"
proof -
  have len: "length (SegmentHeader_fill crc h) = 4096" by (rule SegmentHeader_fill_layout(1) [OF assms(2)])
  have "holds_at io i 0 (SegmentHeader_fill crc h)" using f holds_at_append(1) unfolding segment_file_def by blast
  then have "ri_read io i 0 4096 = Inr (SegmentHeader_fill crc h)" and b: "ri_buffer io i 0 = Inr ()"
    using len unfolding holds_at_def by (auto simp: subrange_def dest: spec [of _ 0] spec [of _ 4096])
  moreover have "\<exists>p. Pins_new True (unat (sh_capacity h)) = Inr p"
    using assms(4) by (simp add: Pins_new_def Let_def BLOCK_SIZE_def div_less_iff_less_mult)
  ultimately show ?thesis
    using f SegmentHeader_decode_fill [OF assms(2,3), of crc] by (auto simp: Segment_open_def segment_file_def BLOCK_SIZE_def)
qed

lemma follows_first:
  assumes "Header_follows h seg n (word_of_nat seq) off len" and "\<not> e_fence (h_envelope h)" and "seq \<le> u64_max"
  shows "unat (e_first (h_envelope h)) = seq + 1"
  using assms unat_of_nat_u64 [OF assms(3)] by (auto simp: Header_follows_def Let_def dest: checked_add_unat)

lemma follows_length:
  assumes "Header_follows h seg n seq (word_of_nat off) (word_of_nat len)" and "off \<le> len" and "len \<le> u64_max"
    and "e_payload_bytes (h_envelope h) \<le> 1048576"
  shows "off + 4096 + e_payload_bytes (h_envelope h) \<le> len"
proof -
  let ?n = "word_of_nat (BLOCK_SIZE + e_payload_bytes (h_envelope h)) :: u64"
  obtain after where a: "checked_add (word_of_nat off) ?n = Some after" "after \<le> word_of_nat len"
    using assms(1) by (auto simp: Header_follows_def Let_def split: option.splits)
  have "unat ?n = 4096 + e_payload_bytes (h_envelope h)"
    using assms(4) unat_of_nat_u64 [of "BLOCK_SIZE + e_payload_bytes (h_envelope h)"] by (simp add: BLOCK_SIZE_def u64_max_def)
  moreover have "unat (word_of_nat off :: u64) = off" "unat (word_of_nat len :: u64) = len"
    using assms(2,3) by (intro unat_of_nat_u64; simp)+
  ultimately show ?thesis using a checked_add_unat [OF a(1)] by (simp add: word_le_nat_alt)
qed

text \<open>A damaged payload is rejected, provided that the index has the room its header asks for.\<close>

lemma replay_batch_damaged:
  assumes "Header_decode crc (take 4096 tail) (cf_image_bytes (lg_config l)) = Inr h" and nf: "\<not> e_fence (h_envelope h)"
    and fol: "Header_follows h (sg_header segment) n (word_of_nat (lg_published l)) (word_of_nat (lg_offset l)) (word_of_nat (lg_offset l + length tail))"
    and bad: "e_payload_bytes (h_envelope h) \<noteq> 0" "Header_verify_payload crc h (subrange tail 4096 (e_payload_bytes (h_envelope h))) \<noteq> Inr ()"
    and st: "holds_at io (sg_id segment) (lg_offset l) tail" "lg_offset l + length tail \<le> u64_max"
    and base: "base \<le> lg_published l" "lg_published l \<le> u64_max"
    and room: "length (ii_map (lg_index l)) + 2 * e_descriptors (h_envelope h) \<le> lm_intervals (lg_limits l)"
  shows "replay_batch crc io l segment h base = Inr None"
proof -
  let ?e = "h_envelope h"
  have "e_payload_bytes ?e \<le> 1048576" using assms(1) by (auto simp: Header_decode_def Let_def MAX_REQUEST_BYTES_def)
  then have "4096 + e_payload_bytes ?e \<le> length tail" using follows_length [OF fol _ st(2)] by simp
  then have rd: "ri_read io (sg_id segment) (lg_offset l + 4096) (e_payload_bytes ?e) = Inr (subrange tail 4096 (e_payload_bytes ?e))"
    using st(1) unfolding holds_at_def by blast
  have "base < unat (e_first ?e)" using follows_first [OF fol nf base(2)] base(1) by simp
  moreover have "unat (e_first ?e) \<le> unat (e_last ?e)" using decoded_append [OF assms(1) nf] by simp
  ultimately show ?thesis
    using rd room bad st(1) by (simp add: replay_batch_def Let_def BLOCK_SIZE_def holds_at_def)
qed

lemma scan_torn:
  assumes to: "torn crc (sg_header segment) (cf_image_bytes (lg_config l)) (lg_next_batch l, lg_published l, lg_offset l) tail"
    and st: "holds_at io (sg_id segment) (lg_offset l) tail" "lg_offset l + length tail \<le> u64_max"
    and base: "tail = [] \<or> base \<le> lg_published l" "lg_published l \<le> u64_max"
    and room: "length (ii_map (lg_index l)) + 2 * torn_load crc (cf_image_bytes (lg_config l)) tail \<le> lm_intervals (lg_limits l)"
  shows "scan_segment crc io segment (lg_offset l + length tail) base l = Inr (l, tail \<noteq> [])"
proof (cases "tail = []")
  case True
  then show ?thesis by (subst scan_segment.simps) simp
next
  case False
  have "Log_replay_one crc io l segment (lg_offset l + length tail) base = Inr (l, False)"
  proof (cases "length tail < 4096")
    case True
    then show ?thesis by (simp add: Log_replay_one_def Let_def BLOCK_SIZE_def)
  next
    case long: False
    then have rd: "ri_read io (sg_id segment) (lg_offset l) 4096 = Inr (take 4096 tail)"
      using st(1) unfolding holds_at_def by (auto simp: subrange_def dest: spec [of _ 0] spec [of _ 4096])
    show ?thesis
    proof (cases "Header_decode crc (take 4096 tail) (cf_image_bytes (lg_config l))")
      case (Inl e)
      then show ?thesis using rd st long by (simp add: Log_replay_one_def Let_def BLOCK_SIZE_def holds_at_def)
    next
      case (Inr h)
      show ?thesis
      proof (cases "Header_follows h (sg_header segment) (word_of_nat (lg_next_batch l)) (word_of_nat (lg_published l))
          (word_of_nat (lg_offset l)) (word_of_nat (lg_offset l + length tail))")
        case fol: True
        then have bad: "\<not> e_fence (h_envelope h)" "e_payload_bytes (h_envelope h) \<noteq> 0"
          "Header_verify_payload crc h (subrange tail 4096 (e_payload_bytes (h_envelope h))) \<noteq> Inr ()"
          using to long Inr by (simp_all add: torn_def del: of_nat_add)
        have "replay_batch crc io l segment h base = Inr None"
          using replay_batch_damaged [OF Inr bad(1) fol bad(2,3) st _ base(2)] base(1) False room Inr by (simp add: torn_load_def)
        then show ?thesis using rd st long Inr fol bad(1) by (simp add: Log_replay_one_def Let_def BLOCK_SIZE_def holds_at_def)
      qed (use rd st long Inr in \<open>simp add: Log_replay_one_def Let_def BLOCK_SIZE_def holds_at_def\<close>)
    qed
  qed
  then show ?thesis using False by (subst scan_segment.simps) simp
qed

text \<open>One segment of the inspection.\<close>

lemma scan_segment_file:
  assumes ch: "chain crc h (cf_image_bytes (lg_config l)) (1, lg_published l, 4096) ws (n, seq', off)"
    and f: "segment_file crc io i h ws tail" and ty: "SegmentHeader_typed h"
    and to: "torn crc h (cf_image_bytes (lg_config l)) (n, seq', off) tail" "tail = [] \<or> base \<le> seq'" "seq' \<le> u64_max"
    and inv: "Intervals_inv (lg_index l)" "ii_limit (lg_index l) = lm_intervals (lg_limits l)"
    and room: "length (ii_map (lg_index l)) + 2 * (chain_load crc (cf_image_bytes (lg_config l)) base ws +
        torn_load crc (cf_image_bytes (lg_config l)) tail) \<le> lm_intervals (lg_limits l)"
    and sp: "unsplit crc (cf_image_bytes (lg_config l)) base ws" and seg: "sg_id segment = i" "sg_header segment = h"
  shows "\<exists>l' len. ri_length io i = Inr len \<and>
    scan_segment crc io segment len base (attach_segment l segment a) = Inr (l', tail \<noteq> []) \<and>
    replayed_to (attach_segment l segment a) (n, seq', off) (chain_load crc (cf_image_bytes (lg_config l)) base ws)
      (chain_value crc (cf_image_bytes (lg_config l)) base i 4096 ws) l'"
proof -
  let ?l = "attach_segment l segment a" and ?B = "concat (map Batch_bytes ws)"
  have al: "lg_config ?l = lg_config l" "lg_published ?l = lg_published l" "lg_offset ?l = 4096" "lg_next_batch ?l = 1"
    "lg_index ?l = lg_index l" "lg_limits ?l = lg_limits l" by (simp_all add: attach_segment_def BLOCK_SIZE_def)
  have len: "length (SegmentHeader_fill crc h) = 4096" by (rule SegmentHeader_fill_layout(1) [OF ty])
  have h0: "holds_at io i 4096 (?B @ tail)" using f holds_at_append(2) len unfolding segment_file_def by fastforce
  note hb = holds_at_append [OF h0]
  have o: "off = 4096 + length ?B" using chain_offset [OF ch] by simp
  let ?len = "off + length tail"
  have lf: "ri_length io i = Inr ?len" "?len \<le> u64_max" using f o by (simp_all add: segment_file_def)
  obtain l' where l': "scan_segment crc io segment ?len base ?l = scan_segment crc io segment ?len base l'"
    "replayed_to ?l (n, seq', off) (chain_load crc (cf_image_bytes (lg_config l)) base ws)
       (chain_value crc (cf_image_bytes (lg_config l)) base (sg_id segment) (lg_offset ?l) ws) l'"
    using scan_chain [where segment = segment and l = ?l and len = ?len and io = io and base = base, OF ch [folded seg(2)]] al inv room sp hb(1) lf(2) seg
    by auto
  note r = replayed_to_fields [OF l'(2)]
  have "scan_segment crc io segment ?len base l' = Inr (l', tail \<noteq> [])"
    using scan_torn [of crc segment l' tail io base] to hb(2) r al o seg lf(2) room by simp
  then show ?thesis using l' lf al seg by auto
qed

text \<open>The log after inspection: what was replayed, and nothing pending.\<close>

definition inspected_to :: "Log \<Rightarrow> nat \<Rightarrow> nat \<Rightarrow> (nat \<Rightarrow> (nat \<times> (Payload \<times> nat) option) option) \<Rightarrow> Log \<Rightarrow> bool" where
  "inspected_to l e load value l' \<longleftrightarrow>
     (\<exists>ix off n enc al cur segs. l' = l\<lparr>lg_index := ix, lg_published := e, lg_offset := off, lg_next_batch := n,
        lg_encoded_bytes := enc, lg_allocated_bytes := al, lg_compaction_cursor := cur, lg_segments := segs\<rparr>) \<and>
     Intervals_inv (lg_index l') \<and> ii_limit (lg_index l') = ii_limit (lg_index l) \<and>
     length (ii_map (lg_index l')) \<le> length (ii_map (lg_index l)) + 2 * load \<and>
     (\<forall>x r. Intervals_at (lg_index l') x r \<longleftrightarrow> (case value x of Some v \<Rightarrow> r = v | None \<Rightarrow> Intervals_at (lg_index l) x r))"

lemma inspected_to_fields:
  assumes "inspected_to l e load value l'"
  shows "lg_config l' = lg_config l" and "lg_limits l' = lg_limits l" and "lg_published l' = e" and "Intervals_inv (lg_index l')"
    and "ii_limit (lg_index l') = ii_limit (lg_index l)"
    and "length (ii_map (lg_index l')) \<le> length (ii_map (lg_index l)) + 2 * load"
    and "Intervals_at (lg_index l') x r \<longleftrightarrow> (case value x of Some v \<Rightarrow> r = v | None \<Rightarrow> Intervals_at (lg_index l) x r)"
    and "lg_failed l' = lg_failed l" and "lg_cohort l' = lg_cohort l" and "lg_rotating l' = lg_rotating l"
    and "lg_pending_descriptors l' = lg_pending_descriptors l" and "lg_durable l' = lg_durable l" and "lg_fenced l' = lg_fenced l"
  using assms by (auto simp: inspected_to_def simp del: split_paired_All)

lemma inspected_to_trans:
  assumes a: "inspected_to l d load value l'" and b: "inspected_to l' e load' value' l''"
  shows "inspected_to l e (load + load') (\<lambda>x. case value' x of Some v \<Rightarrow> Some v | None \<Rightarrow> value x) l''"
proof -
  note f = inspected_to_fields [OF a] inspected_to_fields [OF b]
  obtain ix off n enc al cur segs where l': "l' = l\<lparr>lg_index := ix, lg_published := d, lg_offset := off, lg_next_batch := n,
        lg_encoded_bytes := enc, lg_allocated_bytes := al, lg_compaction_cursor := cur, lg_segments := segs\<rparr>"
    using a unfolding inspected_to_def by blast
  obtain ix' off' n' enc' al' cur' segs' where "l'' = l'\<lparr>lg_index := ix', lg_published := e, lg_offset := off', lg_next_batch := n',
        lg_encoded_bytes := enc', lg_allocated_bytes := al', lg_compaction_cursor := cur', lg_segments := segs'\<rparr>"
    using b unfolding inspected_to_def by blast
  then have "l'' = l\<lparr>lg_index := ix', lg_published := e, lg_offset := off', lg_next_batch := n',
        lg_encoded_bytes := enc', lg_allocated_bytes := al', lg_compaction_cursor := cur', lg_segments := segs'\<rparr>"
    unfolding l' by simp
  moreover have "Intervals_at (lg_index l'') x r \<longleftrightarrow>
    (case (case value' x of Some v \<Rightarrow> Some v | None \<Rightarrow> value x) of Some v \<Rightarrow> r = v | None \<Rightarrow> Intervals_at (lg_index l) x r)" for x r
    using f(7,20) by (cases "value' x"; cases "value x") simp_all
  ultimately show ?thesis
    using f(4-6) f(17-19) unfolding inspected_to_def by (intro conjI allI) (blast, simp_all)
qed

lemma replayed_inspected:
  assumes "replayed_to (attach_segment l segment a) (n, e, off) load value l1"
  shows "inspected_to l e load value (l1\<lparr>lg_segments := segs\<rparr>)"
proof -
  note r = replayed_to_fields [OF assms]
  obtain ix enc cur where "l1 = (attach_segment l segment a)\<lparr>lg_index := ix, lg_published := e, lg_offset := off,
      lg_next_batch := n, lg_encoded_bytes := enc, lg_compaction_cursor := cur\<rparr>"
    using assms unfolding replayed_to_def prod.case by blast
  then have "l1\<lparr>lg_segments := segs\<rparr> = l\<lparr>lg_index := ix, lg_published := e, lg_offset := off, lg_next_batch := n,
        lg_encoded_bytes := enc, lg_allocated_bytes := wrapping_add (lg_allocated_bytes l) a, lg_compaction_cursor := cur, lg_segments := segs\<rparr>"
    by (simp add: attach_segment_def)
  then have "\<exists>ix off n enc al cur segs'. l1\<lparr>lg_segments := segs\<rparr> = l\<lparr>lg_index := ix, lg_published := e, lg_offset := off,
      lg_next_batch := n, lg_encoded_bytes := enc, lg_allocated_bytes := al, lg_compaction_cursor := cur, lg_segments := segs'\<rparr>"
    by blast
  moreover have at: "lg_index (attach_segment l segment a) = lg_index l" by (simp add: attach_segment_def)
  ultimately show ?thesis
    using r(5-8) unfolding inspected_to_def at by (simp del: split_paired_All)
qed

lemma inspect_chain:
  assumes "segs_chain crc config seq ep segs e" and "seq = lg_published l" and "config = lg_config l"
    and "log_files crc io i segs tail" and "segs_torn crc (cf_image_bytes config) segs e tail \<and> base \<le> e"
    and "Intervals_inv (lg_index l)" and "ii_limit (lg_index l) = lm_intervals (lg_limits l)"
    and "length (ii_map (lg_index l)) + 2 * (segs_load crc (cf_image_bytes config) base segs + torn_load crc (cf_image_bytes config) tail)
      \<le> lm_intervals (lg_limits l)"
    and "\<forall>(h, ws) \<in> set segs. unsplit crc (cf_image_bytes config) base ws" and "unat (cf_segment_bytes config) < 2 ^ 44"
    and "lg_segments l = [] \<or> sh_epoch (sg_header (List.last (lg_segments l))) = ep"
    and "i = 0 \<longrightarrow> segs \<noteq> [] \<longrightarrow> sg_id first = 0 \<and> sg_header first = fst (hd segs)"
  shows "\<exists>l'. inspect_segments crc io config base first (enumerate i (map (sh_number \<circ> fst) segs)) l =
      Inr (l', if tail = [] \<or> segs = [] then None else Some (i + length segs - 1, lg_offset l')) \<and>
    inspected_to l e (segs_load crc (cf_image_bytes config) base segs) (segs_value crc (cf_image_bytes config) base i segs) l'"
  using assms
proof (induction arbitrary: l i rule: segs_chain.induct)
  case (segs_nil seq ep)
  have v: "segs_value crc (cf_image_bytes config) base i [] = (\<lambda>_. None)" by (simp add: fun_eq_iff)
  moreover have "l = l\<lparr>lg_index := lg_index l, lg_published := lg_published l, lg_offset := lg_offset l,
      lg_next_batch := lg_next_batch l, lg_encoded_bytes := lg_encoded_bytes l, lg_allocated_bytes := lg_allocated_bytes l,
      lg_compaction_cursor := lg_compaction_cursor l, lg_segments := lg_segments l\<rparr>" by simp
  ultimately have "inspected_to l seq 0 (segs_value crc (cf_image_bytes config) base i []) l"
    using segs_nil.prems(1,5) unfolding inspected_to_def by (intro conjI) (blast, simp_all)
  then show ?case unfolding v by (simp add: segs_load_def)
next
  case (segs_cons h seq ep ws n seq' off segs e)
  let ?img = "cf_image_bytes config" and ?t = "if segs = [] then tail else []"
  have f: "segment_file crc io i h ws ?t" and rest: "log_files crc io (i + 1) segs tail" using segs_cons.prems(3) by auto
  have cap: "unat (sh_capacity h) < 2 ^ 44" using segs_cons.hyps(1) segs_cons.prems(9) by (simp add: Config_matches_def)
  obtain seg where seg: "(if i = 0 then Inr first else Segment_open crc io i (sh_number h)) = Inr seg" "sg_id seg = i" "sg_header seg = h"
    using Segment_open_file [OF f segs_cons.hyps(3,2) cap] segs_cons.prems(11) by (cases "i = 0") auto
  obtain a where a: "ri_allocated io i = Inr a" using f by (auto simp: segment_file_def)
  have e: "e = seq'" if "segs = []" using segs_cons.hyps(7) that by (auto elim: segs_nilE)
  have pos: "n = 1 + length ws" "off = 4096 + length (concat (map Batch_bytes ws))"
    using chain_number [OF segs_cons.hyps(6)] chain_offset [OF segs_cons.hyps(6)] by simp_all
  have to: "torn crc h ?img (n, seq', off) ?t" "?t = [] \<or> base \<le> seq'"
    using segs_cons.prems(4) e by (auto simp: segs_torn_def pos)
  have seq': "seq' \<le> u64_max" using chain_sequence [OF segs_cons.hyps(6)] segs_cons.hyps(4) u64_nat [of "sh_preceding_sequence h"] by simp
  have ld: "segs_load crc ?img base ((h, ws) # segs) = chain_load crc ?img base ws + segs_load crc ?img base segs"
    by (simp add: segs_load_def)
  have rm: "length (ii_map (lg_index l)) + 2 * (chain_load crc ?img base ws + torn_load crc ?img ?t) \<le> lm_intervals (lg_limits l)"
    using segs_cons.prems(7) unfolding ld by (simp add: torn_load_Nil)
  have sp: "unsplit crc ?img base ws" using segs_cons.prems(8) by simp
  obtain l1 len where l1: "ri_length io i = Inr len"
    "scan_segment crc io seg len base (attach_segment l seg a) = Inr (l1, ?t \<noteq> [])"
    "replayed_to (attach_segment l seg a) (n, seq', off) (chain_load crc ?img base ws) (chain_value crc ?img base i 4096 ws) l1"
    using scan_segment_file [where l = l and segment = seg and a = a, folded segs_cons.prems(2), OF segs_cons.hyps(6) [unfolded segs_cons.prems(1)]
        f segs_cons.hyps(3) to seq' segs_cons.prems(5,6) rm sp seg(2,3)] by blast
  let ?l2 = "l1\<lparr>lg_segments := butlast (lg_segments l1) @ [seg\<lparr>sg_end := lg_offset l1\<rparr>]\<rparr>"
  note i2 = replayed_inspected [OF l1(3), of "butlast (lg_segments l1) @ [seg\<lparr>sg_end := lg_offset l1\<rparr>]"]
  note f2 = inspected_to_fields [OF i2]
  have guard: "Config_matches config h \<and> unat (sh_preceding_sequence h) = lg_published l \<and>
      (lg_segments l = [] \<or> \<not> sh_epoch h < sh_epoch (sg_header (List.last (lg_segments l))))"
    using segs_cons.hyps(1,4,5) segs_cons.prems(1,10) by auto
  have step: "inspect_segments crc io config base first (enumerate i (map (sh_number \<circ> fst) ((h, ws) # segs))) l =
     (if ?t \<noteq> [] then Inr (?l2, Some (i, lg_offset ?l2))
      else inspect_segments crc io config base first (enumerate (i + 1) (map (sh_number \<circ> fst) segs)) ?l2)"
    using seg guard a l1(1,2) by (simp add: Let_def)
  have "\<exists>l'. inspect_segments crc io config base first (enumerate (i + 1) (map (sh_number \<circ> fst) segs)) ?l2 =
      Inr (l', if tail = [] \<or> segs = [] then None else Some (i + 1 + length segs - 1, lg_offset l')) \<and>
    inspected_to ?l2 e (segs_load crc ?img base segs) (segs_value crc ?img base (i + 1) segs) l'"
  proof (rule segs_cons.IH)
    show "length (ii_map (lg_index ?l2)) + 2 * (segs_load crc ?img base segs + torn_load crc ?img tail) \<le> lm_intervals (lg_limits ?l2)"
      using f2(6) segs_cons.prems(7) unfolding ld f2(2) by simp
    show "segs_torn crc ?img segs e tail \<and> base \<le> e" using segs_cons.prems(4) by (auto simp: segs_torn_def)
  qed (use f2 segs_cons.prems rest seg(3) in simp_all)
  then obtain l' where l': "inspect_segments crc io config base first (enumerate (i + 1) (map (sh_number \<circ> fst) segs)) ?l2 =
      Inr (l', if tail = [] \<or> segs = [] then None else Some (i + 1 + length segs - 1, lg_offset l'))"
    "inspected_to ?l2 e (segs_load crc ?img base segs) (segs_value crc ?img base (i + 1) segs) l'" by blast
  have val: "(\<lambda>x. case segs_value crc ?img base (i + 1) segs x of Some v \<Rightarrow> Some v | None \<Rightarrow> chain_value crc ?img base i 4096 ws x) =
      segs_value crc ?img base i ((h, ws) # segs)" by (simp add: fun_eq_iff)
  show ?case
  proof (cases "segs = []")
    case True
    show ?thesis
      unfolding step ld val [symmetric] by (rule exI [of _ ?l2]) (use i2 True e [OF True] in \<open>simp add: segs_load_def\<close>)
  next
    case False
    show ?thesis
      unfolding step ld val [symmetric] by (rule exI [of _ l']) (use l'(1) inspected_to_trans [OF i2 l'(2)] False in simp)
  qed
qed

lemma inspect_log:
  assumes segs: "segs_chain crc config seq ep segs e" "segs \<noteq> []" and base: "seq \<le> base" "base \<le> e"
    and cap: "MAX_BATCH_BYTES + 2 * BLOCK_SIZE \<le> unat (cf_segment_bytes config)" "unat (cf_segment_bytes config) < 2 ^ 44"
    and fl: "log_files crc io 0 segs tail" and to: "segs_torn crc (cf_image_bytes config) segs e tail"
    and load: "2 * (segs_load crc (cf_image_bytes config) base segs + torn_load crc (cf_image_bytes config) tail) \<le> lm_intervals lim"
    and sp: "\<forall>(h, ws) \<in> set segs. unsplit crc (cf_image_bytes config) base ws"
  shows "\<exists>rc. Log_inspect_in crc io (Inr ()) (Inr (highest, map (sh_number \<circ> fst) segs)) (Inr ()) lim base = Inr rc \<and>
    lg_published (rc_log rc) = e \<and> lg_issued (rc_log rc) = e \<and> lg_config (rc_log rc) = config \<and>
    (\<forall>x r. Intervals_at (lg_index (rc_log rc)) x r \<longleftrightarrow> segs_value crc (cf_image_bytes config) base 0 segs x = Some r) \<and>
    rc_rejected rc = (if tail = [] then None else Some (length segs - 1, lg_offset (rc_log rc))) \<and>
    \<not> lg_failed (rc_log rc) \<and> lg_cohort (rc_log rc) = None \<and> \<not> lg_rotating (rc_log rc) \<and> lg_pending_descriptors (rc_log rc) = 0 \<and>
    \<not> lg_fenced (rc_log rc)"
proof -
  let ?img = "cf_image_bytes config"
  obtain h ws rest where s: "segs = (h, ws) # rest" using segs(2) by (cases segs) auto
  have hd: "Config_matches config h" "SegmentHeader_validate h = Inr ()" "SegmentHeader_typed h"
    "unat (sh_preceding_sequence h) = seq" "ep \<le> sh_epoch h"
    using segs(1) unfolding s by (auto elim: segs_consE)
  have cfg: "\<lparr>cf_store = sh_store h, cf_image = sh_image h, cf_image_bytes = sh_image_bytes h, cf_segment_bytes = sh_capacity h\<rparr> = config"
    using hd(1) by (simp add: Config_matches_def)
  have sf: "segment_file crc io 0 h ws (if rest = [] then tail else [])" using fl by (simp add: s)
  have hc: "unat (sh_capacity h) < 2 ^ 44" using hd(1) cap(2) by (simp add: Config_matches_def)
  have hm: "\<not> unat (sh_capacity h) < MAX_BATCH_BYTES + 2 * BLOCK_SIZE" using hd(1) cap(1) by (simp add: Config_matches_def)
  obtain len where first: "Segment_open crc io 0 (sh_number h) = Inr \<lparr>sg_id = 0, sg_header = h, sg_end = len\<rparr>"
    using Segment_open_file [OF sf hd(3,2) hc] by blast
  let ?first = "\<lparr>sg_id = 0, sg_header = h, sg_end = len\<rparr>"
  let ?l = "Log_empty config lim \<lparr>ii_map = [], ii_limit = lm_intervals lim\<rparr> highest seq"
  have l: "lg_published ?l = seq" "lg_config ?l = config" "ii_map (lg_index ?l) = []" "ii_limit (lg_index ?l) = lm_intervals (lg_limits ?l)"
    "lg_segments ?l = []" "lg_limits ?l = lim" "\<not> lg_failed ?l" "lg_cohort ?l = None" "\<not> lg_rotating ?l"
    "lg_pending_descriptors ?l = 0" "\<not> lg_fenced ?l" by (simp_all add: Log_empty_def)
  have inv: "Intervals_inv (lg_index ?l)" and none: "\<not> Intervals_at (lg_index ?l) x r" for x r
    by (simp_all add: Log_empty_def Intervals_inv_def intervals_ok_def Intervals_at_def maps_to_def)
  obtain l' where l': "inspect_segments crc io config base ?first (enumerate 0 (map (sh_number \<circ> fst) segs)) ?l =
      Inr (l', if tail = [] \<or> segs = [] then None else Some (0 + length segs - 1, lg_offset l'))"
    "inspected_to ?l e (segs_load crc ?img base segs) (segs_value crc ?img base 0 segs) l'"
    using inspect_chain [OF segs(1) l(1) [symmetric] l(2) [symmetric] fl conjI [OF to base(2)] inv l(4) _ sp cap(2), of ?first] load l(3,5,6) s by auto
  note f = inspected_to_fields [OF l'(2)]
  have at: "\<forall>x r. Intervals_at (lg_index l') x r \<longleftrightarrow> segs_value crc ?img base 0 segs x = Some r"
  proof (intro allI)
    fix x r
    show "Intervals_at (lg_index l') x r \<longleftrightarrow> segs_value crc ?img base 0 segs x = Some r"
      using f(7) [of x r] none [of x r] by (cases "segs_value crc ?img base 0 segs x") auto
  qed
  have "Log_inspect_in crc io (Inr ()) (Inr (highest, map (sh_number \<circ> fst) segs)) (Inr ()) lim base =
      Inr \<lparr>rc_log = l'\<lparr>lg_issued := lg_published l'\<rparr>, rc_candidates = zip [0..<length segs] (map (sh_number \<circ> fst) segs),
        rc_rejected = if tail = [] then None else Some (length segs - 1, lg_offset l')\<rparr>"
    using first l'(1) f(3) base cap(1) hd(4) cfg segs(2) hm unfolding Log_inspect_in_def Let_def
    by (simp add: s enumerate_eq_zip del: inspect_segments.simps segs_value.simps)
  then show ?thesis using f l at by (intro exI [of _ "\<lparr>rc_log = l'\<lparr>lg_issued := lg_published l'\<rparr>, rc_candidates = zip [0..<length segs] (map (sh_number \<circ> fst) segs),
        rc_rejected = if tail = [] then None else Some (length segs - 1, lg_offset l')\<rparr>"]) (simp del: split_paired_All)
qed

section \<open>Properties\<close>

text \<open>
  C3. Recovery restores exactly the valid prefix. Given the files of a log (segments that chain, each
  file its header and its batches, and after the last batch any bytes that are not a further whole batch of the log:
  a short write, a damaged header, a payload cut short or one whose checksums fail, and whatever follows them),
  inspection against a manifest boundary between batches succeeds: the recovered log has published everything up to the
  last batch, its index maps every position to the last descriptor above the boundary that covers
  it, the torn bytes are rejected at their exact offset, and nothing is pending, fenced or failed. The index
  must have room for the recovered descriptors and for those a torn header announces.
\<close>
theorem recovery_restores_prefix:
  assumes "segs_chain crc config seq ep segs e" and "segs \<noteq> []" and "seq \<le> base" and "base \<le> e"
    and "MAX_BATCH_BYTES + 2 * BLOCK_SIZE \<le> unat (cf_segment_bytes config)" and "unat (cf_segment_bytes config) < 2 ^ 44"
    and "log_files crc io 0 segs tail" and "segs_torn crc (cf_image_bytes config) segs e tail"
    and "2 * (segs_load crc (cf_image_bytes config) base segs + torn_load crc (cf_image_bytes config) tail) \<le> lm_intervals lim"
    and "\<forall>(h, ws) \<in> set segs. unsplit crc (cf_image_bytes config) base ws"
  shows "\<exists>rc. Log_inspect_in crc io (Inr ()) (Inr (highest, map (sh_number \<circ> fst) segs)) (Inr ()) lim base = Inr rc \<and>
    lg_published (rc_log rc) = e \<and> lg_issued (rc_log rc) = e \<and> lg_config (rc_log rc) = config \<and>
    (\<forall>x r. Intervals_at (lg_index (rc_log rc)) x r \<longleftrightarrow> segs_value crc (cf_image_bytes config) base 0 segs x = Some r) \<and>
    rc_rejected rc = (if tail = [] then None else Some (length segs - 1, lg_offset (rc_log rc))) \<and>
    \<not> lg_failed (rc_log rc) \<and> lg_cohort (rc_log rc) = None \<and> \<not> lg_rotating (rc_log rc) \<and> lg_pending_descriptors (rc_log rc) = 0 \<and>
    \<not> lg_fenced (rc_log rc)"
  by (rule inspect_log [OF assms])

end
