(* ===== verification/Wal_Durability.thy ===== *)
theory Wal_Durability
  imports Wal_Recovery
begin

text \<open>
  What the sequencer writes is what recovery reads. A history of the log keeps, beside its state,
  the batches reserved in every segment in the order of their offsets, and how many batches of the
  current segment the last completed sync covers. The batches of every history form chains that the
  recovery scan accepts, so a crash loses nothing a completed sync has covered.
\<close>

section \<open>Histories\<close>

text \<open>
  Rotation goes through \<^verbatim>\<open>rollover\<close> or \<^verbatim>\<open>new_attachment\<close>: nothing else is admitted between its steps.
  Tickets of the shared allocator exceed every number already used.
\<close>

definition fresh_ticket :: "LogIo \<Rightarrow> Log \<Rightarrow> bool" where
  "fresh_ticket io l \<longleftrightarrow> (\<forall>n. li_ticket io = Some (Inr n) \<longrightarrow> lg_highest_segment l < n)"

inductive log_history ::
  "(bytes \<Rightarrow> u32) \<Rightarrow> Log \<Rightarrow> Submission list \<Rightarrow> (SegmentHeader \<times> Batch list) list \<Rightarrow> Batch list \<Rightarrow> nat \<Rightarrow> bool" for crc where
  hist_created: "Log_create_in i nodes g res io al c lim ticket = Inr l \<Longrightarrow>
    length (cf_store c) = 16 \<Longrightarrow> length (cf_image c) = 16 \<Longrightarrow> log_history crc l [] [] [] 0"
| hist_appended: "log_history crc l ss segs ws k \<Longrightarrow> built crc b rs \<Longrightarrow> Log_prepare_append crc l b = Inr (l', s) \<Longrightarrow>
    log_history crc l' (s # ss) segs (ws @ [sm_batch s]) k"
| hist_published: "log_history crc l ss segs ws k \<Longrightarrow> s \<in> set ss \<Longrightarrow> Log_publish_append crc l s = Inr l' \<Longrightarrow>
    log_history crc l' ss segs ws k"
| hist_fenced: "log_history crc l ss segs ws k \<Longrightarrow> Log_prepare_fence crc l = Inr (l', s) \<Longrightarrow>
    log_history crc l' ss segs (ws @ [sm_batch s]) k"
| hist_synced: "log_history crc l ss segs ws k \<Longrightarrow> Log_complete_sync l s = Inr (l', d) \<Longrightarrow>
    log_history crc l' ss segs ws (length ws)"
| hist_rollover: "log_history crc l ss segs ws k \<Longrightarrow> fresh_ticket io l \<Longrightarrow> Log_rollover io l = (l', Inr ()) \<Longrightarrow>
    log_history crc l' ss (segs @ [(sg_header (List.last (lg_segments l)), ws)]) [] 0"
| hist_attached: "log_history crc l ss segs ws k \<Longrightarrow> fresh_ticket io l \<Longrightarrow> Log_new_attachment io l = (l', Inr ()) \<Longrightarrow>
    log_history crc l' ss (segs @ [(sg_header (List.last (lg_segments l)), ws)]) [] 0"
| hist_failed: "log_history crc l ss segs ws k \<Longrightarrow> log_history crc (Log_fail l) ss segs ws k"

lemma log_history_reach: "log_history crc l ss segs ws k \<Longrightarrow> log_reach crc l ss"
proof (induction rule: log_history.induct)
  case (hist_attached l ss segs ws k io l')
  then show ?case by (auto simp: Log_new_attachment_def intro: Log_rotate_reach split: sum.splits)
qed (auto intro: log_created log_appended log_published log_fenced log_synced Log_rollover_reach log_failed)

section \<open>Batches of the log are accepted\<close>

abbreviation current_header :: "Log \<Rightarrow> SegmentHeader" where
  "current_header l \<equiv> sg_header (List.last (lg_segments l))"

lemma checked_room:
  assumes "unat (a :: u64) + 4096 \<le> unat cap"
  shows "case checked_add a BLOCK of None \<Rightarrow> False | Some fenced \<Rightarrow> fenced \<le> cap"
proof -
  have "unat a + unat BLOCK < 2 ^ 64" using assms u64_nat [of cap] by (simp add: u64_max_def)
  then show ?thesis using assms by (simp add: checked_add_def word_le_nat_alt unat_add_u64)
qed

lemma follows_ok:
  assumes "e_segment (h_envelope h) = sh_number seg" and "e_batch (h_envelope h) = word_of_nat n"
    and "off + 4096 + e_payload_bytes (h_envelope h) \<le> unat (sh_capacity seg)" and "unat (sh_capacity seg) < 2 ^ 44"
    and "\<not> e_fence (h_envelope h) \<Longrightarrow> off + 8192 + e_payload_bytes (h_envelope h) \<le> unat (sh_capacity seg)"
    and "e_fence (h_envelope h) \<Longrightarrow> e_last (h_envelope h) = word_of_nat seq"
    and "\<not> e_fence (h_envelope h) \<Longrightarrow> seq < u64_max \<and> e_first (h_envelope h) = word_of_nat (seq + 1)"
  shows "Header_follows h seg (word_of_nat n) (word_of_nat seq) (word_of_nat off) (sh_capacity seg)"
proof -
  let ?p = "e_payload_bytes (h_envelope h)" and ?o = "word_of_nat off :: u64" and ?len = "word_of_nat (4096 + e_payload_bytes (h_envelope h)) :: u64"
  have small: "off + 4096 + ?p < 2 ^ 44" using assms(3,4) by simp
  have o: "unat ?o = off" and len: "unat ?len = 4096 + ?p"
    using small by (intro unat_of_nat_u64; simp add: u64_max_def)+
  have after: "checked_add ?o ?len = Some (?o + ?len)" "unat (?o + ?len) = off + 4096 + ?p"
    using small by (simp_all add: checked_add_Some unat_add_u64 o len del: of_nat_add)
  have le: "?o + ?len \<le> sh_capacity seg" using after(2) assms(3) by (simp add: word_le_nat_alt)
  have room: "case checked_add (?o + ?len) BLOCK of None \<Rightarrow> False | Some fenced \<Rightarrow> fenced \<le> sh_capacity seg"
    if "\<not> e_fence (h_envelope h)"
    using assms(5) [OF that] after(2) by (intro checked_room) (simp del: of_nat_add)
  have seq: "checked_add (word_of_nat seq) 1 = Some (word_of_nat (seq + 1) :: u64)" if "seq < u64_max"
    using that unat_of_nat_u64 [of seq] by (simp add: checked_add_Some u64_max_def add.commute)
  show ?thesis
    using assms(1,2,6,7) after(1) le room seq by (cases "e_fence (h_envelope h)") (auto simp: Header_follows_def Let_def BLOCK_SIZE_def)
qed

lemma append_batch_ok:
  assumes inv: "Log_inv l" and built: "built crc b rs" and prep: "Log_prepare_append crc l b = Inr (l', s)"
    and cap: "sh_capacity (current_header l) = cf_segment_bytes (lg_config l)"
  shows "\<exists>h. batch_ok crc (current_header l) (cf_image_bytes (lg_config l)) (lg_next_batch l, lg_issued l, lg_offset l) (sm_batch s) h \<and>
    boundary_after (lg_next_batch l, lg_issued l, lg_offset l) h = (lg_next_batch l', lg_issued l', lg_offset l') \<and>
    lg_next_batch l < u64_max"
proof -
  have pay: "b_payload_bytes b \<le> 1048576" and nd: "b_descriptors b = length rs" using built_payload [OF built] by auto
  have chk: "Log_check_append l b = Inr ()" using prep by (auto simp: Log_prepare_append_def)
  note c = Log_check_append_facts [OF inv chk pay]
  note sp = Log_prepare_append_spec [OF inv built prep]
  let ?first = "word_of_nat (lg_issued l + 1) :: u64"
  have issued: "lg_issued l + 1 \<le> u64_max" using c(4,7) by simp
  have seal: "Builder_seal crc b (sh_number (current_header l)) (word_of_nat (lg_next_batch l)) ?first = Inr (sm_batch s)"
    using prep issued by (auto simp: Log_prepare_append_def Log_current_def Log_reserve_def Let_def wrapping_add_exact split: if_splits)
  note rt = seal_roundtrip [OF built seal]
  let ?h = "\<lparr>h_envelope = bt_envelope (sm_batch s), h_bytes = take 4096 (Batch_bytes (sm_batch s))\<rparr>"
  have dec: "Header_decode crc (take 4096 (Batch_bytes (sm_batch s))) (cf_image_bytes (lg_config l)) = Inr ?h"
    using rt(1) c(5) by simp
  have env: "e_segment (h_envelope ?h) = sh_number (current_header l)" "e_batch (h_envelope ?h) = word_of_nat (lg_next_batch l)"
    "e_payload_bytes (h_envelope ?h) = length (payload_of rs)" "e_first (h_envelope ?h) = ?first" "\<not> e_fence (h_envelope ?h)"
    "e_descriptors (h_envelope ?h) = length rs" using rt(5) by simp_all
  have pl: "length (payload_of rs) = b_payload_bytes b" using built_inv [OF built] by (simp add: Builder_inv_def Let_def)
  have last: "unat (e_last (h_envelope ?h)) = lg_issued l + length rs"
    using decoded_append(2) [OF dec env(5)] unat_of_nat_u64 [OF issued] env(4,6) by simp
  have len: "length (Batch_bytes (sm_batch s)) = 4096 + e_payload_bytes (h_envelope ?h)"
  proof -
    have "length (take 4096 (Batch_bytes (sm_batch s))) = 4096" using dec by (simp add: Header_decode_def BLOCK_SIZE_def)
    then show ?thesis using arg_cong [OF rt(3), of length] env(3) by simp
  qed
  have "Header_follows ?h (current_header l) (word_of_nat (lg_next_batch l)) (word_of_nat (lg_issued l)) (word_of_nat (lg_offset l))
      (sh_capacity (current_header l))"
    by (rule follows_ok [OF env(1,2)]) (use c(9) env pl issued cap Log_invD(1) [OF inv] in simp_all)
  then have "batch_ok crc (current_header l) (cf_image_bytes (lg_config l)) (lg_next_batch l, lg_issued l, lg_offset l) (sm_batch s) ?h"
    using dec len rt(3,4) by (simp add: batch_ok_def)
  moreover have "boundary_after (lg_next_batch l, lg_issued l, lg_offset l) ?h = (lg_next_batch l', lg_issued l', lg_offset l')"
    using sp(8) last env(3,5) pl by (auto simp: boundary_after_def)
  ultimately show ?thesis using c(8) by auto
qed

lemma fence_batch_ok:
  assumes inv: "Log_inv l" and prep: "Log_prepare_fence crc l = Inr (l', s)"
    and cap: "sh_capacity (current_header l) = cf_segment_bytes (lg_config l)"
  shows "\<exists>h. batch_ok crc (current_header l) (cf_image_bytes (lg_config l)) (lg_next_batch l, lg_issued l, lg_offset l) (sm_batch s) h \<and>
    boundary_after (lg_next_batch l, lg_issued l, lg_offset l) h = (lg_next_batch l', lg_issued l', lg_offset l') \<and>
    lg_next_batch l < u64_max"
proof -
  note I = Log_invD [OF inv]
  have "lg_offset l + 4096 \<le> u64_max" using I(1,12) by (simp add: u64_max_def)
  then have c: "\<not> lg_failed l" "lg_cohort l = None" "\<not> lg_rotating l" "lg_next_batch l + 1 \<le> u64_max"
    "lg_offset l + 4096 \<le> unat (cf_segment_bytes (lg_config l))"
    using prep by (auto simp: Log_prepare_fence_def Log_healthy_def BLOCK_SIZE_def wrapping_add_exact split: if_splits)
  have seal: "Batch_fence crc (sh_number (current_header l)) (word_of_nat (lg_next_batch l)) (word_of_nat (lg_issued l)) = Inr (sm_batch s)"
    using prep by (auto simp: Log_prepare_fence_def Log_current_def Log_reserve_def Let_def split: if_splits)
  let ?B = "Batch_bytes (sm_batch s)"
  let ?h = "\<lparr>h_envelope = \<lparr>e_segment = sh_number (current_header l), e_batch = word_of_nat (lg_next_batch l), e_descriptors = 0,
       e_payload_bytes = 0, e_first = word_of_nat (lg_issued l), e_last = word_of_nat (lg_issued l), e_fence = True\<rparr>, h_bytes = ?B\<rparr>"
  have dec: "Header_decode crc ?B (cf_image_bytes (lg_config l)) = Inr ?h" by (rule fence_roundtrip [OF seal])
  then have len: "length ?B = 4096" by (simp add: Header_decode_def BLOCK_SIZE_def)
  have "Header_descriptors ?h = []" by (simp add: Header_descriptors_def descriptor_slots_def chunks_def wal_constants subrange_def)
  then have ver: "Header_verify_payload crc ?h (drop 4096 ?B) = Inr ()" using len by (simp add: Header_verify_payload_def)
  have "Header_follows ?h (current_header l) (word_of_nat (lg_next_batch l)) (word_of_nat (lg_issued l)) (word_of_nat (lg_offset l))
      (sh_capacity (current_header l))"
    by (rule follows_ok) (use c(5) cap I(1) in simp_all)
  then have "batch_ok crc (current_header l) (cf_image_bytes (lg_config l)) (lg_next_batch l, lg_issued l, lg_offset l) (sm_batch s) ?h"
    using dec len ver by (simp add: batch_ok_def)
  moreover have "boundary_after (lg_next_batch l, lg_issued l, lg_offset l) ?h = (lg_next_batch l', lg_issued l', lg_offset l')"
    using Log_prepare_fence_eq [OF inv c, of crc] prep by (auto simp: boundary_after_def)
  ultimately show ?thesis using c(4) by auto
qed

section \<open>Every history is a chain of segments\<close>

lemma segs_snoc:
  assumes "segs_chain crc config seq ep segs e" and "Config_matches config h" and "SegmentHeader_validate h = Inr ()"
    and "SegmentHeader_typed h" and "unat (sh_preceding_sequence h) = e"
    and "(if segs = [] then ep else sh_epoch (fst (List.last segs))) \<le> sh_epoch h"
    and "chain crc h (cf_image_bytes config) (1, e, 4096) ws (n, e', off)"
  shows "segs_chain crc config seq ep (segs @ [(h, ws)]) e'"
  using assms
proof (induction rule: segs_chain.induct)
  case (segs_cons h' seq ep ws' n' seq' off' segs e)
  have "segs_chain crc config seq' (sh_epoch h') (segs @ [(h, ws)]) e'"
    by (rule segs_cons.IH) (use segs_cons.prems in \<open>auto split: if_splits\<close>)
  from segs_chain.segs_cons [OF segs_cons.hyps(1-6) this] show ?case by simp
qed (auto intro: segs_chain.intros)

text \<open>
  What every history keeps: finished segments chain up to the sequence the current header names, the
  batches of the current segment chain up to the next free position, and the covered prefix of them
  reaches the durable sequence.
\<close>

definition History_inv :: "(bytes \<Rightarrow> u32) \<Rightarrow> Log \<Rightarrow> (SegmentHeader \<times> Batch list) list \<Rightarrow> Batch list \<Rightarrow> nat \<Rightarrow> bool" where
  "History_inv crc l segs ws k \<longleftrightarrow> (let h = current_header l; c = lg_config l; p = unat (sh_preceding_sequence h) in
     segs_chain crc c 0 0 segs p \<and> Config_matches c h \<and> SegmentHeader_validate h = Inr () \<and> SegmentHeader_typed h \<and>
     (segs = [] \<or> sh_epoch (fst (List.last segs)) \<le> sh_epoch h) \<and>
     sh_epoch h \<le> sh_number h \<and> sh_number h = lg_highest_segment l \<and>
     chain crc h (cf_image_bytes c) (1, p, 4096) ws (lg_next_batch l, lg_issued l, lg_offset l) \<and>
     k \<le> length ws \<and> (\<exists>n q off. chain crc h (cf_image_bytes c) (1, p, 4096) (take k ws) (n, q, off) \<and> lg_durable l \<le> q))"

lemma History_invD:
  assumes "History_inv crc l segs ws k"
  defines "h \<equiv> current_header l" and "c \<equiv> lg_config l"
  shows "segs_chain crc c 0 0 segs (unat (sh_preceding_sequence h))" and "Config_matches c h" and "SegmentHeader_validate h = Inr ()"
    and "SegmentHeader_typed h" and "segs = [] \<or> sh_epoch (fst (List.last segs)) \<le> sh_epoch h"
    and "sh_epoch h \<le> sh_number h" and "sh_number h = lg_highest_segment l"
    and "chain crc h (cf_image_bytes c) (1, unat (sh_preceding_sequence h), 4096) ws (lg_next_batch l, lg_issued l, lg_offset l)"
    and "k \<le> length ws"
    and "\<exists>n q off. chain crc h (cf_image_bytes c) (1, unat (sh_preceding_sequence h), 4096) (take k ws) (n, q, off) \<and> lg_durable l \<le> q"
  using assms by (auto simp: History_inv_def Let_def)

lemma History_inv_capacity: "History_inv crc l segs ws k \<Longrightarrow> sh_capacity (current_header l) = cf_segment_bytes (lg_config l)"
  using History_invD(2) by (fastforce simp: Config_matches_def)

text \<open>A reserved batch extends the current chain.\<close>

lemma History_inv_reserve:
  assumes inv: "History_inv crc l segs ws k"
    and ok: "batch_ok crc (current_header l) (cf_image_bytes (lg_config l)) (lg_next_batch l, lg_issued l, lg_offset l) w h"
      "boundary_after (lg_next_batch l, lg_issued l, lg_offset l) h = (lg_next_batch l', lg_issued l', lg_offset l')" "lg_next_batch l < u64_max"
    and same: "current_header l' = current_header l" "lg_config l' = lg_config l" "lg_highest_segment l' = lg_highest_segment l"
      "lg_durable l' = lg_durable l"
  shows "History_inv crc l' segs (ws @ [w]) k"
proof -
  note I = History_invD [OF inv]
  have "chain crc (current_header l) (cf_image_bytes (lg_config l)) (1, unat (sh_preceding_sequence (current_header l)), 4096)
      (ws @ [w]) (lg_next_batch l', lg_issued l', lg_offset l')"
    using chain_snoc [OF I(8) ok(1)] ok(2,3) by simp
  then show ?thesis using I unfolding History_inv_def Let_def same by simp
qed

lemma Log_reserve_header:
  "Log_reserve l w = Inr (l', s) \<Longrightarrow> current_header l' = current_header l \<and> lg_config l' = lg_config l \<and>
     lg_highest_segment l' = lg_highest_segment l \<and> lg_durable l' = lg_durable l"
  by (auto simp: Log_reserve_def Log_current_def Let_def split: if_splits)

lemma Log_rotate_new:
  assumes "Log_rotate io l ep = (l', Inr ())"
  obtains seg num a enc where
    "sg_header seg = Config_header (lg_config l) (case ep of None \<Rightarrow> num | Some e \<Rightarrow> e) num (word_of_nat (lg_published l))"
    "SegmentHeader_validate (sg_header seg) = Inr ()"
    "case li_ticket io of Some t \<Rightarrow> t = Inr num | None \<Rightarrow> checked_add (lg_highest_segment l) 1 = Some num"
    "l' = l\<lparr>lg_highest_segment := num, lg_allocated_bytes := a, lg_segments := lg_segments l @ [seg], lg_offset := BLOCK_SIZE,
      lg_next_batch := 1, lg_fenced := False, lg_rotating := False, lg_encoded_bytes := enc\<rparr>"
proof (cases "Log_rotation (li_pins io) (li_resources io) l ep")
  case (Inl e)
  then show thesis using assms by (simp add: Log_rotate_def)
next
  case (Inr lr)
  obtain l1 r where lr: "lr = (l1, r)" by (cases lr)
  have l1: "l1 = l\<lparr>lg_rotating := True\<rparr>" and r: "ro_config r = lg_config l" "ro_highest r = lg_highest_segment l" "ro_epoch r = ep"
    "bd_published (ro_boundary r) = lg_published l"
    using Inr lr by (auto simp: Log_rotation_def)
  show thesis
  proof (cases "Rotation_create (li_segment io) (li_create io) (li_allocated io) (li_ticket io) r")
    case (Inl e)
    then show thesis using assms Inr lr by (simp add: Log_rotate_def Log_fail_on_io_def)
  next
    case (Inr c)
    note created = this
    from created have "Log_install_rotation l1 c = (l', Inr ())"
      using assms \<open>Log_rotation (li_pins io) (li_resources io) l ep = Inr lr\<close> lr by (simp add: Log_rotate_def Log_fail_on_io_def)
    then obtain a where inst: "l' = l1\<lparr>lg_highest_segment := sh_number (sg_header (rd_segment c)), lg_allocated_bytes := a,
        lg_segments := lg_segments l1 @ [rd_segment c], lg_offset := BLOCK_SIZE, lg_next_batch := 1,
        lg_fenced := False, lg_rotating := False, lg_encoded_bytes := wrapping_add (lg_encoded_bytes l1) BLOCK_SIZE\<rparr>"
      by (auto simp: Log_install_rotation_def split: sum.splits option.splits if_splits)
    obtain num where num: "case li_ticket io of Some t \<Rightarrow> t = Inr num | None \<Rightarrow> checked_add (lg_highest_segment l) 1 = Some num"
      "sg_header (rd_segment c) = Config_header (lg_config l) (case ep of None \<Rightarrow> num | Some e \<Rightarrow> e) num (word_of_nat (lg_published l))"
      "SegmentHeader_validate (sg_header (rd_segment c)) = Inr ()"
      using created r by (auto simp: Rotation_create_def segment_create_def Segment_create_def split: option.splits)
    have "sh_number (sg_header (rd_segment c)) = num" by (simp add: num(2) Config_header_def)
    then show thesis using inst l1 num by (intro that [of "rd_segment c" num]) auto
  qed
qed

lemma History_inv_rotate:
  assumes log: "Log_inv l" and inv: "History_inv crc l segs ws k" and drained: "Log_drained l = Inr ()"
    and rot: "Log_rotate io l ep = (l', Inr ())" and fresh: "fresh_ticket io l"
    and ep: "ep = None \<or> ep = Some (sh_epoch (current_header l))"
  shows "History_inv crc l' (segs @ [(current_header l, ws)]) [] 0"
proof -
  note I = History_invD [OF inv] and L = Log_invD [OF log]
  let ?h = "current_header l" and ?c = "lg_config l"
  have d: "lg_issued l = lg_published l" "lg_durable l = lg_published l"
    using drained by (auto simp: Log_drained_def Log_healthy_def split: if_splits)
  obtain seg num a enc where seg:
    "sg_header seg = Config_header ?c (case ep of None \<Rightarrow> num | Some e \<Rightarrow> e) num (word_of_nat (lg_published l))"
    "SegmentHeader_validate (sg_header seg) = Inr ()"
    "case li_ticket io of Some t \<Rightarrow> t = Inr num | None \<Rightarrow> checked_add (lg_highest_segment l) 1 = Some num"
    "l' = l\<lparr>lg_highest_segment := num, lg_allocated_bytes := a, lg_segments := lg_segments l @ [seg], lg_offset := BLOCK_SIZE,
      lg_next_batch := 1, lg_fenced := False, lg_rotating := False, lg_encoded_bytes := enc\<rparr>"
    by (rule Log_rotate_new [OF rot])
  have new: "lg_highest_segment l < num"
  proof (cases "li_ticket io")
    case None
    then have "unat num = unat (lg_highest_segment l) + 1" using seg(3) by (auto dest: checked_add_unat)
    then show ?thesis by (simp add: word_less_nat_alt)
  qed (use seg(3) fresh in \<open>simp add: fresh_ticket_def\<close>)
  have "sh_epoch ?h \<le> lg_highest_segment l" using I(6,7) by simp
  with new have le: "sh_epoch ?h \<le> num" by (meson le_less_trans less_imp_le)
  let ?n = "sg_header seg"
  have head: "current_header l' = ?n" "lg_config l' = ?c" "lg_issued l' = lg_issued l" "lg_durable l' = lg_durable l"
    "lg_next_batch l' = 1" "lg_offset l' = 4096" "lg_highest_segment l' = num"
    by (simp_all add: seg(4) BLOCK_SIZE_def)
  have n: "sh_epoch ?h \<le> sh_epoch ?n" "sh_epoch ?n \<le> num" "sh_number ?n = num" "Config_matches ?c ?n" "SegmentHeader_typed ?n"
    "unat (sh_preceding_sequence ?n) = lg_published l"
    using ep le I(2,4) d(1) L(8) unat_of_nat_u64 [of "lg_published l"]
    by (auto simp: seg(1) Config_header_def Config_matches_def SegmentHeader_typed_def)
  have "segs_chain crc ?c 0 0 (segs @ [(?h, ws)]) (lg_issued l)"
    using I(5) by (intro segs_snoc [OF I(1-4) refl _ I(8)]) auto
  then show ?thesis
    using n seg(2) d unfolding History_inv_def Let_def head by (auto intro: chain_nil)
qed

lemma chain_nil_ex [simp]: "\<exists>n q off. chain crc seg img (a, b, c) [] (n, q, off)"
  using chain_nil by blast

lemma log_history_inv: "log_history crc l ss segs ws k \<Longrightarrow> History_inv crc l segs ws k"
proof (induction rule: log_history.induct)
  case (hist_created i nodes g res io al c lim ticket l)
  then show ?case
    by (auto simp: Log_create_in_def History_inv_def Log_empty_def segment_create_def Segment_create_def Config_header_def
        Config_matches_def SegmentHeader_typed_def BLOCK_SIZE_def Let_def intro: segs_nil chain_nil split: option.splits)
next
  case (hist_appended l ss segs ws k b rs l' s)
  have inv: "Log_inv l" using log_reach_inv log_history_reach hist_appended.hyps(1) by blast
  obtain h where h: "batch_ok crc (current_header l) (cf_image_bytes (lg_config l)) (lg_next_batch l, lg_issued l, lg_offset l) (sm_batch s) h"
    "boundary_after (lg_next_batch l, lg_issued l, lg_offset l) h = (lg_next_batch l', lg_issued l', lg_offset l')" "lg_next_batch l < u64_max"
    using append_batch_ok [OF inv hist_appended.hyps(2,3) History_inv_capacity [OF hist_appended.IH]] by blast
  have "current_header l' = current_header l \<and> lg_config l' = lg_config l \<and> lg_highest_segment l' = lg_highest_segment l \<and> lg_durable l' = lg_durable l"
    using hist_appended.hyps(3) by (auto simp: Log_prepare_append_def dest!: Log_reserve_header)
  then show ?case using History_inv_reserve [OF hist_appended.IH h] by blast
next
  case (hist_fenced l ss segs ws k l' s)
  have inv: "Log_inv l" using log_reach_inv log_history_reach hist_fenced.hyps(1) by blast
  obtain h where h: "batch_ok crc (current_header l) (cf_image_bytes (lg_config l)) (lg_next_batch l, lg_issued l, lg_offset l) (sm_batch s) h"
    "boundary_after (lg_next_batch l, lg_issued l, lg_offset l) h = (lg_next_batch l', lg_issued l', lg_offset l')" "lg_next_batch l < u64_max"
    using fence_batch_ok [OF inv hist_fenced.hyps(2) History_inv_capacity [OF hist_fenced.IH]] by blast
  have "current_header l' = current_header l \<and> lg_config l' = lg_config l \<and> lg_highest_segment l' = lg_highest_segment l \<and> lg_durable l' = lg_durable l"
    using hist_fenced.hyps(2) by (auto simp: Log_prepare_fence_def dest!: Log_reserve_header)
  then show ?case using History_inv_reserve [OF hist_fenced.IH h] by blast
next
  case (hist_published l ss segs ws k s l')
  then obtain ix pub pend where "l' = l\<lparr>lg_index := ix, lg_published := pub, lg_pending_descriptors := pend\<rparr>"
    by (auto simp: Log_publish_append_def Log_publish_def Let_def)
  then show ?case using hist_published.IH by (simp add: History_inv_def)
next
  case (hist_synced l ss segs ws k s l' d)
  have inv: "Log_inv l" using log_reach_inv log_history_reach hist_synced.hyps(1) by blast
  note sy = Log_complete_sync_spec [OF inv hist_synced.hyps(2)]
  show ?case using History_invD [OF hist_synced.IH] sy(2) unfolding History_inv_def Let_def by (auto simp: sy(1))
next
  case (hist_rollover l ss segs ws k io l')
  have inv: "Log_inv l" using log_reach_inv log_history_reach hist_rollover.hyps(1) by blast
  have "lg_segments l \<noteq> []" by (rule Log_invD(2) [OF inv])
  then have "Log_drained l = Inr ()" "Log_rotate io l (Some (sh_epoch (current_header l))) = (l', Inr ())"
    using hist_rollover.hyps(3) by (auto simp: Log_rollover_def Log_current_def split: sum.splits)
  then show ?case using History_inv_rotate [OF inv hist_rollover.IH _ _ hist_rollover.hyps(2)] by blast
next
  case (hist_attached l ss segs ws k io l')
  have inv: "Log_inv l" using log_reach_inv log_history_reach hist_attached.hyps(1) by blast
  have "Log_drained l = Inr ()" "Log_rotate io l None = (l', Inr ())"
    using hist_attached.hyps(3) by (auto simp: Log_new_attachment_def split: sum.splits)
  then show ?case using History_inv_rotate [OF inv hist_attached.IH _ _ hist_attached.hyps(2)] by blast
next
  case (hist_failed l ss segs ws k)
  then show ?case by (simp add: History_inv_def Log_fail_def)
qed

section \<open>A crash keeps the synced prefix\<close>

lemma chain_split:
  assumes "chain crc seg img c (us @ vs) e"
  shows "\<exists>d. chain crc seg img c us d \<and> chain crc seg img d vs e"
  using assms
proof (induction us arbitrary: c)
  case Nil
  then show ?case using chain_nil by fastforce
next
  case (Cons u us)
  then obtain h where h: "batch_ok crc seg img c u h" "fst c < u64_max" "chain crc seg img (boundary_after c h) (us @ vs) e"
    by (auto elim: chain.cases)
  from Cons.IH [OF h(3)] h(1,2) show ?case by (blast intro: chain_cons)
qed

lemma chain_fun: "chain crc seg img c ws d \<Longrightarrow> chain crc seg img c ws d' \<Longrightarrow> d = d'"
proof (induction rule: chain.induct)
  case (chain_nil c)
  then show ?case by (auto elim: chain.cases)
next
  case (chain_cons c w h ws d)
  from chain_cons.prems obtain h' where h': "batch_ok crc seg img c w h'" "chain crc seg img (boundary_after c h') ws d'"
    by (auto elim: chain.cases)
  have "h' = h" using h'(1) chain_cons.hyps(1) by (auto simp: batch_ok_def split: prod.splits)
  then show ?case using chain_cons.IH h'(2) by simp
qed

lemma chain_take:
  assumes "chain crc seg img (1, p, 4096) ws (n, e, off)" and "p \<le> u64_max" and "k \<le> m"
    and "chain crc seg img (1, p, 4096) (take k ws) (n', q, off')"
  shows "\<exists>n'' r off''. chain crc seg img (1, p, 4096) (take m ws) (n'', r, off'') \<and> p \<le> r \<and> q \<le> r \<and> r \<le> e"
proof -
  obtain d where d: "chain crc seg img (1, p, 4096) (take m ws) d" "chain crc seg img d (drop m ws) (n, e, off)"
    using chain_split [of crc seg img _ "take m ws" "drop m ws", unfolded append_take_drop_id, OF assms(1)] by blast
  obtain f where f: "chain crc seg img (1, p, 4096) (take k (take m ws)) f" "chain crc seg img f (drop k (take m ws)) d"
    using chain_split [of crc seg img _ "take k (take m ws)" "drop k (take m ws)", unfolded append_take_drop_id, OF d(1)] by blast
  have kd: "f = (n', q, off')" using chain_fun [OF f(1)] assms(3,4) by (simp add: min_def)
  have "p \<le> fst (snd d)" using chain_sequence [OF d(1)] assms(2) by simp
  moreover have "fst (snd d) \<le> e" using chain_sequence [OF d(2)] chain_sequence [OF d(1)] assms(2) by simp
  moreover have "q \<le> fst (snd d)" using chain_sequence [OF f(2)] chain_sequence [OF f(1)] assms(2) kd by simp
  ultimately show ?thesis using d(1) by (cases d) auto
qed

lemma history_recovers:
  assumes hist: "log_history crc l ss segs ws k" and m: "k \<le> m" and base: "base \<le> lg_durable l"
  defines "h \<equiv> current_header l"
  shows "\<exists>e. segs_chain crc (lg_config l) 0 0 (segs @ [(h, take m ws)]) e \<and> lg_durable l \<le> e \<and> e \<le> lg_issued l"
proof -
  note H = History_invD [OF log_history_inv [OF hist]]
  obtain n q off where q: "chain crc h (cf_image_bytes (lg_config l)) (1, unat (sh_preceding_sequence h), 4096) (take k ws) (n, q, off)"
    "lg_durable l \<le> q" using H(10) unfolding h_def by blast
  obtain n' r off' where r: "chain crc h (cf_image_bytes (lg_config l)) (1, unat (sh_preceding_sequence h), 4096) (take m ws) (n', r, off')"
    "q \<le> r" "r \<le> lg_issued l" using chain_take [OF H(8) u64_nat m] q(1) unfolding h_def by blast
  have "segs_chain crc (lg_config l) 0 0 (segs @ [(h, take m ws)]) r"
    using H(5) r(1) unfolding h_def by (intro segs_snoc [OF H(1-4) refl]) auto
  then show ?thesis using q(2) r by (intro exI [of _ r]) simp
qed

text \<open>The sequence that the last batch in a log's files ends with.\<close>

definition last_sequence :: "(bytes \<Rightarrow> u32) \<Rightarrow> u64 \<Rightarrow> (SegmentHeader \<times> Batch list) list \<Rightarrow> nat" where
  "last_sequence crc img segs = (case List.last segs of (h, ws) \<Rightarrow>
     if ws = [] then unat (sh_preceding_sequence h)
     else case Header_decode crc (take 4096 (Batch_bytes (List.last ws))) img of Inl _ \<Rightarrow> 0 | Inr b \<Rightarrow> unat (e_last (h_envelope b)))"

lemma chain_last:
  assumes "chain crc seg img (1, p, 4096) (ws @ [w]) (n, e, off)" and "p \<le> u64_max"
  shows "\<exists>b. Header_decode crc (take 4096 (Batch_bytes w)) img = Inr b \<and> unat (e_last (h_envelope b)) = e"
proof -
  obtain d where d: "chain crc seg img (1, p, 4096) ws d" "chain crc seg img d [w] (n, e, off)"
    using chain_split [OF assms(1)] by blast
  obtain m q o' where dd: "d = (m, q, o')" by (cases d)
  have q: "q \<le> u64_max" using chain_sequence [OF d(1)] assms(2) dd by simp
  obtain b where b: "batch_ok crc seg img (m, q, o') w b" "boundary_after (m, q, o') b = (n, e, off)"
    using d(2) unfolding dd by (auto elim!: chain.cases)
  then have "e_fence (h_envelope b) \<Longrightarrow> e_last (h_envelope b) = word_of_nat q"
    by (simp add: batch_ok_def Header_follows_def Let_def)
  then have "unat (e_last (h_envelope b)) = e"
    using b(2) unat_of_nat_u64 [OF q] by (auto simp: boundary_after_def split: if_splits)
  then show ?thesis using b(1) by (auto simp: batch_ok_def)
qed

lemma segs_chain_end:
  "segs_chain crc config seq ep segs e \<Longrightarrow> segs \<noteq> [] \<Longrightarrow> last_sequence crc (cf_image_bytes config) segs = e"
proof (induction rule: segs_chain.induct)
  case (segs_cons h seq ep ws n seq' off segs e)
  show ?case
  proof (cases "segs = []")
    case True
    then have e: "e = seq'" using segs_cons.hyps(7) by (auto elim: segs_nilE)
    show ?thesis
    proof (cases ws rule: rev_cases)
      case Nil
      then show ?thesis using segs_cons.hyps(4,6) True e by (auto simp: last_sequence_def elim: chain.cases)
    next
      case (snoc vs w)
      have "seq \<le> u64_max" using segs_cons.hyps(4) u64_nat [of "sh_preceding_sequence h"] by simp
      from chain_last [OF segs_cons.hyps(6) [unfolded snoc] this] True e snoc show ?thesis by (auto simp: last_sequence_def)
    qed
  next
    case False
    with segs_cons.IH show ?thesis by (simp add: last_sequence_def)
  qed
qed simp

section \<open>Properties\<close>

text \<open>
  C1. No completed sync is lost. Take any history of the log, with the batches reserved in every segment,
  and crash it: the files hold every finished segment and at least the batches of the current one
  that the last completed sync covered, then possibly more whole batches, then bytes that are not the next batch whole
  (cut short, with a damaged header, or with an intact header over a cut or damaged payload) and whatever follows.
  Inspection against a manifest boundary that is durable and between batches recovers a log that has published
  every durable write and nothing that was never issued, with the index that the recovered batches
  define. The index must have room for the recovered descriptors and for those a torn header announces.
\<close>
theorem durable_survives_crash:
  assumes "log_history crc l ss segs ws k" and "k \<le> m" and "base \<le> lg_durable l"
    and "files = segs @ [(current_header l, take m ws)]"
    and "log_files crc io 0 files tail"
    and "segs_torn crc (cf_image_bytes (lg_config l)) files (last_sequence crc (cf_image_bytes (lg_config l)) files) tail"
    and "2 * (segs_load crc (cf_image_bytes (lg_config l)) base files + torn_load crc (cf_image_bytes (lg_config l)) tail) \<le> lm_intervals lim"
    and "\<forall>(h, ws) \<in> set files. unsplit crc (cf_image_bytes (lg_config l)) base ws"
  shows "\<exists>rc. Log_inspect_in crc io (Inr ()) (Inr (highest, map (sh_number \<circ> fst) files)) (Inr ()) lim base = Inr rc \<and>
    lg_durable l \<le> lg_published (rc_log rc) \<and> lg_published (rc_log rc) \<le> lg_issued l \<and>
    (\<forall>x r. Intervals_at (lg_index (rc_log rc)) x r \<longleftrightarrow>
       segs_value crc (cf_image_bytes (lg_config l)) base 0 files x = Some r)"
proof -
  have inv: "Log_inv l" using log_reach_inv [OF log_history_reach [OF assms(1)]] by blast
  obtain e where e: "segs_chain crc (lg_config l) 0 0 files e" "lg_durable l \<le> e" "e \<le> lg_issued l"
    using history_recovers [OF assms(1-3)] unfolding assms(4) by blast
  have ne: "files \<noteq> []" and be: "base \<le> e" using assms(3,4) e(2) by auto
  have cap: "MAX_BATCH_BYTES + 2 * BLOCK_SIZE \<le> unat (cf_segment_bytes (lg_config l))"
    using Log_invD(17) [OF inv] by (simp add: MAX_BATCH_BYTES_def wal_constants)
  have to: "segs_torn crc (cf_image_bytes (lg_config l)) files e tail"
    using assms(6) segs_chain_end [OF e(1) ne] by simp
  show ?thesis using inspect_log [OF e(1) ne le0 be cap Log_invD(1) [OF inv] assms(5) to assms(7,8)] e(2,3) by metis
qed

section \<open>Witnesses\<close>

text \<open>Nothing is split by an empty manifest, and a header has few descriptors.\<close>

lemma unsplit_zero: "chain crc seg img c ws d \<Longrightarrow> fst (snd c) \<le> u64_max \<Longrightarrow> unsplit crc img 0 ws"
proof (induction rule: chain.induct)
  case (chain_cons c w h ws d)
  obtain n seq off where c: "c = (n, seq, off)" by (cases c)
  have dec: "Header_decode crc (take 4096 (Batch_bytes w)) img = Inr h" using chain_cons.hyps(1) by (simp add: c batch_ok_def)
  have "0 < unat (e_first (h_envelope h))" if "\<not> e_fence (h_envelope h)"
  proof -
    have "checked_add (word_of_nat seq) 1 = Some (e_first (h_envelope h))"
      using chain_cons.hyps(1) that by (simp add: c batch_ok_def Header_follows_def Let_def)
    then show ?thesis by (auto dest: checked_add_unat)
  qed
  moreover have "unsplit crc img 0 ws"
    using chain_cons.IH batch_ok_sequence [OF chain_cons.hyps(1) [unfolded c]] chain_cons.prems by (auto simp: c)
  ultimately show ?case using dec by (simp add: replays_def)
qed simp

lemma chain_load_bound: "chain_load crc img base ws \<le> 63 * length ws"
proof (induction ws)
  case (Cons w ws)
  have "e_descriptors (h_envelope h) \<le> 63" if "Header_decode crc (take 4096 (Batch_bytes w)) img = Inr h" for h
    using that by (auto simp: Header_decode_def wal_constants Let_def split: if_splits)
  then have "(case Header_decode crc (take 4096 (Batch_bytes w)) img of
        Inl _ \<Rightarrow> 0 | Inr h \<Rightarrow> if replays base h then e_descriptors (h_envelope h) else 0) \<le> 63"
    by (simp split: sum.split)
  then show ?case using Cons.IH by simp
qed simp

text \<open>The file of the first candidate after a crash that left one stray byte.\<close>

definition demo_files :: "(bytes \<Rightarrow> u32) \<Rightarrow> SegmentHeader \<Rightarrow> Batch list \<Rightarrow> RecoveryIo" where
  "demo_files crc h ws = (let bs = SegmentHeader_fill crc h @ concat (map Batch_bytes ws) @ [1] in
     \<lparr>ri_query = \<lambda>_. Inr (), ri_buffer = \<lambda>_ _. Inr (), ri_read = \<lambda>_ off n. Inr (subrange bs off n),
      ri_length = \<lambda>_. Inr (4096 + length (concat (map Batch_bytes ws)) + 1), ri_allocated = \<lambda>_. Inr 1060864, ri_pins = \<lambda>_. True\<rparr>)"

lemma demo_files_hold:
  "4096 + length (concat (map Batch_bytes ws)) < u64_max \<Longrightarrow> log_files crc (demo_files crc h ws) 0 [(h, ws)] [1]"
  by (simp add: demo_files_def segment_file_def holds_at_def Let_def)

text \<open>The first zeroed block of the demonstration log, published, fenced and synced.\<close>

lemma demo_history:
  "\<exists>l s f. log_history (\<lambda>_. 0) l [s] [] [sm_batch s, f] 2 \<and> lg_durable l = 1 \<and> lg_issued l = 1 \<and> lg_config l = demo_config"
proof -
  obtain l s l' where p: "Log_publish_append (\<lambda>_. 0) l s = Inr l'" "log_reach (\<lambda>_. 0) l' [s]" "\<not> lg_failed l'"
    "lg_config l' = demo_config" "Log_prepare_append (\<lambda>_. 0) demo_log demo_builder = Inr (l, s)" "lg_cohort l' = None"
    "\<not> lg_rotating l'" "lg_next_batch l' = 2" "lg_issued l' = 1" "lg_durable l' = 0" "lg_published l' = 1" "lg_pending_descriptors l' = 0"
    using demo_published by blast
  have inv: "Log_inv l'" using log_reach_inv [OF p(2)] by blast
  have "log_history (\<lambda>_. 0) demo_log [] [] [] 0" by (rule hist_created [OF demo_log_created]) (simp_all add: demo_config_def)
  from hist_appended [OF this demo_built p(5)] have "log_history (\<lambda>_. 0) l [s] [] [sm_batch s] 0" by simp
  from hist_published [OF this _ p(1)] have h: "log_history (\<lambda>_. 0) l' [s] [] [sm_batch s] 0" by simp
  have room: "lg_offset l' + 4096 \<le> unat (cf_segment_bytes (lg_config l'))" using Log_invD(13) [OF inv p(6)] p(9,10) by simp
  obtain l1 f where f: "Log_prepare_fence (\<lambda>_. 0) l' = Inr (l1, f)" "lg_cohort l1 = Some (Cohort_from f)"
    "unat (co_boundary (Cohort_from f)) = 1" "Log_owns l1 f = Inr ()" "lg_config l1 = demo_config" "lg_issued l1 = 1"
    "\<not> lg_failed l1" "e_fence (bt_envelope (sm_batch f))" "lg_published l1 = 1" "lg_pending_descriptors l1 = 0"
    using Log_prepare_fence_eq [OF inv p(3,6,7) _ room, of "\<lambda>_. 0"] p(3,4,8,9,11,12) by (auto simp: u64_max_def)
  have h1: "log_history (\<lambda>_. 0) l1 [s] [] [sm_batch s, sm_batch f] 0" using hist_fenced [OF h f(1)] by simp
  obtain l2 d where s: "Log_complete_sync l1 f = Inr (l2, d)"
    using f by (auto simp: Log_complete_sync_def Log_ready_to_sync_def Log_healthy_def Cohort_from_def Let_def)
  have inv1: "Log_inv l1" using log_reach_inv [OF log_history_reach [OF h1]] by blast
  note sp = Log_complete_sync_spec [OF inv1 s]
  have "lg_durable l2 = 1" "lg_issued l2 = 1" "lg_config l2 = demo_config" using sp f by auto
  then show ?thesis using hist_synced [OF h1 s] by (auto simp: numeral_2_eq_2)
qed

lemma demo_crash:
  "\<exists>l s f files. log_history (\<lambda>_. 0) l [s] [] [sm_batch s, f] 2 \<and> lg_durable l = 1 \<and> lg_config l = demo_config \<and>
     files = [(current_header l, [sm_batch s, f])] \<and> segs_chain (\<lambda>_. 0) demo_config 0 0 files 1 \<and>
     log_files (\<lambda>_. 0) (demo_files (\<lambda>_. 0) (current_header l) [sm_batch s, f]) 0 files [1] \<and> (\<forall>e. segs_torn (\<lambda>_. 0) 8192 files e [1]) \<and>
     2 * (segs_load (\<lambda>_. 0) 8192 0 files + torn_load (\<lambda>_. 0) 8192 [1]) \<le> 252 \<and> (\<forall>(h, ws) \<in> set files. unsplit (\<lambda>_. 0) 8192 0 ws)"
proof -
  obtain l s f where h: "log_history (\<lambda>_. 0) l [s] [] [sm_batch s, f] 2" "lg_durable l = 1" "lg_issued l = 1" "lg_config l = demo_config"
    using demo_history by blast
  let ?h = "current_header l" and ?ws = "[sm_batch s, f]"
  have inv: "Log_inv l" using log_reach_inv [OF log_history_reach [OF h(1)]] by blast
  note H = History_invD [OF log_history_inv [OF h(1)]]
  have img: "cf_image_bytes (lg_config l) = 8192" by (simp add: h(4) demo_config_def)
  have "segs_chain (\<lambda>_. 0) (lg_config l) 0 0 [(?h, ?ws)] (lg_issued l)"
    using segs_snoc [OF H(1-4) refl _ H(8)] by simp
  then have sc: "segs_chain (\<lambda>_. 0) demo_config 0 0 [(?h, ?ws)] 1" by (simp add: h(3,4))
  have "lg_offset l = 4096 + length (concat (map Batch_bytes ?ws))" using chain_offset [OF H(8)] by simp
  then have "4096 + length (concat (map Batch_bytes ?ws)) < u64_max" using Log_invD(1,12) [OF inv] by (simp add: u64_max_def)
  note fl = demo_files_hold [OF this, of "\<lambda>_. 0" ?h]
  have "unsplit (\<lambda>_. 0) 8192 0 ?ws" using unsplit_zero [OF H(8)] img by simp
  moreover have "2 * (segs_load (\<lambda>_. 0) 8192 0 [(?h, ?ws)] + torn_load (\<lambda>_. 0) 8192 [1]) \<le> 252"
    using chain_load_bound [of "\<lambda>_. 0" 8192 0 ?ws]
    by (simp add: segs_load_def torn_load_def Header_decode_def BLOCK_SIZE_def ensure_def)
  moreover have "segs_torn (\<lambda>_. 0) 8192 [(?h, ?ws)] e [1]" for e by (simp add: segs_torn_def torn_def)
  ultimately show ?thesis
    using h sc fl by (intro exI [of _ l] exI [of _ s] exI [of _ f] exI [of _ "[(?h, ?ws)]"]) simp
qed

theorem recovery_restores_prefix_witness:
  "\<exists>io (files :: (SegmentHeader \<times> Batch list) list) rc. Log_inspect_in (\<lambda>_. 0) io (Inr ()) (Inr (1, map (sh_number \<circ> fst) files)) (Inr ())
     \<lparr>lm_staging_bytes = 4243456, lm_intervals = 252\<rparr> 0 = Inr rc \<and> lg_published (rc_log rc) = 1"
proof -
  obtain l and s :: Submission and f files where c: "segs_chain (\<lambda>_. 0) demo_config 0 0 files 1" "files = [(current_header l, [sm_batch s, f])]"
    "log_files (\<lambda>_. 0) (demo_files (\<lambda>_. 0) (current_header l) [sm_batch s, f]) 0 files [1]" "\<forall>e. segs_torn (\<lambda>_. 0) 8192 files e [1]"
    "2 * (segs_load (\<lambda>_. 0) 8192 0 files + torn_load (\<lambda>_. 0) 8192 [1]) \<le> 252" "\<forall>(h, ws) \<in> set files. unsplit (\<lambda>_. 0) 8192 0 ws"
    using demo_crash by blast
  have ne: "files \<noteq> []" by (simp add: c(2))
  show ?thesis
    using recovery_restores_prefix [OF c(1) ne, of 0 "demo_files (\<lambda>_. 0) (current_header l) [sm_batch s, f]" "[1]"
        "\<lparr>lm_staging_bytes = 4243456, lm_intervals = 252\<rparr>" 1] c(3-6)
    by (auto simp: demo_config_def MAX_BATCH_BYTES_def wal_constants)
qed

theorem durable_survives_crash_witness:
  "\<exists>l ss ws io (files :: (SegmentHeader \<times> Batch list) list) rc. log_history (\<lambda>_. 0) l ss [] ws 2 \<and> lg_durable l = 1 \<and>
     Log_inspect_in (\<lambda>_. 0) io (Inr ()) (Inr (1, map (sh_number \<circ> fst) files)) (Inr ())
       \<lparr>lm_staging_bytes = 4243456, lm_intervals = 252\<rparr> 0 = Inr rc \<and> 1 \<le> lg_published (rc_log rc)"
proof -
  obtain l s f files where c: "log_history (\<lambda>_. 0) l [s] [] [sm_batch s, f] 2" "lg_durable l = 1" "lg_config l = demo_config"
    "files = [(current_header l, [sm_batch s, f])]"
    "log_files (\<lambda>_. 0) (demo_files (\<lambda>_. 0) (current_header l) [sm_batch s, f]) 0 files [1]" "\<forall>e. segs_torn (\<lambda>_. 0) 8192 files e [1]"
    "2 * (segs_load (\<lambda>_. 0) 8192 0 files + torn_load (\<lambda>_. 0) 8192 [1]) \<le> 252" "\<forall>(h, ws) \<in> set files. unsplit (\<lambda>_. 0) 8192 0 ws"
    using demo_crash by blast
  have img: "cf_image_bytes (lg_config l) = 8192" by (simp add: c(3) demo_config_def)
  have fl: "files = [] @ [(current_header l, take 2 [sm_batch s, f])]" by (simp add: c(4))
  have lim: "2 * (segs_load (\<lambda>_. 0) 8192 0 files + torn_load (\<lambda>_. 0) 8192 [1]) \<le> lm_intervals \<lparr>lm_staging_bytes = 4243456, lm_intervals = 252\<rparr>" using c(7) by simp
  obtain rc where "Log_inspect_in (\<lambda>_. 0) (demo_files (\<lambda>_. 0) (current_header l) [sm_batch s, f]) (Inr ())
      (Inr (1, map (sh_number \<circ> fst) files)) (Inr ()) \<lparr>lm_staging_bytes = 4243456, lm_intervals = 252\<rparr> 0 = Inr rc"
    "1 \<le> lg_published (rc_log rc)"
    using durable_survives_crash [OF c(1) order_refl le0 fl c(5), unfolded img, OF spec [OF c(6)] lim c(8), of 1] c(2) by auto
  then show ?thesis using c(1,2) by blast
qed

end
