(* ===== verification/Manifest_Tree.thy ===== *)
theory Manifest_Tree
  imports Manifest_Format
begin

text \<open>
  The copy-on-write extent tree of a manifest: \<^verbatim>\<open>core/src/manifest/tree.rs\<close> with \<^verbatim>\<open>node.rs\<close>,
  \<^verbatim>\<open>lookup.rs\<close> and \<^verbatim>\<open>editor.rs\<close>. The page reader is a function from offsets to pages, the answer of
  the memory budget to a page allocation a function of the pages already held. Read counters are
  statistics and are left out.
\<close>

lemma attempt_cong [fundef_cong]: "r = r' \<Longrightarrow> (\<And>x. r' = Inr x \<Longrightarrow> k x = k' x) \<Longrightarrow> attempt r k = attempt r' k'"
  by (cases r') simp_all

lemma ensure_fundef_cong [fundef_cong]:
  "c = c' \<Longrightarrow> e = e' \<Longrightarrow> (c' \<Longrightarrow> k = k') \<Longrightarrow> ensure c e k = ensure c' e' k'"
  by (rule ensure_cong)

section \<open>Nodes\<close>

record Cursor =
  cu_offset :: u64
  cu_level :: u16
  cu_minimum :: "u64 option"
  cu_lower :: u64
  cu_upper :: u64

definition Cursor_root :: "Commit \<Rightarrow> Cursor" where
  "Cursor_root c = \<lparr>cu_offset = rt_offset (cm_root c),
     cu_level = (if rt_height (cm_root c) = 0 then 0 else rt_height (cm_root c) - 1),
     cu_minimum = None, cu_lower = 0, cu_upper = cm_image_bytes c div BLOCK\<rparr>"

text \<open>Only called on the children of a decoded branch, whose level is at least one.\<close>

definition Cursor_child :: "Cursor \<Rightarrow> Child list \<Rightarrow> nat \<Rightarrow> Cursor" where
  "Cursor_child c children i =
     (let child = children ! i in
      \<lparr>cu_offset = ci_offset child, cu_level = cu_level c - 1, cu_minimum = Some (ci_start child),
       cu_lower = (if i = 0 then cu_lower c else ci_start child),
       cu_upper = (if i + 1 < length children then ci_start (children ! (i + 1)) else cu_upper c)\<rparr>)"

definition Cursor_children :: "Cursor \<Rightarrow> Child list \<Rightarrow> Cursor list" where
  "Cursor_children c children = map (Cursor_child c children) [0..<length children]"

datatype Node = NodeLeaf "Extent list" | NodeBranch "Child list"

fun Node_minimum :: "Node \<Rightarrow> u64" where
  "Node_minimum (NodeLeaf entries) = ex_start (hd entries)"
| "Node_minimum (NodeBranch children) = ci_start (hd children)"

definition Node_decode :: "Page \<Rightarrow> Cursor \<Rightarrow> Node result" where
  "Node_decode page cursor =
     ensure (Page_level page = cu_level cursor) (InvalidData ''manifest child level'')
    (attempt
       (case pg_kind page of
          Leaf \<Rightarrow> attempt (Page_extents page) (\<lambda>entries.
            ensure (list_all (\<lambda>e. ex_start e \<ge> cu_lower cursor \<and> ex_end e \<le> cu_upper cursor) entries)
              (InvalidData ''manifest leaf escapes parent bounds'') (Inr (NodeLeaf entries)))
        | Branch \<Rightarrow> attempt (Page_children page) (\<lambda>children.
            ensure (list_all (\<lambda>c. ci_start c \<ge> cu_lower cursor \<and> ci_start c < cu_upper cursor) children)
              (InvalidData ''manifest branch escapes parent bounds'') (Inr (NodeBranch children)))
        | _ \<Rightarrow> Inl (InvalidData ''tree points to a non-tree page''))
       (\<lambda>node.
          ensure (case cu_minimum cursor of None \<Rightarrow> True | Some minimum \<Rightarrow> minimum = Node_minimum node)
            (InvalidData ''manifest child minimum differs from parent'') (Inr node)))"

section \<open>Views\<close>

definition require_before_commit :: "u64 \<Rightarrow> u64 \<Rightarrow> unit result" where
  "require_before_commit offset end = ensure (offset < end - BLOCK) (InvalidData ''tree page beyond COMMIT'') (Inr ())"

definition validate_view :: "Commit \<Rightarrow> u64 \<Rightarrow> unit result" where
  "validate_view commit end =
     ensure (end \<ge> 2 * BLOCK \<and> is_multiple_of end BLOCK \<and> end \<le> 2 ^ 63 - 1) (InvalidData ''manifest committed end'')
       (Commit_validate commit (end - BLOCK))"

record Tree =
  tr_source :: "u64 \<Rightarrow> bytes result"
  tr_commit :: Commit
  tr_end :: u64

definition Tree_new :: "bool \<Rightarrow> (u64 \<Rightarrow> bytes result) \<Rightarrow> Commit \<Rightarrow> u64 \<Rightarrow> Tree result" where
  "Tree_new granted source commit end =
     attempt (validate_view commit end) (\<lambda>_.
     ensure granted (OutOfMemory ''aligned buffer allocation denied'')
       (Inr \<lparr>tr_source = source, tr_commit = commit, tr_end = end\<rparr>))"

definition Tree_read_node :: "(bytes \<Rightarrow> u32) \<Rightarrow> Tree \<Rightarrow> Cursor \<Rightarrow> Node result" where
  "Tree_read_node crc tree cursor =
     attempt (require_before_commit (cu_offset cursor) (tr_end tree)) (\<lambda>_.
     attempt (tr_source tree (cu_offset cursor)) (\<lambda>bs.
     attempt (Page_decode crc bs (cu_offset cursor) (cm_image_bytes (tr_commit tree))) (\<lambda>page.
     Node_decode page cursor)))"

section \<open>Lookup\<close>

datatype LookupState = LookupPage u64 u16 | LookupComplete "hash option"

record Lookup =
  lk_image_bytes :: u64
  lk_end :: u64
  lk_block :: u64
  lk_cursor :: "Cursor option"
  lk_result :: "hash option"
  lk_failed :: bool

definition Lookup_new :: "Commit \<Rightarrow> u64 \<Rightarrow> u64 \<Rightarrow> Lookup result" where
  "Lookup_new commit end block =
     attempt (validate_view commit end) (\<lambda>_.
     ensure (block < cm_image_bytes commit div BLOCK) (InvalidData ''manifest lookup outside image'')
       (Inr \<lparr>lk_image_bytes = cm_image_bytes commit, lk_end = end, lk_block = block,
          lk_cursor = (if rt_offset (cm_root commit) \<noteq> 0 then Some (Cursor_root commit) else None),
          lk_result = None, lk_failed = False\<rparr>))"

definition Lookup_state :: "Lookup \<Rightarrow> LookupState result" where
  "Lookup_state lk =
     ensure (\<not> lk_failed lk) (InvalidData ''manifest lookup failed'')
      (case lk_cursor lk of
         Some cursor \<Rightarrow> attempt (require_before_commit (cu_offset cursor) (lk_end lk)) (\<lambda>_.
           Inr (LookupPage (cu_offset cursor) (cu_level cursor)))
       | None \<Rightarrow> Inr (LookupComplete (lk_result lk)))"

definition rposition :: "('a \<Rightarrow> bool) \<Rightarrow> 'a list \<Rightarrow> nat option" where
  "rposition P xs = find (\<lambda>i. P (xs ! i)) (rev [0..<length xs])"

definition find_extent :: "u64 \<Rightarrow> Extent list \<Rightarrow> hash option" where
  "find_extent block entries =
     (case find (\<lambda>e. ex_start e \<le> block \<and> block < ex_end e) entries of None \<Rightarrow> None | Some e \<Rightarrow> ex_hash e)"

definition Lookup_accept :: "(bytes \<Rightarrow> u32) \<Rightarrow> Lookup \<Rightarrow> u64 \<Rightarrow> bytes \<Rightarrow> Lookup \<times> LookupState result" where
  "Lookup_accept crc lk offset bs =
     (case Lookup_state lk of
        Inl e \<Rightarrow> (lk, Inl e)
      | Inr _ \<Rightarrow> (case lk_cursor lk of
          None \<Rightarrow> (lk, Inl (Other ''manifest lookup already complete''))
        | Some cursor \<Rightarrow>
            (case ensure (offset = cu_offset cursor) (InvalidData ''manifest lookup completion offset'')
                (attempt (Page_decode crc bs offset (lk_image_bytes lk)) (\<lambda>page. Node_decode page cursor)) of
               Inl e \<Rightarrow> (lk\<lparr>lk_failed := True\<rparr>, Inl e)
             | Inr node \<Rightarrow>
                 let lk = (case node of
                       NodeLeaf entries \<Rightarrow> lk\<lparr>lk_result := find_extent (lk_block lk) entries, lk_cursor := None\<rparr>
                     | NodeBranch children \<Rightarrow> lk\<lparr>lk_cursor :=
                         map_option (Cursor_child cursor children) (rposition (\<lambda>c. ci_start c \<le> lk_block lk) children)\<rparr>)
                 in (lk, Lookup_state lk))))"

text \<open>Decoding a branch fixes the cursor's level, so every descent ends.\<close>

lemma Node_decode_level:
  assumes "Page_decode crc bs offset img = Inr page" and "Node_decode page cursor = Inr node"
  shows "Page_level page = cu_level cursor" and "\<And>cs. node = NodeBranch cs \<Longrightarrow> 1 \<le> cu_level cursor"
    and "\<And>es. node = NodeLeaf es \<Longrightarrow> cu_level cursor = 0"
proof -
  show l: "Page_level page = cu_level cursor" using assms(2) by (simp add: Node_decode_def)
  show "1 \<le> cu_level cursor" if "node = NodeBranch cs" for cs
  proof -
    have "pg_kind page = Branch" using assms(2) that by (cases "pg_kind page") (auto simp: Node_decode_def)
    then show ?thesis using Page_decode_parts(8) [OF assms(1)] l by (simp add: Page_validate_def Page_validate_branch_def)
  qed
  show "cu_level cursor = 0" if "node = NodeLeaf es" for es
  proof -
    have "pg_kind page = Leaf" using assms(2) that by (cases "pg_kind page") (auto simp: Node_decode_def)
    then show ?thesis using Page_decode_parts(8) [OF assms(1)] l by (simp add: Page_validate_def Page_validate_leaf_def)
  qed
qed

lemma unat_level_child: "1 \<le> (w :: u16) \<Longrightarrow> unat (w - 1) + 1 = unat w"
proof -
  assume "1 \<le> w"
  then have "1 \<le> unat w" by (simp add: word_le_nat_alt)
  then show ?thesis by (simp add: unat_sub_if')
qed

lemma Cursor_child_level [simp]: "cu_level (Cursor_child c cs i) = cu_level c - 1"
  by (simp add: Cursor_child_def Let_def)

definition lookup_depth :: "Lookup \<Rightarrow> nat" where
  "lookup_depth lk = (case lk_cursor lk of None \<Rightarrow> 0 | Some c \<Rightarrow> Suc (unat (cu_level c)))"

lemma Lookup_accept_descends:
  assumes "Lookup_accept crc lk offset bs = (lk', Inr st)"
  shows "lookup_depth lk' < lookup_depth lk"
proof -
  obtain c where c: "lk_cursor lk = Some c"
    using assms by (cases "lk_cursor lk") (auto simp: Lookup_accept_def split: sum.splits)
  obtain page node where n: "Page_decode crc bs offset (lk_image_bytes lk) = Inr page" "Node_decode page c = Inr node"
    and lk': "lk' = (case node of
                       NodeLeaf entries \<Rightarrow> lk\<lparr>lk_result := find_extent (lk_block lk) entries, lk_cursor := None\<rparr>
                     | NodeBranch children \<Rightarrow> lk\<lparr>lk_cursor :=
                         map_option (Cursor_child c children) (rposition (\<lambda>c. ci_start c \<le> lk_block lk) children)\<rparr>)"
    using assms c by (auto simp: Lookup_accept_def Let_def split: sum.splits)
  show ?thesis
  proof (cases node)
    case (NodeLeaf es)
    then show ?thesis by (simp add: lk' lookup_depth_def c)
  next
    case (NodeBranch cs)
    have "unat (cu_level c - 1) + 1 = unat (cu_level c)" using Node_decode_level(2) [OF n NodeBranch] by (rule unat_level_child)
    then show ?thesis
      by (cases "rposition (\<lambda>c. ci_start c \<le> lk_block lk) cs") (simp_all add: lk' NodeBranch lookup_depth_def c)
  qed
qed

function get_loop :: "(bytes \<Rightarrow> u32) \<Rightarrow> (u64 \<Rightarrow> bytes result) \<Rightarrow> Lookup \<Rightarrow> hash option result" where
  "get_loop crc source lk =
     (case Lookup_state lk of
        Inl e \<Rightarrow> Inl e
      | Inr (LookupComplete hash) \<Rightarrow> Inr hash
      | Inr (LookupPage offset level) \<Rightarrow>
          (case source offset of
             Inl e \<Rightarrow> Inl e
           | Inr bs \<Rightarrow> (case Lookup_accept crc lk offset bs of
               (lk', Inl e) \<Rightarrow> Inl e
             | (lk', Inr st) \<Rightarrow> get_loop crc source lk')))"
  by pat_completeness auto
termination
  by (relation "measure (\<lambda>(crc, source, lk). lookup_depth lk)") (auto dest: Lookup_accept_descends [OF sym])

declare get_loop.simps [simp del]

definition Tree_get :: "(bytes \<Rightarrow> u32) \<Rightarrow> Tree \<Rightarrow> u64 \<Rightarrow> hash option result" where
  "Tree_get crc tree block =
     attempt (Lookup_new (tr_commit tree) (tr_end tree) block) (get_loop crc (tr_source tree))"

section \<open>Traversal\<close>

text \<open>Visitors thread a state of their own; their errors end the walk.\<close>

fun visit_extents :: "('s \<Rightarrow> Extent \<Rightarrow> 's result) \<Rightarrow> Extent list \<Rightarrow> 's \<Rightarrow> 's result" where
  "visit_extents visitor [] s = Inr s"
| "visit_extents visitor (e # es) s = attempt (visitor s e) (visit_extents visitor es)"

lemma Tree_read_node_level:
  assumes "Tree_read_node crc tree cursor = Inr node"
  shows "\<And>cs. node = NodeBranch cs \<Longrightarrow> 1 \<le> cu_level cursor" and "\<And>es. node = NodeLeaf es \<Longrightarrow> cu_level cursor = 0"
  using assms Node_decode_level(2,3) by (auto simp: Tree_read_node_def)

definition cursors_level :: "Cursor list \<Rightarrow> nat" where
  "cursors_level cs = Max (insert 0 ((\<lambda>c. unat (cu_level c)) ` set cs))"

lemma cursors_level_Nil [simp]: "cursors_level [] = 0"
  by (simp add: cursors_level_def)

lemma cursors_level_Cons [simp]: "cursors_level (c # cs) = max (unat (cu_level c)) (cursors_level cs)"
  unfolding cursors_level_def by (subst Max_insert [symmetric]) (auto simp: insert_commute)

lemma cursors_level_children:
  assumes "1 \<le> cu_level c"
  shows "cursors_level (Cursor_children c cs) < unat (cu_level c)"
proof -
  have "unat (cu_level c - 1) + 1 = unat (cu_level c)" by (rule unat_level_child [OF assms])
  then show ?thesis by (auto simp: cursors_level_def Cursor_children_def)
qed

lemma descends_children: "1 \<le> cu_level c \<Longrightarrow> Suc (2 * cursors_level (Cursor_children c cs)) < 2 * unat (cu_level c)"
  using cursors_level_children [of c cs] by simp

function visit :: "(bytes \<Rightarrow> u32) \<Rightarrow> Tree \<Rightarrow> ('s \<Rightarrow> u64 \<Rightarrow> 's result) \<Rightarrow> ('s \<Rightarrow> Extent \<Rightarrow> 's result) \<Rightarrow> Cursor \<Rightarrow> 's \<Rightarrow> 's result"
  and visit_children :: "(bytes \<Rightarrow> u32) \<Rightarrow> Tree \<Rightarrow> ('s \<Rightarrow> u64 \<Rightarrow> 's result) \<Rightarrow> ('s \<Rightarrow> Extent \<Rightarrow> 's result) \<Rightarrow> Cursor list \<Rightarrow> 's \<Rightarrow> 's result" where
  "visit crc tree page visitor cursor s =
     attempt (Tree_read_node crc tree cursor) (\<lambda>node.
     attempt (page s (cu_offset cursor)) (\<lambda>s.
     case node of
       NodeLeaf entries \<Rightarrow> visit_extents visitor entries s
     | NodeBranch children \<Rightarrow> visit_children crc tree page visitor (Cursor_children cursor children) s))"
| "visit_children crc tree page visitor [] s = Inr s"
| "visit_children crc tree page visitor (c # cs) s =
     attempt (visit crc tree page visitor c s) (visit_children crc tree page visitor cs)"
  by pat_completeness auto
termination
  by (relation "measures [\<lambda>x. case x of Inl (_, _, _, _, c, _) \<Rightarrow> 2 * unat (cu_level c) + 1
      | Inr (_, _, _, _, cs, _) \<Rightarrow> 2 * cursors_level cs + 2, \<lambda>x. case x of Inl _ \<Rightarrow> 0 | Inr (_, _, _, _, cs, _) \<Rightarrow> length cs]")
    (auto dest!: Tree_read_node_level(1) [OF _ refl] simp: descends_children max_def)

declare visit.simps [simp del]

definition Tree_walk_pages ::
  "(bytes \<Rightarrow> u32) \<Rightarrow> Tree \<Rightarrow> ('s \<Rightarrow> u64 \<Rightarrow> 's result) \<Rightarrow> ('s \<Rightarrow> Extent \<Rightarrow> 's result) \<Rightarrow> 's \<Rightarrow> 's result" where
  "Tree_walk_pages crc tree page visitor s =
     (if rt_offset (cm_root (tr_commit tree)) \<noteq> 0
      then visit crc tree page visitor (Cursor_root (tr_commit tree)) s else Inr s)"

definition Tree_walk :: "(bytes \<Rightarrow> u32) \<Rightarrow> Tree \<Rightarrow> ('s \<Rightarrow> Extent \<Rightarrow> 's result) \<Rightarrow> 's \<Rightarrow> 's result" where
  "Tree_walk crc tree visitor = Tree_walk_pages crc tree (\<lambda>s _. Inr s) visitor"

section \<open>Preparation of an edit\<close>

definition MAX_CHANGES :: nat where "MAX_CHANGES = 256 + 62"
definition MAX_TRANSACTION_BYTES :: nat where "MAX_TRANSACTION_BYTES = 128 * 1024 * 1024"

record AlignedPages =
  ap_blocks :: "bytes list"
  ap_limit :: nat

definition AlignedPages_new :: "nat \<Rightarrow> AlignedPages" where
  "AlignedPages_new limit = \<lparr>ap_blocks = [], ap_limit = limit\<rparr>"

definition AlignedPages_push_zeroed :: "(nat \<Rightarrow> bool) \<Rightarrow> AlignedPages \<Rightarrow> AlignedPages result" where
  "AlignedPages_push_zeroed grant p =
     ensure (length (ap_blocks p) \<noteq> ap_limit p) (OutOfMemory ''page plan exhausted'')
    (ensure (grant (length (ap_blocks p))) (OutOfMemory ''page allocation denied'')
       (Inr (p\<lparr>ap_blocks := ap_blocks p @ [replicate BLOCK_SIZE 0]\<rparr>)))"

definition AlignedPages_as_slice :: "AlignedPages \<Rightarrow> bytes" where
  "AlignedPages_as_slice p = concat (ap_blocks p)"

text \<open>A page is zeroed, then filled in place by an encoder.\<close>

definition fill_page :: "(nat \<Rightarrow> bool) \<Rightarrow> AlignedPages \<Rightarrow> (bytes \<Rightarrow> bytes result) \<Rightarrow> AlignedPages result" where
  "fill_page grant p encode =
     attempt (AlignedPages_push_zeroed grant p) (\<lambda>p.
     attempt (encode (List.last (ap_blocks p))) (\<lambda>bs. Inr (p\<lparr>ap_blocks := butlast (ap_blocks p) @ [bs]\<rparr>)))"

record Editor =
  ed_tree :: Tree
  ed_buffer :: AlignedPages
  ed_root :: Root
  ed_pages :: nat
  ed_max_pages_per_change :: nat

definition Editor_next_offset :: "Editor \<Rightarrow> u64" where
  "Editor_next_offset ed = tr_end (ed_tree ed) + word_of_nat (ed_pages ed * BLOCK_SIZE)"

abbreviation ed_image :: "Editor \<Rightarrow> u64" where
  "ed_image ed \<equiv> cm_image_bytes (tr_commit (ed_tree ed))"

definition Editor_read :: "(bytes \<Rightarrow> u32) \<Rightarrow> Editor \<Rightarrow> Cursor \<Rightarrow> Node result" where
  "Editor_read crc ed cursor =
     (if cu_offset cursor < tr_end (ed_tree ed) then Tree_read_node crc (ed_tree ed) cursor
      else let start = unat (cu_offset cursor - tr_end (ed_tree ed)) in
        ensure (BLOCK_SIZE dvd start \<and> start < ed_pages ed * BLOCK_SIZE)
          (InvalidData ''manifest points to an unwritten transaction page'')
       (attempt (Page_decode crc (subrange (AlignedPages_as_slice (ed_buffer ed)) start BLOCK_SIZE) (cu_offset cursor) (ed_image ed))
          (\<lambda>page. Node_decode page cursor)))"

text \<open>\<^verbatim>\<open>slice::chunks\<close> of a positive width: the last part may be shorter.\<close>

fun parts :: "nat \<Rightarrow> 'a list \<Rightarrow> 'a list list" where
  "parts n [] = []"
| "parts n (x # xs) = (x # take (n - 1) xs) # parts n (drop (n - 1) xs)"

definition part_width :: "nat \<Rightarrow> nat \<Rightarrow> nat" where
  "part_width capacity n = (if n > capacity then (n + 1) div 2 else max n 1)"

definition push_link :: "Child list \<Rightarrow> Child \<Rightarrow> Child list result" where
  "push_link links link = ensure (length links < 2) (Other ''insufficient capacity'') (Inr (links @ [link]))"

fun leaf_pages :: "(bytes \<Rightarrow> u32) \<Rightarrow> (nat \<Rightarrow> bool) \<Rightarrow> Extent list list \<Rightarrow> Editor \<Rightarrow> Child list \<Rightarrow> (Editor \<times> Child list) result" where
  "leaf_pages crc grant [] ed links = Inr (ed, links)"
| "leaf_pages crc grant (part # rest) ed links =
     (let offset = Editor_next_offset ed in
      attempt (fill_page grant (ed_buffer ed) (\<lambda>out. leaf_into crc out offset (ed_image ed) part)) (\<lambda>buffer.
      attempt (push_link links \<lparr>ci_start = ex_start (hd part), ci_offset = offset\<rparr>) (\<lambda>links.
      leaf_pages crc grant rest (ed\<lparr>ed_buffer := buffer, ed_pages := ed_pages ed + 1\<rparr>) links)))"

definition Editor_leaves :: "(bytes \<Rightarrow> u32) \<Rightarrow> (nat \<Rightarrow> bool) \<Rightarrow> Editor \<Rightarrow> Extent list \<Rightarrow> (Editor \<times> Child list) result" where
  "Editor_leaves crc grant ed entries =
     leaf_pages crc grant (parts (part_width LEAF_CAPACITY (length entries)) entries) ed []"

fun branch_pages ::
  "(bytes \<Rightarrow> u32) \<Rightarrow> (nat \<Rightarrow> bool) \<Rightarrow> u16 \<Rightarrow> Child list list \<Rightarrow> Editor \<Rightarrow> Child list \<Rightarrow> (Editor \<times> Child list) result" where
  "branch_pages crc grant level [] ed links = Inr (ed, links)"
| "branch_pages crc grant level (part # rest) ed links =
     (let offset = Editor_next_offset ed in
      attempt (fill_page grant (ed_buffer ed) (\<lambda>out. branch_into crc out offset (ed_image ed) level part)) (\<lambda>buffer.
      attempt (push_link links \<lparr>ci_start = ci_start (hd part), ci_offset = offset\<rparr>) (\<lambda>links.
      branch_pages crc grant level rest (ed\<lparr>ed_buffer := buffer, ed_pages := ed_pages ed + 1\<rparr>) links)))"

definition Editor_branches ::
  "(bytes \<Rightarrow> u32) \<Rightarrow> (nat \<Rightarrow> bool) \<Rightarrow> Editor \<Rightarrow> u16 \<Rightarrow> Child list \<Rightarrow> (Editor \<times> Child list) result" where
  "Editor_branches crc grant ed level children =
     branch_pages crc grant level (parts (part_width BRANCH_CAPACITY (length children)) children) ed []"

text \<open>What an edit leaves of one entry, and the entries of a leaf after it.\<close>

definition cut_extent :: "Extent \<Rightarrow> Extent \<Rightarrow> Extent list" where
  "cut_extent edit entry =
     (if ex_end entry \<le> ex_start edit \<or> ex_start entry \<ge> ex_end edit then [entry]
      else (if ex_start entry < ex_start edit then [entry\<lparr>ex_end := ex_start edit\<rparr>] else []) @
           (if ex_end entry > ex_end edit then [entry\<lparr>ex_start := ex_end edit\<rparr>] else []))"

definition edit_entries :: "Extent \<Rightarrow> Extent list \<Rightarrow> Extent list" where
  "edit_entries edit original = sort_key ex_start
     (concat (map (cut_extent edit) original) @ (if ex_hash edit \<noteq> None then [edit] else []))"

text \<open>
  Reading a node and modifying it: \<^verbatim>\<open>modify\<close> is only called on a node just read at its cursor. The
  capacity of the entry array is checked once, for the pushes that fill it.
\<close>

lemma Editor_read_level:
  assumes "Editor_read crc ed cursor = Inr node"
  shows "\<And>cs. node = NodeBranch cs \<Longrightarrow> 1 \<le> cu_level cursor" and "\<And>es. node = NodeLeaf es \<Longrightarrow> cu_level cursor = 0"
  using assms Node_decode_level(2,3) Tree_read_node_level
  by (auto simp: Editor_read_def Let_def split: if_splits)

function modify ::
  "(bytes \<Rightarrow> u32) \<Rightarrow> (nat \<Rightarrow> bool) \<Rightarrow> Extent \<Rightarrow> Cursor \<Rightarrow> Editor \<Rightarrow> (Editor \<times> Child list) result"
  and modify_children ::
  "(bytes \<Rightarrow> u32) \<Rightarrow> (nat \<Rightarrow> bool) \<Rightarrow> Extent \<Rightarrow> Child list \<Rightarrow> Cursor list \<Rightarrow> Child list \<Rightarrow> Editor \<Rightarrow> (Editor \<times> Child list) result" where
  "modify crc grant edit cursor ed =
     attempt (Editor_read crc ed cursor) (\<lambda>node.
     let unchanged = \<lparr>ci_start = Node_minimum node, ci_offset = cu_offset cursor\<rparr> in
     case node of
       NodeLeaf original \<Rightarrow>
         let entries = edit_entries edit original in
         ensure (length entries \<le> LEAF_CAPACITY + 2) (Other ''insufficient capacity'')
        (if entries = original then Inr (ed, [unchanged]) else Editor_leaves crc grant ed entries)
     | NodeBranch original \<Rightarrow>
         attempt (modify_children crc grant edit original (Cursor_children cursor original) [] ed) (\<lambda>(ed, children).
         if children = original then Inr (ed, [unchanged]) else Editor_branches crc grant ed (cu_level cursor) children))"
| "modify_children crc grant edit (child # original) (next # cursors) children ed =
     (if ex_end edit \<le> cu_lower next \<or> ex_start edit \<ge> cu_upper next
      then ensure (length children + 1 \<le> BRANCH_CAPACITY + 2) (Other ''insufficient capacity'')
             (modify_children crc grant edit original cursors (children @ [child]) ed)
      else if \<not> (ex_hash edit = None \<and> ex_start edit \<le> cu_lower next \<and> ex_end edit \<ge> cu_upper next)
      then attempt (modify crc grant edit next ed) (\<lambda>(ed, replacement).
             ensure (length children + length replacement \<le> BRANCH_CAPACITY + 2) (Other ''insufficient capacity'')
               (modify_children crc grant edit original cursors (children @ replacement) ed))
      else modify_children crc grant edit original cursors children ed)"
| "modify_children crc grant edit [] cursors children ed = Inr (ed, children)"
| "modify_children crc grant edit original [] children ed = Inr (ed, children)"
  by pat_completeness auto
termination
  by (relation "measures [\<lambda>x. case x of Inl (_, _, _, c, _) \<Rightarrow> 2 * unat (cu_level c) + 1
      | Inr (_, _, _, _, cs, _, _) \<Rightarrow> 2 * cursors_level cs + 2, \<lambda>x. case x of Inl _ \<Rightarrow> 0 | Inr (_, _, _, _, cs, _, _) \<Rightarrow> length cs]")
    (auto dest!: Editor_read_level(1) [OF _ refl] simp: descends_children max_def)

declare modify.simps [simp del]

definition root_cursor :: "Editor \<Rightarrow> Cursor" where
  "root_cursor ed = \<lparr>cu_offset = rt_offset (ed_root ed), cu_level = rt_height (ed_root ed) - 1,
     cu_minimum = None, cu_lower = 0, cu_upper = ed_image ed div BLOCK\<rparr>"

lemma unat_height_pred: "1 < (w :: u16) \<Longrightarrow> unat (w - 1) < unat w"
  using unat_level_child [of w] by (simp add: order_less_imp_le)

function Editor_collapse :: "(bytes \<Rightarrow> u32) \<Rightarrow> Editor \<Rightarrow> Editor result" where
  "Editor_collapse crc ed =
     (if rt_height (ed_root ed) > 1
      then attempt (Editor_read crc ed (root_cursor ed)) (\<lambda>node. case node of
             NodeLeaf _ \<Rightarrow> Inl (Panic ''unreachable'')
           | NodeBranch children \<Rightarrow>
               if length children \<noteq> 1 then Inr ed
               else Editor_collapse crc
                      (ed\<lparr>ed_root := \<lparr>rt_offset = ci_offset (children ! 0), rt_height = rt_height (ed_root ed) - 1\<rparr>\<rparr>))
      else Inr ed)"
  by pat_completeness auto
termination
  by (relation "measure (\<lambda>(crc, ed). unat (rt_height (ed_root ed)))") (auto intro: unat_height_pred)

declare Editor_collapse.simps [simp del]

definition no_root :: Root where
  "no_root = \<lparr>rt_offset = 0, rt_height = 0\<rparr>"

definition Editor_apply :: "(bytes \<Rightarrow> u32) \<Rightarrow> (nat \<Rightarrow> bool) \<Rightarrow> Editor \<Rightarrow> Extent \<Rightarrow> Editor result" where
  "Editor_apply crc grant ed edit =
     (let blocks = ed_image ed div BLOCK in
      if ex_hash edit = None \<and> ex_start edit = 0 \<and> ex_end edit = blocks then Inr (ed\<lparr>ed_root := no_root\<rparr>)
      else if rt_offset (ed_root ed) = 0
      then if ex_hash edit \<noteq> None
           then attempt (Editor_leaves crc grant ed [edit]) (\<lambda>(ed, links).
                  Inr (ed\<lparr>ed_root := \<lparr>rt_offset = ci_offset (links ! 0), rt_height = 1\<rparr>\<rparr>))
           else Inr ed
      else attempt (modify crc grant edit (root_cursor ed) ed) (\<lambda>(ed, links).
        attempt
          (if length links = 0 then Inr (ed\<lparr>ed_root := no_root\<rparr>)
           else if length links = 1
           then Inr (ed\<lparr>ed_root := \<lparr>rt_offset = ci_offset (links ! 0), rt_height = rt_height (ed_root ed)\<rparr>\<rparr>)
           else ensure (rt_height (ed_root ed) < MAX_HEIGHT) (InvalidData ''manifest height exhausted'')
             (attempt (Editor_branches crc grant ed (rt_height (ed_root ed)) links) (\<lambda>(ed, tops).
                Inr (ed\<lparr>ed_root := \<lparr>rt_offset = ci_offset (tops ! 0), rt_height = rt_height (ed_root ed) + 1\<rparr>\<rparr>))))
          (Editor_collapse crc)))"

text \<open>Emission of the reachable draft pages, children first.\<close>

function emit :: "(bytes \<Rightarrow> u32) \<Rightarrow> (nat \<Rightarrow> bool) \<Rightarrow> Editor \<Rightarrow> Cursor \<Rightarrow> AlignedPages \<Rightarrow> (u64 \<times> AlignedPages) result"
  and emit_children :: "(bytes \<Rightarrow> u32) \<Rightarrow> (nat \<Rightarrow> bool) \<Rightarrow> Editor \<Rightarrow> Cursor list \<Rightarrow> AlignedPages \<Rightarrow> (u64 list \<times> AlignedPages) result" where
  "emit crc grant ed cursor out =
     (if cu_offset cursor < tr_end (ed_tree ed) then Inr (cu_offset cursor, out)
      else attempt (Editor_read crc ed cursor) (\<lambda>node. case node of
          NodeLeaf entries \<Rightarrow>
            let offset = tr_end (ed_tree ed) + word_of_nat (length (AlignedPages_as_slice out)) in
            attempt (fill_page grant out (\<lambda>page. leaf_into crc page offset (ed_image ed) entries)) (\<lambda>out.
            Inr (offset, out))
        | NodeBranch children \<Rightarrow>
            attempt (emit_children crc grant ed (Cursor_children cursor children) out) (\<lambda>(offsets, out).
            let offset = tr_end (ed_tree ed) + word_of_nat (length (AlignedPages_as_slice out));
                children = map2 (\<lambda>child offset. child\<lparr>ci_offset := offset\<rparr>) children offsets in
            attempt (fill_page grant out (\<lambda>page. branch_into crc page offset (ed_image ed) (cu_level cursor) children)) (\<lambda>out.
            Inr (offset, out)))))"
| "emit_children crc grant ed [] out = Inr ([], out)"
| "emit_children crc grant ed (c # cs) out =
     attempt (emit crc grant ed c out) (\<lambda>(offset, out).
     attempt (emit_children crc grant ed cs out) (\<lambda>(offsets, out). Inr (offset # offsets, out)))"
  by pat_completeness auto
termination
  by (relation "measures [\<lambda>x. case x of Inl (_, _, _, c, _) \<Rightarrow> 2 * unat (cu_level c) + 1
      | Inr (_, _, _, cs, _) \<Rightarrow> 2 * cursors_level cs + 2, \<lambda>x. case x of Inl _ \<Rightarrow> 0 | Inr (_, _, _, cs, _) \<Rightarrow> length cs]")
    (auto dest!: Editor_read_level(1) [OF _ refl] simp: descends_children max_def)

declare emit.simps [simp del]

record EditStats =
  es_changes :: nat
  es_written_pages :: nat
  es_max_pages_per_change :: nat

record ManifestPrepared =
  pr_buffer :: AlignedPages
  pr_previous :: Commit
  pr_commit :: Commit
  pr_offset :: u64
  pr_stats :: EditStats

definition Prepared_bytes :: "ManifestPrepared \<Rightarrow> bytes" where
  "Prepared_bytes p = take (es_written_pages (pr_stats p) * BLOCK_SIZE) (AlignedPages_as_slice (pr_buffer p))"

definition check_edit :: "u64 \<Rightarrow> Extent \<Rightarrow> bool" where
  "check_edit blocks edit \<longleftrightarrow> ex_start edit < ex_end edit \<and> ex_end edit \<le> blocks \<and>
     (ex_hash edit = None \<or> ex_end edit - ex_start edit = 1)"

fun apply_edits :: "(bytes \<Rightarrow> u32) \<Rightarrow> (nat \<Rightarrow> bool) \<Rightarrow> Extent list \<Rightarrow> Editor \<Rightarrow> Editor result" where
  "apply_edits crc grant [] ed = Inr ed"
| "apply_edits crc grant (edit # edits) ed =
     (let before = ed_pages ed; bound = 8 * unat (max (rt_height (ed_root ed)) 1) + 8 in
      attempt (Editor_apply crc grant ed edit) (\<lambda>ed.
      let emitted = ed_pages ed - before in
      ensure (emitted \<le> bound) (InvalidData ''COW edit exceeded 8H+8 pages'')
        (apply_edits crc grant edits (ed\<lparr>ed_max_pages_per_change := max (ed_max_pages_per_change ed) emitted\<rparr>))))"

definition emit_root :: "(bytes \<Rightarrow> u32) \<Rightarrow> (nat \<Rightarrow> bool) \<Rightarrow> Editor \<Rightarrow> AlignedPages \<Rightarrow> (Root \<times> AlignedPages) result" where
  "emit_root crc grant ed out =
     (if rt_offset (ed_root ed) = 0 then Inr (ed_root ed, out)
      else attempt (emit crc grant ed (Cursor_root ((tr_commit (ed_tree ed))\<lparr>cm_root := ed_root ed\<rparr>)) out) (\<lambda>(offset, out).
        Inr (\<lparr>rt_offset = offset, rt_height = rt_height (ed_root ed)\<rparr>, out)))"

text \<open>The budget answers for the draft pages and for the output pages separately.\<close>

definition Prepared_build ::
  "(bytes \<Rightarrow> u32) \<Rightarrow> bool \<Rightarrow> (nat \<Rightarrow> bool) \<Rightarrow> (nat \<Rightarrow> bool) \<Rightarrow> (u64 \<Rightarrow> bytes result) \<Rightarrow> Commit \<Rightarrow> u64 \<Rightarrow> Extent list \<Rightarrow> u64 \<Rightarrow> ManifestPrepared result" where
  "Prepared_build crc granted draft grant source current end edits durable =
     ensure (length edits \<le> MAX_CHANGES \<and> durable \<ge> cm_durable current \<and> (edits = [] \<or> durable > cm_durable current))
       (InvalidData ''manifest transaction bounds'')
    (ensure (list_all (check_edit (cm_image_bytes current div BLOCK)) edits) (InvalidData ''manifest edit range'')
    (attempt (ok_or (checked_add (cm_generation current) 1) (Other ''manifest generations exhausted'')) (\<lambda>generation.
     let pages = length edits * (8 * unat MAX_HEIGHT + 8) + 1; bytes = pages * BLOCK_SIZE in
     ensure (bytes \<le> MAX_TRANSACTION_BYTES \<and>
         (case checked_add end (word_of_nat bytes) of None \<Rightarrow> False | Some n \<Rightarrow> n \<le> 2 ^ 63 - 1))
       (InvalidData ''manifest output bound'')
    (attempt (Tree_new granted source current end) (\<lambda>tree.
     attempt (apply_edits crc draft edits \<lparr>ed_tree = tree, ed_buffer = AlignedPages_new pages, ed_root = cm_root current,
        ed_pages = 0, ed_max_pages_per_change = 0\<rparr>) (\<lambda>ed.
     attempt (emit_root crc grant ed (AlignedPages_new pages)) (\<lambda>(root, buffer).
     let commit = current\<lparr>cm_root := root, cm_generation := generation, cm_durable := durable\<rparr>;
         offset = end + word_of_nat (length (AlignedPages_as_slice buffer)) in
     attempt (fill_page grant buffer (\<lambda>page. Commit_encode_into crc commit page offset)) (\<lambda>buffer.
     Inr \<lparr>pr_buffer = buffer, pr_previous = current, pr_commit = commit, pr_offset = end,
        pr_stats = \<lparr>es_changes = length edits, es_written_pages = length (AlignedPages_as_slice buffer) div BLOCK_SIZE,
          es_max_pages_per_change = ed_max_pages_per_change ed\<rparr>\<rparr>))))))))"

end
