(* ===== verification/Manifest_Editing.thy ===== *)
theory Manifest_Editing
  imports Manifest_Tree "HOL-Library.Multiset"
begin

text \<open>
  Correctness of the manifest tree: what a tree of pages stores, that lookups and walks read exactly
  that, and that a prepared transaction stores the edited extents without touching a page of the
  view it was prepared from.
\<close>

section \<open>Views\<close>

text \<open>The node stored at an offset, without the checks a cursor adds.\<close>

type_synonym view = "u64 \<Rightarrow> (u16 \<times> Node) option"

definition raw_node :: "(bytes \<Rightarrow> u32) \<Rightarrow> u64 \<Rightarrow> u64 \<Rightarrow> bytes \<Rightarrow> (u16 \<times> Node) option" where
  "raw_node crc img off bs =
     (case Page_decode crc bs off img of
        Inl _ \<Rightarrow> None
      | Inr page \<Rightarrow> (case pg_kind page of
          Leaf \<Rightarrow> (case Page_extents page of Inl _ \<Rightarrow> None | Inr es \<Rightarrow> Some (Page_level page, NodeLeaf es))
        | Branch \<Rightarrow> (case Page_children page of Inl _ \<Rightarrow> None | Inr cs \<Rightarrow> Some (Page_level page, NodeBranch cs))
        | _ \<Rightarrow> None))"

fun in_bounds :: "Cursor \<Rightarrow> Node \<Rightarrow> bool" where
  "in_bounds c (NodeLeaf es) \<longleftrightarrow> (\<forall>e \<in> set es. cu_lower c \<le> ex_start e \<and> ex_end e \<le> cu_upper c)"
| "in_bounds c (NodeBranch cs) \<longleftrightarrow> (\<forall>x \<in> set cs. cu_lower c \<le> ci_start x \<and> ci_start x < cu_upper c)"

definition accepts :: "Cursor \<Rightarrow> (u16 \<times> Node) option \<Rightarrow> Node \<Rightarrow> bool" where
  "accepts c r node \<longleftrightarrow> r = Some (cu_level c, node) \<and> in_bounds c node \<and>
     (case cu_minimum c of None \<Rightarrow> True | Some m \<Rightarrow> m = Node_minimum node)"

lemma decode_accepts:
  "attempt (Page_decode crc bs off img) (\<lambda>page. Node_decode page c) = Inr node \<longleftrightarrow> accepts c (raw_node crc img off bs) node"
proof (cases "Page_decode crc bs off img")
  case (Inr page)
  show ?thesis
  proof (cases "pg_kind page")
    case Leaf
    obtain es where es: "Page_extents page = Inr es" using Leaf by (simp add: Page_extents_def)
    show ?thesis using Inr Leaf es by (auto simp: accepts_def raw_node_def Node_decode_def list_all_iff split: option.splits)
  next
    case Branch
    obtain cs where cs: "Page_children page = Inr cs" using Branch by (simp add: Page_children_def)
    show ?thesis using Inr Branch cs by (auto simp: accepts_def raw_node_def Node_decode_def list_all_iff split: option.splits)
  qed (use Inr in \<open>auto simp: accepts_def raw_node_def Node_decode_def\<close>)
qed (simp add: accepts_def raw_node_def)

definition tree_view :: "(bytes \<Rightarrow> u32) \<Rightarrow> Tree \<Rightarrow> view" where
  "tree_view crc tree off =
     (if off < tr_end tree - BLOCK
      then (case tr_source tree off of Inl _ \<Rightarrow> None | Inr bs \<Rightarrow> raw_node crc (cm_image_bytes (tr_commit tree)) off bs)
      else None)"

lemma Tree_read_node_iff: "Tree_read_node crc tree c = Inr node \<longleftrightarrow> accepts c (tree_view crc tree (cu_offset c)) node"
  using decode_accepts [of crc _ "cu_offset c" "cm_image_bytes (tr_commit tree)" c node]
  by (cases "tr_source tree (cu_offset c)") (auto simp: Tree_read_node_def require_before_commit_def tree_view_def accepts_def)

definition draft_page :: "Editor \<Rightarrow> u64 \<Rightarrow> bytes option" where
  "draft_page ed off =
     (let start = unat (off - tr_end (ed_tree ed)) in
      if BLOCK_SIZE dvd start \<and> start < ed_pages ed * BLOCK_SIZE
      then Some (subrange (AlignedPages_as_slice (ed_buffer ed)) start BLOCK_SIZE) else None)"

definition editor_view :: "(bytes \<Rightarrow> u32) \<Rightarrow> Editor \<Rightarrow> view" where
  "editor_view crc ed off =
     (if off < tr_end (ed_tree ed) then tree_view crc (ed_tree ed) off
      else (case draft_page ed off of None \<Rightarrow> None | Some bs \<Rightarrow> raw_node crc (ed_image ed) off bs))"

lemma Editor_read_iff: "Editor_read crc ed c = Inr node \<longleftrightarrow> accepts c (editor_view crc ed (cu_offset c)) node"
proof (cases "cu_offset c < tr_end (ed_tree ed)")
  case False
  then show ?thesis
    using decode_accepts [of crc _ "cu_offset c" "ed_image ed" c node]
    by (auto simp: Editor_read_def editor_view_def draft_page_def Let_def accepts_def)
qed (simp add: Editor_read_def editor_view_def Tree_read_node_iff)

section \<open>Well-formed views\<close>

definition node_ok :: "u64 \<Rightarrow> u64 \<Rightarrow> u16 \<times> Node \<Rightarrow> bool" where
  "node_ok img off r \<longleftrightarrow> (case snd r of
     NodeLeaf es \<Rightarrow> fst r = 0 \<and> leaf_valid off img es \<and> (\<forall>e \<in> set es. Extent_typed e)
   | NodeBranch cs \<Rightarrow> branch_valid off img (fst r) cs)"

definition view_ok :: "u64 \<Rightarrow> view \<Rightarrow> bool" where
  "view_ok img vw \<longleftrightarrow> (\<forall>off r. vw off = Some r \<longrightarrow> node_ok img off r)"

lemma view_okD:
  assumes "view_ok img vw"
  shows "vw off = Some (l, NodeLeaf es) \<Longrightarrow> l = 0 \<and> leaf_valid off img es \<and> (\<forall>e \<in> set es. Extent_typed e)"
    and "vw off = Some (l, NodeBranch cs) \<Longrightarrow> branch_valid off img l cs"
  using assms unfolding view_ok_def node_ok_def by fastforce+

lemma raw_node_ok:
  assumes "raw_node crc img off bs = Some r"
  shows "node_ok img off r"
proof -
  obtain page where page: "Page_decode crc bs off img = Inr page"
    using assms by (auto simp: raw_node_def split: sum.splits)
  note wf = Page_decode_well_formed [OF page] and parts = Page_decode_parts [OF page]
  show ?thesis
  proof (cases "pg_kind page")
    case Leaf
    then obtain es where es: "Page_extents page = Inr es" "leaf_valid off img es"
      using wf by (auto simp: page_well_formed_def)
    have lvl: "Page_level page = 0" and n: "pg_count page \<le> 63"
      using parts(8) Leaf by (auto simp: Page_validate_def Page_validate_leaf_def LEAF_CAPACITY_def)
    have "Extent_typed e" if "e \<in> set es" for e
    proof -
      obtain s where s: "s \<in> set (chunks 64 (subrange bs 64 (64 * pg_count page)))" "e = Extent_decode s"
        using \<open>e \<in> set es\<close> es(1) Leaf parts(1) by (auto simp: Page_extents_def)
      then obtain i where i: "i < pg_count page" "s = subrange bs (64 + 64 * i) 64"
        using chunks_subrange [of 64 64 "pg_count page" bs] parts(2) n by auto
      then have "length s = 64" using parts(2) n by (simp add: subrange_def)
      then show ?thesis by (simp add: s(2) Extent_decode_def Extent_typed_def subrange_def)
    qed
    then show ?thesis using assms page Leaf es lvl by (auto simp: raw_node_def node_ok_def)
  next
    case Branch
    then obtain cs where "Page_children page = Inr cs" "branch_valid off img (Page_level page) cs"
      using wf by (auto simp: page_well_formed_def)
    then show ?thesis using assms page Branch by (auto simp: raw_node_def node_ok_def)
  qed (use assms page in \<open>auto simp: raw_node_def\<close>)
qed

lemma tree_view_ok: "view_ok (cm_image_bytes (tr_commit tree)) (tree_view crc tree)"
  by (auto simp: view_ok_def tree_view_def dest: raw_node_ok split: if_splits sum.splits)

lemma editor_view_ok: "view_ok (ed_image ed) (editor_view crc ed)"
  using tree_view_ok [of "ed_tree ed" crc]
  by (auto simp: view_ok_def editor_view_def dest: raw_node_ok split: if_splits option.splits)

section \<open>What a subtree stores\<close>

fun subtree :: "view \<Rightarrow> nat \<Rightarrow> u64 \<Rightarrow> Extent list \<Rightarrow> bool" where
  "subtree vw 0 off es \<longleftrightarrow> vw off = Some (0, NodeLeaf es)"
| "subtree vw (Suc n) off es \<longleftrightarrow> (\<exists>cs ess. vw off = Some (word_of_nat (Suc n), NodeBranch cs) \<and> es = concat ess \<and>
     list_all2 (\<lambda>c es. subtree vw n (ci_offset c) es \<and> es \<noteq> [] \<and> ex_start (hd es) = ci_start c) cs ess)"

abbreviation linked :: "view \<Rightarrow> nat \<Rightarrow> Child \<Rightarrow> Extent list \<Rightarrow> bool" where
  "linked vw n c es \<equiv> subtree vw n (ci_offset c) es \<and> es \<noteq> [] \<and> ex_start (hd es) = ci_start c"

text \<open>Extents of the image, ascending and disjoint, and inside a range.\<close>

definition stored :: "u64 \<Rightarrow> u64 \<Rightarrow> Extent list \<Rightarrow> bool" where
  "stored lo up es \<longleftrightarrow> (\<forall>e \<in> set es. lo \<le> ex_start e \<and> ex_start e < ex_end e \<and> ex_end e \<le> up \<and> Extent_typed e \<and>
     (ex_hash e \<noteq> None \<longrightarrow> ex_end e - ex_start e = 1)) \<and> sorted_wrt (\<lambda>a b. ex_end a \<le> ex_start b) es"

lemma stored_Nil [simp]: "stored lo up []"
  by (simp add: stored_def)

lemma stored_append:
  "stored lo up (xs @ ys) \<longleftrightarrow> stored lo up xs \<and> stored lo up ys \<and> (\<forall>x \<in> set xs. \<forall>y \<in> set ys. ex_end x \<le> ex_start y)"
  by (auto simp: stored_def sorted_wrt_append)

lemma storedD:
  assumes "stored lo up es" and "e \<in> set es"
  shows "lo \<le> ex_start e" and "ex_start e < ex_end e" and "ex_end e \<le> up" and "ex_start e < up" and "Extent_typed e"
  using assms by (auto simp: stored_def)

lemma stored_hd_le: "stored lo up es \<Longrightarrow> e \<in> set es \<Longrightarrow> ex_start (hd es) \<le> ex_start e"
  by (cases es) (auto simp: stored_def intro: order_trans less_imp_le)

lemma stored_mono: "stored lo up es \<Longrightarrow> lo' \<le> lo \<Longrightarrow> up \<le> up' \<Longrightarrow> stored lo' up' es"
  unfolding stored_def by (blast intro: order_trans)

lemma stored_join: "stored lo mid xs \<Longrightarrow> stored mid up ys \<Longrightarrow> lo \<le> mid \<Longrightarrow> mid \<le> up \<Longrightarrow> stored lo up (xs @ ys)"
proof -
  assume a: "stored lo mid xs" "stored mid up ys" "lo \<le> mid" "mid \<le> up"
  have "ex_end x \<le> ex_start y" if "x \<in> set xs" "y \<in> set ys" for x y
    using a that by (auto simp: stored_def intro: order_trans)
  then show ?thesis using a stored_mono [of lo mid xs lo up] stored_mono [of mid up ys lo up] by (simp add: stored_append)
qed

lemma stored_split:
  assumes "stored lo up (xs @ ys)" and "ys \<noteq> []"
  shows "stored lo (ex_start (hd ys)) xs" and "stored (ex_start (hd ys)) up ys" and "lo \<le> ex_start (hd ys)" and "ex_start (hd ys) < up"
proof -
  obtain y zs where y: "ys = y # zs" using assms(2) by (cases ys) auto
  have hd: "lo \<le> ex_start y" "ex_start y < ex_end y" "ex_end y \<le> up" using assms(1) by (auto simp: stored_def y)
  then show "lo \<le> ex_start (hd ys)" "ex_start (hd ys) < up" by (auto simp: y)
  show "stored lo (ex_start (hd ys)) xs" using assms(1) by (auto simp: stored_def y sorted_wrt_append)
  have "ex_start y \<le> ex_start z" if "z \<in> set zs" for z
    using assms(1) that hd(2) by (fastforce simp: stored_def y sorted_wrt_append)
  then show "stored (ex_start (hd ys)) up ys" using assms(1) by (auto simp: stored_def y sorted_wrt_append)
qed

section \<open>Cursors over subtrees\<close>

fun child_cursors :: "u16 \<Rightarrow> u64 \<Rightarrow> u64 \<Rightarrow> Child list \<Rightarrow> Cursor list" where
  "child_cursors l up lo [] = []"
| "child_cursors l up lo (c # cs) =
     (let mid = (case cs of [] \<Rightarrow> up | d # _ \<Rightarrow> ci_start d) in
      \<lparr>cu_offset = ci_offset c, cu_level = l, cu_minimum = Some (ci_start c), cu_lower = lo, cu_upper = mid\<rparr> #
      child_cursors l up mid cs)"

lemma length_child_cursors [simp]: "length (child_cursors l up lo cs) = length cs"
  by (induction cs arbitrary: lo) (simp_all add: Let_def)

lemma child_cursors_nth:
  "i < length cs \<Longrightarrow> child_cursors l up lo cs ! i =
     \<lparr>cu_offset = ci_offset (cs ! i), cu_level = l, cu_minimum = Some (ci_start (cs ! i)),
      cu_lower = (if i = 0 then lo else ci_start (cs ! i)),
      cu_upper = (if i + 1 < length cs then ci_start (cs ! (i + 1)) else up)\<rparr>"
proof (induction cs arbitrary: lo i)
  case (Cons c cs)
  then show ?case by (cases i; cases cs) (auto simp: Let_def)
qed simp

lemma Cursor_children_eq: "Cursor_children c cs = child_cursors (cu_level c - 1) (cu_upper c) (cu_lower c) cs"
  by (rule nth_equalityI) (simp_all add: Cursor_children_def Cursor_child_def child_cursors_nth Let_def)

definition holds :: "view \<Rightarrow> nat \<Rightarrow> Cursor \<Rightarrow> Extent list \<Rightarrow> bool" where
  "holds vw n c es \<longleftrightarrow> subtree vw n (cu_offset c) es \<and> es \<noteq> [] \<and> cu_level c = word_of_nat n \<and>
     (case cu_minimum c of None \<Rightarrow> True | Some m \<Rightarrow> m = ex_start (hd es)) \<and> stored (cu_lower c) (cu_upper c) es"

lemma holds_leaf: "holds vw 0 c es \<Longrightarrow> accepts c (vw (cu_offset c)) (NodeLeaf es)"
  by (auto simp: holds_def accepts_def stored_def split: option.splits)

text \<open>Pieces of consecutive children, cut at the start of the next child.\<close>

abbreviation next_start :: "u64 \<Rightarrow> Child list \<Rightarrow> u64" where
  "next_start up cs \<equiv> (case cs of [] \<Rightarrow> up | d # _ \<Rightarrow> ci_start d)"

lemma linked_head:
  assumes "list_all2 (linked vw n) (c # cs) (es # ess)"
  shows "hd (concat (es # ess)) = hd es" and "concat (es # ess) \<noteq> []"
  using assms by auto

lemma pieces_split:
  assumes "list_all2 (linked vw n) (c # cs) (es # ess)" and "stored lo up (concat (es # ess))"
  shows "stored lo (next_start up cs) es" and "stored (next_start up cs) up (concat ess)"
    and "lo \<le> next_start up cs" and "next_start up cs \<le> up"
proof -
  have es: "es \<noteq> []" using assms(1) by simp
  have piece: "stored lo up es" using assms(2) by (simp add: stored_append)
  have "lo \<le> ex_start (hd es)" "ex_start (hd es) < ex_end (hd es)" "ex_end (hd es) \<le> up"
    using piece es by (auto simp: stored_def)
  then have bound: "lo \<le> up" by simp
  have "stored lo (next_start up cs) es \<and> stored (next_start up cs) up (concat ess) \<and> lo \<le> next_start up cs \<and> next_start up cs \<le> up"
  proof (cases cs)
    case (Cons d ds)
    then obtain fs rest where ess: "ess = fs # rest" and fs: "linked vw n d fs" using assms(1) by (cases ess) auto
    have ne: "concat ess \<noteq> []" and hd: "ex_start (hd (concat ess)) = ci_start d" using fs by (auto simp: ess)
    have "stored lo up (es @ concat ess)" using assms(2) by simp
    note s = stored_split [OF this ne, unfolded hd]
    show ?thesis using s by (simp add: Cons)
  qed (use assms piece bound in auto)
  then show "stored lo (next_start up cs) es" "stored (next_start up cs) up (concat ess)"
    "lo \<le> next_start up cs" "next_start up cs \<le> up" by auto
qed

lemma linked_holds:
  assumes "list_all2 (linked vw n) cs ess" and "stored lo up (concat ess)"
  shows "list_all2 (holds vw n) (child_cursors (word_of_nat n) up lo cs) ess"
  using assms
proof (induction cs ess arbitrary: lo rule: list_all2_induct)
  case (Cons c cs es ess)
  have l: "list_all2 (linked vw n) (c # cs) (es # ess)" using Cons.hyps by simp
  note p = pieces_split [OF l Cons.prems]
  show ?case using Cons.IH [OF p(2)] p(1) Cons.hyps(1) by (simp add: Let_def holds_def)
qed simp

lemma word_pred_Suc: "word_of_nat (Suc n) - (1 :: u16) = word_of_nat n"
  by simp

lemma holds_branch:
  assumes "holds vw (Suc n) c es" and ok: "view_ok img vw"
  obtains cs ess where "accepts c (vw (cu_offset c)) (NodeBranch cs)" "es = concat ess" "list_all2 (linked vw n) cs ess"
    "list_all2 (holds vw n) (Cursor_children c cs) ess"
proof -
  obtain cs ess where n: "vw (cu_offset c) = Some (word_of_nat (Suc n), NodeBranch cs)" "es = concat ess"
    "list_all2 (linked vw n) cs ess" using assms(1) by (auto simp: holds_def)
  have st: "stored (cu_lower c) (cu_upper c) (concat ess)" and lvl: "cu_level c = word_of_nat (Suc n)"
    using assms(1) n(2) by (auto simp: holds_def)
  have bounds: "cu_lower c \<le> ci_start x \<and> ci_start x < cu_upper c" if "x \<in> set cs" for x
  proof -
    obtain i where i: "i < length cs" "x = cs ! i" using \<open>x \<in> set cs\<close> by (auto simp: in_set_conv_nth)
    have li: "linked vw n x (ess ! i)" and len: "length ess = length cs" using n(3) i by (auto simp: list_all2_conv_all_nth)
    then have "hd (ess ! i) \<in> set (concat ess)" using i by (auto intro!: bexI [of _ "ess ! i"])
    then show ?thesis using storedD [OF st] li by metis
  qed
  have ne: "cs \<noteq> []" using view_okD(2) [OF ok n(1)] by (auto simp: branch_valid_def)
  then obtain y ys f fs where yf: "cs = y # ys" "ess = f # fs" using n(3) by (cases cs; cases ess) auto
  have "ci_start (hd cs) = ex_start (hd es)" using n(2,3) by (auto simp: yf)
  then have "accepts c (vw (cu_offset c)) (NodeBranch cs)"
    using n(1) bounds lvl assms(1) by (auto simp: accepts_def holds_def split: option.splits)
  moreover have "list_all2 (holds vw n) (Cursor_children c cs) ess"
    using linked_holds [OF n(3) st] by (simp only: Cursor_children_eq lvl word_pred_Suc)
  ultimately show thesis using that n(2,3) by blast
qed

text \<open>Conversely, what a descent has checked is a subtree.\<close>

lemma accepts_leaf:
  assumes "accepts c (vw (cu_offset c)) (NodeLeaf es)" and "view_ok img vw"
  shows "holds vw 0 c es"
proof -
  have r: "vw (cu_offset c) = Some (cu_level c, NodeLeaf es)" using assms(1) by (simp add: accepts_def)
  then have "cu_level c = 0" "leaf_valid (cu_offset c) img es" "\<forall>e \<in> set es. Extent_typed e"
    using view_okD(1) [OF assms(2)] by blast+
  then show ?thesis
    using assms(1) r by (auto simp: holds_def accepts_def stored_def leaf_valid_def extents_ok_def extent_ok_def split: option.splits)
qed

lemma holds_linked: "holds vw n c es \<Longrightarrow> cu_offset c = ci_offset x \<Longrightarrow> cu_minimum c = Some (ci_start x) \<Longrightarrow> linked vw n x es"
  by (simp add: holds_def)

lemma holds_pieces:
  assumes "list_all2 (holds vw n) (child_cursors l up lo cs) ess" and "sorted_wrt (<) (map ci_start cs)"
    and "cs \<noteq> [] \<Longrightarrow> lo \<le> ci_start (hd cs)" and "\<forall>x \<in> set cs. ci_start x < up" and "lo \<le> up"
  shows "list_all2 (linked vw n) cs ess \<and> stored lo up (concat ess)"
  using assms
proof (induction cs arbitrary: lo ess)
  case (Cons c cs)
  let ?mid = "next_start up cs"
  obtain es rest where ess: "ess = es # rest" using Cons.prems(1) by (auto simp: Let_def list_all2_Cons1)
  have h: "holds vw n \<lparr>cu_offset = ci_offset c, cu_level = l, cu_minimum = Some (ci_start c), cu_lower = lo, cu_upper = ?mid\<rparr> es"
    and r: "list_all2 (holds vw n) (child_cursors l up ?mid cs) rest" using Cons.prems(1) by (auto simp: ess Let_def)
  have m: "lo \<le> ?mid" "?mid \<le> up" using Cons.prems(2-5) by (cases cs; force)+
  have "list_all2 (linked vw n) cs rest \<and> stored ?mid up (concat rest)"
    by (rule Cons.IH [OF r]) (use Cons.prems m in \<open>auto split: list.splits\<close>)
  moreover have "linked vw n c es" "stored lo ?mid es" using h by (auto simp: holds_def)
  ultimately show ?case using m stored_join by (auto simp: ess)
qed simp

lemma accepts_branch:
  assumes acc: "accepts c (vw (cu_offset c)) (NodeBranch cs)" and ok: "view_ok img vw" and lvl: "cu_level c = word_of_nat (Suc n)"
    and h: "list_all2 (holds vw n) (Cursor_children c cs) ess"
  shows "holds vw (Suc n) c (concat ess)"
proof -
  have r: "vw (cu_offset c) = Some (cu_level c, NodeBranch cs)" using acc by (simp add: accepts_def)
  then have bv: "branch_valid (cu_offset c) img (cu_level c) cs" using view_okD(2) [OF ok] by blast
  then have ne: "cs \<noteq> []" and so: "sorted_wrt (<) (map ci_start cs)" by (auto simp: branch_valid_def children_ok_def)
  have b: "\<forall>x \<in> set cs. cu_lower c \<le> ci_start x \<and> ci_start x < cu_upper c" using acc by (simp add: accepts_def)
  have lu: "cu_lower c \<le> cu_upper c" using b ne by (cases cs) (auto intro: order_trans less_imp_le)
  have p: "list_all2 (linked vw n) cs ess \<and> stored (cu_lower c) (cu_upper c) (concat ess)"
    by (rule holds_pieces [OF h [unfolded Cursor_children_eq] so]) (use b ne lu in auto)
  obtain y ys f fs where yf: "cs = y # ys" "ess = f # fs" using p ne by (cases cs; cases ess) auto
  have "concat ess \<noteq> []" "ex_start (hd (concat ess)) = ci_start (hd cs)" using p by (auto simp: yf)
  then show ?thesis using p r lvl acc unfolding holds_def by (auto simp: accepts_def split: option.splits)
qed

section \<open>Walks\<close>

definition collect :: "Extent list \<Rightarrow> Extent \<Rightarrow> Extent list result" where
  "collect es e = Inr (es @ [e])"

abbreviation (input) no_visit :: "'s \<Rightarrow> u64 \<Rightarrow> 's result" where
  "no_visit \<equiv> (\<lambda>s _. Inr s)"

lemma visit_extents_collect [simp]: "visit_extents collect es s = Inr (s @ es)"
  by (induction es arbitrary: s) (simp_all add: collect_def)

lemma visit_holds:
  "holds (tree_view crc tree) n c es \<Longrightarrow> visit crc tree no_visit collect c s = Inr (s @ es)"
proof (induction n arbitrary: c es s)
  case 0
  have "Tree_read_node crc tree c = Inr (NodeLeaf es)" using holds_leaf [OF 0] by (simp add: Tree_read_node_iff)
  then show ?case by (simp add: visit.simps)
next
  case (Suc n)
  obtain cs ess where n: "accepts c (tree_view crc tree (cu_offset c)) (NodeBranch cs)" "es = concat ess"
    "list_all2 (holds (tree_view crc tree) n) (Cursor_children c cs) ess"
    using holds_branch [OF Suc.prems tree_view_ok] by metis
  have "visit_children crc tree no_visit collect ds s = Inr (s @ concat fs)"
    if "list_all2 (holds (tree_view crc tree) n) ds fs" for ds fs s
    using that by (induction ds fs arbitrary: s rule: list_all2_induct) (simp_all add: Suc.IH)
  from this [OF n(3), of s] show ?case using n(1,2) by (simp add: visit.simps Tree_read_node_iff [symmetric])
qed

lemma visit_only:
  assumes "visit crc tree no_visit collect c s = Inr t" and "unat (cu_level c) = n"
  shows "\<exists>es. holds (tree_view crc tree) n c es \<and> t = s @ es"
  using assms
proof (induction n arbitrary: c s t)
  case 0
  then obtain node where node: "Tree_read_node crc tree c = Inr node" by (auto simp: visit.simps)
  have "cu_level c = 0" using 0(2) by (metis unat_eq_zero)
  then obtain es where "node = NodeLeaf es" using Tree_read_node_level(1) [OF node] by (cases node) auto
  then show ?case using 0(1) node accepts_leaf [OF _ tree_view_ok]
    by (auto simp: visit.simps Tree_read_node_iff)
next
  case (Suc n)
  then obtain node where node: "Tree_read_node crc tree c = Inr node" by (auto simp: visit.simps)
  have lvl: "cu_level c = word_of_nat (Suc n)" using arg_cong [OF Suc.prems(2), of "word_of_nat :: nat \<Rightarrow> u16"] by simp
  have "cu_level c \<noteq> 0" using Suc.prems(2) by auto
  then obtain cs where cs: "node = NodeBranch cs" using Tree_read_node_level(2) [OF node] by (cases node) auto
  have vc: "visit_children crc tree no_visit collect (Cursor_children c cs) s = Inr t"
    using Suc.prems(1) node cs by (simp add: visit.simps)
  have un: "unat (cu_level c - 1) = n" using unat_level_child [of "cu_level c"] Suc.prems(2) Tree_read_node_level(1) [OF node cs] by simp
  have "\<exists>fs. list_all2 (holds (tree_view crc tree) n) ds fs \<and> t = s @ concat fs"
    if "visit_children crc tree no_visit collect ds s = Inr t" "\<forall>d \<in> set ds. unat (cu_level d) = n" for ds s
    using that
  proof (induction ds arbitrary: s)
    case (Cons d ds)
    then obtain u where u: "visit crc tree no_visit collect d s = Inr u" "visit_children crc tree no_visit collect ds u = Inr t" by auto
    obtain es where es: "holds (tree_view crc tree) n d es" "u = s @ es" using Suc.IH [OF u(1)] Cons.prems(2) by auto
    obtain fs where "list_all2 (holds (tree_view crc tree) n) ds fs" "t = u @ concat fs" using Cons.IH [OF u(2)] Cons.prems(2) by auto
    then show ?case using es by (intro exI [of _ "es # fs"]) simp
  qed simp
  from this [OF vc] un obtain fs where fs: "list_all2 (holds (tree_view crc tree) n) (Cursor_children c cs) fs" "t = s @ concat fs"
    by (auto simp: Cursor_children_def)
  show ?case using accepts_branch [OF _ tree_view_ok lvl fs(1)] node fs(2) by (auto simp: Tree_read_node_iff cs)
qed

section \<open>Lookups\<close>

lemma find_extent_None: "\<forall>e \<in> set es. \<not> (ex_start e \<le> b \<and> b < ex_end e) \<Longrightarrow> find_extent b es = None"
proof -
  assume "\<forall>e \<in> set es. \<not> (ex_start e \<le> b \<and> b < ex_end e)"
  then have "find (\<lambda>e. ex_start e \<le> b \<and> b < ex_end e) es = None" by (auto simp: find_None_iff)
  then show ?thesis by (simp add: find_extent_def)
qed

lemma stored_unique:
  assumes "stored lo up es" and "e \<in> set es" and "f \<in> set es" and "ex_start e \<le> b \<and> b < ex_end e" and "ex_start f \<le> b \<and> b < ex_end f"
  shows "e = f"
proof -
  obtain i j where ij: "i < length es" "e = es ! i" "j < length es" "f = es ! j" using assms(2,3) by (auto simp: in_set_conv_nth)
  have so: "ex_end (es ! a) \<le> ex_start (es ! b)" if "a < b" "b < length es" for a b
    using assms(1) that by (auto simp: stored_def sorted_wrt_iff_nth_less)
  consider "i < j" | "j < i" | "i = j" by linarith
  then show ?thesis using so [of i j] so [of j i] ij assms(4,5) by cases auto
qed

lemma find_extent_mem:
  assumes "stored lo up es" and "e \<in> set es" and "ex_start e \<le> b" and "b < ex_end e"
  shows "find_extent b es = ex_hash e"
proof -
  obtain f where f: "find (\<lambda>e. ex_start e \<le> b \<and> b < ex_end e) es = Some f"
    using assms by (cases "find (\<lambda>e. ex_start e \<le> b \<and> b < ex_end e) es") (auto simp: find_None_iff)
  then have "f \<in> set es" "ex_start f \<le> b \<and> b < ex_end f" by (auto simp: find_Some_iff in_set_conv_nth)
  then have "f = e" using stored_unique [OF assms(1)] assms(2-4) by blast
  then show ?thesis by (simp add: find_extent_def f)
qed

lemma rposition_None: "rposition P xs = None \<longleftrightarrow> (\<forall>x \<in> set xs. \<not> P x)"
  unfolding rposition_def find_None_iff by (force simp: in_set_conv_nth)

lemma rposition_Some:
  assumes "rposition P xs = Some i"
  shows "i < length xs" and "P (xs ! i)" and "\<And>j. i < j \<Longrightarrow> j < length xs \<Longrightarrow> \<not> P (xs ! j)"
proof -
  obtain k where k: "k < length xs" "i = length xs - 1 - k" "P (xs ! i)"
    "\<And>j. j < k \<Longrightarrow> \<not> P (xs ! (length xs - 1 - j))"
    using assms by (auto simp: rposition_def find_Some_iff rev_nth)
  show "i < length xs" "P (xs ! i)" using k by auto
  show "\<not> P (xs ! j)" if "i < j" "j < length xs" for j
    using k(4) [of "length xs - 1 - j"] k(1,2) that by auto
qed

lemma concat_nth: "i < length ess \<Longrightarrow> concat ess = concat (take i ess) @ ess ! i @ concat (drop (Suc i) ess)"
  by (metis concat.simps(2) concat_append id_take_nth_drop)

text \<open>The last child that does not start after a block holds every extent that covers it.\<close>

lemma find_in_child:
  assumes l: "list_all2 (linked vw n) cs ess" and st: "stored lo up (concat ess)"
    and r: "rposition (\<lambda>c. ci_start c \<le> b) cs = Some i"
  shows "find_extent b (concat ess) = find_extent b (ess ! i)"
proof -
  have len: "length ess = length cs" and li: "\<And>j. j < length cs \<Longrightarrow> linked vw n (cs ! j) (ess ! j)"
    using l by (auto simp: list_all2_conv_all_nth)
  have i: "i < length ess" using rposition_Some(1) [OF r] len by simp
  note c = concat_nth [OF i]
  have pc: "stored lo up (ess ! i)" using st unfolding c by (simp add: stored_append)
  have before: "\<forall>x \<in> set (concat (take i ess)). \<forall>y \<in> set (ess ! i). ex_end x \<le> ex_start y"
    using st unfolding c by (simp add: stored_append)
  have only: "e \<in> set (ess ! i)" if "e \<in> set (concat ess)" "ex_start e \<le> b \<and> b < ex_end e" for e
  proof -
    have "e \<notin> set (concat (take i ess))"
    proof
      assume "e \<in> set (concat (take i ess))"
      moreover have "hd (ess ! i) \<in> set (ess ! i)" using li [of i] i len by simp
      ultimately have "ex_end e \<le> ci_start (cs ! i)" using before li [of i] i len by metis
      then show False using rposition_Some(2) [OF r] that(2) by (meson leD order_trans)
    qed
    moreover have "e \<notin> set (concat (drop (Suc i) ess))"
    proof
      assume "e \<in> set (concat (drop (Suc i) ess))"
      then obtain j where j: "i < j" "j < length cs" "e \<in> set (ess ! j)"
        using len by (auto simp: in_set_conv_nth [of _ "drop _ _"]) (metis add_Suc less_add_Suc1 less_diff_conv add.commute)
      have "stored lo up (ess ! j)" using st j(2) len concat_nth [of j ess] by (simp add: stored_append)
      then have "ci_start (cs ! j) \<le> b" using stored_hd_le [OF _ j(3)] li [OF j(2)] that(2) by (metis order_trans)
      then show False using rposition_Some(3) [OF r j(1,2)] by simp
    qed
    ultimately show ?thesis using that(1) unfolding c by auto
  qed
  show ?thesis
  proof (cases "\<exists>e \<in> set (concat ess). ex_start e \<le> b \<and> b < ex_end e")
    case True
    then obtain e where e: "e \<in> set (concat ess)" "ex_start e \<le> b \<and> b < ex_end e" by blast
    then show ?thesis using find_extent_mem [OF st] find_extent_mem [OF pc] only by metis
  next
    case False
    moreover have "set (ess ! i) \<subseteq> set (concat ess)" unfolding c by auto
    ultimately show ?thesis using find_extent_None by (metis subsetD)
  qed
qed

lemma find_before_children:
  assumes l: "list_all2 (linked vw n) cs ess" and st: "stored lo up (concat ess)"
    and r: "rposition (\<lambda>c. ci_start c \<le> b) cs = None"
  shows "find_extent b (concat ess) = None"
proof (rule find_extent_None, rule ballI)
  fix e
  assume "e \<in> set (concat ess)"
  then obtain j where j: "j < length ess" "e \<in> set (ess ! j)" by (auto simp: in_set_conv_nth [of _ ess])
  have "linked vw n (cs ! j) (ess ! j)" "cs ! j \<in> set cs" using l j(1) by (auto simp: list_all2_conv_all_nth)
  moreover have "stored lo up (ess ! j)" using st j(1) concat_nth [of j ess] by (simp add: stored_append)
  ultimately show "\<not> (ex_start e \<le> b \<and> b < ex_end e)"
    using stored_hd_le [OF _ j(2)] r by (metis order_trans rposition_None)
qed

definition lookup_at :: "Tree \<Rightarrow> u64 \<Rightarrow> Cursor option \<Rightarrow> hash option \<Rightarrow> Lookup" where
  "lookup_at tree b c r = \<lparr>lk_image_bytes = cm_image_bytes (tr_commit tree), lk_end = tr_end tree, lk_block = b,
     lk_cursor = c, lk_result = r, lk_failed = False\<rparr>"

lemma get_loop_done: "get_loop crc source (lookup_at tree b None r) = Inr r"
  by (subst get_loop.simps) (simp add: Lookup_state_def lookup_at_def)

lemma get_loop_step:
  assumes acc: "accepts c (tree_view crc tree (cu_offset c)) node"
  shows "get_loop crc (tr_source tree) (lookup_at tree b (Some c) r) = (case node of
      NodeLeaf es \<Rightarrow> Inr (find_extent b es)
    | NodeBranch cs \<Rightarrow> (case rposition (\<lambda>x. ci_start x \<le> b) cs of
        None \<Rightarrow> Inr r
      | Some i \<Rightarrow> if cu_offset (Cursor_child c cs i) < tr_end tree - BLOCK
          then get_loop crc (tr_source tree) (lookup_at tree b (Some (Cursor_child c cs i)) r)
          else Inl (InvalidData ''tree page beyond COMMIT'')))"
proof -
  obtain bs where off: "cu_offset c < tr_end tree - BLOCK" and bs: "tr_source tree (cu_offset c) = Inr bs"
    and raw: "accepts c (raw_node crc (cm_image_bytes (tr_commit tree)) (cu_offset c) bs) node"
    using acc by (auto simp: tree_view_def accepts_def split: if_splits sum.splits)
  let ?lk = "lookup_at tree b (Some c) r"
  have st: "Lookup_state ?lk = Inr (LookupPage (cu_offset c) (cu_level c))"
    using off by (simp add: Lookup_state_def lookup_at_def require_before_commit_def)
  have dec: "attempt (Page_decode crc bs (cu_offset c) (lk_image_bytes ?lk)) (\<lambda>page. Node_decode page c) = Inr node"
    unfolding decode_accepts using raw by (simp add: lookup_at_def)
  have cur: "lk_cursor ?lk = Some c" "lk_block ?lk = b" by (simp_all add: lookup_at_def)
  let ?next = "case node of NodeLeaf es \<Rightarrow> lookup_at tree b None (find_extent b es)
    | NodeBranch cs \<Rightarrow> lookup_at tree b (map_option (Cursor_child c cs) (rposition (\<lambda>x. ci_start x \<le> b) cs)) r"
  have ac: "Lookup_accept crc ?lk (cu_offset c) bs = (?next, Lookup_state ?next)"
    unfolding Lookup_accept_def st cur by (simp add: dec Let_def) (simp add: lookup_at_def split: Node.splits)
  show ?thesis
  proof (cases node)
    case (NodeLeaf es)
    have "Lookup_state (lookup_at tree b None (find_extent b es)) = Inr (LookupComplete (find_extent b es))"
      by (simp add: Lookup_state_def lookup_at_def)
    then show ?thesis using ac by (subst get_loop.simps) (simp add: st bs NodeLeaf get_loop_done)
  next
    case (NodeBranch cs)
    show ?thesis
    proof (cases "rposition (\<lambda>x. ci_start x \<le> b) cs")
      case None
      have "Lookup_state (lookup_at tree b None r) = Inr (LookupComplete r)" by (simp add: Lookup_state_def lookup_at_def)
      then show ?thesis using ac by (subst get_loop.simps) (simp add: st bs NodeBranch None get_loop_done)
    next
      case (Some i)
      have "Lookup_state (lookup_at tree b (Some (Cursor_child c cs i)) r) =
          (if cu_offset (Cursor_child c cs i) < tr_end tree - BLOCK
           then Inr (LookupPage (cu_offset (Cursor_child c cs i)) (cu_level (Cursor_child c cs i)))
           else Inl (InvalidData ''tree page beyond COMMIT''))"
        by (simp add: Lookup_state_def lookup_at_def require_before_commit_def)
      then show ?thesis using ac by (subst get_loop.simps) (simp add: st bs NodeBranch Some)
    qed
  qed
qed

lemma holds_before_commit:
  assumes "holds (tree_view crc tree) n c es"
  shows "cu_offset c < tr_end tree - BLOCK"
  using assms by (cases n) (auto simp: holds_def tree_view_def split: if_splits)

lemma get_loop_holds:
  "holds (tree_view crc tree) n c es \<Longrightarrow> get_loop crc (tr_source tree) (lookup_at tree b (Some c) None) = Inr (find_extent b es)"
proof (induction n arbitrary: c es)
  case 0
  show ?case using get_loop_step [OF holds_leaf [OF 0]] by simp
next
  case (Suc n)
  have st: "stored (cu_lower c) (cu_upper c) es" using Suc.prems by (simp add: holds_def)
  obtain cs ess where n: "accepts c (tree_view crc tree (cu_offset c)) (NodeBranch cs)" "es = concat ess"
    "list_all2 (linked (tree_view crc tree) n) cs ess" "list_all2 (holds (tree_view crc tree) n) (Cursor_children c cs) ess"
    by (rule holds_branch [OF Suc.prems tree_view_ok])
  note step = get_loop_step [OF n(1), of b None]
  show ?case
  proof (cases "rposition (\<lambda>x. ci_start x \<le> b) cs")
    case None
    then show ?thesis using step find_before_children [OF n(3) st [unfolded n(2)] None] n(2) by simp
  next
    case (Some i)
    have "i < length cs" by (rule rposition_Some(1) [OF Some])
    then have h: "holds (tree_view crc tree) n (Cursor_child c cs i) (ess ! i)"
      using n(4) by (auto simp: list_all2_conv_all_nth Cursor_children_def)
    have "get_loop crc (tr_source tree) (lookup_at tree b (Some c) None) =
        get_loop crc (tr_source tree) (lookup_at tree b (Some (Cursor_child c cs i)) None)"
      using holds_before_commit [OF h] by (simp only: step Some Node.case option.case if_True)
    also have "\<dots> = Inr (find_extent b (ess ! i))" by (rule Suc.IH [OF h])
    also have "find_extent b (ess ! i) = find_extent b es" using find_in_child [OF n(3) st [unfolded n(2)] Some] n(2) by simp
    finally show ?thesis .
  qed
qed

section \<open>Edits of extent sets\<close>

definition cuts :: "Extent \<Rightarrow> Extent set \<Rightarrow> Extent set" where
  "cuts edit S = (\<Union>e \<in> S. set (cut_extent edit e))"

definition edit_set :: "Extent \<Rightarrow> Extent set \<Rightarrow> Extent set" where
  "edit_set edit S = cuts edit S \<union> (if ex_hash edit \<noteq> None then {edit} else {})"

definition maps_block :: "Extent set \<Rightarrow> u64 \<Rightarrow> hash \<Rightarrow> bool" where
  "maps_block S b h \<longleftrightarrow> (\<exists>e \<in> S. ex_start e \<le> b \<and> b < ex_end e \<and> ex_hash e = Some h)"

definition edit_ok :: "Extent \<Rightarrow> bool" where
  "edit_ok edit \<longleftrightarrow> ex_start edit < ex_end edit \<and> Extent_typed edit \<and> (ex_hash edit \<noteq> None \<longrightarrow> ex_end edit - ex_start edit = 1)"

lemma cuts_Un [simp]: "cuts edit (S \<union> T) = cuts edit S \<union> cuts edit T" "cuts edit {} = {}"
  by (auto simp: cuts_def)

lemma cuts_outside: "\<forall>e \<in> S. ex_end e \<le> ex_start edit \<or> ex_end edit \<le> ex_start e \<Longrightarrow> cuts edit S = S"
  unfolding cuts_def cut_extent_def by auto

lemma cuts_covered:
  assumes "\<forall>e \<in> S. ex_start edit \<le> ex_start e \<and> ex_start e < ex_end e \<and> ex_end e \<le> ex_end edit"
  shows "cuts edit S = {}"
proof -
  have "cut_extent edit e = []" if "e \<in> S" for e
  proof -
    have b: "ex_start edit \<le> ex_start e" "ex_start e < ex_end e" "ex_end e \<le> ex_end edit" using assms that by auto
    have "\<not> ex_end e \<le> ex_start edit" "\<not> ex_end edit \<le> ex_start e" using b by (meson leD le_less_trans less_le_trans)+
    then show ?thesis using b by (simp add: cut_extent_def leD)
  qed
  then show ?thesis by (auto simp: cuts_def)
qed

lemma maps_edit:
  assumes "ex_start edit < ex_end edit" and "\<forall>e \<in> S. ex_start e < ex_end e"
  shows "maps_block (edit_set edit S) b h \<longleftrightarrow>
    (if ex_start edit \<le> b \<and> b < ex_end edit then ex_hash edit = Some h else maps_block S b h)"
proof -
  have cut: "(\<exists>f \<in> set (cut_extent edit e). ex_start f \<le> b \<and> b < ex_end f \<and> ex_hash f = Some h) \<longleftrightarrow>
      ex_start e \<le> b \<and> b < ex_end e \<and> ex_hash e = Some h \<and> \<not> (ex_start edit \<le> b \<and> b < ex_end edit)" if "e \<in> S" for e
    using assms that unfolding cut_extent_def
    by (auto simp: not_le not_less bex_Un intro: le_less_trans less_le_trans)
  have "maps_block (cuts edit S) b h \<longleftrightarrow> maps_block S b h \<and> \<not> (ex_start edit \<le> b \<and> b < ex_end edit)"
    unfolding maps_block_def cuts_def using cut by (simp, blast)
  then show ?thesis by (auto simp: maps_block_def edit_set_def)
qed

lemma find_extent_maps: "stored lo up es \<Longrightarrow> find_extent b es = Some h \<longleftrightarrow> maps_block (set es) b h"
proof -
  assume st: "stored lo up es"
  show ?thesis
  proof (cases "\<exists>e \<in> set es. ex_start e \<le> b \<and> b < ex_end e")
    case True
    then obtain e where e: "e \<in> set es" "ex_start e \<le> b" "b < ex_end e" by blast
    then show ?thesis using find_extent_mem [OF st e] stored_unique [OF st e(1)] by (auto simp: maps_block_def)
  next
    case False
    then show ?thesis using find_extent_None [of es b] by (auto simp: maps_block_def)
  qed
qed

text \<open>The entries of an edited leaf, as the part before the edit, the edit, and the part after it.\<close>

definition left_of :: "Extent \<Rightarrow> Extent \<Rightarrow> Extent list" where
  "left_of edit e = (if ex_end e \<le> ex_start edit then [e] else if ex_start e < ex_start edit then [e\<lparr>ex_end := ex_start edit\<rparr>] else [])"

definition right_of :: "Extent \<Rightarrow> Extent \<Rightarrow> Extent list" where
  "right_of edit e = (if ex_end edit \<le> ex_start e then [e] else if ex_end edit < ex_end e then [e\<lparr>ex_start := ex_end edit\<rparr>] else [])"

lemma cut_sides:
  assumes "ex_start edit < ex_end edit" and "ex_start e < ex_end e"
  shows "cut_extent edit e = left_of edit e @ right_of edit e"
proof -
  consider (before) "ex_end e \<le> ex_start edit" | (after) "ex_end edit \<le> ex_start e"
    | (meets) "ex_start edit < ex_end e" "ex_start e < ex_end edit" by (metis not_le)
  then show ?thesis
  proof cases
    case before
    then have "\<not> ex_end edit \<le> ex_start e" "\<not> ex_end edit < ex_end e" using assms by (auto simp: not_le not_less)
    then show ?thesis using before by (simp add: cut_extent_def left_of_def right_of_def)
  next
    case after
    then have "\<not> ex_end e \<le> ex_start edit" "\<not> ex_start e < ex_start edit" using assms by (auto simp: not_le not_less)
    then show ?thesis using after by (simp add: cut_extent_def left_of_def right_of_def)
  qed (simp add: cut_extent_def left_of_def right_of_def not_le [symmetric])
qed

lemma unit_extent: "(x :: u64) < y \<Longrightarrow> y < z \<Longrightarrow> z - x \<noteq> 1"
proof
  assume "x < y" "y < z" "z - x = 1"
  then have "unat x < unat y" "unat y < unat z" "unat (z - x) = 1" by (simp_all add: word_less_nat_alt)
  then show False by (simp add: unat_sub_if' split: if_splits)
qed

lemma side_bounds:
  assumes "ex_start edit < ex_end edit" and "lo \<le> ex_start e" "ex_start e < ex_end e" "ex_end e \<le> up" "Extent_typed e"
    and "ex_hash e \<noteq> None \<longrightarrow> ex_end e - ex_start e = 1"
  shows "stored lo (ex_start edit) (left_of edit e)" and "stored (ex_end edit) up (right_of edit e)"
    and "\<forall>f \<in> set (left_of edit e @ right_of edit e). ex_start e \<le> ex_start f \<and> ex_end f \<le> ex_end e"
proof -
  have h: "ex_hash e = None" if "ex_start e < y" "y < ex_end e" for y using unit_extent [OF that] assms(6) by auto
  have t: "Extent_typed (e\<lparr>ex_end := x\<rparr>)" "Extent_typed (e\<lparr>ex_start := x\<rparr>)" for x
    using assms(5) by (simp_all add: Extent_typed_def)
  show "stored lo (ex_start edit) (left_of edit e)"
    using assms h [of "ex_start edit"] t(1) by (auto simp: left_of_def stored_def not_le)
  show "stored (ex_end edit) up (right_of edit e)"
    using assms h [of "ex_end edit"] t(2) by (auto simp: right_of_def stored_def not_le)
  show "\<forall>f \<in> set (left_of edit e @ right_of edit e). ex_start e \<le> ex_start f \<and> ex_end f \<le> ex_end e"
    using assms(1,3) by (auto simp: left_of_def right_of_def not_le intro: less_imp_le)
qed

text \<open>All pieces of a stored list, in order.\<close>

lemma stored_ConsD:
  assumes "stored lo up (e # es)"
  shows "lo \<le> ex_start e" "ex_start e < ex_end e" "ex_end e \<le> up" "Extent_typed e"
    "ex_hash e \<noteq> None \<longrightarrow> ex_end e - ex_start e = 1" "stored (ex_end e) up es" "stored lo up es"
  using assms by (auto simp: stored_def)

lemma sides_stored:
  assumes "ex_start edit < ex_end edit" and "stored lo up es"
  shows "stored lo (ex_start edit) (concat (map (left_of edit) es)) \<and> stored (ex_end edit) up (concat (map (right_of edit) es)) \<and>
    concat (map (cut_extent edit) es) = concat (map (left_of edit) es) @ concat (map (right_of edit) es) \<and>
    (\<forall>f \<in> set (concat (map (left_of edit) es) @ concat (map (right_of edit) es)). lo \<le> ex_start f)"
  using assms(2)
proof (induction es arbitrary: lo)
  case (Cons e es)
  note c = stored_ConsD [OF Cons.prems]
  note s = side_bounds [OF assms(1) c(1-5)]
  have IH: "stored (ex_end e) (ex_start edit) (concat (map (left_of edit) es))" "stored (ex_end edit) up (concat (map (right_of edit) es))"
    "concat (map (cut_extent edit) es) = concat (map (left_of edit) es) @ concat (map (right_of edit) es)"
    "\<forall>f \<in> set (concat (map (left_of edit) es) @ concat (map (right_of edit) es)). ex_end e \<le> ex_start f"
    using Cons.IH [OF c(6)] by auto
  let ?L = "concat (map (left_of edit) es)" and ?R = "concat (map (right_of edit) es)"
  have lo: "lo \<le> ex_end e" using c(1,2) by simp
  have swap: "right_of edit e = [] \<or> ?L = []"
  proof (rule disjCI)
    assume "?L \<noteq> []"
    then have f: "hd ?L \<in> set ?L" by (rule hd_in_set)
    have "ex_end e \<le> ex_start (hd ?L)" "ex_start (hd ?L) < ex_start edit" using IH(4) storedD(4) [OF IH(1) f] f by auto
    then have "ex_end e < ex_end edit" using assms(1) by simp
    then show "right_of edit e = []" using c(2) by (auto simp: right_of_def)
  qed
  have "stored lo (ex_start edit) (left_of edit e @ ?L)"
    using s(1,3) IH(1,4) lo stored_mono [OF IH(1) lo order_refl] by (auto simp: stored_append intro: order_trans)
  moreover have "\<forall>x \<in> set (right_of edit e). \<forall>y \<in> set ?R. ex_end x \<le> ex_start y"
    using s(3) IH(4) by (meson UnI2 order_trans set_append [THEN equalityD2, THEN subsetD])
  then have "stored (ex_end edit) up (right_of edit e @ ?R)" using s(2) IH(2) by (simp add: stored_append)
  moreover have "cut_extent edit e @ ?L @ ?R = (left_of edit e @ ?L) @ right_of edit e @ ?R"
    unfolding cut_sides [OF assms(1) c(2)] using swap by (metis append.assoc append_Nil append_Nil2)
  moreover have "\<forall>f \<in> set ((left_of edit e @ ?L) @ right_of edit e @ ?R). lo \<le> ex_start f"
    using s(3) IH(4) lo c(1) by (auto intro: order_trans)
  ultimately show ?case using IH(3) by simp
qed simp

lemma sort_key_insert:
  fixes f :: "'a \<Rightarrow> 'k :: linorder"
  assumes "sorted (map f (ls @ [e] @ rs))" and "\<forall>x \<in> set rs. f x \<noteq> f e"
  shows "sort_key f ((ls @ rs) @ [e]) = ls @ [e] @ rs"
proof (rule properties_for_sort_key)
  show "filter (\<lambda>x. f k = f x) (ls @ [e] @ rs) = filter (\<lambda>x. f k = f x) ((ls @ rs) @ [e])" for k
  proof (cases "f k = f e")
    case True
    have "filter (\<lambda>x. f e = f x) rs = []" using assms(2) by (simp add: filter_empty_conv) metis
    then show ?thesis using True by simp
  qed simp
qed (use assms(1) in auto)

lemma stored_sorted: "stored lo up es \<Longrightarrow> sorted (map ex_start es)"
  by (induction es arbitrary: lo) (auto dest: stored_ConsD intro: order_trans less_imp_le simp: stored_def)

lemma edit_entries_stored:
  assumes ok: "edit_ok edit" and st: "stored lo up es" and inside: "ex_hash edit \<noteq> None \<longrightarrow> lo \<le> ex_start edit \<and> ex_end edit \<le> up"
  shows "stored lo up (edit_entries edit es)" and "set (edit_entries edit es) = edit_set edit (set es)"
proof -
  have lt: "ex_start edit < ex_end edit" using ok by (simp add: edit_ok_def)
  let ?L = "concat (map (left_of edit) es)" and ?R = "concat (map (right_of edit) es)"
  have s: "stored lo (ex_start edit) ?L" "stored (ex_end edit) up ?R" "concat (map (cut_extent edit) es) = ?L @ ?R"
    "\<forall>f \<in> set (?L @ ?R). lo \<le> ex_start f"
    using sides_stored [OF lt st] by auto
  have up: "ex_end f \<le> up" if "f \<in> set ?L" for f
  proof -
    obtain e where e: "e \<in> set es" "f \<in> set (left_of edit e)" using \<open>f \<in> set ?L\<close> by auto
    have "ex_end f \<le> ex_end e" using e(2) by (auto simp: left_of_def split: if_splits)
    then show ?thesis using storedD(3) [OF st e(1)] by simp
  qed
  have L: "stored lo up ?L" using s(1) up by (auto simp: stored_def)
  have R: "stored lo up ?R" using s(2,4) by (auto simp: stored_def)
  have LR: "\<forall>x \<in> set ?L. \<forall>y \<in> set ?R. ex_end x \<le> ex_start y"
    using storedD(3) [OF s(1)] storedD(1) [OF s(2)] lt by (meson less_imp_le order_trans)
  show set: "set (edit_entries edit es) = edit_set edit (set es)"
    by (auto simp: edit_entries_def edit_set_def cuts_def)
  show "stored lo up (edit_entries edit es)"
  proof (cases "ex_hash edit")
    case None
    have all: "stored lo up (?L @ ?R)" using L R LR by (simp add: stored_append)
    then have "edit_entries edit es = ?L @ ?R"
      using None s(3) sort_key_id_if_sorted [OF stored_sorted [OF all]] by (simp add: edit_entries_def)
    then show ?thesis using all by simp
  next
    case (Some h)
    have "stored lo up [edit]" using ok inside Some by (simp add: stored_def edit_ok_def)
    then have all: "stored lo up (?L @ [edit] @ ?R)"
      using L R LR storedD(3) [OF s(1)] storedD(1) [OF s(2)] unfolding stored_append by auto
    have "\<forall>x \<in> set ?R. ex_start x \<noteq> ex_start edit" using storedD(1) [OF s(2)] lt by fastforce
    then have "edit_entries edit es = ?L @ [edit] @ ?R"
      using Some s(3) sort_key_insert [OF stored_sorted [OF all]] by (simp add: edit_entries_def)
    then show ?thesis using all by simp
  qed
qed

section \<open>The draft grows\<close>

definition Pages_inv :: "u64 \<Rightarrow> AlignedPages \<Rightarrow> bool" where
  "Pages_inv end p \<longleftrightarrow> length (ap_blocks p) \<le> ap_limit p \<and> (\<forall>b \<in> set (ap_blocks p). length b = 4096) \<and>
     unat end + ap_limit p * 4096 < 2 ^ 63 \<and> 4096 \<le> unat end"

definition page_address :: "u64 \<Rightarrow> nat \<Rightarrow> u64" where
  "page_address end i = end + word_of_nat (i * 4096)"

definition Editor_inv :: "Editor \<Rightarrow> bool" where
  "Editor_inv ed \<longleftrightarrow> Pages_inv (tr_end (ed_tree ed)) (ed_buffer ed) \<and> ed_pages ed = length (ap_blocks (ed_buffer ed))"

definition extends :: "Editor \<Rightarrow> Editor \<Rightarrow> bool" where
  "extends ed ed' \<longleftrightarrow> ed_tree ed' = ed_tree ed \<and> ed_root ed' = ed_root ed \<and> ap_limit (ed_buffer ed') = ap_limit (ed_buffer ed) \<and>
     (\<exists>bs. ap_blocks (ed_buffer ed') = ap_blocks (ed_buffer ed) @ bs)"

lemma extends_refl [simp]: "extends ed ed"
  by (simp add: extends_def)

lemma extends_trans: "extends ed ed' \<Longrightarrow> extends ed' ed'' \<Longrightarrow> extends ed ed''"
  by (auto simp: extends_def)

lemma page_address_unat:
  assumes "Pages_inv end p" and "i \<le> ap_limit p"
  shows "unat (page_address end i) = unat end + i * 4096"
proof -
  have "i * 4096 \<le> ap_limit p * 4096" using assms(2) by simp
  then have "unat end + i * 4096 < 2 ^ 63" using assms(1) by (simp add: Pages_inv_def)
  moreover from this have "unat (word_of_nat (i * 4096) :: u64) = i * 4096" by (simp add: unat_of_nat del: of_nat_mult)
  ultimately show ?thesis unfolding page_address_def by (subst unat_add_u64) simp_all
qed

lemma page_address_start:
  assumes "Pages_inv end p" and "i \<le> ap_limit p"
  shows "unat (page_address end i - end) = i * 4096" and "\<not> page_address end i < end" and "page_address end i \<noteq> 0"
proof -
  note u = page_address_unat [OF assms]
  show "\<not> page_address end i < end" using u by (simp add: word_less_nat_alt)
  show "page_address end i \<noteq> 0" using u assms(1) by (auto simp: Pages_inv_def)
  show "unat (page_address end i - end) = i * 4096" using u by (subst unat_sub) (simp_all add: word_le_nat_alt)
qed

lemma page_slice:
  assumes "\<forall>b \<in> set bs. length b = 4096" and "i < length bs"
  shows "subrange (concat bs) (i * 4096) 4096 = bs ! i"
proof -
  have "chunks 4096 (concat bs) = bs" using assms(1) by (intro chunks_concat) simp_all
  moreover from this have "length (concat bs) div 4096 = length bs" by (metis length_chunks)
  ultimately show ?thesis using nth_chunks [of i "concat bs" 4096] assms(2) by (simp add: mult.commute)
qed

lemma length_slice: "Pages_inv end p \<Longrightarrow> length (AlignedPages_as_slice p) = length (ap_blocks p) * 4096"
proof -
  assume "Pages_inv end p"
  then have "\<forall>b \<in> set (ap_blocks p). length b = 4096" by (simp add: Pages_inv_def)
  then show ?thesis using length_concat_uniform [of "ap_blocks p" 4096] by (simp add: AlignedPages_as_slice_def)
qed

lemma draft_page_at:
  assumes "Editor_inv ed" and "i < ed_pages ed"
  shows "draft_page ed (page_address (tr_end (ed_tree ed)) i) = Some (ap_blocks (ed_buffer ed) ! i)"
proof -
  have inv: "Pages_inv (tr_end (ed_tree ed)) (ed_buffer ed)" and n: "ed_pages ed = length (ap_blocks (ed_buffer ed))"
    using assms(1) by (auto simp: Editor_inv_def)
  then have "i \<le> ap_limit (ed_buffer ed)" using assms(2) by (simp add: Pages_inv_def)
  from page_address_start(1) [OF inv this] show ?thesis
    using inv n assms(2) page_slice [of "ap_blocks (ed_buffer ed)" i]
    by (simp add: draft_page_def Let_def BLOCK_SIZE_def AlignedPages_as_slice_def Pages_inv_def)
qed

lemma draft_page_Some:
  assumes "Editor_inv ed" and "draft_page ed off = Some bs" and "\<not> off < tr_end (ed_tree ed)"
  obtains i where "i < ed_pages ed" "off = page_address (tr_end (ed_tree ed)) i" "bs = ap_blocks (ed_buffer ed) ! i"
proof -
  let ?e = "tr_end (ed_tree ed)"
  obtain i where i: "unat (off - ?e) = 4096 * i" "4096 * i < ed_pages ed * 4096"
    using assms(2) by (auto simp: draft_page_def Let_def BLOCK_SIZE_def split: if_splits)
  have "off = ?e + word_of_nat (unat (off - ?e))" by simp
  then have off: "off = page_address ?e i" by (simp add: page_address_def i(1) mult.commute)
  show thesis using that [of i] off i(2) draft_page_at [OF assms(1), of i] assms(2) by simp
qed

definition view_le :: "view \<Rightarrow> view \<Rightarrow> bool" where
  "view_le vw vw' \<longleftrightarrow> (\<forall>off r. vw off = Some r \<longrightarrow> vw' off = Some r)"

lemma view_le_refl [simp]: "view_le vw vw"
  by (simp add: view_le_def)

lemma view_le_trans: "view_le u v \<Longrightarrow> view_le v w \<Longrightarrow> view_le u w"
  by (simp add: view_le_def)

lemma subtree_mono: "view_le vw vw' \<Longrightarrow> subtree vw n off es \<Longrightarrow> subtree vw' n off es"
proof (induction n arbitrary: off es)
  case (Suc n)
  from Suc.prems(2) obtain cs ess where "vw off = Some (word_of_nat (Suc n), NodeBranch cs)" "es = concat ess"
    "list_all2 (linked vw n) cs ess" by auto
  moreover have "list_all2 (linked vw' n) cs ess"
    using \<open>list_all2 (linked vw n) cs ess\<close> by (rule list_all2_mono) (use Suc in blast)
  ultimately show ?case using Suc.prems(1) unfolding view_le_def by auto
qed (simp add: view_le_def)

lemma linked_mono: "view_le vw vw' \<Longrightarrow> list_all2 (linked vw n) cs ess \<Longrightarrow> list_all2 (linked vw' n) cs ess"
  by (erule list_all2_mono) (blast intro: subtree_mono)

lemma extends_view:
  assumes "Editor_inv ed" and "Editor_inv ed'" and "extends ed ed'"
  shows "view_le (editor_view crc ed) (editor_view crc ed')"
  unfolding view_le_def
proof (intro allI impI)
  fix off r
  assume r: "editor_view crc ed off = Some r"
  have tree: "ed_tree ed' = ed_tree ed" using assms(3) by (simp add: extends_def)
  show "editor_view crc ed' off = Some r"
  proof (cases "off < tr_end (ed_tree ed)")
    case True
    then show ?thesis using r by (simp add: editor_view_def tree)
  next
    case False
    then obtain bs where bs: "draft_page ed off = Some bs" using r by (auto simp: editor_view_def split: option.splits)
    obtain i where i: "i < ed_pages ed" "off = page_address (tr_end (ed_tree ed)) i" "bs = ap_blocks (ed_buffer ed) ! i"
      by (rule draft_page_Some [OF assms(1) bs False])
    have "i < ed_pages ed'" "ap_blocks (ed_buffer ed') ! i = bs"
      using i assms by (auto simp: Editor_inv_def extends_def nth_append)
    then have "draft_page ed' off = Some bs" using draft_page_at [OF assms(2)] i(2) tree by metis
    then show ?thesis using r False bs by (simp add: editor_view_def tree)
  qed
qed

lemma fill_page_appends:
  assumes "fill_page grant p encode = Inr p'" and "Pages_inv end p"
  obtains bs where "encode (replicate 4096 0) = Inr bs" "p' = p\<lparr>ap_blocks := ap_blocks p @ [bs]\<rparr>" "length (ap_blocks p) < ap_limit p"
  using assms by (fastforce simp: fill_page_def AlignedPages_push_zeroed_def BLOCK_SIZE_def Pages_inv_def)

text \<open>A page whose encoder ends in a decode of its own output.\<close>

definition encodes :: "(bytes \<Rightarrow> u32) \<Rightarrow> u64 \<Rightarrow> u64 \<Rightarrow> (bytes \<Rightarrow> bytes result) \<Rightarrow> u16 \<times> Node \<Rightarrow> bool" where
  "encodes crc img off encode r \<longleftrightarrow>
     (\<forall>bs. encode (replicate 4096 0) = Inr bs \<longrightarrow> raw_node crc img off bs = Some r \<and> length bs = 4096)"

lemma leaf_encodes:
  assumes "\<forall>e \<in> set es. Extent_typed e"
  shows "encodes crc img off (\<lambda>out. leaf_into crc out off img es) (0, NodeLeaf es)"
proof -
  have out: "length (replicate 4096 (0 :: byte)) = 4096" by simp
  show ?thesis
    using leaf_into_iff(2) [OF assms out] by (fastforce simp: encodes_def raw_node_def dest: Page_decode_parts(2))
qed

lemma branch_encodes: "encodes crc img off (\<lambda>out. branch_into crc out off img level cs) (level, NodeBranch cs)"
proof -
  have out: "length (replicate 4096 (0 :: byte)) = 4096" by simp
  show ?thesis
    using branch_into_iff(2) [OF out] by (fastforce simp: encodes_def raw_node_def dest: Page_decode_parts(2))
qed

lemma Pages_inv_append:
  "Pages_inv end p \<Longrightarrow> length (ap_blocks p) < ap_limit p \<Longrightarrow> length bs = 4096 \<Longrightarrow> Pages_inv end (p\<lparr>ap_blocks := ap_blocks p @ [bs]\<rparr>)"
  by (auto simp: Pages_inv_def)

lemma next_offset_address: "Editor_next_offset ed = page_address (tr_end (ed_tree ed)) (ed_pages ed)"
  by (simp add: Editor_next_offset_def page_address_def BLOCK_SIZE_def)

lemma draft_grows:
  assumes inv: "Editor_inv ed" and fill: "fill_page grant (ed_buffer ed) encode = Inr buffer"
    and enc: "encodes crc (ed_image ed) (Editor_next_offset ed) encode r"
  defines "ed' \<equiv> ed\<lparr>ed_buffer := buffer, ed_pages := ed_pages ed + 1\<rparr>"
  shows "Editor_inv ed'" and "extends ed ed'" and "editor_view crc ed' (Editor_next_offset ed) = Some r"
proof -
  let ?e = "tr_end (ed_tree ed)"
  have pinv: "Pages_inv ?e (ed_buffer ed)" and n: "ed_pages ed = length (ap_blocks (ed_buffer ed))"
    using inv by (auto simp: Editor_inv_def)
  obtain bs where bs: "encode (replicate 4096 0) = Inr bs" "buffer = (ed_buffer ed)\<lparr>ap_blocks := ap_blocks (ed_buffer ed) @ [bs]\<rparr>"
    "length (ap_blocks (ed_buffer ed)) < ap_limit (ed_buffer ed)"
    by (rule fill_page_appends [OF fill pinv])
  have raw: "raw_node crc (ed_image ed) (Editor_next_offset ed) bs = Some r" and len: "length bs = 4096"
    using enc bs(1) by (auto simp: encodes_def)
  show inv': "Editor_inv ed'" using Pages_inv_append [OF pinv bs(3) len] bs(2) n by (simp add: Editor_inv_def ed'_def)
  show "extends ed ed'" by (simp add: extends_def ed'_def bs(2))
  have tree: "ed_tree ed' = ed_tree ed" "ed_pages ed' = ed_pages ed + 1" by (simp_all add: ed'_def)
  have "draft_page ed' (page_address ?e (ed_pages ed)) = Some bs"
    using draft_page_at [OF inv', of "ed_pages ed"] n by (simp add: tree) (simp add: ed'_def bs(2))
  moreover have "\<not> Editor_next_offset ed < ?e"
    using page_address_start(2) [OF pinv, of "ed_pages ed"] bs(3) n by (simp add: next_offset_address)
  ultimately show "editor_view crc ed' (Editor_next_offset ed) = Some r"
    using raw by (simp add: editor_view_def tree next_offset_address)
qed

lemma concat_parts [simp]: "concat (parts n xs) = xs"
  by (induction n xs rule: parts.induct) simp_all

lemma parts_nonempty: "p \<in> set (parts n xs) \<Longrightarrow> p \<noteq> []"
  by (induction n xs rule: parts.induct) auto

text \<open>The drafted leaves hold the entries between them.\<close>

lemma leaf_pages_linked:
  assumes "leaf_pages crc grant ps ed links = Inr (ed', links')" and "Editor_inv ed"
    and "\<forall>p \<in> set ps. p \<noteq> [] \<and> (\<forall>e \<in> set p. Extent_typed e)" and "list_all2 (linked (editor_view crc ed) 0) links ess"
  shows "Editor_inv ed' \<and> extends ed ed' \<and> list_all2 (linked (editor_view crc ed') 0) links' (ess @ ps)"
  using assms
proof (induction ps arbitrary: ed links ess)
  case (Cons p ps)
  let ?off = "Editor_next_offset ed"
  obtain buffer where fill: "fill_page grant (ed_buffer ed) (\<lambda>out. leaf_into crc out ?off (ed_image ed) p) = Inr buffer"
    and rest: "leaf_pages crc grant ps (ed\<lparr>ed_buffer := buffer, ed_pages := ed_pages ed + 1\<rparr>)
      (links @ [\<lparr>ci_start = ex_start (hd p), ci_offset = ?off\<rparr>]) = Inr (ed', links')"
    using Cons.prems(1) by (auto simp: Let_def push_link_def)
  let ?ed = "ed\<lparr>ed_buffer := buffer, ed_pages := ed_pages ed + 1\<rparr>"
  have p: "p \<noteq> []" "\<forall>e \<in> set p. Extent_typed e" using Cons.prems(3) by auto
  note g = draft_grows [OF Cons.prems(2) fill leaf_encodes [OF p(2)]]
  have "list_all2 (linked (editor_view crc ?ed) 0) links ess"
    using linked_mono [OF extends_view [OF Cons.prems(2) g(1,2)] Cons.prems(4)] .
  then have "list_all2 (linked (editor_view crc ?ed) 0) (links @ [\<lparr>ci_start = ex_start (hd p), ci_offset = ?off\<rparr>]) (ess @ [p])"
    using g(3) p(1) by (intro list_all2_appendI) auto
  from Cons.IH [OF rest g(1) _ this] Cons.prems(3) show ?case using extends_trans [OF g(2)] by auto
qed simp

lemma Editor_leaves_linked:
  assumes "Editor_leaves crc grant ed es = Inr (ed', links)" and "Editor_inv ed" and "\<forall>e \<in> set es. Extent_typed e"
  shows "\<exists>ess. Editor_inv ed' \<and> extends ed ed' \<and> list_all2 (linked (editor_view crc ed') 0) links ess \<and> concat ess = es"
proof -
  let ?ps = "parts (part_width LEAF_CAPACITY (length es)) es"
  have "\<forall>p \<in> set ?ps. p \<noteq> [] \<and> (\<forall>e \<in> set p. Extent_typed e)"
    using assms(3) parts_nonempty concat_parts [of "part_width LEAF_CAPACITY (length es)" es] by (metis UN_I set_concat)
  then have "Editor_inv ed' \<and> extends ed ed' \<and> list_all2 (linked (editor_view crc ed') 0) links ([] @ ?ps)"
    using assms(1,2) unfolding Editor_leaves_def by (intro leaf_pages_linked) simp_all
  then show ?thesis by (intro exI [of _ ?ps]) simp
qed

lemma linked_branch:
  assumes "vw off = Some (word_of_nat (Suc n), NodeBranch p)" and "list_all2 (linked vw n) p es" and "p \<noteq> []"
  shows "linked vw (Suc n) \<lparr>ci_start = ci_start (hd p), ci_offset = off\<rparr> (concat es)"
proof -
  have "subtree vw (Suc n) off (concat es)" unfolding subtree.simps using assms(1,2) by blast
  moreover obtain c cs f fs where "p = c # cs" "es = f # fs" using assms(2,3) by (cases p; cases es) auto
  ultimately show ?thesis using assms(2) by (auto simp del: subtree.simps)
qed

lemma branch_pages_linked:
  assumes "branch_pages crc grant (word_of_nat (Suc n)) ps ed links = Inr (ed', links')" and "Editor_inv ed"
    and "\<forall>p \<in> set ps. p \<noteq> []" and "list_all2 (linked (editor_view crc ed) n) (concat ps) ess"
    and "list_all2 (linked (editor_view crc ed) (Suc n)) links gs"
  shows "Editor_inv ed' \<and> extends ed ed' \<and>
    (\<exists>fs. list_all2 (linked (editor_view crc ed') (Suc n)) links' (gs @ fs) \<and> concat fs = concat ess)"
  using assms
proof (induction ps arbitrary: ed links gs ess)
  case Nil
  then show ?case by (intro conjI exI [of _ "[]"]) (auto simp del: subtree.simps)
next
  case (Cons p ps)
  let ?off = "Editor_next_offset ed" and ?l = "word_of_nat (Suc n) :: u16"
  obtain buffer where fill: "fill_page grant (ed_buffer ed) (\<lambda>out. branch_into crc out ?off (ed_image ed) ?l p) = Inr buffer"
    and rest: "branch_pages crc grant ?l ps (ed\<lparr>ed_buffer := buffer, ed_pages := ed_pages ed + 1\<rparr>)
      (links @ [\<lparr>ci_start = ci_start (hd p), ci_offset = ?off\<rparr>]) = Inr (ed', links')"
    using Cons.prems(1) by (auto simp: Let_def push_link_def)
  let ?ed = "ed\<lparr>ed_buffer := buffer, ed_pages := ed_pages ed + 1\<rparr>"
  note g = draft_grows [OF Cons.prems(2) fill branch_encodes]
  note le = extends_view [OF Cons.prems(2) g(1,2), of crc]
  obtain es es' where ess: "ess = es @ es'" "list_all2 (linked (editor_view crc ed) n) p es"
    "list_all2 (linked (editor_view crc ed) n) (concat ps) es'"
    using Cons.prems(4) by (auto simp: list_all2_append1 simp del: subtree.simps)
  have "linked (editor_view crc ?ed) (Suc n) \<lparr>ci_start = ci_start (hd p), ci_offset = ?off\<rparr> (concat es)"
    by (rule linked_branch [OF g(3) linked_mono [OF le ess(2)]]) (use Cons.prems(3) in simp)
  then have "list_all2 (linked (editor_view crc ?ed) (Suc n)) (links @ [\<lparr>ci_start = ci_start (hd p), ci_offset = ?off\<rparr>]) (gs @ [concat es])"
    using linked_mono [OF le Cons.prems(5)] by (intro list_all2_appendI) (simp_all del: subtree.simps)
  from Cons.IH [OF rest g(1) _ linked_mono [OF le ess(3)] this] Cons.prems(3) obtain fs where
    fs: "Editor_inv ed'" "extends ?ed ed'" "list_all2 (linked (editor_view crc ed') (Suc n)) links' ((gs @ [concat es]) @ fs)" "concat fs = concat es'"
    by (auto simp del: subtree.simps)
  show ?case
    using fs(1,3,4) extends_trans [OF g(2) fs(2)] ess(1)
    by (intro conjI exI [of _ "concat es # fs"]) (simp_all del: subtree.simps)
qed

lemma Editor_branches_linked:
  assumes "Editor_branches crc grant ed (word_of_nat (Suc n)) cs = Inr (ed', links)" and "Editor_inv ed"
    and "list_all2 (linked (editor_view crc ed) n) cs ess"
  shows "Editor_inv ed' \<and> extends ed ed' \<and> (\<exists>fs. list_all2 (linked (editor_view crc ed') (Suc n)) links fs \<and> concat fs = concat ess)"
proof -
  let ?ps = "parts (part_width BRANCH_CAPACITY (length cs)) cs"
  have "Editor_inv ed' \<and> extends ed ed' \<and>
    (\<exists>fs. list_all2 (linked (editor_view crc ed') (Suc n)) links ([] @ fs) \<and> concat fs = concat ess)"
    using assms parts_nonempty unfolding Editor_branches_def by (intro branch_pages_linked [of crc grant n ?ps]) auto
  then show ?thesis by simp
qed

lemma leaf_pages_length: "leaf_pages crc grant ps ed links = Inr (ed', links') \<Longrightarrow> length links \<le> 2 \<Longrightarrow> length links' \<le> 2"
  by (induction ps arbitrary: ed links) (auto simp: Let_def push_link_def)

lemma branch_pages_length: "branch_pages crc grant l ps ed links = Inr (ed', links') \<Longrightarrow> length links \<le> 2 \<Longrightarrow> length links' \<le> 2"
  by (induction ps arbitrary: ed links) (auto simp: Let_def push_link_def)

section \<open>Modification of a subtree\<close>

definition modify_spec :: "(bytes \<Rightarrow> u32) \<Rightarrow> (nat \<Rightarrow> bool) \<Rightarrow> Extent \<Rightarrow> nat \<Rightarrow> bool" where
  "modify_spec crc grant edit n \<longleftrightarrow> (\<forall>c es ed ed' links.
     holds (editor_view crc ed) n c es \<longrightarrow> Editor_inv ed \<longrightarrow>
     (ex_hash edit \<noteq> None \<longrightarrow> cu_lower c \<le> ex_start edit \<and> ex_end edit \<le> cu_upper c) \<longrightarrow>
     modify crc grant edit c ed = Inr (ed', links) \<longrightarrow>
     Editor_inv ed' \<and> extends ed ed' \<and> length links \<le> 2 \<and>
     (\<exists>ess. list_all2 (linked (editor_view crc ed') n) links ess \<and> stored (cu_lower c) (cu_upper c) (concat ess) \<and>
        set (concat ess) = edit_set edit (set es)))"

lemma modify_specD:
  assumes "modify_spec crc grant edit n" and "holds (editor_view crc ed) n c es" and "Editor_inv ed"
    and "ex_hash edit \<noteq> None \<longrightarrow> cu_lower c \<le> ex_start edit \<and> ex_end edit \<le> cu_upper c"
    and "modify crc grant edit c ed = Inr (ed', links)"
  obtains ess where "Editor_inv ed'" "extends ed ed'" "length links \<le> 2" "list_all2 (linked (editor_view crc ed') n) links ess"
    "stored (cu_lower c) (cu_upper c) (concat ess)" "set (concat ess) = edit_set edit (set es)"
  using assms unfolding modify_spec_def by blast

lemma modify_leaf:
  assumes ok: "edit_ok edit"
  shows "modify_spec crc grant edit 0"
  unfolding modify_spec_def
proof (intro allI impI)
  fix c es ed ed' links
  assume h: "holds (editor_view crc ed) 0 c es" and inv: "Editor_inv ed"
    and inside: "ex_hash edit \<noteq> None \<longrightarrow> cu_lower c \<le> ex_start edit \<and> ex_end edit \<le> cu_upper c"
    and run: "modify crc grant edit c ed = Inr (ed', links)"
  have rd: "Editor_read crc ed c = Inr (NodeLeaf es)" using holds_leaf [OF h] by (simp add: Editor_read_iff)
  have st: "stored (cu_lower c) (cu_upper c) es" and sub: "subtree (editor_view crc ed) 0 (cu_offset c) es" and ne: "es \<noteq> []"
    using h by (auto simp: holds_def)
  note e = edit_entries_stored [OF ok st inside]
  show "Editor_inv ed' \<and> extends ed ed' \<and> length links \<le> 2 \<and>
    (\<exists>ess. list_all2 (linked (editor_view crc ed') 0) links ess \<and> stored (cu_lower c) (cu_upper c) (concat ess) \<and>
        set (concat ess) = edit_set edit (set es))"
  proof (cases "edit_entries edit es = es")
    case True
    then have "ed' = ed" "links = [\<lparr>ci_start = ex_start (hd es), ci_offset = cu_offset c\<rparr>]"
      using run rd by (auto simp: modify.simps Let_def)
    then show ?thesis using inv st sub ne e(2) True by (intro conjI exI [of _ "[es]"]) simp_all
  next
    case False
    then have l: "Editor_leaves crc grant ed (edit_entries edit es) = Inr (ed', links)"
      using run rd by (auto simp: modify.simps Let_def)
    have "\<forall>f \<in> set (edit_entries edit es). Extent_typed f" using storedD(5) [OF e(1)] by blast
    from Editor_leaves_linked [OF l inv this] obtain ess where
      ess: "Editor_inv ed'" "extends ed ed'" "list_all2 (linked (editor_view crc ed') 0) links ess" "concat ess = edit_entries edit es"
      by blast
    have len: "length links \<le> 2" using l leaf_pages_length by (fastforce simp: Editor_leaves_def)
    show ?thesis by (intro conjI exI [of _ ess]) (use ess len e in simp_all)
  qed
qed

text \<open>The loop over the children of a branch, from the lower bound of the next child.\<close>

definition edit_from :: "u64 \<Rightarrow> Extent \<Rightarrow> Extent set \<Rightarrow> Extent set" where
  "edit_from lo edit S = cuts edit S \<union> (if ex_hash edit \<noteq> None \<and> lo \<le> ex_start edit then {edit} else {})"

text \<open>One child: kept, dropped or modified.\<close>

lemma modify_child:
  assumes spec: "modify_spec crc grant edit n" and ok: "edit_ok edit" and inv: "Editor_inv ed"
    and h: "holds (editor_view crc ed) n next es" and x: "cu_offset next = ci_offset x" "cu_minimum next = Some (ci_start x)"
    and run: "modify_children crc grant edit (x # cs) (next # cursors) acc ed = Inr r"
  obtains ed1 links fs where "Editor_inv ed1" "extends ed ed1" "list_all2 (linked (editor_view crc ed1) n) links fs"
    "stored (cu_lower next) (cu_upper next) (concat fs)"
    "modify_children crc grant edit cs cursors (acc @ links) ed1 = Inr r"
    "\<And>T. edit_from (cu_lower next) edit (set es \<union> T) = set (concat fs) \<union> edit_from (cu_upper next) edit T"
proof -
  let ?lo = "cu_lower next" and ?up = "cu_upper next"
  have st: "stored ?lo ?up es" and ne: "es \<noteq> []" using h by (auto simp: holds_def)
  have lt: "ex_start edit < ex_end edit" and unit: "ex_hash edit \<noteq> None \<longrightarrow> ex_end edit - ex_start edit = 1"
    using ok by (auto simp: edit_ok_def)
  have range: "?lo < ?up" using storedD [OF st, of "hd es"] ne by (meson hd_in_set le_less_trans)
  consider (keep) "ex_end edit \<le> ?lo \<or> ?up \<le> ex_start edit"
    | (drop) "?lo < ex_end edit" "ex_start edit < ?up" "ex_hash edit = None" "ex_start edit \<le> ?lo" "?up \<le> ex_end edit"
    | (change) "?lo < ex_end edit" "ex_start edit < ?up" "\<not> (ex_hash edit = None \<and> ex_start edit \<le> ?lo \<and> ?up \<le> ex_end edit)"
    by (metis not_le)
  then show thesis
  proof cases
    case keep
    have "ex_end e \<le> ex_start edit \<or> ex_end edit \<le> ex_start e" if "e \<in> set es" for e
      using keep storedD(1,3) [OF st that] by (meson order_trans)
    then have c: "cuts edit (set es) = set es" by (intro cuts_outside) blast
    have "?lo \<le> ex_start edit \<longleftrightarrow> ?up \<le> ex_start edit" using keep range lt by (meson le_less_trans less_imp_le not_less order_trans)
    then have "edit_from ?lo edit (set es \<union> T) = set (concat [es]) \<union> edit_from ?up edit T" for T
      by (auto simp: edit_from_def c)
    moreover have "modify_children crc grant edit cs cursors (acc @ [x]) ed = Inr r" using run keep by auto
    ultimately show thesis
      using that [of ed "[x]" "[es]"] inv st holds_linked [OF h x] by simp
  next
    case drop
    have "cuts edit (set es) = {}"
      by (rule cuts_covered) (use storedD [OF st] drop in \<open>meson order_trans\<close>)
    then have "edit_from ?lo edit (set es \<union> T) = set (concat []) \<union> edit_from ?up edit T" for T
      using drop(3) by (auto simp: edit_from_def)
    moreover have "modify_children crc grant edit cs cursors (acc @ []) ed = Inr r" using run drop by (simp add: not_le [symmetric])
    ultimately show thesis using that [of ed "[]" "[]"] inv by simp
  next
    case change
    then obtain ed1 links where m: "modify crc grant edit next ed = Inr (ed1, links)"
      and rest: "modify_children crc grant edit cs cursors (acc @ links) ed1 = Inr r"
      using run by (auto simp: not_le [symmetric] split: if_splits)
    have inside: "ex_hash edit \<noteq> None \<longrightarrow> ?lo \<le> ex_start edit \<and> ex_end edit \<le> ?up"
    proof
      assume "ex_hash edit \<noteq> None"
      then have "ex_end edit - ex_start edit = 1" using unit by blast
      then show "?lo \<le> ex_start edit \<and> ex_end edit \<le> ?up"
        using unit_extent change(1,2) by (meson not_le)
    qed
    obtain fs where fs: "Editor_inv ed1" "extends ed ed1" "list_all2 (linked (editor_view crc ed1) n) links fs"
      "stored ?lo ?up (concat fs)" "set (concat fs) = edit_set edit (set es)"
      by (rule modify_specD [OF spec h inv inside m])
    have "edit_from ?lo edit (set es \<union> T) = set (concat fs) \<union> edit_from ?up edit T" for T
      unfolding fs(5) using inside change(2) by (auto simp: edit_from_def edit_set_def)
    then show thesis using that fs(1-4) rest by blast
  qed
qed

lemma modify_children_ok:
  assumes spec: "modify_spec crc grant edit n" and ok: "edit_ok edit" and fits: "ex_hash edit \<noteq> None \<longrightarrow> ex_end edit \<le> up"
    and "modify_children crc grant edit cs (child_cursors (word_of_nat n) up lo cs) acc ed = Inr (ed', cs')"
    and "list_all2 (linked (editor_view crc ed) n) cs ess" and "stored lo up (concat ess)" and "Editor_inv ed"
    and "list_all2 (linked (editor_view crc ed) n) acc as" and "cs = [] \<longrightarrow> lo = up"
  shows "Editor_inv ed' \<and> extends ed ed' \<and> (\<exists>fs. list_all2 (linked (editor_view crc ed') n) cs' (as @ fs) \<and>
    stored lo up (concat fs) \<and> set (concat fs) = edit_from lo edit (set (concat ess)))"
  using assms(4-)
proof (induction cs arbitrary: lo ess acc as ed)
  case Nil
  have "ex_start edit < ex_end edit" using ok by (simp add: edit_ok_def)
  then have "\<not> (ex_hash edit \<noteq> None \<and> lo \<le> ex_start edit)" using fits Nil.prems(6) by (meson leD order_less_le_trans)
  then show ?case using Nil.prems by (intro conjI exI [of _ "[]"]) (auto simp: edit_from_def simp del: subtree.simps)
next
  case (Cons x cs)
  obtain es rest where ess: "ess = es # rest" using Cons.prems(2) by (auto simp: list_all2_Cons1)
  let ?mid = "next_start up cs"
  let ?next = "\<lparr>cu_offset = ci_offset x, cu_level = word_of_nat n, cu_minimum = Some (ci_start x), cu_lower = lo, cu_upper = ?mid\<rparr>"
  note p = pieces_split [OF Cons.prems(2) [unfolded ess] Cons.prems(3) [unfolded ess]]
  have h: "holds (editor_view crc ed) n ?next es" using Cons.prems(2) p(1) by (simp add: ess holds_def)
  have run: "modify_children crc grant edit (x # cs) (?next # child_cursors (word_of_nat n) up ?mid cs) acc ed = Inr (ed', cs')"
    using Cons.prems(1) by (simp add: Let_def)
  obtain ed1 links fs where m: "Editor_inv ed1" "extends ed ed1" "list_all2 (linked (editor_view crc ed1) n) links fs"
    "stored lo ?mid (concat fs)" "modify_children crc grant edit cs (child_cursors (word_of_nat n) up ?mid cs) (acc @ links) ed1 = Inr (ed', cs')"
    "\<And>T. edit_from lo edit (set es \<union> T) = set (concat fs) \<union> edit_from ?mid edit T"
    using modify_child [OF spec ok Cons.prems(4) h _ _ run] by (simp del: modify_children.simps) blast
  note le = extends_view [OF Cons.prems(4) m(1,2), of crc]
  have rest: "list_all2 (linked (editor_view crc ed1) n) cs rest" using linked_mono [OF le, of n cs rest] Cons.prems(2) by (simp add: ess)
  have acc: "list_all2 (linked (editor_view crc ed1) n) (acc @ links) (as @ fs)"
    by (rule list_all2_appendI [OF linked_mono [OF le Cons.prems(5)] m(3)])
  have "cs = [] \<longrightarrow> ?mid = up" by simp
  from Cons.IH [OF m(5) rest p(2) m(1) acc this] obtain gs where
    g: "Editor_inv ed'" "extends ed1 ed'" "list_all2 (linked (editor_view crc ed') n) cs' ((as @ fs) @ gs)"
      "stored ?mid up (concat gs)" "set (concat gs) = edit_from ?mid edit (set (concat rest))" by blast
  have "set (concat (fs @ gs)) = edit_from lo edit (set (concat ess))" using m(6) g(5) by (simp add: ess)
  moreover have "stored lo up (concat (fs @ gs))" using stored_join [OF m(4) g(4) p(3,4)] by simp
  ultimately show ?case using g(1,3) extends_trans [OF m(2) g(2)] by (intro conjI exI [of _ "fs @ gs"]) simp_all
qed

lemma modify_branch:
  assumes spec: "modify_spec crc grant edit n" and ok: "edit_ok edit"
  shows "modify_spec crc grant edit (Suc n)"
  unfolding modify_spec_def
proof (intro allI impI)
  fix c es ed ed' links
  assume h: "holds (editor_view crc ed) (Suc n) c es" and inv: "Editor_inv ed"
    and inside: "ex_hash edit \<noteq> None \<longrightarrow> cu_lower c \<le> ex_start edit \<and> ex_end edit \<le> cu_upper c"
    and run: "modify crc grant edit c ed = Inr (ed', links)"
  obtain cs ess where n: "accepts c (editor_view crc ed (cu_offset c)) (NodeBranch cs)" "es = concat ess"
    "list_all2 (linked (editor_view crc ed) n) cs ess" "list_all2 (holds (editor_view crc ed) n) (Cursor_children c cs) ess"
    by (rule holds_branch [OF h editor_view_ok])
  have st: "stored (cu_lower c) (cu_upper c) (concat ess)" and lvl: "cu_level c = word_of_nat (Suc n)"
    using h n(2) by (auto simp: holds_def)
  have ne: "cs \<noteq> []" using view_okD(2) [OF editor_view_ok, of crc ed "cu_offset c"] n(1) by (auto simp: accepts_def branch_valid_def)
  have rd: "Editor_read crc ed c = Inr (NodeBranch cs)" using n(1) by (simp add: Editor_read_iff)
  obtain ed1 cs1 where m: "modify_children crc grant edit cs (child_cursors (word_of_nat n) (cu_upper c) (cu_lower c) cs) [] ed = Inr (ed1, cs1)"
    and last: "(if cs1 = cs then Inr (ed1, [\<lparr>ci_start = Node_minimum (NodeBranch cs), ci_offset = cu_offset c\<rparr>])
       else Editor_branches crc grant ed1 (cu_level c) cs1) = Inr (ed', links)"
    using run rd by (auto simp: modify.simps Let_def Cursor_children_eq lvl simp del: modify_children.simps)
  have fits: "ex_hash edit \<noteq> None \<longrightarrow> ex_end edit \<le> cu_upper c" using inside by blast
  have emp: "cs = [] \<longrightarrow> cu_lower c = cu_upper c" using ne by simp
  from modify_children_ok [OF spec ok fits m n(3) st inv _ emp, of "[]"] obtain fs where
    f: "Editor_inv ed1" "extends ed ed1" "list_all2 (linked (editor_view crc ed1) n) cs1 fs"
      "stored (cu_lower c) (cu_upper c) (concat fs)" "set (concat fs) = edit_from (cu_lower c) edit (set (concat ess))" by auto
  have set: "set (concat fs) = edit_set edit (set es)" using f(5) inside n(2) by (auto simp: edit_from_def edit_set_def)
  show "Editor_inv ed' \<and> extends ed ed' \<and> length links \<le> 2 \<and>
    (\<exists>ess. list_all2 (linked (editor_view crc ed') (Suc n)) links ess \<and> stored (cu_lower c) (cu_upper c) (concat ess) \<and>
        set (concat ess) = edit_set edit (set es))"
  proof (cases "cs1 = cs")
    case True
    then have l: "ed' = ed1" "links = [\<lparr>ci_start = ci_start (hd cs), ci_offset = cu_offset c\<rparr>]" using last by auto
    have "editor_view crc ed1 (cu_offset c) = Some (word_of_nat (Suc n), NodeBranch cs)"
      using extends_view [OF inv f(1,2), of crc] n(1) lvl by (simp add: view_le_def accepts_def)
    from linked_branch [OF this f(3) [unfolded True] ne] show ?thesis
      using f l set by (intro conjI exI [of _ "[concat fs]"]) (simp_all del: subtree.simps)
  next
    case False
    then have b: "Editor_branches crc grant ed1 (word_of_nat (Suc n)) cs1 = Inr (ed', links)" using last lvl by simp
    from Editor_branches_linked [OF b f(1,3)] obtain gs where
      g: "Editor_inv ed'" "extends ed1 ed'" "list_all2 (linked (editor_view crc ed') (Suc n)) links gs" "concat gs = concat fs" by blast
    have len: "length links \<le> 2" using b branch_pages_length by (fastforce simp: Editor_branches_def)
    show ?thesis
      using g f(4) set len extends_trans [OF f(2) g(2)] by (intro conjI exI [of _ gs]) (simp_all del: subtree.simps)
  qed
qed

lemma modify_ok: "edit_ok edit \<Longrightarrow> modify_spec crc grant edit n"
  by (induction n) (auto intro: modify_leaf modify_branch)

section \<open>Edits of the whole tree\<close>

definition root_stores :: "view \<Rightarrow> u64 \<Rightarrow> Root \<Rightarrow> Extent list \<Rightarrow> bool" where
  "root_stores vw blocks r es \<longleftrightarrow> stored 0 blocks es \<and>
     (if rt_offset r = 0 then rt_height r = 0 \<and> es = []
      else 1 \<le> rt_height r \<and> rt_height r \<le> 8 \<and> subtree vw (unat (rt_height r) - 1) (rt_offset r) es \<and> es \<noteq> [])"

abbreviation ed_blocks :: "Editor \<Rightarrow> u64" where
  "ed_blocks ed \<equiv> ed_image ed div BLOCK"

definition ed_stores :: "(bytes \<Rightarrow> u32) \<Rightarrow> Editor \<Rightarrow> Extent list \<Rightarrow> bool" where
  "ed_stores crc ed es \<longleftrightarrow> root_stores (editor_view crc ed) (ed_blocks ed) (ed_root ed) es"

lemma height_level:
  assumes "1 \<le> (h :: u16)"
  shows "h - 1 = word_of_nat (unat h - 1)" and "unat (h - 1) = unat h - 1"
proof -
  show u: "unat (h - 1) = unat h - 1" using unat_level_child [OF assms] by simp
  have "word_of_nat (unat (h - 1)) = h - 1" by simp
  then show "h - 1 = word_of_nat (unat h - 1)" unfolding u by (rule sym)
qed

lemma root_holds:
  assumes "ed_stores crc ed es" and "rt_offset (ed_root ed) \<noteq> 0"
  shows "holds (editor_view crc ed) (unat (rt_height (ed_root ed)) - 1) (root_cursor ed) es"
  using assms height_level(1) by (auto simp: ed_stores_def root_stores_def holds_def root_cursor_def)

lemma linked_offset:
  assumes "linked vw n c es" and "view_ok img vw"
  shows "ci_offset c \<noteq> 0"
proof (cases n)
  case 0
  then show ?thesis using assms view_okD(1) [OF assms(2)] by (fastforce simp: leaf_valid_def page_offset_def)
next
  case (Suc m)
  then obtain cs where "vw (ci_offset c) = Some (word_of_nat (Suc m), NodeBranch cs)" using assms(1) by auto
  from view_okD(2) [OF assms(2) this] show ?thesis by (auto simp: branch_valid_def page_offset_def)
qed

lemma editor_view_fields [simp]:
  "editor_view crc (ed\<lparr>ed_root := r\<rparr>) = editor_view crc ed"
  "editor_view crc (ed\<lparr>ed_max_pages_per_change := m\<rparr>) = editor_view crc ed"
  by (auto simp: editor_view_def draft_page_def Let_def fun_eq_iff)

lemma Editor_inv_fields [simp]:
  "Editor_inv (ed\<lparr>ed_root := r\<rparr>) = Editor_inv ed" "Editor_inv (ed\<lparr>ed_max_pages_per_change := m\<rparr>) = Editor_inv ed"
  by (simp_all add: Editor_inv_def)

lemma collapse_ok:
  "Editor_collapse crc ed = Inr ed' \<Longrightarrow> ed_stores crc ed es \<Longrightarrow> Editor_inv ed \<Longrightarrow>
   (rt_height (ed_root ed) > 1 \<longrightarrow> rt_offset (ed_root ed) \<noteq> 0) \<Longrightarrow>
   ed_stores crc ed' es \<and> (\<exists>r. ed' = ed\<lparr>ed_root := r\<rparr>)"
proof (induction crc ed rule: Editor_collapse.induct)
  case (1 crc ed)
  let ?h = "rt_height (ed_root ed)"
  show ?case
  proof (cases "?h > 1")
    case False
    then have "ed' = ed" using "1.prems"(1) by (simp add: Editor_collapse.simps)
    then show ?thesis using "1.prems"(2) by (auto intro!: exI [of _ "ed_root ed"])
  next
    case True
    have off: "rt_offset (ed_root ed) \<noteq> 0" using "1.prems"(4) True by blast
    have h1: "1 \<le> ?h" "?h \<le> 8" "1 < unat ?h" using True "1.prems"(2) off by (auto simp: ed_stores_def root_stores_def word_less_nat_alt)
    obtain n where n: "unat ?h - 1 = Suc n" using h1(3) by (cases "unat ?h - 1") auto
    have hold: "holds (editor_view crc ed) (Suc n) (root_cursor ed) es" using root_holds [OF "1.prems"(2) off] n by simp
    obtain cs ess where c: "accepts (root_cursor ed) (editor_view crc ed (cu_offset (root_cursor ed))) (NodeBranch cs)" "es = concat ess"
      "list_all2 (linked (editor_view crc ed) n) cs ess" "list_all2 (holds (editor_view crc ed) n) (Cursor_children (root_cursor ed) cs) ess"
      by (rule holds_branch [OF hold editor_view_ok])
    have rd: "Editor_read crc ed (root_cursor ed) = Inr (NodeBranch cs)" using c(1) by (simp add: Editor_read_iff)
    show ?thesis
    proof (cases "length cs = 1")
      case False
      then have "ed' = ed" using "1.prems"(1) True rd by (subst (asm) Editor_collapse.simps) simp
      then show ?thesis using "1.prems"(2) by (auto intro!: exI [of _ "ed_root ed"])
    next
      case one: True
      then obtain x where x: "cs = [x]" by (auto simp: length_Suc_conv)
      then have l: "linked (editor_view crc ed) n x es" using c(2,3) by (auto simp: list_all2_Cons1 simp del: subtree.simps)
      let ?r = "\<lparr>rt_offset = ci_offset x, rt_height = ?h - 1\<rparr>"
      let ?ed = "ed\<lparr>ed_root := \<lparr>rt_offset = ci_offset (cs ! 0), rt_height = ?h - 1\<rparr>\<rparr>"
      have ed: "?ed = ed\<lparr>ed_root := ?r\<rparr>" by (simp add: x)
      have vw: "editor_view crc ?ed = editor_view crc ed" by simp
      have go: "Editor_collapse crc ?ed = Inr ed'" using "1.prems"(1) True rd one by (subst (asm) Editor_collapse.simps) simp
      have u: "unat (?h - 1) = Suc n" using height_level(2) [OF h1(1)] n by simp
      have "stored 0 (ed_blocks ed) es" using "1.prems"(2) by (simp add: ed_stores_def root_stores_def)
      moreover have "1 \<le> ?h - 1" using u by (simp add: word_le_nat_alt)
      moreover have "?h - 1 \<le> 8" using h1 height_level(2) [OF h1(1)] by (simp add: word_le_nat_alt)
      ultimately have st: "ed_stores crc ?ed es"
        unfolding ed_stores_def root_stores_def vw using l u linked_offset [OF l editor_view_ok]
        by (simp add: x del: subtree.simps)
      have "Editor_inv ?ed" using "1.prems"(3) by simp
      from "1.IH" [OF True rd refl _ go st this] one linked_offset [OF l editor_view_ok]
      have "ed_stores crc ed' es \<and> (\<exists>r. ed' = ?ed\<lparr>ed_root := r\<rparr>)" by (simp add: x)
      then show ?thesis by auto
    qed
  qed
qed

text \<open>One edit of the draft: the stored extents become the edited ones.\<close>

lemma root_link:
  assumes st: "stored 0 (ed_blocks ed) es" and l: "linked (editor_view crc ed) n c es" and n: "n < 8"
  shows "ed_stores crc (ed\<lparr>ed_root := \<lparr>rt_offset = ci_offset c, rt_height = word_of_nat (Suc n)\<rparr>\<rparr>) es"
proof -
  have "unat (word_of_nat (Suc n) :: u16) = Suc n" using n by (simp add: unat_of_nat del: of_nat_Suc)
  then show ?thesis
    unfolding ed_stores_def root_stores_def using st l n linked_offset [OF l editor_view_ok]
    by (simp add: word_le_nat_alt del: of_nat_Suc subtree.simps)
qed

text \<open>The new root over at most two links.\<close>

lemma top_ok:
  assumes run: "(if length links = 0 then Inr (ed\<lparr>ed_root := no_root\<rparr>)
      else if length links = 1
      then Inr (ed\<lparr>ed_root := \<lparr>rt_offset = ci_offset (links ! 0), rt_height = rt_height (ed_root ed)\<rparr>\<rparr>)
      else ensure (rt_height (ed_root ed) < MAX_HEIGHT) (InvalidData ''manifest height exhausted'')
        (attempt (Editor_branches crc grant ed (rt_height (ed_root ed)) links) (\<lambda>(ed, tops).
           Inr (ed\<lparr>ed_root := \<lparr>rt_offset = ci_offset (tops ! 0), rt_height = rt_height (ed_root ed) + 1\<rparr>\<rparr>)))) = Inr ed'"
    and h: "rt_height (ed_root ed) = word_of_nat (Suc n)" "n < 8" and inv: "Editor_inv ed"
    and l: "list_all2 (linked (editor_view crc ed) n) links fs" "length links \<le> 2" and st: "stored 0 (ed_blocks ed) (concat fs)"
  shows "Editor_inv ed' \<and> ed_tree ed' = ed_tree ed \<and> ed_stores crc ed' (concat fs)"
proof -
  consider (none) "links = []" "fs = []" | (one) x f where "links = [x]" "fs = [f]" "linked (editor_view crc ed) n x f"
    | (two) x y where "links = [x, y]"
  proof (cases links)
    case Nil
    then show thesis using l that(1) by simp
  next
    case (Cons x xs)
    show thesis
    proof (cases xs)
      case Nil
      then show thesis using l(1) Cons that(2) by (auto simp: list_all2_Cons1 simp del: subtree.simps)
    qed (use Cons l(2) that(3) in auto)
  qed
  then show ?thesis
  proof cases
    case none
    then show ?thesis using run inv by (auto simp: ed_stores_def root_stores_def no_root_def)
  next
    case one
    then show ?thesis using run inv root_link [OF st [unfolded one(2)], of crc n x] h by (auto simp del: subtree.simps of_nat_Suc)
  next
    case two
    then obtain ed1 tops where b: "Editor_branches crc grant ed (word_of_nat (Suc n)) links = Inr (ed1, tops)"
      and lt: "(word_of_nat (Suc n) :: u16) < 8"
      and ed': "ed' = ed1\<lparr>ed_root := \<lparr>rt_offset = ci_offset (tops ! 0), rt_height = rt_height (ed_root ed1) + 1\<rparr>\<rparr>"
      using run h(1) by (auto simp: MAX_HEIGHT_def simp del: of_nat_Suc)
    from Editor_branches_linked [OF b inv l(1)] obtain gs where
      g: "Editor_inv ed1" "extends ed ed1" "list_all2 (linked (editor_view crc ed1) (Suc n)) tops gs" "concat gs = concat fs" by blast
    have n: "Suc n < 8" using lt h(2) by (simp add: word_less_nat_alt unat_of_nat del: of_nat_Suc)
    have "length tops = 1"
      using b two by (auto simp: Editor_branches_def part_width_def BRANCH_CAPACITY_def Let_def push_link_def)
    then obtain t g1 where t: "tops = [t]" "gs = [g1]" using g(3) by (auto simp: length_Suc_conv list_all2_Cons1)
    have same: "ed_tree ed1 = ed_tree ed" "ed_root ed1 = ed_root ed" using g(2) by (auto simp: extends_def)
    have g1: "g1 = concat fs" using g(4) t(2) by simp
    have tl: "linked (editor_view crc ed1) (Suc n) t g1" using g(3) t by (simp del: subtree.simps)
    have "rt_height (ed_root ed1) + 1 = word_of_nat (Suc (Suc n))" using h(1) same by simp
    then have "ed_stores crc ed' (concat fs)"
      using root_link [OF _ tl n] st same unfolding ed' g1 t(1) by (simp del: subtree.simps of_nat_Suc)
    then show ?thesis using g(1) same by (simp add: ed')
  qed
qed

lemma apply_ok:
  assumes run: "Editor_apply crc grant ed edit = Inr ed'" and st: "ed_stores crc ed es" and inv: "Editor_inv ed"
    and ok: "edit_ok edit" and fits: "ex_end edit \<le> ed_blocks ed"
  shows "Editor_inv ed' \<and> ed_tree ed' = ed_tree ed \<and> (\<exists>fs. ed_stores crc ed' fs \<and> set fs = edit_set edit (set es))"
proof -
  have es: "stored 0 (ed_blocks ed) es" using st by (simp add: ed_stores_def root_stores_def)
  consider (all) "ex_hash edit = None" "ex_start edit = 0" "ex_end edit = ed_blocks ed"
    | (skip) "\<not> (ex_hash edit = None \<and> ex_start edit = 0 \<and> ex_end edit = ed_blocks ed)" "rt_offset (ed_root ed) = 0" "ex_hash edit = None"
    | (first) "\<not> (ex_hash edit = None \<and> ex_start edit = 0 \<and> ex_end edit = ed_blocks ed)" "rt_offset (ed_root ed) = 0" "ex_hash edit \<noteq> None"
    | (tree) "\<not> (ex_hash edit = None \<and> ex_start edit = 0 \<and> ex_end edit = ed_blocks ed)" "rt_offset (ed_root ed) \<noteq> 0"
    by (cases "rt_offset (ed_root ed) = 0"; cases "ex_hash edit = None") auto
  then show ?thesis
  proof cases
    case all
    then have ed': "ed' = ed\<lparr>ed_root := no_root\<rparr>" using run by (simp add: Editor_apply_def)
    have "cuts edit (set es) = {}" by (rule cuts_covered) (use storedD [OF es] all in simp)
    then have "set [] = edit_set edit (set es)" using all by (simp add: edit_set_def)
    moreover have "ed_stores crc ed' []" by (simp add: ed' ed_stores_def root_stores_def no_root_def)
    ultimately show ?thesis using inv unfolding ed' by (intro conjI exI [of _ "[]"]) simp_all
  next
    case skip
    then have "ed' = ed" using run by (auto simp: Editor_apply_def)
    moreover have "es = []" using st skip by (simp add: ed_stores_def root_stores_def)
    ultimately show ?thesis using st inv skip(3) by (intro conjI exI [of _ "[]"]) (simp_all add: edit_set_def)
  next
    case first
    then obtain ed1 links where l: "Editor_leaves crc grant ed [edit] = Inr (ed1, links)"
      and ed': "ed' = ed1\<lparr>ed_root := \<lparr>rt_offset = ci_offset (links ! 0), rt_height = 1\<rparr>\<rparr>"
      using run by (auto simp: Editor_apply_def Let_def)
    have "es = []" using st first by (simp add: ed_stores_def root_stores_def)
    then have set: "set [edit] = edit_set edit (set es)" using first(3) by (simp add: edit_set_def)
    have "\<forall>e \<in> set [edit]. Extent_typed e" using ok by (simp add: edit_ok_def)
    from Editor_leaves_linked [OF l inv this] obtain ess where
      e: "Editor_inv ed1" "extends ed ed1" "list_all2 (linked (editor_view crc ed1) 0) links ess" "concat ess = [edit]" by blast
    have "length ess = length links" using e(3) by (simp add: list_all2_lengthD)
    moreover have "parts (part_width LEAF_CAPACITY (length [edit])) [edit] = [[edit]]" by simp
    then have "length links = 1" using l by (auto simp: Editor_leaves_def Let_def push_link_def)
    ultimately obtain x f where "links = [x]" "ess = [f]" by (auto simp: length_Suc_conv)
    then have link: "links = [x]" "linked (editor_view crc ed1) 0 x [edit]" using e(3,4) by auto
    have tree: "ed_tree ed1 = ed_tree ed" using e(2) by (simp add: extends_def)
    have "stored 0 (ed_blocks ed1) [edit]" using ok fits by (simp add: stored_def edit_ok_def tree)
    from root_link [OF this link(2)] have "ed_stores crc ed' [edit]" by (simp add: ed' link(1))
    then show ?thesis using e(1) set tree by (intro conjI exI [of _ "[edit]"]) (simp_all add: ed')
  next
    case tree
    let ?h = "rt_height (ed_root ed)"
    define n where "n = unat ?h - 1"
    have h: "1 \<le> ?h" "?h \<le> 8" using st tree by (auto simp: ed_stores_def root_stores_def)
    then have hn: "?h = word_of_nat (Suc n)" "n < 8" "unat ?h = Suc n"
      using arg_cong [of "unat ?h" "Suc n" "word_of_nat :: nat \<Rightarrow> u16"] by (auto simp: n_def word_le_nat_alt)
    have hold: "holds (editor_view crc ed) n (root_cursor ed) es" using root_holds [OF st tree(2)] by (simp add: n_def)
    obtain ed1 links where m: "modify crc grant edit (root_cursor ed) ed = Inr (ed1, links)"
      and top: "attempt (if length links = 0 then Inr (ed1\<lparr>ed_root := no_root\<rparr>)
           else if length links = 1
           then Inr (ed1\<lparr>ed_root := \<lparr>rt_offset = ci_offset (links ! 0), rt_height = rt_height (ed_root ed1)\<rparr>\<rparr>)
           else ensure (rt_height (ed_root ed1) < MAX_HEIGHT) (InvalidData ''manifest height exhausted'')
             (attempt (Editor_branches crc grant ed1 (rt_height (ed_root ed1)) links) (\<lambda>(ed, tops).
                Inr (ed\<lparr>ed_root := \<lparr>rt_offset = ci_offset (tops ! 0), rt_height = rt_height (ed_root ed) + 1\<rparr>\<rparr>))))
          (Editor_collapse crc) = Inr ed'"
      using run tree by (auto simp: Editor_apply_def Let_def simp del: attempt_eq_Inr split: if_splits)
        (auto simp: attempt_def split: sum.splits)
    have inside: "ex_hash edit \<noteq> None \<longrightarrow> cu_lower (root_cursor ed) \<le> ex_start edit \<and> ex_end edit \<le> cu_upper (root_cursor ed)"
      using fits by (simp add: root_cursor_def)
    obtain fs where f: "Editor_inv ed1" "extends ed ed1" "length links \<le> 2" "list_all2 (linked (editor_view crc ed1) n) links fs"
      "stored (cu_lower (root_cursor ed)) (cu_upper (root_cursor ed)) (concat fs)" "set (concat fs) = edit_set edit (set es)"
      by (rule modify_specD [OF modify_ok [OF ok] hold inv inside m])
    have same: "ed_tree ed1 = ed_tree ed" "ed_root ed1 = ed_root ed" using f(2) by (auto simp: extends_def)
    have sto: "stored 0 (ed_blocks ed1) (concat fs)" using f(5) by (simp add: root_cursor_def same)
    have h1: "rt_height (ed_root ed1) = word_of_nat (Suc n)" using hn(1) same by simp
    obtain ed2 where "Editor_collapse crc ed2 = Inr ed'" "Editor_inv ed2" "ed_tree ed2 = ed_tree ed1" "ed_stores crc ed2 (concat fs)"
      using top top_ok [OF _ h1 hn(2) f(1,4,3) sto] unfolding attempt_eq_Inr by blast
    then have e2: "Editor_collapse crc ed2 = Inr ed'" "Editor_inv ed2" "ed_tree ed2 = ed_tree ed" "ed_stores crc ed2 (concat fs)"
      using same by simp_all
    then have "rt_height (ed_root ed2) > 1 \<longrightarrow> rt_offset (ed_root ed2) \<noteq> 0" by (auto simp: ed_stores_def root_stores_def split: if_splits)
    from collapse_ok [OF e2(1,4,2) this] show ?thesis using e2(2,3) f(6) by auto
  qed
qed

lemma edit_set_stored: "ed_stores crc ed es \<Longrightarrow> \<forall>e \<in> set es. ex_start e < ex_end e"
  using storedD(2) by (auto simp: ed_stores_def root_stores_def)

lemma apply_edits_ok:
  assumes "apply_edits crc grant edits ed = Inr ed'" and "ed_stores crc ed es" and "Editor_inv ed"
    and "\<forall>edit \<in> set edits. edit_ok edit \<and> ex_end edit \<le> ed_blocks ed"
  shows "Editor_inv ed' \<and> ed_tree ed' = ed_tree ed \<and> (\<exists>fs. ed_stores crc ed' fs \<and> set fs = fold edit_set edits (set es))"
  using assms
proof (induction edits arbitrary: ed es)
  case (Cons edit edits)
  obtain ed1 m where a: "Editor_apply crc grant ed edit = Inr ed1"
    and r: "apply_edits crc grant edits (ed1\<lparr>ed_max_pages_per_change := m\<rparr>) = Inr ed'"
    using Cons.prems(1) by (auto simp: Let_def)
  obtain fs where f: "Editor_inv ed1" "ed_tree ed1 = ed_tree ed" "ed_stores crc ed1 fs" "set fs = edit_set edit (set es)"
    using apply_ok [OF a Cons.prems(2,3)] Cons.prems(4) by auto
  have "ed_stores crc (ed1\<lparr>ed_max_pages_per_change := m\<rparr>) fs" using f(3) by (simp add: ed_stores_def)
  from Cons.IH [OF r this] f Cons.prems(4) show ?case by simp
qed auto

section \<open>Emission\<close>

definition on_output :: "Editor \<Rightarrow> AlignedPages \<Rightarrow> Editor" where
  "on_output ed out = ed\<lparr>ed_buffer := out, ed_pages := length (ap_blocks out)\<rparr>"

lemma on_output_simps [simp]:
  "ed_tree (on_output ed out) = ed_tree ed" "ed_buffer (on_output ed out) = out" "ed_pages (on_output ed out) = length (ap_blocks out)"
  "Editor_inv (on_output ed out) \<longleftrightarrow> Pages_inv (tr_end (ed_tree ed)) out"
  by (simp_all add: on_output_def Editor_inv_def)

lemma view_below:
  assumes le: "\<forall>off < lim. vw off = vw' off" and ok: "view_ok img vw"
  shows "subtree vw n off es \<Longrightarrow> off < lim \<Longrightarrow> subtree vw' n off es"
proof (induction n arbitrary: off es)
  case 0
  then show ?case using le by auto
next
  case (Suc n)
  then obtain cs ess where c: "vw off = Some (word_of_nat (Suc n), NodeBranch cs)" "es = concat ess" "list_all2 (linked vw n) cs ess"
    by auto
  have below: "ci_offset x < lim" if "x \<in> set cs" for x
    using view_okD(2) [OF ok c(1)] that Suc.prems(2) by (auto simp: branch_valid_def children_ok_def intro: less_trans)
  have "list_all2 (linked vw' n) cs ess"
    using c(3) by (rule list.rel_mono_strong) (use Suc.IH below in blast)
  moreover have "vw' off = Some (word_of_nat (Suc n), NodeBranch cs)" using c(1) le Suc.prems(2) by simp
  ultimately show ?case unfolding subtree.simps using c(2) by blast
qed

lemma output_offset:
  assumes "Pages_inv (tr_end (ed_tree ed)) out"
  shows "tr_end (ed_tree ed) + word_of_nat (length (AlignedPages_as_slice out)) = Editor_next_offset (on_output ed out)"
  by (simp only: length_slice [OF assms] Editor_next_offset_def on_output_simps BLOCK_SIZE_def)

lemma output_grows:
  assumes inv: "Pages_inv (tr_end (ed_tree ed)) out" and fill: "fill_page grant out encode = Inr out'"
    and enc: "encodes crc (ed_image ed) (Editor_next_offset (on_output ed out)) encode r"
  shows "Pages_inv (tr_end (ed_tree ed)) out'" and "extends (on_output ed out) (on_output ed out')"
    and "editor_view crc (on_output ed out') (Editor_next_offset (on_output ed out)) = Some r"
proof -
  have i: "Editor_inv (on_output ed out)" using inv by simp
  obtain bs where "out' = out\<lparr>ap_blocks := ap_blocks out @ [bs]\<rparr>" by (rule fill_page_appends [OF fill inv])
  then have eq: "(on_output ed out)\<lparr>ed_buffer := out', ed_pages := ed_pages (on_output ed out) + 1\<rparr> = on_output ed out'"
    by (simp add: on_output_def)
  note g = draft_grows [OF i, of grant encode out' crc r, unfolded eq]
  show "Pages_inv (tr_end (ed_tree ed)) out'" "extends (on_output ed out) (on_output ed out')"
    "editor_view crc (on_output ed out') (Editor_next_offset (on_output ed out)) = Some r"
    using g fill enc by simp_all
qed

definition emit_spec :: "(bytes \<Rightarrow> u32) \<Rightarrow> (nat \<Rightarrow> bool) \<Rightarrow> Editor \<Rightarrow> nat \<Rightarrow> bool" where
  "emit_spec crc grant ed n \<longleftrightarrow> (\<forall>c es out off out'. holds (editor_view crc ed) n c es \<longrightarrow> Pages_inv (tr_end (ed_tree ed)) out \<longrightarrow>
     emit crc grant ed c out = Inr (off, out') \<longrightarrow>
     Pages_inv (tr_end (ed_tree ed)) out' \<and> extends (on_output ed out) (on_output ed out') \<and>
     subtree (editor_view crc (on_output ed out')) n off es)"

lemma emit_old:
  assumes "holds (editor_view crc ed) n c es" and "cu_offset c < tr_end (ed_tree ed)"
  shows "subtree (editor_view crc (on_output ed out)) n (cu_offset c) es"
proof (rule view_below [OF _ editor_view_ok])
  show "\<forall>off < tr_end (ed_tree ed). editor_view crc ed off = editor_view crc (on_output ed out) off" by (simp add: editor_view_def)
qed (use assms in \<open>auto simp: holds_def\<close>)

lemma emit_children_ok:
  assumes spec: "emit_spec crc grant ed n"
    and "list_all2 (holds (editor_view crc ed) n) cs ess" and "Pages_inv (tr_end (ed_tree ed)) out"
    and "emit_children crc grant ed cs out = Inr (offs, out')"
  shows "Pages_inv (tr_end (ed_tree ed)) out' \<and> extends (on_output ed out) (on_output ed out') \<and>
    list_all2 (subtree (editor_view crc (on_output ed out')) n) offs ess"
  using assms(2-)
proof (induction cs ess arbitrary: out offs rule: list_all2_induct)
  case (Cons c cs es ess)
  obtain off out1 offs1 where e: "emit crc grant ed c out = Inr (off, out1)"
    and r: "emit_children crc grant ed cs out1 = Inr (offs1, out')" and offs: "offs = off # offs1"
    using Cons.prems(2) by auto
  have s: "Pages_inv (tr_end (ed_tree ed)) out1" "extends (on_output ed out) (on_output ed out1)"
    "subtree (editor_view crc (on_output ed out1)) n off es"
    using spec Cons.hyps(1) Cons.prems(1) e unfolding emit_spec_def by blast+
  have t: "Pages_inv (tr_end (ed_tree ed)) out'" "extends (on_output ed out1) (on_output ed out')"
    "list_all2 (subtree (editor_view crc (on_output ed out')) n) offs1 ess"
    using Cons.IH [OF s(1) r] by auto
  have "view_le (editor_view crc (on_output ed out1)) (editor_view crc (on_output ed out'))"
    using s(1) t(1,2) by (intro extends_view) simp_all
  from subtree_mono [OF this s(3)] show ?case using t extends_trans [OF s(2) t(2)] by (simp add: offs)
qed simp

lemma rebased_linked:
  assumes "list_all2 (linked vw n) cs ess" and "list_all2 (subtree vw' n) offs ess"
  shows "list_all2 (linked vw' n) (map2 (\<lambda>child offset. child\<lparr>ci_offset := offset\<rparr>) cs offs) ess"
  using assms by (auto simp: list_all2_conv_all_nth)

lemma emit_ok: "emit_spec crc grant ed n"
proof (induction n)
  case 0
  show ?case unfolding emit_spec_def
  proof (intro allI impI)
    fix c es out off out'
    assume h: "holds (editor_view crc ed) 0 c es" and inv: "Pages_inv (tr_end (ed_tree ed)) out"
      and run: "emit crc grant ed c out = Inr (off, out')"
    have rd: "Editor_read crc ed c = Inr (NodeLeaf es)" using holds_leaf [OF h] by (simp add: Editor_read_iff)
    show "Pages_inv (tr_end (ed_tree ed)) out' \<and> extends (on_output ed out) (on_output ed out') \<and>
      subtree (editor_view crc (on_output ed out')) 0 off es"
    proof (cases "cu_offset c < tr_end (ed_tree ed)")
      case True
      then have "off = cu_offset c" "out' = out" using run by (simp_all add: emit.simps)
      then show ?thesis using inv emit_old [OF h True] by simp
    next
      case False
      then have off: "off = Editor_next_offset (on_output ed out)"
        and fill: "fill_page grant out (\<lambda>page. leaf_into crc page (Editor_next_offset (on_output ed out)) (ed_image ed) es) = Inr out'"
        using run rd output_offset [OF inv] by (auto simp: emit.simps Let_def)
      have "\<forall>e \<in> set es. Extent_typed e" using h storedD(5) by (auto simp: holds_def)
      from output_grows [OF inv fill leaf_encodes [OF this]] show ?thesis by (simp add: off)
    qed
  qed
next
  case (Suc n)
  show ?case unfolding emit_spec_def
  proof (intro allI impI)
    fix c es out off out'
    assume h: "holds (editor_view crc ed) (Suc n) c es" and inv: "Pages_inv (tr_end (ed_tree ed)) out"
      and run: "emit crc grant ed c out = Inr (off, out')"
    obtain cs ess where n: "accepts c (editor_view crc ed (cu_offset c)) (NodeBranch cs)" "es = concat ess"
      "list_all2 (linked (editor_view crc ed) n) cs ess" "list_all2 (holds (editor_view crc ed) n) (Cursor_children c cs) ess"
      by (rule holds_branch [OF h editor_view_ok])
    have rd: "Editor_read crc ed c = Inr (NodeBranch cs)" using n(1) by (simp add: Editor_read_iff)
    have ne: "cs \<noteq> []" using view_okD(2) [OF editor_view_ok, of crc ed "cu_offset c"] n(1) by (auto simp: accepts_def branch_valid_def)
    have lvl: "cu_level c = word_of_nat (Suc n)" using h by (simp add: holds_def)
    show "Pages_inv (tr_end (ed_tree ed)) out' \<and> extends (on_output ed out) (on_output ed out') \<and>
      subtree (editor_view crc (on_output ed out')) (Suc n) off es"
    proof (cases "cu_offset c < tr_end (ed_tree ed)")
      case True
      then have "off = cu_offset c" "out' = out" using run by (simp_all add: emit.simps)
      then show ?thesis using inv emit_old [OF h True] by simp
    next
      case False
      then obtain offs out1 where ch: "emit_children crc grant ed (Cursor_children c cs) out = Inr (offs, out1)"
        and off: "off = tr_end (ed_tree ed) + word_of_nat (length (AlignedPages_as_slice out1))"
        and fill: "fill_page grant out1 (\<lambda>page. branch_into crc page off (ed_image ed) (word_of_nat (Suc n))
            (map2 (\<lambda>child offset. child\<lparr>ci_offset := offset\<rparr>) cs offs)) = Inr out'"
        using run rd lvl by (auto simp: emit.simps Let_def simp del: of_nat_Suc)
      let ?cs = "map2 (\<lambda>child offset. child\<lparr>ci_offset := offset\<rparr>) cs offs"
      have e: "Pages_inv (tr_end (ed_tree ed)) out1" "extends (on_output ed out) (on_output ed out1)"
        "list_all2 (subtree (editor_view crc (on_output ed out1)) n) offs ess"
        using emit_children_ok [OF Suc.IH n(4) inv ch] by auto
      note o = output_offset [OF e(1), folded off]
      note g = output_grows [OF e(1) fill [unfolded o] branch_encodes]
      have le: "view_le (editor_view crc (on_output ed out1)) (editor_view crc (on_output ed out'))"
        using e(1) g(1,2) by (intro extends_view) simp_all
      have l: "list_all2 (linked (editor_view crc (on_output ed out')) n) ?cs ess"
        by (rule linked_mono [OF le rebased_linked [OF n(3) e(3)]])
      have "?cs \<noteq> []" using ne e(3) n(3) by (auto simp: list_all2_conv_all_nth)
      from linked_branch [OF g(3) l this] show ?thesis
        using g(1) extends_trans [OF e(2) g(2)] n(2) o by (simp del: subtree.simps)
    qed
  qed
qed

section \<open>The written transaction\<close>

text \<open>The file after a prepared transaction was written at its offset.\<close>

definition written :: "(u64 \<Rightarrow> bytes result) \<Rightarrow> ManifestPrepared \<Rightarrow> u64 \<Rightarrow> bytes result" where
  "written source p off =
     (if off < pr_offset p then source off
      else Inr (subrange (Prepared_bytes p) (unat (off - pr_offset p)) BLOCK_SIZE))"

definition Prepared_tree :: "(u64 \<Rightarrow> bytes result) \<Rightarrow> ManifestPrepared \<Rightarrow> Tree" where
  "Prepared_tree source p = \<lparr>tr_source = written source p, tr_commit = pr_commit p,
     tr_end = pr_offset p + word_of_nat (length (Prepared_bytes p))\<rparr>"

lemma Prepared_tree_simps [simp]:
  "tr_source (Prepared_tree source p) = written source p" "tr_commit (Prepared_tree source p) = pr_commit p"
  by (simp_all add: Prepared_tree_def)

definition tree_stores :: "(bytes \<Rightarrow> u32) \<Rightarrow> Tree \<Rightarrow> Extent list \<Rightarrow> bool" where
  "tree_stores crc tree es \<longleftrightarrow>
     root_stores (tree_view crc tree) (cm_image_bytes (tr_commit tree) div BLOCK) (cm_root (tr_commit tree)) es"

lemma validate_view_root:
  assumes "validate_view commit end = Inr ()"
  shows "unat end \<ge> 8192" and "rt_offset (cm_root commit) = 0 \<longrightarrow> rt_height (cm_root commit) = 0"
    and "rt_offset (cm_root commit) \<noteq> 0 \<longrightarrow> 1 \<le> rt_height (cm_root commit) \<and> rt_height (cm_root commit) \<le> 8"
  using assms by (auto simp: validate_view_def Commit_validate_def MAX_HEIGHT_def word_le_nat_alt split: if_splits)

lemma Cursor_root_holds:
  assumes "rt_offset (cm_root c) \<noteq> 0" and "1 \<le> rt_height (cm_root c)"
  shows "holds vw (unat (rt_height (cm_root c)) - 1) (Cursor_root c) es \<longleftrightarrow>
    subtree vw (unat (rt_height (cm_root c)) - 1) (rt_offset (cm_root c)) es \<and> es \<noteq> [] \<and> stored 0 (cm_image_bytes c div BLOCK) es"
proof -
  have "rt_height (cm_root c) \<noteq> 0" using assms(2) by auto
  then show ?thesis using height_level(1) [OF assms(2)] by (simp add: holds_def Cursor_root_def)
qed

text \<open>A tree can be walked exactly when it is well formed, and the walk lists what it stores.\<close>

lemma walk_iff:
  assumes "validate_view (tr_commit tree) (tr_end tree) = Inr ()"
  shows "Tree_walk crc tree collect [] = Inr es \<longleftrightarrow> tree_stores crc tree es"
proof (cases "rt_offset (cm_root (tr_commit tree)) = 0")
  case True
  then show ?thesis
    using validate_view_root(2) [OF assms] by (auto simp: Tree_walk_def Tree_walk_pages_def tree_stores_def root_stores_def)
next
  case False
  let ?c = "tr_commit tree" and ?r = "Cursor_root (tr_commit tree)"
  have h: "1 \<le> rt_height (cm_root ?c)" "rt_height (cm_root ?c) \<le> 8" using validate_view_root(3) [OF assms] False by auto
  then have nz: "rt_height (cm_root ?c) \<noteq> 0" by auto
  have lvl: "unat (cu_level ?r) = unat (rt_height (cm_root ?c)) - 1" using height_level(2) [OF h(1)] nz by (simp add: Cursor_root_def)
  have "visit crc tree no_visit collect ?r [] = Inr es \<longleftrightarrow> holds (tree_view crc tree) (unat (rt_height (cm_root ?c)) - 1) ?r es"
    using visit_only [OF _ lvl, of crc tree "[]" es] visit_holds [of crc tree _ ?r es "[]"] by auto
  then show ?thesis
    using False h Cursor_root_holds [OF False h(1)] by (auto simp: Tree_walk_def Tree_walk_pages_def tree_stores_def root_stores_def)
qed

lemma get_stores:
  assumes v: "validate_view (tr_commit tree) (tr_end tree) = Inr ()" and st: "tree_stores crc tree es"
    and b: "b < cm_image_bytes (tr_commit tree) div BLOCK"
  shows "Tree_get crc tree b = Inr (find_extent b es)"
proof (cases "rt_offset (cm_root (tr_commit tree)) = 0")
  case True
  then have "Tree_get crc tree b = get_loop crc (tr_source tree) (lookup_at tree b None None)"
    using v b by (simp add: Tree_get_def Lookup_new_def lookup_at_def)
  moreover have "es = []" using st True by (simp add: tree_stores_def root_stores_def)
  ultimately show ?thesis by (simp add: get_loop_done find_extent_def)
next
  case False
  then have "Tree_get crc tree b = get_loop crc (tr_source tree) (lookup_at tree b (Some (Cursor_root (tr_commit tree))) None)"
    using v b by (simp add: Tree_get_def Lookup_new_def lookup_at_def)
  moreover have "holds (tree_view crc tree) (unat (rt_height (cm_root (tr_commit tree))) - 1) (Cursor_root (tr_commit tree)) es"
    using Cursor_root_holds [OF False] st False by (auto simp: tree_stores_def root_stores_def)
  ultimately show ?thesis using get_loop_holds by metis
qed

fun edit_value :: "Extent list \<Rightarrow> u64 \<Rightarrow> hash option \<Rightarrow> hash option" where
  "edit_value [] b v = v"
| "edit_value (e # es) b v = edit_value es b (if ex_start e \<le> b \<and> b < ex_end e then ex_hash e else v)"

lemma fold_edits_value:
  assumes "\<forall>e \<in> set edits. ex_start e < ex_end e" and "\<forall>e \<in> S. ex_start e < ex_end e"
    and "\<And>h. v = Some h \<longleftrightarrow> maps_block S b h"
  shows "edit_value edits b v = Some h \<longleftrightarrow> maps_block (fold edit_set edits S) b h"
  using assms
proof (induction edits arbitrary: S v)
  case (Cons e edits)
  have "\<forall>f \<in> edit_set e S. ex_start f < ex_end f"
    using Cons.prems(1,2) by (auto simp: edit_set_def cuts_def cut_extent_def split: if_splits)
  moreover have "(if ex_start e \<le> b \<and> b < ex_end e then ex_hash e else v) = Some h \<longleftrightarrow> maps_block (edit_set e S) b h" for h
    using maps_edit [of e S b h] Cons.prems by simp
  ultimately have "edit_value edits b (if ex_start e \<le> b \<and> b < ex_end e then ex_hash e else v) = Some h \<longleftrightarrow>
      maps_block (fold edit_set edits (edit_set e S)) b h"
    by (intro Cons.IH) (use Cons.prems(1) in simp_all)
  then show ?case by (simp del: if_split)
qed simp

text \<open>The draft starts as the committed tree.\<close>

lemma fresh_editor:
  assumes st: "tree_stores crc tree es" and fin: "unat (tr_end tree) \<ge> 8192"
    and room: "unat (tr_end tree) + pages * 4096 < 2 ^ 63"
  defines "ed \<equiv> \<lparr>ed_tree = tree, ed_buffer = AlignedPages_new pages, ed_root = cm_root (tr_commit tree), ed_pages = 0,
     ed_max_pages_per_change = 0\<rparr>"
  shows "Editor_inv ed" and "ed_stores crc ed es" and "Pages_inv (tr_end tree) (AlignedPages_new pages)"
proof -
  show inv: "Pages_inv (tr_end tree) (AlignedPages_new pages)" using fin room by (simp add: Pages_inv_def AlignedPages_new_def)
  then show "Editor_inv ed" by (simp add: Editor_inv_def ed_def AlignedPages_new_def)
  have "tr_end tree - BLOCK \<le> tr_end tree" using fin by (simp add: word_le_nat_alt unat_sub_if')
  then have "view_le (tree_view crc tree) (editor_view crc ed)"
    by (auto simp: view_le_def editor_view_def tree_view_def ed_def split: if_splits)
  from subtree_mono [OF this] show "ed_stores crc ed es"
    using st by (auto simp: tree_stores_def ed_stores_def root_stores_def ed_def)
qed

lemma subtree_offset: "subtree vw n off es \<Longrightarrow> view_ok img vw \<Longrightarrow> es \<noteq> [] \<Longrightarrow> off \<noteq> 0"
  using linked_offset [of vw n "\<lparr>ci_start = ex_start (hd es), ci_offset = off\<rparr>" es img] by simp

lemma emit_root_ok:
  assumes run: "emit_root crc grant ed out = Inr (root, out')" and st: "ed_stores crc ed es"
    and inv: "Pages_inv (tr_end (ed_tree ed)) out"
  shows "Pages_inv (tr_end (ed_tree ed)) out'" and "root_stores (editor_view crc (on_output ed out')) (ed_blocks ed) root es"
proof -
  have "Pages_inv (tr_end (ed_tree ed)) out' \<and> root_stores (editor_view crc (on_output ed out')) (ed_blocks ed) root es"
  proof (cases "rt_offset (ed_root ed) = 0")
    case True
    then show ?thesis using run st inv by (auto simp: emit_root_def ed_stores_def root_stores_def)
  next
    case False
    let ?c = "(tr_commit (ed_tree ed))\<lparr>cm_root := ed_root ed\<rparr>"
    let ?n = "unat (rt_height (ed_root ed)) - 1"
    obtain off where e: "emit crc grant ed (Cursor_root ?c) out = Inr (off, out')"
      and root: "root = \<lparr>rt_offset = off, rt_height = rt_height (ed_root ed)\<rparr>"
      using run False by (auto simp: emit_root_def)
    have s: "stored 0 (ed_blocks ed) es" "1 \<le> rt_height (ed_root ed)" "rt_height (ed_root ed) \<le> 8"
      "subtree (editor_view crc ed) ?n (rt_offset (ed_root ed)) es" "es \<noteq> []"
      using st False by (auto simp: ed_stores_def root_stores_def)
    have "holds (editor_view crc ed) ?n (Cursor_root ?c) es" using Cursor_root_holds [of ?c] False s by simp
    then have o: "Pages_inv (tr_end (ed_tree ed)) out'" "subtree (editor_view crc (on_output ed out')) ?n off es"
      using emit_ok [of crc grant ed ?n] inv e unfolding emit_spec_def by blast+
    moreover have "off \<noteq> 0" by (rule subtree_offset [OF o(2) editor_view_ok s(5)])
    ultimately show ?thesis using s by (simp add: root_stores_def root)
  qed
  then show "Pages_inv (tr_end (ed_tree ed)) out'" "root_stores (editor_view crc (on_output ed out')) (ed_blocks ed) root es" by auto
qed

text \<open>The output pages, followed by the COMMIT page, read back from the file.\<close>

lemma output_written:
  assumes inv: "Pages_inv end out" "length (ap_blocks out) < ap_limit out" "length bs = 4096"
    and p: "pr_offset p = end" "Prepared_bytes p = concat (ap_blocks out @ [bs])" "cm_image_bytes (pr_commit p) = ed_image ed"
    and ed: "tr_end (ed_tree ed) = end" "tr_source (ed_tree ed) = source" and fin: "unat end \<ge> 8192"
  shows "view_le (editor_view crc (on_output ed out)) (tree_view crc (Prepared_tree source p))"
    and "tr_end (Prepared_tree source p) = page_address end (Suc (length (ap_blocks out)))"
    and "tr_end (Prepared_tree source p) - BLOCK = page_address end (length (ap_blocks out))"
proof -
  let ?n = "length (ap_blocks out)"
  have lens: "\<forall>b \<in> set (ap_blocks out @ [bs]). length b = 4096" using inv by (auto simp: Pages_inv_def)
  have len: "length (Prepared_bytes p) = Suc ?n * 4096" using length_concat_uniform [OF lens] by (simp add: p(2))
  show te: "tr_end (Prepared_tree source p) = page_address end (Suc ?n)"
    by (simp only: Prepared_tree_def Tree.select_convs p(1) len page_address_def)
  have u: "unat (page_address end i) = unat end + i * 4096" if "i \<le> Suc ?n" for i
    using page_address_unat [OF inv(1), of i] that inv(2) by simp
  have bl: "unat BLOCK = 4096" by simp
  show cm: "tr_end (Prepared_tree source p) - BLOCK = page_address end ?n"
    unfolding te using u [of ?n] u [of "Suc ?n"] by (intro word_unat_eq_iff [THEN iffD2]) (simp add: unat_sub_if')
  show "view_le (editor_view crc (on_output ed out)) (tree_view crc (Prepared_tree source p))"
    unfolding view_le_def
  proof (intro allI impI)
    fix off r
    assume r: "editor_view crc (on_output ed out) off = Some r"
    show "tree_view crc (Prepared_tree source p) off = Some r"
    proof (cases "off < end")
      case True
      then have t: "tree_view crc (ed_tree ed) off = Some r" using r by (simp add: editor_view_def ed)
      have "unat off < unat end + ?n * 4096" using True by (simp add: word_less_nat_alt)
      then have "off < page_address end ?n" using u [of ?n] by (simp add: word_less_nat_alt)
      then show ?thesis
        using t True p unfolding tree_view_def cm
        by (auto simp: written_def ed split: if_splits sum.splits)
    next
      case False
      then obtain b where b: "draft_page (on_output ed out) off = Some b" "raw_node crc (ed_image ed) off b = Some r"
        using r by (auto simp: editor_view_def ed split: option.splits)
      have i1: "Editor_inv (on_output ed out)" using inv(1) by (simp add: ed)
      obtain i where i: "i < ?n" "off = page_address end i" "b = ap_blocks out ! i"
        using draft_page_Some [OF i1 b(1)] False by (auto simp: ed)
      have lt: "off < page_address end ?n" using u [of i] u [of ?n] i by (simp add: word_less_nat_alt)
      have "unat (off - end) = i * 4096" using page_address_start(1) [OF inv(1), of i] i inv(2) by simp
      then have "written source p off = Inr b"
        using False page_slice [OF lens, of i] i by (simp add: written_def p(1,2) BLOCK_SIZE_def nth_append)
      then show ?thesis using lt b(2) p(3) unfolding tree_view_def cm by simp
    qed
  qed
qed

lemma build_parts:
  assumes build: "Prepared_build crc granted draft grant source current fin edits durable = Inr p"
  obtains pages ed root out bs where
    "list_all (check_edit (cm_image_bytes current div BLOCK)) edits"
    "validate_view current fin = Inr ()" "unat fin + pages * 4096 < 2 ^ 63"
    "apply_edits crc draft edits \<lparr>ed_tree = \<lparr>tr_source = source, tr_commit = current, tr_end = fin\<rparr>,
       ed_buffer = AlignedPages_new pages, ed_root = cm_root current, ed_pages = 0, ed_max_pages_per_change = 0\<rparr> = Inr ed"
    "emit_root crc grant ed (AlignedPages_new pages) = Inr (root, out)"
    "fill_page grant out (\<lambda>page. Commit_encode_into crc (pr_commit p) page (fin + word_of_nat (length (AlignedPages_as_slice out)))) = Inr (pr_buffer p)"
    "pr_commit p = current\<lparr>cm_root := root, cm_generation := cm_generation current + 1, cm_durable := durable\<rparr>"
    "pr_offset p = fin" "es_written_pages (pr_stats p) = length (AlignedPages_as_slice (pr_buffer p)) div BLOCK_SIZE"
proof -
  define pages where "pages = length edits * (8 * unat MAX_HEIGHT + 8) + 1"
  let ?tree = "\<lparr>tr_source = source, tr_commit = current, tr_end = fin\<rparr>"
  obtain generation ed root out where b: "list_all (check_edit (cm_image_bytes current div BLOCK)) edits"
    "checked_add (cm_generation current) 1 = Some generation" "pages * BLOCK_SIZE \<le> MAX_TRANSACTION_BYTES"
    "case checked_add fin (word_of_nat (pages * BLOCK_SIZE)) of None \<Rightarrow> False | Some n \<Rightarrow> n \<le> 2 ^ 63 - 1"
    "Tree_new granted source current fin = Inr ?tree"
    "apply_edits crc draft edits \<lparr>ed_tree = ?tree, ed_buffer = AlignedPages_new pages, ed_root = cm_root current, ed_pages = 0,
       ed_max_pages_per_change = 0\<rparr> = Inr ed"
    "emit_root crc grant ed (AlignedPages_new pages) = Inr (root, out)"
    "fill_page grant out (\<lambda>page. Commit_encode_into crc (pr_commit p) page (fin + word_of_nat (length (AlignedPages_as_slice out)))) = Inr (pr_buffer p)"
    "pr_commit p = current\<lparr>cm_root := root, cm_generation := generation, cm_durable := durable\<rparr>"
    "pr_offset p = fin" "es_written_pages (pr_stats p) = length (AlignedPages_as_slice (pr_buffer p)) div BLOCK_SIZE"
    using build unfolding Prepared_build_def Let_def pages_def [symmetric] by (auto simp: Tree_new_def)
  obtain n where n: "checked_add fin (word_of_nat (pages * BLOCK_SIZE)) = Some n" "n \<le> 2 ^ 63 - 1"
    using b(4) by (auto split: option.splits)
  have small: "pages * 4096 < 2 ^ 32" using b(3) by (simp add: MAX_TRANSACTION_BYTES_def BLOCK_SIZE_def)
  have "unat (word_of_nat (pages * 4096) :: u64) = pages * 4096" using small by (simp add: unat_of_nat del: of_nat_mult)
  then have "unat n = unat fin + pages * 4096" using checked_add_unat [OF n(1)] by (simp add: BLOCK_SIZE_def del: of_nat_mult)
  moreover have "unat n \<le> unat (2 ^ 63 - 1 :: u64)" using n(2) by (simp add: word_le_nat_alt)
  ultimately have room: "unat fin + pages * 4096 < 2 ^ 63" by simp
  have "validate_view current fin = Inr ()" using b(5) by (simp add: Tree_new_def)
  moreover have "generation = cm_generation current + 1" using b(2) by (simp add: checked_add_Some)
  ultimately show thesis using that [OF b(1) _ room b(6-8)] b(9-11) by simp
qed

lemma build_checks:
  assumes "Prepared_build crc granted draft grant source current fin edits durable = Inr p"
  shows "list_all (check_edit (cm_image_bytes current div BLOCK)) edits" and "validate_view current fin = Inr ()"
    and "cm_image_bytes (pr_commit p) = cm_image_bytes current" and "pr_offset p = fin"
  by (rule build_parts [OF assms], simp)+

lemma check_edit_ok: "check_edit blocks e \<Longrightarrow> Extent_typed e \<Longrightarrow> edit_ok e \<and> ex_end e \<le> blocks"
  by (auto simp: check_edit_def edit_ok_def)

lemma build_stores:
  assumes build: "Prepared_build crc granted draft grant source current fin edits durable = Inr p"
    and st: "tree_stores crc \<lparr>tr_source = source, tr_commit = current, tr_end = fin\<rparr> es"
    and typed: "\<forall>e \<in> set edits. Extent_typed e" "Commit_typed current"
  shows "\<exists>fs. validate_view (pr_commit p) (tr_end (Prepared_tree source p)) = Inr () \<and>
    tree_stores crc (Prepared_tree source p) fs \<and> set fs = fold edit_set edits (set es)"
proof -
  let ?tree = "\<lparr>tr_source = source, tr_commit = current, tr_end = fin\<rparr>" and ?blocks = "cm_image_bytes current div BLOCK"
  obtain pages ed root out where b: "list_all (check_edit ?blocks) edits"
    "validate_view current fin = Inr ()" "unat fin + pages * 4096 < 2 ^ 63"
    "apply_edits crc draft edits \<lparr>ed_tree = ?tree, ed_buffer = AlignedPages_new pages, ed_root = cm_root current, ed_pages = 0,
       ed_max_pages_per_change = 0\<rparr> = Inr ed"
    "emit_root crc grant ed (AlignedPages_new pages) = Inr (root, out)"
    "fill_page grant out (\<lambda>page. Commit_encode_into crc (pr_commit p) page (fin + word_of_nat (length (AlignedPages_as_slice out)))) = Inr (pr_buffer p)"
    "pr_commit p = current\<lparr>cm_root := root, cm_generation := cm_generation current + 1, cm_durable := durable\<rparr>"
    "pr_offset p = fin" "es_written_pages (pr_stats p) = length (AlignedPages_as_slice (pr_buffer p)) div BLOCK_SIZE"
    using build_parts [OF build] by metis
  have big: "unat fin \<ge> 8192" by (rule validate_view_root(1) [OF b(2)])
  let ?ed0 = "\<lparr>ed_tree = ?tree, ed_buffer = AlignedPages_new pages, ed_root = cm_root current, ed_pages = 0, ed_max_pages_per_change = 0\<rparr>"
  have f: "Editor_inv ?ed0" "ed_stores crc ?ed0 es" "Pages_inv fin (AlignedPages_new pages)"
    using fresh_editor [OF st, of pages] big b(3) by simp_all
  have ok: "\<forall>edit \<in> set edits. edit_ok edit \<and> ex_end edit \<le> ed_blocks ?ed0"
    using b(1) typed(1) by (auto simp: list_all_iff dest: check_edit_ok)
  obtain fs where fs: "Editor_inv ed" "ed_tree ed = ?tree" "ed_stores crc ed fs" "set fs = fold edit_set edits (set es)"
    using apply_edits_ok [OF b(4) f(2,1) ok] by auto
  have e: "Pages_inv fin out" "root_stores (editor_view crc (on_output ed out)) ?blocks root fs"
    using emit_root_ok [OF b(5) fs(3)] f(3) fs(2) by simp_all
  let ?off = "fin + word_of_nat (length (AlignedPages_as_slice out))"
  obtain bs where bs: "Commit_encode_into crc (pr_commit p) (replicate 4096 0) ?off = Inr bs"
    "pr_buffer p = out\<lparr>ap_blocks := ap_blocks out @ [bs]\<rparr>" "length (ap_blocks out) < ap_limit out"
    by (rule fill_page_appends [OF b(6) e(1)])
  have ct: "Commit_typed (pr_commit p)" using typed(2) by (simp add: b(7) Commit_typed_def)
  have cv: "Commit_validate (pr_commit p) ?off = Inr ()" using commit_into_iff(1) [OF ct, of "replicate 4096 0" crc ?off] bs(1) by simp
  have len: "length bs = 4096" using commit_into_iff(2) [OF ct _ bs(1)] Page_decode_parts(2) by fastforce
  have pb: "Pages_inv fin (pr_buffer p)" using Pages_inv_append [OF e(1) bs(3) len] bs(2) by simp
  have bytes: "Prepared_bytes p = concat (ap_blocks out @ [bs])"
    using length_slice [OF pb] b(9) unfolding Prepared_bytes_def by (simp add: BLOCK_SIZE_def AlignedPages_as_slice_def bs(2))
  have img: "cm_image_bytes (pr_commit p) = ed_image ed" "tr_end (ed_tree ed) = fin" "tr_source (ed_tree ed) = source"
    using fs(2) by (simp_all add: b(7))
  note w = output_written [OF e(1) bs(3) len b(8) bytes img(1,2,3) big]
  have off: "?off = page_address fin (length (ap_blocks out))" by (simp only: length_slice [OF e(1)] page_address_def)
  have u: "unat (page_address fin (Suc (length (ap_blocks out)))) = unat fin + Suc (length (ap_blocks out)) * 4096"
    using page_address_unat [OF e(1)] bs(3) by simp
  have bound: "unat fin + Suc (length (ap_blocks out)) * 4096 < 2 ^ 63"
    using e(1) bs(3) by (simp add: Pages_inv_def)
  have mult: "4096 dvd unat fin" using b(2) by (simp add: validate_view_def is_multiple_of_BLOCK)
  have "validate_view (pr_commit p) (tr_end (Prepared_tree source p)) = Inr ()"
    unfolding validate_view_def w(3) using cv u bound mult big
    by (simp add: off w(2) word_le_nat_alt is_multiple_of_BLOCK)
  moreover have "tree_stores crc (Prepared_tree source p) fs"
    using e(2) subtree_mono [OF w(1)] unfolding tree_stores_def root_stores_def by (auto simp: b(7))
  ultimately show ?thesis using fs(4) by blast
qed

section \<open>Properties\<close>

text \<open>
  C13. A prepared manifest transaction is exactly its edits. On a committed tree that can be walked, let a
  transaction be prepared from any list of edits. Once its bytes are written at the end of the file, the new
  view is well formed and can be walked, every block reads the hash of the last edit that covers
  it (nothing for an erased range) and otherwise what the old view read, and no page of
  the old view has changed.
\<close>
theorem manifest_edit_refines:
  assumes "Prepared_build crc granted draft grant source current fin edits durable = Inr p"
    and "Tree_walk crc \<lparr>tr_source = source, tr_commit = current, tr_end = fin\<rparr> collect [] = Inr es"
    and "\<forall>e \<in> set edits. Extent_typed e" and "Commit_typed current"
  shows "validate_view (pr_commit p) (tr_end (Prepared_tree source p)) = Inr () \<and>
    (\<exists>fs. Tree_walk crc (Prepared_tree source p) collect [] = Inr fs) \<and>
    (\<forall>b < cm_image_bytes current div BLOCK. \<exists>old.
       Tree_get crc \<lparr>tr_source = source, tr_commit = current, tr_end = fin\<rparr> b = Inr old \<and>
       Tree_get crc (Prepared_tree source p) b = Inr (edit_value edits b old)) \<and>
    (\<forall>off < fin. written source p off = source off)"
proof -
  let ?tree = "\<lparr>tr_source = source, tr_commit = current, tr_end = fin\<rparr>"
  have b: "list_all (check_edit (cm_image_bytes current div BLOCK)) edits" "validate_view current fin = Inr ()"
    "cm_image_bytes (pr_commit p) = cm_image_bytes current" "pr_offset p = fin"
    by (rule build_checks [OF assms(1)])+
  have v: "validate_view (tr_commit ?tree) (tr_end ?tree) = Inr ()" using b(2) by simp
  have st: "tree_stores crc ?tree es" using walk_iff [OF v] assms(2) by blast
  obtain fs where n: "validate_view (pr_commit p) (tr_end (Prepared_tree source p)) = Inr ()"
    "tree_stores crc (Prepared_tree source p) fs" "set fs = fold edit_set edits (set es)"
    using build_stores [OF assms(1) st assms(3,4)] by blast
  have v': "validate_view (tr_commit (Prepared_tree source p)) (tr_end (Prepared_tree source p)) = Inr ()" using n(1) by simp
  have so: "stored 0 (cm_image_bytes current div BLOCK) es" "stored 0 (cm_image_bytes current div BLOCK) fs"
    using st n(2) by (simp_all add: tree_stores_def root_stores_def b(3))
  have "find_extent x fs = edit_value edits x (find_extent x es)" for x
  proof -
    have "edit_value edits x (find_extent x es) = Some h \<longleftrightarrow> maps_block (fold edit_set edits (set es)) x h" for h
    proof (rule fold_edits_value)
      show "\<forall>e \<in> set edits. ex_start e < ex_end e" using b(1) by (auto simp: list_all_iff check_edit_def)
      show "\<forall>e \<in> set es. ex_start e < ex_end e" using storedD(2) [OF so(1)] by blast
      show "find_extent x es = Some h \<longleftrightarrow> maps_block (set es) x h" for h by (rule find_extent_maps [OF so(1)])
    qed
    then have "edit_value edits x (find_extent x es) = Some h \<longleftrightarrow> find_extent x fs = Some h" for h
      using find_extent_maps [OF so(2)] n(3) by simp
    then show ?thesis by (metis not_Some_eq)
  qed
  then have "Tree_get crc ?tree x = Inr (find_extent x es)" "Tree_get crc (Prepared_tree source p) x = Inr (edit_value edits x (find_extent x es))"
    if "x < cm_image_bytes current div BLOCK" for x
    using get_stores [OF v st, of x] get_stores [OF v' n(2), of x] that by (simp_all add: b(3))
  then show ?thesis using n(1) walk_iff [OF v'] n(2) by (auto simp: written_def b(4))
qed

text \<open>
  C29. Lookups agree with walks. On any committed view that a walk accepts, a lookup of a block
  of the image succeeds with the hash of the extent that the walk lists over it, and with none where it lists none.
\<close>
theorem manifest_lookup_exact:
  assumes "validate_view (tr_commit tree) (tr_end tree) = Inr ()" and "Tree_walk crc tree collect [] = Inr es"
    and "b < cm_image_bytes (tr_commit tree) div BLOCK"
  shows "(\<exists>v. Tree_get crc tree b = Inr v \<and> (\<forall>h. v = Some h \<longleftrightarrow> (\<exists>e \<in> set es. ex_start e \<le> b \<and> b < ex_end e \<and> ex_hash e = Some h))) \<and>
    sorted_wrt (\<lambda>a b. ex_end a \<le> ex_start b) es"
proof -
  have st: "tree_stores crc tree es" using walk_iff [OF assms(1)] assms(2) by blast
  then have so: "stored 0 (cm_image_bytes (tr_commit tree) div BLOCK) es" by (simp add: tree_stores_def root_stores_def)
  show ?thesis
    using get_stores [OF assms(1) st assms(3)] find_extent_maps [OF so] so by (auto simp: maps_block_def stored_def)
qed

text \<open>The pages a lookup accepts, one after the other, whoever supplies them.\<close>

inductive lookup_steps :: "(bytes \<Rightarrow> u32) \<Rightarrow> Lookup \<Rightarrow> u64 list \<Rightarrow> Lookup \<Rightarrow> bool" for crc where
  steps_done: "lookup_steps crc lk [] lk"
| steps_page: "Lookup_accept crc lk off bs = (lk', Inr st) \<Longrightarrow> lookup_steps crc lk' offs lk'' \<Longrightarrow> lookup_steps crc lk (off # offs) lk''"

lemma Lookup_accept_below:
  assumes "Lookup_accept crc lk off bs = (lk', Inr st)"
  shows "map_option cu_offset (lk_cursor lk) = Some off" and "case lk_cursor lk' of None \<Rightarrow> True | Some c \<Rightarrow> cu_offset c < off"
proof -
  obtain c where c: "lk_cursor lk = Some c"
    using assms by (cases "lk_cursor lk") (auto simp: Lookup_accept_def split: sum.splits)
  obtain page node where n: "off = cu_offset c" "Page_decode crc bs off (lk_image_bytes lk) = Inr page" "Node_decode page c = Inr node"
    and lk': "lk' = (case node of
                       NodeLeaf entries \<Rightarrow> lk\<lparr>lk_result := find_extent (lk_block lk) entries, lk_cursor := None\<rparr>
                     | NodeBranch children \<Rightarrow> lk\<lparr>lk_cursor :=
                         map_option (Cursor_child c children) (rposition (\<lambda>c. ci_start c \<le> lk_block lk) children)\<rparr>)"
    using assms c by (auto simp: Lookup_accept_def Let_def split: sum.splits)
  show "map_option cu_offset (lk_cursor lk) = Some off" by (simp add: c n(1))
  show "case lk_cursor lk' of None \<Rightarrow> True | Some c \<Rightarrow> cu_offset c < off"
  proof (cases node)
    case (NodeBranch cs)
    have "accepts c (raw_node crc (lk_image_bytes lk) off bs) node" using decode_accepts [of crc bs off "lk_image_bytes lk" c node] n by simp
    then have "branch_valid off (lk_image_bytes lk) (cu_level c) cs"
      using raw_node_ok [of crc "lk_image_bytes lk" off bs] by (auto simp: accepts_def node_ok_def NodeBranch)
    then have "\<forall>x \<in> set cs. ci_offset x < off" by (simp add: branch_valid_def children_ok_def)
    moreover have "cs ! i \<in> set cs" if "rposition (\<lambda>x. ci_start x \<le> lk_block lk) cs = Some i" for i
      using rposition_Some(1) [OF that] by simp
    ultimately show ?thesis by (auto simp: lk' NodeBranch Cursor_child_def Let_def split: option.splits)
  qed (simp add: lk')
qed

lemma lookup_steps_bound:
  "lookup_steps crc lk offs lk' \<Longrightarrow> length offs + lookup_depth lk' \<le> lookup_depth lk \<and> sorted_wrt (>) offs \<and>
     (\<forall>off \<in> set offs. case lk_cursor lk of None \<Rightarrow> False | Some c \<Rightarrow> off \<le> cu_offset c)"
proof (induction rule: lookup_steps.induct)
  case (steps_page lk off bs lk' st offs lk'')
  note b = Lookup_accept_below [OF steps_page.hyps(1)]
  have "\<forall>o' \<in> set offs. o' < off" using steps_page.IH b(2) by (auto split: option.splits intro: le_less_trans)
  then show ?case using steps_page.IH Lookup_accept_descends [OF steps_page.hyps(1)] b(1) by (auto intro: less_imp_le)
qed simp

text \<open>
  C30. Every lookup ends. Whatever pages a lookup is fed, it accepts at most as many as the tree
  is high, at strictly descending file offsets below the COMMIT page's root; corrupt pages, cycles or wrong pages cannot prolong it.
\<close>
theorem manifest_lookup_terminates:
  assumes "Lookup_new commit fin block = Inr lk" and "lookup_steps crc lk offs lk'"
  shows "length offs \<le> unat (rt_height (cm_root commit)) \<and> sorted_wrt (>) offs \<and> (\<forall>off \<in> set offs. off \<le> rt_offset (cm_root commit))"
proof -
  have v: "validate_view commit fin = Inr ()" using assms(1) by (simp add: Lookup_new_def)
  have lk: "lk_cursor lk = (if rt_offset (cm_root commit) \<noteq> 0 then Some (Cursor_root commit) else None)"
    using assms(1) by (auto simp: Lookup_new_def)
  have "lookup_depth lk \<le> unat (rt_height (cm_root commit))"
  proof (cases "rt_offset (cm_root commit) = 0")
    case False
    then have h: "1 \<le> rt_height (cm_root commit)" using validate_view_root(3) [OF v] by simp
    then have "rt_height (cm_root commit) \<noteq> 0" by auto
    then show ?thesis using height_level(2) [OF h] h False by (simp add: lookup_depth_def lk Cursor_root_def word_le_nat_alt)
  qed (simp add: lookup_depth_def lk)
  then show ?thesis using lookup_steps_bound [OF assms(2)] lk by (auto simp: Cursor_root_def split: if_splits)
qed

section \<open>Witnesses\<close>

text \<open>An empty manifest of a two-block image, and an edit that stores one chunk.\<close>

definition demo_commit :: Commit where
  "demo_commit = \<lparr>cm_store = replicate 16 1, cm_image = replicate 16 2, cm_generation = 1,
     cm_root = \<lparr>rt_offset = 0, rt_height = 0\<rparr>, cm_durable = 0, cm_image_bytes = 8192\<rparr>"

definition demo_edit :: Extent where
  "demo_edit = \<lparr>ex_start = 1, ex_end = 2, ex_hash = Some (replicate 32 9)\<rparr>"

abbreviation (input) demo_source :: "u64 \<Rightarrow> bytes result" where
  "demo_source \<equiv> (\<lambda>_. Inl (Other []))"

abbreviation (input) demo_manifest :: Tree where
  "demo_manifest \<equiv> \<lparr>tr_source = demo_source, tr_commit = demo_commit, tr_end = 8192\<rparr>"

lemma demo_view: "validate_view demo_commit 8192 = Inr ()"
  by (simp add: validate_view_def Commit_validate_def demo_commit_def page_offset_def is_multiple_of_def replicate_eq_replicate)

lemma demo_build: "\<exists>p. Prepared_build (\<lambda>_. 0) True (\<lambda>_. True) (\<lambda>_. True) demo_source demo_commit 8192 [demo_edit] 1 = Inr p"
proof -
  let ?ed = "\<lparr>ed_tree = demo_manifest, ed_buffer = AlignedPages_new 73, ed_root = cm_root demo_commit, ed_pages = 0, ed_max_pages_per_change = 0\<rparr>"
  let ?out = "replicate 4096 (0 :: byte)"
  have typed: "\<forall>e \<in> set [demo_edit]. Extent_typed e" by (simp add: demo_edit_def Extent_typed_def)
  have out: "length ?out = 4096" by simp
  have "leaf_valid 8192 8192 [demo_edit]"
    by (simp add: leaf_valid_def page_offset_def is_multiple_of_def extents_ok_def extent_ok_def demo_edit_def)
  then obtain bs where bs: "leaf_into (\<lambda>_. 0) ?out 8192 8192 [demo_edit] = Inr bs"
    using leaf_into_iff(1) [OF typed out, of "\<lambda>_. 0" 8192 8192] by blast
  have fill: "fill_page (\<lambda>_. True) (AlignedPages_new 73) (\<lambda>out. leaf_into (\<lambda>_. 0) out 8192 8192 [demo_edit]) =
      Inr \<lparr>ap_blocks = [bs], ap_limit = 73\<rparr>"
    by (simp add: fill_page_def AlignedPages_push_zeroed_def AlignedPages_new_def BLOCK_SIZE_def bs)
  have off: "Editor_next_offset ?ed = 8192" and img: "cm_image_bytes demo_commit = 8192"
    by (simp_all add: Editor_next_offset_def demo_commit_def)
  let ?ed1 = "?ed\<lparr>ed_buffer := \<lparr>ap_blocks = [bs], ap_limit = 73\<rparr>, ed_pages := 1\<rparr>"
  have lv: "Editor_leaves (\<lambda>_. 0) (\<lambda>_. True) ?ed [demo_edit] = Inr (?ed1, [\<lparr>ci_start = 1, ci_offset = 8192\<rparr>])"
    using fill by (simp add: Editor_leaves_def off Let_def push_link_def img demo_edit_def)
  let ?ed2 = "?ed1\<lparr>ed_root := \<lparr>rt_offset = 8192, rt_height = 1\<rparr>, ed_max_pages_per_change := 1\<rparr>"
  have app: "apply_edits (\<lambda>_. 0) (\<lambda>_. True) [demo_edit] ?ed = Inr ?ed2"
    using lv by (simp add: Editor_apply_def Let_def demo_commit_def demo_edit_def)
  have inv: "Editor_inv ?ed" by (simp add: Editor_inv_def Pages_inv_def AlignedPages_new_def)
  have enc: "encodes (\<lambda>_. 0) (ed_image ?ed) (Editor_next_offset ?ed) (\<lambda>out. leaf_into (\<lambda>_. 0) out 8192 8192 [demo_edit]) (0, NodeLeaf [demo_edit])"
    using leaf_encodes [OF typed, of "\<lambda>_. 0" 8192 8192] by (simp add: off img)
  have "editor_view (\<lambda>_. 0) ?ed1 8192 = Some (0, NodeLeaf [demo_edit])"
    using draft_grows(3) [OF inv _ enc, of "\<lambda>_. True"] fill by (simp add: off)
  then have vw: "editor_view (\<lambda>_. 0) ?ed2 8192 = Some (0, NodeLeaf [demo_edit])" by (simp only: editor_view_fields)
  let ?c = "Cursor_root (demo_commit\<lparr>cm_root := \<lparr>rt_offset = 8192, rt_height = 1\<rparr>\<rparr>)"
  have "accepts ?c (editor_view (\<lambda>_. 0) ?ed2 (cu_offset ?c)) (NodeLeaf [demo_edit])"
    unfolding accepts_def using vw by (simp add: Cursor_root_def demo_commit_def demo_edit_def)
  then have rd: "Editor_read (\<lambda>_. 0) ?ed2 ?c = Inr (NodeLeaf [demo_edit])" by (simp only: Editor_read_iff)
  have "emit (\<lambda>_. 0) (\<lambda>_. True) ?ed2 ?c (AlignedPages_new 73) = Inr (8192, \<lparr>ap_blocks = [bs], ap_limit = 73\<rparr>)"
    unfolding emit.simps rd using fill
    by (simp add: Cursor_root_def AlignedPages_as_slice_def AlignedPages_new_def img Let_def)
  then have em: "emit_root (\<lambda>_. 0) (\<lambda>_. True) ?ed2 (AlignedPages_new 73) =
      Inr (\<lparr>rt_offset = 8192, rt_height = 1\<rparr>, \<lparr>ap_blocks = [bs], ap_limit = 73\<rparr>)"
    by (simp add: emit_root_def)
  let ?cm = "demo_commit\<lparr>cm_root := \<lparr>rt_offset = 8192, rt_height = 1\<rparr>, cm_generation := 2, cm_durable := 1\<rparr>"
  have len: "length bs = 4096" using leaf_into_iff(2) [OF typed out bs] Page_decode_parts(2) by fastforce
  have "Commit_validate ?cm 12288 = Inr ()"
    by (simp add: Commit_validate_def demo_commit_def page_offset_def is_multiple_of_def MAX_HEIGHT_def replicate_eq_replicate)
  moreover have "Commit_typed ?cm" by (simp add: demo_commit_def Commit_typed_def)
  ultimately obtain cs where cs: "Commit_encode_into (\<lambda>_. 0) ?cm ?out 12288 = Inr cs"
    using commit_into_iff(1) [of ?cm ?out "\<lambda>_. 0" 12288] by auto
  have co: "8192 + word_of_nat (length (AlignedPages_as_slice \<lparr>ap_blocks = [bs], ap_limit = 73\<rparr>)) = (12288 :: u64)"
    by (simp add: AlignedPages_as_slice_def len)
  have fc: "fill_page (\<lambda>_. True) \<lparr>ap_blocks = [bs], ap_limit = 73\<rparr> (\<lambda>page. Commit_encode_into (\<lambda>_. 0) ?cm page 12288) =
      Inr \<lparr>ap_blocks = [bs, cs], ap_limit = 73\<rparr>"
    by (simp add: fill_page_def AlignedPages_push_zeroed_def BLOCK_SIZE_def cs)
  have gen: "checked_add (cm_generation demo_commit) 1 = Some 2" "checked_add 8192 299008 = Some 307200"
    by (simp_all add: checked_add_def demo_commit_def)
  have new: "Tree_new True demo_source demo_commit 8192 = Inr demo_manifest" using demo_view by (simp add: Tree_new_def)
  have ck: "list_all (check_edit (cm_image_bytes demo_commit div BLOCK)) [demo_edit]" "cm_durable demo_commit = 0"
    by (simp_all add: check_edit_def demo_edit_def demo_commit_def)
  have pg: "length [demo_edit] * (8 * unat MAX_HEIGHT + 8) + 1 = 73" by (simp add: MAX_HEIGHT_def)
  show ?thesis
    unfolding Prepared_build_def Let_def pg using app em fc co ck gen
    by (simp add: MAX_CHANGES_def MAX_TRANSACTION_BYTES_def BLOCK_SIZE_def new del: apply_edits.simps attempt_eq_Inr)
qed

theorem manifest_edit_refines_witness:
  "\<exists>p. Prepared_build (\<lambda>_. 0) True (\<lambda>_. True) (\<lambda>_. True) demo_source demo_commit 8192 [demo_edit] 1 = Inr p \<and>
     Tree_get (\<lambda>_. 0) (Prepared_tree demo_source p) 1 = Inr (Some (replicate 32 9)) \<and>
     Tree_get (\<lambda>_. 0) (Prepared_tree demo_source p) 0 = Inr None"
proof -
  obtain p where p: "Prepared_build (\<lambda>_. 0) True (\<lambda>_. True) (\<lambda>_. True) demo_source demo_commit 8192 [demo_edit] 1 = Inr p"
    using demo_build by blast
  have walk: "Tree_walk (\<lambda>_. 0) demo_manifest collect [] = Inr []" by (simp add: Tree_walk_def Tree_walk_pages_def demo_commit_def)
  have typed: "\<forall>e \<in> set [demo_edit]. Extent_typed e" "Commit_typed demo_commit"
    by (simp_all add: demo_edit_def Extent_typed_def demo_commit_def Commit_typed_def)
  note r = manifest_edit_refines [OF p walk typed]
  have st: "tree_stores (\<lambda>_. 0) demo_manifest []" by (simp add: tree_stores_def root_stores_def demo_commit_def)
  have img: "cm_image_bytes demo_commit div BLOCK = 2" by (simp add: demo_commit_def)
  have old: "Tree_get (\<lambda>_. 0) demo_manifest b = Inr None" if "b < 2" for b
    using get_stores [OF _ st, of b] demo_view that by (simp add: img find_extent_def)
  have "Tree_get (\<lambda>_. 0) (Prepared_tree demo_source p) b = Inr (edit_value [demo_edit] b None)" if "b < 2" for b
    using r old [OF that] that img by auto
  from this [of 0] this [of 1] show ?thesis using p by (auto simp: demo_edit_def)
qed

theorem manifest_lookup_exact_witness:
  "\<exists>p fs v. Tree_walk (\<lambda>_. 0) (Prepared_tree demo_source p) collect [] = Inr fs \<and>
     Tree_get (\<lambda>_. 0) (Prepared_tree demo_source p) 1 = Inr v"
proof -
  obtain p where p: "Prepared_build (\<lambda>_. 0) True (\<lambda>_. True) (\<lambda>_. True) demo_source demo_commit 8192 [demo_edit] 1 = Inr p"
    using demo_build by blast
  have st: "tree_stores (\<lambda>_. 0) demo_manifest []" by (simp add: tree_stores_def root_stores_def demo_commit_def)
  have typed: "\<forall>e \<in> set [demo_edit]. Extent_typed e" "Commit_typed demo_commit"
    by (simp_all add: demo_edit_def Extent_typed_def demo_commit_def Commit_typed_def)
  obtain fs where n: "validate_view (pr_commit p) (tr_end (Prepared_tree demo_source p)) = Inr ()" "tree_stores (\<lambda>_. 0) (Prepared_tree demo_source p) fs"
    using build_stores [OF p st typed] by blast
  have "cm_image_bytes (pr_commit p) = 8192" using build_checks(3) [OF p] by (simp add: demo_commit_def)
  then show ?thesis using manifest_lookup_exact [of "Prepared_tree demo_source p" "\<lambda>_. 0" fs 1] n walk_iff [of "Prepared_tree demo_source p" "\<lambda>_. 0" fs] by auto
qed

theorem manifest_lookup_terminates_witness:
  "\<exists>lk lk' offs. Lookup_new (demo_commit\<lparr>cm_root := \<lparr>rt_offset = 8192, rt_height = 1\<rparr>\<rparr>) 16384 1 = Inr lk \<and>
     lookup_steps (\<lambda>_. 0) lk offs lk' \<and> offs \<noteq> [] \<and> length offs \<le> 1"
proof -
  let ?c = "demo_commit\<lparr>cm_root := \<lparr>rt_offset = 8192, rt_height = 1\<rparr>\<rparr>"
  have typed: "\<forall>e \<in> set [demo_edit]. Extent_typed e" by (simp add: demo_edit_def Extent_typed_def)
  have out: "length (replicate 4096 (0 :: byte)) = 4096" by simp
  have "leaf_valid 8192 8192 [demo_edit]"
    by (simp add: leaf_valid_def page_offset_def is_multiple_of_def extents_ok_def extent_ok_def demo_edit_def)
  then obtain bs where bs: "leaf_into (\<lambda>_. 0) (replicate 4096 0) 8192 8192 [demo_edit] = Inr bs"
    using leaf_into_iff(1) [OF typed out, of "\<lambda>_. 0" 8192 8192] by blast
  have raw: "raw_node (\<lambda>_. 0) 8192 8192 bs = Some (0, NodeLeaf [demo_edit])"
    using leaf_encodes [OF typed, of "\<lambda>_. 0" 8192 8192] bs by (simp add: encodes_def)
  have "validate_view ?c 16384 = Inr ()"
    by (simp add: validate_view_def Commit_validate_def demo_commit_def page_offset_def is_multiple_of_def replicate_eq_replicate MAX_HEIGHT_def)
  then obtain lk where lk: "Lookup_new ?c 16384 1 = Inr lk" "lk_cursor lk = Some (Cursor_root ?c)" "lk_image_bytes lk = 8192" "lk_end lk = 16384" "\<not> lk_failed lk"
    by (auto simp: Lookup_new_def demo_commit_def)
  have dec: "attempt (Page_decode (\<lambda>_. 0) bs 8192 8192) (\<lambda>page. Node_decode page (Cursor_root ?c)) = Inr (NodeLeaf [demo_edit])"
    unfolding decode_accepts accepts_def using raw by (simp add: Cursor_root_def demo_commit_def demo_edit_def)
  have off: "cu_offset (Cursor_root ?c) = 8192" by (simp add: Cursor_root_def)
  have "\<exists>lk' st. Lookup_accept (\<lambda>_. 0) lk 8192 bs = (lk', Inr st)"
    using lk by (simp add: Lookup_accept_def Lookup_state_def require_before_commit_def off dec del: attempt_eq_Inr)
  then obtain lk' where s: "lookup_steps (\<lambda>_. 0) lk [8192] lk'" using steps_page steps_done by metis
  show ?thesis using manifest_lookup_terminates [OF lk(1) s] lk(1) s by (intro exI [of _ lk] exI [of _ lk'] exI [of _ "[8192]"]) simp
qed

end
