(* ===== verification/Space.thy ===== *)
theory Space
  imports Prelude
begin

text \<open>
  The disk account of \<^verbatim>\<open>core/src/space.rs\<close>, the filesystem governor of \<^verbatim>\<open>space/filesystem.rs\<close> and the
  recovery borrower of \<^verbatim>\<open>space/recovery.rs\<close>. An operation under a permit runs while other threads
  reserve and cancel, so it is two atomic steps: taking the owner lock, and the final observation. The
  outcome of the operation, including a panic, and the result of \<^verbatim>\<open>fstatvfs\<close> are arguments.
  The 128-bit sums of the source are exact; its unchecked 64-bit operators wrap.
\<close>

section \<open>Watermark gates\<close>

text \<open>
  A gate closes at its high watermark and reopens only below its low one. Both the disk account
  and the staging quotas keep such a gate, refreshed after every change of their usage.
\<close>

locale watermark_gate =
  fixes used high low :: "'s \<Rightarrow> nat" and closed :: "'s \<Rightarrow> bool" and refresh :: "'s \<Rightarrow> 's"
  assumes levels_refresh: "used (refresh s) = used s" "high (refresh s) = high s" "low (refresh s) = low s"
    and closed_refresh: "closed (refresh s) \<longleftrightarrow> high s \<le> used s \<or> closed s \<and> low s \<le> used s"
begin

lemma open_below_high: "\<not> closed (refresh s) \<Longrightarrow> used s < high s"
  by (simp add: closed_refresh)

lemma stays_closed: "closed s \<Longrightarrow> low s \<le> used s \<Longrightarrow> closed (refresh s)"
  by (simp add: closed_refresh)

lemma reopens: "used s < high s \<Longrightarrow> used s < low s \<Longrightarrow> \<not> closed (refresh s)"
  by (simp add: closed_refresh)

lemma settled: "closed (refresh (refresh s)) \<longleftrightarrow> closed (refresh s)"
  by (auto simp: closed_refresh levels_refresh)

end

section \<open>The disk account\<close>

definition METADATA_MARGIN :: nat where
  "METADATA_MARGIN = 16 * 1024 * 1024"

record SpaceLimits =
  sl_capacity :: nat
  sl_reserve :: nat

definition SpaceLimits_new :: "nat \<Rightarrow> nat \<Rightarrow> nat \<Rightarrow> SpaceLimits result" where
  "SpaceLimits_new capacity segment manifest_transaction =
     attempt (ok_or (Option.bind (nchecked_mul segment 3) (\<lambda>n.
         Option.bind (nchecked_add n manifest_transaction) (\<lambda>n. nchecked_add n METADATA_MARGIN)))
       (InvalidInput ''disk reserve overflow'')) (\<lambda>reserve.
     if segment = 0 \<or> manifest_transaction = 0 \<or> capacity \<le> reserve
     then Inl (InvalidInput ''disk capacity cannot preserve the progress reserve'')
     else Inr \<lparr>sl_capacity = capacity, sl_reserve = reserve\<rparr>)"

record SpaceStatus =
  ss_allocated :: nat
  ss_promised :: nat
  ss_peak_used :: nat
  ss_pressured :: bool
  ss_background_active :: bool
  ss_rejected :: nat
  ss_failed :: bool

abbreviation ss_used :: "SpaceStatus \<Rightarrow> nat" where
  "ss_used st \<equiv> ss_allocated st + ss_promised st"

record Space =
  sp_limits :: SpaceLimits
  sp_status :: SpaceStatus

definition update_pressure :: "SpaceLimits \<Rightarrow> SpaceStatus \<Rightarrow> SpaceStatus" where
  "update_pressure limits st =
     (let used = ss_allocated st + ss_promised st;
          st = st\<lparr>ss_peak_used := max (ss_peak_used st) (min used u64_max)\<rparr>;
          percent = used * 100;
          capacity = sl_capacity limits in
      if used \<ge> wrapping_sub (sl_capacity limits) (sl_reserve limits) then st\<lparr>ss_pressured := True\<rparr>
      else if percent < capacity * 60 then st\<lparr>ss_pressured := False\<rparr>
      else st)"

definition Space_new :: "SpaceLimits \<Rightarrow> nat \<Rightarrow> Space result" where
  "Space_new limits allocated =
     (if sl_reserve limits = 0 \<or> sl_reserve limits \<ge> sl_capacity limits \<or> allocated > sl_capacity limits
      then Inl (InvalidInput ''invalid initial disk accounting'')
      else Inr \<lparr>sp_limits = limits, sp_status = update_pressure limits
        \<lparr>ss_allocated = allocated, ss_promised = 0, ss_peak_used = allocated, ss_pressured = False,
         ss_background_active = False, ss_rejected = 0, ss_failed = False\<rparr>\<rparr>)"

record Reservation =
  rs_remaining :: nat
  rs_background :: bool

definition Space_reserve :: "Space \<Rightarrow> nat \<Rightarrow> bool \<Rightarrow> Space \<times> Reservation result" where
  "Space_reserve s bytes background =
     (let limits = sp_limits s; st = sp_status s;
          used = saturating_add (ss_allocated st) (ss_promised st);
          limit = (if background then sl_capacity limits else wrapping_sub (sl_capacity limits) (sl_reserve limits)) in
      if ss_failed st then (s, Inl (Other ''disk account failed; explicit recovery required''))
      else if bytes = 0 \<or> bytes > limit - used
          \<or> (background \<and> (ss_background_active st \<or> bytes > sl_reserve limits))
          \<or> (\<not> background \<and> ss_pressured st)
      then
        let st = (if \<not> background \<and> bytes \<le> limit \<and> bytes > limit - used then st\<lparr>ss_pressured := True\<rparr> else st) in
        (s\<lparr>sp_status := st\<lparr>ss_rejected := saturating_add (ss_rejected st) 1\<rparr>\<rparr>,
         Inl (WouldBlock ''disk admission waits for reclamation or the background owner''))
      else
        let st = st\<lparr>ss_promised := wrapping_add (ss_promised st) bytes,
                    ss_background_active := (ss_background_active st \<or> background)\<rparr> in
        (s\<lparr>sp_status := update_pressure limits st\<rparr>, Inr \<lparr>rs_remaining = bytes, rs_background = background\<rparr>))"

definition Space_foreground :: "Space \<Rightarrow> nat \<Rightarrow> Space \<times> Reservation result" where
  "Space_foreground s bytes = Space_reserve s bytes False"

definition Space_background :: "Space \<Rightarrow> nat \<Rightarrow> Space \<times> Reservation result" where
  "Space_background s bytes = Space_reserve s bytes True"

definition Space_fail :: "Space \<Rightarrow> Space" where
  "Space_fail s = s\<lparr>sp_status := (sp_status s)\<lparr>ss_failed := True\<rparr>\<rparr>"

definition observed :: "SpaceLimits \<Rightarrow> SpaceStatus \<Rightarrow> SpaceStatus \<times> unit result" where
  "observed limits st =
     (let st = update_pressure limits st in
      if ss_allocated st + ss_promised st > sl_capacity limits
      then (st\<lparr>ss_failed := True\<rparr>, Inl (Other ''observed filesystem allocation exceeds capacity''))
      else (st, Inr ()))"

definition Space_observed :: "Space \<Rightarrow> nat \<Rightarrow> Space \<times> unit result" where
  "Space_observed s allocated =
     (let (st, r) = observed (sp_limits s) ((sp_status s)\<lparr>ss_allocated := allocated\<rparr>) in (s\<lparr>sp_status := st\<rparr>, r))"

definition Reservation_finish :: "Space \<Rightarrow> Reservation \<Rightarrow> nat \<Rightarrow> nat \<Rightarrow> Space \<times> Reservation \<times> unit result" where
  "Reservation_finish s r previous allocated =
     (let st = sp_status s;
          excess = (allocated - previous > rs_remaining r);
          st = st\<lparr>ss_allocated := allocated, ss_promised := wrapping_sub (ss_promised st) (rs_remaining r)\<rparr>;
          st = (if rs_background r then st\<lparr>ss_background_active := False\<rparr> else st);
          r = \<lparr>rs_remaining = 0, rs_background = False\<rparr> in
      case observed (sp_limits s) st of
        (st, Inl e) \<Rightarrow> (s\<lparr>sp_status := st\<rparr>, r, Inl e)
      | (st, Inr _) \<Rightarrow>
          if excess then (s\<lparr>sp_status := st\<lparr>ss_failed := True\<rparr>\<rparr>, r, Inl (Other ''observed output exceeds its disk promise''))
          else (s\<lparr>sp_status := st\<rparr>, r, Inr ()))"

definition Reservation_unknown :: "Space \<Rightarrow> Reservation \<Rightarrow> Space \<times> Reservation" where
  "Reservation_unknown s r = (Space_fail s, \<lparr>rs_remaining = 0, rs_background = False\<rparr>)"

definition Reservation_drop :: "Space \<Rightarrow> Reservation \<Rightarrow> Space" where
  "Reservation_drop s r =
     (let st = sp_status s;
          st = st\<lparr>ss_promised := wrapping_sub (ss_promised st) (rs_remaining r)\<rparr>;
          st = (if rs_background r then st\<lparr>ss_background_active := False\<rparr> else st) in
      s\<lparr>sp_status := update_pressure (sp_limits s) st\<rparr>)"

section \<open>The filesystem governor\<close>

text \<open>The fields of \<^verbatim>\<open>libc::statvfs\<close> that are read; a failed system call is an error.\<close>

record statvfs =
  f_frsize :: nat
  f_blocks :: nat
  f_bavail :: nat
  f_fsid :: nat

record Domain =
  dm_device :: nat
  dm_filesystem :: nat
  dm_capacity :: nat
  dm_unit :: nat

record Observation =
  ob_domain :: Domain
  ob_allocated :: nat

definition Observation_read :: "statvfs result \<Rightarrow> nat result \<Rightarrow> Observation result" where
  "Observation_read fstatvfs device =
     attempt fstatvfs (\<lambda>stat.
     let unit = f_frsize stat in
     ensure (unit \<noteq> 0 \<and> f_bavail stat \<le> f_blocks stat) (InvalidData ''invalid filesystem geometry'')
    (attempt (ok_or (nchecked_mul (f_blocks stat) unit) (Other ''filesystem capacity overflow'')) (\<lambda>capacity.
     attempt (ok_or (nchecked_mul (f_blocks stat - f_bavail stat) unit) (Other ''filesystem allocation overflow'')) (\<lambda>allocated.
     attempt device (\<lambda>dev.
     Inr \<lparr>ob_domain = \<lparr>dm_device = dev, dm_filesystem = f_fsid stat, dm_capacity = capacity, dm_unit = unit\<rparr>,
          ob_allocated = allocated\<rparr>)))))"

text \<open>\<open>gv_tickets\<close> is the address of the ticket table; \<open>gv_poisoned\<close> says that a holder of the owner lock panicked.\<close>

record Governor =
  gv_tickets :: nat
  gv_domain :: Domain
  gv_space :: Space
  gv_poisoned :: bool

definition Governor_open :: "nat \<Rightarrow> Observation result \<Rightarrow> SpaceLimits \<Rightarrow> Governor result" where
  "Governor_open tickets sample limits =
     attempt sample (\<lambda>initial.
     ensure (sl_capacity limits \<le> dm_capacity (ob_domain initial)) (InvalidData ''admission capacity exceeds filesystem'')
    (attempt (Space_new limits (ob_allocated initial)) (\<lambda>space.
     Inr \<lparr>gv_tickets = tickets, gv_domain = ob_domain initial, gv_space = space, gv_poisoned = False\<rparr>)))"

definition Governor_uses_tickets :: "Governor \<Rightarrow> nat \<Rightarrow> bool" where
  "Governor_uses_tickets g tickets \<longleftrightarrow> gv_tickets g = tickets"

definition Governor_validate_file :: "Governor \<Rightarrow> Observation result \<Rightarrow> unit result" where
  "Governor_validate_file g sample =
     attempt sample (\<lambda>ob. ensure (ob_domain ob = gv_domain g) (InvalidData ''file is outside the allocation domain'') (Inr ()))"

definition Governor_reserve :: "Governor \<Rightarrow> nat \<Rightarrow> bool \<Rightarrow> Governor \<times> Reservation result" where
  "Governor_reserve g bytes background =
     (let (s, r) = (if background then Space_background (gv_space g) bytes else Space_foreground (gv_space g) bytes) in
      (g\<lparr>gv_space := s\<rparr>, r))"

definition Governor_lock :: "Governor \<Rightarrow> unit result" where
  "Governor_lock g =
     ensure (\<not> gv_poisoned g) (Other ''filesystem owner panicked'')
    (ensure (\<not> ss_failed (sp_status (gv_space g))) (InvalidData ''filesystem account failed; explicit recovery required'')
       (Inr ()))"

definition Governor_observe :: "Governor \<Rightarrow> Observation result \<Rightarrow> Observation result" where
  "Governor_observe g sample =
     attempt sample (\<lambda>ob. ensure (ob_domain ob = gv_domain g) (InvalidData ''filesystem allocation domain changed'') (Inr ob))"

definition Governor_refresh :: "Governor \<Rightarrow> Observation result \<Rightarrow> Governor \<times> Observation result" where
  "Governor_refresh g sample =
     (case Governor_lock g of
        Inl e \<Rightarrow> (g, Inl e)
      | Inr _ \<Rightarrow>
          (let (s, result) = (case Governor_observe g sample of
                  Inl e \<Rightarrow> (gv_space g, Inl e)
                | Inr ob \<Rightarrow> (case Space_observed (gv_space g) (ob_allocated ob) of
                    (s, Inl e) \<Rightarrow> (s, Inl e)
                  | (s, Inr _) \<Rightarrow> (s, Inr ob)));
               s = (case result of Inl _ \<Rightarrow> Space_fail s | Inr _ \<Rightarrow> s) in
           (g\<lparr>gv_space := s\<rparr>, result)))"

text \<open>A permit owns its reservation; a running one is an attempt that remembers the allocation before it.\<close>

record Attempt =
  at_previous :: nat
  at_reservation :: Reservation

definition Attempt_finish :: "Governor \<Rightarrow> Attempt \<Rightarrow> Observation result \<Rightarrow> Governor \<times> unit result" where
  "Attempt_finish g a sample =
     (let (s, r, result) = (case Governor_observe g sample of
            Inr ob \<Rightarrow> Reservation_finish (gv_space g) (at_reservation a) (at_previous a) (ob_allocated ob)
          | Inl e \<Rightarrow> (case Reservation_unknown (gv_space g) (at_reservation a) of (s, r) \<Rightarrow> (s, r, Inl e))) in
      (g\<lparr>gv_space := Reservation_drop s r\<rparr>, result))"

datatype 'a outcome = Returned "'a result" | Panicked

definition run_begin :: "Governor \<Rightarrow> Reservation \<Rightarrow> Governor \<times> Attempt result" where
  "run_begin g r =
     (case Governor_lock g of
        Inl e \<Rightarrow> (g\<lparr>gv_space := Reservation_drop (gv_space g) r\<rparr>, Inl e)
      | Inr _ \<Rightarrow> (g, Inr \<lparr>at_previous = ss_allocated (sp_status (gv_space g)), at_reservation = r\<rparr>))"

text \<open>\<open>Inl (Panic _)\<close> is the panic of the operation passing through.\<close>

definition run_end :: "(error \<Rightarrow> string) \<Rightarrow> Governor \<Rightarrow> Attempt \<Rightarrow> 'a outcome \<Rightarrow> Observation result \<Rightarrow> Governor \<times> 'a result" where
  "run_end display g a operation sample =
     (case operation of
        Panicked \<Rightarrow>
          (let (g, _) = Attempt_finish g a sample in
           (g\<lparr>gv_space := Space_fail (gv_space g), gv_poisoned := True\<rparr>, Inl (Panic ''allocation operation'')))
      | Returned result \<Rightarrow>
          (let (g, observed) = Attempt_finish g a sample in
           (g, case (result, observed) of
                 (Inr value, Inr _) \<Rightarrow> Inr value
               | (Inl error, Inr _) \<Rightarrow> Inl error
               | (Inr _, Inl error) \<Rightarrow> Inl error
               | (Inl operation, Inl observation) \<Rightarrow> Inl (Other (''allocation operation: '' @ display operation @
                   ''; physical observation: '' @ display observation)))))"

definition Permit_run_with :: "(error \<Rightarrow> string) \<Rightarrow> Governor \<Rightarrow> Reservation \<Rightarrow> 'a outcome \<Rightarrow> Observation result \<Rightarrow> Governor \<times> 'a result" where
  "Permit_run_with display g r operation sample =
     (case run_begin g r of
        (g, Inl e) \<Rightarrow> (g, Inl e)
      | (g, Inr a) \<Rightarrow> run_end display g a operation sample)"

section \<open>Recovery output\<close>

definition Recovery_output_bytes :: "Governor option \<Rightarrow> nat \<Rightarrow> nat result" where
  "Recovery_output_bytes physical bytes =
     attempt (ok_or (nchecked_add bytes METADATA_MARGIN) (Other ''recovery output bound overflow'')) (\<lambda>output.
     if (case physical of None \<Rightarrow> False | Some g \<Rightarrow> output > sl_reserve (sp_limits (gv_space g)))
     then Inl (WouldBlock ''recovery output exceeds progress reserve'')
     else Inr output)"

definition Recovery_output ::
  "(error \<Rightarrow> string) \<Rightarrow> Governor option \<Rightarrow> nat \<Rightarrow> 'a outcome \<Rightarrow> Observation result \<Rightarrow> Governor option \<times> 'a result" where
  "Recovery_output display physical bytes operation sample =
     (case Recovery_output_bytes physical bytes of
        Inl e \<Rightarrow> (physical, Inl e)
      | Inr output \<Rightarrow> (case physical of
          None \<Rightarrow> (None, case operation of Returned r \<Rightarrow> r | Panicked \<Rightarrow> Inl (Panic ''allocation operation''))
        | Some g \<Rightarrow> (case Governor_reserve g output True of
            (g, Inl e) \<Rightarrow> (Some g, Inl e)
          | (g, Inr r) \<Rightarrow> (case Permit_run_with display g r operation sample of (g, result) \<Rightarrow> (Some g, result)))))"

section \<open>Pressure\<close>

lemma update_pressure_simps [simp]:
  "ss_allocated (update_pressure l st) = ss_allocated st"
  "ss_promised (update_pressure l st) = ss_promised st"
  "ss_background_active (update_pressure l st) = ss_background_active st"
  "ss_rejected (update_pressure l st) = ss_rejected st"
  "ss_failed (update_pressure l st) = ss_failed st"
  by (simp_all add: update_pressure_def Let_def)

interpretation pressure: watermark_gate "\<lambda>st. 100 * ss_used st"
  "\<lambda>_. 100 * wrapping_sub (sl_capacity limits) (sl_reserve limits)" "\<lambda>_. 60 * sl_capacity limits"
  ss_pressured "update_pressure limits" for limits
  by unfold_locales (auto simp: update_pressure_def Let_def)

section \<open>Interleavings\<close>

text \<open>
  The shared state of a governor: the reservations that threads hold and have not run, and the
  attempt that holds the owner lock, if one does. Blocking on the owner lock is a step that is not enabled.
\<close>

record World =
  wo_governor :: Governor
  wo_queued :: "Reservation list"
  wo_running :: "Attempt option"

abbreviation wo_space :: "World \<Rightarrow> Space" where "wo_space w \<equiv> gv_space (wo_governor w)"
abbreviation wo_status :: "World \<Rightarrow> SpaceStatus" where "wo_status w \<equiv> sp_status (wo_space w)"
abbreviation wo_limits :: "World \<Rightarrow> SpaceLimits" where "wo_limits w \<equiv> sp_limits (wo_space w)"

inductive governor_step :: "World \<Rightarrow> World \<Rightarrow> bool" where
  reserve: "Governor_reserve (wo_governor w) bytes background = (g, Inr r) \<Longrightarrow>
    governor_step w (w\<lparr>wo_governor := g, wo_queued := r # wo_queued w\<rparr>)"
| deny: "Governor_reserve (wo_governor w) bytes background = (g, Inl e) \<Longrightarrow>
    governor_step w (w\<lparr>wo_governor := g\<rparr>)"
| cancel: "r \<in> set (wo_queued w) \<Longrightarrow>
    governor_step w (w\<lparr>wo_governor := (wo_governor w)\<lparr>gv_space := Reservation_drop (wo_space w) r\<rparr>,
      wo_queued := remove1 r (wo_queued w)\<rparr>)"
| launch: "r \<in> set (wo_queued w) \<Longrightarrow> wo_running w = None \<Longrightarrow> run_begin (wo_governor w) r = (g, Inr a) \<Longrightarrow>
    governor_step w (w\<lparr>wo_governor := g, wo_queued := remove1 r (wo_queued w), wo_running := Some a\<rparr>)"
| refuse: "r \<in> set (wo_queued w) \<Longrightarrow> wo_running w = None \<Longrightarrow> run_begin (wo_governor w) r = (g, Inl e) \<Longrightarrow>
    governor_step w (w\<lparr>wo_governor := g, wo_queued := remove1 r (wo_queued w)\<rparr>)"
| finish: "wo_running w = Some a \<Longrightarrow> run_end display (wo_governor w) a (operation :: unit outcome) sample = (g, result) \<Longrightarrow>
    governor_step w (w\<lparr>wo_governor := g, wo_running := None\<rparr>)"
| refresh: "wo_running w = None \<Longrightarrow> Governor_refresh (wo_governor w) sample = (g, result) \<Longrightarrow>
    governor_step w (w\<lparr>wo_governor := g\<rparr>)"

inductive governor_reach :: "World \<Rightarrow> bool" where
  opened: "Governor_open tickets sample limits = Inr g \<Longrightarrow> sl_capacity limits \<le> u64_max \<Longrightarrow>
    governor_reach \<lparr>wo_governor = g, wo_queued = [], wo_running = None\<rparr>"
| step: "governor_reach w \<Longrightarrow> governor_step w w' \<Longrightarrow> governor_reach w'"

text \<open>Everything held: the queued reservations and that of the running attempt.\<close>

definition outstanding :: "World \<Rightarrow> Reservation list" where
  "outstanding w = (case wo_running w of None \<Rightarrow> [] | Some a \<Rightarrow> [at_reservation a]) @ wo_queued w"

definition promised_to :: "Reservation list \<Rightarrow> nat" where
  "promised_to rs = sum_list (map rs_remaining rs)"

definition borrowers :: "Reservation list \<Rightarrow> nat" where
  "borrowers rs = length (filter rs_background rs)"

lemma permits_simps [simp]:
  "promised_to [] = 0" "promised_to (r # rs) = rs_remaining r + promised_to rs"
  "promised_to (rs @ rs') = promised_to rs + promised_to rs'"
  "borrowers [] = 0" "borrowers (r # rs) = (if rs_background r then 1 else 0) + borrowers rs"
  "borrowers (rs @ rs') = borrowers rs + borrowers rs'"
  by (simp_all add: promised_to_def borrowers_def)

lemma permits_remove1:
  assumes "r \<in> set rs"
  shows "promised_to rs = rs_remaining r + promised_to (remove1 r rs)"
    and "borrowers rs = (if rs_background r then 1 else 0) + borrowers (remove1 r rs)"
  using assms by (induction rs) auto

definition space_inv :: "Space \<Rightarrow> Reservation list \<Rightarrow> bool" where
  "space_inv s rs \<longleftrightarrow>
     0 < sl_reserve (sp_limits s) \<and> sl_reserve (sp_limits s) < sl_capacity (sp_limits s) \<and> sl_capacity (sp_limits s) \<le> u64_max \<and>
     promised_to rs \<le> ss_promised (sp_status s) \<and> ss_promised (sp_status s) \<le> sl_capacity (sp_limits s) \<and>
     borrowers rs \<le> 1 \<and> (borrowers rs = 1 \<longrightarrow> ss_background_active (sp_status s)) \<and>
     (sl_capacity (sp_limits s) - sl_reserve (sp_limits s) \<le> ss_used (sp_status s) \<longrightarrow> ss_pressured (sp_status s)) \<and>
     (\<not> ss_failed (sp_status s) \<longrightarrow>
        ss_promised (sp_status s) = promised_to rs \<and> ss_used (sp_status s) \<le> sl_capacity (sp_limits s) \<and>
        ss_background_active (sp_status s) = (borrowers rs = 1))"

definition world_inv :: "World \<Rightarrow> bool" where
  "world_inv w \<longleftrightarrow> space_inv (wo_space w) (outstanding w) \<and>
     (case wo_running w of None \<Rightarrow> True | Some a \<Rightarrow>
        \<not> ss_failed (wo_status w) \<and> at_previous a = ss_allocated (wo_status w))"

lemma foreground_cap: "space_inv s rs \<Longrightarrow>
  wrapping_sub (sl_capacity (sp_limits s)) (sl_reserve (sp_limits s)) = sl_capacity (sp_limits s) - sl_reserve (sp_limits s)"
  by (simp add: space_inv_def wrapping_sub_exact)

lemma update_pressure_at_cap:
  assumes "sl_reserve l < sl_capacity l" "sl_capacity l \<le> u64_max" "sl_capacity l - sl_reserve l \<le> ss_used st"
  shows "ss_pressured (update_pressure l st)"
  using assms by (auto simp: update_pressure_def Let_def wrapping_sub_exact)

text \<open>Exactly when a reservation is granted, and what it changes.\<close>

lemma Space_reserve_granted:
  assumes "space_inv s rs"
  shows "(\<exists>s' r. Space_reserve s bytes background = (s', Inr r)) \<longleftrightarrow>
    \<not> ss_failed (sp_status s) \<and> 0 < bytes \<and>
    ss_used (sp_status s) + bytes \<le> sl_capacity (sp_limits s) - (if background then 0 else sl_reserve (sp_limits s)) \<and>
    (if background then \<not> ss_background_active (sp_status s) \<and> bytes \<le> sl_reserve (sp_limits s)
     else \<not> ss_pressured (sp_status s))"
  using assms foreground_cap [OF assms]
  by (auto simp: Space_reserve_def Let_def saturating_add_def space_inv_def)

lemma Space_reserve_Inr:
  assumes "space_inv s rs" and "Space_reserve s bytes background = (s', Inr r)"
  shows "r = \<lparr>rs_remaining = bytes, rs_background = background\<rparr>" and "space_inv s' (r # rs)"
    and "sp_limits s' = sp_limits s" and "ss_failed (sp_status s') = ss_failed (sp_status s)"
    and "ss_allocated (sp_status s') = ss_allocated (sp_status s)"
proof -
  have g: "\<not> ss_failed (sp_status s)"
    "ss_used (sp_status s) + bytes \<le> sl_capacity (sp_limits s) - (if background then 0 else sl_reserve (sp_limits s))"
    "background \<Longrightarrow> \<not> ss_background_active (sp_status s)"
    using Space_reserve_granted [OF assms(1), of bytes background] assms(2) by (auto split: if_splits)
  have s': "s' = s\<lparr>sp_status := update_pressure (sp_limits s) ((sp_status s)\<lparr>ss_promised := wrapping_add (ss_promised (sp_status s)) bytes,
      ss_background_active := (ss_background_active (sp_status s) \<or> background)\<rparr>)\<rparr>"
    and r: "r = \<lparr>rs_remaining = bytes, rs_background = background\<rparr>"
    using assms(2) g(1) by (auto simp: Space_reserve_def Let_def split: if_splits)
  show "r = \<lparr>rs_remaining = bytes, rs_background = background\<rparr>" by (rule r)
  have w: "wrapping_add (ss_promised (sp_status s)) bytes = ss_promised (sp_status s) + bytes"
    using g(2) assms(1) by (intro wrapping_add_exact) (auto simp: space_inv_def split: if_splits)
  show "space_inv s' (r # rs)"
    unfolding s' w using assms(1) g by (auto simp: space_inv_def r split: if_splits intro!: update_pressure_at_cap)
qed (use assms(2) in \<open>auto simp: Space_reserve_def Let_def split: if_splits\<close>)

lemma Space_reserve_Inl:
  assumes "space_inv s rs" and "Space_reserve s bytes background = (s', Inl e)"
  shows "space_inv s' rs" and "ss_failed (sp_status s') = ss_failed (sp_status s)"
    and "ss_allocated (sp_status s') = ss_allocated (sp_status s)"
  using assms by (auto simp: Space_reserve_def Let_def space_inv_def split: if_splits)

lemma Reservation_drop_inv:
  assumes "space_inv s (r # rs)"
  shows "space_inv (Reservation_drop s r) rs" and "ss_failed (sp_status (Reservation_drop s r)) = ss_failed (sp_status s)"
    and "ss_allocated (sp_status (Reservation_drop s r)) = ss_allocated (sp_status s)"
proof -
  have "wrapping_sub (ss_promised (sp_status s)) (rs_remaining r) = ss_promised (sp_status s) - rs_remaining r"
    using assms by (intro wrapping_sub_exact) (auto simp: space_inv_def)
  then have "Reservation_drop s r = s\<lparr>sp_status := update_pressure (sp_limits s) ((sp_status s)\<lparr>
      ss_promised := ss_promised (sp_status s) - rs_remaining r,
      ss_background_active := (ss_background_active (sp_status s) \<and> \<not> rs_background r)\<rparr>)\<rparr>"
    by (simp add: Reservation_drop_def Let_def)
  then show "space_inv (Reservation_drop s r) rs"
    using assms by (auto simp: space_inv_def split: if_splits intro!: update_pressure_at_cap)
qed (simp_all add: Reservation_drop_def Let_def)

lemma space_inv_null [simp]: "space_inv s (\<lparr>rs_remaining = 0, rs_background = False\<rparr> # rs) = space_inv s rs"
  by (simp add: space_inv_def)

lemma Space_fail_inv: "space_inv s (r # rs) \<Longrightarrow> space_inv (Space_fail s) rs"
  by (auto simp: space_inv_def Space_fail_def split: if_splits)

lemma Space_fail_failed [simp]: "ss_failed (sp_status (Space_fail s))" "sp_limits (Space_fail s) = sp_limits s"
  "ss_allocated (sp_status (Space_fail s)) = ss_allocated (sp_status s)"
  by (simp_all add: Space_fail_def)

lemma Reservation_finish_parts:
  assumes "space_inv s (r # rs)" and "\<not> ss_failed (sp_status s)"
    and "Reservation_finish s r previous allocated = (s', r', result)"
  shows "r' = \<lparr>rs_remaining = 0, rs_background = False\<rparr>" and "space_inv s' rs"
    and "ss_allocated (sp_status s') = allocated" and "sp_limits s' = sp_limits s"
    and "ss_failed (sp_status s') \<longleftrightarrow> \<not> (allocated - previous \<le> rs_remaining r \<and> allocated + promised_to rs \<le> sl_capacity (sp_limits s))"
    and "result = Inr () \<longleftrightarrow> \<not> ss_failed (sp_status s')"
proof -
  define st where "st = update_pressure (sp_limits s) ((sp_status s)\<lparr>ss_allocated := allocated, ss_promised := promised_to rs,
    ss_background_active := (ss_background_active (sp_status s) \<and> \<not> rs_background r)\<rparr>)"
  define ok where "ok \<longleftrightarrow> allocated - previous \<le> rs_remaining r \<and> allocated + promised_to rs \<le> sl_capacity (sp_limits s)"
  have "wrapping_sub (ss_promised (sp_status s)) (rs_remaining r) = promised_to rs"
    using assms(1,2) by (subst wrapping_sub_exact) (auto simp: space_inv_def)
  then have f: "Reservation_finish s r previous allocated = (s\<lparr>sp_status := if ok then st else st\<lparr>ss_failed := True\<rparr>\<rparr>,
      \<lparr>rs_remaining = 0, rs_background = False\<rparr>,
      if allocated + promised_to rs > sl_capacity (sp_limits s) then Inl (Other ''observed filesystem allocation exceeds capacity'')
      else if ok then Inr () else Inl (Other ''observed output exceeds its disk promise''))"
    using assms(2) by (auto simp: Reservation_finish_def observed_def Let_def st_def ok_def)
  then have s': "s' = s\<lparr>sp_status := if ok then st else st\<lparr>ss_failed := True\<rparr>\<rparr>" using assms(3) by simp
  show "r' = \<lparr>rs_remaining = 0, rs_background = False\<rparr>" "ss_allocated (sp_status s') = allocated" "sp_limits s' = sp_limits s"
    using f assms(3) by (auto simp: st_def)
  show "ss_failed (sp_status s') \<longleftrightarrow> \<not> (allocated - previous \<le> rs_remaining r \<and> allocated + promised_to rs \<le> sl_capacity (sp_limits s))"
    using assms(2) by (simp add: s' st_def ok_def)
  show "result = Inr () \<longleftrightarrow> \<not> ss_failed (sp_status s')"
    using f assms(2,3) by (auto simp: s' st_def ok_def split: if_splits)
  have "sl_capacity (sp_limits s) - sl_reserve (sp_limits s) \<le> ss_used st \<Longrightarrow> ss_pressured st"
    unfolding st_def using assms(1) by (intro update_pressure_at_cap) (auto simp: space_inv_def)
  then show "space_inv s' rs"
    using assms(1,2) by (auto simp: space_inv_def s' ok_def st_def split: if_splits)
qed

lemma Attempt_finish_parts:
  assumes "space_inv (gv_space g) (at_reservation a # rs)" and "\<not> ss_failed (sp_status (gv_space g))"
    and "Attempt_finish g a sample = (g', result)"
  shows "space_inv (gv_space g') rs" and "gv_domain g' = gv_domain g" and "gv_poisoned g' = gv_poisoned g"
    and "result = Inr () \<longleftrightarrow> \<not> ss_failed (sp_status (gv_space g'))"
    and "result = Inr () \<longleftrightarrow> (\<exists>ob. sample = Inr ob \<and> ob_domain ob = gv_domain g \<and>
      ob_allocated ob - at_previous a \<le> rs_remaining (at_reservation a) \<and>
      ob_allocated ob + promised_to rs \<le> sl_capacity (sp_limits (gv_space g)))"
    and "\<And>ob. sample = Inr ob \<Longrightarrow> ob_domain ob = gv_domain g \<Longrightarrow> ss_allocated (sp_status (gv_space g')) = ob_allocated ob"
proof -
  have "(space_inv (gv_space g') rs \<and> gv_domain g' = gv_domain g \<and> gv_poisoned g' = gv_poisoned g) \<and>
    (result = Inr () \<longleftrightarrow> \<not> ss_failed (sp_status (gv_space g'))) \<and>
    (result = Inr () \<longleftrightarrow> (\<exists>ob. sample = Inr ob \<and> ob_domain ob = gv_domain g \<and>
      ob_allocated ob - at_previous a \<le> rs_remaining (at_reservation a) \<and>
      ob_allocated ob + promised_to rs \<le> sl_capacity (sp_limits (gv_space g)))) \<and>
    (\<forall>ob. sample = Inr ob \<longrightarrow> ob_domain ob = gv_domain g \<longrightarrow> ss_allocated (sp_status (gv_space g')) = ob_allocated ob)"
  proof (cases "Governor_observe g sample")
    case (Inl e)
    then have "\<not> (\<exists>ob. sample = Inr ob \<and> ob_domain ob = gv_domain g)" by (auto simp: Governor_observe_def)
    then show ?thesis
      using assms(3) Inl Reservation_drop_inv [of "Space_fail (gv_space g)" "\<lparr>rs_remaining = 0, rs_background = False\<rparr>" rs]
        Space_fail_inv [OF assms(1)]
      by (auto simp: Attempt_finish_def Let_def Reservation_unknown_def)
  next
    case (Inr ob)
    then have ob: "sample = Inr ob" "ob_domain ob = gv_domain g" by (auto simp: Governor_observe_def)
    obtain s r res where f: "Reservation_finish (gv_space g) (at_reservation a) (at_previous a) (ob_allocated ob) = (s, r, res)"
      by (cases "Reservation_finish (gv_space g) (at_reservation a) (at_previous a) (ob_allocated ob)") auto
    note p = Reservation_finish_parts [OF assms(1,2) f]
    have "space_inv s (r # rs)" using p(1,2) by simp
    then show ?thesis
      using assms(3) Inr f ob p(3-6) Reservation_drop_inv [of s r rs] by (auto simp: Attempt_finish_def)
  qed
  then show "space_inv (gv_space g') rs" and "gv_domain g' = gv_domain g" and "gv_poisoned g' = gv_poisoned g"
    and "result = Inr () \<longleftrightarrow> \<not> ss_failed (sp_status (gv_space g'))"
    and "result = Inr () \<longleftrightarrow> (\<exists>ob. sample = Inr ob \<and> ob_domain ob = gv_domain g \<and>
      ob_allocated ob - at_previous a \<le> rs_remaining (at_reservation a) \<and>
      ob_allocated ob + promised_to rs \<le> sl_capacity (sp_limits (gv_space g)))"
    and "\<And>ob. sample = Inr ob \<Longrightarrow> ob_domain ob = gv_domain g \<Longrightarrow> ss_allocated (sp_status (gv_space g')) = ob_allocated ob"
    by blast+
qed

lemma Space_observed_inv:
  assumes "space_inv s rs" and "\<not> ss_failed (sp_status s)" and "Space_observed s allocated = (s', result)"
  shows "space_inv s' rs"
proof -
  define st where "st = update_pressure (sp_limits s) ((sp_status s)\<lparr>ss_allocated := allocated\<rparr>)"
  have p: "sl_capacity (sp_limits s) - sl_reserve (sp_limits s) \<le> ss_used st \<Longrightarrow> ss_pressured st"
    unfolding st_def using assms(1) by (intro update_pressure_at_cap) (auto simp: space_inv_def)
  have s': "s' = s\<lparr>sp_status := if ss_used st > sl_capacity (sp_limits s) then st\<lparr>ss_failed := True\<rparr> else st\<rparr>"
    using assms(3) by (auto simp: Space_observed_def observed_def Let_def st_def)
  show ?thesis
    using assms(1,2) p by (auto simp: space_inv_def s' st_def)
qed

lemma Governor_refresh_inv:
  assumes "space_inv (gv_space g) rs" and "Governor_refresh g sample = (g', result)"
  shows "space_inv (gv_space g') rs"
proof (cases "Governor_lock g")
  case (Inl e)
  then show ?thesis using assms by (simp add: Governor_refresh_def)
next
  case (Inr u)
  then have nf: "\<not> ss_failed (sp_status (gv_space g))" by (auto simp: Governor_lock_def)
  have null: "space_inv (Space_fail s) rs" if "space_inv s rs" for s
    using Space_fail_inv [of s "\<lparr>rs_remaining = 0, rs_background = False\<rparr>" rs] that by simp
  show ?thesis
    using assms Inr nf null Space_observed_inv [OF assms(1) nf]
    by (auto simp: Governor_refresh_def Let_def split: sum.splits prod.splits)
qed

lemma run_end_parts:
  assumes "space_inv (gv_space g) (at_reservation a # rs)" and "\<not> ss_failed (sp_status (gv_space g))"
    and "run_end display g a operation sample = (g', result)"
  shows "space_inv (gv_space g') rs"
proof -
  obtain g1 res where f: "Attempt_finish g a sample = (g1, res)" by (cases "Attempt_finish g a sample")
  have "space_inv (gv_space g1) rs" by (rule Attempt_finish_parts(1) [OF assms(1,2) f])
  then show ?thesis
    using assms(3) f Space_fail_inv [of "gv_space g1" "\<lparr>rs_remaining = 0, rs_background = False\<rparr>" rs]
    by (cases operation) (auto simp: run_end_def)
qed

lemma space_inv_same_held:
  "promised_to rs = promised_to rs' \<Longrightarrow> borrowers rs = borrowers rs' \<Longrightarrow> space_inv s rs = space_inv s rs'"
  by (simp add: space_inv_def)

lemma space_inv_remove1:
  assumes "r \<in> set rs"
  shows "space_inv s (xs @ rs) = space_inv s (r # xs @ remove1 r rs)"
  using permits_remove1 [OF assms] by (intro space_inv_same_held) auto

lemma governor_step_inv: "governor_step w w' \<Longrightarrow> world_inv w \<Longrightarrow> world_inv w'"
proof (induction rule: governor_step.induct)
  case (reserve w bytes background g r)
  obtain s where "Space_reserve (wo_space w) bytes background = (s, Inr r)" and g: "g = (wo_governor w)\<lparr>gv_space := s\<rparr>"
    using reserve.hyps by (auto simp: Governor_reserve_def Space_foreground_def Space_background_def split: prod.splits if_splits)
  moreover have "space_inv s (outstanding (w\<lparr>wo_queued := r # wo_queued w\<rparr>)) = space_inv s (r # outstanding w)" for s
    by (rule space_inv_same_held) (simp_all add: outstanding_def)
  ultimately show ?case
    using reserve.prems Space_reserve_Inr [of "wo_space w" "outstanding w" bytes background s r]
    by (auto simp: world_inv_def outstanding_def split: option.splits)
next
  case (deny w bytes background g e)
  obtain s where "Space_reserve (wo_space w) bytes background = (s, Inl e)" and g: "g = (wo_governor w)\<lparr>gv_space := s\<rparr>"
    using deny.hyps by (auto simp: Governor_reserve_def Space_foreground_def Space_background_def split: prod.splits if_splits)
  then show ?case
    using deny.prems Space_reserve_Inl [of "wo_space w" "outstanding w" bytes background s e]
    by (auto simp: world_inv_def outstanding_def split: option.splits)
next
  case (cancel r w)
  let ?o = "case wo_running w of None \<Rightarrow> [] | Some a \<Rightarrow> [at_reservation a]"
  have "space_inv (wo_space w) (r # ?o @ remove1 r (wo_queued w))"
    using cancel space_inv_remove1 [OF cancel.hyps, of "wo_space w" ?o] by (simp add: world_inv_def outstanding_def)
  then show ?case
    using cancel.prems Reservation_drop_inv by (auto simp: world_inv_def outstanding_def split: option.splits)
next
  case (launch r w g a)
  have "space_inv (wo_space w) (r # remove1 r (wo_queued w))"
    using launch space_inv_remove1 [OF launch.hyps(1), of "wo_space w" "[]"] by (simp add: world_inv_def outstanding_def)
  then show ?case
    using launch.hyps(3) by (auto simp: world_inv_def outstanding_def run_begin_def Governor_lock_def split: sum.splits)
next
  case (refuse r w g e)
  have "space_inv (wo_space w) (r # remove1 r (wo_queued w))"
    using refuse space_inv_remove1 [OF refuse.hyps(1), of "wo_space w" "[]"] by (simp add: world_inv_def outstanding_def)
  then show ?case
    using refuse.hyps(2,3) Reservation_drop_inv(1) by (auto simp: world_inv_def outstanding_def run_begin_def split: sum.splits)
next
  case (finish w a display operation sample g result)
  then show ?case
    using run_end_parts [of "wo_governor w" a "wo_queued w" display operation sample g result]
    by (simp add: world_inv_def outstanding_def)
next
  case (refresh w sample g result)
  then show ?case
    using Governor_refresh_inv [of "wo_governor w" "wo_queued w" sample g result] by (simp add: world_inv_def outstanding_def)
qed

lemma Governor_open_inv:
  assumes "Governor_open tickets sample limits = Inr g" and "sl_capacity limits \<le> u64_max"
  shows "space_inv (gv_space g) []"
  using assms by (auto simp: Governor_open_def Space_new_def space_inv_def split: if_splits intro!: update_pressure_at_cap)

lemma governor_reach_inv: "governor_reach w \<Longrightarrow> world_inv w"
proof (induction rule: governor_reach.induct)
  case (opened tickets sample limits g)
  then show ?case using Governor_open_inv by (simp add: world_inv_def outstanding_def)
next
  case (step w w')
  then show ?case by (blast intro: governor_step_inv)
qed

text \<open>
  C31. The disk account is exact in every interleaving. While the account has not failed, the promised
  bytes are the sum of what the outstanding permits hold, allocation and promises together stay within the
  capacity, and the background flag says exactly whether the one background permit is outstanding. In a failed account the
  promises still cover every outstanding permit, so releasing never wraps. Whenever the
  foreground share is used up, the pressure gate is closed.
\<close>
theorem governor_accounts_promises:
  assumes "governor_reach w"
  shows "promised_to (outstanding w) \<le> ss_promised (wo_status w) \<and> ss_promised (wo_status w) \<le> sl_capacity (wo_limits w) \<and>
    borrowers (outstanding w) \<le> 1 \<and>
    (sl_capacity (wo_limits w) - sl_reserve (wo_limits w) \<le> ss_used (wo_status w) \<longrightarrow> ss_pressured (wo_status w)) \<and>
    (\<not> ss_failed (wo_status w) \<longrightarrow>
       ss_promised (wo_status w) = promised_to (outstanding w) \<and> ss_used (wo_status w) \<le> sl_capacity (wo_limits w) \<and>
       (ss_background_active (wo_status w) \<longleftrightarrow> borrowers (outstanding w) = 1))"
  using governor_reach_inv [OF assms] unfolding world_inv_def space_inv_def One_nat_def by blast

text \<open>
  Foreground reservations leave the progress reserve to the background. Whatever the history, a
  foreground request that is granted keeps usage below the capacity by the whole reserve, so that afterwards, unless a
  background permit is already outstanding, a background request of any size up to the reserve is granted; and while
  the pressure gate is closed no foreground request is granted.
\<close>
theorem foreground_keeps_reserve:
  assumes "governor_reach w" and "Governor_reserve (wo_governor w) bytes False = (g, Inr r)"
  shows "\<not> ss_pressured (wo_status w) \<and>
    ss_used (sp_status (gv_space g)) + sl_reserve (wo_limits w) \<le> sl_capacity (wo_limits w) \<and>
    (borrowers (outstanding w) = 0 \<longrightarrow> (\<forall>n. 0 < n \<and> n \<le> sl_reserve (wo_limits w) \<longrightarrow>
       (\<exists>g' r'. Governor_reserve g n True = (g', Inr r') \<and> rs_remaining r' = n)))"
proof -
  let ?s = "wo_space w"
  have inv: "space_inv ?s (outstanding w)" using governor_reach_inv [OF assms(1)] by (simp add: world_inv_def)
  obtain s where s: "Space_reserve ?s bytes False = (s, Inr r)" and g: "gv_space g = s"
    using assms(2) by (auto simp: Governor_reserve_def Space_foreground_def split: prod.splits)
  note p = Space_reserve_Inr [OF inv s]
  have gr: "\<not> ss_failed (sp_status ?s)" "ss_used (sp_status ?s) + bytes \<le> sl_capacity (sp_limits ?s) - sl_reserve (sp_limits ?s)"
    "\<not> ss_pressured (sp_status ?s)"
    using Space_reserve_granted [OF inv, of bytes False] s by auto
  have used: "ss_used (sp_status s) = ss_used (sp_status ?s) + bytes"
    using p inv gr(1) by (simp add: space_inv_def)
  have "\<exists>g' r'. Governor_reserve g n True = (g', Inr r') \<and> rs_remaining r' = n"
    if "borrowers (outstanding w) = 0" "0 < n" "n \<le> sl_reserve (sp_limits ?s)" for n
  proof -
    have "\<not> ss_background_active (sp_status s)" using p(1,2,4) gr(1) that(1) by (simp add: space_inv_def)
    moreover have "ss_used (sp_status s) + n \<le> sl_capacity (sp_limits ?s)"
      using used gr(2) that(3) inv unfolding space_inv_def by linarith
    ultimately have "\<exists>s' r'. Space_reserve s n True = (s', Inr r')"
      using Space_reserve_granted [OF p(2), of n True] that p(3,4) gr(1) by simp
    then obtain s' r' where r': "Space_reserve s n True = (s', Inr r')" by blast
    then show ?thesis using Space_reserve_Inr(1) [OF p(2) r'] by (simp add: Governor_reserve_def Space_background_def g)
  qed
  then show ?thesis using gr used inv by (auto simp: g space_inv_def)
qed

text \<open>An observation of the governor's own filesystem that shows no more growth than the attempt holds.\<close>

definition observed_within :: "World \<Rightarrow> Attempt \<Rightarrow> Observation result \<Rightarrow> bool" where
  "observed_within w a sample = (case sample of Inl _ \<Rightarrow> False | Inr ob \<Rightarrow> ob_domain ob = gv_domain (wo_governor w) \<and>
     ob_allocated ob \<le> ss_allocated (wo_status w) + rs_remaining (at_reservation a))"

text \<open>
  An operation that keeps its promise keeps the account. If a permit runs in any reachable state and the filesystem
  then shows no more growth than the permit holds, the caller receives exactly the
  operation's own result, the account has not failed, and it holds the observed allocation and the
  promises of the other permits; if it shows more, or cannot be observed, or the operation panics, the account fails and no later permit can run.
\<close>
theorem honest_run_completes:
  assumes "governor_reach w" and "wo_running w = Some a"
    and "run_end display (wo_governor w) a operation sample = (g, answer)"
  shows "if observed_within w a sample \<and> operation \<noteq> Panicked
    then Returned answer = operation \<and> \<not> ss_failed (sp_status (gv_space g)) \<and>
      Inr (ss_allocated (sp_status (gv_space g))) = map_sum id ob_allocated sample \<and>
      ss_promised (sp_status (gv_space g)) = promised_to (wo_queued w)
    else ss_failed (sp_status (gv_space g)) \<and> (\<exists>e. answer = Inl e) \<and> (\<exists>e. Governor_lock g = Inl e)"
proof -
  have inv: "world_inv w" by (rule governor_reach_inv [OF assms(1)])
  have i: "space_inv (wo_space w) (at_reservation a # wo_queued w)" and nf: "\<not> ss_failed (wo_status w)"
    and pre: "at_previous a = ss_allocated (wo_status w)"
    using inv assms(2) by (simp_all add: world_inv_def outstanding_def)
  obtain g1 res where f: "Attempt_finish (wo_governor w) a sample = (g1, res)" by (cases "Attempt_finish (wo_governor w) a sample")
  note p = Attempt_finish_parts [OF i nf f]
  have "ss_allocated (wo_status w) + rs_remaining (at_reservation a) + promised_to (wo_queued w) \<le> sl_capacity (wo_limits w)"
    using i nf by (simp add: space_inv_def)
  then have iff: "res = Inr () \<longleftrightarrow> observed_within w a sample"
    using p(5) by (auto simp: pre observed_within_def split: sum.splits)
  have locked: "\<exists>e. Governor_lock g = Inl e" if "ss_failed (sp_status (gv_space g))"
    using that by (cases "gv_poisoned g") (simp_all add: Governor_lock_def)
  show ?thesis
  proof (cases operation)
    case Panicked
    then have "ss_failed (sp_status (gv_space g)) \<and> (\<exists>e. answer = Inl e)" using assms(3) f by (auto simp: run_end_def)
    then show ?thesis using locked Panicked by simp
  next
    case (Returned result)
    then have g: "g = g1" and ans: "answer = (case (result, res) of (Inr v, Inr _) \<Rightarrow> Inr v | (Inl e, Inr _) \<Rightarrow> Inl e | (Inr _, Inl e) \<Rightarrow> Inl e
      | (Inl p, Inl q) \<Rightarrow> Inl (Other (''allocation operation: '' @ display p @ ''; physical observation: '' @ display q)))"
      using assms(3) f by (simp_all add: run_end_def)
    show ?thesis
    proof (cases "observed_within w a sample")
      case True
      then obtain ob where ob: "sample = Inr ob" "ob_domain ob = gv_domain (wo_governor w)"
        by (auto simp: observed_within_def split: sum.splits)
      have "answer = result" using iff True ans by (cases result) auto
      moreover have "\<not> ss_failed (sp_status (gv_space g))" using iff True p(4) g by simp
      ultimately show ?thesis using True Returned p(1) p(6) [OF ob] by (simp add: g space_inv_def ob)
    next
      case False
      then obtain e where e: "res = Inl e" using iff by (cases res) auto
      then have "\<exists>e. answer = Inl e" using ans by (cases result) auto
      moreover have "ss_failed (sp_status (gv_space g))" using p(4) e g by simp
      ultimately show ?thesis using False locked by simp
    qed
  qed
qed

text \<open>A small filesystem: a foreground permit is queued, then runs.\<close>

definition demo_domain :: Domain where
  "demo_domain = \<lparr>dm_device = 1, dm_filesystem = 2, dm_capacity = 1000, dm_unit = 1\<rparr>"

definition demo_open :: Governor where
  "demo_open = (case Governor_open 0 (Inr \<lparr>ob_domain = demo_domain, ob_allocated = 500\<rparr>) \<lparr>sl_capacity = 1000, sl_reserve = 200\<rparr>
     of Inr g \<Rightarrow> g)"

definition demo_queued :: World where
  "demo_queued = \<lparr>wo_governor = fst (Governor_reserve demo_open 100 False),
     wo_queued = [\<lparr>rs_remaining = 100, rs_background = False\<rparr>], wo_running = None\<rparr>"

definition demo_running :: World where
  "demo_running = demo_queued\<lparr>wo_queued := [],
     wo_running := Some \<lparr>at_previous = 500, at_reservation = \<lparr>rs_remaining = 100, rs_background = False\<rparr>\<rparr>\<rparr>"

lemmas demo_simps = demo_domain_def demo_open_def Governor_open_def Space_new_def update_pressure_def wrapping_sub_def
  wrapping_add_def Governor_reserve_def Space_foreground_def Space_background_def Space_reserve_def saturating_add_def u64_max_def Let_def

lemma demo_open_reach: "governor_reach \<lparr>wo_governor = demo_open, wo_queued = [], wo_running = None\<rparr>"
  by (rule governor_reach.opened [of 0 "Inr \<lparr>ob_domain = demo_domain, ob_allocated = 500\<rparr>" "\<lparr>sl_capacity = 1000, sl_reserve = 200\<rparr>"])
    (simp_all add: demo_simps)

lemma demo_reserves: "Governor_reserve demo_open 100 False = (wo_governor demo_queued, Inr \<lparr>rs_remaining = 100, rs_background = False\<rparr>)"
  by (simp add: demo_simps demo_queued_def)

lemma demo_queued_reach: "governor_reach demo_queued"
proof -
  let ?w = "\<lparr>wo_governor = demo_open, wo_queued = [], wo_running = None\<rparr>"
  have "governor_step ?w (?w\<lparr>wo_governor := wo_governor demo_queued, wo_queued := [\<lparr>rs_remaining = 100, rs_background = False\<rparr>]\<rparr>)"
    using governor_step.reserve [of ?w 100 False] demo_reserves by simp
  then show ?thesis using governor_reach.step [OF demo_open_reach] by (simp add: demo_queued_def)
qed

lemma demo_running_reach: "governor_reach demo_running"
proof -
  let ?r = "\<lparr>rs_remaining = 100, rs_background = False\<rparr>"
  have "run_begin (wo_governor demo_queued) ?r = (wo_governor demo_queued, Inr \<lparr>at_previous = 500, at_reservation = ?r\<rparr>)"
    by (simp add: run_begin_def Governor_lock_def demo_queued_def demo_simps)
  then have "governor_step demo_queued (demo_queued\<lparr>wo_governor := wo_governor demo_queued,
      wo_queued := remove1 ?r (wo_queued demo_queued), wo_running := Some \<lparr>at_previous = 500, at_reservation = ?r\<rparr>\<rparr>)"
    by (intro governor_step.launch) (simp_all add: demo_queued_def)
  then show ?thesis using governor_reach.step [OF demo_queued_reach] by (simp add: demo_running_def demo_queued_def)
qed

theorem governor_accounts_promises_witness:
  "promised_to (outstanding demo_running) = 100 \<and> ss_promised (wo_status demo_running) = 100 \<and> \<not> ss_failed (wo_status demo_running)"
  using governor_accounts_promises [OF demo_running_reach]
  by (simp add: outstanding_def demo_running_def demo_queued_def demo_simps)

theorem foreground_keeps_reserve_witness:
  "\<exists>g r. Governor_reserve (wo_governor demo_queued) 200 True = (g, Inr r) \<and> rs_remaining r = 200"
proof -
  have "borrowers (outstanding \<lparr>wo_governor = demo_open, wo_queued = [], wo_running = None\<rparr>) = 0"
    "sl_reserve (sp_limits (gv_space demo_open)) = 200"
    by (simp_all add: outstanding_def demo_simps)
  then show ?thesis using foreground_keeps_reserve [OF demo_open_reach] demo_reserves by simp
qed

theorem honest_run_completes_witness:
  "snd (run_end (\<lambda>_. ''e'') (wo_governor demo_running) (the (wo_running demo_running)) (Returned (Inr ()))
     (Inr \<lparr>ob_domain = demo_domain, ob_allocated = 600\<rparr>)) = Inr ()"
proof -
  let ?s = "Inr \<lparr>ob_domain = demo_domain, ob_allocated = 600\<rparr>"
  obtain a where a: "wo_running demo_running = Some a" by (simp add: demo_running_def)
  have "observed_within demo_running a ?s"
    using a by (auto simp: observed_within_def demo_running_def demo_queued_def demo_simps)
  then show ?thesis
    using honest_run_completes [where display = "\<lambda>_. ''e''" and operation = "Returned (Inr ())" and sample = ?s,
      OF demo_running_reach a prod.collapse [symmetric]] a
    by simp
qed

end
