(* ===== verification/Staging_Quota.thy ===== *)
theory Staging_Quota
  imports Space
begin

text \<open>
  The staging quotas of \<^verbatim>\<open>core/src/space/staging.rs\<close>: one usage for the host and one per image, charged
  together under one lock. No holder of the lock can panic, so its poisoning is left out.
  Unchecked 64-bit operators wrap; the 128-bit sums are exact.
\<close>

section \<open>Usage of one quota\<close>

record StagingImage =
  si_allocated :: nat
  si_capacity :: nat

record StagingUsage =
  su_allocated :: nat
  su_promised :: nat
  su_capacity :: nat
  su_compaction :: bool
  su_stopped :: bool

abbreviation su_used :: "StagingUsage \<Rightarrow> nat" where
  "su_used u \<equiv> su_allocated u + su_promised u"

definition StagingUsage_update :: "StagingUsage \<Rightarrow> StagingUsage" where
  "StagingUsage_update u =
     (let used = su_allocated u + su_promised u;
          capacity = su_capacity u;
          stopped = (if used \<ge> capacity then True else if used * 100 < capacity * 60 then False else su_stopped u) in
      u\<lparr>su_stopped := stopped, su_compaction := (stopped \<or> used * 100 \<ge> capacity * 75)\<rparr>)"

definition StagingUsage_new :: "StagingImage \<Rightarrow> StagingUsage result" where
  "StagingUsage_new i =
     ensure (si_capacity i > 0 \<and> si_allocated i \<le> si_capacity i) (InvalidData ''invalid staging capacity'')
       (Inr (StagingUsage_update \<lparr>su_allocated = si_allocated i, su_promised = 0, su_capacity = si_capacity i,
          su_compaction = False, su_stopped = False\<rparr>))"

definition StagingUsage_admit :: "StagingUsage \<Rightarrow> nat \<Rightarrow> StagingUsage \<times> bool" where
  "StagingUsage_admit u bytes =
     (let used = saturating_add (su_allocated u) (su_promised u) in
      if bytes > su_capacity u - used then (u\<lparr>su_stopped := True, su_compaction := True\<rparr>, False)
      else (u, \<not> su_stopped u))"

section \<open>The account\<close>

record Staging =
  st_host :: StagingUsage
  st_images :: "StagingUsage list"
  st_failed :: bool

fun staging_entries :: "StagingImage list \<Rightarrow> nat \<Rightarrow> StagingUsage list \<Rightarrow> (nat \<times> StagingUsage list) result" where
  "staging_entries [] allocated entries = Inr (allocated, entries)"
| "staging_entries (i # is) allocated entries =
     attempt (ok_or (nchecked_add allocated (si_allocated i)) (Other ''staging total overflow'')) (\<lambda>allocated.
     attempt (StagingUsage_new i) (\<lambda>entry. staging_entries is allocated (entries @ [entry])))"

text \<open>The budget's answers to the entry array and to the shared owner are arguments.\<close>

definition Staging_new :: "bool \<Rightarrow> unit result \<Rightarrow> nat \<Rightarrow> StagingImage list \<Rightarrow> Staging result" where
  "Staging_new entries_granted owner capacity images =
     ensure entries_granted (OutOfMemory '''')
    (attempt (staging_entries images 0 []) (\<lambda>(allocated, entries).
     attempt (StagingUsage_new \<lparr>si_allocated = allocated, si_capacity = capacity\<rparr>) (\<lambda>host.
     attempt owner (\<lambda>_. Inr \<lparr>st_host = host, st_images = entries, st_failed = False\<rparr>))))"

definition Staging_status :: "Staging \<Rightarrow> nat \<Rightarrow> (StagingUsage \<times> StagingUsage) result" where
  "Staging_status s i = (if i < length (st_images s) then Inr (st_host s, st_images s ! i) else Inl (InvalidInput ''''))"

definition Staging_admits :: "Staging \<Rightarrow> nat \<Rightarrow> bool" where
  "Staging_admits s i \<longleftrightarrow> \<not> st_failed s \<and> \<not> su_stopped (st_host s) \<and> i < length (st_images s) \<and> \<not> su_stopped (st_images s ! i)"

record StagingPermit =
  sm_image :: nat
  sm_bytes :: nat
  sm_running :: bool

definition add_promise :: "nat \<Rightarrow> StagingUsage \<Rightarrow> StagingUsage" where
  "add_promise bytes u = StagingUsage_update (u\<lparr>su_promised := wrapping_add (su_promised u) bytes\<rparr>)"

definition sub_promise :: "nat \<Rightarrow> StagingUsage \<Rightarrow> StagingUsage" where
  "sub_promise bytes u = StagingUsage_update (u\<lparr>su_promised := wrapping_sub (su_promised u) bytes\<rparr>)"

definition Staging_reserve :: "Staging \<Rightarrow> nat \<Rightarrow> nat \<Rightarrow> Staging \<times> StagingPermit result" where
  "Staging_reserve s i bytes =
     (if st_failed s then (s, Inl (InvalidData ''staging account failed; explicit recovery required''))
      else if \<not> i < length (st_images s) then (s, Inl (InvalidInput ''''))
      else if bytes = 0 \<or> bytes > su_capacity (st_images s ! i) \<or> bytes > su_capacity (st_host s) then (s, Inl (InvalidInput ''''))
      else
        let (host, host_fits) = StagingUsage_admit (st_host s) bytes;
            (entry, image_fits) = StagingUsage_admit (st_images s ! i) bytes in
        if \<not> (host_fits \<and> image_fits)
        then (s\<lparr>st_host := host, st_images := (st_images s)[i := entry]\<rparr>, Inl (WouldBlock ''''))
        else (s\<lparr>st_host := add_promise bytes host, st_images := (st_images s)[i := add_promise bytes entry]\<rparr>,
              Inr \<lparr>sm_image = i, sm_bytes = bytes, sm_running = False\<rparr>))"

definition Staging_reclaimed :: "Staging \<Rightarrow> nat \<Rightarrow> nat \<Rightarrow> Staging \<times> bool result" where
  "Staging_reclaimed s i allocated =
     (if st_failed s then (s, Inl (InvalidData ''staging account failed''))
      else if \<not> i < length (st_images s) then (s, Inl (InvalidInput ''''))
      else
        let old = su_allocated (st_images s ! i) in
        if allocated > old then (s\<lparr>st_failed := True\<rparr>, Inl (Other ''unreserved staging growth during reclamation''))
        else
          let host = StagingUsage_update ((st_host s)\<lparr>su_allocated := wrapping_sub (su_allocated (st_host s)) (old - allocated)\<rparr>);
              entry = StagingUsage_update ((st_images s ! i)\<lparr>su_allocated := allocated\<rparr>) in
          (s\<lparr>st_host := host, st_images := (st_images s)[i := entry]\<rparr>,
           Inr ((su_stopped (st_host s) \<and> \<not> su_stopped host) \<or> (su_stopped (st_images s ! i) \<and> \<not> su_stopped entry))))"

section \<open>Permits\<close>

definition StagingPermit_start :: "StagingPermit \<Rightarrow> StagingPermit" where
  "StagingPermit_start p = p\<lparr>sm_running := True\<rparr>"

definition StagingPermit_drop :: "Staging \<Rightarrow> StagingPermit \<Rightarrow> Staging" where
  "StagingPermit_drop s p =
     (if sm_bytes p = 0 then s
      else if sm_running p then s\<lparr>st_failed := True\<rparr>
      else s\<lparr>st_host := sub_promise (sm_bytes p) (st_host s),
             st_images := (st_images s)[sm_image p := sub_promise (sm_bytes p) (st_images s ! sm_image p)]\<rparr>)"

text \<open>The permit is consumed, so it is dropped on every path.\<close>

definition StagingPermit_installed :: "Staging \<Rightarrow> StagingPermit \<Rightarrow> nat \<Rightarrow> Staging \<times> unit result" where
  "StagingPermit_installed s p allocated =
     (let i = sm_image p; old = su_allocated (st_images s ! i) in
      if \<not> sm_running p \<or> st_failed s \<or> allocated < old
      then (StagingPermit_drop (s\<lparr>st_failed := True\<rparr>) (p\<lparr>sm_running := True\<rparr>), Inl (Other ''invalid staging installation receipt''))
      else
        let valid = (case nchecked_sub allocated old of None \<Rightarrow> False | Some n \<Rightarrow> n \<le> sm_bytes p);
            total_bytes = Option.bind (nchecked_sub (su_allocated (st_host s)) old) (\<lambda>n. nchecked_add n allocated);
            host = StagingUsage_update ((st_host s)\<lparr>su_allocated := (case total_bytes of None \<Rightarrow> u64_max | Some n \<Rightarrow> n),
                su_promised := wrapping_sub (su_promised (st_host s)) (sm_bytes p)\<rparr>);
            entry = StagingUsage_update ((st_images s ! i)\<lparr>su_allocated := allocated,
                su_promised := wrapping_sub (su_promised (st_images s ! i)) (sm_bytes p)\<rparr>);
            s = s\<lparr>st_host := host, st_images := (st_images s)[i := entry]\<rparr>;
            p = p\<lparr>sm_bytes := 0\<rparr> in
        if \<not> valid \<or> total_bytes = None \<or> su_allocated host > su_capacity host \<or> allocated > su_capacity entry
        then (StagingPermit_drop (s\<lparr>st_failed := True\<rparr>) p, Inl (Other ''staging receipt exceeds its reservation''))
        else (StagingPermit_drop s p, Inr ()))"

section \<open>Usage lemmas\<close>

lemma update_simps [simp]:
  "su_allocated (StagingUsage_update u) = su_allocated u"
  "su_promised (StagingUsage_update u) = su_promised u"
  "su_capacity (StagingUsage_update u) = su_capacity u"
  by (simp_all add: StagingUsage_update_def Let_def)

interpretation staging_gate: watermark_gate "\<lambda>u. 100 * su_used u" "\<lambda>u. 100 * su_capacity u" "\<lambda>u. 60 * su_capacity u"
  su_stopped StagingUsage_update
  by unfold_locales (auto simp: StagingUsage_update_def Let_def)

text \<open>
  A usage under promises \<open>n\<close>: they are covered, exactly while the account is live, and a full quota is stopped.
\<close>

definition usage_inv :: "bool \<Rightarrow> nat \<Rightarrow> StagingUsage \<Rightarrow> bool" where
  "usage_inv failed n u \<longleftrightarrow> su_capacity u \<le> u64_max \<and> n \<le> su_promised u \<and> su_promised u \<le> su_capacity u \<and>
     (su_capacity u \<le> su_used u \<longrightarrow> su_stopped u) \<and>
     (\<not> failed \<longrightarrow> su_promised u = n \<and> su_used u \<le> su_capacity u)"

lemma update_stopped: "su_capacity u \<le> su_used u \<Longrightarrow> su_stopped (StagingUsage_update u)"
  by (simp add: StagingUsage_update_def Let_def)

lemma usage_inv_update: "usage_inv failed n (StagingUsage_update u) \<longleftrightarrow>
    su_capacity u \<le> u64_max \<and> n \<le> su_promised u \<and> su_promised u \<le> su_capacity u \<and>
    (\<not> failed \<longrightarrow> su_promised u = n \<and> su_used u \<le> su_capacity u)"
  by (auto simp: usage_inv_def update_stopped)

lemma usage_inv_failed: "usage_inv failed n u \<Longrightarrow> m \<le> n \<Longrightarrow> usage_inv True m u"
  by (auto simp: usage_inv_def)

lemma admit_fits:
  assumes "usage_inv False n u" and "StagingUsage_admit u bytes = (u', fits)"
  shows "su_allocated u' = su_allocated u" and "su_capacity u' = su_capacity u" and "usage_inv False n u'"
    and "fits \<longleftrightarrow> \<not> su_stopped u \<and> su_used u + bytes \<le> su_capacity u" and "fits \<Longrightarrow> u' = u"
  using assms by (auto simp: StagingUsage_admit_def Let_def saturating_add_def usage_inv_def split: if_splits)

lemma usage_inv_add_promise:
  "usage_inv False n u \<Longrightarrow> su_used u + bytes \<le> su_capacity u \<Longrightarrow> usage_inv False (bytes + n) (add_promise bytes u)"
  unfolding add_promise_def usage_inv_update by (auto simp: usage_inv_def wrapping_add_exact)

lemma usage_inv_sub_promise:
  "usage_inv failed (bytes + n) u \<Longrightarrow> usage_inv failed n (sub_promise bytes u)"
  unfolding sub_promise_def usage_inv_update by (auto simp: usage_inv_def wrapping_sub_exact)

lemma promise_allocated [simp]:
  "su_allocated (add_promise bytes u) = su_allocated u" "su_allocated (sub_promise bytes u) = su_allocated u"
  by (simp_all add: add_promise_def sub_promise_def)

section \<open>Interleavings\<close>

inductive staging_step :: "Staging \<times> StagingPermit list \<Rightarrow> Staging \<times> StagingPermit list \<Rightarrow> bool" where
  reserve: "Staging_reserve s i bytes = (s', Inr p) \<Longrightarrow> staging_step (s, ps) (s', p # ps)"
| deny: "Staging_reserve s i bytes = (s', Inl e) \<Longrightarrow> staging_step (s, ps) (s', ps)"
| start: "p \<in> set ps \<Longrightarrow> staging_step (s, ps) (s, StagingPermit_start p # remove1 p ps)"
| install: "p \<in> set ps \<Longrightarrow> StagingPermit_installed s p allocated = (s', r) \<Longrightarrow> staging_step (s, ps) (s', remove1 p ps)"
| drop: "p \<in> set ps \<Longrightarrow> staging_step (s, ps) (StagingPermit_drop s p, remove1 p ps)"
| reclaim: "Staging_reclaimed s i allocated = (s', r) \<Longrightarrow> staging_step (s, ps) (s', ps)"

inductive staging_reach :: "Staging \<Rightarrow> StagingPermit list \<Rightarrow> bool" where
  new: "Staging_new granted owner capacity images = Inr s \<Longrightarrow> capacity \<le> u64_max \<Longrightarrow>
    list_all (\<lambda>i. si_capacity i \<le> u64_max) images \<Longrightarrow> staging_reach s []"
| step: "staging_reach s ps \<Longrightarrow> staging_step (s, ps) (s', ps') \<Longrightarrow> staging_reach s' ps'"

definition promises :: "StagingPermit list \<Rightarrow> nat" where
  "promises ps = sum_list (map sm_bytes ps)"

definition promises_of :: "nat \<Rightarrow> StagingPermit list \<Rightarrow> nat" where
  "promises_of i ps = promises (filter (\<lambda>p. sm_image p = i) ps)"

lemma promises_simps [simp]:
  "promises [] = 0" "promises (p # ps) = sm_bytes p + promises ps"
  "promises_of i [] = 0" "promises_of i (p # ps) = (if sm_image p = i then sm_bytes p else 0) + promises_of i ps"
  by (simp_all add: promises_def promises_of_def)

lemma promises_remove1:
  assumes "p \<in> set ps"
  shows "promises ps = sm_bytes p + promises (remove1 p ps)"
    and "promises_of i ps = (if sm_image p = i then sm_bytes p else 0) + promises_of i (remove1 p ps)"
  using assms by (induction ps) auto

definition staging_inv :: "Staging \<Rightarrow> StagingPermit list \<Rightarrow> bool" where
  "staging_inv s ps \<longleftrightarrow> usage_inv (st_failed s) (promises ps) (st_host s) \<and>
     (\<forall>i < length (st_images s). usage_inv (st_failed s) (promises_of i ps) (st_images s ! i)) \<and>
     (\<forall>p \<in> set ps. sm_image p < length (st_images s)) \<and>
     (\<not> st_failed s \<longrightarrow> su_allocated (st_host s) = sum_list (map su_allocated (st_images s)))"

text \<open>The usual change: the host, and one image, under new promises.\<close>

lemma staging_inv_update:
  assumes "staging_inv s ps" and "i < length (st_images s)" and "\<forall>p \<in> set ps'. sm_image p < length (st_images s)"
    and "\<And>j. j \<noteq> i \<Longrightarrow> promises_of j ps' = promises_of j ps"
    and "usage_inv (st_failed s) (promises ps') host" and "usage_inv (st_failed s) (promises_of i ps') entry"
    and "\<not> st_failed s \<Longrightarrow> su_allocated host + su_allocated (st_images s ! i) = su_allocated (st_host s) + su_allocated entry"
  shows "staging_inv (s\<lparr>st_host := host, st_images := (st_images s)[i := entry]\<rparr>) ps'"
proof -
  have "su_allocated host = sum_list (map su_allocated ((st_images s)[i := entry]))" if "\<not> st_failed s"
  proof -
    have "su_allocated (st_images s ! i) \<le> sum_list (map su_allocated (st_images s))"
      using assms(2) elem_le_sum_list [of i "map su_allocated (st_images s)"] by simp
    then show ?thesis
      using assms(1,7) that assms(2) sum_list_update [of i "map su_allocated (st_images s)" "su_allocated entry"]
      by (simp add: staging_inv_def map_update)
  qed
  then show ?thesis using assms(1-6) by (auto simp: staging_inv_def nth_list_update)
qed

lemma staging_inv_fail: "staging_inv s ps \<Longrightarrow> staging_inv (s\<lparr>st_failed := True\<rparr>) ps"
  by (auto simp: staging_inv_def intro: usage_inv_failed)

lemma staging_inv_forget:
  assumes "staging_inv s ps" and "st_failed s" and "p \<in> set ps"
  shows "staging_inv s (remove1 p ps)"
proof -
  have "promises (remove1 p ps) \<le> promises ps" "promises_of i (remove1 p ps) \<le> promises_of i ps" for i
    using promises_remove1 [OF assms(3)] by simp_all
  then show ?thesis
    using assms usage_inv_failed by (auto simp: staging_inv_def dest: notin_set_remove1)
qed

lemma reserve_Inr:
  assumes "staging_inv s ps" and "Staging_reserve s i bytes = (s', Inr p)"
  shows "staging_inv s' (p # ps)" and "\<not> st_failed s" and "i < length (st_images s)"
    and "p = \<lparr>sm_image = i, sm_bytes = bytes, sm_running = False\<rparr>"
    and "\<not> su_stopped (st_host s)" and "\<not> su_stopped (st_images s ! i)"
proof -
  obtain host hf where h: "StagingUsage_admit (st_host s) bytes = (host, hf)" by (cases "StagingUsage_admit (st_host s) bytes")
  obtain entry ef where e: "StagingUsage_admit (st_images s ! i) bytes = (entry, ef)" by (cases "StagingUsage_admit (st_images s ! i) bytes")
  show nf: "\<not> st_failed s" and i: "i < length (st_images s)" and p: "p = \<lparr>sm_image = i, sm_bytes = bytes, sm_running = False\<rparr>"
    using assms(2) h e by (auto simp: Staging_reserve_def split: if_splits)
  have f: "hf" "ef" and s': "s' = s\<lparr>st_host := add_promise bytes host, st_images := (st_images s)[i := add_promise bytes entry]\<rparr>"
    using assms(2) h e by (auto simp: Staging_reserve_def split: if_splits)
  have ih: "usage_inv False (promises ps) (st_host s)" and ii: "usage_inv False (promises_of i ps) (st_images s ! i)"
    using assms(1) nf i by (auto simp: staging_inv_def)
  note ah = admit_fits [OF ih h] and ai = admit_fits [OF ii e]
  show "\<not> su_stopped (st_host s)" "\<not> su_stopped (st_images s ! i)" using f ah(4) ai(4) by auto
  show "staging_inv s' (p # ps)"
    unfolding s'
  proof (rule staging_inv_update [OF assms(1) i])
    show "usage_inv (st_failed s) (promises (p # ps)) (add_promise bytes host)"
      using usage_inv_add_promise [OF ih] ah(4,5) f p nf by simp
    show "usage_inv (st_failed s) (promises_of i (p # ps)) (add_promise bytes entry)"
      using usage_inv_add_promise [OF ii] ai(4,5) f p nf by simp
    show "su_allocated (add_promise bytes host) + su_allocated (st_images s ! i) =
        su_allocated (st_host s) + su_allocated (add_promise bytes entry)"
      using ah(1) ai(1) by simp
  qed (use assms(1) i p in \<open>auto simp: staging_inv_def\<close>)
qed

lemma reserve_Inl:
  assumes "staging_inv s ps" and "Staging_reserve s i bytes = (s', Inl e)"
  shows "staging_inv s' ps"
proof (cases "s' = s")
  case False
  obtain host hf where h: "StagingUsage_admit (st_host s) bytes = (host, hf)" by (cases "StagingUsage_admit (st_host s) bytes")
  obtain entry ef where en: "StagingUsage_admit (st_images s ! i) bytes = (entry, ef)" by (cases "StagingUsage_admit (st_images s ! i) bytes")
  have nf: "\<not> st_failed s" and i: "i < length (st_images s)"
    and s': "s' = s\<lparr>st_host := host, st_images := (st_images s)[i := entry]\<rparr>"
    using assms(2) h en False by (auto simp: Staging_reserve_def split: if_splits)
  have ih: "usage_inv False (promises ps) (st_host s)" and ii: "usage_inv False (promises_of i ps) (st_images s ! i)"
    using assms(1) nf i by (auto simp: staging_inv_def)
  show ?thesis
    unfolding s' using assms(1) i nf admit_fits [OF ih h] admit_fits [OF ii en]
    by (intro staging_inv_update [OF assms(1) i]) (auto simp: staging_inv_def)
qed (use assms(1) in simp)

lemma drop_inv:
  assumes "staging_inv s ps" and "p \<in> set ps"
  shows "staging_inv (StagingPermit_drop s p) (remove1 p ps)"
proof -
  note r = promises_remove1 [OF assms(2)]
  have i: "sm_image p < length (st_images s)" using assms by (auto simp: staging_inv_def)
  have sub: "set (remove1 p ps) \<subseteq> set ps" by (rule set_remove1_subset)
  consider "sm_bytes p = 0" | "sm_bytes p \<noteq> 0" "sm_running p" | "sm_bytes p \<noteq> 0" "\<not> sm_running p" by blast
  then show ?thesis
  proof cases
    case 1
    then have "promises_of j ps = promises_of j (remove1 p ps)" for j using r(2) by simp
    then show ?thesis using 1 assms(1) r(1) sub by (auto simp: StagingPermit_drop_def staging_inv_def)
  next
    case 2
    then show ?thesis
      using staging_inv_forget [OF staging_inv_fail [OF assms(1)] _ assms(2)] by (simp add: StagingPermit_drop_def)
  next
    case 3
    have "staging_inv (s\<lparr>st_host := sub_promise (sm_bytes p) (st_host s),
        st_images := (st_images s)[sm_image p := sub_promise (sm_bytes p) (st_images s ! sm_image p)]\<rparr>) (remove1 p ps)"
      using assms(1) i r sub
      by (intro staging_inv_update [OF assms(1) i]) (auto simp: staging_inv_def intro!: usage_inv_sub_promise)
    then show ?thesis using 3 by (simp add: StagingPermit_drop_def)
  qed
qed

lemma installed_parts:
  assumes "staging_inv s ps" and "p \<in> set ps" and "StagingPermit_installed s p allocated = (s', result)"
  shows "staging_inv s' (remove1 p ps)"
    and "if \<not> st_failed s \<and> sm_running p \<and> su_allocated (st_images s ! sm_image p) \<le> allocated \<and>
           allocated \<le> su_allocated (st_images s ! sm_image p) + sm_bytes p
         then result = Inr () \<and> \<not> st_failed s' \<and> su_allocated (st_images s' ! sm_image p) = allocated
         else (\<exists>e. result = Inl e) \<and> st_failed s'"
proof -
  define i old where "i = sm_image p" and "old = su_allocated (st_images s ! i)"
  note r = promises_remove1 [OF assms(2)]
  have i: "i < length (st_images s)" using assms by (auto simp: staging_inv_def i_def)
  have "staging_inv s' (remove1 p ps) \<and>
    (if \<not> st_failed s \<and> sm_running p \<and> old \<le> allocated \<and> allocated \<le> old + sm_bytes p
     then result = Inr () \<and> \<not> st_failed s' \<and> su_allocated (st_images s' ! i) = allocated
     else (\<exists>e. result = Inl e) \<and> st_failed s')"
  proof (cases "\<not> sm_running p \<or> st_failed s \<or> allocated < old")
    case True
    then have "s' = s\<lparr>st_failed := True\<rparr>" "\<exists>e. result = Inl e"
      using assms(3) by (auto simp: StagingPermit_installed_def Let_def i_def old_def StagingPermit_drop_def split: if_splits)
    then show ?thesis
      using True staging_inv_forget [OF staging_inv_fail [OF assms(1)] _ assms(2)] by auto
  next
    case False
    have ih: "usage_inv False (promises ps) (st_host s)" and ii: "usage_inv False (promises_of i ps) (st_images s ! i)"
      and sum: "su_allocated (st_host s) = sum_list (map su_allocated (st_images s))"
      using assms(1) False i by (auto simp: staging_inv_def)
    have old_le: "old \<le> su_allocated (st_host s)"
      using i elem_le_sum_list [of i "map su_allocated (st_images s)"] by (simp add: sum old_def)
    define host where "host = StagingUsage_update ((st_host s)\<lparr>su_allocated :=
      (if su_allocated (st_host s) - old + allocated \<le> u64_max then su_allocated (st_host s) - old + allocated else u64_max),
      su_promised := promises (remove1 p ps)\<rparr>)"
    define entry where "entry = StagingUsage_update ((st_images s ! i)\<lparr>su_allocated := allocated, su_promised := promises_of i (remove1 p ps)\<rparr>)"
    define good where "good \<longleftrightarrow> allocated \<le> old + sm_bytes p \<and> su_allocated (st_host s) - old + allocated \<le> u64_max \<and>
      su_allocated host \<le> su_capacity host \<and> allocated \<le> su_capacity entry"
    have w: "wrapping_sub (su_promised (st_host s)) (sm_bytes p) = promises (remove1 p ps)"
      "wrapping_sub (su_promised (st_images s ! i)) (sm_bytes p) = promises_of i (remove1 p ps)"
      using ih ii r i_def by (auto simp: usage_inv_def wrapping_sub_exact)
    define s1 where "s1 = s\<lparr>st_host := host, st_images := (st_images s)[i := entry]\<rparr>"
    have "StagingPermit_installed s p allocated =
        (if good then (s1, Inr ()) else (s1\<lparr>st_failed := True\<rparr>, Inl (Other ''staging receipt exceeds its reservation'')))"
      using False w old_le
      by (auto simp: StagingPermit_installed_def Let_def i_def [symmetric] old_def [symmetric] StagingPermit_drop_def
          nchecked_sub_def nchecked_add_def host_def entry_def good_def s1_def)
    then have s': "s' = (if good then s1 else s1\<lparr>st_failed := True\<rparr>)" and res: "if good then result = Inr () else \<exists>e. result = Inl e"
      using assms(3) by (auto split: if_splits)
    have fits: "su_allocated (st_host s) + promises ps \<le> su_capacity (st_host s)" "old + promises_of i ps \<le> su_capacity (st_images s ! i)"
      "su_capacity (st_host s) \<le> u64_max" "su_capacity (st_images s ! i) \<le> u64_max"
      using ih ii by (auto simp: usage_inv_def old_def)
    have good: "good \<longleftrightarrow> allocated \<le> old + sm_bytes p"
      using fits r(1) r(2) [of i] old_le by (auto simp: good_def host_def entry_def i_def [symmetric])
    let ?s = "if good then s else s\<lparr>st_failed := True\<rparr>"
    have st: "st_images ?s = st_images s" "st_host ?s = st_host s" "st_failed ?s \<longleftrightarrow> \<not> good" using False by auto
    have inv0: "staging_inv ?s ps" using assms(1) staging_inv_fail [OF assms(1)] by simp
    have "staging_inv (?s\<lparr>st_host := host, st_images := (st_images ?s)[i := entry]\<rparr>) (remove1 p ps)"
    proof (rule staging_inv_update [OF inv0])
      show "usage_inv (st_failed ?s) (promises (remove1 p ps)) host"
        unfolding host_def usage_inv_update st(3) using fits r(1) good old_le by auto
      show "usage_inv (st_failed ?s) (promises_of i (remove1 p ps)) entry"
        unfolding entry_def usage_inv_update st(3) using fits r(2) [of i] good by (auto simp: i_def [symmetric])
      show "su_allocated host + su_allocated (st_images ?s ! i) = su_allocated (st_host ?s) + su_allocated entry" if "\<not> st_failed ?s"
        using that good_def old_le unfolding st by (auto simp: host_def entry_def old_def)
      show "\<forall>q \<in> set (remove1 p ps). sm_image q < length (st_images ?s)"
        using assms(1) unfolding st by (auto simp: staging_inv_def dest: notin_set_remove1)
      show "i < length (st_images ?s)" using i unfolding st .
    qed (use r(2) in \<open>simp add: i_def\<close>)
    moreover have "?s\<lparr>st_host := host, st_images := (st_images ?s)[i := entry]\<rparr> = s'" by (simp add: s' s1_def)
    ultimately have "staging_inv s' (remove1 p ps)" by (simp only:)
    then show ?thesis using False res good i by (auto simp: s' s1_def entry_def)
  qed
  then show "staging_inv s' (remove1 p ps)"
    and "if \<not> st_failed s \<and> sm_running p \<and> su_allocated (st_images s ! sm_image p) \<le> allocated \<and>
           allocated \<le> su_allocated (st_images s ! sm_image p) + sm_bytes p
         then result = Inr () \<and> \<not> st_failed s' \<and> su_allocated (st_images s' ! sm_image p) = allocated
         else (\<exists>e. result = Inl e) \<and> st_failed s'"
    unfolding i_def old_def by blast+
qed

lemma reclaimed_inv:
  assumes "staging_inv s ps" and "Staging_reclaimed s i allocated = (s', result)"
  shows "staging_inv s' ps"
proof -
  consider "s' = s" | "s' = s\<lparr>st_failed := True\<rparr>"
    | host entry where "\<not> st_failed s" "i < length (st_images s)" "allocated \<le> su_allocated (st_images s ! i)"
      "host = StagingUsage_update ((st_host s)\<lparr>su_allocated := wrapping_sub (su_allocated (st_host s)) (su_allocated (st_images s ! i) - allocated)\<rparr>)"
      "entry = StagingUsage_update ((st_images s ! i)\<lparr>su_allocated := allocated\<rparr>)"
      "s' = s\<lparr>st_host := host, st_images := (st_images s)[i := entry]\<rparr>"
    using assms(2) by (auto simp: Staging_reclaimed_def Let_def split: if_splits)
  then show ?thesis
  proof cases
    case (3 host entry)
    have le: "su_allocated (st_images s ! i) \<le> su_allocated (st_host s)"
      using assms(1) 3(1,2) elem_le_sum_list [of i "map su_allocated (st_images s)"] by (simp add: staging_inv_def)
    have ih: "usage_inv False (promises ps) (st_host s)" and ii: "usage_inv False (promises_of i ps) (st_images s ! i)"
      using assms(1) 3(1,2) by (auto simp: staging_inv_def)
    have w: "wrapping_sub (su_allocated (st_host s)) (su_allocated (st_images s ! i) - allocated) =
        su_allocated (st_host s) - (su_allocated (st_images s ! i) - allocated)"
      using ih le by (intro wrapping_sub_exact) (auto simp: usage_inv_def)
    show ?thesis
      unfolding 3(6)
    proof (rule staging_inv_update [OF assms(1) 3(2)])
      show "usage_inv (st_failed s) (promises ps) host"
        unfolding 3(4) usage_inv_update w using ih 3(1) by (auto simp: usage_inv_def)
      show "usage_inv (st_failed s) (promises_of i ps) entry"
        unfolding 3(5) usage_inv_update using ii 3(1,3) by (auto simp: usage_inv_def)
      show "su_allocated host + su_allocated (st_images s ! i) = su_allocated (st_host s) + su_allocated entry"
        unfolding 3(4,5) using le 3(3) by (simp add: w)
    qed (use assms(1) in \<open>auto simp: staging_inv_def\<close>)
  qed (use assms(1) staging_inv_fail in auto)
qed

lemma staging_step_inv: "staging_step sp sp' \<Longrightarrow> staging_inv (fst sp) (snd sp) \<Longrightarrow> staging_inv (fst sp') (snd sp')"
proof (induction rule: staging_step.induct)
  case (start p ps s)
  have "promises_of j ps = promises_of j (StagingPermit_start p # remove1 p ps)" for j
    using promises_remove1(2) [OF start.hyps] by (simp add: StagingPermit_start_def)
  then show ?case
    using start promises_remove1(1) [OF start.hyps]
    by (auto simp: staging_inv_def StagingPermit_start_def dest: notin_set_remove1)
qed (auto intro: reserve_Inr(1) reserve_Inl drop_inv installed_parts(1) reclaimed_inv)

lemma StagingUsage_new_inv:
  "StagingUsage_new i = Inr u \<Longrightarrow> si_capacity i \<le> u64_max \<Longrightarrow> usage_inv False 0 u \<and> su_allocated u = si_allocated i"
  by (auto simp: StagingUsage_new_def usage_inv_update)

lemma staging_entries_inv:
  assumes "staging_entries is allocated entries = Inr (allocated', entries')" and "list_all (\<lambda>i. si_capacity i \<le> u64_max) is"
    and "allocated = sum_list (map su_allocated entries)" and "list_all (usage_inv False 0) entries"
  shows "allocated' = sum_list (map su_allocated entries') \<and> list_all (usage_inv False 0) entries'"
  using assms
proof (induction "is" arbitrary: allocated entries)
  case (Cons i "is")
  then obtain u where u: "StagingUsage_new i = Inr u"
    and rest: "staging_entries is (allocated + si_allocated i) (entries @ [u]) = Inr (allocated', entries')" by auto
  show ?case
    using Cons.prems StagingUsage_new_inv [OF u] by (intro Cons.IH [OF rest]) auto
qed simp

lemma staging_reach_inv: "staging_reach s ps \<Longrightarrow> staging_inv s ps"
proof (induction rule: staging_reach.induct)
  case (new granted owner capacity images s)
  then obtain allocated entries host where "staging_entries images 0 [] = Inr (allocated, entries)"
    and h: "StagingUsage_new \<lparr>si_allocated = allocated, si_capacity = capacity\<rparr> = Inr host"
    and s: "s = \<lparr>st_host = host, st_images = entries, st_failed = False\<rparr>" by (auto simp: Staging_new_def)
  then have "allocated = sum_list (map su_allocated entries) \<and> list_all (usage_inv False 0) entries"
    using staging_entries_inv new.hyps(3) by fastforce
  then show ?case using StagingUsage_new_inv [OF h] new.hyps(2) by (simp add: s staging_inv_def list_all_length)
next
  case (step s ps s' ps')
  then show ?case using staging_step_inv by fastforce
qed

text \<open>
  The staging quotas are exact in every interleaving of reservations, starts, receipts, cancellations and
  reclaims. While the account has not failed, the host's allocation is the sum of the images', its
  promises are the bytes of all outstanding permits and each image's promises those of its own, and neither the host nor any image
  exceeds its capacity. After a failure the promises still cover every outstanding permit.
\<close>
theorem staging_accounts_permits:
  assumes "staging_reach s ps"
  shows "promises ps \<le> su_promised (st_host s) \<and>
    (\<forall>i < length (st_images s). promises_of i ps \<le> su_promised (st_images s ! i)) \<and>
    (\<not> st_failed s \<longrightarrow>
       su_allocated (st_host s) = sum_list (map su_allocated (st_images s)) \<and>
       su_promised (st_host s) = promises ps \<and> su_used (st_host s) \<le> su_capacity (st_host s) \<and>
       (\<forall>i < length (st_images s). su_promised (st_images s ! i) = promises_of i ps \<and>
          su_used (st_images s ! i) \<le> su_capacity (st_images s ! i)))"
proof -
  have inv: "usage_inv (st_failed s) (promises ps) (st_host s)"
    "\<And>i. i < length (st_images s) \<Longrightarrow> usage_inv (st_failed s) (promises_of i ps) (st_images s ! i)"
    "\<not> st_failed s \<Longrightarrow> su_allocated (st_host s) = sum_list (map su_allocated (st_images s))"
    using staging_reach_inv [OF assms] by (simp_all add: staging_inv_def)
  then show ?thesis unfolding usage_inv_def by metis
qed

text \<open>
  Installation receipts are honoured exactly. In every reachable state a permit's receipt is accepted, and the
  account stays live, precisely when the permit was started, the account had not failed and the image grew by at
  most the permit's bytes: other permits can never crowd it out. Every other receipt fails the account, and a failed account grants nothing more.
\<close>
theorem staging_receipt_exact:
  assumes "staging_reach s ps" and "p \<in> set ps" and "StagingPermit_installed s p allocated = (s', result)"
  shows "if \<not> st_failed s \<and> sm_running p \<and> su_allocated (st_images s ! sm_image p) \<le> allocated \<and>
      allocated \<le> su_allocated (st_images s ! sm_image p) + sm_bytes p
    then result = Inr () \<and> \<not> st_failed s' \<and> su_allocated (st_images s' ! sm_image p) = allocated
    else (\<exists>e. result = Inl e) \<and> st_failed s' \<and> (\<forall>i n. \<exists>e. Staging_reserve s' i n = (s', Inl e))"
proof -
  have "\<exists>e. Staging_reserve s' i n = (s', Inl e)" if "st_failed s'" for i n
    using that by (simp add: Staging_reserve_def)
  then show ?thesis using installed_parts(2) [OF staging_reach_inv [OF assms(1)] assms(2,3)] by (simp split: if_splits)
qed

text \<open>A host of 100 bytes with one image of 50, and a started permit of 20.\<close>

definition demo_staging :: Staging where
  "demo_staging = (case Staging_new True (Inr ()) 100 [\<lparr>si_allocated = 10, si_capacity = 50\<rparr>] of Inr s \<Rightarrow> s)"

definition demo_granted :: Staging where
  "demo_granted = fst (Staging_reserve demo_staging 0 20)"

definition demo_permit :: StagingPermit where
  "demo_permit = \<lparr>sm_image = 0, sm_bytes = 20, sm_running = True\<rparr>"

lemmas staging_demo_simps = demo_staging_def Staging_new_def nchecked_add_def u64_max_def StagingUsage_new_def StagingUsage_update_def
  Let_def demo_granted_def Staging_reserve_def StagingUsage_admit_def saturating_add_def add_promise_def wrapping_add_def

lemma demo_granted_reach: "staging_reach demo_granted [demo_permit]"
proof -
  let ?p = "\<lparr>sm_image = 0, sm_bytes = 20, sm_running = False\<rparr>"
  have "staging_reach demo_staging []"
    by (rule staging_reach.new [of True "Inr ()" 100 "[\<lparr>si_allocated = 10, si_capacity = 50\<rparr>]"]) (simp_all add: staging_demo_simps)
  moreover have "Staging_reserve demo_staging 0 20 = (demo_granted, Inr ?p)" by (simp add: staging_demo_simps)
  ultimately have "staging_reach demo_granted [?p]" by (blast intro: staging_reach.step staging_step.reserve)
  moreover have "staging_step (demo_granted, [?p]) (demo_granted, StagingPermit_start ?p # remove1 ?p [?p])"
    by (rule staging_step.start) simp
  ultimately show ?thesis using staging_reach.step by (fastforce simp: StagingPermit_start_def demo_permit_def)
qed

theorem staging_accounts_permits_witness:
  "su_promised (st_host demo_granted) = 20 \<and> su_allocated (st_host demo_granted) = 10 \<and> promises [demo_permit] = 20"
  using staging_accounts_permits [OF demo_granted_reach] by (simp add: staging_demo_simps demo_permit_def)

theorem staging_receipt_exact_witness:
  "snd (StagingPermit_installed demo_granted demo_permit 30) = Inr () \<and>
   (\<exists>e. snd (StagingPermit_installed demo_granted demo_permit 31) = Inl e)"
proof -
  have d: "su_allocated (st_images demo_granted ! sm_image demo_permit) = 10" "\<not> st_failed demo_granted"
    "sm_running demo_permit" "sm_bytes demo_permit = 20"
    by (simp_all add: staging_demo_simps demo_permit_def)
  then show ?thesis
    using staging_receipt_exact [OF demo_granted_reach, of demo_permit 30] staging_receipt_exact [OF demo_granted_reach, of demo_permit 31]
    by (auto simp: prod_eq_iff)
qed

end
