(* ===== verification/Fetch_Registry.thy ===== *)
theory Fetch_Registry
  imports Budget Chunk_Index "HOL-Library.Multiset"
begin

text \<open>
  The single-flight table of cache fills, \<^verbatim>\<open>core/src/cache/fills.rs\<close>: one leader per hash in progress, waiters
  that share its cell. Cells and signals are addresses in a store, so that a leader, its table entry and its
  waiters refer to the same cell. The answers of the metadata budget and of \<^verbatim>\<open>eventfd\<close> are arguments, and
  the table's lookup and insertion are those of an association list. The registry lock and each
  cell lock bound an atomic step: publication is unlinking under the first, then completion under the second.
\<close>

section \<open>Cells\<close>

datatype 'v Phase = Pending | Ready 'v | Failed error

record 'v Completion =
  co_phase :: "'v Phase"
  co_signals :: "(nat \<times> nat) list"
  co_next_id :: nat

record FetchCounters =
  ct_started :: nat
  ct_joined :: nat
  ct_completed :: nat
  ct_failed :: nat

text \<open>
  The registry with the store it lives in. \<open>fr_signal s\<close> is the outcome of the notification of signal \<open>s\<close>, if it was notified.
\<close>

record 'v Registry =
  fr_entries :: "(hash \<times> nat) list"
  fr_capacity :: nat
  fr_counters :: FetchCounters
  fr_leaders :: Budget
  fr_waiters :: Budget
  fr_cells :: "nat \<Rightarrow> 'v Completion"
  fr_next_cell :: nat
  fr_signal :: "nat \<Rightarrow> unit result option"
  fr_next_signal :: nat

record Leader =
  ld_cell :: nat
  ld_hash :: hash
  ld_finished :: bool

record Waiter =
  wt_cell :: nat
  wt_signal :: nat
  wt_id :: nat

datatype Fetch = LookupLeader Leader | LookupWaiter Waiter

definition counter :: "nat \<Rightarrow> Budget" where
  "counter limit = Budget_new \<lparr>am_bytes = 0, am_requests = limit\<rparr>"

definition one_credit :: Amount where
  "one_credit = \<lparr>am_bytes = 0, am_requests = 1\<rparr>"

definition claim :: "Budget \<Rightarrow> Budget \<times> bool" where
  "claim b = Budget_claim b one_credit"

definition Registry_new :: "nat \<Rightarrow> nat \<Rightarrow> nat option \<Rightarrow> unit result \<Rightarrow> 'v Registry result" where
  "Registry_new leaders waiters table owner =
     (if leaders = 0 \<or> waiters = 0 then Inl (InvalidInput ''empty fetch capacity'')
      else attempt (ok_or table (OutOfMemory '''')) (\<lambda>capacity.
        attempt owner (\<lambda>_.
        Inr \<lparr>fr_entries = [], fr_capacity = capacity,
          fr_counters = \<lparr>ct_started = 0, ct_joined = 0, ct_completed = 0, ct_failed = 0\<rparr>,
          fr_leaders = counter leaders, fr_waiters = counter waiters,
          fr_cells = (\<lambda>_. \<lparr>co_phase = Pending, co_signals = [], co_next_id = 0\<rparr>), fr_next_cell = 0,
          fr_signal = (\<lambda>_. None), fr_next_signal = 0\<rparr>)))"

text \<open>
  Joining an existing fetch, and leading a new one. An error or an early return gives back the credit taken.
\<close>

definition join_fetch :: "unit result \<Rightarrow> bool \<Rightarrow> 'v Registry \<Rightarrow> nat \<Rightarrow> 'v Registry \<times> Fetch option result" where
  "join_fetch eventfd room fr cell =
     (case claim (fr_waiters fr) of
        (b, False) \<Rightarrow> (fr\<lparr>fr_waiters := b\<rparr>, Inr None)
      | (b, True) \<Rightarrow>
          let refund = fr\<lparr>fr_waiters := Budget_release b one_credit\<rparr>; completion = fr_cells fr cell; fid = co_next_id completion in
          (case attempt eventfd (\<lambda>_. attempt (ok_or (nchecked_add fid 1) (Other ''fetch waiter IDs exhausted'')) (\<lambda>next.
               ensure room (OutOfMemory '''') (Inr next))) of
             Inl e \<Rightarrow> (refund, Inl e)
           | Inr next \<Rightarrow>
               let signal = fr_next_signal fr; counters = fr_counters fr in
               (fr\<lparr>fr_waiters := b, fr_next_signal := signal + 1,
                   fr_cells := (fr_cells fr)(cell := completion\<lparr>co_signals := co_signals completion @ [(fid, signal)], co_next_id := next\<rparr>),
                   fr_counters := counters\<lparr>ct_joined := wrapping_add (ct_joined counters) 1\<rparr>\<rparr>,
                Inr (Some (LookupWaiter \<lparr>wt_cell = cell, wt_signal = signal, wt_id = fid\<rparr>)))))"

definition lead_fetch :: "unit result \<Rightarrow> 'v Registry \<Rightarrow> hash \<Rightarrow> 'v Registry \<times> Fetch option result" where
  "lead_fetch allocated fr hash =
     (case claim (fr_leaders fr) of
        (b, False) \<Rightarrow> (fr\<lparr>fr_leaders := b\<rparr>, Inr None)
      | (b, True) \<Rightarrow>
          (case allocated of
             Inl e \<Rightarrow> (fr\<lparr>fr_leaders := Budget_release b one_credit\<rparr>, Inl e)
           | Inr _ \<Rightarrow>
               if \<not> length (fr_entries fr) < fr_capacity fr
               then (fr\<lparr>fr_leaders := Budget_release b one_credit\<rparr>, Inl (Panic ''fetch table capacity reserved at startup''))
               else
                 let cell = fr_next_cell fr; counters = fr_counters fr in
                 (fr\<lparr>fr_leaders := b, fr_next_cell := cell + 1,
                     fr_cells := (fr_cells fr)(cell := \<lparr>co_phase = Pending, co_signals = [], co_next_id = 0\<rparr>),
                     fr_entries := (hash, cell) # fr_entries fr,
                     fr_counters := counters\<lparr>ct_started := wrapping_add (ct_started counters) 1\<rparr>\<rparr>,
                  Inr (Some (LookupLeader \<lparr>ld_cell = cell, ld_hash = hash, ld_finished = False\<rparr>)))))"

definition Registry_lookup :: "unit result \<Rightarrow> bool \<Rightarrow> unit result \<Rightarrow> 'v Registry \<Rightarrow> hash \<Rightarrow> 'v Registry \<times> Fetch option result" where
  "Registry_lookup eventfd room allocated fr hash =
     (case map_of (fr_entries fr) hash of
        Some cell \<Rightarrow> join_fetch eventfd room fr cell
      | None \<Rightarrow> lead_fetch allocated fr hash)"

section \<open>Publication\<close>

text \<open>
  \<^verbatim>\<open>Leader::finish\<close> up to the release of the registry lock, and from there on. Every drained signal is notified,
  and the last error is reported.
\<close>

definition finish_unlink :: "'v Registry \<Rightarrow> Leader \<Rightarrow> 'v Phase \<Rightarrow> ('v Registry \<times> Leader) result" where
  "finish_unlink fr l result =
     ensure (\<not> ld_finished l) (Panic ''one fetch publication'')
    (ensure ((ld_hash l, ld_cell l) \<in> set (fr_entries fr)) (Panic ''fetch leader lost its exact cell'')
       (let counters = fr_counters fr;
            counters = (case result of
                Ready _ \<Rightarrow> counters\<lparr>ct_completed := wrapping_add (ct_completed counters) 1\<rparr>
              | _ \<Rightarrow> counters\<lparr>ct_failed := wrapping_add (ct_failed counters) 1\<rparr>) in
        Inr (fr\<lparr>fr_entries := remove1 (ld_hash l, ld_cell l) (fr_entries fr), fr_counters := counters\<rparr>, l\<lparr>ld_finished := True\<rparr>)))"

fun notify_all :: "(nat \<Rightarrow> unit result) \<Rightarrow> (nat \<times> nat) list \<Rightarrow> (nat \<Rightarrow> unit result option) \<Rightarrow> unit result \<Rightarrow> (nat \<Rightarrow> unit result option) \<times> unit result" where
  "notify_all notify [] sent notified = (sent, notified)"
| "notify_all notify ((fid, signal) # signals) sent notified =
     notify_all notify signals (sent(signal := Some (notify signal)))
       (case notify signal of Inl e \<Rightarrow> Inl e | Inr _ \<Rightarrow> notified)"

definition finish_publish :: "(nat \<Rightarrow> unit result) \<Rightarrow> 'v Registry \<Rightarrow> Leader \<Rightarrow> 'v Phase \<Rightarrow> 'v Registry \<times> unit result" where
  "finish_publish notify fr l result =
     (let completion = fr_cells fr (ld_cell l);
          (sent, notified) = notify_all notify (co_signals completion) (fr_signal fr) (Inr ()) in
      (fr\<lparr>fr_cells := (fr_cells fr)(ld_cell l := completion\<lparr>co_phase := result, co_signals := []\<rparr>), fr_signal := sent\<rparr>, notified))"

text \<open>The credit of a leader is returned when it is dropped, after its publication.\<close>

definition Leader_release :: "'v Registry \<Rightarrow> 'v Registry" where
  "Leader_release fr = fr\<lparr>fr_leaders := Budget_release (fr_leaders fr) one_credit\<rparr>"

definition Leader_finish :: "(nat \<Rightarrow> unit result) \<Rightarrow> 'v Registry \<Rightarrow> Leader \<Rightarrow> 'v Phase \<Rightarrow> 'v Registry \<times> unit result" where
  "Leader_finish notify fr l result =
     (case finish_unlink fr l result of
        Inl e \<Rightarrow> (fr, Inl e)
      | Inr (fr, l) \<Rightarrow> finish_publish notify fr l result)"

definition Leader_complete :: "(nat \<Rightarrow> unit result) \<Rightarrow> 'v Registry \<Rightarrow> Leader \<Rightarrow> 'v \<Rightarrow> 'v Registry \<times> unit result" where
  "Leader_complete notify fr l v = (let (fr, r) = Leader_finish notify fr l (Ready v) in (Leader_release fr, r))"

definition Leader_fail :: "(nat \<Rightarrow> unit result) \<Rightarrow> 'v Registry \<Rightarrow> Leader \<Rightarrow> error \<Rightarrow> 'v Registry \<times> unit result" where
  "Leader_fail notify fr l e = (let (fr, r) = Leader_finish notify fr l (Failed e) in (Leader_release fr, r))"

definition Leader_drop :: "(nat \<Rightarrow> unit result) \<Rightarrow> 'v Registry \<Rightarrow> Leader \<Rightarrow> 'v Registry" where
  "Leader_drop notify fr l =
     Leader_release (if \<not> ld_finished l then fst (Leader_finish notify fr l (Failed (Interrupted ''''))) else fr)"

section \<open>Waiters\<close>

definition Waiter_poll :: "'v Registry \<Rightarrow> Waiter \<Rightarrow> 'v option result" where
  "Waiter_poll fr w = (case co_phase (fr_cells fr (wt_cell w)) of
      Pending \<Rightarrow> Inr None | Ready v \<Rightarrow> Inr (Some v) | Failed e \<Rightarrow> Inl e)"

text \<open>\<^verbatim>\<open>Vec::swap_remove\<close> puts the last element in the place of the removed one.\<close>

definition swap_remove :: "nat \<Rightarrow> 'a list \<Rightarrow> 'a list" where
  "swap_remove i xs = (if i = length xs - 1 then butlast xs else (butlast xs)[i := List.last xs])"

definition position :: "('a \<Rightarrow> bool) \<Rightarrow> 'a list \<Rightarrow> nat option" where
  "position P xs = find (\<lambda>i. P (xs ! i)) [0..<length xs]"

definition Waiter_unregister :: "'v Registry \<Rightarrow> Waiter \<Rightarrow> 'v Registry" where
  "Waiter_unregister fr w =
     (let completion = fr_cells fr (wt_cell w);
          signals = (case position (\<lambda>(fid, _). fid = wt_id w) (co_signals completion) of
              None \<Rightarrow> co_signals completion | Some i \<Rightarrow> swap_remove i (co_signals completion)) in
      fr\<lparr>fr_cells := (fr_cells fr)(wt_cell w := completion\<lparr>co_signals := signals\<rparr>)\<rparr>)"

definition Waiter_release :: "'v Registry \<Rightarrow> 'v Registry" where
  "Waiter_release fr = fr\<lparr>fr_waiters := Budget_release (fr_waiters fr) one_credit\<rparr>"

text \<open>\<^verbatim>\<open>Waiter::drop\<close>, then the drop of its credit.\<close>

definition Waiter_drop :: "'v Registry \<Rightarrow> Waiter \<Rightarrow> 'v Registry" where
  "Waiter_drop fr w = Waiter_release (Waiter_unregister fr w)"

section \<open>Interleavings\<close>

text \<open>
  Leaders before and after unlinking, and waiters. \<open>fw_leaving\<close> and \<open>fw_departing\<close> count the leaders and waiters whose
  credits are still to be returned.
\<close>

record 'v FetchWorld =
  fw_registry :: "'v Registry"
  fw_leading :: "Leader list"
  fw_publishing :: "(Leader \<times> 'v Phase) list"
  fw_leaving :: nat
  fw_waiters :: "Waiter list"
  fw_departing :: nat

inductive fetch_step :: "'v FetchWorld \<Rightarrow> 'v FetchWorld \<Rightarrow> bool" where
  lead: "Registry_lookup eventfd room allocated (fw_registry w) hash = (fr, Inr (Some (LookupLeader l))) \<Longrightarrow>
    fetch_step w (w\<lparr>fw_registry := fr, fw_leading := l # fw_leading w\<rparr>)"
| join: "Registry_lookup eventfd room allocated (fw_registry w) hash = (fr, Inr (Some (LookupWaiter x))) \<Longrightarrow>
    fetch_step w (w\<lparr>fw_registry := fr, fw_waiters := x # fw_waiters w\<rparr>)"
| refuse: "Registry_lookup eventfd room allocated (fw_registry w) hash = (fr, r) \<Longrightarrow> r = Inr None \<or> r = Inl e \<Longrightarrow>
    fetch_step w (w\<lparr>fw_registry := fr\<rparr>)"
| unlink: "l \<in> set (fw_leading w) \<Longrightarrow> result \<noteq> Pending \<Longrightarrow> finish_unlink (fw_registry w) l result = Inr (fr, l') \<Longrightarrow>
    fetch_step w (w\<lparr>fw_registry := fr, fw_leading := remove1 l (fw_leading w), fw_publishing := (l', result) # fw_publishing w\<rparr>)"
| publish: "(l, result) \<in> set (fw_publishing w) \<Longrightarrow> finish_publish notify (fw_registry w) l result = (fr, r) \<Longrightarrow>
    fetch_step w (w\<lparr>fw_registry := fr, fw_publishing := remove1 (l, result) (fw_publishing w), fw_leaving := fw_leaving w + 1\<rparr>)"
| release: "0 < fw_leaving w \<Longrightarrow>
    fetch_step w (w\<lparr>fw_registry := Leader_release (fw_registry w), fw_leaving := fw_leaving w - 1\<rparr>)"
| unregister: "x \<in> set (fw_waiters w) \<Longrightarrow>
    fetch_step w (w\<lparr>fw_registry := Waiter_unregister (fw_registry w) x, fw_waiters := remove1 x (fw_waiters w),
      fw_departing := fw_departing w + 1\<rparr>)"
| depart: "0 < fw_departing w \<Longrightarrow>
    fetch_step w (w\<lparr>fw_registry := Waiter_release (fw_registry w), fw_departing := fw_departing w - 1\<rparr>)"

text \<open>A table reserved for \<open>leaders\<close> entries has at least that capacity.\<close>

inductive fetch_reach :: "'v FetchWorld \<Rightarrow> bool" where
  new: "Registry_new leaders waiters (Some capacity) owner = Inr fr \<Longrightarrow> leaders \<le> capacity \<Longrightarrow>
    leaders \<le> u64_max \<Longrightarrow> waiters \<le> u64_max \<Longrightarrow>
    fetch_reach \<lparr>fw_registry = fr, fw_leading = [], fw_publishing = [], fw_leaving = 0, fw_waiters = [], fw_departing = 0\<rparr>"
| step: "fetch_reach w \<Longrightarrow> fetch_step w w' \<Longrightarrow> fetch_reach w'"

section \<open>Credits\<close>

text \<open>A pool of which \<open>n\<close> single credits are out.\<close>

definition credits :: "Budget \<Rightarrow> nat \<Rightarrow> bool" where
  "credits b n \<longleftrightarrow> Budget_ok b \<and> current b = \<lparr>am_bytes = 0, am_requests = n\<rparr>"

abbreviation credit_limit :: "Budget \<Rightarrow> nat" where
  "credit_limit b \<equiv> am_requests (bu_limit b)"

lemma credits_counter: "n \<le> u64_max \<Longrightarrow> credits (counter n) 0" "credit_limit (counter n) = n"
  by (auto simp: credits_def counter_def Budget_new_def Budget_ok_def within_def Amount_default_def)

lemma credits_claim:
  assumes "credits b n" and "claim b = (b', ok)"
  shows "ok \<longleftrightarrow> n < credit_limit b" and "credits b' (if ok then n + 1 else n)" and "credit_limit b' = credit_limit b"
  using assms Budget_claim_spec [of b one_credit b' ok]
  by (auto simp: credits_def claim_def one_credit_def within_def plus_amount_def split: if_splits)

lemma credits_release:
  assumes "credits b (n + 1)"
  shows "credits (Budget_release b one_credit) n" and "credit_limit (Budget_release b one_credit) = credit_limit b"
proof -
  have "Budget_ok b" "within one_credit (current b)" using assms by (auto simp: credits_def one_credit_def within_def)
  note r = Budget_release_spec [OF this]
  show "credits (Budget_release b one_credit) n"
    using r(1,2) assms by (cases "current (Budget_release b one_credit)") (auto simp: credits_def one_credit_def plus_amount_def)
  show "credit_limit (Budget_release b one_credit) = credit_limit b" using r(3) by simp
qed

lemma credits_bound: "credits b n \<Longrightarrow> n \<le> credit_limit b"
  by (auto simp: credits_def Budget_ok_def within_def)

section \<open>Invariant\<close>

definition link :: "Leader \<Rightarrow> hash \<times> nat" where
  "link l = (ld_hash l, ld_cell l)"

definition active :: "'v FetchWorld \<Rightarrow> nat list" where
  "active w = map ld_cell (fw_leading w) @ map (\<lambda>p. ld_cell (fst p)) (fw_publishing w)"

definition table_inv :: "(hash \<times> nat) list \<Rightarrow> Leader list \<Rightarrow> bool" where
  "table_inv entries ls \<longleftrightarrow> distinct (map fst entries) \<and> mset entries = mset (map link ls) \<and> (\<forall>l \<in> set ls. \<not> ld_finished l)"

definition cells_inv :: "'v Registry \<Rightarrow> nat list \<Rightarrow> bool" where
  "cells_inv fr act \<longleftrightarrow> distinct act \<and> (\<forall>c \<in> set act. c < fr_next_cell fr \<and> co_phase (fr_cells fr c) = Pending) \<and>
     (\<forall>c < fr_next_cell fr. c \<notin> set act \<longrightarrow> co_phase (fr_cells fr c) \<noteq> Pending \<and> co_signals (fr_cells fr c) = [])"

definition waiter_inv :: "'v Registry \<Rightarrow> nat list \<Rightarrow> Waiter \<Rightarrow> bool" where
  "waiter_inv fr act x \<longleftrightarrow> wt_cell x < fr_next_cell fr \<and> wt_id x < co_next_id (fr_cells fr (wt_cell x)) \<and>
     (if wt_cell x \<in> set act then (wt_id x, wt_signal x) \<in> set (co_signals (fr_cells fr (wt_cell x)))
      else fr_signal fr (wt_signal x) \<noteq> None)"

definition waiters_inv :: "'v Registry \<Rightarrow> nat list \<Rightarrow> Waiter list \<Rightarrow> bool" where
  "waiters_inv fr act xs \<longleftrightarrow> distinct (map (\<lambda>x. (wt_cell x, wt_id x)) xs) \<and> (\<forall>x \<in> set xs. waiter_inv fr act x)"

definition credits_inv :: "'v Registry \<Rightarrow> nat \<Rightarrow> nat \<Rightarrow> bool" where
  "credits_inv fr n m \<longleftrightarrow> credits (fr_leaders fr) n \<and> credits (fr_waiters fr) m \<and> credit_limit (fr_leaders fr) \<le> fr_capacity fr"

definition fetch_inv :: "'v FetchWorld \<Rightarrow> bool" where
  "fetch_inv w \<longleftrightarrow> table_inv (fr_entries (fw_registry w)) (fw_leading w) \<and> cells_inv (fw_registry w) (active w) \<and>
     waiters_inv (fw_registry w) (active w) (fw_waiters w) \<and> (\<forall>p \<in> set (fw_publishing w). snd p \<noteq> Pending) \<and>
     credits_inv (fw_registry w) (length (fw_leading w) + length (fw_publishing w) + fw_leaving w)
       (length (fw_waiters w) + fw_departing w)"

lemma table_inv_find:
  assumes "table_inv entries ls"
  shows "map_of entries h = Some c \<longleftrightarrow> (\<exists>l \<in> set ls. link l = (h, c))" and "length entries = length ls"
proof -
  have dist: "distinct (map fst entries)" and m: "mset entries = mset (map link ls)" using assms by (simp_all add: table_inv_def)
  have "set entries = link ` set ls" using mset_eq_setD [OF m] by simp
  then show "map_of entries h = Some c \<longleftrightarrow> (\<exists>l \<in> set ls. link l = (h, c))"
    unfolding map_of_eq_Some_iff [OF dist] by force
  show "length entries = length ls" using mset_eq_length [OF m] by simp
qed

lemma table_inv_lead: "table_inv entries ls \<Longrightarrow> map_of entries h = None \<Longrightarrow> \<not> ld_finished l \<Longrightarrow> link l = (h, c) \<Longrightarrow>
    table_inv ((h, c) # entries) (l # ls)"
  by (auto simp: table_inv_def map_of_eq_None_iff)

lemma table_inv_unlink:
  assumes "table_inv entries ls" and "l \<in> set ls"
  shows "link l \<in> set entries" and "table_inv (remove1 (link l) entries) (remove1 l ls)"
proof -
  have m: "mset entries = mset (map link ls)" using assms by (simp add: table_inv_def)
  have "set entries = link ` set ls" using mset_eq_setD [OF m] by simp
  then show "link l \<in> set entries" using assms(2) by simp
  have "mset ls = add_mset l (mset (remove1 l ls))" using assms(2) by simp
  then have "mset (remove1 (link l) entries) = mset (map link (remove1 l ls))"
    using m by (metis add_mset_remove_trivial image_mset_add_mset mset_map mset_remove1)
  moreover have "distinct (map fst (remove1 x xs))" if "distinct (map fst xs)" for x and xs :: "(hash \<times> nat) list"
    using that
  proof (induction xs)
    case (Cons y ys)
    have "fst ` set (remove1 x ys) \<subseteq> fst ` set ys" by (rule image_mono [OF set_remove1_subset])
    then show ?case using Cons by auto
  qed simp
  ultimately show "table_inv (remove1 (link l) entries) (remove1 l ls)"
    using assms by (auto simp: table_inv_def simp del: mset_remove1 mset_map dest: notin_set_remove1)
qed

text \<open>Changes of the registry that concern neither cells nor signals.\<close>

lemma same_cells:
  assumes "fr_cells fr' = fr_cells fr" "fr_next_cell fr' = fr_next_cell fr" "fr_signal fr' = fr_signal fr"
  shows "cells_inv fr' act = cells_inv fr act" and "waiters_inv fr' act xs = waiters_inv fr act xs"
  using assms by (simp_all add: cells_inv_def waiters_inv_def waiter_inv_def)

lemma notify_all_sent: "fst (notify_all notify signals sent notified) s = (if s \<in> snd ` set signals then Some (notify s) else sent s)"
proof (induction signals arbitrary: sent notified)
  case (Cons p signals)
  then show ?case by (cases p; cases "s \<in> snd ` set signals") auto
qed simp

lemma swap_remove_keeps:
  assumes "i < length xs" and "y \<in> set xs" and "y \<noteq> xs ! i"
  shows "y \<in> set (swap_remove i xs)"
proof -
  obtain j where j: "j < length xs" "y = xs ! j" using assms(2) by (auto simp: in_set_conv_nth)
  have ne: "xs \<noteq> []" using assms(1) by auto
  show ?thesis
  proof (cases "j = length xs - 1")
    case True
    then have "y = List.last xs" "i \<noteq> length xs - 1" using j assms(3) ne by (auto simp: last_conv_nth)
    then show ?thesis using assms(1) ne by (simp add: swap_remove_def set_update_memI)
  next
    case False
    then have "j < length (butlast xs)" using j by simp
    moreover have "j \<noteq> i" using j assms(3) by auto
    ultimately have "swap_remove i xs ! j = y" "j < length (swap_remove i xs)"
      using j by (auto simp: swap_remove_def nth_butlast)
    then show ?thesis by (metis nth_mem)
  qed
qed

lemma position_Some: "position P xs = Some i \<Longrightarrow> i < length xs \<and> P (xs ! i)"
  by (auto simp: position_def find_Some_iff)

lemma unregister_keeps:
  assumes "(fid, s) \<in> set (co_signals (fr_cells fr c))" and "(c, fid) \<noteq> (wt_cell x, wt_id x)"
  shows "(fid, s) \<in> set (co_signals (fr_cells (Waiter_unregister fr x) c))"
proof (cases "c = wt_cell x")
  case True
  then have "fid \<noteq> wt_id x" using assms(2) by simp
  then show ?thesis
    using assms(1) True
    by (auto simp: Waiter_unregister_def Let_def split: option.splits dest!: position_Some intro!: swap_remove_keeps)
qed (use assms in \<open>simp add: Waiter_unregister_def Let_def\<close>)

lemma unregister_parts [simp]:
  "co_phase (fr_cells (Waiter_unregister fr x) c) = co_phase (fr_cells fr c)"
  "co_next_id (fr_cells (Waiter_unregister fr x) c) = co_next_id (fr_cells fr c)"
  "fr_next_cell (Waiter_unregister fr x) = fr_next_cell fr" "fr_signal (Waiter_unregister fr x) = fr_signal fr"
  "fr_entries (Waiter_unregister fr x) = fr_entries fr" "fr_leaders (Waiter_unregister fr x) = fr_leaders fr"
  "fr_waiters (Waiter_unregister fr x) = fr_waiters fr" "fr_capacity (Waiter_unregister fr x) = fr_capacity fr"
  by (simp_all add: Waiter_unregister_def Let_def)

lemma unregister_empty: "co_signals (fr_cells fr c) = [] \<Longrightarrow> co_signals (fr_cells (Waiter_unregister fr x) c) = []"
  by (auto simp: Waiter_unregister_def Let_def position_def)

section \<open>Preservation\<close>

lemma lookup_Leader:
  assumes "Registry_lookup eventfd room allocated fr hash = (fr', Inr (Some (LookupLeader l)))"
  obtains b where "map_of (fr_entries fr) hash = None" and "claim (fr_leaders fr) = (b, True)"
    and "l = \<lparr>ld_cell = fr_next_cell fr, ld_hash = hash, ld_finished = False\<rparr>"
    and "fr' = fr\<lparr>fr_leaders := b, fr_next_cell := fr_next_cell fr + 1,
      fr_cells := (fr_cells fr)(fr_next_cell fr := \<lparr>co_phase = Pending, co_signals = [], co_next_id = 0\<rparr>),
      fr_entries := (hash, fr_next_cell fr) # fr_entries fr,
      fr_counters := (fr_counters fr)\<lparr>ct_started := wrapping_add (ct_started (fr_counters fr)) 1\<rparr>\<rparr>"
proof -
  obtain b ok where c: "claim (fr_leaders fr) = (b, ok)" by (cases "claim (fr_leaders fr)")
  have "map_of (fr_entries fr) hash = None"
    using assms by (auto simp: Registry_lookup_def join_fetch_def Let_def split: option.splits prod.splits bool.splits sum.splits)
  then show thesis
    using assms c by (intro that [of b])
      (auto simp: Registry_lookup_def lead_fetch_def Let_def split: bool.splits sum.splits if_splits)
qed

lemma lookup_Waiter:
  assumes "Registry_lookup eventfd room allocated fr hash = (fr', Inr (Some (LookupWaiter x)))"
  obtains b c where "map_of (fr_entries fr) hash = Some c" and "claim (fr_waiters fr) = (b, True)"
    and "x = \<lparr>wt_cell = c, wt_signal = fr_next_signal fr, wt_id = co_next_id (fr_cells fr c)\<rparr>"
    and "fr' = fr\<lparr>fr_waiters := b, fr_next_signal := fr_next_signal fr + 1,
      fr_cells := (fr_cells fr)(c := (fr_cells fr c)\<lparr>
        co_signals := co_signals (fr_cells fr c) @ [(co_next_id (fr_cells fr c), fr_next_signal fr)],
        co_next_id := co_next_id (fr_cells fr c) + 1\<rparr>),
      fr_counters := (fr_counters fr)\<lparr>ct_joined := wrapping_add (ct_joined (fr_counters fr)) 1\<rparr>\<rparr>"
proof -
  obtain c where m: "map_of (fr_entries fr) hash = Some c"
    using assms by (auto simp: Registry_lookup_def lead_fetch_def Let_def split: option.splits prod.splits bool.splits sum.splits if_splits)
  obtain b ok where cl: "claim (fr_waiters fr) = (b, ok)" by (cases "claim (fr_waiters fr)")
  show thesis
    using assms m cl by (intro that [of c b])
      (auto simp: Registry_lookup_def join_fetch_def Let_def split: bool.splits sum.splits)
qed

lemma lookup_refused:
  assumes "credits_inv fr n m" and "length (fr_entries fr) \<le> n"
    and "Registry_lookup eventfd room allocated fr hash = (fr', r)" and "r = Inr None \<or> r = Inl e"
  shows "credits_inv fr' n m" and "fr_entries fr' = fr_entries fr" and "fr_cells fr' = fr_cells fr"
    and "fr_next_cell fr' = fr_next_cell fr" and "fr_signal fr' = fr_signal fr"
proof -
  obtain b ok where l: "claim (fr_leaders fr) = (b, ok)" by (cases "claim (fr_leaders fr)")
  obtain b' ok' where w: "claim (fr_waiters fr) = (b', ok')" by (cases "claim (fr_waiters fr)")
  have c: "credits (fr_leaders fr) n" "credits (fr_waiters fr) m" using assms(1) by (simp_all add: credits_inv_def)
  note lc = credits_claim [OF c(1) l] and wc = credits_claim [OF c(2) w]
  have "fr' = fr\<lparr>fr_waiters := if ok' then Budget_release b' one_credit else b'\<rparr> \<or>
      fr' = fr\<lparr>fr_leaders := if ok then Budget_release b one_credit else b\<rparr>"
    using assms(3,4) l w by (auto simp: Registry_lookup_def join_fetch_def lead_fetch_def Let_def
        split: option.splits bool.splits sum.splits if_splits)
  then show "credits_inv fr' n m" "fr_entries fr' = fr_entries fr" "fr_cells fr' = fr_cells fr"
    "fr_next_cell fr' = fr_next_cell fr" "fr_signal fr' = fr_signal fr"
    using assms(1) lc wc credits_release [of b n] credits_release [of b' m] by (auto simp: credits_inv_def split: if_splits)
qed

lemma active_cells_inv: "mset act = mset act' \<Longrightarrow> cells_inv fr act = cells_inv fr act'"
    "mset act = mset act' \<Longrightarrow> waiters_inv fr act xs = waiters_inv fr act' xs"
  using mset_eq_setD [of act act'] mset_eq_imp_distinct_iff [of act act']
  by (auto simp: cells_inv_def waiters_inv_def waiter_inv_def)

lemma fetch_step_lead:
  assumes "fetch_inv w" and "Registry_lookup eventfd room allocated (fw_registry w) hash = (fr, Inr (Some (LookupLeader l)))"
  shows "fetch_inv (w\<lparr>fw_registry := fr, fw_leading := l # fw_leading w\<rparr>)"
proof -
  let ?fr = "fw_registry w" and ?w = "w\<lparr>fw_registry := fr, fw_leading := l # fw_leading w\<rparr>"
  obtain b where n: "map_of (fr_entries ?fr) hash = None" and c: "claim (fr_leaders ?fr) = (b, True)"
    and l: "l = \<lparr>ld_cell = fr_next_cell ?fr, ld_hash = hash, ld_finished = False\<rparr>"
    and fr: "fr = ?fr\<lparr>fr_leaders := b, fr_next_cell := fr_next_cell ?fr + 1,
      fr_cells := (fr_cells ?fr)(fr_next_cell ?fr := \<lparr>co_phase = Pending, co_signals = [], co_next_id = 0\<rparr>),
      fr_entries := (hash, fr_next_cell ?fr) # fr_entries ?fr,
      fr_counters := (fr_counters ?fr)\<lparr>ct_started := wrapping_add (ct_started (fr_counters ?fr)) 1\<rparr>\<rparr>"
    by (rule lookup_Leader [OF assms(2)])
  have act: "active ?w = fr_next_cell ?fr # active w" by (simp add: active_def l)
  have ci: "cells_inv ?fr (active w)" "waiters_inv ?fr (active w) (fw_waiters w)" using assms(1) by (auto simp: fetch_inv_def)
  have "table_inv (fr_entries fr) (l # fw_leading w)"
    using assms(1) n table_inv_lead [of "fr_entries ?fr" "fw_leading w" hash l] by (simp add: fetch_inv_def fr l link_def)
  moreover have "cells_inv fr (active ?w)"
    using ci(1) unfolding act by (auto simp: cells_inv_def fr less_Suc_eq)
  moreover have "waiters_inv fr (active ?w) (fw_waiters w)"
    using ci(2) unfolding act by (auto simp: waiters_inv_def waiter_inv_def fr less_Suc_eq)
  moreover have "credits_inv fr (length (l # fw_leading w) + length (fw_publishing w) + fw_leaving w) (length (fw_waiters w) + fw_departing w)"
    using assms(1) credits_claim [OF _ c] by (auto simp: fetch_inv_def credits_inv_def fr)
  ultimately show ?thesis using assms(1) by (simp add: fetch_inv_def)
qed

lemma fetch_step_join:
  assumes "fetch_inv w" and "Registry_lookup eventfd room allocated (fw_registry w) hash = (fr, Inr (Some (LookupWaiter x)))"
  shows "fetch_inv (w\<lparr>fw_registry := fr, fw_waiters := x # fw_waiters w\<rparr>)"
proof -
  let ?fr = "fw_registry w" and ?w = "w\<lparr>fw_registry := fr, fw_waiters := x # fw_waiters w\<rparr>"
  obtain b c where m: "map_of (fr_entries ?fr) hash = Some c" and cl: "claim (fr_waiters ?fr) = (b, True)"
    and x: "x = \<lparr>wt_cell = c, wt_signal = fr_next_signal ?fr, wt_id = co_next_id (fr_cells ?fr c)\<rparr>"
    and fr: "fr = ?fr\<lparr>fr_waiters := b, fr_next_signal := fr_next_signal ?fr + 1,
      fr_cells := (fr_cells ?fr)(c := (fr_cells ?fr c)\<lparr>
        co_signals := co_signals (fr_cells ?fr c) @ [(co_next_id (fr_cells ?fr c), fr_next_signal ?fr)],
        co_next_id := co_next_id (fr_cells ?fr c) + 1\<rparr>),
      fr_counters := (fr_counters ?fr)\<lparr>ct_joined := wrapping_add (ct_joined (fr_counters ?fr)) 1\<rparr>\<rparr>"
    by (rule lookup_Waiter [OF assms(2)])
  have act: "active ?w = active w" by (simp add: active_def)
  have ci: "cells_inv ?fr (active w)" "waiters_inv ?fr (active w) (fw_waiters w)" using assms(1) by (auto simp: fetch_inv_def)
  have "c \<in> set (active w)"
    using assms(1) m table_inv_find(1) [of "fr_entries ?fr" "fw_leading w" hash c] by (auto simp: fetch_inv_def active_def link_def)
  then have "cells_inv fr (active ?w)" and "waiters_inv fr (active ?w) (x # fw_waiters w)"
    using ci unfolding act by (auto simp: cells_inv_def waiters_inv_def waiter_inv_def fr x less_Suc_eq)
  moreover have "credits_inv fr (length (fw_leading w) + length (fw_publishing w) + fw_leaving w) (length (x # fw_waiters w) + fw_departing w)"
    using assms(1) credits_claim [OF _ cl] by (auto simp: fetch_inv_def credits_inv_def fr)
  ultimately show ?thesis using assms(1) by (simp add: fetch_inv_def fr)
qed

lemma fetch_step_unlink:
  assumes "fetch_inv w" and "l \<in> set (fw_leading w)" and "result \<noteq> Pending" and "finish_unlink (fw_registry w) l result = Inr (fr, l')"
  shows "fetch_inv (w\<lparr>fw_registry := fr, fw_leading := remove1 l (fw_leading w), fw_publishing := (l', result) # fw_publishing w\<rparr>)"
proof -
  let ?fr = "fw_registry w" and ?w = "w\<lparr>fw_registry := fr, fw_leading := remove1 l (fw_leading w), fw_publishing := (l', result) # fw_publishing w\<rparr>"
  have fr: "fr_entries fr = remove1 (link l) (fr_entries ?fr)" "fr_cells fr = fr_cells ?fr" "fr_next_cell fr = fr_next_cell ?fr"
    "fr_signal fr = fr_signal ?fr" "fr_leaders fr = fr_leaders ?fr" "fr_waiters fr = fr_waiters ?fr" "fr_capacity fr = fr_capacity ?fr"
    and l': "ld_cell l' = ld_cell l"
    using assms(4) by (auto simp: finish_unlink_def Let_def link_def)
  have ms: "mset (fw_leading w) = add_mset l (mset (remove1 l (fw_leading w)))" using assms(2) by simp
  have "mset (map ld_cell (fw_leading w)) = add_mset (ld_cell l) (mset (map ld_cell (remove1 l (fw_leading w))))"
    by (simp only: mset_map ms image_mset_add_mset)
  then have "mset (active ?w) = mset (active w)"
    by (simp add: active_def l' del: mset_remove1 mset_map)
  note act = active_cells_inv [OF this]
  have "length (fw_leading w) = Suc (length (remove1 l (fw_leading w)))" using arg_cong [OF ms, of size] by (simp del: mset_remove1)
  then show ?thesis
    using assms(1,3) act same_cells [of fr ?fr, OF fr(2-4)] table_inv_unlink(2) [OF _ assms(2)]
    by (auto simp: fetch_inv_def credits_inv_def fr)
qed

lemma fetch_step_publish:
  assumes "fetch_inv w" and "(l, result) \<in> set (fw_publishing w)" and "finish_publish notify (fw_registry w) l result = (fr, r)"
  shows "fetch_inv (w\<lparr>fw_registry := fr, fw_publishing := remove1 (l, result) (fw_publishing w), fw_leaving := fw_leaving w + 1\<rparr>)"
proof -
  let ?fr = "fw_registry w" and ?c = "ld_cell l"
    and ?w = "w\<lparr>fw_registry := fr, fw_publishing := remove1 (l, result) (fw_publishing w), fw_leaving := fw_leaving w + 1\<rparr>"
  define sent where "sent = fst (notify_all notify (co_signals (fr_cells ?fr ?c)) (fr_signal ?fr) (Inr ()))"
  have fr: "fr = ?fr\<lparr>fr_cells := (fr_cells ?fr)(?c := (fr_cells ?fr ?c)\<lparr>co_phase := result, co_signals := []\<rparr>), fr_signal := sent\<rparr>"
    using assms(3) by (auto simp: finish_publish_def sent_def Let_def split: prod.splits)
  have s: "sent s = (if s \<in> snd ` set (co_signals (fr_cells ?fr ?c)) then Some (notify s) else fr_signal ?fr s)" for s
    unfolding sent_def by (rule notify_all_sent)
  have ms: "mset (fw_publishing w) = add_mset (l, result) (mset (remove1 (l, result) (fw_publishing w)))" using assms(2) by simp
  have len: "length (fw_publishing w) = Suc (length (remove1 (l, result) (fw_publishing w)))"
    using arg_cong [OF ms, of size] by (simp del: mset_remove1)
  have "mset (active w) = mset (?c # active ?w)"
    by (simp add: active_def del: mset_remove1) (simp only: ms image_mset_add_mset, simp)
  note act = active_cells_inv [OF this]
  have ci: "cells_inv ?fr (?c # active ?w)" "waiters_inv ?fr (?c # active ?w) (fw_waiters w)"
    using assms(1) act unfolding fetch_inv_def by blast+
  have r: "result \<noteq> Pending" using assms(1,2) by (auto simp: fetch_inv_def)
  have "cells_inv fr (active ?w)"
    using ci(1) r by (auto simp: cells_inv_def fr)
  moreover have "waiters_inv fr (active ?w) (fw_waiters w)"
  proof -
    have c: "?c \<notin> set (active ?w)" using ci(1) by (simp add: cells_inv_def)
    have "waiter_inv fr (active ?w) x" if x: "waiter_inv ?fr (?c # active ?w) x" for x
    proof (cases "wt_cell x = ?c")
      case True
      then have "(wt_id x, wt_signal x) \<in> set (co_signals (fr_cells ?fr ?c))" using x by (simp add: waiter_inv_def)
      then have "wt_signal x \<in> snd ` set (co_signals (fr_cells ?fr ?c))" by force
      then show ?thesis using x True c by (simp add: waiter_inv_def fr s)
    next
      case False
      then show ?thesis using x by (auto simp: waiter_inv_def fr s split: if_splits)
    qed
    then show ?thesis using ci(2) by (simp add: waiters_inv_def)
  qed
  moreover have "credits_inv fr (length (fw_leading ?w) + length (fw_publishing ?w) + fw_leaving ?w) (length (fw_waiters w) + fw_departing w)"
    using assms(1) len by (simp add: fetch_inv_def credits_inv_def fr)
  ultimately show ?thesis
    using assms(1) by (auto simp: fetch_inv_def fr dest: notin_set_remove1)
qed

lemma fetch_step_unregister:
  assumes "fetch_inv w" and "x \<in> set (fw_waiters w)"
  shows "fetch_inv (w\<lparr>fw_registry := Waiter_unregister (fw_registry w) x, fw_waiters := remove1 x (fw_waiters w),
      fw_departing := fw_departing w + 1\<rparr>)"
proof -
  let ?fr = "fw_registry w" and ?xs = "remove1 x (fw_waiters w)"
  have act: "active (w\<lparr>fw_registry := r, fw_waiters := ys, fw_departing := n\<rparr>) = active w" for r ys n by (simp add: active_def)
  have ci: "cells_inv ?fr (active w)" "waiters_inv ?fr (active w) (fw_waiters w)" using assms(1) by (auto simp: fetch_inv_def)
  have "cells_inv (Waiter_unregister ?fr x) (active w)" using ci(1) by (auto simp: cells_inv_def intro: unregister_empty)
  moreover have "waiters_inv (Waiter_unregister ?fr x) (active w) ?xs"
  proof -
    let ?f = "\<lambda>x. (wt_cell x, wt_id x)"
    have d: "distinct (map ?f (fw_waiters w))" using ci(2) by (simp add: waiters_inv_def)
    then have dx: "distinct (fw_waiters w)" and inj: "inj_on ?f (set (fw_waiters w))" by (auto simp: distinct_map)
    have "distinct (map ?f ?xs)" using d dx by (auto simp: distinct_map inj_on_def dest: notin_set_remove1)
    moreover have "waiter_inv (Waiter_unregister ?fr x) (active w) y" if "y \<in> set ?xs" for y
    proof -
      have y: "y \<in> set (fw_waiters w)" "y \<noteq> x" using that dx by (auto dest: notin_set_remove1)
      then have "?f y \<noteq> ?f x" using inj assms(2) by (auto simp: inj_on_def)
      then show ?thesis
        using ci(2) y(1) unregister_keeps [of "wt_id y" "wt_signal y" ?fr "wt_cell y" x] by (auto simp: waiters_inv_def waiter_inv_def)
    qed
    ultimately show ?thesis by (simp add: waiters_inv_def)
  qed
  moreover have "length (fw_waiters w) = Suc (length ?xs)" using length_pos_if_in_set [OF assms(2)] assms(2) by (simp add: length_remove1)
  ultimately show ?thesis using assms(1) by (simp add: fetch_inv_def act credits_inv_def)
qed

lemma fetch_step_inv: "fetch_step w w' \<Longrightarrow> fetch_inv w \<Longrightarrow> fetch_inv w'"
proof (induction rule: fetch_step.induct)
  case (refuse eventfd room allocated w hash fr r e)
  have "length (fr_entries (fw_registry w)) \<le> length (fw_leading w) + length (fw_publishing w) + fw_leaving w"
    using refuse.prems table_inv_find(2) by (fastforce simp: fetch_inv_def)
  moreover have "credits_inv (fw_registry w) (length (fw_leading w) + length (fw_publishing w) + fw_leaving w)
      (length (fw_waiters w) + fw_departing w)" using refuse.prems by (simp add: fetch_inv_def)
  ultimately have r: "credits_inv fr (length (fw_leading w) + length (fw_publishing w) + fw_leaving w) (length (fw_waiters w) + fw_departing w)"
    "fr_entries fr = fr_entries (fw_registry w)" "fr_cells fr = fr_cells (fw_registry w)"
    "fr_next_cell fr = fr_next_cell (fw_registry w)" "fr_signal fr = fr_signal (fw_registry w)"
    using lookup_refused [OF _ _ refuse.hyps] by blast+
  have "active (w\<lparr>fw_registry := fr\<rparr>) = active w" by (simp add: active_def)
  then show ?case
    using refuse.prems r(1,2) same_cells [of fr "fw_registry w", OF r(3-5)] by (simp add: fetch_inv_def)
next
  case (release w)
  obtain n where n: "fw_leaving w = n + 1" using release.hyps by (metis Suc_eq_plus1 gr0_implies_Suc)
  have "active (w\<lparr>fw_registry := r, fw_leaving := k\<rparr>) = active w" for r k by (simp add: active_def)
  then show ?case
    using release.prems credits_release [of "fr_leaders (fw_registry w)" "length (fw_leading w) + length (fw_publishing w) + n"]
      same_cells [of "Leader_release (fw_registry w)" "fw_registry w"]
    by (simp add: fetch_inv_def n Leader_release_def credits_inv_def)
next
  case (depart w)
  obtain n where n: "fw_departing w = n + 1" using depart.hyps by (metis Suc_eq_plus1 gr0_implies_Suc)
  have "active (w\<lparr>fw_registry := r, fw_departing := k\<rparr>) = active w" for r k by (simp add: active_def)
  then show ?case
    using depart.prems credits_release [of "fr_waiters (fw_registry w)" "length (fw_waiters w) + n"]
      same_cells [of "Waiter_release (fw_registry w)" "fw_registry w"]
    by (simp add: fetch_inv_def n Waiter_release_def credits_inv_def)
qed (rule fetch_step_lead fetch_step_join fetch_step_unlink fetch_step_publish fetch_step_unregister; assumption)+

lemma fetch_reach_inv: "fetch_reach w \<Longrightarrow> fetch_inv w"
proof (induction rule: fetch_reach.induct)
  case (new leaders waiters capacity owner fr)
  then show ?case
    by (auto simp: Registry_new_def fetch_inv_def table_inv_def cells_inv_def waiters_inv_def credits_inv_def active_def
        credits_counter split: if_splits)
next
  case (step w w')
  then show ?case by (blast intro: fetch_step_inv)
qed

text \<open>A completed cell never changes again.\<close>

lemma fetch_step_phase:
  assumes "fetch_step w w'" and "fetch_inv w" and "c < fr_next_cell (fw_registry w)"
    and "co_phase (fr_cells (fw_registry w) c) \<noteq> Pending"
  shows "c < fr_next_cell (fw_registry w') \<and> co_phase (fr_cells (fw_registry w') c) = co_phase (fr_cells (fw_registry w) c)"
  using assms
proof (induction rule: fetch_step.induct)
  case (lead eventfd room allocated w hash fr l)
  then show ?case by (elim lookup_Leader) simp
next
  case (join eventfd room allocated w hash fr x)
  then show ?case by (elim lookup_Waiter) simp
next
  case (refuse eventfd room allocated w hash fr r e)
  have "length (fr_entries (fw_registry w)) \<le> length (fw_leading w) + length (fw_publishing w) + fw_leaving w"
    using refuse.prems table_inv_find(2) by (fastforce simp: fetch_inv_def)
  then show ?case using lookup_refused(3,4) [OF _ _ refuse.hyps] refuse.prems by (fastforce simp: fetch_inv_def)
next
  case (unlink l w result fr l')
  then show ?case by (auto simp: finish_unlink_def Let_def)
next
  case (publish l result w notify fr r)
  have "ld_cell l \<in> set (active w)" using publish.hyps(1) by (force simp: active_def)
  then have "c \<noteq> ld_cell l" using publish.prems by (auto simp: fetch_inv_def cells_inv_def)
  then show ?case using publish by (auto simp: finish_publish_def Let_def split: prod.splits)
qed (simp_all add: Leader_release_def Waiter_release_def)

lemma fetch_steps_phase:
  assumes "fetch_step\<^sup>*\<^sup>* w w'" and "fetch_inv w" and "c < fr_next_cell (fw_registry w)"
    and "co_phase (fr_cells (fw_registry w) c) \<noteq> Pending"
  shows "co_phase (fr_cells (fw_registry w') c) = co_phase (fr_cells (fw_registry w) c)"
proof -
  have "fetch_inv w' \<and> c < fr_next_cell (fw_registry w') \<and> co_phase (fr_cells (fw_registry w') c) = co_phase (fr_cells (fw_registry w) c)"
    using assms(1)
  proof (induction rule: rtranclp_induct)
    case (step y z)
    then show ?case using fetch_step_phase [OF step.hyps(2)] fetch_step_inv [OF step.hyps(2)] assms(4) by simp
  qed (use assms in simp)
  then show ?thesis by simp
qed

text \<open>
  C32. Fetches are single-flight. In every interleaving at most one leader per hash is in progress, and a lookup of its
  hash joins it or is turned away but never leads a second fetch; a lookup never
  panics on a full table, and every leader in progress finds its exact table entry when it publishes. Leaders and waiters stay within their limits.
\<close>
theorem fetch_single_flight:
  assumes "fetch_reach w"
  shows "distinct (map ld_hash (fw_leading w)) \<and>
    length (fw_leading w) \<le> credit_limit (fr_leaders (fw_registry w)) \<and>
    length (fw_waiters w) \<le> credit_limit (fr_waiters (fw_registry w)) \<and>
    (\<forall>l \<in> set (fw_leading w). \<forall>result. \<exists>fr l'. finish_unlink (fw_registry w) l result = Inr (fr, l')) \<and>
    (\<forall>eventfd room allocated hash fr r. Registry_lookup eventfd room allocated (fw_registry w) hash = (fr, r) \<longrightarrow>
       (\<forall>msg. eventfd \<noteq> Inl (Panic msg) \<and> allocated \<noteq> Inl (Panic msg) \<longrightarrow> r \<noteq> Inl (Panic msg)) \<and>
       (hash \<in> ld_hash ` set (fw_leading w) \<longrightarrow> (\<forall>l. r \<noteq> Inr (Some (LookupLeader l)))))"
proof -
  let ?fr = "fw_registry w"
  have inv: "fetch_inv w" by (rule fetch_reach_inv [OF assms])
  then have t: "table_inv (fr_entries ?fr) (fw_leading w)" by (simp add: fetch_inv_def)
  have "mset (map fst (fr_entries ?fr)) = mset (map ld_hash (fw_leading w))"
    using t by (simp add: table_inv_def link_def image_mset.compositionality comp_def)
  then have d: "distinct (map ld_hash (fw_leading w))"
    using t mset_eq_imp_distinct_iff unfolding table_inv_def by blast
  have u: "\<exists>fr l'. finish_unlink ?fr l result = Inr (fr, l')" if "l \<in> set (fw_leading w)" for l result
    using that t table_inv_unlink(1) [OF t that] by (auto simp: finish_unlink_def link_def table_inv_def Let_def)
  have c: "credits (fr_leaders ?fr) (length (fw_leading w) + length (fw_publishing w) + fw_leaving w)"
    "credits (fr_waiters ?fr) (length (fw_waiters w) + fw_departing w)" "credit_limit (fr_leaders ?fr) \<le> fr_capacity ?fr"
    using inv by (simp_all add: fetch_inv_def credits_inv_def)
  have room: "length (fr_entries ?fr) < fr_capacity ?fr" if "claim (fr_leaders ?fr) = (b, True)" for b
    using credits_claim(1) [OF c(1) that] c(3) table_inv_find(2) [OF t] by simp
  have p: "r \<noteq> Inl (Panic msg)" if "Registry_lookup eventfd space allocated ?fr hash = (fr, r)"
    "eventfd \<noteq> Inl (Panic msg) \<and> allocated \<noteq> Inl (Panic msg)" for eventfd space allocated hash fr r msg
    using that room
    by (auto simp: Registry_lookup_def join_fetch_def lead_fetch_def Let_def attempt_def ok_or_def ensure_def
        split: option.splits bool.splits sum.splits if_splits prod.splits)
  have n: "r \<noteq> Inr (Some (LookupLeader l))" if "Registry_lookup eventfd space allocated ?fr hash = (fr, r)"
    "hash \<in> ld_hash ` set (fw_leading w)" for eventfd space allocated hash fr r l
  proof
    assume "r = Inr (Some (LookupLeader l))"
    then have "map_of (fr_entries ?fr) hash = None" using that(1) by (auto elim: lookup_Leader)
    moreover obtain k where "k \<in> set (fw_leading w)" "ld_hash k = hash"
      using \<open>hash \<in> ld_hash ` set (fw_leading w)\<close> by auto
    ultimately show False using table_inv_find(1) [OF t, of hash "ld_cell k"] by (auto simp: link_def)
  qed
  show ?thesis
    using d u p n credits_bound [OF c(1)] credits_bound [OF c(2)] by (intro conjI) (blast | simp)+
qed

text \<open>
  C33. No wake-up is lost. In every interleaving each waiter is in exactly one of two situations: its cell is pending, a
  leader of that cell has yet to publish and the waiter's signal is registered there; or its poll answers
  and its signal has been notified.
\<close>
theorem fetch_no_lost_wakeup:
  assumes "fetch_reach w" and "x \<in> set (fw_waiters w)"
  shows "if Waiter_poll (fw_registry w) x = Inr None
    then wt_cell x \<in> set (active w) \<and> (wt_id x, wt_signal x) \<in> set (co_signals (fr_cells (fw_registry w) (wt_cell x)))
    else wt_cell x \<notin> set (active w) \<and> fr_signal (fw_registry w) (wt_signal x) \<noteq> None"
proof -
  have inv: "fetch_inv w" by (rule fetch_reach_inv [OF assms(1)])
  then have x: "waiter_inv (fw_registry w) (active w) x" and c: "cells_inv (fw_registry w) (active w)"
    using assms(2) by (auto simp: fetch_inv_def waiters_inv_def)
  have "Waiter_poll (fw_registry w) x = Inr None \<longleftrightarrow> co_phase (fr_cells (fw_registry w) (wt_cell x)) = Pending"
    by (auto simp: Waiter_poll_def split: Phase.splits)
  then show ?thesis using x c by (auto simp: waiter_inv_def cells_inv_def)
qed

text \<open>
  A publication reaches every waiter of its cell for good: from the moment a leader publishes, whatever
  threads do afterwards, including new fetches of the same hash, polling any waiter of the cell returns exactly the published value or error.
\<close>
theorem fetch_result_delivered:
  assumes "fetch_reach w" and "(l, result) \<in> set (fw_publishing w)" and "finish_publish notify (fw_registry w) l result = (fr, r)"
    and "fetch_step\<^sup>*\<^sup>* (w\<lparr>fw_registry := fr, fw_publishing := remove1 (l, result) (fw_publishing w), fw_leaving := fw_leaving w + 1\<rparr>) w'"
    and "wt_cell x = ld_cell l"
  shows "Waiter_poll (fw_registry w') x = (case result of Ready v \<Rightarrow> Inr (Some v) | Failed e \<Rightarrow> Inl e | Pending \<Rightarrow> Inr None) \<and>
    Waiter_poll (fw_registry w') x \<noteq> Inr None"
proof -
  let ?w = "w\<lparr>fw_registry := fr, fw_publishing := remove1 (l, result) (fw_publishing w), fw_leaving := fw_leaving w + 1\<rparr>"
  have inv: "fetch_inv w" by (rule fetch_reach_inv [OF assms(1)])
  have r: "result \<noteq> Pending" using inv assms(2) by (auto simp: fetch_inv_def)
  have "ld_cell l \<in> set (active w)" using assms(2) by (force simp: active_def)
  then have "ld_cell l < fr_next_cell (fw_registry w)" using inv by (auto simp: fetch_inv_def cells_inv_def)
  then have c: "ld_cell l < fr_next_cell fr" "co_phase (fr_cells fr (ld_cell l)) = result"
    using assms(3) by (auto simp: finish_publish_def Let_def split: prod.splits)
  have "co_phase (fr_cells (fw_registry w') (ld_cell l)) = result"
    using fetch_steps_phase [OF assms(4) fetch_step_publish [OF inv assms(2,3)], of "ld_cell l"] c r by simp
  then show ?thesis using r assms(5) by (cases result) (simp_all add: Waiter_poll_def)
qed

text \<open>One leader, then a waiter of the same hash, then the leader unlinks.\<close>

definition demo_registry :: "nat Registry" where
  "demo_registry = (case Registry_new 1 2 (Some 1) (Inr ()) of Inr fr \<Rightarrow> fr)"

definition demo_lookup :: "nat Registry \<Rightarrow> nat Registry" where
  "demo_lookup fr = fst (Registry_lookup (Inr ()) True (Inr ()) fr [1])"

definition demo_leader :: Leader where
  "demo_leader = \<lparr>ld_cell = 0, ld_hash = [1], ld_finished = False\<rparr>"

definition demo_waiter :: Waiter where
  "demo_waiter = \<lparr>wt_cell = 0, wt_signal = 0, wt_id = 0\<rparr>"

definition demo_joined :: "nat FetchWorld" where
  "demo_joined = \<lparr>fw_registry = demo_lookup (demo_lookup demo_registry), fw_leading = [demo_leader], fw_publishing = [],
     fw_leaving = 0, fw_waiters = [demo_waiter], fw_departing = 0\<rparr>"

definition demo_unlinked :: "nat FetchWorld" where
  "demo_unlinked = demo_joined\<lparr>fw_registry := fst (projr (finish_unlink (fw_registry demo_joined) demo_leader (Ready 7))),
     fw_leading := [], fw_publishing := [(demo_leader\<lparr>ld_finished := True\<rparr>, Ready 7)]\<rparr>"

lemmas fetch_demo_simps = demo_registry_def demo_lookup_def demo_leader_def demo_waiter_def demo_joined_def
  Registry_new_def Registry_lookup_def join_fetch_def lead_fetch_def claim_def one_credit_def counter_def Budget_new_def Budget_claim_def
  Amount_default_def wrapping_sub_def wrapping_add_def saturating_add_def nchecked_add_def u64_max_def Let_def

lemma demo_joined_reach: "fetch_reach demo_joined"
proof -
  let ?w0 = "\<lparr>fw_registry = demo_registry, fw_leading = [], fw_publishing = [], fw_leaving = 0, fw_waiters = [], fw_departing = 0\<rparr>"
  let ?w1 = "?w0\<lparr>fw_registry := demo_lookup demo_registry, fw_leading := [demo_leader]\<rparr>"
  have r: "fetch_reach ?w0"
    by (rule fetch_reach.new [of 1 2 1 "Inr ()"]) (simp_all add: demo_registry_def Registry_new_def u64_max_def)
  have "Registry_lookup (Inr ()) True (Inr ()) demo_registry [1] = (demo_lookup demo_registry, Inr (Some (LookupLeader demo_leader)))"
    by (simp add: fetch_demo_simps)
  then have "fetch_step ?w0 ?w1" using fetch_step.lead [of "Inr ()" True "Inr ()" ?w0 "[1]"] by simp
  with r have r1: "fetch_reach ?w1" by (rule fetch_reach.step)
  have "Registry_lookup (Inr ()) True (Inr ()) (demo_lookup demo_registry) [1] =
      (demo_lookup (demo_lookup demo_registry), Inr (Some (LookupWaiter demo_waiter)))"
    by (simp add: fetch_demo_simps)
  then have "fetch_step ?w1 demo_joined"
    using fetch_step.join [of "Inr ()" True "Inr ()" ?w1 "[1]"] by (simp add: demo_joined_def)
  with r1 show ?thesis by (rule fetch_reach.step)
qed

lemma demo_unlinked_reach: "fetch_reach demo_unlinked"
proof -
  have "fetch_step demo_joined demo_unlinked"
    using fetch_step.unlink [of demo_leader demo_joined "Ready 7"
        "fst (projr (finish_unlink (fw_registry demo_joined) demo_leader (Ready 7)))" "demo_leader\<lparr>ld_finished := True\<rparr>"]
    by (simp add: demo_unlinked_def finish_unlink_def fetch_demo_simps)
  then show ?thesis by (rule fetch_reach.step [OF demo_joined_reach])
qed

theorem fetch_single_flight_witness:
  "\<forall>l. snd (Registry_lookup (Inr ()) True (Inr ()) (fw_registry demo_joined) [1]) \<noteq> Inr (Some (LookupLeader l))"
proof -
  have "[1] \<in> ld_hash ` set (fw_leading demo_joined)" by (simp add: demo_joined_def demo_leader_def)
  then show ?thesis using fetch_single_flight [OF demo_joined_reach] by (metis prod.collapse)
qed

theorem fetch_no_lost_wakeup_witness:
  "Waiter_poll (fw_registry demo_joined) demo_waiter = Inr None \<and>
   (0, 0) \<in> set (co_signals (fr_cells (fw_registry demo_joined) 0))"
proof -
  have "demo_waiter \<in> set (fw_waiters demo_joined)" "Waiter_poll (fw_registry demo_joined) demo_waiter = Inr None"
    by (simp_all add: fetch_demo_simps Waiter_poll_def)
  then show ?thesis using fetch_no_lost_wakeup [OF demo_joined_reach, of demo_waiter] by (simp add: demo_waiter_def)
qed

theorem fetch_result_delivered_witness:
  "Waiter_poll (fst (finish_publish (\<lambda>_. Inr ()) (fw_registry demo_unlinked) (demo_leader\<lparr>ld_finished := True\<rparr>) (Ready 7))) demo_waiter
     = Inr (Some 7)"
proof -
  have p: "(demo_leader\<lparr>ld_finished := True\<rparr>, Ready 7) \<in> set (fw_publishing demo_unlinked)" by (simp add: demo_unlinked_def)
  show ?thesis
    using fetch_result_delivered [OF demo_unlinked_reach p prod.collapse [symmetric] rtranclp.rtrancl_refl, of demo_waiter]
    by (simp add: demo_waiter_def demo_leader_def)
qed

end
