(* ===== verification/Staging_Log.thy ===== *)
theory Staging_Log
  imports Encoding
begin

text \<open>
  The synchronous staging log of \<^verbatim>\<open>core/src/staging.rs\<close> with its fixed-slot format \<^verbatim>\<open>staging/format.rs\<close>, byte
  for byte: a header page, then slots of two pages that hold a record and its payload. The file is a byte
  list; the outcomes of reads, writes and syncs are arguments, and a write that fails may leave
  any bytes behind its offset. CRC32 is an argument.
\<close>

section \<open>Format\<close>

definition RECORD_SIZE :: nat where "RECORD_SIZE = 2 * BLOCK_SIZE"
definition CHECKSUM_OFFSET :: nat where "CHECKSUM_OFFSET = BLOCK_SIZE - 4"

datatype RecordKind = RWrite | RZero | RFence

fun RecordKind_u64 :: "RecordKind \<Rightarrow> u64" where
  "RecordKind_u64 RWrite = 1"
| "RecordKind_u64 RZero = 2"
| "RecordKind_u64 RFence = 3"

record Record =
  rc_kind :: RecordKind
  rc_sequence :: u64
  rc_offset :: u64
  rc_length :: u64

definition record_checksum :: "(bytes \<Rightarrow> u32) \<Rightarrow> bytes \<Rightarrow> u32" where
  "record_checksum crc bs = crc (take CHECKSUM_OFFSET bs @ drop BLOCK_SIZE bs)"

definition seal :: "(bytes \<Rightarrow> u32) \<Rightarrow> bytes \<Rightarrow> bytes" where
  "seal crc bs = put32 bs CHECKSUM_OFFSET (record_checksum crc bs)"

definition checksum_valid :: "(bytes \<Rightarrow> u32) \<Rightarrow> bytes \<Rightarrow> bool" where
  "checksum_valid crc bs \<longleftrightarrow> record_checksum crc bs = u32_at bs CHECKSUM_OFFSET"

definition kind_at :: "u64 \<Rightarrow> RecordKind option" where
  "kind_at w = (if w = 1 then Some RWrite else if w = 2 then Some RZero else if w = 3 then Some RFence else None)"

definition decode :: "(bytes \<Rightarrow> u32) \<Rightarrow> bytes \<Rightarrow> Record option" where
  "decode crc bs =
     (if take 8 bs \<noteq> ascii ''CASREC01'' \<or> \<not> checksum_valid crc bs then None
      else Option.bind (kind_at (u64_at bs 8)) (\<lambda>kind.
        let r = \<lparr>rc_kind = kind, rc_sequence = u64_at bs 16, rc_offset = u64_at bs 24, rc_length = u64_at bs 32\<rparr> in
        case kind of
          RWrite \<Rightarrow> if rc_length r = BLOCK then Some r else None
        | RZero \<Rightarrow> if rc_length r > 0 \<and> all_zero (drop BLOCK_SIZE bs) then Some r else None
        | RFence \<Rightarrow> if rc_offset r = 0 \<and> rc_length r = 0 \<and> all_zero (drop BLOCK_SIZE bs) then Some r else None))"

definition encode :: "(bytes \<Rightarrow> u32) \<Rightarrow> Record \<Rightarrow> bytes \<Rightarrow> bytes" where
  "encode crc r payload =
     (let bs = overwrite (replicate RECORD_SIZE 0) 0 (ascii ''CASREC01'');
          bs = put64 bs 8 (RecordKind_u64 (rc_kind r));
          bs = put64 bs 16 (rc_sequence r);
          bs = put64 bs 24 (rc_offset r);
          bs = put64 bs 32 (rc_length r);
          bs = overwrite bs BLOCK_SIZE payload in
      seal crc bs)"

definition encode_header :: "(bytes \<Rightarrow> u32) \<Rightarrow> u64 \<Rightarrow> bytes" where
  "encode_header crc image_bytes =
     (let bs = overwrite (replicate BLOCK_SIZE 0) 0 (ascii ''CASLOG01'');
          bs = put64 bs 8 image_bytes;
          bs = put64 bs 16 (word_of_nat RECORD_SIZE) in
      seal crc bs)"

definition decode_header :: "(bytes \<Rightarrow> u32) \<Rightarrow> bytes \<Rightarrow> u64 option" where
  "decode_header crc bs =
     (let image_bytes = u64_at bs 8 in
      if take 8 bs = ascii ''CASLOG01'' \<and> checksum_valid crc bs \<and> u64_at bs 16 = word_of_nat RECORD_SIZE \<and>
         image_bytes > 0 \<and> is_multiple_of image_bytes BLOCK
      then Some image_bytes else None)"

section \<open>The log\<close>

datatype StagingError = SgIo error | SgHeader | SgCorrupt u64 | SgRange | SgRequestTooLarge | SgPoisoned | SgExhausted

type_synonym 'a sresult = "StagingError + 'a"

record StagingLog =
  sg_file :: bytes
  sg_image_bytes :: u64
  sg_next_offset :: u64
  sg_appended :: u64
  sg_durable :: u64
  sg_blocks :: "u64 \<rightharpoonup> u64"
  sg_poisoned :: bool
  sg_recovered_tail_bytes :: u64

text \<open>
  The answers of the system: one per read and one per write offset, the latter with the bytes a failed write leaves behind.
\<close>

record StagingIo =
  io_read :: "nat \<Rightarrow> unit result"
  io_write :: "nat \<Rightarrow> unit result"
  io_torn :: "nat \<Rightarrow> bytes"
  io_sync :: "unit result"

definition direct_read :: "StagingIo \<Rightarrow> bytes \<Rightarrow> nat \<Rightarrow> nat \<Rightarrow> bytes sresult" where
  "direct_read io f offset n = map_err SgIo
     (attempt (io_read io offset) (\<lambda>_.
      ensure (offset + n \<le> length f) (UnexpectedEof ''short direct read'') (Inr (subrange f offset n))))"

definition direct_write :: "StagingIo \<Rightarrow> bytes \<Rightarrow> nat \<Rightarrow> bytes \<Rightarrow> bytes \<times> unit result" where
  "direct_write io f offset bs = (case io_write io offset of
      Inr _ \<Rightarrow> (overwrite f offset bs, Inr ())
    | Inl e \<Rightarrow> (take offset f @ io_torn io offset, Inl e))"

definition StagingLog_empty :: "bytes \<Rightarrow> u64 \<Rightarrow> StagingLog" where
  "StagingLog_empty f image_bytes = \<lparr>sg_file = f, sg_image_bytes = image_bytes, sg_next_offset = BLOCK, sg_appended = 0,
     sg_durable = 0, sg_blocks = Map.empty, sg_poisoned = False, sg_recovered_tail_bytes = 0\<rparr>"

text \<open>\<open>opened\<close> and \<open>parent\<close> are the outcomes of creating the file and of syncing its directory.\<close>

definition StagingLog_create :: "(bytes \<Rightarrow> u32) \<Rightarrow> StagingIo \<Rightarrow> unit result \<Rightarrow> unit result \<Rightarrow> u64 \<Rightarrow> StagingLog sresult" where
  "StagingLog_create crc io opened parent image_bytes =
     (if image_bytes = 0 \<or> \<not> is_multiple_of image_bytes BLOCK then Inl SgRange
      else attempt (map_err SgIo opened) (\<lambda>_.
        let (f, written) = direct_write io [] 0 (encode_header crc image_bytes) in
        attempt (map_err SgIo written) (\<lambda>_.
        attempt (map_err SgIo (io_sync io)) (\<lambda>_.
        attempt (map_err SgIo parent) (\<lambda>_.
        Inr (StagingLog_empty f image_bytes))))))"

definition StagingLog_healthy :: "StagingLog \<Rightarrow> unit sresult" where
  "StagingLog_healthy log = (if sg_poisoned log then Inl SgPoisoned else Inr ())"

definition validate_range :: "u64 \<Rightarrow> u64 \<Rightarrow> u64 \<Rightarrow> unit sresult" where
  "validate_range image_bytes offset len =
     (if \<not> is_multiple_of offset BLOCK \<or> \<not> is_multiple_of len BLOCK \<or>
         (case checked_add offset len of None \<Rightarrow> True | Some fin \<Rightarrow> fin > image_bytes)
      then Inl SgRange else Inr ())"

definition apply_record :: "Record \<Rightarrow> u64 \<Rightarrow> (u64 \<rightharpoonup> u64) \<Rightarrow> (u64 \<rightharpoonup> u64)" where
  "apply_record r position blocks = (case rc_kind r of
      RWrite \<Rightarrow> blocks(rc_offset r \<mapsto> position)
    | RZero \<Rightarrow> (let fin = rc_offset r + rc_length r in
        (\<lambda>offset. if offset < rc_offset r \<or> offset \<ge> fin then blocks offset else None))
    | RFence \<Rightarrow> blocks)"

definition StagingLog_append ::
  "(bytes \<Rightarrow> u32) \<Rightarrow> StagingIo \<Rightarrow> StagingLog \<Rightarrow> RecordKind \<Rightarrow> u64 \<Rightarrow> u64 \<Rightarrow> bytes \<Rightarrow> StagingLog \<times> u64 sresult" where
  "StagingLog_append crc io log kind offset len payload =
     (case attempt (if kind = RFence then Inr (sg_appended log) else ok_or (checked_add (sg_appended log) 1) SgExhausted) (\<lambda>sequence.
           attempt (ok_or (checked_add (sg_next_offset log) (word_of_nat RECORD_SIZE)) SgExhausted) (\<lambda>fin. Inr (sequence, fin))) of
        Inl e \<Rightarrow> (log, Inl e)
      | Inr (sequence, fin) \<Rightarrow>
          let r = \<lparr>rc_kind = kind, rc_sequence = sequence, rc_offset = offset, rc_length = len\<rparr> in
          (case direct_write io (sg_file log) (unat (sg_next_offset log)) (encode crc r payload) of
             (f, Inl e) \<Rightarrow> (log\<lparr>sg_file := f, sg_poisoned := True\<rparr>, Inl (SgIo e))
           | (f, Inr _) \<Rightarrow>
               (log\<lparr>sg_file := f, sg_blocks := apply_record r (sg_next_offset log) (sg_blocks log),
                    sg_next_offset := fin, sg_appended := sequence\<rparr>, Inr sequence)))"

text \<open>\<^verbatim>\<open>as_chunks\<close> yields the whole blocks of the buffer.\<close>

fun append_blocks :: "(bytes \<Rightarrow> u32) \<Rightarrow> StagingIo \<Rightarrow> u64 \<Rightarrow> nat \<Rightarrow> bytes list \<Rightarrow> StagingLog \<Rightarrow> StagingLog \<times> unit sresult" where
  "append_blocks crc io offset index [] log = (log, Inr ())"
| "append_blocks crc io offset index (block # blocks) log =
     (case StagingLog_append crc io log RWrite (offset + word_of_nat (index * BLOCK_SIZE)) BLOCK block of
        (log, Inl e) \<Rightarrow> (log, Inl e)
      | (log, Inr _) \<Rightarrow> append_blocks crc io offset (index + 1) blocks log)"

definition as_chunks :: "bytes \<Rightarrow> bytes list" where
  "as_chunks bs = map (\<lambda>i. subrange bs (i * BLOCK_SIZE) BLOCK_SIZE) [0..<length bs div BLOCK_SIZE]"

definition StagingLog_write :: "(bytes \<Rightarrow> u32) \<Rightarrow> StagingIo \<Rightarrow> StagingLog \<Rightarrow> u64 \<Rightarrow> bytes \<Rightarrow> StagingLog \<times> u64 option sresult" where
  "StagingLog_write crc io log offset bs =
     (case attempt (StagingLog_healthy log) (\<lambda>_. attempt (validate_range (sg_image_bytes log) offset (word_of_nat (length bs))) (\<lambda>_.
           if length bs > MAX_REQUEST_BYTES then Inl SgRequestTooLarge else Inr ())) of
        Inl e \<Rightarrow> (log, Inl e)
      | Inr _ \<Rightarrow> (case append_blocks crc io offset 0 (as_chunks bs) log of
          (log, Inl e) \<Rightarrow> (log, Inl e)
        | (log, Inr _) \<Rightarrow> (log, Inr (if bs \<noteq> [] then Some (sg_appended log) else None))))"

definition StagingLog_zero :: "(bytes \<Rightarrow> u32) \<Rightarrow> StagingIo \<Rightarrow> StagingLog \<Rightarrow> u64 \<Rightarrow> u64 \<Rightarrow> StagingLog \<times> u64 option sresult" where
  "StagingLog_zero crc io log offset len =
     (case attempt (StagingLog_healthy log) (\<lambda>_. validate_range (sg_image_bytes log) offset len) of
        Inl e \<Rightarrow> (log, Inl e)
      | Inr _ \<Rightarrow> if len = 0 then (log, Inr None)
          else (case StagingLog_append crc io log RZero offset len [] of
             (log, Inl e) \<Rightarrow> (log, Inl e) | (log, Inr s) \<Rightarrow> (log, Inr (Some s))))"

definition StagingLog_flush :: "(bytes \<Rightarrow> u32) \<Rightarrow> StagingIo \<Rightarrow> StagingLog \<Rightarrow> StagingLog \<times> u64 sresult" where
  "StagingLog_flush crc io log =
     (case StagingLog_healthy log of
        Inl e \<Rightarrow> (log, Inl e)
      | Inr _ \<Rightarrow>
          if sg_appended log \<noteq> sg_durable log
          then (case StagingLog_append crc io log RFence 0 0 [] of
             (log, Inl e) \<Rightarrow> (log, Inl e)
           | (log, Inr _) \<Rightarrow> (case io_sync io of
               Inl e \<Rightarrow> (log\<lparr>sg_poisoned := True\<rparr>, Inl (SgIo e))
             | Inr _ \<Rightarrow> (log\<lparr>sg_durable := sg_appended log\<rparr>, Inr (sg_appended log))))
          else (log, Inr (sg_durable log)))"

fun read_blocks :: "(bytes \<Rightarrow> u32) \<Rightarrow> StagingIo \<Rightarrow> StagingLog \<Rightarrow> u64 \<Rightarrow> nat list \<Rightarrow> bytes sresult" where
  "read_blocks crc io log offset [] = Inr []"
| "read_blocks crc io log offset (index # rest) =
     (let logical_offset = offset + word_of_nat (index * BLOCK_SIZE) in
      attempt (case sg_blocks log logical_offset of
          None \<Rightarrow> Inr (replicate BLOCK_SIZE 0)
        | Some position \<Rightarrow>
            attempt (direct_read io (sg_file log) (unat position) RECORD_SIZE) (\<lambda>buffer.
            attempt (ok_or (decode crc buffer) (SgCorrupt position)) (\<lambda>r.
            if rc_kind r \<noteq> RWrite \<or> rc_offset r \<noteq> logical_offset then Inl (SgCorrupt position)
            else Inr (drop BLOCK_SIZE buffer)))) (\<lambda>block.
      attempt (read_blocks crc io log offset rest) (\<lambda>blocks. Inr (block @ blocks))))"

definition StagingLog_read :: "(bytes \<Rightarrow> u32) \<Rightarrow> StagingIo \<Rightarrow> StagingLog \<Rightarrow> u64 \<Rightarrow> nat \<Rightarrow> bytes sresult" where
  "StagingLog_read crc io log offset len =
     attempt (StagingLog_healthy log) (\<lambda>_.
     attempt (validate_range (sg_image_bytes log) offset (word_of_nat len)) (\<lambda>_.
     if len > MAX_REQUEST_BYTES then Inl SgRequestTooLarge
     else read_blocks crc io log offset [0..<len div BLOCK_SIZE]))"

section \<open>Reopening\<close>

definition slot_position :: "nat \<Rightarrow> nat" where
  "slot_position slot = BLOCK_SIZE + slot * RECORD_SIZE"

text \<open>The reverse scan for the last fence, among the first \<open>n\<close> slots.\<close>

fun committed_slots :: "(bytes \<Rightarrow> u32) \<Rightarrow> StagingIo \<Rightarrow> bytes \<Rightarrow> nat \<Rightarrow> nat sresult" where
  "committed_slots crc io f 0 = Inr 0"
| "committed_slots crc io f (Suc slot) =
     attempt (direct_read io f (slot_position slot) RECORD_SIZE) (\<lambda>buffer.
     if (case decode crc buffer of None \<Rightarrow> False | Some r \<Rightarrow> rc_kind r = RFence) then Inr (Suc slot)
     else committed_slots crc io f slot)"

definition replay_slot :: "(bytes \<Rightarrow> u32) \<Rightarrow> StagingIo \<Rightarrow> nat \<Rightarrow> StagingLog \<Rightarrow> StagingLog sresult" where
  "replay_slot crc io slot log =
     (let position = word_of_nat (slot_position slot) in
      attempt (direct_read io (sg_file log) (slot_position slot) RECORD_SIZE) (\<lambda>buffer.
      attempt (ok_or (decode crc buffer) (SgCorrupt position)) (\<lambda>r.
      if rc_kind r = RFence
      then if rc_sequence r \<noteq> sg_appended log then Inl (SgCorrupt position)
           else Inr (log\<lparr>sg_durable := rc_sequence r\<rparr>)
      else if checked_add (sg_appended log) 1 \<noteq> Some (rc_sequence r) \<or>
          validate_range (sg_image_bytes log) (rc_offset r) (rc_length r) \<noteq> Inr ()
      then Inl (SgCorrupt position)
      else Inr (log\<lparr>sg_blocks := apply_record r position (sg_blocks log), sg_appended := rc_sequence r\<rparr>))))"

fun replay_slots :: "(bytes \<Rightarrow> u32) \<Rightarrow> StagingIo \<Rightarrow> nat list \<Rightarrow> StagingLog \<Rightarrow> StagingLog sresult" where
  "replay_slots crc io [] log = Inr log"
| "replay_slots crc io (slot # slots) log = attempt (replay_slot crc io slot log) (replay_slots crc io slots)"

definition direct_truncate :: "unit result \<Rightarrow> bytes \<Rightarrow> u64 \<Rightarrow> bytes sresult" where
  "direct_truncate set_len f len = map_err SgIo
     (ensure (len \<le> 2 ^ 63 - 1 \<and> is_multiple_of len BLOCK) (InvalidData ''invalid truncate length'')
        (attempt set_len (\<lambda>_. Inr (take (unat len) f @ replicate (unat len - length f) 0))))"

definition StagingLog_open ::
  "(bytes \<Rightarrow> u32) \<Rightarrow> StagingIo \<Rightarrow> unit result \<Rightarrow> unit result \<Rightarrow> bytes \<Rightarrow> StagingLog sresult" where
  "StagingLog_open crc io opened set_len f =
     attempt (map_err SgIo opened) (\<lambda>_.
     if length f < BLOCK_SIZE then Inl SgHeader
     else attempt (direct_read io f 0 BLOCK_SIZE) (\<lambda>header.
       attempt (ok_or (decode_header crc header) SgHeader) (\<lambda>image_bytes.
       let slots = (length f - BLOCK_SIZE) div RECORD_SIZE in
       attempt (committed_slots crc io f slots) (\<lambda>committed.
       let log = StagingLog_empty f image_bytes;
           log = log\<lparr>sg_next_offset := sg_next_offset log + word_of_nat (committed * RECORD_SIZE)\<rparr> in
       attempt (replay_slots crc io [0..<committed] log) (\<lambda>log.
       let log = log\<lparr>sg_recovered_tail_bytes := word_of_nat (length f) - sg_next_offset log\<rparr> in
       attempt (direct_truncate set_len f (sg_next_offset log)) (\<lambda>f.
       attempt (map_err SgIo (io_sync io)) (\<lambda>_.
       Inr (log\<lparr>sg_file := f\<rparr>))))))))"

section \<open>Round trips\<close>

lemma record_checksum_seal [simp]: "CHECKSUM_OFFSET + 4 \<le> length bs \<Longrightarrow> record_checksum crc (seal crc bs) = record_checksum crc bs"
  by (simp add: record_checksum_def seal_def put32_def overwrite_def CHECKSUM_OFFSET_def BLOCK_SIZE_def)

lemma seal_valid: "BLOCK_SIZE \<le> length bs \<Longrightarrow> checksum_valid crc (seal crc bs)"
proof -
  assume l: "BLOCK_SIZE \<le> length bs"
  then have "record_checksum crc (seal crc bs) = record_checksum crc bs"
    by (intro record_checksum_seal) (simp add: CHECKSUM_OFFSET_def BLOCK_SIZE_def)
  then show ?thesis
    using l by (simp add: checksum_valid_def seal_def f32.get_put_same CHECKSUM_OFFSET_def BLOCK_SIZE_def)
qed

lemma seal_frame:
  assumes "BLOCK_SIZE \<le> length bs"
  shows "length (seal crc bs) = length bs" and "off + n \<le> CHECKSUM_OFFSET \<Longrightarrow> subrange (seal crc bs) off n = subrange bs off n"
    and "drop BLOCK_SIZE (seal crc bs) = drop BLOCK_SIZE bs"
proof -
  show "length (seal crc bs) = length bs" "drop BLOCK_SIZE (seal crc bs) = drop BLOCK_SIZE bs"
    using assms by (simp_all add: seal_def put32_def overwrite_def CHECKSUM_OFFSET_def BLOCK_SIZE_def)
  show "off + n \<le> CHECKSUM_OFFSET \<Longrightarrow> subrange (seal crc bs) off n = subrange bs off n"
    using assms by (simp add: seal_def put32_def subrange_overwrite_before CHECKSUM_OFFSET_def BLOCK_SIZE_def)
qed

lemma seal_u64: "BLOCK_SIZE \<le> length bs \<Longrightarrow> off + 8 \<le> CHECKSUM_OFFSET \<Longrightarrow> u64_at (seal crc bs) off = u64_at bs off"
  by (rule f64.get_local) (rule seal_frame(2))

definition slot_record_ok :: "Record \<Rightarrow> bytes \<Rightarrow> bool" where
  "slot_record_ok r payload \<longleftrightarrow> (case rc_kind r of
      RWrite \<Rightarrow> rc_length r = BLOCK \<and> length payload = BLOCK_SIZE
    | RZero \<Rightarrow> rc_length r > 0 \<and> payload = []
    | RFence \<Rightarrow> rc_offset r = 0 \<and> rc_length r = 0 \<and> payload = [])"

lemma take_prefix_subrange: "take n bs = subrange bs 0 n"
  by (simp add: subrange_def)

lemma encode_layout:
  assumes "length payload \<le> BLOCK_SIZE"
  shows "length (encode crc r payload) = RECORD_SIZE" and "take 8 (encode crc r payload) = ascii ''CASREC01''"
    and "checksum_valid crc (encode crc r payload)" and "u64_at (encode crc r payload) 8 = RecordKind_u64 (rc_kind r)"
    and "u64_at (encode crc r payload) 16 = rc_sequence r" and "u64_at (encode crc r payload) 24 = rc_offset r"
    and "u64_at (encode crc r payload) 32 = rc_length r"
    and "drop BLOCK_SIZE (encode crc r payload) = payload @ replicate (BLOCK_SIZE - length payload) 0"
proof -
  define bs where "bs = overwrite (put64 (put64 (put64 (put64 (overwrite (replicate RECORD_SIZE 0) 0 (ascii ''CASREC01'')) 8
    (RecordKind_u64 (rc_kind r))) 16 (rc_sequence r)) 24 (rc_offset r)) 32 (rc_length r)) BLOCK_SIZE payload"
  have e: "encode crc r payload = seal crc bs" by (simp add: encode_def bs_def Let_def)
  have len: "length bs = RECORD_SIZE" using assms by (simp add: bs_def RECORD_SIZE_def BLOCK_SIZE_def codec)
  have l: "BLOCK_SIZE \<le> length bs" using len by (simp add: RECORD_SIZE_def)
  note fr = seal_frame [OF l] and u = seal_u64 [OF l]
  show "length (encode crc r payload) = RECORD_SIZE" by (simp add: e fr(1) len)
  show "checksum_valid crc (encode crc r payload)" unfolding e by (rule seal_valid [OF l])
  have "subrange bs 0 8 = ascii ''CASREC01''"
    using assms by (simp add: bs_def RECORD_SIZE_def BLOCK_SIZE_def codec)
  then show "take 8 (encode crc r payload) = ascii ''CASREC01''"
    by (simp add: e take_prefix_subrange fr(2) CHECKSUM_OFFSET_def BLOCK_SIZE_def)
  show "u64_at (encode crc r payload) 8 = RecordKind_u64 (rc_kind r)" "u64_at (encode crc r payload) 16 = rc_sequence r"
    "u64_at (encode crc r payload) 24 = rc_offset r" "u64_at (encode crc r payload) 32 = rc_length r"
    using assms by (simp_all add: e u CHECKSUM_OFFSET_def BLOCK_SIZE_def) (simp_all add: bs_def RECORD_SIZE_def BLOCK_SIZE_def codec)
  have "drop BLOCK_SIZE bs = payload @ replicate (BLOCK_SIZE - length payload) 0"
    using assms by (simp add: bs_def RECORD_SIZE_def BLOCK_SIZE_def codec overwrite_def)
  then show "drop BLOCK_SIZE (encode crc r payload) = payload @ replicate (BLOCK_SIZE - length payload) 0" by (simp add: e fr(3))
qed

lemma decode_encode:
  assumes "slot_record_ok r payload"
  shows "decode crc (encode crc r payload) = Some r"
proof -
  have "length payload \<le> BLOCK_SIZE" using assms by (cases "rc_kind r") (auto simp: slot_record_ok_def)
  note lay = encode_layout [OF this, of crc r]
  have eq: "\<lparr>rc_kind = k, rc_sequence = rc_sequence r, rc_offset = rc_offset r, rc_length = rc_length r\<rparr> = r" if "k = rc_kind r" for k
    using that by simp
  have "kind_at (RecordKind_u64 (rc_kind r)) = Some (rc_kind r)" by (cases "rc_kind r") (simp_all add: kind_at_def)
  then have "decode crc (encode crc r payload) = (case rc_kind r of
      RWrite \<Rightarrow> if rc_length r = BLOCK then Some r else None
    | RZero \<Rightarrow> if rc_length r > 0 \<and> all_zero (payload @ replicate (BLOCK_SIZE - length payload) 0) then Some r else None
    | RFence \<Rightarrow> if rc_offset r = 0 \<and> rc_length r = 0 \<and> all_zero (payload @ replicate (BLOCK_SIZE - length payload) 0) then Some r else None)"
    by (cases "rc_kind r") (simp_all add: decode_def lay Let_def eq)
  then show ?thesis using assms by (cases "rc_kind r") (simp_all add: slot_record_ok_def all_zero_def)
qed

lemma decode_header_encode:
  assumes "image_bytes > 0" and "is_multiple_of image_bytes BLOCK"
  shows "decode_header crc (encode_header crc image_bytes) = Some image_bytes" and "length (encode_header crc image_bytes) = BLOCK_SIZE"
proof -
  define bs where "bs = put64 (put64 (overwrite (replicate BLOCK_SIZE 0) 0 (ascii ''CASLOG01'')) 8 image_bytes) 16 (word_of_nat RECORD_SIZE)"
  have e: "encode_header crc image_bytes = seal crc bs" by (simp add: encode_header_def bs_def Let_def)
  have l: "length bs = BLOCK_SIZE" by (simp add: bs_def BLOCK_SIZE_def codec)
  note fr = seal_frame [where bs = bs] and u = seal_u64 [where bs = bs]
  have "subrange bs 0 8 = ascii ''CASLOG01''" "u64_at bs 8 = image_bytes" "u64_at bs 16 = word_of_nat RECORD_SIZE"
    by (simp_all add: bs_def BLOCK_SIZE_def codec)
  then have "take 8 (seal crc bs) = ascii ''CASLOG01''" "u64_at (seal crc bs) 8 = image_bytes" "u64_at (seal crc bs) 16 = word_of_nat RECORD_SIZE"
    using l by (simp_all add: take_prefix_subrange fr u CHECKSUM_OFFSET_def BLOCK_SIZE_def)
  then show "decode_header crc (encode_header crc image_bytes) = Some image_bytes"
    using assms l seal_valid [of bs crc] by (simp add: e decode_header_def)
  show "length (encode_header crc image_bytes) = BLOCK_SIZE" using l by (simp add: e fr(1))
qed

section \<open>Histories\<close>

text \<open>
  The records issued so far, one per slot, with what replaying them gives: the image they describe, the
  block map, the appended and the durable sequence.
\<close>

type_synonym history = "(Record \<times> bytes) list"

definition hist_image :: "history \<Rightarrow> u64 \<Rightarrow> bytes" where
  "hist_image rs = fold (\<lambda>(r, payload) image offset. case rc_kind r of
      RWrite \<Rightarrow> if offset = rc_offset r then payload else image offset
    | RZero \<Rightarrow> if offset < rc_offset r \<or> offset \<ge> rc_offset r + rc_length r then image offset else replicate BLOCK_SIZE 0
    | RFence \<Rightarrow> image offset) rs (\<lambda>_. replicate BLOCK_SIZE 0)"

definition hist_blocks :: "history \<Rightarrow> u64 \<rightharpoonup> u64" where
  "hist_blocks rs = fold (\<lambda>(i, r, _). apply_record r (word_of_nat (slot_position i))) (enumerate 0 rs) Map.empty"

definition hist_appended :: "history \<Rightarrow> u64" where
  "hist_appended rs = fold (\<lambda>(r, _) s. if rc_kind r = RFence then s else rc_sequence r) rs 0"

definition hist_durable :: "history \<Rightarrow> u64" where
  "hist_durable rs = fold (\<lambda>(r, _) s. if rc_kind r = RFence then rc_sequence r else s) rs 0"

definition hist_bytes :: "(bytes \<Rightarrow> u32) \<Rightarrow> u64 \<Rightarrow> history \<Rightarrow> bytes" where
  "hist_bytes crc image_bytes rs = encode_header crc image_bytes @ concat (map (\<lambda>(r, payload). encode crc r payload) rs)"

lemma hist_snoc [simp]:
  "hist_image (rs @ [(r, payload)]) offset = (case rc_kind r of
      RWrite \<Rightarrow> if offset = rc_offset r then payload else hist_image rs offset
    | RZero \<Rightarrow> if offset < rc_offset r \<or> offset \<ge> rc_offset r + rc_length r then hist_image rs offset else replicate BLOCK_SIZE 0
    | RFence \<Rightarrow> hist_image rs offset)"
  "hist_blocks (rs @ [(r, payload)]) = apply_record r (word_of_nat (slot_position (length rs))) (hist_blocks rs)"
  "hist_appended (rs @ [(r, payload)]) = (if rc_kind r = RFence then hist_appended rs else rc_sequence r)"
  "hist_durable (rs @ [(r, payload)]) = (if rc_kind r = RFence then rc_sequence r else hist_durable rs)"
  "hist_bytes crc img (rs @ [(r, payload)]) = hist_bytes crc img rs @ encode crc r payload"
  unfolding hist_image_def hist_blocks_def hist_appended_def hist_durable_def hist_bytes_def
  by (simp_all add: enumerate_append_eq)

lemma hist_nil [simp]:
  "hist_image [] = (\<lambda>_. replicate BLOCK_SIZE 0)" "hist_blocks [] = Map.empty" "hist_appended [] = 0" "hist_durable [] = 0"
  "hist_bytes crc img [] = encode_header crc img"
  by (simp_all add: hist_image_def hist_blocks_def hist_appended_def hist_durable_def hist_bytes_def)

definition next_record :: "u64 \<Rightarrow> history \<Rightarrow> Record \<Rightarrow> bytes \<Rightarrow> bool" where
  "next_record img rs r payload \<longleftrightarrow> slot_record_ok r payload \<and> slot_position (Suc (length rs)) < 2 ^ 64 \<and>
     (if rc_kind r = RFence then rc_sequence r = hist_appended rs
      else checked_add (hist_appended rs) 1 = Some (rc_sequence r) \<and> validate_range img (rc_offset r) (rc_length r) = Inr ())"

inductive valid_history :: "u64 \<Rightarrow> history \<Rightarrow> bool" for img where
  none: "img > 0 \<Longrightarrow> is_multiple_of img BLOCK \<Longrightarrow> valid_history img []"
| more: "valid_history img rs \<Longrightarrow> next_record img rs r payload \<Longrightarrow> valid_history img (rs @ [(r, payload)])"

lemma valid_history_img: "valid_history img rs \<Longrightarrow> img > 0 \<and> is_multiple_of img BLOCK"
  by (induction rule: valid_history.induct) auto

inductive_cases valid_history_snocE: "valid_history img (rs @ [x])"

lemma valid_history_prefix: "valid_history img (rs @ qs) \<Longrightarrow> valid_history img rs"
proof (induction qs rule: rev_induct)
  case (snoc x qs)
  have "valid_history img ((rs @ qs) @ [x])" using snoc.prems by simp
  then have "valid_history img (rs @ qs)" by (cases rule: valid_history.cases) auto
  then show ?case by (rule snoc.IH)
qed simp

lemma valid_history_take: "valid_history img rs \<Longrightarrow> valid_history img (take n rs)"
  using valid_history_prefix [of img "take n rs" "drop n rs"] by simp

lemma valid_history_nth:
  assumes "valid_history img rs" and "i < length rs" and "rs ! i = (r, payload)"
  shows "next_record img (take i rs) r payload"
proof -
  have "valid_history img (take (Suc i) rs)" by (rule valid_history_take [OF assms(1)])
  then have "valid_history img (take i rs @ [(r, payload)])" using assms(2,3) by (simp add: take_Suc_conv_app_nth)
  then show ?thesis by (cases rule: valid_history.cases) auto
qed

lemma valid_history_size: "valid_history img rs \<Longrightarrow> slot_position (length rs) < 2 ^ 64"
  by (cases rule: valid_history.cases) (auto simp: next_record_def BLOCK_SIZE_def slot_position_def)

lemma encode_length: "slot_record_ok r payload \<Longrightarrow> length (encode crc r payload) = RECORD_SIZE"
  by (rule encode_layout(1)) (auto simp: slot_record_ok_def split: RecordKind.splits)

lemma hist_bytes_length: "valid_history img rs \<Longrightarrow> length (hist_bytes crc img rs) = slot_position (length rs)"
  by (induction rule: valid_history.induct)
    (simp_all add: decode_header_encode next_record_def encode_length slot_position_def algebra_simps)

lemma hist_bytes_prefix: "\<exists>more. hist_bytes crc img (rs @ qs) = hist_bytes crc img rs @ more"
  by (simp add: hist_bytes_def)

lemma hist_bytes_slot:
  assumes "valid_history img rs" and "i < length rs" and "rs ! i = (r, payload)"
  shows "subrange (hist_bytes crc img rs) (slot_position i) RECORD_SIZE = encode crc r payload"
proof -
  have rs: "rs = (take i rs @ [(r, payload)]) @ drop (Suc i) rs" using assms(2,3) id_take_nth_drop by force
  obtain tail where b: "hist_bytes crc img rs = (hist_bytes crc img (take i rs) @ encode crc r payload) @ tail"
    using hist_bytes_prefix [of crc img "take i rs @ [(r, payload)]" "drop (Suc i) rs"] rs by auto
  have "length (hist_bytes crc img (take i rs)) = slot_position i"
    using hist_bytes_length [OF valid_history_take [OF assms(1)], of crc i] assms(2) by simp
  moreover have "length (encode crc r payload) = RECORD_SIZE"
    using valid_history_nth [OF assms] by (simp add: next_record_def encode_length)
  ultimately show ?thesis unfolding b by (simp add: subrange_def)
qed

lemma hist_bytes_header: "valid_history img rs \<Longrightarrow> take BLOCK_SIZE (hist_bytes crc img rs) = encode_header crc img"
  using decode_header_encode(2) [of img crc] valid_history_img by (simp add: hist_bytes_def)

text \<open>The block map points at the record that holds the image of the block.\<close>

definition points :: "history \<Rightarrow> u64 \<Rightarrow> u64 \<Rightarrow> bool" where
  "points rs offset position \<longleftrightarrow> (\<exists>i r payload. i < length rs \<and> rs ! i = (r, payload) \<and> position = word_of_nat (slot_position i) \<and>
     rc_kind r = RWrite \<and> rc_offset r = offset \<and> hist_image rs offset = payload)"

lemma points_kept:
  assumes "points rs offset position" and "hist_image (rs @ [x]) offset = hist_image rs offset"
  shows "points (rs @ [x]) offset position"
proof -
  obtain i r payload where "i < length rs" "rs ! i = (r, payload)" "position = word_of_nat (slot_position i)"
    "rc_kind r = RWrite" "rc_offset r = offset" "hist_image rs offset = payload" using assms(1) by (auto simp: points_def)
  then show ?thesis
    using assms(2) unfolding points_def by (intro exI [of _ i] exI [of _ r] exI [of _ payload]) (simp add: nth_append)
qed

lemma hist_blocks_image:
  assumes "valid_history img rs"
  shows "case hist_blocks rs offset of None \<Rightarrow> hist_image rs offset = replicate BLOCK_SIZE 0 | Some position \<Rightarrow> points rs offset position"
  using assms
proof (induction rule: valid_history.induct)
  case (more rs r payload)
  note keep = points_kept [of rs offset _ "(r, payload)"]
  show ?case
  proof (cases "rc_kind r = RWrite \<and> offset = rc_offset r")
    case True
    then have "points (rs @ [(r, payload)]) offset (word_of_nat (slot_position (length rs)))"
      unfolding points_def by (intro exI [of _ "length rs"] exI [of _ r] exI [of _ payload]) simp
    then show ?thesis using True by (simp add: apply_record_def)
  next
    case False
    then show ?thesis
      using more.IH keep by (cases "rc_kind r") (auto simp: apply_record_def Let_def split: option.splits)
  qed
qed simp

section \<open>The log along its history\<close>

text \<open>
  \<open>rs\<close> are the records the log has accepted. Only a poisoned log has bytes behind them, and one more issued record whose fate is unknown.
\<close>

definition log_inv :: "(bytes \<Rightarrow> u32) \<Rightarrow> StagingLog \<Rightarrow> history \<Rightarrow> bool" where
  "log_inv crc log rs \<longleftrightarrow> valid_history (sg_image_bytes log) rs \<and>
     sg_next_offset log = word_of_nat (slot_position (length rs)) \<and> sg_appended log = hist_appended rs \<and> sg_blocks log = hist_blocks rs \<and>
     take (slot_position (length rs)) (sg_file log) = hist_bytes crc (sg_image_bytes log) rs \<and>
     (\<not> sg_poisoned log \<longrightarrow> sg_file log = hist_bytes crc (sg_image_bytes log) rs)"

definition fence_at :: "history \<Rightarrow> nat \<Rightarrow> bool" where
  "fence_at rs k \<longleftrightarrow> k = 0 \<or> k \<le> length rs \<and> rc_kind (fst (rs ! (k - 1))) = RFence"

definition staging_log_inv :: "(bytes \<Rightarrow> u32) \<Rightarrow> StagingLog \<Rightarrow> history \<Rightarrow> nat \<Rightarrow> bool" where
  "staging_log_inv crc log issued k \<longleftrightarrow> valid_history (sg_image_bytes log) issued \<and> fence_at issued k \<and>
     sg_durable log = hist_durable (take k issued) \<and>
     (if sg_poisoned log then \<exists>rs. log_inv crc log rs \<and> k \<le> length rs \<and> (issued = rs \<or> (\<exists>x. issued = rs @ [x]))
      else log_inv crc log issued \<and> (\<forall>i. k \<le> i \<and> i < length issued \<longrightarrow> rc_kind (fst (issued ! i)) \<noteq> RFence))"

lemma unat_slot_position: "slot_position n < 2 ^ 64 \<Longrightarrow> unat (word_of_nat (slot_position n) :: u64) = slot_position n"
  by (simp add: unat_of_nat take_bit_nat_eq_self)

lemma checked_add_slot:
  assumes "slot_position n < 2 ^ 64" and "checked_add (word_of_nat (slot_position n)) (word_of_nat RECORD_SIZE) = Some fin"
  shows "slot_position (Suc n) < 2 ^ 64" and "fin = word_of_nat (slot_position (Suc n))"
proof -
  have r: "unat (word_of_nat RECORD_SIZE :: u64) = RECORD_SIZE" by (simp add: RECORD_SIZE_def BLOCK_SIZE_def)
  have "slot_position n + RECORD_SIZE < 2 ^ 64" and f: "fin = word_of_nat (slot_position n) + word_of_nat RECORD_SIZE"
    using assms(2) unfolding checked_add_Some unat_slot_position [OF assms(1)] r by auto
  then show "slot_position (Suc n) < 2 ^ 64" by (simp add: slot_position_def)
  show "fin = word_of_nat (slot_position (Suc n))" by (simp add: f slot_position_def algebra_simps)
qed

definition record_of :: "StagingLog \<Rightarrow> RecordKind \<Rightarrow> u64 \<Rightarrow> u64 \<Rightarrow> Record" where
  "record_of log kind offset len = \<lparr>rc_kind = kind,
     rc_sequence = (if kind = RFence then sg_appended log else sg_appended log + 1), rc_offset = offset, rc_length = len\<rparr>"

lemma append_parts:
  assumes inv: "log_inv crc log rs" and np: "\<not> sg_poisoned log" and ok: "slot_record_ok (record_of log kind offset len) payload"
    and range: "kind \<noteq> RFence \<Longrightarrow> validate_range (sg_image_bytes log) offset len = Inr ()"
    and app: "StagingLog_append crc io log kind offset len payload = (log', result)"
  obtains (exhausted) "log' = log" "result = Inl SgExhausted"
    | (failed) e where "result = Inl (SgIo e)" "sg_poisoned log'" "log_inv crc log' rs"
        "valid_history (sg_image_bytes log) (rs @ [(record_of log kind offset len, payload)])"
        "sg_image_bytes log' = sg_image_bytes log" "sg_durable log' = sg_durable log"
    | (stored) s where "result = Inr s" "\<not> sg_poisoned log'" "log_inv crc log' (rs @ [(record_of log kind offset len, payload)])"
        "sg_image_bytes log' = sg_image_bytes log" "sg_durable log' = sg_durable log"
proof -
  let ?r = "record_of log kind offset len" and ?img = "sg_image_bytes log" and ?n = "length rs"
  have h: "valid_history ?img rs" "sg_next_offset log = word_of_nat (slot_position ?n)" "sg_appended log = hist_appended rs"
    "sg_blocks log = hist_blocks rs" "sg_file log = hist_bytes crc ?img rs"
    using inv np by (auto simp: log_inv_def)
  have sz: "slot_position ?n < 2 ^ 64" by (rule valid_history_size [OF h(1)])
  define pre where "pre = attempt (if kind = RFence then Inr (sg_appended log) else ok_or (checked_add (sg_appended log) 1) SgExhausted) (\<lambda>sequence.
      attempt (ok_or (checked_add (sg_next_offset log) (word_of_nat RECORD_SIZE)) SgExhausted) (\<lambda>fin. Inr (sequence, fin)))"
  show thesis
  proof (cases pre)
    case (Inl e)
    then have "e = SgExhausted" by (auto simp: pre_def attempt_def ok_or_def split: if_splits option.splits)
    then show thesis using Inl app exhausted by (simp add: StagingLog_append_def pre_def [symmetric])
  next
    case (Inr p)
    then obtain fin where p: "p = (rc_sequence ?r, fin)" and fin: "checked_add (sg_next_offset log) (word_of_nat RECORD_SIZE) = Some fin"
      and sq: "kind \<noteq> RFence \<Longrightarrow> checked_add (sg_appended log) 1 = Some (rc_sequence ?r)"
      by (auto simp: pre_def record_of_def checked_add_Some split: if_splits)
    note f = checked_add_slot [OF sz fin [unfolded h(2)]]
    have nx: "next_record ?img rs ?r payload"
      using ok f(1) sq range h(3) by (auto simp: next_record_def record_of_def)
    have vh: "valid_history ?img (rs @ [(?r, payload)])" by (rule valid_history.more [OF h(1) nx])
    have len: "length (hist_bytes crc ?img rs) = slot_position ?n" by (rule hist_bytes_length [OF h(1)])
    have len': "length (hist_bytes crc ?img (rs @ [(?r, payload)])) = slot_position (Suc ?n)" using hist_bytes_length [OF vh, of crc] by simp
    have pos: "unat (sg_next_offset log) = slot_position ?n" unfolding h(2) by (rule unat_slot_position [OF sz])
    have rr: "\<lparr>rc_kind = kind, rc_sequence = rc_sequence ?r, rc_offset = offset, rc_length = len\<rparr> = ?r" by (simp add: record_of_def)
    have app': "StagingLog_append crc io log kind offset len payload =
      (case direct_write io (sg_file log) (slot_position ?n) (encode crc ?r payload) of
         (f, Inl e) \<Rightarrow> (log\<lparr>sg_file := f, sg_poisoned := True\<rparr>, Inl (SgIo e))
       | (f, Inr _) \<Rightarrow> (log\<lparr>sg_file := f, sg_blocks := apply_record ?r (sg_next_offset log) (sg_blocks log),
            sg_next_offset := fin, sg_appended := rc_sequence ?r\<rparr>, Inr (rc_sequence ?r)))"
      using Inr p by (simp add: StagingLog_append_def pre_def [symmetric] Let_def pos rr)
    show thesis
    proof (cases "io_write io (slot_position ?n)")
      case (Inl e)
      then have "log' = log\<lparr>sg_file := take (slot_position ?n) (sg_file log) @ io_torn io (slot_position ?n), sg_poisoned := True\<rparr>" "result = Inl (SgIo e)"
        using app app' by (auto simp: direct_write_def)
      then show thesis using h len vh by (intro failed [of e]) (auto simp: log_inv_def)
    next
      case (Inr u)
      then have l': "log' = log\<lparr>sg_file := sg_file log @ encode crc ?r payload, sg_blocks := apply_record ?r (sg_next_offset log) (sg_blocks log),
            sg_next_offset := fin, sg_appended := rc_sequence ?r\<rparr>" and "result = Inr (rc_sequence ?r)"
        using app app' h(5) len by (auto simp: direct_write_def overwrite_def)
      moreover have "rc_sequence ?r = hist_appended (rs @ [(?r, payload)])" using h(3) by (simp add: record_of_def)
      ultimately show thesis
        using h len' vh np f(2) by (intro stored [of "rc_sequence ?r"]) (simp_all add: log_inv_def)
    qed
  qed
qed

section \<open>Crashes and reopening\<close>

abbreviation slot_bytes :: "bytes \<Rightarrow> nat \<Rightarrow> bytes" where
  "slot_bytes f i \<equiv> subrange f (slot_position i) RECORD_SIZE"

definition intact :: "(bytes \<Rightarrow> u32) \<Rightarrow> history \<Rightarrow> bytes \<Rightarrow> nat \<Rightarrow> bool" where
  "intact crc issued f i \<longleftrightarrow> i < length issued \<and> slot_bytes f i = encode crc (fst (issued ! i)) (snd (issued ! i))"

text \<open>
  What a crash may leave of a file: the header and the slots covered by the last successful sync are as written; every later
  slot is as written or does not decode, and the file may end anywhere behind the synced slots.
\<close>

definition crash_image :: "(bytes \<Rightarrow> u32) \<Rightarrow> u64 \<Rightarrow> history \<Rightarrow> nat \<Rightarrow> bytes \<Rightarrow> bool" where
  "crash_image crc img issued k f \<longleftrightarrow> take (slot_position k) f = hist_bytes crc img (take k issued) \<and>
     (\<forall>i \<ge> k. slot_position (Suc i) \<le> length f \<longrightarrow> intact crc issued f i \<or> decode crc (slot_bytes f i) = None)"

lemma slot_position_simps: "slot_position (Suc n) = slot_position n + RECORD_SIZE" "BLOCK_SIZE \<le> slot_position n"
  "slot_position m \<le> slot_position n \<longleftrightarrow> m \<le> n"
  by (simp_all add: slot_position_def RECORD_SIZE_def BLOCK_SIZE_def)

lemma slots_fit: "BLOCK_SIZE \<le> length f \<Longrightarrow> n \<le> (length f - BLOCK_SIZE) div RECORD_SIZE \<longleftrightarrow> slot_position n \<le> length f"
  by (simp add: slot_position_def less_eq_div_iff_mult_less_eq RECORD_SIZE_def BLOCK_SIZE_def) arith

lemma intact_decode:
  assumes "valid_history img issued" and "intact crc issued f i"
  shows "decode crc (slot_bytes f i) = Some (fst (issued ! i))"
  using assms valid_history_nth [OF assms(1), of i "fst (issued ! i)" "snd (issued ! i)"]
  by (simp add: intact_def next_record_def decode_encode)

lemma take_slot: "slot_position (Suc n) \<le> length f \<Longrightarrow> take (slot_position (Suc n)) f = take (slot_position n) f @ slot_bytes f n"
  by (simp add: slot_position_simps subrange_def take_add)

lemma intact_prefix:
  assumes "valid_history img issued" and "m \<le> length issued" and "slot_position m \<le> length f"
    and "take BLOCK_SIZE f = encode_header crc img" and "\<And>i. i < m \<Longrightarrow> intact crc issued f i"
  shows "take (slot_position m) f = hist_bytes crc img (take m issued)"
  using assms(2,3,5)
proof (induction m)
  case 0
  then show ?case using assms(4) by (simp add: slot_position_def)
next
  case (Suc m)
  have i: "intact crc issued f m" using Suc.prems(3) by simp
  obtain r payload where x: "issued ! m = (r, payload)" by (cases "issued ! m")
  have "take (slot_position m) f = hist_bytes crc img (take m issued)" using Suc slot_position_simps(1) [of m] by simp
  moreover have "take (Suc m) issued = take m issued @ [(r, payload)]" using Suc.prems(1) x by (simp add: take_Suc_conv_app_nth)
  ultimately show ?case using take_slot [OF Suc.prems(2)] i x by (simp add: intact_def)
qed

lemma prefix_intact:
  assumes "valid_history img issued" and "k \<le> length issued" and "take (slot_position k) f = hist_bytes crc img (take k issued)" and "i < k"
  shows "intact crc issued f i" and "slot_position k \<le> length f" and "take BLOCK_SIZE f = encode_header crc img"
proof -
  have vh: "valid_history img (take k issued)" by (rule valid_history_take [OF assms(1)])
  have len: "length (hist_bytes crc img (take k issued)) = slot_position k" using hist_bytes_length [OF vh] assms(2) by simp
  then show "slot_position k \<le> length f" using arg_cong [OF assms(3), of length] by simp
  have "take BLOCK_SIZE f = take BLOCK_SIZE (take (slot_position k) f)" using slot_position_simps(2) [of k] by (simp add: min_def)
  then show "take BLOCK_SIZE f = encode_header crc img" using hist_bytes_header [OF vh] assms(3) by simp
  have "slot_position i + RECORD_SIZE \<le> slot_position k" using assms(4) slot_position_simps(1,3) [of i] slot_position_simps(3) [of "Suc i" k] by simp
  then have "slot_bytes f i = slot_bytes (take (slot_position k) f) i" by (simp add: subrange_def drop_take min_def)
  then show "intact crc issued f i"
    using hist_bytes_slot [OF vh, of i "fst (issued ! i)" "snd (issued ! i)" crc] assms by (simp add: intact_def)
qed

lemma committed_slots_parts:
  assumes "committed_slots crc io f n = Inr m"
  shows "m \<le> n" and "m \<noteq> 0 \<Longrightarrow> \<exists>r. decode crc (slot_bytes f (m - 1)) = Some r \<and> rc_kind r = RFence"
    and "\<And>i r. m \<le> i \<Longrightarrow> i < n \<Longrightarrow> decode crc (slot_bytes f i) = Some r \<Longrightarrow> rc_kind r \<noteq> RFence"
proof -
  have "m \<le> n \<and> (m \<noteq> 0 \<longrightarrow> (\<exists>r. decode crc (slot_bytes f (m - 1)) = Some r \<and> rc_kind r = RFence)) \<and>
    (\<forall>i r. m \<le> i \<and> i < n \<and> decode crc (slot_bytes f i) = Some r \<longrightarrow> rc_kind r \<noteq> RFence)"
    using assms
  proof (induction n)
    case (Suc n)
    show ?case
    proof (cases "case decode crc (slot_bytes f n) of None \<Rightarrow> False | Some r \<Rightarrow> rc_kind r = RFence")
      case True
      then have "m = Suc n" using Suc.prems by (auto simp: direct_read_def)
      then show ?thesis using True by (auto split: option.splits)
    next
      case False
      then have "committed_slots crc io f n = Inr m" using Suc.prems by (auto simp: direct_read_def)
      then show ?thesis using Suc.IH False by (auto simp: less_Suc_eq split: option.splits)
    qed
  qed simp
  then show "m \<le> n" and "m \<noteq> 0 \<Longrightarrow> \<exists>r. decode crc (slot_bytes f (m - 1)) = Some r \<and> rc_kind r = RFence"
    and "\<And>i r. m \<le> i \<Longrightarrow> i < n \<Longrightarrow> decode crc (slot_bytes f i) = Some r \<Longrightarrow> rc_kind r \<noteq> RFence" by blast+
qed

lemma replay_slots_append: "replay_slots crc io (xs @ ys) log = attempt (replay_slots crc io xs log) (replay_slots crc io ys)"
proof (induction xs arbitrary: log)
  case (Cons x xs)
  then show ?case by (cases "replay_slot crc io x log") simp_all
qed simp

definition replayed :: "StagingLog \<Rightarrow> history \<Rightarrow> StagingLog" where
  "replayed log rs = log\<lparr>sg_blocks := hist_blocks rs, sg_appended := hist_appended rs, sg_durable := hist_durable rs\<rparr>"

lemma replay_slot_intact:
  assumes "valid_history (sg_image_bytes log) issued" and "intact crc issued (sg_file log) i" and "i < length issued"
    and "direct_read io (sg_file log) (slot_position i) RECORD_SIZE = Inr (slot_bytes (sg_file log) i)"
  shows "replay_slot crc io i (replayed log (take i issued)) = Inr (replayed log (take (Suc i) issued))"
proof -
  obtain r payload where x: "issued ! i = (r, payload)" by (cases "issued ! i")
  have d: "decode crc (slot_bytes (sg_file log) i) = Some r" using intact_decode [OF assms(1,2)] x by simp
  have n: "next_record (sg_image_bytes log) (take i issued) r payload" by (rule valid_history_nth [OF assms(1,3) x])
  have t: "take (Suc i) issued = take i issued @ [(r, payload)]" using assms(3) x by (simp add: take_Suc_conv_app_nth)
  have lt: "length (take i issued) = i" using assms(3) by simp
  show ?thesis
  proof (cases "rc_kind r = RFence")
    case True
    then have "apply_record r p b = b" for p b by (simp add: apply_record_def)
    then show ?thesis using True n assms(4) by (simp add: replay_slot_def Let_def replayed_def d t next_record_def lt del: length_take)
  next
    case False
    then show ?thesis using n assms(4) by (simp add: replay_slot_def Let_def replayed_def d t next_record_def lt del: length_take)
  qed
qed

lemma replay_slots_parts:
  assumes "valid_history (sg_image_bytes log) issued" and "m \<le> length issued"
    and "\<And>i. i < m \<Longrightarrow> intact crc issued (sg_file log) i \<or> decode crc (slot_bytes (sg_file log) i) = None"
    and "replay_slots crc io [0..<m] (replayed log []) = Inr log'"
  shows "log' = replayed log (take m issued) \<and> (\<forall>i < m. intact crc issued (sg_file log) i)"
  using assms(2-4)
proof (induction m arbitrary: log')
  case (Suc m)
  obtain l1 where l1: "replay_slots crc io [0..<m] (replayed log []) = Inr l1" and s: "replay_slot crc io m l1 = Inr log'"
    using Suc.prems(3) by (auto simp: replay_slots_append split: if_splits)
  have ih: "l1 = replayed log (take m issued)" "\<forall>i < m. intact crc issued (sg_file log) i"
    using Suc.IH [OF _ _ l1] Suc.prems(1,2) by auto
  have rd: "direct_read io (sg_file log) (slot_position m) RECORD_SIZE = Inr (slot_bytes (sg_file log) m)"
    and dec: "decode crc (slot_bytes (sg_file log) m) \<noteq> None"
    using s by (auto simp: replay_slot_def Let_def ih(1) replayed_def direct_read_def)
  have "intact crc issued (sg_file log) m" using dec Suc.prems(2) [of m] by auto
  then show ?case
    using s ih replay_slot_intact [OF assms(1) _ _ rd] Suc.prems(1) by (auto simp: less_Suc_eq)
qed simp

lemma replay_slots_total:
  assumes "valid_history (sg_image_bytes log) issued" and "m \<le> length issued" and "\<And>i. i < m \<Longrightarrow> intact crc issued (sg_file log) i"
    and "slot_position m \<le> length (sg_file log)" and "\<And>p. io_read io p = Inr ()"
  shows "replay_slots crc io [0..<m] (replayed log []) = Inr (replayed log (take m issued))"
  using assms(2-4)
proof (induction m)
  case (Suc m)
  have rd: "direct_read io (sg_file log) (slot_position m) RECORD_SIZE = Inr (slot_bytes (sg_file log) m)"
    using Suc.prems(3) by (simp add: direct_read_def assms(5) slot_position_simps)
  have "replay_slots crc io [0..<m] (replayed log []) = Inr (replayed log (take m issued))"
    using Suc slot_position_simps(1) [of m] by simp
  then show ?case
    using replay_slot_intact [OF assms(1) _ _ rd] Suc.prems(1,2) by (simp add: replay_slots_append)
qed simp

lemma open_parts:
  assumes "valid_history img issued" and "fence_at issued k" and "crash_image crc img issued k f"
    and "StagingLog_open crc io opened set_len f = Inr log"
  obtains m where "k \<le> m" and "m \<le> length issued" and "fence_at issued m" and "\<forall>i < m. intact crc issued f i"
    and "sg_image_bytes log = img" and "\<not> sg_poisoned log" and "log_inv crc log (take m issued)"
    and "sg_durable log = hist_durable (take m issued)"
proof -
  have kl: "k \<le> length issued" using assms(2) by (auto simp: fence_at_def)
  have pre: "take (slot_position k) f = hist_bytes crc img (take k issued)" using assms(3) by (simp add: crash_image_def)
  have "length (hist_bytes crc img (take k issued)) = slot_position k"
    using hist_bytes_length [OF valid_history_take [OF assms(1)], of crc k] kl by simp
  then have fk: "slot_position k \<le> length f" using arg_cong [OF pre, of length] by simp
  have "take BLOCK_SIZE f = take BLOCK_SIZE (take (slot_position k) f)" using slot_position_simps(2) [of k] by (simp add: min_def)
  then have hd: "take BLOCK_SIZE f = encode_header crc img" using hist_bytes_header [OF valid_history_take [OF assms(1)]] pre by simp
  have bl: "BLOCK_SIZE \<le> length f" using fk slot_position_simps(2) [of k] by simp
  have dh: "decode_header crc (encode_header crc img) = Some img" using decode_header_encode(1) valid_history_img [OF assms(1)] by blast
  define log0 where "log0 m = (StagingLog_empty f img)\<lparr>sg_next_offset := BLOCK + word_of_nat (m * RECORD_SIZE)\<rparr>" for m
  obtain m l1 f' where m: "committed_slots crc io f ((length f - BLOCK_SIZE) div RECORD_SIZE) = Inr m"
    and l1: "replay_slots crc io [0..<m] (log0 m) = Inr l1" and f': "direct_truncate set_len f (sg_next_offset l1) = Inr f'"
    and log: "log = l1\<lparr>sg_recovered_tail_bytes := word_of_nat (length f) - sg_next_offset l1, sg_file := f'\<rparr>"
    using assms(4) bl by (auto simp: StagingLog_open_def Let_def direct_read_def subrange_def hd dh log0_def StagingLog_empty_def)
  note cs = committed_slots_parts [OF m]
  have fits: "slot_position i \<le> length f" if "i \<le> m" for i using slots_fit [OF bl, of i] cs(1) that by simp
  have slot: "intact crc issued f i \<or> decode crc (slot_bytes f i) = None" if "i < m" for i
    using assms(3) prefix_intact(1) [OF assms(1) kl pre, of i] fits [of "Suc i"] that by (cases "i < k") (auto simp: crash_image_def)
  have ml: "m \<le> length issued"
    using slot [of "m - 1"] cs(2) by (cases "m = 0") (auto simp: intact_def)
  have km: "k \<le> m"
  proof (rule ccontr)
    assume "\<not> k \<le> m"
    then have "m \<le> k - 1" "k - 1 < k" by auto
    moreover have "k - 1 < (length f - BLOCK_SIZE) div RECORD_SIZE" using slots_fit [OF bl, of k] fk \<open>\<not> k \<le> m\<close> by auto
    moreover have "decode crc (slot_bytes f (k - 1)) = Some (fst (issued ! (k - 1)))"
      by (rule intact_decode [OF assms(1) prefix_intact(1) [OF assms(1) kl pre]]) (use \<open>\<not> k \<le> m\<close> in simp)
    ultimately show False using cs(3) assms(2) by (auto simp: fence_at_def)
  qed
  have e: "replayed (log0 m) [] = log0 m" by (simp add: replayed_def log0_def StagingLog_empty_def)
  have r: "l1 = replayed (log0 m) (take m issued)" "\<forall>i < m. intact crc issued f i"
    using replay_slots_parts [of "log0 m" issued m crc io l1] assms(1) ml slot l1 unfolding e by (auto simp: log0_def StagingLog_empty_def)
  have fa: "fence_at issued m"
    using cs(2) ml r(2) intact_decode [OF assms(1), of crc f "m - 1"] by (cases "m = 0") (auto simp: fence_at_def)
  have sz: "slot_position m < 2 ^ 64" using valid_history_size [OF valid_history_take [OF assms(1)], of m] ml by simp
  have nx: "sg_next_offset l1 = word_of_nat (slot_position m)"
    by (simp add: r(1) replayed_def log0_def slot_position_def BLOCK_SIZE_def)
  have tk: "take (slot_position m) f = hist_bytes crc img (take m issued)"
    using intact_prefix [OF assms(1) ml _ hd] fits [of m] r(2) by simp
  have "f' = take (slot_position m) f"
    using f' fits [of m] by (auto simp: direct_truncate_def nx unat_slot_position [OF sz])
  then have fl: "f' = hist_bytes crc img (take m issued)" by (simp add: tk)
  show thesis
  proof (rule that [OF km ml fa r(2)])
    show "log_inv crc log (take m issued)"
      using valid_history_take [OF assms(1)] ml nx fl hist_bytes_length [OF valid_history_take [OF assms(1)], of crc m]
      by (simp add: log_inv_def log r(1) replayed_def log0_def StagingLog_empty_def)
  qed (simp_all add: log r(1) replayed_def log0_def StagingLog_empty_def)
qed

section \<open>Every history\<close>

text \<open>
  The steps of a log: an accepted or failed append of a data record, a flush that issues a fence, and reopening after a
  crash. The third argument counts the slots the last successful sync covers.
\<close>

inductive slog_reach :: "(bytes \<Rightarrow> u32) \<Rightarrow> StagingLog \<Rightarrow> history \<Rightarrow> nat \<Rightarrow> bool" for crc where
  create: "StagingLog_create crc io opened parent img = Inr log \<Longrightarrow> slog_reach crc log [] 0"
| append: "slog_reach crc log issued k \<Longrightarrow> \<not> sg_poisoned log \<Longrightarrow> kind \<noteq> RFence \<Longrightarrow>
    validate_range (sg_image_bytes log) offset len = Inr () \<Longrightarrow> slot_record_ok (record_of log kind offset len) payload \<Longrightarrow>
    StagingLog_append crc io log kind offset len payload = (log', result) \<Longrightarrow> result \<noteq> Inl SgExhausted \<Longrightarrow>
    slog_reach crc log' (issued @ [(record_of log kind offset len, payload)]) k"
| flush: "slog_reach crc log issued k \<Longrightarrow> \<not> sg_poisoned log \<Longrightarrow> sg_appended log \<noteq> sg_durable log \<Longrightarrow>
    StagingLog_flush crc io log = (log', result) \<Longrightarrow> result \<noteq> Inl SgExhausted \<Longrightarrow>
    slog_reach crc log' (issued @ [(record_of log RFence 0 0, [])]) (case result of Inr _ \<Rightarrow> Suc (length issued) | Inl _ \<Rightarrow> k)"
| reopen: "slog_reach crc log issued k \<Longrightarrow> crash_image crc (sg_image_bytes log) issued k f \<Longrightarrow>
    StagingLog_open crc io opened set_len f = Inr log' \<Longrightarrow> m \<le> length issued \<Longrightarrow> sg_next_offset log' = word_of_nat (slot_position m) \<Longrightarrow>
    slog_reach crc log' (take m issued) m"

lemma slot_position_inject:
  assumes "slot_position m < 2 ^ 64" and "slot_position n < 2 ^ 64" and "(word_of_nat (slot_position m) :: u64) = word_of_nat (slot_position n)"
  shows "m = n"
  using arg_cong [OF assms(3), of unat] unat_slot_position [OF assms(1)] unat_slot_position [OF assms(2)]
  by (simp add: slot_position_def RECORD_SIZE_def BLOCK_SIZE_def)

lemma create_inv: "StagingLog_create crc io opened parent img = Inr log \<Longrightarrow> staging_log_inv crc log [] 0"
proof -
  assume "StagingLog_create crc io opened parent img = Inr log"
  then have "img > 0" "is_multiple_of img BLOCK" and log: "log = StagingLog_empty (encode_header crc img) img"
    by (auto simp: StagingLog_create_def direct_write_def overwrite_def word_gt_0 split: if_splits sum.splits)
  then show ?thesis
    using decode_header_encode(2) [of img crc]
    by (simp add: staging_log_inv_def log_inv_def fence_at_def StagingLog_empty_def slot_position_def valid_history.none BLOCK_SIZE_def)
qed

lemma inv_live: "staging_log_inv crc log issued k \<Longrightarrow> \<not> sg_poisoned log \<Longrightarrow> log_inv crc log issued"
  by (simp add: staging_log_inv_def)

lemma fence_at_append: "fence_at issued k \<Longrightarrow> fence_at (issued @ xs) k"
  by (auto simp: fence_at_def nth_append)

lemma fence_at_le: "fence_at issued k \<Longrightarrow> k \<le> length issued"
  by (auto simp: fence_at_def)

lemma append_inv:
  assumes "staging_log_inv crc log issued k" and "\<not> sg_poisoned log" and "kind \<noteq> RFence"
    and "validate_range (sg_image_bytes log) offset len = Inr ()" and "slot_record_ok (record_of log kind offset len) payload"
    and "StagingLog_append crc io log kind offset len payload = (log', result)" and "result \<noteq> Inl SgExhausted"
  shows "staging_log_inv crc log' (issued @ [(record_of log kind offset len, payload)]) k"
proof (rule append_parts [OF inv_live [OF assms(1,2)] assms(2,5,4,6)])
  have k: "k \<le> length issued" "fence_at issued k" using assms(1) fence_at_le by (auto simp: staging_log_inv_def)
  fix e
  assume "sg_poisoned log'" "log_inv crc log' issued" "valid_history (sg_image_bytes log) (issued @ [(record_of log kind offset len, payload)])"
    "sg_image_bytes log' = sg_image_bytes log" "sg_durable log' = sg_durable log"
  then show ?thesis using assms(1) k fence_at_append by (auto simp: staging_log_inv_def)
next
  have k: "k \<le> length issued" "fence_at issued k" using assms(1) fence_at_le by (auto simp: staging_log_inv_def)
  fix s
  assume s: "\<not> sg_poisoned log'" "log_inv crc log' (issued @ [(record_of log kind offset len, payload)])"
    "sg_image_bytes log' = sg_image_bytes log" "sg_durable log' = sg_durable log"
  have "valid_history (sg_image_bytes log') (issued @ [(record_of log kind offset len, payload)])" using s(2) by (simp add: log_inv_def)
  then show ?thesis
    using assms(1-3) k fence_at_append s by (auto simp: staging_log_inv_def nth_append less_Suc_eq record_of_def)
qed (use assms(7) in simp)

lemma poison_inv: "log_inv crc log rs \<Longrightarrow> log_inv crc (log\<lparr>sg_poisoned := True\<rparr>) rs" "log_inv crc (log\<lparr>sg_durable := d\<rparr>) rs = log_inv crc log rs"
  by (simp_all add: log_inv_def)

lemma flush_inv:
  assumes "staging_log_inv crc log issued k" and "\<not> sg_poisoned log" and "sg_appended log \<noteq> sg_durable log"
    and "StagingLog_flush crc io log = (log', result)" and "result \<noteq> Inl SgExhausted"
  shows "staging_log_inv crc log' (issued @ [(record_of log RFence 0 0, [])]) (case result of Inr _ \<Rightarrow> Suc (length issued) | Inl _ \<Rightarrow> k)"
    and "\<And>d. result = Inr d \<Longrightarrow> sg_durable log' = sg_appended log' \<and> d = sg_durable log'"
proof -
  let ?x = "(record_of log RFence 0 0, [])"
  have k: "k \<le> length issued" "fence_at issued k" using assms(1) fence_at_le by (auto simp: staging_log_inv_def)
  obtain log1 res where a: "StagingLog_append crc io log RFence 0 0 [] = (log1, res)" by (cases "StagingLog_append crc io log RFence 0 0 []")
  have f: "(log', result) = (case res of Inl e \<Rightarrow> (log1, Inl e) | Inr _ \<Rightarrow> (case io_sync io of
       Inl e \<Rightarrow> (log1\<lparr>sg_poisoned := True\<rparr>, Inl (SgIo e)) | Inr _ \<Rightarrow> (log1\<lparr>sg_durable := sg_appended log1\<rparr>, Inr (sg_appended log1))))"
    using assms(2-4) a by (simp add: StagingLog_flush_def StagingLog_healthy_def split: sum.splits)
  have ok: "slot_record_ok (record_of log RFence 0 0) []" by (simp add: slot_record_ok_def record_of_def)
  have "staging_log_inv crc log' (issued @ [?x]) (case result of Inr _ \<Rightarrow> Suc (length issued) | Inl _ \<Rightarrow> k) \<and>
      (\<forall>d. result = Inr d \<longrightarrow> sg_durable log' = sg_appended log' \<and> d = sg_durable log')"
  proof (rule append_parts [OF inv_live [OF assms(1,2)] assms(2) ok _ a])
    assume "log1 = log" "res = Inl SgExhausted"
    then show ?thesis using f assms(5) by simp
  next
    fix e
    assume e: "res = Inl (SgIo e)" "sg_poisoned log1" "log_inv crc log1 issued" "valid_history (sg_image_bytes log) (issued @ [?x])"
      "sg_image_bytes log1 = sg_image_bytes log" "sg_durable log1 = sg_durable log"
    then have "log' = log1" "result = Inl (SgIo e)" using f by auto
    then show ?thesis using assms(1) e k fence_at_append by (auto simp: staging_log_inv_def)
  next
    fix s
    assume s: "res = Inr s" "\<not> sg_poisoned log1" "log_inv crc log1 (issued @ [?x])"
      "sg_image_bytes log1 = sg_image_bytes log" "sg_durable log1 = sg_durable log"
    have vh: "valid_history (sg_image_bytes log) (issued @ [?x])" using s(3,4) by (simp add: log_inv_def)
    show ?thesis
    proof (cases "io_sync io")
      case (Inl e)
      then have "log' = log1\<lparr>sg_poisoned := True\<rparr>" "result = Inl (SgIo e)" using f s(1) by auto
      then show ?thesis using assms(1) s vh k fence_at_append poison_inv(1) [OF s(3)] by (auto simp: staging_log_inv_def)
    next
      case (Inr u)
      then have l: "log' = log1\<lparr>sg_durable := sg_appended log1\<rparr>" "result = Inr (sg_appended log1)" using f s(1) by auto
      have "sg_appended log1 = hist_appended issued" using s(3) by (simp add: log_inv_def record_of_def)
      moreover have "sg_appended log = hist_appended issued" using inv_live [OF assms(1,2)] by (simp add: log_inv_def)
      ultimately show ?thesis
        using s vh l by (auto simp: staging_log_inv_def poison_inv(2) fence_at_def record_of_def nth_append)
    qed
  qed simp
  then show "staging_log_inv crc log' (issued @ [?x]) (case result of Inr _ \<Rightarrow> Suc (length issued) | Inl _ \<Rightarrow> k)"
    and "\<And>d. result = Inr d \<Longrightarrow> sg_durable log' = sg_appended log' \<and> d = sg_durable log'" by blast+
qed

lemma slog_reach_inv: "slog_reach crc log issued k \<Longrightarrow> staging_log_inv crc log issued k"
proof (induction rule: slog_reach.induct)
  case (create io opened parent img log)
  then show ?case by (rule create_inv)
next
  case (append log issued k kind offset len payload io log' result)
  then show ?case by (intro append_inv)
next
  case (flush log issued k io log' result)
  then show ?case by (intro flush_inv)
next
  case (reopen log issued k f io opened set_len log' m)
  have vh: "valid_history (sg_image_bytes log) issued" and fa: "fence_at issued k" using reopen.IH by (auto simp: staging_log_inv_def)
  obtain m' where m': "m' \<le> length issued" "fence_at issued m'" "sg_image_bytes log' = sg_image_bytes log" "\<not> sg_poisoned log'"
    "log_inv crc log' (take m' issued)" "sg_durable log' = hist_durable (take m' issued)"
    by (rule open_parts [OF vh fa reopen.hyps(2,3)])
  have "sg_next_offset log' = word_of_nat (slot_position m')" using m'(1,5) by (simp add: log_inv_def)
  then have "m = m'"
    using reopen.hyps(4,5) m'(1) valid_history_size [OF valid_history_take [OF vh], of m] valid_history_size [OF valid_history_take [OF vh], of m']
    by (intro slot_position_inject) simp_all
  then show ?case
    using m' vh valid_history_take [OF vh, of m'] by (cases "m' = 0") (auto simp: staging_log_inv_def fence_at_def)
qed

text \<open>The public operations are runs of these steps.\<close>

lemma append_blocks_reach:
  assumes "slog_reach crc log issued k" and "\<not> sg_poisoned log" and "append_blocks crc io offset index blocks log = (log', result)"
    and "\<forall>b \<in> set blocks. length b = BLOCK_SIZE"
    and "\<And>i. index \<le> i \<Longrightarrow> i < index + length blocks \<Longrightarrow>
      validate_range (sg_image_bytes log) (offset + word_of_nat (i * BLOCK_SIZE)) BLOCK = Inr ()"
  shows "\<exists>new. slog_reach crc log' (issued @ new) k \<and> (result = Inr () \<longrightarrow> \<not> sg_poisoned log' \<and>
    map (\<lambda>(r, payload). (rc_kind r, rc_offset r, payload)) new =
      map (\<lambda>i. (RWrite, offset + word_of_nat ((index + i) * BLOCK_SIZE), blocks ! i)) [0..<length blocks])"
  using assms
proof (induction blocks arbitrary: index log issued)
  case Nil
  then show ?case by (intro exI [of _ "[]"]) auto
next
  case (Cons b blocks)
  let ?off = "offset + word_of_nat (index * BLOCK_SIZE)"
  let ?x = "(record_of log RWrite ?off BLOCK, b)"
  obtain log1 res where a: "StagingLog_append crc io log RWrite ?off BLOCK b = (log1, res)" by (cases "StagingLog_append crc io log RWrite ?off BLOCK b")
  have ok: "slot_record_ok (record_of log RWrite ?off BLOCK) b" using Cons.prems(4) by (simp add: slot_record_ok_def record_of_def)
  have v: "validate_range (sg_image_bytes log) ?off BLOCK = Inr ()" using Cons.prems(5) [of index] by simp
  have li: "log_inv crc log issued" by (rule inv_live [OF slog_reach_inv [OF Cons.prems(1)] Cons.prems(2)])
  have st: "slog_reach crc log1 (issued @ [?x]) k" if "res \<noteq> Inl SgExhausted"
    by (rule slog_reach.append [OF Cons.prems(1,2) _ v ok a that]) simp
  show ?case
  proof (rule append_parts [OF li Cons.prems(2) ok v a])
    assume "log1 = log" "res = Inl SgExhausted"
    then show ?thesis using Cons.prems(1,3) a by (intro exI [of _ "[]"]) auto
  next
    fix e
    assume "res = Inl (SgIo e)"
    then show ?thesis using st Cons.prems(3) a by (intro exI [of _ "[?x]"]) auto
  next
    fix s
    assume s: "res = Inr s" "\<not> sg_poisoned log1" "sg_image_bytes log1 = sg_image_bytes log"
    have "append_blocks crc io offset (index + 1) blocks log1 = (log', result)" using Cons.prems(3) a s(1) by simp
    then obtain new where new: "slog_reach crc log' ((issued @ [?x]) @ new) k" "result = Inr () \<longrightarrow> \<not> sg_poisoned log' \<and>
        map (\<lambda>(r, payload). (rc_kind r, rc_offset r, payload)) new =
        map (\<lambda>i. (RWrite, offset + word_of_nat ((index + 1 + i) * BLOCK_SIZE), blocks ! i)) [0..<length blocks]"
      using Cons.IH [of log1 "issued @ [?x]" "index + 1"] st s Cons.prems(4,5) by auto
    have "[0..<Suc (length blocks)] = 0 # map Suc [0..<length blocks]" by (simp add: map_Suc_upt upt_conv_Cons del: upt_Suc)
    then show ?thesis
      using new by (intro exI [of _ "?x # new"]) (simp add: record_of_def comp_def distrib_right add_ac del: upt_Suc)
  qed
qed

lemma validate_range_iff:
  "validate_range img offset len = Inr () \<longleftrightarrow> 4096 dvd unat offset \<and> 4096 dvd unat len \<and> unat offset + unat len < 2 ^ 64 \<and>
     unat offset + unat len \<le> unat img"
  by (auto simp: validate_range_def is_multiple_of_BLOCK checked_add_def unat_add_u64 word_le_nat_alt word_less_nat_alt split: option.splits)

lemma block_offset:
  assumes "validate_range img offset (word_of_nat n) = Inr ()" and "n < 2 ^ 64" and "i < n div BLOCK_SIZE"
  shows "unat (offset + word_of_nat (i * BLOCK_SIZE)) = unat offset + i * BLOCK_SIZE"
    and "validate_range img (offset + word_of_nat (i * BLOCK_SIZE)) BLOCK = Inr ()"
proof -
  have n: "unat (word_of_nat n :: u64) = n" using assms(2) by (simp add: unat_of_nat take_bit_nat_eq_self)
  have v: "4096 dvd unat offset" "unat offset + n < 2 ^ 64" "unat offset + n \<le> unat img"
    using assms(1) unfolding validate_range_iff n by auto
  have i: "Suc i * 4096 \<le> n" using assms(3) by (simp add: BLOCK_SIZE_def less_eq_div_iff_mult_less_eq Suc_le_eq [symmetric] del: mult_Suc)
  then have "i * 4096 < 2 ^ 64" using assms(2) by simp
  then have u: "unat (word_of_nat (i * BLOCK_SIZE) :: u64) = i * BLOCK_SIZE"
    by (simp add: unat_of_nat take_bit_nat_eq_self BLOCK_SIZE_def del: of_nat_mult)
  show o: "unat (offset + word_of_nat (i * BLOCK_SIZE)) = unat offset + i * BLOCK_SIZE"
    using v(2) i unat_add_u64 [of offset "word_of_nat (i * BLOCK_SIZE)"] unfolding u by (simp add: BLOCK_SIZE_def)
  show "validate_range img (offset + word_of_nat (i * BLOCK_SIZE)) BLOCK = Inr ()"
    unfolding validate_range_iff o using v i by (simp add: BLOCK_SIZE_def)
qed

text \<open>Consecutive blocks, written to an image.\<close>

lemma hist_image_blocks:
  assumes "map (\<lambda>(r, payload). (rc_kind r, rc_offset r, payload)) new = map (\<lambda>i. (RWrite, at i, block i)) [0..<n]"
    and "\<And>i j. i < n \<Longrightarrow> j < n \<Longrightarrow> at i = at j \<Longrightarrow> i = j"
  shows "(\<forall>i < n. hist_image (rs @ new) (at i) = block i) \<and> (\<forall>b. b \<notin> at ` {0..<n} \<longrightarrow> hist_image (rs @ new) b = hist_image rs b)"
  using assms
proof (induction n arbitrary: new)
  case (Suc n)
  obtain new' r payload where new: "new = new' @ [(r, payload)]"
    using Suc.prems(1) by (cases new rule: rev_cases) auto
  have x: "rc_kind r = RWrite" "rc_offset r = at n" "payload = block n"
    and n: "map (\<lambda>(r, payload). (rc_kind r, rc_offset r, payload)) new' = map (\<lambda>i. (RWrite, at i, block i)) [0..<n]"
    using Suc.prems(1) by (auto simp: new)
  have ih: "\<forall>i < n. hist_image (rs @ new') (at i) = block i" "\<forall>b. b \<notin> at ` {0..<n} \<longrightarrow> hist_image (rs @ new') b = hist_image rs b"
    using Suc.IH [OF n] Suc.prems(2) by auto
  have eq: "hist_image (rs @ new) b = (if b = at n then block n else hist_image (rs @ new') b)" for b
    using x hist_snoc(1) [of "rs @ new'" r payload b] by (simp add: new)
  have "hist_image (rs @ new) (at i) = block i" if "i < Suc n" for i
  proof (cases "i = n")
    case False
    then have "at i \<noteq> at n" "i < n" using Suc.prems(2) [of i n] that by auto
    then show ?thesis using ih(1) by (simp add: eq)
  qed (simp add: eq)
  moreover have "hist_image (rs @ new) b = hist_image rs b" if "b \<notin> at ` {0..<Suc n}" for b
  proof -
    have "b \<noteq> at n" "b \<notin> at ` {0..<n}" using that by auto
    then show ?thesis using ih(2) by (simp add: eq)
  qed
  ultimately show ?case by blast
qed simp

lemma read_block:
  assumes "log_inv crc log issued" and "\<not> sg_poisoned log" and "\<And>p. io_read io p = Inr ()"
  shows "(case sg_blocks log b of
          None \<Rightarrow> Inr (replicate BLOCK_SIZE 0)
        | Some position \<Rightarrow>
            attempt (direct_read io (sg_file log) (unat position) RECORD_SIZE) (\<lambda>buffer.
            attempt (ok_or (decode crc buffer) (SgCorrupt position)) (\<lambda>r.
            if rc_kind r \<noteq> RWrite \<or> rc_offset r \<noteq> b then Inl (SgCorrupt position)
            else Inr (drop BLOCK_SIZE buffer)))) = Inr (hist_image issued b)"
proof -
  let ?img = "sg_image_bytes log"
  have vh: "valid_history ?img issued" and bl: "sg_blocks log = hist_blocks issued" and fl: "sg_file log = hist_bytes crc ?img issued"
    using assms(1,2) by (auto simp: log_inv_def)
  show ?thesis
  proof (cases "hist_blocks issued b")
    case None
    then show ?thesis using hist_blocks_image [OF vh, of b] by (simp add: bl)
  next
    case (Some position)
    then obtain i r payload where p: "i < length issued" "issued ! i = (r, payload)" "position = word_of_nat (slot_position i)"
      "rc_kind r = RWrite" "rc_offset r = b" "hist_image issued b = payload"
      using hist_blocks_image [OF vh, of b] by (auto simp: points_def)
    have le: "slot_position i + RECORD_SIZE \<le> slot_position (length issued)"
      using p(1) slot_position_simps(1) [of i] slot_position_simps(3) [of "Suc i" "length issued"] by simp
    have pos: "unat position = slot_position i"
      unfolding p(3) using le valid_history_size [OF vh] by (intro unat_slot_position) simp
    have rd: "direct_read io (sg_file log) (unat position) RECORD_SIZE = Inr (encode crc r payload)"
      using le hist_bytes_length [OF vh] hist_bytes_slot [OF vh p(1,2)] by (simp add: direct_read_def assms(3) pos fl)
    have ok: "slot_record_ok r payload" using valid_history_nth [OF vh p(1,2)] by (simp add: next_record_def)
    then have "drop BLOCK_SIZE (encode crc r payload) = payload"
      using encode_layout(8) [of payload crc r] p(4) by (simp add: slot_record_ok_def)
    then show ?thesis using Some rd decode_encode [OF ok] p by (simp add: bl)
  qed
qed

lemma read_blocks_image:
  assumes "log_inv crc log issued" and "\<not> sg_poisoned log" and "\<And>p. io_read io p = Inr ()"
  shows "read_blocks crc io log offset is = Inr (concat (map (\<lambda>i. hist_image issued (offset + word_of_nat (i * BLOCK_SIZE))) is))"
proof (induction "is")
  case (Cons i "is")
  show ?case unfolding read_blocks.simps Let_def read_block [OF assms] by (simp add: Cons)
qed simp

text \<open>
  Reads return the image. In every history of writes, zeroes, flushes, failures, crashes and reopenings, a valid read of a
  healthy log returns, block by block, what the last issued record over the block says, and zeros where there is none.
\<close>
theorem staging_log_reads:
  assumes "slog_reach crc log issued k" and "\<not> sg_poisoned log" and "\<And>p. io_read io p = Inr ()"
    and "validate_range (sg_image_bytes log) offset (word_of_nat len) = Inr ()" and "len \<le> MAX_REQUEST_BYTES"
  shows "StagingLog_read crc io log offset len =
    Inr (concat (map (\<lambda>i. hist_image issued (offset + word_of_nat (i * BLOCK_SIZE))) [0..<len div BLOCK_SIZE]))"
  using assms(2,4,5) read_blocks_image [OF inv_live [OF slog_reach_inv [OF assms(1)] assms(2)] assms(2,3)]
  by (simp add: StagingLog_read_def StagingLog_healthy_def)

text \<open>
  A write that succeeds changes exactly its range: afterwards the log's history gives each block of the range the
  corresponding block of the buffer and every other block what it held, without touching the synced prefix.
\<close>
theorem staging_log_writes:
  assumes "slog_reach crc log issued k" and "StagingLog_write crc io log offset bs = (log', Inr v)"
  shows "\<exists>new. slog_reach crc log' (issued @ new) k \<and> \<not> sg_poisoned log' \<and>
    (\<forall>i < length bs div BLOCK_SIZE. hist_image (issued @ new) (offset + word_of_nat (i * BLOCK_SIZE)) = subrange bs (i * BLOCK_SIZE) BLOCK_SIZE) \<and>
    (\<forall>b. b \<notin> (\<lambda>i. offset + word_of_nat (i * BLOCK_SIZE)) ` {0..<length bs div BLOCK_SIZE} \<longrightarrow>
       hist_image (issued @ new) b = hist_image issued b)"
proof -
  let ?at = "\<lambda>i. offset + word_of_nat (i * BLOCK_SIZE) :: u64"
  have pre: "\<not> sg_poisoned log" "validate_range (sg_image_bytes log) offset (word_of_nat (length bs)) = Inr ()" "length bs \<le> MAX_REQUEST_BYTES"
    and ab: "append_blocks crc io offset 0 (as_chunks bs) log = (log', Inr ())"
    using assms(2) by (auto simp: StagingLog_write_def StagingLog_healthy_def split: sum.splits prod.splits if_splits)
  have len: "length bs < 2 ^ 64" using pre(3) by (simp add: MAX_REQUEST_BYTES_def)
  have n: "length (as_chunks bs) = length bs div BLOCK_SIZE" by (simp add: as_chunks_def)
  have bl: "\<forall>b \<in> set (as_chunks bs). length b = BLOCK_SIZE"
  proof -
    have "i * BLOCK_SIZE + BLOCK_SIZE \<le> length bs" if "i < length bs div BLOCK_SIZE" for i
      using that by (simp add: BLOCK_SIZE_def less_eq_div_iff_mult_less_eq Suc_le_eq [symmetric])
    then show ?thesis by (auto simp: as_chunks_def)
  qed
  obtain new where new: "slog_reach crc log' (issued @ new) k" "\<not> sg_poisoned log'"
    "map (\<lambda>(r, payload). (rc_kind r, rc_offset r, payload)) new =
      map (\<lambda>i. (RWrite, ?at i, as_chunks bs ! i)) [0..<length bs div BLOCK_SIZE]"
  proof -
    have "\<exists>new. slog_reach crc log' (issued @ new) k \<and> ((Inr () :: unit sresult) = Inr () \<longrightarrow> \<not> sg_poisoned log' \<and>
        map (\<lambda>(r, payload). (rc_kind r, rc_offset r, payload)) new =
        map (\<lambda>i. (RWrite, offset + word_of_nat ((0 + i) * BLOCK_SIZE), as_chunks bs ! i)) [0..<length (as_chunks bs)])"
      by (rule append_blocks_reach [OF assms(1) pre(1) ab bl]) (use block_offset(2) [OF pre(2) len] n in simp)
    then show thesis using that unfolding n add_0 by blast
  qed
  have inj: "i = j" if "i < length bs div BLOCK_SIZE" "j < length bs div BLOCK_SIZE" "?at i = ?at j" for i j
  proof -
    have "unat offset + i * BLOCK_SIZE = unat offset + j * BLOCK_SIZE"
      using arg_cong [OF that(3), of unat] unfolding block_offset(1) [OF pre(2) len that(1)] block_offset(1) [OF pre(2) len that(2)] .
    then show ?thesis by (simp add: BLOCK_SIZE_def)
  qed
  show ?thesis
    using hist_image_blocks [OF new(3) inj] new(1,2) by (intro exI [of _ new]) (simp add: as_chunks_def)
qed

text \<open>
  C34. Synced data survives every crash. Whatever a crash leaves behind the last successful sync, a log that opens again is healthy,
  holds a prefix of what was issued that covers everything synced, ends in a fence so that all of it is durable,
  and is itself a log of that shorter history; its reads are those of the recovered prefix.
\<close>
theorem staging_log_recovers:
  assumes "slog_reach crc log issued k" and "crash_image crc (sg_image_bytes log) issued k f"
    and "StagingLog_open crc io opened set_len f = Inr log'"
  shows "\<exists>m. k \<le> m \<and> m \<le> length issued \<and> slog_reach crc log' (take m issued) m \<and> \<not> sg_poisoned log' \<and>
    sg_image_bytes log' = sg_image_bytes log \<and> sg_durable log' = sg_appended log' \<and> (\<forall>i < m. intact crc issued f i)"
proof -
  have inv: "staging_log_inv crc log issued k" by (rule slog_reach_inv [OF assms(1)])
  then have vh: "valid_history (sg_image_bytes log) issued" and fa: "fence_at issued k" by (auto simp: staging_log_inv_def)
  obtain m where m: "k \<le> m" "m \<le> length issued" "fence_at issued m" "\<forall>i < m. intact crc issued f i" "sg_image_bytes log' = sg_image_bytes log"
    "\<not> sg_poisoned log'" "log_inv crc log' (take m issued)" "sg_durable log' = hist_durable (take m issued)"
    by (rule open_parts [OF vh fa assms(2,3)])
  have nx: "sg_next_offset log' = word_of_nat (slot_position m)" using m(2,7) by (simp add: log_inv_def)
  have "hist_durable (take m issued) = hist_appended (take m issued)"
  proof (cases m)
    case (Suc n)
    then obtain r payload where x: "issued ! n = (r, payload)" and kind: "rc_kind r = RFence" using m(3) by (cases "issued ! n") (auto simp: fence_at_def)
    have "next_record (sg_image_bytes log) (take n issued) r payload" using valid_history_nth [OF vh _ x] m(2) Suc by simp
    then show ?thesis using kind x m(2) Suc by (simp add: take_Suc_conv_app_nth next_record_def)
  qed simp
  then have "sg_durable log' = sg_appended log'" using m(7,8) by (simp add: log_inv_def)
  then show ?thesis using m slog_reach.reopen [OF assms m(2) nx] by blast
qed

lemma committed_slots_total:
  assumes "\<And>p. io_read io p = Inr ()" and "slot_position n \<le> length f"
  shows "\<exists>m. committed_slots crc io f n = Inr m"
  using assms(2)
proof (induction n)
  case (Suc n)
  then show ?case by (simp add: direct_read_def assms(1) slot_position_simps)
qed simp

text \<open>
  A crash that tears only the tail never keeps a log from opening: if reads, truncation and sync succeed and no fence
  on disk comes after a torn slot, the log opens.
\<close>
theorem staging_log_reopens:
  assumes "slog_reach crc log issued k" and "crash_image crc (sg_image_bytes log) issued k f" and "length f \<le> 2 ^ 63 - 1"
    and "\<And>j r i. slot_position (Suc j) \<le> length f \<Longrightarrow> decode crc (slot_bytes f j) = Some r \<Longrightarrow> rc_kind r = RFence \<Longrightarrow> i < j \<Longrightarrow> intact crc issued f i"
    and "\<And>p. io_read io p = Inr ()" and "io_sync io = Inr ()"
  shows "\<exists>log'. StagingLog_open crc io (Inr ()) (Inr ()) f = Inr log'"
proof -
  let ?img = "sg_image_bytes log"
  have inv: "staging_log_inv crc log issued k" by (rule slog_reach_inv [OF assms(1)])
  then have vh: "valid_history ?img issued" and fa: "fence_at issued k" by (auto simp: staging_log_inv_def)
  have kl: "k \<le> length issued" by (rule fence_at_le [OF fa])
  have pre: "take (slot_position k) f = hist_bytes crc ?img (take k issued)" using assms(2) by (simp add: crash_image_def)
  have fk: "slot_position k \<le> length f"
    using hist_bytes_length [OF valid_history_take [OF vh], of crc k] kl arg_cong [OF pre, of length] by simp
  have "take BLOCK_SIZE f = take BLOCK_SIZE (take (slot_position k) f)" using slot_position_simps(2) [of k] by (simp add: min_def)
  then have hd: "take BLOCK_SIZE f = encode_header crc ?img" using hist_bytes_header [OF valid_history_take [OF vh]] pre by simp
  have bl: "BLOCK_SIZE \<le> length f" using fk slot_position_simps(2) [of k] by simp
  have dh: "decode_header crc (encode_header crc ?img) = Some ?img" using decode_header_encode(1) valid_history_img [OF vh] by blast
  let ?n = "(length f - BLOCK_SIZE) div RECORD_SIZE"
  obtain m where m: "committed_slots crc io f ?n = Inr m"
    using committed_slots_total [of io ?n f crc, OF assms(5)] slots_fit [OF bl, of ?n] by auto
  note cs = committed_slots_parts [OF m]
  have fm: "slot_position m \<le> length f" using slots_fit [OF bl] cs(1) by blast
  have good: "intact crc issued f i" if i: "i < m" for i
  proof -
    obtain r where r: "decode crc (slot_bytes f (m - 1)) = Some r" "rc_kind r = RFence" using cs(2) i by auto
    have f1: "slot_position (Suc (m - 1)) \<le> length f" using fm i by simp
    show ?thesis
    proof (cases "i = m - 1")
      case True
      have "i < k \<or> intact crc issued f i \<or> decode crc (slot_bytes f i) = None"
        using assms(2) f1 True unfolding crash_image_def by (metis not_less)
      then show ?thesis using r(1) True prefix_intact(1) [OF vh kl pre, of i] by auto
    qed (use assms(4) [OF f1 r, of i] i in simp)
  qed
  have ml: "m \<le> length issued" using good [of "m - 1"] by (cases "m = 0") (auto simp: intact_def)
  define log0 where "log0 = (StagingLog_empty f ?img)\<lparr>sg_next_offset := BLOCK + word_of_nat (m * RECORD_SIZE)\<rparr>"
  have rp: "replay_slots crc io [0..<m] log0 = Inr (replayed log0 (take m issued))"
    using replay_slots_total [of log0 issued m crc io] vh ml good fm assms(5)
    by (simp add: log0_def StagingLog_empty_def replayed_def)
  have u: "unat (word_of_nat (slot_position m) :: u64) = slot_position m"
    using fm assms(3) by (intro unat_slot_position) simp
  have "4096 dvd slot_position m" by (simp add: slot_position_def RECORD_SIZE_def BLOCK_SIZE_def)
  then have tr: "\<exists>f'. direct_truncate (Inr ()) f (word_of_nat (slot_position m)) = Inr f'"
    using fm assms(3) by (simp add: direct_truncate_def is_multiple_of_BLOCK u word_le_nat_alt)
  have nx: "sg_next_offset (replayed log0 (take m issued)) = word_of_nat (slot_position m)" by (simp add: replayed_def log0_def slot_position_def BLOCK_SIZE_def)
  show ?thesis
    using bl m rp tr assms(5,6) by (simp add: StagingLog_open_def Let_def direct_read_def subrange_def hd dh nx
        log0_def [unfolded StagingLog_empty_def, simplified, symmetric] StagingLog_empty_def)
qed

text \<open>An image of two blocks: created, written once, and reopened after a crash that lost the unsynced write.\<close>

definition demo_slog_io :: StagingIo where
  "demo_slog_io = \<lparr>io_read = (\<lambda>_. Inr ()), io_write = (\<lambda>_. Inr ()), io_torn = (\<lambda>_. []), io_sync = Inr ()\<rparr>"

definition demo_slog :: StagingLog where
  "demo_slog = StagingLog_empty (encode_header (\<lambda>_. 0) 8192) 8192"

definition demo_block :: bytes where
  "demo_block = replicate BLOCK_SIZE 7"

lemma demo_slog_reach: "slog_reach (\<lambda>_. 0) demo_slog [] 0"
  by (rule slog_reach.create [of _ demo_slog_io "Inr ()" "Inr ()" 8192])
    (simp add: StagingLog_create_def demo_slog_io_def demo_slog_def direct_write_def overwrite_def is_multiple_of_def)

lemma demo_reopens: "\<exists>log. StagingLog_open (\<lambda>_. 0) demo_slog_io (Inr ()) (Inr ()) (encode_header (\<lambda>_. 0) 8192) = Inr log"
proof -
  have "decode_header (\<lambda>_. 0) (encode_header (\<lambda>_. 0) 8192) = Some 8192" "length (encode_header (\<lambda>_. 0) 8192) = BLOCK_SIZE"
    by (rule decode_header_encode; simp add: is_multiple_of_def)+
  then show ?thesis
    by (simp add: StagingLog_open_def direct_read_def demo_slog_io_def Let_def subrange_def StagingLog_empty_def direct_truncate_def is_multiple_of_def BLOCK_SIZE_def)
qed

lemma demo_slog_crash: "crash_image (\<lambda>_. 0) 8192 [] 0 (encode_header (\<lambda>_. 0) 8192)"
proof -
  have "length (encode_header (\<lambda>_. 0) 8192) = BLOCK_SIZE" by (rule decode_header_encode(2)) (simp_all add: is_multiple_of_def)
  then show ?thesis by (simp add: crash_image_def slot_position_def RECORD_SIZE_def BLOCK_SIZE_def)
qed

lemma demo_write: "\<exists>log v. StagingLog_write (\<lambda>_. 0) demo_slog_io demo_slog 0 demo_block = (log, Inr v)"
proof -
  have "as_chunks demo_block = [demo_block]" by (simp add: as_chunks_def demo_block_def BLOCK_SIZE_def subrange_def)
  moreover have "validate_range 8192 0 (word_of_nat (length demo_block)) = Inr ()"
    by (simp add: validate_range_iff demo_block_def BLOCK_SIZE_def)
  moreover have "length demo_block \<le> MAX_REQUEST_BYTES" by (simp add: demo_block_def BLOCK_SIZE_def MAX_REQUEST_BYTES_def)
  ultimately show ?thesis
    by (simp add: StagingLog_write_def StagingLog_healthy_def demo_slog_def StagingLog_empty_def StagingLog_append_def checked_add_def
        Let_def direct_write_def demo_slog_io_def RECORD_SIZE_def BLOCK_SIZE_def)
qed

theorem staging_log_reads_witness:
  "StagingLog_read (\<lambda>_. 0) demo_slog_io demo_slog 4096 4096 = Inr (replicate BLOCK_SIZE 0)"
proof -
  have "validate_range (sg_image_bytes demo_slog) 4096 (word_of_nat 4096) = Inr ()"
    by (simp add: demo_slog_def StagingLog_empty_def validate_range_iff)
  then show ?thesis
    using staging_log_reads [OF demo_slog_reach, of demo_slog_io 4096 4096]
    by (simp add: demo_slog_def StagingLog_empty_def demo_slog_io_def MAX_REQUEST_BYTES_def BLOCK_SIZE_def)
qed

theorem staging_log_writes_witness:
  "\<exists>log new. slog_reach (\<lambda>_. 0) log new 0 \<and> hist_image new 0 = demo_block \<and> hist_image new 4096 = replicate BLOCK_SIZE 0"
proof -
  obtain log v where w: "StagingLog_write (\<lambda>_. 0) demo_slog_io demo_slog 0 demo_block = (log, Inr v)" using demo_write by blast
  have n: "length demo_block div BLOCK_SIZE = 1" "subrange demo_block 0 BLOCK_SIZE = demo_block"
    by (simp_all add: demo_block_def BLOCK_SIZE_def subrange_def)
  obtain new where "slog_reach (\<lambda>_. 0) log new 0" "hist_image new 0 = demo_block" "\<forall>b. b \<noteq> 0 \<longrightarrow> hist_image new b = replicate BLOCK_SIZE 0"
    using staging_log_writes [OF demo_slog_reach w] unfolding n(1) by (auto simp: n(2))
  moreover have "(4096 :: u64) \<noteq> 0" by simp
  ultimately show ?thesis by blast
qed

theorem staging_log_recovers_witness:
  "\<exists>log. StagingLog_open (\<lambda>_. 0) demo_slog_io (Inr ()) (Inr ()) (encode_header (\<lambda>_. 0) 8192) = Inr log \<and> slog_reach (\<lambda>_. 0) log [] 0 \<and>
     sg_durable log = sg_appended log"
proof -
  obtain log where o: "StagingLog_open (\<lambda>_. 0) demo_slog_io (Inr ()) (Inr ()) (encode_header (\<lambda>_. 0) 8192) = Inr log" using demo_reopens by blast
  have "crash_image (\<lambda>_. 0) (sg_image_bytes demo_slog) [] 0 (encode_header (\<lambda>_. 0) 8192)"
    using demo_slog_crash by (simp add: demo_slog_def StagingLog_empty_def)
  from staging_log_recovers [OF demo_slog_reach this o] show ?thesis using o by auto
qed

theorem staging_log_reopens_witness:
  "\<exists>log. StagingLog_open (\<lambda>_. 0) demo_slog_io (Inr ()) (Inr ()) (encode_header (\<lambda>_. 0) 8192) = Inr log"
proof -
  have len: "length (encode_header (\<lambda>_. 0) 8192) = BLOCK_SIZE" by (rule decode_header_encode(2)) (simp_all add: is_multiple_of_def)
  have "crash_image (\<lambda>_. 0) (sg_image_bytes demo_slog) [] 0 (encode_header (\<lambda>_. 0) 8192)"
    using demo_slog_crash by (simp add: demo_slog_def StagingLog_empty_def)
  then show ?thesis
    by (rule staging_log_reopens [OF demo_slog_reach])
      (use len in \<open>auto simp: demo_slog_io_def BLOCK_SIZE_def slot_position_def RECORD_SIZE_def\<close>)
qed

end
