(* ===== verification/Inflight.thy ===== *)
theory Inflight
  imports Encoding "HOL-Library.Sublist"
begin

unbundle bit_operations_syntax

text \<open>
  The inflight carrier of the daemon, \<^verbatim>\<open>daemon/src/inflight.rs\<close> with \<^verbatim>\<open>inflight/layout.rs\<close>: metadata in a shared
  mapping that outlives the daemon, so that a replacement can complete what its predecessor had accepted.
  The mapping is a record of atomics. An operation reads it and yields the list of its stores, in program
  order and with their memory orderings, beside its result; running the stores gives the mapping after it, and
  a death of the daemon inside it leaves what \<open>crashed\<close> describes: the stores up to some point, and any of the relaxed
  stores that follow before the next release.
\<close>

section \<open>Geometry and layout\<close>

definition PAGE :: nat where "PAGE = 4096"
definition MAGIC :: nat where "MAGIC = nat_of_le (ascii ''CASIFL03'')"
definition VERSION :: nat where "VERSION = 3"
definition REJECTED :: u32 where "REJECTED = 1"
definition EMPTY :: nat where "EMPTY = 0"
definition PREPARED :: nat where "PREPARED = 1"
definition ACTIVE :: nat where "ACTIVE = 2"
definition DISCOVERED :: nat where "DISCOVERED = 3"

definition size_of_Queue :: nat where "size_of_Queue = 16"
definition size_of_Descriptor :: nat where "size_of_Descriptor = 16"
definition size_of_Slot :: nat where "size_of_Slot = 128"

lemmas slot_states = EMPTY_def PREPARED_def ACTIVE_def DISCOVERED_def
lemmas layout_sizes = PAGE_def size_of_Queue_def size_of_Descriptor_def size_of_Slot_def

record Geometry =
  ge_queues :: nat
  ge_queue_size :: nat

definition is_power_of_two :: "nat \<Rightarrow> bool" where
  "is_power_of_two n \<longleftrightarrow> n \<in> set (map (\<lambda>i. 2 ^ i) [0..<16])"

definition Geometry_new :: "nat \<Rightarrow> nat \<Rightarrow> Geometry result" where
  "Geometry_new queues queue_size =
     (if \<not> (1 \<le> queues \<and> queues \<le> 4) \<or> \<not> is_power_of_two queue_size \<or> queue_size > 256
      then Inl (InvalidData ''unsupported inflight queue geometry'')
      else Inr \<lparr>ge_queues = queues, ge_queue_size = queue_size\<rparr>)"

definition Geometry_stride :: "Geometry \<Rightarrow> nat" where
  "Geometry_stride g = next_multiple_of (size_of_Queue + ge_queue_size g * size_of_Descriptor) 64"

definition Geometry_trailer :: "Geometry \<Rightarrow> nat" where
  "Geometry_trailer g = next_multiple_of (Geometry_stride g * ge_queues g) PAGE"

definition Geometry_bytes :: "Geometry \<Rightarrow> nat" where
  "Geometry_bytes g =
     next_multiple_of (Geometry_trailer g + PAGE + ge_queues g * ge_queue_size g * size_of_Slot) PAGE"

record VhostUserInflight =
  vi_mmap_size :: nat
  vi_mmap_offset :: nat
  vi_num_queues :: nat
  vi_queue_size :: nat

definition Geometry_message :: "Geometry \<Rightarrow> VhostUserInflight" where
  "Geometry_message g = \<lparr>vi_mmap_size = Geometry_bytes g, vi_mmap_offset = 0,
     vi_num_queues = ge_queues g, vi_queue_size = ge_queue_size g\<rparr>"

definition Geometry_check :: "Geometry \<Rightarrow> nat \<Rightarrow> nat \<Rightarrow> unit result" where
  "Geometry_check g queue head =
     (if queue \<ge> ge_queues g \<or> head \<ge> ge_queue_size g then Inl (InvalidData ''inflight queue or head out of bounds'')
      else Inr ())"

text \<open>Where the mapping holds the objects, from \<^verbatim>\<open>Carrier::queue\<close>, \<^verbatim>\<open>descriptor\<close>, \<^verbatim>\<open>header\<close> and \<^verbatim>\<open>slot\<close>: offset and size.\<close>

datatype Region = QueueAt nat | DescriptorAt nat nat | HeaderAt | SlotAt nat nat

fun region_bytes :: "Geometry \<Rightarrow> Region \<Rightarrow> nat \<times> nat" where
  "region_bytes g (QueueAt queue) = (queue * Geometry_stride g, size_of_Queue)"
| "region_bytes g (DescriptorAt queue head) =
     (queue * Geometry_stride g + size_of_Queue + head * size_of_Descriptor, size_of_Descriptor)"
| "region_bytes g HeaderAt = (Geometry_trailer g, PAGE)"
| "region_bytes g (SlotAt queue head) =
     (Geometry_trailer g + PAGE + (queue * ge_queue_size g + head) * size_of_Slot, size_of_Slot)"

fun region_valid :: "Geometry \<Rightarrow> Region \<Rightarrow> bool" where
  "region_valid g (QueueAt queue) \<longleftrightarrow> Geometry_check g queue 0 = Inr ()"
| "region_valid g (DescriptorAt queue head) \<longleftrightarrow> Geometry_check g queue head = Inr ()"
| "region_valid g HeaderAt \<longleftrightarrow> True"
| "region_valid g (SlotAt queue head) \<longleftrightarrow> Geometry_check g queue head = Inr ()"

text \<open>\<^verbatim>\<open>align_of\<close>: a 64-bit atomic in each, and the alignment a slot declares.\<close>

fun region_align :: "Region \<Rightarrow> nat" where
  "region_align (SlotAt queue head) = 64"
| "region_align _ = 8"

section \<open>Requests and entries\<close>

datatype RequestKind = KindRead | KindWrite | KindZero | KindFlush | KindProtocol | KindDiscard | KindZeroUnmap

fun Kind_code :: "RequestKind \<Rightarrow> nat" where
  "Kind_code KindRead = 1"
| "Kind_code KindWrite = 2"
| "Kind_code KindZero = 3"
| "Kind_code KindFlush = 4"
| "Kind_code KindProtocol = 5"
| "Kind_code KindDiscard = 6"
| "Kind_code KindZeroUnmap = 7"

definition Kind_try_from :: "nat \<Rightarrow> RequestKind result" where
  "Kind_try_from v =
     (if v = 1 then Inr KindRead else if v = 2 then Inr KindWrite else if v = 3 then Inr KindZero
      else if v = 4 then Inr KindFlush else if v = 5 then Inr KindProtocol else if v = 6 then Inr KindDiscard
      else if v = 7 then Inr KindZeroUnmap else Inl (InvalidData ''unknown inflight request kind''))"

definition Kind_zero :: "RequestKind \<Rightarrow> bool" where
  "Kind_zero k \<longleftrightarrow> k \<in> {KindZero, KindDiscard, KindZeroUnmap}"

record InflightRequest =
  rq_kind :: RequestKind
  rq_queue :: nat
  rq_head :: nat
  rq_available :: u16
  rq_offset :: nat
  rq_length :: nat

definition Request_mutates :: "InflightRequest \<Rightarrow> bool" where
  "Request_mutates r \<longleftrightarrow> (rq_kind r = KindWrite \<or> Kind_zero (rq_kind r)) \<and> rq_length r \<noteq> 0"

definition Request_validate :: "InflightRequest \<Rightarrow> nat \<Rightarrow> unit result" where
  "Request_validate r image_bytes =
     (if rq_kind r \<in> {KindFlush, KindProtocol} \<and> rq_offset r = 0 \<and> rq_length r = 0 then Inr ()
      else if rq_kind r \<in> {KindRead, KindWrite, KindZero, KindDiscard, KindZeroUnmap}
      then (if rq_offset r mod BLOCK_SIZE \<noteq> 0 \<or> rq_length r mod BLOCK_SIZE \<noteq> 0
               \<or> (case nchecked_add (rq_offset r) (rq_length r) of None \<Rightarrow> True | Some e \<Rightarrow> e > image_bytes)
               \<or> (\<not> Kind_zero (rq_kind r) \<and> (rq_length r = 0 \<or> rq_length r > MAX_REQUEST_BYTES))
            then Inl (InvalidData ''invalid inflight logical range'')
            else Inr ())
      else Inl (InvalidData ''control request has a payload range''))"

record InflightEntry =
  en_request :: InflightRequest
  en_serial :: nat
  en_mutation :: nat
  en_boundary :: nat
  en_attachment :: nat
  en_rejected :: bool
  en_discovery :: nat

definition required_publication :: "InflightEntry \<Rightarrow> nat" where
  "required_publication e =
     (if en_rejected e then 0
      else if rq_kind (en_request e) \<in> {KindRead, KindFlush} then en_boundary e
      else en_mutation e)"

section \<open>The shared mapping\<close>

record QueueHeader =
  qh_features :: nat
  qh_version :: nat
  qh_descriptors :: nat
  qh_last_head :: nat
  qh_used :: u16

record InflightDescriptor =
  de_inflight :: nat
  de_reserved :: bytes
  de_next :: nat
  de_counter :: nat

record InflightHeader =
  ih_magic :: nat
  ih_version :: nat
  ih_bytes :: nat
  ih_store :: "nat list"
  ih_image :: "nat list"
  ih_epoch :: nat
  ih_attachment :: nat
  ih_queues :: nat
  ih_queue_size :: nat
  ih_slot_size :: nat
  ih_failed :: nat
  ih_serial :: nat
  ih_mutation :: nat
  ih_published :: nat
  ih_available :: "nat \<Rightarrow> nat"
  ih_discovery :: nat
  ih_reserved :: bytes

record InflightSlot =
  sl_state :: nat
  sl_kind :: nat
  sl_queue :: nat
  sl_head :: nat
  sl_available :: u16
  sl_flags :: u32
  sl_serial :: nat
  sl_mutation :: nat
  sl_boundary :: nat
  sl_offset :: nat
  sl_length :: nat
  sl_attachment :: nat
  sl_discovery :: nat
  sl_tail :: bytes

record InflightMapping =
  mp_header :: InflightHeader
  mp_queues :: "nat \<Rightarrow> QueueHeader"
  mp_descriptors :: "nat \<Rightarrow> nat \<Rightarrow> InflightDescriptor"
  mp_slots :: "nat \<Rightarrow> nat \<Rightarrow> InflightSlot"

record Identity =
  id_store :: bytes
  id_image :: bytes
  id_epoch :: nat
  id_attachment :: nat

record Carrier =
  ca_geometry :: Geometry
  ca_identity :: Identity
  ca_image_bytes :: nat

section \<open>Stores\<close>

text \<open>
  One constructor per atomic that an operation writes. \<open>GuestUsed\<close> is the guest's own used index, which the completion
  publishes in guest memory.
\<close>

datatype Target =
    HeaderFailed nat
  | HeaderSerial nat
  | HeaderMutation nat
  | HeaderPublished nat
  | HeaderDiscovery nat
  | HeaderAvailable nat nat
  | QueueDescriptors nat nat
  | QueueVersion nat nat
  | QueueUsed nat u16
  | QueueLastHead nat nat
  | DescriptorInflight nat nat nat
  | DescriptorNext nat nat nat
  | DescriptorCounter nat nat nat
  | SlotState nat nat nat
  | SlotKind nat nat nat
  | SlotQueue nat nat nat
  | SlotHead nat nat nat
  | SlotAvailable nat nat u16
  | SlotFlags nat nat u32
  | SlotSerial nat nat nat
  | SlotMutation nat nat nat
  | SlotBoundary nat nat nat
  | SlotOffset nat nat nat
  | SlotLength nat nat nat
  | SlotAttachment nat nat nat
  | SlotDiscovery nat nat nat
  | GuestUsed nat u16

datatype Ordering = Relaxed | Release

type_synonym effect = "Ordering \<times> Target"
type_synonym 'a op = "effect list \<times> 'a result"

record CarrierWorld =
  wo_mapping :: InflightMapping
  wo_guest :: "nat \<Rightarrow> u16"

definition on_header :: "(InflightHeader \<Rightarrow> InflightHeader) \<Rightarrow> InflightMapping \<Rightarrow> InflightMapping" where
  "on_header f m = m\<lparr>mp_header := f (mp_header m)\<rparr>"

definition on_queue :: "nat \<Rightarrow> (QueueHeader \<Rightarrow> QueueHeader) \<Rightarrow> InflightMapping \<Rightarrow> InflightMapping" where
  "on_queue q f m = m\<lparr>mp_queues := (mp_queues m)(q := f (mp_queues m q))\<rparr>"

definition on_descriptor :: "nat \<Rightarrow> nat \<Rightarrow> (InflightDescriptor \<Rightarrow> InflightDescriptor) \<Rightarrow> InflightMapping \<Rightarrow> InflightMapping" where
  "on_descriptor q h f m =
     m\<lparr>mp_descriptors := (mp_descriptors m)(q := (mp_descriptors m q)(h := f (mp_descriptors m q h)))\<rparr>"

definition on_slot :: "nat \<Rightarrow> nat \<Rightarrow> (InflightSlot \<Rightarrow> InflightSlot) \<Rightarrow> InflightMapping \<Rightarrow> InflightMapping" where
  "on_slot q h f m = m\<lparr>mp_slots := (mp_slots m)(q := (mp_slots m q)(h := f (mp_slots m q h)))\<rparr>"

fun store_mapping :: "Target \<Rightarrow> InflightMapping \<Rightarrow> InflightMapping" where
  "store_mapping (HeaderFailed v) = on_header (ih_failed_update (\<lambda>_. v))"
| "store_mapping (HeaderSerial v) = on_header (ih_serial_update (\<lambda>_. v))"
| "store_mapping (HeaderMutation v) = on_header (ih_mutation_update (\<lambda>_. v))"
| "store_mapping (HeaderPublished v) = on_header (ih_published_update (\<lambda>_. v))"
| "store_mapping (HeaderDiscovery v) = on_header (ih_discovery_update (\<lambda>_. v))"
| "store_mapping (HeaderAvailable q v) = on_header (ih_available_update (\<lambda>a. a(q := v)))"
| "store_mapping (QueueDescriptors q v) = on_queue q (qh_descriptors_update (\<lambda>_. v))"
| "store_mapping (QueueVersion q v) = on_queue q (qh_version_update (\<lambda>_. v))"
| "store_mapping (QueueUsed q v) = on_queue q (qh_used_update (\<lambda>_. v))"
| "store_mapping (QueueLastHead q v) = on_queue q (qh_last_head_update (\<lambda>_. v))"
| "store_mapping (DescriptorInflight q h v) = on_descriptor q h (de_inflight_update (\<lambda>_. v))"
| "store_mapping (DescriptorNext q h v) = on_descriptor q h (de_next_update (\<lambda>_. v))"
| "store_mapping (DescriptorCounter q h v) = on_descriptor q h (de_counter_update (\<lambda>_. v))"
| "store_mapping (SlotState q h v) = on_slot q h (sl_state_update (\<lambda>_. v))"
| "store_mapping (SlotKind q h v) = on_slot q h (sl_kind_update (\<lambda>_. v))"
| "store_mapping (SlotQueue q h v) = on_slot q h (sl_queue_update (\<lambda>_. v))"
| "store_mapping (SlotHead q h v) = on_slot q h (sl_head_update (\<lambda>_. v))"
| "store_mapping (SlotAvailable q h v) = on_slot q h (sl_available_update (\<lambda>_. v))"
| "store_mapping (SlotFlags q h v) = on_slot q h (sl_flags_update (\<lambda>_. v))"
| "store_mapping (SlotSerial q h v) = on_slot q h (sl_serial_update (\<lambda>_. v))"
| "store_mapping (SlotMutation q h v) = on_slot q h (sl_mutation_update (\<lambda>_. v))"
| "store_mapping (SlotBoundary q h v) = on_slot q h (sl_boundary_update (\<lambda>_. v))"
| "store_mapping (SlotOffset q h v) = on_slot q h (sl_offset_update (\<lambda>_. v))"
| "store_mapping (SlotLength q h v) = on_slot q h (sl_length_update (\<lambda>_. v))"
| "store_mapping (SlotAttachment q h v) = on_slot q h (sl_attachment_update (\<lambda>_. v))"
| "store_mapping (SlotDiscovery q h v) = on_slot q h (sl_discovery_update (\<lambda>_. v))"
| "store_mapping (GuestUsed q v) = (\<lambda>m. m)"

definition run_mapping :: "effect list \<Rightarrow> InflightMapping \<Rightarrow> InflightMapping" where
  "run_mapping es m = fold (\<lambda>e. store_mapping (snd e)) es m"

fun store_guest :: "Target \<Rightarrow> (nat \<Rightarrow> u16) \<Rightarrow> nat \<Rightarrow> u16" where
  "store_guest (GuestUsed q v) g = g(q := v)"
| "store_guest _ g = g"

definition store :: "Target \<Rightarrow> CarrierWorld \<Rightarrow> CarrierWorld" where
  "store t w = \<lparr>wo_mapping = store_mapping t (wo_mapping w), wo_guest = store_guest t (wo_guest w)\<rparr>"

definition run :: "effect list \<Rightarrow> CarrierWorld \<Rightarrow> CarrierWorld" where
  "run es w = fold (\<lambda>e. store (snd e)) es w"

text \<open>What a death of the daemon can leave of the stores \<open>es\<close>.\<close>

definition crashed :: "effect list \<Rightarrow> CarrierWorld \<Rightarrow> CarrierWorld \<Rightarrow> bool" where
  "crashed es w w' \<longleftrightarrow> (\<exists>ds rs ps. es = ds @ rs \<and> subseq ps (takeWhile (\<lambda>e. fst e = Relaxed) rs) \<and> w' = run (ds @ ps) w)"

text \<open>\<^verbatim>\<open>?\<close> between two parts of an operation.\<close>

definition and_then :: "'a op \<Rightarrow> ('a \<Rightarrow> 'b op) \<Rightarrow> 'b op" where
  "and_then p k = (case snd p of Inl e \<Rightarrow> (fst p, Inl e) | Inr x \<Rightarrow> (fst p @ fst (k x), snd (k x)))"

definition guarded :: "'a result \<Rightarrow> ('a \<Rightarrow> 'b op) \<Rightarrow> 'b op" where
  "guarded r k = (case r of Inl e \<Rightarrow> ([], Inl e) | Inr x \<Rightarrow> k x)"

section \<open>Reading the mapping\<close>

definition Carrier_healthy :: "InflightMapping \<Rightarrow> unit result" where
  "Carrier_healthy m =
     (if ih_failed (mp_header m) \<noteq> 0 then Inl (InvalidData ''FAILED attachment requires explicit recovery or a fresh reset'')
      else Inr ())"

definition Carrier_published :: "InflightMapping \<Rightarrow> nat" where
  "Carrier_published m = ih_published (mp_header m)"

definition Carrier_available :: "Carrier \<Rightarrow> InflightMapping \<Rightarrow> nat \<Rightarrow> u16 result" where
  "Carrier_available c m queue =
     attempt (Geometry_check (ca_geometry c) queue 0) (\<lambda>_.
       let v = ih_available (mp_header m) queue in
       if v < 2 ^ 16 then Inr (of_nat v) else Inl (InvalidData ''inflight available cursor exceeds u16''))"

definition Carrier_queue_initialized :: "Carrier \<Rightarrow> InflightMapping \<Rightarrow> nat \<Rightarrow> bool result" where
  "Carrier_queue_initialized c m queue =
     attempt (Geometry_check (ca_geometry c) queue 0) (\<lambda>_. Inr (qh_version (mp_queues m queue) = 1))"

text \<open>\<^verbatim>\<open>Carrier::read_slot\<close> after the slot is located. A discovered slot owns only its request, never the counters.\<close>

definition slot_request :: "RequestKind \<Rightarrow> InflightSlot \<Rightarrow> InflightRequest" where
  "slot_request kind s = \<lparr>rq_kind = kind, rq_queue = sl_queue s, rq_head = sl_head s, rq_available = sl_available s,
     rq_offset = sl_offset s, rq_length = sl_length s\<rparr>"

definition expected_mutation :: "InflightEntry \<Rightarrow> nat option" where
  "expected_mutation e =
     (if Request_mutates (en_request e) \<and> \<not> en_rejected e then nchecked_add (en_boundary e) 1 else Some 0)"

definition decode_admitted :: "Carrier \<Rightarrow> nat \<Rightarrow> nat \<Rightarrow> InflightSlot \<Rightarrow> InflightRequest \<Rightarrow> (nat \<times> InflightEntry) option result" where
  "decode_admitted c queue head s request =
     (let entry = \<lparr>en_request = request, en_serial = sl_serial s, en_mutation = sl_mutation s,
            en_boundary = sl_boundary s, en_attachment = sl_attachment s,
            en_rejected = (sl_flags s AND REJECTED \<noteq> 0), en_discovery = sl_discovery s\<rparr> in
      if rq_queue request \<noteq> queue \<or> rq_head request \<noteq> head \<or> en_attachment entry \<noteq> id_attachment (ca_identity c)
         \<or> en_serial entry = 0 \<or> sl_discovery s = 0 \<or> Some (en_mutation entry) \<noteq> expected_mutation entry
      then Inl (InvalidData ''inflight slot identity or mutation differs'')
      else Inr (Some (sl_state s, entry)))"

definition decode_discovered :: "Carrier \<Rightarrow> nat \<Rightarrow> nat \<Rightarrow> InflightSlot \<Rightarrow> InflightRequest \<Rightarrow> (nat \<times> InflightEntry) option result" where
  "decode_discovered c queue head s request =
     (if rq_queue request \<noteq> queue \<or> rq_head request \<noteq> head \<or> sl_attachment s \<noteq> id_attachment (ca_identity c)
         \<or> sl_discovery s = 0
      then Inl (InvalidData ''discovered descriptor identity differs'')
      else Inr (Some (sl_state s, \<lparr>en_request = request, en_serial = 0, en_mutation = 0, en_boundary = 0,
             en_attachment = id_attachment (ca_identity c), en_rejected = False, en_discovery = sl_discovery s\<rparr>)))"

definition slot_decode :: "Carrier \<Rightarrow> nat \<Rightarrow> nat \<Rightarrow> InflightSlot \<Rightarrow> (nat \<times> InflightEntry) option result" where
  "slot_decode c queue head s =
     (if sl_flags s AND NOT REJECTED \<noteq> 0 \<or> \<not> all_zero (sl_tail s)
      then Inl (InvalidData ''nonzero reserved inflight slot bytes'')
      else if sl_state s = EMPTY then Inr None
      else if sl_state s \<noteq> PREPARED \<and> sl_state s \<noteq> ACTIVE \<and> sl_state s \<noteq> DISCOVERED
      then Inl (InvalidData ''unknown inflight slot state'')
      else attempt (Kind_try_from (sl_kind s)) (\<lambda>kind.
        attempt (Request_validate (slot_request kind s) (ca_image_bytes c)) (\<lambda>_.
          if sl_state s = DISCOVERED then decode_discovered c queue head s (slot_request kind s)
          else decode_admitted c queue head s (slot_request kind s))))"

definition Carrier_read_slot :: "Carrier \<Rightarrow> InflightMapping \<Rightarrow> nat \<Rightarrow> nat \<Rightarrow> (nat \<times> InflightEntry) option result" where
  "Carrier_read_slot c m queue head =
     attempt (Geometry_check (ca_geometry c) queue head) (\<lambda>_. slot_decode c queue head (mp_slots m queue head))"

text \<open>The heads in the order of the nested loops over queues and heads.\<close>

definition heads :: "Geometry \<Rightarrow> (nat \<times> nat) list" where
  "heads g = List.product [0..<ge_queues g] [0..<ge_queue_size g]"

fun oldest_live :: "Carrier \<Rightarrow> InflightMapping \<Rightarrow> (nat \<times> nat) list \<Rightarrow> nat option \<Rightarrow> nat option result" where
  "oldest_live c m [] oldest = Inr oldest"
| "oldest_live c m ((queue, head) # hs) oldest =
     attempt (Carrier_read_slot c m queue head) (\<lambda>slot.
       oldest_live c m hs (case slot of
           None \<Rightarrow> oldest
         | Some (_, entry) \<Rightarrow>
             if en_mutation entry \<noteq> 0
             then Some (case oldest of None \<Rightarrow> en_mutation entry | Some old \<Rightarrow> min old (en_mutation entry))
             else oldest))"

definition Carrier_oldest_live_mutation :: "Carrier \<Rightarrow> InflightMapping \<Rightarrow> nat option result" where
  "Carrier_oldest_live_mutation c m =
     attempt (Carrier_healthy m) (\<lambda>_. oldest_live c m (heads (ca_geometry c)) None)"

section \<open>Operations\<close>

definition zero_mapping :: InflightMapping where
  "zero_mapping = \<lparr>
     mp_header = \<lparr>ih_magic = 0, ih_version = 0, ih_bytes = 0, ih_store = [0, 0], ih_image = [0, 0], ih_epoch = 0,
       ih_attachment = 0, ih_queues = 0, ih_queue_size = 0, ih_slot_size = 0, ih_failed = 0, ih_serial = 0, ih_mutation = 0,
       ih_published = 0, ih_available = (\<lambda>_. 0), ih_discovery = 0, ih_reserved = replicate (PAGE - 128) 0\<rparr>,
     mp_queues = (\<lambda>_. \<lparr>qh_features = 0, qh_version = 0, qh_descriptors = 0, qh_last_head = 0, qh_used = 0\<rparr>),
     mp_descriptors = (\<lambda>_ _. \<lparr>de_inflight = 0, de_reserved = replicate 5 0, de_next = 0, de_counter = 0\<rparr>),
     mp_slots = (\<lambda>_ _. \<lparr>sl_state = 0, sl_kind = 0, sl_queue = 0, sl_head = 0, sl_available = 0, sl_flags = 0, sl_serial = 0,
       sl_mutation = 0, sl_boundary = 0, sl_offset = 0, sl_length = 0, sl_attachment = 0, sl_discovery = 0, sl_tail = replicate 56 0\<rparr>)\<rparr>"

text \<open>A new carrier writes its header in a zero-filled file that nobody else knows yet.\<close>

definition Carrier_create :: "unit result \<Rightarrow> unit result \<Rightarrow> Geometry \<Rightarrow> Identity \<Rightarrow> nat \<Rightarrow> nat \<Rightarrow> (Carrier \<times> InflightMapping) result" where
  "Carrier_create credit opened geometry identity image_bytes recovered =
     attempt credit (\<lambda>_. attempt opened (\<lambda>_.
       Inr (\<lparr>ca_geometry = geometry, ca_identity = identity, ca_image_bytes = image_bytes\<rparr>,
         on_header (\<lambda>header. header\<lparr>
           ih_version := VERSION, ih_bytes := PAGE,
           ih_store := map nat_of_le (chunks 8 (id_store identity)),
           ih_image := map nat_of_le (chunks 8 (id_image identity)),
           ih_epoch := id_epoch identity, ih_attachment := id_attachment identity,
           ih_queues := ge_queues geometry, ih_queue_size := ge_queue_size geometry, ih_slot_size := size_of_Slot,
           ih_mutation := recovered, ih_published := recovered, ih_magic := MAGIC\<rparr>) zero_mapping)))"

definition Carrier_fail :: "unit op" where
  "Carrier_fail = ([(Release, HeaderFailed 1)], Inr ())"

definition Carrier_publish :: "InflightMapping \<Rightarrow> nat \<Rightarrow> unit op" where
  "Carrier_publish m p =
     guarded (Carrier_healthy m) (\<lambda>_.
       if p < Carrier_published m \<or> p > ih_mutation (mp_header m)
       then ([], Inl (InvalidData ''published prefix outside issued mutation range''))
       else ([(Release, HeaderPublished p)], Inr ()))"

definition Carrier_initialize_queue :: "Carrier \<Rightarrow> InflightMapping \<Rightarrow> nat \<Rightarrow> u16 \<Rightarrow> u16 \<Rightarrow> unit op" where
  "Carrier_initialize_queue c m queue available used =
     guarded (Carrier_healthy m) (\<lambda>_. guarded (Geometry_check (ca_geometry c) queue 0) (\<lambda>_.
       if qh_version (mp_queues m queue) \<noteq> 0 then ([], Inl (InvalidData ''inflight queue already initialized''))
       else ([(Relaxed, QueueDescriptors queue (ge_queue_size (ca_geometry c))), (Relaxed, QueueUsed queue used),
              (Relaxed, HeaderAvailable queue (unat available)), (Release, QueueVersion queue 1)], Inr ())))"

fun queue_quiesced :: "InflightMapping \<Rightarrow> nat \<Rightarrow> nat list \<Rightarrow> bool" where
  "queue_quiesced m queue [] \<longleftrightarrow> True"
| "queue_quiesced m queue (head # hs) \<longleftrightarrow>
     \<not> (sl_state (mp_slots m queue head) \<noteq> EMPTY \<or> de_inflight (mp_descriptors m queue head) \<noteq> 0) \<and> queue_quiesced m queue hs"

definition Carrier_reset_queue :: "Carrier \<Rightarrow> InflightMapping \<Rightarrow> nat \<Rightarrow> u16 \<Rightarrow> u16 \<Rightarrow> unit op" where
  "Carrier_reset_queue c m queue available used =
     guarded (Carrier_healthy m) (\<lambda>_. guarded (Geometry_check (ca_geometry c) queue 0) (\<lambda>_.
       if qh_version (mp_queues m queue) \<noteq> 1 then ([], Inl (InvalidData ''cannot reset an uninitialized inflight queue''))
       else if \<not> queue_quiesced m queue [0..<ge_queue_size (ca_geometry c)]
       then ([], Inl (InvalidData ''cannot reset a queue with outstanding ownership''))
       else ([(Release, QueueUsed queue used), (Release, HeaderAvailable queue (unat available))], Inr ())))"

definition finish_discovery :: "InflightRequest \<Rightarrow> nat \<Rightarrow> effect list" where
  "finish_discovery request discovery =
     [(Release, HeaderDiscovery discovery), (Release, HeaderAvailable (rq_queue request) (unat (rq_available request + 1)))]"

definition discovery_stores :: "Carrier \<Rightarrow> InflightRequest \<Rightarrow> nat \<Rightarrow> effect list" where
  "discovery_stores c request discovery = (let queue = rq_queue request; head = rq_head request in
     [(Relaxed, SlotKind queue head (Kind_code (rq_kind request))), (Relaxed, SlotQueue queue head queue),
      (Relaxed, SlotHead queue head head), (Relaxed, SlotAvailable queue head (rq_available request)),
      (Relaxed, SlotOffset queue head (rq_offset request)), (Relaxed, SlotLength queue head (rq_length request)),
      (Relaxed, SlotAttachment queue head (id_attachment (ca_identity c))), (Relaxed, SlotFlags queue head 0),
      (Relaxed, SlotDiscovery queue head discovery)])"

definition prepare_discovery :: "Carrier \<Rightarrow> InflightMapping \<Rightarrow> InflightRequest \<Rightarrow> nat op" where
  "prepare_discovery c m request = (let queue = rq_queue request; head = rq_head request in
     guarded (Carrier_healthy m) (\<lambda>_. guarded (Request_validate request (ca_image_bytes c)) (\<lambda>_.
     guarded (Geometry_check (ca_geometry c) queue 0) (\<lambda>_.
     if qh_version (mp_queues m queue) \<noteq> 1 then ([], Inl (InvalidData ''discovery does not match saved available cursor''))
     else guarded (Carrier_available c m queue) (\<lambda>available.
     if available \<noteq> rq_available request then ([], Inl (InvalidData ''discovery does not match saved available cursor''))
     else guarded (Geometry_check (ca_geometry c) queue head) (\<lambda>_.
     if sl_state (mp_slots m queue head) \<noteq> EMPTY \<or> de_inflight (mp_descriptors m queue head) \<noteq> 0
     then ([], Inl (InvalidData ''discovery reused an owned descriptor''))
     else guarded (ok_or (nchecked_add (ih_discovery (mp_header m)) 1) (InvalidData ''discovery IDs exhausted'')) (\<lambda>discovery.
     (discovery_stores c request discovery @ [(Release, SlotState queue head DISCOVERED)], Inr discovery))))))))"

definition Carrier_discover :: "Carrier \<Rightarrow> InflightMapping \<Rightarrow> InflightRequest \<Rightarrow> nat op" where
  "Carrier_discover c m request =
     and_then (prepare_discovery c m request) (\<lambda>discovery. (finish_discovery request discovery, Inr discovery))"

definition prepare_stores :: "InflightEntry \<Rightarrow> effect list" where
  "prepare_stores e = (let queue = rq_queue (en_request e); head = rq_head (en_request e) in
     [(Relaxed, SlotFlags queue head (if en_rejected e then REJECTED else 0)), (Relaxed, SlotSerial queue head (en_serial e)),
      (Relaxed, SlotMutation queue head (en_mutation e)), (Relaxed, SlotBoundary queue head (en_boundary e)),
      (Release, SlotState queue head PREPARED)])"

text \<open>\<^verbatim>\<open>Carrier::prepare\<close>: the counters, the discovery of a request that was not discovered yet, and the slot it then finds.\<close>

definition prepare_discovered :: "Carrier \<Rightarrow> InflightMapping \<Rightarrow> InflightRequest \<Rightarrow> bool \<Rightarrow> nat \<Rightarrow> nat \<Rightarrow> nat \<Rightarrow> InflightEntry op" where
  "prepare_discovered c m request rejected serial mutation boundary =
     guarded (Carrier_read_slot c m (rq_queue request) (rq_head request)) (\<lambda>slot.
     guarded (ok_or slot (InvalidData ''admission has no discovered descriptor'')) (\<lambda>(state, discovered).
       if state \<noteq> DISCOVERED \<or> en_request discovered \<noteq> request
          \<or> de_inflight (mp_descriptors m (rq_queue request) (rq_head request)) \<noteq> 0
       then ([], Inl (InvalidData ''admission differs from discovered request''))
       else let entry = \<lparr>en_request = request, en_serial = serial, en_mutation = mutation, en_boundary = boundary,
              en_attachment = id_attachment (ca_identity c), en_rejected = rejected, en_discovery = en_discovery discovered\<rparr>
            in (prepare_stores entry, Inr entry)))"

definition Carrier_prepare :: "Carrier \<Rightarrow> InflightMapping \<Rightarrow> InflightRequest \<Rightarrow> bool \<Rightarrow> InflightEntry op" where
  "Carrier_prepare c m request rejected =
     guarded (Carrier_healthy m) (\<lambda>_. guarded (Request_validate request (ca_image_bytes c)) (\<lambda>_.
     guarded (ok_or (nchecked_add (ih_serial (mp_header m)) 1) (InvalidData ''operation serial exhausted'')) (\<lambda>serial.
     let boundary = ih_mutation (mp_header m) in
     guarded (if Request_mutates request \<and> \<not> rejected
        then ok_or (nchecked_add boundary 1) (InvalidData ''mutation sequence exhausted'') else Inr 0) (\<lambda>mutation.
     guarded (Geometry_check (ca_geometry c) (rq_queue request) (rq_head request)) (\<lambda>_.
     and_then (if sl_state (mp_slots m (rq_queue request) (rq_head request)) = EMPTY
        then Carrier_discover c m request else ([], Inr 0)) (\<lambda>_.
     prepare_discovered c
       (if sl_state (mp_slots m (rq_queue request) (rq_head request)) = EMPTY
        then run_mapping (fst (Carrier_discover c m request)) m else m)
       request rejected serial mutation boundary))))))"

definition Carrier_activate :: "Carrier \<Rightarrow> InflightEntry \<Rightarrow> unit op" where
  "Carrier_activate c e = (let queue = rq_queue (en_request e); head = rq_head (en_request e) in
     guarded (Geometry_check (ca_geometry c) queue head) (\<lambda>_.
       ([(Relaxed, DescriptorCounter queue head (en_serial e)), (Release, DescriptorInflight queue head 1),
         (Release, SlotState queue head ACTIVE)], Inr ())))"

definition finish_admission :: "InflightEntry \<Rightarrow> effect list" where
  "finish_admission e =
     [(Release, HeaderSerial (en_serial e)), (Release, HeaderMutation (max (en_mutation e) (en_boundary e)))]"

text \<open>\<^verbatim>\<open>admit_observed\<close> takes the answers of its observer after the two phases; \<^verbatim>\<open>admit\<close> and \<^verbatim>\<open>reject\<close> observe nothing.\<close>

definition Carrier_admit_observed :: "Carrier \<Rightarrow> InflightMapping \<Rightarrow> InflightRequest \<Rightarrow> bool \<Rightarrow> unit result \<Rightarrow> unit result \<Rightarrow> InflightEntry op" where
  "Carrier_admit_observed c m request rejected observe_prepared observe_active =
     and_then (Carrier_prepare c m request rejected) (\<lambda>entry.
     guarded observe_prepared (\<lambda>_.
     and_then (Carrier_activate c entry) (\<lambda>_.
     guarded observe_active (\<lambda>_. (finish_admission entry, Inr entry)))))"

definition Carrier_admit_outcome :: "Carrier \<Rightarrow> InflightMapping \<Rightarrow> InflightRequest \<Rightarrow> bool \<Rightarrow> InflightEntry op" where
  "Carrier_admit_outcome c m request rejected = Carrier_admit_observed c m request rejected (Inr ()) (Inr ())"

definition Carrier_admit :: "Carrier \<Rightarrow> InflightMapping \<Rightarrow> InflightRequest \<Rightarrow> InflightEntry op" where
  "Carrier_admit c m request = Carrier_admit_outcome c m request False"

definition Carrier_reject :: "Carrier \<Rightarrow> InflightMapping \<Rightarrow> InflightRequest \<Rightarrow> InflightEntry op" where
  "Carrier_reject c m request = Carrier_admit_outcome c m request True"

definition prepare_completion :: "Carrier \<Rightarrow> InflightMapping \<Rightarrow> InflightEntry \<Rightarrow> u16 \<Rightarrow> bool \<Rightarrow> unit op" where
  "prepare_completion c m entry used failed = (let queue = rq_queue (en_request entry); head = rq_head (en_request entry) in
     guarded (if failed
        then (if ih_failed (mp_header m) \<noteq> 1 then Inl (InvalidData ''IOERR retirement requires a FAILED attachment'') else Inr ())
        else Carrier_healthy m) (\<lambda>_.
     guarded (Carrier_read_slot c m queue head) (\<lambda>slot.
     guarded (ok_or slot (InvalidData ''completion has no active request'')) (\<lambda>(state, actual).
     if state \<noteq> ACTIVE \<or> actual \<noteq> entry \<or> qh_used (mp_queues m queue) \<noteq> used
     then ([], Inl (InvalidData ''completion identity or used cursor differs''))
     else if \<not> failed \<and> required_publication entry > Carrier_published m
     then ([], Inl (InvalidData ''completion precedes its captured publication boundary''))
     else ([(Relaxed, DescriptorNext queue head head), (Release, QueueLastHead queue head)], Inr ())))))"

definition finish_completion :: "Carrier \<Rightarrow> InflightEntry \<Rightarrow> u16 \<Rightarrow> unit op" where
  "finish_completion c entry used = (let queue = rq_queue (en_request entry); head = rq_head (en_request entry) in
     guarded (Geometry_check (ca_geometry c) queue head) (\<lambda>_.
       ([(Release, DescriptorInflight queue head 0), (Release, QueueUsed queue used), (Release, SlotState queue head EMPTY)], Inr ())))"

text \<open>
  The guest writes of a completion: \<open>publish_used\<close> is the stores it makes in guest memory and its outcome. A failure after a
  healthy completion began poisons the attachment.
\<close>

definition Carrier_complete :: "Carrier \<Rightarrow> InflightMapping \<Rightarrow> InflightEntry \<Rightarrow> u16 \<Rightarrow> unit op \<Rightarrow> unit op" where
  "Carrier_complete c m entry used publish_used =
     and_then (prepare_completion c m entry used False) (\<lambda>_.
       (case snd publish_used of
          Inl e \<Rightarrow> (fst publish_used @ fst Carrier_fail, Inl e)
        | Inr _ \<Rightarrow> (fst publish_used @ fst (finish_completion c entry (used + 1)), snd (finish_completion c entry (used + 1)))))"

definition Carrier_complete_error :: "Carrier \<Rightarrow> InflightMapping \<Rightarrow> InflightEntry \<Rightarrow> u16 \<Rightarrow> unit op \<Rightarrow> unit op" where
  "Carrier_complete_error c m entry used publish_used =
     and_then (prepare_completion c m entry used True) (\<lambda>_.
     and_then publish_used (\<lambda>_. finish_completion c entry (used + 1)))"

end
