(* ===== verification/Inflight_Recovery.thy ===== *)
theory Inflight_Recovery
  imports Inflight
begin

text \<open>
  Attaching to a mapping left by another daemon, \<^verbatim>\<open>daemon/src/inflight/recovery.rs\<close>: the validation of the header, the
  scan of every slot and the reconciliation with the guest's used indices, which repairs the mapping and says
  what has to be replayed. The answers of the metadata budget to the reservations of the vectors are the argument
  \<open>room\<close>, by the number of the reservation.
\<close>

section \<open>Validation\<close>

definition header_identity :: "Carrier \<Rightarrow> InflightHeader \<Rightarrow> bool" where
  "header_identity c header \<longleftrightarrow> \<not> (ih_magic header \<noteq> MAGIC \<or> ih_version header \<noteq> VERSION \<or> ih_bytes header \<noteq> PAGE
     \<or> ih_queues header \<noteq> ge_queues (ca_geometry c) \<or> ih_queue_size header \<noteq> ge_queue_size (ca_geometry c)
     \<or> ih_slot_size header \<noteq> size_of_Slot \<or> ih_epoch header \<noteq> id_epoch (ca_identity c)
     \<or> ih_attachment header \<noteq> id_attachment (ca_identity c) \<or> \<not> all_zero (ih_reserved header))"

definition same_words :: "nat list \<Rightarrow> bytes \<Rightarrow> bool" where
  "same_words words bs \<longleftrightarrow> list_all (\<lambda>(word, chunk). word = nat_of_le chunk) (zip words (chunks 8 bs))"

definition validate_header :: "Carrier \<Rightarrow> InflightMapping \<Rightarrow> unit result" where
  "validate_header c m = (let header = mp_header m in
     ensure (header_identity c header) (InvalidData ''inflight header identity, geometry or version differs'')
    (ensure (same_words (ih_store header) (id_store (ca_identity c)) \<and> same_words (ih_image header) (id_image (ca_identity c)))
       (InvalidData ''inflight store or image identity differs'')
    (ensure (\<not> (Carrier_published m > ih_mutation header
         \<or> list_ex (\<lambda>q. ih_available header q \<noteq> 0) [ge_queues (ca_geometry c)..<4]))
       (InvalidData ''invalid inflight counters'')
     (Carrier_healthy m))))"

record Saved =
  sv_state :: nat
  sv_entry :: InflightEntry
  sv_inflight :: bool

definition queue_header_ok :: "Geometry \<Rightarrow> QueueHeader \<Rightarrow> bool" where
  "queue_header_ok g standard \<longleftrightarrow> (let version = qh_version standard; descriptors = qh_descriptors standard in
     \<not> (version > 1 \<or> qh_features standard \<noteq> 0 \<or> (version = 1 \<and> descriptors \<noteq> ge_queue_size g)
        \<or> (version = 0 \<and> descriptors \<noteq> 0 \<and> descriptors \<noteq> ge_queue_size g) \<or> qh_last_head standard \<ge> ge_queue_size g))"

definition slot_counters_ok :: "InflightMapping \<Rightarrow> nat \<Rightarrow> nat \<Rightarrow> nat \<Rightarrow> InflightEntry \<Rightarrow> bool" where
  "slot_counters_ok m queue head state entry \<longleftrightarrow>
     (let header = mp_header m; descriptor = mp_descriptors m queue head; inflight = de_inflight descriptor in
      \<not> (qh_version (mp_queues m queue) \<noteq> 1
       \<or> en_discovery entry > saturating_add (ih_discovery header) 1
       \<or> (state = DISCOVERED \<and> inflight \<noteq> 0)
       \<or> en_serial entry > saturating_add (ih_serial header) 1
       \<or> en_mutation entry > saturating_add (ih_mutation header) 1
       \<or> en_boundary entry > ih_mutation header
       \<or> (state = ACTIVE \<and> inflight = 0 \<and> required_publication entry > Carrier_published m)
       \<or> ((state = ACTIVE \<or> inflight = 1) \<and> de_counter descriptor \<noteq> en_serial entry)))"

definition scan_head :: "Carrier \<Rightarrow> InflightMapping \<Rightarrow> nat \<Rightarrow> nat \<Rightarrow> Saved option result" where
  "scan_head c m queue head =
     attempt (Geometry_check (ca_geometry c) queue head) (\<lambda>_.
     let descriptor = mp_descriptors m queue head; inflight = de_inflight descriptor in
     ensure (\<not> (inflight > 1 \<or> \<not> all_zero (de_reserved descriptor))) (InvalidData ''invalid standard inflight descriptor'')
     (attempt (Carrier_read_slot c m queue head) (\<lambda>slot.
        case slot of
          None \<Rightarrow> ensure (inflight = 0) (InvalidData ''standard inflight head has no private identity'') (Inr None)
        | Some (state, entry) \<Rightarrow>
            ensure (slot_counters_ok m queue head state entry) (InvalidData ''inflight slot counters or queue state differ'')
              (Inr (Some \<lparr>sv_state = state, sv_entry = entry, sv_inflight = (inflight = 1)\<rparr>)))))"

fun scan_heads :: "Carrier \<Rightarrow> InflightMapping \<Rightarrow> nat \<Rightarrow> nat list \<Rightarrow> Saved list \<Rightarrow> Saved list result" where
  "scan_heads c m queue [] saved = Inr saved"
| "scan_heads c m queue (head # hs) saved =
     attempt (scan_head c m queue head) (\<lambda>s. scan_heads c m queue hs (case s of None \<Rightarrow> saved | Some s \<Rightarrow> saved @ [s]))"

fun scan_queues :: "Carrier \<Rightarrow> InflightMapping \<Rightarrow> nat list \<Rightarrow> Saved list \<Rightarrow> Saved list result" where
  "scan_queues c m [] saved = Inr saved"
| "scan_queues c m (queue # qs) saved =
     attempt (Geometry_check (ca_geometry c) queue 0) (\<lambda>_.
     ensure (queue_header_ok (ca_geometry c) (mp_queues m queue)) (InvalidData ''invalid standard inflight queue header'')
     (attempt (Carrier_available c m queue) (\<lambda>_.
      attempt (scan_heads c m queue [0..<ge_queue_size (ca_geometry c)] saved) (\<lambda>saved. scan_queues c m qs saved))))"

text \<open>\<^verbatim>\<open>windows(2).any(..)\<close>.\<close>

fun any_pair :: "('a \<Rightarrow> 'a \<Rightarrow> bool) \<Rightarrow> 'a list \<Rightarrow> bool" where
  "any_pair P (x # y # xs) \<longleftrightarrow> P x y \<or> any_pair P (y # xs)"
| "any_pair P _ \<longleftrightarrow> False"

text \<open>
  The scan. \<^verbatim>\<open>sort_unstable_by_key\<close> may order equal keys in any way: those are the zero serials of discovered slots, and
  nothing below depends on their order.
\<close>

definition Carrier_scan :: "(nat \<Rightarrow> unit result) \<Rightarrow> Carrier \<Rightarrow> InflightMapping \<Rightarrow> Saved list result" where
  "Carrier_scan room c m =
     attempt (room 0) (\<lambda>_. attempt (scan_queues c m [0..<ge_queues (ca_geometry c)] []) (\<lambda>saved.
     let saved = sort_key (\<lambda>s. en_serial (sv_entry s)) saved in
     ensure (\<not> any_pair (\<lambda>a b. en_serial (sv_entry a) \<noteq> 0 \<and> en_serial (sv_entry a) = en_serial (sv_entry b)) saved)
       (InvalidData ''duplicate inflight operation serial'')
    (attempt (room 1) (\<lambda>_.
     let discoveries = sort (filter (\<lambda>d. d \<noteq> 0) (map (\<lambda>s. en_discovery (sv_entry s)) saved)) in
     ensure (\<not> any_pair (=) discoveries) (InvalidData ''duplicate discovery identity'')
    (attempt (room 2) (\<lambda>_.
     let mutations = sort (filter (\<lambda>d. d \<noteq> 0) (map (\<lambda>s. en_mutation (sv_entry s)) saved)) in
     ensure (\<not> any_pair (=) mutations) (InvalidData ''duplicate inflight mutation sequence'') (Inr saved)))))))"

text \<open>\<open>credit\<close> is the answer of the metadata budget for the mapping, \<open>opened\<close> that of the seals, size and \<^verbatim>\<open>mmap\<close> of the file.\<close>

definition Carrier_attach :: "(nat \<Rightarrow> unit result) \<Rightarrow> unit result \<Rightarrow> unit result \<Rightarrow> InflightMapping \<Rightarrow> VhostUserInflight \<Rightarrow> Identity \<Rightarrow> nat \<Rightarrow> Carrier result" where
  "Carrier_attach room credit opened m message identity image_bytes =
     attempt (Geometry_new (vi_num_queues message) (vi_queue_size message)) (\<lambda>geometry.
     ensure (\<not> (vi_mmap_offset message \<noteq> 0 \<or> vi_mmap_size message \<noteq> Geometry_bytes geometry))
       (InvalidData ''inflight mapping geometry differs'')
    (attempt credit (\<lambda>_. attempt opened (\<lambda>_.
     let c = \<lparr>ca_geometry = geometry, ca_identity = identity, ca_image_bytes = image_bytes\<rparr> in
     attempt (validate_header c m) (\<lambda>_. attempt (Carrier_scan room c m) (\<lambda>_. Inr c))))))"

definition validate_returned :: "(nat \<Rightarrow> unit result) \<Rightarrow> Carrier \<Rightarrow> InflightMapping \<Rightarrow> VhostUserInflight \<Rightarrow> unit result" where
  "validate_returned room c m message =
     attempt (Geometry_new (vi_num_queues message) (vi_queue_size message)) (\<lambda>geometry.
     ensure (\<not> (geometry \<noteq> ca_geometry c \<or> vi_mmap_offset message \<noteq> 0 \<or> vi_mmap_size message \<noteq> Geometry_bytes (ca_geometry c)))
       (InvalidData ''returned inflight geometry differs'')
    (attempt (validate_header c m) (\<lambda>_. attempt (Carrier_scan room c m) (\<lambda>_. Inr ()))))"

section \<open>Reconciliation\<close>

record Replay =
  rp_entries :: "InflightEntry list"
  rp_discovered :: "(nat \<times> InflightRequest) list"
  rp_highest_discovery :: nat
  rp_highest_serial :: nat
  rp_highest_mutation :: nat
  rp_published :: nat

text \<open>The completions that the guest has seen and the mapping has not.\<close>

fun completed_queues :: "Carrier \<Rightarrow> InflightMapping \<Rightarrow> Saved list \<Rightarrow> (nat \<times> u16 option) list \<Rightarrow> (InflightEntry \<times> u16) list
    \<Rightarrow> (InflightEntry \<times> u16) list result" where
  "completed_queues c m saved [] completed = Inr completed"
| "completed_queues c m saved ((queue, guest) # gs) completed =
     attempt (Geometry_check (ca_geometry c) queue 0) (\<lambda>_.
     let standard = mp_queues m queue in
     if qh_version standard = 0 \<and> guest = None then completed_queues c m saved gs completed
     else attempt (ok_or guest (InvalidData ''initialized queue has no guest used cursor'')) (\<lambda>used.
     ensure (\<not> qh_version standard \<noteq> 1) (InvalidData ''guest queue has no initialized inflight region'')
     (if used - qh_used standard = 0 then completed_queues c m saved gs completed
      else if used - qh_used standard = 1
      then attempt (ok_or (find (\<lambda>s. rq_queue (en_request (sv_entry s)) = queue
                \<and> rq_head (en_request (sv_entry s)) = qh_last_head standard) saved)
              (InvalidData ''used publication has no saved head'')) (\<lambda>interrupted.
           ensure (\<not> (sv_state interrupted \<noteq> ACTIVE \<or> required_publication (sv_entry interrupted) > Carrier_published m))
             (InvalidData ''used publication precedes active request or published mutation'')
             (completed_queues c m saved gs (completed @ [(sv_entry interrupted, used)])))
      else Inl (InvalidData ''guest used cursor exceeds one completion transaction''))))"

text \<open>\<^verbatim>\<open>max_by_key\<close> yields the last of the maximal elements.\<close>

fun max_by_key :: "('a \<Rightarrow> nat) \<Rightarrow> 'a list \<Rightarrow> 'a option \<Rightarrow> 'a option" where
  "max_by_key f [] best = best"
| "max_by_key f (x # xs) best =
     max_by_key f xs (case best of None \<Rightarrow> Some x | Some y \<Rightarrow> if f x \<ge> f y then Some x else Some y)"

definition newest_discovery :: "InflightMapping \<Rightarrow> Saved list \<Rightarrow> Saved option" where
  "newest_discovery m saved =
     (case max_by_key (\<lambda>s. en_discovery (sv_entry s)) (filter (\<lambda>s. en_discovery (sv_entry s) \<noteq> 0) saved) None of
        None \<Rightarrow> None
      | Some s \<Rightarrow> if en_discovery (sv_entry s) \<ge> ih_discovery (mp_header m) then Some s else None)"

definition check_newest :: "Carrier \<Rightarrow> InflightMapping \<Rightarrow> Saved option \<Rightarrow> unit result" where
  "check_newest c m newest =
     (case newest of
        None \<Rightarrow> Inr ()
      | Some s \<Rightarrow> let request = en_request (sv_entry s) in
          attempt (Carrier_available c m (rq_queue request)) (\<lambda>cursor.
            ensure (\<not> (cursor \<noteq> rq_available request \<and> cursor \<noteq> rq_available request + 1))
              (InvalidData ''newest discovery cannot repair available cursor'') (Inr ())))"

fun finish_completions :: "Carrier \<Rightarrow> (InflightEntry \<times> u16) list \<Rightarrow> unit op" where
  "finish_completions c [] = ([], Inr ())"
| "finish_completions c ((entry, used) # cs) = and_then (finish_completion c entry used) (\<lambda>_. finish_completions c cs)"

text \<open>What becomes of a saved slot: finished above, still to be admitted, retired, or active again.\<close>

definition repair_record :: "Carrier \<Rightarrow> (InflightEntry \<times> u16) list \<Rightarrow> Saved \<Rightarrow> (InflightEntry list \<times> (nat \<times> InflightRequest) list) op" where
  "repair_record c completed s = (let entry = sv_entry s; request = en_request entry in
     if list_ex (\<lambda>(e, _). e = entry) completed then ([], Inr ([], []))
     else if sv_state s = DISCOVERED then ([], Inr ([], [(en_discovery entry, request)]))
     else if sv_state s = ACTIVE \<and> \<not> sv_inflight s
     then guarded (Geometry_check (ca_geometry c) (rq_queue request) (rq_head request)) (\<lambda>_.
            ([(Release, SlotState (rq_queue request) (rq_head request) EMPTY)], Inr ([], [])))
     else and_then (Carrier_activate c entry) (\<lambda>_. ([], Inr ([entry], []))))"

fun repair_records :: "Carrier \<Rightarrow> (InflightEntry \<times> u16) list \<Rightarrow> Saved list \<Rightarrow> InflightEntry list \<Rightarrow> (nat \<times> InflightRequest) list
    \<Rightarrow> (InflightEntry list \<times> (nat \<times> InflightRequest) list) op" where
  "repair_records c completed [] entries discovered = ([], Inr (entries, discovered))"
| "repair_records c completed (s # ss) entries discovered =
     and_then (repair_record c completed s) (\<lambda>(es, ds). repair_records c completed ss (entries @ es) (discovered @ ds))"

definition highest_discovery :: "InflightMapping \<Rightarrow> Saved list \<Rightarrow> nat" where
  "highest_discovery m saved =
     (case newest_discovery m saved of None \<Rightarrow> ih_discovery (mp_header m) | Some s \<Rightarrow> en_discovery (sv_entry s))"

definition highest_serial :: "InflightMapping \<Rightarrow> Saved list \<Rightarrow> nat" where
  "highest_serial m saved =
     (if saved = [] then ih_serial (mp_header m) else max (ih_serial (mp_header m)) (en_serial (sv_entry (List.last saved))))"

definition highest_mutation :: "InflightMapping \<Rightarrow> Saved list \<Rightarrow> nat" where
  "highest_mutation m saved = foldl (\<lambda>high s. max high (en_mutation (sv_entry s))) (ih_mutation (mp_header m)) saved"

definition reconcile_repair :: "Carrier \<Rightarrow> InflightMapping \<Rightarrow> Saved list \<Rightarrow> (InflightEntry \<times> u16) list \<Rightarrow> Replay op" where
  "reconcile_repair c m saved completed =
     and_then (finish_completions c completed) (\<lambda>_.
     and_then (repair_records c completed saved [] []) (\<lambda>(entries, discovered).
     ((case newest_discovery m saved of
         None \<Rightarrow> []
       | Some s \<Rightarrow> finish_discovery (en_request (sv_entry s)) (en_discovery (sv_entry s)))
      @ [(Release, HeaderSerial (highest_serial m saved)), (Release, HeaderMutation (highest_mutation m saved))],
      Inr \<lparr>rp_entries = entries, rp_discovered = sort_key fst discovered, rp_highest_discovery = highest_discovery m saved,
        rp_highest_serial = highest_serial m saved, rp_highest_mutation = highest_mutation m saved,
        rp_published = Carrier_published m\<rparr>)))"

definition Carrier_reconcile :: "(nat \<Rightarrow> unit result) \<Rightarrow> Carrier \<Rightarrow> InflightMapping \<Rightarrow> u16 option list \<Rightarrow> Replay op" where
  "Carrier_reconcile room c m guest_used =
     guarded (validate_header c m) (\<lambda>_. guarded (Carrier_scan room c m) (\<lambda>saved.
     if length guest_used \<noteq> ge_queues (ca_geometry c) then ([], Inl (InvalidData ''missing guest queue cursors''))
     else guarded (room 3) (\<lambda>_. guarded (room 4) (\<lambda>_. guarded (room 5) (\<lambda>_.
     guarded (completed_queues c m saved (enumerate 0 guest_used) []) (\<lambda>completed.
     guarded (check_newest c m (newest_discovery m saved)) (\<lambda>_.
     reconcile_repair c m saved completed)))))))"

end
