(* ===== verification/Inflight_Crash.thy ===== *)
theory Inflight_Crash
  imports Inflight_Recovery
begin

text \<open>
  The invariant of the inflight carrier, and what each of its stores does to it. \<open>outstanding\<close> says, of a mapping and the
  guest's used indices, which requests the daemon owes the guest; \<open>recoverable\<close> is what the mapping satisfies at every
  point at which the daemon may die; \<open>keeps\<close> says of a store that it preserves both.
\<close>

section \<open>Deaths inside a list of stores\<close>

definition crash_safe :: "(CarrierWorld \<Rightarrow> bool) \<Rightarrow> effect list \<Rightarrow> CarrierWorld \<Rightarrow> bool" where
  "crash_safe P es w \<longleftrightarrow> (\<forall>w'. crashed es w w' \<longrightarrow> P w')"

lemma run_simps [simp]:
  "run [] w = w"
  "run (e # es) w = run es (store (snd e) w)"
  "run (es @ fs) w = run fs (run es w)"
  by (simp_all add: run_def)

lemma subseq_of_Nil [simp]: "subseq ps [] \<longleftrightarrow> ps = []"
  by (auto dest: list_emb_Nil2)

lemma subseq_set: "subseq ps rs \<Longrightarrow> set ps \<subseteq> set rs"
  by (auto elim: list_emb_set)

lemma crash_safe_Nil [simp]: "crash_safe P [] w \<longleftrightarrow> P w"
  by (simp add: crash_safe_def crashed_def)

lemma crashed_Cons:
  "crashed (e # es) w w' \<longleftrightarrow>
     (\<exists>ps. subseq ps (takeWhile (\<lambda>e. fst e = Relaxed) (e # es)) \<and> w' = run ps w) \<or> crashed es (store (snd e) w) w'"
proof
  assume "crashed (e # es) w w'"
  then obtain ds rs ps where split: "e # es = ds @ rs" and ps: "subseq ps (takeWhile (\<lambda>e. fst e = Relaxed) rs)" and
    w': "w' = run (ds @ ps) w" by (auto simp: crashed_def)
  show "(\<exists>ps. subseq ps (takeWhile (\<lambda>e. fst e = Relaxed) (e # es)) \<and> w' = run ps w) \<or> crashed es (store (snd e) w) w'"
  proof (cases ds)
    case Nil
    then show ?thesis using split ps w' by auto
  next
    case (Cons d ds')
    then have "crashed es (store (snd e) w) w'" using split ps w' by (auto simp: crashed_def)
    then show ?thesis by blast
  qed
next
  assume "(\<exists>ps. subseq ps (takeWhile (\<lambda>e. fst e = Relaxed) (e # es)) \<and> w' = run ps w) \<or> crashed es (store (snd e) w) w'"
  then show "crashed (e # es) w w'"
  proof (elim disjE)
    assume "\<exists>ps. subseq ps (takeWhile (\<lambda>e. fst e = Relaxed) (e # es)) \<and> w' = run ps w"
    then obtain ps where "subseq ps (takeWhile (\<lambda>e. fst e = Relaxed) (e # es))" "w' = run ps w" by blast
    then show ?thesis unfolding crashed_def by (intro exI [of _ "[]"] exI [of _ "e # es"] exI [of _ ps]) simp
  next
    assume "crashed es (store (snd e) w) w'"
    then obtain ds rs ps where "es = ds @ rs" "subseq ps (takeWhile (\<lambda>e. fst e = Relaxed) rs)" "w' = run (ds @ ps) (store (snd e) w)"
      by (auto simp: crashed_def)
    then show ?thesis unfolding crashed_def by (intro exI [of _ "e # ds"] exI [of _ rs] exI [of _ ps]) simp
  qed
qed

lemma crash_safe_release [simp]: "crash_safe P ((Release, t) # es) w \<longleftrightarrow> P w \<and> crash_safe P es (store t w)"
  by (auto simp: crash_safe_def crashed_Cons)

text \<open>A block of relaxed stores that \<open>P\<close> does not see, in any selection and order of program text.\<close>

lemma crash_safe_relaxed:
  assumes relaxed: "\<forall>e \<in> set rs. fst e = Relaxed"
    and quiet: "\<And>ps. set ps \<subseteq> set rs \<Longrightarrow> P (run ps w)"
    and rest: "crash_safe P ((Release, t) # es) (run rs w)"
  shows "crash_safe P (rs @ (Release, t) # es) w"
  using assms
proof (induction rs arbitrary: w)
  case Nil
  then show ?case by simp
next
  case (Cons r rs)
  have take: "takeWhile (\<lambda>e. fst e = Relaxed) ((r # rs) @ (Release, t) # es) = r # rs"
    using Cons.prems(1) by (simp add: takeWhile_append2)
  have tail: "crash_safe P (rs @ (Release, t) # es) (store (snd r) w)"
  proof (rule Cons.IH)
    show "\<forall>e \<in> set rs. fst e = Relaxed" using Cons.prems(1) by simp
    show "P (run ps (store (snd r) w))" if "set ps \<subseteq> set rs" for ps
      using Cons.prems(2) [of "r # ps"] that by auto
    show "crash_safe P ((Release, t) # es) (run rs (store (snd r) w))" using Cons.prems(3) by simp
  qed
  show ?case unfolding crash_safe_def
  proof (intro allI impI)
    fix w' assume "crashed ((r # rs) @ (Release, t) # es) w w'"
    then consider (now) ps where "subseq ps (r # rs)" "w' = run ps w"
      | (later) "crashed (rs @ (Release, t) # es) (store (snd r) w) w'"
      using take by (auto simp: crashed_Cons)
    then show "P w'"
    proof cases
      case now
      then show ?thesis using Cons.prems(2) [OF subseq_set] by simp
    next
      case later
      then show ?thesis using tail by (simp add: crash_safe_def)
    qed
  qed
qed

lemma crash_safe_append:
  assumes "crash_safe P es w" and "crash_safe P fs (run es w)" and "es = [] \<or> fst (List.last es) = Release"
  shows "crash_safe P (es @ fs) w"
  using assms
proof (induction es arbitrary: w rule: length_induct)
  case (1 es)
  show ?case
  proof (cases "\<forall>e \<in> set es. fst e = Relaxed")
    case True
    then have "es = []" using 1(4) by (metis Ordering.distinct(1) last_in_set)
    then show ?thesis using 1(3) by simp
  next
    case False
    then obtain rs e es' where split: "es = rs @ e # es'" "fst e \<noteq> Relaxed" and rs: "\<forall>e \<in> set rs. fst e = Relaxed"
      using split_list_first_prop [of es "\<lambda>e. fst e \<noteq> Relaxed"] by auto
    then obtain t where es: "es = rs @ (Release, t) # es'" by (cases e; cases "fst e") auto
    have rest: "crash_safe P (es' @ fs) (store t (run rs w))"
    proof (rule 1(1) [rule_format, of es'])
      show "length es' < length es" using es by simp
      show "crash_safe P es' (store t (run rs w))"
        unfolding crash_safe_def
      proof (intro allI impI)
        fix w' assume "crashed es' (store t (run rs w)) w'"
        then have "crashed es w w'" unfolding es
          by (induction rs arbitrary: w) (auto simp: crashed_Cons)
        then show "P w'" using 1(2) by (simp add: crash_safe_def)
      qed
      show "crash_safe P fs (run es' (store t (run rs w)))" using 1(3) es by simp
      show "es' = [] \<or> fst (List.last es') = Release" using 1(4) es by (auto split: if_splits)
    qed
    show ?thesis unfolding es append.assoc append_Cons crash_safe_def
    proof (intro allI impI)
      fix w' assume "crashed (rs @ (Release, t) # es' @ fs) w w'"
      then have "crashed es w w' \<or> crashed (es' @ fs) (store t (run rs w)) w'"
        unfolding es using rs
      proof (induction rs arbitrary: w)
        case Nil
        then show ?case by (auto simp: crashed_Cons)
      next
        case (Cons r rs)
        have relaxed: "\<forall>e \<in> set rs. fst e = Relaxed" using Cons.prems(2) by simp
        have same: "takeWhile (\<lambda>e. fst e = Relaxed) (r # rs @ (Release, t) # xs) = r # rs" for xs
          using Cons.prems(2) by (simp add: takeWhile_append2)
        show ?case using Cons.prems(1) Cons.IH [of "store (snd r) w", OF _ relaxed]
          unfolding append_Cons crashed_Cons [of r] same by auto
      qed
      then show "P w'" using 1(2) rest by (auto simp: crash_safe_def)
    qed
  qed
qed

section \<open>The invariant\<close>

definition in_range :: "Carrier \<Rightarrow> nat \<Rightarrow> nat \<Rightarrow> bool" where
  "in_range c q h \<longleftrightarrow> q < ge_queues (ca_geometry c) \<and> h < ge_queue_size (ca_geometry c)"

lemma Geometry_check_ok [simp]: "Geometry_check (ca_geometry c) q h = Inr () \<longleftrightarrow> in_range c q h"
  by (simp add: Geometry_check_def in_range_def not_le)

lemma Geometry_check_in_range: "in_range c q h \<Longrightarrow> Geometry_check (ca_geometry c) q h = Inr ()"
  by simp

lemma in_range_0: "in_range c q h \<Longrightarrow> in_range c q 0"
  by (auto simp: in_range_def)

definition live :: "Carrier \<Rightarrow> InflightMapping \<Rightarrow> nat \<Rightarrow> nat \<Rightarrow> (nat \<times> InflightEntry) option" where
  "live c m q h = (if in_range c q h then (case slot_decode c q h (mp_slots m q h) of Inr v \<Rightarrow> v | Inl _ \<Rightarrow> None) else None)"

text \<open>What the daemon owes the guest: a request seen and not yet admitted, or an admitted one not yet completed.\<close>

datatype Outstanding = ToAdmit nat InflightRequest | ToReplay InflightEntry

definition owed :: "(nat \<times> InflightEntry) option \<Rightarrow> nat \<Rightarrow> bool \<Rightarrow> Outstanding option" where
  "owed slot inflight seen =
     (case slot of
        None \<Rightarrow> None
      | Some (state, entry) \<Rightarrow>
          if state = DISCOVERED then Some (ToAdmit (en_discovery entry) (en_request entry))
          else if state = ACTIVE \<and> (inflight = 0 \<or> seen) then None
          else Some (ToReplay entry))"

definition outstanding :: "Carrier \<Rightarrow> CarrierWorld \<Rightarrow> nat \<Rightarrow> nat \<Rightarrow> Outstanding option" where
  "outstanding c w q h =
     owed (live c (wo_mapping w) q h) (de_inflight (mp_descriptors (wo_mapping w) q h))
       (wo_guest w q \<noteq> qh_used (mp_queues (wo_mapping w) q) \<and> qh_last_head (mp_queues (wo_mapping w) q) = h)"

lemma owed_simps [simp]:
  "owed None i s = None"
  "owed (Some (state, e)) i s =
     (if state = DISCOVERED then Some (ToAdmit (en_discovery e) (en_request e))
      else if state = ACTIVE \<and> (i = 0 \<or> s) then None else Some (ToReplay e))"
  by (simp_all add: owed_def)

definition retirable :: "InflightHeader \<Rightarrow> InflightEntry \<Rightarrow> bool" where
  "retirable header e \<longleftrightarrow> required_publication e \<le> ih_published header \<and> en_serial e \<le> ih_serial header"

definition near_cursor :: "InflightHeader \<Rightarrow> nat \<Rightarrow> InflightEntry \<Rightarrow> bool" where
  "near_cursor header q e \<longleftrightarrow> (let cursor = of_nat (ih_available header q) in
     cursor = rq_available (en_request e) \<or> cursor = rq_available (en_request e) + 1)"

definition entry_ok :: "InflightHeader \<Rightarrow> QueueHeader \<Rightarrow> InflightDescriptor \<Rightarrow> nat \<Rightarrow> InflightEntry \<Rightarrow> bool" where
  "entry_ok header standard descriptor state e \<longleftrightarrow>
     qh_version standard = 1
     \<and> en_discovery e \<le> u64_max \<and> en_discovery e \<le> ih_discovery header + (if state = DISCOVERED then 1 else 0)
     \<and> (state = DISCOVERED \<longrightarrow> de_inflight descriptor = 0)
     \<and> en_serial e \<le> u64_max \<and> en_serial e \<le> ih_serial header + 1
     \<and> en_mutation e \<le> u64_max \<and> en_mutation e \<le> ih_mutation header + 1
     \<and> en_boundary e \<le> ih_mutation header
     \<and> (state = ACTIVE \<and> de_inflight descriptor = 0 \<longrightarrow> retirable header e)
     \<and> (state = ACTIVE \<or> de_inflight descriptor = 1 \<longrightarrow> de_counter descriptor = en_serial e)"

definition header_inv :: "Carrier \<Rightarrow> InflightMapping \<Rightarrow> bool" where
  "header_inv c m \<longleftrightarrow> validate_header c m = Inr ()"

definition queue_inv :: "Carrier \<Rightarrow> InflightMapping \<Rightarrow> bool" where
  "queue_inv c m \<longleftrightarrow> 0 < ge_queue_size (ca_geometry c) \<and> (\<forall>q. in_range c q 0 \<longrightarrow>
     queue_header_ok (ca_geometry c) (mp_queues m q) \<and> ih_available (mp_header m) q < 2 ^ 16)"

definition slot_inv :: "Carrier \<Rightarrow> InflightMapping \<Rightarrow> bool" where
  "slot_inv c m \<longleftrightarrow> (\<forall>q h. in_range c q h \<longrightarrow> slot_decode c q h (mp_slots m q h) = Inr (live c m q h)
     \<and> de_inflight (mp_descriptors m q h) \<le> 1 \<and> all_zero (de_reserved (mp_descriptors m q h))
     \<and> (live c m q h = None \<longrightarrow> de_inflight (mp_descriptors m q h) = 0))"

definition live_inv :: "Carrier \<Rightarrow> InflightMapping \<Rightarrow> bool" where
  "live_inv c m \<longleftrightarrow> (\<forall>q h state e. live c m q h = Some (state, e) \<longrightarrow>
     entry_ok (mp_header m) (mp_queues m q) (mp_descriptors m q h) state e)"

definition apart :: "InflightEntry \<Rightarrow> InflightEntry \<Rightarrow> bool" where
  "apart e e' \<longleftrightarrow> en_discovery e \<noteq> en_discovery e' \<and> (en_serial e \<noteq> 0 \<longrightarrow> en_serial e \<noteq> en_serial e')
     \<and> (en_mutation e \<noteq> 0 \<longrightarrow> en_mutation e \<noteq> en_mutation e')"

definition distinct_inv :: "Carrier \<Rightarrow> InflightMapping \<Rightarrow> bool" where
  "distinct_inv c m \<longleftrightarrow> (\<forall>q h q' h' x x'. live c m q h = Some x \<longrightarrow> live c m q' h' = Some x' \<longrightarrow> (q, h) \<noteq> (q', h') \<longrightarrow>
     apart (snd x) (snd x'))"

definition newest_inv :: "Carrier \<Rightarrow> InflightMapping \<Rightarrow> bool" where
  "newest_inv c m \<longleftrightarrow> (\<forall>q h state e. live c m q h = Some (state, e) \<longrightarrow> ih_discovery (mp_header m) \<le> en_discovery e \<longrightarrow>
     (\<forall>q' h' x. live c m q' h' = Some x \<longrightarrow> en_discovery (snd x) \<le> en_discovery e) \<longrightarrow> near_cursor (mp_header m) q e)"

definition guest_inv :: "Carrier \<Rightarrow> CarrierWorld \<Rightarrow> bool" where
  "guest_inv c w \<longleftrightarrow> (\<forall>q. in_range c q 0 \<longrightarrow> qh_version (mp_queues (wo_mapping w) q) = 1 \<longrightarrow>
     wo_guest w q = qh_used (mp_queues (wo_mapping w) q)
     \<or> (wo_guest w q = qh_used (mp_queues (wo_mapping w) q) + 1
        \<and> (\<exists>e. live c (wo_mapping w) q (qh_last_head (mp_queues (wo_mapping w) q)) = Some (ACTIVE, e)
             \<and> retirable (mp_header (wo_mapping w)) e)))"

definition recoverable :: "Carrier \<Rightarrow> CarrierWorld \<Rightarrow> bool" where
  "recoverable c w \<longleftrightarrow> header_inv c (wo_mapping w) \<and> queue_inv c (wo_mapping w) \<and> slot_inv c (wo_mapping w)
     \<and> live_inv c (wo_mapping w) \<and> distinct_inv c (wo_mapping w) \<and> newest_inv c (wo_mapping w) \<and> guest_inv c w"

lemmas invs = header_inv_def queue_inv_def slot_inv_def live_inv_def distinct_inv_def newest_inv_def guest_inv_def

lemma states_distinct [simp]:
  "EMPTY \<noteq> PREPARED" "EMPTY \<noteq> ACTIVE" "EMPTY \<noteq> DISCOVERED" "PREPARED \<noteq> ACTIVE" "PREPARED \<noteq> DISCOVERED" "ACTIVE \<noteq> DISCOVERED"
  "PREPARED \<noteq> EMPTY" "ACTIVE \<noteq> EMPTY" "DISCOVERED \<noteq> EMPTY" "ACTIVE \<noteq> PREPARED" "DISCOVERED \<noteq> PREPARED" "DISCOVERED \<noteq> ACTIVE"
  by (simp_all add: slot_states)

section \<open>Single stores\<close>

lemma mapping_fields [simp]:
  "mp_header (on_header f m) = f (mp_header m)"
  "mp_queues (on_header f m) = mp_queues m"
  "mp_descriptors (on_header f m) = mp_descriptors m"
  "mp_slots (on_header f m) = mp_slots m"
  "mp_header (on_queue q k m) = mp_header m"
  "mp_queues (on_queue q k m) = (mp_queues m)(q := k (mp_queues m q))"
  "mp_descriptors (on_queue q k m) = mp_descriptors m"
  "mp_slots (on_queue q k m) = mp_slots m"
  "mp_header (on_descriptor q h d m) = mp_header m"
  "mp_queues (on_descriptor q h d m) = mp_queues m"
  "mp_descriptors (on_descriptor q h d m) = (mp_descriptors m)(q := (mp_descriptors m q)(h := d (mp_descriptors m q h)))"
  "mp_slots (on_descriptor q h d m) = mp_slots m"
  "mp_header (on_slot q h s m) = mp_header m"
  "mp_queues (on_slot q h s m) = mp_queues m"
  "mp_descriptors (on_slot q h s m) = mp_descriptors m"
  "mp_slots (on_slot q h s m) = (mp_slots m)(q := (mp_slots m q)(h := s (mp_slots m q h)))"
  by (simp_all add: on_header_def on_queue_def on_descriptor_def on_slot_def)

lemma live_frame [simp]:
  "live c (on_header f m) = live c m"
  "live c (on_queue q k m) = live c m"
  "live c (on_descriptor q h d m) = live c m"
  by (simp_all add: live_def fun_eq_iff)

lemma live_on_slot:
  assumes "in_range c q h" and "slot_decode c q h (s (mp_slots m q h)) = Inr v"
  shows "live c (on_slot q h s m) = (live c m)(q := (live c m q)(h := v))"
  using assms by (auto simp: live_def fun_eq_iff)

lemma store_fields [simp]:
  "wo_mapping (store t w) = store_mapping t (wo_mapping w)"
  "wo_guest (store t w) = store_guest t (wo_guest w)"
  by (simp_all add: store_def)

lemma live_in_range: "live c m q h = Some x \<Longrightarrow> in_range c q h"
  by (simp add: live_def split: if_splits)

lemma slot_decode_Some:
  assumes "slot_decode c q h s = Inr (Some (state, e))"
  shows "sl_state s = state" "state \<in> {PREPARED, ACTIVE, DISCOVERED}" "rq_queue (en_request e) = q" "rq_head (en_request e) = h"
    "en_discovery e \<noteq> 0" "state \<noteq> DISCOVERED \<Longrightarrow> en_serial e \<noteq> 0"
    "state = DISCOVERED \<Longrightarrow> en_serial e = 0 \<and> en_mutation e = 0 \<and> en_boundary e = 0"
  using assms by (auto simp: slot_decode_def decode_admitted_def decode_discovered_def Let_def split: if_splits)

lemma live_Some:
  assumes "live c m q h = Some (state, e)"
  shows "state \<in> {PREPARED, ACTIVE, DISCOVERED}" "rq_queue (en_request e) = q" "rq_head (en_request e) = h"
    "en_discovery e \<noteq> 0" "state \<noteq> DISCOVERED \<Longrightarrow> en_serial e \<noteq> 0"
    "state = DISCOVERED \<Longrightarrow> en_serial e = 0 \<and> en_mutation e = 0 \<and> en_boundary e = 0"
proof -
  have "slot_decode c q h (mp_slots m q h) = Inr (Some (state, e))"
    using assms by (auto simp: live_def split: if_splits sum.splits)
  note facts = slot_decode_Some [OF this]
  show "state \<in> {PREPARED, ACTIVE, DISCOVERED}" "rq_queue (en_request e) = q" "rq_head (en_request e) = h"
    "en_discovery e \<noteq> 0" "state \<noteq> DISCOVERED \<Longrightarrow> en_serial e \<noteq> 0"
    "state = DISCOVERED \<Longrightarrow> en_serial e = 0 \<and> en_mutation e = 0 \<and> en_boundary e = 0"
    using facts by auto
qed

text \<open>A store that neither reconciliation nor a debt to the guest depends on.\<close>

definition keeps :: "Carrier \<Rightarrow> CarrierWorld \<Rightarrow> CarrierWorld \<Rightarrow> bool" where
  "keeps c w w' \<longleftrightarrow> recoverable c w' \<and> outstanding c w' = outstanding c w"

lemma keeps_refl: "recoverable c w \<Longrightarrow> keeps c w w"
  by (simp add: keeps_def)

lemma keeps_trans: "keeps c w w' \<Longrightarrow> keeps c w' w'' \<Longrightarrow> keeps c w w''"
  by (simp add: keeps_def)

lemma keeps_slot_quiet:
  assumes "recoverable c w" and "in_range c q h"
    and same: "slot_decode c q h (s (mp_slots (wo_mapping w) q h)) = slot_decode c q h (mp_slots (wo_mapping w) q h)"
    and w': "wo_mapping w' = on_slot q h s (wo_mapping w)" "wo_guest w' = wo_guest w"
  shows "keeps c w w'"
proof -
  let ?m = "wo_mapping w"
  have decode: "slot_decode c q h (mp_slots ?m q h) = Inr (live c ?m q h)"
    using assms(1,2) by (simp add: recoverable_def slot_inv_def)
  have lv: "live c (on_slot q h s ?m) = live c ?m"
    using live_on_slot [OF assms(2), where s = s and m = ?m and v = "live c ?m q h"] same decode by simp
  show ?thesis using assms(1) same decode
    by (simp add: keeps_def recoverable_def invs outstanding_def w' lv validate_header_def Carrier_published_def Carrier_healthy_def fun_eq_iff Let_def)
qed

lemmas frame_simps = keeps_def recoverable_def outstanding_def validate_header_def Carrier_published_def
      Carrier_healthy_def fun_eq_iff Let_def

text \<open>A descriptor store is safe when the slot of that head agrees with it.\<close>

lemma keeps_descriptor:
  assumes rec: "recoverable c w" and range: "in_range c q h"
    and w': "wo_mapping w' = on_descriptor q h d (wo_mapping w)" "wo_guest w' = wo_guest w"
    and new: "descriptor = d (mp_descriptors (wo_mapping w) q h)"
    and shape: "de_inflight descriptor \<le> 1" "de_reserved descriptor = de_reserved (mp_descriptors (wo_mapping w) q h)"
    and none: "live c (wo_mapping w) q h = None \<Longrightarrow> de_inflight descriptor = 0"
    and some: "\<And>state e. live c (wo_mapping w) q h = Some (state, e) \<Longrightarrow>
      entry_ok (mp_header (wo_mapping w)) (mp_queues (wo_mapping w) q) descriptor state e"
    and owes: "\<And>state e s. live c (wo_mapping w) q h = Some (state, e) \<Longrightarrow>
      s = (wo_guest w q \<noteq> qh_used (mp_queues (wo_mapping w) q) \<and> qh_last_head (mp_queues (wo_mapping w) q) = h) \<Longrightarrow>
      owed (Some (state, e)) (de_inflight descriptor) s = owed (Some (state, e)) (de_inflight (mp_descriptors (wo_mapping w) q h)) s"
  shows "keeps c w w'"
  unfolding keeps_def recoverable_def
proof (intro conjI)
  show "outstanding c w' = outstanding c w"
  proof (intro ext)
    fix q' h'
    show "outstanding c w' q' h' = outstanding c w q' h'"
      using owes by (cases "live c (wo_mapping w) q' h'") (auto simp: outstanding_def w' new)
  qed
  show "slot_inv c (wo_mapping w')" using rec shape none by (auto simp: recoverable_def slot_inv_def w' new)
  show "live_inv c (wo_mapping w')" using rec some by (auto simp: recoverable_def live_inv_def w' new)
qed (use rec in \<open>simp_all add: recoverable_def header_inv_def queue_inv_def distinct_inv_def newest_inv_def guest_inv_def
    validate_header_def Carrier_published_def Carrier_healthy_def w'\<close>)

lemma live_entry_ok:
  "recoverable c w \<Longrightarrow> live c (wo_mapping w) q h = Some (state, e) \<Longrightarrow>
   entry_ok (mp_header (wo_mapping w)) (mp_queues (wo_mapping w) q) (mp_descriptors (wo_mapping w) q h) state e"
  by (simp add: recoverable_def live_inv_def)

lemma slot_invD:
  assumes "recoverable c w" and "in_range c q h"
  shows "slot_decode c q h (mp_slots (wo_mapping w) q h) = Inr (live c (wo_mapping w) q h)"
    "de_inflight (mp_descriptors (wo_mapping w) q h) \<le> 1"
    "live c (wo_mapping w) q h = None \<Longrightarrow> de_inflight (mp_descriptors (wo_mapping w) q h) = 0"
  using assms by (simp_all add: recoverable_def slot_inv_def)

lemma keeps_descriptor_next:
  assumes "recoverable c w" and "in_range c q h"
  shows "keeps c w (store (DescriptorNext q h v) w)"
  by (rule keeps_descriptor [OF assms _ _ refl, where d = "de_next_update (\<lambda>_. v)"])
    (use slot_invD [OF assms] live_entry_ok [OF assms(1)] in \<open>auto simp: entry_ok_def\<close>)

lemma keeps_descriptor_counter:
  assumes "recoverable c w" and "live c (wo_mapping w) q h = Some (state, e)"
  shows "keeps c w (store (DescriptorCounter q h (en_serial e)) w)"
  by (rule keeps_descriptor [OF assms(1) live_in_range [OF assms(2)] _ _ refl, where d = "de_counter_update (\<lambda>_. en_serial e)"])
    (use slot_invD [OF assms(1) live_in_range [OF assms(2)]] live_entry_ok [OF assms] assms(2) in \<open>auto simp: entry_ok_def\<close>)

lemma keeps_descriptor_set:
  assumes "recoverable c w" and "live c (wo_mapping w) q h = Some (state, e)"
    and "state = PREPARED \<or> state = ACTIVE \<and> de_inflight (mp_descriptors (wo_mapping w) q h) = 1"
    and "de_counter (mp_descriptors (wo_mapping w) q h) = en_serial e"
  shows "keeps c w (store (DescriptorInflight q h 1) w)"
  by (rule keeps_descriptor [OF assms(1) live_in_range [OF assms(2)] _ _ refl, where d = "de_inflight_update (\<lambda>_. 1)"])
    (use live_entry_ok [OF assms(1,2)] assms(2-) in \<open>auto simp: entry_ok_def \<close>)

text \<open>The guest has seen the completion of the last head.\<close>

lemma guest_seen:
  assumes "recoverable c w" and "in_range c q 0" and "qh_version (mp_queues (wo_mapping w) q) = 1"
    and "wo_guest w q \<noteq> qh_used (mp_queues (wo_mapping w) q)"
  obtains e where "live c (wo_mapping w) q (qh_last_head (mp_queues (wo_mapping w) q)) = Some (ACTIVE, e)"
    "retirable (mp_header (wo_mapping w)) e" "wo_guest w q = qh_used (mp_queues (wo_mapping w) q) + 1"
  using assms by (auto simp: recoverable_def guest_inv_def Let_def)

lemma keeps_descriptor_clear:
  assumes "recoverable c w" and "in_range c q 0" and "qh_version (mp_queues (wo_mapping w) q) = 1"
    and "wo_guest w q \<noteq> qh_used (mp_queues (wo_mapping w) q)" and "qh_last_head (mp_queues (wo_mapping w) q) = h"
  shows "keeps c w (store (DescriptorInflight q h 0) w)"
proof -
  obtain e where e: "live c (wo_mapping w) q h = Some (ACTIVE, e)" "retirable (mp_header (wo_mapping w)) e"
    using guest_seen [OF assms(1-4)] assms(5) by metis
  show ?thesis
    by (rule keeps_descriptor [OF assms(1) live_in_range [OF e(1)] _ _ refl, where d = "de_inflight_update (\<lambda>_. 0)"])
      (use live_entry_ok [OF assms(1) e(1)] e assms(4,5) in \<open>auto simp: entry_ok_def \<close>)
qed

lemma keeps_queue_used:
  assumes "recoverable c w" and "in_range c q 0" and "qh_version (mp_queues (wo_mapping w) q) = 1"
    and "de_inflight (mp_descriptors (wo_mapping w) q (qh_last_head (mp_queues (wo_mapping w) q))) = 0"
  shows "keeps c w (store (QueueUsed q (wo_guest w q)) w)"
proof -
  let ?w = "store (QueueUsed q (wo_guest w q)) w"
  show ?thesis unfolding keeps_def recoverable_def
  proof (intro conjI)
    show "outstanding c ?w = outstanding c w"
    proof (intro ext)
      fix q' h
      show "outstanding c ?w q' h = outstanding c w q' h"
        using assms by (cases "live c (wo_mapping w) q' h") (auto simp: outstanding_def )
    qed
    show "guest_inv c ?w" using assms(1) by (auto simp: recoverable_def guest_inv_def Let_def)
  qed (use assms(1) in \<open>auto simp: recoverable_def header_inv_def queue_inv_def slot_inv_def live_inv_def distinct_inv_def
      newest_inv_def validate_header_def Carrier_published_def Carrier_healthy_def queue_header_ok_def entry_ok_def\<close>)
qed

lemma keeps_queue_last_head:
  assumes "recoverable c w" and "in_range c q h" and "wo_guest w q = qh_used (mp_queues (wo_mapping w) q)"
  shows "keeps c w (store (QueueLastHead q h) w)"
proof -
  let ?w = "store (QueueLastHead q h) w"
  show ?thesis unfolding keeps_def recoverable_def
  proof (intro conjI)
    show "outstanding c ?w = outstanding c w"
    proof (intro ext)
      fix q' h'
      show "outstanding c ?w q' h' = outstanding c w q' h'"
        using assms by (cases "live c (wo_mapping w) q' h'") (auto simp: outstanding_def)
    qed
    show "guest_inv c ?w" using assms(1,3) by (auto simp: recoverable_def guest_inv_def Let_def)
    show "queue_inv c (wo_mapping ?w)" using assms(1,2)
      by (auto simp: recoverable_def queue_inv_def queue_header_ok_def Let_def in_range_def)
  qed (use assms(1) in \<open>auto simp: recoverable_def header_inv_def slot_inv_def live_inv_def distinct_inv_def
      newest_inv_def validate_header_def Carrier_published_def Carrier_healthy_def entry_ok_def\<close>)
qed

text \<open>A slot store, by what the slot decodes to afterwards.\<close>

lemma outstanding_slot:
  assumes "in_range c q h" and "slot_decode c q h (s (mp_slots (wo_mapping w) q h)) = Inr v"
    and w': "wo_mapping w' = on_slot q h s (wo_mapping w)" "wo_guest w' = wo_guest w"
  shows "outstanding c w' = (outstanding c w)(q := (outstanding c w q)(h :=
     owed v (de_inflight (mp_descriptors (wo_mapping w) q h))
       (wo_guest w q \<noteq> qh_used (mp_queues (wo_mapping w) q) \<and> qh_last_head (mp_queues (wo_mapping w) q) = h)))"
  by (simp add: outstanding_def fun_eq_iff w' live_on_slot [where s = s and m = "wo_mapping w", OF assms(1,2)])

lemma recoverable_slot:
  assumes rec: "recoverable c w" and range: "in_range c q h"
    and decode: "slot_decode c q h (s (mp_slots (wo_mapping w) q h)) = Inr v"
    and w': "wo_mapping w' = on_slot q h s (wo_mapping w)" "wo_guest w' = wo_guest w"
    and none: "v = None \<Longrightarrow> de_inflight (mp_descriptors (wo_mapping w) q h) = 0"
    and some: "\<And>state e. v = Some (state, e) \<Longrightarrow>
      entry_ok (mp_header (wo_mapping w)) (mp_queues (wo_mapping w) q) (mp_descriptors (wo_mapping w) q h) state e"
    and others: "\<And>state e q' h' x. v = Some (state, e) \<Longrightarrow> live c (wo_mapping w) q' h' = Some x \<Longrightarrow> (q', h') \<noteq> (q, h) \<Longrightarrow>
      apart e (snd x) \<and> apart (snd x) e"
    and newest: "newest_inv c (on_slot q h s (wo_mapping w))"
    and guest: "qh_version (mp_queues (wo_mapping w) q) = 1 \<Longrightarrow>
      v = live c (wo_mapping w) q h \<or> wo_guest w q = qh_used (mp_queues (wo_mapping w) q) \<or> qh_last_head (mp_queues (wo_mapping w) q) \<noteq> h"
  shows "recoverable c w'"
proof -
  note lv = live_on_slot [where s = s and m = "wo_mapping w", OF range decode]
  show ?thesis unfolding recoverable_def
  proof (intro conjI)
    show "slot_inv c (wo_mapping w')" using rec none decode
      by (auto simp: recoverable_def slot_inv_def w' lv)
    show "live_inv c (wo_mapping w')" using rec some by (auto simp: recoverable_def live_inv_def w' lv)
    show "distinct_inv c (wo_mapping w')" unfolding distinct_inv_def w' lv
    proof (intro allI impI)
      fix q1 h1 q2 h2 x1 x2
      let ?l = "(live c (wo_mapping w))(q := (live c (wo_mapping w) q)(h := v))"
      assume a: "?l q1 h1 = Some x1" and b: "?l q2 h2 = Some x2" and ne: "(q1, h1) \<noteq> (q2, h2)"
      consider "(q1, h1) = (q, h)" | "(q2, h2) = (q, h)" | "(q1, h1) \<noteq> (q, h)" "(q2, h2) \<noteq> (q, h)" by blast
      then show "apart (snd x1) (snd x2)"
      proof cases
        case 1
        then show ?thesis using a b ne others [of "fst x1" "snd x1" q2 h2 x2] by (auto split: if_splits)
      next
        case 2
        then show ?thesis using a b ne others [of "fst x2" "snd x2" q1 h1 x1] by (auto split: if_splits)
      next
        case 3
        then have "live c (wo_mapping w) q1 h1 = Some x1" "live c (wo_mapping w) q2 h2 = Some x2" using a b by (auto split: if_splits)
        then show ?thesis using rec ne unfolding recoverable_def distinct_inv_def by blast
      qed
    qed
    show "newest_inv c (wo_mapping w')" using newest by (simp add: w')
    show "guest_inv c w'" unfolding guest_inv_def
    proof (intro allI impI)
      fix p assume p: "in_range c p 0" "qh_version (mp_queues (wo_mapping w') p) = 1"
      have old: "wo_guest w p = qh_used (mp_queues (wo_mapping w) p)
        \<or> (wo_guest w p = qh_used (mp_queues (wo_mapping w) p) + 1
           \<and> (\<exists>e. live c (wo_mapping w) p (qh_last_head (mp_queues (wo_mapping w) p)) = Some (ACTIVE, e)
                \<and> retirable (mp_header (wo_mapping w)) e))"
        using rec p by (simp add: recoverable_def guest_inv_def w')
      show "wo_guest w' p = qh_used (mp_queues (wo_mapping w') p)
        \<or> (wo_guest w' p = qh_used (mp_queues (wo_mapping w') p) + 1
           \<and> (\<exists>e. live c (wo_mapping w') p (qh_last_head (mp_queues (wo_mapping w') p)) = Some (ACTIVE, e)
                \<and> retirable (mp_header (wo_mapping w')) e))"
        using old guest p(2) by (cases "p = q \<and> qh_last_head (mp_queues (wo_mapping w) p) = h") (auto simp: w' lv)
    qed
  qed (use rec in \<open>simp_all add: recoverable_def header_inv_def queue_inv_def
      validate_header_def Carrier_published_def Carrier_healthy_def w'\<close>)
qed

lemma decode_active:
  assumes dec: "slot_decode c q h s = Inr (Some (state, e))" and st: "state \<noteq> DISCOVERED"
  shows "slot_decode c q h (s\<lparr>sl_state := ACTIVE\<rparr>) = Inr (Some (ACTIVE, e))"
proof -
  have s: "sl_state s \<noteq> DISCOVERED" "sl_state s \<noteq> EMPTY" "sl_state s = PREPARED \<or> sl_state s = ACTIVE"
    using slot_decode_Some(1,2) [OF dec] st by auto
  have pass: "\<not> (sl_flags s AND NOT REJECTED \<noteq> 0 \<or> \<not> all_zero (sl_tail s))"
    using dec by (auto simp: slot_decode_def split: if_splits)
  obtain kind where kind: "Kind_try_from (sl_kind s) = Inr kind" "Request_validate (slot_request kind s) (ca_image_bytes c) = Inr ()"
    "decode_admitted c q h s (slot_request kind s) = Inr (Some (state, e))"
    using dec s pass by (auto simp: slot_decode_def)
  have same: "slot_request kind (s\<lparr>sl_state := ACTIVE\<rparr>) = slot_request kind s" by (simp add: slot_request_def)
  have "decode_admitted c q h (s\<lparr>sl_state := ACTIVE\<rparr>) (slot_request kind s) = Inr (Some (ACTIVE, e))"
    using kind(3) unfolding decode_admitted_def Let_def by (simp split: if_split_asm)
  then show ?thesis using pass kind(1,2) by (simp add: slot_decode_def same)
qed

lemma decode_empty: "slot_decode c q h s = Inr v \<Longrightarrow> slot_decode c q h (s\<lparr>sl_state := EMPTY\<rparr>) = Inr None"
  by (auto simp: slot_decode_def split: if_splits)

lemma apart_others:
  assumes "recoverable c w" and "live c (wo_mapping w) q h = Some (state, e)" and "live c (wo_mapping w) q' h' = Some x"
    and "(q', h') \<noteq> (q, h)"
  shows "apart e (snd x) \<and> apart (snd x) e"
proof -
  have d: "distinct_inv c (wo_mapping w)" using assms(1) by (simp add: recoverable_def)
  show ?thesis using d [unfolded distinct_inv_def, rule_format, OF assms(2,3)] d [unfolded distinct_inv_def, rule_format, OF assms(3,2)]
    assms(4) by auto
qed

lemma newest_slot:
  assumes inv: "newest_inv c m" and lv: "live c m' = (live c m)(q := (live c m q)(h := v))" and hd: "mp_header m' = mp_header m"
    and some: "\<And>state e. v = Some (state, e) \<Longrightarrow> \<exists>state' e'. live c m q h = Some (state', e') \<and>
      en_discovery e' = en_discovery e \<and> en_request e' = en_request e"
    and none: "\<And>x. v = None \<Longrightarrow> live c m q h = Some x \<Longrightarrow> en_discovery (snd x) \<le> ih_discovery (mp_header m)"
  shows "newest_inv c m'"
  unfolding newest_inv_def hd
proof (intro allI impI)
  fix q1 h1 st1 e1
  assume a: "live c m' q1 h1 = Some (st1, e1)" and b: "ih_discovery (mp_header m) \<le> en_discovery e1"
    and m: "\<forall>q' h' x. live c m' q' h' = Some x \<longrightarrow> en_discovery (snd x) \<le> en_discovery e1"
  have off: "live c m' q' h' = live c m q' h'" if "(q', h') \<noteq> (q, h)" for q' h'
    using that by (auto simp: lv)
  have at: "live c m' q h = v" by (simp add: lv)
  obtain st0 e0 where old: "live c m q1 h1 = Some (st0, e0)" "en_discovery e0 = en_discovery e1" "en_request e0 = en_request e1"
  proof (cases "(q1, h1) = (q, h)")
    case True
    then show thesis using a at some that by auto
  next
    case False
    then show thesis using a off [of q1 h1] that by simp
  qed
  have le: "en_discovery (snd x) \<le> en_discovery e1" if x: "live c m q' h' = Some x" for q' h' x
  proof (cases "(q', h') = (q, h)")
    case True
    then show ?thesis
    proof (cases v)
      case None
      then show ?thesis using none [OF None, of x] True x b by simp
    next
      case (Some y)
      then have "en_discovery (snd y) \<le> en_discovery e1" using m at by metis
      then show ?thesis using some [of "fst y" "snd y"] Some True x by auto
    qed
  next
    case False
    then show ?thesis using m off [of q' h'] x by metis
  qed
  have "near_cursor (mp_header m) q1 e0" using inv [unfolded newest_inv_def, rule_format, OF old(1)] old(2) b le by simp
  then show "near_cursor (mp_header m) q1 e1" by (simp add: near_cursor_def old)
qed

lemma keeps_slot_active:
  assumes rec: "recoverable c w" and lv: "live c (wo_mapping w) q h = Some (state, e)" and st: "state \<noteq> DISCOVERED"
    and inflight: "de_inflight (mp_descriptors (wo_mapping w) q h) = 1"
  shows "keeps c w (store (SlotState q h ACTIVE) w)"
proof -
  note range = live_in_range [OF lv]
  have dec: "slot_decode c q h (mp_slots (wo_mapping w) q h) = Inr (Some (state, e))" using slot_invD(1) [OF rec range] lv by simp
  note active = decode_active [OF dec st]
  have ok: "entry_ok (mp_header (wo_mapping w)) (mp_queues (wo_mapping w) q) (mp_descriptors (wo_mapping w) q h) ACTIVE e"
    using live_entry_ok [OF rec lv] inflight st by (auto simp: entry_ok_def )
  have seen: "state = ACTIVE" if "wo_guest w q \<noteq> qh_used (mp_queues (wo_mapping w) q)" "qh_last_head (mp_queues (wo_mapping w) q) = h"
    using guest_seen [OF rec in_range_0 [OF range]] ok that lv by (metis entry_ok_def fst_conv option.inject)
  have live': "live c (on_slot q h (sl_state_update (\<lambda>_. ACTIVE)) (wo_mapping w)) =
      (live c (wo_mapping w))(q := (live c (wo_mapping w) q)(h := Some (ACTIVE, e)))"
    by (rule live_on_slot [OF range]) (simp add: active)
  have rec': "recoverable c (store (SlotState q h ACTIVE) w)"
  proof (rule recoverable_slot [OF rec range, where s = "sl_state_update (\<lambda>_. ACTIVE)" and v = "Some (ACTIVE, e)"])
    show "newest_inv c (on_slot q h (sl_state_update (\<lambda>_. ACTIVE)) (wo_mapping w))"
      by (rule newest_slot [OF _ live']) (use rec lv in \<open>auto simp: recoverable_def\<close>)
    show "Some (ACTIVE, e) = live c (wo_mapping w) q h \<or> wo_guest w q = qh_used (mp_queues (wo_mapping w) q)
        \<or> qh_last_head (mp_queues (wo_mapping w) q) \<noteq> h"
      using seen lv by auto
    show "apart e1 (snd x) \<and> apart (snd x) e1"
      if "Some (ACTIVE, e) = Some (st1, e1)" "live c (wo_mapping w) q' h' = Some x" "(q', h') \<noteq> (q, h)" for st1 e1 q' h' x
      using apart_others [OF rec lv that(2,3)] that(1) by simp
  qed (use active ok in auto)
  moreover have "outstanding c (store (SlotState q h ACTIVE) w) = outstanding c w"
    using seen st inflight lv
    by (subst outstanding_slot [OF range, where s = "sl_state_update (\<lambda>_. ACTIVE)" and v = "Some (ACTIVE, e)"])
      (auto simp: active fun_eq_iff outstanding_def )
  ultimately show ?thesis by (simp add: keeps_def)
qed

lemma keeps_slot_empty:
  assumes rec: "recoverable c w" and lv: "live c (wo_mapping w) q h = Some (ACTIVE, e)"
    and inflight: "de_inflight (mp_descriptors (wo_mapping w) q h) = 0"
    and guest: "wo_guest w q = qh_used (mp_queues (wo_mapping w) q)"
  shows "keeps c w (store (SlotState q h EMPTY) w)"
proof -
  note range = live_in_range [OF lv]
  note empty = decode_empty [OF slot_invD(1) [OF rec range]]
  have ok: "en_discovery e \<le> ih_discovery (mp_header (wo_mapping w))"
    using live_entry_ok [OF rec lv] by (simp add: entry_ok_def )
  have live': "live c (on_slot q h (sl_state_update (\<lambda>_. EMPTY)) (wo_mapping w)) =
      (live c (wo_mapping w))(q := (live c (wo_mapping w) q)(h := None))"
    by (rule live_on_slot [OF range]) (simp add: empty)
  have rec': "recoverable c (store (SlotState q h EMPTY) w)"
  proof (rule recoverable_slot [OF rec range, where s = "sl_state_update (\<lambda>_. EMPTY)" and v = None])
    show "newest_inv c (on_slot q h (sl_state_update (\<lambda>_. EMPTY)) (wo_mapping w))"
      by (rule newest_slot [OF _ live']) (use rec lv ok in \<open>auto simp: recoverable_def\<close>)
  qed (use empty inflight guest in auto)
  moreover have "outstanding c (store (SlotState q h EMPTY) w) = outstanding c w"
    using inflight lv
    by (subst outstanding_slot [OF range, where s = "sl_state_update (\<lambda>_. EMPTY)" and v = None])
      (auto simp: empty fun_eq_iff outstanding_def)
  ultimately show ?thesis by (simp add: keeps_def)
qed

lemma newestD:
  assumes "recoverable c w" and "live c (wo_mapping w) q h = Some (state, e)" and "ih_discovery (mp_header (wo_mapping w)) \<le> en_discovery e"
    and "\<And>q' h' x. live c (wo_mapping w) q' h' = Some x \<Longrightarrow> en_discovery (snd x) \<le> en_discovery e"
  shows "near_cursor (mp_header (wo_mapping w)) q e"
  using assms unfolding recoverable_def newest_inv_def by blast

text \<open>Header stores. The counters only grow, and only the discovery counter and the cursors matter to the newest discovery.\<close>

lemma keeps_header:
  assumes rec: "recoverable c w"
    and w': "wo_mapping w' = on_header f (wo_mapping w)" "wo_guest w' = wo_guest w"
    and header: "header_inv c (on_header f (wo_mapping w))"
    and cursors: "\<And>q. in_range c q 0 \<Longrightarrow> ih_available (f (mp_header (wo_mapping w))) q < 2 ^ 16"
    and grow: "ih_discovery (mp_header (wo_mapping w)) \<le> ih_discovery (f (mp_header (wo_mapping w)))"
      "ih_serial (mp_header (wo_mapping w)) \<le> ih_serial (f (mp_header (wo_mapping w)))"
      "ih_mutation (mp_header (wo_mapping w)) \<le> ih_mutation (f (mp_header (wo_mapping w)))"
      "ih_published (mp_header (wo_mapping w)) \<le> ih_published (f (mp_header (wo_mapping w)))"
    and newest: "newest_inv c (on_header f (wo_mapping w))"
  shows "keeps c w w'"
proof -
  have entry: "entry_ok (f (mp_header (wo_mapping w))) s d st e" if "entry_ok (mp_header (wo_mapping w)) s d st e" for s d st e
    using that grow by (auto simp: entry_ok_def retirable_def)
  have retire: "retirable (f (mp_header (wo_mapping w))) e" if "retirable (mp_header (wo_mapping w)) e" for e
    using that grow by (auto simp: retirable_def)
  show ?thesis unfolding keeps_def recoverable_def
  proof (intro conjI)
    show "outstanding c w' = outstanding c w" by (simp add: outstanding_def fun_eq_iff w')
    show "guest_inv c w'" using rec retire unfolding recoverable_def guest_inv_def w' by (simp, blast)
    show "live_inv c (wo_mapping w')" using rec entry by (simp add: recoverable_def live_inv_def w')
    show "queue_inv c (wo_mapping w')" using rec cursors by (simp add: recoverable_def queue_inv_def w')
  qed (use rec header newest in \<open>simp_all add: recoverable_def slot_inv_def distinct_inv_def w'\<close>)
qed

lemma header_inv_counters:
  assumes "header_inv c m" and "ih_published h \<le> ih_mutation h"
    and "\<And>q. \<not> in_range c q 0 \<Longrightarrow> ge_queues (ca_geometry c) \<le> q \<Longrightarrow> ih_available h q = ih_available (mp_header m) q"
    and "mp_header m' = h"
    and "h = mp_header m\<lparr>ih_serial := ih_serial h, ih_mutation := ih_mutation h, ih_published := ih_published h,
      ih_available := ih_available h, ih_discovery := ih_discovery h\<rparr>"
  shows "header_inv c m'"
proof -
  have same: "ih_magic h = ih_magic (mp_header m)" "ih_version h = ih_version (mp_header m)" "ih_bytes h = ih_bytes (mp_header m)"
    "ih_store h = ih_store (mp_header m)" "ih_image h = ih_image (mp_header m)" "ih_epoch h = ih_epoch (mp_header m)"
    "ih_attachment h = ih_attachment (mp_header m)" "ih_queues h = ih_queues (mp_header m)"
    "ih_queue_size h = ih_queue_size (mp_header m)" "ih_slot_size h = ih_slot_size (mp_header m)"
    "ih_failed h = ih_failed (mp_header m)" "ih_reserved h = ih_reserved (mp_header m)"
    by (subst assms(5), simp)+
  have "list_ex (\<lambda>q. ih_available h q \<noteq> 0) [ge_queues (ca_geometry c)..<4] =
      list_ex (\<lambda>q. ih_available (mp_header m) q \<noteq> 0) [ge_queues (ca_geometry c)..<4]"
    using assms(3) by (intro list_ex_cong) (auto simp: in_range_def)
  then show ?thesis using assms(1,2)
    by (auto simp: header_inv_def validate_header_def header_identity_def Carrier_published_def Carrier_healthy_def assms(4) same Let_def)
qed

lemma recoverable_published: "recoverable c w \<Longrightarrow> ih_published (mp_header (wo_mapping w)) \<le> ih_mutation (mp_header (wo_mapping w))"
  by (auto simp: recoverable_def header_inv_def validate_header_def Carrier_published_def Let_def ensure_def split: if_splits)

lemma keeps_header_serial:
  assumes "recoverable c w" and "ih_serial (mp_header (wo_mapping w)) \<le> v"
  shows "keeps c w (store (HeaderSerial v) w)"
proof (rule keeps_header [OF assms(1), where f = "ih_serial_update (\<lambda>_. v)"])
  show "header_inv c (on_header (ih_serial_update (\<lambda>_. v)) (wo_mapping w))"
    by (rule header_inv_counters [where m = "wo_mapping w"]) (use assms recoverable_published in \<open>auto simp: recoverable_def\<close>)
qed (use assms in \<open>auto simp: recoverable_def queue_inv_def newest_inv_def near_cursor_def\<close>)

lemma keeps_header_mutation:
  assumes "recoverable c w" and "ih_mutation (mp_header (wo_mapping w)) \<le> v"
  shows "keeps c w (store (HeaderMutation v) w)"
proof (rule keeps_header [OF assms(1), where f = "ih_mutation_update (\<lambda>_. v)"])
  show "header_inv c (on_header (ih_mutation_update (\<lambda>_. v)) (wo_mapping w))"
    by (rule header_inv_counters [where m = "wo_mapping w"])
      (use assms recoverable_published [OF assms(1)] in \<open>auto simp: recoverable_def\<close>)
qed (use assms in \<open>auto simp: recoverable_def queue_inv_def newest_inv_def near_cursor_def\<close>)

lemma keeps_header_published:
  assumes "recoverable c w" and "ih_published (mp_header (wo_mapping w)) \<le> v" and "v \<le> ih_mutation (mp_header (wo_mapping w))"
  shows "keeps c w (store (HeaderPublished v) w)"
proof (rule keeps_header [OF assms(1), where f = "ih_published_update (\<lambda>_. v)"])
  show "header_inv c (on_header (ih_published_update (\<lambda>_. v)) (wo_mapping w))"
    by (rule header_inv_counters [where m = "wo_mapping w"]) (use assms in \<open>auto simp: recoverable_def\<close>)
qed (use assms in \<open>auto simp: recoverable_def queue_inv_def newest_inv_def near_cursor_def\<close>)

lemma keeps_header_discovery:
  assumes "recoverable c w" and "ih_discovery (mp_header (wo_mapping w)) \<le> v"
  shows "keeps c w (store (HeaderDiscovery v) w)"
proof (rule keeps_header [OF assms(1), where f = "ih_discovery_update (\<lambda>_. v)"])
  show "header_inv c (on_header (ih_discovery_update (\<lambda>_. v)) (wo_mapping w))"
    by (rule header_inv_counters [where m = "wo_mapping w"])
      (use assms recoverable_published [OF assms(1)] in \<open>auto simp: recoverable_def\<close>)
  show "newest_inv c (on_header (ih_discovery_update (\<lambda>_. v)) (wo_mapping w))"
    unfolding newest_inv_def
  proof (intro allI impI)
    fix q h state e
    assume "live c (on_header (ih_discovery_update (\<lambda>_. v)) (wo_mapping w)) q h = Some (state, e)"
      "ih_discovery (mp_header (on_header (ih_discovery_update (\<lambda>_. v)) (wo_mapping w))) \<le> en_discovery e"
      "\<forall>q' h' x. live c (on_header (ih_discovery_update (\<lambda>_. v)) (wo_mapping w)) q' h' = Some x \<longrightarrow> en_discovery (snd x) \<le> en_discovery e"
    then have "near_cursor (mp_header (wo_mapping w)) q e"
      using assms(2) by (intro newestD [OF assms(1)]) auto
    then show "near_cursor (mp_header (on_header (ih_discovery_update (\<lambda>_. v)) (wo_mapping w))) q e" by (simp add: near_cursor_def)
  qed
qed (use assms in \<open>auto simp: recoverable_def queue_inv_def\<close>)

lemma keeps_header_available:
  assumes "recoverable c w" and "in_range c p 0" and "v < 2 ^ 16"
    and near: "\<And>h state e. live c (wo_mapping w) p h = Some (state, e) \<Longrightarrow> ih_discovery (mp_header (wo_mapping w)) \<le> en_discovery e \<Longrightarrow>
      (\<And>q' h' x. live c (wo_mapping w) q' h' = Some x \<Longrightarrow> en_discovery (snd x) \<le> en_discovery e) \<Longrightarrow>
      of_nat v = rq_available (en_request e) \<or> of_nat v = rq_available (en_request e) + 1"
  shows "keeps c w (store (HeaderAvailable p v) w)"
proof (rule keeps_header [OF assms(1), where f = "ih_available_update (\<lambda>a. a(p := v))"])
  show "header_inv c (on_header (ih_available_update (\<lambda>a. a(p := v))) (wo_mapping w))"
    by (rule header_inv_counters [where m = "wo_mapping w"])
      (use assms(1,2) recoverable_published [OF assms(1)] in \<open>auto simp: recoverable_def in_range_def\<close>)
  show "newest_inv c (on_header (ih_available_update (\<lambda>a. a(p := v))) (wo_mapping w))"
    unfolding newest_inv_def
  proof (intro allI impI)
    fix q h state e
    let ?m = "on_header (ih_available_update (\<lambda>a. a(p := v))) (wo_mapping w)"
    assume a: "live c ?m q h = Some (state, e)" "ih_discovery (mp_header ?m) \<le> en_discovery e"
      "\<forall>q' h' x. live c ?m q' h' = Some x \<longrightarrow> en_discovery (snd x) \<le> en_discovery e"
    have "near_cursor (mp_header (wo_mapping w)) q e"
      using a by (intro newestD [OF assms(1)]) auto
    then show "near_cursor (mp_header ?m) q e"
      using near [of h state e] a by (cases "q = p") (auto simp: near_cursor_def Let_def)
  qed
qed (use assms in \<open>auto simp: recoverable_def queue_inv_def\<close>)

end
