(* ===== verification/Inflight_Replay.thy ===== *)
theory Inflight_Replay
  imports Inflight_Crash
begin

text \<open>
  Correctness of the inflight carrier across deaths of the daemon. Every store of an operation either leaves the outstanding
  requests alone or is the one at which the operation takes effect, whatever point a death comes at; and reconciliation, however
  often it is itself interrupted, hands exactly the outstanding requests to the next daemon.
\<close>

section \<open>What reconciliation reads\<close>

definition saved_of :: "Carrier \<Rightarrow> InflightMapping \<Rightarrow> nat \<Rightarrow> nat \<Rightarrow> Saved option" where
  "saved_of c m q h = (case live c m q h of
       None \<Rightarrow> None
     | Some (state, e) \<Rightarrow> Some \<lparr>sv_state = state, sv_entry = e, sv_inflight = (de_inflight (mp_descriptors m q h) = 1)\<rparr>)"

abbreviation sv_queue :: "Saved \<Rightarrow> nat" where "sv_queue s \<equiv> rq_queue (en_request (sv_entry s))"
abbreviation sv_head :: "Saved \<Rightarrow> nat" where "sv_head s \<equiv> rq_head (en_request (sv_entry s))"

lemma saved_of_Some:
  "saved_of c m q h = Some s \<longleftrightarrow> live c m q h = Some (sv_state s, sv_entry s) \<and> sv_inflight s = (de_inflight (mp_descriptors m q h) = 1)"
  by (cases s) (auto simp: saved_of_def split: option.splits)

lemma saved_of_pos: "saved_of c m q h = Some s \<Longrightarrow> sv_queue s = q \<and> sv_head s = h"
  using live_Some(2,3) by (auto simp: saved_of_Some)

definition scanned :: "Carrier \<Rightarrow> InflightMapping \<Rightarrow> Saved list" where
  "scanned c m = List.map_filter (\<lambda>(q, h). saved_of c m q h) (heads (ca_geometry c))"

lemma set_map_filter: "z \<in> set (List.map_filter f xs) \<longleftrightarrow> (\<exists>x \<in> set xs. f x = Some z)"
  by (induction xs) (auto simp: List.map_filter_simps split: option.splits)

lemma map_filter_same: "(\<And>x. x \<in> set xs \<Longrightarrow> f x = g x) \<Longrightarrow> List.map_filter f xs = List.map_filter g xs"
  by (induction xs) (simp_all add: List.map_filter_simps split: option.splits)

lemma set_heads: "(q, h) \<in> set (heads (ca_geometry c)) \<longleftrightarrow> in_range c q h"
  by (auto simp: heads_def in_range_def)

lemma set_scanned: "s \<in> set (scanned c m) \<longleftrightarrow> saved_of c m (sv_queue s) (sv_head s) = Some s"
proof
  assume "s \<in> set (scanned c m)"
  then obtain q h where "saved_of c m q h = Some s" by (auto simp: scanned_def set_map_filter)
  then show "saved_of c m (sv_queue s) (sv_head s) = Some s" using saved_of_pos by metis
next
  assume s: "saved_of c m (sv_queue s) (sv_head s) = Some s"
  then have "in_range c (sv_queue s) (sv_head s)" by (auto simp: saved_of_Some intro: live_in_range)
  then show "s \<in> set (scanned c m)" using s
    by (auto simp: scanned_def set_map_filter set_heads intro!: bexI [of _ "(sv_queue s, sv_head s)"])
qed

lemma distinct_map_filter:
  assumes "distinct xs" and "\<And>x y z. x \<in> set xs \<Longrightarrow> y \<in> set xs \<Longrightarrow> f x = Some z \<Longrightarrow> f y = Some z \<Longrightarrow> x = y"
  shows "distinct (List.map_filter f xs)"
  using assms
proof (induction xs)
  case (Cons x xs)
  have tail: "distinct (List.map_filter f xs)"
    by (rule Cons.IH) (use Cons.prems in \<open>auto 4 3\<close>)
  have new: "z \<notin> set (List.map_filter f xs)" if "f x = Some z" for z
    using Cons.prems(1) Cons.prems(2) [of x _ z] that by (auto simp: set_map_filter)
  show ?case using tail new by (cases "f x") (auto simp: List.map_filter_simps)
qed (simp add: List.map_filter_simps)

lemma distinct_scanned: "distinct (scanned c m)"
  unfolding scanned_def
proof (rule distinct_map_filter)
  show "distinct (heads (ca_geometry c))" by (simp add: heads_def distinct_product)
qed (auto dest: saved_of_pos)

lemma entry_counters_ok:
  assumes ok: "entry_ok (mp_header m) (mp_queues m q) (mp_descriptors m q h) state e"
  shows "slot_counters_ok m q h state e"
proof -
  have "en_discovery e \<le> saturating_add (ih_discovery (mp_header m)) 1" "en_serial e \<le> saturating_add (ih_serial (mp_header m)) 1"
    "en_mutation e \<le> saturating_add (ih_mutation (mp_header m)) 1"
    using ok by (auto simp: entry_ok_def saturating_add_def split: if_splits)
  then show ?thesis using ok
    by (auto simp: slot_counters_ok_def entry_ok_def retirable_def Carrier_published_def Let_def not_less)
qed

lemma scan_head_exact:
  assumes "recoverable c w" and "in_range c q h"
  shows "scan_head c (wo_mapping w) q h = Inr (saved_of c (wo_mapping w) q h)"
proof -
  have r: "all_zero (de_reserved (mp_descriptors (wo_mapping w) q h))"
    using assms by (simp add: recoverable_def slot_inv_def)
  note s = slot_invD [OF assms]
  show ?thesis
  proof (cases "live c (wo_mapping w) q h")
    case None
    then show ?thesis using s r assms(2) by (simp add: scan_head_def Carrier_read_slot_def Geometry_check_in_range saved_of_def)
  next
    case (Some x)
    obtain state e where x: "x = (state, e)" by (cases x)
    show ?thesis using s r assms(2) Some entry_counters_ok [OF live_entry_ok [OF assms(1) Some [unfolded x]]]
      by (simp add: scan_head_def Carrier_read_slot_def Geometry_check_in_range saved_of_def x)
  qed
qed

lemma scan_heads_exact:
  assumes "recoverable c w" and "\<forall>h \<in> set hs. in_range c q h"
  shows "scan_heads c (wo_mapping w) q hs acc = Inr (acc @ List.map_filter (saved_of c (wo_mapping w) q) hs)"
  using assms(2)
  by (induction hs arbitrary: acc) (auto simp: List.map_filter_simps scan_head_exact [OF assms(1)] split: option.splits)

lemma scan_queues_exact:
  assumes "recoverable c w" and "\<forall>q \<in> set qs. in_range c q 0"
  shows "scan_queues c (wo_mapping w) qs acc =
    Inr (acc @ concat (map (\<lambda>q. List.map_filter (saved_of c (wo_mapping w) q) [0..<ge_queue_size (ca_geometry c)]) qs))"
  using assms(2)
proof (induction qs arbitrary: acc)
  case (Cons q qs)
  have q: "in_range c q 0" "queue_header_ok (ca_geometry c) (mp_queues (wo_mapping w) q)" "ih_available (mp_header (wo_mapping w)) q < 2 ^ 16"
    using Cons.prems assms(1) by (auto simp: recoverable_def queue_inv_def)
  have "\<forall>h \<in> set [0..<ge_queue_size (ca_geometry c)]. in_range c q h" using q(1) by (simp add: in_range_def)
  from scan_heads_exact [OF assms(1) this] show ?case
    using Cons q by (simp add: Geometry_check_in_range Carrier_available_def)
qed simp

lemma map_filter_product:
  "List.map_filter (\<lambda>(q, h). f q h) (List.product qs hs) = concat (map (\<lambda>q. List.map_filter (f q) hs) qs)"
  by (induction qs) (auto simp: List.map_filter_def filter_map o_def)

lemma scan_queues_scanned:
  assumes "recoverable c w"
  shows "scan_queues c (wo_mapping w) [0..<ge_queues (ca_geometry c)] [] = Inr (scanned c (wo_mapping w))"
proof -
  have "\<forall>q \<in> set [0..<ge_queues (ca_geometry c)]. in_range c q 0"
    using assms by (auto simp: in_range_def recoverable_def queue_inv_def)
  from scan_queues_exact [OF assms this] show ?thesis by (simp add: scanned_def heads_def map_filter_product)
qed

lemma no_equal_pair:
  assumes "distinct xs" and "\<And>x y. x \<in> set xs \<Longrightarrow> y \<in> set xs \<Longrightarrow> x \<noteq> y \<Longrightarrow> \<not> P x y"
  shows "\<not> any_pair P xs"
  using assms by (induction P xs rule: any_pair.induct) auto

lemma distinct_nonzero_map:
  assumes "distinct xs" and "\<And>x y. x \<in> set xs \<Longrightarrow> y \<in> set xs \<Longrightarrow> x \<noteq> y \<Longrightarrow> f x \<noteq> (0 :: nat) \<Longrightarrow> f x \<noteq> f y"
  shows "distinct (sort (filter (\<lambda>d. d \<noteq> 0) (map f xs)))"
  using assms by (induction xs) auto

lemma scanned_apart:
  assumes "recoverable c w" and "s \<in> set (scanned c (wo_mapping w))" and "s' \<in> set (scanned c (wo_mapping w))" and "s \<noteq> s'"
  shows "apart (sv_entry s) (sv_entry s')"
proof -
  have s: "saved_of c (wo_mapping w) (sv_queue s) (sv_head s) = Some s" "saved_of c (wo_mapping w) (sv_queue s') (sv_head s') = Some s'"
    using assms(2,3) by (auto simp: set_scanned)
  then have "(sv_queue s', sv_head s') \<noteq> (sv_queue s, sv_head s)" using assms(4) by auto
  then show ?thesis using apart_others [OF assms(1)] s by (fastforce simp: saved_of_Some)
qed

definition replay_order :: "Carrier \<Rightarrow> InflightMapping \<Rightarrow> Saved list" where
  "replay_order c m = sort_key (\<lambda>s. en_serial (sv_entry s)) (scanned c m)"

lemma replay_order_props:
  "set (replay_order c m) = set (scanned c m)" "distinct (replay_order c m)"
  "sorted (map (\<lambda>s. en_serial (sv_entry s)) (replay_order c m))"
  by (simp_all add: replay_order_def distinct_scanned)

lemma Carrier_scan_exact:
  assumes "recoverable c w" and room: "\<And>i. i < 6 \<Longrightarrow> room i = Inr ()"
  shows "Carrier_scan room c (wo_mapping w) = Inr (replay_order c (wo_mapping w))"
proof -
  let ?s = "replay_order c (wo_mapping w)"
  have ne: "apart (sv_entry a) (sv_entry b)" if "a \<in> set ?s" "b \<in> set ?s" "a \<noteq> b" for a b
    using scanned_apart [OF assms(1)] that by (simp add: replay_order_props)
  have 1: "\<not> any_pair (\<lambda>a b. en_serial (sv_entry a) \<noteq> 0 \<and> en_serial (sv_entry a) = en_serial (sv_entry b)) ?s"
    using ne by (intro no_equal_pair) (auto simp: replay_order_props apart_def)
  have 2: "\<not> any_pair (=) (sort (filter (\<lambda>d. d \<noteq> 0) (map (\<lambda>s. en_discovery (sv_entry s)) ?s)))"
    using ne by (intro no_equal_pair distinct_nonzero_map) (auto simp: replay_order_props apart_def)
  have 3: "\<not> any_pair (=) (sort (filter (\<lambda>d. d \<noteq> 0) (map (\<lambda>s. en_mutation (sv_entry s)) ?s)))"
    using ne by (intro no_equal_pair distinct_nonzero_map) (auto simp: replay_order_props apart_def)
  show ?thesis
    using 1 2 3 scan_queues_scanned [OF assms(1)] room [of 0] room [of 1] room [of 2]
    by (simp add: Carrier_scan_def Let_def flip: replay_order_def)
qed

text \<open>The completion that the guest has seen on queue \<open>q\<close> and the mapping has not.\<close>

definition finished :: "Carrier \<Rightarrow> CarrierWorld \<Rightarrow> nat \<Rightarrow> (InflightEntry \<times> u16) option" where
  "finished c w q = (let m = wo_mapping w in
     if qh_version (mp_queues m q) = 1 \<and> wo_guest w q \<noteq> qh_used (mp_queues m q)
     then map_option (\<lambda>x. (snd x, wo_guest w q)) (live c m q (qh_last_head (mp_queues m q)))
     else None)"

definition guest_cursors :: "Carrier \<Rightarrow> CarrierWorld \<Rightarrow> u16 option list" where
  "guest_cursors c w = map (\<lambda>q. if qh_version (mp_queues (wo_mapping w) q) = 1 then Some (wo_guest w q) else None)
     [0..<ge_queues (ca_geometry c)]"

lemma find_unique:
  assumes "x \<in> set xs" and "P x" and "\<And>y. y \<in> set xs \<Longrightarrow> P y \<Longrightarrow> y = x"
  shows "find P xs = Some x"
  using assms
proof (induction xs)
  case (Cons y ys)
  have tail: "find P ys = Some x" if "x \<in> set ys" by (rule Cons.IH) (use Cons.prems that in simp_all)
  show ?case using Cons.prems(1,2) Cons.prems(3) [of y] tail by (cases "P y") auto
qed simp

lemma completed_queues_exact:
  assumes rec: "recoverable c w" and saved: "set saved = set (scanned c (wo_mapping w))" and "\<forall>q \<in> set qs. in_range c q 0"
  shows "completed_queues c (wo_mapping w) saved
      (map (\<lambda>q. (q, if qh_version (mp_queues (wo_mapping w) q) = 1 then Some (wo_guest w q) else None)) qs) acc =
    Inr (acc @ List.map_filter (finished c w) qs)"
  using assms(3)
proof (induction qs arbitrary: acc)
  case (Cons q qs)
  let ?m = "wo_mapping w" let ?h = "qh_last_head (mp_queues (wo_mapping w) q)"
  have q: "in_range c q 0" and ih: "completed_queues c ?m saved
      (map (\<lambda>q. (q, if qh_version (mp_queues ?m q) = 1 then Some (wo_guest w q) else None)) qs) acc =
    Inr (acc @ List.map_filter (finished c w) qs)" for acc
    using Cons by auto
  have version: "qh_version (mp_queues ?m q) \<le> 1"
    using rec q by (auto simp: recoverable_def queue_inv_def queue_header_ok_def Let_def)
  consider (off) "qh_version (mp_queues ?m q) = 0"
    | (same) "qh_version (mp_queues ?m q) = 1" "wo_guest w q = qh_used (mp_queues ?m q)"
    | (seen) "qh_version (mp_queues ?m q) = 1" "wo_guest w q \<noteq> qh_used (mp_queues ?m q)"
    using version by linarith
  then show ?case
  proof cases
    case seen
    obtain e where e: "live c ?m q ?h = Some (ACTIVE, e)" "retirable (mp_header ?m) e" "wo_guest w q = qh_used (mp_queues ?m q) + 1"
      using guest_seen [OF rec q seen] by blast
    define s where "s = \<lparr>sv_state = ACTIVE, sv_entry = e, sv_inflight = (de_inflight (mp_descriptors ?m q ?h) = 1)\<rparr>"
    have s: "saved_of c ?m q ?h = Some s" using e by (simp add: saved_of_def s_def)
    have "find (\<lambda>s. sv_queue s = q \<and> sv_head s = ?h) saved = Some s"
    proof (rule find_unique)
      show "s \<in> set saved" "sv_queue s = q \<and> sv_head s = ?h" using saved_of_pos [OF s] s saved by (auto simp: set_scanned)
      show "y = s" if "y \<in> set saved" "sv_queue y = q \<and> sv_head y = ?h" for y
        using that s saved by (auto simp: set_scanned)
    qed
    moreover have "finished c w q = Some (e, wo_guest w q)" using seen e by (simp add: finished_def)
    ultimately show ?thesis using seen e(2,3) ih q
      by (simp add: Geometry_check_in_range List.map_filter_simps s_def retirable_def Carrier_published_def not_less)
  next
    case off
    then have "finished c w q = None" by (simp add: finished_def)
    then show ?thesis using ih q off by (simp add: Geometry_check_in_range List.map_filter_simps)
  next
    case same
    then have "finished c w q = None" by (simp add: finished_def)
    then show ?thesis using ih q same by (simp add: Geometry_check_in_range List.map_filter_simps)
  qed
qed (simp add: List.map_filter_simps)

lemma max_by_key_Some: "\<exists>x \<in> insert y (set xs). max_by_key f xs (Some y) = Some x \<and> (\<forall>z \<in> insert y (set xs). f z \<le> f x)"
proof (induction xs arbitrary: y)
  case (Cons x xs)
  show ?case
  proof (cases "f x \<ge> f y")
    case True
    then show ?thesis using Cons.IH [of x] by fastforce
  next
    case False
    then show ?thesis using Cons.IH [of y] by fastforce
  qed
qed simp

text \<open>The newest discovery, if the header has not recorded a later one.\<close>

lemma newest_discovery_exact:
  assumes rec: "recoverable c w" and saved: "set saved = set (scanned c (wo_mapping w))"
  shows "case newest_discovery (wo_mapping w) saved of
      None \<Rightarrow> (\<forall>s \<in> set saved. en_discovery (sv_entry s) < ih_discovery (mp_header (wo_mapping w)))
    | Some s \<Rightarrow> s \<in> set saved \<and> ih_discovery (mp_header (wo_mapping w)) \<le> en_discovery (sv_entry s)
        \<and> (\<forall>s' \<in> set saved. en_discovery (sv_entry s') \<le> en_discovery (sv_entry s))"
proof -
  have "en_discovery (sv_entry s) \<noteq> 0" if "s \<in> set saved" for s
    using that saved live_Some(4) by (fastforce simp: set_scanned saved_of_Some)
  then have all: "filter (\<lambda>s. en_discovery (sv_entry s) \<noteq> 0) saved = saved" by (simp add: filter_id_conv)
  show ?thesis
  proof (cases saved)
    case Nil
    then show ?thesis by (simp add: newest_discovery_def)
  next
    case (Cons y ys)
    obtain x where "x \<in> set saved" "max_by_key (\<lambda>s. en_discovery (sv_entry s)) saved None = Some x"
      "\<forall>z \<in> set saved. en_discovery (sv_entry z) \<le> en_discovery (sv_entry x)"
      using max_by_key_Some [where f = "\<lambda>s. en_discovery (sv_entry s)" and y = y and xs = ys] Cons by auto
    then show ?thesis unfolding newest_discovery_def all by auto
  qed
qed

lemma check_newest_ok:
  assumes rec: "recoverable c w" and saved: "set saved = set (scanned c (wo_mapping w))"
  shows "check_newest c (wo_mapping w) (newest_discovery (wo_mapping w) saved) = Inr ()"
proof (cases "newest_discovery (wo_mapping w) saved")
  case (Some s)
  have s: "s \<in> set saved" "ih_discovery (mp_header (wo_mapping w)) \<le> en_discovery (sv_entry s)"
    "\<And>s'. s' \<in> set saved \<Longrightarrow> en_discovery (sv_entry s') \<le> en_discovery (sv_entry s)"
    using newest_discovery_exact [OF assms] Some by auto
  have lv: "live c (wo_mapping w) (sv_queue s) (sv_head s) = Some (sv_state s, sv_entry s)"
    using s(1) saved by (simp add: set_scanned saved_of_Some)
  have "near_cursor (mp_header (wo_mapping w)) (sv_queue s) (sv_entry s)"
  proof (rule newestD [OF rec lv s(2)])
    fix q h x assume x: "live c (wo_mapping w) q h = Some x"
    then obtain s' where "saved_of c (wo_mapping w) q h = Some s'" "sv_entry s' = snd x" by (cases x) (auto simp: saved_of_def)
    then show "en_discovery (snd x) \<le> en_discovery (sv_entry s)"
      using s(3) [of s'] saved saved_of_pos [of c "wo_mapping w" q h s'] by (simp add: set_scanned)
  qed
  moreover have "in_range c (sv_queue s) 0" using lv by (blast intro: in_range_0 live_in_range)
  moreover have "ih_available (mp_header (wo_mapping w)) (sv_queue s) < 2 ^ 16"
    using rec \<open>in_range c (sv_queue s) 0\<close> by (simp add: recoverable_def queue_inv_def)
  ultimately show ?thesis using Some
    by (auto simp: check_newest_def Carrier_available_def Geometry_check_in_range near_cursor_def Let_def)
qed (simp add: check_newest_def)

section \<open>Repair\<close>

lemma crash_safe_mono: "crash_safe P es w \<Longrightarrow> (\<And>x. P x \<Longrightarrow> Q x) \<Longrightarrow> crash_safe Q es w"
  by (simp add: crash_safe_def)

definition sealed :: "effect list \<Rightarrow> bool" where
  "sealed es \<longleftrightarrow> es = [] \<or> fst (List.last es) = Release"

lemma sealed_append: "sealed es \<Longrightarrow> sealed fs \<Longrightarrow> sealed (es @ fs)"
  by (cases fs rule: rev_cases) (auto simp: sealed_def)

text \<open>A safe list of stores after another one.\<close>

definition safe_run :: "Carrier \<Rightarrow> effect list \<Rightarrow> CarrierWorld \<Rightarrow> bool" where
  "safe_run c es w \<longleftrightarrow> sealed es \<and> crash_safe (keeps c w) es w \<and> keeps c w (run es w)"

lemma safe_run_Nil [simp]: "safe_run c [] w \<longleftrightarrow> recoverable c w"
  by (auto simp: safe_run_def sealed_def keeps_def)

lemma safe_run_append:
  assumes "safe_run c es w" and "safe_run c fs (run es w)"
  shows "safe_run c (es @ fs) w"
proof -
  have k: "keeps c w (run es w)" using assms(1) by (simp add: safe_run_def)
  have "crash_safe (keeps c w) fs (run es w)"
    using assms(2) crash_safe_mono keeps_trans [OF k] unfolding safe_run_def by blast
  then have "crash_safe (keeps c w) (es @ fs) w"
    using assms(1) by (intro crash_safe_append) (auto simp: safe_run_def sealed_def)
  then show ?thesis using assms keeps_trans [OF k] by (auto simp: safe_run_def sealed_append)
qed

lemma safe_run_release:
  assumes "recoverable c w" and "keeps c w (store t w)"
  shows "safe_run c [(Release, t)] w"
  using assms by (simp add: safe_run_def sealed_def keeps_refl)

lemma safe_run_Cons:
  assumes "recoverable c w" and "keeps c w (store t w)" and "safe_run c es (store t w)"
  shows "safe_run c ((Release, t) # es) w"
  using safe_run_append [OF safe_run_release [OF assms(1,2)], of es] assms(3) by simp

lemma keeps_recoverable: "keeps c w w' \<Longrightarrow> recoverable c w'"
  by (simp add: keeps_def)

definition retire :: "InflightEntry \<Rightarrow> u16 \<Rightarrow> effect list" where
  "retire e u = (let q = rq_queue (en_request e); h = rq_head (en_request e) in
     [(Release, DescriptorInflight q h 0), (Release, QueueUsed q u), (Release, SlotState q h EMPTY)])"

lemma finish_completions_exact:
  assumes "\<forall>(e, u) \<in> set cs. in_range c (rq_queue (en_request e)) (rq_head (en_request e))"
  shows "finish_completions c cs = (concat (map (\<lambda>(e, u). retire e u) cs), Inr ())"
  using assms
proof (induction cs)
  case (Cons x cs)
  obtain e u where x: "x = (e, u)" by (cases x)
  have "in_range c (rq_queue (en_request e)) (rq_head (en_request e))" using Cons.prems x by simp
  then show ?case using Cons
    by (simp add: x finish_completion_def guarded_def and_then_def retire_def Let_def Geometry_check_in_range)
qed simp

lemma finished_Some:
  assumes "recoverable c w" and "in_range c q 0" and "finished c w q = Some (e, u)"
  shows "live c (wo_mapping w) q (qh_last_head (mp_queues (wo_mapping w) q)) = Some (ACTIVE, e)" "u = wo_guest w q"
    "qh_version (mp_queues (wo_mapping w) q) = 1" "wo_guest w q \<noteq> qh_used (mp_queues (wo_mapping w) q)"
    "rq_queue (en_request e) = q" "rq_head (en_request e) = qh_last_head (mp_queues (wo_mapping w) q)"
proof -
  show v: "qh_version (mp_queues (wo_mapping w) q) = 1" "wo_guest w q \<noteq> qh_used (mp_queues (wo_mapping w) q)" "u = wo_guest w q"
    using assms(3) by (auto simp: finished_def Let_def split: if_splits)
  obtain e' where e': "live c (wo_mapping w) q (qh_last_head (mp_queues (wo_mapping w) q)) = Some (ACTIVE, e')"
    using guest_seen [OF assms(1,2) v(1,2)] by blast
  then have "e' = e" using assms(3) v by (simp add: finished_def)
  then show lv: "live c (wo_mapping w) q (qh_last_head (mp_queues (wo_mapping w) q)) = Some (ACTIVE, e)" using e' by simp
  show "rq_queue (en_request e) = q" "rq_head (en_request e) = qh_last_head (mp_queues (wo_mapping w) q)"
    using live_Some(2,3) [OF lv] by auto
qed

lemma finished_None:
  assumes "recoverable c w" and "in_range c q 0" and "finished c w q = None" and "qh_version (mp_queues (wo_mapping w) q) = 1"
  shows "wo_guest w q = qh_used (mp_queues (wo_mapping w) q)"
proof (rule ccontr)
  assume "wo_guest w q \<noteq> qh_used (mp_queues (wo_mapping w) q)"
  moreover from guest_seen [OF assms(1,2,4) this] obtain e where
    "live c (wo_mapping w) q (qh_last_head (mp_queues (wo_mapping w) q)) = Some (ACTIVE, e)" by blast
  ultimately show False using assms(3,4) by (simp add: finished_def)
qed

lemma retire_step:
  assumes rec: "recoverable c w" and q: "in_range c q 0" and fin: "finished c w q = Some (e, u)"
  defines "w' \<equiv> run (retire e u) w" and "h \<equiv> rq_head (en_request e)"
  shows "safe_run c (retire e u) w"
    and "mp_header (wo_mapping w') = mp_header (wo_mapping w)" and "wo_guest w' = wo_guest w"
    and "mp_queues (wo_mapping w') = (mp_queues (wo_mapping w))(q := (mp_queues (wo_mapping w) q)\<lparr>qh_used := wo_guest w q\<rparr>)"
    and "live c (wo_mapping w') = (live c (wo_mapping w))(q := (live c (wo_mapping w) q)(h := None))"
    and "(q', h') \<noteq> (q, h) \<Longrightarrow> mp_descriptors (wo_mapping w') q' h' = mp_descriptors (wo_mapping w) q' h'"
proof -
  note fin' = finished_Some [OF rec q fin]
  have h: "qh_last_head (mp_queues (wo_mapping w) q) = h" using fin'(6) by (simp add: h_def)
  define w1 where "w1 = store (DescriptorInflight q h 0) w"
  define w2 where "w2 = store (QueueUsed q (wo_guest w q)) w1"
  have lv: "live c (wo_mapping w) q h = Some (ACTIVE, e)" using fin'(1) h by simp
  have range: "in_range c q h" using lv by (rule live_in_range)
  have k1: "keeps c w w1" unfolding w1_def by (rule keeps_descriptor_clear [OF rec q fin'(3,4) h])
  have k2: "keeps c w1 w2"
    using keeps_queue_used [OF keeps_recoverable [OF k1] q] fin'(3) h by (simp add: w2_def w1_def)
  have k3: "keeps c w2 (store (SlotState q h EMPTY) w2)"
    by (rule keeps_slot_empty [OF keeps_recoverable [OF k2]]) (use lv in \<open>simp_all add: w2_def w1_def\<close>)
  have list: "retire e u = [(Release, DescriptorInflight q h 0), (Release, QueueUsed q (wo_guest w q)), (Release, SlotState q h EMPTY)]"
    using fin' by (simp add: retire_def h_def Let_def)
  show "safe_run c (retire e u) w" unfolding list
    using k1 k2 k3 by (intro safe_run_Cons safe_run_Nil [THEN iffD2]) (auto simp: rec w1_def w2_def keeps_recoverable)
  have w': "wo_mapping w' = on_slot q h (sl_state_update (\<lambda>_. EMPTY)) (wo_mapping w2)" "wo_guest w' = wo_guest w"
    by (simp_all add: w'_def list w1_def w2_def)
  show "mp_header (wo_mapping w') = mp_header (wo_mapping w)" "wo_guest w' = wo_guest w"
    "mp_queues (wo_mapping w') = (mp_queues (wo_mapping w))(q := (mp_queues (wo_mapping w) q)\<lparr>qh_used := wo_guest w q\<rparr>)"
    by (simp_all add: w' w1_def w2_def)
  show "(q', h') \<noteq> (q, h) \<Longrightarrow> mp_descriptors (wo_mapping w') q' h' = mp_descriptors (wo_mapping w) q' h'"
    by (auto simp: w' w1_def w2_def)
  have "slot_decode c q h (sl_state_update (\<lambda>_. EMPTY) (mp_slots (wo_mapping w2) q h)) = Inr None"
    using decode_empty [OF slot_invD(1) [OF keeps_recoverable [OF k2] range]] by simp
  from live_on_slot [where s = "sl_state_update (\<lambda>_. EMPTY)" and m = "wo_mapping w2", OF range this]
  show "live c (wo_mapping w') = (live c (wo_mapping w))(q := (live c (wo_mapping w) q)(h := None))"
    by (simp add: w' w1_def w2_def)
qed

text \<open>All completions the guest has seen: the queues agree with the guest, and only the finished slots change.\<close>

definition retired_at :: "Carrier \<Rightarrow> CarrierWorld \<Rightarrow> nat set \<Rightarrow> nat \<Rightarrow> nat \<Rightarrow> bool" where
  "retired_at c w qs q h \<longleftrightarrow> q \<in> qs \<and> (\<exists>e u. finished c w q = Some (e, u) \<and> rq_head (en_request e) = h)"

definition after_retire :: "Carrier \<Rightarrow> CarrierWorld \<Rightarrow> nat set \<Rightarrow> CarrierWorld \<Rightarrow> bool" where
  "after_retire c w qs w' \<longleftrightarrow> mp_header (wo_mapping w') = mp_header (wo_mapping w) \<and> wo_guest w' = wo_guest w
     \<and> (\<forall>q. mp_queues (wo_mapping w') q = (if q \<in> qs \<and> finished c w q \<noteq> None
            then (mp_queues (wo_mapping w) q)\<lparr>qh_used := wo_guest w q\<rparr> else mp_queues (wo_mapping w) q))
     \<and> (\<forall>q h. if retired_at c w qs q h then live c (wo_mapping w') q h = None
          else live c (wo_mapping w') q h = live c (wo_mapping w) q h
             \<and> mp_descriptors (wo_mapping w') q h = mp_descriptors (wo_mapping w) q h)"

definition retire_effects :: "Carrier \<Rightarrow> CarrierWorld \<Rightarrow> nat list \<Rightarrow> effect list" where
  "retire_effects c w qs = concat (map (\<lambda>(e, u). retire e u) (List.map_filter (finished c w) qs))"

lemma retire_all:
  assumes "recoverable c w" and "\<forall>q \<in> set qs. in_range c q 0" and "distinct qs"
  shows "safe_run c (retire_effects c w qs) w \<and> after_retire c w (set qs) (run (retire_effects c w qs) w)"
  using assms
proof (induction qs arbitrary: w)
  case Nil
  then show ?case by (simp add: retire_effects_def List.map_filter_simps after_retire_def retired_at_def)
next
  case (Cons q qs)
  have q: "in_range c q 0" and nq: "q \<notin> set qs" using Cons.prems(2,3) by simp_all
  let ?es = "retire_effects c w (q # qs)"
  show ?case
  proof (cases "finished c w q")
    case None
    then have es: "?es = retire_effects c w qs" by (simp add: retire_effects_def List.map_filter_simps)
    then have "safe_run c ?es w \<and> after_retire c w (set qs) (run ?es w)" using Cons by simp
    moreover have "after_retire c w (set (q # qs)) (run ?es w) = after_retire c w (set qs) (run ?es w)"
    proof -
      have "retired_at c w (set (q # qs)) p h = retired_at c w (set qs) p h" for p h
        using None by (auto simp: retired_at_def)
      moreover have "(p \<in> set (q # qs) \<and> finished c w p \<noteq> None) = (p \<in> set qs \<and> finished c w p \<noteq> None)" for p
        using None by auto
      ultimately show ?thesis unfolding after_retire_def by simp
    qed
    ultimately show ?thesis by simp
  next
    case (Some x)
    then obtain e u where fin: "finished c w q = Some (e, u)" by (cases x) auto
    define w1 where "w1 = run (retire e u) w"
    note step = retire_step [OF Cons.prems(1) q fin, folded w1_def]
    have rec1: "recoverable c w1" using step(1) by (simp add: safe_run_def keeps_def w1_def)
    have same: "finished c w1 p = finished c w p" if "p \<noteq> q" for p
      using that by (simp add: finished_def step Let_def)
    have map: "List.map_filter (finished c w1) qs = List.map_filter (finished c w) qs"
      by (rule map_filter_same, rule same) (use nq in auto)
    define fs where "fs = retire_effects c w1 qs"
    have ih: "safe_run c fs w1" "after_retire c w1 (set qs) (run fs w1)"
      using Cons.IH [OF rec1] Cons.prems(2,3) by (simp_all add: fs_def)
    have es: "?es = retire e u @ fs" using fin by (simp add: List.map_filter_simps retire_effects_def fs_def map)
    have safe: "safe_run c ?es w" unfolding es by (rule safe_run_append [OF step(1)]) (use ih in \<open>simp add: w1_def\<close>)
    have at: "retired_at c w1 (set qs) p h = retired_at c w (set qs) p h" for p h
      using same [of p] nq by (cases "p = q") (simp_all add: retired_at_def)
    have more_at: "retired_at c w (set (q # qs)) p h \<longleftrightarrow> (p, h) = (q, rq_head (en_request e)) \<or> retired_at c w (set qs) p h" for p h
      using fin nq by (auto simp: retired_at_def)
    have "after_retire c w (set (q # qs)) (run fs w1)" unfolding after_retire_def
    proof (intro conjI allI)
      show "mp_header (wo_mapping (run fs w1)) = mp_header (wo_mapping w)" "wo_guest (run fs w1) = wo_guest w"
        using ih(2) step by (simp_all add: after_retire_def)
      show "mp_queues (wo_mapping (run fs w1)) p = (if p \<in> set (q # qs) \<and> finished c w p \<noteq> None
          then (mp_queues (wo_mapping w) p)\<lparr>qh_used := wo_guest w p\<rparr> else mp_queues (wo_mapping w) p)" for p
        using ih(2) step(3,4) same [of p] nq fin by (auto simp: after_retire_def)
      show "if retired_at c w (set (q # qs)) p h then live c (wo_mapping (run fs w1)) p h = None
          else live c (wo_mapping (run fs w1)) p h = live c (wo_mapping w) p h
             \<and> mp_descriptors (wo_mapping (run fs w1)) p h = mp_descriptors (wo_mapping w) p h" for p h
      proof (cases "retired_at c w (set qs) p h")
        case True
        then show ?thesis using ih(2) at more_at by (auto simp: after_retire_def)
      next
        case False
        then have "live c (wo_mapping (run fs w1)) p h = live c (wo_mapping w1) p h"
          "mp_descriptors (wo_mapping (run fs w1)) p h = mp_descriptors (wo_mapping w1) p h"
          using ih(2) at by (auto simp: after_retire_def)
        then show ?thesis using False more_at step(5) step(6) [of p h] by auto
      qed
    qed
    then show ?thesis using safe by (simp add: es w1_def)
  qed
qed

section \<open>Saved slots\<close>

text \<open>A slot that needs no repair.\<close>

definition clean :: "Carrier \<Rightarrow> InflightMapping \<Rightarrow> nat \<Rightarrow> nat \<Rightarrow> bool" where
  "clean c m q h \<longleftrightarrow> (\<forall>state e. live c m q h = Some (state, e) \<longrightarrow>
     state = DISCOVERED \<or> (state = ACTIVE \<and> de_inflight (mp_descriptors m q h) = 1))"

definition only_at :: "Carrier \<Rightarrow> (nat \<times> nat) set \<Rightarrow> CarrierWorld \<Rightarrow> CarrierWorld \<Rightarrow> bool" where
  "only_at c S w w' \<longleftrightarrow> mp_header (wo_mapping w') = mp_header (wo_mapping w) \<and> wo_guest w' = wo_guest w
     \<and> mp_queues (wo_mapping w') = mp_queues (wo_mapping w)
     \<and> (\<forall>q h. (q, h) \<notin> S \<longrightarrow> live c (wo_mapping w') q h = live c (wo_mapping w) q h
          \<and> mp_descriptors (wo_mapping w') q h = mp_descriptors (wo_mapping w) q h)
     \<and> (\<forall>q h state e. live c (wo_mapping w') q h = Some (state, e) \<longrightarrow> (\<exists>state'. live c (wo_mapping w) q h = Some (state', e)))"

definition repair_effects :: "bool \<Rightarrow> Saved \<Rightarrow> effect list" where
  "repair_effects over s =
     (if over \<or> sv_state s = DISCOVERED then []
      else if sv_state s = ACTIVE \<and> \<not> sv_inflight s then [(Release, SlotState (sv_queue s) (sv_head s) EMPTY)]
      else [(Relaxed, DescriptorCounter (sv_queue s) (sv_head s) (en_serial (sv_entry s))),
            (Release, DescriptorInflight (sv_queue s) (sv_head s) 1), (Release, SlotState (sv_queue s) (sv_head s) ACTIVE)])"

lemma activate_step:
  assumes rec: "recoverable c w" and lv: "live c (wo_mapping w) q h = Some (state, e)"
    and st: "state = PREPARED \<or> state = ACTIVE \<and> de_inflight (mp_descriptors (wo_mapping w) q h) = 1"
  defines "es \<equiv> [(Relaxed, DescriptorCounter q h (en_serial e)), (Release, DescriptorInflight q h 1), (Release, SlotState q h ACTIVE)]"
  shows "safe_run c es w" and "only_at c {(q, h)} w (run es w)"
    and "live c (wo_mapping (run es w)) q h = Some (ACTIVE, e)" and "de_inflight (mp_descriptors (wo_mapping (run es w)) q h) = 1"
proof -
  note range = live_in_range [OF lv]
  have nd: "state \<noteq> DISCOVERED" using st by auto
  define w1 where "w1 = store (DescriptorCounter q h (en_serial e)) w"
  define w2 where "w2 = store (DescriptorInflight q h 1) w1"
  have k1: "keeps c w w1" unfolding w1_def by (rule keeps_descriptor_counter [OF rec lv])
  have lv1: "live c (wo_mapping w1) q h = Some (state, e)" using lv by (simp add: w1_def)
  have k2: "keeps c w1 w2" unfolding w2_def
    by (rule keeps_descriptor_set [OF keeps_recoverable [OF k1] lv1]) (use st in \<open>auto simp: w1_def\<close>)
  have lv2: "live c (wo_mapping w2) q h = Some (state, e)" using lv by (simp add: w2_def w1_def)
  have k3: "keeps c w2 (store (SlotState q h ACTIVE) w2)"
    by (rule keeps_slot_active [OF keeps_recoverable [OF k2] lv2 nd]) (simp add: w2_def)
  have rest: "safe_run c [(Release, DescriptorInflight q h 1), (Release, SlotState q h ACTIVE)] w1"
    using k1 k2 k3 by (intro safe_run_Cons safe_run_Nil [THEN iffD2]) (auto simp: w2_def keeps_recoverable)
  have "crash_safe (keeps c w) ([(Relaxed, DescriptorCounter q h (en_serial e))] @
      (Release, DescriptorInflight q h 1) # [(Release, SlotState q h ACTIVE)]) w"
  proof (rule crash_safe_relaxed)
    fix ps :: "effect list" assume ps: "set ps \<subseteq> set [(Relaxed, DescriptorCounter q h (en_serial e))]"
    have "recoverable c x \<Longrightarrow> live c (wo_mapping x) q h = Some (state, e) \<Longrightarrow> keeps c x (run ps x)" for x
      using ps
    proof (induction ps arbitrary: x)
      case (Cons p ps)
      have p: "p = (Relaxed, DescriptorCounter q h (en_serial e))" using Cons.prems(3) by simp
      have k: "keeps c x (store (snd p) x)" using keeps_descriptor_counter [OF Cons.prems(1,2)] p by simp
      have "keeps c (store (snd p) x) (run ps (store (snd p) x))"
        by (rule Cons.IH) (use k Cons.prems in \<open>auto simp: p keeps_recoverable\<close>)
      then show ?case using keeps_trans [OF k] by simp
    qed (simp add: keeps_refl)
    then show "keeps c w (run ps w)" using rec lv by blast
  next
    have "crash_safe (keeps c w1) [(Release, DescriptorInflight q h 1), (Release, SlotState q h ACTIVE)] w1"
      using rest by (simp add: safe_run_def)
    then show "crash_safe (keeps c w) [(Release, DescriptorInflight q h 1), (Release, SlotState q h ACTIVE)]
      (run [(Relaxed, DescriptorCounter q h (en_serial e))] w)"
      using crash_safe_mono keeps_trans [OF k1] by (fastforce simp: w1_def)
  qed simp
  then show "safe_run c es w" using rest keeps_trans [OF k1] by (simp add: safe_run_def sealed_def es_def w1_def)
  have w': "wo_mapping (run es w) = on_slot q h (sl_state_update (\<lambda>_. ACTIVE)) (wo_mapping w2)" "wo_guest (run es w) = wo_guest w"
    by (simp_all add: es_def w1_def w2_def)
  have "slot_decode c q h (sl_state_update (\<lambda>_. ACTIVE) (mp_slots (wo_mapping w2) q h)) = Inr (Some (ACTIVE, e))"
    using decode_active [OF _ nd] slot_invD(1) [OF keeps_recoverable [OF k2] range] lv2 by simp
  note live' = live_on_slot [where s = "sl_state_update (\<lambda>_. ACTIVE)" and m = "wo_mapping w2", OF range this]
  have live'': "live c (wo_mapping (run es w)) = (live c (wo_mapping w))(q := (live c (wo_mapping w) q)(h := Some (ACTIVE, e)))"
    by (simp add: w' live', simp add: w1_def w2_def)
  show "live c (wo_mapping (run es w)) q h = Some (ACTIVE, e)" by (simp add: live'')
  show "de_inflight (mp_descriptors (wo_mapping (run es w)) q h) = 1" by (simp add: w' w2_def)
  show "only_at c {(q, h)} w (run es w)" using lv
    unfolding only_at_def live'' by (auto simp: w' w1_def w2_def split: if_splits)
qed

definition agreed :: "Carrier \<Rightarrow> CarrierWorld \<Rightarrow> bool" where
  "agreed c w \<longleftrightarrow> (\<forall>q. in_range c q 0 \<longrightarrow> qh_version (mp_queues (wo_mapping w) q) = 1 \<longrightarrow>
     wo_guest w q = qh_used (mp_queues (wo_mapping w) q))"

lemma repair_step:
  assumes rec: "recoverable c w" and agree: "agreed c w" and saved: "over \<or> saved_of c (wo_mapping w) (sv_queue s) (sv_head s) = Some s"
    and gone: "over \<Longrightarrow> live c (wo_mapping w) (sv_queue s) (sv_head s) = None"
  shows "safe_run c (repair_effects over s) w" and "only_at c {(sv_queue s, sv_head s)} w (run (repair_effects over s) w)"
    and "clean c (wo_mapping (run (repair_effects over s) w)) (sv_queue s) (sv_head s)"
proof -
  let ?q = "sv_queue s" and ?h = "sv_head s" and ?es = "repair_effects over s"
  have "safe_run c ?es w \<and> only_at c {(?q, ?h)} w (run ?es w) \<and> clean c (wo_mapping (run ?es w)) ?q ?h"
  proof (cases over)
    case True
    then show ?thesis using rec gone by (simp add: repair_effects_def only_at_def clean_def)
  next
    case False
    then have lv: "live c (wo_mapping w) ?q ?h = Some (sv_state s, sv_entry s)"
      and flag: "sv_inflight s = (de_inflight (mp_descriptors (wo_mapping w) ?q ?h) = 1)"
      using saved by (auto simp: saved_of_Some)
    note range = live_in_range [OF lv]
    consider (disc) "sv_state s = DISCOVERED" | (old) "sv_state s = ACTIVE" "\<not> sv_inflight s"
      | (act) "sv_state s = PREPARED \<or> sv_state s = ACTIVE \<and> de_inflight (mp_descriptors (wo_mapping w) ?q ?h) = 1"
      using live_Some(1) [OF lv] flag by auto
    then show ?thesis
    proof cases
      case disc
      then show ?thesis using rec lv by (simp add: repair_effects_def only_at_def clean_def)
    next
      case old
      have es: "?es = [(Release, SlotState ?q ?h EMPTY)]" using old False by (simp add: repair_effects_def)
      have z: "de_inflight (mp_descriptors (wo_mapping w) ?q ?h) = 0"
        using slot_invD(2) [OF rec range] old flag by linarith
      have v: "qh_version (mp_queues (wo_mapping w) ?q) = 1" using live_entry_ok [OF rec lv] by (simp add: entry_ok_def)
      have k: "keeps c w (store (SlotState ?q ?h EMPTY) w)"
        by (rule keeps_slot_empty [OF rec lv [unfolded old] z]) (use agree v in_range_0 [OF range] in \<open>simp add: agreed_def\<close>)
      have "slot_decode c ?q ?h (sl_state_update (\<lambda>_. EMPTY) (mp_slots (wo_mapping w) ?q ?h)) = Inr None"
        using decode_empty [OF slot_invD(1) [OF rec range]] by simp
      note live' = live_on_slot [where s = "sl_state_update (\<lambda>_. EMPTY)" and m = "wo_mapping w", OF range this]
      show ?thesis unfolding es using safe_run_release [OF rec k]
        by (auto simp: only_at_def clean_def live' split: if_splits)
    next
      case act
      then have "?es = [(Relaxed, DescriptorCounter ?q ?h (en_serial (sv_entry s))),
            (Release, DescriptorInflight ?q ?h 1), (Release, SlotState ?q ?h ACTIVE)]"
        using False flag by (auto simp: repair_effects_def)
      then show ?thesis using activate_step [OF rec lv act] by (simp add: clean_def)
    qed
  qed
  then show "safe_run c ?es w" "only_at c {(?q, ?h)} w (run ?es w)" "clean c (wo_mapping (run ?es w)) ?q ?h" by simp_all
qed

lemma only_at_trans:
  assumes "only_at c S w w'" and "only_at c T w' w''"
  shows "only_at c (S \<union> T) w w''"
proof -
  have "\<exists>state'. live c (wo_mapping w) q h = Some (state', e)" if "live c (wo_mapping w'') q h = Some (state, e)" for q h state e
    using assms that unfolding only_at_def by metis
  then show ?thesis using assms by (simp add: only_at_def)
qed

definition pos :: "Saved \<Rightarrow> nat \<times> nat" where
  "pos s = (sv_queue s, sv_head s)"

lemma repair_all:
  assumes "recoverable c w" and "agreed c w" and "distinct (map pos ss)"
    and "\<And>s. s \<in> set ss \<Longrightarrow> \<not> D s \<Longrightarrow> saved_of c (wo_mapping w) (sv_queue s) (sv_head s) = Some s"
    and "\<And>s. s \<in> set ss \<Longrightarrow> D s \<Longrightarrow> live c (wo_mapping w) (sv_queue s) (sv_head s) = None"
  defines "es \<equiv> concat (map (\<lambda>s. repair_effects (D s) s) ss)"
  shows "safe_run c es w \<and> only_at c (pos ` set ss) w (run es w) \<and> (\<forall>s \<in> set ss. clean c (wo_mapping (run es w)) (sv_queue s) (sv_head s))"
  using assms(1-5) unfolding es_def
proof (induction ss arbitrary: w)
  case Nil
  then show ?case by (simp add: only_at_def)
next
  case (Cons s ss)
  let ?e = "repair_effects (D s) s" and ?es = "concat (map (\<lambda>s. repair_effects (D s) s) ss)"
  have step: "safe_run c ?e w" "only_at c {pos s} w (run ?e w)" "clean c (wo_mapping (run ?e w)) (sv_queue s) (sv_head s)"
    using repair_step [OF Cons.prems(1,2), of "D s" s] Cons.prems(4,5) [of s] by (auto simp: pos_def)
  have off: "live c (wo_mapping (run ?e w)) (sv_queue s') (sv_head s') = live c (wo_mapping w) (sv_queue s') (sv_head s')"
    "mp_descriptors (wo_mapping (run ?e w)) (sv_queue s') (sv_head s') = mp_descriptors (wo_mapping w) (sv_queue s') (sv_head s')"
    if "s' \<in> set ss" for s'
  proof -
    have "pos s \<notin> pos ` set ss" using Cons.prems(3) by simp
    then have "pos s' \<noteq> pos s" using imageI [OF that, of pos] by auto
    then show "live c (wo_mapping (run ?e w)) (sv_queue s') (sv_head s') = live c (wo_mapping w) (sv_queue s') (sv_head s')"
      "mp_descriptors (wo_mapping (run ?e w)) (sv_queue s') (sv_head s') = mp_descriptors (wo_mapping w) (sv_queue s') (sv_head s')"
      using step(2) by (auto simp: only_at_def pos_def)
  qed
  have ih: "safe_run c ?es (run ?e w) \<and> only_at c (pos ` set ss) (run ?e w) (run ?es (run ?e w))
      \<and> (\<forall>s \<in> set ss. clean c (wo_mapping (run ?es (run ?e w))) (sv_queue s) (sv_head s))"
  proof (rule Cons.IH)
    show "recoverable c (run ?e w)" using step(1) by (simp add: safe_run_def keeps_def)
    show "agreed c (run ?e w)" using Cons.prems(2) step(2) by (simp add: agreed_def only_at_def)
    show "distinct (map pos ss)" using Cons.prems(3) by simp
    show "saved_of c (wo_mapping (run ?e w)) (sv_queue s') (sv_head s') = Some s'" if "s' \<in> set ss" "\<not> D s'" for s'
      using Cons.prems(4) [of s'] that off [OF that(1)] by (simp add: saved_of_Some)
    show "live c (wo_mapping (run ?e w)) (sv_queue s') (sv_head s') = None" if "s' \<in> set ss" "D s'" for s'
      using Cons.prems(5) [of s'] that off [OF that(1)] by simp
  qed
  have "clean c (wo_mapping (run ?es (run ?e w))) (sv_queue s) (sv_head s)"
  proof -
    have "pos s \<notin> pos ` set ss" using Cons.prems(3) by simp
    then have "live c (wo_mapping (run ?es (run ?e w))) (sv_queue s) (sv_head s) = live c (wo_mapping (run ?e w)) (sv_queue s) (sv_head s)"
      "mp_descriptors (wo_mapping (run ?es (run ?e w))) (sv_queue s) (sv_head s) = mp_descriptors (wo_mapping (run ?e w)) (sv_queue s) (sv_head s)"
      using ih by (auto simp: only_at_def pos_def)
    then show ?thesis using step(3) by (simp add: clean_def)
  qed
  then show ?case using ih safe_run_append [OF step(1)] only_at_trans [OF step(2)] by auto
qed

section \<open>Reconciliation is exact\<close>

definition wanted :: "(Saved \<Rightarrow> bool) \<Rightarrow> Saved \<Rightarrow> bool" where
  "wanted D s \<longleftrightarrow> \<not> D s \<and> sv_state s \<noteq> DISCOVERED \<and> \<not> (sv_state s = ACTIVE \<and> \<not> sv_inflight s)"

definition fresh :: "(Saved \<Rightarrow> bool) \<Rightarrow> Saved \<Rightarrow> bool" where
  "fresh D s \<longleftrightarrow> \<not> D s \<and> sv_state s = DISCOVERED"

definition is_over :: "(InflightEntry \<times> u16) list \<Rightarrow> Saved \<Rightarrow> bool" where
  "is_over completed s \<longleftrightarrow> list_ex (\<lambda>(e, _). e = sv_entry s) completed"

lemma repair_records_exact:
  assumes "\<forall>s \<in> set ss. in_range c (sv_queue s) (sv_head s)"
  shows "repair_records c completed ss entries discovered =
    (concat (map (\<lambda>s. repair_effects (is_over completed s) s) ss),
     Inr (entries @ map sv_entry (filter (wanted (is_over completed)) ss),
          discovered @ map (\<lambda>s. (en_discovery (sv_entry s), en_request (sv_entry s))) (filter (fresh (is_over completed)) ss)))"
  using assms
proof (induction ss arbitrary: entries discovered)
  case (Cons s ss)
  have range: "in_range c (sv_queue s) (sv_head s)" using Cons.prems by simp
  have one: "repair_record c completed s = (repair_effects (is_over completed s) s,
      Inr (if wanted (is_over completed) s then [sv_entry s] else [], if fresh (is_over completed) s then [(en_discovery (sv_entry s), en_request (sv_entry s))] else []))"
    using range by (auto simp: repair_record_def repair_effects_def wanted_def fresh_def is_over_def guarded_def and_then_def
        Carrier_activate_def Let_def Geometry_check_in_range)
  show ?case using Cons by (auto simp: one and_then_def)
qed simp

lemma sorted_last_max: "sorted (map f xs) \<Longrightarrow> x \<in> set xs \<Longrightarrow> f x \<le> f (List.last xs)"
  by (cases xs rule: rev_cases) (auto simp: sorted_append)

lemma highest_serial_ge:
  assumes "sorted (map (\<lambda>s. en_serial (sv_entry s)) saved)"
  shows "ih_serial (mp_header m) \<le> highest_serial m saved" "s \<in> set saved \<Longrightarrow> en_serial (sv_entry s) \<le> highest_serial m saved"
  using sorted_last_max [OF assms] by (auto simp: highest_serial_def le_max_iff_disj)

lemma fold_max_ge:
  fixes a :: nat
  shows "a \<le> foldl (\<lambda>high s. max high (f s)) a xs" "x \<in> set xs \<Longrightarrow> f x \<le> foldl (\<lambda>high s. max high (f s)) a xs"
proof -
  show le: "a \<le> foldl (\<lambda>high s. max high (f s)) a xs" for a :: nat
    by (induction xs arbitrary: a) (auto intro: le_trans [OF max.cobounded1])
  show "f x \<le> foldl (\<lambda>high s. max high (f s)) a xs" if "x \<in> set xs" for a
    using that
  proof (induction xs arbitrary: a)
    case (Cons y ys)
    have "f y \<le> foldl (\<lambda>high s. max high (f s)) (max a (f y)) ys"
    proof -
      have "max a (f y) \<le> foldl (\<lambda>high s. max high (f s)) (max a (f y)) ys"
        by (induction ys arbitrary: a y) (auto intro: le_trans [OF max.cobounded1])
      then show ?thesis by simp
    qed
    then show ?case using Cons by auto
  qed simp
qed

lemma highest_mutation_ge:
  "ih_mutation (mp_header m) \<le> highest_mutation m saved"
  "s \<in> set saved \<Longrightarrow> en_mutation (sv_entry s) \<le> highest_mutation m saved"
  by (auto simp: highest_mutation_def intro: fold_max_ge(1) fold_max_ge(2) [of s saved "\<lambda>s. en_mutation (sv_entry s)"])

text \<open>Nothing is under way: what the mapping satisfies between two operations.\<close>

definition settled :: "Carrier \<Rightarrow> CarrierWorld \<Rightarrow> bool" where
  "settled c w \<longleftrightarrow> recoverable c w \<and> agreed c w \<and> (\<forall>q h state e. live c (wo_mapping w) q h = Some (state, e) \<longrightarrow>
     (state = DISCOVERED \<or> (state = ACTIVE \<and> de_inflight (mp_descriptors (wo_mapping w) q h) = 1))
     \<and> en_discovery e \<le> ih_discovery (mp_header (wo_mapping w)) \<and> en_serial e \<le> ih_serial (mp_header (wo_mapping w))
     \<and> en_mutation e \<le> ih_mutation (mp_header (wo_mapping w))
     \<and> (en_discovery e = ih_discovery (mp_header (wo_mapping w)) \<longrightarrow>
          of_nat (ih_available (mp_header (wo_mapping w)) q) = rq_available (en_request e) + 1))"

definition header_effects :: "Saved option \<Rightarrow> nat \<Rightarrow> nat \<Rightarrow> effect list" where
  "header_effects newest serial mutation =
     (case newest of None \<Rightarrow> [] | Some s \<Rightarrow> finish_discovery (en_request (sv_entry s)) (en_discovery (sv_entry s)))
     @ [(Release, HeaderSerial serial), (Release, HeaderMutation mutation)]"

lemma header_phase:
  assumes rec: "recoverable c w" and agree: "agreed c w"
    and cl: "\<And>q h. clean c (wo_mapping w) q h"
    and none: "newest = None \<Longrightarrow> (\<And>q h x. live c (wo_mapping w) q h = Some x \<Longrightarrow> en_discovery (snd x) < ih_discovery (mp_header (wo_mapping w)))"
    and some: "\<And>s. newest = Some s \<Longrightarrow> in_range c (sv_queue s) 0 \<and> ih_discovery (mp_header (wo_mapping w)) \<le> en_discovery (sv_entry s)
      \<and> (\<forall>q h x. live c (wo_mapping w) q h = Some x \<longrightarrow> en_discovery (snd x) \<le> en_discovery (sv_entry s)
           \<and> (en_discovery (snd x) = en_discovery (sv_entry s) \<longrightarrow> snd x = sv_entry s))"
    and serial: "ih_serial (mp_header (wo_mapping w)) \<le> hs" "\<And>q h x. live c (wo_mapping w) q h = Some x \<Longrightarrow> en_serial (snd x) \<le> hs"
    and mutation: "ih_mutation (mp_header (wo_mapping w)) \<le> hm" "\<And>q h x. live c (wo_mapping w) q h = Some x \<Longrightarrow> en_mutation (snd x) \<le> hm"
  shows "safe_run c (header_effects newest hs hm) w \<and> settled c (run (header_effects newest hs hm) w)"
proof -
  let ?es = "header_effects newest hs hm"
  have tail: "safe_run c [(Release, HeaderSerial hs), (Release, HeaderMutation hm)] x"
    if "recoverable c x" "mp_header (wo_mapping x) = mp_header (wo_mapping w)\<lparr>ih_discovery := d, ih_available := a\<rparr>" for x d a
  proof -
    have k: "keeps c x (store (HeaderSerial hs) x)" by (rule keeps_header_serial [OF that(1)]) (use serial that in simp)
    have "keeps c (store (HeaderSerial hs) x) (store (HeaderMutation hm) (store (HeaderSerial hs) x))"
      by (rule keeps_header_mutation [OF keeps_recoverable [OF k]]) (use mutation that in simp)
    then show ?thesis using k that(1) by (intro safe_run_Cons safe_run_Nil [THEN iffD2]) (auto simp: keeps_recoverable)
  qed
  have safe: "safe_run c ?es w"
  proof (cases newest)
    case None
    then show ?thesis using tail [OF rec, where d = "ih_discovery (mp_header (wo_mapping w))" and a = "ih_available (mp_header (wo_mapping w))"]
      by (simp add: header_effects_def)
  next
    case (Some s)
    let ?e = "sv_entry s" let ?v = "unat (rq_available (en_request ?e) + 1)"
    define w1 where "w1 = store (HeaderDiscovery (en_discovery ?e)) w"
    define w2 where "w2 = store (HeaderAvailable (sv_queue s) ?v) w1"
    note s = some [OF Some]
    have k1: "keeps c w w1" unfolding w1_def by (rule keeps_header_discovery [OF rec]) (use s in simp)
    have k2: "keeps c w1 w2" unfolding w2_def
    proof (rule keeps_header_available [OF keeps_recoverable [OF k1]])
      show "in_range c (sv_queue s) 0" using s by simp
      show "?v < 2 ^ 16" using unsigned_less [of "rq_available (en_request ?e) + 1"] by simp
      fix h state e
      assume lv: "live c (wo_mapping w1) (sv_queue s) h = Some (state, e)"
        and "ih_discovery (mp_header (wo_mapping w1)) \<le> en_discovery e"
      then have "en_discovery e = en_discovery ?e" using s by (fastforce simp: w1_def)
      then have "e = ?e" using s lv by (fastforce simp: w1_def)
      then show "of_nat ?v = rq_available (en_request e) \<or> of_nat ?v = rq_available (en_request e) + 1" by simp
    qed
    have a: "safe_run c [(Release, HeaderSerial hs), (Release, HeaderMutation hm)] w2"
      by (rule tail [OF keeps_recoverable [OF k2], where d = "en_discovery ?e" and a = "(ih_available (mp_header (wo_mapping w)))(sv_queue s := ?v)"])
        (simp add: w2_def w1_def)
    note b = safe_run_Cons [OF keeps_recoverable [OF k1] k2 [unfolded w2_def] a [unfolded w2_def]]
    show ?thesis using safe_run_Cons [OF rec k1 [unfolded w1_def] b [unfolded w1_def]] Some
      by (simp add: header_effects_def finish_discovery_def)
  qed
  have w': "live c (wo_mapping (run ?es w)) = live c (wo_mapping w)" "wo_guest (run ?es w) = wo_guest w"
    "mp_queues (wo_mapping (run ?es w)) = mp_queues (wo_mapping w)" "mp_descriptors (wo_mapping (run ?es w)) = mp_descriptors (wo_mapping w)"
    "ih_serial (mp_header (wo_mapping (run ?es w))) = hs" "ih_mutation (mp_header (wo_mapping (run ?es w))) = hm"
    by (simp_all add: header_effects_def finish_discovery_def split: option.splits)
  have "settled c (run ?es w)" unfolding settled_def
  proof (intro conjI allI impI)
    show "recoverable c (run ?es w)" using safe by (simp add: safe_run_def keeps_def)
    show "agreed c (run ?es w)" using agree by (simp add: agreed_def w')
    fix q h state e assume "live c (wo_mapping (run ?es w)) q h = Some (state, e)"
    then have lv: "live c (wo_mapping w) q h = Some (state, e)" by (simp add: w')
    show "state = DISCOVERED \<or> (state = ACTIVE \<and> de_inflight (mp_descriptors (wo_mapping (run ?es w)) q h) = 1)"
      using cl [of q h] lv by (simp add: clean_def w')
    show "en_serial e \<le> ih_serial (mp_header (wo_mapping (run ?es w)))" using serial(2) [OF lv] by (simp add: w')
    show "en_mutation e \<le> ih_mutation (mp_header (wo_mapping (run ?es w)))" using mutation(2) [OF lv] by (simp add: w')
    have "en_discovery e \<le> ih_discovery (mp_header (wo_mapping (run ?es w)))
      \<and> (en_discovery e = ih_discovery (mp_header (wo_mapping (run ?es w))) \<longrightarrow>
          of_nat (ih_available (mp_header (wo_mapping (run ?es w))) q) = rq_available (en_request e) + 1)"
    proof (cases newest)
      case None
      then show ?thesis using none [OF None lv] by (simp add: header_effects_def)
    next
      case (Some s)
      have "en_discovery e \<le> en_discovery (sv_entry s)" "en_discovery e = en_discovery (sv_entry s) \<Longrightarrow> e = sv_entry s"
        using some [OF Some] lv by (metis snd_conv)+
      moreover have "sv_queue s = q" if "e = sv_entry s" using live_Some(2) [OF lv] that by simp
      ultimately show ?thesis using Some by (auto simp: header_effects_def finish_discovery_def)
    qed
    then show "en_discovery e \<le> ih_discovery (mp_header (wo_mapping (run ?es w)))"
      "en_discovery e = ih_discovery (mp_header (wo_mapping (run ?es w))) \<Longrightarrow>
          of_nat (ih_available (mp_header (wo_mapping (run ?es w))) q) = rq_available (en_request e) + 1" by simp_all
  qed
  then show ?thesis using safe by simp
qed

text \<open>The specification of a replay: the outstanding requests, each once, in the order of admission and of discovery.\<close>

definition replays :: "Carrier \<Rightarrow> CarrierWorld \<Rightarrow> Replay \<Rightarrow> bool" where
  "replays c w r \<longleftrightarrow>
     set (rp_entries r) = {e. \<exists>q h. outstanding c w q h = Some (ToReplay e)}
     \<and> sorted_wrt (\<lambda>a b. en_serial a < en_serial b) (rp_entries r)
     \<and> set (rp_discovered r) = {(d, request). \<exists>q h. outstanding c w q h = Some (ToAdmit d request)}
     \<and> sorted_wrt (\<lambda>a b. fst a < fst b) (rp_discovered r)"

lemma is_over_retired:
  assumes rec: "recoverable c w" and s: "s \<in> set (scanned c (wo_mapping w))"
    and cs: "completed = List.map_filter (finished c w) [0..<ge_queues (ca_geometry c)]"
  shows "is_over completed s \<longleftrightarrow> retired_at c w (set [0..<ge_queues (ca_geometry c)]) (sv_queue s) (sv_head s)"
    and "is_over completed s \<longleftrightarrow> sv_state s = ACTIVE \<and> wo_guest w (sv_queue s) \<noteq> qh_used (mp_queues (wo_mapping w) (sv_queue s))
      \<and> qh_last_head (mp_queues (wo_mapping w) (sv_queue s)) = sv_head s"
proof -
  have size: "0 < ge_queue_size (ca_geometry c)" using rec by (simp add: recoverable_def queue_inv_def)
  have lv: "live c (wo_mapping w) (sv_queue s) (sv_head s) = Some (sv_state s, sv_entry s)"
    using s by (simp add: set_scanned saved_of_Some)
  have q: "in_range c (sv_queue s) 0" using in_range_0 [OF live_in_range [OF lv]] .
  have mem: "is_over completed s \<longleftrightarrow> (\<exists>q < ge_queues (ca_geometry c). \<exists>u. finished c w q = Some (sv_entry s, u))"
  proof -
    have "set completed = {x. \<exists>q. q < ge_queues (ca_geometry c) \<and> finished c w q = Some x}"
      unfolding cs by (rule set_eqI) (simp add: set_map_filter Bex_def)
    then show ?thesis by (auto simp: is_over_def list_ex_iff)
  qed
  have r: "in_range c q 0 \<longleftrightarrow> q < ge_queues (ca_geometry c)" for q using size by (simp add: in_range_def)
  have version: "qh_version (mp_queues (wo_mapping w) (sv_queue s)) = 1"
    using live_entry_ok [OF rec lv] by (simp add: entry_ok_def)
  show first: "is_over completed s \<longleftrightarrow> retired_at c w (set [0..<ge_queues (ca_geometry c)]) (sv_queue s) (sv_head s)"
  proof
    assume "is_over completed s"
    then obtain q u where q': "q < ge_queues (ca_geometry c)" "finished c w q = Some (sv_entry s, u)" using mem by blast
    then have "sv_queue s = q" using finished_Some(5) [OF rec _ q'(2)] r by simp
    then show "retired_at c w (set [0..<ge_queues (ca_geometry c)]) (sv_queue s) (sv_head s)" using q' by (auto simp: retired_at_def)
  next
    assume "retired_at c w (set [0..<ge_queues (ca_geometry c)]) (sv_queue s) (sv_head s)"
    then obtain e u where e: "sv_queue s < ge_queues (ca_geometry c)" "finished c w (sv_queue s) = Some (e, u)" "rq_head (en_request e) = sv_head s"
      by (auto simp: retired_at_def)
    have "e = sv_entry s" using finished_Some(1,6) [OF rec q e(2)] e(3) lv by simp
    then show "is_over completed s" using mem e by blast
  qed
  show "is_over completed s \<longleftrightarrow> sv_state s = ACTIVE \<and> wo_guest w (sv_queue s) \<noteq> qh_used (mp_queues (wo_mapping w) (sv_queue s))
      \<and> qh_last_head (mp_queues (wo_mapping w) (sv_queue s)) = sv_head s"
  proof
    assume "is_over completed s"
    then obtain e u where e: "finished c w (sv_queue s) = Some (e, u)" "rq_head (en_request e) = sv_head s"
      using first by (auto simp: retired_at_def)
    note f = finished_Some [OF rec q e(1)]
    have h: "qh_last_head (mp_queues (wo_mapping w) (sv_queue s)) = sv_head s" using trans [OF sym [OF f(6)] e(2)] .
    have "sv_state s = ACTIVE" using f(1) lv unfolding h by simp
    then show "sv_state s = ACTIVE \<and> wo_guest w (sv_queue s) \<noteq> qh_used (mp_queues (wo_mapping w) (sv_queue s))
      \<and> qh_last_head (mp_queues (wo_mapping w) (sv_queue s)) = sv_head s" using f(4) h by blast
  next
    assume a: "sv_state s = ACTIVE \<and> wo_guest w (sv_queue s) \<noteq> qh_used (mp_queues (wo_mapping w) (sv_queue s))
      \<and> qh_last_head (mp_queues (wo_mapping w) (sv_queue s)) = sv_head s"
    then have "finished c w (sv_queue s) = Some (sv_entry s, wo_guest w (sv_queue s))"
      using lv version by (simp add: finished_def)
    then show "is_over completed s" using mem q r by blast
  qed
qed

lemma outstanding_saved:
  assumes "recoverable c w" and s: "s \<in> set (scanned c (wo_mapping w))"
    and cs: "completed = List.map_filter (finished c w) [0..<ge_queues (ca_geometry c)]"
  shows "outstanding c w (sv_queue s) (sv_head s) =
    (if wanted (is_over completed) s then Some (ToReplay (sv_entry s))
     else if fresh (is_over completed) s then Some (ToAdmit (en_discovery (sv_entry s)) (en_request (sv_entry s))) else None)"
proof -
  have lv: "live c (wo_mapping w) (sv_queue s) (sv_head s) = Some (sv_state s, sv_entry s)"
    and flag: "sv_inflight s = (de_inflight (mp_descriptors (wo_mapping w) (sv_queue s) (sv_head s)) = 1)"
    using s by (auto simp: set_scanned saved_of_Some)
  have "de_inflight (mp_descriptors (wo_mapping w) (sv_queue s) (sv_head s)) = 0 \<longleftrightarrow> \<not> sv_inflight s"
    using slot_invD(2) [OF assms(1) live_in_range [OF lv]] flag by linarith
  then show ?thesis unfolding outstanding_def lv wanted_def fresh_def is_over_retired(2) [OF assms] by auto
qed

lemma outstanding_scanned:
  assumes "outstanding c w q h = Some x"
  obtains s where "s \<in> set (scanned c (wo_mapping w))" "sv_queue s = q" "sv_head s = h"
proof -
  obtain state e where "live c (wo_mapping w) q h = Some (state, e)"
    using assms by (cases "live c (wo_mapping w) q h") (auto simp: outstanding_def)
  then obtain s where s: "saved_of c (wo_mapping w) q h = Some s" by (simp add: saved_of_def)
  show thesis using that [of s] saved_of_pos [OF s] s by (simp add: set_scanned)
qed

lemma sorted_strict:
  assumes "sorted (map f xs)" and "distinct xs" and "\<And>x y. x \<in> set xs \<Longrightarrow> y \<in> set xs \<Longrightarrow> x \<noteq> y \<Longrightarrow> f x \<noteq> (f y :: nat)"
  shows "sorted_wrt (\<lambda>a b. f a < f b) xs"
  using assms
proof (induction xs)
  case (Cons x xs)
  have "f x < f y" if "y \<in> set xs" for y
    using Cons.prems(1,2) Cons.prems(3) [of x y] that by (auto simp: less_le)
  moreover have "sorted_wrt (\<lambda>a b. f a < f b) xs" by (rule Cons.IH) (use Cons.prems in auto)
  ultimately show ?case by simp
qed simp

lemma replays_exact:
  assumes rec: "recoverable c w" and cs: "completed = List.map_filter (finished c w) [0..<ge_queues (ca_geometry c)]"
  defines "saved \<equiv> replay_order c (wo_mapping w)" and "D \<equiv> is_over completed"
  assumes r: "rp_entries r = map sv_entry (filter (wanted D) saved)"
    "rp_discovered r = sort_key fst (map (\<lambda>s. (en_discovery (sv_entry s), en_request (sv_entry s))) (filter (fresh D) saved))"
  shows "replays c w r"
proof -
  have set: "set saved = set (scanned c (wo_mapping w))" by (simp add: saved_def replay_order_props)
  note out = outstanding_saved [OF rec _ cs, folded D_def]
  have ap: "apart (sv_entry a) (sv_entry b)" if "a \<in> set saved" "b \<in> set saved" "a \<noteq> b" for a b
    using scanned_apart [OF rec] that set by simp
  have nz: "en_serial (sv_entry s) \<noteq> 0" if "s \<in> set saved" "wanted D s" for s
    using that set live_Some(5) by (fastforce simp: set_scanned saved_of_Some wanted_def)
  have excl: "\<not> (wanted D s \<and> fresh D s)" for s by (auto simp: wanted_def fresh_def)
  show "replays c w r" unfolding replays_def
  proof (intro conjI)
    show "set (rp_entries r) = {e. \<exists>q h. outstanding c w q h = Some (ToReplay e)}"
    proof (intro set_eqI iffI)
      fix e assume "e \<in> set (rp_entries r)"
      then obtain s where "s \<in> set saved" "wanted D s" "e = sv_entry s" using r by auto
      then show "e \<in> {e. \<exists>q h. outstanding c w q h = Some (ToReplay e)}" using out [of s] set by auto
    next
      fix e assume "e \<in> {e. \<exists>q h. outstanding c w q h = Some (ToReplay e)}"
      then obtain q h where owe: "outstanding c w q h = Some (ToReplay e)" by blast
      obtain s where s: "s \<in> set (scanned c (wo_mapping w))" "sv_queue s = q" "sv_head s = h" using outstanding_scanned [OF owe] .
      then have "wanted D s \<and> e = sv_entry s" using out [of s] owe by (auto split: if_splits)
      then show "e \<in> set (rp_entries r)" using r s set by auto
    qed
    show "set (rp_discovered r) = {(d, request). \<exists>q h. outstanding c w q h = Some (ToAdmit d request)}"
    proof (intro set_eqI iffI)
      fix x assume "x \<in> set (rp_discovered r)"
      then obtain s where "s \<in> set saved" "fresh D s" "x = (en_discovery (sv_entry s), en_request (sv_entry s))" using r by auto
      then show "x \<in> {(d, request). \<exists>q h. outstanding c w q h = Some (ToAdmit d request)}" using out [of s] set excl [of s] by auto
    next
      fix x assume "x \<in> {(d, request). \<exists>q h. outstanding c w q h = Some (ToAdmit d request)}"
      then obtain q h d request where owe: "outstanding c w q h = Some (ToAdmit d request)" "x = (d, request)" by auto
      obtain s where s: "s \<in> set (scanned c (wo_mapping w))" "sv_queue s = q" "sv_head s = h" using outstanding_scanned [OF owe(1)] .
      then have "fresh D s \<and> x = (en_discovery (sv_entry s), en_request (sv_entry s))" using out [of s] owe by (auto split: if_splits)
      then show "x \<in> set (rp_discovered r)" using r s set by auto
    qed
    have "sorted_wrt (\<lambda>a b. en_serial (sv_entry a) < en_serial (sv_entry b)) (filter (wanted D) saved)"
    proof (rule sorted_strict)
      show "sorted (map (\<lambda>s. en_serial (sv_entry s)) (filter (wanted D) saved))"
        using replay_order_props(3) by (simp add: saved_def sorted_filter)
      show "distinct (filter (wanted D) saved)" using replay_order_props(2) by (simp add: saved_def)
      show "en_serial (sv_entry a) \<noteq> en_serial (sv_entry b)"
        if "a \<in> set (filter (wanted D) saved)" "b \<in> set (filter (wanted D) saved)" "a \<noteq> b" for a b
        using ap [of a b] nz [of a] that by (auto simp: apart_def)
    qed
    then show "sorted_wrt (\<lambda>a b. en_serial a < en_serial b) (rp_entries r)" using r by (simp add: sorted_wrt_map)
    let ?ds = "map (\<lambda>s. (en_discovery (sv_entry s), en_request (sv_entry s))) (filter (fresh D) saved)"
    have dist: "distinct (filter (fresh D) saved)" using replay_order_props(2) by (simp add: saved_def)
    have eq: "a = b" if "a \<in> set saved" "b \<in> set saved" "en_discovery (sv_entry a) = en_discovery (sv_entry b)" for a b
      using ap [of a b] that by (auto simp: apart_def)
    have "sorted_wrt (\<lambda>a b. fst a < fst b) (sort_key fst ?ds)"
    proof (rule sorted_strict)
      show "distinct (sort_key fst ?ds)" using dist eq by (auto simp: distinct_map inj_on_def)
      show "fst x \<noteq> fst y" if "x \<in> set (sort_key fst ?ds)" "y \<in> set (sort_key fst ?ds)" "x \<noteq> y" for x y
        using that by (auto dest: eq)
    qed simp
    then show "sorted_wrt (\<lambda>a b. fst a < fst b) (rp_discovered r)" using r by simp
  qed
qed

lemma reconcile_exact:
  assumes rec: "recoverable c w" and room: "\<And>i. i < 6 \<Longrightarrow> room i = Inr ()"
  obtains es r where "Carrier_reconcile room c (wo_mapping w) (guest_cursors c w) = (es, Inr r)"
    "safe_run c es w" "settled c (run es w)" "replays c w r"
proof -
  let ?m = "wo_mapping w" and ?qs = "[0..<ge_queues (ca_geometry c)]"
  define saved where "saved = replay_order c ?m"
  define completed where "completed = List.map_filter (finished c w) ?qs"
  define D where "D = is_over completed"
  have set: "set saved = set (scanned c ?m)" by (simp add: saved_def replay_order_props)
  have size: "0 < ge_queue_size (ca_geometry c)" using rec by (simp add: recoverable_def queue_inv_def)
  have qs: "\<forall>q \<in> set ?qs. in_range c q 0" using size by (simp add: in_range_def)
  have lv: "live c ?m (sv_queue s) (sv_head s) = Some (sv_state s, sv_entry s)" if "s \<in> set saved" for s
    using that set by (simp add: set_scanned saved_of_Some)
  have of_live: "\<exists>s \<in> set saved. sv_queue s = q \<and> sv_head s = h \<and> sv_state s = state \<and> sv_entry s = e"
    if "live c ?m q h = Some (state, e)" for q h state e
  proof -
    obtain s where s: "saved_of c ?m q h = Some s" using \<open>live c ?m q h = Some (state, e)\<close> by (simp add: saved_of_def)
    note at = saved_of_pos [OF s]
    have "s \<in> set saved" unfolding set set_scanned using s at by metis
    moreover have "sv_state s = state" "sv_entry s = e" using s that by (simp_all add: saved_of_Some)
    ultimately show ?thesis using at by blast
  qed
  have enum: "enumerate 0 (guest_cursors c w) =
      map (\<lambda>q. (q, if qh_version (mp_queues ?m q) = 1 then Some (wo_guest w q) else None)) ?qs"
    by (simp add: guest_cursors_def enumerate_map_upt)
  have comp: "completed_queues c ?m saved (enumerate 0 (guest_cursors c w)) [] = Inr completed"
    using completed_queues_exact [OF rec set qs, of "[]"] by (simp add: enum completed_def)
  have rin: "\<forall>(e, u) \<in> set completed. in_range c (rq_queue (en_request e)) (rq_head (en_request e))"
  proof -
    have "in_range c (rq_queue (en_request e)) (rq_head (en_request e))" if "q \<in> set ?qs" "finished c w q = Some (e, u)" for e u q
      using finished_Some [OF rec _ that(2)] qs that(1) live_in_range by metis
    then show ?thesis by (auto simp: completed_def set_map_filter)
  qed
  define es1 where "es1 = retire_effects c w ?qs"
  define es2 where "es2 = concat (map (\<lambda>s. repair_effects (D s) s) saved)"
  define es3 where "es3 = header_effects (newest_discovery ?m saved) (highest_serial ?m saved) (highest_mutation ?m saved)"
  have fin: "finish_completions c completed = (es1, Inr ())"
    using finish_completions_exact [OF rin] by (simp add: es1_def retire_effects_def completed_def)
  have rep: "repair_records c completed saved [] [] = (es2, Inr (map sv_entry (filter (wanted D) saved),
      map (\<lambda>s. (en_discovery (sv_entry s), en_request (sv_entry s))) (filter (fresh D) saved)))"
    using repair_records_exact [of saved c completed "[]" "[]"] live_in_range [OF lv] by (simp add: es2_def D_def)
  define r where "r = \<lparr>rp_entries = map sv_entry (filter (wanted D) saved),
    rp_discovered = sort_key fst (map (\<lambda>s. (en_discovery (sv_entry s), en_request (sv_entry s))) (filter (fresh D) saved)),
    rp_highest_discovery = highest_discovery ?m saved, rp_highest_serial = highest_serial ?m saved,
    rp_highest_mutation = highest_mutation ?m saved, rp_published = Carrier_published ?m\<rparr>"
  have result: "Carrier_reconcile room c ?m (guest_cursors c w) = (es1 @ es2 @ es3, Inr r)"
  proof -
    have "reconcile_repair c ?m saved completed = (es1 @ es2 @ es3, Inr r)"
      by (simp add: reconcile_repair_def and_then_def fin rep es3_def header_effects_def r_def)
    moreover have "validate_header c ?m = Inr ()" using rec by (simp add: recoverable_def header_inv_def)
    moreover have "Carrier_scan room c ?m = Inr saved" unfolding saved_def by (rule Carrier_scan_exact [OF rec room])
    moreover have "length (guest_cursors c w) = ge_queues (ca_geometry c)" by (simp add: guest_cursors_def)
    ultimately show ?thesis
      using comp check_newest_ok [OF rec set] room [of 3] room [of 4] room [of 5]
      by (simp add: Carrier_reconcile_def guarded_def)
  qed
  define w1 where "w1 = run es1 w"
  define w2 where "w2 = run es2 w1"
  have p1: "safe_run c es1 w" "after_retire c w (set ?qs) w1"
    using retire_all [OF rec qs] by (simp_all add: es1_def w1_def)
  have rec1: "recoverable c w1" using p1(1) by (simp add: safe_run_def keeps_def w1_def)
  have agree1: "agreed c w1" unfolding agreed_def
  proof (intro allI impI)
    fix q assume q: "in_range c q 0" "qh_version (mp_queues (wo_mapping w1) q) = 1"
    then have mem: "q \<in> set ?qs" by (simp add: in_range_def)
    have ver: "qh_version (mp_queues ?m q) = 1" using q(2) p1(2) by (auto simp: after_retire_def split: if_splits)
    show "wo_guest w1 q = qh_used (mp_queues (wo_mapping w1) q)"
    proof (cases "finished c w q")
      case None
      then show ?thesis using finished_None [OF rec q(1) None ver] p1(2) by (simp add: after_retire_def)
    next
      case (Some x)
      then show ?thesis using mem p1(2) by (simp add: after_retire_def)
    qed
  qed
  have over: "D s \<longleftrightarrow> retired_at c w (set ?qs) (sv_queue s) (sv_head s)" if "s \<in> set saved" for s
    using is_over_retired(1) [OF rec _ completed_def] that set by (simp add: D_def)
  have dist: "distinct (map pos saved)"
    unfolding distinct_map inj_on_def using replay_order_props(2) [of c ?m, folded saved_def] set
    by (auto simp: pos_def set_scanned)
  have p2: "safe_run c es2 w1 \<and> only_at c (pos ` set saved) w1 w2 \<and> (\<forall>s \<in> set saved. clean c (wo_mapping w2) (sv_queue s) (sv_head s))"
    unfolding es2_def w2_def
  proof (rule repair_all [OF rec1 agree1 dist])
    show "saved_of c (wo_mapping w1) (sv_queue s) (sv_head s) = Some s" if "s \<in> set saved" "\<not> D s" for s
      using p1(2) over [OF that(1)] that set by (simp add: after_retire_def saved_of_Some set_scanned)
    show "live c (wo_mapping w1) (sv_queue s) (sv_head s) = None" if "s \<in> set saved" "D s" for s
      using p1(2) over [OF that(1)] that by (simp add: after_retire_def)
  qed
  have rec2: "recoverable c w2" using p2 by (simp add: safe_run_def keeps_def w2_def)
  have hd2: "mp_header (wo_mapping w2) = mp_header ?m" using p1(2) p2 by (simp add: only_at_def after_retire_def)
  have origin: "\<exists>s \<in> set saved. sv_queue s = q \<and> sv_head s = h \<and> sv_entry s = snd x" if "live c (wo_mapping w2) q h = Some x" for q h x
  proof -
    obtain state where "live c (wo_mapping w1) q h = Some (state, snd x)"
      using p2 \<open>live c (wo_mapping w2) q h = Some x\<close> unfolding only_at_def by (metis prod.collapse)
    then have "live c ?m q h = Some (state, snd x)" using p1(2) unfolding after_retire_def by (metis option.distinct(1))
    then show ?thesis using of_live by blast
  qed
  have p3: "safe_run c es3 w2 \<and> settled c (run es3 w2)" unfolding es3_def
  proof (rule header_phase [OF rec2])
    show "agreed c w2" using agree1 p2 by (simp add: agreed_def only_at_def)
    show "clean c (wo_mapping w2) q h" for q h using p2 origin [of q h] by (fastforce simp: clean_def)
    note newest = newest_discovery_exact [OF rec set]
    show "en_discovery (snd x) < ih_discovery (mp_header (wo_mapping w2))"
      if "newest_discovery ?m saved = None" "live c (wo_mapping w2) q h = Some x" for q h x
      using newest that(1) origin [OF that(2)] by (auto simp: hd2)
    show "in_range c (sv_queue s) 0 \<and> ih_discovery (mp_header (wo_mapping w2)) \<le> en_discovery (sv_entry s)
      \<and> (\<forall>q h x. live c (wo_mapping w2) q h = Some x \<longrightarrow> en_discovery (snd x) \<le> en_discovery (sv_entry s)
           \<and> (en_discovery (snd x) = en_discovery (sv_entry s) \<longrightarrow> snd x = sv_entry s))"
      if n: "newest_discovery ?m saved = Some s" for s
    proof (intro conjI allI impI)
      have s: "s \<in> set saved" "ih_discovery (mp_header ?m) \<le> en_discovery (sv_entry s)"
        "\<forall>s' \<in> set saved. en_discovery (sv_entry s') \<le> en_discovery (sv_entry s)" using newest n by auto
      show "in_range c (sv_queue s) 0" using in_range_0 [OF live_in_range [OF lv [OF s(1)]]] .
      show "ih_discovery (mp_header (wo_mapping w2)) \<le> en_discovery (sv_entry s)" using s(2) by (simp add: hd2)
      fix q h x assume x: "live c (wo_mapping w2) q h = Some x"
      then obtain s' where s': "s' \<in> set saved" "sv_entry s' = snd x" using origin by blast
      show "en_discovery (snd x) \<le> en_discovery (sv_entry s)" using s(3) s' by metis
      show "snd x = sv_entry s" if "en_discovery (snd x) = en_discovery (sv_entry s)"
        using scanned_apart [OF rec, of s' s] s' s(1) set that by (cases "s' = s") (auto simp: apart_def)
    qed
    show "ih_serial (mp_header (wo_mapping w2)) \<le> highest_serial ?m saved"
      using highest_serial_ge(1) [OF replay_order_props(3)] by (simp add: hd2 saved_def)
    show "ih_mutation (mp_header (wo_mapping w2)) \<le> highest_mutation ?m saved" using highest_mutation_ge(1) by (simp add: hd2)
    show "en_serial (snd x) \<le> highest_serial ?m saved" if "live c (wo_mapping w2) q h = Some x" for q h x
      using origin [OF that] highest_serial_ge(2) [OF replay_order_props(3)] saved_def by metis
    show "en_mutation (snd x) \<le> highest_mutation ?m saved" if "live c (wo_mapping w2) q h = Some x" for q h x
      using origin [OF that] highest_mutation_ge(2) by metis
  qed
  have "safe_run c (es2 @ es3) w1" using safe_run_append p2 p3 by (simp add: w2_def)
  then have "safe_run c (es1 @ es2 @ es3) w" using safe_run_append [OF p1(1)] by (simp add: w1_def)
  moreover have "settled c (run (es1 @ es2 @ es3) w)" using p3 by (simp add: w1_def w2_def)
  moreover have "replays c w r"
    by (rule replays_exact [OF rec completed_def]) (simp_all add: r_def saved_def D_def)
  ultimately show thesis using that result by blast
qed

end
