(* ===== verification/Inflight_Operations.thy ===== *)
theory Inflight_Operations
  imports Inflight_Replay
begin

text \<open>
  The operations of the inflight carrier, between two of which the mapping is \<open>settled\<close>. Each of them takes effect at one
  store: a death before it leaves the debts to the guest as they were, a death after it leaves them as the whole operation would.
\<close>

section \<open>Discovery\<close>

lemma on_slot_twice: "on_slot q h f (on_slot q h g m) = on_slot q h (\<lambda>s. f (g s)) m"
  by (simp add: on_slot_def)

lemma REJECTED_masks [simp]: "REJECTED AND NOT REJECTED = 0" "REJECTED AND REJECTED = REJECTED" "REJECTED \<noteq> 0"
  by (simp_all add: REJECTED_def)

lemma Kind_roundtrip [simp]: "Kind_try_from (Kind_code k) = Inr k"
  by (cases k) (simp_all add: Kind_try_from_def)

text \<open>A relaxed store to a slot of which nobody reads that field yet.\<close>

definition quiet_at :: "nat \<Rightarrow> nat \<Rightarrow> (InflightSlot \<Rightarrow> bool) \<Rightarrow> Target \<Rightarrow> bool" where
  "quiet_at q h P t \<longleftrightarrow> (\<exists>f. store_mapping t = on_slot q h f \<and> store_guest t = (\<lambda>g. g)
     \<and> (\<forall>s. P s \<longrightarrow> P (f s) \<and> (\<forall>c v. slot_decode c q h s = Inr v \<longrightarrow> slot_decode c q h (f s) = Inr v)))"

lemma quiet_keeps:
  assumes "recoverable c w" and "in_range c q h" and "P (mp_slots (wo_mapping w) q h)" and "\<forall>t \<in> snd ` set ps. quiet_at q h P t"
  shows "keeps c w (run ps w)"
  using assms
proof (induction ps arbitrary: w)
  case (Cons p ps)
  obtain f where f: "store_mapping (snd p) = on_slot q h f" "store_guest (snd p) = (\<lambda>g. g)"
    "\<And>s c v. P s \<Longrightarrow> P (f s) \<and> (slot_decode c q h s = Inr v \<longrightarrow> slot_decode c q h (f s) = Inr v)"
    using Cons.prems(4) by (auto simp: quiet_at_def)
  have k: "keeps c w (store (snd p) w)"
  proof (rule keeps_slot_quiet [OF Cons.prems(1,2), where s = f])
    show "slot_decode c q h (f (mp_slots (wo_mapping w) q h)) = slot_decode c q h (mp_slots (wo_mapping w) q h)"
      using f(3) [OF Cons.prems(3)] slot_invD(1) [OF Cons.prems(1,2)] by simp
  qed (simp_all add: f)
  have "keeps c (store (snd p) w) (run ps (store (snd p) w))"
    by (rule Cons.IH) (use k Cons.prems f(3) [OF Cons.prems(3)] in \<open>auto simp: keeps_recoverable f\<close>)
  then show ?case using keeps_trans [OF k] by simp
qed (simp add: keeps_refl)

lemma decode_empty_slot: "sl_state s = EMPTY \<Longrightarrow> slot_decode c q h s =
  (if sl_flags s AND NOT REJECTED \<noteq> 0 \<or> \<not> all_zero (sl_tail s) then Inl (InvalidData ''nonzero reserved inflight slot bytes'') else Inr None)"
  by (simp add: slot_decode_def)

lemma discovery_stores_quiet:
  assumes "t \<in> snd ` set (discovery_stores c request d)"
  shows "quiet_at (rq_queue request) (rq_head request) (\<lambda>s. sl_state s = EMPTY) t"
proof -
  let ?q = "rq_queue request" and ?h = "rq_head request"
  have "\<exists>f. store_mapping t = on_slot ?q ?h f \<and> store_guest t = (\<lambda>g. g) \<and> (\<forall>s. sl_state (f s) = sl_state s
      \<and> sl_tail (f s) = sl_tail s \<and> (sl_flags (f s) = sl_flags s \<or> sl_flags (f s) = 0))"
    using assms by (auto simp: discovery_stores_def Let_def fun_eq_iff)
  then obtain f where f: "store_mapping t = on_slot ?q ?h f" "store_guest t = (\<lambda>g. g)" "\<And>s. sl_state (f s) = sl_state s
      \<and> sl_tail (f s) = sl_tail s \<and> (sl_flags (f s) = sl_flags s \<or> sl_flags (f s) = 0)" by blast
  have "slot_decode c' ?q ?h (f s) = Inr v" if "sl_state s = EMPTY" "slot_decode c' ?q ?h s = Inr v" for s c' v
    using that f(3) [of s] by (auto simp: decode_empty_slot split: if_splits)
  then show ?thesis using f unfolding quiet_at_def by (intro exI [of _ f]) simp
qed

definition discovered_entry :: "Carrier \<Rightarrow> InflightRequest \<Rightarrow> nat \<Rightarrow> InflightEntry" where
  "discovered_entry c request d = \<lparr>en_request = request, en_serial = 0, en_mutation = 0, en_boundary = 0,
     en_attachment = id_attachment (ca_identity c), en_rejected = False, en_discovery = d\<rparr>"

definition discovered_slot :: "Carrier \<Rightarrow> InflightRequest \<Rightarrow> nat \<Rightarrow> InflightSlot \<Rightarrow> InflightSlot" where
  "discovered_slot c request d s = s\<lparr>sl_kind := Kind_code (rq_kind request), sl_queue := rq_queue request, sl_head := rq_head request,
     sl_available := rq_available request, sl_offset := rq_offset request, sl_length := rq_length request,
     sl_attachment := id_attachment (ca_identity c), sl_flags := 0, sl_discovery := d\<rparr>"

lemma run_discovery_stores:
  "wo_mapping (run (discovery_stores c request d) w) =
     on_slot (rq_queue request) (rq_head request) (discovered_slot c request d) (wo_mapping w)"
  "wo_guest (run (discovery_stores c request d) w) = wo_guest w"
  by (simp_all add: discovery_stores_def Let_def on_slot_twice discovered_slot_def [abs_def])

lemma decode_discovered_slot:
  assumes "Request_validate request (ca_image_bytes c) = Inr ()" and "d \<noteq> 0" and "all_zero (sl_tail s)"
  shows "slot_decode c (rq_queue request) (rq_head request) ((discovered_slot c request d s)\<lparr>sl_state := DISCOVERED\<rparr>) =
    Inr (Some (DISCOVERED, discovered_entry c request d))"
proof -
  have "slot_request (rq_kind request) ((discovered_slot c request d s)\<lparr>sl_state := DISCOVERED\<rparr>) = request"
    by (simp add: slot_request_def discovered_slot_def)
  then show ?thesis using assms
    by (simp add: slot_decode_def decode_discovered_def discovered_slot_def discovered_entry_def)
qed

text \<open>
  An operation that takes effect at one store: at any death the debts are the old or the new ones, and afterwards
  the new ones.
\<close>

definition atomic :: "Carrier \<Rightarrow> CarrierWorld \<Rightarrow> (nat \<Rightarrow> nat \<Rightarrow> Outstanding option) \<Rightarrow> effect list \<Rightarrow> bool" where
  "atomic c w a es \<longleftrightarrow> sealed es \<and> settled c (run es w) \<and> outstanding c (run es w) = a
     \<and> crash_safe (\<lambda>w'. recoverable c w' \<and> (outstanding c w' = outstanding c w \<or> outstanding c w' = a)) es w"

definition set_at :: "(nat \<Rightarrow> nat \<Rightarrow> 'a) \<Rightarrow> nat \<Rightarrow> nat \<Rightarrow> 'a \<Rightarrow> nat \<Rightarrow> nat \<Rightarrow> 'a" where
  "set_at f q h x = f(q := (f q)(h := x))"

lemma settledD:
  assumes "settled c w" and "live c (wo_mapping w) q h = Some (state, e)"
  shows "state = DISCOVERED \<or> (state = ACTIVE \<and> de_inflight (mp_descriptors (wo_mapping w) q h) = 1)"
    "en_discovery e \<le> ih_discovery (mp_header (wo_mapping w))" "en_serial e \<le> ih_serial (mp_header (wo_mapping w))"
    "en_mutation e \<le> ih_mutation (mp_header (wo_mapping w))"
    "en_discovery e = ih_discovery (mp_header (wo_mapping w)) \<Longrightarrow>
       of_nat (ih_available (mp_header (wo_mapping w)) q) = rq_available (en_request e) + 1"
proof -
  have "\<forall>q h state e. live c (wo_mapping w) q h = Some (state, e) \<longrightarrow>
     (state = DISCOVERED \<or> (state = ACTIVE \<and> de_inflight (mp_descriptors (wo_mapping w) q h) = 1))
     \<and> en_discovery e \<le> ih_discovery (mp_header (wo_mapping w)) \<and> en_serial e \<le> ih_serial (mp_header (wo_mapping w))
     \<and> en_mutation e \<le> ih_mutation (mp_header (wo_mapping w))
     \<and> (en_discovery e = ih_discovery (mp_header (wo_mapping w)) \<longrightarrow>
          of_nat (ih_available (mp_header (wo_mapping w)) q) = rq_available (en_request e) + 1)"
    using assms(1) unfolding settled_def by blast
  note all = this [rule_format, OF assms(2)]
  show "state = DISCOVERED \<or> (state = ACTIVE \<and> de_inflight (mp_descriptors (wo_mapping w) q h) = 1)"
    "en_discovery e \<le> ih_discovery (mp_header (wo_mapping w))" "en_serial e \<le> ih_serial (mp_header (wo_mapping w))"
    "en_mutation e \<le> ih_mutation (mp_header (wo_mapping w))"
    "en_discovery e = ih_discovery (mp_header (wo_mapping w)) \<Longrightarrow>
       of_nat (ih_available (mp_header (wo_mapping w)) q) = rq_available (en_request e) + 1"
    using all by blast+
qed

lemma settled_recoverable: "settled c w \<Longrightarrow> recoverable c w"
  by (simp add: settled_def)

lemma prepare_discovery_Inr:
  assumes "prepare_discovery c m request = (es, Inr d)"
  shows "Request_validate request (ca_image_bytes c) = Inr ()" "in_range c (rq_queue request) (rq_head request)"
    "qh_version (mp_queues m (rq_queue request)) = 1" "of_nat (ih_available (mp_header m) (rq_queue request)) = rq_available request"
    "sl_state (mp_slots m (rq_queue request) (rq_head request)) = EMPTY"
    "de_inflight (mp_descriptors m (rq_queue request) (rq_head request)) = 0"
    "d = ih_discovery (mp_header m) + 1" "d \<le> u64_max"
    "es = discovery_stores c request d @ [(Release, SlotState (rq_queue request) (rq_head request) DISCOVERED)]"
  using assms
  by (auto simp: prepare_discovery_def guarded_def Carrier_available_def Let_def split: sum.splits if_splits)

lemma prepare_discovery_Inl: "prepare_discovery c m request = (es, Inl e) \<Longrightarrow> es = []"
  by (auto simp: prepare_discovery_def guarded_def Let_def split: sum.splits if_splits)

text \<open>The world in which the slot has become discovered and the header does not know it yet.\<close>

lemma discovered_recoverable:
  assumes settled: "settled c w" and prep: "prepare_discovery c (wo_mapping w) request = (es, Inr d)"
  defines "q \<equiv> rq_queue request" and "h \<equiv> rq_head request"
  shows "recoverable c (run es w)"
    and "outstanding c (run es w) = set_at (outstanding c w) q h (Some (ToAdmit d request))"
    and "live c (wo_mapping (run es w)) = set_at (live c (wo_mapping w)) q h (Some (DISCOVERED, discovered_entry c request d))"
proof -
  note rec = settled_recoverable [OF settled]
  note p = prepare_discovery_Inr [OF prep, folded q_def h_def]
  let ?f = "\<lambda>s. (discovered_slot c request d s)\<lparr>sl_state := DISCOVERED\<rparr>" and ?e = "discovered_entry c request d"
  let ?m = "wo_mapping w"
  have w': "wo_mapping (run es w) = on_slot q h ?f ?m" "wo_guest (run es w) = wo_guest w"
    by (simp_all add: p(9) run_discovery_stores on_slot_twice q_def h_def)
  have dec: "slot_decode c q h (mp_slots ?m q h) = Inr None" and empty: "live c ?m q h = None"
  proof -
    have "slot_decode c q h (mp_slots ?m q h) = Inr (live c ?m q h)" using slot_invD(1) [OF rec p(2)] .
    then show "slot_decode c q h (mp_slots ?m q h) = Inr None" "live c ?m q h = None"
      by (auto simp: decode_empty_slot [OF p(5)] split: if_splits)
  qed
  have tail: "all_zero (sl_tail (mp_slots ?m q h))" using dec by (auto simp: decode_empty_slot [OF p(5)] split: if_splits)
  have dec': "slot_decode c q h (?f (mp_slots ?m q h)) = Inr (Some (DISCOVERED, ?e))"
    unfolding q_def h_def by (rule decode_discovered_slot [OF p(1) _ tail [unfolded q_def h_def]]) (simp add: p(7))
  note lv = live_on_slot [where s = ?f and m = ?m, OF p(2) dec']
  show "live c (wo_mapping (run es w)) = set_at (live c ?m) q h (Some (DISCOVERED, ?e))" by (simp add: w' lv set_at_def)
  have low: "en_discovery (snd x) \<le> ih_discovery (mp_header ?m)" if "live c ?m q' h' = Some x" for q' h' x
    using settledD(2) [OF settled, of q' h' "fst x" "snd x"] that by simp
  show "recoverable c (run es w)"
  proof (rule recoverable_slot [OF rec p(2) dec' w'])
    show "newest_inv c (on_slot q h ?f ?m)" unfolding newest_inv_def
    proof (intro allI impI)
      fix q1 h1 st1 e1
      assume a: "live c (on_slot q h ?f ?m) q1 h1 = Some (st1, e1)"
        and b: "ih_discovery (mp_header (on_slot q h ?f ?m)) \<le> en_discovery e1"
        and m: "\<forall>q' h' x. live c (on_slot q h ?f ?m) q' h' = Some x \<longrightarrow> en_discovery (snd x) \<le> en_discovery e1"
      have "live c (on_slot q h ?f ?m) q h = Some (DISCOVERED, ?e)" by (simp add: lv)
      with m have "d \<le> en_discovery e1" by (metis discovered_entry_def InflightEntry.select_convs(7) snd_conv)
      moreover have "en_discovery e1 < d" if "(q1, h1) \<noteq> (q, h)"
      proof -
        have "live c ?m q1 h1 = Some (st1, e1)" using a that unfolding lv by (auto split: if_splits)
        then show ?thesis using low [of q1 h1 "(st1, e1)"] p(7) by simp
      qed
      ultimately have "(q1, h1) = (q, h)" using linorder_not_less by blast
      then have "e1 = ?e" "q1 = q" using a by (auto simp: lv)
      then show "near_cursor (mp_header (on_slot q h ?f ?m)) q1 e1" using p(4) by (simp add: near_cursor_def discovered_entry_def)
    qed
    show "apart e (snd x) \<and> apart (snd x) e" if "Some (DISCOVERED, ?e) = Some (state, e)" "live c ?m q' h' = Some x" for state e q' h' x
      using that low [OF that(2)] p(7) by (auto simp: apart_def discovered_entry_def)
    show "entry_ok (mp_header ?m) (mp_queues ?m q) (mp_descriptors ?m q h) state e" if "Some (DISCOVERED, ?e) = Some (state, e)" for state e
      using that p by (auto simp: entry_ok_def discovered_entry_def)
    show "Some (DISCOVERED, ?e) = live c ?m q h \<or> wo_guest w q = qh_used (mp_queues ?m q) \<or> qh_last_head (mp_queues ?m q) \<noteq> h"
      using settled p(3) in_range_0 [OF p(2)] by (simp add: settled_def agreed_def)
  qed simp
  show "outstanding c (run es w) = set_at (outstanding c w) q h (Some (ToAdmit d request))"
    by (subst outstanding_slot [OF p(2) dec' w']) (simp add: set_at_def discovered_entry_def)
qed

lemma atomic_commit:
  assumes relaxed: "\<forall>e \<in> set rs. fst e = Relaxed"
    and quiet: "\<And>ps. set ps \<subseteq> set rs \<Longrightarrow> keeps c w (run ps w)"
    and new: "recoverable c (run (rs @ [(Release, t)]) w)" "outstanding c (run (rs @ [(Release, t)]) w) = a"
    and rest: "safe_run c fs (run (rs @ [(Release, t)]) w)" and final: "settled c (run fs (run (rs @ [(Release, t)]) w))"
  shows "atomic c w a (rs @ (Release, t) # fs)"
proof -
  let ?P = "\<lambda>w'. recoverable c w' \<and> (outstanding c w' = outstanding c w \<or> outstanding c w' = a)"
  have "crash_safe ?P fs (run (rs @ [(Release, t)]) w)"
    by (rule crash_safe_mono [where P = "keeps c (run (rs @ [(Release, t)]) w)"])
      (use rest new in \<open>auto simp: safe_run_def keeps_def\<close>)
  then have "crash_safe ?P ((Release, t) # fs) (run rs w)"
    using quiet [of rs] by (simp add: keeps_def)
  then have "crash_safe ?P (rs @ (Release, t) # fs) w"
    using quiet by (intro crash_safe_relaxed [OF relaxed]) (auto simp: keeps_def)
  moreover have "sealed (rs @ (Release, t) # fs)" using rest by (auto simp: safe_run_def sealed_def)
  moreover have "outstanding c (run (rs @ (Release, t) # fs) w) = a" using rest new by (simp add: safe_run_def keeps_def)
  ultimately show ?thesis using final by (simp add: atomic_def)
qed

text \<open>Header stores of an operation leave the slots, queues and descriptors alone.\<close>

lemma finish_discovery_step:
  assumes rec: "recoverable c w" and agree: "agreed c w" and q: "in_range c q 0" and rq: "rq_queue request = q"
    and top: "live c (wo_mapping w) q h = Some (DISCOVERED, e)" "en_discovery e = d" "en_request e = request"
    and grow: "ih_discovery (mp_header (wo_mapping w)) \<le> d"
    and others: "\<And>q' h' state e'. live c (wo_mapping w) q' h' = Some (state, e') \<Longrightarrow> (q', h') \<noteq> (q, h) \<Longrightarrow>
      (state = DISCOVERED \<or> (state = ACTIVE \<and> de_inflight (mp_descriptors (wo_mapping w) q' h') = 1)) \<and> en_discovery e' < d
        \<and> en_serial e' \<le> ih_serial (mp_header (wo_mapping w)) \<and> en_mutation e' \<le> ih_mutation (mp_header (wo_mapping w))"
  shows "safe_run c (finish_discovery request d) w" and "settled c (run (finish_discovery request d) w)"
proof -
  let ?v = "unat (rq_available request + 1)"
  define w1 where "w1 = store (HeaderDiscovery d) w"
  have k1: "keeps c w w1" unfolding w1_def by (rule keeps_header_discovery [OF rec grow])
  have low: "e' = e \<or> en_discovery e' < d" if "live c (wo_mapping w) q' h' = Some (state, e')" for q' h' state e'
  proof (cases "(q', h') = (q, h)")
    case True
    then show ?thesis using that top(1) by simp
  next
    case False
    then show ?thesis using others [OF that] by blast
  qed
  have k2: "keeps c w1 (store (HeaderAvailable q ?v) w1)"
  proof (rule keeps_header_available [OF keeps_recoverable [OF k1] q])
    show "?v < 2 ^ 16" using unsigned_less [of "rq_available request + 1"] by simp
    fix h' state e' assume "live c (wo_mapping w1) q h' = Some (state, e')" "ih_discovery (mp_header (wo_mapping w1)) \<le> en_discovery e'"
    then have "e' = e" using low [of q h' state e'] by (simp add: w1_def)
    then show "of_nat ?v = rq_available (en_request e') \<or> of_nat ?v = rq_available (en_request e') + 1" by (simp add: top)
  qed
  let ?es = "finish_discovery request d"
  show safe: "safe_run c ?es w" unfolding finish_discovery_def rq
    using safe_run_Cons [OF rec k1 [unfolded w1_def] safe_run_release [OF keeps_recoverable [OF k1] k2, unfolded w1_def]] .
  have w': "live c (wo_mapping (run ?es w)) = live c (wo_mapping w)" "wo_guest (run ?es w) = wo_guest w"
    "mp_queues (wo_mapping (run ?es w)) = mp_queues (wo_mapping w)" "mp_descriptors (wo_mapping (run ?es w)) = mp_descriptors (wo_mapping w)"
    "mp_header (wo_mapping (run ?es w)) = mp_header (wo_mapping w)\<lparr>ih_discovery := d, ih_available := (ih_available (mp_header (wo_mapping w)))(q := ?v)\<rparr>"
    by (simp_all add: finish_discovery_def rq)
  show "settled c (run ?es w)" unfolding settled_def
  proof (intro conjI allI impI)
    show "recoverable c (run ?es w)" using safe by (simp add: safe_run_def keeps_def)
    show "agreed c (run ?es w)" using agree by (simp add: agreed_def w')
    fix q' h' state e' assume "live c (wo_mapping (run ?es w)) q' h' = Some (state, e')"
    then have lv: "live c (wo_mapping w) q' h' = Some (state, e')" by (simp add: w')
    have z: "en_serial e = 0" "en_mutation e = 0" using live_Some(6) [OF top(1)] by auto
    have cases: "q' = q \<and> state = DISCOVERED \<and> e' = e \<or> (state = DISCOVERED \<or> (state = ACTIVE \<and> de_inflight (mp_descriptors (wo_mapping w) q' h') = 1))
        \<and> en_discovery e' < d \<and> en_serial e' \<le> ih_serial (mp_header (wo_mapping w)) \<and> en_mutation e' \<le> ih_mutation (mp_header (wo_mapping w))"
    proof (cases "(q', h') = (q, h)")
      case True
      then show ?thesis using lv top(1) by simp
    next
      case False
      then show ?thesis using others [OF lv] by blast
    qed
    show "state = DISCOVERED \<or> (state = ACTIVE \<and> de_inflight (mp_descriptors (wo_mapping (run ?es w)) q' h') = 1)"
      "en_discovery e' \<le> ih_discovery (mp_header (wo_mapping (run ?es w)))" "en_serial e' \<le> ih_serial (mp_header (wo_mapping (run ?es w)))"
      "en_mutation e' \<le> ih_mutation (mp_header (wo_mapping (run ?es w)))"
      using cases by (auto simp: w' z top)
    show "of_nat (ih_available (mp_header (wo_mapping (run ?es w))) q') = rq_available (en_request e') + 1"
      if "en_discovery e' = ih_discovery (mp_header (wo_mapping (run ?es w)))"
      using cases that by (auto simp: w' top)
  qed
qed

lemma discover_atomic:
  assumes settled: "settled c w" and op: "Carrier_discover c (wo_mapping w) request = (es, Inr d)"
  shows "atomic c w (set_at (outstanding c w) (rq_queue request) (rq_head request) (Some (ToAdmit d request))) es"
    and "live c (wo_mapping (run es w)) (rq_queue request) (rq_head request) = Some (DISCOVERED, discovered_entry c request d)"
    and "mp_descriptors (wo_mapping (run es w)) = mp_descriptors (wo_mapping w)"
    and "ih_serial (mp_header (wo_mapping (run es w))) = ih_serial (mp_header (wo_mapping w))"
    and "ih_mutation (mp_header (wo_mapping (run es w))) = ih_mutation (mp_header (wo_mapping w))"
proof -
  let ?q = "rq_queue request" and ?h = "rq_head request" and ?m = "wo_mapping w"
  obtain ps where prep: "prepare_discovery c ?m request = (ps, Inr d)" and es: "es = ps @ finish_discovery request d"
    using op by (auto simp: Carrier_discover_def and_then_def split: sum.splits prod.splits) (metis prod.collapse)
  note p = prepare_discovery_Inr [OF prep] and w1 = discovered_recoverable [OF settled prep]
  note rec = settled_recoverable [OF settled]
  have fields: "mp_header (wo_mapping (run ps w)) = mp_header ?m" "mp_queues (wo_mapping (run ps w)) = mp_queues ?m"
    "mp_descriptors (wo_mapping (run ps w)) = mp_descriptors ?m" "wo_guest (run ps w) = wo_guest w"
    by (simp_all add: p(9) run_discovery_stores)
  have agree: "agreed c (run ps w)" using settled by (simp add: settled_def agreed_def fields)
  have top: "live c (wo_mapping (run ps w)) ?q ?h = Some (DISCOVERED, discovered_entry c request d)" by (simp add: w1(3) set_at_def)
  have fin: "safe_run c (finish_discovery request d) (run ps w)" "settled c (run (finish_discovery request d) (run ps w))"
  proof -
    have rest: "(state = DISCOVERED \<or> (state = ACTIVE \<and> de_inflight (mp_descriptors (wo_mapping (run ps w)) q' h') = 1)) \<and> en_discovery e' < d
        \<and> en_serial e' \<le> ih_serial (mp_header (wo_mapping (run ps w))) \<and> en_mutation e' \<le> ih_mutation (mp_header (wo_mapping (run ps w)))"
      if "live c (wo_mapping (run ps w)) q' h' = Some (state, e')" "(q', h') \<noteq> (?q, ?h)" for q' h' state e'
    proof -
      have "live c ?m q' h' = Some (state, e')" using that by (auto simp: w1(3) set_at_def split: if_splits)
      from settledD [OF settled this] show ?thesis using p(7) by (simp add: fields)
    qed
    note step = finish_discovery_step [OF w1(1) agree in_range_0 [OF p(2)] refl top, of d]
    show "safe_run c (finish_discovery request d) (run ps w)" "settled c (run (finish_discovery request d) (run ps w))"
      by (rule step; use rest p(7) in \<open>simp add: fields discovered_entry_def\<close>)+
  qed
  have "atomic c w (set_at (outstanding c w) ?q ?h (Some (ToAdmit d request)))
     (discovery_stores c request d @ (Release, SlotState ?q ?h DISCOVERED) # finish_discovery request d)"
  proof (rule atomic_commit)
    show "\<forall>e \<in> set (discovery_stores c request d). fst e = Relaxed" by (simp add: discovery_stores_def Let_def)
    show "keeps c w (run xs w)" if "set xs \<subseteq> set (discovery_stores c request d)" for xs
      by (rule quiet_keeps [where P = "\<lambda>s. sl_state s = EMPTY", OF rec p(2) p(5)]) (use that discovery_stores_quiet in blast)
  qed (use w1 fin in \<open>simp_all flip: p(9)\<close>)
  then show "atomic c w (set_at (outstanding c w) ?q ?h (Some (ToAdmit d request))) es" by (simp add: es p(9))
  show "live c (wo_mapping (run es w)) ?q ?h = Some (DISCOVERED, discovered_entry c request d)"
    using top by (simp add: es finish_discovery_def)
  show "mp_descriptors (wo_mapping (run es w)) = mp_descriptors ?m" "ih_serial (mp_header (wo_mapping (run es w))) = ih_serial (mp_header ?m)"
    "ih_mutation (mp_header (wo_mapping (run es w))) = ih_mutation (mp_header ?m)"
    by (simp_all add: es finish_discovery_def fields)
qed

section \<open>Admission\<close>

definition prepared_slot :: "InflightEntry \<Rightarrow> InflightSlot \<Rightarrow> InflightSlot" where
  "prepared_slot e s = s\<lparr>sl_flags := (if en_rejected e then REJECTED else 0), sl_serial := en_serial e,
     sl_mutation := en_mutation e, sl_boundary := en_boundary e\<rparr>"

definition prepare_relaxed :: "InflightEntry \<Rightarrow> effect list" where
  "prepare_relaxed e = (let queue = rq_queue (en_request e); head = rq_head (en_request e) in
     [(Relaxed, SlotFlags queue head (if en_rejected e then REJECTED else 0)), (Relaxed, SlotSerial queue head (en_serial e)),
      (Relaxed, SlotMutation queue head (en_mutation e)), (Relaxed, SlotBoundary queue head (en_boundary e))])"

lemma prepare_stores_split:
  "prepare_stores e = prepare_relaxed e @ [(Release, SlotState (rq_queue (en_request e)) (rq_head (en_request e)) PREPARED)]"
  by (simp add: prepare_stores_def prepare_relaxed_def Let_def)

lemma run_prepare_relaxed:
  "wo_mapping (run (prepare_relaxed e) w) =
     on_slot (rq_queue (en_request e)) (rq_head (en_request e)) (prepared_slot e) (wo_mapping w)"
  "wo_guest (run (prepare_relaxed e) w) = wo_guest w"
  by (simp_all add: prepare_relaxed_def Let_def on_slot_twice prepared_slot_def [abs_def])

lemma decode_discovered_fields:
  assumes "sl_state s = DISCOVERED" and "sl_state s' = DISCOVERED" and "sl_flags s' AND NOT REJECTED = 0 \<or> sl_flags s' = sl_flags s"
    and "sl_tail s' = sl_tail s" "sl_kind s' = sl_kind s" "sl_queue s' = sl_queue s" "sl_head s' = sl_head s" "sl_available s' = sl_available s"
    "sl_offset s' = sl_offset s" "sl_length s' = sl_length s" "sl_attachment s' = sl_attachment s" "sl_discovery s' = sl_discovery s"
    and dec: "slot_decode c q h s = Inr v"
  shows "slot_decode c q h s' = Inr v"
proof -
  have same: "slot_request k s' = slot_request k s" for k using assms by (simp add: slot_request_def)
  have "decode_discovered c q h s' r = decode_discovered c q h s r" for r using assms by (simp add: decode_discovered_def)
  moreover have "sl_flags s AND NOT REJECTED = 0" "all_zero (sl_tail s)" using dec by (auto simp: slot_decode_def split: if_splits)
  ultimately show ?thesis using dec assms(1-5) by (auto simp: slot_decode_def same)
qed

lemma prepare_relaxed_quiet:
  assumes "t \<in> snd ` set (prepare_relaxed e)"
  shows "quiet_at (rq_queue (en_request e)) (rq_head (en_request e)) (\<lambda>s. sl_state s = DISCOVERED) t"
proof -
  let ?q = "rq_queue (en_request e)" and ?h = "rq_head (en_request e)"
  have q: "quiet_at ?q ?h (\<lambda>s. sl_state s = DISCOVERED) t"
    if "store_mapping t = on_slot ?q ?h f" "store_guest t = (\<lambda>g. g)" "\<And>s. sl_state (f s) = sl_state s
      \<and> (sl_flags (f s) AND NOT REJECTED = 0 \<or> sl_flags (f s) = sl_flags s) \<and> sl_tail (f s) = sl_tail s \<and> sl_kind (f s) = sl_kind s \<and> sl_queue (f s) = sl_queue s
      \<and> sl_head (f s) = sl_head s \<and> sl_available (f s) = sl_available s \<and> sl_offset (f s) = sl_offset s \<and> sl_length (f s) = sl_length s
      \<and> sl_attachment (f s) = sl_attachment s \<and> sl_discovery (f s) = sl_discovery s" for f
    unfolding quiet_at_def
  proof (intro exI [of _ f] conjI allI impI)
    fix s :: InflightSlot assume s: "sl_state s = DISCOVERED"
    show "sl_state (f s) = DISCOVERED" using that(3) [of s] s by simp
    fix c v assume "slot_decode c ?q ?h s = Inr v"
    then show "slot_decode c ?q ?h (f s) = Inr v" using that(3) [of s] s by (intro decode_discovered_fields [where s = s and s' = "f s"]) auto
  qed (use that in simp_all)
  have "\<exists>f. store_mapping t = on_slot ?q ?h f \<and> store_guest t = (\<lambda>g. g) \<and> (\<forall>s. sl_state (f s) = sl_state s
      \<and> (sl_flags (f s) AND NOT REJECTED = 0 \<or> sl_flags (f s) = sl_flags s) \<and> sl_tail (f s) = sl_tail s \<and> sl_kind (f s) = sl_kind s \<and> sl_queue (f s) = sl_queue s
      \<and> sl_head (f s) = sl_head s \<and> sl_available (f s) = sl_available s \<and> sl_offset (f s) = sl_offset s \<and> sl_length (f s) = sl_length s
      \<and> sl_attachment (f s) = sl_attachment s \<and> sl_discovery (f s) = sl_discovery s)"
    using assms by (auto simp: prepare_relaxed_def Let_def fun_eq_iff split: if_splits)
  then show ?thesis using q by blast
qed

lemma decode_prepared:
  assumes dec: "slot_decode c q h s = Inr (Some (DISCOVERED, e0))"
    and e: "en_request e = en_request e0" "en_discovery e = en_discovery e0" "en_attachment e = id_attachment (ca_identity c)"
      "en_serial e \<noteq> 0" "expected_mutation e = Some (en_mutation e)"
  shows "slot_decode c q h ((prepared_slot e s)\<lparr>sl_state := PREPARED\<rparr>) = Inr (Some (PREPARED, e))"
proof -
  let ?s = "(prepared_slot e s)\<lparr>sl_state := PREPARED\<rparr>"
  have st: "sl_state s = DISCOVERED" using slot_decode_Some(1) [OF dec] .
  have tail: "all_zero (sl_tail s)" using dec by (auto simp: slot_decode_def split: if_splits)
  obtain kind where kind: "Kind_try_from (sl_kind s) = Inr kind" "Request_validate (slot_request kind s) (ca_image_bytes c) = Inr ()"
    "decode_discovered c q h s (slot_request kind s) = Inr (Some (DISCOVERED, e0))"
    using dec st by (auto simp: slot_decode_def split: if_splits)
  have d: "slot_request kind s = en_request e0" "rq_queue (en_request e0) = q" "rq_head (en_request e0) = h"
    "sl_attachment s = id_attachment (ca_identity c)" "sl_discovery s \<noteq> 0" "sl_discovery s = en_discovery e0"
    using kind(3) by (auto simp: decode_discovered_def split: if_splits)
  have same: "slot_request kind ?s = en_request e" using d(1) e(1) by (simp add: slot_request_def prepared_slot_def)
  have built: "\<lparr>en_request = en_request e, en_serial = sl_serial ?s, en_mutation = sl_mutation ?s, en_boundary = sl_boundary ?s,
      en_attachment = sl_attachment ?s, en_rejected = (sl_flags ?s AND REJECTED \<noteq> 0), en_discovery = sl_discovery ?s\<rparr> = e"
    using d e by (cases e) (simp add: prepared_slot_def)
  have "decode_admitted c q h ?s (en_request e) = Inr (Some (PREPARED, e))"
    unfolding decode_admitted_def built Let_def using d e by (simp add: prepared_slot_def)
  then show ?thesis using tail kind(1,2) d(1) e(1) same by (simp add: slot_decode_def, simp add: prepared_slot_def)
qed

definition activate_effects :: "InflightEntry \<Rightarrow> effect list" where
  "activate_effects e = (let q = rq_queue (en_request e); h = rq_head (en_request e) in
     [(Relaxed, DescriptorCounter q h (en_serial e)), (Release, DescriptorInflight q h 1), (Release, SlotState q h ACTIVE)])"

text \<open>The entry that the admission of a discovered request issues.\<close>

definition issues :: "Carrier \<Rightarrow> InflightMapping \<Rightarrow> InflightEntry \<Rightarrow> InflightEntry \<Rightarrow> bool" where
  "issues c m e0 e \<longleftrightarrow> en_request e = en_request e0 \<and> en_discovery e = en_discovery e0 \<and> en_attachment e = id_attachment (ca_identity c)
     \<and> en_serial e = ih_serial (mp_header m) + 1 \<and> en_serial e \<le> u64_max \<and> en_boundary e = ih_mutation (mp_header m)
     \<and> en_mutation e = (if Request_mutates (en_request e) \<and> \<not> en_rejected e then ih_mutation (mp_header m) + 1 else 0)
     \<and> en_mutation e \<le> u64_max"

lemma prepared_recoverable:
  assumes settled: "settled c w" and lv: "live c (wo_mapping w) q h = Some (DISCOVERED, e0)" and iss: "issues c (wo_mapping w) e0 e"
  shows "recoverable c (run (prepare_stores e) w)"
    and "outstanding c (run (prepare_stores e) w) = set_at (outstanding c w) q h (Some (ToReplay e))"
    and "live c (wo_mapping (run (prepare_stores e) w)) = set_at (live c (wo_mapping w)) q h (Some (PREPARED, e))"
proof -
  note rec = settled_recoverable [OF settled] and range = live_in_range [OF lv]
  let ?m = "wo_mapping w" and ?f = "\<lambda>s. (prepared_slot e s)\<lparr>sl_state := PREPARED\<rparr>"
  have pos: "rq_queue (en_request e) = q" "rq_head (en_request e) = h" using iss live_Some(2,3) [OF lv] by (auto simp: issues_def)
  have w': "wo_mapping (run (prepare_stores e) w) = on_slot q h ?f ?m" "wo_guest (run (prepare_stores e) w) = wo_guest w"
    by (simp_all add: prepare_stores_split run_prepare_relaxed on_slot_twice pos)
  have "slot_decode c q h (mp_slots ?m q h) = Inr (Some (DISCOVERED, e0))" using slot_invD(1) [OF rec range] lv by simp
  then have dec': "slot_decode c q h (?f (mp_slots ?m q h)) = Inr (Some (PREPARED, e))"
    by (rule decode_prepared) (use iss in \<open>auto simp: issues_def expected_mutation_def split: if_splits\<close>)
  note lv' = live_on_slot [where s = ?f and m = ?m, OF range dec']
  show "live c (wo_mapping (run (prepare_stores e) w)) = set_at (live c ?m) q h (Some (PREPARED, e))" by (simp add: w' lv' set_at_def)
  have ok0: "entry_ok (mp_header ?m) (mp_queues ?m q) (mp_descriptors ?m q h) DISCOVERED e0" by (rule live_entry_ok [OF rec lv])
  have agree: "wo_guest w q = qh_used (mp_queues ?m q)"
    using settled ok0 in_range_0 [OF range] by (simp add: settled_def agreed_def entry_ok_def)
  show "recoverable c (run (prepare_stores e) w)"
  proof (rule recoverable_slot [OF rec range dec' w'])
    show "newest_inv c (on_slot q h ?f ?m)"
      by (rule newest_slot [OF _ lv']) (use rec lv iss in \<open>auto simp: recoverable_def issues_def\<close>)
    show "apart e' (snd x) \<and> apart (snd x) e'"
      if "Some (PREPARED, e) = Some (state, e')" "live c ?m q' h' = Some x" "(q', h') \<noteq> (q, h)" for state e' q' h' x
    proof -
      have "apart e0 (snd x) \<and> apart (snd x) e0" by (rule apart_others [OF rec lv that(2,3)])
      moreover have "en_serial (snd x) \<le> ih_serial (mp_header ?m)" "en_mutation (snd x) \<le> ih_mutation (mp_header ?m)"
        using settledD(3,4) [OF settled, of q' h' "fst x" "snd x"] that(2) by simp_all
      ultimately show ?thesis using that(1) iss by (auto simp: apart_def issues_def)
    qed
    show "entry_ok (mp_header ?m) (mp_queues ?m q) (mp_descriptors ?m q h) state e'" if "Some (PREPARED, e) = Some (state, e')" for state e'
      using that iss ok0 settledD(2) [OF settled lv] by (auto simp: issues_def entry_ok_def)
  qed (use agree in simp_all)
  show "outstanding c (run (prepare_stores e) w) = set_at (outstanding c w) q h (Some (ToReplay e))"
    by (subst outstanding_slot [OF range dec' w']) (simp add: set_at_def)
qed

lemma admit_discovered_atomic:
  assumes settled: "settled c w" and lv: "live c (wo_mapping w) q h = Some (DISCOVERED, e0)" and iss: "issues c (wo_mapping w) e0 e"
  shows "atomic c w (set_at (outstanding c w) q h (Some (ToReplay e))) (prepare_stores e @ activate_effects e @ finish_admission e)"
proof -
  let ?m = "wo_mapping w"
  note rec = settled_recoverable [OF settled] and range = live_in_range [OF lv]
  note p = prepared_recoverable [OF assms]
  have pos: "rq_queue (en_request e) = q" "rq_head (en_request e) = h" using iss live_Some(2,3) [OF lv] by (auto simp: issues_def)
  define w1 where "w1 = run (prepare_stores e) w"
  define w2 where "w2 = run (activate_effects e) w1"
  have fields: "mp_header (wo_mapping w1) = mp_header ?m" "mp_queues (wo_mapping w1) = mp_queues ?m"
    "mp_descriptors (wo_mapping w1) = mp_descriptors ?m" "wo_guest w1 = wo_guest w"
    by (simp_all add: w1_def prepare_stores_split run_prepare_relaxed)
  have lv1: "live c (wo_mapping w1) = set_at (live c ?m) q h (Some (PREPARED, e))" using p(3) by (simp add: w1_def)
  have "live c (wo_mapping w1) q h = Some (PREPARED, e)" by (simp add: lv1 set_at_def)
  note act = activate_step [OF p(1) [folded w1_def] this]
  have eff: "activate_effects e = [(Relaxed, DescriptorCounter q h (en_serial e)), (Release, DescriptorInflight q h 1), (Release, SlotState q h ACTIVE)]"
    by (simp add: activate_effects_def Let_def pos)
  have act: "safe_run c (activate_effects e) w1" "only_at c {(q, h)} w1 w2" "live c (wo_mapping w2) q h = Some (ACTIVE, e)"
    "de_inflight (mp_descriptors (wo_mapping w2) q h) = 1"
    using act by (simp_all add: eff w2_def)
  have rec2: "recoverable c w2" using act(1) by (simp add: safe_run_def keeps_def w2_def)
  have hd2: "mp_header (wo_mapping w2) = mp_header ?m" using act(2) by (simp add: only_at_def fields)
  let ?hm = "max (en_mutation e) (en_boundary e)"
  have k1: "keeps c w2 (store (HeaderSerial (en_serial e)) w2)"
    by (rule keeps_header_serial [OF rec2]) (use iss in \<open>simp add: hd2 issues_def\<close>)
  have k2: "keeps c (store (HeaderSerial (en_serial e)) w2) (store (HeaderMutation ?hm) (store (HeaderSerial (en_serial e)) w2))"
    by (rule keeps_header_mutation [OF keeps_recoverable [OF k1]]) (use iss in \<open>simp add: hd2 issues_def\<close>)
  have fin: "safe_run c (finish_admission e) w2" unfolding finish_admission_def
    by (rule safe_run_Cons [OF rec2 k1 safe_run_release [OF keeps_recoverable [OF k1] k2]])
  define w3 where "w3 = run (finish_admission e) w2"
  have w3: "live c (wo_mapping w3) = live c (wo_mapping w2)" "wo_guest w3 = wo_guest w" "mp_queues (wo_mapping w3) = mp_queues ?m"
    "mp_descriptors (wo_mapping w3) = mp_descriptors (wo_mapping w2)"
    "mp_header (wo_mapping w3) = mp_header ?m\<lparr>ih_serial := en_serial e, ih_mutation := ?hm\<rparr>"
    using act(2) by (simp_all add: w3_def finish_admission_def hd2 only_at_def fields)
  have "settled c w3" unfolding settled_def
  proof (intro conjI allI impI)
    show "recoverable c w3" using fin by (simp add: safe_run_def keeps_def w3_def)
    show "agreed c w3" using settled by (simp add: settled_def agreed_def w3)
    fix q' h' state e' assume l: "live c (wo_mapping w3) q' h' = Some (state, e')"
    consider (this) "(q', h') = (q, h)" "state = ACTIVE" "e' = e"
      | (other) "live c ?m q' h' = Some (state, e')" "mp_descriptors (wo_mapping w3) q' h' = mp_descriptors ?m q' h'"
    proof (cases "(q', h') = (q, h)")
      case True
      then show thesis using l act(3) that(1) by (simp add: w3)
    next
      case False
      then have "live c (wo_mapping w2) q' h' = live c ?m q' h'" "mp_descriptors (wo_mapping w2) q' h' = mp_descriptors ?m q' h'"
        using act(2) by (auto simp: only_at_def lv1 set_at_def fields)
      then show thesis using l that(2) by (simp add: w3)
    qed
    note cases = this
    show "state = DISCOVERED \<or> (state = ACTIVE \<and> de_inflight (mp_descriptors (wo_mapping w3) q' h') = 1)"
      using cases
    proof cases
      case other
      then show ?thesis using settledD(1) [OF settled other(1)] by simp
    qed (use act(4) in \<open>simp add: w3\<close>)
    have "en_discovery e' \<le> ih_discovery (mp_header ?m) \<and> en_serial e' \<le> en_serial e \<and> en_mutation e' \<le> ?hm
      \<and> (en_discovery e' = ih_discovery (mp_header ?m) \<longrightarrow> of_nat (ih_available (mp_header ?m) q') = rq_available (en_request e') + 1)"
      using cases
    proof cases
      case this
      then show ?thesis using settledD(2,5) [OF settled lv] iss by (auto simp: issues_def)
    next
      case other
      then show ?thesis using settledD(2-5) [OF settled other(1)] iss by (auto simp: issues_def)
    qed
    then show "en_discovery e' \<le> ih_discovery (mp_header (wo_mapping w3))" "en_serial e' \<le> ih_serial (mp_header (wo_mapping w3))"
      "en_mutation e' \<le> ih_mutation (mp_header (wo_mapping w3))"
      "en_discovery e' = ih_discovery (mp_header (wo_mapping w3)) \<Longrightarrow>
        of_nat (ih_available (mp_header (wo_mapping w3)) q') = rq_available (en_request e') + 1" by (simp_all add: w3)
  qed
  have eq: "prepare_stores e @ activate_effects e @ finish_admission e =
      prepare_relaxed e @ (Release, SlotState q h PREPARED) # (activate_effects e @ finish_admission e)"
    and one: "prepare_relaxed e @ [(Release, SlotState q h PREPARED)] = prepare_stores e"
    by (simp_all add: prepare_stores_split pos)
  have st: "sl_state (mp_slots ?m q h) = DISCOVERED" using slot_decode_Some(1) slot_invD(1) [OF rec range] lv by metis
  show ?thesis unfolding eq
  proof (rule atomic_commit)
    show "\<forall>x \<in> set (prepare_relaxed e). fst x = Relaxed" by (simp add: prepare_relaxed_def Let_def)
    show "keeps c w (run xs w)" if "set xs \<subseteq> set (prepare_relaxed e)" for xs
      by (rule quiet_keeps [where P = "\<lambda>s. sl_state s = DISCOVERED", OF rec range st])
        (use that prepare_relaxed_quiet [of _ e, unfolded pos] in blast)
    show "safe_run c (activate_effects e @ finish_admission e) (run (prepare_relaxed e @ [(Release, SlotState q h PREPARED)]) w)"
      unfolding one using safe_run_append [OF act(1)] fin by (simp add: w1_def w2_def)
    show "settled c (run (activate_effects e @ finish_admission e) (run (prepare_relaxed e @ [(Release, SlotState q h PREPARED)]) w))"
      unfolding one using \<open>settled c w3\<close> by (simp add: w1_def w2_def w3_def)
  qed (unfold one, use p in simp_all)
qed

lemma run_mapping_run: "wo_mapping (run es w) = run_mapping es (wo_mapping w)"
  by (induction es arbitrary: w) (simp_all add: run_mapping_def)

lemma read_slot_live:
  assumes "recoverable c w" and "in_range c q h"
  shows "Carrier_read_slot c (wo_mapping w) q h = Inr (live c (wo_mapping w) q h)"
  using slot_invD(1) [OF assms] assms(2) by (simp add: Carrier_read_slot_def Geometry_check_in_range)

lemma prepare_discovered_Inr:
  assumes "prepare_discovered c m request rejected serial mutation boundary = (es, Inr e)"
  obtains e0 where "Carrier_read_slot c m (rq_queue request) (rq_head request) = Inr (Some (DISCOVERED, e0))" "en_request e0 = request"
    "e = \<lparr>en_request = request, en_serial = serial, en_mutation = mutation, en_boundary = boundary,
       en_attachment = id_attachment (ca_identity c), en_rejected = rejected, en_discovery = en_discovery e0\<rparr>" "es = prepare_stores e"
  using assms by (auto simp: prepare_discovered_def guarded_def Let_def ok_or_def split: sum.splits if_splits option.splits prod.splits)

text \<open>Admission in one piece: the discovery it may need, then the preparation, activation and the counters.\<close>

lemma admit_outcome_Inr:
  assumes "Carrier_admit_outcome c m request rejected = (es, Inr e)"
  obtains ds ps where
    "if sl_state (mp_slots m (rq_queue request) (rq_head request)) = EMPTY then \<exists>d. Carrier_discover c m request = (ds, Inr d) else ds = []"
    "prepare_discovered c (run_mapping ds m) request rejected (ih_serial (mp_header m) + 1)
      (if Request_mutates request \<and> \<not> rejected then ih_mutation (mp_header m) + 1 else 0) (ih_mutation (mp_header m)) = (ps, Inr e)"
    "ih_serial (mp_header m) + 1 \<le> u64_max" "Request_mutates request \<and> \<not> rejected \<Longrightarrow> ih_mutation (mp_header m) + 1 \<le> u64_max"
    "es = ds @ ps @ activate_effects e @ finish_admission e" "in_range c (rq_queue request) (rq_head request)"
proof -
  define disc where "disc = (if sl_state (mp_slots m (rq_queue request) (rq_head request)) = EMPTY
    then Carrier_discover c m request else ([], Inr 0))"
  have full: "Carrier_admit_observed c m request rejected (Inr ()) (Inr ()) = (es, Inr e)"
    using assms by (simp add: Carrier_admit_outcome_def)
  obtain ps0 where prep: "Carrier_prepare c m request rejected = (ps0, Inr e)" and tail: "in_range c (rq_queue (en_request e)) (rq_head (en_request e))"
    "es = ps0 @ activate_effects e @ finish_admission e"
    using full by (cases "Carrier_prepare c m request rejected"; cases "snd (Carrier_prepare c m request rejected)")
      (auto simp: Carrier_admit_observed_def and_then_def guarded_def Carrier_activate_def activate_effects_def Let_def split: sum.splits)
  have range: "in_range c (rq_queue request) (rq_head request)" and counters: "ih_serial (mp_header m) + 1 \<le> u64_max"
    "Request_mutates request \<and> \<not> rejected \<Longrightarrow> ih_mutation (mp_header m) + 1 \<le> u64_max"
    and rest: "and_then disc (\<lambda>_. prepare_discovered c (if sl_state (mp_slots m (rq_queue request) (rq_head request)) = EMPTY
        then run_mapping (fst (Carrier_discover c m request)) m else m) request rejected (ih_serial (mp_header m) + 1)
        (if Request_mutates request \<and> \<not> rejected then ih_mutation (mp_header m) + 1 else 0) (ih_mutation (mp_header m))) = (ps0, Inr e)"
    using prep unfolding disc_def
    by (auto simp: Carrier_prepare_def guarded_def Let_def nchecked_add_def split: sum.splits if_splits)
  obtain ds x where disc: "disc = (ds, Inr x)" using rest by (cases disc; cases "snd disc") (auto simp: and_then_def)
  have run: "(if sl_state (mp_slots m (rq_queue request) (rq_head request)) = EMPTY
        then run_mapping (fst (Carrier_discover c m request)) m else m) = run_mapping ds m"
    using disc by (auto simp: disc_def run_mapping_def split: if_splits)
  obtain ps where ps: "prepare_discovered c (run_mapping ds m) request rejected (ih_serial (mp_header m) + 1)
      (if Request_mutates request \<and> \<not> rejected then ih_mutation (mp_header m) + 1 else 0) (ih_mutation (mp_header m)) = (ps, Inr e)"
    "ps0 = ds @ ps"
    using rest unfolding run disc and_then_def by (auto simp: prod_eq_iff)
  show thesis
  proof (rule that [of ds ps])
    show "if sl_state (mp_slots m (rq_queue request) (rq_head request)) = EMPTY then \<exists>d. Carrier_discover c m request = (ds, Inr d) else ds = []"
      using disc by (auto simp: disc_def)
  qed (use ps counters tail range in auto)
qed

lemma admit_atomic:
  assumes settled: "settled c w" and op: "Carrier_admit_outcome c (wo_mapping w) request rejected = (es, Inr e)"
  defines "q \<equiv> rq_queue request" and "h \<equiv> rq_head request"
  shows "settled c (run es w)" and "sealed es" and "outstanding c (run es w) = set_at (outstanding c w) q h (Some (ToReplay e))"
    and "crash_safe (\<lambda>w'. recoverable c w' \<and> outstanding c w' \<in> {outstanding c w,
      set_at (outstanding c w) q h (Some (ToAdmit (en_discovery e) request)), set_at (outstanding c w) q h (Some (ToReplay e))}) es w"
    and "en_request e = request" "en_rejected e = rejected"
proof -
  let ?m = "wo_mapping w"
  let ?P = "\<lambda>w'. recoverable c w' \<and> outstanding c w' \<in> {outstanding c w,
      set_at (outstanding c w) q h (Some (ToAdmit (en_discovery e) request)), set_at (outstanding c w) q h (Some (ToReplay e))}"
  obtain ds ps where ds: "if sl_state (mp_slots ?m q h) = EMPTY then \<exists>d. Carrier_discover c ?m request = (ds, Inr d) else ds = []"
    and ps: "prepare_discovered c (run_mapping ds ?m) request rejected (ih_serial (mp_header ?m) + 1)
      (if Request_mutates request \<and> \<not> rejected then ih_mutation (mp_header ?m) + 1 else 0) (ih_mutation (mp_header ?m)) = (ps, Inr e)"
    and ctr: "ih_serial (mp_header ?m) + 1 \<le> u64_max" "Request_mutates request \<and> \<not> rejected \<Longrightarrow> ih_mutation (mp_header ?m) + 1 \<le> u64_max"
    and es: "es = ds @ ps @ activate_effects e @ finish_admission e" and range: "in_range c q h"
    using admit_outcome_Inr [OF op] unfolding q_def h_def by metis
  define w1 where "w1 = run ds w"
  obtain e0 where e0: "Carrier_read_slot c (wo_mapping w1) q h = Inr (Some (DISCOVERED, e0))" "en_request e0 = request"
    "e = \<lparr>en_request = request, en_serial = ih_serial (mp_header ?m) + 1,
      en_mutation = (if Request_mutates request \<and> \<not> rejected then ih_mutation (mp_header ?m) + 1 else 0), en_boundary = ih_mutation (mp_header ?m),
      en_attachment = id_attachment (ca_identity c), en_rejected = rejected, en_discovery = en_discovery e0\<rparr>" and p: "ps = prepare_stores e"
    using prepare_discovered_Inr [OF ps] unfolding w1_def run_mapping_run q_def h_def by metis
  show "en_request e = request" "en_rejected e = rejected" using e0(3) by simp_all
  have first: "settled c w1 \<and> sealed ds \<and> crash_safe ?P ds w \<and> ih_serial (mp_header (wo_mapping w1)) = ih_serial (mp_header ?m)
    \<and> ih_mutation (mp_header (wo_mapping w1)) = ih_mutation (mp_header ?m)
    \<and> outstanding c w1 \<in> {outstanding c w, set_at (outstanding c w) q h (Some (ToAdmit (en_discovery e) request))}"
  proof (cases "sl_state (mp_slots ?m q h) = EMPTY")
    case True
    then obtain d where d: "Carrier_discover c ?m request = (ds, Inr d)" using ds by auto
    note da = discover_atomic [OF settled d, folded q_def h_def w1_def]
    have rec1: "recoverable c w1" using da(1) by (simp add: atomic_def w1_def settled_recoverable)
    have "live c (wo_mapping w1) q h = Some (DISCOVERED, e0)" using e0(1) read_slot_live [OF rec1 range] by simp
    then have "e0 = discovered_entry c request d" using da(2) by simp
    then have "en_discovery e = d" using e0(3) by (simp add: discovered_entry_def)
    moreover have "crash_safe ?P ds w"
      by (rule crash_safe_mono [OF conjunct2 [OF conjunct2 [OF conjunct2 [OF da(1) [unfolded atomic_def]]]]]) (use calculation in auto)
    ultimately show ?thesis using da by (simp add: atomic_def w1_def)
  next
    case False
    then show ?thesis using ds settled by (simp add: w1_def sealed_def settled_recoverable)
  qed
  have lv1: "live c (wo_mapping w1) q h = Some (DISCOVERED, e0)"
    using e0(1) read_slot_live [OF settled_recoverable range] first by simp
  have iss: "issues c (wo_mapping w1) e0 e" using e0(2,3) ctr first by (auto simp: issues_def)
  note adm = admit_discovered_atomic [OF conjunct1 [OF first] lv1 iss, folded p]
  have out: "set_at (outstanding c w1) q h x = set_at (outstanding c w) q h x" for x using first by (auto simp: set_at_def)
  have "crash_safe ?P (ps @ activate_effects e @ finish_admission e) w1"
    by (rule crash_safe_mono [OF conjunct2 [OF conjunct2 [OF conjunct2 [OF adm [unfolded atomic_def]]]]]) (use first out in auto)
  then show "crash_safe ?P es w" unfolding es w1_def
    by (intro crash_safe_append [where es = ds]) (use first in \<open>auto simp: sealed_def\<close>)
  show "settled c (run es w)" "sealed es" "outstanding c (run es w) = set_at (outstanding c w) q h (Some (ToReplay e))"
    using adm first out by (auto simp: es atomic_def w1_def intro: sealed_append)
qed

end
