(* ===== verification/Inflight_Lifecycle.thy ===== *)
theory Inflight_Lifecycle
  imports Inflight_Operations
begin

text \<open>
  The life of an inflight carrier: completion, publication and the queues, every history of operations, deaths and
  reconciliations, and the properties of all of them.
\<close>

section \<open>Completion\<close>

lemma guest_publication:
  assumes rec: "recoverable c w" and lv: "live c (wo_mapping w) q h = Some (ACTIVE, e)"
    and last: "qh_last_head (mp_queues (wo_mapping w) q) = h" and used: "wo_guest w q = qh_used (mp_queues (wo_mapping w) q)"
    and ret: "retirable (mp_header (wo_mapping w)) e"
  shows "recoverable c (store (GuestUsed q (qh_used (mp_queues (wo_mapping w) q) + 1)) w)"
    and "outstanding c (store (GuestUsed q (qh_used (mp_queues (wo_mapping w) q) + 1)) w) = set_at (outstanding c w) q h None"
proof -
  let ?w = "store (GuestUsed q (qh_used (mp_queues (wo_mapping w) q) + 1)) w"
  have guest: "guest_inv c ?w" using rec lv last ret by (auto simp: recoverable_def guest_inv_def)
  show "recoverable c ?w" using rec guest by (simp add: recoverable_def)
  show "outstanding c ?w = set_at (outstanding c w) q h None"
  proof (intro ext)
    fix q' h'
    show "outstanding c ?w q' h' = set_at (outstanding c w) q h None q' h'"
      using lv last used by (cases "live c (wo_mapping w) q' h'") (auto simp: outstanding_def set_at_def)
  qed
qed

lemma prepare_completion_Inr:
  assumes "prepare_completion c m e used failed = (es, Inr x)"
  shows "Carrier_read_slot c m (rq_queue (en_request e)) (rq_head (en_request e)) = Inr (Some (ACTIVE, e))"
    "qh_used (mp_queues m (rq_queue (en_request e))) = used"
    "\<not> failed \<Longrightarrow> required_publication e \<le> ih_published (mp_header m)"
    "es = [(Relaxed, DescriptorNext (rq_queue (en_request e)) (rq_head (en_request e)) (rq_head (en_request e))),
      (Release, QueueLastHead (rq_queue (en_request e)) (rq_head (en_request e)))]"
  using assms
  by (auto simp: prepare_completion_def guarded_def Let_def ok_or_def Carrier_published_def split: sum.splits if_splits option.splits prod.splits)

definition publish_guest :: "nat \<Rightarrow> u16 \<Rightarrow> unit op" where
  "publish_guest q used = ([(Release, GuestUsed q used)], Inr ())"

lemma complete_Inr:
  assumes "Carrier_complete c m e used (publish_guest q (used + 1)) = (es, Inr x)" and "rq_queue (en_request e) = q"
  obtains "prepare_completion c m e used False = ([(Relaxed, DescriptorNext q (rq_head (en_request e)) (rq_head (en_request e))),
      (Release, QueueLastHead q (rq_head (en_request e)))], Inr ())"
    "es = [(Relaxed, DescriptorNext q (rq_head (en_request e)) (rq_head (en_request e))), (Release, QueueLastHead q (rq_head (en_request e)))]
      @ (Release, GuestUsed q (used + 1)) # retire e (used + 1)"
proof -
  obtain ps where prep: "prepare_completion c m e used False = (ps, Inr ())" and rest: "snd (finish_completion c e (used + 1)) = Inr ()"
    "es = ps @ (Release, GuestUsed q (used + 1)) # fst (finish_completion c e (used + 1))"
    using assms(1) by (cases "prepare_completion c m e used False"; cases "snd (prepare_completion c m e used False)")
      (auto simp: Carrier_complete_def and_then_def publish_guest_def)
  have "fst (finish_completion c e (used + 1)) = retire e (used + 1)"
    using rest(1) by (auto simp: finish_completion_def retire_def guarded_def Let_def Geometry_check_in_range split: sum.splits)
  then show thesis using that prep rest(2) prepare_completion_Inr(4) [OF prep] assms(2) by simp
qed

lemma complete_atomic:
  assumes settled: "settled c w" and q: "rq_queue (en_request e) = q" and h: "rq_head (en_request e) = h"
    and op: "Carrier_complete c (wo_mapping w) e used (publish_guest q (used + 1)) = (es, Inr x)"
  shows "atomic c w (set_at (outstanding c w) q h None) es" and "outstanding c w q h = Some (ToReplay e)"
proof -
  let ?m = "wo_mapping w"
  note rec = settled_recoverable [OF settled]
  obtain prep: "prepare_completion c ?m e used False = ([(Relaxed, DescriptorNext q h h), (Release, QueueLastHead q h)], Inr ())"
    and es: "es = [(Relaxed, DescriptorNext q h h), (Release, QueueLastHead q h)] @ (Release, GuestUsed q (used + 1)) # retire e (used + 1)"
    using complete_Inr [OF op q] h by metis
  note p = prepare_completion_Inr [OF prep, unfolded q h]
  have range: "in_range c q h" using p(1) by (auto simp: Carrier_read_slot_def)
  have lv: "live c ?m q h = Some (ACTIVE, e)" using p(1) read_slot_live [OF rec range] by simp
  note ok = live_entry_ok [OF rec lv]
  have used: "wo_guest w q = used" "qh_used (mp_queues ?m q) = used"
    using settled ok in_range_0 [OF range] p(2) by (auto simp: settled_def agreed_def entry_ok_def)
  have ret: "retirable (mp_header ?m) e" using p(3) settledD(3) [OF settled lv] by (simp add: retirable_def)
  have inflight: "de_inflight (mp_descriptors ?m q h) = 1" using settledD(1) [OF settled lv] by simp
  show "outstanding c w q h = Some (ToReplay e)" using lv inflight used by (simp add: outstanding_def)
  define w1 where "w1 = store (QueueLastHead q h) (store (DescriptorNext q h h) w)"
  define w2 where "w2 = store (GuestUsed q (used + 1)) w1"
  have quiet: "keeps c w (run ps w)" if "set ps \<subseteq> {(Relaxed, DescriptorNext q h h)}" for ps
  proof -
    have "keeps c x (run ps x)" if "recoverable c x" for x using that \<open>set ps \<subseteq> {(Relaxed, DescriptorNext q h h)}\<close>
    proof (induction ps arbitrary: x)
      case (Cons a ps)
      then have a: "a = (Relaxed, DescriptorNext q h h)" by simp
      have k: "keeps c x (store (DescriptorNext q h h) x)" by (rule keeps_descriptor_next [OF Cons.prems(1) range])
      show ?case using keeps_trans [OF k Cons.IH [OF keeps_recoverable [OF k]]] Cons.prems(2) a by simp
    qed (simp add: keeps_refl)
    then show ?thesis using rec by blast
  qed
  have k0: "keeps c w (store (DescriptorNext q h h) w)" by (rule keeps_descriptor_next [OF rec range])
  have k1: "keeps c (store (DescriptorNext q h h) w) w1" unfolding w1_def
    by (rule keeps_queue_last_head [OF keeps_recoverable [OF k0] range]) (simp add: used)
  have k: "keeps c w w1" by (rule keeps_trans [OF k0 k1])
  have lv1: "live c (wo_mapping w1) q h = Some (ACTIVE, e)" using lv by (simp add: w1_def)
  note pub = guest_publication [OF keeps_recoverable [OF k] lv1]
  have rec2: "recoverable c w2" and out2: "outstanding c w2 = set_at (outstanding c w) q h None"
    using pub ret used k by (simp_all add: w1_def w2_def keeps_def)
  have fin: "finished c w2 q = Some (e, used + 1)"
    using ok lv used by (simp add: finished_def w1_def w2_def entry_ok_def)
  note r = retire_step [OF rec2 in_range_0 [OF range] fin, unfolded h]
  define w3 where "w3 = run (retire e (used + 1)) w2"
  have f3: "mp_header (wo_mapping w3) = mp_header ?m" "wo_guest w3 = (wo_guest w)(q := used + 1)"
    "mp_queues (wo_mapping w3) = (mp_queues ?m)(q := (mp_queues ?m q)\<lparr>qh_last_head := h, qh_used := used + 1\<rparr>)"
    "live c (wo_mapping w3) = set_at (live c ?m) q h None"
    "\<And>q' h'. (q', h') \<noteq> (q, h) \<Longrightarrow> de_inflight (mp_descriptors (wo_mapping w3) q' h') = de_inflight (mp_descriptors ?m q' h')"
    using r by (simp_all add: w3_def) (auto simp: w1_def w2_def set_at_def)
  have set3: "settled c w3" unfolding settled_def
  proof (intro conjI allI impI)
    show "recoverable c w3" using r(1) by (simp add: safe_run_def keeps_def w3_def)
    show "agreed c w3" using settled by (auto simp: settled_def agreed_def f3)
    fix q' h' state e' assume "live c (wo_mapping w3) q' h' = Some (state, e')"
    then have old: "live c ?m q' h' = Some (state, e')" and ne: "(q', h') \<noteq> (q, h)"
      by (auto simp: f3(4) set_at_def split: if_splits)
    note s = settledD [OF settled old]
    show "state = DISCOVERED \<or> (state = ACTIVE \<and> de_inflight (mp_descriptors (wo_mapping w3) q' h') = 1)"
      using s(1) f3(5) [OF ne] by simp
    show "en_discovery e' \<le> ih_discovery (mp_header (wo_mapping w3))" "en_serial e' \<le> ih_serial (mp_header (wo_mapping w3))"
      "en_mutation e' \<le> ih_mutation (mp_header (wo_mapping w3))"
      "en_discovery e' = ih_discovery (mp_header (wo_mapping w3)) \<Longrightarrow>
        of_nat (ih_available (mp_header (wo_mapping w3)) q') = rq_available (en_request e') + 1"
      using s(2-5) by (simp_all add: f3(1))
  qed
  let ?P = "\<lambda>w'. recoverable c w' \<and> (outstanding c w' = outstanding c w \<or> outstanding c w' = set_at (outstanding c w) q h None)"
  have "crash_safe ?P (retire e (used + 1)) w2"
    by (rule crash_safe_mono [where P = "keeps c w2"]) (use r(1) out2 in \<open>auto simp: safe_run_def keeps_def\<close>)
  then have "crash_safe ?P ((Release, QueueLastHead q h) # (Release, GuestUsed q (used + 1)) # retire e (used + 1))
      (run [(Relaxed, DescriptorNext q h h)] w)"
    using k0 k by (simp add: w1_def w2_def keeps_def)
  then have "crash_safe ?P ([(Relaxed, DescriptorNext q h h)] @ (Release, QueueLastHead q h) # (Release, GuestUsed q (used + 1)) # retire e (used + 1)) w"
    by (intro crash_safe_relaxed) (use quiet in \<open>auto simp: keeps_def\<close>)
  moreover have "run es w = w3" by (simp add: es w1_def w2_def w3_def)
  moreover have "outstanding c w3 = set_at (outstanding c w) q h None" using r(1) out2 by (simp add: safe_run_def keeps_def w3_def)
  moreover have "sealed es" by (simp add: es sealed_def retire_def Let_def)
  ultimately show "atomic c w (set_at (outstanding c w) q h None) es" using set3 by (simp add: atomic_def es)
qed

section \<open>Publication, queues and creation\<close>

lemma settled_header:
  assumes settled: "settled c w" and rec: "recoverable c w'"
    and same: "live c (wo_mapping w') = live c (wo_mapping w)" "wo_guest w' = wo_guest w"
      "\<And>q. qh_version (mp_queues (wo_mapping w') q) = 1 \<Longrightarrow> qh_version (mp_queues (wo_mapping w) q) = 1 \<and>
         qh_used (mp_queues (wo_mapping w') q) = qh_used (mp_queues (wo_mapping w) q) \<or> wo_guest w q = qh_used (mp_queues (wo_mapping w') q)"
      "mp_descriptors (wo_mapping w') = mp_descriptors (wo_mapping w)"
    and counters: "ih_discovery (mp_header (wo_mapping w')) = ih_discovery (mp_header (wo_mapping w))"
      "ih_serial (mp_header (wo_mapping w')) = ih_serial (mp_header (wo_mapping w))"
      "ih_mutation (mp_header (wo_mapping w')) = ih_mutation (mp_header (wo_mapping w))"
      "\<And>q h x. live c (wo_mapping w) q h = Some x \<Longrightarrow> ih_available (mp_header (wo_mapping w')) q = ih_available (mp_header (wo_mapping w)) q"
  shows "settled c w'"
  unfolding settled_def
proof (intro conjI allI impI)
  show "agreed c w'" unfolding agreed_def
  proof (intro allI impI)
    fix q assume "in_range c q 0" "qh_version (mp_queues (wo_mapping w') q) = 1"
    then show "wo_guest w' q = qh_used (mp_queues (wo_mapping w') q)"
      using settled same(3) [of q] unfolding settled_def agreed_def same(2) by metis
  qed
  fix q h state e assume "live c (wo_mapping w') q h = Some (state, e)"
  then have lv: "live c (wo_mapping w) q h = Some (state, e)" by (simp add: same)
  note s = settledD [OF settled lv]
  show "state = DISCOVERED \<or> (state = ACTIVE \<and> de_inflight (mp_descriptors (wo_mapping w') q h) = 1)" using s(1) by (simp add: same)
  show "en_discovery e \<le> ih_discovery (mp_header (wo_mapping w'))" "en_serial e \<le> ih_serial (mp_header (wo_mapping w'))"
    "en_mutation e \<le> ih_mutation (mp_header (wo_mapping w'))" using s by (simp_all add: counters)
  show "of_nat (ih_available (mp_header (wo_mapping w')) q) = rq_available (en_request e) + 1"
    if "en_discovery e = ih_discovery (mp_header (wo_mapping w'))" using s(5) that counters(4) [OF lv] by (simp add: counters(1))
qed (rule rec)

lemma publish_atomic:
  assumes settled: "settled c w" and op: "Carrier_publish (wo_mapping w) p = (es, Inr x)"
  shows "atomic c w (outstanding c w) es" and "ih_published (mp_header (wo_mapping (run es w))) = p"
proof -
  note rec = settled_recoverable [OF settled]
  have es: "es = [(Release, HeaderPublished p)]" and p: "ih_published (mp_header (wo_mapping w)) \<le> p" "p \<le> ih_mutation (mp_header (wo_mapping w))"
    using op by (auto simp: Carrier_publish_def guarded_def Carrier_published_def split: sum.splits if_splits)
  have k: "keeps c w (store (HeaderPublished p) w)" by (rule keeps_header_published [OF rec p])
  have "settled c (store (HeaderPublished p) w)" by (rule settled_header [OF settled keeps_recoverable [OF k]]) simp_all
  then show "atomic c w (outstanding c w) es" using k rec by (simp add: es atomic_def sealed_def keeps_def)
  show "ih_published (mp_header (wo_mapping (run es w))) = p" by (simp add: es)
qed

lemma no_live_off:
  assumes "recoverable c w" and "qh_version (mp_queues (wo_mapping w) q) \<noteq> 1"
  shows "live c (wo_mapping w) q h = None"
proof (cases "live c (wo_mapping w) q h")
  case (Some x)
  then show ?thesis using live_entry_ok [OF assms(1), of q h "fst x" "snd x"] assms(2) by (simp add: entry_ok_def)
qed

text \<open>Stores to the header of a queue with nothing live in it.\<close>

lemma keeps_queue_idle:
  assumes rec: "recoverable c w" and idle: "\<And>h. live c (wo_mapping w) q h = None"
    and w': "wo_mapping w' = on_queue q f (wo_mapping w)" "wo_guest w' = wo_guest w"
    and ok: "queue_header_ok (ca_geometry c) (f (mp_queues (wo_mapping w) q))"
    and guest: "qh_version (f (mp_queues (wo_mapping w) q)) = 1 \<Longrightarrow> wo_guest w q = qh_used (f (mp_queues (wo_mapping w) q))"
  shows "keeps c w w'"
  unfolding keeps_def recoverable_def
proof (intro conjI)
  show "outstanding c w' = outstanding c w"
  proof (intro ext)
    fix q' h
    show "outstanding c w' q' h = outstanding c w q' h" using idle by (cases "q' = q") (simp_all add: outstanding_def w')
  qed
  show "live_inv c (wo_mapping w')" unfolding live_inv_def
  proof (intro allI impI)
    fix q' h state e assume "live c (wo_mapping w') q' h = Some (state, e)"
    then have "live c (wo_mapping w) q' h = Some (state, e)" "q' \<noteq> q" using idle by (auto simp: w')
    then show "entry_ok (mp_header (wo_mapping w')) (mp_queues (wo_mapping w') q') (mp_descriptors (wo_mapping w') q' h) state e"
      using live_entry_ok [OF rec] by (simp add: w')
  qed
  show "queue_inv c (wo_mapping w')" using rec ok by (auto simp: recoverable_def queue_inv_def w')
  show "guest_inv c w'" unfolding guest_inv_def
  proof (intro allI impI)
    fix q' assume "in_range c q' 0" "qh_version (mp_queues (wo_mapping w') q') = 1"
    then show "wo_guest w' q' = qh_used (mp_queues (wo_mapping w') q')
     \<or> (wo_guest w' q' = qh_used (mp_queues (wo_mapping w') q') + 1
        \<and> (\<exists>e. live c (wo_mapping w') q' (qh_last_head (mp_queues (wo_mapping w') q')) = Some (ACTIVE, e)
             \<and> retirable (mp_header (wo_mapping w')) e))"
      using rec guest by (cases "q' = q") (auto simp: recoverable_def guest_inv_def w')
  qed
qed (use rec in \<open>simp_all add: recoverable_def header_inv_def slot_inv_def distinct_inv_def newest_inv_def
    validate_header_def Carrier_published_def Carrier_healthy_def w'\<close>)

lemma keeps_available_idle:
  assumes "recoverable c w" and "in_range c q 0" and "\<And>h. live c (wo_mapping w) q h = None"
  shows "keeps c w (store (HeaderAvailable q (unat (a :: u16))) w)"
  by (rule keeps_header_available [OF assms(1,2)]) (use unsigned_less [of a] assms(3) in simp_all)

lemma initialize_atomic:
  assumes settled: "settled c w" and op: "Carrier_initialize_queue c (wo_mapping w) q a used = (es, Inr x)" and used: "used = wo_guest w q"
  shows "atomic c w (outstanding c w) es"
proof -
  let ?N = "ge_queue_size (ca_geometry c)" and ?m = "wo_mapping w"
  note rec = settled_recoverable [OF settled]
  have range: "in_range c q 0" and off: "qh_version (mp_queues ?m q) = 0"
    and es: "es = [(Relaxed, QueueDescriptors q ?N), (Relaxed, QueueUsed q used), (Relaxed, HeaderAvailable q (unat a))] @ (Release, QueueVersion q 1) # []"
    using op by (auto simp: Carrier_initialize_queue_def guarded_def split: sum.splits if_splits)
  let ?rs = "[(Relaxed, QueueDescriptors q ?N), (Relaxed, QueueUsed q used), (Relaxed, HeaderAvailable q (unat a))]"
  have quiet: "keeps c y (run ps y)" if "recoverable c y" "qh_version (mp_queues (wo_mapping y) q) = 0" "set ps \<subseteq> set ?rs" for ps y
    using that
  proof (induction ps arbitrary: y)
    case (Cons p ps)
    have idle: "live c (wo_mapping y) q h = None" for h using no_live_off [OF Cons.prems(1)] Cons.prems(2) by simp
    have ok: "queue_header_ok (ca_geometry c) (mp_queues (wo_mapping y) q)"
      using Cons.prems(1) range by (simp add: recoverable_def queue_inv_def)
    consider "p = (Relaxed, QueueDescriptors q ?N)" | "p = (Relaxed, QueueUsed q used)" | "p = (Relaxed, HeaderAvailable q (unat a))"
      using Cons.prems(3) by auto
    then have k: "keeps c y (store (snd p) y) \<and> qh_version (mp_queues (wo_mapping (store (snd p) y)) q) = 0"
    proof cases
      case 1
      have "keeps c y (store (QueueDescriptors q ?N) y)"
        by (rule keeps_queue_idle [OF Cons.prems(1) idle, where f = "qh_descriptors_update (\<lambda>_. ?N)"])
          (use ok Cons.prems(2) in \<open>auto simp: queue_header_ok_def Let_def\<close>)
      then show ?thesis using 1 Cons.prems(2) by simp
    next
      case 2
      have "keeps c y (store (QueueUsed q used) y)"
        by (rule keeps_queue_idle [OF Cons.prems(1) idle, where f = "qh_used_update (\<lambda>_. used)"])
          (use ok Cons.prems(2) in \<open>auto simp: queue_header_ok_def Let_def\<close>)
      then show ?thesis using 2 Cons.prems(2) by simp
    next
      case 3
      then show ?thesis using keeps_available_idle [OF Cons.prems(1) range idle] Cons.prems(2) by simp
    qed
    have "keeps c (store (snd p) y) (run ps (store (snd p) y))"
      by (rule Cons.IH) (use k Cons.prems(3) in \<open>auto simp: keeps_recoverable\<close>)
    then show ?case using keeps_trans [OF conjunct1 [OF k]] by simp
  qed (simp add: keeps_refl)
  define w1 where "w1 = run ?rs w"
  have k1: "keeps c w w1" unfolding w1_def by (rule quiet [OF rec off]) simp
  have "queue_header_ok (ca_geometry c) (mp_queues ?m q)" using rec range by (simp add: recoverable_def queue_inv_def)
  then have k2: "keeps c w1 (store (QueueVersion q 1) w1)"
    by (intro keeps_queue_idle [OF keeps_recoverable [OF k1], where f = "qh_version_update (\<lambda>_. 1)"])
      (use off used no_live_off [OF rec] in \<open>auto simp: w1_def queue_header_ok_def Let_def\<close>)
  have "settled c (store (QueueVersion q 1) w1)"
    by (rule settled_header [OF settled keeps_recoverable [OF k2]])
      (use off used no_live_off [OF rec] in \<open>auto simp: w1_def split: if_splits\<close>)
  then show ?thesis unfolding es
    by (intro atomic_commit) (use quiet [OF rec off] k1 k2 in \<open>auto simp: w1_def keeps_def\<close>)
qed

lemma queue_quiesced_all: "queue_quiesced m q hs \<longleftrightarrow> (\<forall>h \<in> set hs. sl_state (mp_slots m q h) = EMPTY \<and> de_inflight (mp_descriptors m q h) = 0)"
  by (induction hs) auto

text \<open>A queue that the frontend has reset: its cursors are rebased on the guest's.\<close>

lemma reset_settled:
  assumes settled: "settled c w" and op: "Carrier_reset_queue c (wo_mapping w) q a used = (es, Inr x)"
  defines "w0 \<equiv> w\<lparr>wo_guest := (wo_guest w)(q := used)\<rparr>"
  shows "settled c (run es w0)" and "outstanding c (run es w0) = outstanding c w"
proof -
  let ?m = "wo_mapping w"
  note rec = settled_recoverable [OF settled]
  have range: "in_range c q 0" and ver: "qh_version (mp_queues ?m q) = 1"
    and quiet: "\<And>h. h < ge_queue_size (ca_geometry c) \<Longrightarrow> sl_state (mp_slots ?m q h) = EMPTY"
    and es: "es = [(Release, QueueUsed q used), (Release, HeaderAvailable q (unat a))]"
    using op by (auto simp: Carrier_reset_queue_def guarded_def queue_quiesced_all split: sum.splits if_splits)
  have idle: "live c ?m q h = None" for h
  proof (cases "live c ?m q h")
    case (Some y)
    have r: "in_range c q h" using live_in_range [OF Some] .
    have "slot_decode c q h (mp_slots ?m q h) = Inr (Some (fst y, snd y))" using slot_invD(1) [OF rec r] Some by simp
    from slot_decode_Some(1,2) [OF this] quiet [of h] r show ?thesis by (auto simp: in_range_def)
  qed
  have ok: "queue_header_ok (ca_geometry c) (mp_queues ?m q)" using rec range by (simp add: recoverable_def queue_inv_def)
  define w2 where "w2 = store (QueueUsed q used) w0"
  have rec2: "recoverable c w2"
  proof -
    have "guest_inv c w2" using rec by (auto simp: recoverable_def guest_inv_def w2_def w0_def)
    moreover have "queue_inv c (wo_mapping w2)"
      using rec ok by (auto simp: recoverable_def queue_inv_def w2_def w0_def queue_header_ok_def Let_def)
    moreover have "live_inv c (wo_mapping w2)" unfolding live_inv_def
    proof (intro allI impI)
      fix q' h state e assume "live c (wo_mapping w2) q' h = Some (state, e)"
      then have "live c ?m q' h = Some (state, e)" "q' \<noteq> q" using idle by (auto simp: w2_def w0_def)
      then show "entry_ok (mp_header (wo_mapping w2)) (mp_queues (wo_mapping w2) q') (mp_descriptors (wo_mapping w2) q' h) state e"
        using live_entry_ok [OF rec] by (simp add: w2_def w0_def)
    qed
    ultimately show ?thesis using rec unfolding recoverable_def
      by (simp add: header_inv_def slot_inv_def distinct_inv_def newest_inv_def
        validate_header_def Carrier_published_def Carrier_healthy_def w2_def w0_def)
  qed
  have idle2: "live c (wo_mapping w2) q h = None" for h using idle by (simp add: w2_def w0_def)
  have k: "keeps c w2 (run es w0)" using keeps_available_idle [OF rec2 range idle2] by (simp add: es w2_def)
  have agree: "agreed c (run es w0)" using settled by (auto simp: settled_def agreed_def es w0_def)
  show "outstanding c (run es w0) = outstanding c w"
  proof (intro ext)
    fix q' h
    show "outstanding c (run es w0) q' h = outstanding c w q' h"
      using idle by (cases "q' = q") (simp_all add: outstanding_def es w0_def)
  qed
  show "settled c (run es w0)" unfolding settled_def
  proof (intro conjI allI impI)
    fix q' h state e assume "live c (wo_mapping (run es w0)) q' h = Some (state, e)"
    then have lv: "live c ?m q' h = Some (state, e)" and "q' \<noteq> q" using idle by (auto simp: es w0_def)
    note s = settledD [OF settled lv]
    show "state = DISCOVERED \<or> (state = ACTIVE \<and> de_inflight (mp_descriptors (wo_mapping (run es w0)) q' h) = 1)"
      "en_discovery e \<le> ih_discovery (mp_header (wo_mapping (run es w0)))" "en_serial e \<le> ih_serial (mp_header (wo_mapping (run es w0)))"
      "en_mutation e \<le> ih_mutation (mp_header (wo_mapping (run es w0)))" using s by (simp_all add: es w0_def)
    show "of_nat (ih_available (mp_header (wo_mapping (run es w0))) q') = rq_available (en_request e) + 1"
      if "en_discovery e = ih_discovery (mp_header (wo_mapping (run es w0)))" using s(5) that \<open>q' \<noteq> q\<close> by (simp add: es w0_def)
  qed (use k agree in \<open>auto simp: keeps_recoverable\<close>)
qed

lemma create_settled:
  assumes "Geometry_new queues queue_size = Inr g" and "Carrier_create credit opened g identity image_bytes p = Inr (c, m)"
  shows "settled c \<lparr>wo_mapping = m, wo_guest = guest\<rparr>" and "outstanding c \<lparr>wo_mapping = m, wo_guest = guest\<rparr> q h = None"
proof -
  have c: "c = \<lparr>ca_geometry = g, ca_identity = identity, ca_image_bytes = image_bytes\<rparr>"
    and size: "0 < ge_queue_size g" using assms by (auto simp: Carrier_create_def Geometry_new_def is_power_of_two_def split: if_splits)
  have zero: "mp_queues m = mp_queues zero_mapping" "mp_descriptors m = mp_descriptors zero_mapping" "mp_slots m = mp_slots zero_mapping"
    using assms(2) by (auto simp: Carrier_create_def)
  have dec: "slot_decode c q h (mp_slots m q h) = Inr None" for q h
    by (simp add: zero zero_mapping_def slot_decode_def EMPTY_def)
  have none: "live c m q h = None" for q h by (simp add: live_def dec)
  have words: "same_words (map nat_of_le (chunks 8 bs)) bs" for bs
    by (auto simp: same_words_def list_all_iff in_set_zip)
  have "header_inv c m" using assms(2)
    by (auto simp: Carrier_create_def header_inv_def validate_header_def header_identity_def Carrier_published_def Carrier_healthy_def
        words zero_mapping_def list_ex_iff)
  moreover have "ih_available (mp_header m) q < 2 ^ 16" for q using assms(2) by (auto simp: Carrier_create_def zero_mapping_def)
  ultimately show "settled c \<lparr>wo_mapping = m, wo_guest = guest\<rparr>" using size
    by (auto simp: settled_def recoverable_def queue_inv_def slot_inv_def live_inv_def distinct_inv_def newest_inv_def guest_inv_def
        agreed_def none dec) (simp_all add: zero zero_mapping_def queue_header_ok_def c)
  show "outstanding c \<lparr>wo_mapping = m, wo_guest = guest\<rparr> q h = None" by (simp add: outstanding_def none)
qed

section \<open>Histories\<close>

inductive operation :: "Carrier \<Rightarrow> CarrierWorld \<Rightarrow> effect list \<Rightarrow> bool" where
  op_discover: "Carrier_discover c (wo_mapping w) request = (es, Inr d) \<Longrightarrow> operation c w es"
| op_admit: "Carrier_admit_outcome c (wo_mapping w) request rejected = (es, Inr e) \<Longrightarrow> operation c w es"
| op_complete: "Carrier_complete c (wo_mapping w) e used (publish_guest (rq_queue (en_request e)) (used + 1)) = (es, Inr x) \<Longrightarrow> operation c w es"
| op_publish: "Carrier_publish (wo_mapping w) p = (es, Inr x) \<Longrightarrow> operation c w es"
| op_initialize: "Carrier_initialize_queue c (wo_mapping w) q a (wo_guest w q) = (es, Inr x) \<Longrightarrow> operation c w es"

lemma operation_safe:
  assumes "operation c w es" and "settled c w"
  shows "settled c (run es w) \<and> crash_safe (recoverable c) es w"
  using assms
proof cases
  case (op_discover request d)
  then show ?thesis using discover_atomic(1) [OF assms(2)] unfolding atomic_def by (blast intro: crash_safe_mono)
next
  case (op_admit request rejected e)
  then show ?thesis using admit_atomic(1,4) [OF assms(2) op_admit] by (auto intro: crash_safe_mono)
next
  case (op_complete e used x)
  then show ?thesis using complete_atomic(1) [OF assms(2) refl refl op_complete] unfolding atomic_def by (blast intro: crash_safe_mono)
next
  case (op_publish p x)
  then show ?thesis using publish_atomic(1) [OF assms(2)] unfolding atomic_def by (blast intro: crash_safe_mono)
next
  case (op_initialize q a x)
  then show ?thesis using initialize_atomic [OF assms(2) _ refl] unfolding atomic_def by (blast intro: crash_safe_mono)
qed

lemma reconcile_rooms:
  assumes "Carrier_reconcile room c m guest = (es, Inr r)"
  shows "\<forall>i < 6. room i = Inr ()"
proof -
  have "room 0 = Inr () \<and> room 1 = Inr () \<and> room 2 = Inr () \<and> room 3 = Inr () \<and> room 4 = Inr () \<and> room 5 = Inr ()"
    using assms by (auto simp: Carrier_reconcile_def Carrier_scan_def guarded_def Let_def split: sum.splits if_splits)
  then show ?thesis by (auto simp: less_Suc_eq numeral_eq_Suc)
qed

text \<open>
  Every history of a carrier: \<open>True\<close> while a daemon serves it between two operations, \<open>False\<close> after a death. The guest's used
  index of a queue that is not initialized is its own affair. The identity and prefix a carrier is created with are 64-bit.
\<close>

inductive healthy_history :: "Carrier \<Rightarrow> bool \<Rightarrow> CarrierWorld \<Rightarrow> bool" where
  created: "Geometry_new queues queue_size = Inr g \<Longrightarrow> id_epoch identity \<le> u64_max \<Longrightarrow> id_attachment identity \<le> u64_max \<Longrightarrow> p \<le> u64_max \<Longrightarrow>
     Carrier_create (Inr ()) (Inr ()) g identity image_bytes p = Inr (c, m) \<Longrightarrow>
     healthy_history c True \<lparr>wo_mapping = m, wo_guest = guest\<rparr>"
| operated: "healthy_history c True w \<Longrightarrow> operation c w es \<Longrightarrow> healthy_history c True (run es w)"
| rebased: "healthy_history c True w \<Longrightarrow> Carrier_reset_queue c (wo_mapping w) q a used = (es, Inr x) \<Longrightarrow>
     healthy_history c True (run es (w\<lparr>wo_guest := (wo_guest w)(q := used)\<rparr>))"
| unattached: "healthy_history c up w \<Longrightarrow> qh_version (mp_queues (wo_mapping w) q) \<noteq> 1 \<Longrightarrow> healthy_history c up (w\<lparr>wo_guest := (wo_guest w)(q := used)\<rparr>)"
| killed: "healthy_history c True w \<Longrightarrow> healthy_history c False w"
| died: "healthy_history c True w \<Longrightarrow> operation c w es \<Longrightarrow> crashed es w w' \<Longrightarrow> healthy_history c False w'"
| interrupted: "healthy_history c up w \<Longrightarrow> Carrier_reconcile room c (wo_mapping w) (guest_cursors c w) = (es, Inr r) \<Longrightarrow> crashed es w w' \<Longrightarrow>
     healthy_history c False w'"
| reconciled: "healthy_history c up w \<Longrightarrow> Carrier_reconcile room c (wo_mapping w) (guest_cursors c w) = (es, Inr r) \<Longrightarrow> healthy_history c True (run es w)"

lemma unattached_keeps:
  assumes "qh_version (mp_queues (wo_mapping w) q) \<noteq> 1" and "recoverable c w"
  shows "recoverable c (w\<lparr>wo_guest := (wo_guest w)(q := used)\<rparr>)"
    and "settled c w \<Longrightarrow> settled c (w\<lparr>wo_guest := (wo_guest w)(q := used)\<rparr>)"
proof -
  show rec: "recoverable c (w\<lparr>wo_guest := (wo_guest w)(q := used)\<rparr>)" using assms by (auto simp: recoverable_def guest_inv_def)
  assume s: "settled c w"
  have "agreed c (w\<lparr>wo_guest := (wo_guest w)(q := used)\<rparr>)" using s assms(1) by (auto simp: settled_def agreed_def)
  then show "settled c (w\<lparr>wo_guest := (wo_guest w)(q := used)\<rparr>)" using s rec by (simp add: settled_def)
qed

lemma healthy_history_safe: "healthy_history c up w \<Longrightarrow> recoverable c w \<and> (up \<longrightarrow> settled c w)"
proof (induction rule: healthy_history.induct)
  case (created queues queue_size g identity image_bytes p c m guest)
  then show ?case using create_settled(1) settled_recoverable by blast
next
  case (operated c w es)
  then show ?case using operation_safe settled_recoverable by blast
next
  case (rebased c w q a used es x)
  then show ?case using reset_settled(1) settled_recoverable by blast
next
  case (unattached c up w q used)
  then show ?case using unattached_keeps by blast
next
  case (died c w es w')
  then show ?case using operation_safe unfolding crash_safe_def by blast
next
  case (interrupted c up w room es r w')
  obtain es' r' where "Carrier_reconcile room c (wo_mapping w) (guest_cursors c w) = (es', Inr r')" "safe_run c es' w"
    using reconcile_exact [where room = room] interrupted.IH reconcile_rooms [OF interrupted.hyps(2)] by metis
  then show ?case using interrupted.hyps by (simp add: safe_run_def crash_safe_def keeps_def)
next
  case (reconciled c up w room es r)
  obtain es' r' where "Carrier_reconcile room c (wo_mapping w) (guest_cursors c w) = (es', Inr r')" "settled c (run es' w)"
    using reconcile_exact [where room = room] reconciled.IH reconcile_rooms [OF reconciled.hyps(2)] by metis
  then show ?case using reconciled.hyps settled_recoverable by simp
qed simp

text \<open>
  The failing path. A failure of storage marks the attachment; so does a completion whose writes to the guest fail, with the
  used index published or not. A marked attachment only retires requests with an error, and those writes may fail too.
\<close>

inductive failure :: "Carrier \<Rightarrow> CarrierWorld \<Rightarrow> effect list \<Rightarrow> bool" where
  fail_storage: "failure c w (fst Carrier_fail)"
| fail_publication: "guest = [] \<or> guest = fst (publish_guest (rq_queue (en_request e)) (used + 1)) \<Longrightarrow>
    Carrier_complete c (wo_mapping w) e used (guest, Inl x) = (es, r) \<Longrightarrow> failure c w es"
| retire_error: "Carrier_complete_error c (wo_mapping w) e used (publish_guest (rq_queue (en_request e)) (used + 1)) = (es, r) \<Longrightarrow> failure c w es"
| retire_unpublished: "guest = [] \<or> guest = fst (publish_guest (rq_queue (en_request e)) (used + 1)) \<Longrightarrow>
    Carrier_complete_error c (wo_mapping w) e used (guest, Inl x) = (es, r) \<Longrightarrow> failure c w es"

text \<open>Every history: a healthy one, and whatever failures and deaths inside them follow it.\<close>

inductive history :: "Carrier \<Rightarrow> bool \<Rightarrow> CarrierWorld \<Rightarrow> bool" where
  healthy: "healthy_history c up w \<Longrightarrow> history c up w"
| failed: "history c True w \<Longrightarrow> failure c w es \<Longrightarrow> history c True (run es w)"
| died_failing: "history c True w \<Longrightarrow> failure c w es \<Longrightarrow> crashed es w w' \<Longrightarrow> history c False w'"
| killed_failing: "history c True w \<Longrightarrow> history c False w"
| unattached_failing: "history c up w \<Longrightarrow> qh_version (mp_queues (wo_mapping w) q) \<noteq> 1 \<Longrightarrow> history c up (w\<lparr>wo_guest := (wo_guest w)(q := used)\<rparr>)"

lemma prepare_completion_cases:
  obtains x where "prepare_completion c m e used failed = ([], Inl x)"
  | "prepare_completion c m e used failed = ([(Relaxed, DescriptorNext (rq_queue (en_request e)) (rq_head (en_request e)) (rq_head (en_request e))),
      (Release, QueueLastHead (rq_queue (en_request e)) (rq_head (en_request e)))], Inr ())"
    "in_range c (rq_queue (en_request e)) (rq_head (en_request e))"
proof (cases "snd (prepare_completion c m e used failed)")
  case (Inl x)
  then have "prepare_completion c m e used failed = ([], Inl x)"
    by (auto simp: prepare_completion_def guarded_def Let_def split: sum.splits if_splits prod.splits)
  then show thesis by (rule that(1))
next
  case (Inr x)
  then have p: "prepare_completion c m e used failed = (fst (prepare_completion c m e used failed), Inr x)"
    by (simp add: prod_eq_iff)
  note f = prepare_completion_Inr [OF p]
  have "in_range c (rq_queue (en_request e)) (rq_head (en_request e))" using f(1) by (auto simp: Carrier_read_slot_def)
  moreover have "prepare_completion c m e used failed = ([(Relaxed, DescriptorNext (rq_queue (en_request e)) (rq_head (en_request e)) (rq_head (en_request e))),
      (Release, QueueLastHead (rq_queue (en_request e)) (rq_head (en_request e)))], Inr ())" using p unfolding f(4) by simp
  ultimately show thesis by (rule that(2) [rotated])
qed

text \<open>On an attachment without the mark, an error retires nothing.\<close>

lemma complete_error_healthy:
  assumes "ih_failed (mp_header m) = 0"
  shows "fst (Carrier_complete_error c m e used publish) = []"
  using assms by (auto simp: Carrier_complete_error_def prepare_completion_def guarded_def and_then_def Let_def)

text \<open>A failed publication is a completion that dies before its end, and then the mark.\<close>

lemma failed_publication:
  assumes guest: "guest = [] \<or> guest = fst (publish_guest (rq_queue (en_request e)) (used + 1))"
    and op: "Carrier_complete c (wo_mapping w) e used (guest, Inl x) = (es, r)"
  shows "es = [] \<or> (\<exists>ds rs. es = ds @ [(Release, HeaderFailed 1)] \<and>
    Carrier_complete c (wo_mapping w) e used (publish_guest (rq_queue (en_request e)) (used + 1)) = (ds @ rs, Inr ()) \<and>
    rs \<noteq> [] \<and> fst (hd rs) = Release)"
proof (cases rule: prepare_completion_cases [of c "wo_mapping w" e used False])
  case (1 x)
  then show ?thesis using op by (auto simp: Carrier_complete_def and_then_def)
next
  case 2
  have es: "es = fst (prepare_completion c (wo_mapping w) e used False) @ guest @ [(Release, HeaderFailed 1)]"
    using op 2(1) by (simp add: Carrier_complete_def and_then_def Carrier_fail_def)
  moreover have "Carrier_complete c (wo_mapping w) e used (publish_guest (rq_queue (en_request e)) (used + 1)) =
      (fst (prepare_completion c (wo_mapping w) e used False) @ fst (publish_guest (rq_queue (en_request e)) (used + 1)) @
       fst (finish_completion c e (used + 1)), Inr ())"
    using 2(1) Geometry_check_in_range [OF 2(2)]
    by (simp del: Geometry_check_ok add: Carrier_complete_def and_then_def publish_guest_def finish_completion_def guarded_def Let_def)
  moreover have "fst (finish_completion c e (used + 1)) \<noteq> []" "fst (hd (fst (finish_completion c e (used + 1)))) = Release"
    using Geometry_check_in_range [OF 2(2)] by (simp_all del: Geometry_check_ok add: finish_completion_def guarded_def Let_def)
  ultimately show ?thesis using guest by (auto simp: publish_guest_def)
qed

lemma crashed_prefix:
  assumes "crashed (ds @ [(Release, t)]) w w'" and "rs \<noteq> []" and "fst (hd rs) = Release"
  shows "crashed (ds @ rs) w w' \<or> w' = run (ds @ [(Release, t)]) w"
proof -
  obtain as bs ps where as: "ds @ [(Release, t)] = as @ bs" and ps: "subseq ps (takeWhile (\<lambda>e. fst e = Relaxed) bs)" and w': "w' = run (as @ ps) w"
    using assms(1) by (auto simp: crashed_def)
  show ?thesis
  proof (cases bs rule: rev_cases)
    case Nil
    then show ?thesis using as ps w' by simp
  next
    case (snoc cs c)
    then have ds: "ds = as @ cs" "c = (Release, t)" using as by auto
    have "takeWhile (\<lambda>e. fst e = Relaxed) (cs @ [c]) = takeWhile (\<lambda>e. fst e = Relaxed) (cs @ rs)"
      using assms(2,3) ds(2) by (induction cs) (auto simp: neq_Nil_conv)
    then show ?thesis using ps w' ds snoc by (auto simp: crashed_def)
  qed
qed

lemma run_failed: "HeaderFailed 0 \<notin> snd ` set es \<Longrightarrow> ih_failed (mp_header (wo_mapping w)) \<noteq> 0 \<Longrightarrow> ih_failed (mp_header (wo_mapping (run es w))) \<noteq> 0"
proof (induction es arbitrary: w)
  case (Cons e es)
  have "ih_failed (mp_header (wo_mapping (store (snd e) w))) \<noteq> 0"
    using Cons.prems by (cases "snd e") (auto simp: store_def on_header_def on_queue_def on_descriptor_def on_slot_def)
  then show ?case using Cons by simp
qed simp

lemma crashed_failed:
  assumes "crashed es w w'" and "HeaderFailed 0 \<notin> snd ` set es" and "ih_failed (mp_header (wo_mapping w)) \<noteq> 0"
  shows "ih_failed (mp_header (wo_mapping w')) \<noteq> 0"
proof -
  obtain ds rs ps where es: "es = ds @ rs" and ps: "subseq ps (takeWhile (\<lambda>e. fst e = Relaxed) rs)" and w': "w' = run (ds @ ps) w"
    using assms(1) by (auto simp: crashed_def)
  have "x \<in> set rs" if "x \<in> set ps" for x by (rule list_emb_set [OF ps that]) (auto dest: set_takeWhileD)
  then have "HeaderFailed 0 \<notin> snd ` set (ds @ ps)" using assms(2) es by auto
  then show ?thesis unfolding w' by (rule run_failed [OF _ assms(3)])
qed

lemma failure_never_clears: "failure c w es \<Longrightarrow> HeaderFailed 0 \<notin> snd ` set es"
proof (induction rule: failure.induct)
  case (fail_publication guest e used c w x es r)
  then show ?case by (cases rule: prepare_completion_cases [of c "wo_mapping w" e used False])
    (auto simp: Carrier_complete_def and_then_def Carrier_fail_def publish_guest_def)
next
  case (retire_error c w e used es r)
  then show ?case by (cases rule: prepare_completion_cases [of c "wo_mapping w" e used True])
    (auto simp: Carrier_complete_error_def and_then_def publish_guest_def finish_completion_def guarded_def Let_def split: sum.splits)
next
  case (retire_unpublished guest e used c w x es r)
  then show ?case by (cases rule: prepare_completion_cases [of c "wo_mapping w" e used True])
    (auto simp: Carrier_complete_error_def and_then_def publish_guest_def)
qed (simp add: Carrier_fail_def)

text \<open>What a failure leaves: the mark, or, when a death comes before it, what a completion that dies leaves.\<close>

lemma failure_cases:
  assumes "failure c w es" and "ih_failed (mp_header (wo_mapping w)) = 0"
  shows "es = [] \<or> (\<exists>ds. es = ds @ [(Release, HeaderFailed 1)] \<and> (ds = [] \<or>
    (\<exists>rs. operation c w (ds @ rs) \<and> rs \<noteq> [] \<and> fst (hd rs) = Release)))"
  using assms
proof (induction rule: failure.induct)
  case (fail_publication guest e used c w x es r)
  from failed_publication [OF fail_publication(1,2)] show ?case by (metis op_complete)
next
  case (retire_error c w e used es r)
  then show ?case using complete_error_healthy by (metis fst_conv)
next
  case (retire_unpublished guest e used c w x es r)
  then show ?case using complete_error_healthy by (metis fst_conv)
qed (simp add: Carrier_fail_def)

lemma history_healthy: "history c up w \<Longrightarrow> ih_failed (mp_header (wo_mapping w)) = 0 \<Longrightarrow> healthy_history c up w"
proof (induction rule: history.induct)
  case (failed c w es)
  have h: "ih_failed (mp_header (wo_mapping w)) = 0"
    using failed.prems run_failed [OF failure_never_clears [OF failed.hyps(2)]] by blast
  from failure_cases [OF failed.hyps(2) h] failed.prems failed.IH [OF h] show ?case by auto
next
  case (died_failing c w es w')
  have h: "ih_failed (mp_header (wo_mapping w)) = 0"
    using died_failing.prems crashed_failed [OF died_failing.hyps(3) failure_never_clears [OF died_failing.hyps(2)]] by blast
  note up = died_failing.IH [OF h]
  consider "es = []" | "es = [(Release, HeaderFailed 1)]"
    | ds rs where "es = ds @ [(Release, HeaderFailed 1)]" "operation c w (ds @ rs)" "rs \<noteq> []" "fst (hd rs) = Release"
    using failure_cases [OF died_failing.hyps(2) h] by auto
  then show ?case
  proof cases
    case 1
    then have "w' = w" using died_failing.hyps(3) by (simp add: crashed_def)
    with healthy_history.killed [OF up] show ?thesis by simp
  next
    case 2
    have "\<not> crashed [] (store (HeaderFailed 1) w) w'" using died_failing.prems by (auto simp: crashed_def)
    with 2 have "w' = w" using died_failing.hyps(3) by (auto simp: crashed_Cons)
    with healthy_history.killed [OF up] show ?thesis by simp
  next
    case 3
    have "w' \<noteq> run (ds @ [(Release, HeaderFailed 1)]) w" using died_failing.prems by auto
    then have "crashed (ds @ rs) w w'" using crashed_prefix [OF died_failing.hyps(3) [unfolded 3(1)] 3(3,4)] by blast
    with healthy_history.died [OF up 3(2)] show ?thesis by blast
  qed
qed (auto intro: healthy_history.killed healthy_history.unattached)

section \<open>Properties\<close>

text \<open>
  C4. At any point of any history, dead or alive, reconciliation with the guest's cursors succeeds unless the attachment is marked
  FAILED, when its vectors fit in the budget. It replays exactly the requests admitted and not completed, each once and in the
  order of admission, and hands on exactly the requests discovered and not admitted, in the order of discovery. Its repair changes
  no debt, and neither does a death inside it. A marked attachment is refused without a store.
\<close>

theorem inflight_reconcile_exact:
  assumes "history c up w" and "\<forall>i < 6. room i = Inr ()"
  shows "if ih_failed (mp_header (wo_mapping w)) = 0
    then \<exists>es r. Carrier_reconcile room c (wo_mapping w) (guest_cursors c w) = (es, Inr r) \<and> replays c w r
      \<and> outstanding c (run es w) = outstanding c w \<and> (\<forall>w'. crashed es w w' \<longrightarrow> outstanding c w' = outstanding c w)
    else \<exists>x. Carrier_reconcile room c (wo_mapping w) (guest_cursors c w) = ([], Inl x)"
proof (cases "ih_failed (mp_header (wo_mapping w)) = 0")
  case True
  have "recoverable c w" using healthy_history_safe [OF history_healthy [OF assms(1) True]] by simp
  from reconcile_exact [OF this, of room] assms(2) obtain es r where
    "Carrier_reconcile room c (wo_mapping w) (guest_cursors c w) = (es, Inr r)" "safe_run c es w" "replays c w r" by metis
  then show ?thesis using True by (auto simp: safe_run_def keeps_def crash_safe_def)
next
  case False
  then show ?thesis
    by (auto simp: Carrier_reconcile_def validate_header_def Carrier_healthy_def ensure_def guarded_def Let_def)
qed

text \<open>
  C6. An admission takes effect atomically: wherever the daemon dies inside it, the guest is owed what it was before, the request as
  discovered, or the request as admitted, and nothing else; when it returns, the request is owed with a serial above every other.
\<close>

theorem inflight_admit_atomic:
  assumes "history c True w" and "Carrier_admit_outcome c (wo_mapping w) request rejected = (es, Inr e)"
  defines "q \<equiv> rq_queue request" and "h \<equiv> rq_head request"
  shows "en_request e = request \<and> en_rejected e = rejected
    \<and> outstanding c (run es w) = set_at (outstanding c w) q h (Some (ToReplay e))
    \<and> (\<forall>q' h' e'. outstanding c w q' h' = Some (ToReplay e') \<longrightarrow> en_serial e' < en_serial e)
    \<and> (\<forall>w'. crashed es w w' \<longrightarrow> outstanding c w' \<in> {outstanding c w,
         set_at (outstanding c w) q h (Some (ToAdmit (en_discovery e) request)), set_at (outstanding c w) q h (Some (ToReplay e))})"
proof -
  have "ih_failed (mp_header (wo_mapping w)) = 0"
    using assms(2) by (auto simp: Carrier_admit_outcome_def Carrier_admit_observed_def Carrier_prepare_def Carrier_healthy_def
        guarded_def and_then_def Let_def split: if_splits)
  then have settled: "settled c w" using healthy_history_safe [OF history_healthy [OF assms(1)]] by simp
  note a = admit_atomic [OF settled assms(2), folded q_def h_def]
  have serial: "en_serial e = ih_serial (mp_header (wo_mapping w)) + 1"
  proof -
    obtain ds ps where "prepare_discovered c (run_mapping ds (wo_mapping w)) request rejected (ih_serial (mp_header (wo_mapping w)) + 1)
      (if Request_mutates request \<and> \<not> rejected then ih_mutation (mp_header (wo_mapping w)) + 1 else 0) (ih_mutation (mp_header (wo_mapping w))) = (ps, Inr e)"
      using admit_outcome_Inr [OF assms(2)] by metis
    then show ?thesis using prepare_discovered_Inr by (metis InflightEntry.select_convs(2))
  qed
  have "en_serial e' < en_serial e" if "outstanding c w q' h' = Some (ToReplay e')" for q' h' e'
  proof -
    obtain state x where lv: "live c (wo_mapping w) q' h' = Some (state, x)"
      using \<open>outstanding c w q' h' = Some (ToReplay e')\<close> by (cases "live c (wo_mapping w) q' h'") (auto simp: outstanding_def)
    then have "x = e'" using that by (auto simp: outstanding_def split: if_splits)
    then show ?thesis using settledD(3) [OF settled lv] serial by simp
  qed
  then show ?thesis using a unfolding crash_safe_def by blast
qed

text \<open>
  C5. A completion takes effect atomically, and only after the publication it needs: the request was owed, its required prefix is
  published, a death anywhere inside leaves it owed or paid, and when it returns the guest is paid.
\<close>

theorem inflight_complete_atomic:
  assumes "history c True w"
    and "Carrier_complete c (wo_mapping w) e used (publish_guest (rq_queue (en_request e)) (used + 1)) = (es, Inr ())"
  defines "q \<equiv> rq_queue (en_request e)" and "h \<equiv> rq_head (en_request e)"
  shows "outstanding c w q h = Some (ToReplay e) \<and> required_publication e \<le> Carrier_published (wo_mapping w)
    \<and> outstanding c (run es w) = set_at (outstanding c w) q h None \<and> wo_guest (run es w) q = used + 1
    \<and> (\<forall>w'. crashed es w w' \<longrightarrow> outstanding c w' \<in> {outstanding c w, set_at (outstanding c w) q h None})"
proof -
  have "ih_failed (mp_header (wo_mapping w)) = 0"
    using assms(2) by (auto simp: Carrier_complete_def prepare_completion_def Carrier_healthy_def guarded_def and_then_def Let_def split: if_splits)
  then have settled: "settled c w" using healthy_history_safe [OF history_healthy [OF assms(1)]] by simp
  note a = complete_atomic [OF settled refl refl assms(2), folded q_def h_def]
  obtain prep: "prepare_completion c (wo_mapping w) e used False = ([(Relaxed, DescriptorNext q h h), (Release, QueueLastHead q h)], Inr ())"
    and es: "es = [(Relaxed, DescriptorNext q h h), (Release, QueueLastHead q h)] @ (Release, GuestUsed q (used + 1)) # retire e (used + 1)"
    using complete_Inr [OF assms(2) refl] unfolding q_def h_def by metis
  have "required_publication e \<le> Carrier_published (wo_mapping w)"
    using prepare_completion_Inr(3) [OF prep] by (simp add: Carrier_published_def)
  moreover have "wo_guest (run es w) q = used + 1" by (simp add: es retire_def Let_def)
  ultimately show ?thesis using a by (auto simp: atomic_def crash_safe_def)
qed

text \<open>
  A failed attachment stays failed: every operation but the retirement of errors, and reconciliation itself, refuses it
  without a store.
\<close>

theorem inflight_failed_refuses:
  assumes "ih_failed (mp_header m) \<noteq> 0"
  shows "fst (Carrier_reconcile room c m guest) = [] \<and> isl (snd (Carrier_reconcile room c m guest))
    \<and> fst (Carrier_discover c m request) = [] \<and> isl (snd (Carrier_discover c m request))
    \<and> fst (Carrier_admit_outcome c m request rejected) = [] \<and> isl (snd (Carrier_admit_outcome c m request rejected))
    \<and> fst (Carrier_complete c m e used publish) = [] \<and> isl (snd (Carrier_complete c m e used publish))
    \<and> fst (Carrier_publish m p) = [] \<and> isl (snd (Carrier_publish m p))
    \<and> fst (Carrier_initialize_queue c m q a used) = [] \<and> isl (snd (Carrier_initialize_queue c m q a used))
    \<and> fst (Carrier_reset_queue c m q a used) = [] \<and> isl (snd (Carrier_reset_queue c m q a used))
    \<and> (ih_failed (mp_header m) \<noteq> 1 \<longrightarrow> fst (Carrier_complete_error c m e used publish) = [] \<and> isl (snd (Carrier_complete_error c m e used publish)))"
proof -
  have h: "\<exists>x. Carrier_healthy m = Inl x" using assms by (simp add: Carrier_healthy_def)
  then obtain x where x: "Carrier_healthy m = Inl x" by blast
  have v: "\<exists>x. validate_header c m = Inl x" using x by (auto simp: validate_header_def ensure_def Let_def)
  show ?thesis using x v
    by (auto simp: Carrier_reconcile_def Carrier_discover_def prepare_discovery_def Carrier_admit_outcome_def Carrier_admit_observed_def
        Carrier_prepare_def Carrier_complete_def Carrier_complete_error_def prepare_completion_def Carrier_publish_def
        Carrier_initialize_queue_def Carrier_reset_queue_def guarded_def and_then_def Let_def)
qed

section \<open>Layout\<close>

lemma row_before: "q < q' \<Longrightarrow> q * s + s \<le> q' * (s :: nat)"
  by (metis Suc_leI add.commute mult.commute mult_Suc_right mult_le_mono2)

lemma Geometry_facts:
  assumes "Geometry_new queues queue_size = Inr g"
  shows "16 + ge_queue_size g * 16 \<le> Geometry_stride g" "64 dvd Geometry_stride g"
    "ge_queues g * Geometry_stride g \<le> Geometry_trailer g" "4096 dvd Geometry_trailer g"
    "Geometry_trailer g + 4096 + ge_queues g * ge_queue_size g * 128 \<le> Geometry_bytes g" "0 < ge_queue_size g"
proof -
  show "0 < ge_queue_size g" using assms by (auto simp: Geometry_new_def is_power_of_two_def split: if_splits)
  show "16 + ge_queue_size g * 16 \<le> Geometry_stride g" "64 dvd Geometry_stride g"
    by (simp_all add: Geometry_stride_def layout_sizes next_multiple_of_props)
  show "ge_queues g * Geometry_stride g \<le> Geometry_trailer g" "4096 dvd Geometry_trailer g"
    using next_multiple_of_props(1) [of 4096 "Geometry_stride g * ge_queues g"]
    by (simp_all add: Geometry_trailer_def layout_sizes next_multiple_of_props mult.commute)
  show "Geometry_trailer g + 4096 + ge_queues g * ge_queue_size g * 128 \<le> Geometry_bytes g"
    using next_multiple_of_props(1) [of 4096 "Geometry_trailer g + 4096 + ge_queues g * ge_queue_size g * 128"]
    by (simp add: Geometry_bytes_def layout_sizes)
qed

definition before :: "Geometry \<Rightarrow> Region \<Rightarrow> Region \<Rightarrow> bool" where
  "before g a b \<longleftrightarrow> fst (region_bytes g a) + snd (region_bytes g a) \<le> fst (region_bytes g b)"

lemma Geometry_check_iff: "Geometry_check g q h = Inr () \<longleftrightarrow> q < ge_queues g \<and> h < ge_queue_size g"
  by (simp add: Geometry_check_def not_le)

lemma row_region:
  assumes g: "Geometry_new queues queue_size = Inr g" and "region_valid g a" and "a = QueueAt q \<or> a = DescriptorAt q h"
  shows "q * Geometry_stride g \<le> fst (region_bytes g a)" "fst (region_bytes g a) + snd (region_bytes g a) \<le> q * Geometry_stride g + Geometry_stride g"
    "q * Geometry_stride g + Geometry_stride g \<le> Geometry_trailer g"
proof -
  note f = Geometry_facts [OF g]
  have q: "q < ge_queues g" and h: "a = DescriptorAt q h \<Longrightarrow> h + 1 \<le> ge_queue_size g"
    using assms(2,3) by (auto simp: Geometry_check_iff)
  show "q * Geometry_stride g \<le> fst (region_bytes g a)" using assms(3) by auto
  show "fst (region_bytes g a) + snd (region_bytes g a) \<le> q * Geometry_stride g + Geometry_stride g"
    using assms(3) f(1) h by (auto simp: layout_sizes)
  show "q * Geometry_stride g + Geometry_stride g \<le> Geometry_trailer g"
    using row_before [OF q, of "Geometry_stride g"] f(3) by linarith
qed

lemma slot_region:
  assumes g: "Geometry_new queues queue_size = Inr g" and "region_valid g (SlotAt q h)"
  shows "Geometry_trailer g + 4096 \<le> fst (region_bytes g (SlotAt q h))"
    "fst (region_bytes g (SlotAt q h)) + snd (region_bytes g (SlotAt q h)) \<le> Geometry_bytes g"
proof -
  have v: "q < ge_queues g" "h < ge_queue_size g" using assms(2) by (simp_all add: Geometry_check_iff)
  have "q * ge_queue_size g + h + 1 \<le> ge_queues g * ge_queue_size g"
    using row_before [OF v(1), of "ge_queue_size g"] v(2) by linarith
  then have "(q * ge_queue_size g + h + 1) * 128 \<le> ge_queues g * ge_queue_size g * 128" by (rule mult_le_mono1)
  then show "fst (region_bytes g (SlotAt q h)) + snd (region_bytes g (SlotAt q h)) \<le> Geometry_bytes g"
    using Geometry_facts(5) [OF g] by (simp add: layout_sizes)
qed (simp add: layout_sizes)

lemma rows_apart:
  assumes g: "Geometry_new queues queue_size = Inr g" and a: "region_valid g a" "a = QueueAt q \<or> a = DescriptorAt q h"
    and b: "region_valid g b" "b = QueueAt q' \<or> b = DescriptorAt q' h'" and "a \<noteq> b"
  shows "before g a b \<or> before g b a"
proof (cases "q = q'")
  case True
  have "h < h' \<Longrightarrow> h * 16 + 16 \<le> h' * 16" "h' < h \<Longrightarrow> h' * 16 + 16 \<le> h * 16" by linarith+
  then show ?thesis using True a(2) b(2) assms(6) by (cases h h' rule: linorder_cases) (auto simp: before_def layout_sizes)
next
  case False
  then consider "q < q'" | "q' < q" by linarith
  then show ?thesis
  proof cases
    case 1
    then show ?thesis using row_region(2) [OF g a] row_region(1) [OF g b] row_before [OF 1, of "Geometry_stride g"] by (simp add: before_def)
  next
    case 2
    then show ?thesis using row_region(2) [OF g b] row_region(1) [OF g a] row_before [OF 2, of "Geometry_stride g"] by (simp add: before_def)
  qed
qed

lemma slots_apart:
  assumes g: "Geometry_new queues queue_size = Inr g" and "region_valid g (SlotAt q h)" "region_valid g (SlotAt q' h')" and "(q, h) \<noteq> (q', h')"
  shows "before g (SlotAt q h) (SlotAt q' h') \<or> before g (SlotAt q' h') (SlotAt q h)"
proof -
  let ?N = "ge_queue_size g"
  have v: "h < ?N" "h' < ?N" using assms(2,3) by (simp_all add: Geometry_check_iff)
  have "q * ?N + h + 1 \<le> q' * ?N + h' \<or> q' * ?N + h' + 1 \<le> q * ?N + h"
  proof (cases q q' rule: linorder_cases)
    case less
    then show ?thesis using row_before [OF less, of ?N] v by linarith
  next
    case equal
    then show ?thesis using assms(4) by auto
  next
    case greater
    then show ?thesis using row_before [OF greater, of ?N] v by linarith
  qed
  then have "(q * ?N + h + 1) * 128 \<le> (q' * ?N + h') * 128 \<or> (q' * ?N + h' + 1) * 128 \<le> (q * ?N + h) * 128" by (meson mult_le_mono1)
  then show ?thesis by (auto simp: before_def layout_sizes)
qed

text \<open>
  C35. The layout of every admitted geometry: the queue headers, descriptors, header page and slots lie inside the mapping, no two
  overlap, and each has the alignment of its type: 64 for a slot, 8 for the others.
\<close>

theorem inflight_regions_disjoint:
  assumes "Geometry_new queues queue_size = Inr g" and "region_valid g a" and "region_valid g b"
  shows "fst (region_bytes g a) + snd (region_bytes g a) \<le> Geometry_bytes g \<and> fst (region_bytes g a) mod region_align a = 0
    \<and> (a \<noteq> b \<longrightarrow> before g a b \<or> before g b a)"
proof (intro conjI impI)
  note g = assms(1) note f = Geometry_facts [OF g]
  have total: "Geometry_trailer g + 4096 \<le> Geometry_bytes g" using f(5) by linarith
  show "fst (region_bytes g a) + snd (region_bytes g a) \<le> Geometry_bytes g"
  proof (cases a)
    case (QueueAt q)
    then show ?thesis using row_region(2,3) [OF g assms(2), of q 0] total by linarith
  next
    case (DescriptorAt q h)
    then show ?thesis using row_region(2,3) [OF g assms(2), of q h] total by linarith
  next
    case (SlotAt q h)
    then show ?thesis using slot_region(2) [OF g] assms(2) by simp
  qed (use total in \<open>simp add: PAGE_def\<close>)
  have "8 dvd Geometry_stride g" "8 dvd Geometry_trailer g" "64 dvd Geometry_trailer g" using f(2,4) by (auto elim: dvd_trans [rotated])
  then have "region_align a dvd fst (region_bytes g a)" by (cases a) (auto simp: layout_sizes intro!: dvd_add dvd_mult)
  then show "fst (region_bytes g a) mod region_align a = 0" by simp
  assume ne: "a \<noteq> b"
  have low: "fst (region_bytes g x) + snd (region_bytes g x) \<le> Geometry_trailer g" if "region_valid g x" "x = QueueAt q \<or> x = DescriptorAt q h" for x q h
    using row_region(2,3) [OF g that] by linarith
  consider (rows) q h q' h' where "a = QueueAt q \<or> a = DescriptorAt q h" "b = QueueAt q' \<or> b = DescriptorAt q' h'"
    | (a_row) q h where "a = QueueAt q \<or> a = DescriptorAt q h" "Geometry_trailer g \<le> fst (region_bytes g b)"
    | (b_row) q h where "b = QueueAt q \<or> b = DescriptorAt q h" "Geometry_trailer g \<le> fst (region_bytes g a)"
    | (head_slot) q h where "a = HeaderAt" "b = SlotAt q h" | (slot_head) q h where "a = SlotAt q h" "b = HeaderAt"
    | (slots) q h q' h' where "a = SlotAt q h" "b = SlotAt q' h'"
    using ne by (cases a; cases b) (auto simp: layout_sizes)
  then show "before g a b \<or> before g b a"
  proof cases
    case rows
    then show ?thesis using rows_apart [OF g assms(2) _ assms(3)] ne by blast
  next
    case a_row
    then show ?thesis using low [OF assms(2) a_row(1)] by (auto simp: before_def)
  next
    case b_row
    then show ?thesis using low [OF assms(3) b_row(1)] by (auto simp: before_def)
  next
    case slots
    then show ?thesis using slots_apart [OF g] assms(2,3) ne by blast
  qed (auto simp: before_def layout_sizes)
qed

section \<open>A concrete carrier\<close>

definition demo_geometry :: Geometry where
  "demo_geometry = \<lparr>ge_queues = 1, ge_queue_size = 2\<rparr>"

definition demo_identity :: Identity where
  "demo_identity = \<lparr>id_store = replicate 16 1, id_image = replicate 16 2, id_epoch = 3, id_attachment = 3\<rparr>"

definition demo_carrier :: Carrier where
  "demo_carrier = \<lparr>ca_geometry = demo_geometry, ca_identity = demo_identity, ca_image_bytes = 8192\<rparr>"

definition demo_mapping :: InflightMapping where
  "demo_mapping = (case Carrier_create (Inr ()) (Inr ()) demo_geometry demo_identity 8192 0 of Inr (c, m) \<Rightarrow> m | Inl _ \<Rightarrow> zero_mapping)"

definition demo_request :: InflightRequest where
  "demo_request = \<lparr>rq_kind = KindWrite, rq_queue = 0, rq_head = 1, rq_available = 0, rq_offset = 4096, rq_length = 4096\<rparr>"

definition demo_entry :: InflightEntry where
  "demo_entry = \<lparr>en_request = demo_request, en_serial = 1, en_mutation = 1, en_boundary = 0, en_attachment = 3, en_rejected = False, en_discovery = 1\<rparr>"

definition demo_created :: CarrierWorld where
  "demo_created = \<lparr>wo_mapping = demo_mapping, wo_guest = (\<lambda>_. 0)\<rparr>"

definition demo_ready :: CarrierWorld where
  "demo_ready = run (fst (Carrier_initialize_queue demo_carrier (wo_mapping demo_created) 0 0 0)) demo_created"

definition demo_admitted :: CarrierWorld where
  "demo_admitted = run (fst (Carrier_admit_outcome demo_carrier (wo_mapping demo_ready) demo_request False)) demo_ready"

definition demo_published :: CarrierWorld where
  "demo_published = run (fst (Carrier_publish (wo_mapping demo_admitted) 1)) demo_admitted"

lemmas demo_defs = demo_created_def demo_mapping_def Carrier_create_def demo_carrier_def demo_geometry_def demo_identity_def
  demo_request_def demo_entry_def zero_mapping_def guarded_def and_then_def Carrier_healthy_def Geometry_check_def Let_def

lemma demo_ready_mapping:
  "Carrier_initialize_queue demo_carrier (wo_mapping demo_created) 0 0 0 =
     ([(Relaxed, QueueDescriptors 0 2), (Relaxed, QueueUsed 0 0), (Relaxed, HeaderAvailable 0 0), (Release, QueueVersion 0 1)], Inr ())"
  by (simp add: Carrier_initialize_queue_def demo_defs)

lemma demo_initializes: "snd (Carrier_initialize_queue demo_carrier (wo_mapping demo_created) 0 0 0) = Inr ()"
  by (simp add: demo_ready_mapping)

lemma demo_ready_fields:
  "ih_failed (mp_header (wo_mapping demo_ready)) = 0" "ih_serial (mp_header (wo_mapping demo_ready)) = 0"
  "ih_mutation (mp_header (wo_mapping demo_ready)) = 0" "ih_published (mp_header (wo_mapping demo_ready)) = 0"
  "ih_discovery (mp_header (wo_mapping demo_ready)) = 0" "ih_available (mp_header (wo_mapping demo_ready)) 0 = 0"
  "qh_version (mp_queues (wo_mapping demo_ready) 0) = 1" "qh_used (mp_queues (wo_mapping demo_ready) 0) = 0"
  "mp_descriptors (wo_mapping demo_ready) = mp_descriptors zero_mapping" "mp_slots (wo_mapping demo_ready) = mp_slots zero_mapping"
  by (simp_all add: demo_ready_def demo_ready_mapping, simp_all add: demo_defs)

lemma demo_validates: "Request_validate demo_request (ca_image_bytes demo_carrier) = Inr ()"
  by (simp add: Request_validate_def demo_defs BLOCK_SIZE_def MAX_REQUEST_BYTES_def Kind_zero_def nchecked_add_def u64_max_def)

lemma demo_request_fields [simp]:
  "rq_queue demo_request = 0" "rq_head demo_request = 1" "rq_available demo_request = 0" "rq_kind demo_request = KindWrite"
  "Geometry_check (ca_geometry demo_carrier) 0 0 = Inr ()" "Geometry_check (ca_geometry demo_carrier) 0 (Suc 0) = Inr ()"
  "Request_mutates demo_request"
  by (simp_all add: demo_request_def Geometry_check_def demo_carrier_def demo_geometry_def Request_mutates_def)

lemma zero_mapping_fields [simp]:
  "sl_state (mp_slots zero_mapping q h) = EMPTY" "de_inflight (mp_descriptors zero_mapping q h) = 0" "all_zero (sl_tail (mp_slots zero_mapping q h))"
  by (simp_all add: zero_mapping_def EMPTY_def)

lemma demo_discovers:
  "Carrier_discover demo_carrier (wo_mapping demo_ready) demo_request =
     (discovery_stores demo_carrier demo_request 1 @ [(Release, SlotState 0 1 DISCOVERED)] @ finish_discovery demo_request 1, Inr 1)"
  by (simp add: Carrier_discover_def prepare_discovery_def demo_validates Carrier_available_def demo_ready_fields guarded_def and_then_def
      Carrier_healthy_def Let_def nchecked_add_def u64_max_def)

lemma demo_reads:
  "Carrier_read_slot demo_carrier (run_mapping (fst (Carrier_discover demo_carrier (wo_mapping demo_ready) demo_request)) (wo_mapping demo_ready)) 0 1 =
     Inr (Some (DISCOVERED, discovered_entry demo_carrier demo_request 1))"
proof -
  have "wo_mapping (run (discovery_stores demo_carrier demo_request 1 @ [(Release, SlotState 0 1 DISCOVERED)] @ finish_discovery demo_request 1) demo_ready) =
     run_mapping (fst (Carrier_discover demo_carrier (wo_mapping demo_ready) demo_request)) (wo_mapping demo_ready)"
    by (simp only: demo_discovers run_mapping_run fst_conv)
  moreover have "mp_slots (wo_mapping (run (discovery_stores demo_carrier demo_request 1 @ [(Release, SlotState 0 1 DISCOVERED)]
      @ finish_discovery demo_request 1) demo_ready)) 0 1 =
    (discovered_slot demo_carrier demo_request 1 (mp_slots zero_mapping 0 1))\<lparr>sl_state := DISCOVERED\<rparr>"
    by (simp add: run_discovery_stores finish_discovery_def demo_ready_fields)
  ultimately show ?thesis
    using decode_discovered_slot [OF demo_validates, of 1 "mp_slots zero_mapping 0 1"] by (simp add: Carrier_read_slot_def)
qed

lemma demo_admits_all:
  "Carrier_admit_outcome demo_carrier (wo_mapping demo_ready) demo_request False =
     (discovery_stores demo_carrier demo_request 1 @ [(Release, SlotState 0 1 DISCOVERED)] @ finish_discovery demo_request 1 @
      prepare_stores demo_entry @ activate_effects demo_entry @ finish_admission demo_entry, Inr demo_entry)"
proof -
  let ?m = "wo_mapping demo_ready"
  have e: "en_request demo_entry = demo_request" "discovered_entry demo_carrier demo_request 1 = \<lparr>en_request = demo_request, en_serial = 0,
      en_mutation = 0, en_boundary = 0, en_attachment = 3, en_rejected = False, en_discovery = 1\<rparr>"
    by (simp_all add: demo_entry_def discovered_entry_def demo_carrier_def demo_identity_def)
  have d: "mp_descriptors (run_mapping (fst (Carrier_discover demo_carrier ?m demo_request)) ?m) = mp_descriptors zero_mapping"
    using run_discovery_stores [of demo_carrier demo_request 1 demo_ready]
    by (simp add: demo_discovers flip: run_mapping_run) (simp add: finish_discovery_def demo_ready_fields)
  have "prepare_discovered demo_carrier (run_mapping (fst (Carrier_discover demo_carrier ?m demo_request)) ?m) demo_request False 1 1 0 =
      (prepare_stores demo_entry, Inr demo_entry)"
    using demo_reads by (simp add: prepare_discovered_def guarded_def d e Let_def) (simp add: demo_entry_def discovered_entry_def demo_carrier_def demo_identity_def)
  then have "Carrier_prepare demo_carrier ?m demo_request False = (fst (Carrier_discover demo_carrier ?m demo_request) @ prepare_stores demo_entry, Inr demo_entry)"
    by (simp add: Carrier_prepare_def demo_ready_fields Carrier_healthy_def demo_validates guarded_def and_then_def nchecked_add_def u64_max_def demo_discovers)
  then show ?thesis
    by (simp add: Carrier_admit_outcome_def Carrier_admit_observed_def and_then_def guarded_def Carrier_activate_def activate_effects_def e demo_discovers Let_def)
qed

lemma demo_ready_guest: "wo_guest demo_ready = (\<lambda>_. 0)"
  by (simp add: demo_ready_def demo_ready_mapping) (simp add: demo_created_def)

lemma demo_admitted_fields:
  "ih_failed (mp_header (wo_mapping demo_admitted)) = 0" "ih_mutation (mp_header (wo_mapping demo_admitted)) = 1"
  "ih_published (mp_header (wo_mapping demo_admitted)) = 0" "wo_guest demo_admitted = (\<lambda>_. 0)"
  by (simp_all add: demo_admitted_def demo_admits_all run_discovery_stores prepare_stores_split run_prepare_relaxed activate_effects_def
      finish_admission_def finish_discovery_def Let_def demo_ready_fields demo_ready_guest)
    (simp_all add: demo_entry_def)

lemma demo_publishes: "Carrier_publish (wo_mapping demo_admitted) 1 = ([(Release, HeaderPublished 1)], Inr ())"
  by (simp add: Carrier_publish_def Carrier_healthy_def Carrier_published_def guarded_def demo_admitted_fields)

lemma demo_published_run: "demo_published = run [(Release, HeaderPublished 1)] demo_admitted"
  unfolding demo_published_def demo_publishes fst_conv ..

lemma demo_histories:
  "healthy_history demo_carrier True demo_ready" "healthy_history demo_carrier True demo_admitted" "healthy_history demo_carrier True demo_published"
proof -
  have "Geometry_new 1 2 = Inr demo_geometry" by code_simp
  moreover have "Carrier_create (Inr ()) (Inr ()) demo_geometry demo_identity 8192 0 = Inr (demo_carrier, demo_mapping)"
    by (simp add: Carrier_create_def demo_mapping_def demo_carrier_def)
  ultimately have 0: "healthy_history demo_carrier True demo_created" 
    unfolding demo_created_def by (intro created) (simp_all add: demo_identity_def u64_max_def)
  have guest: "wo_guest demo_created 0 = 0" by (simp add: demo_created_def)
  have "operation demo_carrier demo_created (fst (Carrier_initialize_queue demo_carrier (wo_mapping demo_created) 0 0 0))"
    by (rule op_initialize [where q = 0 and a = 0 and x = "()"]) (simp add: demo_ready_mapping guest)
  then show 1: "healthy_history demo_carrier True demo_ready" unfolding demo_ready_def by (rule operated [OF 0])
  have "operation demo_carrier demo_ready (fst (Carrier_admit_outcome demo_carrier (wo_mapping demo_ready) demo_request False))"
    by (rule op_admit [where e = demo_entry and request = demo_request and rejected = False]) (simp add: demo_admits_all)
  then show 2: "healthy_history demo_carrier True demo_admitted" unfolding demo_admitted_def by (rule operated [OF 1])
  have "operation demo_carrier demo_admitted (fst (Carrier_publish (wo_mapping demo_admitted) 1))"
    by (rule op_publish [where x = "()" and p = 1]) (simp only: demo_publishes fst_conv)
  then show "healthy_history demo_carrier True demo_published" unfolding demo_published_def by (rule operated [OF 2])
qed

lemma demo_completes:
  "snd (Carrier_complete demo_carrier (wo_mapping demo_published) demo_entry 0 (publish_guest 0 (0 + 1))) = Inr ()"
proof -
  have q: "rq_queue (en_request demo_entry) = 0" "rq_head (en_request demo_entry) = 1" by (simp_all add: demo_entry_def)
  have settled: "settled demo_carrier demo_published" using healthy_history_safe [OF demo_histories(3)] by simp
  note rec = settled_recoverable [OF settled]
  have "settled demo_carrier demo_ready" using healthy_history_safe [OF demo_histories(1)] by simp
  from admit_atomic(3) [OF this demo_admits_all] have "outstanding demo_carrier demo_admitted 0 1 = Some (ToReplay demo_entry)"
    by (simp add: demo_admitted_def demo_admits_all set_at_def)
  then have "outstanding demo_carrier demo_published 0 1 = Some (ToReplay demo_entry)"
    by (simp add: demo_published_run outstanding_def)
  then obtain state where "live demo_carrier (wo_mapping demo_published) 0 1 = Some (state, demo_entry)" "state \<noteq> DISCOVERED"
    by (cases "live demo_carrier (wo_mapping demo_published) 0 1") (auto simp: outstanding_def split: if_splits)
  then have lv: "live demo_carrier (wo_mapping demo_published) 0 1 = Some (ACTIVE, demo_entry)"
    using settledD(1) [OF settled] by blast
  note range = live_in_range [OF lv]
  have "wo_guest demo_published 0 = 0" by (simp add: demo_published_run demo_admitted_fields)
  then have used: "qh_used (mp_queues (wo_mapping demo_published) 0) = 0"
    using settled live_entry_ok [OF rec lv] in_range_0 [OF range] by (simp add: settled_def agreed_def entry_ok_def)
  have "ih_failed (mp_header (wo_mapping demo_published)) = 0" "ih_published (mp_header (wo_mapping demo_published)) = 1"
    by (simp_all add: demo_published_run demo_admitted_fields)
  moreover have "required_publication demo_entry = 1" by (simp add: required_publication_def demo_entry_def)
  ultimately show ?thesis using read_slot_live [OF rec range] lv used
    by (simp add: Carrier_complete_def prepare_completion_def publish_guest_def guarded_def and_then_def Carrier_healthy_def
        Carrier_published_def q finish_completion_def Let_def)
qed

lemma inflight_reconcile_exact_witness:
  "\<exists>es r. Carrier_reconcile (\<lambda>_. Inr ()) demo_carrier (wo_mapping demo_admitted) (guest_cursors demo_carrier demo_admitted) = (es, Inr r)
     \<and> replays demo_carrier demo_admitted r"
  using inflight_reconcile_exact [OF healthy [OF demo_histories(2)], of "\<lambda>_. Inr ()"] by (auto simp: demo_admitted_fields)

lemma inflight_admit_atomic_witness:
  "outstanding demo_carrier demo_admitted = set_at (outstanding demo_carrier demo_ready) 0 1 (Some (ToReplay demo_entry))"
proof -
  have "Carrier_admit_outcome demo_carrier (wo_mapping demo_ready) demo_request False =
      (fst (Carrier_admit_outcome demo_carrier (wo_mapping demo_ready) demo_request False), Inr demo_entry)"
    by (simp add: demo_admits_all)
  from inflight_admit_atomic [OF healthy [OF demo_histories(1)] this] show ?thesis by (simp add: demo_admitted_def demo_request_def)
qed

lemma inflight_complete_atomic_witness:
  "outstanding demo_carrier demo_published 0 1 = Some (ToReplay demo_entry)"
proof -
  have q: "rq_queue (en_request demo_entry) = 0" "rq_head (en_request demo_entry) = 1" by (simp_all add: demo_entry_def demo_request_def)
  have "Carrier_complete demo_carrier (wo_mapping demo_published) demo_entry 0 (publish_guest (rq_queue (en_request demo_entry)) (0 + 1)) =
      (fst (Carrier_complete demo_carrier (wo_mapping demo_published) demo_entry 0 (publish_guest 0 (0 + 1))), Inr ())"
    using demo_completes by (simp only: prod_eq_iff q fst_conv snd_conv simp_thms)
  from inflight_complete_atomic [OF healthy [OF demo_histories(3)] this] show ?thesis by (simp only: q)
qed

lemma inflight_failed_refuses_witness:
  "fst (Carrier_publish (store_mapping (HeaderFailed 1) demo_mapping) 0) = [] \<and> isl (snd (Carrier_publish (store_mapping (HeaderFailed 1) demo_mapping) 0))"
  using inflight_failed_refuses [of "store_mapping (HeaderFailed 1) demo_mapping"] by simp

lemma inflight_regions_disjoint_witness:
  "before demo_geometry (SlotAt 0 0) (SlotAt 0 1) \<or> before demo_geometry (SlotAt 0 1) (SlotAt 0 0)"
proof -
  have "Geometry_new 1 2 = Inr demo_geometry" by code_simp
  from inflight_regions_disjoint [OF this, of "SlotAt 0 0" "SlotAt 0 1"] show ?thesis
    by (simp add: Geometry_check_def demo_geometry_def)
qed

end
