(* ===== verification/Inflight_Widths.thy ===== *)
theory Inflight_Widths
  imports Inflight_Lifecycle
begin

text \<open>
  The atomics of the inflight mapping have machine widths, which \<^verbatim>\<open>inflight/layout.rs\<close> fixes; the model writes most of
  them as natural numbers. Here: no operation, death or repair ever stores a value that its atomic could not hold, so the
  model and the mapping agree on every load.
\<close>

section \<open>Widths\<close>

abbreviation fits64 :: "nat \<Rightarrow> bool" where "fits64 v \<equiv> v \<le> u64_max"

fun target_fits :: "Target \<Rightarrow> bool" where
  "target_fits (HeaderFailed v) \<longleftrightarrow> v < 2 ^ 32"
| "target_fits (HeaderSerial v) \<longleftrightarrow> fits64 v"
| "target_fits (HeaderMutation v) \<longleftrightarrow> fits64 v"
| "target_fits (HeaderPublished v) \<longleftrightarrow> fits64 v"
| "target_fits (HeaderDiscovery v) \<longleftrightarrow> fits64 v"
| "target_fits (HeaderAvailable q v) \<longleftrightarrow> q < 4 \<and> v < 2 ^ 32"
| "target_fits (QueueDescriptors q v) \<longleftrightarrow> v < 2 ^ 16"
| "target_fits (QueueVersion q v) \<longleftrightarrow> v < 2 ^ 16"
| "target_fits (QueueUsed q v) \<longleftrightarrow> True"
| "target_fits (QueueLastHead q v) \<longleftrightarrow> v < 2 ^ 16"
| "target_fits (DescriptorInflight q h v) \<longleftrightarrow> v < 2 ^ 8"
| "target_fits (DescriptorNext q h v) \<longleftrightarrow> v < 2 ^ 16"
| "target_fits (DescriptorCounter q h v) \<longleftrightarrow> fits64 v"
| "target_fits (SlotState q h v) \<longleftrightarrow> v < 2 ^ 32"
| "target_fits (SlotKind q h v) \<longleftrightarrow> v < 2 ^ 16"
| "target_fits (SlotQueue q h v) \<longleftrightarrow> v < 2 ^ 16"
| "target_fits (SlotHead q h v) \<longleftrightarrow> v < 2 ^ 16"
| "target_fits (SlotAvailable q h v) \<longleftrightarrow> True"
| "target_fits (SlotFlags q h v) \<longleftrightarrow> True"
| "target_fits (SlotSerial q h v) \<longleftrightarrow> fits64 v"
| "target_fits (SlotMutation q h v) \<longleftrightarrow> fits64 v"
| "target_fits (SlotBoundary q h v) \<longleftrightarrow> fits64 v"
| "target_fits (SlotOffset q h v) \<longleftrightarrow> fits64 v"
| "target_fits (SlotLength q h v) \<longleftrightarrow> fits64 v"
| "target_fits (SlotAttachment q h v) \<longleftrightarrow> fits64 v"
| "target_fits (SlotDiscovery q h v) \<longleftrightarrow> fits64 v"
| "target_fits (GuestUsed q v) \<longleftrightarrow> True"

definition header_fits :: "InflightHeader \<Rightarrow> bool" where
  "header_fits x \<longleftrightarrow> fits64 (ih_magic x) \<and> ih_version x < 2 ^ 32 \<and> ih_bytes x < 2 ^ 32 \<and> list_all fits64 (ih_store x)
     \<and> list_all fits64 (ih_image x) \<and> fits64 (ih_epoch x) \<and> fits64 (ih_attachment x) \<and> ih_queues x < 2 ^ 32
     \<and> ih_queue_size x < 2 ^ 32 \<and> ih_slot_size x < 2 ^ 32 \<and> ih_failed x < 2 ^ 32 \<and> fits64 (ih_serial x) \<and> fits64 (ih_mutation x)
     \<and> fits64 (ih_published x) \<and> (\<forall>q. ih_available x q < 2 ^ 32 \<and> (4 \<le> q \<longrightarrow> ih_available x q = 0)) \<and> fits64 (ih_discovery x)"

definition queue_fits :: "QueueHeader \<Rightarrow> bool" where
  "queue_fits x \<longleftrightarrow> fits64 (qh_features x) \<and> qh_version x < 2 ^ 16 \<and> qh_descriptors x < 2 ^ 16 \<and> qh_last_head x < 2 ^ 16"

definition descriptor_fits :: "InflightDescriptor \<Rightarrow> bool" where
  "descriptor_fits x \<longleftrightarrow> de_inflight x < 2 ^ 8 \<and> de_next x < 2 ^ 16 \<and> fits64 (de_counter x)"

definition slot_fits :: "InflightSlot \<Rightarrow> bool" where
  "slot_fits x \<longleftrightarrow> sl_state x < 2 ^ 32 \<and> sl_kind x < 2 ^ 16 \<and> sl_queue x < 2 ^ 16 \<and> sl_head x < 2 ^ 16 \<and> fits64 (sl_serial x)
     \<and> fits64 (sl_mutation x) \<and> fits64 (sl_boundary x) \<and> fits64 (sl_offset x) \<and> fits64 (sl_length x) \<and> fits64 (sl_attachment x)
     \<and> fits64 (sl_discovery x)"

definition mapping_fits :: "InflightMapping \<Rightarrow> bool" where
  "mapping_fits m \<longleftrightarrow> header_fits (mp_header m) \<and> (\<forall>q. queue_fits (mp_queues m q)) \<and> (\<forall>q h. descriptor_fits (mp_descriptors m q h))
     \<and> (\<forall>q h. slot_fits (mp_slots m q h))"

lemmas width_defs = mapping_fits_def header_fits_def queue_fits_def descriptor_fits_def slot_fits_def

lemma store_fits: "target_fits t \<Longrightarrow> mapping_fits m \<Longrightarrow> mapping_fits (store_mapping t m)"
  by (cases t) (simp_all add: width_defs on_header_def on_queue_def on_descriptor_def on_slot_def)

definition stores_fit :: "effect list \<Rightarrow> bool" where
  "stores_fit es \<longleftrightarrow> (\<forall>e \<in> set es. target_fits (snd e))"

lemma stores_fit_simps [simp]:
  "stores_fit []" "stores_fit (e # es) \<longleftrightarrow> target_fits (snd e) \<and> stores_fit es" "stores_fit (es @ fs) \<longleftrightarrow> stores_fit es \<and> stores_fit fs"
  by (auto simp: stores_fit_def)

lemma run_mapping_fits: "stores_fit es \<Longrightarrow> mapping_fits m \<Longrightarrow> mapping_fits (run_mapping es m)"
  unfolding run_mapping_def by (induction es arbitrary: m) (simp_all add: store_fits)

lemma run_fits: "stores_fit es \<Longrightarrow> mapping_fits (wo_mapping w) \<Longrightarrow> mapping_fits (wo_mapping (run es w))"
  by (simp add: run_mapping_run run_mapping_fits)

lemma crashed_fits:
  assumes "crashed es w w'" and "stores_fit es" and "mapping_fits (wo_mapping w)"
  shows "mapping_fits (wo_mapping w')"
proof -
  obtain ds rs ps where es: "es = ds @ rs" and ps: "subseq ps (takeWhile (\<lambda>e. fst e = Relaxed) rs)" and w': "w' = run (ds @ ps) w"
    using assms(1) by (auto simp: crashed_def)
  have "x \<in> set rs" if "x \<in> set ps" for x by (rule list_emb_set [OF ps that]) (auto dest: set_takeWhileD)
  then have "stores_fit (ds @ ps)" using assms(2) es by (auto simp: stores_fit_def)
  then show ?thesis unfolding w' using assms(3) by (rule run_fits)
qed

section \<open>Operations\<close>

definition op_fits :: "'a op \<Rightarrow> bool" where
  "op_fits p \<longleftrightarrow> stores_fit (fst p)"

lemma op_fits_pair [simp]: "op_fits (es, r) \<longleftrightarrow> stores_fit es"
  by (simp add: op_fits_def)

lemma op_fits_guarded: "(\<And>x. r = Inr x \<Longrightarrow> op_fits (k x)) \<Longrightarrow> op_fits (guarded r k)"
  by (simp add: guarded_def split: sum.split)

lemma op_fits_and_then: "op_fits p \<Longrightarrow> (\<And>x. snd p = Inr x \<Longrightarrow> op_fits (k x)) \<Longrightarrow> op_fits (and_then p k)"
  by (auto simp: and_then_def op_fits_def split: sum.split)

lemma op_fits_if: "(b \<Longrightarrow> op_fits p) \<Longrightarrow> (\<not> b \<Longrightarrow> op_fits r) \<Longrightarrow> op_fits (if b then p else r)"
  by simp

lemma guarded_Inr: "snd (guarded r k) = Inr y \<Longrightarrow> (\<And>x. r = Inr x \<Longrightarrow> snd (k x) = Inr y \<Longrightarrow> thesis) \<Longrightarrow> thesis"
  by (auto simp: guarded_def split: sum.splits)

lemma and_then_Inr: "snd (and_then p k) = Inr y \<Longrightarrow> (\<And>x. snd p = Inr x \<Longrightarrow> snd (k x) = Inr y \<Longrightarrow> thesis) \<Longrightarrow> thesis"
  by (auto simp: and_then_def split: sum.splits)

lemmas op_fits_intros = op_fits_guarded op_fits_and_then op_fits_if

definition carrier_fits :: "Carrier \<Rightarrow> bool" where
  "carrier_fits c \<longleftrightarrow> ge_queues (ca_geometry c) \<le> 4 \<and> ge_queue_size (ca_geometry c) \<le> 256 \<and> fits64 (id_attachment (ca_identity c))"

definition request_fits :: "InflightRequest \<Rightarrow> bool" where
  "request_fits r \<longleftrightarrow> fits64 (rq_offset r) \<and> fits64 (rq_length r)"

definition entry_fits :: "InflightEntry \<Rightarrow> bool" where
  "entry_fits e \<longleftrightarrow> fits64 (en_serial e) \<and> fits64 (en_mutation e) \<and> fits64 (en_boundary e) \<and> fits64 (en_discovery e)"

lemma Request_validate_fits: "Request_validate r n = Inr () \<Longrightarrow> request_fits r"
  by (auto simp: Request_validate_def request_fits_def nchecked_add_def split: if_splits)

lemma Kind_code_fits: "Kind_code k < 2 ^ 16"
  by (cases k) simp_all

lemma check_fits:
  assumes "carrier_fits c" and "in_range c q h"
  shows "q < 4" "q < 65536" "h < 65536"
  using assms by (auto simp: carrier_fits_def in_range_def)

lemma states_fit: "EMPTY < 2 ^ 32" "PREPARED < 2 ^ 32" "ACTIVE < 2 ^ 32" "DISCOVERED < 2 ^ 32"
  by (simp_all add: slot_states)

lemma unat_available: "unat (a :: u16) < 2 ^ 32"
  by (rule order_less_le_trans [OF unsigned_less]) simp

lemma read_slot_fits:
  assumes "mapping_fits m" and "Carrier_read_slot c m q h = Inr (Some (state, e))"
  shows "entry_fits e"
proof -
  have "slot_fits (mp_slots m q h)" using assms(1) by (simp add: mapping_fits_def)
  then show ?thesis using assms(2)
    by (auto simp: Carrier_read_slot_def slot_decode_def decode_admitted_def decode_discovered_def Let_def entry_fits_def slot_fits_def
        split: if_splits sum.splits)
qed

lemma Carrier_publish_fits: "mapping_fits m \<Longrightarrow> op_fits (Carrier_publish m p)"
  by (auto simp: Carrier_publish_def mapping_fits_def header_fits_def intro!: op_fits_intros)

lemma Carrier_initialize_queue_fits: "carrier_fits c \<Longrightarrow> op_fits (Carrier_initialize_queue c m q a used)"
  unfolding Carrier_initialize_queue_def using unat_available [of a]
  by (intro op_fits_intros) (auto simp: carrier_fits_def in_range_def)

lemma Carrier_reset_queue_fits: "carrier_fits c \<Longrightarrow> op_fits (Carrier_reset_queue c m q a used)"
  unfolding Carrier_reset_queue_def using unat_available [of a]
  by (intro op_fits_intros) (auto simp: carrier_fits_def in_range_def)

lemma Carrier_activate_fits: "entry_fits e \<Longrightarrow> op_fits (Carrier_activate c e)"
  by (auto simp: Carrier_activate_def Let_def entry_fits_def slot_states intro!: op_fits_intros)

lemma finish_completion_fits: "op_fits (finish_completion c e used)"
  by (auto simp: finish_completion_def Let_def slot_states intro!: op_fits_intros)

lemma finish_discovery_fits: "rq_queue request < 4 \<Longrightarrow> fits64 d \<Longrightarrow> stores_fit (finish_discovery request d)"
  using unat_available [of "rq_available request + 1"] by (simp add: finish_discovery_def)

lemma prepare_completion_fits: "carrier_fits c \<Longrightarrow> op_fits (prepare_completion c m e used failed)"
  unfolding prepare_completion_def Let_def
  using check_fits [of c] by (intro op_fits_intros) (auto simp: Carrier_read_slot_def split: sum.splits)

lemma Carrier_complete_fits: "carrier_fits c \<Longrightarrow> op_fits (Carrier_complete c m e used (publish_guest q v))"
  using prepare_completion_fits [of c m e used False] finish_completion_fits [of c e "used + 1"]
  unfolding Carrier_complete_def publish_guest_def by (intro op_fits_intros) (auto simp: op_fits_def)

lemma prepare_discovery_fits:
  assumes "carrier_fits c"
  shows "op_fits (prepare_discovery c m request)"
    and "snd (prepare_discovery c m request) = Inr d \<Longrightarrow> rq_queue request < 4 \<and> fits64 d"
proof -
  show "op_fits (prepare_discovery c m request)"
    unfolding prepare_discovery_def Let_def discovery_stores_def using assms Kind_code_fits [of "rq_kind request"]
    by (intro op_fits_intros)
      (auto simp: slot_states nchecked_add_def ok_or_def carrier_fits_def in_range_def request_fits_def dest!: Request_validate_fits split: if_splits)
  show "rq_queue request < 4 \<and> fits64 d" if "snd (prepare_discovery c m request) = Inr d"
    using prepare_discovery_Inr(2,8) [of c m request _ d] check_fits(1) [OF assms] that by (metis prod.collapse)
qed

lemma Carrier_discover_fits: "carrier_fits c \<Longrightarrow> op_fits (Carrier_discover c m request)"
  unfolding Carrier_discover_def using prepare_discovery_fits finish_discovery_fits by (intro op_fits_intros) (auto simp del: in_range_def)

lemma prepare_discovered_fits:
  assumes "in_range c (rq_queue request) (rq_head request)" and "fits64 serial" "fits64 mutation" "fits64 boundary" and "mapping_fits m"
  shows "op_fits (prepare_discovered c m request rejected serial mutation boundary)"
    and "snd (prepare_discovered c m request rejected serial mutation boundary) = Inr e \<Longrightarrow> entry_fits e"
proof -
  show "op_fits (prepare_discovered c m request rejected serial mutation boundary)"
    unfolding prepare_discovered_def prepare_stores_def Let_def using assms by (intro op_fits_intros) (auto simp: slot_states)
  assume "snd (prepare_discovered c m request rejected serial mutation boundary) = Inr e"
  then obtain e0 where "Carrier_read_slot c m (rq_queue request) (rq_head request) = Inr (Some (DISCOVERED, e0))"
    and "e = \<lparr>en_request = request, en_serial = serial, en_mutation = mutation, en_boundary = boundary,
       en_attachment = id_attachment (ca_identity c), en_rejected = rejected, en_discovery = en_discovery e0\<rparr>"
    by (metis prod.collapse prepare_discovered_Inr)
  then show "entry_fits e" using read_slot_fits [OF assms(5)] assms(2-4) by (simp add: entry_fits_def)
qed

lemma Carrier_prepare_Inr:
  assumes "snd (Carrier_prepare c m request rejected) = Inr e"
  obtains serial mutation where "in_range c (rq_queue request) (rq_head request)" "nchecked_add (ih_serial (mp_header m)) 1 = Some serial"
    "mutation = 0 \<or> nchecked_add (ih_mutation (mp_header m)) 1 = Some mutation"
    "snd (prepare_discovered c
       (if sl_state (mp_slots m (rq_queue request) (rq_head request)) = EMPTY then run_mapping (fst (Carrier_discover c m request)) m else m)
       request rejected serial mutation (ih_mutation (mp_header m))) = Inr e"
  using assms unfolding Carrier_prepare_def Let_def
  by (elim guarded_Inr and_then_Inr) (rule that, auto simp: ok_or_def split: if_splits option.splits)

lemma Carrier_prepare_fits:
  assumes c: "carrier_fits c" and m: "mapping_fits m"
  shows "op_fits (Carrier_prepare c m request rejected)"
    and "snd (Carrier_prepare c m request rejected) = Inr e \<Longrightarrow> entry_fits e"
proof -
  have m': "mapping_fits (run_mapping (fst (Carrier_discover c m request)) m)"
    using Carrier_discover_fits [OF c] run_mapping_fits m by (simp add: op_fits_def)
  have b: "fits64 (ih_mutation (mp_header m))" using m by (simp add: mapping_fits_def header_fits_def)
  show "op_fits (Carrier_prepare c m request rejected)"
    unfolding Carrier_prepare_def Let_def using Carrier_discover_fits [OF c] m m' b
    by (intro op_fits_intros) (auto simp: nchecked_add_def ok_or_def split: if_splits intro: prepare_discovered_fits(1))
  assume "snd (Carrier_prepare c m request rejected) = Inr e"
  then obtain serial mutation m1 where "in_range c (rq_queue request) (rq_head request)" "fits64 serial" "fits64 mutation" "mapping_fits m1"
    "snd (prepare_discovered c m1 request rejected serial mutation (ih_mutation (mp_header m))) = Inr e"
    using m m' by (elim Carrier_prepare_Inr) (auto simp: nchecked_add_def ok_or_def split: if_splits)
  then show "entry_fits e" using prepare_discovered_fits(2) b by blast
qed

lemma Carrier_admit_outcome_fits:
  assumes "carrier_fits c" and "mapping_fits m"
  shows "op_fits (Carrier_admit_outcome c m request rejected)"
  unfolding Carrier_admit_outcome_def Carrier_admit_observed_def
proof (rule op_fits_and_then [OF Carrier_prepare_fits(1) [OF assms]])
  fix e assume "snd (Carrier_prepare c m request rejected) = Inr e"
  then have e: "entry_fits e" using Carrier_prepare_fits(2) [OF assms] by blast
  then have "stores_fit (finish_admission e)" by (simp add: finish_admission_def entry_fits_def)
  then show "op_fits (guarded (Inr ()) (\<lambda>_. and_then (Carrier_activate c e) (\<lambda>_. guarded (Inr ()) (\<lambda>_. (finish_admission e, Inr e)))))"
    using Carrier_activate_fits [OF e, of c] by (simp add: guarded_def and_then_def op_fits_def split: sum.split)
qed

section \<open>Reconciliation\<close>

definition saved_fits :: "Saved \<Rightarrow> bool" where
  "saved_fits s \<longleftrightarrow> entry_fits (sv_entry s) \<and> rq_queue (en_request (sv_entry s)) < 4"

lemma scan_head_fits:
  assumes "carrier_fits c" and "mapping_fits m" and "scan_head c m q h = Inr (Some s)"
  shows "saved_fits s"
proof -
  obtain state where read: "Carrier_read_slot c m q h = Inr (Some (state, sv_entry s))"
    using assms(3) by (auto simp: scan_head_def Let_def split: option.splits if_splits)
  then have "in_range c q h" and d: "slot_decode c q h (mp_slots m q h) = Inr (Some (state, sv_entry s))"
    by (auto simp: Carrier_read_slot_def)
  moreover have "rq_queue (en_request (sv_entry s)) = q" using slot_decode_Some [OF d] by simp
  ultimately show ?thesis using read_slot_fits [OF assms(2) read] check_fits(1) [OF assms(1)] by (simp add: saved_fits_def)
qed

lemma scan_heads_fits:
  assumes "carrier_fits c" and "mapping_fits m"
  shows "scan_heads c m q hs acc = Inr saved \<Longrightarrow> \<forall>s \<in> set acc. saved_fits s \<Longrightarrow> \<forall>s \<in> set saved. saved_fits s"
proof (induction hs arbitrary: acc)
  case (Cons h hs)
  obtain r where "scan_head c m q h = Inr r"
    "scan_heads c m q hs (case r of None \<Rightarrow> acc | Some s \<Rightarrow> acc @ [s]) = Inr saved"
    using Cons.prems(1) unfolding scan_heads.simps attempt_eq_Inr by blast
  moreover from this(1) have "\<forall>s \<in> set (case r of None \<Rightarrow> acc | Some s \<Rightarrow> acc @ [s]). saved_fits s"
    using Cons.prems(2) scan_head_fits [OF assms] by (cases r) auto
  ultimately show ?case using Cons.IH by blast
qed simp

lemma scan_queues_fits:
  assumes "carrier_fits c" and "mapping_fits m"
  shows "scan_queues c m qs acc = Inr saved \<Longrightarrow> \<forall>s \<in> set acc. saved_fits s \<Longrightarrow> \<forall>s \<in> set saved. saved_fits s"
proof (induction qs arbitrary: acc)
  case (Cons q qs)
  obtain acc' where "scan_heads c m q [0..<ge_queue_size (ca_geometry c)] acc = Inr acc'" "scan_queues c m qs acc' = Inr saved"
    using Cons.prems(1) by auto
  then show ?case using Cons.IH Cons.prems(2) scan_heads_fits [OF assms] by blast
qed simp

lemma Carrier_scan_fits:
  assumes "carrier_fits c" and "mapping_fits m" and "Carrier_scan room c m = Inr saved"
  shows "\<forall>s \<in> set saved. saved_fits s"
  using assms(3) scan_queues_fits [OF assms(1,2), of "[0..<ge_queues (ca_geometry c)]" "[]"]
  by (auto simp: Carrier_scan_def Let_def)

lemma finish_completions_fits: "op_fits (finish_completions c cs)"
  by (induction c cs rule: finish_completions.induct) (auto intro: op_fits_and_then finish_completion_fits)

lemma repair_records_fits:
  "\<forall>s \<in> set ss. saved_fits s \<Longrightarrow> op_fits (repair_records c completed ss entries discovered)"
proof (induction ss arbitrary: entries discovered)
  case (Cons s ss)
  have "op_fits (repair_record c completed s)"
    using Cons.prems Carrier_activate_fits [of "sv_entry s" c] unfolding repair_record_def Let_def
    by (intro op_fits_intros) (auto simp: saved_fits_def slot_states)
  then show ?case using Cons by (auto intro!: op_fits_and_then)
qed simp

lemma max_by_key_in: "max_by_key f xs best = Some x \<Longrightarrow> x \<in> set xs \<or> best = Some x"
  by (induction f xs best rule: max_by_key.induct) (auto split: option.splits if_splits)

lemma newest_in: "newest_discovery m saved = Some s \<Longrightarrow> s \<in> set saved"
  using max_by_key_in by (fastforce simp: newest_discovery_def split: option.splits if_splits)

lemma highest_fits:
  assumes "mapping_fits m" and "\<forall>s \<in> set saved. saved_fits s"
  shows "fits64 (highest_serial m saved)" "fits64 (highest_mutation m saved)"
proof -
  have h: "fits64 (ih_serial (mp_header m))" "fits64 (ih_mutation (mp_header m))" using assms(1) by (simp_all add: mapping_fits_def header_fits_def)
  show "fits64 (highest_serial m saved)"
    using h assms(2) last_in_set [of saved] by (auto simp: highest_serial_def saved_fits_def entry_fits_def)
  have "fits64 v \<Longrightarrow> fits64 (foldl (\<lambda>high s. max high (en_mutation (sv_entry s))) v saved)" for v
    using assms(2) by (induction saved arbitrary: v) (auto simp: saved_fits_def entry_fits_def)
  then show "fits64 (highest_mutation m saved)" using h by (simp add: highest_mutation_def)
qed

lemma Carrier_reconcile_fits:
  assumes "carrier_fits c" and "mapping_fits m"
  shows "op_fits (Carrier_reconcile room c m guest)"
proof -
  have "op_fits (reconcile_repair c m saved completed)" if saved: "\<forall>s \<in> set saved. saved_fits s" for saved completed
  proof -
    have "stores_fit (case newest_discovery m saved of None \<Rightarrow> []
        | Some s \<Rightarrow> finish_discovery (en_request (sv_entry s)) (en_discovery (sv_entry s)))"
      using saved by (auto simp: saved_fits_def entry_fits_def intro!: finish_discovery_fits dest!: newest_in split: option.split)
    then show ?thesis using highest_fits [OF assms(2) saved] repair_records_fits [OF saved] finish_completions_fits
      unfolding reconcile_repair_def by (intro op_fits_and_then) (auto split: prod.split)
  qed
  then show ?thesis using Carrier_scan_fits [OF assms] unfolding Carrier_reconcile_def by (intro op_fits_intros) auto
qed

section \<open>Every history\<close>

lemma create_fits:
  assumes "Geometry_new queues queue_size = Inr g" and "fits64 (id_epoch identity)" "fits64 (id_attachment identity)" "fits64 p"
    and "Carrier_create (Inr ()) (Inr ()) g identity image_bytes p = Inr (c, m)"
  shows "carrier_fits c" "mapping_fits m"
proof -
  have g: "ge_queues g \<le> 4" "ge_queue_size g \<le> 256" using assms(1) by (auto simp: Geometry_new_def split: if_splits)
  have c: "c = \<lparr>ca_geometry = g, ca_identity = identity, ca_image_bytes = image_bytes\<rparr>" using assms(5) by (simp add: Carrier_create_def)
  show "carrier_fits c" using g assms(3) by (simp add: carrier_fits_def c)
  have words: "list_all fits64 (map nat_of_le (chunks 8 bs))" for bs
  proof -
    have "fits64 (nat_of_le x)" if "x \<in> set (chunks 8 bs)" for x
      using nat_of_le_bound [of x] that by (auto simp: in_set_conv_nth u64_max_def subrange_def)
    then show ?thesis by (simp add: list_all_iff)
  qed
  have "MAGIC \<le> u64_max" by (simp add: MAGIC_def ascii_def u64_max_def)
  then show "mapping_fits m" using assms words g
    by (auto simp: Carrier_create_def zero_mapping_def width_defs on_header_def VERSION_def layout_sizes)
qed

lemma operation_fits: "operation c w es \<Longrightarrow> carrier_fits c \<Longrightarrow> mapping_fits (wo_mapping w) \<Longrightarrow> stores_fit es"
  by (induction rule: operation.induct)
    (metis Carrier_discover_fits Carrier_admit_outcome_fits Carrier_complete_fits Carrier_publish_fits Carrier_initialize_queue_fits op_fits_pair)+

lemma healthy_history_fits: "healthy_history c up w \<Longrightarrow> carrier_fits c \<and> mapping_fits (wo_mapping w)"
proof (induction rule: healthy_history.induct)
  case (created queues queue_size g identity p image_bytes c m guest)
  then show ?case using create_fits by simp
next
  case (operated c w es)
  then show ?case using operation_fits run_fits by blast
next
  case (rebased c w q a used es x)
  then have "stores_fit es" using Carrier_reset_queue_fits op_fits_pair by metis
  then show ?case using rebased.IH run_fits [of es "w\<lparr>wo_guest := (wo_guest w)(q := used)\<rparr>"] by simp
next
  case (died c w es w')
  then show ?case using operation_fits crashed_fits by blast
next
  case (interrupted c up w room es r w')
  then show ?case using Carrier_reconcile_fits crashed_fits op_fits_pair by metis
next
  case (reconciled c up w room es r)
  then show ?case using Carrier_reconcile_fits run_fits op_fits_pair by metis
qed simp_all

lemma failure_fits: "failure c w es \<Longrightarrow> carrier_fits c \<Longrightarrow> stores_fit es"
proof (induction rule: failure.induct)
  case (fail_publication guest e used c w x es r)
  then show ?case using prepare_completion_fits [of c "wo_mapping w" e used False]
    by (auto simp: Carrier_complete_def and_then_def Carrier_fail_def publish_guest_def op_fits_def split: sum.splits)
next
  case (retire_error c w e used es r)
  then show ?case using prepare_completion_fits [of c "wo_mapping w" e used True] finish_completion_fits [of c e "used + 1"]
    by (auto simp: Carrier_complete_error_def and_then_def publish_guest_def op_fits_def split: sum.splits)
next
  case (retire_unpublished guest e used c w x es r)
  then show ?case using prepare_completion_fits [of c "wo_mapping w" e used True]
    by (auto simp: Carrier_complete_error_def and_then_def publish_guest_def op_fits_def split: sum.splits)
qed (simp add: Carrier_fail_def)

lemma history_fits: "history c up w \<Longrightarrow> carrier_fits c \<and> mapping_fits (wo_mapping w)"
proof (induction rule: history.induct)
  case (healthy c up w)
  then show ?case by (rule healthy_history_fits)
next
  case (failed c w es)
  then show ?case using failure_fits run_fits by blast
next
  case (died_failing c w es w')
  then show ?case using failure_fits crashed_fits by blast
qed simp_all

text \<open>
  C36. In every history of a carrier, alive, dead or half repaired, every atomic of the mapping holds a value of its width: no counter
  overflows, and what an operation reads is what was stored.
\<close>

theorem inflight_fits_widths:
  assumes "history c up w"
  shows "mapping_fits (wo_mapping w)"
  using history_fits [OF assms] by simp

lemma inflight_fits_widths_witness: "mapping_fits (wo_mapping demo_published)"
  by (rule inflight_fits_widths [OF healthy [OF demo_histories(3)]])

end
