(* ===== verification/Io_Slots.thy ===== *)
theory Io_Slots
  imports Prelude
begin

text \<open>
  The fixed table of I/O slots of an image's reactor, \<^verbatim>\<open>daemon/src/local/reactor/slots.rs\<close>, with the tokens that
  \<^verbatim>\<open>Reactor::enqueue\<close> issues. A slot is found by the token modulo the capacity and holds the whole token, so a completion
  that the kernel delivers for a token of an earlier generation finds nothing. The locale \<open>token_table\<close> states what that
  argument needs of a table.
\<close>

section \<open>The table\<close>

record 'a Slots =
  so_entries :: "(nat \<times> 'a) option list"
  so_len :: nat

definition Slots_new :: "unit result \<Rightarrow> nat \<Rightarrow> 'a Slots result" where
  "Slots_new room capacity =
     (if capacity = 0 then Inl (InvalidInput '''')
      else attempt room (\<lambda>_. Inr \<lparr>so_entries = replicate capacity None, so_len = 0\<rparr>))"

definition Slots_index :: "'a Slots \<Rightarrow> nat \<Rightarrow> nat" where
  "Slots_index s token = token mod length (so_entries s)"

fun next_free :: "'a Slots \<Rightarrow> nat \<Rightarrow> nat list \<Rightarrow> nat option" where
  "next_free s start [] = None"
| "next_free s start (offset # os) =
     (case nchecked_add start offset of
        None \<Rightarrow> None
      | Some token \<Rightarrow> if so_entries s ! Slots_index s token = None then Some token else next_free s start os)"

definition Slots_next :: "'a Slots \<Rightarrow> nat \<Rightarrow> nat option" where
  "Slots_next s start = next_free s start [0..<length (so_entries s)]"

definition Slots_insert :: "'a Slots \<Rightarrow> nat \<Rightarrow> 'a \<Rightarrow> 'a Slots result" where
  "Slots_insert s token v =
     (if so_entries s ! Slots_index s token \<noteq> None then Inl (Panic ''IO token slot is still occupied'')
      else Inr (s\<lparr>so_entries := (so_entries s)[Slots_index s token := Some (token, v)], so_len := so_len s + 1\<rparr>))"

definition Slots_get :: "'a Slots \<Rightarrow> nat \<Rightarrow> 'a option" where
  "Slots_get s token =
     (case so_entries s ! Slots_index s token of None \<Rightarrow> None | Some (key, v) \<Rightarrow> if key = token then Some v else None)"

definition Slots_remove :: "'a Slots \<Rightarrow> nat \<Rightarrow> 'a Slots \<times> 'a option" where
  "Slots_remove s token =
     (case Slots_get s token of
        None \<Rightarrow> (s, None)
      | Some v \<Rightarrow> (s\<lparr>so_entries := (so_entries s)[Slots_index s token := None], so_len := so_len s - 1\<rparr>, Some v))"

definition Slots_is_empty :: "'a Slots \<Rightarrow> bool" where
  "Slots_is_empty s \<longleftrightarrow> so_len s = 0"

definition Slots_iter :: "'a Slots \<Rightarrow> (nat \<times> 'a) list" where
  "Slots_iter s = List.map_filter (\<lambda>e. e) (so_entries s)"

definition Slots_values :: "'a Slots \<Rightarrow> 'a list" where
  "Slots_values s = map snd (Slots_iter s)"

definition first_match :: "'a Slots \<Rightarrow> ('a \<Rightarrow> bool) \<Rightarrow> nat option" where
  "first_match s matches = map_option fst (find (\<lambda>(_, v). matches v) (Slots_iter s))"

definition Slots_remove_first :: "'a Slots \<Rightarrow> ('a \<Rightarrow> bool) \<Rightarrow> 'a Slots \<times> 'a option" where
  "Slots_remove_first s matches =
     (case first_match s matches of None \<Rightarrow> (s, None) | Some token \<Rightarrow> Slots_remove s token)"

definition Slots_leak :: "'a Slots \<Rightarrow> 'a Slots" where
  "Slots_leak s = s\<lparr>so_entries := map (\<lambda>_. None) (so_entries s), so_len := 0\<rparr>"

text \<open>How \<^verbatim>\<open>Reactor::enqueue\<close> takes a token: the next free one, and the counter moves behind it.\<close>

definition Reactor_issue :: "'a Slots \<Rightarrow> nat \<Rightarrow> 'a \<Rightarrow> (nat \<times> nat \<times> 'a Slots) option result" where
  "Reactor_issue s next_token v =
     (case Slots_next s next_token of
        None \<Rightarrow> Inr None
      | Some token \<Rightarrow> (case nchecked_add token 1 of
          None \<Rightarrow> Inr None
        | Some n \<Rightarrow> attempt (Slots_insert s token v) (\<lambda>s. Inr (Some (token, n, s)))))"

section \<open>Tables of tokens\<close>

locale token_table =
  fixes valid :: "'t \<Rightarrow> bool" and look :: "'t \<Rightarrow> nat \<Rightarrow> 'v option"
    and issue :: "'t \<Rightarrow> nat \<Rightarrow> 'v \<Rightarrow> (nat \<times> nat \<times> 't) option result" and retire :: "'t \<Rightarrow> nat \<Rightarrow> 't \<times> 'v option"
    and clear :: "'t \<Rightarrow> 't"
  assumes issue_ok: "valid t \<Longrightarrow> issue t n v \<noteq> Inl e"
    and issue_look: "valid t \<Longrightarrow> issue t n v = Inr (Some (k, n', t')) \<Longrightarrow> valid t' \<and> n \<le> k \<and> k < n' \<and> look t' = (look t)(k \<mapsto> v)"
    and retire_look: "valid t \<Longrightarrow> retire t k = (t', r) \<Longrightarrow> valid t' \<and> r = look t k \<and> look t' = (look t)(k := None)"
    and clear_look: "valid t \<Longrightarrow> valid (clear t) \<and> look (clear t) = Map.empty"
begin

text \<open>A use of the table: \<open>live\<close> is what was issued and not retired.\<close>

inductive used :: "'t \<Rightarrow> nat \<Rightarrow> (nat \<rightharpoonup> 'v) \<Rightarrow> nat set \<Rightarrow> bool" where
  fresh: "valid t \<Longrightarrow> look t = Map.empty \<Longrightarrow> used t n Map.empty {}"
| issued: "used t n live retired \<Longrightarrow> issue t n v = Inr (Some (k, n', t')) \<Longrightarrow> used t' n' (live(k \<mapsto> v)) retired"
| retired: "used t n live retired \<Longrightarrow> retire t k = (t', Some v) \<Longrightarrow> used t' n (live(k := None)) (insert k retired)"
| cleared: "used t n live retired \<Longrightarrow> used (clear t) n Map.empty (retired \<union> dom live)"

lemma used_exact:
  "used t n live gone \<Longrightarrow> valid t \<and> look t = live \<and> dom live \<inter> gone = {} \<and> (\<forall>k \<in> dom live \<union> gone. k < n)"
proof (induction rule: used.induct)
  case (issued t n live gone v k n' t')
  then have "valid t' \<and> n \<le> k \<and> k < n' \<and> look t' = (look t)(k \<mapsto> v)" using issue_look by blast
  moreover have "j < n'" if "j \<in> dom live \<union> gone" for j 
  proof -
    have "j < n" using issued.IH that by blast
    then show ?thesis using calculation by linarith
  qed
  moreover have "k \<notin> gone" using issued.IH calculation by (meson UnI2 leD)
  moreover have "dom (live(k \<mapsto> v)) = insert k (dom live)" by (rule dom_fun_upd [THEN trans]) simp
  ultimately show ?case using issued.IH by (metis Int_insert_left Un_insert_left insert_iff)
next
  case (retired t n live gone k t' v)
  then have "valid t'" "look t' = live(k := None)" "live k = Some v" using retire_look by metis+
  moreover have "dom (live(k := None)) = dom live - {k}" by (rule dom_fun_upd [THEN trans]) simp
  moreover have "k \<in> dom live" using \<open>live k = Some v\<close> by blast
  ultimately show ?case using retired.IH by (metis (no_types, lifting) Diff_iff Diff_insert_absorb Diff_Int_distrib2 Diff_cancel Int_insert_right UnE UnI1 UnI2
        empty_Diff insertE insertI1)
next
  case (cleared t n live gone)
  then show ?case using clear_look by auto
qed auto

lemma stale_token_absent: "used t n live gone \<Longrightarrow> k \<in> gone \<Longrightarrow> look t k = None"
  using used_exact by fastforce

end

section \<open>The slots are such a table\<close>

definition slots_ok :: "'a Slots \<Rightarrow> bool" where
  "slots_ok s \<longleftrightarrow> 0 < length (so_entries s) \<and> so_len s = length (Slots_iter s)
     \<and> (\<forall>i < length (so_entries s). \<forall>k v. so_entries s ! i = Some (k, v) \<longrightarrow> k mod length (so_entries s) = i)"

lemma mem_map_filter: "x \<in> set (List.map_filter (\<lambda>e. e) xs) \<longleftrightarrow> Some x \<in> set xs"
  by (induction xs) (auto simp: List.map_filter_simps split: option.splits)

lemma map_filter_update:
  "i < length xs \<Longrightarrow> length (List.map_filter (\<lambda>e. e) (xs[i := Some y])) = (if xs ! i = None then 1 else 0) + length (List.map_filter (\<lambda>e. e) xs)"
  "i < length xs \<Longrightarrow> length (List.map_filter (\<lambda>e. e) xs) = (if xs ! i = None then 0 else 1) + length (List.map_filter (\<lambda>e. e) (xs[i := None]))"
  by (induction xs arbitrary: i) (auto simp: List.map_filter_simps split: nat.splits option.splits)

lemma Slots_index_less: "slots_ok s \<Longrightarrow> Slots_index s k < length (so_entries s)"
  by (simp add: Slots_index_def slots_ok_def)

lemma entry_token:
  assumes "slots_ok s" and "so_entries s ! Slots_index s k = None" and "k' mod length (so_entries s) = Slots_index s k"
  shows "Slots_get s k' = None"
  using assms by (simp add: Slots_get_def Slots_index_def)

lemma Slots_insert_ok:
  assumes "slots_ok s" and "so_entries s ! Slots_index s k = None"
  shows "\<exists>s'. Slots_insert s k v = Inr s' \<and> slots_ok s' \<and> Slots_get s' = (Slots_get s)(k \<mapsto> v)
    \<and> length (so_entries s') = length (so_entries s)"
proof -
  let ?s = "s\<lparr>so_entries := (so_entries s)[Slots_index s k := Some (k, v)], so_len := so_len s + 1\<rparr>"
  note i = Slots_index_less [OF assms(1), of k]
  have "slots_ok ?s"
    using assms i map_filter_update(1) [OF i, of "(k, v)"] by (auto simp: slots_ok_def Slots_iter_def nth_list_update Slots_index_def)
  moreover have "Slots_get ?s = (Slots_get s)(k \<mapsto> v)"
    using i assms(2) by (auto simp: Slots_get_def Slots_index_def nth_list_update fun_eq_iff split: option.splits)
  ultimately show ?thesis using assms(2) by (simp add: Slots_insert_def)
qed

lemma Slots_remove_ok:
  assumes "slots_ok s" and "Slots_remove s k = (s', r)"
  shows "slots_ok s' \<and> r = Slots_get s k \<and> Slots_get s' = (Slots_get s)(k := None) \<and> length (so_entries s') = length (so_entries s)"
proof (cases "Slots_get s k")
  case None
  then show ?thesis using assms by (auto simp: Slots_remove_def fun_eq_iff)
next
  case (Some v)
  note i = Slots_index_less [OF assms(1), of k]
  have e: "so_entries s ! Slots_index s k = Some (k, v)"
    using Some by (auto simp: Slots_get_def split: option.splits if_splits)
  have s': "s' = s\<lparr>so_entries := (so_entries s)[Slots_index s k := None], so_len := so_len s - 1\<rparr>" "r = Some v"
    using assms(2) Some by (auto simp: Slots_remove_def)
  have "slots_ok s'"
    using assms(1) i map_filter_update(2) [OF i] e by (auto simp: s' slots_ok_def Slots_iter_def nth_list_update)
  moreover have "Slots_get s' j = ((Slots_get s)(k := None)) j" for j
  proof (cases "Slots_index s j = Slots_index s k")
    case True
    then show ?thesis using i e by (auto simp: s' Slots_get_def Slots_index_def)
  next
    case False
    then show ?thesis using i by (auto simp: s' Slots_get_def Slots_index_def)
  qed
  then have "Slots_get s' = (Slots_get s)(k := None)" by (rule ext)
  ultimately show ?thesis using Some by (simp add: s')
qed

lemma next_free_Some:
  "next_free s start os = Some k \<Longrightarrow> so_entries s ! Slots_index s k = None \<and> (\<exists>d \<in> set os. k = start + d) \<and> k \<le> u64_max"
  by (induction s start os rule: next_free.induct) (auto simp: nchecked_add_def split: option.splits if_splits)

lemma next_free_None:
  "next_free s start os = None \<Longrightarrow> \<forall>d \<in> set os. start + d \<le> u64_max \<Longrightarrow> \<forall>d \<in> set os. so_entries s ! Slots_index s (start + d) \<noteq> None"
  by (induction s start os rule: next_free.induct) (auto simp: nchecked_add_def split: option.splits if_splits)

lemma Slots_next_Some: "Slots_next s n = Some k \<Longrightarrow> so_entries s ! Slots_index s k = None \<and> n \<le> k \<and> k < n + length (so_entries s)"
  unfolding Slots_next_def by (drule next_free_Some) auto

lemma Reactor_issue_Some:
  assumes "slots_ok s" and "Reactor_issue s n v = Inr (Some (k, n', s'))"
  shows "slots_ok s' \<and> n \<le> k \<and> k < n' \<and> Slots_get s' = (Slots_get s)(k \<mapsto> v) \<and> length (so_entries s') = length (so_entries s)"
proof -
  obtain "Slots_next s n = Some k" "n' = k + 1" "Slots_insert s k v = Inr s'"
    using assms(2) by (auto simp: Reactor_issue_def nchecked_add_def split: option.splits if_splits)
  moreover from this(1) have "so_entries s ! Slots_index s k = None" "n \<le> k"
    using Slots_next_Some by blast+
  ultimately show ?thesis using Slots_insert_ok [OF assms(1), of k v] by auto
qed

lemma Reactor_issue_no_panic: "slots_ok s \<Longrightarrow> Reactor_issue s n v \<noteq> Inl e"
proof
  assume ok: "slots_ok s" and "Reactor_issue s n v = Inl e"
  then obtain k where "Slots_next s n = Some k" "Slots_insert s k v = Inl e"
    by (auto simp: Reactor_issue_def attempt_def split: option.splits sum.splits)
  moreover from this(1) have "so_entries s ! Slots_index s k = None" using Slots_next_Some by blast
  ultimately show False using Slots_insert_ok [OF ok, of k v] by auto
qed

interpretation io: token_table slots_ok Slots_get Reactor_issue Slots_remove Slots_leak
proof unfold_locales
  show "Reactor_issue t n v \<noteq> Inl e" if "slots_ok t" for t :: "'a Slots" and n v e using that by (rule Reactor_issue_no_panic)
  show "slots_ok t' \<and> n \<le> k \<and> k < n' \<and> Slots_get t' = (Slots_get t)(k \<mapsto> v)"
    if "slots_ok t" "Reactor_issue t n v = Inr (Some (k, n', t'))" for t t' :: "'a Slots" and n v k n' using Reactor_issue_Some [OF that] by simp
  show "slots_ok t' \<and> r = Slots_get t k \<and> Slots_get t' = (Slots_get t)(k := None)"
    if "slots_ok t" "Slots_remove t k = (t', r)" for t t' :: "'a Slots" and k r using Slots_remove_ok [OF that] by simp
  show "slots_ok (Slots_leak t) \<and> Slots_get (Slots_leak t) = Map.empty" if "slots_ok t" for t :: "'a Slots"
    using that by (auto simp: Slots_leak_def slots_ok_def Slots_iter_def map_filter_def Slots_get_def Slots_index_def fun_eq_iff)
qed

lemma Slots_new_used:
  assumes "Slots_new room capacity = Inr s"
  shows "slots_ok s" "Slots_get s = Map.empty" "length (so_entries s) = capacity"
  using assms
  by (auto simp: Slots_new_def slots_ok_def Slots_iter_def Slots_get_def Slots_index_def fun_eq_iff map_filter_def split: if_splits)

section \<open>Histories of a reactor's table\<close>

text \<open>
  What the reactor does with its table: tokens are issued, completed by number or by the first match, and at last leaked when the
  kernel may still own them. The last argument holds the tokens whose slots were given up.
\<close>

inductive slot_history :: "nat \<Rightarrow> 'a Slots \<Rightarrow> nat \<Rightarrow> (nat \<rightharpoonup> 'a) \<Rightarrow> nat set \<Rightarrow> bool" where
  created: "Slots_new room capacity = Inr s \<Longrightarrow> slot_history capacity s 1 Map.empty {}"
| enqueued: "slot_history capacity s n live gone \<Longrightarrow> Reactor_issue s n v = Inr (Some (k, n', s')) \<Longrightarrow>
     slot_history capacity s' n' (live(k \<mapsto> v)) gone"
| completed: "slot_history capacity s n live gone \<Longrightarrow> Slots_remove s k = (s', Some v) \<Longrightarrow>
     slot_history capacity s' n (live(k := None)) (insert k gone)"
| stale: "slot_history capacity s n live gone \<Longrightarrow> Slots_remove s k = (s', None) \<Longrightarrow> slot_history capacity s' n live gone"
| first: "slot_history capacity s n live gone \<Longrightarrow> first_match s P = Some k \<Longrightarrow> Slots_remove_first s P = (s', Some v) \<Longrightarrow>
     slot_history capacity s' n (live(k := None)) (insert k gone)"
| leaked: "slot_history capacity s n live gone \<Longrightarrow> slot_history capacity (Slots_leak s) n Map.empty (gone \<union> dom live)"

lemma iter_dom: "slots_ok s \<Longrightarrow> dom (Slots_get s) = fst ` set (Slots_iter s)"
proof (intro set_eqI iffI)
  fix k
  assume ok: "slots_ok s"
  show "k \<in> fst ` set (Slots_iter s)" if "k \<in> dom (Slots_get s)"
  proof -
    from that obtain v where "so_entries s ! Slots_index s k = Some (k, v)"
      by (auto simp: Slots_get_def split: option.splits if_splits)
    then have "(k, v) \<in> set (Slots_iter s)"
      using Slots_index_less [OF ok, of k] unfolding Slots_iter_def mem_map_filter by (auto simp: in_set_conv_nth)
    then show ?thesis by force
  qed
  show "k \<in> dom (Slots_get s)" if "k \<in> fst ` set (Slots_iter s)"
  proof -
    from that obtain v where "(k, v) \<in> set (Slots_iter s)" by (metis imageE prod.collapse)
    then obtain i where "i < length (so_entries s)" "so_entries s ! i = Some (k, v)"
      unfolding Slots_iter_def mem_map_filter by (auto simp: in_set_conv_nth)
    then have "Slots_index s k = i" using ok by (auto simp: slots_ok_def Slots_index_def)
    then show ?thesis using \<open>so_entries s ! i = Some (k, v)\<close> by (auto simp: Slots_get_def)
  qed
qed

lemma iter_distinct: "slots_ok s \<Longrightarrow> distinct (map fst (Slots_iter s))"
proof -
  assume ok: "slots_ok s"
  have "distinct (map fst (List.map_filter (\<lambda>e. e) xs))"
    if "\<And>i j k v w. i < length xs \<Longrightarrow> j < length xs \<Longrightarrow> xs ! i = Some (k, v) \<Longrightarrow> xs ! j = Some (k, w) \<Longrightarrow> i = j" for xs :: "(nat \<times> 'a) option list"
    using that
  proof (induction xs)
    case (Cons x xs)
    have IH: "distinct (map fst (List.map_filter (\<lambda>e. e) xs))"
      using Cons.prems by (intro Cons.IH) (metis Suc_less_eq length_Cons nth_Cons_Suc nat.inject)
    show ?case
    proof (cases x)
      case (Some e)
      have "fst e \<noteq> k" if "(k, w) \<in> set (List.map_filter (\<lambda>e. e) xs)" for k w
      proof
        assume "fst e = k"
        from that obtain j where "j < length xs" "xs ! j = Some (k, w)" unfolding mem_map_filter by (auto simp: in_set_conv_nth)
        then show False using Cons.prems [of 0 "Suc j" k "snd e" w] Some \<open>fst e = k\<close> by auto
      qed
      then have "fst e \<notin> fst ` set (List.map_filter (\<lambda>e. e) xs)" by (metis imageE prod.collapse)
      then show ?thesis using IH Some by (simp add: List.map_filter_simps)
    qed (simp add: IH List.map_filter_simps)
  qed (simp add: List.map_filter_simps)
  moreover have "i = j" if "i < length (so_entries s)" "j < length (so_entries s)" "so_entries s ! i = Some (k, v)" "so_entries s ! j = Some (k, w)"
    for i j k v w using ok that unfolding slots_ok_def by metis
  ultimately show ?thesis unfolding Slots_iter_def by blast
qed

lemma len_card: "slots_ok s \<Longrightarrow> so_len s = card (dom (Slots_get s))"
  using iter_dom [of s] distinct_card [OF iter_distinct, of s] by (simp add: slots_ok_def)

lemma map_filter_le: "length (List.map_filter (\<lambda>e. e) xs) \<le> length xs"
  by (induction xs) (auto simp: List.map_filter_simps split: option.splits)

lemma map_filter_full: "length (List.map_filter (\<lambda>e. e) xs) = length xs \<longleftrightarrow> None \<notin> set xs"
proof (induction xs)
  case (Cons x xs)
  then show ?case using map_filter_le [of xs] by (cases x) (auto simp: List.map_filter_simps)
qed (simp add: List.map_filter_simps)

lemma every_residue: "i < c \<Longrightarrow> \<exists>d < c. (n + d) mod c = (i :: nat)"
proof -
  assume i: "i < c"
  let ?d = "(i + (c - n mod c)) mod c"
  have "n mod c + (i + (c - n mod c)) = i + c" using mod_less_divisor [of c n] i by linarith
  then have "(n + ?d) mod c = i" using i by (metis mod_add_eq mod_add_right_eq mod_add_self2 mod_less mod_mod_trivial)
  then show ?thesis using i by (metis gr_implies_not_zero mod_less_divisor neq0_conv)
qed

lemma Slots_next_full:
  assumes ok: "slots_ok s" and room: "n + length (so_entries s) \<le> u64_max"
  shows "Slots_next s n = None \<longleftrightarrow> so_len s = length (so_entries s)"
proof
  assume "Slots_next s n = None"
  then have "\<forall>d \<in> set [0..<length (so_entries s)]. so_entries s ! Slots_index s (n + d) \<noteq> None"
    unfolding Slots_next_def by (rule next_free_None) (use room in auto)
  then have "so_entries s ! i \<noteq> None" if "i < length (so_entries s)" for i
    using every_residue [OF that, of n] by (auto simp: Slots_index_def)
  then have "None \<notin> set (so_entries s)" by (metis in_set_conv_nth)
  then show "so_len s = length (so_entries s)" using ok map_filter_full [of "so_entries s"] by (simp add: slots_ok_def Slots_iter_def)
next
  assume "so_len s = length (so_entries s)"
  then have "None \<notin> set (so_entries s)" using ok map_filter_full [of "so_entries s"] by (simp add: slots_ok_def Slots_iter_def)
  then show "Slots_next s n = None"
    using Slots_next_Some [of s n] Slots_index_less [OF ok] by (metis nth_mem option.exhaust)
qed

lemma slot_history_used: "slot_history capacity s n live gone \<Longrightarrow> io.used s n live gone \<and> length (so_entries s) = capacity"
proof (induction rule: slot_history.induct)
  case (created room capacity s)
  then show ?case using Slots_new_used io.fresh by blast
next
  case (enqueued capacity s n live gone v k n' s')
  then show ?case using io.issued Reactor_issue_Some io.used_exact by metis
next
  case (completed capacity s n live gone k s' v)
  then show ?case using io.retired Slots_remove_ok io.used_exact by metis
next
  case (stale capacity s n live gone k s')
  then have "s' = s" by (auto simp: Slots_remove_def split: option.splits)
  then show ?case using stale by simp
next
  case (first capacity s n live gone P k s' v)
  then have "Slots_remove s k = (s', Some v)" by (simp add: Slots_remove_first_def)
  then show ?case using first.IH io.retired Slots_remove_ok io.used_exact by metis
next
  case (leaked capacity s n live gone)
  have "length (so_entries (Slots_leak s)) = length (so_entries s)" by (simp add: Slots_leak_def)
  then show ?case using leaked.IH io.cleared by metis
qed

text \<open>
  C37. In every history of a reactor's I/O table a token finds exactly what was issued under it and not yet completed: the count is
  that of the live tokens, a token of an earlier generation finds and removes nothing, issuing a token never meets an occupied
  slot, and it is refused only when every slot is taken or the token counter is exhausted.
\<close>

theorem io_slots_exact:
  assumes "slot_history capacity s n live gone"
  shows "Slots_get s = live \<and> so_len s = card (dom live) \<and> (\<forall>k \<in> gone. Slots_get s k = None \<and> Slots_remove s k = (s, None))
    \<and> (\<forall>v e. Reactor_issue s n v \<noteq> Inl e)
    \<and> (n + capacity \<le> u64_max \<longrightarrow> (\<forall>v. Reactor_issue s n v = Inr None \<longleftrightarrow> card (dom live) = capacity))"
proof -
  note used = slot_history_used [OF assms, THEN conjunct1] and cap = slot_history_used [OF assms, THEN conjunct2]
  note exact = io.used_exact [OF used]
  have ok: "slots_ok s" and live: "Slots_get s = live" using exact by blast+
  have len: "so_len s = card (dom live)" using len_card [OF ok] live by simp
  have gone: "Slots_get s k = None \<and> Slots_remove s k = (s, None)" if "k \<in> gone" for k
    using io.stale_token_absent [OF used that] by (simp add: Slots_remove_def)
  have full: "Reactor_issue s n v = Inr None \<longleftrightarrow> card (dom live) = capacity" if "n + capacity \<le> u64_max" for v
  proof -
    have none: "Slots_next s n = None \<longleftrightarrow> card (dom live) = capacity" using Slots_next_full [OF ok] that len cap by simp
    show ?thesis
    proof (cases "Slots_next s n")
      case None
      then show ?thesis using none by (simp add: Reactor_issue_def)
    next
      case (Some k)
      then obtain s' where "Slots_insert s k v = Inr s'" using Slots_insert_ok [OF ok] Slots_next_Some by blast
      moreover have "nchecked_add k 1 = Some (k + 1)" using Slots_next_Some [OF Some] cap that by (simp add: nchecked_add_def)
      ultimately show ?thesis using Some none by (simp add: Reactor_issue_def nchecked_add_def)
    qed
  qed
  show ?thesis using live len gone full io.issue_ok [OF ok] by blast
qed

definition demo_table :: "nat Slots" where
  "demo_table = \<lparr>so_entries = [None, Some (1, 7)], so_len = 1\<rparr>"

lemma demo_table_history: "slot_history 2 demo_table 2 [1 \<mapsto> 7] {}"
proof -
  have "Slots_new (Inr ()) 2 = Inr \<lparr>so_entries = [None, None], so_len = 0\<rparr>" by (simp add: Slots_new_def numeral_2_eq_2)
  from created [OF this] have "slot_history 2 \<lparr>so_entries = [None, None], so_len = 0\<rparr> 1 (\<lambda>_. None :: nat option) {}" by simp
  moreover have "Reactor_issue \<lparr>so_entries = [None, None], so_len = 0\<rparr> 1 7 = Inr (Some (1, 2, demo_table))"
    by (simp add: Reactor_issue_def Slots_next_def nchecked_add_def u64_max_def Slots_index_def Slots_insert_def demo_table_def)
  ultimately show ?thesis by (rule enqueued [where v = 7])
qed

lemma io_slots_exact_witness: "Slots_get demo_table = [1 \<mapsto> 7] \<and> Reactor_issue demo_table 2 5 \<noteq> Inr None"
  using io_slots_exact [OF demo_table_history] by (auto simp: u64_max_def)

end
