(* ===== verification/Host_Gate.thy ===== *)
theory Host_Gate
  imports Prelude
begin

text \<open>
  The admission gate of a host, \<^verbatim>\<open>daemon/src/local/host/admission.rs\<close>: guest requests enter it and leave it,
  and collection pauses it, waits until every guest has left, runs, and opens it again. Every method is a critical section
  of one mutex; the handles \<^verbatim>\<open>Entry\<close> and \<^verbatim>\<open>Quiescence\<close> live outside it. A step of \<open>gate_step\<close> is one
  section by the owner of some handle, so a reachable state is one of any interleaving. Whom a method wakes is part of its
  result; the outcome of the event descriptors is an argument.
\<close>

section \<open>State\<close>

record GateStatus =
  gs_generation :: nat
  gs_active :: nat
  gs_paused :: bool
  gs_running :: bool
  gs_failed :: bool

record Quiescence =
  qu_generation :: nat
  qu_started :: bool
  qu_released :: bool

definition Status_default :: GateStatus where
  "Status_default = \<lparr>gs_generation = 0, gs_active = 0, gs_paused = False, gs_running = False, gs_failed = False\<rparr>"

text \<open>A poisoned mutex is taken over with the gate shut.\<close>

definition Admission_lock :: "bool \<Rightarrow> GateStatus \<Rightarrow> GateStatus" where
  "Admission_lock poisoned s = (if poisoned then s\<lparr>gs_failed := True, gs_paused := True\<rparr> else s)"

section \<open>Wakes\<close>

text \<open>Per image: not bound, or bound with its attachment flag. A wake is the list of event descriptors written.\<close>

datatype Event = Frontend nat | Reactor nat

type_synonym wakes = "bool option list"

definition Admission_bind :: "wakes \<Rightarrow> nat \<Rightarrow> wakes result" where
  "Admission_bind ws index =
     (if index \<ge> length ws then Inl (InvalidInput '''')
      else if ws ! index \<noteq> None then Inl (Other ''duplicate image wake binding'')
      else Inr (ws[index := Some True]))"

definition Admission_attached :: "wakes \<Rightarrow> nat \<Rightarrow> bool result" where
  "Admission_attached ws index =
     (if index \<ge> length ws then Inl (Panic ''index out of bounds'') else Inr (ws ! index = Some True))"

definition Admission_detach :: "wakes \<Rightarrow> nat \<Rightarrow> wakes result" where
  "Admission_detach ws index =
     (if index \<ge> length ws then Inl (Panic ''index out of bounds'')
      else Inr (if ws ! index = None then ws else ws[index := Some False]))"

definition wake_frontend :: "(Event \<Rightarrow> unit result) \<Rightarrow> wakes \<Rightarrow> nat \<Rightarrow> Event list \<times> unit result" where
  "wake_frontend notify ws index =
     (if index < length ws \<and> ws ! index = Some True then ([Frontend index], notify (Frontend index)) else ([], Inr ()))"

fun wake_all :: "(Event \<Rightarrow> unit result) \<Rightarrow> nat \<Rightarrow> wakes \<Rightarrow> Event list \<times> unit result" where
  "wake_all notify i [] = ([], Inr ())"
| "wake_all notify i (None # ws) = wake_all notify (Suc i) ws"
| "wake_all notify i (Some _ # ws) =
     (case notify (Frontend i) of
        Inl e \<Rightarrow> ([Frontend i], Inl e)
      | Inr _ \<Rightarrow> (case notify (Reactor i) of
          Inl e \<Rightarrow> ([Frontend i, Reactor i], Inl e)
        | Inr _ \<Rightarrow> (case wake_all notify (Suc i) ws of (es, r) \<Rightarrow> (Frontend i # Reactor i # es, r))))"

definition Admission_wake :: "(Event \<Rightarrow> unit result) \<Rightarrow> wakes \<Rightarrow> Event list \<times> unit result" where
  "Admission_wake notify ws = wake_all notify 0 ws"

section \<open>Entering, leaving and pausing\<close>

definition Admission_enter :: "GateStatus \<Rightarrow> GateStatus \<times> bool" where
  "Admission_enter s =
     (if gs_failed s \<or> gs_paused s then (s, False)
      else case nchecked_add (gs_active s) 1 of None \<Rightarrow> (s, False) | Some n \<Rightarrow> (s\<lparr>gs_active := n\<rparr>, True))"

definition Entry_drop :: "GateStatus \<Rightarrow> GateStatus result" where
  "Entry_drop s =
     (if gs_active s = 0 then Inl (Panic ''attempt to subtract with overflow'') else Inr (s\<lparr>gs_active := gs_active s - 1\<rparr>))"

definition Admission_pause :: "GateStatus \<Rightarrow> (GateStatus \<times> Quiescence) result" where
  "Admission_pause s =
     (if gs_failed s then Inl (Other ''host admission failed'')
      else if gs_paused s then Inl (WouldBlock '''')
      else attempt (ok_or (nchecked_add (gs_generation s) 1) (Other ''quiescence generation exhausted'')) (\<lambda>generation.
        Inr (s\<lparr>gs_generation := generation, gs_paused := True\<rparr>,
             \<lparr>qu_generation = generation, qu_started = False, qu_released = False\<rparr>)))"

definition Quiescence_fail :: "GateStatus \<Rightarrow> GateStatus" where
  "Quiescence_fail s = s\<lparr>gs_failed := True, gs_paused := True\<rparr>"

definition Quiescence_drained :: "GateStatus \<Rightarrow> bool" where
  "Quiescence_drained s \<longleftrightarrow> gs_active s = 0"

definition Quiescence_begin :: "GateStatus \<Rightarrow> Quiescence \<Rightarrow> (GateStatus \<times> Quiescence) result" where
  "Quiescence_begin s q =
     (if gs_failed s \<or> gs_generation s \<noteq> qu_generation q \<or> qu_started q then Inl (Other ''invalid quiescence start'')
      else if gs_active s \<noteq> 0 then Inl (WouldBlock '''')
      else Inr (s\<lparr>gs_running := True\<rparr>, q\<lparr>qu_started := True\<rparr>))"

definition Quiescence_drop :: "GateStatus \<Rightarrow> Quiescence \<Rightarrow> GateStatus" where
  "Quiescence_drop s q =
     (if qu_released q then s
      else let s = (if qu_started q then s\<lparr>gs_failed := True\<rparr> else s) in
        if \<not> gs_failed s then s\<lparr>gs_paused := False\<rparr> else s)"

text \<open>\<^verbatim>\<open>finish\<close> consumes its handle: a refused completion drops it unreleased.\<close>

definition Quiescence_finish :: "GateStatus \<Rightarrow> Quiescence \<Rightarrow> GateStatus \<times> unit result" where
  "Quiescence_finish s q =
     (if gs_failed s \<or> gs_generation s \<noteq> qu_generation q \<or> \<not> qu_started q \<or> gs_active s \<noteq> 0
      then (Quiescence_drop s q, Inl (Other ''invalid quiescence completion''))
      else (s\<lparr>gs_running := False, gs_paused := False\<rparr>, Inr ()))"

section \<open>Interleavings\<close>

record GateWorld =
  gw_status :: GateStatus
  gw_entries :: nat
  gw_pauses :: "Quiescence list"

definition gate_start :: GateWorld where
  "gate_start = \<lparr>gw_status = Status_default, gw_entries = 0, gw_pauses = []\<rparr>"

definition drop_nth :: "nat \<Rightarrow> 'a list \<Rightarrow> 'a list" where
  "drop_nth i xs = take i xs @ drop (Suc i) xs"

inductive gate_step :: "GateWorld \<Rightarrow> GateWorld \<Rightarrow> bool" where
  enter: "Admission_enter (gw_status w) = (s, True) \<Longrightarrow> gate_step w (w\<lparr>gw_status := s, gw_entries := gw_entries w + 1\<rparr>)"
| leave: "gw_entries w > 0 \<Longrightarrow> Entry_drop (gw_status w) = Inr s \<Longrightarrow> gate_step w (w\<lparr>gw_status := s, gw_entries := gw_entries w - 1\<rparr>)"
| pause: "Admission_pause (gw_status w) = Inr (s, q) \<Longrightarrow> gate_step w (w\<lparr>gw_status := s, gw_pauses := gw_pauses w @ [q]\<rparr>)"
| begin_gc: "i < length (gw_pauses w) \<Longrightarrow> Quiescence_begin (gw_status w) (gw_pauses w ! i) = Inr (s, q) \<Longrightarrow>
     gate_step w (w\<lparr>gw_status := s, gw_pauses := (gw_pauses w)[i := q]\<rparr>)"
| finish_gc: "i < length (gw_pauses w) \<Longrightarrow> Quiescence_finish (gw_status w) (gw_pauses w ! i) = (s, r) \<Longrightarrow>
     gate_step w (w\<lparr>gw_status := s, gw_pauses := drop_nth i (gw_pauses w)\<rparr>)"
| drop_gc: "i < length (gw_pauses w) \<Longrightarrow>
     gate_step w (w\<lparr>gw_status := Quiescence_drop (gw_status w) (gw_pauses w ! i), gw_pauses := drop_nth i (gw_pauses w)\<rparr>)"
| fail_gc: "i < length (gw_pauses w) \<Longrightarrow> gate_step w (w\<lparr>gw_status := Quiescence_fail (gw_status w)\<rparr>)"
| poisoned: "gate_step w (w\<lparr>gw_status := Admission_lock True (gw_status w)\<rparr>)"

text \<open>
  The invariant. The gate counts its guests; one pause at most is out, it has the current generation, and unless the gate has failed
  the gate is shut exactly while it is; a running collection has an empty, shut gate.
\<close>

definition gate_ok :: "GateWorld \<Rightarrow> bool" where
  "gate_ok w \<longleftrightarrow> (let s = gw_status w in
     gs_active s = gw_entries w
     \<and> (gw_pauses w = [] \<or> (\<exists>q. gw_pauses w = [q] \<and> qu_generation q = gs_generation s \<and> \<not> qu_released q \<and> gs_paused s
          \<and> (\<not> gs_failed s \<longrightarrow> qu_started q = gs_running s)))
     \<and> (\<not> gs_failed s \<longrightarrow> (gs_paused s \<longleftrightarrow> gw_pauses w \<noteq> []) \<and> (gw_pauses w = [] \<longrightarrow> \<not> gs_running s))
     \<and> (gs_failed s \<longrightarrow> gs_paused s)
     \<and> (gs_running s \<longrightarrow> gs_active s = 0 \<and> gs_paused s))"

lemma gate_ok_start: "gate_ok gate_start"
  by (simp add: gate_ok_def gate_start_def Status_default_def)

lemmas gate_defs = Admission_enter_def Entry_drop_def Admission_pause_def Quiescence_fail_def Quiescence_begin_def Quiescence_drop_def
  Quiescence_finish_def Admission_lock_def drop_nth_def Let_def nchecked_add_def

lemma single: "gate_ok w \<Longrightarrow> i < length (gw_pauses w) \<Longrightarrow> \<exists>q. gw_pauses w = [q] \<and> i = 0"
  by (auto simp: gate_ok_def Let_def)

lemma gate_ok_step: "gate_step w w' \<Longrightarrow> gate_ok w \<Longrightarrow> gate_ok w'"
proof (induction rule: gate_step.induct)
  case (enter w s)
  then show ?case by (auto simp: gate_ok_def gate_defs split: if_splits)
next
  case (leave w s)
  then show ?case by (auto simp: gate_ok_def gate_defs split: if_splits)
next
  case (pause w s q)
  then show ?case by (auto simp: gate_ok_def gate_defs split: if_splits)
next
  case (begin_gc i w s q)
  then obtain q0 where "gw_pauses w = [q0]" "i = 0" using single by blast
  then show ?case using begin_gc by (auto simp: gate_ok_def gate_defs split: if_splits)
next
  case (finish_gc i w s r)
  then obtain q0 where "gw_pauses w = [q0]" "i = 0" using single by blast
  then show ?case using finish_gc by (auto simp: gate_ok_def gate_defs split: if_splits)
next
  case (drop_gc i w)
  then obtain q0 where "gw_pauses w = [q0]" "i = 0" using single by blast
  then show ?case using drop_gc by (auto simp: gate_ok_def gate_defs split: if_splits)
next
  case (fail_gc i w)
  then show ?case by (auto simp: gate_ok_def gate_defs)
next
  case (poisoned w)
  then show ?case by (auto simp: gate_ok_def gate_defs)
qed

lemma gate_reachable: "gate_step\<^sup>*\<^sup>* gate_start w \<Longrightarrow> gate_ok w"
  by (induction rule: rtranclp_induct) (auto simp: gate_ok_start gate_ok_step)

text \<open>
  C38. In every interleaving of guests and collectors: the gate counts exactly the guests inside it and leaving never underflows, at
  most one pause is out, and while a collection runs no guest is inside and none gets in.
\<close>

theorem gate_excludes_guests:
  assumes "gate_step\<^sup>*\<^sup>* gate_start w"
  shows "gs_active (gw_status w) = gw_entries w \<and> length (gw_pauses w) \<le> 1
    \<and> (gw_entries w > 0 \<longrightarrow> (\<exists>s. Entry_drop (gw_status w) = Inr s))
    \<and> (gs_running (gw_status w) \<longrightarrow> gw_entries w = 0 \<and> Admission_enter (gw_status w) = (gw_status w, False))"
  using gate_reachable [OF assms] by (auto simp: gate_ok_def Entry_drop_def Admission_enter_def Let_def)

text \<open>
  C39. The gate fails closed, and otherwise opens again: a failed gate stays failed and lets no guest in and no pause start, a
  collector that gives up inside its run fails the gate, one that gives up before it or completes its run reopens the gate,
  and a pause can begin as soon as the guests inside have left.
\<close>

theorem gate_fails_closed:
  assumes "gate_step\<^sup>*\<^sup>* gate_start w"
  shows "(gs_failed (gw_status w) \<longrightarrow> Admission_enter (gw_status w) = (gw_status w, False) \<and> isl (Admission_pause (gw_status w)))
    \<and> (\<forall>w'. gate_step w w' \<longrightarrow> gs_failed (gw_status w) \<longrightarrow> gs_failed (gw_status w'))
    \<and> (\<forall>q \<in> set (gw_pauses w). \<not> gs_failed (gw_status w) \<longrightarrow>
         (qu_started q \<longrightarrow> gs_failed (Quiescence_drop (gw_status w) q)
            \<and> (\<exists>s. Quiescence_finish (gw_status w) q = (s, Inr ()) \<and> \<not> gs_paused s \<and> \<not> gs_running s))
       \<and> (\<not> qu_started q \<longrightarrow> \<not> gs_paused (Quiescence_drop (gw_status w) q)
            \<and> (gw_entries w = 0 \<longrightarrow> (\<exists>s q'. Quiescence_begin (gw_status w) q = Inr (s, q') \<and> gs_running s))))"
proof -
  have ok: "gate_ok w" using gate_reachable [OF assms] .
  have stays: "gs_failed (gw_status w')" if "gate_step w w'" "gs_failed (gw_status w)" for w'
    using that by (cases rule: gate_step.cases) (auto simp: gate_defs split: if_splits)
  have "q \<in> set (gw_pauses w) \<Longrightarrow> gw_pauses w = [q]" for q using ok by (auto simp: gate_ok_def Let_def)
  then show ?thesis using ok stays by (auto simp: gate_ok_def gate_defs)
qed

section \<open>A collection that runs\<close>

definition demo_collecting :: GateWorld where
  "demo_collecting = \<lparr>gw_status = \<lparr>gs_generation = 1, gs_active = 0, gs_paused = True, gs_running = True, gs_failed = False\<rparr>, gw_entries = 0,
     gw_pauses = [\<lparr>qu_generation = 1, qu_started = True, qu_released = False\<rparr>]\<rparr>"

lemma demo_collecting_reachable: "gate_step\<^sup>*\<^sup>* gate_start demo_collecting"
proof -
  let ?q = "\<lparr>qu_generation = 1, qu_started = False, qu_released = False\<rparr>"
  let ?w = "\<lparr>gw_status = \<lparr>gs_generation = 1, gs_active = 0, gs_paused = True, gs_running = False, gs_failed = False\<rparr>, gw_entries = 0,
     gw_pauses = [?q]\<rparr>"
  have "gate_step gate_start ?w"
    using pause [of gate_start "gw_status ?w" ?q] by (simp add: gate_start_def Status_default_def gate_defs u64_max_def)
  moreover have "gate_step ?w demo_collecting"
    using begin_gc [of 0 ?w "gw_status demo_collecting" "?q\<lparr>qu_started := True\<rparr>"] by (simp add: demo_collecting_def gate_defs)
  ultimately show ?thesis by (meson converse_rtranclp_into_rtranclp r_into_rtranclp)
qed

lemma gate_excludes_guests_witness:
  "gs_running (gw_status demo_collecting) \<and> Admission_enter (gw_status demo_collecting) = (gw_status demo_collecting, False)"
  using gate_excludes_guests [OF demo_collecting_reachable] by (simp add: demo_collecting_def)

lemma gate_fails_closed_witness:
  "gs_failed (Quiescence_drop (gw_status demo_collecting) \<lparr>qu_generation = 1, qu_started = True, qu_released = False\<rparr>)"
  using gate_fails_closed [OF demo_collecting_reachable] by (auto simp: demo_collecting_def)

end
