(* ===== verification/Fair_Queue.thy ===== *)
theory Fair_Queue
  imports Prelude
begin

text \<open>
  The fair admission scheduler of a host, \<^verbatim>\<open>daemon/src/local/host/fair.rs\<close>: bounded heads per image, first come
  first served among the ready ones, and deficit round robin in bytes between the images. Every method is one or two critical
  sections of one mutex; the handles \<^verbatim>\<open>Ticket\<close> and \<^verbatim>\<open>Turn\<close> live outside. The image whose frontend a method wakes
  is part of its result. The byte and request counters of an image are statistics, unbounded here.
\<close>

section \<open>State\<close>

definition QUANTUM :: nat where "QUANTUM = MAX_REQUEST_BYTES"
definition HEADS :: nat where "HEADS = 8"

datatype AdmissionKind = AdmitControl | AdmitRead nat | AdmitWrite nat

record FairRequest =
  fq_id :: nat
  fq_bytes :: nat
  fq_ready :: bool

record FairImage =
  fi_queue :: "FairRequest list"
  fi_deficit :: nat
  fi_admitted_bytes :: nat
  fi_admitted :: nat
  fi_canceled :: nat
  fi_deferred :: nat

record FairState =
  fs_images :: "FairImage list"
  fs_cursor :: nat
  fs_replenish :: bool
  fs_next_id :: nat
  fs_granted :: "(nat \<times> nat) option"
  fs_released_during_turn :: bool

definition on_image :: "nat \<Rightarrow> (FairImage \<Rightarrow> FairImage) \<Rightarrow> FairState \<Rightarrow> FairState" where
  "on_image i f s = s\<lparr>fs_images := (fs_images s)[i := f (fs_images s ! i)]\<rparr>"

definition checked_image :: "FairState \<Rightarrow> nat \<Rightarrow> FairImage result" where
  "checked_image s i = (if i < length (fs_images s) then Inr (fs_images s ! i) else Inl (Panic ''index out of bounds''))"

section \<open>Choosing\<close>

definition State_advance :: "FairState \<Rightarrow> FairState" where
  "State_advance s = s\<lparr>fs_cursor := (fs_cursor s + 1) mod length (fs_images s), fs_replenish := True\<rparr>"

fun choose_visits :: "nat \<Rightarrow> FairState \<Rightarrow> (FairState \<times> (nat \<times> nat) option) result" where
  "choose_visits 0 s = Inr (s, None)"
| "choose_visits (Suc n) s =
     attempt (checked_image s (fs_cursor s)) (\<lambda>image.
       case find fq_ready (fi_queue image) of
         None \<Rightarrow> choose_visits n (State_advance (on_image (fs_cursor s) (\<lambda>image. image\<lparr>fi_deficit := 0\<rparr>) s))
       | Some request \<Rightarrow>
           (let deficit = (if fs_replenish s \<and> fi_deficit image < fq_bytes request then fi_deficit image + QUANTUM else fi_deficit image);
                s = (on_image (fs_cursor s) (\<lambda>image. image\<lparr>fi_deficit := deficit\<rparr>) s)\<lparr>fs_replenish := False\<rparr>
            in if deficit \<ge> fq_bytes request then Inr (s, Some (fs_cursor s, fq_id request))
               else choose_visits n (State_advance s)))"

definition State_choose :: "FairState \<Rightarrow> (FairState \<times> (nat \<times> nat) option) result" where
  "State_choose s = (if fs_granted s \<noteq> None then Inr (s, None) else choose_visits (length (fs_images s) + 1) s)"

section \<open>Operations\<close>

definition Fair_new :: "unit result \<Rightarrow> nat \<Rightarrow> FairState result" where
  "Fair_new room images =
     (if images = 0 then Inl (InvalidInput '''')
      else attempt room (\<lambda>_. Inr \<lparr>
        fs_images = replicate images \<lparr>fi_queue = [], fi_deficit = 0, fi_admitted_bytes = 0, fi_admitted = 0, fi_canceled = 0, fi_deferred = 0\<rparr>,
        fs_cursor = 0, fs_replenish = True, fs_next_id = 1, fs_granted = None, fs_released_during_turn = False\<rparr>))"

text \<open>The image to wake.\<close>

definition Fair_wake_next :: "FairState \<Rightarrow> (FairState \<times> nat option) result" where
  "Fair_wake_next s = attempt (State_choose s) (\<lambda>(s, chosen). Inr (s, map_option fst chosen))"

text \<open>The first section of \<^verbatim>\<open>resources_released\<close>; the second is \<open>Fair_wake_next\<close>.\<close>

definition resources_released :: "FairState \<Rightarrow> FairState" where
  "resources_released s =
     (let s = (if fs_granted s \<noteq> None then s\<lparr>fs_released_during_turn := True\<rparr> else s) in
      s\<lparr>fs_images := map (\<lambda>image. image\<lparr>fi_queue := map (\<lambda>request. request\<lparr>fq_ready := True\<rparr>) (fi_queue image)\<rparr>) (fs_images s)\<rparr>)"

fun admission_bytes :: "AdmissionKind \<Rightarrow> nat option" where
  "admission_bytes AdmitControl = None"
| "admission_bytes (AdmitRead n) = Some (max n BLOCK_SIZE)"
| "admission_bytes (AdmitWrite n) = Some (max n BLOCK_SIZE)"

definition Port_ticket :: "FairState \<Rightarrow> nat \<Rightarrow> AdmissionKind \<Rightarrow> (FairState \<times> nat option) result" where
  "Port_ticket s port kind =
     (case admission_bytes kind of
        None \<Rightarrow> Inr (s, None)
      | Some bytes \<Rightarrow>
          ensure (\<not> bytes > QUANTUM) (InvalidInput '''')
          (attempt (ok_or (nchecked_add (fs_next_id s) 1) (Other ''admission ticket IDs exhausted'')) (\<lambda>n.
           ensure (port < length (fs_images s)) (InvalidInput '''')
           (ensure (length (fi_queue (fs_images s ! port)) \<noteq> HEADS) (Other ''image admission head capacity exceeded'')
            (Inr ((on_image port (\<lambda>i. i\<lparr>fi_queue := fi_queue i @ [\<lparr>fq_id = fs_next_id s, fq_bytes = bytes, fq_ready = True\<rparr>]\<rparr>) s)
                    \<lparr>fs_next_id := n\<rparr>, Some (fs_next_id s)))))))"

text \<open>\<^verbatim>\<open>iter().position(..)\<close>.\<close>

definition head_position :: "nat \<Rightarrow> FairRequest list \<Rightarrow> nat option" where
  "head_position k queue = map_option fst (find (\<lambda>(_, request). fq_id request = k) (enumerate 0 queue))"

text \<open>\<^verbatim>\<open>Ticket::turn\<close>: whether the turn was granted, and whom to wake otherwise.\<close>

definition Ticket_turn :: "FairState \<Rightarrow> nat \<Rightarrow> nat \<Rightarrow> (FairState \<times> bool \<times> nat option) result" where
  "Ticket_turn s port k =
     attempt (checked_image s port) (\<lambda>i.
     attempt (ok_or (head_position k (fi_queue i)) (Other ''admission ticket already consumed'')) (\<lambda>index.
     let s = on_image port (\<lambda>i. i\<lparr>fi_queue := (fi_queue i)[index := (fi_queue i ! index)\<lparr>fq_ready := True\<rparr>]\<rparr>) s in
     attempt (State_choose s) (\<lambda>(s, chosen).
       if chosen = Some (port, k)
       then Inr (s\<lparr>fs_granted := chosen, fs_released_during_turn := False\<rparr>, True, None)
       else Inr (s, False, map_option fst chosen))))"

definition remove_nth :: "nat \<Rightarrow> 'a list \<Rightarrow> 'a list" where
  "remove_nth i xs = take i xs @ drop (Suc i) xs"

definition Turn_commit :: "FairState \<Rightarrow> nat \<Rightarrow> nat \<Rightarrow> FairState result" where
  "Turn_commit s port k =
     ensure (fs_granted s = Some (port, k)) (Panic ''assertion failed'')
     (attempt (checked_image s port) (\<lambda>i.
      attempt (ok_or (head_position k (fi_queue i)) (Panic ''granted queue head'')) (\<lambda>index.
      let head = fi_queue i ! index in
      ensure (fq_bytes head \<le> fi_deficit i) (Panic ''attempt to subtract with overflow'')
      (Inr (on_image port (\<lambda>i. i\<lparr>fi_queue := remove_nth index (fi_queue i), fi_deficit := fi_deficit i - fq_bytes head,
         fi_admitted_bytes := fi_admitted_bytes i + fq_bytes head, fi_admitted := fi_admitted i + 1\<rparr>) s)))))"

text \<open>The first section of the drop of a turn; \<open>Fair_wake_next\<close> follows. The refused head rotates behind its siblings.\<close>

definition Turn_drop :: "FairState \<Rightarrow> nat \<Rightarrow> nat \<Rightarrow> bool \<Rightarrow> FairState result" where
  "Turn_drop s port k committed =
     ensure (fs_granted s = Some (port, k)) (Panic ''assertion failed'')
     (let s = s\<lparr>fs_granted := None\<rparr> in
      if committed then Inr s
      else attempt (checked_image s port) (\<lambda>i.
        attempt (ok_or (head_position k (fi_queue i)) (Panic ''granted queue head'')) (\<lambda>index.
        Inr (State_advance (on_image port (\<lambda>i. i\<lparr>fi_deferred := fi_deferred i + 1,
          fi_queue := remove_nth index (fi_queue i) @ [(fi_queue i ! index)\<lparr>fq_ready := fs_released_during_turn s\<rparr>]\<rparr>) s)))))"

text \<open>The first section of the drop of a ticket; \<open>Fair_wake_next\<close> follows.\<close>

definition Ticket_drop :: "FairState \<Rightarrow> nat \<Rightarrow> nat \<Rightarrow> FairState result" where
  "Ticket_drop s port k =
     attempt (checked_image s port) (\<lambda>i.
       case head_position k (fi_queue i) of
         None \<Rightarrow> Inr s
       | Some index \<Rightarrow> Inr (on_image port (\<lambda>i. i\<lparr>fi_queue := remove_nth index (fi_queue i), fi_canceled := fi_canceled i + 1\<rparr>) s))"

section \<open>Interleavings\<close>

record FairWorld =
  fw_state :: FairState
  fw_tickets :: "(nat \<times> nat) set"
  fw_turns :: "(nat \<times> nat \<times> bool) set"

text \<open>A turn borrows its ticket, which cannot be dropped before it.\<close>

inductive fair_step :: "FairWorld \<Rightarrow> FairWorld \<Rightarrow> bool" where
  ticket: "Port_ticket (fw_state w) i kind = Inr (s, Some k) \<Longrightarrow>
     fair_step w (w\<lparr>fw_state := s, fw_tickets := insert (i, k) (fw_tickets w)\<rparr>)"
| granted: "(i, k) \<in> fw_tickets w \<Longrightarrow> Ticket_turn (fw_state w) i k = Inr (s, True, wake) \<Longrightarrow>
     fair_step w (w\<lparr>fw_state := s, fw_turns := insert (i, k, False) (fw_turns w)\<rparr>)"
| refused: "(i, k) \<in> fw_tickets w \<Longrightarrow> Ticket_turn (fw_state w) i k = Inr (s, False, wake) \<Longrightarrow> fair_step w (w\<lparr>fw_state := s\<rparr>)"
| commit: "(i, k, False) \<in> fw_turns w \<Longrightarrow> Turn_commit (fw_state w) i k = Inr s \<Longrightarrow>
     fair_step w (w\<lparr>fw_state := s, fw_turns := insert (i, k, True) (fw_turns w - {(i, k, False)})\<rparr>)"
| turn_over: "(i, k, committed) \<in> fw_turns w \<Longrightarrow> Turn_drop (fw_state w) i k committed = Inr s \<Longrightarrow>
     fair_step w (w\<lparr>fw_state := s, fw_turns := fw_turns w - {(i, k, committed)}\<rparr>)"
| cancel: "(i, k) \<in> fw_tickets w \<Longrightarrow> (\<forall>c. (i, k, c) \<notin> fw_turns w) \<Longrightarrow> Ticket_drop (fw_state w) i k = Inr s \<Longrightarrow>
     fair_step w (w\<lparr>fw_state := s, fw_tickets := fw_tickets w - {(i, k)}\<rparr>)"
| release: "fair_step w (w\<lparr>fw_state := resources_released (fw_state w)\<rparr>)"
| woken: "Fair_wake_next (fw_state w) = Inr (s, wake) \<Longrightarrow> fair_step w (w\<lparr>fw_state := s\<rparr>)"

section \<open>Positions\<close>

lemma head_position_Some:
  assumes "head_position k queue = Some index"
  shows "index < length queue" "fq_id (queue ! index) = k"
  using assms by (auto simp: head_position_def find_Some_iff nth_enumerate_eq)

lemma head_position_None: "head_position k queue = None \<longleftrightarrow> k \<notin> fq_id ` set queue"
  by (auto simp: head_position_def find_None_iff in_set_enumerate_eq in_set_conv_nth [where xs = queue] image_iff dest: nth_mem)

lemma remove_nth_mset: "index < length xs \<Longrightarrow> xs = take index xs @ xs ! index # drop (Suc index) xs"
  by (rule id_take_nth_drop)

lemma remove_nth_props:
  assumes "index < length xs" and "distinct (map f xs)"
  shows "set (remove_nth index xs) \<subseteq> set xs" "distinct (map f (remove_nth index xs))" "f (xs ! index) \<notin> f ` set (remove_nth index xs)"
    "length (remove_nth index xs) = length xs - 1" "set xs = insert (xs ! index) (set (remove_nth index xs))"
proof -
  note x = remove_nth_mset [OF assms(1)]
  have d: "distinct (map f (take index xs @ xs ! index # drop (Suc index) xs))" using assms(2) x by simp
  show "set (remove_nth index xs) \<subseteq> set xs" by (auto simp: remove_nth_def dest: in_set_takeD in_set_dropD)
  show "distinct (map f (remove_nth index xs))" "f (xs ! index) \<notin> f ` set (remove_nth index xs)" using d by (auto simp: remove_nth_def)
  show "length (remove_nth index xs) = length xs - 1" using assms(1) by (simp add: remove_nth_def)
  have "set xs = set (take index xs @ xs ! index # drop (Suc index) xs)" using x by simp
  then show "set xs = insert (xs ! index) (set (remove_nth index xs))" by (auto simp: remove_nth_def)
qed

section \<open>Well-formed states\<close>

definition image_ok :: "nat \<Rightarrow> FairImage \<Rightarrow> bool" where
  "image_ok n img \<longleftrightarrow> distinct (map fq_id (fi_queue img)) \<and> length (fi_queue img) \<le> HEADS \<and> fi_deficit img < 2 * QUANTUM
     \<and> (\<forall>request \<in> set (fi_queue img). fq_id request < n \<and> fq_bytes request \<le> QUANTUM)"

definition state_ok :: "FairState \<Rightarrow> bool" where
  "state_ok s \<longleftrightarrow> fs_cursor s < length (fs_images s) \<and> (\<forall>j < length (fs_images s). image_ok (fs_next_id s) (fs_images s ! j))"

lemma quantum_pos: "0 < QUANTUM"
  by (simp add: QUANTUM_def MAX_REQUEST_BYTES_def)

lemma on_image_simps [simp]:
  "length (fs_images (on_image i f s)) = length (fs_images s)" "fs_cursor (on_image i f s) = fs_cursor s"
  "fs_replenish (on_image i f s) = fs_replenish s" "fs_next_id (on_image i f s) = fs_next_id s" "fs_granted (on_image i f s) = fs_granted s"
  "fs_released_during_turn (on_image i f s) = fs_released_during_turn s"
  "j < length (fs_images s) \<Longrightarrow> fs_images (on_image i f s) ! j = (if i = j then f (fs_images s ! j) else fs_images s ! j)"
  by (simp_all add: on_image_def nth_list_update)

lemma advance_simps [simp]:
  "fs_images (State_advance s) = fs_images s" "fs_replenish (State_advance s)" "fs_next_id (State_advance s) = fs_next_id s"
  "fs_granted (State_advance s) = fs_granted s" "fs_released_during_turn (State_advance s) = fs_released_during_turn s"
  "fs_cursor (State_advance s) = (fs_cursor s + 1) mod length (fs_images s)"
  by (simp_all add: State_advance_def)

lemma state_okI:
  assumes "state_ok s" and "length (fs_images s') = length (fs_images s)" and "fs_cursor s' < length (fs_images s)" and "fs_next_id s \<le> fs_next_id s'"
    and "\<And>j. j < length (fs_images s) \<Longrightarrow> image_ok (fs_next_id s) (fs_images s ! j) \<Longrightarrow> image_ok (fs_next_id s') (fs_images s' ! j)"
  shows "state_ok s'"
  using assms by (simp add: state_ok_def)

lemma state_ok_nth: "state_ok s \<Longrightarrow> j < length (fs_images s) \<Longrightarrow> image_ok (fs_next_id s) (fs_images s ! j)"
  by (simp add: state_ok_def)

lemma state_ok_advance: "state_ok s \<Longrightarrow> state_ok (State_advance s)"
  unfolding state_ok_def by (metis advance_simps(1,3,6) gr_implies_not_zero mod_less_divisor neq0_conv)

text \<open>What choosing leaves as it was: everything but deficits, the cursor and the replenishment flag.\<close>

definition same_queues :: "FairState \<Rightarrow> FairState \<Rightarrow> bool" where
  "same_queues s s' \<longleftrightarrow> length (fs_images s') = length (fs_images s) \<and> fs_next_id s' = fs_next_id s \<and> fs_granted s' = fs_granted s
     \<and> fs_released_during_turn s' = fs_released_during_turn s
     \<and> (\<forall>j < length (fs_images s). fi_queue (fs_images s' ! j) = fi_queue (fs_images s ! j)
          \<and> fi_admitted_bytes (fs_images s' ! j) = fi_admitted_bytes (fs_images s ! j))"

lemma same_queues_trans: "same_queues s s' \<Longrightarrow> same_queues s' s'' \<Longrightarrow> same_queues s s''"
  by (simp add: same_queues_def)

lemma same_queues_refl [simp]: "same_queues s s"
  by (simp add: same_queues_def)

definition set_deficit :: "nat \<Rightarrow> FairState \<Rightarrow> FairState" where
  "set_deficit d s = on_image (fs_cursor s) (\<lambda>image. image\<lparr>fi_deficit := d\<rparr>) s"

lemma set_deficit_ok:
  assumes "state_ok s" and "d < 2 * QUANTUM"
  shows "state_ok (set_deficit d s)" "state_ok ((set_deficit d s)\<lparr>fs_replenish := b\<rparr>)"
    "same_queues s (set_deficit d s)" "same_queues s ((set_deficit d s)\<lparr>fs_replenish := b\<rparr>)"
    "same_queues s (State_advance (set_deficit d s))" "same_queues s (State_advance ((set_deficit d s)\<lparr>fs_replenish := b\<rparr>))"
    "fi_deficit (fs_images (set_deficit d s) ! fs_cursor s) = d" "fs_cursor (set_deficit d s) = fs_cursor s"
  using assms
  by (auto simp: set_deficit_def same_queues_def state_ok_def image_ok_def)

text \<open>One visit of the loop.\<close>

definition visit_deficit :: "FairState \<Rightarrow> FairRequest \<Rightarrow> nat" where
  "visit_deficit s request = (let d = fi_deficit (fs_images s ! fs_cursor s) in
     if fs_replenish s \<and> d < fq_bytes request then d + QUANTUM else d)"

lemma choose_visit:
  assumes "state_ok s"
  shows "choose_visits (Suc n) s =
    (case find fq_ready (fi_queue (fs_images s ! fs_cursor s)) of
       None \<Rightarrow> choose_visits n (State_advance (set_deficit 0 s))
     | Some request \<Rightarrow> let s' = (set_deficit (visit_deficit s request) s)\<lparr>fs_replenish := False\<rparr> in
         if fq_bytes request \<le> visit_deficit s request then Inr (s', Some (fs_cursor s, fq_id request))
         else choose_visits n (State_advance s'))"
  using assms
  by (cases "find fq_ready (fi_queue (fs_images s ! fs_cursor s))")
    (simp_all add: checked_image_def state_ok_def Let_def visit_deficit_def set_deficit_def)

declare choose_visits.simps(2) [simp del]

lemma find_ready_ok:
  assumes "state_ok s" and "j < length (fs_images s)" and "find fq_ready (fi_queue (fs_images s ! j)) = Some request"
  shows "request \<in> set (fi_queue (fs_images s ! j))" "fq_bytes request \<le> QUANTUM" "fq_ready request"
  using assms state_ok_nth [OF assms(1,2)] by (auto simp: image_ok_def find_Some_iff)

lemma visit_deficit_less:
  assumes "state_ok s" and "find fq_ready (fi_queue (fs_images s ! fs_cursor s)) = Some request"
  shows "visit_deficit s request < 2 * QUANTUM"
proof -
  have c: "fs_cursor s < length (fs_images s)" using assms(1) by (simp add: state_ok_def)
  show ?thesis using state_ok_nth [OF assms(1) c] find_ready_ok(2) [OF assms(1) c assms(2)] by (auto simp: visit_deficit_def Let_def image_ok_def)
qed

lemma choose_visits_ok:
  "state_ok s \<Longrightarrow> \<exists>s' x. choose_visits n s = Inr (s', x) \<and> state_ok s' \<and> same_queues s s' \<and>
     (\<forall>i k. x = Some (i, k) \<longrightarrow> fs_cursor s' = i \<and> \<not> fs_replenish s' \<and> (\<exists>request. find fq_ready (fi_queue (fs_images s' ! i)) = Some request
        \<and> fq_id request = k \<and> fq_bytes request \<le> fi_deficit (fs_images s' ! i)))"
proof (induction n arbitrary: s)
  case (Suc n)
  have c: "fs_cursor s < length (fs_images s)" using Suc.prems by (simp add: state_ok_def)
  show ?case
  proof (cases "find fq_ready (fi_queue (fs_images s ! fs_cursor s))")
    case None
    have "0 < 2 * QUANTUM" using quantum_pos by simp
    note d = set_deficit_ok [OF Suc.prems this]
    show ?thesis using Suc.IH [OF state_ok_advance [OF d(1)]] same_queues_trans [OF d(5)]
      unfolding choose_visit [OF Suc.prems] None option.case by metis
  next
    case (Some request)
    let ?d = "visit_deficit s request" and ?s = "(set_deficit (visit_deficit s request) s)\<lparr>fs_replenish := False\<rparr>"
    note d = set_deficit_ok [OF Suc.prems visit_deficit_less [OF Suc.prems Some]]
    show ?thesis
    proof (cases "fq_bytes request \<le> ?d")
      case True
      have "find fq_ready (fi_queue (fs_images ?s ! fs_cursor s)) = Some request" "fi_deficit (fs_images ?s ! fs_cursor s) = ?d"
        using d(4) [of False] d(7) c Some by (auto simp: same_queues_def)
      then show ?thesis using True d(2,4) [of False] d(8) by (simp add: choose_visit [OF Suc.prems] Some Let_def)
    next
      case False
      then show ?thesis using Suc.IH [OF state_ok_advance [OF d(2) [of False]]] same_queues_trans [OF d(6) [of False]]
        unfolding choose_visit [OF Suc.prems] Some option.case Let_def by (simp only: if_False) metis
    qed
  qed
qed simp

section \<open>Round robin\<close>

text \<open>How many visits away an image is.\<close>

definition dist :: "nat \<Rightarrow> nat \<Rightarrow> nat \<Rightarrow> nat" where
  "dist n c i = (if c \<le> i then i - c else i + n - c)"

lemma dist_less: "c < n \<Longrightarrow> i < n \<Longrightarrow> dist n c i < n"
  by (auto simp: dist_def)

lemma dist_advance:
  assumes "c < n" and "i < n"
  shows "c \<noteq> i \<Longrightarrow> dist n ((c + 1) mod n) i + 1 = dist n c i" and "dist n ((c + 1) mod n) c = n - 1"
proof -
  have m: "(c + 1) mod n = (if c + 1 = n then 0 else c + 1)" using assms(1) by auto
  show "c \<noteq> i \<Longrightarrow> dist n ((c + 1) mod n) i + 1 = dist n c i" unfolding m using assms by (auto simp: dist_def)
  show "dist n ((c + 1) mod n) c = n - 1" unfolding m using assms(1) by (auto simp: dist_def)
qed

lemma choose_visits_found:
  "state_ok s \<Longrightarrow> fs_replenish s \<Longrightarrow> i < length (fs_images s) \<Longrightarrow> find fq_ready (fi_queue (fs_images s ! i)) = Some r \<Longrightarrow>
     dist (length (fs_images s)) (fs_cursor s) i < n \<Longrightarrow> \<exists>s' x. choose_visits n s = Inr (s', Some x)"
proof (induction n arbitrary: s)
  case (Suc n)
  have c: "fs_cursor s < length (fs_images s)" using Suc.prems(1) by (simp add: state_ok_def)
  show ?case
  proof (cases "find fq_ready (fi_queue (fs_images s ! fs_cursor s))")
    case None
    then have ne: "fs_cursor s \<noteq> i" using Suc.prems(4) by auto
    have "0 < 2 * QUANTUM" using quantum_pos by simp
    note d = set_deficit_ok [OF Suc.prems(1) this]
    have "length (fs_images (set_deficit 0 s)) = length (fs_images s)" "fi_queue (fs_images (set_deficit 0 s) ! i) = fi_queue (fs_images s ! i)"
      using d(3) Suc.prems(3) by (simp_all add: same_queues_def)
    then show ?thesis using Suc.IH [of "State_advance (set_deficit 0 s)"] state_ok_advance [OF d(1)] Suc.prems(3-5)
        dist_advance(1) [OF c Suc.prems(3) ne] d(8)
      by (simp add: choose_visit [OF Suc.prems(1)] None)
  next
    case (Some request)
    then have "fq_bytes request \<le> visit_deficit s request"
      using find_ready_ok(2) [OF Suc.prems(1) c Some] Suc.prems(2) by (auto simp: visit_deficit_def Let_def)
    then show ?thesis by (simp add: choose_visit [OF Suc.prems(1)] Some Let_def)
  qed
qed simp

lemma State_choose_found:
  assumes ok: "state_ok s" and "fs_granted s = None" and i: "i < length (fs_images s)" and r: "find fq_ready (fi_queue (fs_images s ! i)) = Some r"
  shows "\<exists>s' x. State_choose s = Inr (s', Some x)"
proof -
  have c: "fs_cursor s < length (fs_images s)" using ok by (simp add: state_ok_def)
  have next_visit: "\<exists>s' x. choose_visits (length (fs_images s)) (State_advance s1) = Inr (s', Some x)"
    if "state_ok s1" "same_queues s s1" for s1
  proof (rule choose_visits_found)
    show "state_ok (State_advance s1)" using state_ok_advance [OF that(1)] .
    show "find fq_ready (fi_queue (fs_images (State_advance s1) ! i)) = Some r" "i < length (fs_images (State_advance s1))"
      using that(2) i r by (simp_all add: same_queues_def)
    have len: "length (fs_images (State_advance s1)) = length (fs_images s)" using that(2) by (simp add: same_queues_def)
    have "fs_cursor (State_advance s1) < length (fs_images (State_advance s1))" using state_ok_advance [OF that(1)] unfolding state_ok_def by blast
    then show "dist (length (fs_images (State_advance s1))) (fs_cursor (State_advance s1)) i < length (fs_images s)"
      unfolding len using i by (rule dist_less)
  qed simp
  show ?thesis
  proof (cases "find fq_ready (fi_queue (fs_images s ! fs_cursor s))")
    case None
    have "0 < 2 * QUANTUM" using quantum_pos by simp
    note d = set_deficit_ok [OF ok this]
    show ?thesis using next_visit [OF d(1,3)] assms(2) by (simp add: State_choose_def choose_visit [OF ok] None)
  next
    case (Some request)
    note d = set_deficit_ok [OF ok visit_deficit_less [OF ok Some]]
    show ?thesis using next_visit [OF d(2,4) [of False]] assms(2) by (simp add: State_choose_def choose_visit [OF ok] Some Let_def)
  qed
qed

lemma State_choose_ok:
  assumes "state_ok s"
  shows "\<exists>s' x. State_choose s = Inr (s', x) \<and> state_ok s' \<and> same_queues s s' \<and> (fs_granted s \<noteq> None \<longrightarrow> s' = s \<and> x = None) \<and>
     (\<forall>i k. x = Some (i, k) \<longrightarrow> fs_cursor s' = i \<and> \<not> fs_replenish s' \<and> (\<exists>request. find fq_ready (fi_queue (fs_images s' ! i)) = Some request
        \<and> fq_id request = k \<and> fq_bytes request \<le> fi_deficit (fs_images s' ! i)))"
proof (cases "fs_granted s = None")
  case True
  then show ?thesis using choose_visits_ok [OF assms, of "length (fs_images s) + 1"] by (simp add: State_choose_def)
next
  case False
  then show ?thesis using assms by (auto simp: State_choose_def)
qed

section \<open>The invariant of the interleavings\<close>

definition turn_ok :: "FairState \<Rightarrow> (nat \<times> nat) set \<Rightarrow> (nat \<times> nat \<times> bool) set \<Rightarrow> bool" where
  "turn_ok s tickets turns \<longleftrightarrow>
     (case fs_granted s of
        None \<Rightarrow> turns = {}
      | Some (i, k) \<Rightarrow> (i, k) \<in> tickets \<and> fs_cursor s = i \<and> \<not> fs_replenish s \<and>
          (\<exists>c. turns = {(i, k, c)} \<and> (\<not> c \<longrightarrow> (\<exists>r \<in> set (fi_queue (fs_images s ! i)). fq_id r = k \<and> fq_bytes r \<le> fi_deficit (fs_images s ! i)))))"

definition fair_ok :: "FairWorld \<Rightarrow> bool" where
  "fair_ok w \<longleftrightarrow> state_ok (fw_state w) \<and> turn_ok (fw_state w) (fw_tickets w) (fw_turns w)
     \<and> (\<forall>(i, k) \<in> fw_tickets w. i < length (fs_images (fw_state w)) \<and> k < fs_next_id (fw_state w))"

lemma head_position_found:
  assumes "distinct (map fq_id queue)" and "r \<in> set queue" and "fq_id r = k"
  shows "\<exists>index. head_position k queue = Some index \<and> index < length queue \<and> queue ! index = r"
proof -
  obtain index where p: "head_position k queue = Some index" using head_position_None [of k queue] assms(2,3) by (cases "head_position k queue") auto
  note q = head_position_Some [OF p]
  obtain j where "j < length queue" "queue ! j = r" using assms(2) by (auto simp: in_set_conv_nth)
  then have "j = index" using assms(1,3) q by (metis distinct_conv_nth length_map nth_map)
  then show ?thesis using p q(1) \<open>queue ! j = r\<close> by blast
qed

lemma turn_ok_keep:
  assumes "turn_ok s tickets turns" and "fs_granted s' = fs_granted s"
    and "fs_granted s \<noteq> None \<Longrightarrow> fs_cursor s' = fs_cursor s \<and> fs_replenish s' = fs_replenish s"
    and "\<And>i k. fs_granted s = Some (i, k) \<Longrightarrow> (i, k) \<in> tickets \<Longrightarrow> (i, k) \<in> tickets'"
    and "\<And>i k r. fs_granted s = Some (i, k) \<Longrightarrow> r \<in> set (fi_queue (fs_images s ! i)) \<Longrightarrow> fq_id r = k \<Longrightarrow>
      fi_deficit (fs_images s' ! i) = fi_deficit (fs_images s ! i) \<and> (\<exists>r' \<in> set (fi_queue (fs_images s' ! i)). fq_id r' = k \<and> fq_bytes r' = fq_bytes r)"
  shows "turn_ok s' tickets' turns"
proof (cases "fs_granted s")
  case None
  then show ?thesis using assms(1,2) by (simp add: turn_ok_def)
next
  case (Some g)
  obtain i k where g: "g = (i, k)" by (cases g)
  obtain c where t: "(i, k) \<in> tickets" "fs_cursor s = i" "\<not> fs_replenish s" "turns = {(i, k, c)}"
    "\<not> c \<longrightarrow> (\<exists>r \<in> set (fi_queue (fs_images s ! i)). fq_id r = k \<and> fq_bytes r \<le> fi_deficit (fs_images s ! i))"
    using assms(1) Some g by (auto simp: turn_ok_def)
  have "\<exists>r \<in> set (fi_queue (fs_images s' ! i)). fq_id r = k \<and> fq_bytes r \<le> fi_deficit (fs_images s' ! i)" if "\<not> c"
    using t(5) that assms(5) Some g by fastforce
  then show ?thesis using t Some g assms(2-4) by (auto simp: turn_ok_def)
qed

lemma image_ok_mono: "image_ok n img \<Longrightarrow> n \<le> n' \<Longrightarrow> image_ok n' img"
  by (force simp: image_ok_def)

lemma image_ok_push:
  "image_ok n img \<Longrightarrow> length (fi_queue img) \<noteq> HEADS \<Longrightarrow> bytes \<le> QUANTUM \<Longrightarrow>
     image_ok (n + 1) (img\<lparr>fi_queue := fi_queue img @ [\<lparr>fq_id = n, fq_bytes = bytes, fq_ready = True\<rparr>]\<rparr>)"
  by (force simp: image_ok_def)

lemma Port_ticket_ok:
  assumes "Port_ticket s i kind = Inr (s', Some k)" and "state_ok s"
  shows "state_ok s'" "i < length (fs_images s)" "k < fs_next_id s'" "length (fs_images s') = length (fs_images s)" "fs_next_id s \<le> fs_next_id s'"
    "turn_ok s tickets turns \<Longrightarrow> turn_ok s' (insert (i, k) tickets) turns" "fs_cursor s' = fs_cursor s" "fs_replenish s' = fs_replenish s"
    "\<And>j. j < length (fs_images s) \<Longrightarrow> fi_deficit (fs_images s' ! j) = fi_deficit (fs_images s ! j)
       \<and> fi_admitted_bytes (fs_images s' ! j) = fi_admitted_bytes (fs_images s ! j)"
proof -
  obtain bytes where b: "bytes \<le> QUANTUM" "i < length (fs_images s)" "length (fi_queue (fs_images s ! i)) \<noteq> HEADS" "k = fs_next_id s"
    and s': "s' = (on_image i (\<lambda>i. i\<lparr>fi_queue := fi_queue i @ [\<lparr>fq_id = fs_next_id s, fq_bytes = bytes, fq_ready = True\<rparr>]\<rparr>) s)\<lparr>fs_next_id := fs_next_id s + 1\<rparr>"
    using assms(1) by (auto simp: Port_ticket_def nchecked_add_def not_less split: option.splits if_splits)
  show "i < length (fs_images s)" "k < fs_next_id s'" "length (fs_images s') = length (fs_images s)" "fs_next_id s \<le> fs_next_id s'"
    "fs_cursor s' = fs_cursor s" "fs_replenish s' = fs_replenish s" using b by (simp_all add: s')
  show "\<And>j. j < length (fs_images s) \<Longrightarrow> fi_deficit (fs_images s' ! j) = fi_deficit (fs_images s ! j)
       \<and> fi_admitted_bytes (fs_images s' ! j) = fi_admitted_bytes (fs_images s ! j)" by (simp add: s')
  show "state_ok s'"
    using assms(2) b by (intro state_okI [OF assms(2)]) (auto simp: s' state_ok_def intro: image_ok_mono image_ok_push [simplified])
  assume t: "turn_ok s tickets turns"
  have "j < length (fs_images s)" if "fs_granted s = Some (j, k)" for j k
    using t that assms(2) by (auto simp: turn_ok_def state_ok_def)
  then show "turn_ok s' (insert (i, k) tickets) turns" by (intro turn_ok_keep [OF t]) (auto simp: s')
qed

lemma update_each:
  assumes "r \<in> set xs" and "index < length xs"
  shows "\<exists>r' \<in> set (xs[index := (xs ! index)\<lparr>fq_ready := b\<rparr>]). fq_id r' = fq_id r \<and> fq_bytes r' = fq_bytes r"
proof -
  obtain n where n: "n < length xs" "xs ! n = r" using assms(1) by (auto simp: in_set_conv_nth)
  let ?x = "xs[index := (xs ! index)\<lparr>fq_ready := b\<rparr>] ! n"
  have "fq_id ?x = fq_id r \<and> fq_bytes ?x = fq_bytes r" using n assms(2) by (cases "n = index") simp_all
  moreover have "?x \<in> set (xs[index := (xs ! index)\<lparr>fq_ready := b\<rparr>])" by (rule nth_mem) (simp add: n(1))
  ultimately show ?thesis by (rule bexI)
qed

lemma ready_update_ok:
  assumes "state_ok s" and "i < length (fs_images s)" and "head_position k (fi_queue (fs_images s ! i)) = Some index"
  defines "s' \<equiv> on_image i (\<lambda>i. i\<lparr>fi_queue := (fi_queue i)[index := (fi_queue i ! index)\<lparr>fq_ready := True\<rparr>]\<rparr>) s"
  shows "state_ok s'" "turn_ok s tickets turns \<Longrightarrow> turn_ok s' tickets turns"
proof -
  note p = head_position_Some [OF assms(3)]
  have ids: "map fq_id ((fi_queue (fs_images s ! i))[index := (fi_queue (fs_images s ! i) ! index)\<lparr>fq_ready := True\<rparr>]) = map fq_id (fi_queue (fs_images s ! i))"
    using p(1) list_update_id [of "map fq_id (fi_queue (fs_images s ! i))" index] by (simp add: map_update)
  have each: "\<exists>r' \<in> set (fi_queue (fs_images s' ! i)). fq_id r' = fq_id r \<and> fq_bytes r' = fq_bytes r" if "r \<in> set (fi_queue (fs_images s ! i))" for r
    using update_each [OF that p(1)] assms(2) by (simp add: s'_def)
  have mem: "fq_id r < fs_next_id s \<and> fq_bytes r \<le> QUANTUM"
    if "r \<in> set ((fi_queue (fs_images s ! i))[index := (fi_queue (fs_images s ! i) ! index)\<lparr>fq_ready := True\<rparr>])" for r
    using set_update_subset_insert [THEN subsetD, OF that] state_ok_nth [OF assms(1,2)] p(1) by (auto simp: image_ok_def)
  show "state_ok s'"
    using assms(1) ids mem by (intro state_okI [OF assms(1)]) (auto simp: s'_def state_ok_def image_ok_def)
  assume t: "turn_ok s tickets turns"
  have j: "j < length (fs_images s)" if "fs_granted s = Some (j, k)" for j k
    using t that assms(1) by (auto simp: turn_ok_def state_ok_def)
  show "turn_ok s' tickets turns"
  proof (rule turn_ok_keep [OF t])
    fix j k r assume g: "fs_granted s = Some (j, k)" and r: "r \<in> set (fi_queue (fs_images s ! j))" "fq_id r = k"
    show "fi_deficit (fs_images s' ! j) = fi_deficit (fs_images s ! j) \<and> (\<exists>r' \<in> set (fi_queue (fs_images s' ! j)). fq_id r' = k \<and> fq_bytes r' = fq_bytes r)"
    proof (cases "i = j")
      case True
      then show ?thesis using each [of r] r j [OF g] by (simp add: s'_def)
    next
      case False
      then show ?thesis using r j [OF g] by (auto simp: s'_def)
    qed
  qed (simp_all add: s'_def)
qed

text \<open>What an operation may change while a turn is out.\<close>

lemma granted_range: "state_ok s \<Longrightarrow> turn_ok s tickets turns \<Longrightarrow> fs_granted s = Some (i, k) \<Longrightarrow> i < length (fs_images s)"
  by (auto simp: turn_ok_def state_ok_def)

definition ready_update :: "nat \<Rightarrow> nat \<Rightarrow> FairState \<Rightarrow> FairState" where
  "ready_update i index s = on_image i (\<lambda>i. i\<lparr>fi_queue := (fi_queue i)[index := (fi_queue i ! index)\<lparr>fq_ready := True\<rparr>]\<rparr>) s"

lemma Ticket_turn_Inr:
  assumes "Ticket_turn s i k = Inr (s', g, wake)"
  obtains index s2 chosen where "i < length (fs_images s)" "head_position k (fi_queue (fs_images s ! i)) = Some index"
    "State_choose (ready_update i index s) = Inr (s2, chosen)" "g \<longleftrightarrow> chosen = Some (i, k)"
    "s' = (if g then s2\<lparr>fs_granted := chosen, fs_released_during_turn := False\<rparr> else s2)"
  using assms
  by (auto simp: Ticket_turn_def checked_image_def Let_def ready_update_def [symmetric] split: if_splits)

lemma choose_turn_ok:
  assumes "state_ok s" and "State_choose s = Inr (s', chosen)" and "turn_ok s tickets turns"
  shows "state_ok s'" "same_queues s s'" "turn_ok s' tickets turns" "fs_granted s \<noteq> None \<Longrightarrow> s' = s \<and> chosen = None"
    "chosen = Some (i, k) \<Longrightarrow> fs_cursor s' = i \<and> \<not> fs_replenish s' \<and> (\<exists>request. find fq_ready (fi_queue (fs_images s' ! i)) = Some request
        \<and> fq_id request = k \<and> fq_bytes request \<le> fi_deficit (fs_images s' ! i))"
proof -
  note c = State_choose_ok [OF assms(1)]
  show "state_ok s'" "same_queues s s'" using c assms(2) by auto
  show g: "fs_granted s \<noteq> None \<Longrightarrow> s' = s \<and> chosen = None" using c assms(2) by auto
  show "turn_ok s' tickets turns"
  proof (cases "fs_granted s")
    case None
    then have "fs_granted s' = None" using \<open>same_queues s s'\<close> by (simp add: same_queues_def)
    then show ?thesis using assms(3) None by (simp add: turn_ok_def)
  next
    case (Some x)
    then show ?thesis using g assms(3) by simp
  qed
  show "chosen = Some (i, k) \<Longrightarrow> fs_cursor s' = i \<and> \<not> fs_replenish s' \<and> (\<exists>request. find fq_ready (fi_queue (fs_images s' ! i)) = Some request
        \<and> fq_id request = k \<and> fq_bytes request \<le> fi_deficit (fs_images s' ! i))" using c assms(2) by auto
qed

lemma Ticket_turn_ok:
  assumes "Ticket_turn s i k = Inr (s', g, wake)" and ok: "state_ok s" and t: "turn_ok s tickets turns" and "(i, k) \<in> tickets"
  shows "state_ok s'" "turn_ok s' tickets (if g then insert (i, k, False) turns else turns)" "length (fs_images s') = length (fs_images s)"
    "fs_next_id s' = fs_next_id s"
proof -
  obtain index s2 chosen where i: "i < length (fs_images s)" "head_position k (fi_queue (fs_images s ! i)) = Some index"
    and ch: "State_choose (ready_update i index s) = Inr (s2, chosen)" and g: "g \<longleftrightarrow> chosen = Some (i, k)"
    and s': "s' = (if g then s2\<lparr>fs_granted := chosen, fs_released_during_turn := False\<rparr> else s2)" by (rule Ticket_turn_Inr [OF assms(1)])
  note r = ready_update_ok [OF ok i, folded ready_update_def]
  note c = choose_turn_ok [OF r(1) ch r(2) [OF t]]
  show "length (fs_images s') = length (fs_images s)" "fs_next_id s' = fs_next_id s"
    using c(2) by (simp_all add: s' same_queues_def ready_update_def)
  show "state_ok s'" using c(1) by (simp add: s' state_ok_def)
  show "turn_ok s' tickets (if g then insert (i, k, False) turns else turns)"
  proof (cases g)
    case False
    then show ?thesis using c(3) by (simp add: s')
  next
    case True
    have "fs_granted s = None"
    proof (rule ccontr)
      assume "fs_granted s \<noteq> None"
      then have "fs_granted (ready_update i index s) \<noteq> None" by (simp add: ready_update_def)
      then show False using c(4) True g by simp
    qed
    then have "turns = {}" using t by (simp add: turn_ok_def)
    then show ?thesis using True g c(5) [of i k] assms(4) by (auto simp: s' turn_ok_def find_Some_iff)
  qed
qed

lemma turn_out:
  assumes "turn_ok s tickets turns" and "(i, k, c) \<in> turns"
  shows "fs_granted s = Some (i, k)" "turns = {(i, k, c)}" "(i, k) \<in> tickets" "fs_cursor s = i" "\<not> fs_replenish s"
    "\<not> c \<Longrightarrow> \<exists>r \<in> set (fi_queue (fs_images s ! i)). fq_id r = k \<and> fq_bytes r \<le> fi_deficit (fs_images s ! i)"
  using assms by (auto simp: turn_ok_def split: option.splits)

lemma turn_ok_committed:
  "fs_granted s = Some (i, k) \<Longrightarrow> (i, k) \<in> tickets \<Longrightarrow> fs_cursor s = i \<Longrightarrow> \<not> fs_replenish s \<Longrightarrow> turn_ok s tickets {(i, k, True)}"
  by (auto simp: turn_ok_def)

lemma image_ok_remove:
  assumes "image_ok n img" and "index < length (fi_queue img)"
  shows "d \<le> fi_deficit img \<Longrightarrow>
      image_ok n (img\<lparr>fi_queue := remove_nth index (fi_queue img), fi_deficit := d, fi_admitted_bytes := a, fi_admitted := b\<rparr>)"
    and "image_ok n (img\<lparr>fi_queue := remove_nth index (fi_queue img), fi_canceled := b\<rparr>)"
    and "image_ok n (img\<lparr>fi_deferred := b, fi_queue := remove_nth index (fi_queue img) @ [(fi_queue img ! index)\<lparr>fq_ready := r\<rparr>]\<rparr>)"
proof -
  note q = remove_nth_props [of index "fi_queue img" fq_id, OF assms(2)]
  have d: "distinct (map fq_id (fi_queue img))" using assms(1) by (simp add: image_ok_def)
  show "d \<le> fi_deficit img \<Longrightarrow>
      image_ok n (img\<lparr>fi_queue := remove_nth index (fi_queue img), fi_deficit := d, fi_admitted_bytes := a, fi_admitted := b\<rparr>)"
    "image_ok n (img\<lparr>fi_queue := remove_nth index (fi_queue img), fi_canceled := b\<rparr>)"
    using q(1,2,4) [OF d] assms(1) by (auto simp: image_ok_def)
  show "image_ok n (img\<lparr>fi_deferred := b, fi_queue := remove_nth index (fi_queue img) @ [(fi_queue img ! index)\<lparr>fq_ready := r\<rparr>]\<rparr>)"
    using q(1-4) [OF d] assms nth_mem [OF assms(2)] by (auto simp: image_ok_def)
qed

lemma state_ok_on_image:
  assumes "state_ok s" and "image_ok (fs_next_id s) (fs_images s ! i) \<Longrightarrow> image_ok (fs_next_id s) (f (fs_images s ! i))"
  shows "state_ok (on_image i f s)"
  using assms by (auto simp: state_ok_def)

lemma Turn_commit_ok:
  assumes ok: "state_ok s" and t: "turn_ok s tickets turns" and turn: "(i, k, False) \<in> turns"
  obtains index where "index < length (fi_queue (fs_images s ! i))" "fq_bytes (fi_queue (fs_images s ! i) ! index) \<le> fi_deficit (fs_images s ! i)"
    "Turn_commit s i k = Inr (on_image i (\<lambda>img. img\<lparr>fi_queue := remove_nth index (fi_queue img),
       fi_deficit := fi_deficit img - fq_bytes (fi_queue (fs_images s ! i) ! index),
       fi_admitted_bytes := fi_admitted_bytes img + fq_bytes (fi_queue (fs_images s ! i) ! index), fi_admitted := fi_admitted img + 1\<rparr>) s)"
proof -
  note o = turn_out [OF t turn]
  obtain r where r: "r \<in> set (fi_queue (fs_images s ! i))" "fq_id r = k" "fq_bytes r \<le> fi_deficit (fs_images s ! i)" using o(6) by auto
  have i: "i < length (fs_images s)" using granted_range [OF ok t o(1)] .
  have d: "distinct (map fq_id (fi_queue (fs_images s ! i)))" using state_ok_nth [OF ok i] by (simp add: image_ok_def)
  obtain index where p: "head_position k (fi_queue (fs_images s ! i)) = Some index" "index < length (fi_queue (fs_images s ! i))"
    "fi_queue (fs_images s ! i) ! index = r" using head_position_found [OF d r(1,2)] by blast
  show ?thesis
    by (rule that [OF p(2)]) (use r p o(1) i in \<open>simp_all add: Turn_commit_def checked_image_def Let_def\<close>)
qed

lemma Turn_drop_ok:
  assumes ok: "state_ok s" and t: "turn_ok s tickets turns" and turn: "(i, k, c) \<in> turns"
  shows "\<exists>s'. Turn_drop s i k c = Inr s' \<and> state_ok s' \<and> turn_ok s' tickets (turns - {(i, k, c)})
    \<and> length (fs_images s') = length (fs_images s) \<and> fs_next_id s' = fs_next_id s
    \<and> (\<forall>j < length (fs_images s). fi_deficit (fs_images s' ! j) = fi_deficit (fs_images s ! j)
         \<and> fi_admitted_bytes (fs_images s' ! j) = fi_admitted_bytes (fs_images s ! j))
    \<and> (if c then fs_cursor s' = fs_cursor s \<and> fs_replenish s' = fs_replenish s
       else fs_cursor s' = (fs_cursor s + 1) mod length (fs_images s) \<and> fs_replenish s')"
proof -
  note o = turn_out [OF t turn]
  have i: "i < length (fs_images s)" using granted_range [OF ok t o(1)] .
  have none: "turn_ok s' tickets (turns - {(i, k, c)})" if "fs_granted s' = None" for s' using o(2) that by (simp add: turn_ok_def)
  show ?thesis
  proof (cases c)
    case True
    then show ?thesis using o(1) ok none by (simp add: Turn_drop_def state_ok_def)
  next
    case False
    then obtain r where r: "r \<in> set (fi_queue (fs_images s ! i))" "fq_id r = k" using o(6) by auto
    have d: "distinct (map fq_id (fi_queue (fs_images s ! i)))" using state_ok_nth [OF ok i] by (simp add: image_ok_def)
    obtain index where p: "head_position k (fi_queue (fs_images s ! i)) = Some index" "index < length (fi_queue (fs_images s ! i))"
      using head_position_found [OF d r] by blast
    let ?s = "on_image i (\<lambda>img. img\<lparr>fi_deferred := fi_deferred img + 1, fi_queue := remove_nth index (fi_queue img)
        @ [(fi_queue img ! index)\<lparr>fq_ready := fs_released_during_turn s\<rparr>]\<rparr>) (s\<lparr>fs_granted := None\<rparr>)"
    have "state_ok (s\<lparr>fs_granted := None\<rparr>)" using ok by (simp add: state_ok_def)
    then have "state_ok ?s" by (rule state_ok_on_image) (simp add: image_ok_remove(3) p(2))
    moreover have "Turn_drop s i k c = Inr (State_advance ?s)" using o(1) i p False by (simp add: Turn_drop_def checked_image_def Let_def)
    ultimately show ?thesis using state_ok_advance none False by simp
  qed
qed

lemma Ticket_drop_ok:
  assumes ok: "state_ok s" and t: "turn_ok s tickets turns" and i: "i < length (fs_images s)" and free: "\<forall>c. (i, k, c) \<notin> turns"
  shows "\<exists>s'. Ticket_drop s i k = Inr s' \<and> state_ok s' \<and> turn_ok s' (tickets - {(i, k)}) turns
    \<and> length (fs_images s') = length (fs_images s) \<and> fs_next_id s' = fs_next_id s \<and> fs_cursor s' = fs_cursor s \<and> fs_replenish s' = fs_replenish s
    \<and> (\<forall>j < length (fs_images s). fi_deficit (fs_images s' ! j) = fi_deficit (fs_images s ! j)
         \<and> fi_admitted_bytes (fs_images s' ! j) = fi_admitted_bytes (fs_images s ! j))"
proof -
  have kept: "(j, k') \<noteq> (i, k)" if "fs_granted s = Some (j, k')" for j k' using t that free by (auto simp: turn_ok_def)
  show ?thesis
  proof (cases "head_position k (fi_queue (fs_images s ! i))")
    case None
    have "turn_ok s (tickets - {(i, k)}) turns" using kept by (intro turn_ok_keep [OF t]) auto
    then show ?thesis using ok i None by (simp add: Ticket_drop_def checked_image_def)
  next
    case (Some index)
    note p = head_position_Some [OF Some]
    let ?s = "on_image i (\<lambda>img. img\<lparr>fi_queue := remove_nth index (fi_queue img), fi_canceled := fi_canceled img + 1\<rparr>) s"
    have d: "distinct (map fq_id (fi_queue (fs_images s ! i)))" using state_ok_nth [OF ok i] by (simp add: image_ok_def)
    note q = remove_nth_props(5) [OF p(1) d]
    have "state_ok ?s" by (rule state_ok_on_image [OF ok]) (simp add: image_ok_remove(2) p(1))
    moreover have "turn_ok ?s (tickets - {(i, k)}) turns"
    proof (rule turn_ok_keep [OF t])
      fix j k' r assume g: "fs_granted s = Some (j, k')" and r: "r \<in> set (fi_queue (fs_images s ! j))" "fq_id r = k'"
      have j: "j < length (fs_images s)" using granted_range [OF ok t g] .
      have "r \<in> set (fi_queue (fs_images ?s ! j))"
      proof (cases "i = j")
        case True
        then have "r \<noteq> fi_queue (fs_images s ! i) ! index" using kept [OF g] r(2) p(2) by auto
        then show ?thesis using r(1) q True j by simp
      next
        case False
        then show ?thesis using r(1) j by simp
      qed
      then show "fi_deficit (fs_images ?s ! j) = fi_deficit (fs_images s ! j) \<and> (\<exists>r' \<in> set (fi_queue (fs_images ?s ! j)). fq_id r' = k' \<and> fq_bytes r' = fq_bytes r)"
        using r(2) j by auto
    qed (use kept in auto)
    moreover have "Ticket_drop s i k = Inr ?s" using i Some by (simp add: Ticket_drop_def checked_image_def)
    ultimately show ?thesis by simp
  qed
qed

lemma released_ok:
  assumes ok: "state_ok s" and t: "turn_ok s tickets turns"
  shows "state_ok (resources_released s)" "turn_ok (resources_released s) tickets turns"
    "length (fs_images (resources_released s)) = length (fs_images s)" "fs_next_id (resources_released s) = fs_next_id s"
    "fs_cursor (resources_released s) = fs_cursor s" "fs_replenish (resources_released s) = fs_replenish s"
    "j < length (fs_images s) \<Longrightarrow> fi_deficit (fs_images (resources_released s) ! j) = fi_deficit (fs_images s ! j)
         \<and> fi_admitted_bytes (fs_images (resources_released s) ! j) = fi_admitted_bytes (fs_images s ! j)"
proof -
  show "length (fs_images (resources_released s)) = length (fs_images s)" "fs_next_id (resources_released s) = fs_next_id s"
    "fs_cursor (resources_released s) = fs_cursor s" "fs_replenish (resources_released s) = fs_replenish s"
    "j < length (fs_images s) \<Longrightarrow> fi_deficit (fs_images (resources_released s) ! j) = fi_deficit (fs_images s ! j)
         \<and> fi_admitted_bytes (fs_images (resources_released s) ! j) = fi_admitted_bytes (fs_images s ! j)"
    by (simp_all add: resources_released_def Let_def)
  have ids: "map fq_id (map (\<lambda>request. request\<lparr>fq_ready := True\<rparr>) q) = map fq_id q" for q by simp
  show "state_ok (resources_released s)"
    using ok by (intro state_okI [OF ok]) (auto simp: resources_released_def Let_def state_ok_def image_ok_def ids simp del: map_map)
  show "turn_ok (resources_released s) tickets turns"
  proof (rule turn_ok_keep [OF t])
    fix i k r assume g: "fs_granted s = Some (i, k)" and r: "r \<in> set (fi_queue (fs_images s ! i))" "fq_id r = k"
    have "r\<lparr>fq_ready := True\<rparr> \<in> set (fi_queue (fs_images (resources_released s) ! i))"
      using r(1) granted_range [OF ok t g] by (simp add: resources_released_def Let_def)
    moreover have "fi_deficit (fs_images (resources_released s) ! i) = fi_deficit (fs_images s ! i)"
      using granted_range [OF ok t g] by (simp add: resources_released_def Let_def)
    ultimately show "fi_deficit (fs_images (resources_released s) ! i) = fi_deficit (fs_images s ! i)
      \<and> (\<exists>r' \<in> set (fi_queue (fs_images (resources_released s) ! i)). fq_id r' = k \<and> fq_bytes r' = fq_bytes r)"
      using r(2) by (intro conjI bexI [where x = "r\<lparr>fq_ready := True\<rparr>"]) simp_all
  qed (simp_all add: resources_released_def Let_def)
qed

lemma fair_ok_step: "fair_step w w' \<Longrightarrow> fair_ok w \<Longrightarrow> fair_ok w'"
proof (induction rule: fair_step.induct)
  case (ticket w i kind s k)
  then have ok: "state_ok (fw_state w)" and t: "turn_ok (fw_state w) (fw_tickets w) (fw_turns w)" by (simp_all add: fair_ok_def)
  note p = Port_ticket_ok [OF ticket.hyps ok]
  have "j < length (fs_images s) \<and> k' < fs_next_id s" if "(j, k') \<in> insert (i, k) (fw_tickets w)" for j k'
    using that p(2-5) ticket.prems by (auto simp: fair_ok_def intro: less_le_trans)
  then show ?case using p(1) p(6) [OF t] by (auto simp: fair_ok_def)
next
  case (granted i k w s wake)
  then have ok: "state_ok (fw_state w)" and t: "turn_ok (fw_state w) (fw_tickets w) (fw_turns w)" by (simp_all add: fair_ok_def)
  show ?case using Ticket_turn_ok [OF granted.hyps(2) ok t granted.hyps(1)] granted.prems by (simp add: fair_ok_def)
next
  case (refused i k w s wake)
  then have ok: "state_ok (fw_state w)" and t: "turn_ok (fw_state w) (fw_tickets w) (fw_turns w)" by (simp_all add: fair_ok_def)
  show ?case using Ticket_turn_ok [OF refused.hyps(2) ok t refused.hyps(1)] refused.prems by (simp add: fair_ok_def)
next
  case (commit i k w s)
  then have ok: "state_ok (fw_state w)" and t: "turn_ok (fw_state w) (fw_tickets w) (fw_turns w)" by (simp_all add: fair_ok_def)
  note o = turn_out [OF t commit.hyps(1)]
  obtain index where ix: "index < length (fi_queue (fs_images (fw_state w) ! i))"
    and s: "s = on_image i (\<lambda>img. img\<lparr>fi_queue := remove_nth index (fi_queue img),
       fi_deficit := fi_deficit img - fq_bytes (fi_queue (fs_images (fw_state w) ! i) ! index),
       fi_admitted_bytes := fi_admitted_bytes img + fq_bytes (fi_queue (fs_images (fw_state w) ! i) ! index), fi_admitted := fi_admitted img + 1\<rparr>) (fw_state w)"
    by (rule Turn_commit_ok [OF ok t commit.hyps(1)]) (use commit.hyps(2) in \<open>simp add: that\<close>)
  have "state_ok s" unfolding s by (rule state_ok_on_image [OF ok]) (simp add: image_ok_remove(1) ix)
  moreover have "turn_ok s (fw_tickets w) {(i, k, True)}" by (rule turn_ok_committed) (simp_all add: s o)
  ultimately show ?case using commit.prems o(2) by (simp add: fair_ok_def s)
next
  case (turn_over i k committed w s)
  then have ok: "state_ok (fw_state w)" and t: "turn_ok (fw_state w) (fw_tickets w) (fw_turns w)" by (simp_all add: fair_ok_def)
  show ?case using Turn_drop_ok [OF ok t turn_over.hyps(1)] turn_over by (auto simp: fair_ok_def)
next
  case (cancel i k w s)
  then have ok: "state_ok (fw_state w)" and t: "turn_ok (fw_state w) (fw_tickets w) (fw_turns w)" and i: "i < length (fs_images (fw_state w))"
    by (auto simp: fair_ok_def)
  show ?case using Ticket_drop_ok [OF ok t i cancel.hyps(2)] cancel by (auto simp: fair_ok_def)
next
  case (release w)
  then have ok: "state_ok (fw_state w)" and t: "turn_ok (fw_state w) (fw_tickets w) (fw_turns w)" by (simp_all add: fair_ok_def)
  show ?case using released_ok [OF ok t] release by (simp add: fair_ok_def)
next
  case (woken w s wake)
  then have ok: "state_ok (fw_state w)" and t: "turn_ok (fw_state w) (fw_tickets w) (fw_turns w)" by (simp_all add: fair_ok_def)
  obtain chosen where "State_choose (fw_state w) = Inr (s, chosen)" using woken.hyps by (auto simp: Fair_wake_next_def)
  from choose_turn_ok [OF ok this t] show ?case using woken.prems by (simp add: fair_ok_def same_queues_def)
qed

section \<open>Runs that pay for what they do\<close>

text \<open>A potential that every step pays its cost from bounds the cost of a run.\<close>

locale paid_run =
  fixes step :: "'w \<Rightarrow> 'w \<Rightarrow> bool" and cost :: "'w \<Rightarrow> nat" and potential :: "'w \<Rightarrow> nat"
  assumes paid: "step w w' \<Longrightarrow> cost w' + potential w' \<le> cost w + potential w"
begin

lemma run_paid: "step\<^sup>*\<^sup>* w w' \<Longrightarrow> cost w' + potential w' \<le> cost w + potential w"
  by (induction rule: rtranclp_induct) (auto dest: paid intro: order_trans)

lemma run_bounded: "step\<^sup>*\<^sup>* w w' \<Longrightarrow> cost w' \<le> cost w + potential w"
  using run_paid by fastforce

end

section \<open>How much may overtake a waiting image\<close>

text \<open>Image \<open>i\<close> waits: \<open>r\<close> is its first ready request, and no turn of it is out.\<close>

definition waits :: "nat \<Rightarrow> FairRequest \<Rightarrow> FairState \<Rightarrow> bool" where
  "waits i r s \<longleftrightarrow> i < length (fs_images s) \<and> find fq_ready (fi_queue (fs_images s ! i)) = Some r \<and> (\<forall>k. fs_granted s \<noteq> Some (i, k))"

definition others :: "nat \<Rightarrow> FairState \<Rightarrow> nat" where
  "others i s = (\<Sum>j \<in> {..<length (fs_images s)} - {i}. fi_admitted_bytes (fs_images s ! j))"

text \<open>What the images before \<open>i\<close> in the round may still be admitted.\<close>

definition allowance :: "nat \<Rightarrow> FairRequest \<Rightarrow> FairState \<Rightarrow> nat" where
  "allowance i r s = (let n = length (fs_images s); c = fs_cursor s in
     if c = i then (if fs_replenish s \<or> fq_bytes r \<le> fi_deficit (fs_images s ! i) then 0 else n * (2 * QUANTUM))
     else (dist n c i - 1) * (2 * QUANTUM) + (if fs_replenish s then 2 * QUANTUM else fi_deficit (fs_images s ! c)))"

lemma dist_pos: "c < n \<Longrightarrow> i < n \<Longrightarrow> c \<noteq> i \<Longrightarrow> 0 < dist n c i"
  by (auto simp: dist_def)

lemma allowance_bound:
  assumes ok: "state_ok s" and i: "i < length (fs_images s)"
  shows "allowance i r s \<le> length (fs_images s) * (2 * QUANTUM)"
proof (cases "fs_cursor s = i")
  case False
  have c: "fs_cursor s < length (fs_images s)" using ok by (simp add: state_ok_def)
  have "fi_deficit (fs_images s ! fs_cursor s) < 2 * QUANTUM" using state_ok_nth [OF ok c] by (simp add: image_ok_def)
  then have "allowance i r s \<le> (dist (length (fs_images s)) (fs_cursor s) i - 1) * (2 * QUANTUM) + 2 * QUANTUM"
    using False by (simp add: allowance_def Let_def)
  also have "\<dots> = dist (length (fs_images s)) (fs_cursor s) i * (2 * QUANTUM)"
    using dist_pos [OF c i False] by (cases "dist (length (fs_images s)) (fs_cursor s) i") simp_all
  also have "\<dots> \<le> length (fs_images s) * (2 * QUANTUM)" using dist_less [OF c i] by (intro mult_le_mono1) simp
  finally show ?thesis .
qed (simp add: allowance_def Let_def)

lemma allowance_advance:
  assumes c: "fs_cursor s < length (fs_images s)" and i: "i < length (fs_images s)"
  shows "fs_cursor s \<noteq> i \<Longrightarrow> allowance i r (State_advance s) \<le> (dist (length (fs_images s)) (fs_cursor s) i - 1) * (2 * QUANTUM)"
    and "fs_cursor s = i \<Longrightarrow> allowance i r (State_advance s) \<le> length (fs_images s) * (2 * QUANTUM)"
proof -
  let ?n = "length (fs_images s)" and ?c = "(fs_cursor s + 1) mod length (fs_images s)"
  have c': "?c < ?n" using c by (metis gr_implies_not_zero mod_less_divisor neq0_conv)
  have a: "allowance i r (State_advance s) = dist ?n ?c i * (2 * QUANTUM)"
  proof (cases "?c = i")
    case True
    then show ?thesis by (simp add: allowance_def Let_def dist_def)
  next
    case False
    then have "allowance i r (State_advance s) = (dist ?n ?c i - 1) * (2 * QUANTUM) + 2 * QUANTUM" by (simp add: allowance_def Let_def)
    then show ?thesis using dist_pos [OF c' i False] by (cases "dist ?n ?c i") simp_all
  qed
  show "fs_cursor s \<noteq> i \<Longrightarrow> allowance i r (State_advance s) \<le> (dist ?n (fs_cursor s) i - 1) * (2 * QUANTUM)"
    using dist_advance(1) [OF c i] unfolding a by (metis add_diff_cancel_right' order_refl)
  show "fs_cursor s = i \<Longrightarrow> allowance i r (State_advance s) \<le> ?n * (2 * QUANTUM)"
    using dist_less [OF c' i] unfolding a by (intro mult_le_mono1) simp
qed

lemma choose_visits_allowance:
  "state_ok s \<Longrightarrow> choose_visits n s = Inr (s', x) \<Longrightarrow> i < length (fs_images s) \<Longrightarrow> find fq_ready (fi_queue (fs_images s ! i)) = Some r \<Longrightarrow>
     allowance i r s' \<le> allowance i r s"
proof (induction n arbitrary: s)
  case (Suc n)
  note ok = Suc.prems(1) and i = Suc.prems(3)
  have c: "fs_cursor s < length (fs_images s)" using ok by (simp add: state_ok_def)
  let ?n = "length (fs_images s)"
  have skip: "allowance i r s' \<le> allowance i r (State_advance s1)"
    if "state_ok s1" "same_queues s s1" "choose_visits n (State_advance s1) = Inr (s', x)" for s1
    using Suc.IH [OF state_ok_advance [OF that(1)] that(3)] that(2) i Suc.prems(4) by (simp add: same_queues_def)
  show ?case
  proof (cases "find fq_ready (fi_queue (fs_images s ! fs_cursor s))")
    case None
    then have ne: "fs_cursor s \<noteq> i" using Suc.prems(4) by auto
    have "0 < 2 * QUANTUM" using quantum_pos by simp
    note d = set_deficit_ok [OF ok this]
    have len: "length (fs_images (set_deficit 0 s)) = ?n" using d(3) by (simp add: same_queues_def)
    have "choose_visits n (State_advance (set_deficit 0 s)) = Inr (s', x)" using Suc.prems(2) by (simp add: choose_visit [OF ok] None)
    from skip [OF d(1,3) this] show ?thesis
      using allowance_advance(1) [of "set_deficit 0 s" i r] c i len d(8) ne by (simp add: allowance_def [of i r s] Let_def)
  next
    case (Some request)
    let ?d = "visit_deficit s request" and ?s = "(set_deficit (visit_deficit s request) s)\<lparr>fs_replenish := False\<rparr>"
    note d = set_deficit_ok [OF ok visit_deficit_less [OF ok Some]]
    have len: "length (fs_images ?s) = ?n" using d(4) [of False] by (simp add: same_queues_def)
    have cur: "fs_cursor ?s = fs_cursor s" using d(8) by simp
    show ?thesis
    proof (cases "fq_bytes request \<le> ?d")
      case True
      then have s': "s' = ?s" using Suc.prems(2) by (simp add: choose_visit [OF ok] Some Let_def)
      show ?thesis
      proof (cases "fs_cursor s = i")
        case ci: True
        then have "request = r" using Some Suc.prems(4) by simp
        then show ?thesis using True d(7) ci cur by (simp add: s' allowance_def Let_def)
      next
        case ci: False
        have "?d \<le> (if fs_replenish s then 2 * QUANTUM else fi_deficit (fs_images s ! fs_cursor s))"
          using visit_deficit_less [OF ok Some] by (auto simp: visit_deficit_def Let_def)
        then show ?thesis using ci cur d(7) len by (simp add: s' allowance_def Let_def)
      qed
    next
      case False
      then have "choose_visits n (State_advance ?s) = Inr (s', x)" using Suc.prems(2) by (simp add: choose_visit [OF ok] Some Let_def)
      note sk = skip [OF d(2) [of False] d(4) [of False] this]
      show ?thesis
      proof (cases "fs_cursor s = i")
        case ci: True
        then have "request = r" using Some Suc.prems(4) by simp
        moreover have "\<not> fs_replenish s" using False find_ready_ok(2) [OF ok c Some] by (auto simp: visit_deficit_def Let_def split: if_splits)
        ultimately have "allowance i r s = ?n * (2 * QUANTUM)" using False ci by (simp add: allowance_def visit_deficit_def Let_def)
        then show ?thesis using sk allowance_advance(2) [of ?s i r] c i len cur ci by (simp add: len cur)
      next
        case ci: False
        then show ?thesis using sk allowance_advance(1) [of ?s i r] c i len cur by (simp add: allowance_def [of i r s] Let_def)
      qed
    qed
  qed
qed simp

lemma choose_allowance:
  assumes "state_ok s" and "State_choose s = Inr (s', x)" and "i < length (fs_images s)" and "find fq_ready (fi_queue (fs_images s ! i)) = Some r"
  shows "allowance i r s' \<le> allowance i r s"
  using assms choose_visits_allowance [OF assms(1) _ assms(3,4)] by (auto simp: State_choose_def split: if_splits)

text \<open>An operation that moves no deficit.\<close>

lemma paid_unchanged:
  assumes "length (fs_images s') = length (fs_images s)" "fs_cursor s' = fs_cursor s" "fs_replenish s' = fs_replenish s" "state_ok s"
    and "\<And>j. j < length (fs_images s) \<Longrightarrow> fi_deficit (fs_images s' ! j) = fi_deficit (fs_images s ! j)
         \<and> fi_admitted_bytes (fs_images s' ! j) = fi_admitted_bytes (fs_images s ! j)"
    and "i < length (fs_images s)"
  shows "others i s' = others i s" "allowance i r s' = allowance i r s"
proof -
  show "others i s' = others i s" unfolding others_def assms(1) by (rule sum.cong) (use assms(5) in auto)
  have "fs_cursor s < length (fs_images s)" using assms(4) by (simp add: state_ok_def)
  then show "allowance i r s' = allowance i r s" using assms by (simp add: allowance_def Let_def)
qed

lemma same_queues_others: "same_queues s s' \<Longrightarrow> others i s' = others i s"
  unfolding others_def same_queues_def by (intro sum.cong) auto

lemma Ticket_turn_paid:
  assumes turn: "Ticket_turn s j k = Inr (s', g, wake)" and ok: "state_ok s" and t: "turn_ok s tickets turns" and "waits i r s'"
    and i: "i < length (fs_images s)"
  shows "others i s' + allowance i r s' \<le> others i s + allowance i r s"
proof -
  obtain index s2 chosen where j: "j < length (fs_images s)" "head_position k (fi_queue (fs_images s ! j)) = Some index"
    and ch: "State_choose (ready_update j index s) = Inr (s2, chosen)"
    and s': "s' = (if g then s2\<lparr>fs_granted := chosen, fs_released_during_turn := False\<rparr> else s2)" by (rule Ticket_turn_Inr [OF turn])
  let ?s1 = "ready_update j index s"
  note r = ready_update_ok [OF ok j, folded ready_update_def]
  note c = choose_turn_ok [OF r(1) ch r(2) [OF t]]
  have u: "others i ?s1 = others i s" "allowance i r ?s1 = allowance i r s"
    using paid_unchanged [of ?s1 s i] ok i by (auto simp: ready_update_def)
  have e: "others i s' = others i s2" "allowance i r s' = allowance i r s2" by (simp_all add: s' others_def allowance_def Let_def)
  have "find fq_ready (fi_queue (fs_images ?s1 ! i)) = Some r"
    using \<open>waits i r s'\<close> c(2) i by (auto simp: waits_def s' same_queues_def ready_update_def split: if_splits)
  then have "allowance i r s2 \<le> allowance i r ?s1" using choose_allowance [OF r(1) ch] i by (simp add: ready_update_def)
  then show ?thesis using u e same_queues_others [OF c(2)] by simp
qed

lemma commit_paid:
  assumes ok: "state_ok s" and t: "turn_ok s tickets turns" and turn: "(j, k, False) \<in> turns" and "Turn_commit s j k = Inr s'"
    and w: "waits i r s"
  shows "others i s' + allowance i r s' \<le> others i s + allowance i r s"
proof -
  note o = turn_out [OF t turn]
  have j: "j < length (fs_images s)" using granted_range [OF ok t o(1)] .
  have ne: "j \<noteq> i" using w o(1) by (auto simp: waits_def)
  obtain index where b: "fq_bytes (fi_queue (fs_images s ! j) ! index) \<le> fi_deficit (fs_images s ! j)"
    and s': "s' = on_image j (\<lambda>img. img\<lparr>fi_queue := remove_nth index (fi_queue img),
       fi_deficit := fi_deficit img - fq_bytes (fi_queue (fs_images s ! j) ! index),
       fi_admitted_bytes := fi_admitted_bytes img + fq_bytes (fi_queue (fs_images s ! j) ! index), fi_admitted := fi_admitted img + 1\<rparr>) s"
    by (rule Turn_commit_ok [OF ok t turn]) (use assms(4) in \<open>simp add: that\<close>)
  let ?b = "fq_bytes (fi_queue (fs_images s ! j) ! index)" and ?n = "length (fs_images s)"
  have "others i s' = (\<Sum>l \<in> {..<?n} - {i}. fi_admitted_bytes (fs_images s ! l) + (if l = j then ?b else 0))"
    unfolding others_def by (intro sum.cong) (auto simp: s')
  then have "others i s' = others i s + ?b" using j ne by (simp add: others_def sum.distrib sum.delta)
  moreover have "allowance i r s' + ?b = allowance i r s"
    using o(4,5) ne j b by (simp add: allowance_def Let_def s')
  ultimately show ?thesis by simp
qed

definition waiting_step :: "nat \<Rightarrow> FairRequest \<Rightarrow> FairWorld \<Rightarrow> FairWorld \<Rightarrow> bool" where
  "waiting_step i r w w' \<longleftrightarrow> fair_step w w' \<and> waits i r (fw_state w) \<and> waits i r (fw_state w')"

lemma waiting_step_paid:
  assumes "fair_ok w" and "waiting_step i r w w'"
  shows "others i (fw_state w') + allowance i r (fw_state w') \<le> others i (fw_state w) + allowance i r (fw_state w)"
proof -
  have ok: "state_ok (fw_state w)" and t: "turn_ok (fw_state w) (fw_tickets w) (fw_turns w)" using assms(1) by (simp_all add: fair_ok_def)
  have w: "waits i r (fw_state w)" "waits i r (fw_state w')" and i: "i < length (fs_images (fw_state w))" and st: "fair_step w w'"
    using assms(2) by (simp_all add: waiting_step_def waits_def)
  show ?thesis using st
  proof cases
    case (ticket j kind s k)
    note p = Port_ticket_ok [OF ticket(2) ok]
    from paid_unchanged [OF p(4,7,8) ok p(9) i] show ?thesis using ticket(1) by simp
  next
    case (granted j k s wake)
    then show ?thesis using Ticket_turn_paid [OF granted(3) ok t _ i] w(2) by simp
  next
    case (refused j k s wake)
    then show ?thesis using Ticket_turn_paid [OF refused(3) ok t _ i] w(2) by simp
  next
    case (commit j k s)
    then show ?thesis using commit_paid [OF ok t commit(2,3) w(1)] by simp
  next
    case (turn_over j k c s)
    note o = turn_out [OF t turn_over(2)] and d = Turn_drop_ok [OF ok t turn_over(2)]
    have s: "length (fs_images s) = length (fs_images (fw_state w))"
      "\<And>l. l < length (fs_images (fw_state w)) \<Longrightarrow> fi_deficit (fs_images s ! l) = fi_deficit (fs_images (fw_state w) ! l)
         \<and> fi_admitted_bytes (fs_images s ! l) = fi_admitted_bytes (fs_images (fw_state w) ! l)"
      "c \<Longrightarrow> fs_cursor s = fs_cursor (fw_state w) \<and> fs_replenish s = fs_replenish (fw_state w)"
      "\<not> c \<Longrightarrow> fs_cursor s = (fs_cursor (fw_state w) + 1) mod length (fs_images (fw_state w)) \<and> fs_replenish s"
      using d turn_over(3) by auto
    have j: "j \<noteq> i" using w(1) o(1) by (auto simp: waits_def)
    show ?thesis
    proof (cases c)
      case True
      then show ?thesis using paid_unchanged [OF s(1) _ _ ok s(2) i] s(3) turn_over(1) by simp
    next
      case False
      have "others i s = others i (fw_state w)" unfolding others_def s(1) by (rule sum.cong) (use s(2) in auto)
      moreover have "allowance i r s = allowance i r (State_advance (fw_state w))"
        using s(1,4) False s(2) [OF i] by (simp add: allowance_def Let_def)
      moreover have "allowance i r (State_advance (fw_state w)) \<le> allowance i r (fw_state w)"
        using allowance_advance(1) [of "fw_state w" i r] granted_range [OF ok t o(1)] o(4) i j by (simp add: allowance_def [of i r "fw_state w"] Let_def)
      ultimately show ?thesis using turn_over(1) by simp
    qed
  next
    case (cancel j k s)
    then have j: "j < length (fs_images (fw_state w))" using assms(1) by (auto simp: fair_ok_def)
    then have s: "length (fs_images s) = length (fs_images (fw_state w))" "fs_cursor s = fs_cursor (fw_state w)" "fs_replenish s = fs_replenish (fw_state w)"
      "\<And>l. l < length (fs_images (fw_state w)) \<Longrightarrow> fi_deficit (fs_images s ! l) = fi_deficit (fs_images (fw_state w) ! l)
         \<and> fi_admitted_bytes (fs_images s ! l) = fi_admitted_bytes (fs_images (fw_state w) ! l)"
      using Ticket_drop_ok [OF ok t j cancel(3)] cancel(4) by auto
    from paid_unchanged [OF s(1-3) ok s(4) i] show ?thesis using cancel(1) by simp
  next
    case release
    note p = released_ok [OF ok t]
    from paid_unchanged [OF p(3,5,6) ok p(7) i] show ?thesis using release by simp
  next
    case (woken s wake)
    obtain chosen where ch: "State_choose (fw_state w) = Inr (s, chosen)" using woken(2) by (auto simp: Fair_wake_next_def)
    have "find fq_ready (fi_queue (fs_images (fw_state w) ! i)) = Some r" using w(1) by (simp add: waits_def)
    from choose_allowance [OF ok ch i this] show ?thesis using same_queues_others [OF choose_turn_ok(2) [OF ok ch t]] woken(1) by simp
  qed
qed

interpretation overtaking: paid_run "\<lambda>w w'. fair_ok w \<and> waiting_step i r w w'" "\<lambda>w. others i (fw_state w)" "\<lambda>w. allowance i r (fw_state w)" for i r
  by unfold_locales (blast intro: waiting_step_paid)

section \<open>Every history of a host\<close>

inductive fair_history :: "FairWorld \<Rightarrow> bool" where
  created: "Fair_new room images = Inr s \<Longrightarrow> fair_history \<lparr>fw_state = s, fw_tickets = {}, fw_turns = {}\<rparr>"
| stepped: "fair_history w \<Longrightarrow> fair_step w w' \<Longrightarrow> fair_history w'"

lemma fair_history_ok: "fair_history w \<Longrightarrow> fair_ok w"
proof (induction rule: fair_history.induct)
  case (created room images s)
  then show ?case using quantum_pos by (auto simp: Fair_new_def fair_ok_def state_ok_def image_ok_def turn_ok_def split: if_splits)
next
  case (stepped w w')
  then show ?case using fair_ok_step by blast
qed

text \<open>
  In every interleaving at most one turn is out, no critical section panics (the assertions on the grant hold, the granted
  head is found and its deficit covers it), and every image keeps at most eight heads and a deficit below two quanta.
\<close>

theorem fair_turns_safe:
  assumes "fair_history w"
  shows "(\<forall>t \<in> fw_turns w. \<forall>t' \<in> fw_turns w. t = t')
    \<and> (\<forall>i k. (i, k, False) \<in> fw_turns w \<longrightarrow> (\<exists>s. Turn_commit (fw_state w) i k = Inr s))
    \<and> (\<forall>i k c. (i, k, c) \<in> fw_turns w \<longrightarrow> (\<exists>s. Turn_drop (fw_state w) i k c = Inr s))
    \<and> (\<exists>s x. State_choose (fw_state w) = Inr (s, x))
    \<and> (\<forall>image \<in> set (fs_images (fw_state w)). length (fi_queue image) \<le> HEADS \<and> fi_deficit image < 2 * QUANTUM)"
proof -
  have ok: "state_ok (fw_state w)" and t: "turn_ok (fw_state w) (fw_tickets w) (fw_turns w)"
    using fair_history_ok [OF assms] by (simp_all add: fair_ok_def)
  have "\<exists>s. Turn_commit (fw_state w) i k = Inr s" if "(i, k, False) \<in> fw_turns w" for i k
    by (rule Turn_commit_ok [OF ok t that]) blast
  moreover have "\<exists>s. Turn_drop (fw_state w) i k c = Inr s" if "(i, k, c) \<in> fw_turns w" for i k c using Turn_drop_ok [OF ok t that] by blast
  moreover have "\<exists>s x. State_choose (fw_state w) = Inr (s, x)" using State_choose_ok [OF ok] by blast
  moreover have "length (fi_queue image) \<le> HEADS \<and> fi_deficit image < 2 * QUANTUM" if "image \<in> set (fs_images (fw_state w))" for image
    using that ok by (auto simp: state_ok_def image_ok_def in_set_conv_nth)
  moreover have "t1 = t2" if "t1 \<in> fw_turns w" "t2 \<in> fw_turns w" for t1 t2
    using turn_out(2) [OF t, of "fst t1" "fst (snd t1)" "snd (snd t1)"] that by auto
  ultimately show ?thesis by blast
qed

text \<open>
  C40. The scheduler conserves work: with a ready request and no turn out it wakes the frontend of some image, and the turn which that
  image then asks for the chosen request is granted.
\<close>

theorem fair_work_conserving:
  assumes "fair_history w" and "fs_granted (fw_state w) = None"
    and "i < length (fs_images (fw_state w))" and "\<exists>request \<in> set (fi_queue (fs_images (fw_state w) ! i)). fq_ready request"
  shows "\<exists>s j k s'. State_choose (fw_state w) = Inr (s, Some (j, k)) \<and> Fair_wake_next (fw_state w) = Inr (s, Some j)
    \<and> Ticket_turn s j k = Inr (s', True, None)"
proof -
  have ok: "state_ok (fw_state w)" using fair_history_ok [OF assms(1)] by (simp add: fair_ok_def)
  obtain r where "find fq_ready (fi_queue (fs_images (fw_state w) ! i)) = Some r"
    using assms(4) by (cases "find fq_ready (fi_queue (fs_images (fw_state w) ! i))") (auto simp: find_None_iff)
  from State_choose_found [OF ok assms(2,3) this] obtain s j k where ch: "State_choose (fw_state w) = Inr (s, Some (j, k))" by force
  have c: "state_ok s" "same_queues (fw_state w) s" "fs_cursor s = j" "\<not> fs_replenish s" and
    "\<exists>request. find fq_ready (fi_queue (fs_images s ! j)) = Some request \<and> fq_id request = k \<and> fq_bytes request \<le> fi_deficit (fs_images s ! j)"
    using State_choose_ok [OF ok] ch by auto
  then obtain request where q: "find fq_ready (fi_queue (fs_images s ! j)) = Some request" "fq_id request = k"
    "fq_bytes request \<le> fi_deficit (fs_images s ! j)" by blast
  have j: "j < length (fs_images s)" using c(1,3) by (auto simp: state_ok_def)
  note f = find_ready_ok [OF c(1) j q(1)]
  have "distinct (map fq_id (fi_queue (fs_images s ! j)))" using state_ok_nth [OF c(1) j] by (simp add: image_ok_def)
  then obtain index where p: "head_position k (fi_queue (fs_images s ! j)) = Some index" "index < length (fi_queue (fs_images s ! j))"
    "fi_queue (fs_images s ! j) ! index = request" using head_position_found [OF _ f(1) q(2)] by blast
  have "request\<lparr>fq_ready := True\<rparr> = request" using f(3) by simp
  moreover have "(fi_queue (fs_images s ! j))[index := request] = fi_queue (fs_images s ! j)" using p(3) list_update_id by metis
  ultimately have same: "ready_update j index s = s" using p(3) by (simp add: ready_update_def on_image_def)
  have "visit_deficit s request = fi_deficit (fs_images s ! j)" using c(3,4) by (simp add: visit_deficit_def Let_def)
  then have "\<exists>s'. State_choose s = Inr (s', Some (j, k))"
    using assms(2) c(2,3) q by (simp add: State_choose_def same_queues_def choose_visit [OF c(1)] Let_def)
  then obtain s' where "State_choose s = Inr (s', Some (j, k))" by blast
  then have "Ticket_turn s j k = Inr (s'\<lparr>fs_granted := Some (j, k), fs_released_during_turn := False\<rparr>, True, None)"
    using j p(1) same by (simp add: Ticket_turn_def checked_image_def Let_def flip: ready_update_def)
  then show ?thesis using ch by (auto simp: Fair_wake_next_def)
qed

text \<open>
  C19. No image is starved by the others: along any run in which the first ready request of an image stays the same and is not granted,
  the other images are admitted at most two quanta for each image of the host, whatever they ask for.
\<close>

theorem fair_bounded_overtaking:
  assumes "fair_history w" and "(waiting_step i r)\<^sup>*\<^sup>* w w'" and "i < length (fs_images (fw_state w))"
  shows "others i (fw_state w') \<le> others i (fw_state w) + length (fs_images (fw_state w)) * (2 * QUANTUM)"
proof -
  have "(\<lambda>w w'. fair_ok w \<and> waiting_step i r w w')\<^sup>*\<^sup>* w w' \<and> fair_ok w'"
    using assms(2) fair_history_ok [OF assms(1)]
  proof (induction rule: rtranclp_induct)
    case (step u v)
    then have "fair_ok v" using fair_ok_step by (auto simp: waiting_step_def)
    then show ?case using step by (auto intro: rtranclp.rtrancl_into_rtrancl)
  qed simp
  then have "others i (fw_state w') \<le> others i (fw_state w) + allowance i r (fw_state w)" using overtaking.run_bounded by blast
  moreover have "state_ok (fw_state w)" using fair_history_ok [OF assms(1)] by (simp add: fair_ok_def)
  ultimately show ?thesis using allowance_bound [OF _ assms(3), of r] by fastforce
qed

section \<open>A host of two images\<close>

definition demo_image :: "FairRequest list \<Rightarrow> FairImage" where
  "demo_image queue = \<lparr>fi_queue = queue, fi_deficit = 0, fi_admitted_bytes = 0, fi_admitted = 0, fi_canceled = 0, fi_deferred = 0\<rparr>"

definition demo_head :: FairRequest where
  "demo_head = \<lparr>fq_id = 1, fq_bytes = 4096, fq_ready = True\<rparr>"

definition demo_host :: FairWorld where
  "demo_host = \<lparr>fw_state = \<lparr>fs_images = [demo_image [], demo_image [demo_head]], fs_cursor = 0, fs_replenish = True, fs_next_id = 2, fs_granted = None,
     fs_released_during_turn = False\<rparr>, fw_tickets = {(1, 1)}, fw_turns = {}\<rparr>"

lemma demo_host_history: "fair_history demo_host"
proof -
  let ?s = "\<lparr>fs_images = [demo_image [], demo_image []], fs_cursor = 0, fs_replenish = True, fs_next_id = 1, fs_granted = None, fs_released_during_turn = False\<rparr>"
  have "Fair_new (Inr ()) 2 = Inr ?s" by (simp add: Fair_new_def demo_image_def numeral_2_eq_2)
  from fair_history.created [OF this] have "fair_history \<lparr>fw_state = ?s, fw_tickets = {}, fw_turns = {}\<rparr>" .
  moreover have "Port_ticket ?s 1 (AdmitRead 1) = Inr (fw_state demo_host, Some 1)"
    by (simp add: Port_ticket_def BLOCK_SIZE_def QUANTUM_def MAX_REQUEST_BYTES_def nchecked_add_def u64_max_def HEADS_def on_image_def
        demo_host_def demo_image_def demo_head_def)
  then have "fair_step \<lparr>fw_state = ?s, fw_tickets = {}, fw_turns = {}\<rparr> demo_host"
    using fair_step.ticket [of "\<lparr>fw_state = ?s, fw_tickets = {}, fw_turns = {}\<rparr>" 1 "AdmitRead 1" "fw_state demo_host" 1] by (simp add: demo_host_def)
  ultimately show ?thesis by (rule fair_history.stepped)
qed

lemma demo_host_fields:
  "fs_granted (fw_state demo_host) = None" "length (fs_images (fw_state demo_host)) = 2" "fi_queue (fs_images (fw_state demo_host) ! 1) = [demo_head]"
  "fq_ready demo_head" "fw_turns demo_host = {}"
  by (simp_all add: demo_host_def demo_image_def demo_head_def)

lemma fair_turns_safe_witness: "\<exists>s x. State_choose (fw_state demo_host) = Inr (s, x)"
  using fair_turns_safe [OF demo_host_history] by blast

lemma fair_work_conserving_witness: "\<exists>s j k. State_choose (fw_state demo_host) = Inr (s, Some (j, k))"
proof -
  have "\<exists>request \<in> set (fi_queue (fs_images (fw_state demo_host) ! 1)). fq_ready request"
    unfolding demo_host_fields(3) using demo_host_fields(4) by simp
  from fair_work_conserving [OF demo_host_history demo_host_fields(1) _ this] show ?thesis by (auto simp: demo_host_fields(2))
qed

lemma fair_bounded_overtaking_witness:
  "others 1 (resources_released (fw_state demo_host)) \<le> others 1 (fw_state demo_host) + 2 * (2 * QUANTUM)"
proof -
  let ?w = "demo_host\<lparr>fw_state := resources_released (fw_state demo_host)\<rparr>"
  have "waiting_step 1 demo_head demo_host ?w"
    unfolding waiting_step_def
  proof (intro conjI)
    show "fair_step demo_host ?w" by (rule fair_step.release)
    show "waits 1 demo_head (fw_state demo_host)" "waits 1 demo_head (fw_state ?w)"
      by (simp_all add: waits_def demo_host_def demo_image_def demo_head_def resources_released_def)
  qed
  then have "(waiting_step 1 demo_head)\<^sup>*\<^sup>* demo_host ?w" by (rule r_into_rtranclp [of "waiting_step 1 demo_head"])
  from fair_bounded_overtaking [OF demo_host_history this] show ?thesis by (simp add: demo_host_fields)
qed

end
