(* ===== verification/Request_Parser.thy ===== *)
theory Request_Parser
  imports Inflight Fair_Queue
begin

text \<open>
  Decoding of a guest's descriptor chain, \<^verbatim>\<open>daemon/src/request.rs\<close>. The chain is the guest's, and nothing of it is
  trusted. Guest memory (\<^verbatim>\<open>vm-memory\<close>) is an argument: which ranges it has, whether a read succeeds, and its bytes;
  so are the request codes and feature bits of \<^verbatim>\<open>virtio-bindings\<close>.
\<close>

section \<open>Guest memory and requests\<close>

record GuestMemory =
  gm_check :: "nat \<Rightarrow> nat \<Rightarrow> bool \<Rightarrow> bool"
  gm_readable :: "nat \<Rightarrow> nat \<Rightarrow> bool"
  gm_byte :: "nat \<Rightarrow> byte"

record VirtioCodes =
  vc_in :: nat
  vc_out :: nat
  vc_flush :: nat
  vc_get_id :: nat
  vc_discard :: nat
  vc_write_zeroes :: nat
  vc_f_discard :: nat
  vc_f_write_zeroes :: nat

definition guest_bytes :: "GuestMemory \<Rightarrow> nat \<Rightarrow> nat \<Rightarrow> bytes" where
  "guest_bytes mem addr n = map (gm_byte mem) [addr..<addr + n]"

definition read_slice :: "GuestMemory \<Rightarrow> nat \<Rightarrow> nat \<Rightarrow> bytes result" where
  "read_slice mem addr n = (if gm_readable mem addr n then Inr (guest_bytes mem addr n) else Inl (Other ''guest memory''))"

definition SECTOR_BYTES :: nat where "SECTOR_BYTES = 512"

definition DEVICE_ID :: bytes where "DEVICE_ID = ascii ''cas-experiment'' @ replicate 6 0"

record Segment =
  sg_addr :: nat
  sg_len :: nat
  sg_writable :: bool

record GuestCompletion =
  cp_head :: nat
  cp_status :: nat

record DataRequest =
  dr_completion :: GuestCompletion
  dr_offset :: nat
  dr_segments :: "Segment list"
  dr_len :: nat

record ZeroRequest =
  zr_completion :: GuestCompletion
  zr_offset :: nat
  zr_len :: nat
  zr_kind :: RequestKind

datatype GuestRequest =
    ReadRequest DataRequest
  | WriteRequest DataRequest
  | ZeroRange ZeroRequest
  | FlushRequest GuestCompletion
  | GetId GuestCompletion "Segment list"
  | Unsupported GuestCompletion
  | InvalidRequest GuestCompletion

text \<open>The last nonempty descriptor holds the status in its last byte.\<close>

definition Completion_from_descriptors :: "GuestMemory \<Rightarrow> nat \<Rightarrow> Segment list \<Rightarrow> GuestCompletion option" where
  "Completion_from_descriptors mem head descriptors =
     (case find (\<lambda>s. sg_len s \<noteq> 0) (rev descriptors) of
        None \<Rightarrow> None
      | Some final \<Rightarrow> (case nchecked_sub (sg_len final) 1 of
          None \<Rightarrow> None
        | Some n \<Rightarrow> (case nchecked_add (sg_addr final) n of
            None \<Rightarrow> None
          | Some status \<Rightarrow> if sg_writable final \<and> gm_check mem status 1 True then Some \<lparr>cp_head = head, cp_status = status\<rparr> else None)))"

fun Request_completion :: "GuestRequest \<Rightarrow> GuestCompletion" where
  "Request_completion (ReadRequest d) = dr_completion d"
| "Request_completion (WriteRequest d) = dr_completion d"
| "Request_completion (ZeroRange r) = zr_completion r"
| "Request_completion (FlushRequest c) = c"
| "Request_completion (GetId c _) = c"
| "Request_completion (Unsupported c) = c"
| "Request_completion (InvalidRequest c) = c"

fun inflight_range :: "GuestRequest \<Rightarrow> RequestKind \<times> nat \<times> nat" where
  "inflight_range (ReadRequest d) = (KindRead, dr_offset d, dr_len d)"
| "inflight_range (WriteRequest d) = (KindWrite, dr_offset d, dr_len d)"
| "inflight_range (ZeroRange r) = (zr_kind r, zr_offset r, zr_len r)"
| "inflight_range (FlushRequest _) = (KindFlush, 0, 0)"
| "inflight_range _ = (KindProtocol, 0, 0)"

definition Request_admission_kind :: "GuestRequest \<Rightarrow> AdmissionKind" where
  "Request_admission_kind request =
     (case request of
        ReadRequest d \<Rightarrow> AdmitRead (dr_len d)
      | WriteRequest d \<Rightarrow> AdmitWrite (dr_len d)
      | ZeroRange r \<Rightarrow> if zr_len r \<noteq> 0 then AdmitWrite 0 else AdmitControl
      | _ \<Rightarrow> AdmitControl)"

definition Request_inflight :: "GuestRequest \<Rightarrow> nat \<Rightarrow> u16 \<Rightarrow> InflightRequest" where
  "Request_inflight request queue available = (case inflight_range request of (kind, offset, len) \<Rightarrow>
     \<lparr>rq_kind = kind, rq_queue = queue, rq_head = cp_head (Request_completion request), rq_available = available, rq_offset = offset, rq_length = len\<rparr>)"

definition Request_negotiated :: "VirtioCodes \<Rightarrow> u64 \<Rightarrow> GuestRequest \<Rightarrow> GuestRequest" where
  "Request_negotiated v features request =
     (case request of
        ZeroRange r \<Rightarrow>
          if \<not> bit features (if zr_kind r = KindDiscard then vc_f_discard v else vc_f_write_zeroes v) then Unsupported (zr_completion r) else request
      | _ \<Rightarrow> request)"

section \<open>Parsing\<close>

definition nonempty :: "Segment list \<Rightarrow> Segment list" where
  "nonempty descriptors = filter (\<lambda>s. sg_len s \<noteq> 0) descriptors"

fun check_segments :: "GuestMemory \<Rightarrow> bool \<Rightarrow> nat \<Rightarrow> Segment list \<Rightarrow> nat result" where
  "check_segments mem writable_seen total_len [] = Inr total_len"
| "check_segments mem writable_seen total_len (s # ss) =
     ensure (\<not> (writable_seen \<and> \<not> sg_writable s)) (InvalidData ''readable descriptor after writable descriptor'')
    (ensure (gm_check mem (sg_addr s) (sg_len s) (sg_writable s)) (InvalidData ''descriptor outside guest memory'')
    (attempt (ok_or (nchecked_add total_len (sg_len s)) (InvalidData ''length overflow'')) (\<lambda>total_len.
     check_segments mem (writable_seen \<or> sg_writable s) total_len ss)))"

text \<open>The header: sixteen bytes off the front of the readable descriptors.\<close>

fun take_header :: "GuestMemory \<Rightarrow> bytes \<Rightarrow> Segment list \<Rightarrow> (bytes \<times> Segment list) result" where
  "take_header mem header [] = Inr (header, [])"
| "take_header mem header (s # ss) =
     (if length header = 16 then Inr (header, s # ss)
      else ensure (\<not> sg_writable s) (InvalidData ''request header is not entirely readable'')
       (let count = min (sg_len s) (16 - length header) in
        attempt (read_slice mem (sg_addr s) count) (\<lambda>bs.
        attempt (if sg_len s - count \<noteq> 0 then ok_or (nchecked_add (sg_addr s) count) (InvalidData ''address overflow'') else Inr (sg_addr s)) (\<lambda>addr.
        attempt (take_header mem (header @ bs) ss) (\<lambda>(header, ss).
          Inr (header, s\<lparr>sg_len := sg_len s - count, sg_addr := addr\<rparr> # ss))))))"

text \<open>\<^verbatim>\<open>last_mut().unwrap().len -= 1\<close>.\<close>

definition drop_status :: "Segment list \<Rightarrow> Segment list result" where
  "drop_status descriptors =
     (if descriptors = [] then Inl (Panic ''called Option::unwrap() on a None value'')
      else if sg_len (last descriptors) = 0 then Inl (Panic ''attempt to subtract with overflow'')
      else Inr (butlast descriptors @ [(last descriptors)\<lparr>sg_len := sg_len (last descriptors) - 1\<rparr>]))"

fun gather_range :: "GuestMemory \<Rightarrow> bytes \<Rightarrow> Segment list \<Rightarrow> bytes result" where
  "gather_range mem copied [] = Inr copied"
| "gather_range mem copied (s # ss) =
     ensure (length copied + sg_len s \<le> 16) (Panic ''range end index out of range'')
     (attempt (read_slice mem (sg_addr s) (sg_len s)) (\<lambda>bs. gather_range mem (copied @ bs) ss))"

text \<open>The fields of a range; the product with \<^verbatim>\<open>SECTOR_BYTES\<close> of a 32-bit count does not overflow 64 bits.\<close>

definition decode_zero :: "VirtioCodes \<Rightarrow> GuestCompletion \<Rightarrow> bytes \<Rightarrow> nat \<Rightarrow> nat \<Rightarrow> GuestRequest result" where
  "decode_zero v completion buf kind capacity =
     (let sector = nat_of_le (take 8 buf);
         sectors = nat_of_le (take 4 (drop 8 buf));
         flags = nat_of_le (drop 12 buf) in
     if flags \<notin> {0, 1} \<or> (kind = vc_discard v \<and> flags \<noteq> 0) then Inr (Unsupported completion)
     else attempt (ok_or (nchecked_mul sector SECTOR_BYTES) (InvalidData ''range sector overflow'')) (\<lambda>offset.
     let n = sectors * SECTOR_BYTES in
     ensure (\<not> (n > MAX_REQUEST_BYTES \<or> offset mod BLOCK_SIZE \<noteq> 0 \<or> n mod BLOCK_SIZE \<noteq> 0
        \<or> (case nchecked_add offset n of None \<Rightarrow> True | Some e \<Rightarrow> e > capacity)))
       (InvalidData ''invalid zero/discard range, size or alignment'')
     (Inr (ZeroRange \<lparr>zr_completion = completion, zr_offset = offset, zr_len = n,
        zr_kind = (if kind = vc_discard v then KindDiscard else if flags = 1 then KindZeroUnmap else KindZero)\<rparr>))))"

definition parse_zero :: "VirtioCodes \<Rightarrow> GuestMemory \<Rightarrow> GuestCompletion \<Rightarrow> Segment list \<Rightarrow> nat \<Rightarrow> nat \<Rightarrow> nat \<Rightarrow> GuestRequest result" where
  "parse_zero v mem completion segments kind len capacity =
     ensure (\<not> (len \<notin> {0, 16} \<or> list_ex sg_writable segments)) (InvalidData ''zero/discard requires at most one readable range'')
    (attempt (gather_range mem [] segments) (\<lambda>copied.
     decode_zero v completion (copied @ replicate (16 - length copied) 0) kind capacity))"

definition parse_data :: "VirtioCodes \<Rightarrow> GuestCompletion \<Rightarrow> Segment list \<Rightarrow> nat \<Rightarrow> nat \<Rightarrow> nat \<Rightarrow> nat \<Rightarrow> GuestRequest result" where
  "parse_data v completion segments kind sector len capacity_bytes =
     attempt (ok_or (nchecked_mul sector SECTOR_BYTES) (InvalidData ''sector overflow'')) (\<lambda>offset.
     ensure (\<not> (len = 0 \<or> len mod BLOCK_SIZE \<noteq> 0 \<or> offset mod BLOCK_SIZE \<noteq> 0
        \<or> (case nchecked_add offset len of None \<Rightarrow> True | Some e \<Rightarrow> e > capacity_bytes)
        \<or> list_ex (\<lambda>s. sg_writable s \<noteq> (kind = vc_in v)) segments))
       (InvalidData ''invalid data range, alignment, or direction'')
     (let data = \<lparr>dr_completion = completion, dr_offset = offset, dr_segments = segments, dr_len = len\<rparr> in
      Inr (if kind = vc_in v then ReadRequest data else WriteRequest data)))"

definition parse_body :: "VirtioCodes \<Rightarrow> GuestMemory \<Rightarrow> GuestCompletion \<Rightarrow> bytes \<Rightarrow> Segment list \<Rightarrow> nat \<Rightarrow> nat \<Rightarrow> GuestRequest result" where
  "parse_body v mem completion header segments len capacity_bytes =
     (let kind = nat_of_le (take 4 header); sector = nat_of_le (drop 8 header) in
      if kind = vc_discard v \<or> kind = vc_write_zeroes v then parse_zero v mem completion segments kind len capacity_bytes
      else if kind = vc_in v \<or> kind = vc_out v then parse_data v completion segments kind sector len capacity_bytes
      else if kind = vc_flush v \<and> len = 0 then Inr (FlushRequest completion)
      else if kind = vc_flush v then Inl (InvalidData ''FLUSH has data descriptors'')
      else if kind = vc_get_id v \<and> len = length DEVICE_ID \<and> list_all sg_writable segments then Inr (GetId completion segments)
      else if kind = vc_get_id v then Inl (InvalidData ''invalid GET_ID buffer'')
      else Inr (Unsupported completion))"

definition parse_request :: "VirtioCodes \<Rightarrow> GuestMemory \<Rightarrow> nat \<Rightarrow> Segment list \<Rightarrow> nat \<Rightarrow> GuestRequest result" where
  "parse_request v mem head descriptors capacity_bytes =
     (let descriptors = nonempty descriptors in
      attempt (ok_or (Completion_from_descriptors mem head descriptors) (InvalidData ''missing writable status byte'')) (\<lambda>completion.
      attempt (check_segments mem False 0 descriptors) (\<lambda>total_len.
      attempt (ok_or (nchecked_sub total_len (16 + 1)) (InvalidData ''missing request header'')) (\<lambda>len.
      ensure (\<not> len > MAX_REQUEST_BYTES) (InvalidData ''request exceeds size limit'')
     (attempt (take_header mem [] descriptors) (\<lambda>(header, descriptors).
      ensure (length header = 16) (InvalidData ''missing request header'')
     (attempt (drop_status descriptors) (\<lambda>descriptors.
      parse_body v mem completion header (nonempty descriptors) len capacity_bytes))))))))"

section \<open>Facts\<close>

text \<open>The bytes of a chain, each with its address and its direction.\<close>

definition flat :: "Segment \<Rightarrow> (nat \<times> bool) list" where
  "flat s = map (\<lambda>a. (a, sg_writable s)) [sg_addr s..<sg_addr s + sg_len s]"

definition flats :: "Segment list \<Rightarrow> (nat \<times> bool) list" where
  "flats ss = concat (map flat ss)"

definition byte_at :: "GuestMemory \<Rightarrow> nat \<times> bool \<Rightarrow> byte" where
  "byte_at mem b = gm_byte mem (fst b)"

lemma flats_simps [simp]: "flats [] = []" "flats (s # ss) = flat s @ flats ss" "flats (ss @ ts) = flats ss @ flats ts"
  by (simp_all add: flats_def)

lemma length_flat [simp]: "length (flat s) = sg_len s"
  by (simp add: flat_def)

lemma flat_eq_Nil [simp]: "flat s = [] \<longleftrightarrow> sg_len s = 0"
  by (auto simp: flat_def)

lemma flat_Cons: "sg_len s \<noteq> 0 \<Longrightarrow> flat s = (sg_addr s, sg_writable s) # map (\<lambda>a. (a, sg_writable s)) [Suc (sg_addr s)..<sg_addr s + sg_len s]"
  by (simp add: flat_def upt_conv_Cons)

lemma flats_nonempty [simp]: "flats (nonempty ss) = flats ss"
  by (induction ss) (auto simp: nonempty_def flat_def)

lemma take_flat: "k \<le> sg_len s \<Longrightarrow> take k (flat s) = flat (s\<lparr>sg_len := k\<rparr>)"
  by (auto simp: flat_def take_map take_upt)

lemma drop_flat: "k \<le> sg_len s \<Longrightarrow> drop k (flat s) = flat (s\<lparr>sg_len := sg_len s - k, sg_addr := sg_addr s + k\<rparr>)"
  by (auto simp: flat_def drop_map)

lemma bytes_flat: "guest_bytes mem (sg_addr s) k = map (byte_at mem) (flat (s\<lparr>sg_len := k\<rparr>))"
  by (simp add: guest_bytes_def flat_def byte_at_def)

lemma flat_last: "sg_len s \<noteq> 0 \<Longrightarrow> last (flat s) = (sg_addr s + (sg_len s - 1), sg_writable s)"
  by (simp add: flat_def last_map)

lemma flat_empty_addr [simp]: "sg_len s = 0 \<Longrightarrow> flat s = []"
  by simp

lemma read_slice_Inr: "read_slice mem a n = Inr bs \<longleftrightarrow> gm_readable mem a n \<and> bs = guest_bytes mem a n"
  by (auto simp: read_slice_def)

text \<open>The header loop: the bytes it copies are those it removes.\<close>

lemma take_header_frames:
  "take_header mem header ss = Inr (header', ss') \<Longrightarrow> length header \<le> 16 \<Longrightarrow>
   header' = header @ map (byte_at mem) (take (16 - length header) (flats ss)) \<and>
   flats ss' = drop (16 - length header) (flats ss) \<and>
   list_all (\<lambda>b. \<not> snd b) (take (16 - length header) (flats ss))"
proof (induction mem header ss arbitrary: header' ss' rule: take_header.induct)
  case (1 mem header)
  then show ?case by simp
next
  case (2 mem header s ss)
  show ?case
  proof (cases "length header = 16")
    case True
    with 2 show ?thesis by simp
  next
    case False
    let ?k = "min (sg_len s) (16 - length header)"
    from 2(2) False obtain bs addr ss2 where
      r: "\<not> sg_writable s" "read_slice mem (sg_addr s) ?k = Inr bs" "take_header mem (header @ bs) ss = Inr (header', ss2)"
      and addr: "(if sg_len s - ?k \<noteq> 0 then ok_or (nchecked_add (sg_addr s) ?k) (InvalidData ''address overflow'') else Inr (sg_addr s)) = Inr addr"
      and ss': "ss' = s\<lparr>sg_len := sg_len s - ?k, sg_addr := addr\<rparr> # ss2"
      by (auto simp: Let_def)
    have bs: "bs = map (byte_at mem) (take ?k (flat s))"
      using r(2) by (simp add: read_slice_Inr bytes_flat take_flat)
    then have lbs: "length bs = ?k" by simp
    have fl: "flat (s\<lparr>sg_len := sg_len s - ?k, sg_addr := addr\<rparr>) = drop ?k (flat s)"
      using addr by (auto simp: drop_flat split: if_splits)
    have nw: "list_all (\<lambda>b. \<not> snd b) (take j (flat s))" for j
      using r(1) by (auto simp: flat_def list_all_iff dest: in_set_takeD)
    have ih: "header' = (header @ bs) @ map (byte_at mem) (take (16 - length (header @ bs)) (flats ss)) \<and>
       flats ss2 = drop (16 - length (header @ bs)) (flats ss) \<and>
       list_all (\<lambda>b. \<not> snd b) (take (16 - length (header @ bs)) (flats ss))"
      using 2(1) [OF False refl r(3)] 2(3) lbs False by simp
    show ?thesis
      using ih bs lbs fl nw nw [of "sg_len s"] ss' by (cases "sg_len s \<le> 16 - length header") (auto simp: min_def)
  qed
qed

text \<open>The header never reaches a writable final descriptor.\<close>

lemma take_header_last:
  "take_header mem header ss = Inr (header', ss') \<Longrightarrow> ss \<noteq> [] \<Longrightarrow> sg_writable (last ss) \<Longrightarrow>
   ss' \<noteq> [] \<and> last ss' = last ss"
proof (induction mem header ss arbitrary: header' ss' rule: take_header.induct)
  case (2 mem header s ss)
  show ?case
  proof (cases "length header = 16")
    case False
    with 2(2) obtain bs addr ss2 where
      r: "\<not> sg_writable s" "take_header mem (header @ bs) ss = Inr (header', ss2)" "\<exists>s'. ss' = s' # ss2"
      by (auto simp: Let_def)
    have "ss \<noteq> []" using 2(4) r(1) by auto
    with 2(1) [OF False refl r(2)] 2(4) r(3) show ?thesis by auto
  qed (use 2 in simp)
qed simp

lemma take_header_no_panic: "take_header mem header ss \<noteq> Inl (Panic m)"
proof (induction mem header ss rule: take_header.induct)
  case (2 mem header s ss)
  then show ?case
    by (auto simp: Let_def attempt_def ensure_def ok_or_def read_slice_def split: sum.splits option.splits if_splits)
qed simp

lemma check_segments_no_panic: "check_segments mem seen n ss \<noteq> Inl (Panic m)"
  by (induction mem seen n ss rule: check_segments.induct)
    (auto simp: attempt_def ensure_def ok_or_def split: sum.splits option.splits if_splits)

lemma check_segments_total: "check_segments mem seen n ss = Inr k \<Longrightarrow> k = n + length (flats ss)"
  by (induction mem seen n ss rule: check_segments.induct) (simp, fastforce)

lemma find_last_nonempty: "find (\<lambda>s. sg_len s \<noteq> 0) (rev (nonempty ss)) = (if nonempty ss = [] then None else Some (last (nonempty ss)))"
proof (cases "nonempty ss" rule: rev_cases)
  case (snoc ts t)
  then have "t \<in> set (nonempty ss)" by simp
  then have "sg_len t \<noteq> 0" by (simp add: nonempty_def)
  with snoc show ?thesis by simp
qed simp

lemma last_nonempty: "nonempty ss \<noteq> [] \<Longrightarrow> sg_len (last (nonempty ss)) \<noteq> 0"
  using last_in_set [of "nonempty ss"] by (simp add: nonempty_def)

lemma last_flats: "ss \<noteq> [] \<Longrightarrow> sg_len (last ss) \<noteq> 0 \<Longrightarrow> flats ss \<noteq> [] \<and> last (flats ss) = last (flat (last ss))"
  by (cases ss rule: rev_cases) auto

lemma completion_Some:
  "Completion_from_descriptors mem head (nonempty ss) = Some c \<longleftrightarrow>
     nonempty ss \<noteq> [] \<and> sg_writable (last (nonempty ss)) \<and> fst (last (flats ss)) \<le> u64_max \<and>
     gm_check mem (fst (last (flats ss))) 1 True \<and> c = \<lparr>cp_head = head, cp_status = fst (last (flats ss))\<rparr>"
proof (cases "nonempty ss = []")
  case False
  let ?s = "last (nonempty ss)"
  have n: "sg_len ?s \<noteq> 0" using False by (rule last_nonempty)
  obtain k where k: "sg_len ?s = Suc k" using n by (cases "sg_len ?s") auto
  have "last (flats ss) = (sg_addr ?s + k, sg_writable ?s)"
    using last_flats [OF False n] n k by (simp add: flat_last)
  then show ?thesis
    unfolding Completion_from_descriptors_def find_last_nonempty using False k
    by (auto simp: nchecked_add_def nchecked_sub_def)
qed (simp add: Completion_from_descriptors_def)

lemma drop_status_Inr:
  assumes "ss \<noteq> []" "sg_len (last ss) \<noteq> 0"
  obtains ss' where "drop_status ss = Inr ss'" "flats ss' = butlast (flats ss)"
proof -
  obtain ts t where ss: "ss = ts @ [t]" using assms(1) by (cases ss rule: rev_cases) auto
  have "flat (t\<lparr>sg_len := sg_len t - 1\<rparr>) = butlast (flat t)"
    by (simp add: butlast_conv_take take_flat)
  then show thesis using assms that by (simp add: drop_status_def ss butlast_append)
qed

lemma gather_range_no_panic:
  "length copied + length (flats ss) \<le> 16 \<Longrightarrow> gather_range mem copied ss \<noteq> Inl (Panic m)"
  by (induction mem copied ss rule: gather_range.induct)
    (auto simp: attempt_def read_slice_def guest_bytes_def split: if_splits)

lemma gather_range_Inr:
  "gather_range mem copied ss = Inr bs \<Longrightarrow> bs = copied @ map (byte_at mem) (flats ss)"
  by (induction mem copied ss rule: gather_range.induct) (auto simp: read_slice_Inr bytes_flat)

text \<open>What the framing loops leave for the request's own fields.\<close>

lemma parse_request_frames:
  assumes "Completion_from_descriptors mem head (nonempty ss) = Some c"
    and "take_header mem [] (nonempty ss) = Inr (header, ss1)"
  obtains ss2 where "drop_status ss1 = Inr ss2" "flats ss2 = butlast (drop 16 (flats ss))"
proof -
  have w: "nonempty ss \<noteq> []" "sg_writable (last (nonempty ss))"
    using assms(1) by (auto simp: completion_Some)
  then have "ss1 \<noteq> []" "sg_len (last ss1) \<noteq> 0"
    using take_header_last [OF assms(2)] last_nonempty by auto
  then obtain ss2 where "drop_status ss1 = Inr ss2" "flats ss2 = butlast (flats ss1)"
    by (rule drop_status_Inr)
  moreover have "flats ss1 = drop 16 (flats ss)"
    using take_header_frames [OF assms(2)] by simp
  ultimately show thesis using that by simp
qed

section \<open>Nothing a guest writes stops the daemon\<close>

lemma decode_zero_no_panic: "decode_zero v c buf kind capacity \<noteq> Inl (Panic m)"
  by (simp add: decode_zero_def Let_def attempt_def ensure_def ok_or_def split: sum.splits option.splits)

lemma parse_zero_no_panic:
  assumes "length (flats ss) = len"
  shows "parse_zero v mem c ss kind len capacity \<noteq> Inl (Panic m)"
proof (cases "len \<in> {0, 16} \<and> \<not> list_ex sg_writable ss")
  case True
  then have "gather_range mem [] ss \<noteq> Inl (Panic m)"
    using assms by (auto intro!: gather_range_no_panic)
  with True show ?thesis
    by (auto simp: parse_zero_def attempt_def decode_zero_no_panic split: sum.splits)
qed (auto simp: parse_zero_def ensure_def)

lemma parse_data_no_panic: "parse_data v c ss kind sector len capacity \<noteq> Inl (Panic m)"
  by (simp add: parse_data_def Let_def attempt_def ensure_def ok_or_def split: sum.splits option.splits)

lemma parse_body_no_panic:
  "length (flats ss) = len \<Longrightarrow> parse_body v mem c header ss len capacity \<noteq> Inl (Panic m)"
  by (simp add: parse_body_def Let_def parse_zero_no_panic parse_data_no_panic)

text \<open>
  C22. Whatever descriptor chain a guest submits, and whatever its memory holds, parsing it does not panic: the status
  byte is there to be taken off, and the range buffer of a zero or discard request is never overrun.
\<close>

theorem parse_never_panics:
  "parse_request v mem head descriptors capacity \<noteq> Inl (Panic m)"
proof
  assume panic: "parse_request v mem head descriptors capacity = Inl (Panic m)"
  let ?ds = "nonempty descriptors"
  from panic obtain c n where c: "Completion_from_descriptors mem head ?ds = Some c"
    and n: "check_segments mem False 0 ?ds = Inr n"
    by (auto simp: parse_request_def attempt_def ok_or_def check_segments_no_panic Let_def split: option.splits sum.splits)
  from panic c n obtain header ss1 where h: "take_header mem [] ?ds = Inr (header, ss1)" and n17: "17 \<le> n"
    by (auto simp: parse_request_def attempt_def ok_or_def ensure_def nchecked_sub_def take_header_no_panic Let_def
        split: option.splits sum.splits if_splits prod.splits)
  from parse_request_frames [OF c h] obtain ss2
    where d: "drop_status ss1 = Inr ss2" "flats ss2 = butlast (drop 16 (flats descriptors))" .
  have "length (flats (nonempty ss2)) = n - 17"
    using check_segments_total [OF n] d(2) by simp
  then show False
    using panic c n n17 h d(1) parse_body_no_panic [of "nonempty ss2" "n - 17"]
    by (auto simp: parse_request_def ensure_def nchecked_sub_def Let_def split: if_splits)
qed

section \<open>What is parsed, the inflight log accepts\<close>

text \<open>The range check of the parser, in one place.\<close>

definition range_fits :: "nat \<Rightarrow> nat \<Rightarrow> nat \<Rightarrow> bool" where
  "range_fits offset n capacity \<longleftrightarrow>
     offset mod BLOCK_SIZE = 0 \<and> n mod BLOCK_SIZE = 0 \<and> n \<le> MAX_REQUEST_BYTES \<and> offset + n \<le> u64_max \<and> offset + n \<le> capacity"

definition guest_request_fits :: "GuestRequest \<Rightarrow> nat \<Rightarrow> bool" where
  "guest_request_fits r capacity \<longleftrightarrow>
     (case r of
        ReadRequest d \<Rightarrow> dr_len d \<noteq> 0 \<and> range_fits (dr_offset d) (dr_len d) capacity
      | WriteRequest d \<Rightarrow> dr_len d \<noteq> 0 \<and> range_fits (dr_offset d) (dr_len d) capacity
      | ZeroRange z \<Rightarrow> Kind_zero (zr_kind z) \<and> range_fits (zr_offset z) (zr_len z) capacity
      | _ \<Rightarrow> True)"

lemma checked_end: "(case nchecked_add a b of None \<Rightarrow> True | Some e \<Rightarrow> e > c) \<longleftrightarrow> \<not> (a + b \<le> u64_max \<and> a + b \<le> c)"
  by (auto simp: nchecked_add_def)

lemma guest_request_fits_valid:
  assumes "guest_request_fits r capacity"
  shows "Request_validate (Request_inflight r queue available) capacity = Inr ()"
proof (cases r)
  case (ReadRequest d)
  with assms show ?thesis
    by (simp add: guest_request_fits_def range_fits_def Request_inflight_def Request_validate_def checked_end)
next
  case (WriteRequest d)
  with assms show ?thesis
    by (simp add: guest_request_fits_def range_fits_def Request_inflight_def Request_validate_def checked_end)
next
  case (ZeroRange z)
  with assms show ?thesis
    by (auto simp: guest_request_fits_def range_fits_def Request_inflight_def Request_validate_def checked_end Kind_zero_def)
qed (simp_all add: Request_inflight_def Request_validate_def)

lemma decode_zero_fits:
  "decode_zero v c buf kind capacity = Inr r \<Longrightarrow> guest_request_fits r capacity \<and> Request_completion r = c"
  unfolding decode_zero_def checked_end
  by (auto simp: Let_def guest_request_fits_def range_fits_def Kind_zero_def split: if_splits)

lemma parse_data_fits:
  "parse_data v c ss kind sector len capacity = Inr r \<Longrightarrow> len \<le> MAX_REQUEST_BYTES \<Longrightarrow>
   guest_request_fits r capacity \<and> Request_completion r = c"
  unfolding parse_data_def checked_end by (auto simp: Let_def guest_request_fits_def range_fits_def)

lemma parse_body_fits:
  "parse_body v mem c header ss len capacity = Inr r \<Longrightarrow> len \<le> MAX_REQUEST_BYTES \<Longrightarrow>
   guest_request_fits r capacity \<and> Request_completion r = c"
  by (auto simp: parse_body_def parse_zero_def Let_def decode_zero_fits guest_request_fits_def dest: decode_zero_fits parse_data_fits split: if_splits)

text \<open>
  What \<^verbatim>\<open>vm-memory\<close> documents of \<^verbatim>\<open>check_range\<close> and \<^verbatim>\<open>read_slice\<close>: a range is accessible exactly when each
  of its bytes is, and an address has 64 bits.
\<close>

definition guest_memory :: "GuestMemory \<Rightarrow> (nat \<Rightarrow> bool \<Rightarrow> bool) \<Rightarrow> bool" where
  "guest_memory mem ok \<longleftrightarrow>
     (\<forall>a n w. 0 < n \<longrightarrow> gm_check mem a n w = (\<forall>i<n. ok (a + i) w)) \<and>
     (\<forall>a n. 0 < n \<longrightarrow> gm_readable mem a n = (\<forall>i<n. ok (a + i) False)) \<and>
     (\<forall>a w. ok a w \<longrightarrow> a \<le> u64_max)"

text \<open>A write-zeroes request of one block at block one, cut into five descriptors across its fields.\<close>

definition sample_codes :: VirtioCodes where
  "sample_codes = \<lparr>vc_in = 0, vc_out = 1, vc_flush = 4, vc_get_id = 8, vc_discard = 11, vc_write_zeroes = 13, vc_f_discard = 13, vc_f_write_zeroes = 14\<rparr>"

definition sample_ok :: "nat \<Rightarrow> bool \<Rightarrow> bool" where
  "sample_ok a w \<longleftrightarrow> a < 4096"

definition sample_memory :: GuestMemory where
  "sample_memory = \<lparr>gm_check = \<lambda>a n w. a + n \<le> 4096, gm_readable = \<lambda>a n. a + n \<le> 4096,
     gm_byte = \<lambda>a. if a = 0 then 13 else if a = 16 \<or> a = 24 then 8 else if a = 28 then 1 else 0\<rparr>"

definition sample_chain :: "Segment list" where
  "sample_chain =
     [\<lparr>sg_addr = 0, sg_len = 10, sg_writable = False\<rparr>, \<lparr>sg_addr = 10, sg_len = 0, sg_writable = False\<rparr>,
      \<lparr>sg_addr = 10, sg_len = 15, sg_writable = False\<rparr>, \<lparr>sg_addr = 25, sg_len = 7, sg_writable = False\<rparr>,
      \<lparr>sg_addr = 32, sg_len = 1, sg_writable = True\<rparr>]"

lemma sample_guest_memory: "guest_memory sample_memory sample_ok"
proof -
  have r: "a + n \<le> 4096 \<longleftrightarrow> (\<forall>i<n. a + i < (4096 :: nat))" if "0 < n" for a n :: nat
    using that by (cases n) auto
  show ?thesis
    using r by (simp add: guest_memory_def sample_memory_def sample_ok_def u64_max_def)
qed

lemma sample_parse:
  "parse_request sample_codes sample_memory 3 sample_chain 8192 =
   Inr (ZeroRange \<lparr>zr_completion = \<lparr>cp_head = 3, cp_status = 32\<rparr>, zr_offset = 4096, zr_len = 4096, zr_kind = KindZeroUnmap\<rparr>)"
  by (simp add: parse_request_def sample_chain_def sample_memory_def sample_codes_def nonempty_def Completion_from_descriptors_def
      nchecked_add_def nchecked_sub_def nchecked_mul_def u64_max_def read_slice_def guest_bytes_def drop_status_def parse_body_def
      parse_zero_def decode_zero_def MAX_REQUEST_BYTES_def SECTOR_BYTES_def BLOCK_SIZE_def upt_rec_numeral upt_conv_Cons)

lemma parse_request_Inr:
  assumes "parse_request v mem head ss capacity = Inr r"
  obtains n header ss1 ss2 where
    "Completion_from_descriptors mem head (nonempty ss) = Some \<lparr>cp_head = head, cp_status = fst (last (flats ss))\<rparr>"
    "check_segments mem False 0 (nonempty ss) = Inr n" "17 \<le> n" "n - 17 \<le> MAX_REQUEST_BYTES"
    "take_header mem [] (nonempty ss) = Inr (header, ss1)" "length header = 16" "drop_status ss1 = Inr ss2"
    "parse_body v mem \<lparr>cp_head = head, cp_status = fst (last (flats ss))\<rparr> header (nonempty ss2) (n - 17) capacity = Inr r"
  using assms by (auto simp: parse_request_def Let_def completion_Some)

lemma negotiated_keeps:
  "guest_request_fits r capacity \<Longrightarrow> guest_request_fits (Request_negotiated v features r) capacity"
  "Request_completion (Request_negotiated v features r) = Request_completion r"
  by (auto simp: Request_negotiated_def guest_request_fits_def split: GuestRequest.splits)

text \<open>
  C21. Every request the parser hands on, once the negotiated features are applied, passes the inflight log's own
  validation for the same image, under the chain's head, and its status goes to the last byte of the chain, which the
  guest memory allows to be written.
\<close>

theorem parsed_requests_are_valid:
  assumes "parse_request v mem head descriptors capacity = Inr r"
  shows "Request_validate (Request_inflight (Request_negotiated v features r) queue available) capacity = Inr ()
    \<and> Request_completion (Request_negotiated v features r) = \<lparr>cp_head = head, cp_status = fst (last (flats descriptors))\<rparr>
    \<and> flats descriptors \<noteq> [] \<and> gm_check mem (fst (last (flats descriptors))) 1 True"
proof -
  from assms obtain n header ss1 ss2 where
    c: "Completion_from_descriptors mem head (nonempty descriptors) = Some \<lparr>cp_head = head, cp_status = fst (last (flats descriptors))\<rparr>"
    and n: "check_segments mem False 0 (nonempty descriptors) = Inr n" "17 \<le> n" "n - 17 \<le> MAX_REQUEST_BYTES"
    and b: "parse_body v mem \<lparr>cp_head = head, cp_status = fst (last (flats descriptors))\<rparr> header (nonempty ss2) (n - 17) capacity = Inr r"
    by (rule parse_request_Inr)
  have "flats descriptors \<noteq> [] \<and> gm_check mem (fst (last (flats descriptors))) 1 True"
    using c check_segments_total [OF n(1)] n(2) by (auto simp: completion_Some)
  with parse_body_fits [OF b n(3)] show ?thesis
    by (simp add: guest_request_fits_valid negotiated_keeps)
qed

theorem parsed_requests_are_valid_witness:
  "Request_validate (Request_inflight (Request_negotiated sample_codes (2 ^ 14)
      (ZeroRange \<lparr>zr_completion = \<lparr>cp_head = 3, cp_status = 32\<rparr>, zr_offset = 4096, zr_len = 4096, zr_kind = KindZeroUnmap\<rparr>)) 2 7) 8192 = Inr ()
   \<and> fst (last (flats sample_chain)) = 32"
  using parsed_requests_are_valid [OF sample_parse, of "2 ^ 14" 2 7] by (simp add: negotiated_keeps)

section \<open>Framing is in bytes\<close>

definition accessible :: "(nat \<Rightarrow> bool \<Rightarrow> bool) \<Rightarrow> (nat \<times> bool) list \<Rightarrow> bool" where
  "accessible ok bs = list_all (\<lambda>b. ok (fst b) (snd b)) bs"

definition readable_first :: "(nat \<times> bool) list \<Rightarrow> bool" where
  "readable_first bs = sorted_wrt (\<lambda>b c. snd b \<longrightarrow> snd c) bs"

text \<open>A chain of one-byte descriptors.\<close>

definition units :: "(nat \<times> bool) list \<Rightarrow> Segment list" where
  "units bs = map (\<lambda>b. \<lparr>sg_addr = fst b, sg_len = 1, sg_writable = snd b\<rparr>) bs"

fun unit_request :: "GuestRequest \<Rightarrow> GuestRequest" where
  "unit_request (ReadRequest d) = ReadRequest (d\<lparr>dr_segments := units (flats (dr_segments d))\<rparr>)"
| "unit_request (WriteRequest d) = WriteRequest (d\<lparr>dr_segments := units (flats (dr_segments d))\<rparr>)"
| "unit_request (GetId c ss) = GetId c (units (flats ss))"
| "unit_request r = r"

definition accepted :: "GuestRequest result \<Rightarrow> GuestRequest option" where
  "accepted r = (case r of Inl _ \<Rightarrow> None | Inr q \<Rightarrow> Some (unit_request q))"

text \<open>
  The protocol's own reading of a chain, as a string of bytes: sixteen readable bytes of header, the payload, and one
  writable byte of status, the readable bytes before the writable ones.
\<close>

definition framed :: "(nat \<Rightarrow> bool \<Rightarrow> bool) \<Rightarrow> (nat \<times> bool) list \<Rightarrow> bool" where
  "framed ok bs \<longleftrightarrow> 17 \<le> length bs \<and> length bs - 17 \<le> MAX_REQUEST_BYTES \<and> accessible ok bs \<and> readable_first bs
     \<and> snd (last bs) \<and> \<not> list_ex snd (take 16 bs)"

definition reference_parse :: "VirtioCodes \<Rightarrow> GuestMemory \<Rightarrow> (nat \<Rightarrow> bool \<Rightarrow> bool) \<Rightarrow> nat \<Rightarrow> (nat \<times> bool) list \<Rightarrow> nat \<Rightarrow> GuestRequest option" where
  "reference_parse v mem ok head bs capacity =
     (if framed ok bs
      then accepted (parse_body v mem \<lparr>cp_head = head, cp_status = fst (last bs)\<rparr> (map (byte_at mem) (take 16 bs))
        (units (take (length bs - 17) (drop 16 bs))) (length bs - 17) capacity)
      else None)"

lemma accepted_simps [simp]: "accepted (Inl e) = None" "accepted (Inr r) = Some (unit_request r)"
  by (simp_all add: accepted_def)

lemma flats_units [simp]: "flats (units bs) = bs"
  by (induction bs) (auto simp: units_def flat_def)

lemma accessible_simps [simp]:
  "accessible ok []"
  "accessible ok (b # bs) \<longleftrightarrow> ok (fst b) (snd b) \<and> accessible ok bs"
  "accessible ok (bs @ cs) \<longleftrightarrow> accessible ok bs \<and> accessible ok cs"
  by (auto simp: accessible_def)

lemma accessible_flat: "accessible ok (flat s) \<longleftrightarrow> (\<forall>i < sg_len s. ok (sg_addr s + i) (sg_writable s))"
  by (simp add: accessible_def flat_def list_all_length)

lemma writable_flat: "sg_len s \<noteq> 0 \<Longrightarrow> list_all snd (flat s) \<longleftrightarrow> sg_writable s"
  by (auto simp: flat_def list_all_length)

lemma guest_memory_check: "guest_memory mem ok \<Longrightarrow> sg_len s \<noteq> 0 \<Longrightarrow> gm_check mem (sg_addr s) (sg_len s) (sg_writable s) \<longleftrightarrow> accessible ok (flat s)"
  by (simp add: guest_memory_def accessible_flat)

lemma readable_first_flat:
  assumes "sg_len s \<noteq> 0"
  shows "readable_first (flat s @ bs) \<longleftrightarrow> readable_first bs \<and> (sg_writable s \<longrightarrow> list_all snd bs)"
proof -
  have "readable_first (flat s)" by (auto simp: readable_first_def flat_def sorted_wrt_map intro: sorted_wrt_mono_rel)
  moreover have "(\<forall>x\<in>set (flat s). \<forall>y\<in>set bs. snd x \<longrightarrow> snd y) \<longleftrightarrow> (sg_writable s \<longrightarrow> list_all snd bs)"
    using assms by (auto simp: flat_def list_all_iff)
  ultimately show ?thesis by (auto simp: readable_first_def sorted_wrt_append)
qed

lemma check_segments_iff:
  assumes "guest_memory mem ok"
  shows "\<forall>s\<in>set ss. sg_len s \<noteq> 0 \<Longrightarrow> check_segments mem seen n ss = Inr k \<longleftrightarrow>
    accessible ok (flats ss) \<and> readable_first (flats ss) \<and> (seen \<longrightarrow> list_all snd (flats ss)) \<and>
    k = n + length (flats ss) \<and> (ss = [] \<or> k \<le> u64_max)"
proof (induction ss arbitrary: seen n)
  case (Cons s ss)
  then have s: "sg_len s \<noteq> 0" by simp
  have ih: "check_segments mem (seen \<or> sg_writable s) (n + sg_len s) ss = Inr k \<longleftrightarrow>
    accessible ok (flats ss) \<and> readable_first (flats ss) \<and> (seen \<or> sg_writable s \<longrightarrow> list_all snd (flats ss)) \<and>
    k = n + sg_len s + length (flats ss) \<and> (ss = [] \<or> k \<le> u64_max)"
    using Cons by simp
  have step: "check_segments mem seen n (s # ss) = Inr k \<longleftrightarrow>
    (seen \<longrightarrow> sg_writable s) \<and> accessible ok (flat s) \<and> n + sg_len s \<le> u64_max \<and>
    check_segments mem (seen \<or> sg_writable s) (n + sg_len s) ss = Inr k"
    using guest_memory_check [OF assms s] by auto
  show ?case
    unfolding step ih flats_simps readable_first_flat [OF s] using writable_flat [OF s] by auto
qed (auto simp: readable_first_def)

lemma take_header_succeeds:
  assumes "guest_memory mem ok"
  shows "accessible ok (flats ss) \<Longrightarrow> \<forall>s\<in>set ss. sg_len s \<noteq> 0 \<Longrightarrow> length header \<le> 16 \<Longrightarrow>
    \<not> list_ex snd (take (16 - length header) (flats ss)) \<Longrightarrow> \<exists>r. take_header mem header ss = Inr r"
proof (induction ss arbitrary: header)
  case (Cons s ss)
  show ?case
  proof (cases "length header = 16")
    case False
    let ?k = "min (sg_len s) (16 - length header)"
    have s: "sg_len s \<noteq> 0" "accessible ok (flat s)" and k: "?k \<noteq> 0" using Cons.prems False by auto
    have "(sg_addr s, sg_writable s) \<in> set (take (16 - length header) (flat s @ flats ss))"
      using s(1) False Cons.prems(3) by (cases "16 - length header") (simp_all add: flat_Cons)
    then have r: "\<not> sg_writable s" using Cons.prems(4) unfolding list_ex_iff flats_simps by force
    have "gm_readable mem (sg_addr s) ?k"
      using assms s(2) k r by (simp add: guest_memory_def accessible_flat)
    then have rs: "read_slice mem (sg_addr s) ?k = Inr (guest_bytes mem (sg_addr s) ?k)"
      by (simp add: read_slice_Inr)
    have "sg_len s - ?k \<noteq> 0 \<Longrightarrow> ok (sg_addr s + ?k) (sg_writable s)"
      using s(2) by (simp add: accessible_flat)
    then have "sg_len s - ?k \<noteq> 0 \<Longrightarrow> sg_addr s + ?k \<le> u64_max"
      using assms unfolding guest_memory_def by blast
    then obtain addr where addr:
      "(if sg_len s - ?k \<noteq> 0 then ok_or (nchecked_add (sg_addr s) ?k) (InvalidData ''address overflow'') else Inr (sg_addr s)) = Inr addr"
      by (cases "sg_len s - ?k \<noteq> 0") (auto simp: nchecked_add_def)
    have "\<exists>r. take_header mem (header @ guest_bytes mem (sg_addr s) ?k) ss = Inr r"
    proof (rule Cons.IH)
      have "16 - length (header @ guest_bytes mem (sg_addr s) ?k) = 16 - length header - sg_len s"
        by (simp add: guest_bytes_def)
      then show "\<not> list_ex snd (take (16 - length (header @ guest_bytes mem (sg_addr s) ?k)) (flats ss))"
        using Cons.prems(4) by simp
    qed (use Cons.prems in \<open>auto simp: guest_bytes_def\<close>)
    then show ?thesis
      using rs addr r False by (auto simp: Let_def)
  qed simp
qed simp

lemma writable_flats: "\<forall>s\<in>set ss. sg_len s \<noteq> 0 \<Longrightarrow> list_ex (\<lambda>s. P (sg_writable s)) ss \<longleftrightarrow> list_ex (\<lambda>b. P (snd b)) (flats ss)"
proof (induction ss)
  case (Cons s ss)
  then have "list_ex (\<lambda>b. P (snd b)) (flat s) \<longleftrightarrow> P (sg_writable s)"
    by (auto simp: flat_def list_ex_iff)
  with Cons show ?case by simp
qed simp

lemma writable_units: "list_ex (\<lambda>s. P (sg_writable s)) (units bs) \<longleftrightarrow> list_ex (\<lambda>b. P (snd b)) bs"
  by (simp add: units_def list_ex_iff)

lemma gather_range_succeeds:
  assumes "guest_memory mem ok"
  shows "accessible ok (flats ss) \<Longrightarrow> \<forall>s\<in>set ss. sg_len s \<noteq> 0 \<Longrightarrow> \<not> list_ex sg_writable ss \<Longrightarrow>
    length copied + length (flats ss) \<le> 16 \<Longrightarrow> gather_range mem copied ss = Inr (copied @ map (byte_at mem) (flats ss))"
proof (induction ss arbitrary: copied)
  case (Cons s ss)
  then have "gm_readable mem (sg_addr s) (sg_len s)"
    using assms by (simp add: guest_memory_def accessible_flat)
  with Cons show ?case by (simp add: read_slice_def bytes_flat)
qed simp

text \<open>The fields of a request do not see the boundaries of its segments.\<close>

lemma parse_zero_units:
  assumes "guest_memory mem ok" "accessible ok (flats ss)" "\<forall>s\<in>set ss. sg_len s \<noteq> 0" "length (flats ss) = len"
  shows "parse_zero v mem c ss kind len capacity = parse_zero v mem c (units (flats ss)) kind len capacity"
proof -
  have w: "list_ex sg_writable ss \<longleftrightarrow> list_ex sg_writable (units (flats ss))"
    using writable_flats [OF assms(3), of "\<lambda>b. b"] writable_units [of "\<lambda>b. b" "flats ss"] by simp
  have u: "\<forall>s\<in>set (units (flats ss)). sg_len s \<noteq> 0" by (auto simp: units_def)
  show ?thesis
  proof (cases "len \<in> {0, 16} \<and> \<not> list_ex sg_writable ss")
    case True
    then have "gather_range mem [] ss = gather_range mem [] (units (flats ss))"
      using gather_range_succeeds [OF assms(1,2,3), of "[]"] gather_range_succeeds [OF assms(1) _ u, of "[]"] w assms by auto
    then show ?thesis using w by (simp add: parse_zero_def)
  qed (use w in \<open>auto simp: parse_zero_def ensure_def\<close>)
qed

lemma parse_data_units:
  assumes "\<forall>s\<in>set ss. sg_len s \<noteq> 0"
  shows "accepted (parse_data v c ss kind sector len capacity) = accepted (parse_data v c (units (flats ss)) kind sector len capacity)"
proof -
  have "list_ex (\<lambda>s. sg_writable s \<noteq> (kind = vc_in v)) ss \<longleftrightarrow> list_ex (\<lambda>s. sg_writable s \<noteq> (kind = vc_in v)) (units (flats ss))"
    using writable_flats [OF assms, of "\<lambda>b. b \<noteq> (kind = vc_in v)"]
      writable_units [of "\<lambda>b. b \<noteq> (kind = vc_in v)" "flats ss"] by simp
  then show ?thesis
    by (simp add: parse_data_def accepted_def attempt_def ok_or_def ensure_def Let_def split: sum.splits option.splits)
qed

lemma parse_body_units:
  assumes "guest_memory mem ok" "accessible ok (flats ss)" "\<forall>s\<in>set ss. sg_len s \<noteq> 0" "length (flats ss) = len"
  shows "accepted (parse_body v mem c header ss len capacity) = accepted (parse_body v mem c header (units (flats ss)) len capacity)"
proof -
  have "list_all sg_writable ss \<longleftrightarrow> list_all sg_writable (units (flats ss))"
    using writable_flats [OF assms(3), of Not] writable_units [of Not "flats ss"] by (auto simp: list_all_iff list_ex_iff)
  then show ?thesis
    by (simp add: parse_body_def Let_def parse_zero_units [OF assms, of v c _ capacity] parse_data_units [OF assms(3)])
qed

lemma butlast_frame: "17 \<le> length bs \<Longrightarrow> butlast (drop 16 bs) = take (length bs - 17) (drop 16 bs)"
  by (simp add: butlast_conv_take)

lemma nonempty_len: "\<forall>s\<in>set (nonempty ss). sg_len s \<noteq> 0"
  by (simp add: nonempty_def)

lemma last_descriptor:
  assumes "nonempty ss \<noteq> []"
  shows "snd (last (flats ss)) = sg_writable (last (nonempty ss))"
  using last_nonempty [OF assms] last_flats [OF assms] by (simp add: flat_last)

lemma framed_check:
  assumes "guest_memory mem ok" "framed ok (flats ss)"
  shows "check_segments mem False 0 (nonempty ss) = Inr (length (flats ss))"
proof -
  have "length (flats ss) \<le> 17 + MAX_REQUEST_BYTES" using assms(2) unfolding framed_def by linarith
  then have "length (flats ss) \<le> u64_max" by (simp add: MAX_REQUEST_BYTES_def u64_max_def)
  then show ?thesis
    using assms check_segments_iff [OF assms(1) nonempty_len [of ss], of False 0 "length (flats ss)"]
    by (simp add: framed_def)
qed

lemma framed_completion:
  assumes "guest_memory mem ok" "framed ok (flats ss)"
  shows "Completion_from_descriptors mem head (nonempty ss) = Some \<lparr>cp_head = head, cp_status = fst (last (flats ss))\<rparr>"
proof -
  have "flats ss \<noteq> []" using assms(2) by (auto simp: framed_def)
  then have ne: "nonempty ss \<noteq> []" and "last (flats ss) \<in> set (flats ss)"
    by (metis flats_nonempty flats_simps(1), simp)
  then have "ok (fst (last (flats ss))) True"
    using assms(2) by (auto simp: framed_def accessible_def list_all_iff)
  with assms show ?thesis
    using ne by (auto simp: completion_Some guest_memory_def framed_def last_descriptor)
qed

lemma framed_parse:
  assumes mem: "guest_memory mem ok" and f: "framed ok (flats ss)"
  shows "accepted (parse_request v mem head ss capacity) = reference_parse v mem ok head (flats ss) capacity"
proof -
  let ?bs = "flats ss" and ?c = "\<lparr>cp_head = head, cp_status = fst (last (flats ss))\<rparr>"
  let ?len = "length ?bs - 17"
  note c = framed_completion [OF mem f, of head] and n = framed_check [OF mem f]
  obtain header ss1 where h: "take_header mem [] (nonempty ss) = Inr (header, ss1)"
    using take_header_succeeds [OF mem _ nonempty_len [of ss], of "[]"] f by (auto simp: framed_def)
  from parse_request_frames [OF c h] obtain ss2
    where d: "drop_status ss1 = Inr ss2" "flats ss2 = take ?len (drop 16 ?bs)" using f by (auto simp: framed_def butlast_frame)
  have acc: "accessible ok (flats (nonempty ss2))"
    using f d(2) by (auto simp: framed_def accessible_def list_all_iff dest: in_set_takeD in_set_dropD)
  have hd: "header = map (byte_at mem) (take 16 ?bs)" "length header = 16"
    using take_header_frames [OF h] f by (auto simp: framed_def)
  have "parse_request v mem head ss capacity = parse_body v mem ?c header (nonempty ss2) ?len capacity"
    using c n h d(1) hd(2) f by (simp add: parse_request_def Let_def nchecked_sub_def framed_def)
  moreover have "length (flats (nonempty ss2)) = ?len" using d(2) f by (simp add: framed_def)
  ultimately show ?thesis
    using parse_body_units [OF mem acc nonempty_len] d(2) hd(1) f by (simp add: reference_parse_def)
qed

lemma parsed_framed:
  assumes mem: "guest_memory mem ok" and r: "parse_request v mem head ss capacity = Inr r"
  shows "framed ok (flats ss)"
proof -
  from r obtain n header ss1 where c: "nonempty ss \<noteq> []" "sg_writable (last (nonempty ss))"
    and n: "check_segments mem False 0 (nonempty ss) = Inr n" "17 \<le> n" "n - 17 \<le> MAX_REQUEST_BYTES"
    and h: "take_header mem [] (nonempty ss) = Inr (header, ss1)"
    by (rule parse_request_Inr) (auto simp: completion_Some)
  have "accessible ok (flats ss)" "readable_first (flats ss)" "n = length (flats ss)"
    using n(1) check_segments_iff [OF mem nonempty_len [of ss], of False 0 n] by auto
  moreover have "\<not> list_ex snd (take 16 (flats ss))"
    using take_header_frames [OF h] by (auto simp: list_all_iff list_ex_iff)
  ultimately show ?thesis using n c by (simp add: framed_def last_descriptor)
qed

text \<open>
  C12. Framing is in bytes, not descriptor boundaries: over a guest memory whose ranges are accessible byte by byte,
  parsing a chain accepts exactly what the protocol's reading of its bytes accepts, with the same request, payload
  bytes, direction and status address; how the guest cut the bytes into descriptors makes no difference.
\<close>

theorem parse_refines_reference:
  assumes mem: "guest_memory mem ok"
  shows "accepted (parse_request v mem head descriptors capacity) = reference_parse v mem ok head (flats descriptors) capacity"
proof (cases "framed ok (flats descriptors)")
  case True
  then show ?thesis by (rule framed_parse [OF mem])
next
  case False
  then obtain e where "parse_request v mem head descriptors capacity = Inl e"
    using parsed_framed [OF mem] by (cases "parse_request v mem head descriptors capacity") auto
  with False show ?thesis by (simp add: reference_parse_def)
qed

theorem parse_refines_reference_witness:
  "reference_parse sample_codes sample_memory sample_ok 3 (flats sample_chain) 8192
     = Some (ZeroRange \<lparr>zr_completion = \<lparr>cp_head = 3, cp_status = 32\<rparr>, zr_offset = 4096, zr_len = 4096, zr_kind = KindZeroUnmap\<rparr>)"
  using parse_refines_reference [OF sample_guest_memory, of sample_codes 3 sample_chain 8192] by (simp add: sample_parse)

end
