(* ===== verification/Request_Frontier.thy ===== *)
theory Request_Frontier
  imports Request_Parser "HOL-Library.Multiset"
begin

text \<open>
  Discovery and admission of requests, \<^verbatim>\<open>daemon/src/backend/frontier.rs\<close>: a request is discovered in the order in
  which its header was seen, and admitted to storage out of that order only where it cannot be noticed. The answers of
  storage admission (\<^verbatim>\<open>prepare_admission\<close>, \<^verbatim>\<open>accept\<close>) and of the carrier's \<^verbatim>\<open>discover\<close> are arguments.
  The memory for descriptor snapshots is reserved for the worst case before a frontend is accepted, so that its budget
  does not appear; tracing, and the wake-up of the completion thread after a visit, are left out.
\<close>

section \<open>Decoding a chain\<close>

definition CONCURRENT_QUEUES :: nat where "CONCURRENT_QUEUES = 4"

definition CONCURRENT_QUEUE_SIZE :: nat where "CONCURRENT_QUEUE_SIZE = 256"

text \<open>A chain is the sequence of its descriptors, each with its \<^verbatim>\<open>has_next\<close> flag.\<close>

definition decode_chain :: "VirtioCodes \<Rightarrow> GuestMemory \<Rightarrow> nat \<Rightarrow> (Segment \<times> bool) list \<Rightarrow> nat \<Rightarrow> GuestRequest result" where
  "decode_chain v mem head chain capacity =
     (let taken = take CONCURRENT_QUEUE_SIZE chain;
          descriptors = map fst taken;
          has_next = (taken \<noteq> [] \<and> snd (last taken)) in
      ensure (\<not> has_next) (Other ''unterminated or oversized descriptor chain'')
     (let completion = Completion_from_descriptors mem head descriptors in
      case parse_request v mem head descriptors capacity of
        Inr request \<Rightarrow> Inr request
      | Inl _ \<Rightarrow> ok_or (map_option InvalidRequest completion) (Other ''malformed request without writable status'')))"

section \<open>The frontier\<close>

record Discovered =
  ds_request :: GuestRequest
  ds_available :: u16
  ds_order :: nat

record Frontier =
  fr_queues :: "Discovered list list"
  fr_next_order :: nat
  fr_bypassed :: nat

definition Frontier_new :: Frontier where
  "Frontier_new = \<lparr>fr_queues = replicate CONCURRENT_QUEUES [], fr_next_order = 0, fr_bypassed = 0\<rparr>"

definition Frontier_is_empty :: "Frontier \<Rightarrow> bool" where
  "Frontier_is_empty f = list_all (\<lambda>queue. queue = []) (fr_queues f)"

definition Frontier_restore :: "nat \<Rightarrow> InflightRequest \<Rightarrow> GuestRequest \<Rightarrow> Frontier \<Rightarrow> Frontier result" where
  "Frontier_restore order identity request f =
     (let q = rq_queue identity in
      ensure (q < length (fr_queues f)) (Panic ''index out of bounds'')
     (ensure (length (fr_queues f ! q) \<noteq> CONCURRENT_QUEUE_SIZE) (Other ''discovered queue exceeds capacity'')
     (Inr (f\<lparr>fr_queues := (fr_queues f)[q := fr_queues f ! q @ [\<lparr>ds_request = request, ds_available = rq_available identity, ds_order = order\<rparr>]],
             fr_next_order := max (fr_next_order f) order\<rparr>))))"

definition conflicts :: "InflightRequest \<Rightarrow> InflightRequest \<Rightarrow> bool" where
  "conflicts older later \<longleftrightarrow>
     (if rq_kind older \<in> {KindFlush, KindProtocol} \<or> rq_kind later \<in> {KindFlush, KindProtocol} then True
      else if rq_length older = 0 \<or> rq_length later = 0 \<or> (rq_kind older = KindRead \<and> rq_kind later = KindRead) then False
      else rq_offset older < wrapping_add (rq_offset later) (rq_length later) \<and> rq_offset later < wrapping_add (rq_offset older) (rq_length older))"

fun is_read :: "GuestRequest \<Rightarrow> bool" where
  "is_read (ReadRequest _) = True"
| "is_read _ = False"

definition Frontier_eligible :: "Frontier \<Rightarrow> nat \<Rightarrow> nat \<Rightarrow> bool" where
  "Frontier_eligible f q index =
     (let candidate = fr_queues f ! q ! index in
      if index \<noteq> 0 \<and> \<not> is_read (ds_request candidate) then False
      else let identity = Request_inflight (ds_request candidate) q (ds_available candidate) in
        list_all (\<lambda>older. \<not> conflicts (Request_inflight (ds_request older) 0 0) identity)
          (filter (\<lambda>older. ds_order older < ds_order candidate) (concat (fr_queues f))))"

section \<open>A visit to a queue\<close>

text \<open>One discovered chain; \<open>answer\<close> is what the carrier's \<^verbatim>\<open>discover\<close> returned, if there is a carrier.\<close>

record Chain =
  ch_head :: nat
  ch_descriptors :: "(Segment \<times> bool) list"
  ch_next_avail :: u16
  ch_answer :: "nat result option"

definition discover_one :: "VirtioCodes \<Rightarrow> GuestMemory \<Rightarrow> u64 \<Rightarrow> nat \<Rightarrow> nat \<Rightarrow> Chain \<Rightarrow> Frontier \<Rightarrow> Frontier result" where
  "discover_one v mem features capacity q chain f =
     attempt (decode_chain v mem (ch_head chain) (ch_descriptors chain) capacity) (\<lambda>decoded.
     let request = Request_negotiated v features decoded;
         identity = Request_inflight request q (ch_next_avail chain - 1) in
     attempt (ok_or (nchecked_add (fr_next_order f) 1) (Other ''discovery IDs exhausted'')) (\<lambda>order.
     attempt (case ch_answer chain of
         None \<Rightarrow> Inr ()
       | Some answer \<Rightarrow> attempt answer (\<lambda>found. ensure (found = order) (Other ''discovery order differs from carrier'') (Inr ()))) (\<lambda>_.
     Frontier_restore order identity request f)))"

text \<open>The loops return the frontier they leave with an error too. \<^verbatim>\<open>peek\<close> has no chain when the list is at its end.\<close>

fun discover_loop :: "VirtioCodes \<Rightarrow> GuestMemory \<Rightarrow> u64 \<Rightarrow> nat \<Rightarrow> nat \<Rightarrow> nat \<Rightarrow> nat \<Rightarrow> Chain list \<Rightarrow> Frontier \<Rightarrow> Frontier \<times> unit result" where
  "discover_loop v mem features capacity queue_size q 0 arrivals f = (f, Inr ())"
| "discover_loop v mem features capacity queue_size q (Suc n) [] f = (f, Inr ())"
| "discover_loop v mem features capacity queue_size q (Suc n) (chain # arrivals) f =
     (if length (fr_queues f ! q) = queue_size then (f, Inr ())
      else case discover_one v mem features capacity q chain f of
          Inl e \<Rightarrow> (f, Inl e)
        | Inr f \<Rightarrow> discover_loop v mem features capacity queue_size q n arrivals f)"

text \<open>The candidates of a queue in order; \<open>outcome\<close> is the answer of \<^verbatim>\<open>prepare_admission\<close>, true for \<^verbatim>\<open>Accepted\<close>.\<close>

fun select_from :: "Frontier \<Rightarrow> nat \<Rightarrow> (nat \<Rightarrow> bool result) \<Rightarrow> nat list \<Rightarrow> nat option result" where
  "select_from f q outcome [] = Inr None"
| "select_from f q outcome (candidate # candidates) =
     (if \<not> Frontier_eligible f q candidate then select_from f q outcome candidates
      else attempt (outcome candidate) (\<lambda>ok.
        if ok then Inr (Some candidate)
        else if is_read (ds_request (fr_queues f ! q ! candidate)) then Inr None
        else select_from f q outcome candidates))"

definition select_candidate :: "Frontier \<Rightarrow> nat \<Rightarrow> (nat \<Rightarrow> bool result) \<Rightarrow> nat option result" where
  "select_candidate f q outcome = select_from f q outcome [0..<length (fr_queues f ! q)]"

definition remove_candidate :: "Frontier \<Rightarrow> nat \<Rightarrow> nat \<Rightarrow> Frontier" where
  "remove_candidate f q candidate =
     (let queue = fr_queues f ! q in
      f\<lparr>fr_queues := (fr_queues f)[q := take candidate queue @ drop (Suc candidate) queue],
        fr_bypassed := (if candidate \<noteq> 0 then fr_bypassed f + 1 else fr_bypassed f)\<rparr>)"

record Answers =
  an_prepare :: "nat \<Rightarrow> bool result"
  an_accept :: "unit result"

text \<open>With the frontier, the requests admitted, in order.\<close>

fun admit_loop :: "nat \<Rightarrow> nat \<Rightarrow> (nat \<Rightarrow> Answers) \<Rightarrow> Frontier \<Rightarrow> Frontier \<times> Discovered list \<times> unit result" where
  "admit_loop q 0 answers f = (f, [], Inr ())"
| "admit_loop q (Suc n) answers f =
     (if fr_queues f ! q = [] then (f, [], Inr ())
      else case select_candidate f q (an_prepare (answers n)) of
          Inl e \<Rightarrow> (f, [], Inl e)
        | Inr None \<Rightarrow> (f, [], Inr ())
        | Inr (Some candidate) \<Rightarrow>
            let discovered = fr_queues f ! q ! candidate; f = remove_candidate f q candidate in
            (case an_accept (answers n) of
               Inl e \<Rightarrow> (f, [], Inl e)
             | Inr _ \<Rightarrow> (case admit_loop q n answers f of (f, admitted, r) \<Rightarrow> (f, discovered # admitted, r))))"

text \<open>\<open>ready\<close> is that the queue is not blocked, and enabled and ready.\<close>

definition progress_queue :: "VirtioCodes \<Rightarrow> GuestMemory \<Rightarrow> u64 \<Rightarrow> nat \<Rightarrow> nat \<Rightarrow> bool \<Rightarrow> bool \<Rightarrow> nat \<Rightarrow> Chain list \<Rightarrow> (nat \<Rightarrow> Answers)
    \<Rightarrow> Frontier \<Rightarrow> Frontier \<times> Discovered list \<times> unit result" where
  "progress_queue v mem features capacity queue_size ready discover q arrivals answers f =
     (if \<not> ready then (f, [], Inr ())
      else case (if discover then discover_loop v mem features capacity queue_size q queue_size arrivals f else (f, Inr ())) of
          (f, Inl e) \<Rightarrow> (f, [], Inl e)
        | (f, Inr _) \<Rightarrow> admit_loop q queue_size answers f)"

text \<open>Recovery (\<^verbatim>\<open>recovery.rs\<close>): the discovered requests of the carrier's replay, after its highest discovery.\<close>

fun restore_all :: "(nat \<times> InflightRequest \<times> GuestRequest) list \<Rightarrow> Frontier \<Rightarrow> Frontier result" where
  "restore_all [] f = Inr f"
| "restore_all ((order, identity, request) # entries) f =
     ensure (Request_inflight request (rq_queue identity) (rq_available identity) = identity)
       (Other ''discovered guest descriptor identity or range differs'')
    (attempt (Frontier_restore order identity request f) (restore_all entries))"

section \<open>Serial equivalence\<close>

text \<open>What the operations of a trace observe, one after the other; two traces are the same when nothing tells them apart.\<close>

fun observations :: "('d \<Rightarrow> 's \<Rightarrow> 's) \<Rightarrow> ('d \<Rightarrow> 's \<Rightarrow> 'r) \<Rightarrow> 'd list \<Rightarrow> 's \<Rightarrow> ('d \<times> 'r) list" where
  "observations perform observe [] s = []"
| "observations perform observe (d # ds) s = (d, observe d s) # observations perform observe ds (perform d s)"

definition same_trace :: "('d \<Rightarrow> 's \<Rightarrow> 's) \<Rightarrow> ('d \<Rightarrow> 's \<Rightarrow> 'r) \<Rightarrow> 'd list \<Rightarrow> 'd list \<Rightarrow> bool" where
  "same_trace perform observe ds es \<longleftrightarrow>
     (\<forall>s. fold perform ds s = fold perform es s \<and> mset (observations perform observe ds s) = mset (observations perform observe es s))"

text \<open>
  An interface for operations on a store: an operation changes the store and makes an observation of it, and two that
  do not clash may be exchanged. A trace in which no clashing operations are inverted is then the same as the
  trace in order of rank.
\<close>

locale serial_store =
  fixes perform :: "'d \<Rightarrow> 's \<Rightarrow> 's"
    and observe :: "'d \<Rightarrow> 's \<Rightarrow> 'r"
    and clash :: "'d \<Rightarrow> 'd \<Rightarrow> bool"
    and rank :: "'d \<Rightarrow> nat"
  assumes exchange: "\<not> clash a b \<Longrightarrow> perform a (perform b s) = perform b (perform a s)"
    and unseen: "\<not> clash a b \<Longrightarrow> observe a (perform b s) = observe a s"
    and clash_sym: "clash a b = clash b a"
begin

abbreviation same :: "'d list \<Rightarrow> 'd list \<Rightarrow> bool" where
  "same \<equiv> same_trace perform observe"

lemma same_refl: "same ds ds"
  by (simp add: same_trace_def)

lemma same_trans: "same ds es \<Longrightarrow> same es fs \<Longrightarrow> same ds fs"
  by (simp add: same_trace_def)

lemma same_Cons: "same ds es \<Longrightarrow> same (d # ds) (d # es)"
  by (simp add: same_trace_def)

lemma same_swap: "\<not> clash a b \<Longrightarrow> same (a # b # ds) (b # a # ds)"
  using exchange [of b a] unseen [of b a] unseen [of a b] clash_sym [of a b] by (simp add: same_trace_def)

lemma same_insort:
  "\<forall>e\<in>set es. rank e < rank d \<longrightarrow> \<not> clash e d \<Longrightarrow> same (d # es) (insort_key rank d es)"
proof (induction es)
  case (Cons e es)
  show ?case
  proof (cases "rank d \<le> rank e")
    case False
    then have "\<not> clash d e" using Cons.prems clash_sym [of e d] by auto
    then have "same (d # e # es) (e # d # es)" by (rule same_swap)
    moreover have "same (e # d # es) (e # insort_key rank d es)"
      using Cons by (intro same_Cons) auto
    ultimately show ?thesis using False by (simp add: same_trans)
  qed (simp add: same_refl)
qed (simp add: same_refl)

lemma same_sort:
  "sorted_wrt (\<lambda>d e. rank e < rank d \<longrightarrow> \<not> clash e d) ds \<Longrightarrow> same ds (sort_key rank ds)"
proof (induction ds)
  case (Cons d ds)
  then have "same (d # ds) (d # sort_key rank ds)" by (intro same_Cons) simp
  moreover have "same (d # sort_key rank ds) (insort_key rank d (sort_key rank ds))"
    using Cons.prems by (intro same_insort) auto
  ultimately show ?case by (simp add: same_trans)
qed (simp add: same_refl)

end

text \<open>
  The image as the requests see it: a mutation with a nonempty range replaces the bytes of the range, by whatever its
  payload is; a read observes its range, and a flush or protocol request the whole image.
\<close>

definition identity_of :: "Discovered \<Rightarrow> InflightRequest" where
  "identity_of d = Request_inflight (ds_request d) 0 0"

definition touches :: "Discovered \<Rightarrow> nat \<Rightarrow> bool" where
  "touches d o' \<longleftrightarrow> rq_offset (identity_of d) \<le> o' \<and> o' < rq_offset (identity_of d) + rq_length (identity_of d)"

definition perform_request :: "(Discovered \<Rightarrow> nat \<Rightarrow> byte) \<Rightarrow> Discovered \<Rightarrow> (nat \<Rightarrow> byte) \<Rightarrow> nat \<Rightarrow> byte" where
  "perform_request payload d s = (\<lambda>o'. if Request_mutates (identity_of d) \<and> touches d o' then payload d o' else s o')"

definition observe_request :: "Discovered \<Rightarrow> (nat \<Rightarrow> byte) \<Rightarrow> nat \<Rightarrow> byte option" where
  "observe_request d s = (\<lambda>o'. if rq_kind (identity_of d) \<in> {KindFlush, KindProtocol} \<or> rq_kind (identity_of d) = KindRead \<and> touches d o' then Some (s o') else None)"

text \<open>Two requests clash where the code finds a conflict; the test is exact for ranges that do not wrap.\<close>

definition clash_request :: "Discovered \<Rightarrow> Discovered \<Rightarrow> bool" where
  "clash_request a b \<longleftrightarrow>
     conflicts (identity_of a) (identity_of b) \<or>
     rq_offset (identity_of a) + rq_length (identity_of a) > u64_max \<or> rq_offset (identity_of b) + rq_length (identity_of b) > u64_max"

lemma clash_request_sym: "clash_request a b = clash_request b a"
  by (auto simp: clash_request_def conflicts_def)

lemma no_clash:
  assumes "\<not> clash_request a b"
  shows "rq_kind (identity_of a) \<notin> {KindFlush, KindProtocol}" "rq_kind (identity_of b) \<notin> {KindFlush, KindProtocol}"
    and "rq_kind (identity_of a) = KindRead \<and> rq_kind (identity_of b) = KindRead \<or> \<not> (touches a o' \<and> touches b o')"
proof -
  show "rq_kind (identity_of a) \<notin> {KindFlush, KindProtocol}" "rq_kind (identity_of b) \<notin> {KindFlush, KindProtocol}"
    using assms by (auto simp: clash_request_def conflicts_def)
  have "wrapping_add (rq_offset (identity_of a)) (rq_length (identity_of a)) = rq_offset (identity_of a) + rq_length (identity_of a)"
    "wrapping_add (rq_offset (identity_of b)) (rq_length (identity_of b)) = rq_offset (identity_of b) + rq_length (identity_of b)"
    using assms by (simp_all add: clash_request_def wrapping_add_exact)
  then show "rq_kind (identity_of a) = KindRead \<and> rq_kind (identity_of b) = KindRead \<or> \<not> (touches a o' \<and> touches b o')"
    using assms by (auto simp: clash_request_def conflicts_def touches_def split: if_splits)
qed

lemma read_is_not_mutation: "rq_kind r = KindRead \<Longrightarrow> \<not> Request_mutates r"
  by (simp add: Request_mutates_def Kind_zero_def)

interpretation requests: serial_store "perform_request payload" observe_request clash_request ds_order for payload
proof
  fix a b :: Discovered and s :: "nat \<Rightarrow> byte"
  assume nc: "\<not> clash_request a b"
  show "perform_request payload a (perform_request payload b s) = perform_request payload b (perform_request payload a s)"
    using no_clash(3) [OF nc] by (auto simp: perform_request_def fun_eq_iff dest: read_is_not_mutation)
  show "observe_request a (perform_request payload b s) = observe_request a s"
    using no_clash [OF nc] by (auto simp: perform_request_def observe_request_def fun_eq_iff dest: read_is_not_mutation)
qed (rule clash_request_sym)

section \<open>Admission keeps the order of discovery where it shows\<close>

text \<open>
  Queues hold requests in the order of discovery, and what was admitted early is in no conflict with an older request
  that still waits, or was admitted later.
\<close>

definition no_inversion :: "Discovered \<Rightarrow> Discovered \<Rightarrow> bool" where
  "no_inversion first later \<longleftrightarrow> (ds_order later < ds_order first \<longrightarrow> \<not> clash_request later first)"

definition waiting :: "Frontier \<Rightarrow> Discovered set" where
  "waiting f = \<Union> (set ` set (fr_queues f))"

definition frontier_inv :: "nat \<Rightarrow> Frontier \<Rightarrow> Discovered list \<Rightarrow> bool" where
  "frontier_inv capacity f log \<longleftrightarrow>
     length (fr_queues f) = CONCURRENT_QUEUES \<and>
     (\<forall>queue\<in>set (fr_queues f). sorted_wrt (\<lambda>d e. ds_order d < ds_order e) queue \<and> length queue \<le> CONCURRENT_QUEUE_SIZE) \<and>
     (\<forall>d\<in>waiting f \<union> set log. ds_order d \<le> fr_next_order f \<and> guest_request_fits (ds_request d) capacity) \<and>
     (\<forall>d\<in>waiting f. \<forall>e\<in>set log. no_inversion e d) \<and>
     sorted_wrt no_inversion log"

lemma conflicts_identity:
  "conflicts (Request_inflight r q a) (Request_inflight r' q' a') = conflicts (Request_inflight r 0 0) (Request_inflight r' 0 0)"
  by (simp add: conflicts_def Request_inflight_def split: prod.splits)

lemma fits_no_wrap:
  "guest_request_fits (ds_request d) capacity \<Longrightarrow> rq_offset (identity_of d) + rq_length (identity_of d) \<le> u64_max"
  by (cases "ds_request d") (auto simp: guest_request_fits_def range_fits_def identity_of_def Request_inflight_def)

lemma fits_clash:
  "guest_request_fits (ds_request a) capacity \<Longrightarrow> guest_request_fits (ds_request b) capacity \<Longrightarrow>
   clash_request a b \<longleftrightarrow> conflicts (identity_of a) (identity_of b)"
  by (auto simp: clash_request_def dest: fits_no_wrap)

lemma waiting_update:
  "q < length (fr_queues f) \<Longrightarrow> waiting (f\<lparr>fr_queues := (fr_queues f)[q := queue]\<rparr>) \<subseteq> waiting f \<union> set queue"
  by (auto simp: waiting_def dest!: set_update_subset_insert [THEN subsetD])

lemma waiting_nth: "q < length (fr_queues f) \<Longrightarrow> set (fr_queues f ! q) \<subseteq> waiting f"
  by (force simp: waiting_def)

lemma set_concat_waiting: "set (concat (fr_queues f)) = waiting f"
  by (simp add: waiting_def)

lemma eligible_spec:
  assumes "Frontier_eligible f q index" "d = fr_queues f ! q ! index" "e \<in> waiting f" "ds_order e < ds_order d"
  shows "\<not> conflicts (identity_of e) (identity_of d)"
  using assms conflicts_identity [of "ds_request e" 0 0 "ds_request d" q "ds_available d"]
  by (auto simp: Frontier_eligible_def Let_def list_all_iff identity_of_def set_concat_waiting [symmetric] split: if_splits)

lemma restore_inv:
  assumes inv: "frontier_inv capacity f log" and r: "Frontier_restore order identity request f = Inr f'"
    and new: "\<forall>e\<in>waiting f \<union> set log. ds_order e < order" and fits: "guest_request_fits request capacity"
  shows "frontier_inv capacity f' log"
proof -
  let ?q = "rq_queue identity" and ?d = "\<lparr>ds_request = request, ds_available = rq_available identity, ds_order = order\<rparr>"
  have q: "?q < length (fr_queues f)" "length (fr_queues f ! ?q) \<noteq> CONCURRENT_QUEUE_SIZE"
    and f': "f' = f\<lparr>fr_queues := (fr_queues f)[?q := fr_queues f ! ?q @ [?d]], fr_next_order := max (fr_next_order f) order\<rparr>"
    using r by (auto simp: Frontier_restore_def Let_def)
  have qs: "set (fr_queues f') \<subseteq> insert (fr_queues f ! ?q @ [?d]) (set (fr_queues f))"
    by (simp add: f' set_update_subset_insert)
  have w: "waiting f' \<subseteq> insert ?d (waiting f)"
    using qs waiting_nth [OF q(1)] by (fastforce simp: waiting_def)
  have old: "fr_queues f ! ?q \<in> set (fr_queues f)" using q(1) by simp
  have bound: "ds_order e < order" if "e \<in> waiting f \<union> set log" for e
    using that new by blast
  have "sorted_wrt (\<lambda>d e. ds_order d < ds_order e) queue \<and> length queue \<le> CONCURRENT_QUEUE_SIZE" if "queue \<in> set (fr_queues f')" for queue
  proof (cases "queue = fr_queues f ! ?q @ [?d]")
    case True
    have "sorted_wrt (\<lambda>d e. ds_order d < ds_order e) (fr_queues f ! ?q)" "length (fr_queues f ! ?q) < CONCURRENT_QUEUE_SIZE"
      using inv old q(2) unfolding frontier_inv_def by (auto simp: le_less)
    moreover have "\<forall>e\<in>set (fr_queues f ! ?q). ds_order e < order"
      using bound waiting_nth [OF q(1)] by blast
    ultimately show ?thesis using True by (simp add: sorted_wrt_append)
  next
    case False
    then have "queue \<in> set (fr_queues f)" using qs that by blast
    with inv show ?thesis unfolding frontier_inv_def by blast
  qed
  moreover have "length (fr_queues f') = CONCURRENT_QUEUES" using inv by (simp add: f' frontier_inv_def)
  moreover have "ds_order d \<le> fr_next_order f' \<and> guest_request_fits (ds_request d) capacity" if "d \<in> waiting f' \<union> set log" for d
    using that w bound [of d] inv fits by (auto simp: f' frontier_inv_def)
  moreover have "no_inversion e d" if "d \<in> waiting f'" "e \<in> set log" for d e
    using that w bound [of e] inv by (auto simp: frontier_inv_def no_inversion_def)
  ultimately show ?thesis using inv by (simp add: frontier_inv_def)
qed

lemma remove_inv:
  assumes inv: "frontier_inv capacity f log" and q: "q < length (fr_queues f)" and i: "i < length (fr_queues f ! q)"
    and el: "Frontier_eligible f q i"
  shows "frontier_inv capacity (remove_candidate f q i) log"
    and "frontier_inv capacity (remove_candidate f q i) (log @ [fr_queues f ! q ! i])"
proof -
  let ?f = "remove_candidate f q i" and ?d = "fr_queues f ! q ! i"
  let ?queue = "take i (fr_queues f ! q) @ drop (Suc i) (fr_queues f ! q)"
  have qs: "set (fr_queues ?f) \<subseteq> insert ?queue (set (fr_queues f))"
    by (simp add: remove_candidate_def Let_def set_update_subset_insert)
  have sub: "set ?queue \<subseteq> set (fr_queues f ! q)" by (auto dest: in_set_takeD in_set_dropD)
  have w: "waiting ?f \<subseteq> waiting f"
    using qs sub waiting_nth [OF q] by (fastforce simp: waiting_def)
  have d: "?d \<in> waiting f" using waiting_nth [OF q] i by auto
  have old: "fr_queues f ! q \<in> set (fr_queues f)" using q by simp
  have same: "length (fr_queues ?f) = length (fr_queues f)" "fr_next_order ?f = fr_next_order f"
    by (simp_all add: remove_candidate_def Let_def)
  have sorted: "sorted_wrt (\<lambda>d e. ds_order d < ds_order e) ?queue"
  proof -
    have "sorted_wrt (\<lambda>d e. ds_order d < ds_order e) (take i (fr_queues f ! q) @ drop i (fr_queues f ! q))"
      using inv old unfolding frontier_inv_def append_take_drop_id by blast
    moreover have "drop i (fr_queues f ! q) = ?d # drop (Suc i) (fr_queues f ! q)"
      using i by (rule Cons_nth_drop_Suc [symmetric])
    ultimately show ?thesis by (simp add: sorted_wrt_append)
  qed
  have short: "length ?queue \<le> CONCURRENT_QUEUE_SIZE"
    using i inv old unfolding frontier_inv_def by fastforce
  have queues: "sorted_wrt (\<lambda>d e. ds_order d < ds_order e) queue \<and> length queue \<le> CONCURRENT_QUEUE_SIZE" if "queue \<in> set (fr_queues ?f)" for queue
  proof (cases "queue = ?queue")
    case False
    then have "queue \<in> set (fr_queues f)" using qs that by blast
    with inv show ?thesis unfolding frontier_inv_def by blast
  qed (use sorted short in simp)
  have "\<forall>d\<in>waiting ?f \<union> set log. ds_order d \<le> fr_next_order f \<and> guest_request_fits (ds_request d) capacity"
    "\<forall>d\<in>waiting ?f. \<forall>e\<in>set log. no_inversion e d"
    using inv w unfolding frontier_inv_def by blast+
  then show keep: "frontier_inv capacity ?f log"
    using inv same queues by (simp add: frontier_inv_def)
  have "no_inversion ?d e" if "e \<in> waiting ?f" for e
  proof -
    have e: "e \<in> waiting f" using that w by blast
    then have "guest_request_fits (ds_request e) capacity" "guest_request_fits (ds_request ?d) capacity"
      using inv d unfolding frontier_inv_def by blast+
    then show ?thesis using eligible_spec [OF el refl e] by (simp add: no_inversion_def fits_clash)
  qed
  then show "frontier_inv capacity ?f (log @ [?d])"
    using keep inv d same by (auto simp: frontier_inv_def sorted_wrt_append)
qed

lemma decode_chain_fits:
  assumes "decode_chain v mem head chain capacity = Inr r"
  shows "guest_request_fits r capacity"
proof (cases "parse_request v mem head (map fst (take CONCURRENT_QUEUE_SIZE chain)) capacity")
  case (Inr p)
  with assms have "r = p" by (simp add: decode_chain_def Let_def)
  with Inr show ?thesis by (auto dest: parse_body_fits elim: parse_request_Inr)
qed (use assms in \<open>auto simp: decode_chain_def Let_def guest_request_fits_def\<close>)

lemma discover_one_inv:
  assumes inv: "frontier_inv capacity f log" and r: "discover_one v mem features capacity q chain f = Inr f'"
  shows "frontier_inv capacity f' log"
proof -
  from r obtain decoded where d: "decode_chain v mem (ch_head chain) (ch_descriptors chain) capacity = Inr decoded"
    and f': "Frontier_restore (fr_next_order f + 1) (Request_inflight (Request_negotiated v features decoded) q (ch_next_avail chain - 1))
      (Request_negotiated v features decoded) f = Inr f'"
    by (auto simp: discover_one_def Let_def)
  have "\<forall>e\<in>waiting f \<union> set log. ds_order e < fr_next_order f + 1"
    using inv unfolding frontier_inv_def by (simp add: less_Suc_eq_le)
  then show ?thesis
    by (rule restore_inv [OF inv f']) (simp add: negotiated_keeps decode_chain_fits [OF d])
qed

lemma discover_loop_inv:
  "frontier_inv capacity f log \<Longrightarrow> discover_loop v mem features capacity queue_size q n arrivals f = (f', r) \<Longrightarrow> frontier_inv capacity f' log"
  by (induction v mem features capacity queue_size q n arrivals f rule: discover_loop.induct)
    (auto split: if_splits sum.splits dest: discover_one_inv)

lemma select_from_eligible: "select_from f q outcome cs = Inr (Some c) \<Longrightarrow> c \<in> set cs \<and> Frontier_eligible f q c"
  by (induction f q outcome cs rule: select_from.induct) (auto split: if_splits)

lemma select_candidate_eligible:
  "select_candidate f q outcome = Inr (Some c) \<Longrightarrow> c < length (fr_queues f ! q) \<and> Frontier_eligible f q c"
  by (auto simp: select_candidate_def dest: select_from_eligible)

lemma length_remove_candidate [simp]: "length (fr_queues (remove_candidate f q c)) = length (fr_queues f)"
  by (simp add: remove_candidate_def Let_def)

lemma admit_loop_inv:
  "frontier_inv capacity f log \<Longrightarrow> q < length (fr_queues f) \<Longrightarrow> admit_loop q n answers f = (f', admitted, r) \<Longrightarrow>
   frontier_inv capacity f' (log @ admitted)"
proof (induction n arbitrary: f log admitted)
  case (Suc n)
  show ?case
  proof (cases "fr_queues f ! q \<noteq> [] \<and> (\<exists>c. select_candidate f q (an_prepare (answers n)) = Inr (Some c))")
    case True
    then obtain c where ne: "fr_queues f ! q \<noteq> []" and c: "select_candidate f q (an_prepare (answers n)) = Inr (Some c)" by blast
    note keep = remove_inv [OF Suc.prems(1,2) conjunct1 [OF select_candidate_eligible [OF c]] conjunct2 [OF select_candidate_eligible [OF c]]]
    show ?thesis
    proof (cases "an_accept (answers n)")
      case (Inl e)
      with Suc.prems(3) ne c keep(1) show ?thesis by (simp add: Let_def)
    next
      case (Inr u)
      with Suc.prems(3) ne c obtain rest where
        "admit_loop q n answers (remove_candidate f q c) = (f', rest, r)" "admitted = fr_queues f ! q ! c # rest"
        by (auto simp: Let_def split: prod.splits)
      with Suc.IH [OF keep(2)] Suc.prems(2) show ?thesis by simp
    qed
  qed (use Suc.prems in \<open>auto split: sum.splits option.splits if_splits\<close>)
qed simp

lemma restore_all_inv:
  "frontier_inv capacity f [] \<Longrightarrow> restore_all entries f = Inr f' \<Longrightarrow> sorted_wrt (<) (map fst entries) \<Longrightarrow>
   \<forall>e\<in>waiting f. \<forall>entry\<in>set entries. ds_order e < fst entry \<Longrightarrow> \<forall>(order, identity, request)\<in>set entries. guest_request_fits request capacity \<Longrightarrow>
   frontier_inv capacity f' []"
proof (induction entries f rule: restore_all.induct)
  case (2 order identity request entries f)
  from 2(3) obtain f1 where f1: "Frontier_restore order identity request f = Inr f1" "restore_all entries f1 = Inr f'"
    and same: "Request_inflight request (rq_queue identity) (rq_available identity) = identity" by auto
  have inv: "frontier_inv capacity f1 []" using 2(5,6) by (intro restore_inv [OF 2(2) f1(1)]) auto
  have "e \<in> waiting f \<or> ds_order e = order" if "e \<in> waiting f1" for e
  proof -
    have "waiting f1 \<subseteq> insert \<lparr>ds_request = request, ds_available = rq_available identity, ds_order = order\<rparr> (waiting f)"
      using f1(1) waiting_nth [of "rq_queue identity" f]
      by (auto simp: Frontier_restore_def Let_def waiting_def dest!: set_update_subset_insert [THEN subsetD])
    with that show ?thesis by auto
  qed
  with 2(4,5) have "\<forall>e\<in>waiting f1. \<forall>entry\<in>set entries. ds_order e < fst entry" by auto
  then show ?case using 2(1) [OF inv f1(2)] 2(4,6) by auto
qed simp

text \<open>
  A frontend's life: the frontier recovered from the carrier's replay (empty for a new one), whose discoveries are in
  ascending order, then visits to its queues, each with any arrivals and any answers.
\<close>

inductive frontier_run :: "VirtioCodes \<Rightarrow> u64 \<Rightarrow> nat \<Rightarrow> Frontier \<Rightarrow> Discovered list \<Rightarrow> bool" for v features capacity where
  recovered: "restore_all entries (Frontier_new\<lparr>fr_next_order := highest\<rparr>) = Inr f \<Longrightarrow> sorted_wrt (<) (map fst entries) \<Longrightarrow>
    \<forall>(order, identity, request)\<in>set entries. \<exists>mem head chain decoded.
      decode_chain v mem head chain capacity = Inr decoded \<and> request = Request_negotiated v features decoded \<Longrightarrow>
    frontier_run v features capacity f []"
| visited: "frontier_run v features capacity f log \<Longrightarrow> q < CONCURRENT_QUEUES \<Longrightarrow>
    progress_queue v mem features capacity queue_size ready discover q arrivals answers f = (f', admitted, outcome) \<Longrightarrow>
    frontier_run v features capacity f' (log @ admitted)"

lemma new_inv: "frontier_inv capacity (Frontier_new\<lparr>fr_next_order := highest\<rparr>) []"
  by (auto simp: frontier_inv_def Frontier_new_def waiting_def)

lemma progress_queue_inv:
  assumes inv: "frontier_inv capacity f log" and q: "q < CONCURRENT_QUEUES"
    and r: "progress_queue v mem features capacity queue_size ready discover q arrivals answers f = (f', admitted, outcome)"
  shows "frontier_inv capacity f' (log @ admitted)"
proof -
  obtain f1 r1 where f1: "(if discover then discover_loop v mem features capacity queue_size q queue_size arrivals f else (f, Inr ())) = (f1, r1)"
    by fastforce
  then have inv1: "frontier_inv capacity f1 log" using inv by (auto dest: discover_loop_inv split: if_splits)
  then have "q < length (fr_queues f1)" using q by (simp add: frontier_inv_def)
  then show ?thesis
    using r f1 inv inv1 admit_loop_inv [OF inv1] by (auto simp: progress_queue_def split: if_splits sum.splits)
qed

lemma run_inv: "frontier_run v features capacity f log \<Longrightarrow> frontier_inv capacity f log"
proof (induction rule: frontier_run.induct)
  case (recovered entries highest f)
  have "waiting (Frontier_new\<lparr>fr_next_order := highest\<rparr>) = {}" by (auto simp: Frontier_new_def waiting_def)
  moreover have "\<forall>(order, identity, request)\<in>set entries. guest_request_fits request capacity"
    using recovered(3) by (fastforce intro: negotiated_keeps decode_chain_fits)
  ultimately show ?case using restore_all_inv [OF new_inv recovered(1,2)] by simp
next
  case (visited f log q mem queue_size ready discover arrivals answers f' admitted outcome)
  then show ?case by (blast intro: progress_queue_inv)
qed

text \<open>
  A recovered frontier on one queue: an older write-zeroes request of block one, which storage makes wait, and a later
  read of block zero, which passes it.
\<close>

definition sample_zero :: GuestRequest where
  "sample_zero = ZeroRange \<lparr>zr_completion = \<lparr>cp_head = 3, cp_status = 32\<rparr>, zr_offset = 4096, zr_len = 4096, zr_kind = KindZeroUnmap\<rparr>"

definition sample_read :: GuestRequest where
  "sample_read = ReadRequest \<lparr>dr_completion = \<lparr>cp_head = 4, cp_status = 8192\<rparr>, dr_offset = 0,
     dr_segments = [\<lparr>sg_addr = 4096, sg_len = 4096, sg_writable = True\<rparr>], dr_len = 4096\<rparr>"

definition sample_zeros :: GuestMemory where
  "sample_zeros = \<lparr>gm_check = \<lambda>a n w. a + n \<le> 16384, gm_readable = \<lambda>a n. a + n \<le> 16384, gm_byte = \<lambda>a. 0\<rparr>"

definition sample_entries :: "(nat \<times> InflightRequest \<times> GuestRequest) list" where
  "sample_entries = [(1, Request_inflight sample_zero 0 7, sample_zero), (2, Request_inflight sample_read 0 8, sample_read)]"

definition sample_frontier :: Frontier where
  "sample_frontier =
     \<lparr>fr_queues = [[\<lparr>ds_request = sample_zero, ds_available = 7, ds_order = 1\<rparr>, \<lparr>ds_request = sample_read, ds_available = 8, ds_order = 2\<rparr>], [], [], []],
      fr_next_order = 2, fr_bypassed = 0\<rparr>"

definition sample_answers :: "nat \<Rightarrow> Answers" where
  "sample_answers n = \<lparr>an_prepare = \<lambda>c. Inr (n = 0 \<or> c = 1), an_accept = Inr ()\<rparr>"

lemma sample_decode_zero:
  "decode_chain sample_codes sample_memory 3 (map (\<lambda>s. (s, False)) sample_chain) 8192 = Inr sample_zero"
  using sample_parse by (simp add: decode_chain_def Let_def sample_zero_def sample_chain_def CONCURRENT_QUEUE_SIZE_def)

lemma sample_decode_read:
  "decode_chain sample_codes sample_zeros 4
     [(\<lparr>sg_addr = 0, sg_len = 16, sg_writable = False\<rparr>, True), (\<lparr>sg_addr = 4096, sg_len = 4097, sg_writable = True\<rparr>, False)] 8192 = Inr sample_read"
  by (simp add: decode_chain_def parse_request_def sample_zeros_def sample_codes_def sample_read_def nonempty_def Completion_from_descriptors_def
      nchecked_add_def nchecked_sub_def nchecked_mul_def u64_max_def read_slice_def guest_bytes_def drop_status_def parse_body_def parse_data_def
      MAX_REQUEST_BYTES_def SECTOR_BYTES_def BLOCK_SIZE_def CONCURRENT_QUEUE_SIZE_def upt_rec_numeral upt_conv_Cons)

lemma sample_recovered: "restore_all sample_entries (Frontier_new\<lparr>fr_next_order := 2\<rparr>) = Inr sample_frontier"
  by (simp add: sample_entries_def sample_zero_def sample_read_def Request_inflight_def Frontier_restore_def Frontier_new_def
      sample_frontier_def CONCURRENT_QUEUES_def CONCURRENT_QUEUE_SIZE_def numeral_eq_Suc)

lemma sample_run: "frontier_run sample_codes (2 ^ 14) 8192 sample_frontier []"
proof (rule frontier_run.recovered [OF sample_recovered])
  have "Request_negotiated sample_codes (2 ^ 14) sample_zero = sample_zero" "Request_negotiated sample_codes (2 ^ 14) sample_read = sample_read"
    by (simp_all add: Request_negotiated_def sample_zero_def sample_read_def sample_codes_def bit_exp_iff)
  then show "\<forall>(order, identity, request)\<in>set sample_entries. \<exists>mem head chain decoded.
      decode_chain sample_codes mem head chain 8192 = Inr decoded \<and> request = Request_negotiated sample_codes (2 ^ 14) decoded"
    using sample_decode_zero sample_decode_read by (simp add: sample_entries_def) metis
qed (simp add: sample_entries_def)

lemma sample_visit:
  "\<exists>f'. progress_queue sample_codes sample_zeros (2 ^ 14) 8192 (Suc (Suc 0)) True False 0 [] sample_answers sample_frontier =
     (f', [\<lparr>ds_request = sample_read, ds_available = 8, ds_order = 2\<rparr>, \<lparr>ds_request = sample_zero, ds_available = 7, ds_order = 1\<rparr>], Inr ())"
  by (simp add: progress_queue_def sample_frontier_def sample_answers_def select_candidate_def Frontier_eligible_def conflicts_def
      Request_inflight_def sample_zero_def sample_read_def remove_candidate_def wrapping_add_def)

text \<open>
  C11. Admission out of order cannot be noticed: whatever the guest submits on its queues, however storage admission
  answers, and through recovery, performing the admitted requests in the order of admission leaves the same image, and
  gives every read, flush and protocol request the same view of it, as performing them in the order of discovery.
\<close>

theorem admission_is_serial:
  assumes "frontier_run v features capacity f log"
  shows "same_trace (perform_request payload) observe_request log (sort_key ds_order log)"
proof (rule requests.same_sort)
  show "sorted_wrt (\<lambda>d e. ds_order e < ds_order d \<longrightarrow> \<not> clash_request e d) log"
    using run_inv [OF assms] by (simp add: frontier_inv_def no_inversion_def [abs_def])
qed

theorem admission_is_serial_witness:
  "same_trace (perform_request (\<lambda>_ _. 0)) observe_request
     [\<lparr>ds_request = sample_read, ds_available = 8, ds_order = 2\<rparr>, \<lparr>ds_request = sample_zero, ds_available = 7, ds_order = 1\<rparr>]
     [\<lparr>ds_request = sample_zero, ds_available = 7, ds_order = 1\<rparr>, \<lparr>ds_request = sample_read, ds_available = 8, ds_order = 2\<rparr>]"
proof -
  obtain f' where "frontier_run sample_codes (2 ^ 14) 8192 f'
      [\<lparr>ds_request = sample_read, ds_available = 8, ds_order = 2\<rparr>, \<lparr>ds_request = sample_zero, ds_available = 7, ds_order = 1\<rparr>]"
    using sample_visit frontier_run.visited [OF sample_run, of 0] by (fastforce simp: CONCURRENT_QUEUES_def)
  from admission_is_serial [OF this] show ?thesis by simp
qed

lemma oldest_waiting:
  assumes inv: "frontier_inv capacity f log" and ne: "\<not> Frontier_is_empty f"
  obtains q d rest where "q < CONCURRENT_QUEUES" "fr_queues f ! q = d # rest" "\<forall>e\<in>waiting f. ds_order d \<le> ds_order e"
proof -
  have fin: "finite (waiting f)" by (simp add: waiting_def)
  have "waiting f \<noteq> {}" using ne by (auto simp: Frontier_is_empty_def waiting_def list_all_iff)
  then obtain m where m: "m \<in> waiting f" "\<forall>e\<in>waiting f. ds_order m \<le> ds_order e"
    using ex_min_if_finite [of "ds_order ` waiting f"] fin by (fastforce simp: not_less)
  then obtain q where q: "q < length (fr_queues f)" "m \<in> set (fr_queues f ! q)"
    unfolding waiting_def by (metis UN_E in_set_conv_nth)
  then obtain d rest where d: "fr_queues f ! q = d # rest" by (cases "fr_queues f ! q") auto
  have "sorted_wrt (\<lambda>d e. ds_order d < ds_order e) (fr_queues f ! q)"
    using inv q(1) unfolding frontier_inv_def by (meson nth_mem)
  then have "ds_order d \<le> ds_order m" using q(2) d by auto
  then have "\<forall>e\<in>waiting f. ds_order d \<le> ds_order e" using m(2) by (meson le_trans)
  moreover have "q < CONCURRENT_QUEUES" using q(1) inv by (simp add: frontier_inv_def)
  ultimately show thesis using that d by blast
qed

lemma oldest_eligible:
  assumes "fr_queues f ! q = d # rest" "\<forall>e\<in>waiting f. ds_order d \<le> ds_order e"
  shows "Frontier_eligible f q 0"
proof -
  have none: "filter (\<lambda>older. ds_order older < ds_order d) (concat (fr_queues f)) = []"
    using assms(2) unfolding filter_empty_conv set_concat_waiting by (simp add: not_less)
  show ?thesis using assms(1) none by (simp add: Frontier_eligible_def Let_def)
qed

text \<open>
  Arrivals that discovery takes: chains that decode (a malformed one with a writable status byte decodes as invalid),
  with identities left to give, and a carrier, if there is one, that gives the same.
\<close>

fun arrivals_ok :: "VirtioCodes \<Rightarrow> GuestMemory \<Rightarrow> nat \<Rightarrow> nat \<Rightarrow> Chain list \<Rightarrow> bool" where
  "arrivals_ok v mem capacity order [] = True"
| "arrivals_ok v mem capacity order (chain # arrivals) =
     (\<not> isl (decode_chain v mem (ch_head chain) (ch_descriptors chain) capacity) \<and> order + 1 \<le> u64_max \<and>
      ch_answer chain \<in> {None, Some (Inr (order + 1))} \<and> arrivals_ok v mem capacity (order + 1) arrivals)"

lemma discover_one_appends:
  assumes "arrivals_ok v mem capacity (fr_next_order f) (chain # arrivals)" and "q < length (fr_queues f)"
    and "length (fr_queues f ! q) \<noteq> CONCURRENT_QUEUE_SIZE"
  shows "\<exists>f' x. discover_one v mem features capacity q chain f = Inr f' \<and> fr_queues f' = (fr_queues f)[q := fr_queues f ! q @ [x]] \<and>
    fr_next_order f' = fr_next_order f + 1 \<and> ds_order x = fr_next_order f + 1"
proof -
  obtain decoded where d: "decode_chain v mem (ch_head chain) (ch_descriptors chain) capacity = Inr decoded"
    using assms(1) by (cases "decode_chain v mem (ch_head chain) (ch_descriptors chain) capacity") auto
  have q: "rq_queue (Request_inflight r q a) = q" for r a by (simp add: Request_inflight_def split: prod.split)
  let ?r = "Request_negotiated v features decoded"
  let ?x = "\<lparr>ds_request = ?r, ds_available = rq_available (Request_inflight ?r q (ch_next_avail chain - 1)), ds_order = fr_next_order f + 1\<rparr>"
  let ?f = "f\<lparr>fr_queues := (fr_queues f)[q := fr_queues f ! q @ [?x]], fr_next_order := fr_next_order f + 1\<rparr>"
  have "discover_one v mem features capacity q chain f = Inr ?f"
    using assms d by (auto simp: discover_one_def Let_def q nchecked_add_def Frontier_restore_def)
  then show ?thesis by (intro exI [of _ ?f] exI [of _ ?x]) simp
qed

text \<open>Discovery leaves the oldest request at the head of its queue.\<close>

lemma discover_loop_oldest:
  "frontier_inv capacity f log \<Longrightarrow> q < length (fr_queues f) \<Longrightarrow> fr_queues f ! q = d # rest \<Longrightarrow>
   \<forall>e\<in>waiting f. ds_order d \<le> ds_order e \<Longrightarrow> length (fr_queues f ! q) \<le> queue_size \<Longrightarrow> queue_size \<le> CONCURRENT_QUEUE_SIZE \<Longrightarrow>
   arrivals_ok v mem capacity (fr_next_order f) arrivals \<Longrightarrow>
   \<exists>f' rest'. discover_loop v mem features capacity queue_size q n arrivals f = (f', Inr ()) \<and>
     fr_queues f' ! q = d # rest' \<and> (\<forall>e\<in>waiting f'. ds_order d \<le> ds_order e)"
proof (induction v mem features capacity queue_size q n arrivals f arbitrary: rest rule: discover_loop.induct)
  case (3 v mem features capacity queue_size q n chain arrivals f)
  show ?case
  proof (cases "length (fr_queues f ! q) = queue_size")
    case False
    then have room: "length (fr_queues f ! q) < queue_size" using "3.prems"(5) by simp
    obtain f1 x where f1: "discover_one v mem features capacity q chain f = Inr f1" "fr_queues f1 = (fr_queues f)[q := fr_queues f ! q @ [x]]"
      "fr_next_order f1 = fr_next_order f + 1" "ds_order x = fr_next_order f + 1"
      using discover_one_appends [OF "3.prems"(7,2)] room "3.prems"(6) by (metis le_less_trans less_irrefl_nat not_le)
    have "d \<in> waiting f" using waiting_nth [OF "3.prems"(2)] "3.prems"(3) by auto
    then have "ds_order d \<le> ds_order x" using "3.prems"(1) f1(4) unfolding frontier_inv_def by force
    moreover have "waiting f1 \<subseteq> insert x (waiting f)"
      using waiting_nth [OF "3.prems"(2)] by (auto simp: waiting_def f1(2) dest!: set_update_subset_insert [THEN subsetD])
    ultimately have old: "\<forall>e\<in>waiting f1. ds_order d \<le> ds_order e" using "3.prems"(4) by blast
    have "\<exists>f' rest'. discover_loop v mem features capacity queue_size q n arrivals f1 = (f', Inr ()) \<and>
       fr_queues f' ! q = d # rest' \<and> (\<forall>e\<in>waiting f'. ds_order d \<le> ds_order e)"
      by (rule "3.IH" [OF False f1(1) discover_one_inv [OF "3.prems"(1) f1(1)] _ _ old, where rest = "rest @ [x]"])
        (use "3.prems" f1 room in \<open>simp_all add: Suc_le_eq\<close>)
    then show ?thesis using False f1(1) by simp
  qed (use "3.prems" in simp)
qed simp_all

text \<open>
  C20. Waiting requests do not deadlock: while any request waits, one queue has the oldest of them all at its head, and
  a visit to that queue in which storage admission accepts its head admits it first, whatever else waits on any queue, and
  whether or not the visit also discovers what has arrived.
\<close>

theorem oldest_is_admitted:
  assumes "frontier_run v features capacity f log" and "\<not> Frontier_is_empty f" and "0 < queue_size"
  shows "\<exists>q d rest. q < CONCURRENT_QUEUES \<and> fr_queues f ! q = d # rest \<and> (\<forall>e\<in>waiting f. ds_order d \<le> ds_order e) \<and>
    (\<forall>mem discover arrivals answers.
      (discover \<longrightarrow> length (fr_queues f ! q) \<le> queue_size \<and> queue_size \<le> CONCURRENT_QUEUE_SIZE \<and> arrivals_ok v mem capacity (fr_next_order f) arrivals) \<and>
      an_prepare (answers (queue_size - 1)) 0 = Inr True \<and> an_accept (answers (queue_size - 1)) = Inr () \<longrightarrow>
      (\<exists>f' more outcome. progress_queue v mem features capacity queue_size True discover q arrivals answers f = (f', d # more, outcome)))"
proof -
  note inv = run_inv [OF assms(1)]
  from oldest_waiting [OF inv assms(2)] obtain q d rest
    where q: "q < CONCURRENT_QUEUES" "fr_queues f ! q = d # rest" "\<forall>e\<in>waiting f. ds_order d \<le> ds_order e" .
  have ql: "q < length (fr_queues f)" using q(1) inv by (simp add: frontier_inv_def)
  obtain n where n: "queue_size = Suc n" using assms(3) by (cases queue_size) auto
  have "\<exists>f' more outcome. progress_queue v mem features capacity queue_size True discover q arrivals answers f = (f', d # more, outcome)"
    if a: "discover \<longrightarrow> length (fr_queues f ! q) \<le> queue_size \<and> queue_size \<le> CONCURRENT_QUEUE_SIZE \<and> arrivals_ok v mem capacity (fr_next_order f) arrivals"
      "an_prepare (answers (queue_size - 1)) 0 = Inr True" "an_accept (answers (queue_size - 1)) = Inr ()" for mem discover arrivals answers
  proof -
    obtain f1 rest1 where f1: "(if discover then discover_loop v mem features capacity queue_size q queue_size arrivals f else (f, Inr ())) = (f1, Inr ())"
      "fr_queues f1 ! q = d # rest1" "\<forall>e\<in>waiting f1. ds_order d \<le> ds_order e"
      using discover_loop_oldest [OF inv ql q(2,3), of queue_size v mem arrivals features queue_size] a(1) q(2,3) by (cases discover) auto
    have "select_candidate f1 q (an_prepare (answers n)) = Inr (Some 0)"
      using oldest_eligible [OF f1(2,3)] a(2) n f1(2) by (simp add: select_candidate_def upt_conv_Cons del: upt_Suc)
    then have "\<exists>f' more outcome. admit_loop q queue_size answers f1 = (f', d # more, outcome)"
      using f1(2) a(3) n by (simp add: Let_def split: prod.splits)
    then show ?thesis by (simp add: progress_queue_def f1(1))
  qed
  with q show ?thesis by blast
qed

theorem oldest_is_admitted_witness:
  "\<exists>q d rest f' more outcome. fr_queues sample_frontier ! q = d # rest \<and> (\<forall>e\<in>waiting sample_frontier. ds_order d \<le> ds_order e) \<and>
     progress_queue sample_codes sample_memory (2 ^ 14) 8192 2 True True q
       [\<lparr>ch_head = 3, ch_descriptors = map (\<lambda>s. (s, False)) sample_chain, ch_next_avail = 10, ch_answer = Some (Inr 3)\<rparr>]
       (\<lambda>_. \<lparr>an_prepare = \<lambda>_. Inr True, an_accept = Inr ()\<rparr>) sample_frontier
       = (f', d # more, outcome)"
proof -
  let ?a = "[\<lparr>ch_head = 3, ch_descriptors = map (\<lambda>s. (s, False)) sample_chain, ch_next_avail = 10, ch_answer = Some (Inr 3)\<rparr>]"
    and ?answers = "\<lambda>_ :: nat. \<lparr>an_prepare = \<lambda>_. Inr True, an_accept = Inr ()\<rparr>"
  have ne: "\<not> Frontier_is_empty sample_frontier" by (simp add: Frontier_is_empty_def sample_frontier_def)
  have size: "0 < (2 :: nat)" "2 \<le> CONCURRENT_QUEUE_SIZE" by (simp_all add: CONCURRENT_QUEUE_SIZE_def)
  from oldest_is_admitted [OF sample_run ne size(1)] obtain q d rest
    where d: "q < CONCURRENT_QUEUES" "fr_queues sample_frontier ! q = d # rest" "\<forall>e\<in>waiting sample_frontier. ds_order d \<le> ds_order e"
      and all: "\<And>mem discover arrivals answers. discover \<longrightarrow> length (fr_queues sample_frontier ! q) \<le> 2 \<and> 2 \<le> CONCURRENT_QUEUE_SIZE \<and>
          arrivals_ok sample_codes mem 8192 (fr_next_order sample_frontier) arrivals \<Longrightarrow>
        an_prepare (answers (2 - 1)) 0 = Inr True \<Longrightarrow> an_accept (answers (2 - 1)) = Inr () \<Longrightarrow>
        \<exists>f' more outcome. progress_queue sample_codes mem (2 ^ 14) 8192 2 True discover q arrivals answers sample_frontier = (f', d # more, outcome)"
    by blast
  have "length (fr_queues sample_frontier ! q) \<le> 2"
    using d(1) by (auto simp: CONCURRENT_QUEUES_def sample_frontier_def less_Suc_eq numeral_eq_Suc)
  moreover have "arrivals_ok sample_codes sample_memory 8192 (fr_next_order sample_frontier) ?a"
    using sample_decode_zero by (simp add: sample_frontier_def u64_max_def)
  ultimately have "\<exists>f' more outcome. progress_queue sample_codes sample_memory (2 ^ 14) 8192 2 True True q ?a ?answers sample_frontier = (f', d # more, outcome)"
    by (intro all) (use size(2) in simp_all)
  with d(2,3) show ?thesis by blast
qed

end
