(* ===== verification/Spec2Isabelle.thy ===== *)
theory Spec2Isabelle
  imports Wal_Format Chunk_Format Catalog_Format Interval_Index Chunk_Cache Channel Budget Scheduler
    Wal_Window Wal_Durability Manifest_Editing Staging_Quota Fetch_Registry Staging_Log
    Inflight_Widths Io_Slots Host_Gate Fair_Queue Request_Frontier
begin

text \<open>
  Verification of the \<^verbatim>\<open>cas\<close> storage core
  (\<^verbatim>\<open>src/crates/cas\<close>).

  \<^bold>\<open>The program.\<close>  \<^verbatim>\<open>cas\<close> is a content-addressed block backend for virtual machines.
  A daemon (\<^verbatim>\<open>src/crates/cas/daemon\<close>) answers vhost-user requests of its guests; the storage
  core (\<^verbatim>\<open>src/crates/cas/core\<close>) keeps the data.  A guest write is admitted against a window of
  the current staging segment, appended to a write-ahead log, published in an interval index and
  made durable by a fence and a sync.  Background work compacts published batches into a chunk
  store, where every block is named by its hash, and records the new placement in a copy-on-write
  manifest; a catalog names images and snapshots; a cache keeps verified blocks; budgets bound the
  memory of all of it, and a scheduler shares the single I/O opportunity among the images.
  A carrier in shared memory remembers the requests in flight, so that a new daemon finishes what its predecessor
  had accepted.

  \<^bold>\<open>Conventions.\<close>  Definitions keep the names of the code: \<^verbatim>\<open>Type::method\<close> is
  \<^verbatim>\<open>Type_method\<close>, and a loop of a method is a function of its own, named after what it does.
  A struct is a record (its fields carry a short prefix), an enum a datatype, an early return or
  \<^verbatim>\<open>?\<close> a branch of a sum type with the error on the left, a panic an error of its own.  Machine
  integers are words where they are stored or may wrap and naturals with checked operations
  (\<^verbatim>\<open>nchecked_add\<close> and its kin in \<^verbatim>\<open>Prelude\<close>) where the code checks them.
  Code outside the repository is an argument: the CRC and hash functions, the outcome of each
  system call, the answer of the standard hash table.  Locks become atomic steps of a relation.

  \<^bold>\<open>Theories.\<close>
  \<^item> \<^verbatim>\<open>Prelude\<close>: result combinators, checked arithmetic, list and word lemmas shared by all.
  \<^item> \<^verbatim>\<open>Encoding\<close>: \<^verbatim>\<open>core/src/encoding.rs\<close>; a locale of fixed-width fields with its
    read-after-write laws, interpreted for the three field widths.
  \<^item> \<^verbatim>\<open>Wal_Format\<close>: \<^verbatim>\<open>append/format.rs\<close>; segment headers, batches, the parser and the builder.
    Round trips for everything a builder seals, and the exact shape of what the parser accepts.
  \<^item> \<^verbatim>\<open>Slot_Page\<close>, \<^verbatim>\<open>Chunk_Index\<close>, \<^verbatim>\<open>Chunk_Format\<close>:
    \<^verbatim>\<open>chunk_index.rs\<close>, \<^verbatim>\<open>store/format.rs\<close>; packed addresses, publication, mark and sweep,
    the chunk batch.  Collection keeps exactly what is reachable.
  \<^item> \<^verbatim>\<open>Manifest_Format\<close>: \<^verbatim>\<open>manifest/format.rs\<close>; leaf, branch and commit pages.
  \<^item> \<^verbatim>\<open>Catalog_Format\<close>: \<^verbatim>\<open>catalog/format.rs\<close> and \<^verbatim>\<open>catalog.rs\<close>; the sorted
    records, binary search, change and atomic publication, refined to a sorted entry list.
  \<^item> \<^verbatim>\<open>Interval_Index\<close>: \<^verbatim>\<open>append/index.rs\<close>; the pending intervals refine a function from blocks
    to mappings.
  \<^item> \<^verbatim>\<open>Lru\<close>, \<^verbatim>\<open>Chunk_Cache\<close>: \<^verbatim>\<open>cache/lru.rs\<close>, \<^verbatim>\<open>cache.rs\<close>; the linked list refines a
    recency list, every hit is verified and charged.
  \<^item> \<^verbatim>\<open>Ring_Queue\<close>, \<^verbatim>\<open>Channel\<close>: \<^verbatim>\<open>budget/queue.rs\<close>, \<^verbatim>\<open>budget/channel.rs\<close>; the ring refines a
    bounded list through the locale \<^verbatim>\<open>bounded_fifo\<close>, and the channel's interleavings
    preserve order, drain after closing and leave no receiver blocked over a message.
  \<^item> \<^verbatim>\<open>Budget\<close>: \<^verbatim>\<open>budget.rs\<close>, \<^verbatim>\<open>budget/allocator.rs\<close>, \<^verbatim>\<open>budget/shared.rs\<close>; usage is the sum of the
    outstanding leases in every interleaving.
  \<^item> \<^verbatim>\<open>Scheduler\<close>: \<^verbatim>\<open>scheduler.rs\<close>; bounds on how long an image or the background waits.
  \<^item> \<^verbatim>\<open>Wal_Log\<close>, \<^verbatim>\<open>Wal_Pins\<close>: \<^verbatim>\<open>append.rs\<close>, \<^verbatim>\<open>append/submission.rs\<close>,
    \<^verbatim>\<open>append/rotation.rs\<close>, \<^verbatim>\<open>append/segment.rs\<close>; issued, published and durable sequences over every
    history of the log, and the pins that keep a segment while a reader holds it.
  \<^item> \<^verbatim>\<open>Wal_Read\<close>: \<^verbatim>\<open>append/read.rs\<close>; a read plan covers the request once, and yields the newest
    published bytes.
  \<^item> \<^verbatim>\<open>Wal_Recovery\<close>, \<^verbatim>\<open>Wal_Durability\<close>: \<^verbatim>\<open>append/recovery.rs\<close>; the scan of a segment, and what a
    crash may leave behind: a recovered log contains every fenced batch and nothing that was not issued.
  \<^item> \<^verbatim>\<open>Wal_Window\<close>: \<^verbatim>\<open>daemon/src/local/window.rs\<close> composed with the log: an admitted batch always
    fits.
  \<^item> \<^verbatim>\<open>Manifest_Tree\<close>, \<^verbatim>\<open>Manifest_Editing\<close>: \<^verbatim>\<open>manifest.rs\<close> and \<^verbatim>\<open>manifest/tree.rs\<close>; the
    copy-on-write tree refines a function from blocks to addresses under lookup and editing.
  \<^item> \<^verbatim>\<open>Space\<close>: \<^verbatim>\<open>space.rs\<close>, \<^verbatim>\<open>space/filesystem.rs\<close>, \<^verbatim>\<open>space/recovery.rs\<close>; promises of the
    governor over every interleaving, through the locale \<^verbatim>\<open>watermark_gate\<close>.
  \<^item> \<^verbatim>\<open>Staging_Quota\<close>, \<^verbatim>\<open>Staging_Log\<close>: \<^verbatim>\<open>space/staging.rs\<close>, \<^verbatim>\<open>staging.rs\<close>,
    \<^verbatim>\<open>staging/format.rs\<close> and the aligned transfers of \<^verbatim>\<open>direct.rs\<close>; permits are accounted, and the
    staging log recovers exactly what its committed slots hold.
  \<^item> \<^verbatim>\<open>Fetch_Registry\<close>: \<^verbatim>\<open>cache/fills.rs\<close>; one leader per hash, every waiter receives its result.
  \<^item> \<^verbatim>\<open>Inflight\<close>, \<^verbatim>\<open>Inflight_Recovery\<close>: \<^verbatim>\<open>daemon/src/inflight.rs\<close> with \<^verbatim>\<open>inflight/layout.rs\<close> and
    \<^verbatim>\<open>inflight/recovery.rs\<close>; the carrier in shared memory that outlives a daemon.  An operation is the list of its
    atomic stores with their orderings, beside its result.
  \<^item> \<^verbatim>\<open>Inflight_Crash\<close>, \<^verbatim>\<open>Inflight_Replay\<close>, \<^verbatim>\<open>Inflight_Operations\<close>, \<^verbatim>\<open>Inflight_Lifecycle\<close>,
    \<^verbatim>\<open>Inflight_Widths\<close>: what a mapping owes the guest, the invariant that makes it recoverable after every single
    store, reconciliation, the atomicity of admission and completion, all histories of operations, deaths and repairs,
    the layout of the mapping and the widths of its atomics.
  \<^item> \<^verbatim>\<open>Io_Slots\<close>: \<^verbatim>\<open>daemon/src/local/reactor/slots.rs\<close> and the tokens of \<^verbatim>\<open>Reactor::enqueue\<close>; through the
    locale \<^verbatim>\<open>token_table\<close>, a token finds what was issued under it and a stale one finds nothing.
  \<^item> \<^verbatim>\<open>Host_Gate\<close>: \<^verbatim>\<open>daemon/src/local/host/admission.rs\<close>; guests and collections exclude each other in
    every interleaving, and the gate fails closed.
  \<^item> \<^verbatim>\<open>Fair_Queue\<close>: \<^verbatim>\<open>daemon/src/local/host/fair.rs\<close>; deficit round robin between the images.  No section panics, work
    is conserved, and through the locale \<^verbatim>\<open>paid_run\<close> a potential bounds the bytes that overtake a waiting image.
  \<^item> \<^verbatim>\<open>Request_Parser\<close>: \<^verbatim>\<open>daemon/src/request.rs\<close>; decoding a guest's descriptor chain never panics, refines
    the protocol's reading of its bytes whatever the descriptor boundaries, and yields requests the inflight log accepts.
  \<^item> \<^verbatim>\<open>Request_Frontier\<close>: \<^verbatim>\<open>daemon/src/backend/frontier.rs\<close> with \<^verbatim>\<open>decode_chain\<close> of \<^verbatim>\<open>backend.rs\<close> and the
    restoring loop of \<^verbatim>\<open>backend/recovery.rs\<close>; through the locale \<^verbatim>\<open>serial_store\<close>, admission out of order is
    equivalent to the order of discovery, and the oldest request is always admissible.

  \<^bold>\<open>Loops and bounds.\<close>  Loops of the code are structural recursions over the data they walk, or
  recursions with a measure: the scan of a segment by the bytes that remain, a descent by the level of
  its cursor, the collapse of an edited tree by its height.  The cache's eviction loop runs at most once per
  resident entry and the waiting loop of the channel takes the list of wake-ups it sees.  Capacities are symbolic
  everywhere: no theorem is restricted to small sizes.

  \<^bold>\<open>Crashes and interleavings.\<close>  A crash of the machine leaves any mixture of the sectors written since the
  last sync; the crash models say which, and assume of a torn record only that its checks notice: a staging record that does
  not decode, a batch of the log with a damaged header, a payload cut short or one whose checksums fail. Anything may
  follow it.
  Threads meet under locks: a step of a relation is a critical section, and a theorem about a reachable
  state speaks of every schedule.
  A death of the daemon inside an operation of the inflight carrier leaves its stores up to some point and any of
  the relaxed stores before the next release; the next daemon reconciles, and may die in turn.  Failures belong to the histories: a
  storage failure or a failed write to the guest marks the attachment, which then only retires requests with errors, and
  which the next daemon refuses.  A reset of a queue is
  taken together with the reset of the guest's ring: a death between the two is outside the histories.  The
  guest's memory is its used index; the other words it shares with the daemon do not enter recovery.

  \<^bold>\<open>Not modelled.\<close>  System calls, directories and event descriptors (\<^verbatim>\<open>directory.rs\<close>,
  \<^verbatim>\<open>eventfd.rs\<close>, the rest of \<^verbatim>\<open>direct.rs\<close>) are arguments.  Reclamation and compaction of the log,
  the files of the chunk store and of the manifest (sequences of file operations around the formats and
  trees modelled here), the census, the daemon's threads, reactor and sockets, statistics, tracing, the
  command line, the test harnesses and the vendored crates are left out.
\<close>

end
